(* ===== verification/Prelude.thy ===== *)
theory Prelude
  imports Main "HOL-Library.Word" "HOL-Library.Monad_Syntax"
begin

text \<open>
  Shared vocabulary of the development: bytes and buffers, checked memory access,
  fixed-width integers written over \<open>nat\<close> and \<open>int\<close>, and little-endian encodings.

  C memory is modelled by buffers of bytes.  A pointer into a buffer is an offset, and
  every access is checked: an access outside the buffer (undefined behaviour in C) is
  the value \<open>None\<close>.  A theorem that an operation returns \<open>Some\<close> is therefore also a
  memory-safety theorem.

  The platform is the one the sources are built for by default: LP64, little endian,
  8-bit signed \<open>char\<close>.
\<close>

unbundle bit_operations_syntax

named_theorems mem_simps
named_theorems enc_simps

type_synonym byte = "8 word"
type_synonym bytes = "byte list"

section \<open>Checked memory access\<close>

text \<open>Reading and writing one cell, and a block of cells (\<open>memcpy\<close>, \<open>memmove\<close>, \<open>memset\<close>).\<close>

definition rd :: "'a list \<Rightarrow> nat \<Rightarrow> 'a option" where
  "rd xs i = (if i < length xs then Some (xs ! i) else None)"

definition wr :: "'a list \<Rightarrow> nat \<Rightarrow> 'a \<Rightarrow> 'a list option" where
  "wr xs i v = (if i < length xs then Some (xs[i := v]) else None)"

definition rd_block :: "'a list \<Rightarrow> nat \<Rightarrow> nat \<Rightarrow> 'a list option" where
  "rd_block xs i n = (if i + n \<le> length xs then Some (take n (drop i xs)) else None)"

definition wr_block :: "'a list \<Rightarrow> nat \<Rightarrow> 'a list \<Rightarrow> 'a list option" where
  "wr_block xs i ys =
     (if i + length ys \<le> length xs
      then Some (take i xs @ ys @ drop (i + length ys) xs) else None)"

definition memmove_at :: "'a list \<Rightarrow> nat \<Rightarrow> nat \<Rightarrow> nat \<Rightarrow> 'a list option" where
  "memmove_at xs dst src n = Option.bind (rd_block xs src n) (wr_block xs dst)"

definition memset_at :: "'a list \<Rightarrow> nat \<Rightarrow> 'a \<Rightarrow> nat \<Rightarrow> 'a list option" where
  "memset_at xs i v n = wr_block xs i (replicate n v)"

text \<open>
  \<open>zrealloc\<close>: the cells common to the old and the new block are kept; what a grown block
  holds beyond them is unspecified in C and is given by the parameter \<open>jk\<close>, a function of
  the cell's offset.  \<open>zrealloc\<close> does not return on exhaustion (it aborts).
\<close>

definition zrealloc_buf :: "(nat \<Rightarrow> 'a) \<Rightarrow> 'a list \<Rightarrow> nat \<Rightarrow> 'a list" where
  "zrealloc_buf jk xs n = take n xs @ map jk [length xs..<n]"

lemma rd_Some_iff: "rd xs i = Some v \<longleftrightarrow> i < length xs \<and> xs ! i = v"
  by (simp add: rd_def)

lemma rd_Cons [simp]: "rd (x # xs) 0 = Some x" "rd (x # xs) (Suc i) = rd xs i"
  by (simp_all add: rd_def)

lemma rd_in [mem_simps]: "i < length xs \<Longrightarrow> rd xs i = Some (xs ! i)"
  by (simp add: rd_def)

lemma rd_out [mem_simps]: "length xs \<le> i \<Longrightarrow> rd xs i = None"
  by (simp add: rd_def)

lemma wr_in [mem_simps]: "i < length xs \<Longrightarrow> wr xs i v = Some (xs[i := v])"
  by (simp add: wr_def)

lemma rd_block_in [mem_simps]:
  "i + n \<le> length xs \<Longrightarrow> rd_block xs i n = Some (take n (drop i xs))"
  by (simp add: rd_block_def)

lemma wr_block_in [mem_simps]:
  "i + length ys \<le> length xs
    \<Longrightarrow> wr_block xs i ys = Some (take i xs @ ys @ drop (i + length ys) xs)"
  by (simp add: wr_block_def)

lemma wr_block_out [mem_simps]: "length xs < i + length ys \<Longrightarrow> wr_block xs i ys = None"
  by (simp add: wr_block_def)

lemma wr_block_Some_length: "wr_block xs i ys = Some zs \<Longrightarrow> length zs = length xs"
  by (auto simp: wr_block_def split: if_splits)

lemma memmove_at_in [mem_simps]:
  "src + n \<le> length xs \<Longrightarrow> dst + n \<le> length xs \<Longrightarrow>
    memmove_at xs dst src n = Some (take dst xs @ take n (drop src xs) @ drop (dst + n) xs)"
  by (simp add: memmove_at_def mem_simps)

lemma memset_at_in [mem_simps]:
  "i + n \<le> length xs \<Longrightarrow>
    memset_at xs i v n = Some (take i xs @ replicate n v @ drop (i + n) xs)"
  by (simp add: memset_at_def mem_simps)

lemma length_zrealloc_buf [simp]: "length (zrealloc_buf jk xs n) = n"
  by (simp add: zrealloc_buf_def)

lemma take_zrealloc_buf: "k \<le> length xs \<Longrightarrow> k \<le> n \<Longrightarrow> take k (zrealloc_buf jk xs n) = take k xs"
  by (simp add: zrealloc_buf_def min_def)

lemma nth_zrealloc_buf: "k < length xs \<Longrightarrow> k < n \<Longrightarrow> zrealloc_buf jk xs n ! k = xs ! k"
  by (simp add: zrealloc_buf_def nth_append)

lemma zrealloc_buf_shrink: "length xs = n \<Longrightarrow> zrealloc_buf jk (xs @ ys) n = xs"
  by (simp add: zrealloc_buf_def)

lemma rd_append_left: "i < length xs \<Longrightarrow> rd (xs @ ys) i = rd xs i"
  by (simp add: rd_def nth_append)

lemma rd_append_right: "length xs \<le> i \<Longrightarrow> rd (xs @ ys) i = rd ys (i - length xs)"
  by (auto simp: rd_def nth_append)

lemma rd_middle [simp]: "rd (xs @ y # ys) (length xs) = Some y"
  by (simp add: rd_def)

lemma rd_block_middle: "length ys = n \<Longrightarrow> rd_block (xs @ ys @ zs) (length xs) n = Some ys"
  by (simp add: rd_block_def)

lemma wr_block_middle:
  "length ys = length zs \<Longrightarrow> wr_block (xs @ ys @ ws) (length xs) zs = Some (xs @ zs @ ws)"
  by (simp add: wr_block_def)

lemma wr_middle: "wr (xs @ y # ws) (length xs) z = Some (xs @ z # ws)"
  by (simp add: wr_def)

section \<open>Fixed-width integers over \<open>nat\<close> and \<open>int\<close>\<close>

text \<open>
  Where C stores a value in a narrower or unsigned type the conversion is written out:
  \<open>u16\<close>, \<open>u32\<close>, \<open>u64\<close> reduce modulo the width, \<open>sgn_of w\<close> reads a \<open>w\<close>-bit pattern as
  two's complement and \<open>uns_of w\<close> is its inverse.
\<close>

definition u16 :: "nat \<Rightarrow> nat" where "u16 n = n mod 2 ^ 16"
definition u32 :: "nat \<Rightarrow> nat" where "u32 n = n mod 2 ^ 32"
definition u64 :: "nat \<Rightarrow> nat" where "u64 n = n mod 2 ^ 64"

definition uns_of :: "nat \<Rightarrow> int \<Rightarrow> nat" where
  "uns_of w i = nat (i mod 2 ^ w)"

definition sgn_of :: "nat \<Rightarrow> nat \<Rightarrow> int" where
  "sgn_of w n = (let m = n mod 2 ^ w in if m < 2 ^ (w - 1) then int m else int m - 2 ^ w)"

abbreviation in_sint :: "nat \<Rightarrow> int \<Rightarrow> bool" where
  "in_sint w i \<equiv> - (2 ^ (w - 1)) \<le> i \<and> i < 2 ^ (w - 1)"

text \<open>Addition and subtraction of \<open>uint32_t\<close> values, which wrap.\<close>

definition add32 :: "nat \<Rightarrow> nat \<Rightarrow> nat" where "add32 a b = u32 (a + b)"

definition sub32 :: "nat \<Rightarrow> nat \<Rightarrow> nat" where "sub32 a b = u32 (a + 2 ^ 32 - b)"

lemma u16_id [simp]: "n < 2 ^ 16 \<Longrightarrow> u16 n = n" by (simp add: u16_def)
lemma u32_id [simp]: "n < 2 ^ 32 \<Longrightarrow> u32 n = n" by (simp add: u32_def)
lemma u64_id [simp]: "n < 2 ^ 64 \<Longrightarrow> u64 n = n" by (simp add: u64_def)

lemma u32_less: "u32 n < 2 ^ 32" by (simp add: u32_def)
lemma u64_less: "u64 n < 2 ^ 64" by (simp add: u64_def)

lemma sub32_le: "b \<le> a \<Longrightarrow> a < 2 ^ 32 \<Longrightarrow> sub32 a b = a - b"
proof -
  assume a: "b \<le> a" "a < 2 ^ 32"
  have "a + 2 ^ 32 - b = (a - b) + 2 ^ 32" using a(1) by (rule Nat.add_diff_assoc2 [symmetric])
  then have "sub32 a b = (a - b + 2 ^ 32) mod 2 ^ 32" unfolding sub32_def u32_def by (rule arg_cong)
  also have "\<dots> = (a - b) mod 2 ^ 32" by (rule mod_add_self2)
  also have "\<dots> = a - b" using a(2) by (intro mod_less) linarith
  finally show ?thesis .
qed

lemma add32_id: "a + b < 2 ^ 32 \<Longrightarrow> add32 a b = a + b"
  by (simp add: add32_def)

lemma uns_of_less: "uns_of w i < 2 ^ w"
proof -
  have "i mod 2 ^ w < 2 ^ w" by simp
  then have "nat (i mod 2 ^ w) < nat (2 ^ w)" by (subst nat_less_eq_zless) simp_all
  then show ?thesis by (simp add: uns_of_def nat_power_eq)
qed

lemma two_power_pred: "0 < w \<Longrightarrow> (2::int) ^ w = 2 * 2 ^ (w - 1)"
  by (cases w) simp_all

lemma int_uns_of: "int (uns_of w i) = i mod 2 ^ w"
  by (simp add: uns_of_def)

lemma sgn_of_uns_of:
  assumes "0 < w" "in_sint w i"
  shows "sgn_of w (uns_of w i) = i"
proof -
  let ?m = "uns_of w i"
  have m: "?m mod 2 ^ w = ?m" using uns_of_less by simp
  have p: "(2::int) ^ w = 2 * 2 ^ (w - 1)" using assms(1) by (rule two_power_pred)
  have c: "(?m < 2 ^ (w - 1)) = (int ?m < 2 ^ (w - 1))"
    by (metis of_nat_less_iff of_nat_numeral of_nat_power)
  show ?thesis
  proof (cases "0 \<le> i")
    case True
    then have "i mod 2 ^ w = i" using assms p by simp
    then show ?thesis using True assms c by (simp add: sgn_of_def m int_uns_of Let_def)
  next
    case False
    then have "(i + 2 ^ w) mod 2 ^ w = i + 2 ^ w" using assms(2) p by (intro mod_pos_pos_trivial) auto
    then have e: "i mod 2 ^ w = i + 2 ^ w" by simp
    then have "\<not> int ?m < 2 ^ (w - 1)" using False assms(2) p by (simp add: int_uns_of)
    then show ?thesis using e c by (simp add: sgn_of_def m int_uns_of Let_def)
  qed
qed

lemma sgn_of_range:
  assumes "0 < w"
  shows "in_sint w (sgn_of w n)"
proof -
  let ?m = "n mod 2 ^ w"
  have p: "(2::int) ^ w = 2 * 2 ^ (w - 1)" using assms by (rule two_power_pred)
  have b: "int ?m < 2 ^ w"
    by (metis mod_less_divisor of_nat_less_iff of_nat_numeral of_nat_power zero_less_numeral zero_less_power)
  have c: "(?m < 2 ^ (w - 1)) = (int ?m < 2 ^ (w - 1))"
    by (metis of_nat_less_iff of_nat_numeral of_nat_power)
  show ?thesis using b c p by (auto simp: sgn_of_def Let_def)
qed

section \<open>Little-endian encodings\<close>

fun le_enc :: "nat \<Rightarrow> nat \<Rightarrow> bytes" where
  "le_enc 0 v = []"
| "le_enc (Suc k) v = of_nat (v mod 256) # le_enc k (v div 256)"

fun le_dec :: "bytes \<Rightarrow> nat" where
  "le_dec [] = 0"
| "le_dec (b # bs) = unat b + 256 * le_dec bs"

definition be_enc :: "nat \<Rightarrow> nat \<Rightarrow> bytes" where "be_enc k v = rev (le_enc k v)"
definition be_dec :: "bytes \<Rightarrow> nat" where "be_dec bs = le_dec (rev bs)"

lemma unat_byte_less [simp]: "unat (b::byte) < 256"
  using unsigned_less [of b, where ?'a = nat] by simp

lemma unat_of_nat_byte [simp]: "unat (of_nat n :: byte) = n mod 256"
  by (simp add: unat_of_nat take_bit_eq_mod)

lemma of_nat_unat_byte [simp]: "of_nat (unat b) = (b::byte)"
  by simp

lemma length_le_enc [simp, enc_simps]: "length (le_enc k v) = k"
  by (induction k arbitrary: v) auto

lemma length_be_enc [simp, enc_simps]: "length (be_enc k v) = k"
  by (simp add: be_enc_def)

lemma le_dec_enc_mod: "le_dec (le_enc k v) = v mod 256 ^ k"
proof (induction k arbitrary: v)
  case 0
  then show ?case by simp
next
  case (Suc k)
  have "v mod 256 ^ Suc k = v mod 256 + 256 * (v div 256 mod 256 ^ k)"
    by (simp add: mod_mult2_eq add.commute)
  then show ?case using Suc.IH [of "v div 256"] by simp
qed

lemma le_dec_enc [simp, enc_simps]: "v < 256 ^ k \<Longrightarrow> le_dec (le_enc k v) = v"
  by (simp add: le_dec_enc_mod)

lemma be_dec_enc [simp, enc_simps]: "v < 256 ^ k \<Longrightarrow> be_dec (be_enc k v) = v"
  by (simp add: be_dec_def be_enc_def)

lemma le_dec_less: "le_dec bs < 256 ^ length bs"
proof (induction bs)
  case Nil
  then show ?case by simp
next
  case (Cons b bs)
  have "unat b + 256 * le_dec bs < 256 + 256 * le_dec bs" by simp
  also have "\<dots> = 256 * Suc (le_dec bs)" by simp
  also have "\<dots> \<le> 256 * 256 ^ length bs" using Cons.IH by (intro mult_le_mono2) simp
  finally show ?case by simp
qed

lemma le_enc_dec [simp]: "length bs = k \<Longrightarrow> le_enc k (le_dec bs) = bs"
proof (induction bs arbitrary: k)
  case Nil
  then show ?case by simp
next
  case (Cons b bs)
  then obtain j where k: "k = Suc j" "length bs = j" by auto
  have "(unat b + 256 * le_dec bs) mod 256 = unat b" by simp
  moreover have "(unat b + 256 * le_dec bs) div 256 = le_dec bs" by simp
  ultimately show ?case using k Cons.IH by simp
qed

lemma le_enc_inject: "v < 256 ^ k \<Longrightarrow> w < 256 ^ k \<Longrightarrow> le_enc k v = le_enc k w \<longleftrightarrow> v = w"
  by (metis le_dec_enc)

section \<open>Lists\<close>

lemma take_Suc_nth: "i < length xs \<Longrightarrow> take (Suc i) xs = take i xs @ [xs ! i]"
  by (rule take_Suc_conv_app_nth)

lemma drop_nth_Cons: "i < length xs \<Longrightarrow> drop i xs = xs ! i # drop (Suc i) xs"
  by (simp add: Cons_nth_drop_Suc)


section \<open>Loops that may fail\<close>

text \<open>A \<open>for\<close> loop over a list whose body may fail.\<close>

fun ofold :: "('s \<Rightarrow> 'a \<Rightarrow> 's option) \<Rightarrow> 's \<Rightarrow> 'a list \<Rightarrow> 's option" where
  "ofold f s [] = Some s"
| "ofold f s (x # xs) = do { s \<leftarrow> f s x; ofold f s xs }"

lemma ofold_append: "ofold f s (xs @ ys) = ofold f s xs \<bind> (\<lambda>t. ofold f t ys)"
  by (induction xs arbitrary: s) (auto split: bind_splits)

text \<open>
  The interface of a growing byte buffer: appending succeeds within the capacity and the
  represented content grows by what was appended.  Clients that build output piecewise
  need only this law.
\<close>

locale byte_appender =
  fixes app :: "'s \<Rightarrow> bytes \<Rightarrow> 's option"
    and rep :: "'s \<Rightarrow> bytes \<Rightarrow> bool"
    and cap :: nat
  assumes app_rep: "rep s xs \<Longrightarrow> length xs + length t \<le> cap \<Longrightarrow> \<exists>s'. app s t = Some s' \<and> rep s' (xs @ t)"
begin

lemma app_two:
  assumes "rep s xs" "length xs + length t + length u \<le> cap"
  shows "\<exists>s'. app s t \<bind> (\<lambda>s. app s u) = Some s' \<and> rep s' (xs @ t @ u)"
proof -
  obtain s1 where s1: "app s t = Some s1" "rep s1 (xs @ t)" using app_rep [OF assms(1), of t] assms(2) by auto
  obtain s2 where "app s1 u = Some s2" "rep s2 ((xs @ t) @ u)" using app_rep [OF s1(2), of u] assms(2) by auto
  then show ?thesis using s1 by simp
qed

lemma ofold_app:
  assumes "\<And>s xs x. rep s xs \<Longrightarrow> x \<in> set ts \<Longrightarrow> length xs + length (g x) \<le> cap \<Longrightarrow>
      \<exists>s'. f s x = Some s' \<and> rep s' (xs @ g x)"
    and "rep s xs" "length xs + length (concat (map g ts)) \<le> cap"
  shows "\<exists>s'. ofold f s ts = Some s' \<and> rep s' (xs @ concat (map g ts))"
  using assms
proof (induction ts arbitrary: s xs)
  case Nil
  then show ?case by simp
next
  case (Cons t ts)
  have "length xs + length (g t) \<le> cap" using Cons.prems(3) by simp
  then obtain s1 where s1: "f s t = Some s1" "rep s1 (xs @ g t)"
    using Cons.prems(1) [OF Cons.prems(2), of t] by auto
  have "length (xs @ g t) + length (concat (map g ts)) \<le> cap" using Cons.prems(3) by simp
  then obtain s2 where "ofold f s1 ts = Some s2" "rep s2 ((xs @ g t) @ concat (map g ts))"
    using Cons.IH [OF Cons.prems(1) s1(2)] by auto
  then show ?case using s1 by simp
qed

end

end
