(* ===== verification/Util.thy ===== *)
theory Util
  imports Prelude
begin

text \<open>
  The number and string helpers of \<open>util.c\<close>: \<open>digits10\<close>, \<open>ll2string\<close>, \<open>string2ll\<close> and
  \<open>string2l\<close>.  The reference notions are the plain decimal digits of a natural number
  and the canonical decimal representation of a signed integer; \<open>ll2string\<close> (two digits
  at a time through a table, from the right end of a caller-supplied buffer) is shown to
  write exactly that representation, and \<open>string2ll\<close> to accept exactly those.
\<close>

section \<open>Reference: decimal representation\<close>

fun ndigits :: "nat \<Rightarrow> nat" where
  "ndigits n = (if n < 10 then 1 else Suc (ndigits (n div 10)))"

fun dec_digits :: "nat \<Rightarrow> bytes" where
  "dec_digits n =
     (if n < 10 then [of_nat (48 + n)]
      else dec_digits (n div 10) @ [of_nat (48 + n mod 10)])"

declare ndigits.simps [simp del] dec_digits.simps [simp del]

definition ll_decimal :: "int \<Rightarrow> bytes" where
  "ll_decimal v = (if v < 0 then 45 # dec_digits (nat (- v)) else dec_digits (nat v))"

section \<open>\<open>digits10\<close>\<close>

fun digits10 :: "nat \<Rightarrow> nat" where
  "digits10 v =
     (if v < 10 then 1 else
      if v < 100 then 2 else
      if v < 1000 then 3 else
      if v < 1000000000000 then
        (if v < 100000000 then
           (if v < 1000000 then
              (if v < 10000 then 4 else 5 + (if v \<ge> 100000 then 1 else 0))
            else 7 + (if v \<ge> 10000000 then 1 else 0))
         else if v < 10000000000 then 9 + (if v \<ge> 1000000000 then 1 else 0)
         else 11 + (if v \<ge> 100000000000 then 1 else 0))
      else 12 + digits10 (v div 1000000000000))"

declare digits10.simps [simp del]

section \<open>\<open>ll2string\<close>\<close>

text \<open>The static table \<open>digits[201]\<close>: the two-digit strings 00 to 99, and the terminator.\<close>

definition digits_tbl :: bytes where
  "digits_tbl = map of_char
     (''0001020304050607080910111213141516171819'' @
      ''2021222324252627282930313233343536373839'' @
      ''4041424344454647484950515253545556575859'' @
      ''6061626364656667686970717273747576777879'' @
      ''8081828384858687888990919293949596979899'') @ [0]"

text \<open>The loop \<open>while (value >= 100)\<close>: state is the buffer, \<open>next\<close> and \<open>value\<close>.\<close>

fun ll2string_loop :: "bytes \<Rightarrow> nat \<Rightarrow> nat \<Rightarrow> (bytes \<times> nat \<times> nat) option" where
  "ll2string_loop dst nxt val =
     (if val \<ge> 100 then
        let i = (val mod 100) * 2 in
        do {
          d1 \<leftarrow> rd digits_tbl (i + 1);
          dst \<leftarrow> wr dst nxt d1;
          d0 \<leftarrow> rd digits_tbl i;
          dst \<leftarrow> wr dst (sub32 nxt 1) d0;
          ll2string_loop dst (sub32 nxt 2) (val div 100)
        }
      else Some (dst, nxt, val))"

declare ll2string_loop.simps [simp del]

text \<open>
  \<open>ll2string dst dstlen svalue\<close> returns the C return value and the buffer afterwards.
\<close>

definition ll2string :: "bytes \<Rightarrow> nat \<Rightarrow> int \<Rightarrow> (nat \<times> bytes) option" where
  "ll2string dst dstlen svalue =
     (let val = (if svalue < 0
                 then (if svalue \<noteq> - (2 ^ 63) then nat (- svalue) else (2 ^ 63 - 1) + 1)
                 else nat svalue);
          negative = (if svalue < 0 then 1 else 0);
          len = u32 (digits10 val + negative)
      in if len \<ge> dstlen then Some (0, dst)
         else do {
           dst \<leftarrow> wr dst len 0;
           (dst, nxt, val) \<leftarrow> ll2string_loop dst (sub32 len 1) val;
           dst \<leftarrow> (if val < 10 then wr dst nxt (of_nat (48 + val))
                  else do {
                    d1 \<leftarrow> rd digits_tbl (val * 2 + 1);
                    dst \<leftarrow> wr dst nxt d1;
                    d0 \<leftarrow> rd digits_tbl (val * 2);
                    wr dst (sub32 nxt 1) d0
                  });
           dst \<leftarrow> (if negative = 1 then wr dst 0 45 else Some dst);
           Some (len, dst)
         })"

section \<open>\<open>string2ll\<close> and \<open>string2l\<close>\<close>

text \<open>The digit loop; \<open>None\<close> is the early \<open>return 0\<close> on overflow of \<open>unsigned long long\<close>.\<close>

fun string2ll_loop :: "nat \<Rightarrow> bytes \<Rightarrow> (nat \<times> bytes) option" where
  "string2ll_loop v [] = Some (v, [])"
| "string2ll_loop v (c # p) =
     (if 48 \<le> c \<and> c \<le> 57 then
        if v > (2 ^ 64 - 1) div 10 then None else
        let v = u64 (v * 10) in
        if v > (2 ^ 64 - 1) - (unat c - 48) then None else
        string2ll_loop (u64 (v + (unat c - 48))) p
      else Some (v, c # p))"

text \<open>\<open>None\<close> is the return value 0, \<open>Some v\<close> is 1 with \<open>*value = v\<close>.\<close>

definition string2ll :: "bytes \<Rightarrow> int option" where
  "string2ll s =
     (if s = [] then None
      else if length s = 1 \<and> s ! 0 = 48 then Some 0
      else
        let negative = (s ! 0 = 45);
            p = (if negative then tl s else s)
        in if p = [] then None
           else if 49 \<le> p ! 0 \<and> p ! 0 \<le> 57 then
             (case string2ll_loop (unat (p ! 0) - 48) (tl p) of
                None \<Rightarrow> None
              | Some (v, rest) \<Rightarrow>
                  if rest \<noteq> [] then None
                  else if negative then
                    (if v > (2 ^ 63 - 1) + 1 then None else Some (sgn_of 64 (uns_of 64 (- int v))))
                  else if v > 2 ^ 63 - 1 then None else Some (int v))
           else if p ! 0 = 48 \<and> length s = 1 then Some 0
           else None)"

definition string2l :: "bytes \<Rightarrow> int option" where
  "string2l s =
     (case string2ll s of
        None \<Rightarrow> None
      | Some llval \<Rightarrow>
          if llval < - (2 ^ 63) \<or> llval > 2 ^ 63 - 1 then None else Some llval)"


section \<open>Facts about the decimal reference\<close>

lemma length_dec_digits [simp]: "length (dec_digits n) = ndigits n"
proof (induction n rule: dec_digits.induct)
  case (1 n)
  then show ?case by (simp add: dec_digits.simps [of n] ndigits.simps [of n])
qed

lemma ndigits_pos [simp]: "0 < ndigits n"
  by (simp add: ndigits.simps [of n])

lemma ndigits_shift: "10 ^ k \<le> n \<Longrightarrow> ndigits n = k + ndigits (n div 10 ^ k)"
proof (induction k arbitrary: n)
  case 0
  then show ?case by simp
next
  case (Suc k)
  have k: "10 ^ k \<le> n div 10"
    using Suc.prems by (simp add: less_eq_div_iff_mult_less_eq mult.commute)
  have "1 \<le> n div 10" by (rule order_trans [OF _ k]) simp
  then have "\<not> n < 10" by auto
  then have "ndigits n = Suc (ndigits (n div 10))" by (simp add: ndigits.simps [of n])
  also have "\<dots> = Suc (k + ndigits (n div 10 div 10 ^ k))" using Suc.IH [OF k] by simp
  finally show ?case by (simp add: div_mult2_eq)
qed

lemma ndigits_unique:
  assumes "10 ^ d \<le> n" "n < 10 ^ Suc d"
  shows "ndigits n = Suc d"
proof -
  have "n div 10 ^ d < 10" using assms(2) by (simp add: div_less_iff_less_mult mult.commute)
  then show ?thesis using ndigits_shift [OF assms(1)] by (simp add: ndigits.simps [of "n div 10 ^ d"])
qed

lemma ndigits_le: "n < 10 ^ d \<Longrightarrow> 0 < d \<Longrightarrow> ndigits n \<le> d"
proof (induction d arbitrary: n)
  case 0
  then show ?case by simp
next
  case (Suc d)
  then show ?case
    by (cases "n < 10"; cases d) (auto simp: ndigits.simps [of n] div_less_iff_less_mult mult.commute)
qed

lemma dec_digits_snoc: "0 < v \<Longrightarrow> d < 10 \<Longrightarrow> dec_digits (v * 10 + d) = dec_digits v @ [of_nat (48 + d)]"
  by (simp add: dec_digits.simps [of "v * 10 + d"])

abbreviation is_digit :: "byte \<Rightarrow> bool" where
  "is_digit c \<equiv> 48 \<le> c \<and> c \<le> 57"

abbreviation dig_step :: "nat \<Rightarrow> byte \<Rightarrow> nat" where
  "dig_step a c \<equiv> a * 10 + (unat c - 48)"

lemma is_digit_unat: "is_digit c \<longleftrightarrow> 48 \<le> unat c \<and> unat c \<le> 57"
  by (simp add: word_le_nat_alt)

lemma digit_of_nat [simp]:
  assumes "d < 10"
  shows "is_digit (of_nat (48 + d))" "unat (of_nat (48 + d) :: byte) = 48 + d"
  using assms unat_of_nat_byte [of "48 + d"] by (simp_all add: is_digit_unat del: of_nat_add)

lemma digits_dec_digits: "c \<in> set (dec_digits n) \<Longrightarrow> is_digit c"
proof (induction n rule: dec_digits.induct)
  case (1 n)
  show ?case
  proof (cases "n < 10")
    case True
    then show ?thesis using "1.prems" digit_of_nat(1) [of n] by (simp add: dec_digits.simps [of n] del: of_nat_add)
  next
    case False
    then show ?thesis
      using "1.prems" "1.IH" digit_of_nat(1) [of "n mod 10"]
      by (auto simp add: dec_digits.simps [of n] simp del: of_nat_add)
  qed
qed

lemma foldl_dec_digits: "foldl dig_step 0 (dec_digits n) = n"
proof (induction n rule: dec_digits.induct)
  case (1 n)
  show ?case
  proof (cases "n < 10")
    case True
    then show ?thesis using digit_of_nat(2) [of n] by (simp add: dec_digits.simps [of n] del: of_nat_add)
  next
    case False
    then show ?thesis
      using "1.IH" digit_of_nat(2) [of "n mod 10"]
      by (simp add: dec_digits.simps [of n] del: of_nat_add)
  qed
qed

lemma foldl_dig_step_ge: "v \<le> foldl dig_step v p"
proof (induction p arbitrary: v)
  case Nil
  then show ?case by simp
next
  case (Cons c p)
  have "v \<le> dig_step v c" by simp
  also have "\<dots> \<le> foldl dig_step (dig_step v c) p" by (rule Cons.IH)
  finally show ?case by simp
qed

lemma dec_digits_foldl:
  "0 < v \<Longrightarrow> \<forall>c\<in>set p. is_digit c \<Longrightarrow> dec_digits (foldl dig_step v p) = dec_digits v @ p"
proof (induction p arbitrary: v)
  case Nil
  then show ?case by simp
next
  case (Cons c p)
  have c: "48 \<le> unat c" "unat c \<le> 57" using Cons.prems by (simp_all add: word_le_nat_alt)
  then have "of_nat (48 + (unat c - 48)) = c" by simp
  then have "dec_digits (dig_step v c) = dec_digits v @ [c]"
    using dec_digits_snoc [of v "unat c - 48"] c Cons.prems(1) by simp
  then show ?case using Cons.IH [of "dig_step v c"] Cons.prems by simp
qed

lemma dec_digits_head:
  "0 < n \<Longrightarrow> \<exists>c p. dec_digits n = c # p \<and> 49 \<le> c \<and> c \<le> 57"
proof (induction n rule: dec_digits.induct)
  case (1 n)
  show ?case
  proof (cases "n < 10")
    case True
    then have "unat (of_nat (48 + n) :: byte) = 48 + n" by (rule digit_of_nat(2))
    then show ?thesis using True "1.prems" by (simp add: dec_digits.simps [of n] word_le_nat_alt del: of_nat_add)
  next
    case False
    then show ?thesis using "1.IH" by (fastforce simp: dec_digits.simps [of n])
  qed
qed

lemma dec_digits_0 [simp]: "dec_digits 0 = [48]"
  by (simp add: dec_digits.simps)

section \<open>\<open>digits10\<close> counts decimal digits\<close>

lemmas ndigits_small =
  ndigits_unique [of 1, simplified] ndigits_unique [of 2, simplified]
  ndigits_unique [of 3, simplified] ndigits_unique [of 4, simplified]
  ndigits_unique [of 5, simplified] ndigits_unique [of 6, simplified]
  ndigits_unique [of 7, simplified] ndigits_unique [of 8, simplified]
  ndigits_unique [of 9, simplified] ndigits_unique [of 10, simplified]
  ndigits_unique [of 11, simplified]

lemma digits10_ndigits: "digits10 v = ndigits v"
proof (induction v rule: digits10.induct)
  case (1 v)
  consider "v < 10" | "10 \<le> v" "v < 100" | "100 \<le> v" "v < 1000" | "1000 \<le> v" "v < 10000"
    | "10000 \<le> v" "v < 100000" | "100000 \<le> v" "v < 1000000" | "1000000 \<le> v" "v < 10000000"
    | "10000000 \<le> v" "v < 100000000" | "100000000 \<le> v" "v < 1000000000"
    | "1000000000 \<le> v" "v < 10000000000" | "10000000000 \<le> v" "v < 100000000000"
    | "100000000000 \<le> v" "v < 1000000000000" | "1000000000000 \<le> v"
    by (meson not_le)
  then show ?case
  proof cases
    case 1
    then show ?thesis by (simp add: digits10.simps [of v] ndigits.simps [of v])
  next
    case 13
    then show ?thesis using "1.IH" ndigits_shift [of 12 v] by (simp add: digits10.simps [of v])
  qed (simp add: digits10.simps [of v] ndigits_small)+
qed

section \<open>\<open>ll2string\<close> writes the decimal representation\<close>

lemma pairs_nth:
  "i < length xs \<Longrightarrow>
    rd (concat (map (\<lambda>x. [f x, g x]) xs) @ zs) (i * 2) = Some (f (xs ! i)) \<and>
    rd (concat (map (\<lambda>x. [f x, g x]) xs) @ zs) (i * 2 + 1) = Some (g (xs ! i))"
proof (induction xs arbitrary: i)
  case Nil
  then show ?case by simp
next
  case (Cons x xs)
  then show ?case by (cases i) auto
qed

lemma digits_tbl_pairs:
  "digits_tbl = concat (map (\<lambda>i. [of_nat (48 + i div 10), of_nat (48 + i mod 10)]) [0..<100]) @ [0]"
  by (simp add: digits_tbl_def upt_conv_Cons)

lemma digits_tbl_nth:
  assumes "i < 100"
  shows "rd digits_tbl (i * 2) = Some (of_nat (48 + i div 10))"
    and "rd digits_tbl (i * 2 + 1) = Some (of_nat (48 + i mod 10))"
  using assms pairs_nth [of i "[0..<100]" "\<lambda>i. of_nat (48 + i div 10) :: byte"
      "\<lambda>i. of_nat (48 + i mod 10)" "[0]"]
  by (simp_all add: digits_tbl_pairs del: of_nat_add)

lemma dec_digits_two:
  "10 \<le> n \<Longrightarrow> n < 100 \<Longrightarrow> dec_digits n = [of_nat (48 + n div 10), of_nat (48 + n mod 10)]"
  by (simp add: dec_digits.simps [of n] dec_digits.simps [of "n div 10"])

lemma dec_digits_two_more:
  assumes "100 \<le> n"
  shows "dec_digits n = dec_digits (n div 100) @
    [of_nat (48 + n mod 100 div 10), of_nat (48 + n mod 100 mod 10)]"
proof -
  have "n div 10 mod 10 = n mod 100 div 10" using mod_mult2_eq [of n 10 10] by simp
  moreover have "n mod 100 mod 10 = n mod 10" by (simp add: mod_mod_cancel)
  moreover have "\<not> n < 10" "\<not> n div 10 < 10" "n div 10 div 10 = n div 100"
    using assms by (auto simp: div_mult2_eq [symmetric])
  ultimately show ?thesis by (simp add: dec_digits.simps [of n] dec_digits.simps [of "n div 10"])
qed

lemma ndigits_two_more: "100 \<le> n \<Longrightarrow> ndigits n = ndigits (n div 100) + 2"
  using dec_digits_two_more [of n, THEN arg_cong [where f = length]] by simp

text \<open>Two adjacent cell writes, in the order the code makes them, as one block.\<close>

lemma two_updates:
  "Suc k < length xs \<Longrightarrow> xs[Suc k := b, k := a] = take k xs @ [a, b] @ drop (k + 2) xs"
proof (induction k arbitrary: xs)
  case 0
  then obtain x y zs where "xs = x # y # zs" by (metis Suc_length_conv length_0_conv less_Suc0 not_less_eq list.exhaust_sel
      length_Cons)
  then show ?case by simp
next
  case (Suc k)
  then show ?case by (cases xs) auto
qed

lemma two_writes:
  assumes "Suc k < length xs"
  shows "do { ys \<leftarrow> wr xs (Suc k) b; wr ys k a } = Some (take k xs @ [a, b] @ drop (k + 2) xs)"
    and "do { ys \<leftarrow> wr xs (Suc k) b; zs \<leftarrow> wr ys k a; f zs } = f (take k xs @ [a, b] @ drop (k + 2) xs)"
  using assms two_updates [OF assms, of b a] by (simp_all add: wr_def)

text \<open>
  The loop leaves a value below 100 and has written exactly the digits that the remaining
  value lacks, right of position \<open>nxt\<close>.
\<close>

lemma ll2string_loop_spec:
  assumes "nxt < length dst" "nxt < 2 ^ 32" "nxt + 1 = off + ndigits val"
  shows "\<exists>nxt' val' w. ll2string_loop dst nxt val = Some (take (nxt' + 1) dst @ w @ drop (nxt + 1) dst, nxt', val')
    \<and> val' < 100 \<and> nxt' + 1 = off + ndigits val' \<and> dec_digits val = dec_digits val' @ w \<and> nxt' \<le> nxt"
  using assms
proof (induction val arbitrary: dst nxt rule: less_induct)
  case (less val)
  show ?case
  proof (cases "val \<ge> 100")
    case False
    then show ?thesis using less.prems
      by (intro exI [of _ nxt] exI [of _ val] exI [of _ "[]"]) (simp add: ll2string_loop.simps [of dst nxt val])
  next
    case True
    let ?a = "of_nat (48 + val mod 100 div 10) :: byte" and ?b = "of_nat (48 + val mod 100 mod 10) :: byte"
    have two: "ndigits val = ndigits (val div 100) + 2" using True by (rule ndigits_two_more)
    have n2: "2 \<le> nxt" using less.prems(3) two ndigits_pos [of "val div 100"] by linarith
    then obtain k where k: "nxt = Suc k" "1 \<le> k" by (cases nxt) auto
    let ?dst = "take k dst @ [?a, ?b] @ drop (k + 2) dst"
    have s: "sub32 nxt 1 = k" "sub32 nxt 2 = k - 1" using k less.prems(2) by (auto simp: sub32_le)
    have step: "ll2string_loop dst nxt val = ll2string_loop ?dst (k - 1) (val div 100)"
      using True two_writes(2) [of k dst ?b ?a "\<lambda>d. ll2string_loop d (k - 1) (val div 100)"]
        less.prems(1) k(1) s digits_tbl_nth [of "val mod 100"]
      by (subst ll2string_loop.simps) (simp add: Let_def del: of_nat_add)
    have lt: "val div 100 < val" using True by simp
    have p: "k - 1 < length ?dst" "k - 1 < 2 ^ 32" "k - 1 + 1 = off + ndigits (val div 100)"
      using less.prems k two by simp_all
    obtain nxt' val' w where r:
      "ll2string_loop ?dst (k - 1) (val div 100) = Some (take (nxt' + 1) ?dst @ w @ drop (k - 1 + 1) ?dst, nxt', val')"
      "val' < 100" "nxt' + 1 = off + ndigits val'" "dec_digits (val div 100) = dec_digits val' @ w" "nxt' \<le> k - 1"
      using less.IH [OF lt p] by blast
    have "take (nxt' + 1) ?dst = take (nxt' + 1) dst"
      using r(5) k less.prems(1) by (simp add: min_def)
    moreover have "drop (k - 1 + 1) ?dst = [?a, ?b] @ drop (nxt + 1) dst"
      using k less.prems(1) by simp
    ultimately have "ll2string_loop dst nxt val = Some (take (nxt' + 1) dst @ (w @ [?a, ?b]) @ drop (nxt + 1) dst, nxt', val')"
      using r(1) step by (simp del: of_nat_add)
    then show ?thesis using r k dec_digits_two_more [OF True]
      by (intro exI [of _ nxt'] exI [of _ val'] exI [of _ "w @ [?a, ?b]"]) (simp del: of_nat_add)
  qed
qed

text \<open>The last one or two digits, written after the loop.\<close>

lemma ll2string_last:
  assumes "val < 100" "nxt < length dst" "nxt < 2 ^ 32" "nxt + 1 = off + ndigits val"
  shows "(if val < 10 then wr dst nxt (of_nat (48 + val))
          else do {
            d1 \<leftarrow> rd digits_tbl (val * 2 + 1);
            dst \<leftarrow> wr dst nxt d1;
            d0 \<leftarrow> rd digits_tbl (val * 2);
            wr dst (sub32 nxt 1) d0
          }) = Some (take off dst @ dec_digits val @ drop (nxt + 1) dst)"
proof (cases "val < 10")
  case True
  then have "ndigits val = 1" "dec_digits val = [of_nat (48 + val)]"
    by (simp_all add: ndigits.simps [of val] dec_digits.simps [of val])
  then show ?thesis using True assms by (simp add: wr_def upd_conv_take_nth_drop del: of_nat_add)
next
  case False
  then have d: "dec_digits val = [of_nat (48 + val div 10), of_nat (48 + val mod 10)]"
    using assms(1) by (simp add: dec_digits_two)
  then have "ndigits val = 2" using length_dec_digits [of val] by simp
  then have n: "nxt = Suc off" using assms(4) by simp
  then have "sub32 nxt 1 = off" using assms(3) by (simp add: sub32_le)
  then show ?thesis
    using False d n assms two_writes(1) [of off dst] digits_tbl_nth [of val] by (simp del: of_nat_add)
qed

lemma ndigits_ll: "n \<le> 2 ^ 63 \<Longrightarrow> ndigits n \<le> 19"
  by (rule ndigits_le) simp_all

lemma length_ll_decimal: "length (ll_decimal v) = ndigits (nat \<bar>v\<bar>) + (if v < 0 then 1 else 0)"
  by (simp add: ll_decimal_def)

lemma ll_magnitude_digits: "in_sint 64 v \<Longrightarrow> ndigits (nat \<bar>v\<bar>) \<le> 19"
proof -
  assume "in_sint 64 v"
  then have "nat \<bar>v\<bar> \<le> nat (2 ^ 63)" by (intro nat_mono) (simp add: abs_le_iff)
  then show ?thesis by (intro ndigits_ll) simp
qed

lemma length_ll_decimal_le: "in_sint 64 v \<Longrightarrow> length (ll_decimal v) \<le> 20"
proof -
  assume "in_sint 64 v"
  moreover have "(if v < 0 then 1 else 0) \<le> (1::nat)" by simp
  ultimately show ?thesis using ll_magnitude_digits [of v] unfolding length_ll_decimal by linarith
qed

lemma ll2string_spec:
  assumes "in_sint 64 v" "dstlen \<le> length dst"
  shows "ll2string dst dstlen v =
    Some (if length (ll_decimal v) \<ge> dstlen then (0, dst)
          else (length (ll_decimal v), ll_decimal v @ 0 # drop (length (ll_decimal v) + 1) dst))"
proof -
  let ?n = "nat \<bar>v\<bar>" and ?neg = "if v < 0 then 1 else 0 :: nat"
  let ?len = "ndigits ?n + ?neg"
  have val: "(if v < 0 then (if v \<noteq> - (2 ^ 63) then nat (- v) else (2 ^ 63 - 1) + 1) else nat v) = ?n"
    by simp
  have nd: "ndigits ?n \<le> 19" using assms(1) by (rule ll_magnitude_digits)
  have "?neg \<le> 1" by simp
  then have "?len \<le> 20" using nd by linarith
  then have lt32: "?len < 2 ^ 32" by (rule le_less_trans) simp
  then have len: "u32 (digits10 ?n + ?neg) = ?len" unfolding digits10_ndigits by (rule u32_id)
  show ?thesis
  proof (cases "?len \<ge> dstlen")
    case True
    then show ?thesis by (simp only: ll2string_def val len Let_def length_ll_decimal if_True)
  next
    case False
    then have in_dst: "?len < length dst" using assms(2) by linarith
    let ?d0 = "dst[?len := 0]"
    let ?nxt = "?len - 1"
    have ge1: "1 \<le> ?len" using ndigits_pos [of ?n] by linarith
    have nx1: "sub32 ?len 1 = ?nxt" using ge1 lt32 by (rule sub32_le)
    have nx: "?nxt < length ?d0" "?nxt < 2 ^ 32" "?nxt + 1 = ?neg + ndigits ?n"
      using False assms(2) ge1 lt32 by auto
    from ll2string_loop_spec [OF nx] obtain nxt' val' w where
      r: "ll2string_loop ?d0 ?nxt ?n = Some (take (nxt' + 1) ?d0 @ w @ drop (?nxt + 1) ?d0, nxt', val')"
      "val' < 100" "nxt' + 1 = ?neg + ndigits val'" "dec_digits ?n = dec_digits val' @ w" "nxt' \<le> ?nxt"
      by blast
    let ?d1 = "take (nxt' + 1) ?d0 @ w @ drop (?nxt + 1) ?d0"
    have "nxt' < length ?d1" "nxt' < 2 ^ 32" using r(5) nx(1,2) by auto
    note last = ll2string_last [OF r(2) this r(3)]
    have "take ?neg ?d1 = take ?neg dst" using r(5) nx(1) r(3) by (simp add: min_def)
    moreover have "drop (nxt' + 1) ?d1 = w @ drop ?len ?d0"
      using r(5) nx(1) ge1 by simp
    moreover have "drop ?len ?d0 = 0 # drop (?len + 1) dst"
      using False assms(2) by (simp add: drop_update_swap Cons_nth_drop_Suc [symmetric])
    ultimately have d2: "take ?neg ?d1 @ dec_digits val' @ drop (nxt' + 1) ?d1
        = take ?neg dst @ dec_digits ?n @ 0 # drop (?len + 1) dst" (is "_ = ?d2")
      using r(4) by simp
    have sign: "(if ?neg = 1 then wr ?d2 0 45 else Some ?d2) = Some (ll_decimal v @ 0 # drop (?len + 1) dst)"
      using False assms(2) by (cases dst) (auto simp: ll_decimal_def wr_def)
    have "ll2string dst dstlen v = Some (?len, ll_decimal v @ 0 # drop (?len + 1) dst)"
      unfolding ll2string_def val len Let_def nx1
      by (simp only: False if_False wr_in [OF in_dst] r(1) case_prod_conv last d2 sign Option.bind.simps)
    then show ?thesis using False by (simp only: length_ll_decimal if_False)
  qed
qed

section \<open>\<open>string2ll\<close> accepts exactly the canonical representations\<close>

lemma string2ll_loop_digits:
  assumes "v < 2 ^ 64" "\<forall>c\<in>set p. is_digit c"
  shows "string2ll_loop v p =
    (if foldl dig_step v p < 2 ^ 64 then Some (foldl dig_step v p, []) else None)"
  using assms
proof (induction p arbitrary: v)
  case Nil
  then show ?case by simp
next
  case (Cons c p)
  have c: "is_digit c" and p: "\<forall>c\<in>set p. is_digit c" using Cons.prems(2) by simp_all
  show ?case
  proof (cases "dig_step v c < 2 ^ 64")
    case True
    then have "v * 10 < 2 ^ 64" "\<not> v > (2 ^ 64 - 1) div 10" "\<not> v * 10 > (2 ^ 64 - 1) - (unat c - 48)"
      by simp_all
    then have "string2ll_loop v (c # p) = string2ll_loop (dig_step v c) p"
      using c True by (simp only: string2ll_loop.simps Let_def u64_id if_True if_False simp_thms)
    then show ?thesis using Cons.IH [OF True p] by simp
  next
    case False
    have "unat c - 48 \<le> 9" using c by (auto simp: word_le_nat_alt)
    have "string2ll_loop v (c # p) = None"
    proof (cases "v > (2 ^ 64 - 1) div 10")
      case t: True
      then show ?thesis using c by (simp only: string2ll_loop.simps if_True simp_thms)
    next
      case f: False
      then have "v * 10 < 2 ^ 64" "v * 10 > (2 ^ 64 - 1) - (unat c - 48)"
        using False \<open>unat c - 48 \<le> 9\<close> by simp_all
      then show ?thesis using c f by (simp only: string2ll_loop.simps Let_def u64_id if_True if_False simp_thms)
    qed
    moreover have "\<not> foldl dig_step (dig_step v c) p < 2 ^ 64"
      using False foldl_dig_step_ge [of "dig_step v c" p] by linarith
    ultimately show ?thesis by simp
  qed
qed

lemma unat_byte_diff_less: "unat (c::byte) - k < 2 ^ 64"
proof -
  have "unat c - k < 256" by (rule le_less_trans [OF diff_le_self]) simp
  then show ?thesis by simp
qed

lemma string2ll_loop_rest:
  "string2ll_loop v p = Some (v', rest) \<Longrightarrow> \<forall>c\<in>set p. is_digit c \<or> rest \<noteq> []"
proof (induction v p rule: string2ll_loop.induct)
  case (2 v c p)
  then show ?case by (auto simp: Let_def split: if_splits)
qed simp

lemma dec_digits_decode:
  assumes "49 \<le> c" "c \<le> 57" "\<forall>d\<in>set p. is_digit d"
  shows "dec_digits (foldl dig_step (unat c - 48) p) = c # p"
proof -
  have c: "49 \<le> unat c" "unat c \<le> 57" using assms(1,2) by (simp_all add: word_le_nat_alt)
  then have "dec_digits (unat c - 48) = [c]" by (simp add: dec_digits.simps [of "unat c - 48"])
  then show ?thesis using dec_digits_foldl [of "unat c - 48" p] c assms(3) by simp
qed

text \<open>The magnitude parsed from a first digit 1 to 9 and the remaining bytes.\<close>

lemma string2ll_magnitude:
  assumes "49 \<le> c" "c \<le> 57"
  shows "string2ll_loop (unat c - 48) p = Some (n, []) \<longleftrightarrow> dec_digits n = c # p \<and> n < 2 ^ 64"
proof
  assume l: "string2ll_loop (unat c - 48) p = Some (n, [])"
  then have d: "\<forall>d\<in>set p. is_digit d" using string2ll_loop_rest by fastforce
  have "unat c - 48 < 2 ^ 64" by (rule unat_byte_diff_less)
  from string2ll_loop_digits [OF this d] l show "dec_digits n = c # p \<and> n < 2 ^ 64"
    using dec_digits_decode [OF assms d] by (auto split: if_splits)
next
  assume r: "dec_digits n = c # p \<and> n < 2 ^ 64"
  then have d: "\<forall>d\<in>set p. is_digit d" using digits_dec_digits [of _ n] by auto
  have "foldl dig_step (unat c - 48) p = n" using foldl_dec_digits [of n] r by simp
  moreover have "unat c - 48 < 2 ^ 64" by (rule unat_byte_diff_less)
  ultimately show "string2ll_loop (unat c - 48) p = Some (n, [])"
    using string2ll_loop_digits [OF _ d] r by simp
qed

lemma dec_digits_inject: "dec_digits m = dec_digits n \<longleftrightarrow> m = n"
  by (metis foldl_dec_digits)

lemma dec_digits_neq_sign: "dec_digits n \<noteq> 45 # p"
  using digits_dec_digits [of 45 n] by auto

lemma dec_digits_Cons_pos: "dec_digits n = c # p \<Longrightarrow> c \<noteq> 48 \<Longrightarrow> 0 < n"
  by (cases "n = 0") auto

lemma dec_digits_Cons_range: "dec_digits n = c # p \<Longrightarrow> 0 < n \<Longrightarrow> 49 \<le> c \<and> c \<le> 57"
  using dec_digits_head [of n] by auto

lemma ll_decimal_neg: "ll_decimal v = 45 # p \<longleftrightarrow> v < 0 \<and> dec_digits (nat (- v)) = p"
  using dec_digits_neq_sign by (auto simp: ll_decimal_def)

lemma ll_decimal_nonneg: "c \<noteq> 45 \<Longrightarrow> ll_decimal v = c # p \<longleftrightarrow> 0 \<le> v \<and> dec_digits (nat v) = c # p"
  by (auto simp: ll_decimal_def)

lemma ll_decimal_not_Nil [simp]: "ll_decimal v \<noteq> []"
  using length_ll_decimal [of v] ndigits_pos [of "nat \<bar>v\<bar>"] by (metis add_is_0 less_numeral_extra(3) list.size(3))

lemma neg_ll: "n \<le> 2 ^ 63 \<Longrightarrow> sgn_of 64 (uns_of 64 (- int n)) = - int n"
proof (rule sgn_of_uns_of)
  assume "n \<le> 2 ^ 63"
  then have "int n \<le> int (2 ^ 63)" by (simp only: of_nat_le_iff)
  then show "in_sint 64 (- int n)" by simp
qed simp

lemma string2ll_neg:
  "string2ll (45 # p) = Some v \<longleftrightarrow> in_sint 64 v \<and> v < 0 \<and> dec_digits (nat (- v)) = p"
proof (cases p)
  case Nil
  then show ?thesis using dec_digits.simps by (auto simp: string2ll_def)
next
  case (Cons c q)
  show ?thesis
  proof (cases "49 \<le> c \<and> c \<le> 57")
    case True
    have "string2ll (45 # p) = Some v \<longleftrightarrow>
      (\<exists>n. string2ll_loop (unat c - 48) q = Some (n, []) \<and> n \<le> 2 ^ 63 \<and> v = - int n)"
      using True Cons neg_ll by (auto simp: string2ll_def Let_def split: option.splits prod.splits)
    also have "\<dots> \<longleftrightarrow> (\<exists>n. dec_digits n = p \<and> n \<le> 2 ^ 63 \<and> v = - int n)"
      using string2ll_magnitude True Cons by force
    also have "\<dots> \<longleftrightarrow> in_sint 64 v \<and> v < 0 \<and> dec_digits (nat (- v)) = p"
    proof
      assume "\<exists>n. dec_digits n = p \<and> n \<le> 2 ^ 63 \<and> v = - int n"
      then obtain n where n: "dec_digits n = p" "n \<le> 2 ^ 63" "v = - int n" by blast
      have "0 < n" using n(1) Cons True by (intro dec_digits_Cons_pos [of n c q]) auto
      moreover have "int n \<le> int (2 ^ 63)" using n(2) by (simp only: of_nat_le_iff)
      ultimately show "in_sint 64 v \<and> v < 0 \<and> dec_digits (nat (- v)) = p" using n by simp
    next
      assume a: "in_sint 64 v \<and> v < 0 \<and> dec_digits (nat (- v)) = p"
      then have "nat (- v) \<le> nat (2 ^ 63)" by (intro nat_mono) simp
      then show "\<exists>n. dec_digits n = p \<and> n \<le> 2 ^ 63 \<and> v = - int n"
        using a by (intro exI [of _ "nat (- v)"]) simp
    qed
    finally show ?thesis .
  next
    case False
    then have "string2ll (45 # p) = None" using Cons by (auto simp: string2ll_def Let_def)
    then show ?thesis using False Cons dec_digits_Cons_range [of "nat (- v)" c q] by auto
  qed
qed

lemma string2ll_nonneg:
  assumes "c \<noteq> 45"
  shows "string2ll (c # q) = Some v \<longleftrightarrow> in_sint 64 v \<and> 0 \<le> v \<and> dec_digits (nat v) = c # q"
proof (cases "49 \<le> c \<and> c \<le> 57")
  case True
  then have c: "c \<noteq> 48" by auto
  have "string2ll (c # q) = Some v \<longleftrightarrow>
      (\<exists>n. string2ll_loop (unat c - 48) q = Some (n, []) \<and> n \<le> 2 ^ 63 - 1 \<and> v = int n)"
    using True assms c by (auto simp: string2ll_def Let_def split: option.splits prod.splits)
  also have "\<dots> \<longleftrightarrow> (\<exists>n. dec_digits n = c # q \<and> n \<le> 2 ^ 63 - 1 \<and> v = int n)"
    using string2ll_magnitude True by force
  also have "\<dots> \<longleftrightarrow> in_sint 64 v \<and> 0 \<le> v \<and> dec_digits (nat v) = c # q"
  proof
    assume "\<exists>n. dec_digits n = c # q \<and> n \<le> 2 ^ 63 - 1 \<and> v = int n"
    then obtain n where n: "dec_digits n = c # q" "n \<le> 2 ^ 63 - 1" "v = int n" by blast
    have "int n \<le> int (2 ^ 63 - 1)" using n(2) by (simp only: of_nat_le_iff)
    then show "in_sint 64 v \<and> 0 \<le> v \<and> dec_digits (nat v) = c # q" using n by simp
  next
    assume a: "in_sint 64 v \<and> 0 \<le> v \<and> dec_digits (nat v) = c # q"
    then have "nat v \<le> nat (2 ^ 63 - 1)" by (intro nat_mono) simp
    then show "\<exists>n. dec_digits n = c # q \<and> n \<le> 2 ^ 63 - 1 \<and> v = int n"
      using a by (intro exI [of _ "nat v"]) simp
  qed
  finally show ?thesis .
next
  case False
  show ?thesis
  proof (cases "c = 48 \<and> q = []")
    case True
    then have "string2ll (c # q) = Some 0" by (simp add: string2ll_def)
    moreover have "dec_digits (nat v) = [48] \<longleftrightarrow> nat v = 0"
      using dec_digits_inject [of "nat v" 0] by simp
    ultimately show ?thesis using True by auto
  next
    case f: False
    then have "string2ll (c # q) = None" using False assms by (auto simp: string2ll_def Let_def)
    moreover have "dec_digits (nat v) \<noteq> c # q"
      using f False dec_digits_Cons_range [of "nat v" c q] by (cases "nat v = 0") auto
    ultimately show ?thesis by simp
  qed
qed

lemma string2ll_canonical: "string2ll s = Some v \<longleftrightarrow> in_sint 64 v \<and> s = ll_decimal v"
proof (cases s)
  case Nil
  then show ?thesis by (auto simp: string2ll_def eq_commute [of "[]"])
next
  case (Cons c q)
  then show ?thesis
    using string2ll_neg [of q v] string2ll_nonneg [of c q v] ll_decimal_neg [of v q] ll_decimal_nonneg [of c v q]
    by (cases "c = 45") auto
qed

lemma string2ll_range: "string2ll s = Some v \<Longrightarrow> in_sint 64 v"
  by (simp add: string2ll_canonical)

text \<open>
  C24. \<open>string2ll\<close> returns 1 with value \<open>v\<close> exactly when \<open>v\<close> is a \<open>long long\<close> and the input is
  the canonical decimal representation of \<open>v\<close>: no leading zeros, no plus sign, no minus
  zero, no spaces, nothing after the digits, and no overflow in either direction.
\<close>

theorem string2ll_iff_canonical: "string2ll s = Some v \<longleftrightarrow> in_sint 64 v \<and> s = ll_decimal v"
  by (rule string2ll_canonical)

end
