(* ===== verification/Sds.thy ===== *)
theory Sds
  imports Util
begin

text \<open>
  The dynamic strings of \<open>sds.c\<close> and \<open>sds.h\<close>.  An sds string is the header \<open>sdshdr\<close> and
  the cells of its flexible array member: \<open>sh_len\<close> bytes of content, a terminating NUL and
  \<open>sh_free\<close> spare cells.  The header fields are \<open>unsigned int\<close>, so every store to them is
  reduced by \<open>u32\<close>.  Block copies are checked, so \<open>Some\<close> means that no access left the
  allocation; \<open>None\<close> is undefined behaviour or a failed \<open>assert\<close>.  Allocation itself does
  not fail (\<open>zmalloc\<close> aborts the process on exhaustion), and the contents of fresh cells are
  the parameter \<open>jk\<close>.

  The invariant \<open>sds_wf\<close> is kept by every operation, and each operation is related to the
  list operation it implements on the content \<open>sds_content\<close>.
\<close>

record sdshdr =
  sh_len :: nat
  sh_free :: nat
  sh_buf :: bytes

section \<open>C strings\<close>

text \<open>\<open>strlen\<close>: the offset of the first NUL; \<open>None\<close> when it would run off the buffer.\<close>

fun strlen_c :: "bytes \<Rightarrow> nat option" where
  "strlen_c [] = None"
| "strlen_c (b # bs) = (if b = 0 then Some 0 else map_option Suc (strlen_c bs))"

section \<open>Operations\<close>

definition sdslen :: "sdshdr \<Rightarrow> nat" where "sdslen s = sh_len s"
definition sdsavail :: "sdshdr \<Rightarrow> nat" where "sdsavail s = sh_free s"

definition sdsnewlen :: "(nat \<Rightarrow> byte) \<Rightarrow> bytes option \<Rightarrow> nat \<Rightarrow> sdshdr option" where
  "sdsnewlen jk init initlen =
     do {
       b \<leftarrow> (case init of
              Some src \<Rightarrow>
                let b = map jk [0..<initlen + 1] in
                if initlen \<noteq> 0 then rd_block src 0 initlen \<bind> wr_block b 0 else Some b
            | None \<Rightarrow> Some (replicate (initlen + 1) 0));
       b \<leftarrow> wr b initlen 0;
       Some \<lparr>sh_len = u32 initlen, sh_free = 0, sh_buf = b\<rparr>
     }"

definition sdsempty :: "(nat \<Rightarrow> byte) \<Rightarrow> sdshdr option" where
  "sdsempty jk = sdsnewlen jk (Some [0]) 0"

definition sdsnew :: "(nat \<Rightarrow> byte) \<Rightarrow> bytes option \<Rightarrow> sdshdr option" where
  "sdsnew jk init =
     do {
       initlen \<leftarrow> (case init of None \<Rightarrow> Some 0 | Some c \<Rightarrow> strlen_c c);
       sdsnewlen jk init initlen
     }"

definition sdsdup :: "(nat \<Rightarrow> byte) \<Rightarrow> sdshdr \<Rightarrow> sdshdr option" where
  "sdsdup jk s = sdsnewlen jk (Some (sh_buf s)) (sdslen s)"

definition sdsupdatelen :: "sdshdr \<Rightarrow> sdshdr option" where
  "sdsupdatelen s =
     do {
       reallen \<leftarrow> strlen_c (sh_buf s);
       Some (s\<lparr>sh_free := add32 (sh_free s) (sub32 (sh_len s) (u32 reallen)),
               sh_len := u32 reallen\<rparr>)
     }"

definition sdsclear :: "sdshdr \<Rightarrow> sdshdr option" where
  "sdsclear s =
     do {
       b \<leftarrow> wr (sh_buf s) 0 0;
       Some (s\<lparr>sh_free := add32 (sh_free s) (sh_len s), sh_len := 0, sh_buf := b\<rparr>)
     }"

definition SDS_MAX_PREALLOC :: nat where "SDS_MAX_PREALLOC = 1024 * 1024"

definition sdsMakeRoomFor :: "(nat \<Rightarrow> byte) \<Rightarrow> sdshdr \<Rightarrow> nat \<Rightarrow> sdshdr" where
  "sdsMakeRoomFor jk s addlen =
     (if sdsavail s \<ge> addlen then s
      else
        let ln = sdslen s;
            newlen = ln + addlen;
            newlen = (if newlen < SDS_MAX_PREALLOC then newlen * 2 else newlen + SDS_MAX_PREALLOC)
        in s\<lparr>sh_buf := zrealloc_buf jk (sh_buf s) (newlen + 1), sh_free := u32 (newlen - ln)\<rparr>)"

definition sdsRemoveFreeSpace :: "(nat \<Rightarrow> byte) \<Rightarrow> sdshdr \<Rightarrow> sdshdr" where
  "sdsRemoveFreeSpace jk s =
     s\<lparr>sh_buf := zrealloc_buf jk (sh_buf s) (sh_len s + 1), sh_free := 0\<rparr>"

definition sdsAllocSize :: "sdshdr \<Rightarrow> nat" where
  "sdsAllocSize s = 8 + sh_len s + sh_free s + 1"

definition sdsIncrLen :: "sdshdr \<Rightarrow> int \<Rightarrow> sdshdr option" where
  "sdsIncrLen s incr =
     (if (if incr \<ge> 0 then sh_free s \<ge> uns_of 32 incr else sh_len s \<ge> uns_of 32 (- incr)) then
        let ln = uns_of 32 (int (sh_len s) + incr);
            fr = uns_of 32 (int (sh_free s) - incr)
        in do {
             b \<leftarrow> wr (sh_buf s) ln 0;
             Some (s\<lparr>sh_len := ln, sh_free := fr, sh_buf := b\<rparr>)
           }
      else None)"

definition sdsgrowzero :: "(nat \<Rightarrow> byte) \<Rightarrow> sdshdr \<Rightarrow> nat \<Rightarrow> sdshdr option" where
  "sdsgrowzero jk s ln =
     (let curlen = sh_len s in
      if ln \<le> curlen then Some s
      else
        let s = sdsMakeRoomFor jk s (ln - curlen) in
        do {
          b \<leftarrow> memset_at (sh_buf s) curlen 0 (ln - curlen + 1);
          let totlen = add32 (sh_len s) (sh_free s);
          Some (s\<lparr>sh_buf := b, sh_len := u32 ln, sh_free := sub32 totlen (u32 ln)\<rparr>)
        })"

text \<open>
  \<open>t\<close> is the memory at the source pointer; \<open>ln\<close> bytes of it are copied.
\<close>

definition sdscatlen :: "(nat \<Rightarrow> byte) \<Rightarrow> sdshdr \<Rightarrow> bytes \<Rightarrow> nat \<Rightarrow> sdshdr option" where
  "sdscatlen jk s t ln =
     (let curlen = sdslen s;
          s = sdsMakeRoomFor jk s ln
      in do {
           src \<leftarrow> rd_block t 0 ln;
           b \<leftarrow> wr_block (sh_buf s) curlen src;
           b \<leftarrow> wr b (curlen + ln) 0;
           Some (s\<lparr>sh_len := u32 (curlen + ln), sh_free := sub32 (sh_free s) (u32 ln), sh_buf := b\<rparr>)
         })"

definition sdscat :: "(nat \<Rightarrow> byte) \<Rightarrow> sdshdr \<Rightarrow> bytes \<Rightarrow> sdshdr option" where
  "sdscat jk s t = do { n \<leftarrow> strlen_c t; sdscatlen jk s t n }"

definition sdscatsds :: "(nat \<Rightarrow> byte) \<Rightarrow> sdshdr \<Rightarrow> sdshdr \<Rightarrow> sdshdr option" where
  "sdscatsds jk s t = sdscatlen jk s (sh_buf t) (sdslen t)"

definition sdscpylen :: "(nat \<Rightarrow> byte) \<Rightarrow> sdshdr \<Rightarrow> bytes \<Rightarrow> nat \<Rightarrow> sdshdr option" where
  "sdscpylen jk s t ln =
     (let totlen = add32 (sh_free s) (sh_len s);
          s' = (if totlen < ln then sdsMakeRoomFor jk s (ln - sh_len s) else s);
          totlen = (if totlen < ln then add32 (sh_free s') (sh_len s') else totlen)
      in do {
           src \<leftarrow> rd_block t 0 ln;
           b \<leftarrow> wr_block (sh_buf s') 0 src;
           b \<leftarrow> wr b ln 0;
           Some (s'\<lparr>sh_len := u32 ln, sh_free := u32 (totlen - ln), sh_buf := b\<rparr>)
         })"

definition sdscpy :: "(nat \<Rightarrow> byte) \<Rightarrow> sdshdr \<Rightarrow> bytes \<Rightarrow> sdshdr option" where
  "sdscpy jk s t = do { n \<leftarrow> strlen_c t; sdscpylen jk s t n }"

subsection \<open>Trimming, ranges, comparison\<close>

text \<open>
  \<open>strchr (cset, c)\<close> as a truth value.  The search covers the terminator of \<open>cset\<close>, so it
  succeeds for \<open>c = 0\<close>.
\<close>

fun strchr_c :: "bytes \<Rightarrow> byte \<Rightarrow> bool option" where
  "strchr_c [] c = None"
| "strchr_c (b # bs) c = (if b = c then Some True else if b = 0 then Some False else strchr_c bs c)"

text \<open>
  The two scans of \<open>sdstrim\<close>.  Offsets are integers because \<open>end\<close> starts at \<open>s - 1\<close> for an
  empty string.
\<close>

function trim_left :: "bytes \<Rightarrow> bytes \<Rightarrow> int \<Rightarrow> int \<Rightarrow> int option" where
  "trim_left b cset sp en =
     (if sp \<le> en then
        do {
          c \<leftarrow> rd b (nat sp);
          hit \<leftarrow> strchr_c cset c;
          if hit then trim_left b cset (sp + 1) en else Some sp
        }
      else Some sp)"
  by pat_completeness auto
termination by (relation "measure (\<lambda>(b, cset, sp, en). nat (en + 1 - sp))") auto

function trim_right :: "bytes \<Rightarrow> bytes \<Rightarrow> int \<Rightarrow> int \<Rightarrow> int option" where
  "trim_right b cset ep start =
     (if ep > start then
        do {
          c \<leftarrow> rd b (nat ep);
          hit \<leftarrow> strchr_c cset c;
          if hit then trim_right b cset (ep - 1) start else Some ep
        }
      else Some ep)"
  by pat_completeness auto
termination by (relation "measure (\<lambda>(b, cset, ep, start). nat (ep - start))") auto

declare trim_left.simps [simp del] trim_right.simps [simp del]

definition sdstrim :: "sdshdr \<Rightarrow> bytes \<Rightarrow> sdshdr option" where
  "sdstrim s cset =
     (let en = int (sdslen s) - 1 in
      do {
        sp \<leftarrow> trim_left (sh_buf s) cset 0 en;
        ep \<leftarrow> trim_right (sh_buf s) cset en 0;
        let ln = (if sp > ep then 0 else nat (ep - sp + 1));
        b \<leftarrow> (if sp \<noteq> 0 then memmove_at (sh_buf s) 0 (nat sp) ln else Some (sh_buf s));
        b \<leftarrow> wr b ln 0;
        Some (s\<lparr>sh_buf := b, sh_free := add32 (sh_free s) (sub32 (sh_len s) (u32 ln)), sh_len := u32 ln\<rparr>)
      })"

text \<open>Conversion to \<open>int\<close>.\<close>

definition s32 :: "int \<Rightarrow> int" where "s32 i = sgn_of 32 (uns_of 32 i)"

definition sdsrange :: "sdshdr \<Rightarrow> int \<Rightarrow> int \<Rightarrow> sdshdr option" where
  "sdsrange s start en =
     (let ln = int (sdslen s) in
      if ln = 0 then Some s
      else
        let start = (if start < 0 then let start = s32 (ln + start) in if start < 0 then 0 else start
                     else start);
            en = (if en < 0 then let en = s32 (ln + en) in if en < 0 then 0 else en else en);
            newlen = (if start > en then 0 else en - start + 1);
            (start, newlen) =
              (if newlen \<noteq> 0 then
                 if start \<ge> s32 ln then (start, 0)
                 else if en \<ge> s32 ln then
                   let en = s32 (ln - 1) in (start, if start > en then 0 else en - start + 1)
                 else (start, newlen)
               else (0, newlen))
        in do {
             b \<leftarrow> (if start \<noteq> 0 \<and> newlen \<noteq> 0 then memmove_at (sh_buf s) 0 (nat start) (nat newlen)
                  else Some (sh_buf s));
             b \<leftarrow> wr b (nat newlen) 0;
             Some (s\<lparr>sh_buf := b, sh_free := add32 (sh_free s) (sub32 (sh_len s) (u32 (nat newlen))),
                     sh_len := u32 (nat newlen)\<rparr>)
           })"

definition c_tolower :: "byte \<Rightarrow> byte" where
  "c_tolower c = (if 65 \<le> c \<and> c \<le> 90 then c + 32 else c)"

definition c_toupper :: "byte \<Rightarrow> byte" where
  "c_toupper c = (if 97 \<le> c \<and> c \<le> 122 then c - 32 else c)"

text \<open>The \<open>for\<close> loops that rewrite each character in place.\<close>

fun map_chars_loop :: "(byte \<Rightarrow> byte option) \<Rightarrow> bytes \<Rightarrow> nat \<Rightarrow> nat \<Rightarrow> bytes option" where
  "map_chars_loop f b j 0 = Some b"
| "map_chars_loop f b j (Suc n) =
     do { c \<leftarrow> rd b j; d \<leftarrow> f c; b \<leftarrow> wr b j d; map_chars_loop f b (Suc j) n }"

definition sdstolower :: "sdshdr \<Rightarrow> sdshdr option" where
  "sdstolower s = do { b \<leftarrow> map_chars_loop (Some \<circ> c_tolower) (sh_buf s) 0 (sdslen s); Some (s\<lparr>sh_buf := b\<rparr>) }"

definition sdstoupper :: "sdshdr \<Rightarrow> sdshdr option" where
  "sdstoupper s = do { b \<leftarrow> map_chars_loop (Some \<circ> c_toupper) (sh_buf s) 0 (sdslen s); Some (s\<lparr>sh_buf := b\<rparr>) }"

fun memcmp_c :: "bytes \<Rightarrow> bytes \<Rightarrow> int" where
  "memcmp_c (a # xs) (b # ys) = (if a = b then memcmp_c xs ys else int (unat a) - int (unat b))"
| "memcmp_c _ _ = 0"

definition sdscmp :: "sdshdr \<Rightarrow> sdshdr \<Rightarrow> int option" where
  "sdscmp s1 s2 =
     (let l1 = sdslen s1; l2 = sdslen s2; minlen = (if l1 < l2 then l1 else l2) in
      do {
        a \<leftarrow> rd_block (sh_buf s1) 0 minlen;
        b \<leftarrow> rd_block (sh_buf s2) 0 minlen;
        let cmp = memcmp_c a b;
        Some (if cmp = 0 then s32 (int l1 - int l2) else cmp)
      })"

text \<open>\<open>sdsmapchars\<close>: the inner loop replaces \<open>c\<close> by \<open>to[i]\<close> for the first \<open>i\<close> with \<open>from[i] = c\<close>.\<close>

fun mapchars_inner :: "bytes \<Rightarrow> bytes \<Rightarrow> nat \<Rightarrow> nat \<Rightarrow> byte \<Rightarrow> byte option" where
  "mapchars_inner from_set to_set i 0 c = Some c"
| "mapchars_inner from_set to_set i (Suc n) c =
     do { f \<leftarrow> rd from_set i; if c = f then rd to_set i else mapchars_inner from_set to_set (Suc i) n c }"

definition sdsmapchars :: "sdshdr \<Rightarrow> bytes \<Rightarrow> bytes \<Rightarrow> nat \<Rightarrow> sdshdr option" where
  "sdsmapchars s from_set to_set setlen =
     do {
       b \<leftarrow> map_chars_loop (mapchars_inner from_set to_set 0 setlen) (sh_buf s) 0 (sdslen s);
       Some (s\<lparr>sh_buf := b\<rparr>)
     }"

section \<open>Invariant and abstraction\<close>

definition sds_wf :: "sdshdr \<Rightarrow> bool" where
  "sds_wf s \<longleftrightarrow> length (sh_buf s) = sh_len s + sh_free s + 1 \<and> sh_buf s ! sh_len s = 0 \<and>
     sh_len s + sh_free s < 2 ^ 32"

definition sds_content :: "sdshdr \<Rightarrow> bytes" where
  "sds_content s = take (sh_len s) (sh_buf s)"

text \<open>The string with content \<open>xs\<close> and spare cells \<open>fr\<close>; every well-formed string is one.\<close>

definition sds_mk :: "bytes \<Rightarrow> bytes \<Rightarrow> sdshdr" where
  "sds_mk xs fr = \<lparr>sh_len = length xs, sh_free = length fr, sh_buf = xs @ 0 # fr\<rparr>"

definition sds_rep :: "sdshdr \<Rightarrow> bytes \<Rightarrow> bool" where
  "sds_rep s xs \<longleftrightarrow> sds_wf s \<and> sds_content s = xs"

lemma sds_mk_simps [simp]:
  "sh_len (sds_mk xs fr) = length xs" "sh_free (sds_mk xs fr) = length fr"
  "sh_buf (sds_mk xs fr) = xs @ 0 # fr" "sdslen (sds_mk xs fr) = length xs"
  "sdsavail (sds_mk xs fr) = length fr" "sds_content (sds_mk xs fr) = xs"
  by (simp_all add: sds_mk_def sdslen_def sdsavail_def sds_content_def)

lemma sds_wf_mk [simp]: "sds_wf (sds_mk xs fr) \<longleftrightarrow> length xs + length fr < 2 ^ 32"
  by (simp add: sds_wf_def)

lemma sds_rep_iff: "sds_rep s xs \<longleftrightarrow> (\<exists>fr. s = sds_mk xs fr \<and> length xs + length fr < 2 ^ 32)"
proof
  assume a: "sds_rep s xs"
  then have w: "length (sh_buf s) = sh_len s + sh_free s + 1" "sh_buf s ! sh_len s = 0"
    "sh_len s + sh_free s < 2 ^ 32" "take (sh_len s) (sh_buf s) = xs"
    by (simp_all add: sds_rep_def sds_wf_def sds_content_def)
  let ?fr = "drop (Suc (sh_len s)) (sh_buf s)"
  have "length xs = sh_len s" "length ?fr = sh_free s" using w by auto
  moreover have "sh_buf s = xs @ 0 # ?fr" using w by (metis Suc_eq_plus1 id_take_nth_drop less_add_Suc1 add_Suc_right)
  ultimately have "s = sds_mk xs ?fr" by (simp add: sds_mk_def)
  then show "\<exists>fr. s = sds_mk xs fr \<and> length xs + length fr < 2 ^ 32"
    using w \<open>length xs = _\<close> \<open>length ?fr = _\<close> by metis
next
  assume "\<exists>fr. s = sds_mk xs fr \<and> length xs + length fr < 2 ^ 32"
  then show "sds_rep s xs" by (auto simp: sds_rep_def)
qed

lemma sds_repE:
  assumes "sds_rep s xs"
  obtains fr where "s = sds_mk xs fr" "length xs + length fr < 2 ^ 32"
  using assms sds_rep_iff by blast

lemma sds_rep_mkI: "length xs + length fr < 2 ^ 32 \<Longrightarrow> sds_rep (sds_mk xs fr) xs"
  by (auto simp: sds_rep_iff)

lemma sds_eq_mkI:
  "sh_len s = length xs \<Longrightarrow> sh_free s = length fr \<Longrightarrow> sh_buf s = xs @ 0 # fr \<Longrightarrow> s = sds_mk xs fr"
  by (simp add: sds_mk_def)

lemma sds_wf_rep: "sds_wf s \<longleftrightarrow> sds_rep s (sds_content s)"
  by (simp add: sds_rep_def)

section \<open>Construction\<close>

lemma sdsnewlen_rep:
  assumes "n \<le> length src" "n < 2 ^ 32"
  shows "sdsnewlen jk (Some src) n = Some (sds_mk (take n src) [])"
proof -
  have "map jk [0..<n + 1] = map jk [0..<n] @ [jk n]" by simp
  then show ?thesis
    using assms by (auto simp: sdsnewlen_def Let_def mem_simps wr_def sds_mk_def list_update_append)
qed

lemma sdsnewlen_null: "n < 2 ^ 32 \<Longrightarrow> sdsnewlen jk None n = Some (sds_mk (replicate n 0) [])"
proof -
  have "replicate (n + 1) (0::byte) = replicate n 0 @ [0]" by (simp add: replicate_append_same)
  then show "n < 2 ^ 32 \<Longrightarrow> ?thesis" by (simp add: sdsnewlen_def wr_def sds_mk_def list_update_append)
qed

lemma sdsempty_mk: "sdsempty jk = Some (sds_mk [] [])"
  using sdsnewlen_rep [of 0 "[0]"] by (simp add: sdsempty_def)

lemma strlen_c_mid: "0 \<notin> set xs \<Longrightarrow> strlen_c (xs @ 0 # ys) = Some (length xs)"
  by (induction xs) auto

lemma strlen_c_SomeD: "strlen_c c = Some n \<Longrightarrow> n < length c \<and> c ! n = 0 \<and> 0 \<notin> set (take n c)"
proof (induction c arbitrary: n)
  case (Cons b bs)
  then show ?case by (cases n) (auto split: if_splits)
qed simp

lemma sdsnew_mk: "strlen_c c = Some n \<Longrightarrow> n < 2 ^ 32 \<Longrightarrow> sdsnew jk (Some c) = Some (sds_mk (take n c) [])"
  using strlen_c_SomeD [of c n] by (simp add: sdsnew_def sdsnewlen_rep)

lemma sdsdup_mk: "length xs < 2 ^ 32 \<Longrightarrow> sdsdup jk (sds_mk xs fr) = Some (sds_mk xs [])"
  by (simp add: sdsdup_def sdsnewlen_rep)

section \<open>Growth and appending\<close>

lemma sdsMakeRoomFor_mk:
  assumes "length xs + n + SDS_MAX_PREALLOC < 2 ^ 32" "length xs + length fr < 2 ^ 32"
  obtains fr' where "sdsMakeRoomFor jk (sds_mk xs fr) n = sds_mk xs fr'"
    "n \<le> length fr'" "length xs + length fr' < 2 ^ 32"
proof (cases "n \<le> length fr")
  case True
  then show ?thesis using assms that [of fr] by (simp add: sdsMakeRoomFor_def)
next
  case False
  let ?m = "length xs + n"
  let ?newlen = "if ?m < SDS_MAX_PREALLOC then ?m * 2 else ?m + SDS_MAX_PREALLOC"
  let ?b = "zrealloc_buf jk (xs @ 0 # fr) (?newlen + 1)"
  let ?fr' = "drop (length xs + 1) ?b"
  have nl: "?m \<le> ?newlen" "?newlen < 2 ^ 32" using assms(1) by auto
  have big: "length xs + length fr < ?newlen" using False nl(1) by linarith
  have "take (length xs + 1) ?b = xs @ [0]"
    using big by (simp add: take_zrealloc_buf)
  then have b: "?b = xs @ 0 # ?fr'" by (metis append_take_drop_id append_Cons append_Nil append_assoc)
  have l: "length ?fr' = ?newlen - length xs" using big by simp
  have "sdsMakeRoomFor jk (sds_mk xs fr) n = sds_mk xs ?fr'"
    using False b l nl by (intro sds_eq_mkI) (simp_all add: sdsMakeRoomFor_def Let_def)
  then show ?thesis using that [of ?fr'] l nl by simp
qed

lemma split_at_cell:
  assumes "n \<le> length fr"
  obtains us v where "z # fr = us @ v # drop n fr" "length us = n"
proof
  have "n < length (z # fr)" using assms by simp
  then show "z # fr = take n (z # fr) @ ((z # fr) ! n) # drop n fr"
    using id_take_nth_drop [of n "z # fr"] by simp
qed (use assms in simp)

lemma wr_block_content:
  assumes "length ys = n" "n \<le> length fr"
  obtains b where "wr_block (xs @ z # fr) (length xs) ys = Some b"
    "wr b (length xs + n) 0 = Some (xs @ ys @ 0 # drop n fr)"
proof -
  obtain us v where u: "z # fr = us @ v # drop n fr" "length us = n"
    using split_at_cell [OF assms(2)] by metis
  have "wr_block (xs @ us @ v # drop n fr) (length xs) ys = Some (xs @ ys @ v # drop n fr)"
    using wr_block_middle [of us ys xs "v # drop n fr"] u(2) assms(1) by simp
  moreover have "wr ((xs @ ys) @ v # drop n fr) (length (xs @ ys)) 0 = Some ((xs @ ys) @ 0 # drop n fr)"
    by (rule wr_middle)
  ultimately show ?thesis using that assms(1) unfolding u(1) by simp
qed

lemma sdscatlen_mk:
  assumes "length xs + n + SDS_MAX_PREALLOC < 2 ^ 32" "length xs + length fr < 2 ^ 32" "n \<le> length t"
  shows "\<exists>fr'. sdscatlen jk (sds_mk xs fr) t n = Some (sds_mk (xs @ take n t) fr')
    \<and> length xs + n + length fr' < 2 ^ 32"
proof -
  obtain f where f: "sdsMakeRoomFor jk (sds_mk xs fr) n = sds_mk xs f" "n \<le> length f"
    "length xs + length f < 2 ^ 32"
    using sdsMakeRoomFor_mk [OF assms(1,2)] by blast
  obtain b where b: "wr_block (xs @ 0 # f) (length xs) (take n t) = Some b"
    "wr b (length xs + n) 0 = Some (xs @ take n t @ 0 # drop n f)"
    using wr_block_content [of "take n t" n f xs 0] f(2) assms(3) by auto
  have "sdscatlen jk (sds_mk xs fr) t n = Some (sds_mk (xs @ take n t) (drop n f))"
    unfolding sdscatlen_def Let_def f(1) using b f assms
    by (simp add: rd_block_in sub32_le)
  then show ?thesis using f by auto
qed

lemma sdscatlen_rep:
  assumes "sds_rep s xs" "n \<le> length t" "length xs + n + SDS_MAX_PREALLOC < 2 ^ 32"
  shows "\<exists>s'. sdscatlen jk s t n = Some s' \<and> sds_rep s' (xs @ take n t)"
proof -
  obtain fr where s: "s = sds_mk xs fr" "length xs + length fr < 2 ^ 32"
    using assms(1) by (rule sds_repE)
  then show ?thesis using sdscatlen_mk [OF assms(3) s(2) assms(2)] assms(2) by (fastforce simp: sds_rep_iff)
qed

lemma sdscat_rep:
  assumes "sds_rep s xs" "strlen_c t = Some n" "length xs + n + SDS_MAX_PREALLOC < 2 ^ 32"
  shows "\<exists>s'. sdscat jk s t = Some s' \<and> sds_rep s' (xs @ take n t)"
  using sdscatlen_rep [OF assms(1) _ assms(3), of t] assms(2) strlen_c_SomeD [OF assms(2)]
  by (simp add: sdscat_def)

lemma sdscatsds_rep:
  assumes "sds_rep s xs" "sds_rep t ys" "length xs + length ys + SDS_MAX_PREALLOC < 2 ^ 32"
  shows "\<exists>s'. sdscatsds jk s t = Some s' \<and> sds_rep s' (xs @ ys)"
proof -
  obtain fr where t: "t = sds_mk ys fr" using assms(2) by (rule sds_repE)
  show ?thesis using sdscatlen_rep [OF assms(1) _ assms(3), of "sh_buf t"] by (simp add: sdscatsds_def t)
qed

lemma sdscpylen_rep:
  assumes "sds_rep s xs" "n \<le> length t" "n + SDS_MAX_PREALLOC < 2 ^ 32"
  shows "\<exists>s'. sdscpylen jk s t n = Some s' \<and> sds_rep s' (take n t)"
proof -
  obtain fr where s: "s = sds_mk xs fr" "length xs + length fr < 2 ^ 32"
    using assms(1) by (rule sds_repE)
  let ?s' = "if length fr + length xs < n then sdsMakeRoomFor jk s (n - length xs) else s"
  obtain f where f: "?s' = sds_mk xs f" "n \<le> length xs + length f" "length xs + length f < 2 ^ 32"
  proof (cases "length fr + length xs < n")
    case True
    then have "length xs + (n - length xs) + SDS_MAX_PREALLOC < 2 ^ 32" using assms(3) by simp
    from sdsMakeRoomFor_mk [OF this s(2), of jk] obtain f where
      "sdsMakeRoomFor jk (sds_mk xs fr) (n - length xs) = sds_mk xs f" "n - length xs \<le> length f"
      "length xs + length f < 2 ^ 32" by blast
    then show ?thesis using True s that [of f] by simp
  next
    case False
    then show ?thesis using s that [of fr] by simp
  qed
  obtain z rest where z: "xs @ 0 # f = z # rest" "length rest = length xs + length f"
    by (cases xs) auto
  obtain b where b: "wr_block (xs @ 0 # f) 0 (take n t) = Some b"
    "wr b n 0 = Some (take n t @ 0 # drop n rest)"
    using wr_block_content [of "take n t" n rest "[]" z] f(2) assms(2) z by auto
  have a: "add32 (length fr) (length xs) = length fr + length xs"
    "add32 (length f) (length xs) = length f + length xs" using s(2) f(3) by (simp_all add: add32_id)
  have tot: "(if length fr + length xs < n then add32 (sh_free ?s') (sh_len ?s') else length fr + length xs)
      = length f + length xs"
    using f(1) s(1) a by (auto simp: sds_mk_def)
  have "sdscpylen jk s t n = Some (sds_mk (take n t) (drop n rest))"
    unfolding sdscpylen_def Let_def s(1) sds_mk_simps a(1)
    using b f assms(2) z(2) tot unfolding s(1)
    by (simp add: mem_simps sds_mk_def add.commute)
  then show ?thesis using z f assms(2) by (auto simp: sds_rep_iff)
qed

lemma sdscpy_rep:
  assumes "sds_rep s xs" "strlen_c t = Some n" "n + SDS_MAX_PREALLOC < 2 ^ 32"
  shows "\<exists>s'. sdscpy jk s t = Some s' \<and> sds_rep s' (take n t)"
  using sdscpylen_rep [OF assms(1) _ assms(3), of t] assms(2) strlen_c_SomeD [OF assms(2)]
  by (simp add: sdscpy_def)

lemma sdsgrowzero_rep:
  assumes "sds_rep s xs" "n + SDS_MAX_PREALLOC < 2 ^ 32"
  shows "\<exists>s'. sdsgrowzero jk s n = Some s' \<and> sds_rep s' (xs @ replicate (n - length xs) 0)"
proof -
  obtain fr where s: "s = sds_mk xs fr" "length xs + length fr < 2 ^ 32"
    using assms(1) by (rule sds_repE)
  show ?thesis
  proof (cases "n \<le> length xs")
    case True
    then show ?thesis using s assms(1) by (simp add: sdsgrowzero_def)
  next
    case False
    define k where "k = n - length xs"
    have n: "n = length xs + k" using False by (simp add: k_def)
    have "length xs + k + SDS_MAX_PREALLOC < 2 ^ 32" using assms(2) n by simp
    from sdsMakeRoomFor_mk [OF this s(2), of jk] obtain f where
      f: "sdsMakeRoomFor jk (sds_mk xs fr) k = sds_mk xs f" "k \<le> length f" "length xs + length f < 2 ^ 32"
      by blast
    have m: "memset_at (xs @ 0 # f) (length xs) 0 (k + 1) = Some (xs @ replicate k 0 @ 0 # drop k f)"
      using f(2) by (simp add: mem_simps replicate_append_same [symmetric])
    have "sdsgrowzero jk s n = Some (sds_mk (xs @ replicate k 0) (drop k f))"
      using False m f unfolding sdsgrowzero_def Let_def s(1) k_def [symmetric] sds_mk_simps
      by (simp add: k_def [symmetric] f(1) add32_id sub32_le n)
    then show ?thesis using f n by (auto simp: sds_rep_iff)
  qed
qed

section \<open>In-place operations\<close>

lemma sdsclear_rep: "sds_rep s xs \<Longrightarrow> \<exists>s'. sdsclear s = Some s' \<and> sds_rep s' []"
proof (elim sds_repE)
  fix fr assume s: "s = sds_mk xs fr" "length xs + length fr < 2 ^ 32"
  obtain z rest where z: "xs @ 0 # fr = z # rest" "length rest = length xs + length fr"
    by (cases xs) auto
  have "sdsclear s = Some (sds_mk [] rest)"
    using s z unfolding sdsclear_def s(1) sds_mk_simps by (simp add: wr_def add32_id)
  then show ?thesis using z s by (auto simp: sds_rep_iff)
qed

lemma sdsRemoveFreeSpace_rep: "sds_rep s xs \<Longrightarrow> sds_rep (sdsRemoveFreeSpace jk s) xs"
proof (elim sds_repE)
  fix fr assume s: "s = sds_mk xs fr" "length xs + length fr < 2 ^ 32"
  have "sdsRemoveFreeSpace jk s = sds_mk xs []"
    by (simp add: sdsRemoveFreeSpace_def s(1) zrealloc_buf_def)
  then show ?thesis using s by (auto simp: sds_rep_iff)
qed

lemma sdsupdatelen_rep:
  assumes "sds_rep s xs"
  shows "\<exists>s'. sdsupdatelen s = Some s' \<and> sds_rep s' (takeWhile (\<lambda>b. b \<noteq> 0) xs)"
proof -
  obtain fr where s: "s = sds_mk xs fr" "length xs + length fr < 2 ^ 32"
    using assms(1) by (rule sds_repE)
  let ?ys = "takeWhile (\<lambda>b. b \<noteq> 0) xs"
  obtain zs where zs: "xs @ 0 # fr = ?ys @ 0 # zs"
  proof (cases "0 \<in> set xs")
    case True
    then have "dropWhile (\<lambda>b. b \<noteq> 0) xs \<noteq> []" by auto
    then have "hd (dropWhile (\<lambda>b. b \<noteq> 0) xs) = 0" using hd_dropWhile [of "\<lambda>b. b \<noteq> 0" xs] by simp
    then have "dropWhile (\<lambda>b. b \<noteq> 0) xs = 0 # tl (dropWhile (\<lambda>b. b \<noteq> 0) xs)"
      using \<open>dropWhile _ _ \<noteq> []\<close> by (metis list.collapse)
    then have "xs = ?ys @ 0 # tl (dropWhile (\<lambda>b. b \<noteq> 0) xs)" by (metis takeWhile_dropWhile_id)
    then show ?thesis using that [of "tl (dropWhile (\<lambda>b. b \<noteq> 0) xs) @ 0 # fr"] by (metis append.assoc append_Cons)
  next
    case False
    then have "?ys = xs" by (auto simp: takeWhile_eq_all_conv)
    then show ?thesis using that [of fr] by (simp only:)
  qed
  have "0 \<notin> set ?ys" using set_takeWhileD by fastforce
  then have sl: "strlen_c (xs @ 0 # fr) = Some (length ?ys)" using strlen_c_mid zs by simp
  have l: "length xs + length fr = length ?ys + length zs" using zs [THEN arg_cong [where f = length]] by simp
  have le: "length ?ys \<le> length xs" by (rule length_takeWhile_le)
  have "sdsupdatelen s = Some (sds_mk ?ys zs)"
    using sl l le s(2) unfolding sdsupdatelen_def s(1) sds_mk_simps
    by (simp add: sub32_le add32_id) (simp add: sds_mk_def zs)
  then show ?thesis using l s(2) by (auto simp: sds_rep_iff)
qed

lemma uns_of_id: "0 \<le> i \<Longrightarrow> i < 2 ^ w \<Longrightarrow> uns_of w i = nat i"
  by (simp add: uns_of_def)

lemma sdsIncrLen_pos:
  assumes "sds_rep s xs" "0 \<le> incr" "nat incr \<le> sdsavail s"
  shows "\<exists>s'. sdsIncrLen s incr = Some s' \<and>
    sds_rep s' (xs @ take (nat incr) (drop (length xs) (sh_buf s)))"
proof -
  obtain fr where s: "s = sds_mk xs fr" "length xs + length fr < 2 ^ 32"
    using assms(1) by (rule sds_repE)
  obtain k where k: "incr = int k" "k \<le> length fr" using assms(2,3) s(1) by (metis int_nat_eq sds_mk_simps(5))
  obtain us v where u: "0 # fr = us @ v # drop k fr" "length us = k" using split_at_cell [OF k(2)] by metis
  have "xs @ 0 # fr = (xs @ us) @ v # drop k fr" using u by simp
  then have w: "wr (xs @ 0 # fr) (length xs + k) 0 = Some ((xs @ us) @ 0 # drop k fr)"
    using wr_middle [of "xs @ us" v "drop k fr"] u(2) by simp
  have us: "us = take k (0 # fr)" using u by simp
  have i: "uns_of 32 (int k) = k" "uns_of 32 (int (length xs) + int k) = length xs + k"
    "uns_of 32 (int (length fr) - int k) = length fr - k"
    using k s(2) by (simp_all add: uns_of_id nat_add_distrib nat_diff_distrib)
  have "sdsIncrLen s incr = Some (sds_mk (xs @ us) (drop k fr))"
    using k i w u(2) unfolding sdsIncrLen_def s(1) sds_mk_simps k(1) Let_def
    by simp
  then show ?thesis using k s(2) u(2) us by (auto simp: sds_rep_iff s(1))
qed

text \<open>
  Shrinking in place: after a prefix \<open>ys\<close> of the buffer has been written and terminated, the
  header arithmetic of \<open>sdstrim\<close> and \<open>sdsrange\<close> makes the string \<open>ys\<close>.
\<close>

lemma shrink_mk:
  assumes "length b = length xs + length fr + 1" "length xs + length fr < 2 ^ 32" "n \<le> length xs" "take n b = ys"
  shows "\<exists>fr'. wr b n 0 = Some (ys @ 0 # fr') \<and>
    add32 (length fr) (sub32 (length xs) (length ys)) = length fr' \<and> u32 n = length ys \<and>
    length ys + length fr' < 2 ^ 32"
proof -
  have "n < length b" using assms by simp
  then have "wr b n 0 = Some (ys @ 0 # drop (Suc n) b)"
    using assms(4) by (simp add: wr_def upd_conv_take_nth_drop)
  moreover have "sub32 (length xs) n = length xs - n" using assms by (simp add: sub32_le)
  moreover have "add32 (length fr) (length xs - n) = length fr + (length xs - n)"
    using assms by (intro add32_id) simp
  moreover have "length ys = n" using assms by auto
  ultimately show ?thesis using assms by (intro exI [of _ "drop (Suc n) b"]) simp
qed

lemma strchr_c_mid: "0 \<notin> set cs \<Longrightarrow> strchr_c (cs @ 0 # zs) c = Some (c \<in> set cs \<or> c = 0)"
  by (induction cs) auto

text \<open>The characters \<open>sdstrim\<close> removes: those of the set, and NUL.\<close>

definition trimmed :: "bytes \<Rightarrow> byte \<Rightarrow> bool" where
  "trimmed cs c \<longleftrightarrow> c \<in> set cs \<or> c = 0"

lemma trim_left_spec:
  assumes "k \<le> length xs" "0 \<notin> set cs"
  shows "trim_left (xs @ ys) (cs @ 0 # zs) (int k) (int (length xs) - 1)
    = Some (int (k + length (takeWhile (trimmed cs) (drop k xs))))"
  using assms(1)
proof (induction "length xs - k" arbitrary: k)
  case 0
  then show ?case by (simp add: trim_left.simps)
next
  case (Suc n)
  then have k: "k < length xs" by simp
  have d: "drop k xs = xs ! k # drop (Suc k) xs" using k by (rule drop_nth_Cons)
  have r: "rd (xs @ ys) k = Some (xs ! k)" using k by (simp add: rd_def nth_append)
  show ?case
  proof (cases "trimmed cs (xs ! k)")
    case True
    have "trim_left (xs @ ys) (cs @ 0 # zs) (int (Suc k)) (int (length xs) - 1)
      = Some (int (Suc k + length (takeWhile (trimmed cs) (drop (Suc k) xs))))"
      using Suc k by (intro Suc.hyps(1)) auto
    then show ?thesis using True k r d
      by (subst trim_left.simps) (simp add: strchr_c_mid [OF assms(2)] trimmed_def [symmetric] add.commute)
  next
    case False
    then show ?thesis using k r d
      by (subst trim_left.simps) (simp add: strchr_c_mid [OF assms(2)] trimmed_def [symmetric])
  qed
qed

text \<open>The right scan never goes below offset 0, so it keeps one character of a blank string.\<close>

lemma trim_right_spec:
  assumes "k < length xs" "0 \<notin> set cs"
  shows "trim_right (xs @ ys) (cs @ 0 # zs) (int k) 0
    = Some (int (k - length (takeWhile (trimmed cs) (rev (tl (take (Suc k) xs))))))"
  using assms(1)
proof (induction k)
  case 0
  then have "length (tl (take (Suc 0) xs)) = 0" by simp
  then show ?case by (simp add: trim_right.simps)
next
  case (Suc k)
  have r: "rd (xs @ ys) (Suc k) = Some (xs ! Suc k)" using Suc.prems by (simp add: rd_def nth_append)
  have "take (Suc (Suc k)) xs = take (Suc k) xs @ [xs ! Suc k]" using Suc.prems by (rule take_Suc_nth)
  moreover have "take (Suc k) xs \<noteq> []" using Suc.prems by auto
  ultimately have t: "rev (tl (take (Suc (Suc k)) xs)) = xs ! Suc k # rev (tl (take (Suc k) xs))"
    by (simp add: tl_append2)
  have IH: "trim_right (xs @ ys) (cs @ 0 # zs) (int k) 0
    = Some (int (k - length (takeWhile (trimmed cs) (rev (tl (take (Suc k) xs))))))"
    using Suc by simp
  show ?case
  proof (cases "trimmed cs (xs ! Suc k)")
    case True
    then show ?thesis using IH r t
      by (subst trim_right.simps) (simp add: strchr_c_mid [OF assms(2)] trimmed_def [symmetric] nat_add_distrib)
  next
    case False
    then show ?thesis using r t
      by (subst trim_right.simps) (simp add: strchr_c_mid [OF assms(2)] trimmed_def [symmetric] nat_add_distrib)
  qed
qed

lemma rev_dropWhile_rev:
  "rev (dropWhile P (rev ys)) = take (length ys - length (takeWhile P (rev ys))) ys"
  by (simp add: dropWhile_eq_drop rev_drop)

definition trim_spec :: "(byte \<Rightarrow> bool) \<Rightarrow> bytes \<Rightarrow> bytes" where
  "trim_spec P xs = rev (dropWhile P (rev (dropWhile P xs)))"

lemma trim_spec_take:
  assumes "x \<in> set xs" "\<not> P x"
  defines "a \<equiv> length (takeWhile P xs)" and "r \<equiv> length (takeWhile P (rev (tl xs)))"
  shows "trim_spec P xs = take (length xs - a - r) (drop a xs)" "a + r < length xs"
proof -
  have ne: "xs \<noteq> []" using assms(1) by auto
  have dx: "dropWhile P xs = drop a xs" by (simp add: a_def dropWhile_eq_drop)
  have "dropWhile P xs \<noteq> []" using assms(1,2) by (auto simp: dropWhile_eq_Nil_conv)
  then obtain y where y: "y \<in> set (drop a xs)" "\<not> P y"
    using hd_dropWhile [of P xs] dx by (metis list.set_sel(1))
  have rv: "rev xs = rev (drop a xs) @ rev (take a xs)" by (metis append_take_drop_id rev_append)
  have t1: "takeWhile P (rev xs) = takeWhile P (rev (drop a xs))"
    unfolding rv using y by (intro takeWhile_append1 [of y]) auto
  have t2: "takeWhile P (rev xs) = takeWhile P (rev (tl xs))"
  proof (cases "\<forall>z\<in>set (tl xs). P z")
    case True
    then have "\<not> P (hd xs)" using assms(1,2) ne by (cases xs) auto
    moreover have rx: "rev xs = rev (tl xs) @ [hd xs]" using ne by (cases xs) auto
    ultimately have e: "takeWhile P (rev xs) = rev (tl xs)"
      unfolding rx using True by (subst takeWhile_append2) auto
    have "takeWhile P (rev (tl xs)) = rev (tl xs)"
      by (rule takeWhile_eq_all_conv [THEN iffD2]) (use True in simp)
    with e show ?thesis by (rule trans [OF _ sym])
  next
    case False
    then show ?thesis using ne by (cases xs) (auto simp: takeWhile_append1)
  qed
  have r: "length (takeWhile P (rev (drop a xs))) = r" using t1 t2 by (simp add: r_def)
  then show "trim_spec P xs = take (length xs - a - r) (drop a xs)"
    by (simp add: trim_spec_def dx rev_dropWhile_rev)
  have "length (takeWhile P (rev (drop a xs))) < length (rev (drop a xs))"
  proof -
    have "takeWhile P (rev (drop a xs)) \<noteq> rev (drop a xs)"
      using y set_takeWhileD [of y P "rev (drop a xs)"] by auto
    then show ?thesis using length_takeWhile_le [of P "rev (drop a xs)"] takeWhile_eq_take [of P "rev (drop a xs)"]
      by (metis le_neq_implies_less take_all_iff order_refl)
  qed
  then show "a + r < length xs" using r by simp
qed

lemma trim_spec_blank: "\<forall>x\<in>set xs. P x \<Longrightarrow> trim_spec P xs = []"
  by (simp add: trim_spec_def dropWhile_eq_Nil_conv [THEN iffD2])

lemma sdstrim_rep:
  assumes "sds_rep s xs" "0 \<notin> set cs"
  shows "\<exists>s'. sdstrim s (cs @ 0 # zs) = Some s' \<and> sds_rep s' (trim_spec (trimmed cs) xs)"
proof -
  obtain fr where s: "s = sds_mk xs fr" "length xs + length fr < 2 ^ 32"
    using assms(1) by (rule sds_repE)
  let ?P = "trimmed cs" and ?b = "xs @ 0 # fr"
  define a where "a = length (takeWhile ?P xs)"
  define r where "r = length (takeWhile ?P (rev (tl xs)))"
  define n where "n = (if \<forall>x\<in>set xs. ?P x then 0 else length xs - a - r)"
  have al: "a \<le> length xs" unfolding a_def by (rule length_takeWhile_le)
  have sp: "trim_left ?b (cs @ 0 # zs) 0 (int (length xs) - 1) = Some (int a)"
    using trim_left_spec [of 0 xs cs "0 # fr" zs] assms(2) by (simp add: a_def)
  obtain ep where ep: "trim_right ?b (cs @ 0 # zs) (int (length xs) - 1) 0 = Some ep"
    "(if int a > ep then 0 else nat (ep - int a + 1)) = n"
  proof (cases "xs = []")
    case True
    then show ?thesis using that [of "- 1"] by (simp add: trim_right.simps n_def)
  next
    case False
    then have "trim_right ?b (cs @ 0 # zs) (int (length xs - 1)) 0 = Some (int (length xs - 1 - r))"
      using trim_right_spec [of "length xs - 1" xs cs "0 # fr" zs] assms(2) by (simp add: r_def)
    moreover have "int (length xs - 1) = int (length xs) - 1" using False by (cases xs) auto
    moreover have "(if int a > int (length xs - 1 - r) then 0 else nat (int (length xs - 1 - r) - int a + 1)) = n"
    proof (cases "\<forall>x\<in>set xs. ?P x")
      case True
      then have "takeWhile ?P xs = xs" by (simp add: takeWhile_eq_all_conv)
      moreover have "takeWhile ?P (rev (tl xs)) = rev (tl xs)"
        using True False by (auto simp: takeWhile_eq_all_conv dest: list.set_sel(2))
      ultimately have "a = length xs" "r = length xs - 1" unfolding a_def r_def
        by (simp_all only: length_rev length_tl)
      then show ?thesis using True False by (simp add: n_def)
    next
      case f: False
      then obtain x where "x \<in> set xs" "\<not> ?P x" by blast
      then have "a + r < length xs" unfolding a_def r_def by (rule trim_spec_take(2))
      then show ?thesis using f by (auto simp: n_def)
    qed
    ultimately show ?thesis using that by metis
  qed
  have nx: "n + a \<le> length xs" "n \<le> length xs" using al by (auto simp: n_def)
  define b where "b = (if a \<noteq> 0 then take n (drop a xs) @ drop n ?b else ?b)"
  have mv: "(if int a \<noteq> 0 then memmove_at ?b 0 (nat (int a)) n else Some ?b) = Some b"
    using nx by (simp add: mem_simps b_def)
  have lb: "length b = length xs + length fr + 1" using nx by (auto simp: b_def)
  have "take n b = take n (drop a xs)" using nx by (auto simp: b_def min_def)
  also have "\<dots> = trim_spec ?P xs"
  proof (cases "\<forall>x\<in>set xs. ?P x")
    case True
    then show ?thesis by (simp add: n_def trim_spec_blank)
  next
    case False
    then obtain x where x: "x \<in> set xs" "\<not> ?P x" by blast
    have "n = length xs - a - r" unfolding n_def using False by (rule if_not_P)
    then show ?thesis using trim_spec_take(1) [where P = ?P, OF x] unfolding a_def r_def by (simp only:)
  qed
  finally have tb: "take n b = trim_spec ?P xs" .
  obtain fr' where fr': "wr b n 0 = Some (trim_spec ?P xs @ 0 # fr')"
    "add32 (length fr) (sub32 (length xs) (length (trim_spec ?P xs))) = length fr'" "u32 n = length (trim_spec ?P xs)"
    "length (trim_spec ?P xs) + length fr' < 2 ^ 32"
    using shrink_mk [OF lb s(2) nx(2) tb] by blast
  have "sdstrim s (cs @ 0 # zs) = Some (sds_mk (trim_spec ?P xs) fr')"
    unfolding sdstrim_def s(1) sds_mk_simps Let_def
    by (simp only: sp ep mv fr' Option.bind.simps) (simp add: sds_mk_def)
  then show ?thesis using fr'(4) by (auto simp: sds_rep_iff)
qed

subsection \<open>\<open>sdsrange\<close>\<close>

lemma s32_id: "in_sint 32 i \<Longrightarrow> s32 i = i"
  unfolding s32_def by (rule sgn_of_uns_of) simp_all

text \<open>
  The documented meaning of the inclusive range: negative indexes count from the end and are
  clamped at 0, the end is clamped at the last character.
\<close>

definition range_spec :: "'a list \<Rightarrow> int \<Rightarrow> int \<Rightarrow> 'a list" where
  "range_spec xs start en =
     (let n = int (length xs);
          i = nat (if start < 0 then max 0 (n + start) else start);
          j = nat (if en < 0 then max 0 (n + en) else en)
      in take (Suc j - i) (drop i xs))"

lemma sdsrange_rep:
  assumes "sds_rep s xs" "length xs < 2 ^ 31" "in_sint 32 start" "in_sint 32 en"
  shows "\<exists>s'. sdsrange s start en = Some s' \<and> sds_rep s' (range_spec xs start en)"
proof (cases "xs = []")
  case True
  obtain fr where s: "s = sds_mk xs fr" using assms(1) by (rule sds_repE)
  have "sdsrange s start en = Some s" using True by (simp add: sdsrange_def s)
  then show ?thesis using True assms(1) by (simp add: range_spec_def)
next
  case False
  obtain fr where s: "s = sds_mk xs fr" "length xs + length fr < 2 ^ 32"
    using assms(1) by (rule sds_repE)
  define n where "n = int (length xs)"
  define i where "i = (if start < 0 then max 0 (n + start) else start)"
  define j where "j = (if en < 0 then max 0 (n + en) else en)"
  have n: "0 < n" "n < 2 ^ 31" using False assms(2) by (auto simp: n_def)
  have i: "(if start < 0 then let start = s32 (n + start) in if start < 0 then 0 else start else start) = i"
    using assms(3) n by (auto simp: i_def s32_id Let_def max_def)
  have j: "(if en < 0 then let en = s32 (n + en) in if en < 0 then 0 else en else en) = j"
    using assms(4) n by (auto simp: j_def s32_id Let_def max_def)
  have sn: "s32 n = n" "s32 (n - 1) = n - 1" using n by (auto intro!: s32_id)
  have ij: "0 \<le> i" "0 \<le> j" using n by (auto simp: i_def j_def)
  define st where "st = (if i > j then 0 else i)"
  define nl where "nl = (if i > j \<or> i \<ge> n then 0 else min j (n - 1) - i + 1)"
  let ?b = "xs @ 0 # fr"
  have pair: "(if (if i > j then 0 else j - i + 1) \<noteq> 0 then
                 if i \<ge> s32 n then (i, 0)
                 else if j \<ge> s32 n then
                   let en = s32 (n - 1) in (i, if i > en then 0 else en - i + 1)
                 else (i, if i > j then 0 else j - i + 1)
               else (0, if i > j then 0 else j - i + 1)) = (st, nl)"
    unfolding sn using ij n by (auto simp: st_def nl_def Let_def min_def)
  have bnd: "0 \<le> nl" "nl \<noteq> 0 \<Longrightarrow> st + nl \<le> n" "nat nl \<le> length xs" "0 \<le> st"
    using ij n by (auto simp: nl_def st_def n_def min_def)
  define b where "b = (if st \<noteq> 0 \<and> nl \<noteq> 0 then take (nat nl) (drop (nat st) xs) @ drop (nat nl) ?b else ?b)"
  have "nl \<noteq> 0 \<Longrightarrow> nat st + nat nl \<le> length xs" using bnd by (auto simp: n_def)
  then have mv: "(if st \<noteq> 0 \<and> nl \<noteq> 0 then memmove_at ?b 0 (nat st) (nat nl) else Some ?b) = Some b"
    and lb: "length b = length xs + length fr + 1"
    and tb: "take (nat nl) b = (if nl = 0 then [] else take (nat nl) (drop (nat st) xs))"
    using bnd by (auto simp: mem_simps b_def)
  have "range_spec xs start en = take (Suc (nat j) - nat i) (drop (nat i) xs)"
    by (simp add: range_spec_def Let_def i_def j_def n_def)
  also have "\<dots> = (if nl = 0 then [] else take (nat nl) (drop (nat st) xs))"
    using ij n by (auto simp: nl_def st_def n_def min_def nat_diff_distrib Suc_diff_le nat_add_distrib
        intro!: take_all)
  finally have tb: "take (nat nl) b = range_spec xs start en" using tb by simp
  obtain fr' where fr': "wr b (nat nl) 0 = Some (range_spec xs start en @ 0 # fr')"
    "add32 (length fr) (sub32 (length xs) (length (range_spec xs start en))) = length fr'"
    "u32 (nat nl) = length (range_spec xs start en)" "length (range_spec xs start en) + length fr' < 2 ^ 32"
    using shrink_mk [OF lb s(2) bnd(3) tb] by blast
  have "sdsrange s start en = Some (sds_mk (range_spec xs start en) fr')"
    unfolding sdsrange_def s(1) sds_mk_simps n_def [symmetric] Let_def [of n] i j
    unfolding Let_def [of i] Let_def [of j] Let_def [of "if i > j then 0 else j - i + 1"] pair
    using n(1) by (simp only: case_prod_conv Let_def mv fr' Option.bind.simps) (simp add: sds_mk_def)
  then show ?thesis using fr'(4) by (auto simp: sds_rep_iff)
qed

subsection \<open>Character maps and comparison\<close>

lemma map_chars_loop_spec:
  assumes "\<forall>c\<in>set ys. f c = Some (g c)"
  shows "map_chars_loop f (xs @ ys @ zs) (length xs) (length ys) = Some (xs @ map g ys @ zs)"
  using assms
proof (induction ys arbitrary: xs)
  case Nil
  then show ?case by simp
next
  case (Cons y ys)
  have "map_chars_loop f ((xs @ [g y]) @ ys @ zs) (length (xs @ [g y])) (length ys)
      = Some ((xs @ [g y]) @ map g ys @ zs)"
    using Cons by (intro Cons.IH) simp
  then show ?case using Cons.prems by (simp add: rd_def wr_def)
qed

lemma sds_map_chars:
  assumes "sds_rep s xs" "\<forall>c\<in>set xs. f c = Some (g c)"
  shows "\<exists>s'. do { b \<leftarrow> map_chars_loop f (sh_buf s) 0 (sdslen s); Some (s\<lparr>sh_buf := b\<rparr>) } = Some s' \<and>
    sds_rep s' (map g xs)"
proof -
  obtain fr where s: "s = sds_mk xs fr" "length xs + length fr < 2 ^ 32"
    using assms(1) by (rule sds_repE)
  have m: "map_chars_loop f (xs @ 0 # fr) 0 (length xs) = Some (map g xs @ 0 # fr)"
    using map_chars_loop_spec [OF assms(2), of "[]" "0 # fr"] by simp
  have u: "(sds_mk xs fr)\<lparr>sh_buf := map g xs @ 0 # fr\<rparr> = sds_mk (map g xs) fr"
    by (simp add: sds_mk_def)
  have "sds_rep (sds_mk (map g xs) fr) (map g xs)" using s(2) by (intro sds_rep_mkI) simp
  then show ?thesis unfolding s(1) sds_mk_simps m Option.bind.simps u by blast
qed

lemma sdstolower_rep: "sds_rep s xs \<Longrightarrow> \<exists>s'. sdstolower s = Some s' \<and> sds_rep s' (map c_tolower xs)"
  using sds_map_chars [of s xs "Some \<circ> c_tolower"] by (simp add: sdstolower_def)

lemma sdstoupper_rep: "sds_rep s xs \<Longrightarrow> \<exists>s'. sdstoupper s = Some s' \<and> sds_rep s' (map c_toupper xs)"
  using sds_map_chars [of s xs "Some \<circ> c_toupper"] by (simp add: sdstoupper_def)

lemma mapchars_inner_spec:
  assumes "length fs = length ts"
  shows "mapchars_inner (us @ fs @ vs) (ws @ ts @ zs) (length us) (length fs) c =
    (if length ws = length us then
       Some (case map_of (zip fs ts) c of None \<Rightarrow> c | Some d \<Rightarrow> d)
     else mapchars_inner (us @ fs @ vs) (ws @ ts @ zs) (length us) (length fs) c)"
  using assms
proof (induction fs ts arbitrary: us ws rule: list_induct2)
  case (Cons f fs t ts)
  show ?case
    using Cons.IH [of "us @ [f]" "ws @ [t]"] by (auto simp: rd_def nth_append)
qed simp

lemma sdsmapchars_rep:
  assumes "sds_rep s xs" "length fs = length ts"
  shows "\<exists>s'. sdsmapchars s (fs @ vs) (ts @ zs) (length fs) = Some s' \<and>
    sds_rep s' (map (\<lambda>c. case map_of (zip fs ts) c of None \<Rightarrow> c | Some d \<Rightarrow> d) xs)"
  using sds_map_chars [OF assms(1)] mapchars_inner_spec [OF assms(2), of "[]" vs "[]" zs]
  by (simp add: sdsmapchars_def)

text \<open>The order of binary strings: lexicographic on unsigned bytes, a proper prefix is smaller.\<close>

fun bytes_less :: "bytes \<Rightarrow> bytes \<Rightarrow> bool" where
  "bytes_less xs [] = False"
| "bytes_less [] (y # ys) = True"
| "bytes_less (x # xs) (y # ys) = (x < y \<or> (x = y \<and> bytes_less xs ys))"

lemma memcmp_c_0: "length xs = length ys \<Longrightarrow> memcmp_c xs ys = 0 \<longleftrightarrow> xs = ys"
  by (induction xs ys rule: list_induct2) (auto simp: word_uint_eq_iff)

lemma memcmp_c_neg: "length xs = length ys \<Longrightarrow> memcmp_c xs ys < 0 \<longleftrightarrow> bytes_less xs ys"
  by (induction xs ys rule: list_induct2) (auto simp: word_less_def)

lemma bytes_less_irrefl: "\<not> bytes_less xs xs"
  by (induction xs) auto

lemma bytes_less_take:
  "bytes_less xs ys \<longleftrightarrow>
    bytes_less (take (min (length xs) (length ys)) xs) (take (min (length xs) (length ys)) ys) \<or>
    (take (min (length xs) (length ys)) xs = take (min (length xs) (length ys)) ys \<and> length xs < length ys)"
proof (induction xs ys rule: bytes_less.induct)
  case (2 y ys)
  then show ?case by (cases ys) auto
qed auto

text \<open>A comparison of the common length, then of the lengths, decides the order of two strings.\<close>

definition prefix_cmp :: "bytes \<Rightarrow> bytes \<Rightarrow> int" where
  "prefix_cmp xs ys =
     (let minlen = (if length xs < length ys then length xs else length ys); cmp = memcmp_c (take minlen xs) (take minlen ys) in
      if cmp = 0 then s32 (int (length xs) - int (length ys)) else cmp)"

lemma prefix_cmp_order:
  assumes "length xs < 2 ^ 31" "length ys < 2 ^ 31"
  shows "prefix_cmp xs ys < 0 \<longleftrightarrow> bytes_less xs ys" "prefix_cmp xs ys = 0 \<longleftrightarrow> xs = ys"
proof -
  let ?m = "min (length xs) (length ys)"
  have m: "(if length xs < length ys then length xs else length ys) = ?m" by simp
  let ?c = "memcmp_c (take ?m xs) (take ?m ys)"
  have "in_sint 32 (int (length xs) - int (length ys))" using assms by simp
  then have "s32 (int (length xs) - int (length ys)) = int (length xs) - int (length ys)" by (rule s32_id)
  then have r: "prefix_cmp xs ys = (if ?c = 0 then int (length xs) - int (length ys) else ?c)"
    unfolding prefix_cmp_def Let_def m by simp
  have z: "?c = 0 \<longleftrightarrow> take ?m xs = take ?m ys" by (rule memcmp_c_0) simp
  have l: "?c < 0 \<longleftrightarrow> bytes_less (take ?m xs) (take ?m ys)" by (rule memcmp_c_neg) simp
  have e: "xs = ys" if "take ?m xs = take ?m ys" "length xs = length ys" using that by simp
  show "prefix_cmp xs ys < 0 \<longleftrightarrow> bytes_less xs ys"
    using r z l bytes_less_irrefl bytes_less_take [of xs ys] by auto
  show "prefix_cmp xs ys = 0 \<longleftrightarrow> xs = ys" using r z e by auto
qed

lemma sdscmp_rep:
  assumes "sds_rep s1 xs" "sds_rep s2 ys" "length xs < 2 ^ 31" "length ys < 2 ^ 31"
  shows "\<exists>c. sdscmp s1 s2 = Some c \<and> (c < 0 \<longleftrightarrow> bytes_less xs ys) \<and> (c = 0 \<longleftrightarrow> xs = ys)"
proof -
  obtain f1 where s1: "s1 = sds_mk xs f1" using assms(1) by (rule sds_repE)
  obtain f2 where s2: "s2 = sds_mk ys f2" using assms(2) by (rule sds_repE)
  have "sdscmp s1 s2 = Some (prefix_cmp xs ys)"
    unfolding sdscmp_def s1 s2 sds_mk_simps prefix_cmp_def Let_def by (simp add: mem_simps)
  then show ?thesis using prefix_cmp_order [OF assms(3,4)] by simp
qed

section \<open>Properties\<close>

lemma sds_wfE:
  assumes "sds_wf s"
  obtains "sds_rep s (sds_content s)" "length (sds_content s) = sdslen s"
  using assms by (auto simp: sds_rep_def sds_content_def sds_wf_def sdslen_def)

text \<open>
  \<open>sdscatlen\<close> appends \<open>n\<close> bytes of its source to any well-formed string, reallocating when the
  spare space is too small, keeps the string well formed and accesses only its allocation.
\<close>

lemma sdscatlen_appends:
  assumes "sds_wf s" "n \<le> length t" "sdslen s + n + SDS_MAX_PREALLOC < 2 ^ 32"
  shows "\<exists>s'. sdscatlen jk s t n = Some s' \<and> sds_wf s' \<and> sds_content s' = sds_content s @ take n t"
  using assms by (elim sds_wfE) (drule sdscatlen_rep; auto simp: sds_rep_def)

text \<open>
  The other constructors and in-place operations keep the string well formed, stay inside the
  allocation, and have the content their documentation promises.
\<close>

lemma sds_operations_wf:
  assumes "sds_wf s" "n \<le> length t" "n + SDS_MAX_PREALLOC < 2 ^ 32" "0 \<le> incr" "nat incr \<le> sdsavail s"
  shows "(\<exists>a. sdsnewlen jk (Some t) n = Some a \<and> sds_wf a \<and> sds_content a = take n t) \<and>
    (\<exists>a. sdsdup jk s = Some a \<and> sds_wf a \<and> sds_content a = sds_content s) \<and>
    (\<exists>a. sdsclear s = Some a \<and> sds_wf a \<and> sds_content a = []) \<and>
    (\<exists>a. sdscpylen jk s t n = Some a \<and> sds_wf a \<and> sds_content a = take n t) \<and>
    (\<exists>a. sdsgrowzero jk s n = Some a \<and> sds_wf a \<and>
       sds_content a = sds_content s @ replicate (n - sdslen s) 0) \<and>
    (\<exists>a. sdsupdatelen s = Some a \<and> sds_wf a \<and> sds_content a = takeWhile (\<lambda>b. b \<noteq> 0) (sds_content s)) \<and>
    (\<exists>a. sdsIncrLen s incr = Some a \<and> sds_wf a \<and>
       sds_content a = sds_content s @ take (nat incr) (drop (sdslen s) (sh_buf s))) \<and>
    (\<exists>a. sdstolower s = Some a \<and> sds_wf a \<and> sds_content a = map c_tolower (sds_content s)) \<and>
    (\<exists>a. sdstoupper s = Some a \<and> sds_wf a \<and> sds_content a = map c_toupper (sds_content s)) \<and>
    sds_wf (sdsRemoveFreeSpace jk s) \<and> sds_content (sdsRemoveFreeSpace jk s) = sds_content s \<and>
    sdsAllocSize s = 8 + length (sh_buf s)"
proof -
  obtain r: "sds_rep s (sds_content s)" and l: "length (sds_content s) = sdslen s"
    using assms(1) by (rule sds_wfE)
  obtain fr where s: "s = sds_mk (sds_content s) fr" "length (sds_content s) + length fr < 2 ^ 32"
    using r by (rule sds_repE)
  have n: "n < 2 ^ 32" using assms(3) by linarith
  have "length (sds_content s) < 2 ^ 32" using s(2) by linarith
  then have dup: "sdsdup jk s = Some (sds_mk (sds_content s) [])"
    using sdsdup_mk [of "sds_content s" jk fr] s(1) by simp
  have inc: "\<exists>a. sdsIncrLen s incr = Some a \<and> sds_rep a (sds_content s @ take (nat incr) (drop (sdslen s) (sh_buf s)))"
    using sdsIncrLen_pos [OF r assms(4,5)] l by simp
  have sz: "sdsAllocSize s = 8 + length (sh_buf s)" using assms(1) by (simp add: sdsAllocSize_def sds_wf_def)
  show ?thesis
    using sdsnewlen_rep [OF assms(2) n, of jk] dup sdsclear_rep [OF r] sdscpylen_rep [OF r assms(2,3), of jk]
      sdsgrowzero_rep [OF r assms(3), of jk] sdsupdatelen_rep [OF r] inc sdstolower_rep [OF r] sdstoupper_rep [OF r]
      sdsRemoveFreeSpace_rep [OF r, of jk] sz n \<open>length (sds_content s) < 2 ^ 32\<close> assms(2) l
    unfolding sds_rep_def by auto
qed

text \<open>
  \<open>sdsrange\<close> keeps exactly the inclusive range of characters its documentation describes, for
  every combination of negative, reversed and out-of-range indexes.
\<close>

lemma sdsrange_keeps_range:
  assumes "sds_wf s" "sdslen s < 2 ^ 31" "in_sint 32 start" "in_sint 32 en"
  shows "\<exists>s'. sdsrange s start en = Some s' \<and> sds_wf s' \<and> sds_content s' = range_spec (sds_content s) start en"
  using assms by (elim sds_wfE) (drule sdsrange_rep; auto simp: sds_rep_def)

text \<open>
  \<open>sdstrim\<close> removes from both ends the longest runs of characters of the set \<open>cs\<close>, and of NUL
  bytes: \<open>strchr\<close> also finds the terminator of the set.  The documentation only mentions the
  characters of the set.
\<close>

lemma sdstrim_trims_set_and_nul:
  assumes "sds_wf s" "0 \<notin> set cs"
  shows "\<exists>s'. sdstrim s (cs @ 0 # zs) = Some s' \<and> sds_wf s' \<and>
    sds_content s' = trim_spec (\<lambda>c. c \<in> set cs \<or> c = 0) (sds_content s)"
proof -
  have "trimmed cs = (\<lambda>c. c \<in> set cs \<or> c = 0)" by (simp add: trimmed_def fun_eq_iff)
  then show ?thesis using assms by (elim sds_wfE) (drule sdstrim_rep; auto simp: sds_rep_def)
qed

text \<open>
  \<open>sdscmp\<close> is the order of binary strings: negative exactly when the first string comes before
  the second lexicographically by unsigned bytes, zero exactly when they are equal.
\<close>

lemma sdscmp_orders:
  assumes "sds_wf s1" "sds_wf s2" "sdslen s1 < 2 ^ 31" "sdslen s2 < 2 ^ 31"
  shows "\<exists>c. sdscmp s1 s2 = Some c \<and> (c < 0 \<longleftrightarrow> bytes_less (sds_content s1) (sds_content s2)) \<and>
    (c = 0 \<longleftrightarrow> sds_content s1 = sds_content s2)"
proof -
  obtain "sds_rep s1 (sds_content s1)" "length (sds_content s1) = sdslen s1" using assms(1) by (rule sds_wfE)
  moreover obtain "sds_rep s2 (sds_content s2)" "length (sds_content s2) = sdslen s2" using assms(2) by (rule sds_wfE)
  ultimately show ?thesis using sdscmp_rep assms(3,4) by metis
qed

end
