(* ===== verification/SdsText.thy ===== *)
theory SdsText
  imports Sds "HOL-Library.Sublist"
begin

text \<open>
  The text-building half of \<open>sds.c\<close>: number formatting, the two printf-like appenders,
  splitting and joining, and the quoted representation with its parser.
\<close>

section \<open>Numbers\<close>

text \<open>The \<open>do ... while (v)\<close> loop that stores the digits in reverse, and the in-place reversal.\<close>

fun ll2str_digits :: "bytes \<Rightarrow> nat \<Rightarrow> nat \<Rightarrow> (bytes \<times> nat) option" where
  "ll2str_digits b p v =
     do {
       b \<leftarrow> wr b p (of_nat (48 + v mod 10));
       if v div 10 \<noteq> 0 then ll2str_digits b (p + 1) (v div 10) else Some (b, p + 1)
     }"

declare ll2str_digits.simps [simp del]

fun rev_loop :: "bytes \<Rightarrow> nat \<Rightarrow> nat \<Rightarrow> bytes option" where
  "rev_loop b s p =
     (if s < p then
        do {
          aux \<leftarrow> rd b s;
          y \<leftarrow> rd b p;
          b \<leftarrow> wr b s y;
          b \<leftarrow> wr b p aux;
          rev_loop b (s + 1) (p - 1)
        }
      else Some b)"

declare rev_loop.simps [simp del]

text \<open>
  Negating the least \<open>long long\<close> overflows, which is undefined in C, so the model has no
  result there.
\<close>

definition sdsll2str :: "bytes \<Rightarrow> int \<Rightarrow> (bytes \<times> nat) option" where
  "sdsll2str b v =
     (if v = - (2 ^ 63) then None
      else do {
        (b, p) \<leftarrow> ll2str_digits b 0 (nat (if v < 0 then - v else v));
        (b, p) \<leftarrow> (if v < 0 then do { b \<leftarrow> wr b p 45; Some (b, p + 1) } else Some (b, p));
        let l = p;
        b \<leftarrow> wr b p 0;
        b \<leftarrow> rev_loop b 0 (p - 1);
        Some (b, l)
      })"

definition sdsull2str :: "bytes \<Rightarrow> nat \<Rightarrow> (bytes \<times> nat) option" where
  "sdsull2str b v =
     do {
       (b, p) \<leftarrow> ll2str_digits b 0 v;
       let l = p;
       b \<leftarrow> wr b p 0;
       b \<leftarrow> rev_loop b 0 (p - 1);
       Some (b, l)
     }"

definition SDS_LLSTR_SIZE :: nat where "SDS_LLSTR_SIZE = 21"

definition sdsfromlonglong :: "(nat \<Rightarrow> byte) \<Rightarrow> int \<Rightarrow> sdshdr option" where
  "sdsfromlonglong jk v =
     do {
       (b, ln) \<leftarrow> sdsll2str (map jk [0..<SDS_LLSTR_SIZE]) v;
       sdsnewlen jk (Some b) ln
     }"

section \<open>\<open>sdscatprintf\<close>\<close>

text \<open>
  \<open>vsnprintf\<close> is the C library's: \<open>out\<close> is the complete formatted output, of which it stores
  what fits, terminated.  The loop doubles the buffer until the byte before the last stays NUL.
\<close>

definition vsnprintf_c :: "bytes \<Rightarrow> nat \<Rightarrow> bytes \<Rightarrow> bytes option" where
  "vsnprintf_c b buflen out = wr_block b 0 (take (buflen - 1) out @ [0])"

definition vprintf_try :: "(nat \<Rightarrow> byte) \<Rightarrow> bytes \<Rightarrow> nat \<Rightarrow> (bytes \<times> byte) option" where
  "vprintf_try jk out buflen =
     (if buflen < 2 then None
      else do {
        b \<leftarrow> wr (map jk [0..<buflen]) (buflen - 2) 0;
        b \<leftarrow> vsnprintf_c b buflen out;
        c \<leftarrow> rd b (buflen - 2);
        Some (b, c)
      })"

lemma vprintf_try_eq:
  assumes "2 \<le> buflen"
  obtains b where "vprintf_try jk out buflen = Some (b, if buflen - 2 < length out then out ! (buflen - 2) else 0)"
    "length out < buflen \<Longrightarrow> take (length out + 1) b = out @ [0]"
    "length b = buflen"
proof -
  let ?b0 = "(map jk [0..<buflen])[buflen - 2 := 0]" and ?w = "take (buflen - 1) out @ [0]"
  have l: "length ?w \<le> buflen" using assms by auto
  then have v: "vsnprintf_c ?b0 buflen out = Some (?w @ drop (length ?w) ?b0)"
    by (simp add: vsnprintf_c_def wr_block_def)
  let ?b = "?w @ drop (length ?w) ?b0"
  have "?b ! (buflen - 2) = (if buflen - 2 < length out then out ! (buflen - 2) else 0)"
    using assms by (auto simp: nth_append min_def nth_Cons' nth_list_update split: if_splits)
  moreover have "length ?b = buflen" using l by simp
  ultimately have "vprintf_try jk out buflen = Some (?b, if buflen - 2 < length out then out ! (buflen - 2) else 0)"
    using v assms by (simp add: vprintf_try_def wr_def rd_def)
  then show ?thesis using that [of ?b] \<open>length ?b = buflen\<close> by auto
qed

function vprintf_loop :: "(nat \<Rightarrow> byte) \<Rightarrow> bytes \<Rightarrow> nat \<Rightarrow> bytes option" where
  "vprintf_loop jk out buflen =
     do {
       (b, c) \<leftarrow> vprintf_try jk out buflen;
       if c \<noteq> 0 then vprintf_loop jk out (buflen * 2) else Some b
     }"
  by pat_completeness auto
termination
proof (relation "measure (\<lambda>(jk, out, buflen). length out + 2 - buflen)")
  fix jk out buflen p b c
  assume p: "vprintf_try jk out buflen = Some p" "(b, c) = p" "c \<noteq> 0"
  then have 2: "2 \<le> buflen" by (auto simp: vprintf_try_def split: if_splits)
  obtain b' where "vprintf_try jk out buflen = Some (b', if buflen - 2 < length out then out ! (buflen - 2) else 0)"
    by (rule vprintf_try_eq [OF 2])
  with p have "buflen - 2 < length out" by (auto split: if_splits)
  then show "((jk, out, buflen * 2), jk, out, buflen) \<in> measure (\<lambda>(jk, out, buflen). length out + 2 - buflen)"
    using 2 by simp
qed simp

declare vprintf_loop.simps [simp del]

definition sdscatvprintf :: "(nat \<Rightarrow> byte) \<Rightarrow> sdshdr \<Rightarrow> nat \<Rightarrow> bytes \<Rightarrow> sdshdr option" where
  "sdscatvprintf jk s fmtlen out =
     (let buflen = fmtlen * 2;
          buflen = (if buflen > 1024 then buflen else 1024)
      in do {
           b \<leftarrow> vprintf_loop jk out buflen;
           sdscat jk s b
         })"

section \<open>\<open>sdscatfmt\<close>\<close>

text \<open>
  The variadic arguments; taking one at the wrong type (\<open>va_arg\<close>) is undefined.  \<open>f\<close> is the
  remaining format string with its terminator and \<open>i\<close> the write position.
\<close>

datatype fmt_arg = ArgStr bytes | ArgSds sdshdr | ArgInt int | ArgUInt nat

definition fmt_put :: "(nat \<Rightarrow> byte) \<Rightarrow> sdshdr \<Rightarrow> nat \<Rightarrow> bytes \<Rightarrow> nat \<Rightarrow> (sdshdr \<times> nat) option" where
  "fmt_put jk s i src l =
     (let s = (if sh_free s < l then sdsMakeRoomFor jk s l else s) in
      do {
        d \<leftarrow> rd_block src 0 l;
        b \<leftarrow> wr_block (sh_buf s) i d;
        Some (s\<lparr>sh_buf := b, sh_len := add32 (sh_len s) l, sh_free := sub32 (sh_free s) l\<rparr>, i + l)
      })"

definition fmt_put1 :: "sdshdr \<Rightarrow> nat \<Rightarrow> byte \<Rightarrow> (sdshdr \<times> nat) option" where
  "fmt_put1 s i c =
     do {
       b \<leftarrow> wr (sh_buf s) i c;
       Some (s\<lparr>sh_buf := b, sh_len := add32 (sh_len s) 1, sh_free := sub32 (sh_free s) 1\<rparr>, i + 1)
     }"

text \<open>One conversion: the string, the write position and the arguments left.\<close>

definition fmt_conv :: "(nat \<Rightarrow> byte) \<Rightarrow> sdshdr \<Rightarrow> nat \<Rightarrow> byte \<Rightarrow> fmt_arg list
    \<Rightarrow> ((sdshdr \<times> nat) \<times> fmt_arg list) option" where
  "fmt_conv jk s i nx args =
     (if nx = 115 then
        (case args of
           ArgStr str # args \<Rightarrow> do { l \<leftarrow> strlen_c str; r \<leftarrow> fmt_put jk s i str (u32 l); Some (r, args) }
         | _ \<Rightarrow> None)
      else if nx = 83 then
        (case args of
           ArgSds t # args \<Rightarrow> do { r \<leftarrow> fmt_put jk s i (sh_buf t) (u32 (sdslen t)); Some (r, args) }
         | _ \<Rightarrow> None)
      else if nx = 105 \<or> nx = 73 then
        (case args of
           ArgInt num # args \<Rightarrow>
             do { (b, l) \<leftarrow> sdsll2str (map jk [0..<SDS_LLSTR_SIZE]) num; r \<leftarrow> fmt_put jk s i b l; Some (r, args) }
         | _ \<Rightarrow> None)
      else if nx = 117 \<or> nx = 85 then
        (case args of
           ArgUInt unum # args \<Rightarrow>
             do { (b, l) \<leftarrow> sdsull2str (map jk [0..<SDS_LLSTR_SIZE]) unum; r \<leftarrow> fmt_put jk s i b l; Some (r, args) }
         | _ \<Rightarrow> None)
      else do { r \<leftarrow> fmt_put1 s i nx; Some (r, args) })"

fun catfmt_loop :: "(nat \<Rightarrow> byte) \<Rightarrow> sdshdr \<Rightarrow> nat \<Rightarrow> bytes \<Rightarrow> fmt_arg list \<Rightarrow> (sdshdr \<times> nat) option" where
  "catfmt_loop jk s i [] args = None"
| "catfmt_loop jk s i (c # f) args =
     (if c = 0 then Some (s, i)
      else
        let s = (if sh_free s = 0 then sdsMakeRoomFor jk s 1 else s) in
        if c = 37 then
          (case f of
             [] \<Rightarrow> None
           | nx # f' \<Rightarrow> do { ((s, i), args) \<leftarrow> fmt_conv jk s i nx args; catfmt_loop jk s i f' args })
        else do { (s, i) \<leftarrow> fmt_put1 s i c; catfmt_loop jk s i f args })"

definition sdscatfmt :: "(nat \<Rightarrow> byte) \<Rightarrow> sdshdr \<Rightarrow> bytes \<Rightarrow> fmt_arg list \<Rightarrow> sdshdr option" where
  "sdscatfmt jk s fmt args =
     do {
       (s, i) \<leftarrow> catfmt_loop jk s (sdslen s) fmt args;
       b \<leftarrow> wr (sh_buf s) i 0;
       Some (s\<lparr>sh_buf := b\<rparr>)
     }"


section \<open>\<open>sdssplitlen\<close> and \<open>sdsjoin\<close>\<close>

text \<open>
  \<open>tokens\<close> is an array of \<open>slots\<close> pointers of which the first \<open>elements\<close> are set; storing past
  \<open>slots\<close> would be out of bounds.  \<open>s\<close> and \<open>sep\<close> are the memory at the two pointers.
\<close>

definition tok_put :: "(nat \<Rightarrow> byte) \<Rightarrow> bytes \<Rightarrow> nat \<Rightarrow> nat \<Rightarrow> nat \<Rightarrow> sdshdr list \<Rightarrow> sdshdr list option" where
  "tok_put jk s start n slots tokens =
     (if length tokens < slots then
        do { d \<leftarrow> rd_block s start n; t \<leftarrow> sdsnewlen jk (Some d) n; Some (tokens @ [t]) }
      else None)"

definition sep_here :: "bytes \<Rightarrow> nat \<Rightarrow> bytes \<Rightarrow> nat \<Rightarrow> bool option" where
  "sep_here s j sep seplen =
     do {
       one \<leftarrow> (if seplen = 1 then do { c \<leftarrow> rd s j; d \<leftarrow> rd sep 0; Some (c = d) } else Some False);
       if one then Some True
       else do { a \<leftarrow> rd_block s j seplen; b \<leftarrow> rd_block sep 0 seplen; Some (memcmp_c a b = 0) }
     }"

function splitlen_loop :: "(nat \<Rightarrow> byte) \<Rightarrow> bytes \<Rightarrow> nat \<Rightarrow> bytes \<Rightarrow> nat \<Rightarrow> nat \<Rightarrow> nat \<Rightarrow> nat \<Rightarrow> sdshdr list
    \<Rightarrow> (nat \<times> nat \<times> sdshdr list) option" where
  "splitlen_loop jk s ln sep seplen j start slots tokens =
     (if j + (seplen - 1) < ln then
        let slots = (if slots < length tokens + 2 then slots * 2 else slots) in
        do {
          hit \<leftarrow> sep_here s j sep seplen;
          if hit then
            do {
              tokens \<leftarrow> tok_put jk s start (j - start) slots tokens;
              splitlen_loop jk s ln sep seplen (j + (seplen - 1) + 1) (j + seplen) slots tokens
            }
          else splitlen_loop jk s ln sep seplen (j + 1) start slots tokens
        }
      else Some (start, slots, tokens))"
  by pat_completeness auto
termination by (relation "measure (\<lambda>(jk, s, ln, sep, seplen, j, start, slots, tokens). ln - j)") auto

declare splitlen_loop.simps [simp del]

text \<open>The result \<open>Some None\<close> is \<open>NULL\<close>; \<open>Some (Some ts)\<close> the tokens, with \<open>*count = length ts\<close>.\<close>

definition sdssplitlen :: "(nat \<Rightarrow> byte) \<Rightarrow> bytes \<Rightarrow> int \<Rightarrow> bytes \<Rightarrow> int \<Rightarrow> sdshdr list option option" where
  "sdssplitlen jk s ln sep seplen =
     (if seplen < 1 \<or> ln < 0 then Some None
      else if ln = 0 then Some (Some [])
      else do {
        (start, slots, tokens) \<leftarrow> splitlen_loop jk s (nat ln) sep (nat seplen) 0 0 5 [];
        tokens \<leftarrow> tok_put jk s start (nat ln - start) slots tokens;
        Some (Some tokens)
      })"

fun join_loop :: "(nat \<Rightarrow> byte) \<Rightarrow> sdshdr \<Rightarrow> bytes list \<Rightarrow> bytes \<Rightarrow> sdshdr option" where
  "join_loop jk join [] sep = Some join"
| "join_loop jk join (a # argv) sep =
     do {
       join \<leftarrow> sdscat jk join a;
       join \<leftarrow> (if argv \<noteq> [] then sdscat jk join sep else Some join);
       join_loop jk join argv sep
     }"

definition sdsjoin :: "(nat \<Rightarrow> byte) \<Rightarrow> bytes list \<Rightarrow> bytes \<Rightarrow> sdshdr option" where
  "sdsjoin jk argv sep = do { join \<leftarrow> sdsempty jk; join_loop jk join argv sep }"

section \<open>\<open>sdscatrepr\<close>\<close>

definition c_isprint :: "byte \<Rightarrow> bool" where "c_isprint c \<longleftrightarrow> 32 \<le> c \<and> c \<le> 126"

definition hex_char :: "nat \<Rightarrow> byte" where
  "hex_char d = (if d < 10 then of_nat (48 + d) else of_nat (87 + d))"

definition catrepr_char :: "(nat \<Rightarrow> byte) \<Rightarrow> sdshdr \<Rightarrow> byte \<Rightarrow> sdshdr option" where
  "catrepr_char jk s c =
     (if c = 92 \<or> c = 34 then sdscatvprintf jk s 3 [92, c]
      else if c = 10 then sdscatlen jk s [92, 110] 2
      else if c = 13 then sdscatlen jk s [92, 114] 2
      else if c = 9 then sdscatlen jk s [92, 116] 2
      else if c = 7 then sdscatlen jk s [92, 97] 2
      else if c = 8 then sdscatlen jk s [92, 98] 2
      else if c_isprint c then sdscatvprintf jk s 2 [c]
      else sdscatvprintf jk s 6 [92, 120, hex_char (unat c div 16), hex_char (unat c mod 16)])"

definition sdscatrepr :: "(nat \<Rightarrow> byte) \<Rightarrow> sdshdr \<Rightarrow> bytes \<Rightarrow> sdshdr option" where
  "sdscatrepr jk s p =
     do {
       s \<leftarrow> sdscatlen jk s [34] 1;
       s \<leftarrow> ofold (catrepr_char jk) s p;
       sdscatlen jk s [34] 1
     }"

section \<open>\<open>sdssplitargs\<close>\<close>

definition is_hex_digit :: "byte \<Rightarrow> bool" where
  "is_hex_digit c \<longleftrightarrow> (48 \<le> c \<and> c \<le> 57) \<or> (97 \<le> c \<and> c \<le> 102) \<or> (65 \<le> c \<and> c \<le> 70)"

definition hex_digit_to_int :: "byte \<Rightarrow> nat" where
  "hex_digit_to_int c =
     (if 48 \<le> c \<and> c \<le> 57 then unat c - 48
      else if 97 \<le> c \<and> c \<le> 102 then unat c - 87
      else if 65 \<le> c \<and> c \<le> 70 then unat c - 55
      else 0)"

definition c_isspace :: "byte \<Rightarrow> bool" where "c_isspace c \<longleftrightarrow> c = 32 \<or> (9 \<le> c \<and> c \<le> 13)"

definition unescape :: "byte \<Rightarrow> byte" where
  "unescape c = (if c = 110 then 10 else if c = 114 then 13 else if c = 116 then 9
                 else if c = 98 then 8 else if c = 97 then 7 else c)"

text \<open>The end of the loop body, \<open>if (*p) p++\<close>.\<close>

definition adv :: "bytes \<Rightarrow> nat \<Rightarrow> nat option" where
  "adv line p = do { c \<leftarrow> rd line p; Some (if c \<noteq> 0 then p + 1 else p) }"

text \<open>
  One iteration of \<open>while(!done)\<close>: an error (the \<open>goto err\<close>), the token finished, or the next
  position, the quoting flags and the token so far.
\<close>

datatype arg_step = StepErr | StepDone nat sdshdr | StepCont nat bool bool sdshdr

definition args_hex :: "bytes \<Rightarrow> nat \<Rightarrow> byte \<Rightarrow> byte option option" where
  "args_hex line p c =
     (if c = 92 then
        do {
          c1 \<leftarrow> rd line (p + 1);
          if c1 = 120 then
            do {
              c2 \<leftarrow> rd line (p + 2);
              if is_hex_digit c2 then
                do {
                  c3 \<leftarrow> rd line (p + 3);
                  Some (if is_hex_digit c3
                        then Some (of_nat (hex_digit_to_int c2 * 16 + hex_digit_to_int c3)) else None)
                }
              else Some None
            }
          else Some None
        }
      else Some None)"

definition args_inq :: "(nat \<Rightarrow> byte) \<Rightarrow> bytes \<Rightarrow> nat \<Rightarrow> byte \<Rightarrow> sdshdr \<Rightarrow> arg_step option" where
  "args_inq jk line p c cur =
     do {
       h \<leftarrow> args_hex line p c;
       case h of
         Some byt \<Rightarrow> do { cur \<leftarrow> sdscatlen jk cur [byt] 1; p' \<leftarrow> adv line (p + 3); Some (StepCont p' True False cur) }
       | None \<Rightarrow>
           do {
             c1 \<leftarrow> (if c = 92 then rd line (p + 1) else Some 0);
             if c = 92 \<and> c1 \<noteq> 0 then
               do { cur \<leftarrow> sdscatlen jk cur [unescape c1] 1; p' \<leftarrow> adv line (p + 1); Some (StepCont p' True False cur) }
             else if c = 34 then
               do {
                 d \<leftarrow> rd line (p + 1);
                 if d \<noteq> 0 \<and> \<not> c_isspace d then Some StepErr
                 else do { p' \<leftarrow> adv line p; Some (StepDone p' cur) }
               }
             else if c = 0 then Some StepErr
             else do { cur \<leftarrow> sdscatlen jk cur [c] 1; p' \<leftarrow> adv line p; Some (StepCont p' True False cur) }
           }
     }"

definition args_insq :: "(nat \<Rightarrow> byte) \<Rightarrow> bytes \<Rightarrow> nat \<Rightarrow> byte \<Rightarrow> sdshdr \<Rightarrow> arg_step option" where
  "args_insq jk line p c cur =
     do {
       c1 \<leftarrow> (if c = 92 then rd line (p + 1) else Some 0);
       if c = 92 \<and> c1 = 39 then
         do { cur \<leftarrow> sdscatlen jk cur [39] 1; p' \<leftarrow> adv line (p + 1); Some (StepCont p' False True cur) }
       else if c = 39 then
         do {
           d \<leftarrow> rd line (p + 1);
           if d \<noteq> 0 \<and> \<not> c_isspace d then Some StepErr
           else do { p' \<leftarrow> adv line p; Some (StepDone p' cur) }
         }
       else if c = 0 then Some StepErr
       else do { cur \<leftarrow> sdscatlen jk cur [c] 1; p' \<leftarrow> adv line p; Some (StepCont p' False True cur) }
     }"

definition args_plain :: "(nat \<Rightarrow> byte) \<Rightarrow> bytes \<Rightarrow> nat \<Rightarrow> byte \<Rightarrow> sdshdr \<Rightarrow> arg_step option" where
  "args_plain jk line p c cur =
     do {
       p' \<leftarrow> adv line p;
       if c = 32 \<or> c = 10 \<or> c = 13 \<or> c = 9 \<or> c = 0 then Some (StepDone p' cur)
       else if c = 34 then Some (StepCont p' True False cur)
       else if c = 39 then Some (StepCont p' False True cur)
       else do { cur \<leftarrow> sdscatlen jk cur [c] 1; Some (StepCont p' False False cur) }
     }"

definition args_step :: "(nat \<Rightarrow> byte) \<Rightarrow> bytes \<Rightarrow> nat \<Rightarrow> bool \<Rightarrow> bool \<Rightarrow> sdshdr \<Rightarrow> arg_step option" where
  "args_step jk line p inq insq cur =
     do {
       c \<leftarrow> rd line p;
       if inq then args_inq jk line p c cur
       else if insq then args_insq jk line p c cur
       else args_plain jk line p c cur
     }"

lemma adv_ge: "adv line p = Some p' \<Longrightarrow> p \<le> p'"
  by (auto simp: adv_def bind_eq_Some_conv)

lemma adv_gt: "adv line p = Some p' \<Longrightarrow> rd line p = Some c \<Longrightarrow> c \<noteq> 0 \<Longrightarrow> p < p'"
  by (auto simp: adv_def bind_eq_Some_conv)

lemma args_step_progress:
  assumes "args_step jk line p inq insq cur = Some (StepCont p' inq' insq' cur')"
  shows "p < p' \<and> p < length line"
proof -
  obtain c where c: "rd line p = Some c" using assms by (auto simp: args_step_def bind_eq_Some_conv)
  then have l: "p < length line" by (simp add: rd_Some_iff)
  have "p < p'"
    using assms c adv_ge [of line "p + 3" p'] adv_ge [of line "p + 1" p'] adv_gt [of line p p' c]
    by (auto simp: args_step_def args_inq_def args_insq_def args_plain_def bind_eq_Some_conv
        split: if_splits option.splits)
  with l show ?thesis by simp
qed

text \<open>The \<open>while(!done)\<close> loop: \<open>Some None\<close> is the error exit.\<close>

function args_token :: "(nat \<Rightarrow> byte) \<Rightarrow> bytes \<Rightarrow> nat \<Rightarrow> bool \<Rightarrow> bool \<Rightarrow> sdshdr \<Rightarrow> (nat \<times> sdshdr) option option" where
  "args_token jk line p inq insq cur =
     do {
       st \<leftarrow> args_step jk line p inq insq cur;
       case st of
         StepErr \<Rightarrow> Some None
       | StepDone p' cur' \<Rightarrow> Some (Some (p', cur'))
       | StepCont p' inq' insq' cur' \<Rightarrow> args_token jk line p' inq' insq' cur'
     }"
  by pat_completeness auto
termination
  by (relation "measure (\<lambda>(jk, line, p, inq, insq, cur). length line - p)")
     (auto dest: args_step_progress intro: diff_less_mono2)

declare args_token.simps [simp del]

function skip_blanks :: "bytes \<Rightarrow> nat \<Rightarrow> nat option" where
  "skip_blanks line p =
     do { c \<leftarrow> rd line p; if c \<noteq> 0 \<and> c_isspace c then skip_blanks line (p + 1) else Some p }"
  by pat_completeness auto
termination by (relation "measure (\<lambda>(line, p). length line - p)") (auto simp: rd_Some_iff)

declare skip_blanks.simps [simp del]


lemma args_token_ge: "args_token jk line p inq insq cur = Some (Some (p', cur')) \<Longrightarrow> p \<le> p'"
proof (induction jk line p inq insq cur rule: args_token.induct)
  case (1 jk line p inq insq cur)
  from "1.prems" obtain st where st: "args_step jk line p inq insq cur = Some st"
    by (subst (asm) args_token.simps) (auto simp: bind_eq_Some_conv)
  show ?case
  proof (cases st)
    case StepErr
    then show ?thesis using "1.prems" st by (subst (asm) args_token.simps) simp
  next
    case (StepDone q c)
    then have "q = p'" using "1.prems" st by (subst (asm) args_token.simps) simp
    then show ?thesis using StepDone st
      by (auto simp: args_step_def args_inq_def args_insq_def args_plain_def bind_eq_Some_conv
          split: if_splits option.splits dest: adv_ge)
  next
    case (StepCont q a b c)
    then have "args_token jk line q a b c = Some (Some (p', cur'))"
      using "1.prems" st by (subst (asm) args_token.simps) simp
    then have "q \<le> p'" using "1.IH" [OF st StepCont] by simp
    moreover have "p < q" using args_step_progress st StepCont by blast
    ultimately show ?thesis by simp
  qed
qed

lemma args_token_gt:
  assumes "args_token jk line p False False cur = Some (Some (p', cur'))"
    "rd line p = Some c" "c \<noteq> 0" "\<not> c_isspace c"
  shows "p < p'"
proof -
  have nd: "\<not> (c = 32 \<or> c = 10 \<or> c = 13 \<or> c = 9 \<or> c = 0)" using assms(3,4) by (auto simp: c_isspace_def)
  from assms(1) obtain st where st: "args_step jk line p False False cur = Some st"
    by (subst (asm) args_token.simps) (auto simp: bind_eq_Some_conv)
  then obtain q a b d where q: "st = StepCont q a b d"
    using assms(2) nd by (auto simp: args_step_def args_plain_def bind_eq_Some_conv split: if_splits)
  then have "args_token jk line q a b d = Some (Some (p', cur'))"
    using assms(1) st by (subst (asm) args_token.simps) simp
  then show ?thesis using args_token_ge args_step_progress st q by (metis less_le_trans)
qed

lemma skip_blanks_stop:
  "skip_blanks line p = Some q \<Longrightarrow> p \<le> q \<and> (\<exists>c. rd line q = Some c \<and> (c = 0 \<or> \<not> c_isspace c))"
proof (induction line p rule: skip_blanks.induct)
  case (1 line p)
  then show ?case
    by (subst (asm) (2) skip_blanks.simps) (fastforce simp: bind_eq_Some_conv split: if_splits)
qed

text \<open>The outer \<open>while(1)\<close>; \<open>Some None\<close> is the \<open>NULL\<close> of the error exit.\<close>

function splitargs_loop :: "(nat \<Rightarrow> byte) \<Rightarrow> bytes \<Rightarrow> nat \<Rightarrow> sdshdr list \<Rightarrow> sdshdr list option option" where
  "splitargs_loop jk line p vec =
     do {
       q \<leftarrow> skip_blanks line p;
       c \<leftarrow> rd line q;
       if c \<noteq> 0 then
         do {
           cur \<leftarrow> sdsempty jk;
           r \<leftarrow> args_token jk line q False False cur;
           case r of
             None \<Rightarrow> Some None
           | Some (p', cur') \<Rightarrow> splitargs_loop jk line p' (vec @ [cur'])
         }
       else Some (Some vec)
     }"
  by pat_completeness auto
termination
proof (relation "measure (\<lambda>(jk, line, p, vec). length line - p)")
  fix jk line p vec q c cur r x y and x2 :: "nat \<times> sdshdr"
  assume a: "skip_blanks line p = Some q" "rd line q = Some c" "c \<noteq> 0"
    "args_token jk line q False False cur = Some r" "r = Some x2" "(x, y) = x2"
  have "\<not> c_isspace c" using skip_blanks_stop [OF a(1)] a(2,3) by auto
  then have "q < x" using args_token_gt a by auto
  moreover have "p \<le> q" using skip_blanks_stop [OF a(1)] by simp
  moreover have "q < length line" using a(2) by (simp add: rd_Some_iff)
  ultimately show "((jk, line, x, vec @ [y]), jk, line, p, vec) \<in> measure (\<lambda>(jk, line, p, vec). length line - p)"
    by simp
qed simp

declare splitargs_loop.simps [simp del]

definition sdssplitargs :: "(nat \<Rightarrow> byte) \<Rightarrow> bytes \<Rightarrow> sdshdr list option option" where
  "sdssplitargs jk line = splitargs_loop jk line 0 []"

section \<open>Appending through the buffer interface\<close>

definition sds_cap :: nat where "sds_cap = 2 ^ 32 - SDS_MAX_PREALLOC - 1"

lemma sds_cap_less: "n \<le> sds_cap \<Longrightarrow> n + SDS_MAX_PREALLOC < 2 ^ 32"
  by (simp add: sds_cap_def SDS_MAX_PREALLOC_def)

interpretation cat: byte_appender "\<lambda>s t. sdscatlen jk s t (length t)" sds_rep sds_cap for jk
proof
  fix s :: sdshdr and xs t :: bytes
  assume "sds_rep s xs" "length xs + length t \<le> sds_cap"
  then show "\<exists>s'. sdscatlen jk s t (length t) = Some s' \<and> sds_rep s' (xs @ t)"
    using sdscatlen_rep [of s xs "length t" t jk] sds_cap_less by simp
qed

lemma vprintf_loop_out:
  assumes "2 \<le> buflen" "0 \<notin> set out"
  shows "\<exists>b. vprintf_loop jk out buflen = Some b \<and> take (length out + 1) b = out @ [0]"
  using assms(1)
proof (induction "length out + 2 - buflen" arbitrary: buflen rule: less_induct)
  case less
  obtain b where b: "vprintf_try jk out buflen = Some (b, if buflen - 2 < length out then out ! (buflen - 2) else 0)"
    "length out < buflen \<Longrightarrow> take (length out + 1) b = out @ [0]"
    using vprintf_try_eq [OF less.prems] by metis
  show ?case
  proof (cases "buflen - 2 < length out")
    case True
    then have "out ! (buflen - 2) \<noteq> 0" using assms(2) by (metis nth_mem)
    then have "vprintf_loop jk out buflen = vprintf_loop jk out (buflen * 2)"
      using b(1) True by (subst vprintf_loop.simps) simp
    then show ?thesis using less.hyps [of "buflen * 2"] less.prems True by simp
  next
    case False
    then have "vprintf_loop jk out buflen = Some b" using b(1) by (subst vprintf_loop.simps) simp
    then show ?thesis using b(2) False less.prems by simp
  qed
qed

lemma sdscatvprintf_rep:
  assumes "sds_rep s xs" "0 \<notin> set out" "length xs + length out \<le> sds_cap"
  shows "\<exists>s'. sdscatvprintf jk s fmtlen out = Some s' \<and> sds_rep s' (xs @ out)"
proof -
  let ?n = "if fmtlen * 2 > 1024 then fmtlen * 2 else 1024"
  have "2 \<le> ?n" by simp
  then obtain b where b: "vprintf_loop jk out ?n = Some b" "take (length out + 1) b = out @ [0]"
    using vprintf_loop_out [OF _ assms(2)] by blast
  have "b = out @ 0 # drop (length out + 1) b" using b(2) append_take_drop_id [of "length out + 1" b] by simp
  then obtain rest where rest: "b = out @ 0 # rest" by blast
  have "strlen_c b = Some (length out)" using strlen_c_mid assms(2) rest by simp
  from sdscat_rep [OF assms(1) this sds_cap_less [OF assms(3)], of jk]
  obtain s' where "sdscat jk s b = Some s'" "sds_rep s' (xs @ take (length out) b)" by blast
  then show ?thesis using b(1) rest by (simp add: sdscatvprintf_def Let_def)
qed

section \<open>The quoted representation and its parser\<close>

definition repr_char :: "byte \<Rightarrow> bytes" where
  "repr_char c =
     (if c = 92 \<or> c = 34 then [92, c]
      else if c = 10 then [92, 110] else if c = 13 then [92, 114] else if c = 9 then [92, 116]
      else if c = 7 then [92, 97] else if c = 8 then [92, 98]
      else if c_isprint c then [c]
      else [92, 120, hex_char (unat c div 16), hex_char (unat c mod 16)])"

lemma hex_char_props:
  assumes "d < 16"
  shows "is_hex_digit (hex_char d)" "hex_digit_to_int (hex_char d) = d" "hex_char d \<noteq> 0"
proof -
  have "\<forall>d\<in>set [0..<16]. is_hex_digit (hex_char d) \<and> hex_digit_to_int (hex_char d) = d \<and> hex_char d \<noteq> 0"
    by code_simp
  then show "is_hex_digit (hex_char d)" "hex_digit_to_int (hex_char d) = d" "hex_char d \<noteq> 0"
    using assms by simp_all
qed

lemma byte_nibbles: "unat (c::byte) div 16 < 16" "unat c mod 16 < 16"
  using unat_byte_less [of c] by (simp_all add: div_less_iff_less_mult del: unat_byte_less)

lemma byte_of_nibbles: "of_nat (unat (c::byte) div 16 * 16 + unat c mod 16) = c"
  by (simp only: div_mult_mod_eq of_nat_unat_byte)

lemma repr_char_nz: "0 \<notin> set (repr_char c)"
  using hex_char_props(3) [OF byte_nibbles(1) [of c]] hex_char_props(3) [OF byte_nibbles(2) [of c]]
  by (auto simp: repr_char_def c_isprint_def)

lemma length_repr_char: "length (repr_char c) \<le> 4"
  by (simp add: repr_char_def)

lemma catrepr_char_cases:
  "catrepr_char jk s c = sdscatlen jk s (repr_char c) (length (repr_char c)) \<or>
   (\<exists>n. catrepr_char jk s c = sdscatvprintf jk s n (repr_char c))"
  unfolding catrepr_char_def repr_char_def by (simp add: numeral_2_eq_2) blast

lemma catrepr_char_rep:
  assumes "sds_rep s xs" "length xs + length (repr_char c) \<le> sds_cap"
  shows "\<exists>s'. catrepr_char jk s c = Some s' \<and> sds_rep s' (xs @ repr_char c)"
  using catrepr_char_cases [of jk s c] cat.app_rep [OF assms, of jk]
    sdscatvprintf_rep [OF assms(1) repr_char_nz assms(2), of jk] by metis

lemma repr_char_cases:
  obtains (esc) e where "repr_char c = [92, e]" "e \<noteq> 120" "e \<noteq> 0" "unescape e = c"
  | (plain) "repr_char c = [c]" "c \<noteq> 92" "c \<noteq> 34" "c \<noteq> 0"
  | (hex) "repr_char c = [92, 120, hex_char (unat c div 16), hex_char (unat c mod 16)]"
proof (cases "c = 92 \<or> c = 34 \<or> c = 10 \<or> c = 13 \<or> c = 9 \<or> c = 7 \<or> c = 8")
  case True
  then show ?thesis using esc by (auto simp: repr_char_def unescape_def)
next
  case False
  have "c_isprint c \<Longrightarrow> c \<noteq> 0" by (auto simp: c_isprint_def)
  then show ?thesis using False plain hex by (cases "c_isprint c") (auto simp: repr_char_def)
qed

lemma sdscatrepr_rep:
  assumes "sds_rep s xs" "length xs + 4 * length p + 2 \<le> sds_cap"
  shows "\<exists>s'. sdscatrepr jk s p = Some s' \<and> sds_rep s' (xs @ 34 # concat (map repr_char p) @ [34])"
proof -
  have len: "length (concat (map repr_char p)) \<le> 4 * length p"
    by (induction p) (auto simp: length_repr_char add_mono)
  obtain s1 where s1: "sdscatlen jk s [34] 1 = Some s1" "sds_rep s1 (xs @ [34])"
    using cat.app_rep [OF assms(1), of "[34]" jk] assms(2) by auto
  obtain s2 where s2: "ofold (catrepr_char jk) s1 p = Some s2"
    "sds_rep s2 ((xs @ [34]) @ concat (map repr_char p))"
    using cat.ofold_app [of p repr_char "catrepr_char jk" s1 "xs @ [34]"] catrepr_char_rep s1(2) assms(2) len by auto
  obtain s3 where "sdscatlen jk s2 [34] 1 = Some s3" "sds_rep s3 (((xs @ [34]) @ concat (map repr_char p)) @ [34])"
    using cat.app_rep [OF s2(2), of "[34]" jk] assms(2) len by auto
  then show ?thesis using s1 s2 by (simp add: sdscatrepr_def)
qed

text \<open>Inside double quotes the parser reads one escaped byte back.\<close>

lemma rd_off: "rd (pre @ xs) (length pre + k) = rd xs k"
  by (simp add: rd_def)

lemma args_step_repr:
  assumes "sds_rep cur xs" "length xs + 1 \<le> sds_cap"
  shows "\<exists>cur'. args_step jk (pre @ repr_char c @ post) (length pre) True False cur
      = Some (StepCont (length pre + length (repr_char c)) True False cur') \<and> sds_rep cur' (xs @ [c])"
proof -
  let ?line = "pre @ repr_char c @ post"
  obtain cur' where cur': "sdscatlen jk cur [c] 1 = Some cur'" "sds_rep cur' (xs @ [c])"
    using cat.app_rep [OF assms(1), of "[c]" jk] assms(2) by auto
  have r: "rd ?line (length pre + k) = rd (repr_char c @ post) k" for k by (rule rd_off)
  have r0: "rd ?line (length pre) = rd (repr_char c @ post) 0" using r [of 0] by simp
  note h1 = hex_char_props [OF byte_nibbles(1) [of c]] and h2 = hex_char_props [OF byte_nibbles(2) [of c]]
  have "args_step jk ?line (length pre) True False cur
      = Some (StepCont (length pre + length (repr_char c)) True False cur')"
  proof (cases c rule: repr_char_cases)
    case (esc e)
    then show ?thesis using cur' r [of 1] r0
      by (simp add: args_step_def args_inq_def args_hex_def adv_def)
  next
    case plain
    then show ?thesis using cur' r0
      by (simp add: args_step_def args_inq_def args_hex_def adv_def)
  next
    case hex
    have 3: "rd (repr_char c @ post) 2 = Some (hex_char (unat c div 16))"
      "rd (repr_char c @ post) 3 = Some (hex_char (unat c mod 16))"
      "rd (repr_char c @ post) 1 = Some 120" "rd (repr_char c @ post) 0 = Some 92"
      using hex by (simp_all add: numeral_2_eq_2 numeral_3_eq_3)
    have "args_hex ?line (length pre) 92 = Some (Some c)"
      using r [of 1] r [of 2] r [of 3] 3 h1 h2 byte_of_nibbles [of c] by (simp add: args_hex_def)
    then show ?thesis using cur' r [of 3] r0 3 h2(3) hex
      by (simp add: args_step_def args_inq_def adv_def)
  qed
  then show ?thesis using cur'(2) by blast
qed

lemma args_token_repr:
  assumes "sds_rep cur xs" "length xs + length p \<le> sds_cap" "d = 0 \<or> c_isspace d"
  shows "\<exists>cur'. args_token jk (pre @ concat (map repr_char p) @ 34 # d # post) (length pre) True False cur
      = Some (Some (length pre + length (concat (map repr_char p)) + 1, cur')) \<and> sds_rep cur' (xs @ p)"
  using assms(1,2)
proof (induction p arbitrary: pre cur xs)
  case Nil
  let ?line = "pre @ 34 # d # post"
  have "rd ?line (length pre) = Some 34" "rd ?line (length pre + 1) = Some d"
    using rd_off [of pre "34 # d # post" 0] rd_off [of pre "34 # d # post" 1] by simp_all
  then have "args_step jk ?line (length pre) True False cur = Some (StepDone (length pre + 1) cur)"
    using assms(3) by (auto simp: args_step_def args_inq_def args_hex_def adv_def)
  then show ?case using Nil by (subst args_token.simps) simp
next
  case (Cons c p)
  let ?post = "concat (map repr_char p) @ 34 # d # post"
  obtain c1 where c1: "args_step jk (pre @ repr_char c @ ?post) (length pre) True False cur
      = Some (StepCont (length pre + length (repr_char c)) True False c1)" "sds_rep c1 (xs @ [c])"
    using args_step_repr [OF Cons.prems(1), of jk pre c ?post] Cons.prems(2) by auto
  let ?pre = "pre @ repr_char c"
  obtain c2 where c2: "args_token jk (?pre @ ?post) (length ?pre) True False c1
      = Some (Some (length ?pre + length (concat (map repr_char p)) + 1, c2))" "sds_rep c2 ((xs @ [c]) @ p)"
    using Cons.IH [OF c1(2), of ?pre] Cons.prems(2) by auto
  have "args_token jk (pre @ repr_char c @ ?post) (length pre) True False cur
      = args_token jk (?pre @ ?post) (length ?pre) True False c1"
    using c1(1) by (subst args_token.simps) simp
  then show ?case using c2 by auto
qed

lemma splitargs_repr:
  assumes "length p \<le> sds_cap"
  shows "\<exists>t. sdssplitargs jk (34 # concat (map repr_char p) @ 34 # 0 # post) = Some (Some [t]) \<and> sds_rep t p"
proof -
  let ?line = "34 # concat (map repr_char p) @ 34 # 0 # post" and ?e = "length (concat (map repr_char p)) + 2"
  have e: "sdsempty jk = Some (sds_mk [] [])" "sds_rep (sds_mk [] []) []"
    by (simp_all add: sdsempty_mk sds_rep_mkI)
  have sk: "skip_blanks ?line 0 = Some 0" by (subst skip_blanks.simps) (simp add: c_isspace_def)
  have st: "args_step jk ?line 0 False False (sds_mk [] []) = Some (StepCont 1 True False (sds_mk [] []))"
    by (simp add: args_step_def args_plain_def adv_def)
  obtain t where t: "args_token jk ?line 1 True False (sds_mk [] []) = Some (Some (?e, t))" "sds_rep t p"
    using args_token_repr [OF e(2), of p 0 jk "[34]" post] assms by auto
  have tk: "args_token jk ?line 0 False False (sds_mk [] []) = Some (Some (?e, t))"
    using st t(1) by (subst args_token.simps) simp
  have r: "rd ?line ?e = Some 0"
    using rd_off [of "34 # concat (map repr_char p) @ [34]" "0 # post" 0] by simp
  then have sk2: "skip_blanks ?line ?e = Some ?e" by (subst skip_blanks.simps) simp
  have "splitargs_loop jk ?line ?e [t] = Some (Some [t])" using sk2 r by (subst splitargs_loop.simps) simp
  then have "sdssplitargs jk ?line = Some (Some [t])"
    unfolding sdssplitargs_def using sk e tk by (subst splitargs_loop.simps) simp
  then show ?thesis using t(2) by blast
qed

text \<open>
  C23. \<open>sdssplitargs\<close> parses the quoted representation \<open>sdscatrepr\<close> makes of any bytes, NUL and
  control characters included, back to exactly those bytes as the only argument.
\<close>

theorem sdssplitargs_sdscatrepr:
  assumes "length p \<le> 2 ^ 29"
  shows "\<exists>s t. sdsempty jk \<bind> (\<lambda>e. sdscatrepr jk e p) = Some s \<and>
    sdssplitargs jk' (sh_buf s) = Some (Some [t]) \<and> sds_wf t \<and> sds_content t = p"
proof -
  have cap: "length ([]::bytes) + 4 * length p + 2 \<le> sds_cap" "length p \<le> sds_cap"
    using assms by (simp_all add: sds_cap_def SDS_MAX_PREALLOC_def)
  have e: "sds_rep (sds_mk [] []) []" by (rule sds_rep_mkI) simp
  obtain s where s: "sdscatrepr jk (sds_mk [] []) p = Some s" "sds_rep s (34 # concat (map repr_char p) @ [34])"
    using sdscatrepr_rep [OF e cap(1), of jk] by auto
  obtain fr where "s = sds_mk (34 # concat (map repr_char p) @ [34]) fr" using s(2) by (rule sds_repE)
  then have "sh_buf s = 34 # concat (map repr_char p) @ 34 # 0 # fr" by simp
  then show ?thesis using s splitargs_repr [OF cap(2), of jk' fr] by (auto simp: sdsempty_mk sds_rep_def)
qed

theorem sdssplitargs_sdscatrepr_witness:
  "\<exists>s t. sdsempty (\<lambda>_. 7) \<bind> (\<lambda>e. sdscatrepr (\<lambda>_. 7) e [0, 34, 255, 65]) = Some s \<and>
    sdssplitargs (\<lambda>_. 9) (sh_buf s) = Some (Some [t]) \<and> sds_wf t \<and> sds_content t = [0, 34, 255, 65]"
  by (rule sdssplitargs_sdscatrepr) simp

section \<open>Number formatting is decimal\<close>

lemma ll2str_digits_spec:
  "p + ndigits v \<le> length b \<Longrightarrow>
    ll2str_digits b p v = Some (take p b @ rev (dec_digits v) @ drop (p + ndigits v) b, p + ndigits v)"
proof (induction v arbitrary: b p rule: less_induct)
  case (less v)
  have p: "p < length b" using less.prems ndigits_pos [of v] by linarith
  let ?d = "of_nat (48 + v mod 10) :: byte"
  have w: "wr b p ?d = Some (take p b @ ?d # drop (Suc p) b)" using p by (simp add: wr_def upd_conv_take_nth_drop)
  show ?case
  proof (cases "v div 10 = 0")
    case True
    then have "v < 10" by simp
    then have "dec_digits v = [?d]" "ndigits v = 1"
      by (simp_all add: dec_digits.simps [of v] ndigits.simps [of v])
    then show ?thesis using True w by (subst ll2str_digits.simps) simp
  next
    case False
    then have v: "\<not> v < 10" "v div 10 < v" by auto
    then have d: "dec_digits v = dec_digits (v div 10) @ [?d]" "ndigits v = Suc (ndigits (v div 10))"
      by (simp_all add: dec_digits.simps [of v] ndigits.simps [of v])
    let ?b = "take p b @ ?d # drop (Suc p) b"
    have "ll2str_digits ?b (p + 1) (v div 10)
        = Some (take (p + 1) ?b @ rev (dec_digits (v div 10)) @ drop (p + 1 + ndigits (v div 10)) ?b,
                p + 1 + ndigits (v div 10))"
      using less.prems d(2) p by (intro less.IH [OF v(2)]) simp
    then show ?thesis using False w d p by (subst ll2str_digits.simps) (simp add: drop_Cons' add.commute del: of_nat_add)
  qed
qed

lemma rev_loop_spec:
  "rev_loop (pre @ xs @ post) (length pre) (length pre + length xs - 1) = Some (pre @ rev xs @ post)"
proof (induction "length xs" arbitrary: xs pre post rule: less_induct)
  case less
  show ?case
  proof (cases "length xs \<le> 1")
    case True
    then have "xs = [] \<or> (\<exists>x. xs = [x])" by (cases xs; cases "tl xs") auto
    then show ?thesis by (auto simp: rev_loop.simps)
  next
    case False
    then obtain x ys where "xs = x # ys" "ys \<noteq> []" by (cases xs; cases "tl xs") auto
    then obtain mid y where xs: "xs = x # mid @ [y]" by (metis append_butlast_last_id)
    let ?p = "length pre + length xs - 1"
    have p: "?p = length (pre @ x # mid)" using xs by simp
    have r: "rd (pre @ xs @ post) (length pre) = Some x" "rd (pre @ xs @ post) ?p = Some y"
      using rd_middle [of "pre @ x # mid" y post] unfolding p xs by simp_all
    have w1: "wr (pre @ xs @ post) (length pre) y = Some (pre @ y # mid @ y # post)"
      using wr_middle [of pre x "mid @ y # post" y] by (simp add: xs)
    have w2: "wr (pre @ y # mid @ y # post) ?p x = Some ((pre @ [y]) @ mid @ (x # post))"
      using wr_middle [of "pre @ y # mid" y post x] unfolding p by simp
    have "rev_loop (pre @ xs @ post) (length pre) ?p
        = rev_loop ((pre @ [y]) @ mid @ (x # post)) (length (pre @ [y])) (length (pre @ [y]) + length mid - 1)"
      using r w1 w2 xs by (subst rev_loop.simps) simp
    also have "\<dots> = Some ((pre @ [y]) @ rev mid @ (x # post))"
      using xs by (intro less.hyps) simp
    finally show ?thesis using xs by simp
  qed
qed

lemma sdsull2str_spec:
  assumes "ndigits v < length b"
  shows "\<exists>rest. sdsull2str b v = Some (dec_digits v @ 0 # rest, ndigits v)"
proof -
  let ?n = "ndigits v"
  have w: "wr (rev (dec_digits v) @ drop ?n b) ?n 0 = Some (rev (dec_digits v) @ 0 # drop (Suc ?n) b)"
    using wr_middle [of "rev (dec_digits v)" "b ! ?n" "drop (Suc ?n) b" 0] assms by (simp add: Cons_nth_drop_Suc)
  have "rev_loop (rev (dec_digits v) @ 0 # drop (Suc ?n) b) 0 (?n - 1) = Some (dec_digits v @ 0 # drop (Suc ?n) b)"
    using rev_loop_spec [of "[]" "rev (dec_digits v)" "0 # drop (Suc ?n) b"] by simp
  then show ?thesis using ll2str_digits_spec [of 0 v b] assms w by (simp add: sdsull2str_def)
qed

lemma sdsll2str_spec:
  assumes "in_sint 64 v" "v \<noteq> - (2 ^ 63)" "20 < length b"
  shows "\<exists>rest. sdsll2str b v = Some (ll_decimal v @ 0 # rest, length (ll_decimal v))"
proof -
  let ?v = "nat (if v < 0 then - v else v)"
  let ?n = "ndigits ?v"
  have "?v = nat \<bar>v\<bar>" by simp
  then have n: "?n \<le> 19" using ll_magnitude_digits [OF assms(1)] by simp
  let ?sg = "if v < 0 then [45] else [] :: bytes"
  let ?m = "?n + length ?sg"
  have "length ?sg \<le> 1" by simp
  then have m: "?m \<le> 20" using n by linarith
  have d: "ll2str_digits b 0 ?v = Some (rev (dec_digits ?v) @ drop ?n b, ?n)"
    using ll2str_digits_spec [of 0 ?v b] n assms(3) by simp
  have s: "(if v < 0 then do { b \<leftarrow> wr (rev (dec_digits ?v) @ drop ?n b) ?n 45; Some (b, ?n + 1) }
            else Some (rev (dec_digits ?v) @ drop ?n b, ?n)) = Some (rev (ll_decimal v) @ drop ?m b, ?m)"
    using wr_middle [of "rev (dec_digits ?v)" "b ! ?n" "drop (Suc ?n) b" 45] n assms(3)
    by (cases "v < 0") (simp_all add: Cons_nth_drop_Suc ll_decimal_def)
  have l: "length (ll_decimal v) = ?m" by (simp add: ll_decimal_def)
  have w: "wr (rev (ll_decimal v) @ drop ?m b) ?m 0 = Some (rev (ll_decimal v) @ 0 # drop (Suc ?m) b)"
    using wr_middle [of "rev (ll_decimal v)" "b ! ?m" "drop (Suc ?m) b" 0] m assms(3) l
    by (simp add: Cons_nth_drop_Suc)
  have r: "rev_loop (rev (ll_decimal v) @ 0 # drop (Suc ?m) b) 0 (?m - 1) = Some (ll_decimal v @ 0 # drop (Suc ?m) b)"
    using rev_loop_spec [of "[]" "rev (ll_decimal v)" "0 # drop (Suc ?m) b"] l by simp
  have "sdsll2str b v = Some (ll_decimal v @ 0 # drop (Suc ?m) b, ?m)"
    unfolding sdsll2str_def using assms(2) by (simp only: if_False d s w r Option.bind.simps case_prod_conv Let_def)
  then show ?thesis using l by auto
qed

lemma sdsfromlonglong_mk:
  "in_sint 64 v \<Longrightarrow> v \<noteq> - (2 ^ 63) \<Longrightarrow> sdsfromlonglong jk v = Some (sds_mk (ll_decimal v) [])"
proof -
  assume v: "in_sint 64 v" "v \<noteq> - (2 ^ 63)"
  then obtain rest where r: "sdsll2str (map jk [0..<SDS_LLSTR_SIZE]) v = Some (ll_decimal v @ 0 # rest, length (ll_decimal v))"
    using sdsll2str_spec [of v "map jk [0..<SDS_LLSTR_SIZE]"] by (auto simp: SDS_LLSTR_SIZE_def)
  have "length (ll_decimal v) \<le> 20" using v(1) by (rule length_ll_decimal_le)
  then show ?thesis using r by (simp add: sdsfromlonglong_def sdsnewlen_rep)
qed

section \<open>Splitting and joining\<close>

fun join_spec :: "bytes \<Rightarrow> bytes list \<Rightarrow> bytes" where
  "join_spec sep [] = []"
| "join_spec sep [x] = x"
| "join_spec sep (x # y # ys) = x @ sep @ join_spec sep (y # ys)"

lemma join_spec_snoc: "join_spec sep (cs @ [c]) = concat (map (\<lambda>c. c @ sep) cs) @ c"
proof (induction cs)
  case (Cons x cs)
  then show ?case by (cases cs) auto
qed simp

lemma join_loop_rep:
  assumes "sds_rep s xs" "\<forall>a\<in>set argv. 0 \<notin> set a" "0 \<notin> set sep"
    "length xs + length (join_spec sep argv) \<le> sds_cap"
  shows "\<exists>s'. join_loop jk s (map (\<lambda>a. a @ [0]) argv) (sep @ [0]) = Some s' \<and>
    sds_rep s' (xs @ join_spec sep argv)"
  using assms
proof (induction sep argv arbitrary: s xs rule: join_spec.induct)
  case (1 sep)
  then show ?case by simp
next
  case (2 sep x)
  have "strlen_c (x @ [0]) = Some (length x)" using 2 strlen_c_mid by auto
  then show ?case using sdscat_rep [OF 2(1)] sds_cap_less 2 by fastforce
next
  case (3 sep x y ys)
  have l: "strlen_c (x @ [0]) = Some (length x)" "strlen_c (sep @ [0]) = Some (length sep)"
    using 3(3,4) strlen_c_mid [of x "[]"] strlen_c_mid [of sep "[]"] by auto
  have sz: "length xs + length x \<le> sds_cap" "length (xs @ x) + length sep \<le> sds_cap"
    using 3(5) by auto
  obtain s1 where s1: "sdscat jk s (x @ [0]) = Some s1" "sds_rep s1 (xs @ x)"
    using sdscat_rep [OF 3(2) l(1) sds_cap_less [OF sz(1)], of jk] by auto
  obtain s2 where s2: "sdscat jk s1 (sep @ [0]) = Some s2" "sds_rep s2 ((xs @ x) @ sep)"
    using sdscat_rep [OF s1(2) l(2) sds_cap_less [OF sz(2)], of jk] by auto
  obtain s3 where "join_loop jk s2 (map (\<lambda>a. a @ [0]) (y # ys)) (sep @ [0]) = Some s3"
    "sds_rep s3 (((xs @ x) @ sep) @ join_spec sep (y # ys))"
    using 3(1) [OF s2(2)] 3(3-5) by auto
  then show ?case using s1 s2 by simp
qed

abbreviation sep_at :: "bytes \<Rightarrow> bytes \<Rightarrow> nat \<Rightarrow> bool" where
  "sep_at s sep k \<equiv> take (length sep) (drop k s) = sep"

lemma sep_here_spec:
  assumes "j + length sep \<le> length s" "sep \<noteq> []"
  shows "sep_here s j sep (length sep) = Some (sep_at s sep j)"
proof (cases "length sep = 1")
  case True
  then obtain c where c: "sep = [c]" by (cases sep) auto
  have "take (Suc 0) (drop j s) = [s ! j]" using assms(1) c by (simp add: drop_nth_Cons)
  then show ?thesis using assms(1) c by (simp add: sep_here_def mem_simps word_uint_eq_iff)
next
  case False
  then show ?thesis using assms memcmp_c_0 [of "take (length sep) (drop j s)" sep]
    by (simp add: sep_here_def mem_simps)
qed

lemma tok_put_spec:
  assumes "start + n \<le> length s" "n < 2 ^ 32" "length tokens < slots"
  shows "tok_put jk s start n slots tokens = Some (tokens @ [sds_mk (take n (drop start s)) []])"
  using assms by (simp add: tok_put_def mem_simps sdsnewlen_rep)

text \<open>
  Invariant of the scan: the tokens so far, each followed by the separator, are the bytes before
  \<open>start\<close>; no separator begins between \<open>start\<close> and \<open>j\<close>; there is room for the final token.
\<close>

definition split_inv :: "bytes \<Rightarrow> bytes \<Rightarrow> nat \<Rightarrow> nat \<Rightarrow> nat \<Rightarrow> sdshdr list \<Rightarrow> bool" where
  "split_inv s sep j start slots tokens \<longleftrightarrow>
     start \<le> j \<and> start \<le> length s \<and>
     concat (map (\<lambda>t. sds_content t @ sep) tokens) = take start s \<and>
     (\<forall>k. start \<le> k \<and> k < j \<longrightarrow> \<not> sep_at s sep k) \<and>
     (\<forall>t\<in>set tokens. sds_wf t \<and> \<not> sublist sep (sds_content t)) \<and>
     length tokens < slots"

lemma sublist_sep_at:
  assumes "sublist sep (take n (drop start s))" "start + n \<le> length s"
  shows "\<exists>k. start \<le> k \<and> k + length sep \<le> start + n \<and> sep_at s sep k"
proof -
  obtain us vs where u: "take n (drop start s) = us @ sep @ vs" using assms(1) by (auto simp: sublist_def)
  have l: "length us + length sep + length vs = n" using u [THEN arg_cong [where f = length]] assms(2) by simp
  have "drop start s = us @ sep @ vs @ drop n (drop start s)"
    using append_take_drop_id [of n "drop start s"] u by simp
  then have "drop (start + length us) s = sep @ vs @ drop n (drop start s)"
    by (metis add.commute append_eq_conv_conj drop_drop)
  then have "sep_at s sep (start + length us)" by (metis append_eq_conv_conj)
  then show ?thesis using l by (intro exI [of _ "start + length us"]) simp
qed

lemma split_inv_hit:
  assumes "split_inv s sep j start slots tokens" "sep_at s sep j" "j + length sep \<le> length s" "sep \<noteq> []"
    "length s < 2 ^ 32" "length tokens + 2 \<le> slots'"
  shows "tok_put jk s start (j - start) slots' tokens = Some (tokens @ [sds_mk (take (j - start) (drop start s)) []])"
    and "split_inv s sep (j + length sep) (j + length sep) slots' (tokens @ [sds_mk (take (j - start) (drop start s)) []])"
proof -
  let ?c = "take (j - start) (drop start s)"
  have inv: "start \<le> j" "start \<le> length s" "concat (map (\<lambda>t. sds_content t @ sep) tokens) = take start s"
    "\<forall>k. start \<le> k \<and> k < j \<longrightarrow> \<not> sep_at s sep k" "\<forall>t\<in>set tokens. sds_wf t \<and> \<not> sublist sep (sds_content t)"
    using assms(1) by (auto simp: split_inv_def)
  have lt: "j - start < 2 ^ 32" using assms(3,5) by linarith
  show "tok_put jk s start (j - start) slots' tokens = Some (tokens @ [sds_mk ?c []])"
    using inv(1) assms(3,6) lt by (intro tok_put_spec) simp_all
  have "\<not> sublist sep ?c"
  proof
    assume "sublist sep ?c"
    moreover have "start + (j - start) \<le> length s" using inv(1) assms(3) by simp
    ultimately obtain k where "start \<le> k" "k + length sep \<le> start + (j - start)" "sep_at s sep k"
      using sublist_sep_at by blast
    moreover have "0 < length sep" using assms(4) by simp
    ultimately show False using inv(1,4) by auto
  qed
  moreover have "take start s @ ?c @ sep = take (j + length sep) s"
  proof -
    have "take (j + length sep) s = take j s @ take (length sep) (drop j s)" by (rule take_add)
    also have "take j s = take start s @ ?c" using inv(1) take_add [of start "j - start" s] by simp
    finally show ?thesis using assms(2) by simp
  qed
  ultimately show "split_inv s sep (j + length sep) (j + length sep) slots' (tokens @ [sds_mk ?c []])"
    using inv assms(3,6) lt by (auto simp: split_inv_def)
qed

lemma splitlen_loop_spec:
  assumes "split_inv s sep j start slots tokens" "sep \<noteq> []" "length s < 2 ^ 32"
  shows "\<exists>start' slots' tokens' j'. splitlen_loop jk s (length s) sep (length sep) j start slots tokens
      = Some (start', slots', tokens') \<and> split_inv s sep j' start' slots' tokens' \<and> length s < j' + length sep"
  using assms(1)
proof (induction "length s - j" arbitrary: j start slots tokens rule: less_induct)
  case less
  let ?m = "length sep"
  have m: "0 < ?m" using assms(2) by simp
  show ?case
  proof (cases "j + (?m - 1) < length s")
    case False
    then have "length s < j + ?m" using m by linarith
    moreover have "splitlen_loop jk s (length s) sep ?m j start slots tokens = Some (start, slots, tokens)"
      using False by (subst splitlen_loop.simps) simp
    ultimately show ?thesis using less.prems by blast
  next
    case True
    then have jm: "j + ?m \<le> length s" using m by linarith
    let ?slots = "if slots < length tokens + 2 then slots * 2 else slots"
    have e: "j + (?m - 1) + 1 = j + ?m" using m by simp
    have sl: "length tokens + 2 \<le> ?slots" using less.prems by (auto simp: split_inv_def)
    have here: "sep_here s j sep ?m = Some (sep_at s sep j)" using jm assms(2) by (rule sep_here_spec)
    show ?thesis
    proof (cases "sep_at s sep j")
      case hit: True
      let ?t = "sds_mk (take (j - start) (drop start s)) []"
      note h = split_inv_hit [OF less.prems hit jm assms(2,3) sl]
      have eq: "splitlen_loop jk s (length s) sep ?m j start slots tokens
          = splitlen_loop jk s (length s) sep ?m (j + ?m) (j + ?m) ?slots (tokens @ [?t])"
        by (subst splitlen_loop.simps) (simp only: True if_True Let_def here hit Option.bind.simps h(1) e refl)
      have "length s - (j + ?m) < length s - j" using m jm by linarith
      from less.hyps [OF this h(2)] show ?thesis unfolding eq .
    next
      case miss: False
      have inv: "split_inv s sep (j + 1) start ?slots tokens"
        using less.prems miss sl by (auto simp: split_inv_def less_Suc_eq)
      have eq: "splitlen_loop jk s (length s) sep ?m j start slots tokens
          = splitlen_loop jk s (length s) sep ?m (j + 1) start ?slots tokens"
        by (subst splitlen_loop.simps) (simp only: True if_True Let_def here miss if_False Option.bind.simps)
      have "length s - (j + 1) < length s - j" using True by simp
      from less.hyps [OF this inv] show ?thesis unfolding eq .
    qed
  qed
qed

text \<open>
  \<open>sdssplitlen\<close> on a non-empty string and separator returns tokens none of which contains the
  separator and which joined by it are the input; in particular \<open>sdsjoin\<close> on the tokens (as C
  strings) rebuilds the input.
\<close>

lemma sdssplitlen_sdsjoin:
  assumes "s \<noteq> []" "sep \<noteq> []" "length s < 2 ^ 31" "length sep < 2 ^ 31" "0 \<notin> set s"
  shows "\<exists>ts j. sdssplitlen jk s (int (length s)) sep (int (length sep)) = Some (Some ts) \<and>
    (\<forall>t\<in>set ts. sds_wf t \<and> \<not> sublist sep (sds_content t)) \<and>
    join_spec sep (map sds_content ts) = s \<and>
    (0 \<notin> set sep \<longrightarrow>
      sdsjoin jk' (map (\<lambda>t. sds_content t @ [0]) ts) (sep @ [0]) = Some j \<and> sds_wf j \<and> sds_content j = s)"
proof -
  have "split_inv s sep 0 0 5 []" by (simp add: split_inv_def)
  moreover have l32: "length s < 2 ^ 32" using assms(3) by simp
  ultimately obtain start slots tokens j where
    r: "splitlen_loop jk s (length s) sep (length sep) 0 0 5 [] = Some (start, slots, tokens)"
    and inv: "split_inv s sep j start slots tokens" and j: "length s < j + length sep"
    using splitlen_loop_spec [OF _ assms(2)] by blast
  let ?c = "drop start s" and ?t = "sds_mk (drop start s) []"
  have i: "start \<le> length s" "concat (map (\<lambda>t. sds_content t @ sep) tokens) = take start s"
    "\<forall>k. start \<le> k \<and> k < j \<longrightarrow> \<not> sep_at s sep k" "\<forall>t\<in>set tokens. sds_wf t \<and> \<not> sublist sep (sds_content t)"
    "length tokens < slots" using inv by (auto simp: split_inv_def)
  have lt: "length s - start < 2 ^ 32" using l32 by linarith
  then have "tok_put jk s start (length s - start) slots tokens = Some (tokens @ [?t])"
    using tok_put_spec [of start "length s - start" s tokens slots jk] i(1,5) by simp
  then have sp: "sdssplitlen jk s (int (length s)) sep (int (length sep)) = Some (Some (tokens @ [?t]))"
    using assms(1,2) r by (simp add: sdssplitlen_def)
  have "\<not> sublist sep ?c"
  proof
    assume "sublist sep ?c"
    then have "sublist sep (take (length s - start) (drop start s))" by simp
    then obtain k where "start \<le> k" "k + length sep \<le> length s" "sep_at s sep k"
      using sublist_sep_at [of sep "length s - start" start s] i(1) by auto
    then show False using i(3) j by auto
  qed
  then have ok: "\<forall>t\<in>set (tokens @ [?t]). sds_wf t \<and> \<not> sublist sep (sds_content t)" using i lt by simp
  have js: "join_spec sep (map sds_content (tokens @ [?t])) = s"
    using i(2) join_spec_snoc [of sep "map sds_content tokens" ?c] by (simp add: comp_def)
  obtain jn where jn: "0 \<notin> set sep \<Longrightarrow> sdsjoin jk' (map (\<lambda>t. sds_content t @ [0]) (tokens @ [?t])) (sep @ [0]) = Some jn
      \<and> sds_wf jn \<and> sds_content jn = s"
  proof (cases "0 \<in> set sep")
    case False
    have "0 \<notin> set a" if "a \<in> set (map sds_content (tokens @ [?t]))" for a
    proof -
      have "set a \<subseteq> set (join_spec sep (map sds_content (tokens @ [?t])))"
        using that join_spec_snoc [of sep "map sds_content tokens" ?c] by auto
      then show ?thesis using js assms(5) by auto
    qed
    moreover have "sds_rep (sds_mk [] []) []" by (rule sds_rep_mkI) simp
    moreover have "length s \<le> sds_cap" using assms(3) by (simp add: sds_cap_def SDS_MAX_PREALLOC_def)
    ultimately have "\<exists>jn. join_loop jk' (sds_mk [] []) (map (\<lambda>a. a @ [0]) (map sds_content (tokens @ [?t]))) (sep @ [0]) = Some jn
        \<and> sds_rep jn s"
      using join_loop_rep [of "sds_mk [] []" "[]" "map sds_content (tokens @ [?t])" sep jk'] False js by simp
    then show ?thesis using that by (auto simp: sdsjoin_def sdsempty_mk sds_rep_def comp_def)
  qed (use that in blast)
  show ?thesis using sp ok js jn by blast
qed

section \<open>\<open>sdscatfmt\<close> appends the formatted text\<close>

text \<open>
  While the format is processed the string has no terminator: \<open>fmt_state s xs\<close> says that \<open>xs\<close>
  has been written, the header counts it, and there is a spare cell for the terminator.
\<close>

definition fmt_state :: "sdshdr \<Rightarrow> bytes \<Rightarrow> bool" where
  "fmt_state s xs \<longleftrightarrow> (\<exists>z fr. s = \<lparr>sh_len = length xs, sh_free = length fr, sh_buf = xs @ z # fr\<rparr> \<and>
     length xs + length fr < 2 ^ 32)"

lemma fmt_state_rep: "sds_rep s xs \<Longrightarrow> fmt_state s xs"
  by (auto simp: sds_rep_iff fmt_state_def sds_mk_def)

lemma fmt_room:
  assumes "fmt_state s xs" "length xs + n \<le> sds_cap"
  shows "fmt_state (sdsMakeRoomFor jk s n) xs \<and> n \<le> sh_free (sdsMakeRoomFor jk s n)"
proof -
  obtain z fr where s: "s = \<lparr>sh_len = length xs, sh_free = length fr, sh_buf = xs @ z # fr\<rparr>"
    "length xs + length fr < 2 ^ 32" using assms(1) by (auto simp: fmt_state_def)
  show ?thesis
  proof (cases "n \<le> length fr")
    case True
    then show ?thesis using assms(1) s by (simp add: sdsMakeRoomFor_def sdsavail_def)
  next
    case False
    let ?m = "length xs + n"
    let ?newlen = "if ?m < SDS_MAX_PREALLOC then ?m * 2 else ?m + SDS_MAX_PREALLOC"
    let ?b = "zrealloc_buf jk (xs @ z # fr) (?newlen + 1)"
    have nl: "?m \<le> ?newlen" "?newlen < 2 ^ 32" using sds_cap_less [OF assms(2)] by auto
    have "take (length xs + 1) ?b = xs @ [z]"
      using False nl(1) by (simp add: take_zrealloc_buf)
    then have b: "?b = xs @ z # drop (length xs + 1) ?b"
      by (metis append_take_drop_id append_Cons append_Nil append_assoc)
    have "length (drop (length xs + 1) ?b) = ?newlen - length xs" by simp
    moreover have "sdsMakeRoomFor jk s n = \<lparr>sh_len = length xs, sh_free = ?newlen - length xs, sh_buf = ?b\<rparr>"
      using False nl by (simp add: sdsMakeRoomFor_def s(1) sdsavail_def sdslen_def Let_def)
    ultimately show ?thesis
      using nl b by (auto simp: fmt_state_def intro!: exI [of _ z] exI [of _ "drop (length xs + 1) ?b"])
  qed
qed

lemma fmt_put_state:
  assumes "fmt_state s xs" "l \<le> length src" "length xs + l \<le> sds_cap"
  shows "\<exists>s'. fmt_put jk s (length xs) src l = Some (s', length (xs @ take l src)) \<and> fmt_state s' (xs @ take l src)"
proof -
  let ?s = "if sh_free s < l then sdsMakeRoomFor jk s l else s"
  have "fmt_state ?s xs \<and> l \<le> sh_free ?s" using fmt_room [OF assms(1,3)] assms(1) by auto
  then obtain z fr where s: "?s = \<lparr>sh_len = length xs, sh_free = length fr, sh_buf = xs @ z # fr\<rparr>"
    "length xs + length fr < 2 ^ 32" "l \<le> length fr" by (auto simp: fmt_state_def)
  obtain us v where u: "z # fr = us @ v # drop l fr" "length us = l" using split_at_cell [OF s(3)] by metis
  have w: "wr_block (xs @ z # fr) (length xs) (take l src) = Some ((xs @ take l src) @ v # drop l fr)"
    unfolding u(1) using wr_block_middle [of us "take l src" xs "v # drop l fr"] u(2) assms(2) by simp
  have "fmt_put jk s (length xs) src l
      = Some (\<lparr>sh_len = length xs + l, sh_free = length fr - l, sh_buf = (xs @ take l src) @ v # drop l fr\<rparr>, length xs + l)"
    unfolding fmt_put_def Let_def s(1) using w s(2,3) assms(2) by (simp add: mem_simps add32_id sub32_le)
  then show ?thesis using s(2,3) assms(2) by (auto simp: fmt_state_def)
qed

lemma fmt_put1_state:
  assumes "fmt_state s xs" "0 < sh_free s"
  shows "\<exists>s'. fmt_put1 s (length xs) c = Some (s', length (xs @ [c])) \<and> fmt_state s' (xs @ [c])"
proof -
  obtain z fr where s: "s = \<lparr>sh_len = length xs, sh_free = length fr, sh_buf = xs @ z # fr\<rparr>"
    "length xs + length fr < 2 ^ 32" using assms(1) by (auto simp: fmt_state_def)
  then obtain y fr' where fr: "fr = y # fr'" using assms(2) by (cases fr) auto
  have "fmt_put1 s (length xs) c
      = Some (\<lparr>sh_len = length xs + 1, sh_free = length fr', sh_buf = (xs @ [c]) @ y # fr'\<rparr>, length xs + 1)"
    using wr_middle [of xs z fr c] s fr by (simp add: fmt_put1_def add32_id sub32_le)
  then show ?thesis using s fr by (auto simp: fmt_state_def)
qed

text \<open>What a conversion prints, and what a whole format prints; \<open>None\<close> where the format does not fit the arguments.\<close>

definition conv_out :: "byte \<Rightarrow> fmt_arg list \<Rightarrow> (bytes \<times> fmt_arg list) option" where
  "conv_out nx args =
     (if nx = 115 then (case args of ArgStr str # as \<Rightarrow>
        (case strlen_c str of None \<Rightarrow> None | Some l \<Rightarrow> Some (take l str, as)) | _ \<Rightarrow> None)
      else if nx = 83 then (case args of ArgSds t # as \<Rightarrow> if sds_wf t then Some (sds_content t, as) else None | _ \<Rightarrow> None)
      else if nx = 105 \<or> nx = 73 then (case args of ArgInt n # as \<Rightarrow>
        if - (2 ^ 63) < n \<and> n < 2 ^ 63 then Some (ll_decimal n, as) else None | _ \<Rightarrow> None)
      else if nx = 117 \<or> nx = 85 then (case args of ArgUInt n # as \<Rightarrow>
        if n < 2 ^ 64 then Some (dec_digits n, as) else None | _ \<Rightarrow> None)
      else Some ([nx], args))"

fun fmt_out :: "bytes \<Rightarrow> fmt_arg list \<Rightarrow> bytes option" where
  "fmt_out [] args = None"
| "fmt_out (c # f) args =
     (if c = 0 then Some []
      else if c = 37 then
        (case f of
           [] \<Rightarrow> None
         | nx # f' \<Rightarrow> do { (o1, args) \<leftarrow> conv_out nx args; o2 \<leftarrow> fmt_out f' args; Some (o1 @ o2) })
      else do { o2 \<leftarrow> fmt_out f args; Some (c # o2) })"

lemma sds_cap_u32: "n \<le> sds_cap \<Longrightarrow> u32 n = n"
  using sds_cap_less [of n] by simp

lemma fmt_conv_state:
  assumes "fmt_state s xs" "0 < sh_free s" "conv_out nx args = Some (out, args')" "length xs + length out \<le> sds_cap"
  shows "\<exists>s'. fmt_conv jk s (length xs) nx args = Some ((s', length (xs @ out)), args') \<and> fmt_state s' (xs @ out)"
proof -
  have put: "\<exists>s'. fmt_put jk s (length xs) src (length out) = Some (s', length (xs @ out)) \<and> fmt_state s' (xs @ out)"
    if "take (length out) src = out" for src
  proof -
    have "length out \<le> length src" using that by (metis length_take min.cobounded1)
    then show ?thesis using fmt_put_state [OF assms(1) _ assms(4), of src jk] that by simp
  qed
  have u: "u32 (length out) = length out" using assms(4) by (intro sds_cap_u32) simp
  consider (str) "nx = 115" | (sds) "nx = 83" | (int) "nx = 105 \<or> nx = 73" | (uint) "nx = 117 \<or> nx = 85"
    | (oth) "nx \<noteq> 115" "nx \<noteq> 83" "\<not> (nx = 105 \<or> nx = 73)" "\<not> (nx = 117 \<or> nx = 85)" by blast
  then show ?thesis
  proof cases
    case str
    then obtain st l where a: "args = ArgStr st # args'" "strlen_c st = Some l" "out = take l st"
      using assms(3) by (auto simp: conv_out_def split: list.splits fmt_arg.splits option.splits)
    then have "length out = l" using strlen_c_SomeD [of st l] by simp
    then show ?thesis using put [of st] a u str by (auto simp: fmt_conv_def)
  next
    case sds
    then obtain t where a: "args = ArgSds t # args'" "sds_rep t out"
      using assms(3) by (auto simp: conv_out_def sds_rep_def split: list.splits fmt_arg.splits if_splits)
    obtain fr where "t = sds_mk out fr" using a(2) by (rule sds_repE)
    then show ?thesis using put [of "sh_buf t"] a u sds by (auto simp: fmt_conv_def)
  next
    case int
    then obtain n where a: "args = ArgInt n # args'" "- (2 ^ 63) < n" "n < 2 ^ 63" "out = ll_decimal n"
      using assms(3) by (auto simp: conv_out_def split: list.splits fmt_arg.splits if_splits)
    then obtain rest where "sdsll2str (map jk [0..<SDS_LLSTR_SIZE]) n = Some (out @ 0 # rest, length out)"
      using sdsll2str_spec [of n "map jk [0..<SDS_LLSTR_SIZE]"] by (auto simp: SDS_LLSTR_SIZE_def)
    then show ?thesis using put [of "out @ 0 # rest"] a int by (auto simp: fmt_conv_def)
  next
    case uint
    then obtain n where a: "args = ArgUInt n # args'" "n < 2 ^ 64" "out = dec_digits n"
      using assms(3) by (auto simp: conv_out_def split: list.splits fmt_arg.splits if_splits)
    have "ndigits n \<le> 20" by (rule ndigits_le) (use a(2) in simp_all)
    then obtain rest where "sdsull2str (map jk [0..<SDS_LLSTR_SIZE]) n = Some (out @ 0 # rest, length out)"
      using sdsull2str_spec [of n "map jk [0..<SDS_LLSTR_SIZE]"] a(3) by (auto simp: SDS_LLSTR_SIZE_def)
    then show ?thesis using put [of "out @ 0 # rest"] a uint by (auto simp: fmt_conv_def)
  next
    case oth
    then have "out = [nx]" "args' = args" using assms(3) by (auto simp: conv_out_def)
    then show ?thesis using fmt_put1_state [OF assms(1,2), of nx] oth by (auto simp: fmt_conv_def)
  qed
qed

lemma catfmt_loop_state:
  assumes "fmt_out f args = Some out" "fmt_state s xs" "length xs + length out + 1 \<le> sds_cap"
  shows "\<exists>s'. catfmt_loop jk s (length xs) f args = Some (s', length (xs @ out)) \<and> fmt_state s' (xs @ out)"
  using assms
proof (induction f args arbitrary: s xs out rule: fmt_out.induct)
  case (1 args)
  then show ?case by simp
next
  case (2 c f args)
  show ?case
  proof (cases "c = 0")
    case True
    then show ?thesis using 2 by simp
  next
    case c0: False
    let ?s = "if sh_free s = 0 then sdsMakeRoomFor jk s 1 else s"
    have "length xs + 1 \<le> sds_cap" using "2.prems"(3) by simp
    from fmt_room [OF "2.prems"(2) this, of jk] have st: "fmt_state ?s xs" "0 < sh_free ?s"
      using "2.prems"(2) by auto
    show ?thesis
    proof (cases "c = 37")
      case True
      then obtain nx f' o1 o2 args' where f: "f = nx # f'" "conv_out nx args = Some (o1, args')"
        "fmt_out f' args' = Some o2" "out = o1 @ o2"
        using "2.prems"(1) c0 by (auto simp: bind_eq_Some_conv split: list.splits)
      obtain s1 where s1: "fmt_conv jk ?s (length xs) nx args = Some ((s1, length (xs @ o1)), args')" "fmt_state s1 (xs @ o1)"
        using fmt_conv_state [OF st f(2), of jk] "2.prems"(3) f(4) by auto
      have "\<exists>s'. catfmt_loop jk s1 (length (xs @ o1)) f' args' = Some (s', length ((xs @ o1) @ o2)) \<and>
          fmt_state s' ((xs @ o1) @ o2)"
        using "2.prems"(3) f by (intro "2.IH"(1) [OF c0 True f(1) f(2) refl f(3) s1(2)]) simp
      then show ?thesis using c0 True f s1(1) by (simp add: Let_def)
    next
      case False
      then obtain o2 where o2: "fmt_out f args = Some o2" "out = c # o2"
        using "2.prems"(1) c0 by (auto simp: bind_eq_Some_conv)
      obtain s1 where s1: "fmt_put1 ?s (length xs) c = Some (s1, length (xs @ [c]))" "fmt_state s1 (xs @ [c])"
        using fmt_put1_state [OF st] by blast
      have "\<exists>s'. catfmt_loop jk s1 (length (xs @ [c])) f args = Some (s', length ((xs @ [c]) @ o2)) \<and>
          fmt_state s' ((xs @ [c]) @ o2)"
        using "2.prems"(3) o2 by (intro "2.IH"(2) [OF c0 False o2(1) s1(2)]) simp
      then show ?thesis using c0 False o2 s1(1) by (simp add: Let_def)
    qed
  qed
qed

lemma sdscatfmt_rep:
  assumes "sds_rep s xs" "fmt_out fmt args = Some out" "length xs + length out + 1 \<le> sds_cap"
  shows "\<exists>s'. sdscatfmt jk s fmt args = Some s' \<and> sds_rep s' (xs @ out)"
proof -
  have l: "sdslen s = length xs" using assms(1) by (auto simp: sds_rep_iff)
  obtain s1 where s1: "catfmt_loop jk s (length xs) fmt args = Some (s1, length (xs @ out))" "fmt_state s1 (xs @ out)"
    using catfmt_loop_state [OF assms(2) fmt_state_rep [OF assms(1)] assms(3)] by blast
  then obtain z fr where z: "s1 = \<lparr>sh_len = length (xs @ out), sh_free = length fr, sh_buf = (xs @ out) @ z # fr\<rparr>"
    "length (xs @ out) + length fr < 2 ^ 32" by (auto simp: fmt_state_def)
  have "sdscatfmt jk s fmt args = Some (sds_mk (xs @ out) fr)"
    using s1(1) wr_middle [of "xs @ out" z fr 0] unfolding sdscatfmt_def l by (simp add: z(1) sds_mk_def)
  then show ?thesis using z(2) sds_rep_mkI by blast
qed

text \<open>
  \<open>sdscatfmt\<close> appends exactly the text its format and arguments denote, for every number of
  reallocations on the way and without ever writing outside the allocation, and leaves a
  well-formed, terminated string.
\<close>

lemma sdscatfmt_appends:
  assumes "sds_wf s" "fmt_out fmt args = Some out" "sdslen s + length out + 1 \<le> sds_cap"
  shows "\<exists>s'. sdscatfmt jk s fmt args = Some s' \<and> sds_wf s' \<and> sds_content s' = sds_content s @ out"
proof -
  have "length (sds_content s) = sdslen s" using assms(1) by (simp add: sds_content_def sds_wf_def sdslen_def)
  then show ?thesis using sdscatfmt_rep [of s "sds_content s" fmt args out jk] assms by (simp add: sds_rep_def)
qed

end
