(* ===== verification/Intset.thy ===== *)
theory Intset
  imports Prelude
begin

text \<open>
  The integer sets of \<open>intset.c\<close>: a sorted array of distinct signed integers kept at the
  smallest width (2, 4 or 8 bytes) that holds all of them, stored little endian in the
  bytes that follow the header.  The model keeps those bytes: positions are multiplied by
  the width, values are encoded and decoded, the array is moved with \<open>memmove\<close> and widened
  in place from the back.  \<open>intset_rep\<close> says which sorted list of integers an intset
  stands for; every operation is shown to refine the operation on lists and sets.
\<close>

section \<open>Data\<close>

record intset =
  is_encoding :: nat
  is_length :: nat
  is_contents :: bytes

definition INTSET_ENC_INT16 :: nat where "INTSET_ENC_INT16 = 2"
definition INTSET_ENC_INT32 :: nat where "INTSET_ENC_INT32 = 4"
definition INTSET_ENC_INT64 :: nat where "INTSET_ENC_INT64 = 8"

section \<open>Operations\<close>

definition intsetValueEncoding :: "int \<Rightarrow> nat" where
  "intsetValueEncoding v =
     (if v < - 2147483648 \<or> v > 2147483647 then INTSET_ENC_INT64
      else if v < - 32768 \<or> v > 32767 then INTSET_ENC_INT32
      else INTSET_ENC_INT16)"

definition intsetGetEncoded :: "intset \<Rightarrow> nat \<Rightarrow> nat \<Rightarrow> int option" where
  "intsetGetEncoded is pos enc =
     (if enc = INTSET_ENC_INT64 then
        do { b \<leftarrow> rd_block (is_contents is) (pos * 8) 8; Some (sgn_of 64 (le_dec b)) }
      else if enc = INTSET_ENC_INT32 then
        do { b \<leftarrow> rd_block (is_contents is) (pos * 4) 4; Some (sgn_of 32 (le_dec b)) }
      else
        do { b \<leftarrow> rd_block (is_contents is) (pos * 2) 2; Some (sgn_of 16 (le_dec b)) })"

definition intsetGet_pos :: "intset \<Rightarrow> nat \<Rightarrow> int option" where
  "intsetGet_pos is pos = intsetGetEncoded is pos (is_encoding is)"

definition intsetSet_pos :: "intset \<Rightarrow> nat \<Rightarrow> int \<Rightarrow> intset option" where
  "intsetSet_pos is pos v =
     (if is_encoding is = INTSET_ENC_INT64 then
        do { c \<leftarrow> wr_block (is_contents is) (pos * 8) (le_enc 8 (uns_of 64 v));
             Some (is\<lparr>is_contents := c\<rparr>) }
      else if is_encoding is = INTSET_ENC_INT32 then
        do { c \<leftarrow> wr_block (is_contents is) (pos * 4) (le_enc 4 (uns_of 32 v));
             Some (is\<lparr>is_contents := c\<rparr>) }
      else
        do { c \<leftarrow> wr_block (is_contents is) (pos * 2) (le_enc 2 (uns_of 16 v));
             Some (is\<lparr>is_contents := c\<rparr>) })"

definition intsetNew :: intset where
  "intsetNew = \<lparr>is_encoding = INTSET_ENC_INT16, is_length = 0, is_contents = []\<rparr>"

definition intsetResize :: "(nat \<Rightarrow> byte) \<Rightarrow> intset \<Rightarrow> nat \<Rightarrow> intset" where
  "intsetResize jk is ln =
     is\<lparr>is_contents := zrealloc_buf jk (is_contents is) (u32 (ln * is_encoding is))\<rparr>"

text \<open>
  The binary search loop \<open>while (max >= min)\<close>; the result holds \<open>min\<close>, \<open>mid\<close> and \<open>cur\<close> when
  the loop is left.  \<open>mid\<close> is computed on \<open>unsigned int\<close>.
\<close>

partial_function (option) intsetSearch_loop ::
  "intset \<Rightarrow> int \<Rightarrow> int \<Rightarrow> int \<Rightarrow> int \<Rightarrow> int \<Rightarrow> (int \<times> int \<times> int) option" where
  [code]: "intsetSearch_loop is v mn mx mid cur =
     (if mx \<ge> mn then
        let mid = int (add32 (uns_of 32 mn) (uns_of 32 mx) div 2) in
        intsetGet_pos is (nat mid) \<bind> (\<lambda>cur.
        if v > cur then intsetSearch_loop is v (mid + 1) mx mid cur
        else if v < cur then intsetSearch_loop is v mn (mid - 1) mid cur
        else Some (mn, mid, cur))
      else Some (mn, mid, cur))"

text \<open>The result is the return value and what \<open>*pos\<close> is set to.\<close>

definition intsetSearch :: "intset \<Rightarrow> int \<Rightarrow> (bool \<times> nat) option" where
  "intsetSearch is v =
     (if is_length is = 0 then Some (False, 0)
      else do {
        lst \<leftarrow> intsetGet_pos is (sub32 (is_length is) 1);
        if v > lst then Some (False, is_length is)
        else do {
          fst \<leftarrow> intsetGet_pos is 0;
          if v < fst then Some (False, 0)
          else do {
            (mn, mid, cur) \<leftarrow> intsetSearch_loop is v 0 (sgn_of 32 (sub32 (is_length is) 1)) (- 1) (- 1);
            if v = cur then Some (True, nat mid) else Some (False, nat mn)
          }
        }
      })"

text \<open>The loop \<open>while (length--)\<close> of the upgrade, from the last element to the first.\<close>

fun intsetUpgrade_loop :: "intset \<Rightarrow> nat \<Rightarrow> nat \<Rightarrow> nat \<Rightarrow> intset option" where
  "intsetUpgrade_loop is 0 prepend curenc = Some is"
| "intsetUpgrade_loop is (Suc k) prepend curenc =
     do {
       v \<leftarrow> intsetGetEncoded is k curenc;
       is \<leftarrow> intsetSet_pos is (k + prepend) v;
       intsetUpgrade_loop is k prepend curenc
     }"

definition intsetUpgradeAndAdd :: "(nat \<Rightarrow> byte) \<Rightarrow> intset \<Rightarrow> int \<Rightarrow> intset option" where
  "intsetUpgradeAndAdd jk is v =
     (let curenc = is_encoding is;
          newenc = intsetValueEncoding v;
          len = is_length is;
          prepend = (if v < 0 then 1 else 0);
          is = is\<lparr>is_encoding := newenc\<rparr>;
          is = intsetResize jk is (add32 (is_length is) 1)
      in do {
        is \<leftarrow> intsetUpgrade_loop is len prepend curenc;
        is \<leftarrow> (if prepend \<noteq> 0 then intsetSet_pos is 0 v else intsetSet_pos is (is_length is) v);
        Some (is\<lparr>is_length := add32 (is_length is) 1\<rparr>)
      })"

definition intsetMoveTail :: "intset \<Rightarrow> nat \<Rightarrow> nat \<Rightarrow> intset option" where
  "intsetMoveTail is from to =
     (let nb = sub32 (is_length is) from;
          sz = (if is_encoding is = INTSET_ENC_INT64 then 8
                else if is_encoding is = INTSET_ENC_INT32 then 4 else 2);
          nb = u32 (nb * sz)
      in do {
        c \<leftarrow> memmove_at (is_contents is) (to * sz) (from * sz) nb;
        Some (is\<lparr>is_contents := c\<rparr>)
      })"

text \<open>\<open>intsetAdd\<close> and \<open>intsetRemove\<close> return the set and \<open>*success\<close>.\<close>

definition intsetAdd :: "(nat \<Rightarrow> byte) \<Rightarrow> intset \<Rightarrow> int \<Rightarrow> (intset \<times> bool) option" where
  "intsetAdd jk is v =
     (if intsetValueEncoding v > is_encoding is then
        do { is \<leftarrow> intsetUpgradeAndAdd jk is v; Some (is, True) }
      else do {
        (found, pos) \<leftarrow> intsetSearch is v;
        if found then Some (is, False)
        else do {
          is \<leftarrow> Some (intsetResize jk is (add32 (is_length is) 1));
          is \<leftarrow> (if pos < is_length is then intsetMoveTail is pos (add32 pos 1) else Some is);
          is \<leftarrow> intsetSet_pos is pos v;
          Some (is\<lparr>is_length := add32 (is_length is) 1\<rparr>, True)
        }
      })"

definition intsetRemove :: "(nat \<Rightarrow> byte) \<Rightarrow> intset \<Rightarrow> int \<Rightarrow> (intset \<times> bool) option" where
  "intsetRemove jk is v =
     (if intsetValueEncoding v \<le> is_encoding is then
        do {
          (found, pos) \<leftarrow> intsetSearch is v;
          if found then
            let len = is_length is in
            do {
              is \<leftarrow> (if pos < sub32 len 1 then intsetMoveTail is (add32 pos 1) pos else Some is);
              is \<leftarrow> Some (intsetResize jk is (sub32 len 1));
              Some (is\<lparr>is_length := sub32 len 1\<rparr>, True)
            }
          else Some (is, False)
        }
      else Some (is, False))"

definition intsetFind :: "intset \<Rightarrow> int \<Rightarrow> bool option" where
  "intsetFind is v =
     (if intsetValueEncoding v \<le> is_encoding is
      then do { (found, pos) \<leftarrow> intsetSearch is v; Some found }
      else Some False)"

text \<open>\<open>rand()\<close> is a parameter; the remainder by a zero length is undefined.\<close>

definition intsetRandom :: "nat \<Rightarrow> intset \<Rightarrow> int option" where
  "intsetRandom rand is =
     (if is_length is = 0 then None else intsetGet_pos is (rand mod is_length is))"

text \<open>The inner option is \<open>*value\<close>, set only when the function returns 1.\<close>

definition intsetGet :: "intset \<Rightarrow> nat \<Rightarrow> int option option" where
  "intsetGet is pos =
     (if pos < is_length is then do { v \<leftarrow> intsetGet_pos is pos; Some (Some v) } else Some None)"

definition intsetLen :: "intset \<Rightarrow> nat" where
  "intsetLen is = is_length is"

definition intsetBlobLen :: "intset \<Rightarrow> nat" where
  "intsetBlobLen is = 8 + u32 (is_length is * is_encoding is)"

section \<open>What an intset stands for\<close>

abbreviation enc_ok :: "nat \<Rightarrow> bool" where "enc_ok e \<equiv> e = 2 \<or> e = 4 \<or> e = 8"

fun ints_enc :: "nat \<Rightarrow> int list \<Rightarrow> bytes" where
  "ints_enc e [] = []"
| "ints_enc e (v # vs) = le_enc e (uns_of (8 * e) v) @ ints_enc e vs"

text \<open>
  The bound on the number of elements keeps every \<open>uint32_t\<close> and \<open>int\<close> of the code in range;
  the server converts a set long before (\<open>set-max-intset-entries\<close>).
\<close>

definition INTSET_CAP :: nat where "INTSET_CAP = 268435456"

definition intset_rep :: "intset \<Rightarrow> int list \<Rightarrow> bool" where
  "intset_rep is xs \<longleftrightarrow>
     enc_ok (is_encoding is) \<and> is_length is = length xs \<and>
     is_contents is = ints_enc (is_encoding is) xs \<and>
     sorted_wrt (<) xs \<and> (\<forall>v\<in>set xs. in_sint (8 * is_encoding is) v) \<and>
     length xs \<le> INTSET_CAP"

lemma length_ints_enc [simp]: "length (ints_enc e vs) = length vs * e"
  by (induction vs) simp_all

lemma ints_enc_append [simp]: "ints_enc e (xs @ ys) = ints_enc e xs @ ints_enc e ys"
  by (induction xs) simp_all

lemma ints_enc_take: "take (k * e) (ints_enc e xs) = ints_enc e (take k xs)"
proof (cases "k \<le> length xs")
  case True
  have "ints_enc e xs = ints_enc e (take k xs) @ ints_enc e (drop k xs)"
    by (metis append_take_drop_id ints_enc_append)
  then show ?thesis using True by simp
qed simp

lemma ints_enc_drop: "drop (k * e) (ints_enc e xs) = ints_enc e (drop k xs)"
proof (cases "k \<le> length xs")
  case True
  have "ints_enc e xs = ints_enc e (take k xs) @ ints_enc e (drop k xs)"
    by (metis append_take_drop_id ints_enc_append)
  then show ?thesis using True by simp
qed simp

lemma le_dec_uns_of: "enc_ok e \<Longrightarrow> in_sint (8 * e) v \<Longrightarrow> sgn_of (8 * e) (le_dec (le_enc e (uns_of (8 * e) v))) = v"
proof -
  assume e: "enc_ok e" and v: "in_sint (8 * e) v"
  have "uns_of (8 * e) v < 256 ^ e" using uns_of_less [of "8 * e" v] by (simp add: power_mult)
  then show ?thesis using e v by (auto simp: sgn_of_uns_of)
qed

lemma intsetGetEncoded_eq:
  "enc_ok e \<Longrightarrow> intsetGetEncoded is pos e =
     rd_block (is_contents is) (pos * e) e \<bind> (\<lambda>b. Some (sgn_of (8 * e) (le_dec b)))"
  by (auto simp: intsetGetEncoded_def INTSET_ENC_INT16_def INTSET_ENC_INT32_def INTSET_ENC_INT64_def)

lemma intsetSet_pos_eq:
  "is_encoding is = e \<Longrightarrow> enc_ok e \<Longrightarrow> intsetSet_pos is pos v =
     wr_block (is_contents is) (pos * e) (le_enc e (uns_of (8 * e) v)) \<bind>
       (\<lambda>c. Some (is\<lparr>is_contents := c\<rparr>))"
  by (auto simp: intsetSet_pos_def INTSET_ENC_INT16_def INTSET_ENC_INT32_def INTSET_ENC_INT64_def)

lemma intsetMoveTail_eq:
  "is_encoding is = e \<Longrightarrow> enc_ok e \<Longrightarrow> intsetMoveTail is from to =
     memmove_at (is_contents is) (to * e) (from * e) (u32 (sub32 (is_length is) from * e)) \<bind>
       (\<lambda>c. Some (is\<lparr>is_contents := c\<rparr>))"
  by (auto simp: intsetMoveTail_def INTSET_ENC_INT16_def INTSET_ENC_INT32_def INTSET_ENC_INT64_def)

lemma intsetValueEncoding_iff:
  assumes "enc_ok e" "in_sint 64 v"
  shows "intsetValueEncoding v \<le> e \<longleftrightarrow> in_sint (8 * e) v"
  using assms
  by (auto simp: intsetValueEncoding_def INTSET_ENC_INT16_def INTSET_ENC_INT32_def INTSET_ENC_INT64_def)

lemma enc_ok_intsetValueEncoding: "enc_ok (intsetValueEncoding v)"
  by (auto simp: intsetValueEncoding_def INTSET_ENC_INT16_def INTSET_ENC_INT32_def INTSET_ENC_INT64_def)

section \<open>Reading and searching\<close>

text \<open>One element read from a buffer whose first \<open>k\<close> elements are known.\<close>

lemma intsetGetEncoded_take:
  assumes "enc_ok e" "take (k * e) (is_contents is) = ints_enc e xs" "length xs = k" "i < k"
    and "in_sint (8 * e) (xs ! i)"
  shows "intsetGetEncoded is i e = Some (xs ! i)"
proof -
  let ?c = "is_contents is"
  have "length (ints_enc e xs) = k * e" using assms(3) by simp
  then have len: "k * e \<le> length ?c" using assms(2) by (metis length_take min.cobounded1)
  have ie: "i * e + e \<le> k * e" using assms(4) by (metis Suc_leI add.commute mult_Suc mult_le_mono1)
  have "take e (drop (i * e) ?c) = take e (drop (i * e) (take (k * e) ?c))"
    using ie by (simp add: drop_take min_def)
  also have "\<dots> = take e (ints_enc e (drop i xs))" using assms(2) by (simp add: ints_enc_drop)
  also have "drop i xs = xs ! i # drop (Suc i) xs" using assms(3,4) by (simp add: Cons_nth_drop_Suc)
  finally have "take e (drop (i * e) ?c) = le_enc e (uns_of (8 * e) (xs ! i))" by simp
  then show ?thesis using assms(1,5) ie len
    by (simp add: intsetGetEncoded_eq rd_block_in le_dec_uns_of)
qed

lemma intsetGet_pos_rep:
  assumes "intset_rep is xs" "i < length xs"
  shows "intsetGet_pos is i = Some (xs ! i)"
  using assms unfolding intsetGet_pos_def
  by (intro intsetGetEncoded_take [of _ "length xs"]) (auto simp: intset_rep_def)

text \<open>What the search loop has established when it is left.\<close>

definition search_post :: "int list \<Rightarrow> int \<Rightarrow> int \<times> int \<times> int \<Rightarrow> bool" where
  "search_post xs v r =
     (case r of (mn, mid, cur) \<Rightarrow>
        if v = cur then 0 \<le> mid \<and> nat mid < length xs \<and> xs ! nat mid = v
        else 0 \<le> mn \<and> nat mn \<le> length xs \<and> (\<forall>i<nat mn. xs ! i < v) \<and>
             (\<forall>i<length xs. nat mn \<le> i \<longrightarrow> v < xs ! i))"

text \<open>
  The search window: everything before \<open>mn\<close> is smaller and everything after \<open>mx\<close> is larger
  than the value sought.
\<close>

lemma intsetSearch_loop_rep:
  assumes "intset_rep is xs" "0 \<le> mn" "mx < int (length xs)" "mn \<le> mx + 1"
    and "\<forall>i. int i < mn \<longrightarrow> xs ! i < v" "\<forall>i<length xs. mx < int i \<longrightarrow> v < xs ! i"
    and "mn \<le> mx \<or> v \<noteq> cur"
  shows "\<exists>r. intsetSearch_loop is v mn mx mid0 cur = Some r \<and> search_post xs v r"
  using assms
proof (induction "nat (mx - mn + 1)" arbitrary: mn mx mid0 cur rule: less_induct)
  case less
  note p = less.prems
  show ?case
  proof (cases "mx \<ge> mn")
    case False
    then have "mn = mx + 1" using p(4) by simp
    then show ?thesis using p False
      by (auto simp: search_post_def intsetSearch_loop.simps [of "is" v mn mx mid0 cur])
  next
    case True
    have cap: "length xs \<le> 268435456" using p(1) by (simp add: intset_rep_def INTSET_CAP_def)
    let ?m = "(mn + mx) div 2"
    have uu: "uns_of 32 mn = nat mn" "uns_of 32 mx = nat mx"
      using p(2,3) True cap by (simp_all add: uns_of_def)
    have "add32 (nat mn) (nat mx) = nat mn + nat mx" using p(2,3) True cap by (intro add32_id) auto
    then have mid: "int (add32 (uns_of 32 mn) (uns_of 32 mx) div 2) = ?m"
      unfolding uu using p(2) True by simp
    have mb: "mn \<le> ?m" "?m \<le> mx" using True by auto
    then have m0: "0 \<le> ?m" using p(2) by linarith
    have ml: "nat ?m < length xs" using mb p(2,3) by auto
    have srt: "sorted_wrt (<) xs" using p(1) by (simp add: intset_rep_def)
    have step: "intsetSearch_loop is v mn mx mid0 cur =
      (if v > xs ! nat ?m then intsetSearch_loop is v (?m + 1) mx ?m (xs ! nat ?m)
       else if v < xs ! nat ?m then intsetSearch_loop is v mn (?m - 1) ?m (xs ! nat ?m)
       else Some (mn, ?m, xs ! nat ?m))"
      using True mid intsetGet_pos_rep [OF p(1) ml]
      by (subst intsetSearch_loop.simps) (simp add: Let_def)
    consider "v > xs ! nat ?m" | "v < xs ! nat ?m" | "v = xs ! nat ?m" by linarith
    then show ?thesis
    proof cases
      case 1
      have small: "xs ! i < v" if "int i < ?m + 1" for i
      proof (cases "i = nat ?m")
        case False
        then have "i < nat ?m" using that by auto
        then have "xs ! i < xs ! nat ?m" using srt ml by (simp add: sorted_wrt_nth_less)
        then show ?thesis using 1 by simp
      qed (use 1 in simp)
      have "nat (mx - (?m + 1) + 1) < nat (mx - mn + 1)" using mb True by linarith
      from less.hyps [OF this p(1) _ p(3) _ _ p(6), of "xs ! nat ?m" ?m] show ?thesis
        using step 1 small mb m0 by auto
    next
      case 2
      have large: "v < xs ! i" if "i < length xs" "?m - 1 < int i" for i
      proof (cases "i = nat ?m")
        case False
        then have "nat ?m < i" using that mb p(2) by auto
        then have "xs ! nat ?m < xs ! i" using srt that by (simp add: sorted_wrt_nth_less)
        then show ?thesis using 2 by simp
      qed (use 2 in simp)
      have "nat (?m - 1 - mn + 1) < nat (mx - mn + 1)" using mb True by linarith
      from less.hyps [OF this p(1) p(2) _ _ p(5), of "xs ! nat ?m" ?m] show ?thesis
        using step 2 large mb m0 p(3) by auto
    next
      case 3
      then show ?thesis using step m0 ml by (simp add: search_post_def)
    qed
  qed
qed

lemma intsetSearch_rep:
  assumes "intset_rep is xs"
  shows "\<exists>f pos. intsetSearch is v = Some (f, pos) \<and>
     (if f then pos < length xs \<and> xs ! pos = v
      else v \<notin> set xs \<and> pos \<le> length xs \<and> (\<forall>i<pos. xs ! i < v) \<and>
           (\<forall>i<length xs. pos \<le> i \<longrightarrow> v < xs ! i))"
proof (cases "xs = []")
  case True
  then show ?thesis using assms by (auto simp: intsetSearch_def intset_rep_def)
next
  case False
  let ?n = "length xs"
  have n: "is_length is = ?n" and srt: "sorted_wrt (<) xs" and cap: "?n \<le> 268435456"
    using assms by (auto simp: intset_rep_def INTSET_CAP_def)
  have s1: "sub32 ?n 1 = ?n - 1" using cap False by (intro sub32_le) (auto simp: Suc_le_eq)
  have mx: "sgn_of 32 (sub32 ?n 1) = int (?n - 1)" unfolding s1 using cap by (simp add: sgn_of_def Let_def)
  have lst: "intsetGet_pos is (sub32 ?n 1) = Some (xs ! (?n - 1))"
    unfolding s1 using intsetGet_pos_rep [OF assms] False by simp
  have fs: "intsetGet_pos is 0 = Some (xs ! 0)" using intsetGet_pos_rep [OF assms] False by simp
  have upto: "xs ! i < v" if "v > xs ! (?n - 1)" "i < ?n" for i
  proof (cases "i = ?n - 1")
    case ne: False
    then have "i < ?n - 1" using that by simp
    then have "xs ! i < xs ! (?n - 1)" using sorted_wrt_nth_less [OF srt] False by simp
    then show ?thesis using that by simp
  qed (use that in simp)
  have from0: "v < xs ! i" if "v < xs ! 0" "i < ?n" for i
    using that sorted_wrt_nth_less [OF srt, of 0 i] by (cases "i = 0") auto
  have nin: "v \<notin> set xs" if "pos \<le> ?n" "\<forall>i<pos. xs ! i < v" "\<forall>i<?n. pos \<le> i \<longrightarrow> v < xs ! i" for pos
    using that by (metis in_set_conv_nth linorder_not_less order_less_irrefl)
  obtain mn mid cur where loop: "intsetSearch_loop is v 0 (int (?n - 1)) (- 1) (- 1) = Some (mn, mid, cur)"
    and post: "search_post xs v (mn, mid, cur)"
    using intsetSearch_loop_rep [OF assms, of 0 "int (?n - 1)" v "- 1" "- 1"] False by auto
  show ?thesis
  proof (cases "v > xs ! (?n - 1)")
    case True
    then show ?thesis using False n lst upto nin [of ?n] by (auto simp: intsetSearch_def)
  next
    case ge: False
    show ?thesis
    proof (cases "v < xs ! 0")
      case True
      then show ?thesis using False ge n lst fs from0 nin [of 0] by (auto simp: intsetSearch_def)
    next
      case nlt: False
      then have "intsetSearch is v = Some (if v = cur then (True, nat mid) else (False, nat mn))"
        using False ge n lst fs loop by (simp add: intsetSearch_def mx del: One_nat_def)
      then show ?thesis using post nin [of "nat mn"] by (auto simp: search_post_def split: if_splits)
    qed
  qed
qed

section \<open>Insertion and removal\<close>

text \<open>Writing element \<open>i\<close> replaces exactly its \<open>e\<close> bytes.\<close>

lemma intsetSet_pos_in:
  assumes "is_encoding is = e" "enc_ok e" "i * e + e \<le> length (is_contents is)"
  shows "intsetSet_pos is i v = Some (is\<lparr>is_contents := take (i * e) (is_contents is)
     @ le_enc e (uns_of (8 * e) v) @ drop (i * e + e) (is_contents is)\<rparr>)"
  using assms by (simp add: intsetSet_pos_eq wr_block_in)

text \<open>
  Widening from the back: before the step for element \<open>k - 1\<close> the first \<open>k\<close> elements are
  still in the old width and the others already in the new one.
\<close>

lemma intsetUpgrade_loop_rep:
  assumes "enc_ok cur" "enc_ok new" "cur < new" "is_encoding is = new" "k \<le> length xs"
    and "\<forall>v\<in>set xs. in_sint (8 * cur) v"
    and "take (k * cur) (is_contents is) = ints_enc cur (take k xs)"
    and "drop ((k + p) * new) (is_contents is) = ints_enc new (drop k xs) @ tail"
    and "length (is_contents is) = (length xs + 1) * new" "p \<le> 1"
  shows "\<exists>c. intsetUpgrade_loop is k p cur = Some (is\<lparr>is_contents := c\<rparr>) \<and>
     drop (p * new) c = ints_enc new xs @ tail \<and> length c = length (is_contents is)"
  using assms
proof (induction k arbitrary: "is")
  case 0
  then show ?case by (intro exI [of _ "is_contents is"]) simp
next
  case (Suc k)
  note p = Suc.prems
  let ?c = "is_contents is"
  let ?c' = "take ((k + p) * new) ?c @ le_enc new (uns_of (8 * new) (xs ! k)) @ drop ((k + p) * new + new) ?c"
  have g: "intsetGetEncoded is k cur = Some (xs ! k)"
    using intsetGetEncoded_take [OF p(1) p(7), of k] p(5,6) by simp
  have "(k + p + 1) * new \<le> (length xs + 1) * new" using p(5,10) by (intro mult_le_mono1) simp
  then have fit: "(k + p) * new + new \<le> length ?c" using p(9) by (simp add: algebra_simps)
  have s: "intsetSet_pos is (k + p) (xs ! k) = Some (is\<lparr>is_contents := ?c'\<rparr>)"
    using intsetSet_pos_in [OF p(4,2) fit] .
  have lc: "length ?c' = length ?c" using fit by simp
  have tail': "drop ((k + p) * new) ?c' = ints_enc new (drop k xs) @ tail"
    using p(8) fit p(5) by (simp add: Cons_nth_drop_Suc [symmetric] algebra_simps)
  have "k * cur \<le> (k + p) * new" using p(3) by (intro mult_le_mono) auto
  then have "take (k * cur) ?c' = take (k * cur) ?c" using fit by (simp add: min_def)
  also have "\<dots> = take (k * cur) (take (Suc k * cur) ?c)" by (simp add: min_def)
  also have "\<dots> = ints_enc cur (take k xs)" using p(7) p(5) by (simp add: ints_enc_take min_def)
  finally have hd': "take (k * cur) ?c' = ints_enc cur (take k xs)" .
  have "\<exists>c. intsetUpgrade_loop (is\<lparr>is_contents := ?c'\<rparr>) k p cur = Some (is\<lparr>is_contents := ?c', is_contents := c\<rparr>) \<and>
     drop (p * new) c = ints_enc new xs @ tail \<and> length c = length ?c'"
    using Suc.IH [of "is\<lparr>is_contents := ?c'\<rparr>"] p(1-6,9,10) hd' tail' lc by simp
  then show ?case using g s lc by auto
qed

lemma intsetSet_pos_encoding: "intsetSet_pos is i v = Some is' \<Longrightarrow> is_encoding is' = is_encoding is"
  by (auto simp: intsetSet_pos_def split: if_splits bind_splits)

lemma intsetUpgrade_loop_encoding:
  "intsetUpgrade_loop is k p cur = Some is' \<Longrightarrow> is_encoding is' = is_encoding is"
  by (induction "is" k p cur rule: intsetUpgrade_loop.induct)
    (auto split: bind_splits dest: intsetSet_pos_encoding)

lemma intsetUpgradeAndAdd_encoding:
  "intsetUpgradeAndAdd jk is v = Some is' \<Longrightarrow> is_encoding is' = intsetValueEncoding v"
  by (auto simp: intsetUpgradeAndAdd_def Let_def intsetResize_def split: if_splits bind_splits
      dest!: intsetSet_pos_encoding intsetUpgrade_loop_encoding)

lemma in_sint_mono: "in_sint (8 * a) v \<Longrightarrow> enc_ok a \<Longrightarrow> enc_ok b \<Longrightarrow> a \<le> b \<Longrightarrow> in_sint (8 * b) v"
  by (elim disjE) simp_all

lemma intset_rep_sizes:
  assumes "intset_rep is xs"
  shows "enc_ok (is_encoding is)" "is_length is = length xs"
    "is_contents is = ints_enc (is_encoding is) xs" "sorted_wrt (<) xs"
    "\<forall>v\<in>set xs. in_sint (8 * is_encoding is) v" "length xs \<le> 268435456"
  using assms by (auto simp: intset_rep_def INTSET_CAP_def)

lemma add32_len: "n \<le> 268435456 \<Longrightarrow> add32 n 1 = n + 1"
  by (intro add32_id) simp

lemma u32_size: "n \<le> 268435457 \<Longrightarrow> enc_ok e \<Longrightarrow> u32 (n * e) = n * e"
proof -
  assume "n \<le> 268435457" "enc_ok e"
  then have "n * e \<le> 268435457 * 8" by (intro mult_le_mono) auto
  then show ?thesis by (intro u32_id) simp
qed

lemma intsetUpgradeAndAdd_rep:
  assumes r: "intset_rep is xs" and v: "in_sint 64 v" "intsetValueEncoding v > is_encoding is"
    and cap: "length xs < INTSET_CAP"
  shows "\<exists>is'. intsetUpgradeAndAdd jk is v = Some is' \<and>
     intset_rep is' (if v < 0 then v # xs else xs @ [v])"
proof -
  let ?e = "is_encoding is" and ?w = "intsetValueEncoding v"
  note rs = intset_rep_sizes [OF r]
  have w: "enc_ok ?w" by (rule enc_ok_intsetValueEncoding)
  have a: "add32 (length xs) 1 = length xs + 1" using rs(6) by (rule add32_len)
  define c where "c = zrealloc_buf jk (is_contents is) ((length xs + 1) * ?w)"
  have u: "u32 ((length xs + 1) * ?w) = (length xs + 1) * ?w" using w rs(6) by (intro u32_size) auto
  let ?is1 = "is\<lparr>is_encoding := ?w, is_contents := c\<rparr>"
  have lc: "length c = (length xs + 1) * ?w" by (simp add: c_def)
  have "length xs * ?e \<le> (length xs + 1) * ?w" using v(2) by (intro mult_le_mono) auto
  then have tk: "take (length xs * ?e) c = ints_enc ?e xs" unfolding c_def by (simp add: take_zrealloc_buf rs(3))
  have vin: "in_sint (8 * ?w) v" using intsetValueEncoding_iff [OF w v(1)] by simp
  have xin: "\<forall>x\<in>set xs. in_sint (8 * ?w) x" using rs(1,5) w v(2) in_sint_mono less_imp_le by meson
  have vout: "\<not> in_sint (8 * ?e) v" using intsetValueEncoding_iff [OF rs(1) v(1)] v(2) by simp
  show ?thesis
  proof (cases "v < 0")
    case True
    have dr: "drop ((length xs + 1) * ?w) (is_contents ?is1) = ints_enc ?w (drop (length xs) xs) @ []"
      using lc by simp
    obtain d where d: "intsetUpgrade_loop ?is1 (length xs) 1 ?e = Some (?is1\<lparr>is_contents := d\<rparr>)"
      "drop (1 * ?w) d = ints_enc ?w xs @ []" "length d = length c"
      using intsetUpgrade_loop_rep [OF rs(1) w v(2) _ _ rs(5) _ dr] tk lc by auto
    have lw: "\<forall>x\<in>set xs. v < x" using rs(5) vout True by force
    have fit: "0 * ?w + ?w \<le> length (is_contents (?is1\<lparr>is_contents := d\<rparr>))" using d(3) lc by simp
    have "intsetUpgradeAndAdd jk is v = Some (is\<lparr>is_encoding := ?w, is_length := length xs + 1,
        is_contents := le_enc ?w (uns_of (8 * ?w) v) @ ints_enc ?w xs\<rparr>)"
      using True d intsetSet_pos_in [OF _ w fit, of v]
      by (simp add: intsetUpgradeAndAdd_def Let_def intsetResize_def rs(2) a [simplified] u [simplified] c_def [symmetric, simplified])
    then show ?thesis using True rs(4) lw vin xin w cap by (simp add: intset_rep_def)
  next
    case False
    define t where "t = drop (length xs * ?w) c"
    have dr: "drop ((length xs + 0) * ?w) (is_contents ?is1) = ints_enc ?w (drop (length xs) xs) @ t"
      by (simp add: t_def)
    obtain d where d: "intsetUpgrade_loop ?is1 (length xs) 0 ?e = Some (?is1\<lparr>is_contents := d\<rparr>)"
      "drop (0 * ?w) d = ints_enc ?w xs @ t" "length d = length c"
      using intsetUpgrade_loop_rep [OF rs(1) w v(2) _ _ rs(5) _ dr] tk lc by auto
    have lw: "\<forall>x\<in>set xs. x < v" using rs(5) vout False by force
    have lt: "length t = ?w" using lc by (simp add: t_def)
    have fit: "length xs * ?w + ?w \<le> length (is_contents (?is1\<lparr>is_contents := d\<rparr>))" using d(3) lc by simp
    have "intsetUpgradeAndAdd jk is v = Some (is\<lparr>is_encoding := ?w, is_length := length xs + 1,
        is_contents := ints_enc ?w xs @ le_enc ?w (uns_of (8 * ?w) v)\<rparr>)"
      using False d lt intsetSet_pos_in [OF _ w fit, of v]
      by (simp add: intsetUpgradeAndAdd_def Let_def intsetResize_def rs(2) a [simplified] u [simplified] c_def [symmetric, simplified])
    then show ?thesis using False rs(4) lw vin xin w cap by (auto simp: intset_rep_def sorted_wrt_append)
  qed
qed

lemma strict_sorted_split:
  assumes "sorted_wrt (<) (xs::int list)" "pos \<le> length xs" "\<forall>i<pos. xs ! i < v"
    and "\<forall>i<length xs. pos \<le> i \<longrightarrow> v < xs ! i"
  shows "sorted_wrt (<) (take pos xs @ v # drop pos xs)"
proof -
  have "\<forall>x\<in>set (take pos xs). x < v" using assms(2,3) by (auto simp: in_set_conv_nth)
  moreover have "\<forall>x\<in>set (drop pos xs). v < x" using assms(2,4) by (auto simp: in_set_conv_nth)
  moreover have "sorted_wrt (<) (take pos xs @ drop pos xs)" using assms(1) by simp
  ultimately show ?thesis unfolding sorted_wrt_append by force
qed

lemma split_eq_insort:
  assumes "sorted_wrt (<) (xs::int list)" "sorted_wrt (<) (take pos xs @ v # drop pos xs)" "v \<notin> set xs"
  shows "take pos xs @ v # drop pos xs = insort v xs"
proof (rule sorted_distinct_set_unique)
  have "set xs = set (take pos xs) \<union> set (drop pos xs)" by (metis append_take_drop_id set_append)
  then show "set (take pos xs @ v # drop pos xs) = set (insort v xs)" by (auto simp: set_insort_key)
qed (use assms in \<open>auto simp: strict_sorted_iff distinct_insort sorted_insort\<close>)

text \<open>Making room for one element at \<open>pos\<close>: the resize followed by the move of the tail.\<close>

lemma intset_make_gap:
  assumes r: "intset_rep is xs" and pl: "pos \<le> length xs"
  shows "\<exists>d. (if pos < length xs
       then intsetMoveTail (intsetResize jk is (add32 (length xs) 1)) pos (add32 pos 1)
       else Some (intsetResize jk is (add32 (length xs) 1))) = Some (is\<lparr>is_contents := d\<rparr>) \<and>
     pos * is_encoding is + is_encoding is \<le> length d \<and>
     take (pos * is_encoding is) d = ints_enc (is_encoding is) (take pos xs) \<and>
     drop (pos * is_encoding is + is_encoding is) d = ints_enc (is_encoding is) (drop pos xs)"
proof -
  let ?e = "is_encoding is" and ?n = "length xs"
  note rs = intset_rep_sizes [OF r]
  define c where "c = zrealloc_buf jk (is_contents is) ((?n + 1) * ?e)"
  have rz: "intsetResize jk is (add32 ?n 1) = is\<lparr>is_contents := c\<rparr>"
    using add32_len [OF rs(6)] u32_size [OF _ rs(1), of "?n + 1"] rs(6)
    by (simp add: intsetResize_def c_def)
  have lc: "length c = (?n + 1) * ?e" by (simp add: c_def)
  have tk: "take (?n * ?e) c = ints_enc ?e xs" unfolding c_def by (simp add: take_zrealloc_buf rs(3))
  have pe: "pos * ?e \<le> ?n * ?e" using pl by (intro mult_le_mono1)
  have "take (pos * ?e) c = take (pos * ?e) (take (?n * ?e) c)" using pe by (simp add: min_def)
  then have tp: "take (pos * ?e) c = ints_enc ?e (take pos xs)" by (simp add: tk ints_enc_take)
  show ?thesis
  proof (cases "pos < ?n")
    case True
    have nb: "u32 (sub32 ?n pos * ?e) = (?n - pos) * ?e"
      using rs(6) True rs(1) by (simp add: sub32_le u32_size)
    have a1: "add32 pos 1 = pos + 1" using True rs(6) by (intro add32_len) simp
    have "(?n - pos) * ?e + pos * ?e = ?n * ?e" using pl by (simp add: distrib_right [symmetric])
    then have fit: "pos * ?e + (?n - pos) * ?e \<le> length c" "(pos + 1) * ?e + (?n - pos) * ?e = length c"
      by (auto simp: lc)
    have "take ((?n - pos) * ?e) (drop (pos * ?e) c) = drop (pos * ?e) (take (?n * ?e) c)"
      using pl by (simp add: drop_take diff_mult_distrib)
    then have "take ((?n - pos) * ?e) (drop (pos * ?e) c) = ints_enc ?e (drop pos xs)"
      by (simp add: tk ints_enc_drop)
    then have mv: "intsetMoveTail (is\<lparr>is_contents := c\<rparr>) pos (add32 pos 1) =
        Some (is\<lparr>is_contents := take ((pos + 1) * ?e) c @ ints_enc ?e (drop pos xs)\<rparr>)"
      using fit rs(1,2) nb unfolding a1 by (simp add: intsetMoveTail_eq memmove_at_in)
    show ?thesis unfolding rz using True mv tp fit lc by (auto simp: add.commute min_def)
  next
    case False
    then show ?thesis unfolding rz using tp lc pl by auto
  qed
qed

lemma intsetAdd_rep:
  assumes r: "intset_rep is xs" and v: "in_sint 64 v" and cap: "length xs < INTSET_CAP"
  shows "\<exists>is'. intsetAdd jk is v = Some (is', v \<notin> set xs) \<and>
     intset_rep is' (if v \<in> set xs then xs else insort v xs)"
proof (cases "intsetValueEncoding v > is_encoding is")
  case True
  note rs = intset_rep_sizes [OF r]
  obtain is' where is': "intsetUpgradeAndAdd jk is v = Some is'"
    "intset_rep is' (if v < 0 then v # xs else xs @ [v])"
    using intsetUpgradeAndAdd_rep [OF r v True cap] by auto
  have "\<not> in_sint (8 * is_encoding is) v" using intsetValueEncoding_iff [OF rs(1) v] True by simp
  then have nin: "v \<notin> set xs" using rs(5) by blast
  have "(if v < 0 then v # xs else xs @ [v]) = insort v xs"
    using split_eq_insort [OF rs(4) _ nin, of 0] split_eq_insort [OF rs(4) _ nin, of "length xs"]
      intset_rep_sizes(4) [OF is'(2)] by (auto split: if_splits)
  then show ?thesis using is' nin True by (simp add: intsetAdd_def)
next
  case False
  let ?e = "is_encoding is" and ?n = "length xs"
  note rs = intset_rep_sizes [OF r]
  obtain f pos where fp: "intsetSearch is v = Some (f, pos)" "if f then pos < length xs \<and> xs ! pos = v
      else v \<notin> set xs \<and> pos \<le> length xs \<and> (\<forall>i<pos. xs ! i < v) \<and> (\<forall>i<length xs. pos \<le> i \<longrightarrow> v < xs ! i)"
    using intsetSearch_rep [OF r, of v] by blast
  show ?thesis
  proof (cases f)
    case True
    then have "v \<in> set xs" using fp(2) by auto
    then show ?thesis using True fp(1) False r by (simp add: intsetAdd_def)
  next
    case nf: False
    have nin: "v \<notin> set xs" and pl: "pos \<le> ?n" using fp(2) nf by auto
    have srt: "sorted_wrt (<) (take pos xs @ v # drop pos xs)"
      using strict_sorted_split rs(4) fp(2) nf by simp
    have vin: "in_sint (8 * ?e) v" using intsetValueEncoding_iff [OF rs(1) v] False by simp
    obtain d where mv: "(if pos < ?n
         then intsetMoveTail (intsetResize jk is (add32 ?n 1)) pos (add32 pos 1)
         else Some (intsetResize jk is (add32 ?n 1))) = Some (is\<lparr>is_contents := d\<rparr>)"
      and d: "pos * ?e + ?e \<le> length d" "take (pos * ?e) d = ints_enc ?e (take pos xs)"
        "drop (pos * ?e + ?e) d = ints_enc ?e (drop pos xs)"
      using intset_make_gap [OF r pl, of jk] by blast
    have ln: "is_length (intsetResize jk is (add32 ?n 1)) = ?n" using rs(2) by (simp add: intsetResize_def)
    have "intsetAdd jk is v = Some (is\<lparr>is_contents := ints_enc ?e (take pos xs @ v # drop pos xs),
        is_length := ?n + 1\<rparr>, True)"
    proof -
      have "intsetAdd jk is v = (if pos < ?n
           then intsetMoveTail (intsetResize jk is (add32 ?n 1)) pos (add32 pos 1)
           else Some (intsetResize jk is (add32 ?n 1))) \<bind>
          (\<lambda>is. intsetSet_pos is pos v \<bind>
            (\<lambda>is. Some (is\<lparr>is_length := add32 (is_length is) 1\<rparr>, True)))"
        using False fp(1) nf rs(2) ln by (simp add: intsetAdd_def del: One_nat_def)
      also have "\<dots> = Some (is\<lparr>is_contents := ints_enc ?e (take pos xs @ v # drop pos xs),
          is_length := ?n + 1\<rparr>, True)"
        unfolding mv using d rs(1,2) add32_len [OF rs(6)] by (simp add: intsetSet_pos_in del: One_nat_def)
      finally show ?thesis .
    qed
    moreover have "intset_rep (is\<lparr>is_contents := ints_enc ?e (take pos xs @ v # drop pos xs),
        is_length := ?n + 1\<rparr>) (take pos xs @ v # drop pos xs)"
      using rs(1,5) srt cap vin pl by (auto simp: intset_rep_def dest: in_set_takeD in_set_dropD)
    ultimately show ?thesis using nin split_eq_insort [OF rs(4) srt nin] by simp
  qed
qed

lemma remove1_nth_split:
  "distinct xs \<Longrightarrow> pos < length xs \<Longrightarrow> remove1 (xs ! pos) xs = take pos xs @ drop (Suc pos) xs"
proof (induction xs arbitrary: pos)
  case (Cons x xs)
  then show ?case by (cases pos) auto
qed simp

lemma strict_sorted_remove:
  assumes "sorted_wrt (<) (xs::int list)" "pos < length xs"
  shows "sorted_wrt (<) (take pos xs @ drop (Suc pos) xs)"
proof -
  have "sorted_wrt (<) (take pos xs @ xs ! pos # drop (Suc pos) xs)"
    using assms by (simp add: id_take_nth_drop [symmetric])
  then show ?thesis by (simp add: sorted_wrt_append)
qed

lemma intsetRemove_rep:
  assumes r: "intset_rep is xs" and v: "in_sint 64 v"
  shows "\<exists>is'. intsetRemove jk is v = Some (is', v \<in> set xs) \<and> intset_rep is' (remove1 v xs)"
proof (cases "intsetValueEncoding v \<le> is_encoding is")
  case False
  note rs = intset_rep_sizes [OF r]
  have "\<not> in_sint (8 * is_encoding is) v" using intsetValueEncoding_iff [OF rs(1) v] False by simp
  then have "v \<notin> set xs" using rs(5) by blast
  then show ?thesis using False r by (simp add: intsetRemove_def remove1_idem)
next
  case True
  let ?e = "is_encoding is" and ?n = "length xs"
  note rs = intset_rep_sizes [OF r]
  obtain f pos where fp: "intsetSearch is v = Some (f, pos)"
      "if f then pos < length xs \<and> xs ! pos = v else v \<notin> set xs"
    using intsetSearch_rep [OF r, of v] by metis
  show ?thesis
  proof (cases f)
    case False
    then show ?thesis using True fp r by (simp add: intsetRemove_def remove1_idem)
  next
    case f: True
    let ?ys = "take pos xs @ drop (Suc pos) xs"
    have pn: "pos < ?n" and xv: "xs ! pos = v" using fp(2) f by auto
    have s1: "sub32 ?n 1 = ?n - 1" using pn rs(6) by (intro sub32_le) auto
    have a1: "add32 pos 1 = pos + 1" using pn rs(6) by (intro add32_len) simp
    have dist: "distinct xs" using rs(4) by (simp add: strict_sorted_iff)
    have us: "u32 ((?n - 1) * ?e) = (?n - 1) * ?e" using rs(1,6) by (intro u32_size) auto
    have tp: "take (pos * ?e) (ints_enc ?e xs) = ints_enc ?e (take pos xs)" by (rule ints_enc_take)
    have nb: "u32 (sub32 ?n (pos + 1) * ?e) = (?n - (pos + 1)) * ?e"
      using rs(1,6) pn by (simp add: sub32_le u32_size)
    have e1: "(pos + 1) * ?e + (?n - (pos + 1)) * ?e = ?n * ?e"
      using pn by (metis Suc_eq_plus1 Suc_leI add_mult_distrib le_add_diff_inverse)
    have "\<exists>t. (if pos < sub32 ?n 1 then intsetMoveTail is (add32 pos 1) pos else Some is)
        = Some (is\<lparr>is_contents := ints_enc ?e ?ys @ t\<rparr>)"
    proof (cases "pos < ?n - 1")
      case True
      have fit: "(pos + 1) * ?e + (?n - (pos + 1)) * ?e \<le> length (ints_enc ?e xs)"
        "pos * ?e + (?n - (pos + 1)) * ?e \<le> length (ints_enc ?e xs)" using e1 by auto
      have dp: "drop ((pos + 1) * ?e) (ints_enc ?e xs) = ints_enc ?e (drop (pos + 1) xs)" by (rule ints_enc_drop)
      have "intsetMoveTail is (pos + 1) pos = Some (is\<lparr>is_contents := ints_enc ?e ?ys @
          drop (pos * ?e + (?n - (pos + 1)) * ?e) (ints_enc ?e xs)\<rparr>)"
        using fit nb rs(1-3) tp dp by (simp add: intsetMoveTail_eq memmove_at_in)
      then show ?thesis using True unfolding s1 a1 by auto
    next
      case False
      then have "Suc pos = ?n" using pn by simp
      then have "xs = ?ys @ [v]" using xv pn by (metis append.right_neutral drop_all id_take_nth_drop le_refl)
      then have "is_contents is = ints_enc ?e ?ys @ le_enc ?e (uns_of (8 * ?e) v)"
        using rs(3) by (metis append_Nil2 ints_enc.simps ints_enc_append)
      then have "is = is\<lparr>is_contents := ints_enc ?e ?ys @ le_enc ?e (uns_of (8 * ?e) v)\<rparr>" by simp
      then show ?thesis using False unfolding s1 by auto
    qed
    then obtain t where mv: "(if pos < sub32 ?n 1 then intsetMoveTail is (add32 pos 1) pos else Some is)
        = Some (is\<lparr>is_contents := ints_enc ?e ?ys @ t\<rparr>)" ..
    have ly: "length ?ys = ?n - 1" using pn by simp
    have zr: "zrealloc_buf jk (ints_enc ?e ?ys @ t) ((?n - 1) * ?e) = ints_enc ?e ?ys"
      using ly by (intro zrealloc_buf_shrink) (simp only: length_ints_enc)
    have "intsetRemove jk is v = Some (is\<lparr>is_contents := ints_enc ?e ?ys, is_length := ?n - 1\<rparr>, True)"
      using True fp(1) f mv us zr rs(2)
      by (simp add: intsetRemove_def Let_def intsetResize_def s1 del: ints_enc_append One_nat_def)
    moreover have "intset_rep (is\<lparr>is_contents := ints_enc ?e ?ys, is_length := ?n - 1\<rparr>) ?ys"
      using rs(1,5,6) ly pn strict_sorted_remove [OF rs(4) pn]
      by (auto simp: intset_rep_def INTSET_CAP_def dest: in_set_takeD in_set_dropD)
    ultimately show ?thesis using remove1_nth_split [OF dist pn] xv pn by auto
  qed
qed

lemma intsetFind_rep:
  assumes r: "intset_rep is xs" and v: "in_sint 64 v"
  shows "intsetFind is v = Some (v \<in> set xs)"
proof (cases "intsetValueEncoding v \<le> is_encoding is")
  case True
  obtain f pos where "intsetSearch is v = Some (f, pos)"
      "if f then pos < length xs \<and> xs ! pos = v else v \<notin> set xs"
    using intsetSearch_rep [OF r, of v] by metis
  then show ?thesis using True by (auto simp: intsetFind_def split: if_splits)
next
  case False
  note rs = intset_rep_sizes [OF r]
  have "\<not> in_sint (8 * is_encoding is) v" using intsetValueEncoding_iff [OF rs(1) v] False by simp
  then have "v \<notin> set xs" using rs(5) by blast
  then show ?thesis using False by (simp add: intsetFind_def)
qed

lemma intsetNew_rep: "intset_rep intsetNew []"
  by (simp add: intset_rep_def intsetNew_def INTSET_ENC_INT16_def)

section \<open>The interface of a set of integers\<close>

text \<open>
  What a client of an integer set relies on, stated over sets: an operation returns
  whether the element was new (or present), and changes the represented set accordingly.
  \<open>iop\<close> names the three operations, \<open>run_iops\<close> performs a sequence of them and collects
  the replies, \<open>spec_iops\<close> is the same on mathematical sets.
\<close>

datatype iop = IAdd int | IRemove int | IFind int

fun iop_arg :: "iop \<Rightarrow> int" where
  "iop_arg (IAdd v) = v"
| "iop_arg (IRemove v) = v"
| "iop_arg (IFind v) = v"

definition run_iop :: "('s \<Rightarrow> int \<Rightarrow> ('s \<times> bool) option) \<Rightarrow> ('s \<Rightarrow> int \<Rightarrow> ('s \<times> bool) option) \<Rightarrow>
    ('s \<Rightarrow> int \<Rightarrow> bool option) \<Rightarrow> 's \<Rightarrow> iop \<Rightarrow> ('s \<times> bool) option" where
  "run_iop add rem fnd s oper =
     (case oper of IAdd v \<Rightarrow> add s v | IRemove v \<Rightarrow> rem s v
      | IFind v \<Rightarrow> do { b \<leftarrow> fnd s v; Some (s, b) })"

fun run_iops :: "('s \<Rightarrow> int \<Rightarrow> ('s \<times> bool) option) \<Rightarrow> ('s \<Rightarrow> int \<Rightarrow> ('s \<times> bool) option) \<Rightarrow>
    ('s \<Rightarrow> int \<Rightarrow> bool option) \<Rightarrow> 's \<Rightarrow> iop list \<Rightarrow> ('s \<times> bool list) option" where
  "run_iops add rem fnd s [] = Some (s, [])"
| "run_iops add rem fnd s (oper # ops) =
     do { (s, b) \<leftarrow> run_iop add rem fnd s oper;
          (s, bs) \<leftarrow> run_iops add rem fnd s ops;
          Some (s, b # bs) }"

fun spec_iop :: "int set \<Rightarrow> iop \<Rightarrow> int set \<times> bool" where
  "spec_iop S (IAdd v) = (insert v S, v \<notin> S)"
| "spec_iop S (IRemove v) = (S - {v}, v \<in> S)"
| "spec_iop S (IFind v) = (S, v \<in> S)"

fun spec_iops :: "int set \<Rightarrow> iop list \<Rightarrow> int set \<times> bool list" where
  "spec_iops S [] = (S, [])"
| "spec_iops S (oper # ops) =
     (let (S, b) = spec_iop S oper; (S, bs) = spec_iops S ops in (S, b # bs))"

locale int_set =
  fixes empty :: 's
    and add :: "'s \<Rightarrow> int \<Rightarrow> ('s \<times> bool) option"
    and rem :: "'s \<Rightarrow> int \<Rightarrow> ('s \<times> bool) option"
    and fnd :: "'s \<Rightarrow> int \<Rightarrow> bool option"
    and rep :: "'s \<Rightarrow> int set \<Rightarrow> bool"
    and cap :: nat
  assumes empty_rep: "rep empty {}"
    and finite_rep: "rep s S \<Longrightarrow> finite S"
    and add_rep: "rep s S \<Longrightarrow> in_sint 64 v \<Longrightarrow> card S < cap \<Longrightarrow>
      \<exists>s'. add s v = Some (s', v \<notin> S) \<and> rep s' (insert v S)"
    and rem_rep: "rep s S \<Longrightarrow> in_sint 64 v \<Longrightarrow> \<exists>s'. rem s v = Some (s', v \<in> S) \<and> rep s' (S - {v})"
    and fnd_rep: "rep s S \<Longrightarrow> in_sint 64 v \<Longrightarrow> fnd s v = Some (v \<in> S)"
begin

lemma run_iop_refines:
  assumes "rep s S" "in_sint 64 (iop_arg oper)" "card S < cap"
  shows "\<exists>s'. run_iop add rem fnd s oper = Some (s', snd (spec_iop S oper)) \<and> rep s' (fst (spec_iop S oper))"
  using assms add_rep rem_rep fnd_rep by (cases oper) (auto simp: run_iop_def)

lemma card_spec_iop: "rep s S \<Longrightarrow> card (fst (spec_iop S oper)) \<le> Suc (card S)"
  using finite_rep by (cases oper) (auto simp: card_insert_if card_Diff1_le le_Suc_eq intro: le_trans)

lemma run_iops_refines:
  assumes "rep s S" "\<forall>oper\<in>set ops. in_sint 64 (iop_arg oper)" "card S + length ops \<le> cap"
  shows "\<exists>s'. run_iops add rem fnd s ops = Some (s', snd (spec_iops S ops)) \<and> rep s' (fst (spec_iops S ops))"
  using assms
proof (induction ops arbitrary: s S)
  case Nil
  then show ?case by simp
next
  case (Cons oper ops)
  obtain s1 where s1: "run_iop add rem fnd s oper = Some (s1, snd (spec_iop S oper))" "rep s1 (fst (spec_iop S oper))"
    using run_iop_refines [OF Cons.prems(1), of oper] Cons.prems(2,3) by auto
  have "card (fst (spec_iop S oper)) + length ops \<le> cap"
    using card_spec_iop [OF Cons.prems(1), of oper] Cons.prems(3) by simp
  then obtain s2 where "run_iops add rem fnd s1 ops = Some (s2, snd (spec_iops (fst (spec_iop S oper)) ops))"
      "rep s2 (fst (spec_iops (fst (spec_iop S oper)) ops))"
    using Cons.IH [OF s1(2)] Cons.prems(2) by auto
  then show ?case using s1 by (simp add: case_prod_beta Let_def)
qed

end

definition intset_rep_set :: "intset \<Rightarrow> int set \<Rightarrow> bool" where
  "intset_rep_set is S \<longleftrightarrow> (\<exists>xs. intset_rep is xs \<and> set xs = S)"

interpretation iset: int_set intsetNew "intsetAdd jk" "intsetRemove jk" intsetFind intset_rep_set INTSET_CAP
  for jk
proof unfold_locales
  show "intset_rep_set intsetNew {}" using intsetNew_rep by (auto simp: intset_rep_set_def)
  show "intset_rep_set s S \<Longrightarrow> finite S" for s S by (auto simp: intset_rep_set_def)
  fix s S and v :: int
  assume a: "intset_rep_set s S" "in_sint 64 v"
  then obtain xs where xs: "intset_rep s xs" "set xs = S" by (auto simp: intset_rep_set_def)
  then have d: "distinct xs" using intset_rep_sizes(4) by (simp add: strict_sorted_iff)
  then have c: "card S = length xs" using xs(2) distinct_card by blast
  { assume "card S < INTSET_CAP"
    then show "\<exists>s'. intsetAdd jk s v = Some (s', v \<notin> S) \<and> intset_rep_set s' (insert v S)"
      using intsetAdd_rep [OF xs(1) a(2), of jk] c xs(2)
      by (cases "v \<in> S") (auto simp: intset_rep_set_def insert_absorb, metis set_insort_key) }
  show "\<exists>s'. intsetRemove jk s v = Some (s', v \<in> S) \<and> intset_rep_set s' (S - {v})"
    using intsetRemove_rep [OF xs(1) a(2), of jk] set_remove1_eq [OF d, of v] xs(2)
    by (auto simp: intset_rep_set_def)
  show "intsetFind s v = Some (v \<in> S)" using intsetFind_rep [OF xs(1) a(2)] xs(2) by simp
qed

lemma intset_rep_unique: "intset_rep is xs \<Longrightarrow> xs = sorted_list_of_set (set xs)"
  using intset_rep_sizes(4) [of "is" xs]
  by (intro sorted_distinct_set_unique) (auto simp: strict_sorted_iff)

section \<open>Properties\<close>

text \<open>
  C7. Any sequence of insertions, removals and membership tests on a new intset behaves as
  the same sequence on a mathematical set of integers: no operation fails, the replies are
  the same, and the final bytes are the sorted elements of the final set at the width of
  the encoding.
\<close>

theorem intset_refines_set:
  assumes "\<forall>oper\<in>set ops. in_sint 64 (iop_arg oper)" "length ops \<le> INTSET_CAP"
  shows "\<exists>is S bs. run_iops (intsetAdd jk) (intsetRemove jk) intsetFind intsetNew ops = Some (is, bs) \<and>
     spec_iops {} ops = (S, bs) \<and> intset_rep is (sorted_list_of_set S)"
proof -
  obtain "is" where "is": "run_iops (intsetAdd jk) (intsetRemove jk) intsetFind intsetNew ops
      = Some (is, snd (spec_iops {} ops))" "intset_rep_set is (fst (spec_iops {} ops))"
    using iset.run_iops_refines [OF iset.empty_rep assms(1), of jk] assms(2) by auto
  then obtain xs where "intset_rep is xs" "set xs = fst (spec_iops {} ops)"
    by (auto simp: intset_rep_set_def)
  then have "intset_rep is (sorted_list_of_set (fst (spec_iops {} ops)))"
    using intset_rep_unique by metis
  then show ?thesis using "is"(1) by (metis prod.collapse)
qed

theorem intset_refines_set_witness:
  "\<exists>is S bs. run_iops (intsetAdd (\<lambda>_. 0)) (intsetRemove (\<lambda>_. 0)) intsetFind intsetNew
       [IAdd 5, IAdd (- 70000), IAdd 5000000000, IRemove 5, IFind (- 70000)] = Some (is, bs) \<and>
     spec_iops {} [IAdd 5, IAdd (- 70000), IAdd 5000000000, IRemove 5, IFind (- 70000)] = (S, bs) \<and>
     intset_rep is (sorted_list_of_set S)"
  using intset_refines_set [of "[IAdd 5, IAdd (- 70000), IAdd 5000000000, IRemove 5, IFind (- 70000)]" "\<lambda>_. 0"]
  by (simp add: INTSET_CAP_def)

text \<open>
  Binary search: on an intset that stands for the sorted list \<open>xs\<close> the search returns,
  and it reports either the index of the value or the one index at which inserting the
  value keeps the list sorted.
\<close>

lemma intsetSearch_finds:
  assumes "intset_rep is xs"
  shows "intsetSearch is v = Some (v \<in> set xs, length (takeWhile (\<lambda>x. x < v) xs))"
proof -
  obtain f pos where s: "intsetSearch is v = Some (f, pos)" and
    p: "if f then pos < length xs \<and> xs ! pos = v
      else v \<notin> set xs \<and> pos \<le> length xs \<and> (\<forall>i<pos. xs ! i < v) \<and> (\<forall>i<length xs. pos \<le> i \<longrightarrow> v < xs ! i)"
    using intsetSearch_rep [OF assms, of v] by blast
  have srt: "sorted_wrt (<) xs" using assms by (rule intset_rep_sizes)
  have lt: "\<forall>i<pos. xs ! i < v" using p srt by (auto split: if_splits intro: sorted_wrt_nth_less)
  have ge: "pos < length xs \<Longrightarrow> \<not> xs ! pos < v" using p by (auto split: if_splits)
  have "takeWhile (\<lambda>x. x < v) xs = take pos xs" using lt ge by (intro takeWhile_eq_take_P_nth) auto
  then have "length (takeWhile (\<lambda>x. x < v) xs) = pos" using p by (auto split: if_splits)
  moreover have "f \<longleftrightarrow> v \<in> set xs" using p by (auto split: if_splits)
  ultimately show ?thesis using s by simp
qed

text \<open>
  Widening: adding a value that does not fit the current width re-encodes every element
  at the width of the value and places the value at the right end of the order, without
  a search and without losing an element.
\<close>

lemma intsetUpgradeAndAdd_widens:
  assumes "intset_rep is xs" "in_sint 64 v" "intsetValueEncoding v > is_encoding is" "length xs < INTSET_CAP"
  shows "\<exists>is'. intsetUpgradeAndAdd jk is v = Some is' \<and> is_encoding is' = intsetValueEncoding v \<and>
     intset_rep is' (if v < 0 then v # xs else xs @ [v])"
proof -
  obtain is' where is': "intsetUpgradeAndAdd jk is v = Some is'" "intset_rep is' (if v < 0 then v # xs else xs @ [v])"
    using intsetUpgradeAndAdd_rep [OF assms, of jk] by blast
  have "is_encoding is' = intsetValueEncoding v" using is'(1) by (rule intsetUpgradeAndAdd_encoding)
  then show ?thesis using is' by blast
qed

end
