(* ===== verification/Adlist.thy ===== *)
theory Adlist
  imports Prelude
begin

text \<open>
  The generic doubly linked list of \<open>adlist.c\<close>, on an explicit heap of nodes.  A pointer is
  a \<open>nat option\<close> (\<open>None\<close> is \<open>NULL\<close>), every dereference is checked, \<open>zmalloc\<close> hands out an
  address that is not in use and \<open>zfree\<close> takes the node out of the heap, so that a use
  after free is the result \<open>None\<close>.  \<open>dlist\<close> says that a list header and the heap hold the
  given values, linked in both directions; the operations are shown to act on it as the
  operations on HOL lists.

  The callbacks \<open>dup\<close>, \<open>free\<close> and \<open>match\<close> are fields of the header.  \<open>dup\<close> and \<open>match\<close> are
  functions; of \<open>free\<close> only the calls are kept: an operation that calls it returns the
  values it was called on.
\<close>

section \<open>Data\<close>

record 'v listNode =
  n_prev :: "nat option"
  n_next :: "nat option"
  n_val :: 'v

record 'v nheap =
  hp_brk :: nat
  hp_node :: "nat \<Rightarrow> 'v listNode option"

record 'v adlist =
  l_head :: "nat option"
  l_tail :: "nat option"
  l_dup :: "('v \<Rightarrow> 'v option) option"
  l_free :: bool
  l_match :: "('v \<Rightarrow> 'v \<Rightarrow> bool) option"
  l_len :: nat

datatype direction = AL_START_HEAD | AL_START_TAIL

record listIter =
  it_next :: "nat option"
  it_direction :: direction

section \<open>Heap access\<close>

definition zmalloc_node :: "'v nheap \<Rightarrow> 'v listNode \<Rightarrow> 'v nheap \<times> nat" where
  "zmalloc_node h n = (h\<lparr>hp_brk := Suc (hp_brk h), hp_node := (hp_node h)(hp_brk h \<mapsto> n)\<rparr>, hp_brk h)"

definition zfree_node :: "'v nheap \<Rightarrow> nat \<Rightarrow> 'v nheap option" where
  "zfree_node h a =
     (case hp_node h a of None \<Rightarrow> None | Some _ \<Rightarrow> Some (h\<lparr>hp_node := (hp_node h)(a := None)\<rparr>))"

definition deref :: "'v nheap \<Rightarrow> nat option \<Rightarrow> 'v listNode option" where
  "deref h p = p \<bind> hp_node h"

definition set_prev :: "'v nheap \<Rightarrow> nat option \<Rightarrow> nat option \<Rightarrow> 'v nheap option" where
  "set_prev h p q =
     do { a \<leftarrow> p; n \<leftarrow> hp_node h a; Some (h\<lparr>hp_node := (hp_node h)(a \<mapsto> n\<lparr>n_prev := q\<rparr>)\<rparr>) }"

definition set_next :: "'v nheap \<Rightarrow> nat option \<Rightarrow> nat option \<Rightarrow> 'v nheap option" where
  "set_next h p q =
     do { a \<leftarrow> p; n \<leftarrow> hp_node h a; Some (h\<lparr>hp_node := (hp_node h)(a \<mapsto> n\<lparr>n_next := q\<rparr>)\<rparr>) }"

section \<open>Operations\<close>

definition listCreate :: "'v adlist" where
  "listCreate = \<lparr>l_head = None, l_tail = None, l_dup = None, l_free = False, l_match = None, l_len = 0\<rparr>"

text \<open>\<open>listRelease\<close>: the loop \<open>while (len--)\<close>; the second result lists the calls of \<open>free\<close>.\<close>

fun listRelease_loop :: "'v nheap \<Rightarrow> bool \<Rightarrow> nat \<Rightarrow> nat option \<Rightarrow> ('v nheap \<times> 'v list) option" where
  "listRelease_loop h fr 0 current = Some (h, [])"
| "listRelease_loop h fr (Suc len) current =
     do {
       a \<leftarrow> current;
       n \<leftarrow> hp_node h a;
       h \<leftarrow> zfree_node h a;
       (h, vs) \<leftarrow> listRelease_loop h fr len (n_next n);
       Some (h, (if fr then n_val n # vs else vs))
     }"

definition listRelease :: "'v nheap \<Rightarrow> 'v adlist \<Rightarrow> ('v nheap \<times> 'v list) option" where
  "listRelease h l = listRelease_loop h (l_free l) (l_len l) (l_head l)"

definition listAddNodeHead :: "'v nheap \<Rightarrow> 'v adlist \<Rightarrow> 'v \<Rightarrow> ('v nheap \<times> 'v adlist) option" where
  "listAddNodeHead h l v =
     (if l_len l = 0 then
        let (h, node) = zmalloc_node h \<lparr>n_prev = None, n_next = None, n_val = v\<rparr> in
        Some (h, l\<lparr>l_head := Some node, l_tail := Some node, l_len := u64 (l_len l + 1)\<rparr>)
      else
        let (h, node) = zmalloc_node h \<lparr>n_prev = None, n_next = l_head l, n_val = v\<rparr> in
        do {
          h \<leftarrow> set_prev h (l_head l) (Some node);
          Some (h, l\<lparr>l_head := Some node, l_len := u64 (l_len l + 1)\<rparr>)
        })"

definition listAddNodeTail :: "'v nheap \<Rightarrow> 'v adlist \<Rightarrow> 'v \<Rightarrow> ('v nheap \<times> 'v adlist) option" where
  "listAddNodeTail h l v =
     (if l_len l = 0 then
        let (h, node) = zmalloc_node h \<lparr>n_prev = None, n_next = None, n_val = v\<rparr> in
        Some (h, l\<lparr>l_head := Some node, l_tail := Some node, l_len := u64 (l_len l + 1)\<rparr>)
      else
        let (h, node) = zmalloc_node h \<lparr>n_prev = l_tail l, n_next = None, n_val = v\<rparr> in
        do {
          h \<leftarrow> set_next h (l_tail l) (Some node);
          Some (h, l\<lparr>l_tail := Some node, l_len := u64 (l_len l + 1)\<rparr>)
        })"

definition listInsertNode ::
  "'v nheap \<Rightarrow> 'v adlist \<Rightarrow> nat \<Rightarrow> 'v \<Rightarrow> bool \<Rightarrow> ('v nheap \<times> 'v adlist) option" where
  "listInsertNode h l old_node v after =
     do {
       old \<leftarrow> hp_node h old_node;
       let n = (if after then \<lparr>n_prev = Some old_node, n_next = n_next old, n_val = v\<rparr>
                else \<lparr>n_prev = n_prev old, n_next = Some old_node, n_val = v\<rparr>);
       let (h, node) = zmalloc_node h n;
       let l = (if after then (if l_tail l = Some old_node then l\<lparr>l_tail := Some node\<rparr> else l)
                else (if l_head l = Some old_node then l\<lparr>l_head := Some node\<rparr> else l));
       h \<leftarrow> (if n_prev n \<noteq> None then set_next h (n_prev n) (Some node) else Some h);
       h \<leftarrow> (if n_next n \<noteq> None then set_prev h (n_next n) (Some node) else Some h);
       Some (h, l\<lparr>l_len := u64 (l_len l + 1)\<rparr>)
     }"

text \<open>\<open>listDelNode\<close>; the last result is the value \<open>free\<close> was called on, if it is set.\<close>

definition listDelNode :: "'v nheap \<Rightarrow> 'v adlist \<Rightarrow> nat \<Rightarrow> ('v nheap \<times> 'v adlist \<times> 'v list) option" where
  "listDelNode h l node =
     do {
       n \<leftarrow> hp_node h node;
       (h, l) \<leftarrow> (if n_prev n \<noteq> None
                  then do { h \<leftarrow> set_next h (n_prev n) (n_next n); Some (h, l) }
                  else Some (h, l\<lparr>l_head := n_next n\<rparr>));
       (h, l) \<leftarrow> (if n_next n \<noteq> None
                  then do { h \<leftarrow> set_prev h (n_next n) (n_prev n); Some (h, l) }
                  else Some (h, l\<lparr>l_tail := n_prev n\<rparr>));
       h \<leftarrow> zfree_node h node;
       Some (h, l\<lparr>l_len := u64 (l_len l + (2 ^ 64 - 1))\<rparr>, if l_free l then [n_val n] else [])
     }"

definition listGetIterator :: "'v adlist \<Rightarrow> direction \<Rightarrow> listIter" where
  "listGetIterator l d =
     \<lparr>it_next = (if d = AL_START_HEAD then l_head l else l_tail l), it_direction = d\<rparr>"

definition listRewind :: "'v adlist \<Rightarrow> listIter" where
  "listRewind l = \<lparr>it_next = l_head l, it_direction = AL_START_HEAD\<rparr>"

definition listRewindTail :: "'v adlist \<Rightarrow> listIter" where
  "listRewindTail l = \<lparr>it_next = l_tail l, it_direction = AL_START_TAIL\<rparr>"

text \<open>\<open>listNext\<close> returns the node and the advanced iterator.\<close>

definition listNext :: "'v nheap \<Rightarrow> listIter \<Rightarrow> (nat option \<times> listIter) option" where
  "listNext h it =
     (case it_next it of
        None \<Rightarrow> Some (None, it)
      | Some a \<Rightarrow>
          do { n \<leftarrow> hp_node h a;
               Some (Some a, it\<lparr>it_next := (if it_direction it = AL_START_HEAD then n_next n else n_prev n)\<rparr>) })"

text \<open>
  \<open>listDup\<close>: the result is the heap and the copy, or no copy (\<open>NULL\<close>) when the \<open>dup\<close> callback
  returned \<open>NULL\<close>; then the part copied so far has been released.
\<close>

partial_function (option) listDup_loop ::
  "'v nheap \<Rightarrow> 'v adlist \<Rightarrow> listIter \<Rightarrow> ('v nheap \<times> 'v adlist option) option" where
  [code]: "listDup_loop h copy it =
     listNext h it \<bind> (\<lambda>(nd, it).
     case nd of
       None \<Rightarrow> Some (h, Some copy)
     | Some a \<Rightarrow>
         hp_node h a \<bind> (\<lambda>n.
         case (case l_dup copy of Some d \<Rightarrow> d (n_val n) | None \<Rightarrow> Some (n_val n)) of
           None \<Rightarrow> listRelease h copy \<bind> (\<lambda>(h, _). Some (h, None))
         | Some v \<Rightarrow> listAddNodeTail h copy v \<bind> (\<lambda>(h, copy). listDup_loop h copy it)))"

definition listDup :: "'v nheap \<Rightarrow> 'v adlist \<Rightarrow> ('v nheap \<times> 'v adlist option) option" where
  "listDup h orig =
     listDup_loop h (listCreate\<lparr>l_dup := l_dup orig, l_free := l_free orig, l_match := l_match orig\<rparr>)
       (listGetIterator orig AL_START_HEAD)"

partial_function (option) listSearchKey_loop ::
  "'v nheap \<Rightarrow> 'v adlist \<Rightarrow> 'v \<Rightarrow> listIter \<Rightarrow> nat option option" where
  [code]: "listSearchKey_loop h l key it =
     listNext h it \<bind> (\<lambda>(nd, it).
     case nd of
       None \<Rightarrow> Some None
     | Some a \<Rightarrow>
         hp_node h a \<bind> (\<lambda>n.
         if (case l_match l of Some m \<Rightarrow> m (n_val n) key | None \<Rightarrow> key = n_val n)
         then Some (Some a)
         else listSearchKey_loop h l key it))"

definition listSearchKey :: "'v nheap \<Rightarrow> 'v adlist \<Rightarrow> 'v \<Rightarrow> nat option option" where
  "listSearchKey h l key = listSearchKey_loop h l key (listGetIterator l AL_START_HEAD)"

text \<open>The loops \<open>while (index-- && n)\<close>, backwards and forwards.\<close>

fun listIndex_prev :: "'v nheap \<Rightarrow> nat \<Rightarrow> nat option \<Rightarrow> nat option option" where
  "listIndex_prev h 0 n = Some n"
| "listIndex_prev h (Suc i) None = Some None"
| "listIndex_prev h (Suc i) (Some a) = do { n \<leftarrow> hp_node h a; listIndex_prev h i (n_prev n) }"

fun listIndex_next :: "'v nheap \<Rightarrow> nat \<Rightarrow> nat option \<Rightarrow> nat option option" where
  "listIndex_next h 0 n = Some n"
| "listIndex_next h (Suc i) None = Some None"
| "listIndex_next h (Suc i) (Some a) = do { n \<leftarrow> hp_node h a; listIndex_next h i (n_next n) }"

definition listIndex :: "'v nheap \<Rightarrow> 'v adlist \<Rightarrow> int \<Rightarrow> nat option option" where
  "listIndex h l index =
     (if index < 0
      then (if index = - (2 ^ 63) then None else listIndex_prev h (nat (- index - 1)) (l_tail l))
      else listIndex_next h (nat index) (l_head l))"

definition listRotate :: "'v nheap \<Rightarrow> 'v adlist \<Rightarrow> ('v nheap \<times> 'v adlist) option" where
  "listRotate h l =
     (if l_len l \<le> 1 then Some (h, l)
      else do {
        let tail = l_tail l;
        t \<leftarrow> deref h tail;
        let l = l\<lparr>l_tail := n_prev t\<rparr>;
        h \<leftarrow> set_next h (l_tail l) None;
        h \<leftarrow> set_prev h (l_head l) tail;
        h \<leftarrow> set_prev h tail None;
        h \<leftarrow> set_next h tail (l_head l);
        Some (h, l\<lparr>l_head := tail\<rparr>)
      })"

section \<open>What a list stands for\<close>

text \<open>
  \<open>dseg m p as vs q\<close>: the nodes \<open>as\<close> hold the values \<open>vs\<close>, the first has \<open>p\<close> as its
  predecessor, the last has \<open>q\<close> as its successor and the links between them agree.
\<close>

definition firstp :: "nat list \<Rightarrow> nat option \<Rightarrow> nat option" where
  "firstp as q = (case as of [] \<Rightarrow> q | a # _ \<Rightarrow> Some a)"

definition lastp :: "nat list \<Rightarrow> nat option \<Rightarrow> nat option" where
  "lastp as p = (if as = [] then p else Some (last as))"

fun dseg :: "(nat \<Rightarrow> 'v listNode option) \<Rightarrow> nat option \<Rightarrow> nat list \<Rightarrow> 'v list \<Rightarrow> nat option \<Rightarrow> bool" where
  "dseg m p [] [] q \<longleftrightarrow> True"
| "dseg m p (a # as) (v # vs) q \<longleftrightarrow>
     m a = Some \<lparr>n_prev = p, n_next = firstp as q, n_val = v\<rparr> \<and> dseg m (Some a) as vs q"
| "dseg m p _ _ q \<longleftrightarrow> False"

definition heap_ok :: "'v nheap \<Rightarrow> bool" where
  "heap_ok h \<longleftrightarrow> (\<forall>a\<ge>hp_brk h. hp_node h a = None)"

definition dlist :: "'v nheap \<Rightarrow> 'v adlist \<Rightarrow> nat list \<Rightarrow> 'v list \<Rightarrow> bool" where
  "dlist h l ps vs \<longleftrightarrow>
     heap_ok h \<and> distinct ps \<and> dseg (hp_node h) None ps vs None \<and>
     l_head l = firstp ps None \<and> l_tail l = lastp ps None \<and> l_len l = length vs"

text \<open>What an operation leaves alone: the nodes allocated before that are not of its list.\<close>

definition frame :: "nat list \<Rightarrow> 'v nheap \<Rightarrow> 'v nheap \<Rightarrow> bool" where
  "frame ps h h' \<longleftrightarrow>
     hp_brk h \<le> hp_brk h' \<and> (\<forall>b<hp_brk h. b \<notin> set ps \<longrightarrow> hp_node h' b = hp_node h b)"

lemma firstp_simps [simp]: "firstp [] q = q" "firstp (a # as) q = Some a"
  "firstp (as @ b # bs) q = firstp as (Some b)"
  by (cases as; simp add: firstp_def)+

lemma lastp_simps [simp]: "lastp [] p = p" "lastp (as @ [a]) p = Some a" "lastp (as @ b # bs) p = lastp (b # bs) None"
  "lastp (a # b # bs) p = lastp (b # bs) None" "lastp [a] p = Some a"
  by (simp_all add: lastp_def)

lemma dseg_length: "dseg m p as vs q \<Longrightarrow> length vs = length as"
  by (induction m p as vs q rule: dseg.induct) auto

lemma dseg_dom: "dseg m p as vs q \<Longrightarrow> a \<in> set as \<Longrightarrow> \<exists>n. m a = Some n"
  by (induction m p as vs q rule: dseg.induct) auto

lemma dseg_frame: "\<forall>a\<in>set as. m' a = m a \<Longrightarrow> dseg m' p as vs q = dseg m p as vs q"
  by (induction m p as vs q rule: dseg.induct) auto

lemma dseg_upd_other [simp]: "a \<notin> set as \<Longrightarrow> dseg (m(a := n)) p as vs q = dseg m p as vs q"
  by (rule dseg_frame) auto

lemma dseg_append:
  "length as = length vs \<Longrightarrow> dseg m p (as @ bs) (vs @ ws) q \<longleftrightarrow>
     dseg m p as vs (firstp bs q) \<and> dseg m (lastp as p) bs ws q"
proof (induction as arbitrary: p vs)
  case (Cons a as)
  then obtain v us where v: "vs = v # us" by (cases vs) auto
  have f: "firstp (as @ bs) q = firstp as (firstp bs q)" by (cases as) simp_all
  have l: "lastp (a # as) p = lastp as (Some a)" by (simp add: lastp_def)
  show ?case using Cons v f l by auto
qed simp

lemma dseg_snoc:
  "dseg m p (as @ [a]) vs q \<longleftrightarrow> (\<exists>us v. vs = us @ [v] \<and> dseg m p as us (Some a) \<and>
     m a = Some \<lparr>n_prev = lastp as p, n_next = q, n_val = v\<rparr>)"
proof
  assume d: "dseg m p (as @ [a]) vs q"
  then obtain us v where v: "vs = us @ [v]" using dseg_length [OF d] by (metis append_butlast_last_id length_0_conv snoc_eq_iff_butlast)
  then have "length as = length us" using dseg_length [OF d] by simp
  then show "\<exists>us v. vs = us @ [v] \<and> dseg m p as us (Some a) \<and>
     m a = Some \<lparr>n_prev = lastp as p, n_next = q, n_val = v\<rparr>" using d v by (auto simp: dseg_append)
next
  assume "\<exists>us v. vs = us @ [v] \<and> dseg m p as us (Some a) \<and>
     m a = Some \<lparr>n_prev = lastp as p, n_next = q, n_val = v\<rparr>"
  then obtain us v where v: "vs = us @ [v]" "dseg m p as us (Some a)"
    "m a = Some \<lparr>n_prev = lastp as p, n_next = q, n_val = v\<rparr>" by blast
  then show "dseg m p (as @ [a]) vs q" using dseg_length [OF v(2)] by (simp add: dseg_append)
qed

lemma dseg_split:
  assumes "dseg m p ps vs q" "i < length ps"
  shows "dseg m p (take i ps) (take i vs) (Some (ps ! i))"
    "m (ps ! i) = Some \<lparr>n_prev = lastp (take i ps) p, n_next = firstp (drop (Suc i) ps) q, n_val = vs ! i\<rparr>"
    "dseg m (Some (ps ! i)) (drop (Suc i) ps) (drop (Suc i) vs) q"
proof -
  have l: "length vs = length ps" using assms(1) by (rule dseg_length)
  have "dseg m p (take i ps @ ps ! i # drop (Suc i) ps) (take i vs @ vs ! i # drop (Suc i) vs) q"
    using assms l by (simp add: id_take_nth_drop [symmetric])
  then have "dseg m p (take i ps) (take i vs) (Some (ps ! i))
      \<and> dseg m (lastp (take i ps) p) (ps ! i # drop (Suc i) ps) (vs ! i # drop (Suc i) vs) q"
    using l by (subst (asm) dseg_append) simp_all
  then show "dseg m p (take i ps) (take i vs) (Some (ps ! i))"
    "m (ps ! i) = Some \<lparr>n_prev = lastp (take i ps) p, n_next = firstp (drop (Suc i) ps) q, n_val = vs ! i\<rparr>"
    "dseg m (Some (ps ! i)) (drop (Suc i) ps) (drop (Suc i) vs) q" by simp_all
qed

lemma dlist_bound: "dlist h l ps vs \<Longrightarrow> a \<in> set ps \<Longrightarrow> a < hp_brk h"
  using dseg_dom by (fastforce simp: dlist_def heap_ok_def not_less [symmetric])

lemma dlist_other:
  "dlist h l ps vs \<Longrightarrow> frame qs h h' \<Longrightarrow> heap_ok h' \<Longrightarrow> set ps \<inter> set qs = {} \<Longrightarrow> dlist h' l ps vs"
proof -
  assume a: "dlist h l ps vs" "frame qs h h'" "heap_ok h'" "set ps \<inter> set qs = {}"
  have "\<forall>b\<in>set ps. hp_node h' b = hp_node h b" using a dlist_bound [OF a(1)] by (auto simp: frame_def)
  then have "dseg (hp_node h') None ps vs None = dseg (hp_node h) None ps vs None" by (rule dseg_frame)
  then show ?thesis using a by (auto simp: dlist_def)
qed

lemma listCreate_dlist: "heap_ok h \<Longrightarrow> dlist h listCreate [] []"
  by (simp add: dlist_def listCreate_def)

section \<open>Adding nodes\<close>

text \<open>Redirecting the one link at either end of a segment.\<close>

lemma dseg_set_prev:
  "dseg m p (b # bs) ws q \<Longrightarrow> b \<notin> set bs \<Longrightarrow>
     \<exists>n. m b = Some n \<and> dseg (m(b \<mapsto> n\<lparr>n_prev := p'\<rparr>)) p' (b # bs) ws q"
  by (cases ws) auto

lemma dseg_set_next:
  "dseg m p (as @ [a]) vs q \<Longrightarrow> a \<notin> set as \<Longrightarrow>
     \<exists>n. m a = Some n \<and> dseg (m(a \<mapsto> n\<lparr>n_next := q'\<rparr>)) p (as @ [a]) vs q'"
  by (auto simp: dseg_snoc)

lemmas heap_defs = zmalloc_node_def zfree_node_def set_prev_def set_next_def deref_def heap_ok_def frame_def

lemma listAddNodeHead_dlist:
  assumes "dlist h l ps vs" "length vs < 2 ^ 64 - 1"
  shows "\<exists>h' l'. listAddNodeHead h l v = Some (h', l') \<and> dlist h' l' (hp_brk h # ps) (v # vs) \<and> frame ps h h' \<and>
    l' = l\<lparr>l_head := l_head l', l_tail := l_tail l', l_len := l_len l'\<rparr>"
proof (cases ps)
  case Nil
  then have "vs = []" using assms(1) by (auto simp: dlist_def dest: dseg_length)
  then show ?thesis using assms Nil by (auto simp: dlist_def listAddNodeHead_def heap_defs)
next
  case (Cons b bs)
  let ?m = "(hp_node h)(hp_brk h \<mapsto> \<lparr>n_prev = None, n_next = Some b, n_val = v\<rparr>)"
  have fresh: "hp_brk h \<notin> set ps" using dlist_bound [OF assms(1)] by blast
  have d: "dseg (hp_node h) None (b # bs) vs None" "b \<notin> set bs" using assms(1) Cons by (auto simp: dlist_def)
  then have "dseg ?m None (b # bs) vs None" using fresh Cons by (simp del: dseg.simps)
  then obtain n where n: "?m b = Some n" "dseg (?m(b \<mapsto> n\<lparr>n_prev := Some (hp_brk h)\<rparr>)) (Some (hp_brk h)) (b # bs) vs None"
    using dseg_set_prev d(2) by blast
  have ln: "length vs \<noteq> 0" "l_len l = length vs" "u64 (length vs + 1) = length vs + 1"
    using dseg_length [OF d(1)] assms by (auto simp: dlist_def)
  have ne: "b \<noteq> hp_brk h" using fresh Cons by auto
  let ?h' = "h\<lparr>hp_brk := Suc (hp_brk h), hp_node := ?m(b \<mapsto> n\<lparr>n_prev := Some (hp_brk h)\<rparr>)\<rparr>"
  have hd: "l_head l = Some b" "l_tail l = lastp ps None" using assms(1) Cons by (auto simp: dlist_def)
  have "listAddNodeHead h l v = Some (?h', l\<lparr>l_head := Some (hp_brk h), l_len := length vs + 1\<rparr>)"
    using ln n(1) hd by (simp add: listAddNodeHead_def zmalloc_node_def set_prev_def)
  moreover have "heap_ok ?h'" using assms(1) ne dlist_bound [OF assms(1), of b] Cons
    by (auto simp: dlist_def heap_ok_def)
  moreover have "dseg (hp_node ?h') None (hp_brk h # ps) (v # vs) None" using n(2) Cons ne by simp
  ultimately show ?thesis using assms(1) fresh hd Cons
    by (auto simp: dlist_def frame_def lastp_def)
qed

lemma listAddNodeTail_dlist:
  assumes "dlist h l ps vs" "length vs < 2 ^ 64 - 1"
  shows "\<exists>h' l'. listAddNodeTail h l v = Some (h', l') \<and> dlist h' l' (ps @ [hp_brk h]) (vs @ [v]) \<and> frame ps h h' \<and>
    l' = l\<lparr>l_head := l_head l', l_tail := l_tail l', l_len := l_len l'\<rparr>"
proof (cases ps rule: rev_cases)
  case Nil
  then have "vs = []" using assms(1) by (auto simp: dlist_def dest: dseg_length)
  then show ?thesis using assms Nil by (auto simp: dlist_def listAddNodeTail_def heap_defs)
next
  case (snoc bs b)
  let ?m = "(hp_node h)(hp_brk h \<mapsto> \<lparr>n_prev = Some b, n_next = None, n_val = v\<rparr>)"
  have fresh: "hp_brk h \<notin> set ps" using dlist_bound [OF assms(1)] by blast
  have d: "dseg (hp_node h) None (bs @ [b]) vs None" "b \<notin> set bs" using assms(1) snoc by (auto simp: dlist_def)
  then have "dseg ?m None (bs @ [b]) vs None" using fresh snoc by simp
  then obtain n where n: "?m b = Some n" "dseg (?m(b \<mapsto> n\<lparr>n_next := Some (hp_brk h)\<rparr>)) None (bs @ [b]) vs (Some (hp_brk h))"
    using dseg_set_next d(2) by blast
  have ln: "length vs \<noteq> 0" "l_len l = length vs" "u64 (length vs + 1) = length vs + 1"
    using dseg_length [OF d(1)] assms by (auto simp: dlist_def)
  have ne: "b \<noteq> hp_brk h" using fresh snoc by auto
  let ?h' = "h\<lparr>hp_brk := Suc (hp_brk h), hp_node := ?m(b \<mapsto> n\<lparr>n_next := Some (hp_brk h)\<rparr>)\<rparr>"
  have hd: "l_tail l = Some b" "l_head l = firstp ps None" using assms(1) snoc by (auto simp: dlist_def)
  have "listAddNodeTail h l v = Some (?h', l\<lparr>l_tail := Some (hp_brk h), l_len := length vs + 1\<rparr>)"
    using ln n(1) hd by (simp add: listAddNodeTail_def zmalloc_node_def set_next_def)
  moreover have "heap_ok ?h'" using assms(1) ne dlist_bound [OF assms(1), of b] snoc
    by (auto simp: dlist_def heap_ok_def)
  moreover have "dseg (hp_node ?h') None (ps @ [hp_brk h]) (vs @ [v]) None"
    using dseg_append [of "bs @ [b]" vs "hp_node ?h'" None "[hp_brk h]" "[v]" None]
      dseg_length [OF d(1)] n(2) snoc ne by simp
  ultimately show ?thesis using assms(1) fresh hd snoc
    by (auto simp: dlist_def frame_def)
qed

section \<open>Inserting and deleting at a node\<close>

lemma distinct_nth_parts:
  assumes "distinct ps" "i < length ps"
  shows "ps ! i \<notin> set (take i ps)" "ps ! i \<notin> set (drop (Suc i) ps)"
    "set (take i ps) \<inter> set (drop (Suc i) ps) = {}"
proof -
  have "distinct (take i ps @ ps ! i # drop (Suc i) ps)" using assms by (simp add: id_take_nth_drop [symmetric])
  then show "ps ! i \<notin> set (take i ps)" "ps ! i \<notin> set (drop (Suc i) ps)"
    "set (take i ps) \<inter> set (drop (Suc i) ps) = {}" by auto
qed

text \<open>
  Linking a fresh node \<open>a\<close> between two segments: the conditional writes of \<open>listInsertNode\<close>
  to the neighbours.
\<close>

lemma link_between:
  assumes xs: "dseg (hp_node h) None xs us q" and ys: "dseg (hp_node h) p ys ws None"
    and a: "hp_node h a = Some \<lparr>n_prev = lastp xs None, n_next = firstp ys None, n_val = v\<rparr>"
    and dist: "distinct (xs @ a # ys)"
  shows "\<exists>m. (if lastp xs None \<noteq> None then set_next h (lastp xs None) (Some a) else Some h) \<bind>
      (\<lambda>h. if firstp ys None \<noteq> None then set_prev h (firstp ys None) (Some a) else Some h) = Some (h\<lparr>hp_node := m\<rparr>) \<and>
    dseg m None (xs @ a # ys) (us @ v # ws) None \<and> (\<forall>b. b \<notin> set xs \<and> b \<notin> set ys \<longrightarrow> m b = hp_node h b)"
proof -
  have "\<exists>m1. (if lastp xs None \<noteq> None then set_next h (lastp xs None) (Some a) else Some h) = Some (h\<lparr>hp_node := m1\<rparr>) \<and>
      dseg m1 None xs us (Some a) \<and> (\<forall>b. b \<notin> set xs \<longrightarrow> m1 b = hp_node h b)"
  proof (cases xs rule: rev_cases)
    case Nil
    then show ?thesis using xs by (intro exI [of _ "hp_node h"]) (cases us; simp)
  next
    case (snoc zs z)
    then obtain n where "hp_node h z = Some n" "dseg ((hp_node h)(z \<mapsto> n\<lparr>n_next := Some a\<rparr>)) None (zs @ [z]) us (Some a)"
      using dseg_set_next [of "hp_node h" None zs z us q "Some a"] xs dist by auto
    then show ?thesis using snoc by (auto simp: set_next_def)
  qed
  then obtain m1 where m1: "(if lastp xs None \<noteq> None then set_next h (lastp xs None) (Some a) else Some h) = Some (h\<lparr>hp_node := m1\<rparr>)"
    "dseg m1 None xs us (Some a)" "\<And>b. b \<notin> set xs \<Longrightarrow> m1 b = hp_node h b" by blast
  have ys1: "dseg m1 p ys ws None" using ys dist m1(3) by (subst dseg_frame [of ys m1 "hp_node h"]) auto
  have "\<exists>m. (if firstp ys None \<noteq> None then set_prev (h\<lparr>hp_node := m1\<rparr>) (firstp ys None) (Some a) else Some (h\<lparr>hp_node := m1\<rparr>))
      = Some (h\<lparr>hp_node := m\<rparr>) \<and> dseg m (Some a) ys ws None \<and> (\<forall>b. b \<notin> set ys \<longrightarrow> m b = m1 b)"
  proof (cases ys)
    case Nil
    then show ?thesis using ys1 by (intro exI [of _ m1]) (cases ws; simp)
  next
    case (Cons z zs)
    then obtain n where "m1 z = Some n" "dseg (m1(z \<mapsto> n\<lparr>n_prev := Some a\<rparr>)) (Some a) (z # zs) ws None"
      using dseg_set_prev [of m1 p z zs ws None "Some a"] ys1 dist by auto
    then show ?thesis using Cons by (auto simp: set_prev_def)
  qed
  then obtain m where m: "(if firstp ys None \<noteq> None then set_prev (h\<lparr>hp_node := m1\<rparr>) (firstp ys None) (Some a) else Some (h\<lparr>hp_node := m1\<rparr>))
      = Some (h\<lparr>hp_node := m\<rparr>)" "dseg m (Some a) ys ws None" "\<And>b. b \<notin> set ys \<Longrightarrow> m b = m1 b" by blast
  have "dseg m None xs us (Some a)" using m1(2) m(3) dist by (subst dseg_frame [of xs m m1]) auto
  moreover have "m a = Some \<lparr>n_prev = lastp xs None, n_next = firstp ys None, n_val = v\<rparr>"
    using a m(3) m1(3) dist by auto
  ultimately have "dseg m None (xs @ a # ys) (us @ v # ws) None"
    using m(2) dseg_length [OF xs] by (simp add: dseg_append)
  then show ?thesis using m1(1,3) m(1,3) by auto
qed

lemma insert_ends:
  assumes "i < length ps" "distinct ps" "k = (if after then Suc i else i)"
  shows "firstp (take k ps @ a # drop k ps) None =
      (if \<not> after \<and> firstp ps None = Some (ps ! i) then Some a else firstp ps None)"
    "lastp (take k ps @ a # drop k ps) None =
      (if after \<and> lastp ps None = Some (ps ! i) then Some a else lastp ps None)"
proof -
  have i0: "firstp ps None = Some (ps ! i) \<longleftrightarrow> i = 0"
    using assms(1,2) by (cases ps) (auto simp: nth_Cons' split: if_splits)
  have "lastp ps None = Some (ps ! (length ps - 1))" using assms(1) by (cases ps) (auto simp: lastp_def last_conv_nth)
  then have il: "lastp ps None = Some (ps ! i) \<longleftrightarrow> Suc i = length ps"
    using assms(1,2) by (auto simp: nth_eq_iff_index_eq)
  show "firstp (take k ps @ a # drop k ps) None =
      (if \<not> after \<and> firstp ps None = Some (ps ! i) then Some a else firstp ps None)"
    using i0 assms(1,3) by (cases ps; cases i) auto
  show "lastp (take k ps @ a # drop k ps) None =
      (if after \<and> lastp ps None = Some (ps ! i) then Some a else lastp ps None)"
    using il assms(1,3) by (auto simp: lastp_def last_drop)
qed

lemma listInsertNode_dlist:
  assumes d: "dlist h l ps vs" and i: "i < length ps" and n: "length vs < 2 ^ 64 - 1"
    and k: "k = (if after then Suc i else i)"
  shows "\<exists>h' l'. listInsertNode h l (ps ! i) v after = Some (h', l') \<and>
     dlist h' l' (take k ps @ hp_brk h # drop k ps) (take k vs @ v # drop k vs) \<and> frame ps h h'"
proof -
  have len: "length vs = length ps" and dist: "distinct ps" and ok: "heap_ok h"
    using d dseg_length by (auto simp: dlist_def)
  have kl: "k \<le> length ps" using i k by auto
  have fresh: "hp_brk h \<notin> set ps" using dlist_bound [OF d] by blast
  have seg: "dseg (hp_node h) None (take k ps @ drop k ps) (take k vs @ drop k vs) None" using d by (simp add: dlist_def)
  then have xs: "dseg (hp_node h) None (take k ps) (take k vs) (firstp (drop k ps) None)"
    and ys: "dseg (hp_node h) (lastp (take k ps) None) (drop k ps) (drop k vs) None"
    using len by (subst (asm) dseg_append; simp)+
  obtain nd where nd: "hp_node h (ps ! i) = Some nd" "n_prev nd = lastp (take i ps) None"
      "n_next nd = firstp (drop (Suc i) ps) None"
    using dseg_split(2) [OF _ i, of "hp_node h" None vs None] d by (simp add: dlist_def)
  let ?new = "\<lparr>n_prev = lastp (take k ps) None, n_next = firstp (drop k ps) None, n_val = v\<rparr>"
  have new: "(if after then \<lparr>n_prev = Some (ps ! i), n_next = n_next nd, n_val = v\<rparr>
      else \<lparr>n_prev = n_prev nd, n_next = Some (ps ! i), n_val = v\<rparr>) = ?new"
    using nd take_Suc_conv_app_nth [OF i] Cons_nth_drop_Suc [OF i, symmetric] k by simp
  let ?h1 = "h\<lparr>hp_brk := Suc (hp_brk h), hp_node := (hp_node h)(hp_brk h \<mapsto> ?new)\<rparr>"
  have fr: "hp_brk h \<notin> set (take k ps)" "hp_brk h \<notin> set (drop k ps)"
    using fresh by (auto dest: in_set_takeD in_set_dropD)
  have dist': "distinct (take k ps @ hp_brk h # drop k ps)"
    using dist fr set_take_disj_set_drop_if_distinct [OF dist, of k k] by auto
  let ?link = "(if lastp (take k ps) None \<noteq> None then set_next ?h1 (lastp (take k ps) None) (Some (hp_brk h)) else Some ?h1) \<bind>
      (\<lambda>h'. if firstp (drop k ps) None \<noteq> None then set_prev h' (firstp (drop k ps) None) (Some (hp_brk h)) else Some h')"
  have x1: "dseg (hp_node ?h1) None (take k ps) (take k vs) (firstp (drop k ps) None)" using xs fr(1) by simp
  have y1: "dseg (hp_node ?h1) (lastp (take k ps) None) (drop k ps) (drop k vs) None" using ys fr(2) by simp
  have a1: "hp_node ?h1 (hp_brk h) = Some ?new" by simp
  obtain m where m: "?link = Some (?h1\<lparr>hp_node := m\<rparr>)"
    "dseg m None (take k ps @ hp_brk h # drop k ps) (take k vs @ v # drop k vs) None"
    "\<forall>b. b \<notin> set (take k ps) \<and> b \<notin> set (drop k ps) \<longrightarrow> m b = hp_node ?h1 b"
    using link_between [OF x1 y1 a1 dist'] by blast
  define l1 where "l1 = (if after then (if l_tail l = Some (ps ! i) then l\<lparr>l_tail := Some (hp_brk h)\<rparr> else l)
        else (if l_head l = Some (ps ! i) then l\<lparr>l_head := Some (hp_brk h)\<rparr> else l))"
  have ll: "l_len l1 = length vs" using d by (simp add: l1_def dlist_def)
  have run: "listInsertNode h l (ps ! i) v after = Some (?h1\<lparr>hp_node := m\<rparr>, l1\<lparr>l_len := length vs + 1\<rparr>)"
  proof -
    have "listInsertNode h l (ps ! i) v after = ?link \<bind> (\<lambda>h'. Some (h', l1\<lparr>l_len := u64 (l_len l1 + 1)\<rparr>))"
      unfolding listInsertNode_def nd(1) Option.bind.simps Let_def zmalloc_node_def new l1_def prod.case
        bind_assoc listNode.simps ..
    then show ?thesis unfolding m(1) using n ll by simp
  qed
  have ends: "l_head l1 = firstp (take k ps @ hp_brk h # drop k ps) None"
    "l_tail l1 = lastp (take k ps @ hp_brk h # drop k ps) None"
    using insert_ends [OF i dist k] d by (auto simp: l1_def dlist_def)
  have in_ps: "b \<in> set ps \<longleftrightarrow> b \<in> set (take k ps) \<or> b \<in> set (drop k ps)" for b
    by (metis Un_iff append_take_drop_id set_append)
  have other: "m b = (if b = hp_brk h then Some ?new else hp_node h b)" if "b \<notin> set ps" for b
    using m(3) that in_ps [of b] by simp
  have "heap_ok (?h1\<lparr>hp_node := m\<rparr>)"
    unfolding heap_ok_def
  proof (intro allI impI)
    fix b assume "hp_brk (?h1\<lparr>hp_node := m\<rparr>) \<le> b"
    moreover from this have "b \<notin> set ps" using dlist_bound [OF d, of b] by auto
    ultimately show "hp_node (?h1\<lparr>hp_node := m\<rparr>) b = None" using other ok by (simp add: heap_ok_def)
  qed
  moreover have "frame ps h (?h1\<lparr>hp_node := m\<rparr>)" using other by (simp add: frame_def)
  ultimately show ?thesis using run m(2) ll ends dist' len kl by (auto simp: dlist_def)
qed

text \<open>Unlinking a node between two segments: the writes of \<open>listDelNode\<close> to the neighbours.\<close>

lemma unlink_left:
  assumes "dseg (hp_node h) None xs us q0" "distinct xs"
  shows "\<exists>m. (if lastp xs None \<noteq> None then do { h \<leftarrow> set_next h (lastp xs None) q; Some (h, l) }
       else Some (h, l\<lparr>l_head := q\<rparr>)) =
       Some (h\<lparr>hp_node := m\<rparr>, if xs = [] then l\<lparr>l_head := q\<rparr> else l) \<and>
     dseg m None xs us q \<and> (\<forall>b. b \<notin> set xs \<longrightarrow> m b = hp_node h b)"
proof (cases xs rule: rev_cases)
  case Nil
  then show ?thesis using assms by (intro exI [of _ "hp_node h"]) (cases us; simp)
next
  case (snoc zs z)
  then obtain n where "hp_node h z = Some n" "dseg ((hp_node h)(z \<mapsto> n\<lparr>n_next := q\<rparr>)) None (zs @ [z]) us q"
    using dseg_set_next [of "hp_node h" None zs z us q0 q] assms by auto
  then show ?thesis using snoc by (auto simp: set_next_def)
qed

lemma unlink_right:
  assumes "dseg (hp_node h) p0 ys ws None" "distinct ys"
  shows "\<exists>m. (if firstp ys None \<noteq> None then do { h \<leftarrow> set_prev h (firstp ys None) p; Some (h, l) }
       else Some (h, l\<lparr>l_tail := p\<rparr>)) =
       Some (h\<lparr>hp_node := m\<rparr>, if ys = [] then l\<lparr>l_tail := p\<rparr> else l) \<and>
     dseg m p ys ws None \<and> (\<forall>b. b \<notin> set ys \<longrightarrow> m b = hp_node h b)"
proof (cases ys)
  case Nil
  then show ?thesis using assms by (intro exI [of _ "hp_node h"]) (cases ws; simp)
next
  case (Cons z zs)
  then obtain n where "hp_node h z = Some n" "dseg ((hp_node h)(z \<mapsto> n\<lparr>n_prev := p\<rparr>)) p (z # zs) ws None"
    using dseg_set_prev [of "hp_node h" p0 z zs ws None p] assms by auto
  then show ?thesis using Cons by (auto simp: set_prev_def)
qed

lemma u64_pred: "0 < n \<Longrightarrow> n < 2 ^ 64 \<Longrightarrow> u64 (n + (2 ^ 64 - 1)) = n - 1"
proof -
  assume a: "0 < n" "n < 2 ^ 64"
  then have "n + (2 ^ 64 - 1) = (n - 1) + 2 ^ 64" by simp
  then show ?thesis using a unfolding u64_def by (metis less_imp_diff_less mod_add_self2 mod_less)
qed

lemma delete_ends:
  assumes "i < length ps"
  shows "firstp (take i ps @ drop (Suc i) ps) None =
      (if take i ps = [] then firstp (drop (Suc i) ps) None else firstp ps None)"
    "lastp (take i ps @ drop (Suc i) ps) None =
      (if drop (Suc i) ps = [] then lastp (take i ps) None else lastp ps None)"
  using assms by (cases ps; cases i; simp) (auto simp: lastp_def last_drop)

lemma listDelNode_dlist:
  assumes d: "dlist h l ps vs" and i: "i < length ps" and n: "length vs < 2 ^ 64"
  shows "\<exists>h' l'. listDelNode h l (ps ! i) = Some (h', l', if l_free l then [vs ! i] else []) \<and>
     dlist h' l' (take i ps @ drop (Suc i) ps) (take i vs @ drop (Suc i) vs) \<and> frame ps h h'
     \<and> l_free l' = l_free l"
proof -
  let ?a = "ps ! i" and ?xs = "take i ps" and ?ys = "drop (Suc i) ps"
  have seg: "dseg (hp_node h) None ps vs None" and dist: "distinct ps" and ok: "heap_ok h"
    using d by (auto simp: dlist_def)
  have len: "length vs = length ps" using dseg_length [OF seg] .
  note sp = dseg_split [OF seg i] and dp = distinct_nth_parts [OF dist i]
  obtain m1 where m1: "(if lastp ?xs None \<noteq> None then do { h \<leftarrow> set_next h (lastp ?xs None) (firstp ?ys None); Some (h, l) }
       else Some (h, l\<lparr>l_head := firstp ?ys None\<rparr>)) =
       Some (h\<lparr>hp_node := m1\<rparr>, if ?xs = [] then l\<lparr>l_head := firstp ?ys None\<rparr> else l)"
     "dseg m1 None ?xs (take i vs) (firstp ?ys None)" "\<forall>b. b \<notin> set ?xs \<longrightarrow> m1 b = hp_node h b"
    using unlink_left [OF sp(1)] dist by (metis distinct_take)
  let ?l1 = "if ?xs = [] then l\<lparr>l_head := firstp ?ys None\<rparr> else l"
  have "dseg m1 (Some ?a) ?ys (drop (Suc i) vs) None" using sp(3) m1(3) dp by (subst dseg_frame [of ?ys m1 "hp_node h"]) auto
  then obtain m2 where m2: "(if firstp ?ys None \<noteq> None then do { h \<leftarrow> set_prev (h\<lparr>hp_node := m1\<rparr>) (firstp ?ys None) (lastp ?xs None); Some (h, ?l1) }
       else Some (h\<lparr>hp_node := m1\<rparr>, ?l1\<lparr>l_tail := lastp ?xs None\<rparr>)) =
       Some (h\<lparr>hp_node := m2\<rparr>, if ?ys = [] then ?l1\<lparr>l_tail := lastp ?xs None\<rparr> else ?l1)"
     "dseg m2 (lastp ?xs None) ?ys (drop (Suc i) vs) None" "\<forall>b. b \<notin> set ?ys \<longrightarrow> m2 b = m1 b"
    using unlink_right [of "h\<lparr>hp_node := m1\<rparr>" "Some ?a" ?ys "drop (Suc i) vs" "lastp ?xs None" ?l1] dist
    by (auto simp del: not_None_eq)
  let ?l2 = "if ?ys = [] then ?l1\<lparr>l_tail := lastp ?xs None\<rparr> else ?l1"
  have ma: "m2 ?a = hp_node h ?a" using m1(3) m2(3) dp by simp
  let ?h' = "h\<lparr>hp_node := m2(?a := None)\<rparr>" and ?l' = "?l2\<lparr>l_len := length vs - 1\<rparr>"
  have ll: "l_len ?l2 = length vs" "l_free ?l2 = l_free l" using d by (auto simp: dlist_def)
  have pred: "u64 (length vs + (2 ^ 64 - 1)) = length vs - 1" using len i n by (intro u64_pred) auto
  have run: "listDelNode h l ?a = Some (?h', ?l', if l_free l then [vs ! i] else [])"
    unfolding listDelNode_def sp(2) Option.bind.simps listNode.simps m1(1) m2(1) prod.case
    using ma sp(2) ll pred by (simp add: zfree_node_def del: One_nat_def)
  have sx: "dseg m2 None ?xs (take i vs) (firstp ?ys None)" using m1(2) m2(3) dp by (subst dseg_frame [of ?xs m2 m1]) auto
  have li: "length ?xs = length (take i vs)" using len by simp
  have "dseg m2 None (?xs @ ?ys) (take i vs @ drop (Suc i) vs) None"
    unfolding dseg_append [OF li] using sx m2(2) by blast
  then have seg': "dseg (hp_node ?h') None (?xs @ ?ys) (take i vs @ drop (Suc i) vs) None" using dp by simp
  have other: "m2 b = hp_node h b" if "b \<notin> set ps" for b
    using that m1(3) m2(3) by (metis in_set_dropD in_set_takeD)
  have "heap_ok ?h'"
    unfolding heap_ok_def
  proof (intro allI impI)
    fix b assume b: "hp_brk ?h' \<le> b"
    then have "b \<notin> set ps" using dlist_bound [OF d, of b] by auto
    then show "hp_node ?h' b = None" using b other ok by (simp add: heap_ok_def)
  qed
  moreover have "frame ps h ?h'" using other i by (auto simp: frame_def)
  moreover have "distinct (?xs @ ?ys)" using dist dp by simp
  moreover have "l_head ?l' = firstp (?xs @ ?ys) None" "l_tail ?l' = lastp (?xs @ ?ys) None"
    unfolding delete_ends [OF i] using d by (simp_all add: dlist_def)
  moreover have "l_len ?l' = length (take i vs @ drop (Suc i) vs)" using i len by simp
  ultimately have "dlist ?h' ?l' (?xs @ ?ys) (take i vs @ drop (Suc i) vs)" using seg' unfolding dlist_def by blast
  moreover have "l_free ?l' = l_free l" by simp
  ultimately show ?thesis using run \<open>frame ps h ?h'\<close> by blast
qed

section \<open>Traversal, search, copy and release\<close>

lemma listIndex_next_dseg:
  "dseg (hp_node h) p ps vs None \<Longrightarrow>
     listIndex_next h i (firstp ps None) = Some (if i < length ps then Some (ps ! i) else None)"
proof (induction ps arbitrary: p vs i)
  case Nil
  then show ?case by (cases i) simp_all
next
  case (Cons a ps)
  then show ?case by (cases i; cases vs) auto
qed

lemma listIndex_prev_dseg:
  "dseg (hp_node h) None ps vs q \<Longrightarrow>
     listIndex_prev h i (lastp ps None) = Some (if i < length ps then Some (ps ! (length ps - 1 - i)) else None)"
proof (induction ps arbitrary: q vs i rule: rev_induct)
  case Nil
  then show ?case by (cases i) simp_all
next
  case (snoc a ps)
  then obtain us v where v: "dseg (hp_node h) None ps us (Some a)" "hp_node h a = Some \<lparr>n_prev = lastp ps None, n_next = q, n_val = v\<rparr>"
    by (auto simp: dseg_snoc)
  then show ?case using snoc.IH [OF v(1)] by (cases i) (auto simp: nth_append)
qed

lemma listIndex_dlist:
  assumes "dlist h l ps vs" "in_sint 64 index" "index \<noteq> - (2 ^ 63)"
  shows "listIndex h l index = Some (if index < 0 then (if - index \<le> int (length ps) then Some (ps ! nat (int (length ps) + index)) else None)
       else if index < int (length ps) then Some (ps ! nat index) else None)"
proof (cases "index < 0")
  case True
  have seg: "dseg (hp_node h) None ps vs None" using assms(1) by (simp add: dlist_def)
  have "length ps - 1 - nat (- index - 1) = nat (int (length ps) + index)" using True by linarith
  then show ?thesis using True assms(1,3) listIndex_prev_dseg [OF seg, of "nat (- index - 1)"]
    by (auto simp: listIndex_def dlist_def)
next
  case False
  have seg: "dseg (hp_node h) None ps vs None" using assms(1) by (simp add: dlist_def)
  then show ?thesis using False assms(1) listIndex_next_dseg [OF seg, of "nat index"]
    by (auto simp: listIndex_def dlist_def)
qed

text \<open>One step of a forward iterator that stands before the nodes \<open>qs\<close>.\<close>

abbreviation fwd :: "nat list \<Rightarrow> listIter" where
  "fwd qs \<equiv> \<lparr>it_next = firstp qs None, it_direction = AL_START_HEAD\<rparr>"

lemma listNext_fwd:
  "listNext h (fwd []) = Some (None, fwd [])"
  "hp_node h a = Some \<lparr>n_prev = p, n_next = firstp qs None, n_val = v\<rparr> \<Longrightarrow>
     listNext h (fwd (a # qs)) = Some (Some a, fwd qs)"
  by (simp_all add: listNext_def)

definition list_matches :: "'v adlist \<Rightarrow> 'v \<Rightarrow> 'v \<Rightarrow> bool" where
  "list_matches l key v = (case l_match l of Some m \<Rightarrow> m v key | None \<Rightarrow> key = v)"

lemma listSearchKey_dseg:
  "dseg (hp_node h) p qs ws None \<Longrightarrow>
     listSearchKey_loop h l key (fwd qs) = Some (map_option fst (find (\<lambda>(a, v). list_matches l key v) (zip qs ws)))"
proof (induction qs arbitrary: p ws)
  case Nil
  then show ?case by (subst listSearchKey_loop.simps) (simp add: listNext_fwd(1) [simplified])
next
  case (Cons a qs)
  then obtain v us where w: "ws = v # us" by (cases ws) auto
  have n: "hp_node h a = Some \<lparr>n_prev = p, n_next = firstp qs None, n_val = v\<rparr>" using Cons.prems w by simp
  have "listSearchKey_loop h l key (fwd (a # qs)) =
      (if list_matches l key v then Some (Some a) else listSearchKey_loop h l key (fwd qs))"
    by (subst listSearchKey_loop.simps) (cases "l_match l"; simp add: listNext_fwd(2) [OF n, simplified] n list_matches_def)
  then show ?case using Cons w by (auto simp del: firstp_simps)
qed

lemma listRelease_dseg:
  "dseg (hp_node h) p qs ws None \<Longrightarrow> distinct qs \<Longrightarrow>
     listRelease_loop h fr (length qs) (firstp qs None) =
       Some (h\<lparr>hp_node := hp_node h |` (- set qs)\<rparr>, if fr then ws else [])"
proof (induction qs arbitrary: h p ws)
  case Nil
  then show ?case by (cases ws) simp_all
next
  case (Cons a qs)
  then obtain v us where w: "ws = v # us" by (cases ws) auto
  let ?h1 = "h\<lparr>hp_node := (hp_node h)(a := None)\<rparr>"
  have "dseg (hp_node ?h1) (Some a) qs us None" using Cons.prems w by simp
  then have "listRelease_loop ?h1 fr (length qs) (firstp qs None) =
      Some (?h1\<lparr>hp_node := hp_node ?h1 |` (- set qs)\<rparr>, if fr then us else [])"
    by (rule Cons.IH) (use Cons.prems(2) in simp)
  moreover have "hp_node ?h1 |` (- set qs) = hp_node h |` (- set (a # qs))"
    by (auto simp: restrict_map_def)
  ultimately show ?case using Cons.prems w by (auto simp: zfree_node_def)
qed

text \<open>What copying a list of values gives: all copies, or failure at the first value that cannot be copied.\<close>

fun dup_all :: "('v \<Rightarrow> 'v option) option \<Rightarrow> 'v list \<Rightarrow> 'v list option" where
  "dup_all d [] = Some []"
| "dup_all d (v # vs) =
     do { v' \<leftarrow> (case d of Some f \<Rightarrow> f v | None \<Rightarrow> Some v); vs' \<leftarrow> dup_all d vs; Some (v' # vs') }"

lemma listDup_dseg:
  assumes "dseg (hp_node h) p qs ws None" "dlist h copy cs us" "set qs \<inter> set cs = {}"
    "length us + length ws < 2 ^ 64" "\<forall>a\<in>set qs. a < hp_brk h"
  shows "\<exists>h' cs' l'. listDup_loop h copy (fwd qs) = Some (h', l') \<and>
     (case dup_all (l_dup copy) ws of
        None \<Rightarrow> l' = None \<and> (\<forall>b<hp_brk h. b \<notin> set cs \<longrightarrow> hp_node h' b = hp_node h b) \<and> heap_ok h'
      | Some vs' \<Rightarrow> (\<exists>c. l' = Some c \<and> dlist h' c cs' (us @ vs') \<and> (\<forall>b<hp_brk h. b \<notin> set cs \<longrightarrow> hp_node h' b = hp_node h b)))"
  using assms
proof (induction qs arbitrary: h p ws copy cs us)
  case Nil
  then have "ws = []" by (auto dest: dseg_length)
  then show ?case using Nil
    by (subst listDup_loop.simps) (auto simp: listNext_fwd(1) [simplified])
next
  case (Cons a qs)
  then obtain v vs where w: "ws = v # vs" by (cases ws) auto
  have n: "hp_node h a = Some \<lparr>n_prev = p, n_next = firstp qs None, n_val = v\<rparr>" using Cons.prems(1) w by simp
  let ?dv = "case l_dup copy of Some d \<Rightarrow> d v | None \<Rightarrow> Some v"
  have step: "listDup_loop h copy (fwd (a # qs)) =
      (case ?dv of None \<Rightarrow> listRelease h copy \<bind> (\<lambda>(h, _). Some (h, None))
       | Some v' \<Rightarrow> listAddNodeTail h copy v' \<bind> (\<lambda>(h, copy). listDup_loop h copy (fwd qs)))"
    by (subst listDup_loop.simps) (cases "l_dup copy"; simp add: listNext_fwd(2) [OF n, simplified] n)
  show ?case
  proof (cases ?dv)
    case None
    have c: "l_head copy = firstp cs None" "l_len copy = length cs" "distinct cs" "dseg (hp_node h) None cs us None"
      using Cons.prems(2) by (auto simp: dlist_def dest: dseg_length)
    have "listRelease h copy = Some (h\<lparr>hp_node := hp_node h |` (- set cs)\<rparr>, if l_free copy then us else [])"
      unfolding listRelease_def c(1,2) using listRelease_dseg [OF c(4,3)] .
    moreover have "heap_ok (h\<lparr>hp_node := hp_node h |` (- set cs)\<rparr>)"
      using Cons.prems(2) by (auto simp: dlist_def heap_ok_def restrict_map_def)
    ultimately show ?thesis using None step w by auto
  next
    case (Some v')
    obtain h1 c1 where t: "listAddNodeTail h copy v' = Some (h1, c1)" "dlist h1 c1 (cs @ [hp_brk h]) (us @ [v'])"
        "frame cs h h1" "c1 = copy\<lparr>l_head := l_head c1, l_tail := l_tail c1, l_len := l_len c1\<rparr>"
      using listAddNodeTail_dlist [OF Cons.prems(2), of v'] Cons.prems(4) w by auto
    have dupc: "l_dup c1 = l_dup copy" by (subst t(4)) simp
    have agree: "hp_node h1 b = hp_node h b" if "b < hp_brk h" "b \<notin> set cs" for b using t(3) that by (simp add: frame_def)
    have "dseg (hp_node h1) (Some a) qs vs None"
      using Cons.prems(1,3,5) w agree by (subst dseg_frame [of qs "hp_node h1" "hp_node h"]) auto
    moreover have "hp_brk h \<le> hp_brk h1" using t(3) by (simp add: frame_def)
    ultimately obtain h' cs' l' where ih: "listDup_loop h1 c1 (fwd qs) = Some (h', l')"
      "case dup_all (l_dup c1) vs of
        None \<Rightarrow> l' = None \<and> (\<forall>b<hp_brk h1. b \<notin> set (cs @ [hp_brk h]) \<longrightarrow> hp_node h' b = hp_node h1 b) \<and> heap_ok h'
      | Some vs' \<Rightarrow> (\<exists>c. l' = Some c \<and> dlist h' c cs' ((us @ [v']) @ vs') \<and>
           (\<forall>b<hp_brk h1. b \<notin> set (cs @ [hp_brk h]) \<longrightarrow> hp_node h' b = hp_node h1 b))"
      using Cons.IH [of h1 "Some a" vs c1 "cs @ [hp_brk h]" "us @ [v']"] t(2) Cons.prems(3-5) w by fastforce
    then show ?thesis using step Some t(1) w dupc agree \<open>hp_brk h \<le> hp_brk h1\<close>
      by (auto split: option.splits intro!: exI [of _ cs'])
  qed
qed

lemma listRotate_dlist:
  assumes d: "dlist h l (xs @ [t]) (us @ [v])" and ne: "xs \<noteq> []"
  shows "\<exists>h' l'. listRotate h l = Some (h', l') \<and> dlist h' l' (t # xs) (v # us) \<and> frame (xs @ [t]) h h' \<and> l_len l' = l_len l"
proof -
  obtain zs y where y: "xs = zs @ [y]" using ne by (cases xs rule: rev_cases) auto
  obtain b bs where b: "xs = b # bs" using ne by (cases xs) auto
  have seg: "dseg (hp_node h) None xs us (Some t)" "hp_node h t = Some \<lparr>n_prev = Some y, n_next = None, n_val = v\<rparr>"
    and dist: "distinct xs" "t \<notin> set xs" and ll: "l_len l = Suc (length us)"
    and ends: "l_head l = Some b" "l_tail l = Some t"
  proof -
    have ds: "dseg (hp_node h) None (xs @ [t]) (us @ [v]) None" using d by (simp add: dlist_def)
    then show "dseg (hp_node h) None xs us (Some t)" by (simp add: dseg_snoc)
    from ds have "hp_node h t = Some \<lparr>n_prev = lastp xs None, n_next = None, n_val = v\<rparr>" by (simp add: dseg_snoc)
    then show "hp_node h t = Some \<lparr>n_prev = Some y, n_next = None, n_val = v\<rparr>" using y by simp
    show "l_head l = Some b" using d b by (simp add: dlist_def)
  qed (use d in \<open>auto simp: dlist_def\<close>)
  have lu: "length us = length xs" using dseg_length [OF seg(1)] .
  obtain n where n: "hp_node h y = Some n" "dseg ((hp_node h)(y \<mapsto> n\<lparr>n_next := None\<rparr>)) None xs us None"
    using dseg_set_next [of "hp_node h" None zs y us "Some t" None] seg(1) dist y by auto
  let ?m1 = "(hp_node h)(y \<mapsto> n\<lparr>n_next := None\<rparr>)"
  obtain k where k: "?m1 b = Some k" "dseg (?m1(b \<mapsto> k\<lparr>n_prev := Some t\<rparr>)) (Some t) xs us None"
    using dseg_set_prev [of ?m1 None b bs us None "Some t"] n(2) dist b by auto
  let ?m2 = "?m1(b \<mapsto> k\<lparr>n_prev := Some t\<rparr>)"
  have inx: "y \<in> set xs" "b \<in> set xs" unfolding y using y b by (simp, metis list.set_intros(1))
  have tn: "t \<noteq> y" "t \<noteq> b" using dist inx by auto
  have lt: "y < hp_brk h" "b < hp_brk h" "t < hp_brk h" using dlist_bound [OF d] inx by auto
  have mt: "?m2 t = Some \<lparr>n_prev = Some y, n_next = None, n_val = v\<rparr>" using seg(2) tn by simp
  let ?m3 = "?m2(t \<mapsto> \<lparr>n_prev = None, n_next = Some b, n_val = v\<rparr>)"
  have run: "listRotate h l = Some (h\<lparr>hp_node := ?m3\<rparr>, l\<lparr>l_tail := Some y, l_head := Some t\<rparr>)"
    using ends seg(2) n(1) k(1) mt tn lu b ll
    by (simp add: listRotate_def deref_def set_next_def set_prev_def Let_def)
  have "dseg ?m3 None (t # xs) (v # us) None" using k(2) dist(2) b by simp
  moreover have "heap_ok (h\<lparr>hp_node := ?m3\<rparr>)"
    using d lt by (auto simp: dlist_def heap_ok_def)
  ultimately have "dlist (h\<lparr>hp_node := ?m3\<rparr>) (l\<lparr>l_tail := Some y, l_head := Some t\<rparr>) (t # xs) (v # us)"
    using dist ll y by (auto simp: dlist_def lastp_def)
  moreover have "frame (xs @ [t]) h (h\<lparr>hp_node := ?m3\<rparr>)" using inx by (auto simp: frame_def)
  ultimately show ?thesis using run by auto
qed

section \<open>Sequences of operations\<close>

text \<open>
  The update operations as a client uses them: a node to insert next to, or to delete, is
  looked up with \<open>listIndex\<close>; nothing happens when there is no such node.
\<close>

datatype 'v lop = LHead 'v | LTail 'v | LInsert int 'v bool | LDel int | LRotate

fun lop_index_ok :: "'v lop \<Rightarrow> bool" where
  "lop_index_ok (LInsert i v a) \<longleftrightarrow> - (2 ^ 63) < i \<and> i < 2 ^ 63"
| "lop_index_ok (LDel i) \<longleftrightarrow> - (2 ^ 63) < i \<and> i < 2 ^ 63"
| "lop_index_ok _ \<longleftrightarrow> True"

fun run_lop :: "'v nheap \<times> 'v adlist \<Rightarrow> 'v lop \<Rightarrow> ('v nheap \<times> 'v adlist) option" where
  "run_lop (h, l) (LHead v) = listAddNodeHead h l v"
| "run_lop (h, l) (LTail v) = listAddNodeTail h l v"
| "run_lop (h, l) (LInsert i v after) =
     do { p \<leftarrow> listIndex h l i;
          case p of None \<Rightarrow> Some (h, l) | Some a \<Rightarrow> listInsertNode h l a v after }"
| "run_lop (h, l) (LDel i) =
     do { p \<leftarrow> listIndex h l i;
          case p of None \<Rightarrow> Some (h, l)
          | Some a \<Rightarrow> do { (h, l, _) \<leftarrow> listDelNode h l a; Some (h, l) } }"
| "run_lop (h, l) LRotate = listRotate h l"

definition norm_index :: "nat \<Rightarrow> int \<Rightarrow> nat option" where
  "norm_index n i =
     (let j = (if i < 0 then int n + i else i) in if 0 \<le> j \<and> j < int n then Some (nat j) else None)"

fun spec_lop :: "'v list \<Rightarrow> 'v lop \<Rightarrow> 'v list" where
  "spec_lop vs (LHead v) = v # vs"
| "spec_lop vs (LTail v) = vs @ [v]"
| "spec_lop vs (LInsert i v after) =
     (case norm_index (length vs) i of None \<Rightarrow> vs
      | Some j \<Rightarrow> let k = (if after then Suc j else j) in take k vs @ v # drop k vs)"
| "spec_lop vs (LDel i) =
     (case norm_index (length vs) i of None \<Rightarrow> vs | Some j \<Rightarrow> take j vs @ drop (Suc j) vs)"
| "spec_lop vs LRotate = (if vs = [] then [] else last vs # butlast vs)"

lemma listIndex_norm:
  assumes "dlist h l ps vs" "- (2 ^ 63) < i" "i < 2 ^ 63"
  shows "listIndex h l i = Some (map_option (\<lambda>j. ps ! j) (norm_index (length vs) i))"
proof -
  have "length vs = length ps" using assms(1) by (auto simp: dlist_def dest: dseg_length)
  then show ?thesis using listIndex_dlist [OF assms(1), of i] assms(2,3) by (auto simp: norm_index_def Let_def)
qed

lemma norm_index_less: "norm_index n i = Some j \<Longrightarrow> j < n"
  by (auto simp: norm_index_def Let_def split: if_splits)

lemma run_lop_refines:
  assumes d: "dlist h l ps vs" and "lop_index_ok oper" "length vs < 2 ^ 64 - 1"
  shows "\<exists>h' l' ps'. run_lop (h, l) oper = Some (h', l') \<and> dlist h' l' ps' (spec_lop vs oper)"
proof -
  have len: "length vs = length ps" using d by (auto simp: dlist_def dest: dseg_length)
  show ?thesis
  proof (cases oper)
    case (LHead v)
    then show ?thesis using listAddNodeHead_dlist [OF d, of v] assms(3) by auto
  next
    case (LTail v)
    then show ?thesis using listAddNodeTail_dlist [OF d, of v] assms(3) by auto
  next
    case (LInsert i v after)
    show ?thesis
    proof (cases "norm_index (length vs) i")
      case None
      then show ?thesis using LInsert listIndex_norm [OF d, of i] assms(2) d by auto
    next
      case (Some j)
      then have j: "j < length ps" using norm_index_less len by metis
      show ?thesis using LInsert Some listIndex_norm [OF d, of i] assms(2,3)
          listInsertNode_dlist [OF d j _ refl, of v after] by (auto simp: Let_def)
    qed
  next
    case (LDel i)
    show ?thesis
    proof (cases "norm_index (length vs) i")
      case None
      then show ?thesis using LDel listIndex_norm [OF d, of i] assms(2) d by auto
    next
      case (Some j)
      then have j: "j < length ps" using norm_index_less len by metis
      show ?thesis using LDel Some listIndex_norm [OF d, of i] assms(2,3)
          listDelNode_dlist [OF d j] by (auto simp: Let_def)
    qed
  next
    case LRotate
    show ?thesis
    proof (cases "length vs \<le> 1")
      case True
      then have "spec_lop vs oper = vs" using LRotate by (cases vs) auto
      then show ?thesis using True LRotate d by (auto simp: listRotate_def dlist_def)
    next
      case False
      then obtain us v xs t where u: "vs = us @ [v]" "ps = xs @ [t]" "xs \<noteq> []"
        using len by (cases vs rule: rev_cases; cases ps rule: rev_cases) auto
      then show ?thesis using LRotate listRotate_dlist [of h l xs t us v] d by auto
    qed
  qed
qed

lemma length_spec_lop: "length (spec_lop vs oper) \<le> Suc (length vs)"
  by (cases oper) (auto simp: Let_def split: option.splits)

lemma run_lops_refines:
  assumes "dlist h l ps vs" "\<forall>oper\<in>set ops. lop_index_ok oper" "length vs + length ops < 2 ^ 64"
  shows "\<exists>h' l' ps'. ofold run_lop (h, l) ops = Some (h', l') \<and> dlist h' l' ps' (foldl spec_lop vs ops)"
  using assms
proof (induction ops arbitrary: h l ps vs)
  case Nil
  then show ?case by auto
next
  case (Cons oper ops)
  obtain h1 l1 ps1 where s: "run_lop (h, l) oper = Some (h1, l1)" "dlist h1 l1 ps1 (spec_lop vs oper)"
    using run_lop_refines [OF Cons.prems(1), of oper] Cons.prems(2,3) by auto
  have "length (spec_lop vs oper) + length ops < 2 ^ 64" using length_spec_lop [of vs oper] Cons.prems(3) by simp
  then show ?case using Cons.IH [OF s(2)] Cons.prems(2) s(1) by auto
qed

section \<open>The interface of a list with a bounded length\<close>

text \<open>
  What a client that logs at the head and trims at the tail relies on.  \<open>trim\<close> is the
  loop \<open>while (listLength(l) > max) listDelNode(l, listLast(l))\<close>.
\<close>

partial_function (option) trim :: "('s \<Rightarrow> nat) \<Rightarrow> ('s \<Rightarrow> 's option) \<Rightarrow> nat \<Rightarrow> 's \<Rightarrow> 's option" where
  [code]: "trim len dellast mx s =
     (if len s > mx then dellast s \<bind> (\<lambda>s. trim len dellast mx s) else Some s)"

locale log_list =
  fixes push :: "'s \<Rightarrow> 'v \<Rightarrow> 's option"
    and dellast :: "'s \<Rightarrow> 's option"
    and len :: "'s \<Rightarrow> nat"
    and rep :: "'s \<Rightarrow> 'v list \<Rightarrow> bool"
    and cap :: nat
  assumes push_rep: "rep s vs \<Longrightarrow> length vs < cap \<Longrightarrow> \<exists>s'. push s v = Some s' \<and> rep s' (v # vs)"
    and dellast_rep: "rep s vs \<Longrightarrow> vs \<noteq> [] \<Longrightarrow> length vs \<le> cap \<Longrightarrow> \<exists>s'. dellast s = Some s' \<and> rep s' (butlast vs)"
    and len_rep: "rep s vs \<Longrightarrow> len s = length vs"
begin

lemma trim_rep: "rep s vs \<Longrightarrow> length vs \<le> cap \<Longrightarrow> \<exists>s'. trim len dellast mx s = Some s' \<and> rep s' (take mx vs)"
proof (induction "length vs" arbitrary: s vs)
  case 0
  then show ?case using len_rep [OF 0(2)] by (subst trim.simps) auto
next
  case (Suc n)
  show ?case
  proof (cases "len s > mx")
    case True
    have "vs \<noteq> []" using Suc.hyps(2) by auto
    then obtain s1 where s1: "dellast s = Some s1" "rep s1 (butlast vs)" using dellast_rep [OF Suc.prems(1)] Suc.prems(2) by blast
    have "n = length (butlast vs)" "length (butlast vs) \<le> cap" using Suc.hyps(2) Suc.prems(2) by auto
    from Suc.hyps(1) [OF this(1) s1(2) this(2)] obtain s' where
      "trim len dellast mx s1 = Some s'" "rep s' (take mx (butlast vs))" by blast
    moreover have "take mx (butlast vs) = take mx vs"
      using True len_rep [OF Suc.prems(1)] by (simp add: take_butlast)
    ultimately show ?thesis using True s1(1) by (subst trim.simps) simp
  next
    case False
    then show ?thesis using Suc.prems(1) len_rep [OF Suc.prems(1)] by (subst trim.simps) simp
  qed
qed

lemma push_trim_rep:
  assumes "rep s vs" "length vs < cap"
  shows "\<exists>s'. push s v \<bind> trim len dellast mx = Some s' \<and> rep s' (take mx (v # vs))"
proof -
  obtain s1 where "push s v = Some s1" "rep s1 (v # vs)" using push_rep [OF assms] by blast
  then show ?thesis using trim_rep [of s1 "v # vs" mx] assms(2) by auto
qed

end

definition adlist_dellast :: "'v nheap \<times> 'v adlist \<Rightarrow> ('v nheap \<times> 'v adlist) option" where
  "adlist_dellast s =
     (case s of (h, l) \<Rightarrow>
        do { a \<leftarrow> l_tail l; (h, l, _) \<leftarrow> listDelNode h l a; Some (h, l) })"

definition adlist_rep :: "'v nheap \<times> 'v adlist \<Rightarrow> 'v list \<Rightarrow> bool" where
  "adlist_rep s vs \<longleftrightarrow> (\<exists>ps. dlist (fst s) (snd s) ps vs)"

interpretation adl: log_list "\<lambda>s. listAddNodeHead (fst s) (snd s)" adlist_dellast "\<lambda>s. l_len (snd s)"
  adlist_rep "2 ^ 64 - 1"
proof unfold_locales
  fix s and vs :: "'a list" and v
  assume r: "adlist_rep s vs"
  then obtain ps where d: "dlist (fst s) (snd s) ps vs" by (auto simp: adlist_rep_def)
  have len: "length vs = length ps" using d by (auto simp: dlist_def dest: dseg_length)
  show "l_len (snd s) = length vs" using d by (simp add: dlist_def)
  { assume "length vs < 2 ^ 64 - 1"
    then show "\<exists>s'. listAddNodeHead (fst s) (snd s) v = Some s' \<and> adlist_rep s' (v # vs)"
      using listAddNodeHead_dlist [OF d, of v] by (auto simp: adlist_rep_def) }
  { assume ne: "vs \<noteq> []" and b: "length vs \<le> 2 ^ 64 - 1"
    let ?i = "length ps - 1"
    have i: "?i < length ps" using ne len by (cases ps) auto
    have tl: "l_tail (snd s) = Some (ps ! ?i)" using d i by (auto simp: dlist_def lastp_def last_conv_nth)
    have bl: "take ?i vs @ drop (Suc ?i) vs = butlast vs" using len i by (simp add: butlast_conv_take)
    have "length vs < 2 ^ 64" using b by simp
    from listDelNode_dlist [OF d i this] show "\<exists>s'. adlist_dellast s = Some s' \<and> adlist_rep s' (butlast vs)"
      unfolding bl using tl by (auto simp: adlist_dellast_def adlist_rep_def case_prod_beta) }
qed

section \<open>Properties\<close>

text \<open>
  C8. Any sequence of insertions at the head, at the tail and next to a node, of deletions
  and of rotations, started on an empty list, runs without a bad dereference and leaves
  the linked structure that holds exactly the values the same sequence gives on a HOL
  list: every \<open>prev\<close> and \<open>next\<close> pointer, both ends and the length agree.
\<close>

theorem adlist_refines_list:
  assumes "\<forall>oper\<in>set ops. lop_index_ok oper" "length ops < 2 ^ 64" "heap_ok h"
  shows "\<exists>h' l' ps. ofold run_lop (h, listCreate) ops = Some (h', l') \<and>
     dlist h' l' ps (foldl spec_lop [] ops)"
  using run_lops_refines [OF listCreate_dlist [OF assms(3)] assms(1)] assms(2) by simp

theorem adlist_refines_list_witness:
  "\<exists>h' l' ps. ofold run_lop (\<lparr>hp_brk = 0, hp_node = Map.empty\<rparr>, listCreate)
       [LTail (1::nat), LTail 2, LHead 0, LInsert (- 1) 9 False, LRotate, LDel 1] = Some (h', l') \<and>
     dlist h' l' ps [2, 1, 9]"
  using adlist_refines_list [of "[LTail (1::nat), LTail 2, LHead 0, LInsert (- 1) 9 False, LRotate, LDel 1]"
      "\<lparr>hp_brk = 0, hp_node = Map.empty\<rparr>"]
  by (simp add: heap_ok_def norm_index_def)

text \<open>
  Duplication: \<open>listDup\<close> returns a list of fresh nodes that holds the copies the \<open>dup\<close>
  callback makes, or no list when one copy fails, and in either case the original list
  is unchanged.
\<close>

lemma listDup_copies:
  assumes "dlist h l ps vs" "length vs < 2 ^ 64"
  shows "\<exists>h' c. listDup h l = Some (h', c) \<and> dlist h' l ps vs \<and>
     (case dup_all (l_dup l) vs of
        None \<Rightarrow> c = None
      | Some ws \<Rightarrow> (\<exists>l' ps'. c = Some l' \<and> dlist h' l' ps' ws))"
proof -
  let ?c0 = "listCreate\<lparr>l_dup := l_dup l, l_free := l_free l, l_match := l_match l\<rparr>"
  have seg: "dseg (hp_node h) None ps vs None" and ok: "heap_ok h" using assms(1) by (auto simp: dlist_def)
  have c0: "dlist h ?c0 [] []" using ok by (simp add: dlist_def listCreate_def)
  have it: "listGetIterator l AL_START_HEAD = fwd ps" using assms(1) by (simp add: listGetIterator_def dlist_def)
  obtain h' cs' l' where r: "listDup_loop h ?c0 (fwd ps) = Some (h', l')"
    "case dup_all (l_dup l) vs of
        None \<Rightarrow> l' = None \<and> (\<forall>b<hp_brk h. hp_node h' b = hp_node h b) \<and> heap_ok h'
      | Some ws \<Rightarrow> (\<exists>c. l' = Some c \<and> dlist h' c cs' ws \<and> (\<forall>b<hp_brk h. hp_node h' b = hp_node h b))"
    using listDup_dseg [OF seg c0] assms dlist_bound [OF assms(1)]
    by (cases "dup_all (l_dup l) vs") (auto simp: listCreate_def)
  have "\<forall>b<hp_brk h. hp_node h' b = hp_node h b" "heap_ok h'" using r(2) by (auto simp: dlist_def split: option.splits)
  then have "dseg (hp_node h') None ps vs None"
    using seg dlist_bound [OF assms(1)] by (subst dseg_frame [of ps "hp_node h'" "hp_node h"]) auto
  then have "dlist h' l ps vs" using assms(1) \<open>heap_ok h'\<close> by (simp add: dlist_def)
  then show ?thesis using r it by (auto simp: listDup_def split: option.splits)
qed

end
