(* ===== verification/Dict.thy ===== *)
theory Dict
  imports Prelude "HOL-Library.Multiset"
begin

text \<open>
  The hash tables of \<open>dict.c\<close>: two tables of chained buckets, the second in use only while
  the first is being rehashed into it, one bucket per step, as a side effect of the other
  operations.  A chain is the list of its entries (key and value), a table pointer is an
  option (\<open>None\<close> is \<open>NULL\<close>), an entry pointer is the location of the entry: table, bucket,
  position in the chain.  Every access is checked.  The callbacks of \<open>dictType\<close> are
  fields of a record, and of the destructors the calls are kept (the entries they were
  called on).  The global flag \<open>dict_can_resize\<close> is the argument \<open>cr\<close>.

  \<open>dict_rep\<close> relates a dictionary to the partial function from keys to values it stands
  for; all operations are shown to refine the operations on partial functions, whatever
  the state of the rehashing.
\<close>

section \<open>Data\<close>

type_synonym ('k, 'v) chain = "('k \<times> 'v) list"

record ('k, 'v) dictType =
  hashFunction :: "'k \<Rightarrow> nat"
  keyDup :: "('k \<Rightarrow> 'k) option"
  valDup :: "('v \<Rightarrow> 'v) option"
  keyCompare :: "('k \<Rightarrow> 'k \<Rightarrow> bool) option"

record ('k, 'v) dictht =
  ht_table :: "('k, 'v) chain list option"
  ht_size :: nat
  ht_sizemask :: nat
  ht_used :: nat

record ('k, 'v) dict =
  d_ht0 :: "('k, 'v) dictht"
  d_ht1 :: "('k, 'v) dictht"
  d_rehashidx :: int
  d_iterators :: int

datatype dres = DICT_OK | DICT_ERR

text \<open>A pointer to an entry: the table (0 or 1), the bucket and the position in the chain.\<close>

type_synonym eloc = "nat \<times> nat \<times> nat"

definition DICT_HT_INITIAL_SIZE :: nat where "DICT_HT_INITIAL_SIZE = 4"
definition dict_force_resize_ratio :: nat where "dict_force_resize_ratio = 5"
definition LONG_MAX_nat :: nat where "LONG_MAX_nat = 2 ^ 63 - 1"

section \<open>The macros of \<open>dict.h\<close>\<close>

definition dictCompareKeys :: "('k, 'v) dictType \<Rightarrow> 'k \<Rightarrow> 'k \<Rightarrow> bool" where
  "dictCompareKeys T k1 k2 = (case keyCompare T of Some c \<Rightarrow> c k1 k2 | None \<Rightarrow> k1 = k2)"

definition dictHashKey :: "('k, 'v) dictType \<Rightarrow> 'k \<Rightarrow> nat" where
  "dictHashKey T k = u32 (hashFunction T k)"

definition dictIsRehashing :: "('k, 'v) dict \<Rightarrow> bool" where
  "dictIsRehashing d \<longleftrightarrow> d_rehashidx d \<noteq> - 1"

definition dictSize :: "('k, 'v) dict \<Rightarrow> nat" where
  "dictSize d = u64 (ht_used (d_ht0 d) + ht_used (d_ht1 d))"

definition dictSlots :: "('k, 'v) dict \<Rightarrow> nat" where
  "dictSlots d = u64 (ht_size (d_ht0 d) + ht_size (d_ht1 d))"

definition dup_key :: "('k, 'v) dictType \<Rightarrow> 'k \<Rightarrow> 'k" where
  "dup_key T k = (case keyDup T of Some f \<Rightarrow> f k | None \<Rightarrow> k)"

definition dup_val :: "('k, 'v) dictType \<Rightarrow> 'v \<Rightarrow> 'v" where
  "dup_val T v = (case valDup T of Some f \<Rightarrow> f v | None \<Rightarrow> v)"

text \<open>Reading and writing an entry through its pointer (\<open>he->key\<close>, \<open>dictGetVal\<close>, \<open>dictSetVal\<close>).\<close>

definition get_ht :: "('k, 'v) dict \<Rightarrow> nat \<Rightarrow> ('k, 'v) dictht" where
  "get_ht d t = (if t = 0 then d_ht0 d else d_ht1 d)"

definition put_ht :: "('k, 'v) dict \<Rightarrow> nat \<Rightarrow> ('k, 'v) dictht \<Rightarrow> ('k, 'v) dict" where
  "put_ht d t ht = (if t = 0 then d\<lparr>d_ht0 := ht\<rparr> else d\<lparr>d_ht1 := ht\<rparr>)"

definition get_entry :: "('k, 'v) dict \<Rightarrow> eloc \<Rightarrow> ('k \<times> 'v) option" where
  "get_entry d p = (case p of (t, i, j) \<Rightarrow>
     do { tb \<leftarrow> ht_table (get_ht d t); c \<leftarrow> rd tb i; rd c j })"

definition put_entry :: "('k, 'v) dict \<Rightarrow> eloc \<Rightarrow> 'k \<times> 'v \<Rightarrow> ('k, 'v) dict option" where
  "put_entry d p e = (case p of (t, i, j) \<Rightarrow>
     do { tb \<leftarrow> ht_table (get_ht d t); c \<leftarrow> rd tb i; c \<leftarrow> wr c j e; tb \<leftarrow> wr tb i c;
          Some (put_ht d t ((get_ht d t)\<lparr>ht_table := Some tb\<rparr>)) })"

definition dictSetVal :: "('k, 'v) dictType \<Rightarrow> ('k, 'v) dict \<Rightarrow> eloc \<Rightarrow> 'v \<Rightarrow> ('k, 'v) dict option" where
  "dictSetVal T d p v = do { (k, _) \<leftarrow> get_entry d p; put_entry d p (k, dup_val T v) }"

section \<open>Operations\<close>

definition dictReset :: "('k, 'v) dictht" where
  "dictReset = \<lparr>ht_table = None, ht_size = 0, ht_sizemask = 0, ht_used = 0\<rparr>"

definition dictCreate :: "('k, 'v) dict" where
  "dictCreate = \<lparr>d_ht0 = dictReset, d_ht1 = dictReset, d_rehashidx = - 1, d_iterators = 0\<rparr>"

partial_function (option) dictNextPower_loop :: "nat \<Rightarrow> nat \<Rightarrow> nat option" where
  [code]: "dictNextPower_loop i sz = (if i \<ge> sz then Some i else dictNextPower_loop (u64 (i * 2)) sz)"

definition dictNextPower :: "nat \<Rightarrow> nat option" where
  "dictNextPower sz =
     (if sz \<ge> LONG_MAX_nat then Some LONG_MAX_nat else dictNextPower_loop DICT_HT_INITIAL_SIZE sz)"

definition dictExpand :: "('k, 'v) dict \<Rightarrow> nat \<Rightarrow> (('k, 'v) dict \<times> dres) option" where
  "dictExpand d sz =
     do {
       realsize \<leftarrow> dictNextPower sz;
       if dictIsRehashing d \<or> ht_used (d_ht0 d) > sz then Some (d, DICT_ERR)
       else
         let n = \<lparr>ht_table = Some (replicate realsize []), ht_size = realsize,
                  ht_sizemask = u64 (realsize + (2 ^ 64 - 1)), ht_used = 0\<rparr> in
         if ht_table (d_ht0 d) = None then Some (d\<lparr>d_ht0 := n\<rparr>, DICT_OK)
         else Some (d\<lparr>d_ht1 := n, d_rehashidx := 0\<rparr>, DICT_OK)
     }"

definition dictResize :: "bool \<Rightarrow> ('k, 'v) dict \<Rightarrow> (('k, 'v) dict \<times> dres) option" where
  "dictResize cr d =
     (if \<not> cr \<or> dictIsRehashing d then Some (d, DICT_ERR)
      else
        let minimal = sgn_of 32 (ht_used (d_ht0 d));
            minimal = (if minimal < int DICT_HT_INITIAL_SIZE then int DICT_HT_INITIAL_SIZE else minimal)
        in dictExpand d (nat minimal))"

text \<open>\<open>while (d->ht[0].table[d->rehashidx] == NULL) d->rehashidx++\<close>\<close>

function skip_null :: "('k, 'v) chain list \<Rightarrow> nat \<Rightarrow> nat option" where
  "skip_null tb i = (if i < length tb then (if tb ! i = [] then skip_null tb (Suc i) else Some i) else None)"
  by auto
termination by (relation "measure (\<lambda>(tb, i). length tb - i)") auto

declare skip_null.simps [simp del]

text \<open>The inner loop: the entries of a chain are pushed, one by one, on chains of the second table.\<close>

fun move_chain :: "('k, 'v) dictType \<Rightarrow> ('k, 'v) chain \<Rightarrow> ('k, 'v) dict \<Rightarrow> ('k, 'v) dict option" where
  "move_chain T [] d = Some d"
| "move_chain T (e # es) d =
     do {
       tb \<leftarrow> ht_table (d_ht1 d);
       let h = u32 (dictHashKey T (fst e) AND ht_sizemask (d_ht1 d));
       c \<leftarrow> rd tb h;
       tb \<leftarrow> wr tb h (e # c);
       move_chain T es
         (d\<lparr>d_ht1 := (d_ht1 d)\<lparr>ht_table := Some tb, ht_used := u64 (ht_used (d_ht1 d) + 1)\<rparr>,
            d_ht0 := (d_ht0 d)\<lparr>ht_used := u64 (ht_used (d_ht0 d) + (2 ^ 64 - 1))\<rparr>\<rparr>)
     }"

text \<open>The loop \<open>while (n--)\<close> of \<open>dictRehash\<close>; the flag is the return value.\<close>

fun dictRehash_loop :: "('k, 'v) dictType \<Rightarrow> ('k, 'v) dict \<Rightarrow> nat \<Rightarrow> (('k, 'v) dict \<times> bool) option" where
  "dictRehash_loop T d 0 = Some (d, True)"
| "dictRehash_loop T d (Suc n) =
     (if ht_used (d_ht0 d) = 0
      then Some (d\<lparr>d_ht0 := d_ht1 d, d_ht1 := dictReset, d_rehashidx := - 1\<rparr>, False)
      else if \<not> int (ht_size (d_ht0 d)) > d_rehashidx d \<or> d_rehashidx d < 0 then None
      else do {
        tb \<leftarrow> ht_table (d_ht0 d);
        i \<leftarrow> skip_null tb (nat (d_rehashidx d));
        de \<leftarrow> rd tb i;
        d \<leftarrow> move_chain T de d;
        tb \<leftarrow> ht_table (d_ht0 d);
        tb \<leftarrow> wr tb i [];
        dictRehash_loop T (d\<lparr>d_ht0 := (d_ht0 d)\<lparr>ht_table := Some tb\<rparr>, d_rehashidx := int i + 1\<rparr>) n
      })"

definition dictRehash :: "('k, 'v) dictType \<Rightarrow> ('k, 'v) dict \<Rightarrow> nat \<Rightarrow> (('k, 'v) dict \<times> bool) option" where
  "dictRehash T d n = (if \<not> dictIsRehashing d then Some (d, False) else dictRehash_loop T d n)"

definition dictRehashStep :: "('k, 'v) dictType \<Rightarrow> ('k, 'v) dict \<Rightarrow> ('k, 'v) dict option" where
  "dictRehashStep T d =
     (if d_iterators d = 0 then do { (d, _) \<leftarrow> dictRehash T d 1; Some d } else Some d)"

definition dictExpandIfNeeded :: "bool \<Rightarrow> ('k, 'v) dict \<Rightarrow> (('k, 'v) dict \<times> dres) option" where
  "dictExpandIfNeeded cr d =
     (if dictIsRehashing d then Some (d, DICT_OK)
      else if ht_size (d_ht0 d) = 0 then dictExpand d DICT_HT_INITIAL_SIZE
      else if ht_used (d_ht0 d) \<ge> ht_size (d_ht0 d) \<and>
              (cr \<or> ht_used (d_ht0 d) div ht_size (d_ht0 d) > dict_force_resize_ratio)
           then dictExpand d (u64 (ht_used (d_ht0 d) * 2))
      else Some (d, DICT_OK))"

text \<open>Walking a chain: the position of the first entry whose key compares equal.\<close>

fun chain_find :: "('k, 'v) dictType \<Rightarrow> 'k \<Rightarrow> ('k, 'v) chain \<Rightarrow> nat \<Rightarrow> nat option" where
  "chain_find T key [] j = None"
| "chain_find T key (he # c) j =
     (if dictCompareKeys T key (fst he) then Some j else chain_find T key c (Suc j))"

text \<open>The bucket of a hash in table \<open>t\<close>: its index and its chain.\<close>

definition bucket :: "('k, 'v) dict \<Rightarrow> nat \<Rightarrow> nat \<Rightarrow> (nat \<times> ('k, 'v) chain) option" where
  "bucket d t h =
     do { let idx = u32 (h AND ht_sizemask (get_ht d t));
          tb \<leftarrow> ht_table (get_ht d t);
          c \<leftarrow> rd tb idx;
          Some (idx, c) }"

definition dictKeyIndex :: "('k, 'v) dictType \<Rightarrow> bool \<Rightarrow> ('k, 'v) dict \<Rightarrow> 'k \<Rightarrow> (('k, 'v) dict \<times> int) option" where
  "dictKeyIndex T cr d key =
     do {
       (d, r) \<leftarrow> dictExpandIfNeeded cr d;
       if r = DICT_ERR then Some (d, - 1)
       else do {
         let h = dictHashKey T key;
         (idx, c) \<leftarrow> bucket d 0 h;
         if chain_find T key c 0 \<noteq> None then Some (d, - 1)
         else if \<not> dictIsRehashing d then Some (d, sgn_of 32 idx)
         else do {
           (idx, c) \<leftarrow> bucket d 1 h;
           if chain_find T key c 0 \<noteq> None then Some (d, - 1) else Some (d, sgn_of 32 idx)
         }
       }
     }"

text \<open>
  \<open>dictAddRaw\<close>: the value field of the new entry is not set; \<open>jv\<close> is what the fresh memory
  holds there.  The second result is the entry, if one was added.
\<close>

definition dictAddRaw :: "('k, 'v) dictType \<Rightarrow> bool \<Rightarrow> 'v \<Rightarrow> ('k, 'v) dict \<Rightarrow> 'k \<Rightarrow> (('k, 'v) dict \<times> eloc option) option" where
  "dictAddRaw T cr jv d key =
     do {
       d \<leftarrow> (if dictIsRehashing d then dictRehashStep T d else Some d);
       (d, index) \<leftarrow> dictKeyIndex T cr d key;
       if index = - 1 then Some (d, None)
       else if index < 0 then None
       else do {
         let t = (if dictIsRehashing d then 1 else 0);
         let ht = get_ht d t;
         tb \<leftarrow> ht_table ht;
         c \<leftarrow> rd tb (nat index);
         tb \<leftarrow> wr tb (nat index) ((dup_key T key, jv) # c);
         Some (put_ht d t (ht\<lparr>ht_table := Some tb, ht_used := u64 (ht_used ht + 1)\<rparr>), Some (t, nat index, 0))
       }
     }"

definition dictAdd :: "('k, 'v) dictType \<Rightarrow> bool \<Rightarrow> 'v \<Rightarrow> ('k, 'v) dict \<Rightarrow> 'k \<Rightarrow> 'v \<Rightarrow> (('k, 'v) dict \<times> dres) option" where
  "dictAdd T cr jv d key v =
     do {
       (d, entry) \<leftarrow> dictAddRaw T cr jv d key;
       case entry of
         None \<Rightarrow> Some (d, DICT_ERR)
       | Some p \<Rightarrow> do { d \<leftarrow> dictSetVal T d p v; Some (d, DICT_OK) }
     }"

definition dictFind :: "('k, 'v) dictType \<Rightarrow> ('k, 'v) dict \<Rightarrow> 'k \<Rightarrow> (('k, 'v) dict \<times> eloc option) option" where
  "dictFind T d key =
     (if ht_size (d_ht0 d) = 0 then Some (d, None)
      else do {
        d \<leftarrow> (if dictIsRehashing d then dictRehashStep T d else Some d);
        let h = dictHashKey T key;
        (idx, c) \<leftarrow> bucket d 0 h;
        case chain_find T key c 0 of
          Some j \<Rightarrow> Some (d, Some (0, idx, j))
        | None \<Rightarrow>
            if \<not> dictIsRehashing d then Some (d, None)
            else do {
              (idx, c) \<leftarrow> bucket d 1 h;
              Some (d, map_option (\<lambda>j. (1, idx, j)) (chain_find T key c 0))
            }
      })"

definition dictFetchValue :: "('k, 'v) dictType \<Rightarrow> ('k, 'v) dict \<Rightarrow> 'k \<Rightarrow> (('k, 'v) dict \<times> 'v option) option" where
  "dictFetchValue T d key =
     do {
       (d, he) \<leftarrow> dictFind T d key;
       case he of None \<Rightarrow> Some (d, None) | Some p \<Rightarrow> do { e \<leftarrow> get_entry d p; Some (d, Some (snd e)) }
     }"

text \<open>
  The flag is the return value (\<open>True\<close> when the key was added from scratch), the list holds
  the values the destructor was called on.
\<close>

definition dictReplace ::
  "('k, 'v) dictType \<Rightarrow> bool \<Rightarrow> 'v \<Rightarrow> ('k, 'v) dict \<Rightarrow> 'k \<Rightarrow> 'v \<Rightarrow> (('k, 'v) dict \<times> bool \<times> 'v list) option" where
  "dictReplace T cr jv d key v =
     do {
       (d, r) \<leftarrow> dictAdd T cr jv d key v;
       if r = DICT_OK then Some (d, True, [])
       else do {
         (d, entry) \<leftarrow> dictFind T d key;
         p \<leftarrow> entry;
         auxentry \<leftarrow> get_entry d p;
         d \<leftarrow> dictSetVal T d p v;
         Some (d, False, [snd auxentry])
       }
     }"

definition dictReplaceRaw :: "('k, 'v) dictType \<Rightarrow> bool \<Rightarrow> 'v \<Rightarrow> ('k, 'v) dict \<Rightarrow> 'k \<Rightarrow> (('k, 'v) dict \<times> eloc option) option" where
  "dictReplaceRaw T cr jv d key =
     do {
       (d, entry) \<leftarrow> dictFind T d key;
       case entry of Some p \<Rightarrow> Some (d, Some p) | None \<Rightarrow> dictAddRaw T cr jv d key
     }"

text \<open>
  Unlinking the entry at position \<open>j\<close> of a bucket.  The last result of the deletion is
  the list of entries the destructors were called on (none with \<open>nofree\<close>).
\<close>

definition unlink_entry :: "('k, 'v) dict \<Rightarrow> eloc \<Rightarrow> (('k, 'v) dict \<times> ('k \<times> 'v)) option" where
  "unlink_entry d p = (case p of (t, i, j) \<Rightarrow>
     do { let ht = get_ht d t;
          tb \<leftarrow> ht_table ht; c \<leftarrow> rd tb i; e \<leftarrow> rd c j;
          tb \<leftarrow> wr tb i (take j c @ drop (Suc j) c);
          Some (put_ht d t (ht\<lparr>ht_table := Some tb, ht_used := u64 (ht_used ht + (2 ^ 64 - 1))\<rparr>), e) })"

definition dictGenericDelete ::
  "('k, 'v) dictType \<Rightarrow> ('k, 'v) dict \<Rightarrow> 'k \<Rightarrow> bool \<Rightarrow> (('k, 'v) dict \<times> dres \<times> ('k \<times> 'v) list) option" where
  "dictGenericDelete T d key nofree =
     (if ht_size (d_ht0 d) = 0 then Some (d, DICT_ERR, [])
      else do {
        d \<leftarrow> (if dictIsRehashing d then dictRehashStep T d else Some d);
        let h = dictHashKey T key;
        (idx, c) \<leftarrow> bucket d 0 h;
        case chain_find T key c 0 of
          Some j \<Rightarrow> do { (d, e) \<leftarrow> unlink_entry d (0, idx, j); Some (d, DICT_OK, if nofree then [] else [e]) }
        | None \<Rightarrow>
            if \<not> dictIsRehashing d then Some (d, DICT_ERR, [])
            else do {
              (idx, c) \<leftarrow> bucket d 1 h;
              case chain_find T key c 0 of
                Some j \<Rightarrow> do { (d, e) \<leftarrow> unlink_entry d (1, idx, j); Some (d, DICT_OK, if nofree then [] else [e]) }
              | None \<Rightarrow> Some (d, DICT_ERR, [])
            }
      })"

definition dictDelete where "dictDelete T d key = dictGenericDelete T d key False"
definition dictDeleteNoFree where "dictDeleteNoFree T d key = dictGenericDelete T d key True"

text \<open>
  \<open>_dictClear\<close>: the loop over the buckets ends when no entry is left; the results are the
  entries the destructors were called on and \<open>used\<close> at the end.
\<close>

fun dictClear_loop :: "('k, 'v) chain list \<Rightarrow> nat \<Rightarrow> ('k \<times> 'v) list" where
  "dictClear_loop [] used = []"
| "dictClear_loop (c # cs) used =
     (if used > 0 then c @ dictClear_loop cs (used - length c) else [])"

definition dictClear :: "('k, 'v) dictht \<Rightarrow> ('k, 'v) dictht \<times> ('k \<times> 'v) list" where
  "dictClear ht =
     (dictReset, case ht_table ht of None \<Rightarrow> [] | Some tb \<Rightarrow> dictClear_loop tb (ht_used ht))"

definition dictRelease :: "('k, 'v) dict \<Rightarrow> ('k \<times> 'v) list" where
  "dictRelease d = snd (dictClear (d_ht0 d)) @ snd (dictClear (d_ht1 d))"

definition dictEmpty :: "('k, 'v) dict \<Rightarrow> ('k, 'v) dict \<times> ('k \<times> 'v) list" where
  "dictEmpty d =
     (let (h0, f0) = dictClear (d_ht0 d); (h1, f1) = dictClear (d_ht1 d)
      in (d\<lparr>d_ht0 := h0, d_ht1 := h1, d_rehashidx := - 1, d_iterators := 0\<rparr>, f0 @ f1))"

section \<open>What a dictionary stands for\<close>

text \<open>
  What the code relies on of a \<open>dictType\<close>: comparison is an equivalence, equal keys have
  equal hashes, and the copy of a key compares equal to it.
\<close>

definition dictType_ok :: "('k, 'v) dictType \<Rightarrow> bool" where
  "dictType_ok T \<longleftrightarrow>
     (\<forall>a. dictCompareKeys T a a) \<and>
     (\<forall>a b. dictCompareKeys T a b \<longrightarrow> dictCompareKeys T b a) \<and>
     (\<forall>a b c. dictCompareKeys T a b \<longrightarrow> dictCompareKeys T b c \<longrightarrow> dictCompareKeys T a c) \<and>
     (\<forall>a b. dictCompareKeys T a b \<longrightarrow> dictHashKey T a = dictHashKey T b) \<and>
     (\<forall>a. dictCompareKeys T a (dup_key T a))"

definition hits :: "('k, 'v) dictType \<Rightarrow> 'k \<Rightarrow> ('k \<times> 'v) list \<Rightarrow> ('k \<times> 'v) list" where
  "hits T k es = filter (\<lambda>e. dictCompareKeys T k (fst e)) es"

definition lookup :: "('k, 'v) dictType \<Rightarrow> ('k \<times> 'v) list \<Rightarrow> 'k \<Rightarrow> 'v option" where
  "lookup T es k = (case hits T k es of [] \<Rightarrow> None | e # _ \<Rightarrow> Some (snd e))"

definition uniq :: "('k, 'v) dictType \<Rightarrow> ('k \<times> 'v) list \<Rightarrow> bool" where
  "uniq T es \<longleftrightarrow> (\<forall>k. length (hits T k es) \<le> 1)"

definition tbl :: "('k, 'v) dictht \<Rightarrow> ('k \<times> 'v) list" where
  "tbl ht = (case ht_table ht of None \<Rightarrow> [] | Some tb \<Rightarrow> concat tb)"

definition entries :: "('k, 'v) dict \<Rightarrow> ('k \<times> 'v) list" where
  "entries d = tbl (d_ht0 d) @ tbl (d_ht1 d)"

definition ht_ok :: "('k, 'v) dictType \<Rightarrow> ('k, 'v) dictht \<Rightarrow> bool" where
  "ht_ok T ht \<longleftrightarrow>
     (case ht_table ht of
        None \<Rightarrow> ht = dictReset
      | Some tb \<Rightarrow>
          (\<exists>b\<le>31. ht_size ht = 2 ^ b) \<and> length tb = ht_size ht \<and> ht_sizemask ht = ht_size ht - 1 \<and>
          ht_used ht = length (concat tb) \<and>
          (\<forall>i<length tb. \<forall>e\<in>set (tb ! i). dictHashKey T (fst e) mod ht_size ht = i))"

text \<open>The number of entries the tables of at most \<open>2\<^sup>3\<^sup>1\<close> buckets are grown for.\<close>

definition DICT_CAP :: nat where "DICT_CAP = 1073741824"

definition dict_inv :: "('k, 'v) dictType \<Rightarrow> ('k, 'v) dict \<Rightarrow> bool" where
  "dict_inv T d \<longleftrightarrow>
     ht_ok T (d_ht0 d) \<and> ht_ok T (d_ht1 d) \<and> uniq T (entries d) \<and> length (entries d) \<le> DICT_CAP \<and>
     - 1 \<le> d_rehashidx d \<and>
     (if dictIsRehashing d
      then (\<exists>tb tb'. ht_table (d_ht0 d) = Some tb \<and> ht_table (d_ht1 d) = Some tb' \<and>
             (\<forall>i<nat (d_rehashidx d). i < length tb \<longrightarrow> tb ! i = []))
      else d_ht1 d = dictReset)"

definition dict_rep :: "('k, 'v) dictType \<Rightarrow> ('k, 'v) dict \<Rightarrow> ('k \<Rightarrow> 'v option) \<Rightarrow> bool" where
  "dict_rep T d m \<longleftrightarrow> dict_inv T d \<and> m = lookup T (entries d)"

lemma cmp_laws:
  assumes "dictType_ok T"
  shows "dictCompareKeys T a a"
    "dictCompareKeys T a b \<Longrightarrow> dictCompareKeys T b a"
    "dictCompareKeys T a b \<Longrightarrow> dictCompareKeys T b c \<Longrightarrow> dictCompareKeys T a c"
    "dictCompareKeys T a b \<Longrightarrow> dictHashKey T a = dictHashKey T b"
    "dictCompareKeys T a (dup_key T a)"
  using assms unfolding dictType_ok_def by blast+

lemmas cmp_refl = cmp_laws(1) and cmp_sym = cmp_laws(2) and cmp_trans = cmp_laws(3)
  and cmp_hash = cmp_laws(4) and cmp_dup = cmp_laws(5)

lemma hits_append [simp]: "hits T k (xs @ ys) = hits T k xs @ hits T k ys"
  by (simp add: hits_def)

lemma hits_Nil [simp]: "hits T k [] = []"
  by (simp add: hits_def)

lemma hits_mset: "mset xs = mset ys \<Longrightarrow> mset (hits T k xs) = mset (hits T k ys)"
  by (simp add: hits_def mset_filter)

lemma uniq_mset: "mset xs = mset ys \<Longrightarrow> uniq T xs = uniq T ys"
  unfolding uniq_def by (metis hits_mset mset_eq_length)

lemma short_mset_eq: "mset xs = mset ys \<Longrightarrow> length xs \<le> 1 \<Longrightarrow> xs = ys"
  by (cases xs; cases ys; simp)

lemma lookup_mset: "mset xs = mset ys \<Longrightarrow> uniq T xs \<Longrightarrow> lookup T xs = lookup T ys"
proof
  fix k assume "mset xs = mset ys" "uniq T xs"
  then have "hits T k xs = hits T k ys" by (intro short_mset_eq hits_mset) (auto simp: uniq_def)
  then show "lookup T xs k = lookup T ys k" by (simp add: lookup_def)
qed

lemma and_mask_mod: "x AND (2 ^ b - 1) = x mod 2 ^ b" for x :: nat
  by (metis mask_eq_exp_minus_1 take_bit_eq_mask take_bit_eq_mod)

lemma hits_concat:
  assumes "i < length tb" "\<forall>j<length tb. j \<noteq> i \<longrightarrow> hits T k (tb ! j) = []"
  shows "hits T k (concat tb) = hits T k (tb ! i)"
proof -
  have z: "hits T k (concat xs) = []" if "\<forall>c\<in>set xs. hits T k c = []" for xs using that by (induction xs) auto
  have "concat tb = concat (take i tb @ tb ! i # drop (Suc i) tb)" using id_take_nth_drop [OF assms(1)] by (rule arg_cong)
  then have "concat tb = concat (take i tb) @ tb ! i @ concat (drop (Suc i) tb)" by simp
  moreover have "\<forall>c\<in>set (take i tb). hits T k c = []" using assms by (auto simp: in_set_conv_nth)
  moreover have "\<forall>c\<in>set (drop (Suc i) tb). hits T k c = []" using assms by (auto simp: in_set_conv_nth)
  ultimately show ?thesis using z by simp
qed

lemma ht_okD:
  assumes "ht_ok T ht" "ht_table ht = Some tb"
  obtains b where "b \<le> 31" "ht_size ht = 2 ^ b" "length tb = 2 ^ b" "ht_sizemask ht = 2 ^ b - 1"
    "ht_used ht = length (concat tb)" "\<forall>i<length tb. \<forall>e\<in>set (tb ! i). dictHashKey T (fst e) mod 2 ^ b = i"
  using assms by (auto simp: ht_ok_def)

lemma two_pow_31: "b \<le> 31 \<Longrightarrow> (2::nat) ^ b \<le> 2147483648"
proof -
  assume "b \<le> 31"
  then have "(2::nat) ^ b \<le> 2 ^ 31" by (rule power_increasing) simp
  then show ?thesis by simp
qed

lemma bucket_index:
  assumes "b \<le> 31"
  shows "u32 (h AND (2 ^ b - 1)) = h mod 2 ^ b"
proof -
  have "h mod 2 ^ b < 2 ^ b" by simp
  also have "\<dots> \<le> 2147483648" using assms by (rule two_pow_31)
  also have "\<dots> < 2 ^ 32" by simp
  finally have "h mod 2 ^ b < 2 ^ 32" .
  then show ?thesis unfolding and_mask_mod by (rule u32_id)
qed

lemma bucket_ok:
  assumes "dictType_ok T" "ht_ok T (get_ht d t)" "ht_table (get_ht d t) = Some tb"
  shows "\<exists>i. bucket d t (dictHashKey T k) = Some (i, tb ! i) \<and> i < length tb \<and> i < 2 ^ 31 \<and>
    i = dictHashKey T k mod ht_size (get_ht d t) \<and> hits T k (concat tb) = hits T k (tb ! i)"
proof -
  obtain b where b: "b \<le> 31" "ht_size (get_ht d t) = 2 ^ b" "length tb = 2 ^ b" "ht_sizemask (get_ht d t) = 2 ^ b - 1"
    "\<forall>i<length tb. \<forall>e\<in>set (tb ! i). dictHashKey T (fst e) mod 2 ^ b = i"
    using ht_okD [OF assms(2,3)] by metis
  let ?i = "dictHashKey T k mod 2 ^ b"
  have i: "?i < length tb" using b(3) by simp
  have "hits T k (tb ! j) = []" if j: "j < length tb" "j \<noteq> ?i" for j
  proof -
    have "\<not> dictCompareKeys T k (fst e)" if "e \<in> set (tb ! j)" for e
    proof
      assume "dictCompareKeys T k (fst e)"
      then have "dictHashKey T k = dictHashKey T (fst e)" using cmp_hash [OF assms(1)] by blast
      moreover have "dictHashKey T (fst e) mod 2 ^ b = j" using b(5) j(1) that by blast
      ultimately show False using j(2) by simp
    qed
    then show ?thesis by (simp add: hits_def)
  qed
  then have "hits T k (concat tb) = hits T k (tb ! ?i)" using hits_concat [OF i] by blast
  moreover have "?i < 2 ^ 31" using less_le_trans [OF i [unfolded b(3)] two_pow_31 [OF b(1)]] by simp
  moreover have "bucket d t (dictHashKey T k) = Some (?i, tb ! ?i)"
    unfolding bucket_def Let_def b(4) bucket_index [OF b(1)] assms(3) Option.bind.simps rd_in [OF i] ..
  ultimately show ?thesis using i b(2) by metis
qed

lemma chain_find_None: "chain_find T k c j = None \<longleftrightarrow> hits T k c = []"
  by (induction c arbitrary: j) (auto simp: hits_def)

lemma chain_find_Some:
  "chain_find T k c j = Some i \<Longrightarrow> j \<le> i \<and> i < j + length c \<and> dictCompareKeys T k (fst (c ! (i - j))) \<and>
     hits T k (take (i - j) c) = [] \<and> hits T k c \<noteq> [] \<and> hd (hits T k c) = c ! (i - j)"
proof (induction c arbitrary: j)
  case (Cons e c)
  show ?case
  proof (cases "dictCompareKeys T k (fst e)")
    case False
    then have "chain_find T k c (Suc j) = Some i" using Cons.prems by simp
    from Cons.IH [OF this] False show ?thesis by (auto simp: hits_def Suc_diff_Suc nth_Cons' take_Cons')
  qed (use Cons.prems in \<open>auto simp: hits_def\<close>)
qed simp

section \<open>Rehashing\<close>

lemma mset_concat_update:
  assumes "i < length tb"
  shows "mset (concat (tb[i := c])) + mset (tb ! i) = mset (concat tb) + mset c"
proof -
  have "concat tb = concat (take i tb @ tb ! i # drop (Suc i) tb)" using id_take_nth_drop [OF assms] by (rule arg_cong)
  then show ?thesis using assms by (simp add: upd_conv_take_nth_drop)
qed

lemma ht_ok_update:
  assumes "ht_ok T ht" "ht_table ht = Some tb" "i < length tb"
    and "\<forall>e\<in>set c. dictHashKey T (fst e) mod ht_size ht = i" "u = length (concat (tb[i := c]))"
  shows "ht_ok T (ht\<lparr>ht_table := Some (tb[i := c]), ht_used := u\<rparr>)"
  using assms by (auto simp: ht_ok_def nth_list_update)

text \<open>Entries that fit the word: no counter of the tables wraps.\<close>

lemma u64_small: "n \<le> 18446744073709551615 \<Longrightarrow> u64 n = n"
  by (intro u64_id) simp

lemma u64_dec: "0 < n \<Longrightarrow> n \<le> 18446744073709551615 \<Longrightarrow> u64 (n + (2 ^ 64 - 1)) = n - 1"
proof -
  assume a: "0 < n" "n \<le> 18446744073709551615"
  then have "n + (2 ^ 64 - 1) = (n - 1) + 2 ^ 64" by simp
  moreover have "n - 1 < 2 ^ 64" using a by simp
  ultimately show ?thesis unfolding u64_def by (metis mod_add_self2 mod_less)
qed

lemma move_chain_ok:
  assumes "ht_ok T (d_ht1 d)" "ht_table (d_ht1 d) = Some tb"
    and "length es \<le> ht_used (d_ht0 d)" "ht_used (d_ht0 d) + ht_used (d_ht1 d) \<le> DICT_CAP"
  shows "\<exists>d' tb'. move_chain T es d = Some d' \<and> ht_ok T (d_ht1 d') \<and> ht_table (d_ht1 d') = Some tb' \<and>
     mset (concat tb') = mset es + mset (concat tb) \<and>
     d' = d\<lparr>d_ht0 := (d_ht0 d)\<lparr>ht_used := ht_used (d_ht0 d) - length es\<rparr>, d_ht1 := d_ht1 d'\<rparr>"
  using assms
proof (induction es arbitrary: d tb)
  case Nil
  then show ?case by simp
next
  case (Cons e es)
  obtain b where b: "b \<le> 31" "ht_size (d_ht1 d) = 2 ^ b" "length tb = 2 ^ b" "ht_sizemask (d_ht1 d) = 2 ^ b - 1"
    "ht_used (d_ht1 d) = length (concat tb)" "\<forall>i<length tb. \<forall>e\<in>set (tb ! i). dictHashKey T (fst e) mod 2 ^ b = i"
    using ht_okD [OF Cons.prems(1,2)] by metis
  let ?i = "dictHashKey T (fst e) mod 2 ^ b"
  have i: "?i < length tb" using b(3) by simp
  let ?tb1 = "tb[?i := e # tb ! ?i]"
  have ms: "mset (concat ?tb1) = add_mset e (mset (concat tb))" using mset_concat_update [OF i, of "e # tb ! ?i"] by simp
  then have len: "length (concat ?tb1) = ht_used (d_ht1 d) + 1" using b(5) by (metis Suc_eq_plus1 size_add_mset size_mset)
  let ?ht1 = "(d_ht1 d)\<lparr>ht_table := Some ?tb1, ht_used := ht_used (d_ht1 d) + 1\<rparr>"
  have ok1: "ht_ok T ?ht1" using b(2,6) i len by (intro ht_ok_update [OF Cons.prems(1,2) i]) auto
  have cap: "ht_used (d_ht0 d) + ht_used (d_ht1 d) \<le> 1073741824" using Cons.prems(4) by (simp add: DICT_CAP_def)
  have u1: "u64 (ht_used (d_ht1 d) + 1) = ht_used (d_ht1 d) + 1" using cap by (intro u64_small) simp
  have u0: "u64 (ht_used (d_ht0 d) + (2 ^ 64 - 1)) = ht_used (d_ht0 d) - 1"
    using cap Cons.prems(3) by (intro u64_dec) auto
  let ?d1 = "d\<lparr>d_ht1 := ?ht1, d_ht0 := (d_ht0 d)\<lparr>ht_used := ht_used (d_ht0 d) - 1\<rparr>\<rparr>"
  have step: "move_chain T (e # es) d = move_chain T es ?d1"
    unfolding move_chain.simps Cons.prems(2) Option.bind.simps Let_def b(4) bucket_index [OF b(1)] rd_in [OF i] wr_in [OF i] u1 u0 ..
  have "\<exists>d' tb'. move_chain T es ?d1 = Some d' \<and> ht_ok T (d_ht1 d') \<and> ht_table (d_ht1 d') = Some tb' \<and>
     mset (concat tb') = mset es + mset (concat ?tb1) \<and>
     d' = ?d1\<lparr>d_ht0 := (d_ht0 ?d1)\<lparr>ht_used := ht_used (d_ht0 ?d1) - length es\<rparr>, d_ht1 := d_ht1 d'\<rparr>"
    using ok1 Cons.prems(3,4) by (intro Cons.IH) auto
  then show ?case unfolding step using ms by auto
qed

lemma skip_null_ok:
  "\<exists>j\<ge>i. j < length tb \<and> tb ! j \<noteq> [] \<Longrightarrow>
     \<exists>j. skip_null tb i = Some j \<and> i \<le> j \<and> j < length tb \<and> tb ! j \<noteq> [] \<and> (\<forall>l. i \<le> l \<and> l < j \<longrightarrow> tb ! l = [])"
proof (induction tb i rule: skip_null.induct)
  case (1 tb i)
  obtain j where j: "j \<ge> i" "j < length tb" "tb ! j \<noteq> []" using "1.prems" by blast
  show ?case
  proof (cases "tb ! i = []")
    case True
    then have "Suc i \<le> j" using j by (metis Suc_leI le_neq_implies_less)
    then obtain k where k: "skip_null tb (Suc i) = Some k" "Suc i \<le> k" "k < length tb" "tb ! k \<noteq> []"
        "\<forall>l. Suc i \<le> l \<and> l < k \<longrightarrow> tb ! l = []"
      using "1.IH" True j by fastforce
    have "skip_null tb i = Some k" using True j k(1) by (subst skip_null.simps) auto
    moreover have "\<forall>l. i \<le> l \<and> l < k \<longrightarrow> tb ! l = []" using k(5) True by (metis Suc_leI le_neq_implies_less)
    ultimately show ?thesis using k by (metis Suc_leD)
  next
    case False
    then show ?thesis using j by (subst skip_null.simps) auto
  qed
qed

lemma entries_cong: "d_ht0 d' = d_ht0 d \<Longrightarrow> d_ht1 d' = d_ht1 d \<Longrightarrow> entries d' = entries d"
  by (simp add: entries_def)

lemma dict_inv_rehashing:
  assumes "dict_inv T d" "dictIsRehashing d"
  obtains tb tb' where "ht_table (d_ht0 d) = Some tb" "ht_table (d_ht1 d) = Some tb'"
    "\<forall>i<nat (d_rehashidx d). i < length tb \<longrightarrow> tb ! i = []" "ht_ok T (d_ht0 d)" "ht_ok T (d_ht1 d)"
    "0 \<le> d_rehashidx d" "uniq T (entries d)" "length (entries d) \<le> DICT_CAP"
  using assms by (fastforce simp: dict_inv_def dictIsRehashing_def)

text \<open>One round of the loop that is not the last: a non-empty bucket moves to the second table.\<close>

lemma rehash_round:
  assumes inv: "dict_inv T d" and re: "dictIsRehashing d" and ne: "ht_used (d_ht0 d) \<noteq> 0"
  shows "\<exists>d'. dictRehash_loop T d (Suc n) = dictRehash_loop T d' n \<and> dict_inv T d' \<and> dictIsRehashing d' \<and>
    mset (entries d') = mset (entries d) \<and> d_iterators d' = d_iterators d \<and>
    ht_used (d_ht0 d') < ht_used (d_ht0 d) \<and> ht_size (d_ht0 d') = ht_size (d_ht0 d)"
proof -
  obtain tb tb' where t: "ht_table (d_ht0 d) = Some tb" "ht_table (d_ht1 d) = Some tb'"
    "\<forall>i<nat (d_rehashidx d). i < length tb \<longrightarrow> tb ! i = []" and ok: "ht_ok T (d_ht0 d)" "ht_ok T (d_ht1 d)"
    and r0: "0 \<le> d_rehashidx d" and u: "uniq T (entries d)" and cap: "length (entries d) \<le> DICT_CAP"
    using dict_inv_rehashing [OF inv re] by metis
  let ?r = "nat (d_rehashidx d)"
  have used: "ht_used (d_ht0 d) = length (concat tb)" "ht_used (d_ht1 d) = length (concat tb')"
    and sz: "ht_size (d_ht0 d) = length tb" using ok t by (auto simp: ht_ok_def)
  have ent: "entries d = concat tb @ concat tb'" using t by (simp add: entries_def tbl_def)
  have "\<exists>j\<ge>?r. j < length tb \<and> tb ! j \<noteq> []"
  proof (rule ccontr)
    assume "\<not> (\<exists>j\<ge>?r. j < length tb \<and> tb ! j \<noteq> [])"
    then have "\<forall>c\<in>set tb. c = []" using t(3) by (metis in_set_conv_nth linorder_not_less)
    then have "concat tb = []" by simp
    then show False using ne used(1) by simp
  qed
  then obtain j where j: "skip_null tb ?r = Some j" "?r \<le> j" "j < length tb" "tb ! j \<noteq> []"
      "\<forall>l. ?r \<le> l \<and> l < j \<longrightarrow> tb ! l = []"
    using skip_null_ok by blast
  let ?c = "tb ! j"
  have mu: "mset (concat (tb[j := []])) + mset ?c = mset (concat tb)" using mset_concat_update [OF j(3), of "[]"] by simp
  then have lu: "length (concat (tb[j := []])) + length ?c = length (concat tb)"
    by (metis size_mset size_union)
  obtain d1 tb1 where m: "move_chain T ?c d = Some d1" "ht_ok T (d_ht1 d1)" "ht_table (d_ht1 d1) = Some tb1"
     "mset (concat tb1) = mset ?c + mset (concat tb')"
     "d1 = d\<lparr>d_ht0 := (d_ht0 d)\<lparr>ht_used := ht_used (d_ht0 d) - length ?c\<rparr>, d_ht1 := d_ht1 d1\<rparr>"
    using move_chain_ok [OF ok(2) t(2), of ?c] lu used cap ent by auto
  define d2 where "d2 = d1\<lparr>d_ht0 := (d_ht0 d1)\<lparr>ht_table := Some (tb[j := []])\<rparr>, d_rehashidx := int j + 1\<rparr>"
  have h0: "d_ht0 d1 = (d_ht0 d)\<lparr>ht_used := ht_used (d_ht0 d) - length ?c\<rparr>" by (subst m(5)) simp
  have d2: "d_ht0 d2 = (d_ht0 d)\<lparr>ht_table := Some (tb[j := []]), ht_used := length (concat (tb[j := []]))\<rparr>"
    "d_ht1 d2 = d_ht1 d1" "d_rehashidx d2 = int j + 1" "d_iterators d2 = d_iterators d"
    using h0 lu used(1) by (simp_all add: d2_def) (subst m(5), simp)
  have "d_rehashidx d < int (length tb)" using j(2,3) r0 by linarith
  then have step: "dictRehash_loop T d (Suc n) = dictRehash_loop T d2 n"
    using ne t(1) j(1-3) m(1) h0 r0 sz by (simp add: rd_in wr_in d2_def)
  have me: "mset (entries d2) = mset (entries d)"
    using mu m(3,4) d2(1,2) ent by (simp add: entries_def tbl_def union_assoc [symmetric])
  have "ht_ok T (d_ht0 d2)" unfolding d2(1) by (rule ht_ok_update [OF ok(1) t(1) j(3)]) simp_all
  moreover have "uniq T (entries d2)" "length (entries d2) \<le> DICT_CAP"
    using uniq_mset [OF me] u mset_eq_length [OF me] cap by auto
  moreover have "\<forall>i<nat (d_rehashidx d2). i < length (tb[j := []]) \<longrightarrow> tb[j := []] ! i = []"
  proof (intro allI impI)
    fix i assume i: "i < nat (d_rehashidx d2)" "i < length (tb[j := []])"
    then have "i = j \<or> i < j" using d2(3) by auto
    then show "tb[j := []] ! i = []" using t(3) j(3,5) i(2) by (cases "i < ?r") auto
  qed
  moreover have re2: "dictIsRehashing d2" using d2(3) by (simp add: dictIsRehashing_def)
  ultimately have "dict_inv T d2" using d2 m(2,3) by (simp add: dict_inv_def)
  moreover have "length (concat (tb[j := []])) < length (concat tb)" using lu j(4) by (cases ?c) auto
  ultimately show ?thesis using step re2 me d2 used(1) by (intro exI [of _ d2]) simp
qed

lemma rehash_last:
  assumes inv: "dict_inv T d" and re: "dictIsRehashing d" and z: "ht_used (d_ht0 d) = 0"
  shows "dict_inv T (d\<lparr>d_ht0 := d_ht1 d, d_ht1 := dictReset, d_rehashidx := - 1\<rparr>)"
    "mset (entries (d\<lparr>d_ht0 := d_ht1 d, d_ht1 := dictReset, d_rehashidx := - 1\<rparr>)) = mset (entries d)"
proof -
  obtain tb tb' where t: "ht_table (d_ht0 d) = Some tb" "ht_table (d_ht1 d) = Some tb'"
    and ok: "ht_ok T (d_ht0 d)" "ht_ok T (d_ht1 d)"
    and u: "uniq T (entries d)" and cap: "length (entries d) \<le> DICT_CAP"
    using dict_inv_rehashing [OF inv re] by metis
  have "concat tb = []" using ok(1) t(1) z by (auto simp: ht_ok_def)
  then have e: "entries (d\<lparr>d_ht0 := d_ht1 d, d_ht1 := dictReset, d_rehashidx := - 1\<rparr>) = entries d"
    using t by (simp add: entries_def tbl_def dictReset_def)
  show "dict_inv T (d\<lparr>d_ht0 := d_ht1 d, d_ht1 := dictReset, d_rehashidx := - 1\<rparr>)"
    using ok(2) u cap e by (simp add: dict_inv_def dictIsRehashing_def ht_ok_def dictReset_def)
  show "mset (entries (d\<lparr>d_ht0 := d_ht1 d, d_ht1 := dictReset, d_rehashidx := - 1\<rparr>)) = mset (entries d)"
    using e by simp
qed

lemma dictRehash_loop_ok:
  assumes "dict_inv T d" "dictIsRehashing d"
  shows "\<exists>d' r. dictRehash_loop T d n = Some (d', r) \<and> dict_inv T d' \<and> mset (entries d') = mset (entries d) \<and>
     r = dictIsRehashing d' \<and> d_iterators d' = d_iterators d \<and> (ht_used (d_ht0 d) < n \<longrightarrow> \<not> r) \<and>
     (ht_size (d_ht0 d) \<noteq> 0 \<longrightarrow> ht_size (d_ht0 d') \<noteq> 0)"
  using assms
proof (induction n arbitrary: d)
  case 0
  then show ?case by simp
next
  case (Suc n)
  show ?case
  proof (cases "ht_used (d_ht0 d) = 0")
    case True
    obtain tb where "ht_table (d_ht1 d) = Some tb" "ht_ok T (d_ht1 d)" using dict_inv_rehashing [OF Suc.prems] by metis
    then have "ht_size (d_ht1 d) \<noteq> 0" by (auto simp: ht_ok_def)
    then show ?thesis using True rehash_last [OF Suc.prems True] by (simp add: dictIsRehashing_def)
  next
    case False
    obtain d1 where d1: "dictRehash_loop T d (Suc n) = dictRehash_loop T d1 n" "dict_inv T d1" "dictIsRehashing d1"
      "mset (entries d1) = mset (entries d)" "d_iterators d1 = d_iterators d"
      "ht_used (d_ht0 d1) < ht_used (d_ht0 d)" "ht_size (d_ht0 d1) = ht_size (d_ht0 d)"
      using rehash_round [OF Suc.prems False] by blast
    then show ?thesis using Suc.IH [OF d1(2,3)] by auto
  qed
qed

text \<open>The step other operations take before their own work.\<close>

lemma step_if_rehashing:
  assumes "dict_inv T d"
  shows "\<exists>d'. (if dictIsRehashing d then dictRehashStep T d else Some d) = Some d' \<and> dict_inv T d' \<and>
     mset (entries d') = mset (entries d) \<and> (ht_size (d_ht0 d) \<noteq> 0 \<longrightarrow> ht_size (d_ht0 d') \<noteq> 0)"
proof (cases "dictIsRehashing d \<and> d_iterators d = 0")
  case True
  then obtain d' r where "dictRehash_loop T d 1 = Some (d', r)" "dict_inv T d'" "mset (entries d') = mset (entries d)"
      "ht_size (d_ht0 d) \<noteq> 0 \<longrightarrow> ht_size (d_ht0 d') \<noteq> 0"
    using dictRehash_loop_ok [OF assms, of 1] by blast
  then show ?thesis using True by (simp add: dictRehashStep_def dictRehash_def del: dictRehash_loop.simps)
next
  case False
  then show ?thesis using assms by (auto simp: dictRehashStep_def)
qed

section \<open>Growing\<close>

lemma dictNextPower_loop_ok:
  assumes "i = 2 ^ a" "sz \<le> 2 ^ 31" "a \<le> 31"
  shows "\<exists>b\<le>31. dictNextPower_loop i sz = Some (2 ^ b) \<and> sz \<le> 2 ^ b"
  using assms
proof (induction "31 - a" arbitrary: a i)
  case 0
  then have "a = 31" by simp
  then show ?case using 0 by (subst dictNextPower_loop.simps) auto
next
  case (Suc n)
  show ?case
  proof (cases "i \<ge> sz")
    case True
    then show ?thesis using Suc.prems by (subst dictNextPower_loop.simps) auto
  next
    case False
    have a: "n = 31 - Suc a" "Suc a \<le> 31" using Suc.hyps(2) by simp_all
    have "(2::nat) ^ Suc a \<le> 2 ^ 31" by (rule power_increasing [OF a(2)]) simp
    then have "u64 (i * 2) = 2 ^ Suc a" using Suc.prems(1) by (subst u64_id) simp_all
    then show ?thesis using Suc.hyps(1) [OF a(1), of "2 ^ Suc a"] a(2) Suc.prems(2) False
      by (subst dictNextPower_loop.simps) (auto simp: mult.commute)
  qed
qed

lemma dictNextPower_ok:
  assumes "sz \<le> 2 ^ 31"
  shows "\<exists>b\<le>31. dictNextPower sz = Some (2 ^ b) \<and> sz \<le> 2 ^ b"
proof -
  have "\<not> LONG_MAX_nat \<le> sz" using assms by (simp add: LONG_MAX_nat_def)
  then show ?thesis using dictNextPower_loop_ok [of 4 2 sz] assms
    by (simp add: dictNextPower_def DICT_HT_INITIAL_SIZE_def)
qed

lemma concat_replicate_Nil [simp]: "concat (replicate n []) = []"
  by (induction n) simp_all

text \<open>An expansion that is allowed changes no entry.\<close>

lemma dictExpand_ok:
  assumes inv: "dict_inv T d" and nre: "\<not> dictIsRehashing d" and sz: "ht_used (d_ht0 d) \<le> sz" "sz \<le> 2 ^ 31"
  shows "\<exists>d'. dictExpand d sz = Some (d', DICT_OK) \<and> dict_inv T d' \<and> entries d' = entries d \<and>
     ht_size (d_ht0 d') \<noteq> 0 \<and> d_iterators d' = d_iterators d"
proof -
  obtain b where b: "b \<le> 31" "dictNextPower sz = Some (2 ^ b)" using dictNextPower_ok [OF sz(2)] by blast
  let ?n = "\<lparr>ht_table = Some (replicate (2 ^ b) []), ht_size = 2 ^ b, ht_sizemask = 2 ^ b - 1, ht_used = 0\<rparr>"
  have "u64 (2 ^ b + (2 ^ 64 - 1)) = 2 ^ b - 1" using two_pow_31 [OF b(1)] by (intro u64_dec) auto
  then have ex: "dictExpand d sz = Some (if ht_table (d_ht0 d) = None then d\<lparr>d_ht0 := ?n\<rparr>
       else d\<lparr>d_ht1 := ?n, d_rehashidx := 0\<rparr>, DICT_OK)"
    unfolding dictExpand_def b(2) Option.bind.simps Let_def using nre sz(1) by simp
  have okn: "ht_ok T ?n" using b(1) by (auto simp: ht_ok_def)
  have h1: "d_ht1 d = dictReset" and ok0: "ht_ok T (d_ht0 d)" and u: "uniq T (entries d)" "length (entries d) \<le> DICT_CAP"
    using inv nre by (auto simp: dict_inv_def)
  show ?thesis
  proof (cases "ht_table (d_ht0 d)")
    case None
    then have "entries (d\<lparr>d_ht0 := ?n\<rparr>) = entries d" by (simp add: entries_def tbl_def)
    then show ?thesis using ex None okn inv nre u by (auto simp: dict_inv_def dictIsRehashing_def)
  next
    case (Some tb)
    then have "entries (d\<lparr>d_ht1 := ?n, d_rehashidx := 0\<rparr>) = entries d"
      using h1 by (simp add: entries_def tbl_def dictReset_def)
    moreover have "ht_size (d_ht0 d) \<noteq> 0" using Some ok0 by (auto simp: ht_ok_def)
    ultimately show ?thesis using ex Some okn ok0 u by (auto simp: dict_inv_def dictIsRehashing_def)
  qed
qed

lemma dictExpandIfNeeded_ok:
  assumes inv: "dict_inv T d"
  shows "\<exists>d'. dictExpandIfNeeded cr d = Some (d', DICT_OK) \<and> dict_inv T d' \<and> entries d' = entries d \<and>
     ht_size (d_ht0 d') \<noteq> 0"
proof -
  have tb0: "ht_size (d_ht0 d) \<noteq> 0" if re: "dictIsRehashing d"
  proof -
    obtain tb where "ht_table (d_ht0 d) = Some tb" "ht_ok T (d_ht0 d)" using dict_inv_rehashing [OF inv re] by metis
    then show ?thesis by (auto simp: ht_ok_def)
  qed
  have ok0: "ht_ok T (d_ht0 d)" and cap: "length (entries d) \<le> DICT_CAP" using inv by (auto simp: dict_inv_def)
  have used: "ht_used (d_ht0 d) \<le> 1073741824"
    using ok0 cap by (auto simp: ht_ok_def entries_def tbl_def DICT_CAP_def dictReset_def split: option.splits)
  have z: "ht_used (d_ht0 d) = 0" if "ht_size (d_ht0 d) = 0"
    using ok0 that by (auto simp: ht_ok_def dictReset_def split: option.splits)
  show ?thesis
  proof (cases "dictIsRehashing d")
    case True
    then show ?thesis using inv tb0 by (simp add: dictExpandIfNeeded_def)
  next
    case nre: False
    have "u64 (ht_used (d_ht0 d) * 2) = ht_used (d_ht0 d) * 2" using used by (intro u64_small) simp
    then show ?thesis
      using dictExpand_ok [OF inv nre, of 4] dictExpand_ok [OF inv nre, of "ht_used (d_ht0 d) * 2"] z used inv nre
      by (auto simp: dictExpandIfNeeded_def DICT_HT_INITIAL_SIZE_def)
  qed
qed

section \<open>Lookup, insertion and deletion over lists of entries\<close>

lemma hits_Cons: "hits T k (e # es) = (if dictCompareKeys T k (fst e) then e # hits T k es else hits T k es)"
  by (simp add: hits_def)

lemma cmp_cong:
  "dictType_ok T \<Longrightarrow> dictCompareKeys T a b \<Longrightarrow> dictCompareKeys T c a \<longleftrightarrow> dictCompareKeys T c b"
  by (metis cmp_sym cmp_trans)

lemma hits_cong: "dictType_ok T \<Longrightarrow> dictCompareKeys T a b \<Longrightarrow> hits T a es = hits T b es"
  unfolding hits_def by (intro filter_cong refl) (metis cmp_sym cmp_trans)

lemma lookup_Cons:
  "lookup T (e # es) k = (if dictCompareKeys T k (fst e) then Some (snd e) else lookup T es k)"
  by (simp add: lookup_def hits_Cons)

lemma uniq_Cons:
  assumes "dictType_ok T"
  shows "uniq T (e # es) \<longleftrightarrow> hits T (fst e) es = [] \<and> uniq T es"
proof
  assume u: "uniq T (e # es)"
  then have "length (hits T (fst e) (e # es)) \<le> 1" unfolding uniq_def by blast
  then have "hits T (fst e) es = []" using cmp_refl [OF assms] by (simp add: hits_Cons)
  moreover have "length (hits T k es) \<le> 1" for k
  proof -
    have "length (hits T k (e # es)) \<le> 1" using u unfolding uniq_def by blast
    then show ?thesis by (auto simp: hits_Cons split: if_splits)
  qed
  ultimately show "hits T (fst e) es = [] \<and> uniq T es" by (simp add: uniq_def)
next
  assume h: "hits T (fst e) es = [] \<and> uniq T es"
  have "length (hits T k (e # es)) \<le> 1" for k
    using h hits_cong [OF assms, of k "fst e" es] by (auto simp: hits_Cons uniq_def)
  then show "uniq T (e # es)" by (simp add: uniq_def)
qed

text \<open>Adding, removing and replacing the entry of a key.\<close>

lemma lookup_add:
  assumes "dictType_ok T" "mset es' = mset (e # es)" "hits T k es = []" "uniq T es" "dictCompareKeys T k (fst e)"
  shows "uniq T es'" "lookup T es' k' = (if dictCompareKeys T k' k then Some (snd e) else lookup T es k')"
proof -
  have "hits T (fst e) es = []" using hits_cong [OF assms(1,5)] assms(3) by metis
  then have u: "uniq T (e # es)" using assms(1,4) by (simp add: uniq_Cons)
  then show "uniq T es'" using uniq_mset [OF assms(2)] by blast
  have "lookup T es' k' = lookup T (e # es) k'" using lookup_mset [OF assms(2)] uniq_mset [OF assms(2)] u by metis
  then show "lookup T es' k' = (if dictCompareKeys T k' k then Some (snd e) else lookup T es k')"
    using cmp_cong [OF assms(1,5)] by (simp add: lookup_Cons)
qed

lemma lookup_remove:
  assumes "dictType_ok T" "mset es = mset (e # es')" "uniq T es" "dictCompareKeys T k (fst e)"
  shows "uniq T es'" "hits T k es' = []" "lookup T es' k' = (if dictCompareKeys T k' k then None else lookup T es k')"
proof -
  have u: "uniq T (e # es')" using uniq_mset [OF assms(2)] assms(3) by blast
  then have h: "hits T (fst e) es' = []" and u': "uniq T es'" using assms(1) by (simp_all add: uniq_Cons)
  show "uniq T es'" by (rule u')
  show hk: "hits T k es' = []" using hits_cong [OF assms(1,4)] h by metis
  have l: "lookup T es k' = lookup T (e # es') k'" using lookup_mset [OF assms(2,3)] by metis
  show "lookup T es' k' = (if dictCompareKeys T k' k then None else lookup T es k')"
  proof (cases "dictCompareKeys T k' k")
    case True
    then have "hits T k' es' = []" using hits_cong [OF assms(1) True] hk by metis
    then show ?thesis using True by (simp add: lookup_def)
  next
    case False
    then show ?thesis using l cmp_cong [OF assms(1,4)] by (simp add: lookup_Cons)
  qed
qed

section \<open>Locating an entry\<close>

text \<open>What \<open>dictFind\<close>, \<open>dictGenericDelete\<close> and \<open>_dictKeyIndex\<close> share: the search in both tables.\<close>

definition locate :: "('k, 'v) dictType \<Rightarrow> ('k, 'v) dict \<Rightarrow> 'k \<Rightarrow> eloc option option" where
  "locate T d key =
     do {
       (idx, c) \<leftarrow> bucket d 0 (dictHashKey T key);
       case chain_find T key c 0 of
         Some j \<Rightarrow> Some (Some (0, idx, j))
       | None \<Rightarrow>
           if \<not> dictIsRehashing d then Some None
           else do {
             (idx, c) \<leftarrow> bucket d 1 (dictHashKey T key);
             Some (map_option (\<lambda>j. (1, idx, j)) (chain_find T key c 0))
           }
     }"

lemma dict_inv_table0:
  assumes "dict_inv T d" "ht_size (d_ht0 d) \<noteq> 0"
  obtains tb where "ht_table (d_ht0 d) = Some tb" "ht_ok T (d_ht0 d)"
  using assms by (cases "ht_table (d_ht0 d)") (auto simp: dict_inv_def ht_ok_def dictReset_def)

lemma chain_hit:
  assumes "chain_find T k c 0 = Some j" "length (hits T k c) \<le> 1"
  shows "j < length c" "dictCompareKeys T k (fst (c ! j))" "hits T k c = [c ! j]"
  using chain_find_Some [OF assms(1)] assms(2) by (auto simp: le_Suc_eq length_Suc_conv)

text \<open>Which entry a location holds, and that its chain is where the hash says.\<close>

lemma locate_ok:
  assumes T: "dictType_ok T" and inv: "dict_inv T d" and sz: "ht_size (d_ht0 d) \<noteq> 0"
  shows "\<exists>p. locate T d k = Some p \<and>
     (case p of None \<Rightarrow> hits T k (entries d) = []
      | Some (t, i, j) \<Rightarrow> t \<le> 1 \<and> (\<exists>tb. ht_table (get_ht d t) = Some tb \<and> i < length tb \<and> j < length (tb ! i) \<and>
           hits T k (entries d) = [tb ! i ! j] \<and> dictCompareKeys T k (fst (tb ! i ! j))))"
proof -
  obtain tb where tb: "ht_table (d_ht0 d) = Some tb" "ht_ok T (d_ht0 d)" using dict_inv_table0 [OF inv sz] by metis
  obtain i where i: "bucket d 0 (dictHashKey T k) = Some (i, tb ! i)" "i < length tb" "hits T k (concat tb) = hits T k (tb ! i)"
    using bucket_ok [OF T, of d 0 tb k] tb by (auto simp: get_ht_def)
  have one: "length (hits T k (entries d)) \<le> 1" using inv by (auto simp: dict_inv_def uniq_def)
  have ent: "hits T k (entries d) = hits T k (tb ! i) @ hits T k (tbl (d_ht1 d))" using tb i(3) by (simp add: entries_def tbl_def)
  show ?thesis
  proof (cases "chain_find T k (tb ! i) 0")
    case (Some j)
    have "length (hits T k (tb ! i)) \<le> 1" using one ent by simp
    note c = chain_hit [OF Some this]
    have "hits T k (tbl (d_ht1 d)) = []" using one ent c(3) by simp
    then show ?thesis using Some i c ent tb(1) by (simp add: locate_def get_ht_def)
  next
    case None
    then have z: "hits T k (tb ! i) = []" by (simp add: chain_find_None)
    show ?thesis
    proof (cases "dictIsRehashing d")
      case False
      then have "d_ht1 d = dictReset" using inv by (simp add: dict_inv_def)
      then show ?thesis using None i False ent z by (simp add: locate_def tbl_def dictReset_def)
    next
      case True
      obtain tb' where tb': "ht_table (d_ht1 d) = Some tb'" "ht_ok T (d_ht1 d)" using dict_inv_rehashing [OF inv True] by metis
      obtain i' where i': "bucket d 1 (dictHashKey T k) = Some (i', tb' ! i')" "i' < length tb'" "hits T k (concat tb') = hits T k (tb' ! i')"
        using bucket_ok [OF T, of d 1 tb' k] tb' by (auto simp: get_ht_def)
      have ent': "hits T k (entries d) = hits T k (tb' ! i')" using ent z tb'(1) i'(3) by (simp add: tbl_def)
      show ?thesis
      proof (cases "chain_find T k (tb' ! i') 0")
        case None': None
        then have "hits T k (tb' ! i') = []" by (simp add: chain_find_None)
        then show ?thesis using None None' i True i' ent' by (simp add: locate_def)
      next
        case (Some j)
        have "length (hits T k (tb' ! i')) \<le> 1" using one ent' by simp
        note c = chain_hit [OF Some this]
        then show ?thesis using Some None i i' True ent' tb'(1) by (simp add: locate_def get_ht_def)
      qed
    qed
  qed
qed

section \<open>Updating one chain\<close>

text \<open>
  All changes of the entries replace one chain: adding pushes an entry, deleting takes one
  out, setting a value replaces one.
\<close>

abbreviation upd_chain :: "('k, 'v) dict \<Rightarrow> nat \<Rightarrow> ('k, 'v) chain list \<Rightarrow> nat \<Rightarrow> ('k, 'v) chain \<Rightarrow> ('k, 'v) dict" where
  "upd_chain d t tb i c \<equiv>
     put_ht d t ((get_ht d t)\<lparr>ht_table := Some (tb[i := c]), ht_used := length (concat (tb[i := c]))\<rparr>)"

lemma upd_chain_mset:
  assumes "ht_table (get_ht d t) = Some tb" "i < length tb" "t \<le> 1"
  shows "mset (entries (upd_chain d t tb i c)) + mset (tb ! i) = mset (entries d) + mset c"
  using assms mset_concat_update [OF assms(2), of c]
  by (auto simp: entries_def tbl_def put_ht_def get_ht_def le_Suc_eq split: if_splits)

lemma upd_chain_inv:
  assumes inv: "dict_inv T d" and tb: "ht_table (get_ht d t) = Some tb" "i < length tb" "t \<le> 1"
    and c: "\<forall>e\<in>set c. dictHashKey T (fst e) mod ht_size (get_ht d t) = i"
    and u: "uniq T (entries (upd_chain d t tb i c))" "length (entries (upd_chain d t tb i c)) \<le> DICT_CAP"
    and r: "t = 0 \<Longrightarrow> dictIsRehashing d \<Longrightarrow> tb ! i \<noteq> []"
  shows "dict_inv T (upd_chain d t tb i c)"
proof -
  have ok: "ht_ok T (get_ht d t)" using inv by (auto simp: dict_inv_def get_ht_def)
  note ok' = ht_ok_update [OF ok tb(1,2) c refl]
  show ?thesis
  proof (cases "t = 0")
    case True
    have "dict_inv T (d\<lparr>d_ht0 := (d_ht0 d)\<lparr>ht_table := Some (tb[i := c]), ht_used := length (concat (tb[i := c]))\<rparr>\<rparr>)"
      using inv ok' u tb r True
      by (auto simp: dict_inv_def put_ht_def get_ht_def dictIsRehashing_def nth_list_update)
    then show ?thesis using True by (simp add: put_ht_def get_ht_def)
  next
    case False
    have "dictIsRehashing d" using inv False tb(1) by (auto simp: dict_inv_def get_ht_def dictReset_def split: if_splits)
    then have "dict_inv T (d\<lparr>d_ht1 := (d_ht1 d)\<lparr>ht_table := Some (tb[i := c]), ht_used := length (concat (tb[i := c]))\<rparr>\<rparr>)"
      using inv ok' u tb False by (auto simp: dict_inv_def put_ht_def get_ht_def dictIsRehashing_def)
    then show ?thesis using False by (simp add: put_ht_def get_ht_def)
  qed
qed

lemma mset_nth_split: "j < length c \<Longrightarrow> mset c = add_mset (c ! j) (mset (take j c @ drop (Suc j) c))"
  by (subst id_take_nth_drop [of j c]) simp_all

lemma chain_hash:
  "dict_inv T d \<Longrightarrow> ht_table (get_ht d t) = Some tb \<Longrightarrow> i < length tb \<Longrightarrow> e \<in> set (tb ! i) \<Longrightarrow>
     dictHashKey T (fst e) mod ht_size (get_ht d t) = i"
  by (auto simp: dict_inv_def ht_ok_def get_ht_def split: if_splits)

lemma get_ht_used:
  "dict_inv T d \<Longrightarrow> ht_table (get_ht d t) = Some tb \<Longrightarrow> ht_used (get_ht d t) = length (concat tb)"
  by (auto simp: dict_inv_def ht_ok_def get_ht_def split: if_splits)

lemma mset_swap:
  assumes "add_mset a M' = add_mset b M" "a \<in># M"
  shows "M = add_mset a (M - {#a#})" "M' = add_mset b (M - {#a#})"
proof -
  show m: "M = add_mset a (M - {#a#})" using assms(2) by simp
  have "add_mset a M' = add_mset a (add_mset b (M - {#a#}))" using assms(1) by (subst (asm) m) (simp add: add_mset_commute)
  then show "M' = add_mset b (M - {#a#})" by simp
qed

lemma entry_in:
  assumes "ht_table (get_ht d t) = Some tb" "i < length tb" "j < length (tb ! i)" "t \<le> 1"
  shows "tb ! i ! j \<in># mset (entries d)"
proof -
  have "tb ! i ! j \<in> set (concat tb)" using assms(2,3) by (auto intro!: bexI [of _ "tb ! i"])
  then show ?thesis using assms(1,4) by (auto simp: entries_def tbl_def get_ht_def split: if_splits)
qed

text \<open>Setting the value of an entry.\<close>

lemma dictSetVal_ok:
  assumes inv: "dict_inv T d" and T: "dictType_ok T" and tb: "ht_table (get_ht d t) = Some tb" "i < length tb" "j < length (tb ! i)" "t \<le> 1"
    and k: "dictCompareKeys T k (fst (tb ! i ! j))"
  shows "\<exists>d'. dictSetVal T d (t, i, j) v = Some d' \<and> dict_inv T d' \<and> length (entries d') = length (entries d) \<and>
     (\<forall>k'. lookup T (entries d') k' = (if dictCompareKeys T k' k then Some (dup_val T v) else lookup T (entries d) k'))"
proof -
  let ?e = "tb ! i ! j" and ?e' = "(fst (tb ! i ! j), dup_val T v)"
  let ?c = "(tb ! i)[j := ?e']"
  obtain rest where rest: "mset (tb ! i) = add_mset ?e rest" "mset ?c = add_mset ?e' rest"
    using mset_nth_split [OF tb(3)] mset_nth_split [of j ?c] tb(3) by simp
  have len: "length (concat (tb[i := ?c])) = length (concat tb)"
    using mset_concat_update [OF tb(2), of ?c] rest
    by (metis add_right_cancel length_list_update size_mset size_union)
  have used: "ht_used (get_ht d t) = length (concat tb)" using get_ht_used [OF inv tb(1)] .
  have "put_ht d t ((get_ht d t)\<lparr>ht_table := Some (tb[i := ?c])\<rparr>) = upd_chain d t tb i ?c"
    unfolding len using used by (metis dictht.surjective dictht.update_convs(1,4))
  then have run: "dictSetVal T d (t, i, j) v = Some (upd_chain d t tb i ?c)"
    using tb by (simp add: dictSetVal_def get_entry_def put_entry_def rd_in wr_in case_prod_beta)
  have m: "mset (entries (upd_chain d t tb i ?c)) + mset (tb ! i) = mset (entries d) + mset ?c"
    by (rule upd_chain_mset [OF tb(1,2,4)])
  have u: "uniq T (entries d)" "length (entries d) \<le> DICT_CAP" using inv by (auto simp: dict_inv_def)
  have "add_mset ?e (mset (entries (upd_chain d t tb i ?c))) = add_mset ?e' (mset (entries d))" using m rest by simp
  then obtain E where E: "mset (entries d) = add_mset ?e E" "mset (entries (upd_chain d t tb i ?c)) = add_mset ?e' E"
    using mset_swap [OF _ entry_in [OF tb]] by metis
  obtain es where es: "mset es = E" by (metis ex_mset)
  have rm: "uniq T es" "hits T k es = []" "\<And>k'. lookup T es k' = (if dictCompareKeys T k' k then None else lookup T (entries d) k')"
    using lookup_remove [OF T _ u(1) k, of es] E(1) es by auto
  have m2: "mset (entries (upd_chain d t tb i ?c)) = mset (?e' # es)" using E(2) es by simp
  have k': "dictCompareKeys T k (fst ?e')" using k by simp
  note ad = lookup_add [OF T m2 rm(2,1) k']
  have le: "length (entries (upd_chain d t tb i ?c)) = length (entries d)" using E by (metis size_add_mset size_mset)
  have "dict_inv T (upd_chain d t tb i ?c)"
  proof (rule upd_chain_inv [OF inv tb(1,2,4) _ ad(1)])
    show "\<forall>e\<in>set ?c. dictHashKey T (fst e) mod ht_size (get_ht d t) = i"
    proof
      fix e assume "e \<in> set ?c"
      then have "e = ?e' \<or> e \<in> set (tb ! i)" using set_update_subset_insert [of "tb ! i" j ?e'] by blast
      then show "dictHashKey T (fst e) mod ht_size (get_ht d t) = i"
        using chain_hash [OF inv tb(1,2) nth_mem [OF tb(3)]] chain_hash [OF inv tb(1,2), of e] by (metis fst_conv)
    qed
    show "length (entries (upd_chain d t tb i ?c)) \<le> DICT_CAP" using le u(2) by simp
    show "tb ! i \<noteq> []" using tb(3) by auto
  qed
  moreover have "lookup T (entries (upd_chain d t tb i ?c)) k' = (if dictCompareKeys T k' k then Some (dup_val T v) else lookup T (entries d) k')" for k'
    using ad(2) [of k'] rm(3) [of k'] by simp
  ultimately show ?thesis using run le by blast
qed

text \<open>Taking an entry out.\<close>

lemma unlink_entry_ok:
  assumes inv: "dict_inv T d" and T: "dictType_ok T" and tb: "ht_table (get_ht d t) = Some tb" "i < length tb" "j < length (tb ! i)" "t \<le> 1"
    and k: "dictCompareKeys T k (fst (tb ! i ! j))"
  shows "\<exists>d'. unlink_entry d (t, i, j) = Some (d', tb ! i ! j) \<and> dict_inv T d' \<and> Suc (length (entries d')) = length (entries d) \<and>
     (\<forall>k'. lookup T (entries d') k' = (if dictCompareKeys T k' k then None else lookup T (entries d) k'))"
proof -
  let ?e = "tb ! i ! j" and ?c = "take j (tb ! i) @ drop (Suc j) (tb ! i)"
  have mc: "mset (tb ! i) = add_mset ?e (mset ?c)" using mset_nth_split [OF tb(3)] by simp
  have u: "uniq T (entries d)" "length (entries d) \<le> DICT_CAP" using inv by (auto simp: dict_inv_def)
  have len: "Suc (length (concat (tb[i := ?c]))) = length (concat tb)"
  proof -
    have "add_mset ?e (mset (concat (tb[i := ?c]))) = mset (concat tb)" using mset_concat_update [OF tb(2), of ?c] mc by simp
    then show ?thesis by (metis size_add_mset size_mset)
  qed
  have used: "ht_used (get_ht d t) = length (concat tb)" using get_ht_used [OF inv tb(1)] .
  have "length (concat tb) \<le> length (entries d)" using tb(1,4) by (auto simp: entries_def tbl_def get_ht_def split: if_splits)
  then have small: "length (concat tb) \<le> 18446744073709551615" using u(2) by (simp add: DICT_CAP_def)
  have pos: "0 < length (concat tb)" using len by linarith
  have "u64 (ht_used (get_ht d t) + (2 ^ 64 - 1)) = length (concat (tb[i := ?c]))"
    unfolding used u64_dec [OF pos small] using len by linarith
  then have run: "unlink_entry d (t, i, j) = Some (upd_chain d t tb i ?c, ?e)"
    using tb by (simp add: unlink_entry_def rd_in wr_in)
  have "mset (entries (upd_chain d t tb i ?c)) + mset (tb ! i) = mset (entries d) + mset ?c"
    by (rule upd_chain_mset [OF tb(1,2,4)])
  then have m: "mset (entries d) = mset (?e # entries (upd_chain d t tb i ?c))" using mc by simp
  note rm = lookup_remove [OF T m u(1) k]
  have le: "Suc (length (entries (upd_chain d t tb i ?c))) = length (entries d)" using mset_eq_length [OF m] by simp
  have "dict_inv T (upd_chain d t tb i ?c)"
  proof (rule upd_chain_inv [OF inv tb(1,2,4) _ rm(1)])
    show "\<forall>e\<in>set ?c. dictHashKey T (fst e) mod ht_size (get_ht d t) = i"
      using chain_hash [OF inv tb(1,2)] by (auto dest: in_set_takeD in_set_dropD)
    show "length (entries (upd_chain d t tb i ?c)) \<le> DICT_CAP" using le u(2) by simp
    show "tb ! i \<noteq> []" using tb(3) by auto
  qed
  then show ?thesis using run le rm(3) by blast
qed

text \<open>Pushing an entry.\<close>

lemma push_entry_ok:
  assumes inv: "dict_inv T d" and T: "dictType_ok T" and tb: "ht_table (get_ht d t) = Some tb" "i < length tb" "t \<le> 1"
    and i: "i = dictHashKey T k mod ht_size (get_ht d t)" and re: "t = (if dictIsRehashing d then 1 else 0)"
    and h: "hits T k (entries d) = []" and cap: "length (entries d) < DICT_CAP" and k: "dictCompareKeys T k (fst e)"
  shows "dict_inv T (upd_chain d t tb i (e # tb ! i))"
    "length (entries (upd_chain d t tb i (e # tb ! i))) = Suc (length (entries d))"
    "lookup T (entries (upd_chain d t tb i (e # tb ! i))) k' = (if dictCompareKeys T k' k then Some (snd e) else lookup T (entries d) k')"
proof -
  have "mset (entries (upd_chain d t tb i (e # tb ! i))) + mset (tb ! i) = mset (entries d) + mset (e # tb ! i)"
    by (rule upd_chain_mset [OF tb])
  then have m: "mset (entries (upd_chain d t tb i (e # tb ! i))) = mset (e # entries d)" by simp
  have u: "uniq T (entries d)" using inv by (auto simp: dict_inv_def)
  note ad = lookup_add [OF T m h u k]
  show le: "length (entries (upd_chain d t tb i (e # tb ! i))) = Suc (length (entries d))" using mset_eq_length [OF m] by simp
  show "dict_inv T (upd_chain d t tb i (e # tb ! i))"
  proof (rule upd_chain_inv [OF inv tb _ ad(1)])
    have "dictHashKey T (fst e) = dictHashKey T k" using cmp_hash [OF T k] by simp
    then show "\<forall>e\<in>set (e # tb ! i). dictHashKey T (fst e) mod ht_size (get_ht d t) = i"
      using chain_hash [OF inv tb(1,2)] i by auto
    show "length (entries (upd_chain d t tb i (e # tb ! i))) \<le> DICT_CAP" using le cap by simp
    show "tb ! i \<noteq> []" if "t = 0" "dictIsRehashing d" using that re by simp
  qed
  show "lookup T (entries (upd_chain d t tb i (e # tb ! i))) k' = (if dictCompareKeys T k' k then Some (snd e) else lookup T (entries d) k')"
    by (rule ad(2))
qed

section \<open>The operations refine those of partial functions\<close>

lemma dict_rep_step:
  assumes "dict_rep T d m"
  shows "\<exists>d'. (if dictIsRehashing d then dictRehashStep T d else Some d) = Some d' \<and> dict_rep T d' m \<and>
     length (entries d') = length (entries d) \<and> (ht_size (d_ht0 d) \<noteq> 0 \<longrightarrow> ht_size (d_ht0 d') \<noteq> 0)"
proof -
  have inv: "dict_inv T d" using assms by (simp add: dict_rep_def)
  obtain d' where d': "(if dictIsRehashing d then dictRehashStep T d else Some d) = Some d'" "dict_inv T d'"
     "mset (entries d') = mset (entries d)" "ht_size (d_ht0 d) \<noteq> 0 \<longrightarrow> ht_size (d_ht0 d') \<noteq> 0"
    using step_if_rehashing [OF inv] by blast
  have "lookup T (entries d') = lookup T (entries d)" using d'(2,3) by (intro lookup_mset) (auto simp: dict_inv_def)
  then have "dict_rep T d' m" using assms d'(2) by (simp add: dict_rep_def)
  then show ?thesis using d'(1,4) mset_eq_length [OF d'(3)] by blast
qed

lemma empty_lookup:
  assumes "dict_rep T d m" "ht_size (d_ht0 d) = 0"
  shows "m = (\<lambda>_. None)" "entries d = []"
proof -
  have inv: "dict_inv T d" using assms by (simp add: dict_rep_def)
  have ok0: "ht_ok T (d_ht0 d)" using inv by (simp add: dict_inv_def)
  have t0: "ht_table (d_ht0 d) = None" using ok0 assms(2) by (auto simp: ht_ok_def split: option.splits)
  then have "\<not> dictIsRehashing d" using inv by (auto simp: dict_inv_def)
  then have "d_ht1 d = dictReset" using inv by (simp add: dict_inv_def)
  then show e: "entries d = []" using t0 by (simp add: entries_def tbl_def dictReset_def)
  show "m = (\<lambda>_. None)" using assms(1) e by (auto simp: dict_rep_def lookup_def)
qed

text \<open>A search result: the location of the entry of the key, or nothing when the key is absent.\<close>

definition loc_ok :: "('k, 'v) dictType \<Rightarrow> ('k, 'v) dict \<Rightarrow> ('k \<Rightarrow> 'v option) \<Rightarrow> 'k \<Rightarrow> eloc option \<Rightarrow> bool" where
  "loc_ok T d m k p =
     (case p of None \<Rightarrow> m k = None \<and> hits T k (entries d) = []
      | Some (t, i, j) \<Rightarrow> t \<le> 1 \<and> (\<exists>tb. ht_table (get_ht d t) = Some tb \<and> i < length tb \<and> j < length (tb ! i) \<and>
           dictCompareKeys T k (fst (tb ! i ! j)) \<and> m k = Some (snd (tb ! i ! j))))"

lemma locate_rep:
  assumes "dictType_ok T" "dict_rep T d m" "ht_size (d_ht0 d) \<noteq> 0"
  shows "\<exists>p. locate T d k = Some p \<and> loc_ok T d m k p"
proof -
  have inv: "dict_inv T d" and m: "m = lookup T (entries d)" using assms(2) by (auto simp: dict_rep_def)
  obtain p where p: "locate T d k = Some p"
     "case p of None \<Rightarrow> hits T k (entries d) = []
      | Some (t, i, j) \<Rightarrow> t \<le> 1 \<and> (\<exists>tb. ht_table (get_ht d t) = Some tb \<and> i < length tb \<and> j < length (tb ! i) \<and>
           hits T k (entries d) = [tb ! i ! j] \<and> dictCompareKeys T k (fst (tb ! i ! j)))"
    using locate_ok [OF assms(1) inv assms(3)] by blast
  then have "loc_ok T d m k p"
    by (cases p) (auto simp: loc_ok_def m lookup_def split: prod.splits)
  then show ?thesis using p(1) by blast
qed

lemma dictFind_rep:
  assumes "dictType_ok T" "dict_rep T d m"
  shows "\<exists>d' p. dictFind T d k = Some (d', p) \<and> dict_rep T d' m \<and> loc_ok T d' m k p \<and>
     length (entries d') = length (entries d)"
proof (cases "ht_size (d_ht0 d) = 0")
  case True
  then show ?thesis using empty_lookup [OF assms(2) True] assms(2) by (simp add: dictFind_def loc_ok_def)
next
  case False
  obtain d' where d': "(if dictIsRehashing d then dictRehashStep T d else Some d) = Some d'" "dict_rep T d' m"
     "length (entries d') = length (entries d)" "ht_size (d_ht0 d') \<noteq> 0"
    using dict_rep_step [OF assms(2)] False by blast
  obtain p where p: "locate T d' k = Some p" "loc_ok T d' m k p" using locate_rep [OF assms(1) d'(2,4)] by blast
  have "dictFind T d k = locate T d' k \<bind> (\<lambda>p. Some (d', p))"
    unfolding dictFind_def d'(1) locate_def using False
    by (auto simp: Let_def split: bind_splits option.splits)
  then show ?thesis using p d' by simp
qed

lemma dictFetchValue_rep:
  assumes "dictType_ok T" "dict_rep T d m"
  shows "\<exists>d'. dictFetchValue T d k = Some (d', m k) \<and> dict_rep T d' m \<and> length (entries d') = length (entries d)"
proof -
  obtain d' p where f: "dictFind T d k = Some (d', p)" "dict_rep T d' m" "loc_ok T d' m k p" "length (entries d') = length (entries d)"
    using dictFind_rep [OF assms] by blast
  then show ?thesis by (cases p) (auto simp: dictFetchValue_def loc_ok_def get_entry_def rd_in)
qed

definition del :: "('k, 'v) dictType \<Rightarrow> ('k \<Rightarrow> 'v option) \<Rightarrow> 'k \<Rightarrow> 'k \<Rightarrow> 'v option" where
  "del T m k = (\<lambda>k'. if dictCompareKeys T k' k then None else m k')"

definition put :: "('k, 'v) dictType \<Rightarrow> ('k \<Rightarrow> 'v option) \<Rightarrow> 'k \<Rightarrow> 'v \<Rightarrow> 'k \<Rightarrow> 'v option" where
  "put T m k v = (\<lambda>k'. if dictCompareKeys T k' k then Some (dup_val T v) else m k')"

lemma del_absent: "dictType_ok T \<Longrightarrow> m = lookup T es \<Longrightarrow> m k = None \<Longrightarrow> del T m k = m"
proof
  fix k'
  assume T: "dictType_ok T" and m: "m = lookup T es" "m k = None"
  show "del T m k k' = m k'"
  proof (cases "dictCompareKeys T k' k")
    case True
    then have "hits T k' es = hits T k es" using hits_cong [OF T] by blast
    then show ?thesis using True m by (simp add: del_def lookup_def)
  qed (simp add: del_def)
qed

lemma dictGenericDelete_rep:
  assumes T: "dictType_ok T" and r: "dict_rep T d m"
  shows "\<exists>d' fr. dictGenericDelete T d k nofree = Some (d', if m k = None then DICT_ERR else DICT_OK, fr) \<and>
     dict_rep T d' (del T m k) \<and> map snd fr = (if nofree then [] else case m k of None \<Rightarrow> [] | Some v \<Rightarrow> [v]) \<and>
     length (entries d') \<le> length (entries d)"
proof (cases "ht_size (d_ht0 d) = 0")
  case True
  then show ?thesis using empty_lookup [OF r True] r by (auto simp: dictGenericDelete_def del_def)
next
  case False
  obtain d1 where d1: "(if dictIsRehashing d then dictRehashStep T d else Some d) = Some d1" "dict_rep T d1 m"
     "length (entries d1) = length (entries d)" "ht_size (d_ht0 d1) \<noteq> 0"
    using dict_rep_step [OF r] False by blast
  have inv: "dict_inv T d1" and m: "m = lookup T (entries d1)" using d1(2) by (auto simp: dict_rep_def)
  obtain p where p: "locate T d1 k = Some p" "loc_ok T d1 m k p" using locate_rep [OF T d1(2,4)] by blast
  have eq: "dictGenericDelete T d k nofree = locate T d1 k \<bind> (\<lambda>p. case p of
      Some loc \<Rightarrow> do { (d, e) \<leftarrow> unlink_entry d1 loc; Some (d, DICT_OK, if nofree then [] else [e]) }
    | None \<Rightarrow> Some (d1, DICT_ERR, []))"
    unfolding dictGenericDelete_def d1(1) locate_def using False
    by (auto simp: Let_def split: bind_splits option.splits)
  show ?thesis
  proof (cases p)
    case None
    then have "m k = None" using p(2) by (simp add: loc_ok_def)
    then show ?thesis using None p eq d1(2,3) del_absent [OF T m] by auto
  next
    case (Some loc)
    obtain t i j where loc: "loc = (t, i, j)" by (cases loc)
    then obtain tb where tb: "ht_table (get_ht d1 t) = Some tb" "i < length tb" "j < length (tb ! i)" "t \<le> 1"
       "dictCompareKeys T k (fst (tb ! i ! j))" "m k = Some (snd (tb ! i ! j))"
      using p(2) Some by (auto simp: loc_ok_def)
    obtain d2 where d2: "unlink_entry d1 (t, i, j) = Some (d2, tb ! i ! j)" "dict_inv T d2"
      "Suc (length (entries d2)) = length (entries d1)"
      "\<forall>k'. lookup T (entries d2) k' = (if dictCompareKeys T k' k then None else lookup T (entries d1) k')"
      using unlink_entry_ok [OF inv T tb(1-5)] by blast
    have "dict_rep T d2 (del T m k)" using d2(2,4) m by (auto simp: dict_rep_def del_def)
    then show ?thesis using Some loc p(1) eq d2(1,3) tb(6) d1(3) by auto
  qed
qed

lemma dictKeyIndex_rep:
  assumes T: "dictType_ok T" and r: "dict_rep T d m"
  shows "\<exists>d' index. dictKeyIndex T cr d k = Some (d', index) \<and> dict_rep T d' m \<and> entries d' = entries d \<and>
     (if m k \<noteq> None then index = - 1
      else \<exists>tb. hits T k (entries d') = [] \<and> ht_table (get_ht d' (if dictIsRehashing d' then 1 else 0)) = Some tb \<and>
         0 \<le> index \<and> nat index < length tb \<and>
         nat index = dictHashKey T k mod ht_size (get_ht d' (if dictIsRehashing d' then 1 else 0)))"
proof -
  have inv: "dict_inv T d" and m: "m = lookup T (entries d)" using r by (auto simp: dict_rep_def)
  obtain d1 where d1: "dictExpandIfNeeded cr d = Some (d1, DICT_OK)" "dict_inv T d1" "entries d1 = entries d" "ht_size (d_ht0 d1) \<noteq> 0"
    using dictExpandIfNeeded_ok [OF inv] by blast
  have r1: "dict_rep T d1 m" using d1 m by (simp add: dict_rep_def)
  obtain p where p: "locate T d1 k = Some p" "loc_ok T d1 m k p" using locate_rep [OF T r1 d1(4)] by blast
  let ?t = "if dictIsRehashing d1 then 1 else 0 :: nat"
  obtain tb where tb: "ht_table (get_ht d1 ?t) = Some tb" "ht_ok T (get_ht d1 ?t)"
  proof (cases "dictIsRehashing d1")
    case True
    obtain tb where "ht_table (d_ht1 d1) = Some tb" "ht_ok T (d_ht1 d1)" using dict_inv_rehashing [OF d1(2) True] by metis
    then show ?thesis using that True by (simp add: get_ht_def)
  next
    case False
    obtain tb where "ht_table (d_ht0 d1) = Some tb" "ht_ok T (d_ht0 d1)" using dict_inv_table0 [OF d1(2,4)] by metis
    then show ?thesis using that False by (simp add: get_ht_def)
  qed
  obtain i where i: "bucket d1 ?t (dictHashKey T k) = Some (i, tb ! i)" "i < length tb" "i < 2 ^ 31"
      "i = dictHashKey T k mod ht_size (get_ht d1 ?t)"
    using bucket_ok [OF T tb(2,1)] by blast
  have sg: "sgn_of 32 i = int i" using i(3) by (simp add: sgn_of_def)
  have eq: "dictKeyIndex T cr d k = locate T d1 k \<bind> (\<lambda>p. case p of Some _ \<Rightarrow> Some (d1, - 1)
     | None \<Rightarrow> bucket d1 ?t (dictHashKey T k) \<bind> (\<lambda>(idx, c). Some (d1, sgn_of 32 idx)))"
    unfolding dictKeyIndex_def d1(1) locate_def
    by (auto simp: Let_def split: bind_splits option.splits)
  show ?thesis
  proof (cases p)
    case None
    then have "m k = None" "hits T k (entries d1) = []" using p(2) by (simp_all add: loc_ok_def)
    then show ?thesis using eq p(1) None i sg r1 d1(3) tb(1) by simp
  next
    case (Some loc)
    then have "m k \<noteq> None" using p(2) by (auto simp: loc_ok_def split: prod.splits)
    then show ?thesis using eq p(1) Some r1 d1(3) by simp
  qed
qed

lemma dictAddRaw_rep:
  assumes T: "dictType_ok T" and r: "dict_rep T d m" and cap: "length (entries d) < DICT_CAP"
  shows "\<exists>d' p. dictAddRaw T cr jv d k = Some (d', p) \<and>
     (if m k \<noteq> None then p = None \<and> dict_rep T d' m \<and> length (entries d') = length (entries d)
      else \<exists>t i tb. p = Some (t, i, 0) \<and> t \<le> 1 \<and> ht_table (get_ht d' t) = Some tb \<and> i < length tb \<and> 0 < length (tb ! i) \<and>
         tb ! i ! 0 = (dup_key T k, jv) \<and> length (entries d') = Suc (length (entries d)) \<and>
         dict_rep T d' (\<lambda>k'. if dictCompareKeys T k' k then Some jv else m k'))"
proof -
  obtain d1 where d1: "(if dictIsRehashing d then dictRehashStep T d else Some d) = Some d1" "dict_rep T d1 m"
     "length (entries d1) = length (entries d)"
    using dict_rep_step [OF r] by blast
  obtain d2 index where d2: "dictKeyIndex T cr d1 k = Some (d2, index)" "dict_rep T d2 m" "entries d2 = entries d1"
     "if m k \<noteq> None then index = - 1
      else \<exists>tb. hits T k (entries d2) = [] \<and> ht_table (get_ht d2 (if dictIsRehashing d2 then 1 else 0)) = Some tb \<and>
         0 \<le> index \<and> nat index < length tb \<and>
         nat index = dictHashKey T k mod ht_size (get_ht d2 (if dictIsRehashing d2 then 1 else 0))"
    using dictKeyIndex_rep [OF T d1(2)] by blast
  have inv: "dict_inv T d2" and m: "m = lookup T (entries d2)" using d2(2) by (auto simp: dict_rep_def)
  show ?thesis
  proof (cases "m k = None")
    case False
    then have "dictAddRaw T cr jv d k = Some (d2, None)" using d1(1) d2(1,4) by (simp add: dictAddRaw_def)
    then show ?thesis using False d2(2,3) d1(3) by simp
  next
    case True
    let ?t = "if dictIsRehashing d2 then 1 else 0 :: nat" and ?i = "nat index" and ?e = "(dup_key T k, jv)"
    obtain tb where tb: "hits T k (entries d2) = []" "ht_table (get_ht d2 ?t) = Some tb" "0 \<le> index" "?i < length tb"
         "?i = dictHashKey T k mod ht_size (get_ht d2 ?t)"
      using d2(4) True by auto
    have t: "?t \<le> 1" by simp
    have c: "length (entries d2) < DICT_CAP" using cap d1(3) d2(3) by simp
    have ce: "dictCompareKeys T k (fst ?e)" using cmp_dup [OF T] by simp
    let ?d = "upd_chain d2 ?t tb ?i (?e # tb ! ?i)"
    note pe = push_entry_ok [OF inv T tb(2,4) t tb(5) refl tb(1) c ce]
    have "length (concat tb) \<le> length (entries d2)" using tb(2) by (auto simp: entries_def tbl_def get_ht_def split: if_splits)
    then have small: "length (concat tb) + 1 \<le> 18446744073709551615" using c by (simp add: DICT_CAP_def)
    have "mset (concat (tb[?i := ?e # tb ! ?i])) = mset (?e # concat tb)" using mset_concat_update [OF tb(4), of "?e # tb ! ?i"] by simp
    then have lc: "length (concat (tb[?i := ?e # tb ! ?i])) = length (concat tb) + 1" by (metis Suc_eq_plus1 length_Cons mset_eq_length)
    have used: "u64 (ht_used (get_ht d2 ?t) + 1) = length (concat (tb[?i := ?e # tb ! ?i]))"
      unfolding lc get_ht_used [OF inv tb(2)] by (rule u64_small [OF small])
    have "dictAddRaw T cr jv d k = Some (?d, Some (?t, ?i, 0))"
      unfolding dictAddRaw_def d1(1) d2(1) Option.bind.simps prod.case Let_def tb(2) rd_in [OF tb(4)] wr_in [OF tb(4)] used
      using tb(3) by simp
    moreover have "ht_table (get_ht ?d ?t) = Some (tb[?i := ?e # tb ! ?i])" by (simp add: get_ht_def put_ht_def)
    moreover have "dict_rep T ?d (\<lambda>k'. if dictCompareKeys T k' k then Some jv else m k')"
      using pe(1,3) m by (auto simp: dict_rep_def)
    ultimately show ?thesis using True pe(2) tb(4) d1(3) d2(3) by (auto simp del: length_concat)
  qed
qed

lemma dictAdd_rep:
  assumes T: "dictType_ok T" and r: "dict_rep T d m" and cap: "length (entries d) < DICT_CAP"
  shows "\<exists>d'. dictAdd T cr jv d k v = Some (d', if m k = None then DICT_OK else DICT_ERR) \<and>
     dict_rep T d' (if m k = None then put T m k v else m) \<and> length (entries d') \<le> Suc (length (entries d))"
proof -
  obtain d1 p where d1: "dictAddRaw T cr jv d k = Some (d1, p)"
     "if m k \<noteq> None then p = None \<and> dict_rep T d1 m \<and> length (entries d1) = length (entries d)
      else \<exists>t i tb. p = Some (t, i, 0) \<and> t \<le> 1 \<and> ht_table (get_ht d1 t) = Some tb \<and> i < length tb \<and> 0 < length (tb ! i) \<and>
         tb ! i ! 0 = (dup_key T k, jv) \<and> length (entries d1) = Suc (length (entries d)) \<and>
         dict_rep T d1 (\<lambda>k'. if dictCompareKeys T k' k then Some jv else m k')"
    using dictAddRaw_rep [OF assms] by blast
  show ?thesis
  proof (cases "m k = None")
    case False
    then show ?thesis using d1 by (auto simp: dictAdd_def)
  next
    case True
    then obtain t i tb where tb: "p = Some (t, i, 0)" "t \<le> 1" "ht_table (get_ht d1 t) = Some tb" "i < length tb" "0 < length (tb ! i)"
         "tb ! i ! 0 = (dup_key T k, jv)" "length (entries d1) = Suc (length (entries d))"
         "dict_rep T d1 (\<lambda>k'. if dictCompareKeys T k' k then Some jv else m k')"
      using d1(2) by auto
    have inv: "dict_inv T d1" using tb(8) by (simp add: dict_rep_def)
    have "dictCompareKeys T k (fst (tb ! i ! 0))" using cmp_dup [OF T] tb(6) by simp
    then obtain d2 where d2: "dictSetVal T d1 (t, i, 0) v = Some d2" "dict_inv T d2" "length (entries d2) = length (entries d1)"
       "\<forall>k'. lookup T (entries d2) k' = (if dictCompareKeys T k' k then Some (dup_val T v) else lookup T (entries d1) k')"
      using dictSetVal_ok [OF inv T tb(3,4,5,2)] by blast
    have fe: "(\<lambda>k'. if dictCompareKeys T k' k then Some jv else m k') = lookup T (entries d1)"
      using tb(8) by (simp add: dict_rep_def)
    have l1: "lookup T (entries d1) k' = (if dictCompareKeys T k' k then Some jv else m k')" for k'
      using fun_cong [OF fe, of k'] by simp
    have "dict_rep T d2 (put T m k v)" using d2(2,4) l1 by (auto simp: dict_rep_def put_def)
    then show ?thesis using True d1(1) tb(1,7) d2(1,3) by (simp add: dictAdd_def)
  qed
qed

lemma dictReplace_rep:
  assumes T: "dictType_ok T" and r: "dict_rep T d m" and cap: "length (entries d) < DICT_CAP"
  shows "\<exists>d'. dictReplace T cr jv d k v = Some (d', m k = None, case m k of None \<Rightarrow> [] | Some old \<Rightarrow> [old]) \<and>
     dict_rep T d' (put T m k v) \<and> length (entries d') \<le> Suc (length (entries d))"
proof -
  obtain d1 where d1: "dictAdd T cr jv d k v = Some (d1, if m k = None then DICT_OK else DICT_ERR)"
     "dict_rep T d1 (if m k = None then put T m k v else m)" "length (entries d1) \<le> Suc (length (entries d))"
    using dictAdd_rep [OF assms] by blast
  show ?thesis
  proof (cases "m k")
    case None
    then show ?thesis using d1 by (simp add: dictReplace_def)
  next
    case (Some old)
    then have r1: "dict_rep T d1 m" using d1(2) by simp
    obtain d2 p where d2: "dictFind T d1 k = Some (d2, p)" "dict_rep T d2 m" "loc_ok T d2 m k p" "length (entries d2) = length (entries d1)"
      using dictFind_rep [OF T r1] by blast
    then obtain t i j tb where tb: "p = Some (t, i, j)" "t \<le> 1" "ht_table (get_ht d2 t) = Some tb" "i < length tb" "j < length (tb ! i)"
       "dictCompareKeys T k (fst (tb ! i ! j))" "m k = Some (snd (tb ! i ! j))"
      using Some by (cases p) (auto simp: loc_ok_def)
    have inv: "dict_inv T d2" and m: "m = lookup T (entries d2)" using d2(2) by (auto simp: dict_rep_def)
    obtain d3 where d3: "dictSetVal T d2 (t, i, j) v = Some d3" "dict_inv T d3" "length (entries d3) = length (entries d2)"
       "\<forall>k'. lookup T (entries d3) k' = (if dictCompareKeys T k' k then Some (dup_val T v) else lookup T (entries d2) k')"
      using dictSetVal_ok [OF inv T tb(3,4,5,2,6)] by blast
    have "dict_rep T d3 (put T m k v)" using d3(2,4) m by (auto simp: dict_rep_def put_def)
    moreover have "get_entry d2 (t, i, j) = Some (tb ! i ! j)" using tb(3-5) by (simp add: get_entry_def rd_in)
    ultimately show ?thesis using Some d1(1,3) d2(1,4) tb(1,7) d3(1,3) by (simp add: dictReplace_def)
  qed
qed

lemma dictCreate_rep: "dict_rep T dictCreate (\<lambda>_. None)"
  by (auto simp: dict_rep_def dict_inv_def dictCreate_def ht_ok_def dictReset_def entries_def tbl_def uniq_def lookup_def dictIsRehashing_def)

section \<open>The interface of a map\<close>

text \<open>
  What a client of a map from keys to values relies on.  Lookups may change the
  implementation's state (here: they rehash) but not the map.  \<open>kop\<close> names the
  operations, \<open>run_kops\<close> performs a sequence of them on an implementation and collects the
  replies, \<open>spec_kops\<close> is the same on partial functions.
\<close>

datatype ('k, 'v) kop = KFetch 'k | KAdd 'k 'v | KReplace 'k 'v | KDelete 'k

datatype 'v kreply = RVal "'v option" | RFlag bool

fun spec_kop :: "('k \<Rightarrow> 'v option) \<Rightarrow> ('k, 'v) kop \<Rightarrow> ('k \<Rightarrow> 'v option) \<times> 'v kreply" where
  "spec_kop m (KFetch k) = (m, RVal (m k))"
| "spec_kop m (KAdd k v) = (if m k = None then m(k \<mapsto> v) else m, RFlag (m k = None))"
| "spec_kop m (KReplace k v) = (m(k \<mapsto> v), RFlag (m k = None))"
| "spec_kop m (KDelete k) = (m(k := None), RFlag (m k \<noteq> None))"

fun spec_kops :: "('k \<Rightarrow> 'v option) \<Rightarrow> ('k, 'v) kop list \<Rightarrow> ('k \<Rightarrow> 'v option) \<times> 'v kreply list" where
  "spec_kops m [] = (m, [])"
| "spec_kops m (oper # ops) = (let (m, r) = spec_kop m oper; (m, rs) = spec_kops m ops in (m, r # rs))"

fun run_kops :: "('s \<Rightarrow> ('k, 'v) kop \<Rightarrow> ('s \<times> 'v kreply) option) \<Rightarrow> 's \<Rightarrow> ('k, 'v) kop list \<Rightarrow> ('s \<times> 'v kreply list) option" where
  "run_kops f s [] = Some (s, [])"
| "run_kops f s (oper # ops) =
     do { (s, r) \<leftarrow> f s oper; (s, rs) \<leftarrow> run_kops f s ops; Some (s, r # rs) }"

locale kv_map =
  fixes empty :: 's
    and perform :: "'s \<Rightarrow> ('k, 'v) kop \<Rightarrow> ('s \<times> 'v kreply) option"
    and rep :: "'s \<Rightarrow> ('k \<Rightarrow> 'v option) \<Rightarrow> bool"
    and cap :: nat
  assumes empty_rep: "rep empty (\<lambda>_. None)"
    and finite_rep: "rep s m \<Longrightarrow> finite (dom m)"
    and perform_rep: "rep s m \<Longrightarrow> card (dom m) < cap \<Longrightarrow>
      \<exists>s'. perform s oper = Some (s', snd (spec_kop m oper)) \<and> rep s' (fst (spec_kop m oper))"
begin

lemma card_spec_kop: "rep s m \<Longrightarrow> card (dom (fst (spec_kop m oper))) \<le> Suc (card (dom m))"
  using finite_rep by (cases oper) (auto simp: card_insert_if card_Diff1_le le_Suc_eq intro: le_trans)

lemma run_kops_rep:
  assumes "rep s m" "card (dom m) + length ops \<le> cap"
  shows "\<exists>s'. run_kops perform s ops = Some (s', snd (spec_kops m ops)) \<and> rep s' (fst (spec_kops m ops))"
  using assms
proof (induction ops arbitrary: s m)
  case Nil
  then show ?case by simp
next
  case (Cons oper ops)
  obtain s1 where s1: "perform s oper = Some (s1, snd (spec_kop m oper))" "rep s1 (fst (spec_kop m oper))"
    using perform_rep [OF Cons.prems(1)] Cons.prems(2) by auto
  have "card (dom (fst (spec_kop m oper))) + length ops \<le> cap"
    using card_spec_kop [OF Cons.prems(1), of oper] Cons.prems(2) by simp
  then show ?case using Cons.IH [OF s1(2)] s1(1) by (auto simp: case_prod_beta Let_def)
qed

end

text \<open>
  The dictionaries the server keeps its keys in: keys compare equal when they are equal and
  nothing is copied (\<open>dbDictType\<close> and the like).
\<close>

definition plainType :: "('k \<Rightarrow> nat) \<Rightarrow> ('k, 'v) dictType" where
  "plainType hf = \<lparr>hashFunction = hf, keyDup = None, valDup = None, keyCompare = Some (\<lambda>a b. a = b)\<rparr>"

lemma plainType_simps [simp]:
  "dictCompareKeys (plainType hf) a b \<longleftrightarrow> a = b" "dup_key (plainType hf) k = k" "dup_val (plainType hf) v = v"
  by (simp_all add: plainType_def dictCompareKeys_def dup_key_def dup_val_def)

lemma plainType_ok: "dictType_ok (plainType hf)"
  by (auto simp: dictType_ok_def dictHashKey_def)

definition dict_perform :: "('k, 'v) dictType \<Rightarrow> bool \<Rightarrow> 'v \<Rightarrow> ('k, 'v) dict \<Rightarrow> ('k, 'v) kop \<Rightarrow> (('k, 'v) dict \<times> 'v kreply) option" where
  "dict_perform T cr jv d oper =
     (case oper of
        KFetch k \<Rightarrow> do { (d, v) \<leftarrow> dictFetchValue T d k; Some (d, RVal v) }
      | KAdd k v \<Rightarrow> do { (d, r) \<leftarrow> dictAdd T cr jv d k v; Some (d, RFlag (r = DICT_OK)) }
      | KReplace k v \<Rightarrow> do { (d, r, _) \<leftarrow> dictReplace T cr jv d k v; Some (d, RFlag r) }
      | KDelete k \<Rightarrow> do { (d, r, _) \<leftarrow> dictDelete T d k; Some (d, RFlag (r = DICT_OK)) })"

lemma entries_card:
  assumes "dict_rep (plainType hf) d m"
  shows "length (entries d) = card (dom m)" "finite (dom m)"
proof -
  have u: "uniq (plainType hf) (entries d)" and m: "m = lookup (plainType hf) (entries d)"
    using assms by (auto simp: dict_rep_def dict_inv_def)
  have "distinct (map fst es) \<and> dom (lookup (plainType hf) es) = set (map fst es)" if "uniq (plainType hf) es" for es :: "('a \<times> 'b) list"
    using that
  proof (induction es)
    case (Cons e es)
    have h: "hits (plainType hf) (fst e) es = []" "uniq (plainType hf) es"
      using Cons.prems by (auto simp: uniq_Cons [OF plainType_ok])
    have "dom (lookup (plainType hf) (e # es)) = insert (fst e) (dom (lookup (plainType hf) es))"
      by (auto simp: lookup_Cons split: if_splits)
    moreover have "fst e \<notin> set (map fst es)" using h(1) by (auto simp: hits_def filter_empty_conv)
    ultimately show ?case using Cons.IH [OF h(2)] by auto
  qed (auto simp: lookup_def)
  then have "distinct (map fst (entries d))" "dom m = set (map fst (entries d))" using u m by auto
  then show "length (entries d) = card (dom m)" "finite (dom m)" by (metis distinct_card length_map, metis List.finite_set)
qed

interpretation dictm: kv_map dictCreate "dict_perform (plainType hf) cr jv" "dict_rep (plainType hf)" DICT_CAP
  for hf cr jv
proof unfold_locales
  show "dict_rep (plainType hf) dictCreate (\<lambda>_. None)" by (rule dictCreate_rep)
  show "dict_rep (plainType hf) s m \<Longrightarrow> finite (dom m)" for s m by (rule entries_card)
  fix d and m :: "'a \<Rightarrow> 'b option" and oper
  assume r: "dict_rep (plainType hf) d m" and c: "card (dom m) < DICT_CAP"
  then have cap: "length (entries d) < DICT_CAP" using entries_card [OF r] by simp
  show "\<exists>s'. dict_perform (plainType hf) cr jv d oper = Some (s', snd (spec_kop m oper)) \<and>
      dict_rep (plainType hf) s' (fst (spec_kop m oper))"
  proof (cases oper)
    case (KFetch k)
    then show ?thesis using dictFetchValue_rep [OF plainType_ok r, of k] by (auto simp: dict_perform_def)
  next
    case (KAdd k v)
    have "put (plainType hf) m k v = m(k \<mapsto> v)" by (auto simp: put_def)
    then show ?thesis using KAdd dictAdd_rep [OF plainType_ok r cap, of cr jv k v] by (auto simp: dict_perform_def)
  next
    case (KReplace k v)
    have "put (plainType hf) m k v = m(k \<mapsto> v)" by (auto simp: put_def)
    then show ?thesis using KReplace dictReplace_rep [OF plainType_ok r cap, of cr jv k v] by (auto simp: dict_perform_def)
  next
    case (KDelete k)
    have "del (plainType hf) m k = m(k := None)" by (auto simp: del_def)
    then show ?thesis using KDelete dictGenericDelete_rep [OF plainType_ok r, of k False]
      by (auto simp: dict_perform_def dictDelete_def)
  qed
qed

section \<open>Properties\<close>

text \<open>
  C2. A dictionary is a map: any sequence of lookups, insertions, replacements and deletions
  on a new dictionary gives the replies of a partial function, for every hash function,
  whether resizing is allowed or not and wherever the incremental rehashing stands; no
  access is out of bounds and no assertion fails.
\<close>

theorem dict_refines_map:
  assumes "length ops \<le> DICT_CAP"
  shows "\<exists>d m rs. run_kops (dict_perform (plainType hf) cr jv) dictCreate ops = Some (d, rs) \<and>
     spec_kops (\<lambda>_. None) ops = (m, rs) \<and> dict_rep (plainType hf) d m"
  using dictm.run_kops_rep [OF dictm.empty_rep, of ops hf cr jv] assms by (metis add_0 card.empty dom_empty prod.collapse)

theorem dict_refines_map_witness:
  "\<exists>d m rs. run_kops (dict_perform (plainType (\<lambda>k. k * 7)) True 0) dictCreate
       [KAdd (1::nat) (10::nat), KAdd 2 20, KAdd 3 30, KAdd 4 40, KAdd 5 50, KDelete 2, KReplace 3 33, KFetch 3] = Some (d, rs) \<and>
     spec_kops (\<lambda>_. None) [KAdd (1::nat) (10::nat), KAdd 2 20, KAdd 3 30, KAdd 4 40, KAdd 5 50, KDelete 2, KReplace 3 33, KFetch 3] = (m, rs) \<and>
     dict_rep (plainType (\<lambda>k. k * 7)) d m"
  using dict_refines_map [of "[KAdd (1::nat) (10::nat), KAdd 2 20, KAdd 3 30, KAdd 4 40, KAdd 5 50, KDelete 2, KReplace 3 33, KFetch 3]"
      "\<lambda>k. k * 7" True 0]
  by (simp add: DICT_CAP_def del: run_kops.simps spec_kops.simps)

text \<open>
  Incremental rehashing moves every entry and loses none: a call for \<open>n\<close> steps returns,
  the entries of both tables together stay the same up to their order, the invariant holds,
  and more steps than there are entries in the old table complete the rehashing.
\<close>

lemma dictRehash_keeps_entries:
  assumes "dict_inv T d" "dictIsRehashing d"
  shows "\<exists>d' r. dictRehash T d n = Some (d', r) \<and> dict_inv T d' \<and> mset (entries d') = mset (entries d) \<and>
     r = dictIsRehashing d' \<and> (ht_used (d_ht0 d) < n \<longrightarrow> d_rehashidx d' = - 1)"
proof -
  obtain d' r where "dictRehash_loop T d n = Some (d', r)" "dict_inv T d'" "mset (entries d') = mset (entries d)"
     "r = dictIsRehashing d'" "ht_used (d_ht0 d) < n \<longrightarrow> \<not> r"
    using dictRehash_loop_ok [OF assms] by blast
  then show ?thesis using assms(2) by (auto simp: dictRehash_def dictIsRehashing_def)
qed

text \<open>
  With any \<open>dictType\<close> whose comparison is an equivalence that respects the hash, a value
  stored with \<open>dictReplace\<close> is what a lookup of an equal key returns, every other key keeps
  its value, and a deletion removes exactly the keys equal to its argument and hands the
  destructors exactly the value that was stored.
\<close>

lemma dict_replace_delete_fetch:
  assumes "dictType_ok T" "dict_rep T d m" "length (entries d) < DICT_CAP"
  shows "\<exists>d1 d2 fr r. dictReplace T cr jv d k v = Some (d1, m k = None, case m k of None \<Rightarrow> [] | Some old \<Rightarrow> [old]) \<and>
     (\<exists>d1'. dictFetchValue T d1 k' = Some (d1', if dictCompareKeys T k' k then Some (dup_val T v) else m k')) \<and>
     dictDelete T d1 k = Some (d2, DICT_OK, fr) \<and> map snd fr = [dup_val T v] \<and>
     (\<exists>d2'. dictFetchValue T d2 k' = Some (d2', if dictCompareKeys T k' k then None else m k'))"
proof -
  obtain d1 where d1: "dictReplace T cr jv d k v = Some (d1, m k = None, case m k of None \<Rightarrow> [] | Some old \<Rightarrow> [old])"
     "dict_rep T d1 (put T m k v)" using dictReplace_rep [OF assms] by blast
  have pk: "put T m k v k = Some (dup_val T v)" using cmp_refl [OF assms(1)] by (simp add: put_def)
  obtain d2 fr where d2: "dictGenericDelete T d1 k False = Some (d2, DICT_OK, fr)" "dict_rep T d2 (del T (put T m k v) k)"
     "map snd fr = [dup_val T v]" using dictGenericDelete_rep [OF assms(1) d1(2), of k False] pk by auto
  obtain d1' where "dictFetchValue T d1 k' = Some (d1', put T m k v k')" using dictFetchValue_rep [OF assms(1) d1(2)] by blast
  moreover obtain d2' where "dictFetchValue T d2 k' = Some (d2', del T (put T m k v) k k')"
    using dictFetchValue_rep [OF assms(1) d2(2)] by blast
  ultimately show ?thesis using d1(1) d2 by (auto simp: put_def del_def dictDelete_def)
qed

end
