(* ===== verification/Ziplist.thy ===== *)
theory Ziplist
  imports Util
begin

text \<open>
  The compact lists of \<open>ziplist.c\<close>: one block of memory that holds a header (total bytes,
  offset of the last entry, number of entries), the entries back to back and an end mark.
  Every entry starts with the length of the entry before it, in one byte or in five, then
  the encoding and length of its own content, then the content; strings that are decimal
  integers are stored as integers.  The model works on that block of bytes: a pointer is
  an offset into it and every read and write is checked.
\<close>

section \<open>Constants\<close>

definition ZIP_END :: nat where "ZIP_END = 255"
definition ZIP_BIGLEN :: nat where "ZIP_BIGLEN = 254"
definition ZIP_STR_MASK :: nat where "ZIP_STR_MASK = 0xc0"
definition ZIP_STR_06B :: nat where "ZIP_STR_06B = 0x00"
definition ZIP_STR_14B :: nat where "ZIP_STR_14B = 0x40"
definition ZIP_STR_32B :: nat where "ZIP_STR_32B = 0x80"
definition ZIP_INT_16B :: nat where "ZIP_INT_16B = 0xc0"
definition ZIP_INT_32B :: nat where "ZIP_INT_32B = 0xd0"
definition ZIP_INT_64B :: nat where "ZIP_INT_64B = 0xe0"
definition ZIP_INT_24B :: nat where "ZIP_INT_24B = 0xf0"
definition ZIP_INT_8B :: nat where "ZIP_INT_8B = 0xfe"
definition ZIP_INT_IMM_MIN :: nat where "ZIP_INT_IMM_MIN = 0xf1"
definition ZIP_INT_IMM_MAX :: nat where "ZIP_INT_IMM_MAX = 0xfd"
definition ZIPLIST_HEADER_SIZE :: nat where "ZIPLIST_HEADER_SIZE = 10"
definition UINT16_MAX :: nat where "UINT16_MAX = 65535"

lemmas zip_consts = ZIP_END_def ZIP_BIGLEN_def ZIP_STR_MASK_def ZIP_STR_06B_def ZIP_STR_14B_def
  ZIP_STR_32B_def ZIP_INT_16B_def ZIP_INT_32B_def ZIP_INT_64B_def ZIP_INT_24B_def ZIP_INT_8B_def
  ZIP_INT_IMM_MIN_def ZIP_INT_IMM_MAX_def ZIPLIST_HEADER_SIZE_def UINT16_MAX_def

definition ZIP_IS_STR :: "nat \<Rightarrow> bool" where
  "ZIP_IS_STR enc \<longleftrightarrow> enc AND ZIP_STR_MASK < ZIP_STR_MASK"

section \<open>Header fields\<close>

definition rdb :: "bytes \<Rightarrow> nat \<Rightarrow> nat option" where
  "rdb zl p = map_option unat (rd zl p)"

definition get_le :: "nat \<Rightarrow> bytes \<Rightarrow> nat \<Rightarrow> nat option" where
  "get_le n zl p = map_option le_dec (rd_block zl p n)"

definition put_le :: "nat \<Rightarrow> bytes \<Rightarrow> nat \<Rightarrow> nat \<Rightarrow> bytes option" where
  "put_le n zl p v = wr_block zl p (le_enc n v)"

definition ZIPLIST_BYTES :: "bytes \<Rightarrow> nat option" where "ZIPLIST_BYTES zl = get_le 4 zl 0"
definition ZIPLIST_TAIL_OFFSET :: "bytes \<Rightarrow> nat option" where "ZIPLIST_TAIL_OFFSET zl = get_le 4 zl 4"
definition ZIPLIST_LENGTH :: "bytes \<Rightarrow> nat option" where "ZIPLIST_LENGTH zl = get_le 2 zl 8"

definition set_BYTES :: "bytes \<Rightarrow> nat \<Rightarrow> bytes option" where "set_BYTES zl v = put_le 4 zl 0 (u32 v)"
definition set_TAIL_OFFSET :: "bytes \<Rightarrow> nat \<Rightarrow> bytes option" where "set_TAIL_OFFSET zl v = put_le 4 zl 4 (u32 v)"
definition set_LENGTH :: "bytes \<Rightarrow> nat \<Rightarrow> bytes option" where "set_LENGTH zl v = put_le 2 zl 8 (u16 v)"

text \<open>\<open>ZIPLIST_INCR_LENGTH\<close>: the count stays at its maximum once it is reached.\<close>

definition ZIPLIST_INCR_LENGTH :: "bytes \<Rightarrow> int \<Rightarrow> bytes option" where
  "ZIPLIST_INCR_LENGTH zl incr =
     do { n \<leftarrow> ZIPLIST_LENGTH zl;
          if n < UINT16_MAX then set_LENGTH zl (uns_of 16 (int n + incr)) else Some zl }"

section \<open>Encoding and decoding of entries\<close>

record zlentry =
  prevrawlensize :: nat
  prevrawlen :: nat
  lensize :: nat
  zlen :: nat
  headersize :: nat
  zencoding :: nat
  zptr :: nat

definition ZIP_ENTRY_ENCODING :: "bytes \<Rightarrow> nat \<Rightarrow> nat option" where
  "ZIP_ENTRY_ENCODING zl p =
     do { enc \<leftarrow> rdb zl p; Some (if enc < ZIP_STR_MASK then enc AND ZIP_STR_MASK else enc) }"

definition zipIntSize :: "nat \<Rightarrow> nat" where
  "zipIntSize enc =
     (if enc = ZIP_INT_8B then 1
      else if enc = ZIP_INT_16B then 2
      else if enc = ZIP_INT_24B then 3
      else if enc = ZIP_INT_32B then 4
      else if enc = ZIP_INT_64B then 8
      else 0)"

text \<open>
  \<open>zipEncodeLength\<close>: the bytes of \<open>buf\<close>; the call with \<open>NULL\<close> returns their number, the call
  with a pointer stores them.
\<close>

definition zip_len_bytes :: "nat \<Rightarrow> nat \<Rightarrow> bytes" where
  "zip_len_bytes enc rawlen =
     (if ZIP_IS_STR enc then
        if rawlen \<le> 0x3f then [of_nat (ZIP_STR_06B OR rawlen)]
        else if rawlen \<le> 0x3fff then
          [of_nat (ZIP_STR_14B OR ((rawlen div 256) AND 0x3f)), of_nat (rawlen mod 256)]
        else of_nat ZIP_STR_32B # be_enc 4 rawlen
      else [of_nat enc])"

definition zipEncodeLength_size :: "nat \<Rightarrow> nat \<Rightarrow> nat" where
  "zipEncodeLength_size enc rawlen =
     (if ZIP_IS_STR enc then if rawlen \<le> 0x3f then 1 else if rawlen \<le> 0x3fff then 2 else 5 else 1)"

definition zipEncodeLength :: "bytes \<Rightarrow> nat \<Rightarrow> nat \<Rightarrow> nat \<Rightarrow> (bytes \<times> nat) option" where
  "zipEncodeLength zl p enc rawlen =
     do { zl \<leftarrow> wr_block zl p (zip_len_bytes enc rawlen); Some (zl, zipEncodeLength_size enc rawlen) }"

text \<open>\<open>ZIP_DECODE_LENGTH\<close>: encoding, size of the length field, length.\<close>

definition ZIP_DECODE_LENGTH :: "bytes \<Rightarrow> nat \<Rightarrow> (nat \<times> nat \<times> nat) option" where
  "ZIP_DECODE_LENGTH zl p =
     do {
       enc \<leftarrow> ZIP_ENTRY_ENCODING zl p;
       if enc < ZIP_STR_MASK then
         if enc = ZIP_STR_06B then do { b0 \<leftarrow> rdb zl p; Some (enc, 1, b0 AND 0x3f) }
         else if enc = ZIP_STR_14B then
           do { b0 \<leftarrow> rdb zl p; b1 \<leftarrow> rdb zl (p + 1); Some (enc, 2, (b0 AND 0x3f) * 256 + b1) }
         else if enc = ZIP_STR_32B then
           do { bs \<leftarrow> rd_block zl (p + 1) 4; Some (enc, 5, be_dec bs) }
         else None
       else Some (enc, 1, zipIntSize enc)
     }"

definition zipPrevEncodeLength_size :: "nat \<Rightarrow> nat" where
  "zipPrevEncodeLength_size len = (if len < ZIP_BIGLEN then 1 else 5)"

definition zipPrevEncodeLengthForceLarge :: "bytes \<Rightarrow> nat \<Rightarrow> nat \<Rightarrow> bytes option" where
  "zipPrevEncodeLengthForceLarge zl p len =
     do { zl \<leftarrow> wr zl p (of_nat ZIP_BIGLEN); put_le 4 zl (p + 1) (u32 len) }"

definition zipPrevEncodeLength :: "bytes \<Rightarrow> nat \<Rightarrow> nat \<Rightarrow> (bytes \<times> nat) option" where
  "zipPrevEncodeLength zl p len =
     (if len < ZIP_BIGLEN then do { zl \<leftarrow> wr zl p (of_nat len); Some (zl, 1) }
      else do { zl \<leftarrow> wr zl p (of_nat ZIP_BIGLEN); zl \<leftarrow> put_le 4 zl (p + 1) (u32 len); Some (zl, 5) })"

definition ZIP_DECODE_PREVLENSIZE :: "bytes \<Rightarrow> nat \<Rightarrow> nat option" where
  "ZIP_DECODE_PREVLENSIZE zl p = do { b \<leftarrow> rdb zl p; Some (if b < ZIP_BIGLEN then 1 else 5) }"

text \<open>\<open>ZIP_DECODE_PREVLEN\<close>: size of the field and the length it holds.\<close>

definition ZIP_DECODE_PREVLEN :: "bytes \<Rightarrow> nat \<Rightarrow> (nat \<times> nat) option" where
  "ZIP_DECODE_PREVLEN zl p =
     do { sz \<leftarrow> ZIP_DECODE_PREVLENSIZE zl p;
          if sz = 1 then do { b \<leftarrow> rdb zl p; Some (sz, b) }
          else do { v \<leftarrow> get_le 4 zl (p + 1); Some (sz, v) } }"

definition zipPrevLenByteDiff :: "bytes \<Rightarrow> nat \<Rightarrow> nat \<Rightarrow> int option" where
  "zipPrevLenByteDiff zl p len =
     do { sz \<leftarrow> ZIP_DECODE_PREVLENSIZE zl p; Some (int (zipPrevEncodeLength_size len) - int sz) }"

definition zipRawEntryLength :: "bytes \<Rightarrow> nat \<Rightarrow> nat option" where
  "zipRawEntryLength zl p =
     do { sz \<leftarrow> ZIP_DECODE_PREVLENSIZE zl p;
          (enc, ls, len) \<leftarrow> ZIP_DECODE_LENGTH zl (p + sz);
          Some (u32 (sz + ls + len)) }"

text \<open>\<open>zipTryEncoding\<close>: the integer and its encoding, when the string is one.\<close>

definition zipTryEncoding :: "bytes \<Rightarrow> (int \<times> nat) option" where
  "zipTryEncoding s =
     (if length s \<ge> 32 \<or> length s = 0 then None
      else case string2ll s of
        None \<Rightarrow> None
      | Some v \<Rightarrow> Some (v,
          if v \<ge> 0 \<and> v \<le> 12 then ZIP_INT_IMM_MIN + nat v
          else if v \<ge> - 128 \<and> v \<le> 127 then ZIP_INT_8B
          else if v \<ge> - 32768 \<and> v \<le> 32767 then ZIP_INT_16B
          else if v \<ge> - 8388608 \<and> v \<le> 8388607 then ZIP_INT_24B
          else if v \<ge> - 2147483648 \<and> v \<le> 2147483647 then ZIP_INT_32B
          else ZIP_INT_64B))"

definition zipSaveInteger :: "bytes \<Rightarrow> nat \<Rightarrow> int \<Rightarrow> nat \<Rightarrow> bytes option" where
  "zipSaveInteger zl p v enc =
     (if enc = ZIP_INT_8B then wr zl p (of_nat (uns_of 8 v))
      else if enc = ZIP_INT_16B then put_le 2 zl p (uns_of 16 v)
      else if enc = ZIP_INT_24B then wr_block zl p (drop 1 (le_enc 4 (uns_of 32 (v * 256))))
      else if enc = ZIP_INT_32B then put_le 4 zl p (uns_of 32 v)
      else if enc = ZIP_INT_64B then put_le 8 zl p (uns_of 64 v)
      else if enc \<ge> ZIP_INT_IMM_MIN \<and> enc \<le> ZIP_INT_IMM_MAX then Some zl
      else None)"

definition zipLoadInteger :: "bytes \<Rightarrow> nat \<Rightarrow> nat \<Rightarrow> int option" where
  "zipLoadInteger zl p enc =
     (if enc = ZIP_INT_8B then map_option (sgn_of 8) (rdb zl p)
      else if enc = ZIP_INT_16B then map_option (sgn_of 16) (get_le 2 zl p)
      else if enc = ZIP_INT_32B then map_option (sgn_of 32) (get_le 4 zl p)
      else if enc = ZIP_INT_24B then
        map_option (\<lambda>bs. sgn_of 32 (le_dec (0 # bs)) div 256) (rd_block zl p 3)
      else if enc = ZIP_INT_64B then map_option (sgn_of 64) (get_le 8 zl p)
      else if enc \<ge> ZIP_INT_IMM_MIN \<and> enc \<le> ZIP_INT_IMM_MAX then Some (int (enc AND 0x0f) - 1)
      else None)"

definition zipEntry :: "bytes \<Rightarrow> nat \<Rightarrow> zlentry option" where
  "zipEntry zl p =
     do { (ps, pl) \<leftarrow> ZIP_DECODE_PREVLEN zl p;
          (enc, ls, len) \<leftarrow> ZIP_DECODE_LENGTH zl (p + ps);
          Some \<lparr>prevrawlensize = ps, prevrawlen = pl, lensize = ls, zlen = len, headersize = ps + ls,
                zencoding = enc, zptr = p\<rparr> }"

section \<open>Creation, resizing and the cascade of length updates\<close>

definition ziplistNew :: "(nat \<Rightarrow> byte) \<Rightarrow> bytes option" where
  "ziplistNew jk =
     do { let n = ZIPLIST_HEADER_SIZE + 1;
          zl \<leftarrow> set_BYTES (map jk [0..<n]) n;
          zl \<leftarrow> set_TAIL_OFFSET zl ZIPLIST_HEADER_SIZE;
          zl \<leftarrow> set_LENGTH zl 0;
          wr zl (n - 1) (of_nat ZIP_END) }"

definition ziplistResize :: "(nat \<Rightarrow> byte) \<Rightarrow> bytes \<Rightarrow> nat \<Rightarrow> bytes option" where
  "ziplistResize jk zl len =
     do { let zl = zrealloc_buf jk zl (u32 len);
          zl \<leftarrow> set_BYTES zl len;
          if u32 len = 0 then None else wr zl (u32 len - 1) (of_nat ZIP_END) }"

text \<open>The loop of \<open>__ziplistCascadeUpdate\<close>; \<open>curlen\<close> is the size of the block.\<close>

partial_function (option) ziplistCascade_loop :: "(nat \<Rightarrow> byte) \<Rightarrow> bytes \<Rightarrow> nat \<Rightarrow> nat \<Rightarrow> bytes option" where
  [code]: "ziplistCascade_loop jk zl p curlen =
     rdb zl p \<bind> (\<lambda>b0.
     if b0 = ZIP_END then Some zl
     else zipEntry zl p \<bind> (\<lambda>cur.
       let rawlen = headersize cur + zlen cur; rawlensize = zipPrevEncodeLength_size rawlen in
       rdb zl (p + rawlen) \<bind> (\<lambda>b1.
       if b1 = ZIP_END then Some zl
       else zipEntry zl (p + rawlen) \<bind> (\<lambda>nxt.
         if prevrawlen nxt = rawlen then Some zl
         else if prevrawlensize nxt < rawlensize then
           let extra = rawlensize - prevrawlensize nxt; np = p + rawlen in
           ziplistResize jk zl (curlen + extra) \<bind> (\<lambda>zl.
           ZIPLIST_TAIL_OFFSET zl \<bind> (\<lambda>t.
           (if t \<noteq> np then set_TAIL_OFFSET zl (t + extra) else Some zl) \<bind> (\<lambda>zl.
           memmove_at zl (np + rawlensize) (np + prevrawlensize nxt) (curlen - np - prevrawlensize nxt - 1) \<bind> (\<lambda>zl.
           zipPrevEncodeLength zl np rawlen \<bind> (\<lambda>(zl, _).
           ziplistCascade_loop jk zl np (curlen + extra))))))
         else if prevrawlensize nxt > rawlensize then zipPrevEncodeLengthForceLarge zl (p + rawlen) rawlen
         else zipPrevEncodeLength zl (p + rawlen) rawlen \<bind> (\<lambda>(zl, _). Some zl)))))"

definition ziplistCascadeUpdate :: "(nat \<Rightarrow> byte) \<Rightarrow> bytes \<Rightarrow> nat \<Rightarrow> bytes option" where
  "ziplistCascadeUpdate jk zl p = do { curlen \<leftarrow> ZIPLIST_BYTES zl; ziplistCascade_loop jk zl p curlen }"

section \<open>Deletion\<close>

text \<open>The loop over the entries to delete: the pointer behind them and how many there were.\<close>

fun zdel_skip :: "bytes \<Rightarrow> nat \<Rightarrow> nat \<Rightarrow> nat \<Rightarrow> (nat \<times> nat) option" where
  "zdel_skip zl p 0 deleted = Some (p, deleted)"
| "zdel_skip zl p (Suc n) deleted =
     do { b \<leftarrow> rdb zl p;
          if b = ZIP_END then Some (p, deleted)
          else do { r \<leftarrow> zipRawEntryLength zl p; zdel_skip zl (p + r) n (deleted + 1) } }"

text \<open>A pointer moved by a signed amount; a pointer before the block is undefined.\<close>

definition ptr_add :: "nat \<Rightarrow> int \<Rightarrow> nat option" where
  "ptr_add p d = (if 0 \<le> int p + d then Some (nat (int p + d)) else None)"

text \<open>The new total size: \<open>ZIPLIST_BYTES - totlen + nextdiff\<close> on \<open>unsigned int\<close>.\<close>

definition ziplistDelete_gen :: "(nat \<Rightarrow> byte) \<Rightarrow> bytes \<Rightarrow> nat \<Rightarrow> nat \<Rightarrow> bytes option" where
  "ziplistDelete_gen jk zl p num =
     do {
       frst \<leftarrow> zipEntry zl p;
       (q, deleted) \<leftarrow> zdel_skip zl p num 0;
       let totlen = u32 (q - zptr frst);
       if totlen > 0 then do {
         b \<leftarrow> rdb zl q;
         (zl, nextdiff) \<leftarrow>
           (if b \<noteq> ZIP_END then do {
              nextdiff \<leftarrow> zipPrevLenByteDiff zl q (prevrawlen frst);
              q \<leftarrow> ptr_add q (- nextdiff);
              (zl, _) \<leftarrow> zipPrevEncodeLength zl q (prevrawlen frst);
              t \<leftarrow> ZIPLIST_TAIL_OFFSET zl;
              zl \<leftarrow> set_TAIL_OFFSET zl (sub32 t totlen);
              tail \<leftarrow> zipEntry zl q;
              b' \<leftarrow> rdb zl (q + headersize tail + zlen tail);
              zl \<leftarrow> (if b' \<noteq> ZIP_END then do {
                       t \<leftarrow> ZIPLIST_TAIL_OFFSET zl; set_TAIL_OFFSET zl (uns_of 32 (int t + nextdiff)) }
                     else Some zl);
              n \<leftarrow> ZIPLIST_BYTES zl;
              zl \<leftarrow> memmove_at zl (zptr frst) q (n - q - 1);
              Some (zl, nextdiff)
            }
            else do {
              zl \<leftarrow> set_TAIL_OFFSET zl (sub32 (zptr frst) (prevrawlen frst));
              Some (zl, 0)
            });
         n \<leftarrow> ZIPLIST_BYTES zl;
         zl \<leftarrow> ziplistResize jk zl (uns_of 32 (int n - int totlen + nextdiff));
         zl \<leftarrow> ZIPLIST_INCR_LENGTH zl (- int deleted);
         if nextdiff \<noteq> 0 then ziplistCascadeUpdate jk zl (zptr frst) else Some zl
       }
       else Some zl
     }"

section \<open>Insertion\<close>

definition ziplistInsert_gen :: "(nat \<Rightarrow> byte) \<Rightarrow> bytes \<Rightarrow> nat \<Rightarrow> bytes \<Rightarrow> bytes option" where
  "ziplistInsert_gen jk zl p s =
     do {
       curlen \<leftarrow> ZIPLIST_BYTES zl;
       b \<leftarrow> rdb zl p;
       prevlen \<leftarrow>
         (if b \<noteq> ZIP_END then do { (_, pl) \<leftarrow> ZIP_DECODE_PREVLEN zl p; Some pl }
          else do {
            ptail \<leftarrow> ZIPLIST_TAIL_OFFSET zl;
            bt \<leftarrow> rdb zl ptail;
            if bt \<noteq> ZIP_END then zipRawEntryLength zl ptail else Some 0
          });
       let (v, enc) = (case zipTryEncoding s of Some (v, e) \<Rightarrow> (v, e) | None \<Rightarrow> (123456789, 0));
       let reqlen = (case zipTryEncoding s of Some (v, e) \<Rightarrow> zipIntSize e | None \<Rightarrow> length s)
                    + zipPrevEncodeLength_size prevlen + zipEncodeLength_size enc (length s);
       nextdiff \<leftarrow> (if b \<noteq> ZIP_END then zipPrevLenByteDiff zl p reqlen else Some 0);
       zl \<leftarrow> ziplistResize jk zl (nat (int curlen + int reqlen + nextdiff));
       b \<leftarrow> rdb zl p;
       zl \<leftarrow>
         (if b \<noteq> ZIP_END then do {
            q \<leftarrow> ptr_add p (- nextdiff);
            zl \<leftarrow> memmove_at zl (p + reqlen) q (nat (int curlen - int p - 1 + nextdiff));
            (zl, _) \<leftarrow> zipPrevEncodeLength zl (p + reqlen) reqlen;
            t \<leftarrow> ZIPLIST_TAIL_OFFSET zl;
            zl \<leftarrow> set_TAIL_OFFSET zl (t + reqlen);
            tail \<leftarrow> zipEntry zl (p + reqlen);
            b' \<leftarrow> rdb zl (p + reqlen + headersize tail + zlen tail);
            if b' \<noteq> ZIP_END then do {
              t \<leftarrow> ZIPLIST_TAIL_OFFSET zl; set_TAIL_OFFSET zl (uns_of 32 (int t + nextdiff)) }
            else Some zl
          }
          else set_TAIL_OFFSET zl p);
       zl \<leftarrow> (if nextdiff \<noteq> 0 then ziplistCascadeUpdate jk zl (p + reqlen) else Some zl);
       (zl, n1) \<leftarrow> zipPrevEncodeLength zl p prevlen;
       (zl, n2) \<leftarrow> zipEncodeLength zl (p + n1) enc (length s);
       zl \<leftarrow> (if ZIP_IS_STR enc then wr_block zl (p + n1 + n2) s
              else zipSaveInteger zl (p + n1 + n2) v enc);
       ZIPLIST_INCR_LENGTH zl 1
     }"

definition ziplistPush :: "(nat \<Rightarrow> byte) \<Rightarrow> bytes \<Rightarrow> bytes \<Rightarrow> bool \<Rightarrow> bytes option" where
  "ziplistPush jk zl s at_head =
     do {
       p \<leftarrow> (if at_head then Some ZIPLIST_HEADER_SIZE else do { n \<leftarrow> ZIPLIST_BYTES zl; Some (n - 1) });
       ziplistInsert_gen jk zl p s
     }"

definition ziplistInsert :: "(nat \<Rightarrow> byte) \<Rightarrow> bytes \<Rightarrow> nat \<Rightarrow> bytes \<Rightarrow> bytes option" where
  "ziplistInsert jk zl p s = ziplistInsert_gen jk zl p s"

text \<open>\<open>ziplistDelete\<close>; the pointer it stores back is the same offset.\<close>

definition ziplistDelete :: "(nat \<Rightarrow> byte) \<Rightarrow> bytes \<Rightarrow> nat \<Rightarrow> (bytes \<times> nat) option" where
  "ziplistDelete jk zl p = do { zl \<leftarrow> ziplistDelete_gen jk zl p 1; Some (zl, p) }"

section \<open>Traversal, lookup and length\<close>

text \<open>The loops of \<open>ziplistIndex\<close>; the result is the pointer and \<open>index\<close> at the end.\<close>

fun zindex_back :: "bytes \<Rightarrow> nat \<Rightarrow> nat \<Rightarrow> nat \<Rightarrow> (nat \<times> int) option" where
  "zindex_back zl p prevlen 0 = Some (p, if prevlen > 0 then - 1 else 0)"
| "zindex_back zl p prevlen (Suc i) =
     (if prevlen > 0 then do {
        p \<leftarrow> ptr_add p (- int prevlen);
        (_, pl) \<leftarrow> ZIP_DECODE_PREVLEN zl p;
        zindex_back zl p pl i }
      else Some (p, int (Suc i)))"

fun zindex_fwd :: "bytes \<Rightarrow> nat \<Rightarrow> nat \<Rightarrow> (nat \<times> int) option" where
  "zindex_fwd zl p 0 = do { b \<leftarrow> rdb zl p; Some (p, if b \<noteq> ZIP_END then - 1 else 0) }"
| "zindex_fwd zl p (Suc i) =
     do { b \<leftarrow> rdb zl p;
          if b \<noteq> ZIP_END then do { r \<leftarrow> zipRawEntryLength zl p; zindex_fwd zl (p + r) i }
          else Some (p, int (Suc i)) }"

definition ziplistIndex :: "bytes \<Rightarrow> int \<Rightarrow> nat option option" where
  "ziplistIndex zl index =
     do {
       (p, ix) \<leftarrow>
         (if index < 0 then
            if index = - (2 ^ 31) then None
            else do {
              let i = nat (- index - 1);
              p \<leftarrow> ZIPLIST_TAIL_OFFSET zl;
              b \<leftarrow> rdb zl p;
              if b \<noteq> ZIP_END then do { (_, pl) \<leftarrow> ZIP_DECODE_PREVLEN zl p; zindex_back zl p pl i }
              else Some (p, int i)
            }
          else zindex_fwd zl ZIPLIST_HEADER_SIZE (nat index));
       b \<leftarrow> rdb zl p;
       Some (if b = ZIP_END \<or> ix > 0 then None else Some p)
     }"

definition ziplistNext :: "bytes \<Rightarrow> nat \<Rightarrow> nat option option" where
  "ziplistNext zl p =
     do {
       b \<leftarrow> rdb zl p;
       if b = ZIP_END then Some None
       else do {
         r \<leftarrow> zipRawEntryLength zl p;
         b \<leftarrow> rdb zl (p + r);
         Some (if b = ZIP_END then None else Some (p + r))
       }
     }"

definition ziplistPrev :: "bytes \<Rightarrow> nat \<Rightarrow> nat option option" where
  "ziplistPrev zl p =
     do {
       b \<leftarrow> rdb zl p;
       if b = ZIP_END then do {
         t \<leftarrow> ZIPLIST_TAIL_OFFSET zl;
         b \<leftarrow> rdb zl t;
         Some (if b = ZIP_END then None else Some t)
       }
       else if p = ZIPLIST_HEADER_SIZE then Some None
       else do {
         (_, pl) \<leftarrow> ZIP_DECODE_PREVLEN zl p;
         if pl > 0 then do { q \<leftarrow> ptr_add p (- int pl); Some (Some q) } else None
       }
     }"

text \<open>The content of an entry: a string or an integer.\<close>

datatype zval = ZStr bytes | ZInt int

text \<open>The result of \<open>ziplistGet\<close> is \<open>None\<close> inside when it returns 0.\<close>

definition ziplistGet :: "bytes \<Rightarrow> nat option \<Rightarrow> zval option option" where
  "ziplistGet zl po =
     (case po of
        None \<Rightarrow> Some None
      | Some p \<Rightarrow>
          do {
            b \<leftarrow> rdb zl p;
            if b = ZIP_END then Some None
            else do {
              e \<leftarrow> zipEntry zl p;
              if ZIP_IS_STR (zencoding e)
              then do { s \<leftarrow> rd_block zl (p + headersize e) (zlen e); Some (Some (ZStr s)) }
              else do { v \<leftarrow> zipLoadInteger zl (p + headersize e) (zencoding e); Some (Some (ZInt v)) }
            }
          })"

definition ziplistDeleteRange :: "(nat \<Rightarrow> byte) \<Rightarrow> bytes \<Rightarrow> nat \<Rightarrow> nat \<Rightarrow> bytes option" where
  "ziplistDeleteRange jk zl index num =
     do { p \<leftarrow> ziplistIndex zl (sgn_of 32 index);
          case p of None \<Rightarrow> Some zl | Some p \<Rightarrow> ziplistDelete_gen jk zl p num }"

definition ziplistCompare :: "bytes \<Rightarrow> nat \<Rightarrow> bytes \<Rightarrow> bool option" where
  "ziplistCompare zl p s =
     do {
       b \<leftarrow> rdb zl p;
       if b = ZIP_END then Some False
       else do {
         e \<leftarrow> zipEntry zl p;
         if ZIP_IS_STR (zencoding e) then
           if zlen e = length s
           then do { t \<leftarrow> rd_block zl (p + headersize e) (length s); Some (t = s) }
           else Some False
         else
           case zipTryEncoding s of
             Some (sval, _) \<Rightarrow>
               do { v \<leftarrow> zipLoadInteger zl (p + headersize e) (zencoding e); Some (v = sval) }
           | None \<Rightarrow> Some False
       }
     }"

text \<open>
  The loop of \<open>ziplistFind\<close>.  \<open>venc\<close> caches the result of \<open>zipTryEncoding\<close> on the searched
  string: 0 before the first attempt, 255 when the string is no integer.
\<close>

partial_function (option) ziplistFind_loop ::
  "bytes \<Rightarrow> nat \<Rightarrow> bytes \<Rightarrow> nat \<Rightarrow> nat \<Rightarrow> nat \<Rightarrow> int \<Rightarrow> nat option option" where
  [code]: "ziplistFind_loop zl p vstr skip skipcnt venc vll =
     rdb zl p \<bind> (\<lambda>b.
     if b = ZIP_END then Some None
     else ZIP_DECODE_PREVLENSIZE zl p \<bind> (\<lambda>ps.
       ZIP_DECODE_LENGTH zl (p + ps) \<bind> (\<lambda>(enc, ls, len).
       let q = p + ps + ls in
       if skipcnt = 0 then
         (if ZIP_IS_STR enc then
            (if len = length vstr then rd_block zl q len \<bind> (\<lambda>t. Some (t = vstr, venc, vll))
             else Some (False, venc, vll))
          else
            let (venc, vll) = (if venc = 0 then (case zipTryEncoding vstr of Some (v, e) \<Rightarrow> (e, v) | None \<Rightarrow> (255, vll))
                               else (venc, vll)) in
            if venc \<noteq> 255 then zipLoadInteger zl q enc \<bind> (\<lambda>ll. Some (ll = vll, venc, vll))
            else Some (False, venc, vll)) \<bind> (\<lambda>(hit, venc, vll).
         if hit then Some (Some p) else ziplistFind_loop zl (q + len) vstr skip skip venc vll)
       else ziplistFind_loop zl (q + len) vstr skip (skipcnt - 1) venc vll)))"

definition ziplistFind :: "bytes \<Rightarrow> nat \<Rightarrow> bytes \<Rightarrow> nat \<Rightarrow> nat option option" where
  "ziplistFind zl p vstr skip = ziplistFind_loop zl p vstr skip 0 0 0"

partial_function (option) ziplistLen_loop :: "bytes \<Rightarrow> nat \<Rightarrow> nat \<Rightarrow> nat option" where
  [code]: "ziplistLen_loop zl p len =
     rdb zl p \<bind> (\<lambda>b.
     if b = ZIP_END then Some len
     else zipRawEntryLength zl p \<bind> (\<lambda>r. ziplistLen_loop zl (p + r) (len + 1)))"

text \<open>\<open>ziplistLen\<close> may store the recounted length back; the result is the length and the block.\<close>

definition ziplistLen :: "bytes \<Rightarrow> (nat \<times> bytes) option" where
  "ziplistLen zl =
     do {
       n \<leftarrow> ZIPLIST_LENGTH zl;
       if n < UINT16_MAX then Some (n, zl)
       else do {
         len \<leftarrow> ziplistLen_loop zl ZIPLIST_HEADER_SIZE 0;
         zl \<leftarrow> (if len < UINT16_MAX then set_LENGTH zl len else Some zl);
         Some (len, zl)
       }
     }"

definition ziplistBlobLen :: "bytes \<Rightarrow> nat option" where
  "ziplistBlobLen zl = ZIPLIST_BYTES zl"

end
