(* ===== verification/ZiplistRep.thy ===== *)
theory ZiplistRep
  imports Ziplist
begin

text \<open>
  What a ziplist stands for.  An entry is a pair of the width of its length-of-previous
  field (\<open>True\<close>: five bytes) and its body (encoding, length, content).  \<open>flat\<close> lays entries
  out, \<open>zrep\<close> says that a block is a well-formed ziplist of given entries.  Insertion,
  deletion and the cascade of length updates are shown to act on the list of bodies as on
  a HOL list; the widths of the length fields are the only other thing they change.
\<close>

section \<open>Layout\<close>

type_synonym zent = "bool \<times> bytes"

definition psz :: "bool \<Rightarrow> nat" where "psz lg = (if lg then 5 else 1)"

definition pfield :: "bool \<Rightarrow> nat \<Rightarrow> bytes" where
  "pfield lg prev = (if lg then 254 # le_enc 4 prev else [of_nat prev])"

definition raw :: "zent \<Rightarrow> nat" where "raw e = psz (fst e) + length (snd e)"

fun flat :: "nat \<Rightarrow> zent list \<Rightarrow> bytes" where
  "flat prev [] = []"
| "flat prev (e # es) = pfield (fst e) prev @ snd e @ flat (raw e) es"

text \<open>A body decodes to its own length.\<close>

definition body_ok :: "bytes \<Rightarrow> bool" where
  "body_ok b \<longleftrightarrow> (\<exists>enc ls len. ZIP_DECODE_LENGTH b 0 = Some (enc, ls, len) \<and> length b = ls + len)"

text \<open>
  A one-byte field holds a length below 254; the field of the first entry, which holds 0,
  is never wide.
\<close>

fun zok :: "nat \<Rightarrow> zent list \<Rightarrow> bool" where
  "zok prev [] \<longleftrightarrow> True"
| "zok prev (e # es) \<longleftrightarrow> (if fst e then 0 < prev else prev < 254) \<and> body_ok (snd e) \<and> zok (raw e) es"

definition hdr :: "nat \<Rightarrow> nat \<Rightarrow> nat \<Rightarrow> bytes" where
  "hdr n t c = le_enc 4 n @ le_enc 4 t @ le_enc 2 c"

definition raws :: "zent list \<Rightarrow> nat" where "raws es = sum_list (map raw es)"

definition tailoff :: "zent list \<Rightarrow> nat" where "tailoff es = 10 + raws (butlast es)"

definition cnt_ok :: "nat \<Rightarrow> nat \<Rightarrow> bool" where
  "cnt_ok c n \<longleftrightarrow> c \<le> 65535 \<and> (c < 65535 \<longrightarrow> c = n)"

definition zrep :: "bytes \<Rightarrow> zent list \<Rightarrow> bool" where
  "zrep zl es \<longleftrightarrow>
     zok 0 es \<and> 11 + raws es < 2 ^ 32 \<and>
     (\<exists>c. cnt_ok c (length es) \<and> zl = hdr (11 + raws es) (tailoff es) c @ flat 0 es @ [255])"

lemma psz_simps [simp]: "psz True = 5" "psz False = 1"
  by (simp_all add: psz_def)

lemma length_pfield [simp]: "length (pfield lg prev) = psz lg"
  by (simp add: pfield_def psz_def)

lemma length_flat [simp]: "length (flat prev es) = raws es"
  by (induction prev es rule: flat.induct) (simp_all add: raws_def raw_def)

lemma raws_simps [simp]: "raws [] = 0" "raws (e # es) = raw e + raws es" "raws (xs @ ys) = raws xs + raws ys"
  by (simp_all add: raws_def)

lemma length_hdr [simp]: "length (hdr n t c) = 10"
  by (simp add: hdr_def)

lemma raw_pos: "0 < raw e"
  by (simp add: raw_def psz_def)

lemma raws_butlast: "es \<noteq> [] \<Longrightarrow> raws (butlast es) + raw (last es) = raws es"
  by (induction es) auto

text \<open>The length of the entry before position \<open>es\<close>, 0 at the start.\<close>

definition lastraw :: "nat \<Rightarrow> zent list \<Rightarrow> nat" where
  "lastraw prev es = (if es = [] then prev else raw (last es))"

lemma lastraw_simps [simp]: "lastraw prev [] = prev" "lastraw prev (e # es) = lastraw (raw e) es"
  "lastraw prev (es @ [e]) = raw e"
  by (simp_all add: lastraw_def)

lemma flat_append: "flat prev (xs @ ys) = flat prev xs @ flat (lastraw prev xs) ys"
  by (induction prev xs rule: flat.induct) simp_all

lemma zok_append: "zok prev (xs @ ys) \<longleftrightarrow> zok prev xs \<and> zok (lastraw prev xs) ys"
  by (induction prev xs rule: flat.induct) auto

section \<open>Reading and writing in the layout\<close>

lemma rd_block_at: "length ys = n \<Longrightarrow> length xs = p \<Longrightarrow> rd_block (xs @ ys @ zs) p n = Some ys"
  using rd_block_middle by blast

lemma wr_block_at: "length ys = length vs \<Longrightarrow> length xs = p \<Longrightarrow> wr_block (xs @ ys @ zs) p vs = Some (xs @ vs @ zs)"
  using wr_block_middle by blast

lemma rdb_at: "length xs = p \<Longrightarrow> rdb (xs @ y # zs) p = Some (unat y)"
  unfolding rdb_def by (metis option.simps(9) rd_middle)

lemma get_le_at:
  assumes "v < 256 ^ n" "length xs = p"
  shows "get_le n (xs @ le_enc n v @ zs) p = Some v"
  unfolding get_le_def rd_block_at [OF length_le_enc assms(2)] using assms(1) by simp

lemma put_le_at: "length ys = n \<Longrightarrow> length xs = p \<Longrightarrow> put_le n (xs @ ys @ zs) p v = Some (xs @ le_enc n v @ zs)"
  unfolding put_le_def by (intro wr_block_at) simp_all

lemma hdr_fields:
  "n < 2 ^ 32 \<Longrightarrow> ZIPLIST_BYTES (hdr n t c @ xs) = Some n"
  "t < 2 ^ 32 \<Longrightarrow> ZIPLIST_TAIL_OFFSET (hdr n t c @ xs) = Some t"
  "c < 65536 \<Longrightarrow> ZIPLIST_LENGTH (hdr n t c @ xs) = Some c"
  using get_le_at [of n 4 "[]" 0 "le_enc 4 t @ le_enc 2 c @ xs"]
    get_le_at [of t 4 "le_enc 4 n" 4 "le_enc 2 c @ xs"]
    get_le_at [of c 2 "le_enc 4 n @ le_enc 4 t" 8 xs]
  by (simp_all add: hdr_def ZIPLIST_BYTES_def ZIPLIST_TAIL_OFFSET_def ZIPLIST_LENGTH_def)

lemma set_hdr_fields:
  "v < 2 ^ 32 \<Longrightarrow> set_BYTES (hdr n t c @ xs) v = Some (hdr v t c @ xs)"
  "v < 2 ^ 32 \<Longrightarrow> set_TAIL_OFFSET (hdr n t c @ xs) v = Some (hdr n v c @ xs)"
  "v < 2 ^ 16 \<Longrightarrow> set_LENGTH (hdr n t c @ xs) v = Some (hdr n t v @ xs)"
  using put_le_at [of "le_enc 4 n" 4 "[]" 0 "le_enc 4 t @ le_enc 2 c @ xs" v]
    put_le_at [of "le_enc 4 t" 4 "le_enc 4 n" 4 "le_enc 2 c @ xs" v]
    put_le_at [of "le_enc 2 c" 2 "le_enc 4 n @ le_enc 4 t" 8 xs v]
  by (simp_all add: hdr_def set_BYTES_def set_TAIL_OFFSET_def set_LENGTH_def)

lemma incr_length_ok:
  assumes "cnt_ok c n" "incr = 1 \<or> (incr = - int k \<and> k \<le> n)" "n' = (if incr = 1 then n + 1 else n - k)"
  shows "\<exists>c'. ZIPLIST_INCR_LENGTH (hdr m t c @ xs) incr = Some (hdr m t c' @ xs) \<and> cnt_ok c' n'"
proof -
  have c: "c \<le> 65535" using assms(1) by (simp add: cnt_ok_def)
  show ?thesis
  proof (cases "c < 65535")
    case True
    then have cn: "c = n" using assms(1) by (simp add: cnt_ok_def)
    then have n': "int c + incr = int n'" "n' \<le> 65535" using assms(2,3) True by (auto split: if_splits)
    then have u: "uns_of 16 (int c + incr) = n'" by (simp add: uns_of_def)
    have "cnt_ok n' n'" using n'(2) by (simp add: cnt_ok_def)
    moreover have "set_LENGTH (hdr m t c @ xs) n' = Some (hdr m t n' @ xs)" using n'(2) by (intro set_hdr_fields) simp
    ultimately show ?thesis using True u by (auto simp: ZIPLIST_INCR_LENGTH_def hdr_fields(3) UINT16_MAX_def)
  next
    case False
    then have "c = 65535" using c by simp
    then show ?thesis by (intro exI [of _ c]) (simp add: ZIPLIST_INCR_LENGTH_def hdr_fields(3) UINT16_MAX_def cnt_ok_def)
  qed
qed

text \<open>The length-of-previous field.\<close>

lemma prevlen_at:
  assumes "if lg then True else prev < 254" "prev < 2 ^ 32" "length xs = p"
  shows "ZIP_DECODE_PREVLEN (xs @ pfield lg prev @ zs) p = Some (psz lg, prev)"
    "ZIP_DECODE_PREVLENSIZE (xs @ pfield lg prev @ zs) p = Some (psz lg)"
    "\<exists>b. rdb (xs @ pfield lg prev @ zs) p = Some b \<and> b < 255"
proof -
  have b: "rdb (xs @ pfield lg prev @ zs) p = Some (if lg then 254 else prev)"
    using assms rdb_at [of xs p "if lg then 254 else of_nat prev"] by (cases lg) (auto simp: pfield_def)
  then show sz: "ZIP_DECODE_PREVLENSIZE (xs @ pfield lg prev @ zs) p = Some (psz lg)"
    using assms(1) by (auto simp: ZIP_DECODE_PREVLENSIZE_def zip_consts)
  show "\<exists>b. rdb (xs @ pfield lg prev @ zs) p = Some b \<and> b < 255" using b assms(1) by auto
  have "get_le 4 (xs @ pfield True prev @ zs) (p + 1) = Some prev"
    using get_le_at [of prev 4 "xs @ [254]" "p + 1" zs] assms(2,3) by (simp add: pfield_def)
  then show "ZIP_DECODE_PREVLEN (xs @ pfield lg prev @ zs) p = Some (psz lg, prev)"
    using sz b by (cases lg) (simp_all add: ZIP_DECODE_PREVLEN_def)
qed

lemma put_prevlen:
  assumes "length ys = zipPrevEncodeLength_size prev" "length xs = p" "prev < 2 ^ 32"
  shows "zipPrevEncodeLength (xs @ ys @ zs) p prev = Some (xs @ pfield (254 \<le> prev) prev @ zs, zipPrevEncodeLength_size prev)"
proof (cases "prev < 254")
  case True
  then obtain y where "ys = [y]" using assms(1) by (auto simp: zipPrevEncodeLength_size_def zip_consts length_Suc_conv)
  then show ?thesis using True assms(2) wr_middle [of xs y zs "of_nat prev"]
    by (simp add: zipPrevEncodeLength_def zip_consts pfield_def zipPrevEncodeLength_size_def)
next
  case False
  then obtain y ys' where y: "ys = y # ys'" "length ys' = 4"
    using assms(1) by (cases ys) (auto simp: zipPrevEncodeLength_size_def zip_consts)
  have "put_le 4 ((xs @ [254]) @ ys' @ zs) (p + 1) prev = Some ((xs @ [254]) @ le_enc 4 prev @ zs)"
    using y(2) assms(2) by (intro put_le_at) simp_all
  then show ?thesis using False y(1) assms(2,3) wr_middle [of xs y "ys' @ zs" 254]
    by (simp add: zipPrevEncodeLength_def zip_consts pfield_def zipPrevEncodeLength_size_def)
qed

lemma force_large:
  assumes "length ys = 5" "length xs = p" "prev < 2 ^ 32"
  shows "zipPrevEncodeLengthForceLarge (xs @ ys @ zs) p prev = Some (xs @ pfield True prev @ zs)"
proof -
  obtain y ys' where y: "ys = y # ys'" "length ys' = 4" using assms(1) by (cases ys) auto
  have "put_le 4 ((xs @ [254]) @ ys' @ zs) (p + 1) prev = Some ((xs @ [254]) @ le_enc 4 prev @ zs)"
    using y(2) assms(2) by (intro put_le_at) simp_all
  then show ?thesis using y(1) assms(2,3) wr_middle [of xs y "ys' @ zs" 254]
    by (simp add: zipPrevEncodeLengthForceLarge_def zip_consts pfield_def)
qed

lemma psz_prev: "psz (254 \<le> prev) = zipPrevEncodeLength_size prev"
  by (simp add: psz_def zipPrevEncodeLength_size_def zip_consts)

section \<open>Reading an entry\<close>

lemma rdb_shift: "rdb b i = Some v \<Longrightarrow> length xs = p \<Longrightarrow> rdb (xs @ b @ zs) (p + i) = Some v"
  by (auto simp: rdb_def rd_def nth_append)

lemma rd_block_shift: "rd_block b i n = Some v \<Longrightarrow> length xs = p \<Longrightarrow> rd_block (xs @ b @ zs) (p + i) n = Some v"
  by (auto simp: rd_block_def split: if_splits)

lemma decode_length_shift:
  assumes "ZIP_DECODE_LENGTH b 0 = Some r" "length xs = p"
  shows "ZIP_DECODE_LENGTH (xs @ b @ zs) p = Some r"
proof -
  obtain e where e: "rdb b 0 = Some e" using assms(1) by (auto simp: ZIP_DECODE_LENGTH_def ZIP_ENTRY_ENCODING_def split: bind_splits)
  have e': "rdb (xs @ b @ zs) p = Some e" using rdb_shift [OF e assms(2)] by simp
  have b1: "rdb b 1 = Some v \<Longrightarrow> rdb (xs @ b @ zs) (Suc p) = Some v" for v using rdb_shift [of b 1 v xs p zs] assms(2) by simp
  have b4: "rd_block b 1 4 = Some v \<Longrightarrow> rd_block (xs @ b @ zs) (Suc p) 4 = Some v" for v using rd_block_shift [of b 1 4 v xs p zs] assms(2) by simp
  show ?thesis using assms(1) e e' b1 b4
    by (auto simp: ZIP_DECODE_LENGTH_def ZIP_ENTRY_ENCODING_def Let_def split: if_splits bind_splits)
qed

lemma entry_at:
  assumes "body_ok b" "if lg then True else prev < 254" "prev < 2 ^ 32" "length xs = p"
  shows "\<exists>e. zipEntry (xs @ pfield lg prev @ b @ zs) p = Some e \<and> prevrawlensize e = psz lg \<and> prevrawlen e = prev \<and>
      headersize e + zlen e = raw (lg, b) \<and> zptr e = p"
    "raw (lg, b) < 2 ^ 32 \<Longrightarrow> zipRawEntryLength (xs @ pfield lg prev @ b @ zs) p = Some (raw (lg, b))"
proof -
  obtain enc ls len where d: "ZIP_DECODE_LENGTH b 0 = Some (enc, ls, len)" "length b = ls + len"
    using assms(1) by (auto simp: body_ok_def)
  have l: "ZIP_DECODE_LENGTH (xs @ pfield lg prev @ b @ zs) (p + psz lg) = Some (enc, ls, len)"
    using decode_length_shift [OF d(1), of "xs @ pfield lg prev" "p + psz lg" zs] assms(4) by simp
  note pl = prevlen_at [OF assms(2,3,4), of "b @ zs"]
  show "\<exists>e. zipEntry (xs @ pfield lg prev @ b @ zs) p = Some e \<and> prevrawlensize e = psz lg \<and> prevrawlen e = prev \<and>
      headersize e + zlen e = raw (lg, b) \<and> zptr e = p"
    using pl(1) l d(2) by (simp add: zipEntry_def raw_def)
  show "zipRawEntryLength (xs @ pfield lg prev @ b @ zs) p = Some (raw (lg, b))" if "raw (lg, b) < 2 ^ 32"
    using pl(2) l d(2) that by (simp add: zipRawEntryLength_def raw_def add.assoc)
qed

lemma flat_first: "es \<noteq> [] \<Longrightarrow> flat prev es = pfield (fst (hd es)) prev @ snd (hd es) @ flat (raw (hd es)) (tl es)"
  by (cases es) simp_all

text \<open>The byte at a position in the entries: below 255 before an entry, the end mark behind the last.\<close>

lemma first_byte:
  assumes "zok prev es" "prev < 2 ^ 32" "length xs = p"
  shows "\<exists>b. rdb (xs @ flat prev es @ [255]) p = Some b \<and> (b = 255 \<longleftrightarrow> es = [])"
proof (cases es)
  case Nil
  then show ?thesis using rdb_at [OF assms(3), of 255 "[]"] by simp
next
  case (Cons e es')
  then have "if fst e then True else prev < 254" using assms(1) by (simp split: if_splits)
  from prevlen_at(3) [OF this assms(2,3), of "snd e @ flat (raw e) es' @ [255]"] show ?thesis using Cons by auto
qed

section \<open>Resizing\<close>

lemma resize_grow:
  assumes "n = 11 + length xs" "n + g < 2 ^ 32"
  shows "\<exists>junk. ziplistResize jk (hdr n t c @ xs @ [255]) (n + g) = Some (hdr (n + g) t c @ xs @ junk @ [255]) \<and>
     length junk = g \<and> (0 < g \<longrightarrow> hd junk = 255)"
proof -
  have u: "u32 (n + g) = n + g" using assms(2) by (rule u32_id)
  show ?thesis
  proof (cases "g = 0")
    case True
    have "zrealloc_buf jk (hdr n t c @ xs @ [255]) n = hdr n t c @ xs @ [255]" using assms(1) by (simp add: zrealloc_buf_def)
    moreover have "wr (hdr n t c @ xs @ [255]) (n - 1) 255 = Some (hdr n t c @ xs @ [255])"
      using wr_middle [of "hdr n t c @ xs" 255 "[]" 255] assms(1) by simp
    ultimately show ?thesis using True u assms by (simp add: ziplistResize_def set_hdr_fields(1) zip_consts)
  next
    case False
    let ?j = "map jk [n..<n + g]"
    have z: "zrealloc_buf jk (hdr n t c @ xs @ [255]) (n + g) = hdr n t c @ xs @ (255 # butlast ?j) @ [last ?j]"
      using assms(1) False by (simp add: zrealloc_buf_def append_butlast_last_id [symmetric] del: append_butlast_last_id)
    have "length (hdr (n + g) t c @ xs @ (255 # butlast ?j)) = n + g - 1" using assms(1) False by simp
    then have w: "wr (hdr (n + g) t c @ xs @ (255 # butlast ?j) @ [last ?j]) (n + g - 1) 255
        = Some (hdr (n + g) t c @ xs @ (255 # butlast ?j) @ [255])"
      using wr_middle [of "hdr (n + g) t c @ xs @ (255 # butlast ?j)" "last ?j" "[]" 255] by simp
    have "length (255 # butlast ?j) = g" using False by simp
    then show ?thesis using u assms(2) False z w
      by (auto simp: ziplistResize_def set_hdr_fields(1) zip_consts Let_def intro!: exI [of _ "255 # butlast ?j"])
  qed
qed

lemma resize_shrink:
  assumes "n = 11 + length xs + length ys" "n < 2 ^ 32" "m = 11 + length xs"
  shows "ziplistResize jk (hdr n t c @ xs @ ys @ [255]) m = Some (hdr m t c @ xs @ [255])"
proof -
  have u: "u32 m = m" using assms by (intro u32_id) simp
  obtain y where y: "take (m - 10) (xs @ ys @ [255]) = xs @ [y]"
    using assms(3) by (cases ys) (auto simp: take_Cons')
  have z: "zrealloc_buf jk (hdr n t c @ xs @ ys @ [255]) m = hdr n t c @ xs @ [y]"
    using assms(1,3) y by (simp add: zrealloc_buf_def)
  have "wr (hdr m t c @ xs @ [y]) (m - 1) 255 = Some (hdr m t c @ xs @ [255])"
    using wr_middle [of "hdr m t c @ xs" y "[]" 255] assms(3) by simp
  then show ?thesis using u z assms by (simp add: ziplistResize_def set_hdr_fields(1) zip_consts Let_def)
qed

section \<open>The cascade\<close>

fun casc :: "nat \<Rightarrow> zent list \<Rightarrow> zent list" where
  "casc r [] = []"
| "casc r (e # es) =
     (if \<not> fst e \<and> 254 \<le> r then (True, snd e) # casc (5 + length (snd e)) es else e # es)"

lemma casc_bodies [simp]: "map snd (casc r es) = map snd es"
  by (induction r es rule: casc.induct) simp_all

lemma length_casc [simp]: "length (casc r es) = length es"
  by (metis casc_bodies length_map)

lemma casc_Nil_iff [simp]: "casc r es = [] \<longleftrightarrow> es = []"
  by (cases es) simp_all

lemma casc_same: "zok r es \<Longrightarrow> casc r es = es"
  by (cases es) (auto split: if_splits)

lemma zok_casc: "zok r0 es \<Longrightarrow> 0 < r \<Longrightarrow> zok r (casc r es)"
proof (induction r es arbitrary: r0 rule: casc.induct)
  case (2 r e es)
  show ?case
  proof (cases "\<not> fst e \<and> 254 \<le> r")
    case True
    have "zok (5 + length (snd e)) (casc (5 + length (snd e)) es)" using "2.IH" [OF True, of "raw e"] "2.prems" by simp
    then show ?thesis using True "2.prems" by (simp add: raw_def)
  next
    case False
    then show ?thesis using "2.prems" by (auto split: if_splits)
  qed
qed simp

lemma raws_casc: "raws es \<le> raws (casc r es)" "raws (casc r es) \<le> raws es + 4 * length es"
proof -
  show "raws es \<le> raws (casc r es)" by (induction r es rule: casc.induct) (auto simp: raw_def)
  show "raws (casc r es) \<le> raws es + 4 * length es" by (induction r es rule: casc.induct) (auto simp: raw_def)
qed

text \<open>One round that widens the field of the next entry.\<close>

lemma cascade_widen:
  assumes nxt: "body_ok b2" "r0 < 254" and r: "254 \<le> raw (lg, b)"
    and zl: "zl = hdr N t c @ X @ (pfield False r0 @ b2 @ F) @ [255]" and N: "N = 11 + length X + (1 + length b2 + length F)"
    and cap: "N + 4 < 2 ^ 32" and t: "t + 4 < 2 ^ 32" and np: "np = 10 + length X" and rl: "rl = raw (lg, b)" "rl < 2 ^ 32"
  shows "ziplistResize jk zl (N + 4) \<bind> (\<lambda>zl. ZIPLIST_TAIL_OFFSET zl \<bind> (\<lambda>t.
       (if t \<noteq> np then set_TAIL_OFFSET zl (t + 4) else Some zl) \<bind> (\<lambda>zl.
       memmove_at zl (np + 5) (np + 1) (N - np - 1 - 1) \<bind> (\<lambda>zl.
       zipPrevEncodeLength zl np rl \<bind> (\<lambda>(zl, _). G zl))))) =
     G (hdr (N + 4) (if t \<noteq> np then t + 4 else t) c @ X @ (pfield True rl @ b2 @ F) @ [255])"
proof -
  let ?t = "if t \<noteq> np then t + 4 else t"
  obtain junk where j: "ziplistResize jk zl (N + 4) = Some (hdr (N + 4) t c @ (X @ pfield False r0 @ b2 @ F) @ junk @ [255])" "length junk = 4"
    using resize_grow [of N "X @ pfield False r0 @ b2 @ F" 4 jk t c] zl N cap by auto
  let ?z1 = "hdr (N + 4) t c @ (X @ pfield False r0 @ b2 @ F) @ junk @ [255]"
  have t1: "ZIPLIST_TAIL_OFFSET ?z1 = Some t" using t by (intro hdr_fields) simp
  have t2: "(if t \<noteq> np then set_TAIL_OFFSET ?z1 (t + 4) else Some ?z1) = Some (hdr (N + 4) ?t c @ (X @ pfield False r0 @ b2 @ F) @ junk @ [255])"
    using t by (auto intro: set_hdr_fields)
  let ?z2 = "hdr (N + 4) ?t c @ (X @ pfield False r0 @ b2 @ F) @ junk @ [255]"
  have len: "N - np - 1 - 1 = length (b2 @ F)" using N np by simp
  have z2: "?z2 = (hdr (N + 4) ?t c @ X @ pfield False r0) @ (b2 @ F) @ (junk @ [255])" by simp
  have rd: "rd_block ?z2 (np + 1) (length (b2 @ F)) = Some (b2 @ F)"
    unfolding z2 using np by (intro rd_block_at) simp_all
  define ys where "ys = take 5 (pfield False r0 @ b2 @ F @ junk)"
  have ys: "length ys = 5" "pfield False r0 @ b2 @ F @ junk = ys @ drop 5 (pfield False r0 @ b2 @ F @ junk)"
    using j(2) unfolding ys_def by (simp, simp only: append_take_drop_id)
  have "length (drop 5 (pfield False r0 @ b2 @ F @ junk)) = length (b2 @ F)" using j(2) by simp
  then have mv: "wr_block ?z2 (np + 5) (b2 @ F) = Some ((hdr (N + 4) ?t c @ X @ ys) @ (b2 @ F) @ [255])"
  proof -
    assume l: "length (drop 5 (pfield False r0 @ b2 @ F @ junk)) = length (b2 @ F)"
    have e: "?z2 = (hdr (N + 4) ?t c @ X @ ys) @ drop 5 (pfield False r0 @ b2 @ F @ junk) @ [255]"
      using ys(2) by (metis append_assoc)
    show ?thesis unfolding e using l ys(1) np by (intro wr_block_at) simp_all
  qed
  have pe: "zipPrevEncodeLength ((hdr (N + 4) ?t c @ X) @ ys @ (b2 @ F @ [255])) np rl
      = Some ((hdr (N + 4) ?t c @ X) @ pfield (254 \<le> rl) rl @ (b2 @ F @ [255]), zipPrevEncodeLength_size rl)"
    using r rl ys(1) np by (intro put_prevlen) (simp_all add: zipPrevEncodeLength_size_def zip_consts)
  show ?thesis unfolding j(1) Option.bind.simps t1 t2 memmove_at_def len rd mv using pe r rl by simp
qed

text \<open>
  The whole cascade: the entry at the cursor has its final size; the entries behind it are
  laid out for the size it had before.
\<close>

lemma cascade_ok:
  assumes "zok r0 es" "body_ok b" "if lg then True else prev < 254" "prev < 2 ^ 32" "r0 < 2 ^ 32"
    and "N = 11 + length A + raw (lg, b) + raws es" "N + 4 * length es < 2 ^ 32"
    and "es \<noteq> [] \<Longrightarrow> t = 10 + length A + raw (lg, b) + raws (butlast es)"
  shows "ziplistCascade_loop jk (hdr N t c @ A @ (pfield lg prev @ b) @ flat r0 es @ [255]) (10 + length A) N =
     Some (hdr (11 + length A + raw (lg, b) + raws (casc (raw (lg, b)) es))
             (if es = [] then t else 10 + length A + raw (lg, b) + raws (butlast (casc (raw (lg, b)) es))) c
           @ A @ (pfield lg prev @ b) @ flat (raw (lg, b)) (casc (raw (lg, b)) es) @ [255])"
  using assms
proof (induction es arbitrary: N t A lg b prev r0)
  case Nil
  note p = Nil.prems
  let ?zl = "(hdr N t c @ A) @ pfield lg prev @ b @ [255]"
  obtain e where e: "zipEntry ?zl (10 + length A) = Some e" "headersize e + zlen e = raw (lg, b)"
    using entry_at(1) [OF p(2,3,4), of "hdr N t c @ A" "10 + length A" "[255]"] by auto
  obtain b0 where b0: "rdb ?zl (10 + length A) = Some b0" "b0 < 255"
    using prevlen_at(3) [OF p(3,4), of "hdr N t c @ A" "10 + length A" "b @ [255]"] by auto
  have "rdb ?zl (10 + length A + raw (lg, b)) = Some 255"
    using rdb_at [of "(hdr N t c @ A) @ pfield lg prev @ b" "10 + length A + raw (lg, b)" 255 "[]"] by (simp add: raw_def)
  then show ?case using e b0 p(6)
    by (subst ziplistCascade_loop.simps) (simp add: Let_def zip_consts)
next
  case (Cons e2 es)
  note p = Cons.prems
  obtain lg2 b2 where e2: "e2 = (lg2, b2)" by (cases e2)
  let ?r = "raw (lg, b)" and ?p = "10 + length A"
  let ?F = "flat (raw e2) es"
  let ?zl = "(hdr N t c @ A) @ pfield lg prev @ b @ (pfield lg2 r0 @ b2 @ ?F) @ [255]"
  have z: "hdr N t c @ A @ (pfield lg prev @ b) @ flat r0 (e2 # es) @ [255] = ?zl" by (simp add: e2)
  have ok2: "if lg2 then True else r0 < 254" "body_ok b2" "zok (raw e2) es" using p(1) by (auto simp: e2 split: if_splits)
  obtain e where e: "zipEntry ?zl ?p = Some e" "headersize e + zlen e = ?r"
    using entry_at(1) [OF p(2,3,4), of "hdr N t c @ A" ?p "(pfield lg2 r0 @ b2 @ ?F) @ [255]"] by auto
  obtain b0 where b0: "rdb ?zl ?p = Some b0" "b0 < 255"
    using prevlen_at(3) [OF p(3,4), of "hdr N t c @ A" ?p "b @ (pfield lg2 r0 @ b2 @ ?F) @ [255]"] by auto
  let ?X = "(hdr N t c @ A) @ pfield lg prev @ b"
  have zx: "?zl = ?X @ pfield lg2 r0 @ b2 @ ?F @ [255]" by simp
  have lx: "length ?X = ?p + ?r" by (simp add: raw_def)
  obtain b1 where b1: "rdb ?zl (?p + ?r) = Some b1" "b1 < 255"
    using prevlen_at(3) [OF ok2(1) p(5) lx, of "b2 @ ?F @ [255]"] unfolding zx by auto
  obtain n where n: "zipEntry ?zl (?p + ?r) = Some n" "prevrawlensize n = psz lg2" "prevrawlen n = r0"
    using entry_at(1) [OF ok2(2,1) p(5) lx, of "?F @ [255]"] unfolding zx by auto
  have rlt: "?r < 2 ^ 32" using p(6,7) by simp
  have step: "ziplistCascade_loop jk ?zl ?p N =
     (if r0 = ?r then Some ?zl
      else if psz lg2 < zipPrevEncodeLength_size ?r then
           ziplistResize jk ?zl (N + (zipPrevEncodeLength_size ?r - psz lg2)) \<bind> (\<lambda>zl.
           ZIPLIST_TAIL_OFFSET zl \<bind> (\<lambda>t.
           (if t \<noteq> ?p + ?r then set_TAIL_OFFSET zl (t + (zipPrevEncodeLength_size ?r - psz lg2)) else Some zl) \<bind> (\<lambda>zl.
           memmove_at zl (?p + ?r + zipPrevEncodeLength_size ?r) (?p + ?r + psz lg2) (N - (?p + ?r) - psz lg2 - 1) \<bind> (\<lambda>zl.
           zipPrevEncodeLength zl (?p + ?r) ?r \<bind> (\<lambda>(zl, _).
           ziplistCascade_loop jk zl (?p + ?r) (N + (zipPrevEncodeLength_size ?r - psz lg2)))))))
      else if psz lg2 > zipPrevEncodeLength_size ?r then zipPrevEncodeLengthForceLarge ?zl (?p + ?r) ?r
      else zipPrevEncodeLength ?zl (?p + ?r) ?r \<bind> (\<lambda>(zl, _). Some zl))"
    by (subst ziplistCascade_loop.simps) (simp only: e b0 b1 n Option.bind.simps Let_def, use b0(2) b1(2) in \<open>simp add: zip_consts\<close>)
  have sz: "zipPrevEncodeLength_size ?r = (if ?r < 254 then 1 else 5)" by (simp add: zipPrevEncodeLength_size_def zip_consts)
  have t: "t = ?p + ?r + raws (butlast (e2 # es))" using p(8) by simp
  have keep: "casc ?r (e2 # es) = e2 # es \<Longrightarrow> flat ?r (e2 # es) = pfield lg2 ?r @ b2 @ ?F \<Longrightarrow>
      ziplistCascade_loop jk ?zl ?p N = Some (?X @ (pfield lg2 ?r @ b2 @ ?F) @ [255]) \<Longrightarrow> ?case"
    unfolding z using p(6) t by simp
  show ?case
  proof (cases "r0 = ?r")
    case True
    then have "casc ?r (e2 # es) = e2 # es" using p(1) casc_same by blast
    then show ?thesis using step True by (intro keep) (simp_all add: e2)
  next
    case ne: False
    consider "\<not> lg2" "254 \<le> ?r" | "lg2" "?r < 254" | "lg2 = (254 \<le> ?r)" by linarith
    then show ?thesis
    proof cases
      case 1
      let ?A = "A @ pfield lg prev @ b"
      let ?t = "if t \<noteq> ?p + ?r then t + 4 else t"
      have r0: "r0 < 254" using ok2(1) 1(1) by simp
      have tb: "t + 4 < 2 ^ 32" using t p(6,7) raws_butlast [of "e2 # es"] raw_pos [of "last (e2 # es)"] by simp
      have d4: "zipPrevEncodeLength_size ?r = 5" "psz lg2 = 1" "(5::nat) - 1 = 4" "(1::nat) < 5" using 1 sz by auto
      have "ziplistCascade_loop jk ?zl ?p N =
          ziplistCascade_loop jk (hdr (N + 4) ?t c @ ?A @ (pfield True ?r @ b2 @ ?F) @ [255]) (?p + ?r) (N + 4)"
      proof -
        have zX: "?zl = hdr N t c @ ?A @ (pfield False r0 @ b2 @ ?F) @ [255]" using 1(1) by simp
        have NN: "N = 11 + length ?A + (1 + length b2 + length ?F)" using p(6) 1(1) by (simp add: e2 raw_def)
        have cap: "N + 4 < 2 ^ 32" using p(7) by simp
        have np: "?p + ?r = 10 + length ?A" by (simp add: raw_def)
        note w = cascade_widen [OF ok2(2) r0 1(2) zX NN cap tb np refl rlt, of jk "\<lambda>zl. ziplistCascade_loop jk zl (?p + ?r) (N + 4)"]
        show ?thesis unfolding step d4 using ne w by (simp only: if_False if_True d4)
      qed
      moreover have "ziplistCascade_loop jk (hdr (N + 4) ?t c @ ?A @ (pfield True ?r @ b2) @ ?F @ [255]) (10 + length ?A) (N + 4) =
         Some (hdr (11 + length ?A + raw (True, b2) + raws (casc (raw (True, b2)) es))
             (if es = [] then ?t else 10 + length ?A + raw (True, b2) + raws (butlast (casc (raw (True, b2)) es))) c
           @ ?A @ (pfield True ?r @ b2) @ flat (raw (True, b2)) (casc (raw (True, b2)) es) @ [255])"
      proof (rule Cons.IH)
        show "zok (raw e2) es" by (rule ok2)
        show "body_ok b2" by (rule ok2)
        show "if True then True else ?r < 254" by simp
        show "?r < 2 ^ 32" by (rule rlt)
        show "raw e2 < 2 ^ 32" using p(6,7) by simp
        show "N + 4 = 11 + length ?A + raw (True, b2) + raws es" using p(6) 1(1) by (simp add: e2 raw_def)
        show "N + 4 + 4 * length es < 2 ^ 32" using p(7) by simp
        show "?t = 10 + length ?A + raw (True, b2) + raws (butlast es)" if "es \<noteq> []"
          using that t 1(1) by (simp add: e2 raw_def)
      qed
      ultimately show ?thesis unfolding z using 1 t by (auto simp: e2 raw_def add.assoc)
    next
      case 2
      have "zipPrevEncodeLengthForceLarge ?zl (?p + ?r) ?r = Some (?X @ pfield True ?r @ (b2 @ ?F) @ [255])"
        using force_large [of "pfield lg2 r0" ?X "?p + ?r" ?r "b2 @ ?F @ [255]"] 2(1) lx rlt by simp
      then show ?thesis using step ne 2 sz by (intro keep) (simp_all add: e2)
    next
      case 3
      have "zipPrevEncodeLength ?zl (?p + ?r) ?r = Some (?X @ pfield (254 \<le> ?r) ?r @ (b2 @ ?F) @ [255], zipPrevEncodeLength_size ?r)"
        using put_prevlen [of "pfield lg2 r0" ?r ?X "?p + ?r" "b2 @ ?F @ [255]"] 3 lx rlt psz_prev [of ?r] by simp
      then show ?thesis using step ne 3 sz by (intro keep) (auto simp: e2)
    qed
  qed
qed

section \<open>Bodies\<close>

text \<open>The bytes \<open>__ziplistInsert\<close> writes behind the length-of-previous field.\<close>

definition int_bytes :: "nat \<Rightarrow> int \<Rightarrow> bytes" where
  "int_bytes enc v =
     (if enc = ZIP_INT_8B then [of_nat (uns_of 8 v)]
      else if enc = ZIP_INT_16B then le_enc 2 (uns_of 16 v)
      else if enc = ZIP_INT_24B then drop 1 (le_enc 4 (uns_of 32 (v * 256)))
      else if enc = ZIP_INT_32B then le_enc 4 (uns_of 32 v)
      else if enc = ZIP_INT_64B then le_enc 8 (uns_of 64 v)
      else [])"

definition zbody :: "bytes \<Rightarrow> bytes" where
  "zbody s =
     (case zipTryEncoding s of
        Some (v, enc) \<Rightarrow> of_nat enc # int_bytes enc v
      | None \<Rightarrow> zip_len_bytes 0 (length s) @ s)"

text \<open>The value \<open>ziplistGet\<close> reports for a string: itself, or the integer it is a decimal of.\<close>

definition zval_of :: "bytes \<Rightarrow> zval" where
  "zval_of s = (case zipTryEncoding s of Some (v, _) \<Rightarrow> ZInt v | None \<Rightarrow> ZStr s)"

text \<open>Bit masks on bytes as arithmetic, checked for all bytes.\<close>

lemma and_mask_mod64: "n AND 63 = n mod (64::nat)"
  using take_bit_eq_mask [of 6 n] by (simp add: take_bit_eq_mod mask_eq_exp_minus_1)

lemma and_mask_mod16: "n AND 15 = n mod (16::nat)"
  using take_bit_eq_mask [of 4 n] by (simp add: take_bit_eq_mod mask_eq_exp_minus_1)

lemma byte_masks:
  assumes "(n::nat) < 256"
  shows "n AND 0xc0 = n div 64 * 64" "n AND 0x3f = n mod 64" "n AND 0x0f = n mod 16"
proof -
  have "n AND push_bit 6 (mask 2) = push_bit 6 (drop_bit 6 n)"
  proof (rule bit_eqI)
    fix k
    have "bit n k \<Longrightarrow> k < 8" using assms bit_take_bit_iff [of 8 n k] by (simp add: take_bit_nat_eq_self)
    then show "bit (n AND push_bit 6 (mask 2)) k \<longleftrightarrow> bit (push_bit 6 (drop_bit 6 n)) k"
      by (auto simp: bit_and_iff bit_push_bit_iff bit_mask_iff bit_drop_bit_eq)
  qed
  then show "n AND 0xc0 = n div 64 * 64" by (simp add: push_bit_eq_mult drop_bit_eq_div mask_eq_exp_minus_1)
  show "n AND 0x3f = n mod 64" using and_mask_mod64 [of n] by simp
  show "n AND 0x0f = n mod 16" using and_mask_mod16 [of n] by simp
qed

lemma or_64: "k < 64 \<Longrightarrow> 0x40 OR k = 64 + (k::nat)"
proof -
  assume k: "k < 64"
  have "\<forall>k\<in>set [0..<64]. 0x40 OR k = 64 + (k::nat)" by code_simp
  then show ?thesis using k by simp
qed

definition int_enc :: "nat \<Rightarrow> bool" where
  "int_enc enc \<longleftrightarrow> enc \<in> {192, 208, 224, 240, 254} \<or> (241 \<le> enc \<and> enc \<le> 253)"

text \<open>Which integers an encoding holds.\<close>

definition enc_fits :: "nat \<Rightarrow> int \<Rightarrow> bool" where
  "enc_fits enc v \<longleftrightarrow>
     (enc = 254 \<and> in_sint 8 v) \<or> (enc = 192 \<and> in_sint 16 v) \<or> (enc = 240 \<and> in_sint 24 v) \<or>
     (enc = 208 \<and> in_sint 32 v) \<or> (enc = 224 \<and> in_sint 64 v) \<or> (0 \<le> v \<and> v \<le> 12 \<and> enc = 241 + nat v)"

lemma zipTryEncoding_Some:
  assumes "zipTryEncoding s = Some (v, enc)"
  shows "enc_fits enc v" "string2ll s = Some v"
proof -
  show sv: "string2ll s = Some v" using assms by (auto simp: zipTryEncoding_def split: if_splits option.splits)
  then have "in_sint 64 v" using string2ll_range by blast
  then show "enc_fits enc v" using assms sv
    by (auto simp: zipTryEncoding_def enc_fits_def zip_consts split: if_splits)
qed

lemma enc_fits_int: "enc_fits enc v \<Longrightarrow> int_enc enc"
  by (auto simp: enc_fits_def int_enc_def)

lemma int_enc_bound: "int_enc enc \<Longrightarrow> 192 \<le> enc \<and> enc < 255"
  by (auto simp: int_enc_def)

lemma int_enc_not_str: "int_enc enc \<Longrightarrow> \<not> ZIP_IS_STR enc"
proof -
  assume "int_enc enc"
  then have "192 \<le> enc" "enc < 256" using int_enc_bound [of enc] by auto
  moreover from this have "enc div 64 = 3" by simp
  ultimately show ?thesis by (simp add: ZIP_IS_STR_def zip_consts byte_masks)
qed

lemma zero_is_str [simp]: "ZIP_IS_STR 0" "ZIP_IS_STR 64" "ZIP_IS_STR 128"
  by (simp_all add: ZIP_IS_STR_def zip_consts byte_masks)

lemma length_int_bytes: "length (int_bytes enc v) = zipIntSize enc"
  by (simp add: int_bytes_def zipIntSize_def)

lemma length_zip_len_bytes [simp]: "length (zip_len_bytes enc n) = zipEncodeLength_size enc n"
  by (simp add: zip_len_bytes_def zipEncodeLength_size_def)

lemma decode_int_body:
  assumes "int_enc enc"
  shows "ZIP_DECODE_LENGTH (of_nat enc # xs) 0 = Some (enc, 1, zipIntSize enc)"
  using int_enc_bound [OF assms]
  by (auto simp: ZIP_DECODE_LENGTH_def ZIP_ENTRY_ENCODING_def rdb_def zip_consts)

lemma decode_str_body:
  assumes "n < 2 ^ 32"
  shows "\<exists>enc. ZIP_DECODE_LENGTH (zip_len_bytes 0 n @ xs) 0 = Some (enc, zipEncodeLength_size 0 n, n) \<and> ZIP_IS_STR enc"
proof -
  consider "n \<le> 63" | "63 < n" "n \<le> 16383" | "16383 < n" by linarith
  then show ?thesis
  proof cases
    case 1
    then show ?thesis
      by (auto simp: zip_len_bytes_def zipEncodeLength_size_def ZIP_DECODE_LENGTH_def ZIP_ENTRY_ENCODING_def rdb_def zip_consts byte_masks)
  next
    case 2
    have d: "n div 256 < 64" using 2 by simp
    have m: "(n div 256) AND 63 = n div 256" using d by (simp add: byte_masks)
    have o: "0x40 OR (n div 256) = 64 + n div 256" using d by (rule or_64)
    have "(64 + n div 256) div 64 = 1" "(64 + n div 256) mod 64 = n div 256" using d by simp_all
    then show ?thesis using 2 d m o
      by (simp add: zip_len_bytes_def zipEncodeLength_size_def ZIP_DECODE_LENGTH_def ZIP_ENTRY_ENCODING_def rdb_def zip_consts byte_masks
          del: of_nat_add)
  next
    case 3
    have "rd_block (128 # be_enc 4 n @ xs) 1 4 = Some (be_enc 4 n)"
      using rd_block_at [of "be_enc 4 n" 4 "[128]" 1 xs] by simp
    then show ?thesis using 3 assms
      by (simp add: zip_len_bytes_def zipEncodeLength_size_def ZIP_DECODE_LENGTH_def ZIP_ENTRY_ENCODING_def rdb_def zip_consts byte_masks)
  qed
qed

lemma zbody_ok:
  assumes "length s < 2 ^ 32"
  shows "body_ok (zbody s)"
proof (cases "zipTryEncoding s")
  case None
  then show ?thesis using decode_str_body [OF assms, of s] by (auto simp: zbody_def body_ok_def)
next
  case (Some ve)
  obtain v enc where ve: "ve = (v, enc)" by (cases ve)
  then have "int_enc enc" using Some zipTryEncoding_Some(1) enc_fits_int by blast
  then show ?thesis using Some ve decode_int_body [of enc "int_bytes enc v"] by (simp add: zbody_def body_ok_def length_int_bytes)
qed

lemma save_integer_at:
  assumes "int_enc enc" "length ys = zipIntSize enc" "length xs = p"
  shows "zipSaveInteger (xs @ ys @ zs) p v enc = Some (xs @ int_bytes enc v @ zs)"
proof -
  have b: "length ys = length w \<Longrightarrow> wr_block (xs @ ys @ zs) p w = Some (xs @ w @ zs)" for w using assms(3) by (rule wr_block_at [rotated])
  have w1: "length ys = 1 \<Longrightarrow> wr (xs @ ys @ zs) p w = Some (xs @ [w] @ zs)" for w
    using wr_middle [of xs "hd ys" zs w] assms(3) by (cases ys) auto
  show ?thesis using assms(1,2) b w1
    by (auto simp: zipSaveInteger_def int_bytes_def zipIntSize_def put_le_def int_enc_def zip_consts)
qed

lemma load_integer_body:
  assumes "enc_fits enc v" "length xs = p"
  shows "zipLoadInteger (xs @ int_bytes enc v @ zs) p enc = Some v"
proof -
  have le: "in_sint (8 * n) v \<Longrightarrow> 0 < n \<Longrightarrow> map_option (sgn_of (8 * n)) (get_le n (xs @ le_enc n (uns_of (8 * n) v) @ zs) p) = Some v" for n
    using get_le_at [of "uns_of (8 * n) v" n xs p zs] uns_of_less [of "8 * n" v] assms(2)
    by (simp add: power_mult sgn_of_uns_of)
  have b8: "in_sint 8 v \<Longrightarrow> map_option (sgn_of 8) (rdb (xs @ of_nat (uns_of 8 v) # zs) p) = Some v"
    using rdb_at [OF assms(2), of "of_nat (uns_of 8 v)" zs] uns_of_less [of 8 v] sgn_of_uns_of [of 8 v] by simp
  have b24: "in_sint 24 v \<Longrightarrow> map_option (\<lambda>bs. sgn_of 32 (le_dec (0 # bs)) div 256) (rd_block (xs @ drop 1 (le_enc 4 (uns_of 32 (v * 256))) @ zs) p 3) = Some v"
  proof -
    assume v: "in_sint 24 v"
    let ?u = "uns_of 32 (v * 256)"
    have "v * 256 mod 2 ^ 32 mod 256 = 0" by (simp add: mod_mod_cancel)
    then have "int ?u mod 256 = 0" by (simp add: int_uns_of)
    then have m0: "?u mod 256 = 0" by presburger
    have s4: "Suc 3 = 4" by simp
    have "le_enc 4 ?u = of_nat (?u mod 256) # le_enc 3 (?u div 256)" using le_enc.simps(2) [of 3 ?u] unfolding s4 .
    then have e: "le_enc 4 ?u = 0 # drop 1 (le_enc 4 ?u)" unfolding m0 by simp
    have l: "length (drop 1 (le_enc 4 ?u)) = 3" by simp
    have "le_dec (le_enc 4 ?u) = ?u" using uns_of_less [of 32 "v * 256"] by (intro le_dec_enc) simp
    then have "le_dec (0 # drop 1 (le_enc 4 ?u)) = ?u" using e by metis
    moreover have "sgn_of 32 ?u = v * 256" using v by (intro sgn_of_uns_of) simp_all
    ultimately show ?thesis unfolding rd_block_at [OF l assms(2)] by simp
  qed
  have imm: "0 \<le> v \<Longrightarrow> v \<le> 12 \<Longrightarrow> int ((241 + nat v) AND 15) - 1 = v"
  proof -
    assume v: "0 \<le> v" "v \<le> 12"
    then obtain k where k: "v = int k" "k \<le> 12" by (metis nonneg_int_cases of_nat_le_iff of_nat_numeral)
    then have "(241 + k) mod 16 = 1 + k" by presburger
    then show ?thesis using k by (simp add: and_mask_mod16)
  qed
  show ?thesis using assms(1) le [of 2] le [of 4] le [of 8] b8 b24 imm
    by (auto simp: enc_fits_def zipLoadInteger_def int_bytes_def zip_consts)
qed

section \<open>Insertion\<close>

text \<open>What \<open>__ziplistInsert\<close> knows of the new entry: value and encoding, and the size of the body.\<close>

definition enc_of :: "bytes \<Rightarrow> int \<times> nat" where
  "enc_of s = (case zipTryEncoding s of Some (v, e) \<Rightarrow> (v, e) | None \<Rightarrow> (123456789, 0))"

lemma length_zbody:
  "length (zbody s) = (case zipTryEncoding s of Some (v, e) \<Rightarrow> zipIntSize e | None \<Rightarrow> length s)
     + zipEncodeLength_size (snd (enc_of s)) (length s)"
proof (cases "zipTryEncoding s")
  case None
  then show ?thesis by (simp add: zbody_def enc_of_def)
next
  case (Some ve)
  obtain v enc where ve: "ve = (v, enc)" by (cases ve)
  then have "\<not> ZIP_IS_STR enc" using Some zipTryEncoding_Some(1) enc_fits_int int_enc_not_str by blast
  then show ?thesis using Some ve by (simp add: zbody_def enc_of_def length_int_bytes zipEncodeLength_size_def)
qed

lemma write_entry:
  assumes "length G = psz (254 \<le> pl) + length (zbody s)" "length X = p" "pl < 2 ^ 32" "enc_of s = (v, enc)"
  shows "zipPrevEncodeLength (X @ G @ Z) p pl \<bind> (\<lambda>(zl, n1).
     zipEncodeLength zl (p + n1) enc (length s) \<bind> (\<lambda>(zl, n2).
     (if ZIP_IS_STR enc then wr_block zl (p + n1 + n2) s else zipSaveInteger zl (p + n1 + n2) v enc) \<bind> K)) =
     K (X @ (pfield (254 \<le> pl) pl @ zbody s) @ Z)"
proof -
  let ?P = "pfield (254 \<le> pl) pl" and ?n1 = "zipPrevEncodeLength_size pl" and ?n2 = "zipEncodeLength_size enc (length s)"
  define g1 where "g1 = take ?n1 G"
  define g2 where "g2 = take ?n2 (drop ?n1 G)"
  define g3 where "g3 = drop ?n2 (drop ?n1 G)"
  have G: "G = g1 @ g2 @ g3" by (simp only: g1_def g2_def g3_def append_take_drop_id)
  have lens: "length (zbody s) = length (drop ?n2 (zbody s)) + ?n2" "length g1 = ?n1" "length g2 = ?n2"
    "length g3 = (case zipTryEncoding s of Some (v, e) \<Rightarrow> zipIntSize e | None \<Rightarrow> length s)"
    using assms(1,4) length_zbody [of s] psz_prev [of pl] by (simp_all add: g1_def g2_def g3_def)
  have 1: "zipPrevEncodeLength (X @ G @ Z) p pl = Some (X @ ?P @ g2 @ g3 @ Z, ?n1)"
    using put_prevlen [of g1 pl X p "g2 @ g3 @ Z"] assms(2,3) lens(2) G by simp
  have p1: "length (X @ ?P) = p + ?n1" using assms(2) psz_prev by simp
  have 2: "zipEncodeLength (X @ ?P @ g2 @ g3 @ Z) (p + ?n1) enc (length s) = Some (X @ ?P @ zip_len_bytes enc (length s) @ g3 @ Z, ?n2)"
    using wr_block_at [of g2 "zip_len_bytes enc (length s)" "X @ ?P" "p + ?n1" "g3 @ Z"] p1 lens(3)
    by (simp add: zipEncodeLength_def)
  have p2: "length (X @ ?P @ zip_len_bytes enc (length s)) = p + ?n1 + ?n2" using p1 by simp
  have 3: "(if ZIP_IS_STR enc then wr_block (X @ ?P @ zip_len_bytes enc (length s) @ g3 @ Z) (p + ?n1 + ?n2) s
      else zipSaveInteger (X @ ?P @ zip_len_bytes enc (length s) @ g3 @ Z) (p + ?n1 + ?n2) v enc) = Some (X @ (?P @ zbody s) @ Z)"
  proof (cases "zipTryEncoding s")
    case None
    then show ?thesis using assms(4) lens(4) wr_block_at [of g3 s "X @ ?P @ zip_len_bytes enc (length s)" "p + ?n1 + ?n2" Z] p2
      by (simp add: enc_of_def zbody_def)
  next
    case (Some ve)
    then have ve: "zipTryEncoding s = Some (v, enc)" using assms(4) by (auto simp: enc_of_def split: prod.splits)
    then have ie: "int_enc enc" using zipTryEncoding_Some(1) enc_fits_int by blast
    have "zip_len_bytes enc (length s) = [of_nat enc]" using int_enc_not_str [OF ie] by (simp add: zip_len_bytes_def)
    then show ?thesis using ve lens(4) int_enc_not_str [OF ie]
        save_integer_at [OF ie, of g3 "X @ ?P @ zip_len_bytes enc (length s)" "p + ?n1 + ?n2" Z v] p2
      by (simp add: zbody_def)
  qed
  show ?thesis using 1 2 3 by simp
qed

text \<open>
  The entries behind an insertion or deletion: the first of them gets a length field of
  the smallest width, the others change only through the cascade.
\<close>

fun fixnext :: "nat \<Rightarrow> zent list \<Rightarrow> zent list" where
  "fixnext r [] = []"
| "fixnext r (e # es) = (254 \<le> r, snd e) # casc (psz (254 \<le> r) + length (snd e)) es"

lemma fixnext_bodies [simp]: "map snd (fixnext r es) = map snd es"
  by (cases es) simp_all

lemma length_fixnext [simp]: "length (fixnext r es) = length es"
  by (metis fixnext_bodies length_map)

lemma zok_fixnext: "zok r0 es \<Longrightarrow> zok r (fixnext r es)"
  by (cases es) (auto simp: raw_def intro: zok_casc split: if_splits)

text \<open>A read that starts a few bytes before a known part.\<close>

lemma rd_block_before:
  assumes "k \<le> length U" "length U = m"
  shows "rd_block (U @ V @ W) (m - k) (k + length V) = Some (drop (m - k) U @ V)"
proof -
  have "U @ V @ W = take (m - k) U @ (drop (m - k) U @ V) @ W" by simp
  also have "rd_block \<dots> (m - k) (k + length V) = Some (drop (m - k) U @ V)"
    using assms by (intro rd_block_at) simp_all
  finally show ?thesis .
qed

text \<open>Moving the entries behind the insertion point and storing the new length in the first of them.\<close>

lemma insert_move:
  assumes U: "length U = p + psz lg" "10 \<le> p" and A: "length A = p"
    and z: "U @ b @ F @ junk @ [255] = A @ Y @ [255]" and Y: "length Y = R + psz lg' + length (b @ F)"
    and lg': "lg' = (254 \<le> R)" "R < 2 ^ 32" and nd: "nd = int (psz lg') - int (psz lg)"
    and M: "M = psz lg' + length (b @ F)"
  shows "\<exists>G. length G = R \<and> (ptr_add p (- nd) \<bind> (\<lambda>q. memmove_at (A @ Y @ [255]) (p + R) q M \<bind> (\<lambda>zl.
     zipPrevEncodeLength zl (p + R) R \<bind> (\<lambda>(zl, _). K zl)))) = K (A @ G @ (pfield lg' R @ b @ F) @ [255])"
proof -
  let ?q = "p + psz lg - psz lg'"
  have k: "psz lg' \<le> length U" using U by (simp add: psz_def)
  have q: "ptr_add p (- nd) = Some ?q" using U(2) nd by (auto simp: ptr_add_def psz_def)
  define Q where "Q = drop ?q U"
  have lq: "length Q = psz lg'" using U k by (simp add: Q_def)
  have rd: "rd_block (A @ Y @ [255]) ?q M = Some (Q @ b @ F)"
    using rd_block_before [OF k U(1), of "b @ F" "junk @ [255]"] z M by (simp add: Q_def)
  have az: "A @ Y @ [255] = (A @ take R Y) @ drop R Y @ [255]" by simp
  have "wr_block (A @ Y @ [255]) (p + R) (Q @ b @ F) = Some ((A @ take R Y) @ (Q @ b @ F) @ [255])"
    unfolding az using Y lq A by (intro wr_block_at) simp_all
  then have mv: "memmove_at (A @ Y @ [255]) (p + R) ?q M = Some ((A @ take R Y) @ Q @ (b @ F @ [255]))"
    using rd by (simp add: memmove_at_def)
  have "zipPrevEncodeLength ((A @ take R Y) @ Q @ (b @ F @ [255])) (p + R) R =
      Some ((A @ take R Y) @ pfield lg' R @ (b @ F @ [255]), zipPrevEncodeLength_size R)"
    unfolding lg'(1) using lq lg' A Y by (intro put_prevlen) (simp_all add: psz_prev)
  then show ?thesis using q mv Y by (intro exI [of _ "take R Y"]) simp
qed

lemma tailoff_split: "tailoff (xs @ e # ys) = 10 + raws xs + (if ys = [] then 0 else raw e + raws (butlast ys))"
  by (simp add: tailoff_def butlast_append)

lemma tailoff_less: "es \<noteq> [] \<Longrightarrow> tailoff es < 11 + raws es"
  using raws_butlast [of es] raw_pos [of "last es"] by (simp add: tailoff_def)

lemma tailoff_less': "tailoff es < 11 + raws es"
  by (cases "es = []") (simp add: tailoff_def, rule tailoff_less)

end
