(* ===== verification/ZiplistOps.thy ===== *)
theory ZiplistOps
  imports ZiplistRep
begin

text \<open>
  Insertion, deletion, traversal and lookup on a well-formed ziplist, as operations on the
  list of its bodies, and the properties of the component.  The one case in which
  \<open>__ziplistInsert\<close> of this version goes wrong, a new entry of less than four bytes in
  front of an entry whose length field can shrink, is excluded in the statement about it
  and shown to fail in a theorem of its own.
\<close>

section \<open>Insertion before an entry\<close>

lemma zrepI:
  "zok 0 es \<Longrightarrow> n < 2 ^ 32 \<Longrightarrow> cnt_ok c (length es) \<Longrightarrow> 11 + raws es = n \<Longrightarrow> tailoff es = t \<Longrightarrow> flat 0 es @ [255] = x \<Longrightarrow>
     zrep (hdr n t c @ x) es"
  by (auto simp: zrep_def)

lemma cascade_update:
  assumes "zok r0 es" "body_ok b" "prev < 2 ^ 32" "r0 < 2 ^ 32" "lg = (254 \<le> prev)"
    and N: "N = 11 + length A + raw (lg, b) + raws es" "N + 4 * length es < 2 ^ 32"
    and t: "es \<noteq> [] \<Longrightarrow> t = 10 + length A + raw (lg, b) + raws (butlast es)"
    and nd: "\<not> upd \<Longrightarrow> raw (lg, b) = r0"
  shows "(if upd then ziplistCascadeUpdate jk (hdr N t c @ A @ (pfield lg prev @ b) @ flat r0 es @ [255]) (10 + length A)
       else Some (hdr N t c @ A @ (pfield lg prev @ b) @ flat r0 es @ [255])) =
     Some (hdr (11 + length A + raw (lg, b) + raws (casc (raw (lg, b)) es))
             (if es = [] then t else 10 + length A + raw (lg, b) + raws (butlast (casc (raw (lg, b)) es))) c
           @ A @ (pfield lg prev @ b) @ flat (raw (lg, b)) (casc (raw (lg, b)) es) @ [255])"
proof (cases upd)
  case True
  have "N < 2 ^ 32" using N by simp
  then have "ZIPLIST_BYTES (hdr N t c @ A @ (pfield lg prev @ b) @ flat r0 es @ [255]) = Some N" by (rule hdr_fields)
  moreover have "if lg then True else prev < 254" using assms(5) by simp
  ultimately show ?thesis using True cascade_ok [OF assms(1,2) _ assms(3,4) N t, of jk c]
    by (simp add: ziplistCascadeUpdate_def)
next
  case False
  then have "raw (lg, b) = r0" by (rule nd)
  moreover from this have "casc (raw (lg, b)) es = es" using assms(1) casc_same by blast
  ultimately show ?thesis using False N(1) t by (cases es) simp_all
qed

lemma length_zbody_pos: "1 \<le> length (zbody s)"
  by (simp add: length_zbody zipEncodeLength_size_def split: option.splits)

lemma incr_one:
  "cnt_ok c n \<Longrightarrow> \<exists>c'. ZIPLIST_INCR_LENGTH (hdr m t c @ xs) 1 = Some (hdr m t c' @ xs) \<and> cnt_ok c' (n + 1)"
  using incr_length_ok [of c n 1 0 "n + 1"] by simp

text \<open>The update of the tail offset once the entries behind the new one are in place.\<close>

lemma tail_fix:
  assumes b: "body_ok b" and lg: "lg = (254 \<le> P)" "P < 2 ^ 32" and q: "q = 10 + length A"
    and t: "t < 2 ^ 32" "g t < 2 ^ 32" "0 \<le> int (g t) + nd" "int (g t) + nd < 2 ^ 32" and es: "zok r0 es" "r0 < 2 ^ 32"
  shows "(let zl = hdr N t c @ A @ (pfield lg P @ b @ flat r0 es) @ [255] in
     ZIPLIST_TAIL_OFFSET zl \<bind> (\<lambda>t. set_TAIL_OFFSET zl (g t) \<bind> (\<lambda>zl. zipEntry zl q \<bind> (\<lambda>tail.
       rdb zl (q + headersize tail + zlen tail) \<bind> (\<lambda>b'.
       (if b' \<noteq> ZIP_END then ZIPLIST_TAIL_OFFSET zl \<bind> (\<lambda>t. set_TAIL_OFFSET zl (uns_of 32 (int t + nd))) else Some zl)
       \<bind> K))))) =
     K (hdr N (if es = [] then g t else nat (int (g t) + nd)) c @ A @ (pfield lg P @ b) @ flat r0 es @ [255])"
proof -
  let ?X = "A @ (pfield lg P @ b @ flat r0 es) @ [255]"
  have f: "ZIPLIST_TAIL_OFFSET (hdr N t c @ ?X) = Some t" "set_TAIL_OFFSET (hdr N t c @ ?X) (g t) = Some (hdr N (g t) c @ ?X)"
    "ZIPLIST_TAIL_OFFSET (hdr N (g t) c @ ?X) = Some (g t)"
    using t by (auto intro: hdr_fields set_hdr_fields)
  have lgok: "if lg then True else P < 254" using lg by simp
  obtain e where e: "zipEntry (hdr N (g t) c @ ?X) q = Some e" "headersize e + zlen e = raw (lg, b)"
    using entry_at(1) [OF b lgok lg(2), of "hdr N (g t) c @ A" q "flat r0 es @ [255]"] q by auto
  have lx: "length (hdr N (g t) c @ A @ pfield lg P @ b) = q + raw (lg, b)" using q by (simp add: raw_def)
  obtain b' where b': "rdb (hdr N (g t) c @ ?X) (q + raw (lg, b)) = Some b'" "b' = 255 \<longleftrightarrow> es = []"
    using first_byte [OF es lx] by auto
  have u: "uns_of 32 (int (g t) + nd) = nat (int (g t) + nd)" using t(3,4) by (simp add: uns_of_def)
  have "set_TAIL_OFFSET (hdr N (g t) c @ ?X) (nat (int (g t) + nd)) = Some (hdr N (nat (int (g t) + nd)) c @ ?X)"
    using t(3,4) by (intro set_hdr_fields) (simp add: nat_less_iff)
  then show ?thesis using f e b' u by (simp add: Let_def zip_consts add.assoc)
qed

lemma insert_middle:
  assumes zok: "zok 0 (es1 @ (lg, b) # es3)" and c: "cnt_ok c (length (es1 @ (lg, b) # es3))"
    and pl: "pl = lastraw 0 es1" and R: "R = psz (254 \<le> pl) + length (zbody s)"
    and safe: "lg \<longrightarrow> 4 \<le> R" and s: "length s < 2 ^ 32"
    and cap: "11 + raws (es1 @ (lg, b) # es3) + R + 4 * length es3 + 8 < 2 ^ 32"
  shows "\<exists>zl'. ziplistInsert_gen jk (hdr (11 + raws (es1 @ (lg, b) # es3)) (tailoff (es1 @ (lg, b) # es3)) c
         @ flat 0 (es1 @ (lg, b) # es3) @ [255]) (10 + raws es1) s = Some zl' \<and>
       zrep zl' (es1 @ (254 \<le> pl, zbody s) # fixnext R ((lg, b) # es3))"
proof -
  let ?es = "es1 @ (lg, b) # es3" and ?A = "flat 0 es1" and ?F = "flat (raw (lg, b)) es3" and ?p = "10 + raws es1"
  let ?N = "11 + raws ?es" and ?t = "tailoff ?es" and ?lg = "254 \<le> R"
  let ?zl = "(hdr ?N ?t c @ ?A) @ pfield lg pl @ (b @ ?F @ [255])"
  have zl: "hdr ?N ?t c @ flat 0 ?es @ [255] = ?zl" by (simp add: flat_append pl)
  have ok: "if lg then 0 < pl else pl < 254" "body_ok b" "zok (raw (lg, b)) es3" "zok 0 es1" using zok by (auto simp: zok_append pl)
  have lgok: "if lg then True else pl < 254" using ok(1) by simp
  have small: "pl < 2 ^ 32" "R < 2 ^ 32" "raw (lg, b) < 2 ^ 32" "?N < 2 ^ 32"
    using cap pl raws_butlast [of es1] by (auto simp: lastraw_def)
  have tl: "?t < ?N" by (rule tailoff_less')
  let ?nd = "int (psz ?lg) - int (psz lg)"
  have Rpos: "2 \<le> R" using R length_zbody_pos [of s] by (simp add: psz_def)
  define g where "g = nat (int R + ?nd)"
  have g: "int g = int R + ?nd" using safe Rpos by (auto simp: g_def psz_def)
  have gcap: "?N + g < 2 ^ 32" using g cap by (auto simp: psz_def split: if_splits)
  have lp: "length (hdr ?N ?t c @ ?A) = ?p" by simp
  obtain b0 where b0: "rdb ?zl ?p = Some b0" "b0 < 255" using prevlen_at(3) [OF lgok small(1) lp] by blast
  have dp: "ZIP_DECODE_PREVLEN ?zl ?p = Some (psz lg, pl)" "ZIP_DECODE_PREVLENSIZE ?zl ?p = Some (psz lg)"
    using prevlen_at(1,2) [OF lgok small(1) lp] by blast+
  obtain v enc where enc: "enc_of s = (v, enc)" by (cases "enc_of s")
  have req: "(case zipTryEncoding s of Some (v, e) \<Rightarrow> zipIntSize e | None \<Rightarrow> length s) + zipPrevEncodeLength_size pl
      + zipEncodeLength_size enc (length s) = R"
    using length_zbody [of s] enc R psz_prev [of pl] by simp
  have diff: "zipPrevLenByteDiff ?zl ?p R = Some ?nd" using dp(2) psz_prev [of R] by (simp add: zipPrevLenByteDiff_def)
  obtain junk where j: "ziplistResize jk ?zl (?N + g) = Some (hdr (?N + g) ?t c @ (?A @ pfield lg pl @ b @ ?F) @ junk @ [255])" "length junk = g"
    using resize_grow [of ?N "?A @ pfield lg pl @ b @ ?F" g jk ?t c] gcap by (auto simp: raw_def)
  have nsz: "nat (int ?N + int R + ?nd) = ?N + g" using g by linarith
  let ?H = "hdr (?N + g) ?t c"
  let ?U = "?H @ ?A @ pfield lg pl"
  let ?Y = "pfield lg pl @ b @ ?F @ junk"
  let ?z1 = "(?H @ ?A) @ ?Y @ [255]"
  have z1: "hdr (?N + g) ?t c @ (?A @ pfield lg pl @ b @ ?F) @ junk @ [255] = ?z1" by simp
  obtain b0' where b0': "rdb ?z1 ?p = Some b0'" "b0' < 255"
    using prevlen_at(3) [OF lgok small(1), of "?H @ ?A" ?p "b @ ?F @ junk @ [255]"] by auto
  have lY: "length ?Y = R + psz ?lg + length (b @ ?F)" using j(2) g by simp
  have M: "nat (int ?N - int ?p - 1 + ?nd) = psz ?lg + length (b @ ?F)" by (simp add: raw_def psz_def)
  let ?K = "\<lambda>zl. ZIPLIST_TAIL_OFFSET zl \<bind> (\<lambda>t. set_TAIL_OFFSET zl (t + R) \<bind> (\<lambda>zl. zipEntry zl (?p + R) \<bind> (\<lambda>tail.
       rdb zl (?p + R + headersize tail + zlen tail) \<bind> (\<lambda>b'.
       if b' \<noteq> ZIP_END then ZIPLIST_TAIL_OFFSET zl \<bind> (\<lambda>t. set_TAIL_OFFSET zl (uns_of 32 (int t + ?nd))) else Some zl))))"
  have lU: "length ?U = ?p + psz lg" "10 \<le> ?p" "length (?H @ ?A) = ?p" by simp_all
  have zU: "?U @ b @ ?F @ junk @ [255] = (?H @ ?A) @ ?Y @ [255]" by simp
  obtain G where G: "length G = R" "(ptr_add ?p (- ?nd) \<bind> (\<lambda>q. memmove_at ?z1 (?p + R) q (psz ?lg + length (b @ ?F)) \<bind> (\<lambda>zl.
     zipPrevEncodeLength zl (?p + R) R \<bind> (\<lambda>(zl, _). ?K zl)))) = ?K ((?H @ ?A) @ G @ (pfield ?lg R @ b @ ?F) @ [255])"
    using insert_move [OF lU zU lY refl small(2) refl refl, of ?K] by blast
  let ?t2 = "if es3 = [] then ?t + R else nat (int (?t + R) + ?nd)"
  let ?z2 = "hdr (?N + g) ?t2 c @ (?A @ G) @ (pfield ?lg R @ b) @ ?F @ [255]"
  have pR: "?p + R = 10 + length (?A @ G)" using G(1) by simp
  have tb: "?t < 2 ^ 32" "?t + R < 2 ^ 32" "0 \<le> int (?t + R) + ?nd" "int (?t + R) + ?nd < 2 ^ 32"
    using tl cap by (auto simp: tailoff_def psz_def split: if_splits)
  have blk: "?K ((?H @ ?A) @ G @ (pfield ?lg R @ b @ ?F) @ [255]) = Some ?z2"
    using tail_fix [where g = "\<lambda>t. t + R" and N = "?N + g" and c = c and K = Some, OF ok(2) refl small(2) pR tb ok(3) small(3)] by (simp add: Let_def)
  have N2: "?N + g = 11 + length (?A @ G) + raw (?lg, b) + raws es3" using g G(1) by (simp add: raw_def)
  have t2: "es3 \<noteq> [] \<Longrightarrow> ?t2 = 10 + length (?A @ G) + raw (?lg, b) + raws (butlast es3)"
    using G(1) by (auto simp: tailoff_split raw_def psz_def)
  have nz: "\<not> ?nd \<noteq> 0 \<Longrightarrow> raw (?lg, b) = raw (lg, b)" by (simp add: raw_def)
  have cap2: "?N + g + 4 * length es3 < 2 ^ 32" using g cap by (auto simp: psz_def split: if_splits)
  let ?r = "raw (?lg, b)"
  let ?N3 = "11 + length (?A @ G) + ?r + raws (casc ?r es3)"
  let ?t3 = "if es3 = [] then ?t2 else 10 + length (?A @ G) + ?r + raws (butlast (casc ?r es3))"
  let ?Z = "(pfield ?lg R @ b) @ flat ?r (casc ?r es3) @ [255]"
  have casc: "(if ?nd \<noteq> 0 then ziplistCascadeUpdate jk ?z2 (?p + R) else Some ?z2) = Some (hdr ?N3 ?t3 c @ (?A @ G) @ ?Z)"
    unfolding pR by (rule cascade_update [OF ok(3,2) small(2,3) refl N2 cap2 t2 nz])
  have lG: "length G = psz (254 \<le> pl) + length (zbody s)" using G(1) R by simp
  have lA: "length (hdr ?N3 ?t3 c @ ?A) = ?p" by simp
  let ?new = "pfield (254 \<le> pl) pl @ zbody s"
  obtain c' where c': "ZIPLIST_INCR_LENGTH (hdr ?N3 ?t3 c @ ?A @ ?new @ ?Z) 1 = Some (hdr ?N3 ?t3 c' @ ?A @ ?new @ ?Z)" "cnt_ok c' (length ?es + 1)"
    using incr_one [OF c] by blast
  have wr: "zipPrevEncodeLength (hdr ?N3 ?t3 c @ (?A @ G) @ ?Z) ?p pl \<bind> (\<lambda>(zl, n1).
     zipEncodeLength zl (?p + n1) enc (length s) \<bind> (\<lambda>(zl, n2).
     (if ZIP_IS_STR enc then wr_block zl (?p + n1 + n2) s else zipSaveInteger zl (?p + n1 + n2) v enc) \<bind>
     (\<lambda>zl. ZIPLIST_INCR_LENGTH zl 1))) = Some (hdr ?N3 ?t3 c' @ ?A @ ?new @ ?Z)"
    using write_entry [OF lG lA small(1) enc, of ?Z "\<lambda>zl. ZIPLIST_INCR_LENGTH zl 1"] c'(1) by simp
  have bytes: "ZIPLIST_BYTES ?zl = Some ?N" using hdr_fields(1) [OF small(4), of ?t c "?A @ pfield lg pl @ (b @ ?F @ [255])"] by simp
  have enc': "(case zipTryEncoding s of Some (v, e) \<Rightarrow> (v, e) | None \<Rightarrow> (123456789, 0)) = (v, enc)" using enc by (simp add: enc_of_def)
  have ne: "b0 \<noteq> ZIP_END" "b0' \<noteq> ZIP_END" using b0(2) b0'(2) by (simp_all add: zip_consts)
  have run: "ziplistInsert_gen jk ?zl ?p s = Some (hdr ?N3 ?t3 c' @ ?A @ ?new @ ?Z)"
    unfolding ziplistInsert_gen_def
    by (simp only: bytes b0(1) dp(1) diff enc' req nsz j(1) z1 b0'(1) M G(2) blk casc wr ne Option.bind.simps Let_def prod.case
        if_True not_False_eq_True simp_thms)
  let ?es' = "es1 @ (254 \<le> pl, zbody s) # fixnext R ((lg, b) # es3)"
  have "zok 0 ?es'"
    using ok zbody_ok [OF s] zok_casc [OF ok(3), of ?r] R raw_pos [of "(?lg, b)"]
    by (auto simp: zok_append pl raw_def)
  moreover have rs: "11 + raws ?es' = ?N3" using lG by (simp add: raw_def)
  moreover have "?N3 < 2 ^ 32" using raws_casc(2) [of ?r es3] N2 cap2 by simp
  moreover have "tailoff ?es' = ?t3"
    using lG R by (auto simp: tailoff_split raw_def)
  moreover have "flat 0 ?es' @ [255] = ?A @ ?new @ ?Z"
    using R by (simp add: flat_append pl raw_def)
  moreover have "cnt_ok c' (length ?es')" using c'(2) by simp
  ultimately have "zrep (hdr ?N3 ?t3 c' @ ?A @ ?new @ ?Z) ?es'"
    by (intro zrepI) simp_all
  then show ?thesis using run zl by auto
qed

section \<open>Insertion at the end\<close>

text \<open>The last entry, found through the tail offset.\<close>

lemma tail_entry:
  assumes "zok 0 es" "11 + raws es < 2 ^ 32"
  shows "\<exists>bt. rdb (hdr n t c @ flat 0 es @ [255]) (tailoff es) = Some bt \<and> (bt = 255 \<longleftrightarrow> es = [])"
    "es \<noteq> [] \<Longrightarrow> zipRawEntryLength (hdr n t c @ flat 0 es @ [255]) (tailoff es) = Some (lastraw 0 es)"
proof -
  have A: "\<exists>bt. rdb (hdr n t c @ flat 0 es @ [255]) (tailoff es) = Some bt \<and> (bt = 255 \<longleftrightarrow> es = []) \<and>
     (es \<noteq> [] \<longrightarrow> zipRawEntryLength (hdr n t c @ flat 0 es @ [255]) (tailoff es) = Some (lastraw 0 es))"
  proof (cases es rule: rev_cases)
    case Nil
    then show ?thesis using rdb_at [of "hdr n t c" 10 255 "[]"] by (simp add: tailoff_def)
  next
    case (snoc fs e)
    let ?prev = "lastraw 0 fs"
    have e: "if fst e then True else ?prev < 254" "body_ok (snd e)" using assms(1) snoc by (auto simp: zok_append split: if_splits)
    have prev: "?prev < 2 ^ 32" "raw (fst e, snd e) < 2 ^ 32" using assms(2) snoc raws_butlast [of fs] by (auto simp: lastraw_def)
    have l: "length (hdr n t c @ flat 0 fs) = tailoff es" by (simp add: snoc tailoff_def)
    have z: "hdr n t c @ flat 0 es @ [255] = (hdr n t c @ flat 0 fs) @ pfield (fst e) ?prev @ snd e @ [255]"
      by (simp add: snoc flat_append)
    have "zipRawEntryLength (hdr n t c @ flat 0 es @ [255]) (tailoff es) = Some (lastraw 0 es)"
      unfolding z using entry_at(2) [OF e(2,1) prev(1) l prev(2)] snoc by simp
    moreover obtain b where "rdb (hdr n t c @ flat 0 es @ [255]) (tailoff es) = Some b" "b < 255"
      unfolding z using prevlen_at(3) [OF e(1) prev(1) l] by blast
    ultimately show ?thesis using snoc by auto
  qed
  then show "\<exists>bt. rdb (hdr n t c @ flat 0 es @ [255]) (tailoff es) = Some bt \<and> (bt = 255 \<longleftrightarrow> es = [])" by blast
  show "es \<noteq> [] \<Longrightarrow> zipRawEntryLength (hdr n t c @ flat 0 es @ [255]) (tailoff es) = Some (lastraw 0 es)" using A by blast
qed

lemma insert_end:
  assumes zok: "zok 0 es" and c: "cnt_ok c (length es)" and pl: "pl = lastraw 0 es" and R: "R = psz (254 \<le> pl) + length (zbody s)"
    and s: "length s < 2 ^ 32" and cap: "11 + raws es + R < 2 ^ 32"
  shows "\<exists>zl'. ziplistInsert_gen jk (hdr (11 + raws es) (tailoff es) c @ flat 0 es @ [255]) (10 + raws es) s = Some zl' \<and>
       zrep zl' (es @ [(254 \<le> pl, zbody s)])"
proof -
  let ?N = "11 + raws es" and ?t = "tailoff es" and ?p = "10 + raws es" and ?A = "flat 0 es"
  let ?zl = "hdr ?N ?t c @ ?A @ [255]"
  have small: "?N < 2 ^ 32" "pl < 2 ^ 32" "?t < 2 ^ 32" "?p < 2 ^ 32"
    using cap pl raws_butlast [of es] tailoff_less' [of es] by (auto simp: lastraw_def)
  have rdp: "rdb ?zl ?p = Some 255" using rdb_at [of "hdr ?N ?t c @ ?A" ?p 255 "[]"] by simp
  have fld: "ZIPLIST_BYTES ?zl = Some ?N" "ZIPLIST_TAIL_OFFSET ?zl = Some ?t" using small by (auto intro: hdr_fields)
  have prev: "(ZIPLIST_TAIL_OFFSET ?zl \<bind> (\<lambda>ptail. rdb ?zl ptail \<bind> (\<lambda>bt.
     if bt \<noteq> ZIP_END then zipRawEntryLength ?zl ptail else Some 0))) = Some pl"
    using tail_entry [OF zok small(1), of ?N ?t c] fld(2) pl by (auto simp: zip_consts lastraw_def)
  obtain v enc where enc: "enc_of s = (v, enc)" by (cases "enc_of s")
  have enc': "(case zipTryEncoding s of Some (v, e) \<Rightarrow> (v, e) | None \<Rightarrow> (123456789, 0)) = (v, enc)" using enc by (simp add: enc_of_def)
  have req: "(case zipTryEncoding s of Some (v, e) \<Rightarrow> zipIntSize e | None \<Rightarrow> length s) + zipPrevEncodeLength_size pl
      + zipEncodeLength_size enc (length s) = R"
    using length_zbody [of s] enc R psz_prev [of pl] by simp
  have Rpos: "0 < R" using R by (simp add: psz_def)
  obtain junk where j: "ziplistResize jk ?zl (?N + R) = Some (hdr (?N + R) ?t c @ ?A @ junk @ [255])" "length junk = R" "hd junk = 255"
    using resize_grow [of ?N ?A R jk ?t c] cap Rpos by auto
  have nsz: "nat (int ?N + int R + 0) = ?N + R" by linarith
  have rdp': "rdb (hdr (?N + R) ?t c @ ?A @ junk @ [255]) ?p = Some 255"
    using rdb_at [of "hdr (?N + R) ?t c @ ?A" ?p "hd junk" "tl junk @ [255]"] j(2,3) Rpos by (cases junk) simp_all
  have st: "set_TAIL_OFFSET (hdr (?N + R) ?t c @ ?A @ junk @ [255]) ?p = Some (hdr (?N + R) ?p c @ ?A @ junk @ [255])"
    using small(4) by (rule set_hdr_fields)
  let ?new = "pfield (254 \<le> pl) pl @ zbody s"
  obtain c' where c': "ZIPLIST_INCR_LENGTH (hdr (?N + R) ?p c @ ?A @ ?new @ [255]) 1 = Some (hdr (?N + R) ?p c' @ ?A @ ?new @ [255])"
    "cnt_ok c' (length es + 1)"
    using incr_one [OF c] by blast
  have lj: "length junk = psz (254 \<le> pl) + length (zbody s)" "length (hdr (?N + R) ?p c @ ?A) = ?p" using j(2) R by simp_all
  have wr: "zipPrevEncodeLength (hdr (?N + R) ?p c @ ?A @ junk @ [255]) ?p pl \<bind> (\<lambda>(zl, n1).
     zipEncodeLength zl (?p + n1) enc (length s) \<bind> (\<lambda>(zl, n2).
     (if ZIP_IS_STR enc then wr_block zl (?p + n1 + n2) s else zipSaveInteger zl (?p + n1 + n2) v enc) \<bind>
     (\<lambda>zl. ZIPLIST_INCR_LENGTH zl 1))) = Some (hdr (?N + R) ?p c' @ ?A @ ?new @ [255])"
    using write_entry [OF lj small(2) enc, of "[255]" "\<lambda>zl. ZIPLIST_INCR_LENGTH zl 1"] c'(1) by simp
  have ne: "(255 \<noteq> ZIP_END) = False" "((0::int) \<noteq> 0) = False" by (simp_all add: zip_consts)
  have run: "ziplistInsert_gen jk ?zl ?p s = Some (hdr (?N + R) ?p c' @ ?A @ ?new @ [255])"
    unfolding ziplistInsert_gen_def
    by (simp only: fld(1) rdp prev enc' req nsz j(1) rdp' st wr ne Option.bind.simps Let_def prod.case if_False)
  have "zrep (hdr (?N + R) ?p c' @ ?A @ ?new @ [255]) (es @ [(254 \<le> pl, zbody s)])"
  proof (rule zrepI)
    show "zok 0 (es @ [(254 \<le> pl, zbody s)])" using zok zbody_ok [OF s] by (simp add: zok_append pl)
    show "cnt_ok c' (length (es @ [(254 \<le> pl, zbody s)]))" using c'(2) by simp
    show "tailoff (es @ [(254 \<le> pl, zbody s)]) = ?p" by (simp add: tailoff_def)
  qed (use cap R in \<open>simp_all add: flat_append pl raw_def\<close>)
  then show ?thesis using run by blast
qed

section \<open>Deletion\<close>

lemma zdel_skip_ok:
  assumes "zok prev rest" "prev < 2 ^ 32" "raws rest < 2 ^ 32" "length X = p"
  shows "zdel_skip (X @ flat prev rest @ [255]) p num d = Some (p + raws (take num rest), d + length (take num rest))"
  using assms
proof (induction num arbitrary: prev rest X p d)
  case 0
  then show ?case by simp
next
  case (Suc num)
  obtain b where b: "rdb (X @ flat prev rest @ [255]) p = Some b" "b = 255 \<longleftrightarrow> rest = []"
    using first_byte [OF Suc.prems(1,2,4)] by blast
  show ?case
  proof (cases rest)
    case Nil
    then show ?thesis using b by (simp add: zip_consts)
  next
    case (Cons e es)
    have e: "body_ok (snd e)" "if fst e then True else prev < 254" "raw (fst e, snd e) < 2 ^ 32" "zok (raw e) es"
      using Suc.prems(1,3) Cons by (auto split: if_splits)
    have r: "zipRawEntryLength (X @ flat prev rest @ [255]) p = Some (raw e)"
      using entry_at(2) [OF e(1,2) Suc.prems(2,4) e(3)] Cons by simp
    have "length (X @ pfield (fst e) prev @ snd e) = p + raw e" using Suc.prems(4) by (simp add: raw_def)
    from Suc.IH [OF e(4) _ _ this, of "d + 1"] e(3) Suc.prems(3) Cons
    have "zdel_skip (X @ flat prev rest @ [255]) (p + raw e) num (d + 1) =
        Some (p + raw e + raws (take num es), d + 1 + length (take num es))" by simp
    then show ?thesis using b r Cons by (simp add: zip_consts)
  qed
qed

lemma memmove_down:
  assumes "length X = p" "length D = k"
  shows "\<exists>ys. length ys = k \<and> memmove_at (X @ D @ Y @ Z) p (p + k) (length Y) = Some (X @ Y @ ys @ Z)"
proof -
  have r: "rd_block (X @ D @ Y @ Z) (p + k) (length Y) = Some Y" using rd_block_at [of Y "length Y" "X @ D" "p + k" Z] assms by simp
  have z: "X @ D @ Y @ Z = X @ take (length Y) (D @ Y) @ drop (length Y) (D @ Y) @ Z" by (metis append.assoc append_take_drop_id)
  have "wr_block (X @ D @ Y @ Z) p Y = Some (X @ Y @ drop (length Y) (D @ Y) @ Z)"
    unfolding z by (rule wr_block_at) (use assms in simp_all)
  then show ?thesis using r assms by (intro exI [of _ "drop (length Y) (D @ Y)"]) (simp add: memmove_at_def del: drop_append)
qed

lemma incr_minus:
  "cnt_ok c n \<Longrightarrow> k \<le> n \<Longrightarrow> \<exists>c'. ZIPLIST_INCR_LENGTH (hdr m t c @ xs) (- int k) = Some (hdr m t c' @ xs) \<and> cnt_ok c' (n - k)"
  using incr_length_ok [of c n "- int k" k "n - k"] by simp

text \<open>The entries before the deleted range are kept, the entry behind it gets the length of the last of them.\<close>

lemma delete_end:
  assumes zok: "zok 0 (es1 @ ds)" and c: "cnt_ok c (length (es1 @ ds))" and ds: "ds \<noteq> []" "length ds \<le> num"
    and cap: "11 + raws (es1 @ ds) < 2 ^ 32"
  shows "\<exists>zl'. ziplistDelete_gen jk (hdr (11 + raws (es1 @ ds)) (tailoff (es1 @ ds)) c @ flat 0 (es1 @ ds) @ [255]) (10 + raws es1) num = Some zl' \<and>
     zrep zl' es1"
proof -
  let ?es = "es1 @ ds" and ?A = "flat 0 es1" and ?p = "10 + raws es1" and ?pl = "lastraw 0 es1"
  let ?N = "11 + raws ?es" and ?t = "tailoff ?es" and ?D = "flat ?pl ds"
  let ?zl = "hdr ?N ?t c @ ?A @ ?D @ [255]"
  have zl: "hdr ?N ?t c @ flat 0 ?es @ [255] = ?zl" by (simp add: flat_append)
  obtain e ds' where e: "ds = e # ds'" using ds(1) by (cases ds) auto
  have ok: "zok 0 es1" "zok ?pl ds" "body_ok (snd e)" "if fst e then True else ?pl < 254" using zok e by (auto simp: zok_append split: if_splits)
  have small: "?pl < 2 ^ 32" "?N < 2 ^ 32" "?p < 2 ^ 32" "raws ds < 2 ^ 32" using cap raws_butlast [of es1] by (auto simp: lastraw_def)
  have lp: "length (hdr ?N ?t c @ ?A) = ?p" by simp
  obtain fe where fe: "zipEntry ?zl ?p = Some fe" "prevrawlen fe = ?pl" "zptr fe = ?p"
    using entry_at(1) [OF ok(3,4) small(1) lp, of "flat (raw e) ds' @ [255]"] e by auto
  have sk: "zdel_skip ?zl ?p num 0 = Some (?p + raws ds, length ds)"
    using zdel_skip_ok [OF ok(2) small(1,4) lp, of num 0] ds(2) by simp
  have rq: "rdb ?zl (?p + raws ds) = Some 255" using rdb_at [of "hdr ?N ?t c @ ?A @ ?D" "?p + raws ds" 255 "[]"] by simp
  have pos: "0 < raws ds" using raw_pos [of e] e by simp
  have tot: "u32 (?p + raws ds - ?p) = raws ds" using small(4) by (simp add: u32_id)
  have ple: "?pl \<le> raws es1" using raws_butlast [of es1] by (auto simp: lastraw_def)
  have sb: "sub32 ?p ?pl = tailoff es1" using ple small(3) raws_butlast [of es1] by (auto simp: sub32_le tailoff_def lastraw_def)
  have t1: "tailoff es1 < 2 ^ 32" using tailoff_less' [of es1] cap by simp
  have st: "set_TAIL_OFFSET ?zl (tailoff es1) = Some (hdr ?N (tailoff es1) c @ ?A @ ?D @ [255])" using t1 by (rule set_hdr_fields)
  have bts: "ZIPLIST_BYTES (hdr ?N (tailoff es1) c @ ?A @ ?D @ [255]) = Some ?N" using small(2) by (rule hdr_fields)
  have m: "uns_of 32 (int ?N - int (raws ds) + 0) = 11 + raws es1" using small(2) by (simp add: uns_of_def nat_add_distrib)
  have rz: "ziplistResize jk (hdr ?N (tailoff es1) c @ ?A @ ?D @ [255]) (11 + raws es1) = Some (hdr (11 + raws es1) (tailoff es1) c @ ?A @ [255])"
    by (rule resize_shrink) (use small(2) in simp_all)
  obtain c' where c': "ZIPLIST_INCR_LENGTH (hdr (11 + raws es1) (tailoff es1) c @ ?A @ [255]) (- int (length ds)) =
     Some (hdr (11 + raws es1) (tailoff es1) c' @ ?A @ [255])" "cnt_ok c' (length es1)"
    using incr_minus [OF c, of "length ds"] by fastforce
  have ne: "(255 \<noteq> ZIP_END) = False" "((0::int) \<noteq> 0) = False" "(0 < raws ds) = True" using pos by (simp_all add: zip_consts)
  have "ziplistDelete_gen jk ?zl ?p num = Some (hdr (11 + raws es1) (tailoff es1) c' @ ?A @ [255])"
    unfolding ziplistDelete_gen_def
    by (simp only: fe sk rq tot sb st bts m rz c'(1) ne Option.bind.simps Let_def prod.case if_False if_True)
  moreover have "zrep (hdr (11 + raws es1) (tailoff es1) c' @ ?A @ [255]) es1"
    by (intro zrepI) (use ok(1) c'(2) cap in simp_all)
  ultimately show ?thesis using zl by auto
qed

lemma delete_middle:
  assumes zok: "zok 0 (es1 @ ds @ (lg, b) # es3)" and c: "cnt_ok c (length (es1 @ ds @ (lg, b) # es3))"
    and ds: "ds \<noteq> []" "length ds = num" and pl: "pl = lastraw 0 es1"
    and cap: "11 + raws (es1 @ ds @ (lg, b) # es3) + 4 * length es3 + 4 < 2 ^ 32"
  shows "\<exists>zl'. ziplistDelete_gen jk (hdr (11 + raws (es1 @ ds @ (lg, b) # es3)) (tailoff (es1 @ ds @ (lg, b) # es3)) c
         @ flat 0 (es1 @ ds @ (lg, b) # es3) @ [255]) (10 + raws es1) num = Some zl' \<and>
     zrep zl' (es1 @ fixnext pl ((lg, b) # es3))"
proof -
  let ?es = "es1 @ ds @ (lg, b) # es3" and ?A = "flat 0 es1" and ?p = "10 + raws es1" and ?F = "flat (raw (lg, b)) es3"
  let ?N = "11 + raws ?es" and ?t = "tailoff ?es" and ?r = "lastraw pl ds" and ?lg = "254 \<le> pl"
  let ?D = "flat pl ds"
  let ?zl = "hdr ?N ?t c @ ?A @ ?D @ pfield lg ?r @ b @ ?F @ [255]"
  have zl: "hdr ?N ?t c @ flat 0 ?es @ [255] = ?zl" by (simp add: flat_append pl)
  obtain e ds' where e: "ds = e # ds'" using ds(1) by (cases ds) auto
  have ok: "zok 0 es1" "zok pl (ds @ (lg, b) # es3)" "body_ok (snd e)" "if fst e then 0 < pl else pl < 254" "body_ok b"
    "zok (raw (lg, b)) es3" "if lg then True else ?r < 254"
    using zok e by (auto simp: zok_append pl split: if_splits)
  have lgok: "if fst e then True else pl < 254" using ok(4) by (simp split: if_splits)
  have small: "pl < 2 ^ 32" "?N < 2 ^ 32" "?p < 2 ^ 32" "raws (ds @ (lg, b) # es3) < 2 ^ 32" "?r < 2 ^ 32" "raw (lg, b) < 2 ^ 32" "?t < 2 ^ 32"
    using cap raws_butlast [of es1] raws_butlast [of ds] tailoff_less' [of ?es] by (auto simp: lastraw_def pl)
  have lp: "length (hdr ?N ?t c @ ?A) = ?p" by simp
  obtain fe where fe: "zipEntry ?zl ?p = Some fe" "prevrawlen fe = pl" "zptr fe = ?p"
    using entry_at(1) [OF ok(3) lgok small(1) lp, of "flat (raw e) ds' @ pfield lg ?r @ b @ ?F @ [255]"] e by auto
  have sk: "zdel_skip ?zl ?p num 0 = Some (?p + raws ds, length ds)"
    using zdel_skip_ok [OF ok(2) small(1,4) lp, of num 0] ds(2) by (simp add: flat_append)
  let ?q = "?p + raws ds"
  have lq: "length (hdr ?N ?t c @ ?A @ ?D) = ?q" by simp
  obtain b0 where b0: "rdb ?zl ?q = Some b0" "b0 < 255" using prevlen_at(3) [OF ok(7) small(5) lq, of "b @ ?F @ [255]"] by auto
  let ?nd = "int (psz ?lg) - int (psz lg)"
  have diff: "zipPrevLenByteDiff ?zl ?q pl = Some ?nd"
    using prevlen_at(2) [OF ok(7) small(5) lq, of "b @ ?F @ [255]"] psz_prev [of pl] by (simp add: zipPrevLenByteDiff_def)
  have dge: "?lg \<Longrightarrow> 5 \<le> raws ds" using ok(4) e by (auto simp: raw_def split: if_splits)
  have "raws ds + psz lg \<ge> psz ?lg" using dge by (cases ?lg; cases lg) (auto simp: e raw_def psz_def)
  then obtain k where k: "raws ds + psz lg = k + psz ?lg" by (metis add.commute le_Suc_ex)
  define D' where "D' = take k (?D @ pfield lg ?r)"
  define Q where "Q = drop k (?D @ pfield lg ?r)"
  have DQ: "?D @ pfield lg ?r = D' @ Q" by (simp only: D'_def Q_def append_take_drop_id)
  have lD: "length D' = k" "length Q = zipPrevEncodeLength_size pl"
    using k psz_prev [of pl] by (simp_all add: D'_def Q_def)
  have pq: "ptr_add ?q (- ?nd) = Some (?p + k)" using k by (auto simp: ptr_add_def)
  have zl1: "?zl = (hdr ?N ?t c @ ?A @ D') @ Q @ (b @ ?F @ [255])" using DQ by (metis append.assoc)
  have "zipPrevEncodeLength ?zl (?p + k) pl = Some ((hdr ?N ?t c @ ?A @ D') @ pfield ?lg pl @ (b @ ?F @ [255]), zipPrevEncodeLength_size pl)"
    unfolding zl1 using lD small(1) by (intro put_prevlen) simp_all
  then have pp: "zipPrevEncodeLength ?zl (?p + k) pl = Some (hdr ?N ?t c @ (?A @ D') @ (pfield ?lg pl @ b @ ?F) @ [255], zipPrevEncodeLength_size pl)"
    by simp
  have tot: "u32 (?q - ?p) = raws ds" using small(4) by (simp add: u32_id)
  let ?Y = "pfield ?lg pl @ b @ ?F"
  let ?t2 = "if es3 = [] then sub32 ?t (raws ds) else nat (int (sub32 ?t (raws ds)) + ?nd)"
  have tge: "raws ds + 10 \<le> ?t" by (simp add: tailoff_split [of "es1 @ ds", simplified])
  have sb: "sub32 ?t (raws ds) = ?t - raws ds" using tge small(7) by (intro sub32_le) simp_all
  have tb: "sub32 ?t (raws ds) < 2 ^ 32" "0 \<le> int (sub32 ?t (raws ds)) + ?nd" "int (sub32 ?t (raws ds)) + ?nd < 2 ^ 32"
    using sb tge small(7) cap tailoff_less' [of ?es] by (auto simp: psz_def split: if_splits)
  obtain ys where ys: "length ys = k" "memmove_at ((hdr ?N ?t2 c @ ?A) @ D' @ ?Y @ [255]) ?p (?p + k) (length ?Y) = Some ((hdr ?N ?t2 c @ ?A) @ ?Y @ ys @ [255])"
    using memmove_down [OF _ lD(1), of "hdr ?N ?t2 c @ ?A" ?p ?Y "[255]"] by auto
  have mlen: "?N - (?p + k) - 1 = length ?Y" using k by (simp add: raw_def)
  have pk: "?p + k = 10 + length (?A @ D')" using lD(1) by simp
  let ?K = "\<lambda>zl. ZIPLIST_BYTES zl \<bind> (\<lambda>n. memmove_at zl ?p (?p + k) (n - (?p + k) - 1) \<bind> (\<lambda>zl. Some (zl, ?nd)))"
  let ?z0 = "hdr ?N ?t c @ (?A @ D') @ ?Y @ [255]"
  let ?z2 = "(hdr ?N ?t2 c @ ?A) @ ?Y @ ys @ [255]"
  have bts: "ZIPLIST_BYTES (hdr ?N ?t2 c @ xs) = Some ?N" for xs using small(2) by (rule hdr_fields)
  have blk: "ZIPLIST_TAIL_OFFSET ?z0 \<bind> (\<lambda>t. set_TAIL_OFFSET ?z0 (sub32 t (raws ds)) \<bind> (\<lambda>zl. zipEntry zl (?p + k) \<bind> (\<lambda>tail.
       rdb zl (?p + k + headersize tail + zlen tail) \<bind> (\<lambda>b'.
       (if b' \<noteq> ZIP_END then ZIPLIST_TAIL_OFFSET zl \<bind> (\<lambda>t. set_TAIL_OFFSET zl (uns_of 32 (int t + ?nd))) else Some zl)
       \<bind> ?K)))) = Some (?z2, ?nd)"
    using tail_fix [where g = "\<lambda>t. sub32 t (raws ds)" and N = ?N and c = c and K = ?K, OF ok(5) refl small(1) pk small(7) tb ok(6) small(6)]
      bts ys(2) mlen by (simp add: Let_def)
  have bts2: "ZIPLIST_BYTES ?z2 = Some ?N" using bts [of "?A @ ?Y @ ys @ [255]"] by simp
  let ?M = "11 + raws es1 + raw (?lg, b) + raws es3"
  have MN: "?N + psz ?lg = ?M + raws ds + psz lg" by (simp add: raw_def)
  have Ms: "?M < 2 ^ 32" using MN cap by (simp add: psz_def split: if_splits)
  have "int ?N - int (raws ds) + ?nd = int ?M" using MN by linarith
  moreover have "uns_of 32 (int ?M) = ?M" using Ms unfolding uns_of_def by simp
  ultimately have m: "uns_of 32 (int ?N - int (raws ds) + ?nd) = ?M" by (simp only:)
  have rz: "ziplistResize jk ?z2 ?M = Some (hdr ?M ?t2 c @ (?A @ ?Y) @ [255])"
  proof -
    have "ziplistResize jk (hdr ?N ?t2 c @ (?A @ ?Y) @ ys @ [255]) ?M = Some (hdr ?M ?t2 c @ (?A @ ?Y) @ [255])"
      by (rule resize_shrink) (use k ys(1) small(2) in \<open>simp_all add: raw_def\<close>)
    then show ?thesis by simp
  qed
  obtain c' where c': "ZIPLIST_INCR_LENGTH (hdr ?M ?t2 c @ (?A @ ?Y) @ [255]) (- int (length ds)) =
     Some (hdr ?M ?t2 c' @ (?A @ ?Y) @ [255])" "cnt_ok c' (length es1 + Suc (length es3))"
    using incr_minus [OF c, of "length ds"] by fastforce
  have t2: "es3 \<noteq> [] \<Longrightarrow> ?t2 = 10 + length ?A + raw (?lg, b) + raws (butlast es3)"
    unfolding sb by (simp add: tailoff_split [of "es1 @ ds", simplified] raw_def psz_def)
  let ?r' = "raw (?lg, b)"
  let ?N3 = "11 + length ?A + ?r' + raws (casc ?r' es3)"
  let ?t3 = "if es3 = [] then ?t2 else 10 + length ?A + ?r' + raws (butlast (casc ?r' es3))"
  have cas: "(if ?nd \<noteq> 0 then ziplistCascadeUpdate jk (hdr ?M ?t2 c' @ ?A @ (pfield ?lg pl @ b) @ ?F @ [255]) (10 + length ?A)
       else Some (hdr ?M ?t2 c' @ ?A @ (pfield ?lg pl @ b) @ ?F @ [255])) =
     Some (hdr ?N3 ?t3 c' @ ?A @ (pfield ?lg pl @ b) @ flat ?r' (casc ?r' es3) @ [255])"
  proof (rule cascade_update [OF ok(6,5) small(1,6) refl _ _ t2])
    show "?M + 4 * length es3 < 2 ^ 32" using MN cap by (simp add: psz_def split: if_splits)
  qed (simp_all add: raw_def)
  have reassoc: "hdr ?M ?t2 c' @ ?A @ (pfield ?lg pl @ b) @ ?F @ [255] = hdr ?M ?t2 c' @ (?A @ ?Y) @ [255]" by simp
  note cas' = cas [unfolded reassoc length_flat]
  have ne: "b0 \<noteq> ZIP_END" "(0 < raws ds) = True" using b0(2) raw_pos [of e] e by (simp_all add: zip_consts)
  have run: "ziplistDelete_gen jk ?zl ?p num = Some (hdr ?N3 ?t3 c' @ ?A @ (pfield ?lg pl @ b) @ flat ?r' (casc ?r' es3) @ [255])"
    unfolding ziplistDelete_gen_def length_flat
    by (simp only: fe sk b0(1) diff pq pp tot blk bts2 m rz c'(1) ne Option.bind.simps Let_def prod.case if_True not_False_eq_True simp_thms
        cas')
  have "zrep (hdr ?N3 ?t3 c' @ ?A @ (pfield ?lg pl @ b) @ flat ?r' (casc ?r' es3) @ [255]) (es1 @ fixnext pl ((lg, b) # es3))"
  proof (rule zrepI)
    show "zok 0 (es1 @ fixnext pl ((lg, b) # es3))" using ok(1) zok_fixnext [of ?r "(lg, b) # es3" pl] ok(2) by (simp add: zok_append pl)
    show "?N3 < 2 ^ 32" using raws_casc(2) [of ?r' es3] MN cap by (simp add: psz_def split: if_splits)
    show "cnt_ok c' (length (es1 @ fixnext pl ((lg, b) # es3)))" using c'(2) by simp
    show "tailoff (es1 @ fixnext pl ((lg, b) # es3)) = ?t3"
      unfolding sb by (auto simp: tailoff_split raw_def tailoff_split [of "es1 @ ds", simplified])
  qed (simp_all add: flat_append pl raw_def)
  then show ?thesis using run zl by auto
qed

end
