(* ===== verification/ZiplistSpec.thy ===== *)
theory ZiplistSpec
  imports ZiplistOps
begin

text \<open>
  The contract of the ziplist: \<open>zlist zl ss\<close> says that a block holds the strings \<open>ss\<close>.
  Every operation is a list operation under this abstraction, a sequence of operations
  gives the replies of a list, and the values read back are the strings that were stored,
  as integers when they are decimal integers.
\<close>

section \<open>Reading at an index\<close>

definition zpos :: "zent list \<Rightarrow> nat \<Rightarrow> nat" where
  "zpos es i = 10 + raws (take i es)"

lemma zpos_0 [simp]: "zpos es 0 = 10"
  by (simp add: zpos_def)

lemma zpos_Suc: "i < length es \<Longrightarrow> zpos es (Suc i) = zpos es i + raw (es ! i)"
  by (simp add: zpos_def take_Suc_conv_app_nth)

lemma zpos_end: "zpos es (length es) = 10 + raws es"
  by (simp add: zpos_def)

lemma zrep_parts:
  assumes "zrep zl es"
  obtains c where "cnt_ok c (length es)" "zl = hdr (11 + raws es) (tailoff es) c @ flat 0 es @ [255]" "zok 0 es" "11 + raws es < 2 ^ 32"
  using assms by (auto simp: zrep_def)

text \<open>The block split at an entry.\<close>

lemma zrep_split:
  assumes "zrep zl es" "i \<le> length es"
  obtains X where "length X = zpos es i" "zl = X @ flat (lastraw 0 (take i es)) (drop i es) @ [255]"
    "zok (lastraw 0 (take i es)) (drop i es)" "lastraw 0 (take i es) < 2 ^ 32" "raws (drop i es) < 2 ^ 32"
proof -
  obtain c where c: "zl = hdr (11 + raws es) (tailoff es) c @ flat 0 es @ [255]" "zok 0 es" "11 + raws es < 2 ^ 32"
    using zrep_parts [OF assms(1)] by blast
  have es: "es = take i es @ drop i es" by simp
  have r: "raws es = raws (take i es) + raws (drop i es)" using es raws_simps(3) by metis
  have "flat 0 es = flat 0 (take i es) @ flat (lastraw 0 (take i es)) (drop i es)" using es flat_append by metis
  moreover have "zok (lastraw 0 (take i es)) (drop i es)" using c(2) es zok_append by metis
  moreover have "lastraw 0 (take i es) \<le> raws (take i es)" using raws_butlast [of "take i es"] by (auto simp: lastraw_def)
  ultimately show ?thesis using that [of "hdr (11 + raws es) (tailoff es) c @ flat 0 (take i es)"] c r by (simp add: zpos_def)
qed

lemma zrep_entry:
  assumes "zrep zl es" "i < length es"
  obtains X prev where "length X = zpos es i" "zl = X @ pfield (fst (es ! i)) prev @ snd (es ! i) @ flat (raw (es ! i)) (drop (Suc i) es) @ [255]"
    "body_ok (snd (es ! i))" "if fst (es ! i) then 0 < prev else prev < 254" "prev = lastraw 0 (take i es)" "prev < 2 ^ 32" "raw (es ! i) < 2 ^ 32"
proof -
  obtain X where X: "length X = zpos es i" "zl = X @ flat (lastraw 0 (take i es)) (drop i es) @ [255]"
    "zok (lastraw 0 (take i es)) (drop i es)" "lastraw 0 (take i es) < 2 ^ 32" "raws (drop i es) < 2 ^ 32"
    using zrep_split [OF assms(1)] assms(2) by (metis less_imp_le)
  moreover have "drop i es = es ! i # drop (Suc i) es" using assms(2) by (simp add: Cons_nth_drop_Suc)
  ultimately show ?thesis using that [of X "lastraw 0 (take i es)"] by (simp split: if_splits)
qed

lemma raw_at:
  assumes "zrep zl es" "i < length es"
  shows "zipRawEntryLength zl (zpos es i) = Some (raw (es ! i))" "\<exists>b. rdb zl (zpos es i) = Some b \<and> b \<noteq> ZIP_END"
    "ZIP_DECODE_PREVLEN zl (zpos es i) = Some (psz (fst (es ! i)), lastraw 0 (take i es))"
proof -
  obtain X prev where X: "length X = zpos es i" "zl = X @ pfield (fst (es ! i)) prev @ snd (es ! i) @ flat (raw (es ! i)) (drop (Suc i) es) @ [255]"
    "body_ok (snd (es ! i))" "if fst (es ! i) then 0 < prev else prev < 254" "prev = lastraw 0 (take i es)" "prev < 2 ^ 32" "raw (es ! i) < 2 ^ 32"
    using zrep_entry [OF assms] by metis
  have w: "if fst (es ! i) then True else prev < 254" using X(4) by (simp split: if_splits)
  show "zipRawEntryLength zl (zpos es i) = Some (raw (es ! i))" using entry_at(2) [OF X(3) w X(6,1)] X(2,7) by simp
  show "\<exists>b. rdb zl (zpos es i) = Some b \<and> b \<noteq> ZIP_END" using prevlen_at(3) [OF w X(6,1)] X(2) by (metis nat_neq_iff zip_consts(1))
  show "ZIP_DECODE_PREVLEN zl (zpos es i) = Some (psz (fst (es ! i)), lastraw 0 (take i es))"
    using prevlen_at(1) [OF w X(6,1)] X(2,5) by simp
qed

lemma end_at: "zrep zl es \<Longrightarrow> rdb zl (zpos es (length es)) = Some ZIP_END"
proof -
  assume "zrep zl es"
  then obtain X where "length X = zpos es (length es)" "zl = X @ [255]" using zrep_split [of zl es "length es"] by auto
  then show ?thesis using rdb_at [of X "zpos es (length es)" 255 "[]"] by (simp add: zip_consts)
qed

section \<open>Index, next and previous\<close>

lemma zindex_fwd_ok:
  assumes "zrep zl es" "j + k = i" "j \<le> length es"
  shows "\<exists>ix. zindex_fwd zl (zpos es j) k = Some (zpos es (min i (length es)), ix) \<and> (ix > 0 \<longleftrightarrow> length es < i)"
  using assms(2,3)
proof (induction k arbitrary: j)
  case 0
  then show ?case using raw_at(2) [OF assms(1), of j] end_at [OF assms(1)] by (cases "j < length es") (auto simp: min_def)
next
  case (Suc k)
  show ?case
  proof (cases "j < length es")
    case True
    then have "\<exists>ix. zindex_fwd zl (zpos es (Suc j)) k = Some (zpos es (min i (length es)), ix) \<and> (ix > 0 \<longleftrightarrow> length es < i)"
      using Suc by simp
    then show ?thesis using True raw_at [OF assms(1) True] by (auto simp: zpos_Suc)
  next
    case False
    then have "j = length es" using Suc.prems by simp
    then show ?thesis using end_at [OF assms(1)] Suc.prems by auto
  qed
qed

lemma zpos_back: "0 < i \<Longrightarrow> i \<le> length es \<Longrightarrow> lastraw 0 (take i es) = raw (es ! (i - 1)) \<and> zpos es i = zpos es (i - 1) + raw (es ! (i - 1))"
  by (cases i) (auto simp: zpos_def take_Suc_conv_app_nth lastraw_def)

lemma zindex_back_ok:
  assumes "zrep zl es" "j < length es" "k + i = j \<or> (j < k \<and> i = 0)"
  shows "\<exists>ix. zindex_back zl (zpos es j) (lastraw 0 (take j es)) k = Some (zpos es i, ix) \<and> (ix > 0 \<longleftrightarrow> j < k)"
  using assms(2,3)
proof (induction k arbitrary: j)
  case 0
  then show ?case by auto
next
  case (Suc k)
  show ?case
  proof (cases j)
    case 0
    then show ?thesis using Suc.prems by auto
  next
    case (Suc j')
    then have b: "lastraw 0 (take j es) = raw (es ! j')" "zpos es j = zpos es j' + raw (es ! j')" "j' < length es"
      using zpos_back [of j es] Suc.prems(1) by auto
    have "\<exists>ix. zindex_back zl (zpos es j') (lastraw 0 (take j' es)) k = Some (zpos es i, ix) \<and> (ix > 0 \<longleftrightarrow> j' < k)"
      using Suc.IH [OF b(3)] Suc.prems(2) Suc by auto
    then show ?thesis using b raw_pos [of "es ! j'"] raw_at(3) [OF assms(1) b(3)] Suc by (auto simp: ptr_add_def)
  qed
qed

text \<open>The entry an index denotes: counted from the end when it is negative.\<close>

definition idx_of :: "nat \<Rightarrow> int \<Rightarrow> nat option" where
  "idx_of n i =
     (if 0 \<le> i then if i < int n then Some (nat i) else None
      else if - i \<le> int n then Some (nat (int n + i)) else None)"

lemma idx_of_less: "idx_of n i = Some j \<Longrightarrow> j < n"
  by (auto simp: idx_of_def split: if_splits)

lemma tail_pos: "es \<noteq> [] \<Longrightarrow> tailoff es = zpos es (length es - 1)"
  by (simp add: tailoff_def zpos_def butlast_conv_take)

lemma index_ok:
  assumes "zrep zl es" "- (2 ^ 31) < i"
  shows "ziplistIndex zl i = Some (map_option (zpos es) (idx_of (length es) i))"
proof (cases "0 \<le> i")
  case True
  obtain ix where ix: "zindex_fwd zl (zpos es 0) (nat i) = Some (zpos es (min (nat i) (length es)), ix)" "ix > 0 \<longleftrightarrow> length es < nat i"
    using zindex_fwd_ok [OF assms(1), of 0 "nat i" "nat i"] by auto
  show ?thesis
  proof (cases "nat i < length es")
    case True
    then have "min (nat i) (length es) = nat i" by simp
    then show ?thesis using True \<open>0 \<le> i\<close> ix raw_at(2) [OF assms(1) True] by (auto simp: ziplistIndex_def idx_of_def zip_consts zless_nat_eq_int_zless)
  next
    case False
    then have "min (nat i) (length es) = length es" by simp
    then show ?thesis using False \<open>0 \<le> i\<close> ix end_at [OF assms(1)] by (auto simp: ziplistIndex_def idx_of_def zip_consts)
  qed
next
  case False
  let ?k = "nat (- i - 1)"
  obtain c where c: "zl = hdr (11 + raws es) (tailoff es) c @ flat 0 es @ [255]" "11 + raws es < 2 ^ 32"
    using zrep_parts [OF assms(1)] by blast
  have t: "ZIPLIST_TAIL_OFFSET zl = Some (tailoff es)" unfolding c(1) using tailoff_less' [of es] c(2) by (intro hdr_fields) simp
  show ?thesis
  proof (cases "es = []")
    case True
    then have "rdb zl (tailoff es) = Some ZIP_END" using end_at [OF assms(1)] by (simp add: tailoff_def)
    then show ?thesis using False True t assms(2) by (simp add: ziplistIndex_def idx_of_def)
  next
    case ne: False
    let ?j = "length es - 1"
    have j: "?j < length es" using ne by simp
    let ?i = "?j - ?k"
    obtain ix where ix: "zindex_back zl (zpos es ?j) (lastraw 0 (take ?j es)) ?k = Some (zpos es ?i, ix)" "ix > 0 \<longleftrightarrow> ?j < ?k"
      using zindex_back_ok [OF assms(1) j, of ?k ?i] by (metis diff_is_0_eq le_add_diff_inverse less_imp_le not_le)
    have i: "?i < length es" using j by simp
    have "idx_of (length es) i = (if ?j < ?k then None else Some ?i)" using False ne by (cases es) (auto simp: idx_of_def zless_nat_eq_int_zless)
    then show ?thesis using False assms(2) t tail_pos [OF ne] raw_at(2,3) [OF assms(1) j] raw_at(2) [OF assms(1) i] ix
      by (auto simp: ziplistIndex_def Let_def)
  qed
qed

lemma next_ok:
  assumes "zrep zl es" "i < length es"
  shows "ziplistNext zl (zpos es i) = Some (if Suc i < length es then Some (zpos es (Suc i)) else None)"
proof -
  have p: "zpos es i + raw (es ! i) = zpos es (Suc i)" using assms(2) by (simp add: zpos_Suc)
  show ?thesis
  proof (cases "Suc i < length es")
    case True
    then show ?thesis using raw_at [OF assms] raw_at(2) [OF assms(1) True] p by (auto simp: ziplistNext_def)
  next
    case False
    then have "Suc i = length es" using assms(2) by simp
    then show ?thesis using raw_at [OF assms] end_at [OF assms(1)] p by (auto simp: ziplistNext_def)
  qed
qed

lemma prev_ok:
  assumes "zrep zl es" "i \<le> length es"
  shows "ziplistPrev zl (zpos es i) = Some (if 0 < i then Some (zpos es (i - 1)) else None)"
proof (cases "i < length es")
  case True
  have h: "zpos es i = 10 \<longleftrightarrow> i = 0" using zpos_back [of i es] True raw_pos [of "es ! (i - 1)"] by (cases i) (auto simp: zpos_def)
  show ?thesis using raw_at(2,3) [OF assms(1) True] zpos_back [of i es] True h raw_pos [of "es ! (i - 1)"]
    by (auto simp: ziplistPrev_def ptr_add_def zip_consts)
next
  case False
  then have i: "i = length es" using assms(2) by simp
  obtain c where c: "zl = hdr (11 + raws es) (tailoff es) c @ flat 0 es @ [255]" "11 + raws es < 2 ^ 32"
    using zrep_parts [OF assms(1)] by blast
  have t: "ZIPLIST_TAIL_OFFSET zl = Some (tailoff es)" unfolding c(1) using tailoff_less' [of es] c(2) by (intro hdr_fields) simp
  show ?thesis
  proof (cases "es = []")
    case True
    then show ?thesis using t i end_at [OF assms(1)] by (simp add: ziplistPrev_def tailoff_def)
  next
    case ne: False
    then have "length es - 1 < length es" by simp
    from raw_at(2) [OF assms(1) this] show ?thesis using t i ne end_at [OF assms(1)] tail_pos [OF ne] by (auto simp: ziplistPrev_def)
  qed
qed

section \<open>Reading values\<close>

text \<open>Decoding the body of a stored string: encoding, sizes and content.\<close>

lemma zbody_decode:
  assumes "length s < 2 ^ 32" "length X = p"
  shows "\<exists>enc ls len. ZIP_DECODE_LENGTH (X @ zbody s @ Z) p = Some (enc, ls, len) \<and> length (zbody s) = ls + len \<and>
     (case zipTryEncoding s of
        None \<Rightarrow> ZIP_IS_STR enc \<and> len = length s \<and> rd_block (X @ zbody s @ Z) (p + ls) len = Some s
      | Some (v, _) \<Rightarrow> \<not> ZIP_IS_STR enc \<and> zipLoadInteger (X @ zbody s @ Z) (p + ls) enc = Some v)"
proof (cases "zipTryEncoding s")
  case None
  let ?L = "zip_len_bytes 0 (length s)"
  obtain enc where e: "ZIP_DECODE_LENGTH (?L @ s) 0 = Some (enc, zipEncodeLength_size 0 (length s), length s)" "ZIP_IS_STR enc"
    using decode_str_body [OF assms(1)] by blast
  have b: "zbody s = ?L @ s" using None by (simp add: zbody_def)
  have "rd_block ((X @ ?L) @ s @ Z) (p + zipEncodeLength_size 0 (length s)) (length s) = Some s"
    using assms(2) by (intro rd_block_at) simp_all
  then show ?thesis using None b e decode_length_shift [OF e(1) assms(2), of Z] by simp
next
  case (Some ve)
  obtain v enc where ve: "zipTryEncoding s = Some (v, enc)" using Some by (cases ve) simp
  then have f: "enc_fits enc v" and ie: "int_enc enc" using zipTryEncoding_Some(1) enc_fits_int by blast+
  have b: "zbody s = of_nat enc # int_bytes enc v" using ve by (simp add: zbody_def)
  have d: "ZIP_DECODE_LENGTH (zbody s) 0 = Some (enc, 1, zipIntSize enc)" unfolding b using ie by (rule decode_int_body)
  have "zipLoadInteger ((X @ [of_nat enc]) @ int_bytes enc v @ Z) (p + 1) enc = Some v"
    using assms(2) by (intro load_integer_body [OF f]) simp
  then show ?thesis using ve b d decode_length_shift [OF d assms(2), of Z] int_enc_not_str [OF ie]
    by (simp add: length_int_bytes del: One_nat_def)
qed

text \<open>A block that holds the strings \<open>ss\<close>.\<close>

definition zlist :: "bytes \<Rightarrow> bytes list \<Rightarrow> bool" where
  "zlist zl ss \<longleftrightarrow> (\<exists>es. zrep zl es \<and> map snd es = map zbody ss) \<and> (\<forall>s\<in>set ss. length s < 2 ^ 32)"

lemma zlist_nth:
  assumes "map snd es = map zbody ss" "i < length es"
  shows "snd (es ! i) = zbody (ss ! i)" "i < length ss"
proof -
  have l: "length es = length ss" using assms(1) by (metis length_map)
  then show "i < length ss" using assms(2) by simp
  then have "map snd es ! i = map zbody ss ! i" using assms(1) by simp
  then show "snd (es ! i) = zbody (ss ! i)" using assms(2) l by simp
qed

lemma entry_decode:
  assumes "zrep zl es" "i < length es" "snd (es ! i) = zbody s" "length s < 2 ^ 32"
  shows "\<exists>enc ls len e. ZIP_DECODE_LENGTH zl (zpos es i + psz (fst (es ! i))) = Some (enc, ls, len) \<and>
     zpos es i + psz (fst (es ! i)) + ls + len = zpos es (Suc i) \<and>
     zipEntry zl (zpos es i) = Some e \<and> zencoding e = enc \<and> headersize e = psz (fst (es ! i)) + ls \<and> zlen e = len \<and>
     (case zipTryEncoding s of
        None \<Rightarrow> ZIP_IS_STR enc \<and> len = length s \<and> rd_block zl (zpos es i + psz (fst (es ! i)) + ls) len = Some s
      | Some (v, _) \<Rightarrow> \<not> ZIP_IS_STR enc \<and> zipLoadInteger zl (zpos es i + psz (fst (es ! i)) + ls) enc = Some v)"
proof -
  obtain X prev where X: "length X = zpos es i" "zl = X @ pfield (fst (es ! i)) prev @ snd (es ! i) @ flat (raw (es ! i)) (drop (Suc i) es) @ [255]"
    using zrep_entry [OF assms(1,2)] by metis
  let ?q = "zpos es i + psz (fst (es ! i))"
  let ?X = "X @ pfield (fst (es ! i)) prev" and ?Z = "flat (raw (es ! i)) (drop (Suc i) es) @ [255]"
  have z: "zl = ?X @ zbody s @ ?Z" using X(2) assms(3) by simp
  have "length ?X = ?q" using X(1) by simp
  from zbody_decode [OF assms(4) this, of ?Z] obtain enc ls len where
    d: "ZIP_DECODE_LENGTH zl ?q = Some (enc, ls, len)" "length (zbody s) = ls + len"
    "case zipTryEncoding s of
        None \<Rightarrow> ZIP_IS_STR enc \<and> len = length s \<and> rd_block zl (?q + ls) len = Some s
      | Some (v, _) \<Rightarrow> \<not> ZIP_IS_STR enc \<and> zipLoadInteger zl (?q + ls) enc = Some v"
    unfolding z [symmetric] by blast
  have "zpos es (Suc i) = ?q + ls + len" using zpos_Suc [OF assms(2)] d(2) assms(3) by (simp add: raw_def)
  then show ?thesis using d raw_at(3) [OF assms(1,2)] by (simp add: zipEntry_def)
qed

lemma get_ok:
  assumes "zrep zl es" "i < length es" "snd (es ! i) = zbody s" "length s < 2 ^ 32"
  shows "ziplistGet zl (Some (zpos es i)) = Some (Some (zval_of s))"
  using entry_decode [OF assms] raw_at(2) [OF assms(1,2)]
  by (auto simp: ziplistGet_def zval_of_def add.assoc split: option.splits)

lemma zipTryEncoding_inject: "zipTryEncoding s = Some (v, e) \<Longrightarrow> zipTryEncoding t = Some (v, e') \<Longrightarrow> s = t"
  using zipTryEncoding_Some(2) string2ll_canonical by metis

lemma compare_ok:
  assumes "zrep zl es" "i < length es" "snd (es ! i) = zbody s" "length s < 2 ^ 32"
  shows "ziplistCompare zl (zpos es i) t = Some (s = t)"
  using entry_decode [OF assms] raw_at(2) [OF assms(1,2)]
  by (auto simp: ziplistCompare_def add.assoc zipTryEncoding_inject split: option.splits)

section \<open>Search and length\<close>

text \<open>What \<open>ziplistFind\<close> computes: the first match among the entries it does not skip.\<close>

fun find_from :: "bytes \<Rightarrow> nat \<Rightarrow> nat \<Rightarrow> bytes list \<Rightarrow> nat option" where
  "find_from v skip cnt [] = None"
| "find_from v skip cnt (s # ss) =
     (if cnt = 0 then if s = v then Some 0 else map_option Suc (find_from v skip skip ss)
      else map_option Suc (find_from v skip (cnt - 1) ss))"

text \<open>The cached encoding of the searched string.\<close>

definition venc_ok :: "bytes \<Rightarrow> nat \<Rightarrow> int \<Rightarrow> bool" where
  "venc_ok v venc vll \<longleftrightarrow> venc = 0 \<or> (case zipTryEncoding v of Some (x, e) \<Rightarrow> venc = e \<and> vll = x | None \<Rightarrow> venc = 255)"

lemma enc_not_special: "zipTryEncoding v = Some (x, e) \<Longrightarrow> e \<noteq> 0 \<and> e \<noteq> 255"
  using zipTryEncoding_Some(1) enc_fits_int int_enc_bound by (metis less_irrefl not_numeral_le_zero)

lemma find_hit:
  assumes "zrep zl es" "i < length es" "snd (es ! i) = zbody s" "length s < 2 ^ 32" "venc_ok v venc vll"
  shows "\<exists>enc ls len venc' vll'. ZIP_DECODE_LENGTH zl (zpos es i + psz (fst (es ! i))) = Some (enc, ls, len) \<and>
     zpos es i + psz (fst (es ! i)) + ls + len = zpos es (Suc i) \<and> venc_ok v venc' vll' \<and>
     (let q = zpos es i + psz (fst (es ! i)) + ls in
      if ZIP_IS_STR enc then
        (if len = length v then rd_block zl q len \<bind> (\<lambda>t. Some (t = v, venc, vll)) else Some (False, venc, vll))
      else
        let (venc, vll) = (if venc = 0 then (case zipTryEncoding v of Some (v, e) \<Rightarrow> (e, v) | None \<Rightarrow> (255, vll)) else (venc, vll)) in
        if venc \<noteq> 255 then zipLoadInteger zl q enc \<bind> (\<lambda>ll. Some (ll = vll, venc, vll)) else Some (False, venc, vll)) =
     Some (s = v, venc', vll')"
proof -
  obtain enc ls len where d: "ZIP_DECODE_LENGTH zl (zpos es i + psz (fst (es ! i))) = Some (enc, ls, len)"
    "zpos es i + psz (fst (es ! i)) + ls + len = zpos es (Suc i)"
    "case zipTryEncoding s of
        None \<Rightarrow> ZIP_IS_STR enc \<and> len = length s \<and> rd_block zl (zpos es i + psz (fst (es ! i)) + ls) len = Some s
      | Some (v, _) \<Rightarrow> \<not> ZIP_IS_STR enc \<and> zipLoadInteger zl (zpos es i + psz (fst (es ! i)) + ls) enc = Some v"
    using entry_decode [OF assms(1-4)] by blast
  show ?thesis
  proof (cases "zipTryEncoding s")
    case None
    then show ?thesis using d assms(5) by auto
  next
    case (Some xe)
    obtain x e where xe: "zipTryEncoding s = Some (x, e)" using Some by (cases xe) simp
    let ?r = "if venc = 0 then (case zipTryEncoding v of Some (v, e) \<Rightarrow> (e, v) | None \<Rightarrow> (255, vll)) else (venc, vll)"
    obtain venc' vll' where r: "?r = (venc', vll')" by (cases ?r)
    have ok: "venc_ok v venc' vll'" "(venc' \<noteq> 255 \<and> x = vll') = (s = v)"
      using r assms(5) xe by (auto simp: venc_ok_def zipTryEncoding_inject dest: enc_not_special split: option.splits if_splits)
    then show ?thesis using d xe r by (cases "venc' = 255") auto
  qed
qed

lemma find_loop_ok:
  assumes "zrep zl es" "map snd es = map zbody ss" "\<forall>s\<in>set ss. length s < 2 ^ 32" "i \<le> length es" "venc_ok v venc vll"
  shows "ziplistFind_loop zl (zpos es i) v skip cnt venc vll = Some (map_option (\<lambda>j. zpos es (i + j)) (find_from v skip cnt (drop i ss)))"
  using assms(4,5)
proof (induction "length es - i" arbitrary: i cnt venc vll)
  case 0
  moreover have "length ss = length es" using assms(2) by (metis length_map)
  ultimately show ?case using end_at [OF assms(1)] by (subst ziplistFind_loop.simps) simp
next
  case (Suc n)
  then have i: "i < length es" by simp
  have si: "snd (es ! i) = zbody (ss ! i)" "i < length ss" using zlist_nth [OF assms(2) i] by auto
  then have dr: "drop i ss = ss ! i # drop (Suc i) ss" "length (ss ! i) < 2 ^ 32" using assms(3) by (simp_all add: Cons_nth_drop_Suc)
  obtain b where b: "rdb zl (zpos es i) = Some b" "b \<noteq> ZIP_END" using raw_at(2) [OF assms(1) i] by blast
  have ps: "ZIP_DECODE_PREVLENSIZE zl (zpos es i) = Some (psz (fst (es ! i)))"
    using raw_at(3) [OF assms(1) i] by (auto simp: ZIP_DECODE_PREVLEN_def split: bind_splits if_splits)
  have IH: "ziplistFind_loop zl (zpos es (Suc i)) v skip cnt venc vll = Some (map_option (\<lambda>j. zpos es (Suc i + j)) (find_from v skip cnt (drop (Suc i) ss)))"
    if "venc_ok v venc vll" for cnt venc vll using Suc that i by (intro Suc.hyps(1)) simp_all
  obtain enc ls len venc' vll' where h: "ZIP_DECODE_LENGTH zl (zpos es i + psz (fst (es ! i))) = Some (enc, ls, len)"
     "zpos es i + psz (fst (es ! i)) + ls + len = zpos es (Suc i)" "venc_ok v venc' vll'"
     "(let q = zpos es i + psz (fst (es ! i)) + ls in
      if ZIP_IS_STR enc then
        (if len = length v then rd_block zl q len \<bind> (\<lambda>t. Some (t = v, venc, vll)) else Some (False, venc, vll))
      else
        let (venc, vll) = (if venc = 0 then (case zipTryEncoding v of Some (v, e) \<Rightarrow> (e, v) | None \<Rightarrow> (255, vll)) else (venc, vll)) in
        if venc \<noteq> 255 then zipLoadInteger zl q enc \<bind> (\<lambda>ll. Some (ll = vll, venc, vll)) else Some (False, venc, vll)) =
     Some (ss ! i = v, venc', vll')"
    using find_hit [OF assms(1) i si(1) dr(2) Suc.prems(2)] by blast
  show ?case
    unfolding ziplistFind_loop.simps [of zl "zpos es i"] b(1) ps Option.bind.simps h(1) prod.case Let_def h(4) [unfolded Let_def] h(2)
    using b(2) IH Suc.prems(2) h(3) dr(1) by (simp add: option.map_comp comp_def)
qed

lemma len_loop_ok:
  assumes "zrep zl es" "i \<le> length es"
  shows "ziplistLen_loop zl (zpos es i) n = Some (n + (length es - i))"
  using assms(2)
proof (induction "length es - i" arbitrary: i n)
  case 0
  then show ?case using end_at [OF assms(1)] by (subst ziplistLen_loop.simps) simp
next
  case (Suc k)
  then have i: "i < length es" by simp
  have "ziplistLen_loop zl (zpos es (Suc i)) (n + 1) = Some (n + 1 + (length es - Suc i))" using Suc i by (intro Suc.hyps(1)) simp_all
  then show ?case using raw_at(1,2) [OF assms(1) i] zpos_Suc [OF i] i by (subst ziplistLen_loop.simps) auto
qed

lemma len_ok:
  assumes "zrep zl es"
  shows "\<exists>zl'. ziplistLen zl = Some (length es, zl') \<and> zrep zl' es"
proof -
  obtain c where c: "cnt_ok c (length es)" "zl = hdr (11 + raws es) (tailoff es) c @ flat 0 es @ [255]" "zok 0 es" "11 + raws es < 2 ^ 32"
    using zrep_parts [OF assms] by blast
  have l: "ZIPLIST_LENGTH zl = Some c" unfolding c(2) using c(1) by (intro hdr_fields) (simp add: cnt_ok_def)
  show ?thesis
  proof (cases "c < 65535")
    case True
    then show ?thesis using l c(1) assms by (simp add: ziplistLen_def zip_consts cnt_ok_def)
  next
    case False
    have ll: "ziplistLen_loop zl 10 0 = Some (length es)" using len_loop_ok [OF assms, of 0 0] by simp
    have "zrep (hdr (11 + raws es) (tailoff es) (length es) @ flat 0 es @ [255]) es" if "length es < 65535"
      using c(3,4) that by (intro zrepI) (simp_all add: cnt_ok_def)
    moreover have "set_LENGTH zl (length es) = Some (hdr (11 + raws es) (tailoff es) (length es) @ flat 0 es @ [255])" if "length es < 65535"
      unfolding c(2) using that by (intro set_hdr_fields) simp
    ultimately show ?thesis using False l ll assms by (auto simp: ziplistLen_def zip_consts)
  qed
qed

section \<open>The operations on lists of strings\<close>

text \<open>
  Room for the worst case: five bytes of length field and ten of encoding per entry, and
  the growth of every length field by four bytes in a cascade.
\<close>

definition zcap :: "bytes list \<Rightarrow> bool" where
  "zcap ss \<longleftrightarrow> 40 + sum_list (map (\<lambda>s. length s + 20) ss) < 2 ^ 32"

lemma length_zbody_le: "length (zbody s) \<le> length s + 10"
  by (auto simp: length_zbody zipEncodeLength_size_def zipIntSize_def split: option.splits)

lemma raws_le: "map snd es = map zbody ss \<Longrightarrow> raws es + 4 * length es \<le> sum_list (map (\<lambda>s. length s + 20) ss)"
proof (induction es arbitrary: ss)
  case (Cons e es)
  then obtain s ss' where ss: "ss = s # ss'" "snd e = zbody s" "map snd es = map zbody ss'" by (cases ss) auto
  have "raw e + 4 \<le> length s + 20" using length_zbody_le [of s] ss(2) by (simp add: raw_def psz_def)
  then show ?case using Cons.IH [OF ss(3)] ss(1) by simp
qed simp

lemma zcap_le: "zcap ss \<Longrightarrow> map snd es = map zbody ss \<Longrightarrow> raws es + 4 * length es + 40 < 2 ^ 32"
  using raws_le [of es ss] by (simp add: zcap_def)

lemma zcap_len: "zcap ss \<Longrightarrow> s \<in> set ss \<Longrightarrow> length s < 2 ^ 32"
  using member_le_sum_list [of "length s + 20" "map (\<lambda>s. length s + 20) ss"] by (auto simp: zcap_def)

lemma zcap_sub: "zcap ss \<Longrightarrow> sum_list (map (\<lambda>s. length s + 20) ts) \<le> sum_list (map (\<lambda>s. length s + 20) ss) \<Longrightarrow> zcap ts"
  by (simp add: zcap_def)

lemma zlistI: "zrep zl es \<Longrightarrow> map snd es = map zbody ss \<Longrightarrow> zcap ss \<Longrightarrow> zlist zl ss"
  by (auto simp: zlist_def dest: zcap_len)

lemma insert_ok:
  assumes z: "zrep zl es" "map snd es = map zbody (xs @ ys)" and cap: "zcap (xs @ s # ys)"
    and safe: "length xs < length es \<Longrightarrow> fst (es ! length xs) \<Longrightarrow> 3 \<le> length (zbody s)"
  shows "\<exists>zl' es'. ziplistInsert_gen jk zl (zpos es (length xs)) s = Some zl' \<and> zrep zl' es' \<and> map snd es' = map zbody (xs @ s # ys)"
proof -
  let ?n = "length xs" and ?pl = "lastraw 0 (take (length xs) es)"
  let ?R = "psz (254 \<le> ?pl) + length (zbody s)"
  have le: "length es = length xs + length ys" using z(2) by (metis length_append length_map)
  obtain c where c: "cnt_ok c (length es)" "zl = hdr (11 + raws es) (tailoff es) c @ flat 0 es @ [255]" "zok 0 es" "11 + raws es < 2 ^ 32"
    using zrep_parts [OF z(1)] by blast
  have sl: "length s < 2 ^ 32" using zcap_len [OF cap] by simp
  have "sum_list (map (\<lambda>s. length s + 20) (xs @ s # ys)) = sum_list (map (\<lambda>s. length s + 20) (xs @ ys)) + length s + 20" by simp
  then have cap': "raws es + 4 * length es + length s + 60 < 2 ^ 32" using raws_le [OF z(2)] cap by (simp add: zcap_def)
  have Rb: "?R \<le> length s + 15" using length_zbody_le [of s] by (simp add: psz_def)
  have bx: "map snd (take ?n es) = map zbody xs" "map snd (drop ?n es) = map zbody ys"
    using z(2) by (metis append_eq_conv_conj length_map map_append take_map, metis append_eq_conv_conj drop_map length_map map_append)
  show ?thesis
  proof (cases "drop ?n es")
    case Nil
    then have e: "take ?n es = es" "ys = []" using bx(2) by auto
    have "11 + raws es + ?R < 2 ^ 32" using cap' Rb by simp
    from insert_end [OF c(3,1) _ refl sl, of ?pl jk] this e obtain zl' where
      "ziplistInsert_gen jk zl (10 + raws es) s = Some zl'" "zrep zl' (es @ [(254 \<le> ?pl, zbody s)])" unfolding c(2) by auto
    then show ?thesis using e bx(1) by (intro exI [of _ zl'] exI [of _ "es @ [(254 \<le> ?pl, zbody s)]"]) (simp add: zpos_def)
  next
    case (Cons e es3)
    obtain lg b where e: "e = (lg, b)" by (cases e)
    have es: "es = take ?n es @ (lg, b) # es3" using Cons e append_take_drop_id by metis
    have lt: "?n < length es" using Cons by (metis drop_all list.distinct(1) not_le)
    then have "es ! ?n = (lg, b)" using Cons e by (metis nth_via_drop)
    then have sf: "lg \<longrightarrow> 4 \<le> ?R" using safe lt by (auto simp: psz_def)
    have r: "raws es = raws (take ?n es @ (lg, b) # es3)" "length es3 \<le> length es" using es by (metis, metis Cons length_Cons length_drop diff_le_self Suc_leD)
    have cp: "11 + raws (take ?n es @ (lg, b) # es3) + ?R + 4 * length es3 + 8 < 2 ^ 32" using cap' Rb r by linarith
    obtain zl' where zl': "ziplistInsert_gen jk zl (10 + raws (take ?n es)) s = Some zl'"
      "zrep zl' (take ?n es @ (254 \<le> ?pl, zbody s) # fixnext ?R ((lg, b) # es3))"
      using insert_middle [of "take ?n es" lg b es3 c ?pl ?R s jk] c(1,3) sf sl cp es unfolding c(2) by metis
    moreover have "map snd (take ?n es @ (254 \<le> ?pl, zbody s) # fixnext ?R ((lg, b) # es3)) = map zbody (xs @ s # ys)"
      using bx Cons e by (simp del: fixnext.simps)
    ultimately show ?thesis unfolding zpos_def by blast
  qed
qed

lemma delete_ok:
  assumes z: "zrep zl es" "map snd es = map zbody (xs @ ys)" and cap: "zcap (xs @ ys)" and n: "0 < n" "ys \<noteq> []"
  shows "\<exists>zl' es'. ziplistDelete_gen jk zl (zpos es (length xs)) n = Some zl' \<and> zrep zl' es' \<and> map snd es' = map zbody (xs @ drop n ys)"
proof -
  let ?n = "length xs" and ?pl = "lastraw 0 (take (length xs) es)"
  let ?ds = "take n (drop ?n es)" and ?rs = "drop n (drop ?n es)"
  have le: "length es = length xs + length ys" using z(2) by (metis length_append length_map)
  obtain c where c: "cnt_ok c (length es)" "zl = hdr (11 + raws es) (tailoff es) c @ flat 0 es @ [255]" "zok 0 es" "11 + raws es < 2 ^ 32"
    using zrep_parts [OF z(1)] by blast
  have cap': "raws es + 4 * length es + 40 < 2 ^ 32" using zcap_le [OF cap z(2)] .
  have bx: "map snd (take ?n es) = map zbody xs" "map snd (drop ?n es) = map zbody ys"
    using z(2) by (metis append_eq_conv_conj length_map map_append take_map, metis append_eq_conv_conj drop_map length_map map_append)
  have br: "map snd ?rs = map zbody (drop n ys)" using bx(2) by (metis drop_map)
  have es: "es = take ?n es @ ?ds @ ?rs" by (metis append_take_drop_id)
  have ne: "?ds \<noteq> []" using n le by simp
  show ?thesis
  proof (cases ?rs)
    case Nil
    then have es': "es = take ?n es @ ?ds" "length ?ds \<le> n" "drop n ys = []" using es br by auto
    from delete_end [of "take ?n es" ?ds c n jk] obtain zl' where
      "ziplistDelete_gen jk zl (10 + raws (take ?n es)) n = Some zl'" "zrep zl' (take ?n es)"
      using c ne es'(1,2) unfolding c(2) by metis
    then show ?thesis using bx(1) es'(3) unfolding zpos_def by (intro exI [of _ zl'] exI [of _ "take ?n es"]) simp
  next
    case (Cons e es3)
    obtain lg b where e: "e = (lg, b)" by (cases e)
    have es': "es = take ?n es @ ?ds @ (lg, b) # es3" using es Cons e by metis
    have l: "length ?ds = n"
    proof -
      have "0 < length ?rs" using Cons by simp
      then show ?thesis by simp
    qed
    have r: "raws es = raws (take ?n es @ ?ds @ (lg, b) # es3)" using es' by metis
    have "length es3 \<le> length es" using Cons by (metis length_Cons length_drop diff_le_self Suc_leD le_trans)
    then have cp: "11 + raws (take ?n es @ ?ds @ (lg, b) # es3) + 4 * length es3 + 4 < 2 ^ 32" using cap' r by linarith
    obtain zl' where zl': "ziplistDelete_gen jk zl (10 + raws (take ?n es)) n = Some zl'"
      "zrep zl' (take ?n es @ fixnext ?pl ((lg, b) # es3))"
      using delete_middle [of "take ?n es" ?ds lg b es3 c n ?pl jk] c(1,3) ne l cp es' unfolding c(2) by metis
    moreover have "map snd (take ?n es @ fixnext ?pl ((lg, b) # es3)) = map zbody (xs @ drop n ys)"
      using bx br Cons e by (simp del: fixnext.simps)
    ultimately show ?thesis unfolding zpos_def by blast
  qed
qed

lemma zlist_new: "\<exists>zl. ziplistNew jk = Some zl \<and> zlist zl []"
proof -
  let ?n = "le_dec [jk 0, jk 1, jk 2, jk 3]" and ?t = "le_dec [jk 4, jk 5, jk 6, jk 7]" and ?c = "le_dec [jk 8, jk 9]"
  have j: "map jk [0..<11] = hdr ?n ?t ?c @ [jk 10]"
    unfolding hdr_def by (simp add: upt_rec del: le_dec.simps) (simp add: eval_nat_numeral)
  have "wr (hdr 11 10 0 @ [jk 10]) 10 255 = Some (hdr 11 10 0 @ [255])" using wr_middle [of "hdr 11 10 0" "jk 10" "[]" 255] by simp
  then have "ziplistNew jk = Some (hdr 11 10 0 @ [255])"
    by (simp add: ziplistNew_def zip_consts j set_hdr_fields Let_def)
  moreover have "zrep (hdr 11 10 0 @ [255]) []" by (intro zrepI) (simp_all add: cnt_ok_def tailoff_def)
  ultimately show ?thesis by (auto simp: zlist_def)
qed

lemma zlist_push:
  assumes "zlist zl ss" "zcap (s # ss)"
  shows "\<exists>zl'. ziplistPush jk zl s at_head = Some zl' \<and> zlist zl' (if at_head then s # ss else ss @ [s])"
proof -
  obtain es where z: "zrep zl es" "map snd es = map zbody ss" using assms(1) by (auto simp: zlist_def)
  obtain c where c: "zl = hdr (11 + raws es) (tailoff es) c @ flat 0 es @ [255]" "zok 0 es" "11 + raws es < 2 ^ 32"
    using zrep_parts [OF z(1)] by blast
  have l: "length es = length ss" using z(2) by (metis length_map)
  show ?thesis
  proof (cases at_head)
    case True
    have "0 < length es \<Longrightarrow> \<not> fst (es ! 0)" using c(2) by (cases es) (auto split: if_splits)
    then obtain zl' es' where "ziplistInsert_gen jk zl 10 s = Some zl'" "zrep zl' es'" "map snd es' = map zbody (s # ss)"
      using insert_ok [OF z(1), of "[]" ss s jk] z(2) assms(2) by auto
    then show ?thesis using True assms(2) zlistI by (auto simp: ziplistPush_def zip_consts)
  next
    case False
    have cap: "zcap (ss @ [s])" using assms(2) by (simp add: zcap_def)
    have "zpos es (length ss) = 10 + raws es" using zpos_end [of es] l by simp
    then obtain zl' es' where "ziplistInsert_gen jk zl (10 + raws es) s = Some zl'" "zrep zl' es'" "map snd es' = map zbody (ss @ [s])"
      using insert_ok [OF z(1), of ss "[]" s jk] z(2) l cap by auto
    moreover have "ZIPLIST_BYTES zl = Some (11 + raws es)" unfolding c(1) using c(3) by (rule hdr_fields)
    ultimately show ?thesis using False cap zlistI by (auto simp: ziplistPush_def)
  qed
qed

lemma zlist_exists: "zcap ss \<Longrightarrow> \<exists>zl. zlist zl ss"
proof (induction ss)
  case Nil
  then show ?case using zlist_new by blast
next
  case (Cons s ss)
  then have "zcap ss" by (simp add: zcap_def)
  then obtain zl where "zlist zl ss" using Cons.IH by blast
  from zlist_push [OF this Cons.prems, of "\<lambda>_. 0" True] show ?case by auto
qed

lemma zlist_index:
  assumes "zlist zl ss" "- (2 ^ 31) < i"
  shows "case idx_of (length ss) i of
       None \<Rightarrow> ziplistIndex zl i = Some None
     | Some j \<Rightarrow> \<exists>p. ziplistIndex zl i = Some (Some p) \<and> ziplistGet zl (Some p) = Some (Some (zval_of (ss ! j))) \<and>
         (zcap ss \<longrightarrow> (\<exists>zl'. ziplistDelete_gen jk zl p n = Some zl' \<and> zlist zl' (take j ss @ drop (j + n) ss)))"
proof -
  obtain es where z: "zrep zl es" "map snd es = map zbody ss" using assms(1) by (auto simp: zlist_def)
  have l: "length es = length ss" using z(2) by (metis length_map)
  note ix = index_ok [OF z(1) assms(2), unfolded l]
  show ?thesis
  proof (cases "idx_of (length ss) i")
    case None
    then show ?thesis using ix by simp
  next
    case (Some j)
    then have j: "j < length ss" "j < length es" using idx_of_less l by auto
    have "length (ss ! j) < 2 ^ 32" using assms(1) j by (simp add: zlist_def)
    then have g: "ziplistGet zl (Some (zpos es j)) = Some (Some (zval_of (ss ! j)))" using get_ok [OF z(1) j(2)] zlist_nth [OF z(2) j(2)] by blast
    have sp: "take j ss @ drop j ss = ss" "length (take j ss) = j" "drop j ss \<noteq> []" using j by auto
    have "\<exists>zl'. ziplistDelete_gen jk zl (zpos es j) n = Some zl' \<and> zlist zl' (take j ss @ drop (j + n) ss)" if cap: "zcap ss"
    proof (cases "n = 0")
      case True
      have "\<exists>e. zipEntry zl (zpos es j) = Some e \<and> zptr e = zpos es j"
        using entry_decode [OF z(1) j(2)] zlist_nth [OF z(2) j(2)] \<open>length (ss ! j) < 2 ^ 32\<close> by (fastforce simp: zipEntry_def split: bind_splits)
      then have "ziplistDelete_gen jk zl (zpos es j) n = Some zl" using True by (auto simp: ziplistDelete_gen_def u32_def)
      then show ?thesis using True assms(1) by simp
    next
      case False
      then have n: "0 < n" by simp
      obtain zl' es' where d: "ziplistDelete_gen jk zl (zpos es j) n = Some zl'" "zrep zl' es'" "map snd es' = map zbody (take j ss @ drop n (drop j ss))"
        using delete_ok [OF z(1), of "take j ss" "drop j ss" n jk] z(2) cap n sp by metis
      have "sum_list (map (\<lambda>s. length s + 20) ss) = sum_list (map (\<lambda>s. length s + 20) (take j ss @ take n (drop j ss) @ drop n (drop j ss)))"
        by (metis append_take_drop_id)
      then have "zcap (take j ss @ drop n (drop j ss))" by (intro zcap_sub [OF cap]) simp
      then show ?thesis using d zlistI by (auto simp: add.commute)
    qed
    then show ?thesis using Some ix g by auto
  qed
qed

section \<open>Sequences of operations\<close>

datatype zop = ZPush bytes bool | ZDel int | ZRange nat nat | ZGet int | ZLen

datatype zreply = ZDone | ZNil | ZVal zval | ZCount nat

definition zstep :: "(nat \<Rightarrow> byte) \<Rightarrow> zop \<Rightarrow> bytes \<Rightarrow> (bytes \<times> zreply) option" where
  "zstep jk op zl =
     (case op of
        ZPush s at_head \<Rightarrow> do { zl \<leftarrow> ziplistPush jk zl s at_head; Some (zl, ZDone) }
      | ZDel i \<Rightarrow>
          do { po \<leftarrow> ziplistIndex zl i;
               case po of None \<Rightarrow> Some (zl, ZNil)
               | Some p \<Rightarrow> do { (zl, _) \<leftarrow> ziplistDelete jk zl p; Some (zl, ZDone) } }
      | ZRange i n \<Rightarrow> do { zl \<leftarrow> ziplistDeleteRange jk zl i n; Some (zl, ZDone) }
      | ZGet i \<Rightarrow>
          do { po \<leftarrow> ziplistIndex zl i;
               v \<leftarrow> ziplistGet zl po;
               Some (zl, case v of None \<Rightarrow> ZNil | Some x \<Rightarrow> ZVal x) }
      | ZLen \<Rightarrow> do { (n, zl) \<leftarrow> ziplistLen zl; Some (zl, ZCount n) })"

fun zrun :: "(nat \<Rightarrow> byte) \<Rightarrow> zop list \<Rightarrow> bytes \<Rightarrow> (bytes \<times> zreply list) option" where
  "zrun jk [] zl = Some (zl, [])"
| "zrun jk (op # ops) zl =
     do { (zl, r) \<leftarrow> zstep jk op zl; (zl, rs) \<leftarrow> zrun jk ops zl; Some (zl, r # rs) }"

text \<open>The same on a list of strings.\<close>

fun lstep :: "zop \<Rightarrow> bytes list \<Rightarrow> bytes list \<times> zreply" where
  "lstep (ZPush s at_head) ss = (if at_head then s # ss else ss @ [s], ZDone)"
| "lstep (ZDel i) ss =
     (case idx_of (length ss) i of None \<Rightarrow> (ss, ZNil) | Some j \<Rightarrow> (take j ss @ drop (j + 1) ss, ZDone))"
| "lstep (ZRange i n) ss = (take i ss @ drop (i + n) ss, ZDone)"
| "lstep (ZGet i) ss = (ss, case idx_of (length ss) i of None \<Rightarrow> ZNil | Some j \<Rightarrow> ZVal (zval_of (ss ! j)))"
| "lstep ZLen ss = (ss, ZCount (length ss))"

fun lrun :: "zop list \<Rightarrow> bytes list \<Rightarrow> bytes list \<times> zreply list" where
  "lrun [] ss = (ss, [])"
| "lrun (op # ops) ss =
     (let (ss, r) = lstep op ss; (ss, rs) = lrun ops ss in (ss, r # rs))"

fun zop_ok :: "zop \<Rightarrow> bool" where
  "zop_ok (ZDel i) \<longleftrightarrow> - (2 ^ 31) < i"
| "zop_ok (ZGet i) \<longleftrightarrow> - (2 ^ 31) < i"
| "zop_ok (ZRange i n) \<longleftrightarrow> i < 2 ^ 31"
| "zop_ok _ \<longleftrightarrow> True"

text \<open>The strings a sequence stores, as an upper bound on the bytes in use at any time.\<close>

fun zpushed :: "zop list \<Rightarrow> bytes list" where
  "zpushed [] = []"
| "zpushed (ZPush s _ # ops) = s # zpushed ops"
| "zpushed (_ # ops) = zpushed ops"

lemma sum_list_cut: "sum_list (map f (take j ss @ drop (j + n) ss)) \<le> sum_list (map f (ss :: 'a list)) " for f :: "'a \<Rightarrow> nat"
proof -
  have "ss = take j ss @ take n (drop j ss) @ drop (j + n) ss" by (metis add.commute append_take_drop_id drop_drop)
  then have "sum_list (map f ss) = sum_list (map f (take j ss @ take n (drop j ss) @ drop (j + n) ss))" by metis
  then show ?thesis by simp
qed

lemma zstep_ok:
  assumes "zlist zl ss" "zop_ok op" "zcap (zpushed [op] @ ss)"
  shows "\<exists>zl'. zstep jk op zl = Some (zl', snd (lstep op ss)) \<and> zlist zl' (fst (lstep op ss))"
proof (cases op)
  case (ZPush s h)
  then show ?thesis using zlist_push [OF assms(1), of s jk h] assms(3) by (auto simp: zstep_def)
next
  case (ZDel i)
  then show ?thesis using zlist_index [OF assms(1), of i jk 1] assms
    by (auto simp: zstep_def ziplistDelete_def split: option.splits)
next
  case (ZRange i n)
  have "sgn_of 32 i = int i" using ZRange assms(2) by (simp add: sgn_of_def)
  then show ?thesis using ZRange zlist_index [OF assms(1), of "int i" jk n] assms(1,3)
    by (auto simp: zstep_def ziplistDeleteRange_def idx_of_def split: option.splits if_splits)
next
  case (ZGet i)
  then show ?thesis using zlist_index [OF assms(1), of i jk 1] assms(1,2)
    by (auto simp: zstep_def ziplistGet_def split: option.splits)
next
  case ZLen
  obtain es where z: "zrep zl es" "map snd es = map zbody ss" using assms(1) by (auto simp: zlist_def)
  have "length es = length ss" using z(2) by (metis length_map)
  then show ?thesis using len_ok [OF z(1)] ZLen z(2) assms(1) by (auto simp: zstep_def zlist_def)
qed

lemma zcap_cut:
  assumes "zcap (ts @ ss)"
  shows "zcap (ts @ take j ss @ drop (j + n) ss)"
proof -
  have "sum_list (map (\<lambda>s. length s + 20) (take j ss @ drop (j + n) ss)) \<le> sum_list (map (\<lambda>s. length s + 20) ss)"
    by (rule sum_list_cut)
  then show ?thesis using assms unfolding zcap_def map_append [of _ ts] sum_list_append [of "map _ ts"] by linarith
qed

lemma zcap_step: "zcap (zpushed (op # ops) @ ss) \<Longrightarrow> zcap (zpushed ops @ fst (lstep op ss))"
proof (cases op)
  case (ZPush s h)
  then show "zcap (zpushed (op # ops) @ ss) \<Longrightarrow> ?thesis" by (simp add: zcap_def)
next
  case (ZDel i)
  then show "zcap (zpushed (op # ops) @ ss) \<Longrightarrow> ?thesis"
    using zcap_cut [of "zpushed ops" ss _ 1] by (cases "idx_of (length ss) i") simp_all
next
  case (ZRange i n)
  then show "zcap (zpushed (op # ops) @ ss) \<Longrightarrow> ?thesis" using zcap_cut [of "zpushed ops" ss i n] by simp
qed simp_all

lemma zcap_mono: "zcap (ts @ ss) \<Longrightarrow> zcap ss"
  by (simp add: zcap_def)

lemma zcap_first: "zcap (zpushed (op # ops) @ ss) \<Longrightarrow> zcap (zpushed [op] @ ss)"
  by (cases op) (auto simp: zcap_def)

lemma zrun_ok:
  assumes "zlist zl ss" "\<forall>op\<in>set ops. zop_ok op" "zcap (zpushed ops @ ss)"
  shows "\<exists>zl'. zrun jk ops zl = Some (zl', snd (lrun ops ss)) \<and> zlist zl' (fst (lrun ops ss))"
  using assms
proof (induction ops arbitrary: zl ss)
  case (Cons op ops)
  obtain zl1 where z1: "zstep jk op zl = Some (zl1, snd (lstep op ss))" "zlist zl1 (fst (lstep op ss))"
    using zstep_ok [OF Cons.prems(1) _ zcap_first [OF Cons.prems(3)]] Cons.prems(2) by (meson list.set_intros(1))
  from Cons.IH [OF this(2) _ zcap_step [OF Cons.prems(3)]] Cons.prems(2) z1(1) show ?case
    by (auto simp: split_beta Let_def)
qed simp

section \<open>The insertion that shrinks the next length field\<close>

text \<open>
  When the entry behind the insertion point has a wide length field that could be narrow,
  \<open>nextdiff\<close> is \<open>-4\<close>; with a new entry of two bytes the block shrinks before the entries
  behind are moved, and the move reads past the new end.
\<close>

lemma insert_shrink_fails:
  assumes z: "zrep zl es" "j < length es" and w: "fst (es ! j)" "lastraw 0 (take j es) < 254" and s: "length (zbody s) = 1"
  shows "ziplistInsert_gen jk zl (zpos es j) s = None"
proof -
  let ?p = "zpos es j" and ?pl = "lastraw 0 (take j es)" and ?N = "11 + raws es"
  obtain c where c: "zl = hdr ?N (tailoff es) c @ flat 0 es @ [255]" "zok 0 es" "?N < 2 ^ 32" using zrep_parts [OF z(1)] by blast
  have bts: "ZIPLIST_BYTES zl = Some ?N" unfolding c(1) using c(3) by (rule hdr_fields)
  obtain X prev where X: "length X = ?p" "zl = X @ pfield True prev @ snd (es ! j) @ flat (raw (es ! j)) (drop (Suc j) es) @ [255]" "prev = ?pl"
    using zrep_entry [OF z] w(1) by metis
  obtain b0 where b0: "rdb zl ?p = Some b0" "b0 \<noteq> ZIP_END" using raw_at(2) [OF z] by blast
  have dp: "ZIP_DECODE_PREVLEN zl ?p = Some (5, ?pl)" using raw_at(3) [OF z] w(1) by simp
  have ds: "ZIP_DECODE_PREVLENSIZE zl ?p = Some 5" using dp by (auto simp: ZIP_DECODE_PREVLEN_def split: bind_splits if_splits)
  obtain v enc where enc: "enc_of s = (v, enc)" by (cases "enc_of s")
  have enc': "(case zipTryEncoding s of Some (v, e) \<Rightarrow> (v, e) | None \<Rightarrow> (123456789, 0)) = (v, enc)" using enc by (simp add: enc_of_def)
  have pls: "zipPrevEncodeLength_size ?pl = 1" using w(2) by (simp add: zipPrevEncodeLength_size_def zip_consts)
  have req: "(case zipTryEncoding s of Some (v, e) \<Rightarrow> zipIntSize e | None \<Rightarrow> length s) + 1 + zipEncodeLength_size enc (length s) = 2"
    using length_zbody [of s] enc s by simp
  have diff: "zipPrevLenByteDiff zl ?p 2 = Some (- 4)"
    using ds by (simp add: zipPrevLenByteDiff_def zipPrevEncodeLength_size_def zip_consts)
  have lzl: "length zl = ?N" unfolding c(1) by simp
  then have pN: "?p + 5 < ?N" using X(1,2) by simp
  have nsz: "nat (int ?N + int 2 + - 4) = ?N - 2" using pN by linarith
  let ?F = "flat 0 es" and ?m = "raws es - 2"
  let ?z1 = "hdr (?N - 2) (tailoff es) c @ take ?m ?F @ [255]"
  have "ziplistResize jk (hdr ?N (tailoff es) c @ take ?m ?F @ drop ?m ?F @ [255]) (?N - 2) = Some ?z1"
    by (rule resize_shrink) (use c(3) pN in \<open>simp_all add: zpos_def\<close>)
  then have rz: "ziplistResize jk zl (?N - 2) = Some ?z1" unfolding c(1) by (metis append.assoc append_take_drop_id)
  have r1: "rdb ?z1 ?p = Some b0"
    using b0(1) pN unfolding c(1) by (auto simp: rdb_def rd_def zpos_def nth_append)
  have mv: "memmove_at ?z1 (?p + 2) (?p + 4) (nat (int ?N - int ?p - 1 + - 4)) = None"
  proof -
    have "10 \<le> ?p" by (simp add: zpos_def)
    then have "length ?z1 < ?p + 4 + nat (int ?N - int ?p - 1 + - 4)" using pN by simp
    then show ?thesis by (simp add: memmove_at_def rd_block_def)
  qed
  have pa: "ptr_add ?p (- (- 4)) = Some (?p + 4)" by (simp add: ptr_add_def)
  show ?thesis unfolding ziplistInsert_gen_def
    by (simp only: bts b0 dp enc' pls req diff nsz rz r1 mv pa Option.bind.simps Let_def prod.case if_True not_False_eq_True simp_thms)
qed

lemma push_tail_rep:
  assumes "zrep zl es" "11 + raws es + psz (254 \<le> lastraw 0 es) + length (zbody s) < 2 ^ 32" "length s < 2 ^ 32"
  shows "\<exists>zl'. ziplistPush jk zl s False = Some zl' \<and> zrep zl' (es @ [(254 \<le> lastraw 0 es, zbody s)])"
proof -
  obtain c where c: "cnt_ok c (length es)" "zl = hdr (11 + raws es) (tailoff es) c @ flat 0 es @ [255]" "zok 0 es" "11 + raws es < 2 ^ 32"
    using zrep_parts [OF assms(1)] by blast
  have "ZIPLIST_BYTES zl = Some (11 + raws es)" unfolding c(2) using c(4) by (rule hdr_fields)
  moreover obtain zl' where "ziplistInsert_gen jk zl (10 + raws es) s = Some zl'" "zrep zl' (es @ [(254 \<le> lastraw 0 es, zbody s)])"
    unfolding c(2) using insert_end [OF c(3,1) refl refl assms(3)] assms(2) by auto
  ultimately show ?thesis by (auto simp: ziplistPush_def)
qed

section \<open>Properties\<close>

text \<open>
  C9. A ziplist is a list of strings.  Any sequence of pushes at either end, deletions by
  index, range deletions, reads by index (from the front or, negative, from the back) and
  length queries, started on a new ziplist, runs without an access outside the block,
  gives the replies of the same sequence on a list of strings, and leaves a well-formed
  block that holds that list.  Strings that are decimal integers are read back as
  integers.  The sum of the lengths has to leave room in 32 bits.
\<close>

theorem ziplist_refines_list:
  assumes "\<forall>op\<in>set ops. zop_ok op" "zcap (zpushed ops)"
  shows "\<exists>zl zl'. ziplistNew jk = Some zl \<and> zrun jk ops zl = Some (zl', snd (lrun ops [])) \<and>
     zlist zl' (fst (lrun ops []))"
  using zrun_ok [of _ "[]" ops jk] zlist_new [of jk] assms by fastforce

theorem ziplist_refines_list_witness:
  "\<exists>zl zl'. ziplistNew (\<lambda>_. 0) = Some zl \<and>
     zrun (\<lambda>_. 0) [ZPush [104, 105] False, ZPush [45, 55] True, ZPush [97] False, ZGet 0, ZGet (- 1), ZDel 1, ZRange 1 5, ZLen] zl =
       Some (zl', [ZDone, ZDone, ZDone, ZVal (ZInt (- 7)), ZVal (ZStr [97]), ZDone, ZDone, ZCount 1]) \<and>
     zlist zl' [[45, 55]]"
proof -
  have v: "zval_of [45, 55] = ZInt (- 7)" "zval_of [97] = ZStr [97]"
    by (simp_all add: zval_of_def zipTryEncoding_def string2ll_def sgn_of_def uns_of_def)
  show ?thesis
    using ziplist_refines_list [of "[ZPush [104, 105] False, ZPush [45, 55] True, ZPush [97] False, ZGet 0, ZGet (- 1), ZDel 1, ZRange 1 5, ZLen]"
        "\<lambda>_. 0"] v
    by (simp add: zcap_def idx_of_def)
qed

text \<open>
  Insertion in the middle: \<open>ziplistInsert\<close> at the position of entry \<open>j\<close> puts the string
  before it and changes no other entry, whatever cascade of length fields this causes,
  provided the entry behind has a one-byte length field or the new entry has at least
  three bytes of its own.
\<close>

lemma ziplistInsert_inserts:
  assumes "zlist zl ss" "zcap (s # ss)" "j < length ss" "ziplistIndex zl (int j) = Some (Some p)"
    and "ZIP_DECODE_PREVLENSIZE zl p = Some 1 \<or> 3 \<le> length (zbody s)"
  shows "\<exists>zl'. ziplistInsert jk zl p s = Some zl' \<and> zlist zl' (take j ss @ s # drop j ss)"
proof -
  obtain es where z: "zrep zl es" "map snd es = map zbody ss" using assms(1) by (auto simp: zlist_def)
  have l: "length es = length ss" using z(2) by (metis length_map)
  have p: "p = zpos es j" using index_ok [OF z(1), of "int j"] assms(3,4) l by (simp add: idx_of_def)
  have safe: "3 \<le> length (zbody s)" if "fst (es ! j)"
    using assms(3,5) raw_at(3) [OF z(1), of j] that p l by (auto simp: ZIP_DECODE_PREVLEN_def split: bind_splits if_splits)
  have cap: "zcap (take j ss @ s # drop j ss)"
  proof -
    have "sum_list (map (\<lambda>s. length s + 20) (take j ss @ drop j ss)) = sum_list (map (\<lambda>s. length s + 20) ss)" by simp
    then show ?thesis using assms(2) unfolding zcap_def map_append sum_list_append by simp
  qed
  have lt: "length (take j ss) = j" using assms(3) by simp
  have "\<exists>zl' es'. ziplistInsert_gen jk zl (zpos es (length (take j ss))) s = Some zl' \<and> zrep zl' es' \<and>
      map snd es' = map zbody (take j ss @ s # drop j ss)"
    by (rule insert_ok [OF z(1) _ cap]) (use z(2) safe lt in simp_all)
  then show ?thesis using lt p zlistI [OF _ _ cap] unfolding ziplistInsert_def by auto
qed

text \<open>
  C11. The condition of the previous property is needed.  Push 300, 250 and 5 bytes, delete
  the first entry: the last one keeps a five-byte length field for the length 253, since
  the cascade never shrinks a field.  Inserting a one-digit string before it makes
  \<open>__ziplistInsert\<close> shrink the block before it moves the entry, and the move reads outside
  the block.
\<close>

theorem ziplistInsert_reads_outside:
  "\<exists>zl p. (do { zl \<leftarrow> ziplistNew jk;
          zl \<leftarrow> ziplistPush jk zl (replicate 300 65) False;
          zl \<leftarrow> ziplistPush jk zl (replicate 250 66) False;
          zl \<leftarrow> ziplistPush jk zl [104, 101, 108, 108, 111] False;
          po \<leftarrow> ziplistIndex zl 0;
          p \<leftarrow> po;
          (zl, _) \<leftarrow> ziplistDelete jk zl p;
          Some zl }) = Some zl \<and>
     ziplistIndex zl 1 = Some (Some p) \<and> ziplistInsert jk zl p [49] = None"
proof -
  let ?A = "replicate 300 (65 :: byte)" and ?B = "replicate 250 (66 :: byte)" and ?C = "[104, 101, 108, 108, 111] :: bytes"
  have body: "zbody ?A = zip_len_bytes 0 300 @ ?A" "zbody ?B = zip_len_bytes 0 250 @ ?B" "length (zbody ?A) = 302" "length (zbody ?B) = 252"
    by (simp_all add: zbody_def zipTryEncoding_def zipEncodeLength_size_def)
  have bC: "length (zbody ?C) = 6" "length (zbody [49]) = 1"
    by (simp_all add: zbody_def zipTryEncoding_def string2ll_def zipEncodeLength_size_def int_bytes_def zip_consts)
  obtain z0 where z0: "ziplistNew jk = Some z0" "zrep z0 []" using zlist_new [of jk] by (auto simp: zlist_def)
  obtain z1 where z1: "ziplistPush jk z0 ?A False = Some z1" "zrep z1 [(False, zbody ?A)]"
    using push_tail_rep [OF z0(2), of ?A jk] body by auto
  obtain z2 where z2: "ziplistPush jk z1 ?B False = Some z2" "zrep z2 [(False, zbody ?A), (True, zbody ?B)]"
    using push_tail_rep [OF z1(2), of ?B jk] body by (auto simp: raw_def)
  obtain z3 where z3: "ziplistPush jk z2 ?C False = Some z3" "zrep z3 [(False, zbody ?A), (True, zbody ?B), (True, zbody ?C)]"
    using push_tail_rep [OF z2(2), of ?C jk] body bC by (auto simp: raw_def)
  obtain c where c: "cnt_ok c 3" "z3 = hdr (11 + raws [(False, zbody ?A), (True, zbody ?B), (True, zbody ?C)])
      (tailoff [(False, zbody ?A), (True, zbody ?B), (True, zbody ?C)]) c @ flat 0 [(False, zbody ?A), (True, zbody ?B), (True, zbody ?C)] @ [255]"
    "zok 0 [(False, zbody ?A), (True, zbody ?B), (True, zbody ?C)]"
    using zrep_parts [OF z3(2)] by (metis (no_types, lifting) length_Cons list.size(3) numeral_3_eq_3)
  have "\<exists>zl'. ziplistDelete_gen jk (hdr (11 + raws ([] @ [(False, zbody ?A)] @ (True, zbody ?B) # [(True, zbody ?C)]))
      (tailoff ([] @ [(False, zbody ?A)] @ (True, zbody ?B) # [(True, zbody ?C)])) c @
      flat 0 ([] @ [(False, zbody ?A)] @ (True, zbody ?B) # [(True, zbody ?C)]) @ [255]) (10 + raws []) 1 = Some zl' \<and>
      zrep zl' ([] @ fixnext 0 ((True, zbody ?B) # [(True, zbody ?C)]))"
  proof (rule delete_middle)
    show "cnt_ok c (length ([] @ [(False, zbody ?A)] @ (True, zbody ?B) # [(True, zbody ?C)]))" using c(1) by (simp add: eval_nat_numeral)
  qed (use c(3) body(3,4) bC in \<open>simp_all add: raw_def\<close>)
  then have "\<exists>zl'. ziplistDelete_gen jk z3 10 1 = Some zl' \<and> zrep zl' [(False, zbody ?B), (True, zbody ?C)]"
    using c(2) body(4) by (simp only: append_Nil append_Cons raws_simps add_0_right fixnext.simps casc.simps snd_conv fst_conv) simp
  then obtain z4 where z4: "ziplistDelete_gen jk z3 10 1 = Some z4" "zrep z4 [(False, zbody ?B), (True, zbody ?C)]" by blast
  have i0: "ziplistIndex z3 0 = Some (Some 10)" using index_ok [OF z3(2), of 0] by (simp add: idx_of_def)
  have i1: "ziplistIndex z4 1 = Some (Some (zpos [(False, zbody ?B), (True, zbody ?C)] 1))"
    using index_ok [OF z4(2), of 1] by (simp add: idx_of_def)
  have "ziplistInsert_gen jk z4 (zpos [(False, zbody ?B), (True, zbody ?C)] 1) [49] = None"
    by (rule insert_shrink_fails [OF z4(2)]) (use body bC in \<open>simp_all add: raw_def\<close>)
  then show ?thesis using z0 z1 z2 z3 z4 i0 i1 unfolding ziplistInsert_def ziplistDelete_def
    by (intro exI [of _ z4] exI [of _ "zpos [(False, zbody ?B), (True, zbody ?C)] 1"]) simp
qed

text \<open>Which entries \<open>find_from\<close> compares.\<close>

definition zhit :: "nat \<Rightarrow> nat \<Rightarrow> nat \<Rightarrow> bool" where
  "zhit skip cnt j \<longleftrightarrow> cnt \<le> j \<and> (j - cnt) mod (skip + 1) = 0"

lemma zhit_Suc: "zhit skip cnt (Suc j) \<longleftrightarrow> zhit skip (if cnt = 0 then skip else cnt - 1) j"
proof (cases "cnt = 0")
  case True
  show ?thesis
  proof (cases "skip \<le> j")
    case le: True
    then have "Suc j = (j - skip) + (skip + 1)" by simp
    then have "Suc j mod (skip + 1) = (j - skip) mod (skip + 1)" by (metis mod_add_self2)
    then show ?thesis using True le by (simp add: zhit_def)
  next
    case False
    then show ?thesis using True by (simp add: zhit_def)
  qed
qed (auto simp: zhit_def)

lemma zhit_0: "zhit skip cnt 0 \<longleftrightarrow> cnt = 0"
  by (auto simp: zhit_def)

lemma find_from_spec:
  "cnt \<le> skip \<Longrightarrow> case find_from v skip cnt ss of
       None \<Rightarrow> (\<forall>j<length ss. zhit skip cnt j \<longrightarrow> ss ! j \<noteq> v)
     | Some j \<Rightarrow> j < length ss \<and> zhit skip cnt j \<and> ss ! j = v \<and> (\<forall>k<j. zhit skip cnt k \<longrightarrow> ss ! k \<noteq> v)"
proof (induction ss arbitrary: cnt)
  case (Cons s ss)
  let ?c = "if cnt = 0 then skip else cnt - 1"
  have f: "find_from v skip cnt (s # ss) = (if cnt = 0 \<and> s = v then Some 0 else map_option Suc (find_from v skip ?c ss))" by simp
  have "?c \<le> skip" using Cons.prems by auto
  note IH = Cons.IH [OF this]
  show ?case
  proof (cases "cnt = 0 \<and> s = v")
    case True
    then show ?thesis by (simp add: zhit_0)
  next
    case False
    show ?thesis using IH False unfolding f
      by (cases "find_from v skip ?c ss") (simp_all add: zhit_0 zhit_Suc All_less_Suc2 del: find_from.simps, auto)
  qed
qed simp

text \<open>
  Search: \<open>ziplistFind\<close> from the first entry, skipping \<open>skip\<close> entries between two
  comparisons, returns the position of the first entry at a multiple of \<open>skip + 1\<close> that is
  the given string, and \<open>ziplistCompare\<close> there holds; it returns nothing when no such entry
  exists.
\<close>

lemma ziplistFind_finds:
  assumes "zlist zl ss"
  shows "case find_from v skip 0 ss of
       None \<Rightarrow> ziplistFind zl ZIPLIST_HEADER_SIZE v skip = Some None \<and> (\<forall>j<length ss. j mod (skip + 1) = 0 \<longrightarrow> ss ! j \<noteq> v)
     | Some j \<Rightarrow> (\<exists>p. ziplistFind zl ZIPLIST_HEADER_SIZE v skip = Some (Some p) \<and> ziplistIndex zl (int j) = Some (Some p) \<and>
         ziplistCompare zl p v = Some True \<and> j mod (skip + 1) = 0 \<and> ss ! j = v \<and> (\<forall>k<j. k mod (skip + 1) = 0 \<longrightarrow> ss ! k \<noteq> v))"
proof -
  obtain es where z: "zrep zl es" "map snd es = map zbody ss" and sh: "\<forall>s\<in>set ss. length s < 2 ^ 32" using assms by (auto simp: zlist_def)
  have l: "length es = length ss" using z(2) by (metis length_map)
  have f: "ziplistFind zl ZIPLIST_HEADER_SIZE v skip = Some (map_option (zpos es) (find_from v skip 0 ss))"
    using find_loop_ok [OF z sh, where i = 0 and v = v and venc = 0 and vll = 0 and skip = skip and cnt = 0] by (simp add: ziplistFind_def zip_consts venc_ok_def)
  show ?thesis
  proof (cases "find_from v skip 0 ss")
    case None
    then show ?thesis using f find_from_spec [where cnt = 0 and skip = skip and v = v and ss = ss] by (simp add: zhit_def)
  next
    case (Some j)
    then have h: "j < length ss" "j mod (skip + 1) = 0" "ss ! j = v" "\<forall>k<j. k mod (skip + 1) = 0 \<longrightarrow> ss ! k \<noteq> v"
      using find_from_spec [where cnt = 0 and skip = skip and v = v and ss = ss] by (simp_all add: zhit_def)
    have "ziplistIndex zl (int j) = Some (Some (zpos es j))" using index_ok [OF z(1), of "int j"] h(1) l by (simp add: idx_of_def)
    moreover have "ziplistCompare zl (zpos es j) v = Some True"
      using compare_ok [OF z(1), of j v v] zlist_nth [OF z(2), of j] h(1,3) sh l by auto
    ultimately show ?thesis using f Some h by simp
  qed
qed

end
