(* ===== verification/Glob.thy ===== *)
theory Glob
  imports Prelude
begin

text \<open>
  The glob matcher \<open>stringmatchlen\<close> of \<open>util.c\<close>, used for key patterns and for pattern
  subscriptions.  The model works on the two buffers with their terminators, with pointers
  as offsets and the signed lengths of the code; a read outside a buffer is \<open>None\<close>, and so
  is a loop that does not end.  The reference semantics parses a pattern into tokens and
  matches tokens against a string.
\<close>

section \<open>The matcher\<close>

text \<open>\<open>char\<close> is signed; \<open>tolower\<close> of the C locale.\<close>

definition schar :: "byte \<Rightarrow> int" where "schar c = sint c"

definition tolower_int :: "int \<Rightarrow> int" where
  "tolower_int i = (if 65 \<le> i \<and> i \<le> 90 then i + 32 else i)"

definition chr_eq :: "bool \<Rightarrow> byte \<Rightarrow> byte \<Rightarrow> bool" where
  "chr_eq nocase a b = (if \<not> nocase then a = b else tolower_int (schar a) = tolower_int (schar b))"

text \<open>The range test of a character class.\<close>

definition in_range :: "bool \<Rightarrow> byte \<Rightarrow> byte \<Rightarrow> byte \<Rightarrow> bool" where
  "in_range nocase fst_c lst_c ch =
     (let s = schar fst_c; e = schar lst_c; c = schar ch;
          (s, e) = (if s > e then (e, s) else (s, e));
          (s, e, c) = (if nocase then (tolower_int s, tolower_int e, tolower_int c) else (s, e, c))
      in c \<ge> s \<and> c \<le> e)"

text \<open>The loop over a character class; the result is the state at its \<open>break\<close>.\<close>

function cls_loop :: "bytes \<Rightarrow> bytes \<Rightarrow> nat \<Rightarrow> bool \<Rightarrow> nat \<Rightarrow> int \<Rightarrow> bool \<Rightarrow> (nat \<times> int \<times> bool) option" where
  "cls_loop pat str s nocase p pl m =
     (case rd pat p of
        None \<Rightarrow> None
      | Some c \<Rightarrow>
          if c = 92 then
            (case rd pat (p + 1) of None \<Rightarrow> None | Some c1 \<Rightarrow>
             case rd str s of None \<Rightarrow> None | Some s0 \<Rightarrow>
             cls_loop pat str s nocase (p + 2) (pl - 2) (m \<or> c1 = s0))
          else if c = 93 then Some (p, pl, m)
          else if pl = 0 then (if p = 0 then None else Some (p - 1, pl + 1, m))
          else
            (case rd pat (p + 1) of None \<Rightarrow> None | Some c1 \<Rightarrow>
             if c1 = 45 \<and> pl \<ge> 3 then
               (case rd pat (p + 2) of None \<Rightarrow> None | Some c2 \<Rightarrow>
                case rd str s of None \<Rightarrow> None | Some s0 \<Rightarrow>
                cls_loop pat str s nocase (p + 3) (pl - 3) (m \<or> in_range nocase c c2 s0))
             else
               (case rd str s of None \<Rightarrow> None | Some s0 \<Rightarrow>
                cls_loop pat str s nocase (p + 1) (pl - 1) (m \<or> chr_eq nocase c s0))))"
  by pat_completeness auto
termination
  by (relation "measure (\<lambda>(pat, str, s, nocase, p, pl, m). length pat - p)")
    (auto simp: rd_def split: if_splits)

declare cls_loop.simps [simp del]

text \<open>
  One round of the \<open>switch\<close> for everything but a star: the state after it, or \<open>None\<close> inside
  for \<open>return 0\<close>.
\<close>

definition match_token :: "bytes \<Rightarrow> bytes \<Rightarrow> bool \<Rightarrow> nat \<Rightarrow> int \<Rightarrow> nat \<Rightarrow> int \<Rightarrow> (nat \<times> int \<times> nat \<times> int) option option" where
  "match_token pat str nocase p pl s sl =
     do {
       c \<leftarrow> rd pat p;
       if c = 63 then Some (if sl = 0 then None else Some (p, pl, s + 1, sl - 1))
       else if c = 91 then do {
         let (p, pl) = (p + 1, pl - 1);
         c \<leftarrow> rd pat p;
         let neg = (c = 94);
         let (p, pl) = (if neg then (p + 1, pl - 1) else (p, pl));
         (p, pl, m) \<leftarrow> cls_loop pat str s nocase p pl False;
         let m = (if neg then \<not> m else m);
         Some (if \<not> m then None else Some (p, pl, s + 1, sl - 1))
       }
       else do {
         let (p, pl) = (if c = 92 \<and> pl \<ge> 2 then (p + 1, pl - 1) else (p, pl));
         c \<leftarrow> rd pat p;
         s0 \<leftarrow> rd str s;
         Some (if \<not> chr_eq nocase c s0 then None else Some (p, pl, s + 1, sl - 1))
       }
     }"

text \<open>\<open>while (pattern[1] == '*')\<close> and \<open>while (*pattern == '*')\<close>: skip stars from an offset on.\<close>

function skip_stars :: "bytes \<Rightarrow> nat \<Rightarrow> nat \<Rightarrow> (nat \<times> nat) option" where
  "skip_stars pat p n =
     (case rd pat p of
        None \<Rightarrow> None
      | Some c \<Rightarrow> if c = 42 then skip_stars pat (p + 1) (n + 1) else Some (p, n))"
  by pat_completeness auto
termination
  by (relation "measure (\<lambda>(pat, p, n). length pat - p)") (auto simp: rd_def split: if_splits)

declare skip_stars.simps [simp del]

text \<open>
  The function itself.  With \<open>star\<close> it is at the loop over the start positions of the rest
  of the pattern behind a star, otherwise at the head of the main loop.
\<close>

partial_function (option) stringmatch_loop ::
  "bytes \<Rightarrow> bytes \<Rightarrow> bool \<Rightarrow> bool \<Rightarrow> nat \<Rightarrow> int \<Rightarrow> nat \<Rightarrow> int \<Rightarrow> bool option" where
  [code]: "stringmatch_loop pat str nocase star p pl s sl =
     (if star then
        (if sl = 0 then Some False
         else stringmatch_loop pat str nocase False (p + 1) (pl - 1) s sl \<bind> (\<lambda>r.
              if r then Some True
              else stringmatch_loop pat str nocase True p pl (s + 1) (sl - 1)))
      else if pl = 0 then Some (sl = 0)
      else rd pat p \<bind> (\<lambda>c.
        if c = 42 then
          skip_stars pat (p + 1) 0 \<bind> (\<lambda>(q, n).
          if pl - int n = 1 then Some True
          else stringmatch_loop pat str nocase True (p + n) (pl - int n) s sl)
        else match_token pat str nocase p pl s sl \<bind> (\<lambda>r.
          case r of
            None \<Rightarrow> Some False
          | Some (p, pl, s, sl) \<Rightarrow>
              if sl = 0 then
                skip_stars pat (p + 1) 0 \<bind> (\<lambda>(q, n). Some (pl - 1 - int n = 0))
              else stringmatch_loop pat str nocase False (p + 1) (pl - 1) s sl)))"

text \<open>The lengths are passed as \<open>int\<close>; the buffers end with the terminator of the string.\<close>

definition stringmatchlen :: "bytes \<Rightarrow> bytes \<Rightarrow> bool \<Rightarrow> bool option" where
  "stringmatchlen pattern string nocase =
     stringmatch_loop (pattern @ [0]) (string @ [0]) nocase False
       0 (sgn_of 32 (length pattern)) 0 (sgn_of 32 (length string))"

section \<open>The reference semantics\<close>

datatype citem = CEsc byte | CChr byte | CRange byte byte

datatype gtok = GStar | GAny | GLit byte | GCls bool "citem list"

text \<open>The ends of a range may be given in either order; without case every byte is folded.\<close>

definition fold_case :: "bool \<Rightarrow> int \<Rightarrow> int" where
  "fold_case nocase i = (if nocase then tolower_int i else i)"

fun citem_ok :: "bool \<Rightarrow> citem \<Rightarrow> byte \<Rightarrow> bool" where
  "citem_ok nocase (CEsc c) x \<longleftrightarrow> c = x"
| "citem_ok nocase (CChr c) x \<longleftrightarrow> chr_eq nocase c x"
| "citem_ok nocase (CRange a b) x \<longleftrightarrow>
     fold_case nocase (min (schar a) (schar b)) \<le> fold_case nocase (schar x) \<and>
     fold_case nocase (schar x) \<le> fold_case nocase (max (schar a) (schar b))"

lemma in_range_iff: "in_range nocase a b x = citem_ok nocase (CRange a b) x"
  by (simp add: in_range_def fold_case_def min_def max_def Let_def)

text \<open>The items of a class up to its bracket, or to the end of the pattern, and the rest.\<close>

fun parse_cls :: "bytes \<Rightarrow> (citem list \<times> bytes) option" where
  "parse_cls [] = Some ([], [])"
| "parse_cls [c] = (if c = 92 then None else if c = 93 then Some ([], []) else Some ([CChr c], []))"
| "parse_cls [c, d] =
     (if c = 92 then Some ([CEsc d], [])
      else if c = 93 then Some ([], [d])
      else map_option (\<lambda>(is, r). (CChr c # is, r)) (parse_cls [d]))"
| "parse_cls (c # d # e # r) =
     (if c = 92 then map_option (\<lambda>(is, r). (CEsc d # is, r)) (parse_cls (e # r))
      else if c = 93 then Some ([], d # e # r)
      else if d = 45 then map_option (\<lambda>(is, r). (CRange c e # is, r)) (parse_cls r)
      else map_option (\<lambda>(is, r). (CChr c # is, r)) (parse_cls (d # e # r)))"

lemma parse_cls_suffix: "parse_cls q = Some (is, r) \<Longrightarrow> \<exists>u. q = u @ r"
proof (induction q arbitrary: "is" r rule: parse_cls.induct)
  case (4 c d e q)
  consider "c = 92" | "c = 93" | "c \<noteq> 92" "c \<noteq> 93" "d = 45" | "c \<noteq> 92" "c \<noteq> 93" "d \<noteq> 45" by blast
  then show ?case
  proof cases
    case 1
    then show ?thesis using "4.prems" "4.IH"(1) by (force intro: exI [of _ "c # d # _"])
  next
    case 3
    then show ?thesis using "4.prems" "4.IH"(2) by (force intro: exI [of _ "c # d # e # _"])
  next
    case c: 4
    then obtain is' where "parse_cls (d # e # q) = Some (is', r)" using "4.prems" by auto
    then obtain u where "d # e # q = u @ r" using "4.IH"(3) [OF c] by blast
    then show ?thesis by (intro exI [of _ "c # u"]) simp
  qed (use "4.prems" in auto)
qed (auto split: if_splits)

lemma parse_cls_length: "parse_cls q = Some (is, r) \<Longrightarrow> length r \<le> length q"
  using parse_cls_suffix by fastforce

function parse_glob :: "bytes \<Rightarrow> gtok list option" where
  "parse_glob [] = Some []"
| "parse_glob (c # r) =
     (if c = 42 then map_option ((#) GStar) (parse_glob r)
      else if c = 63 then map_option ((#) GAny) (parse_glob r)
      else if c = 91 then
        (let neg = (r \<noteq> [] \<and> hd r = 94); r' = (if neg then tl r else r) in
         case parse_cls r' of
           None \<Rightarrow> None
         | Some (is, q) \<Rightarrow> map_option ((#) (GCls neg is)) (parse_glob q))
      else if c = 92 \<and> r \<noteq> [] then map_option ((#) (GLit (hd r))) (parse_glob (tl r))
      else map_option ((#) (GLit c)) (parse_glob r))"
  by pat_completeness auto
termination
  by (relation "measure length") (auto dest!: parse_cls_length split: if_splits)

declare parse_glob.simps(2) [simp del]

fun tok_ok :: "bool \<Rightarrow> gtok \<Rightarrow> byte \<Rightarrow> bool" where
  "tok_ok nocase GStar x \<longleftrightarrow> False"
| "tok_ok nocase GAny x \<longleftrightarrow> True"
| "tok_ok nocase (GLit c) x \<longleftrightarrow> chr_eq nocase c x"
| "tok_ok nocase (GCls neg is) x \<longleftrightarrow> (\<exists>it\<in>set is. citem_ok nocase it x) \<noteq> neg"

text \<open>A star stands for any number of bytes, every other token for one.\<close>

fun gmatch :: "bool \<Rightarrow> gtok list \<Rightarrow> bytes \<Rightarrow> bool" where
  "gmatch nocase [] s \<longleftrightarrow> s = []"
| "gmatch nocase (t # ts) [] \<longleftrightarrow> t = GStar \<and> gmatch nocase ts []"
| "gmatch nocase (t # ts) (x # s) \<longleftrightarrow>
     (if t = GStar then gmatch nocase ts (x # s) \<or> gmatch nocase (t # ts) s
      else tok_ok nocase t x \<and> gmatch nocase ts s)"

section \<open>Agreement\<close>

lemma rd_here: "rd (pre @ x # r) (length pre) = Some x"
  by (simp add: rd_def)

lemma rd_next: "rd (pre @ x # y # r) (length pre + 1) = Some y"
  by (simp add: rd_def nth_append)

lemma rd_next2: "rd (pre @ x # y # z # r) (length pre + 2) = Some z"
  by (simp add: rd_def nth_append)

lemma cls_loop_parse:
  assumes "parse_cls q = Some (its, r)" "rd str s = Some s0" "0 < length pre"
  shows "\<exists>p pl. cls_loop (pre @ q @ [0]) str s nocase (length pre) (int (length q)) m =
       Some (p, pl, m \<or> (\<exists>it\<in>set its. citem_ok nocase it s0)) \<and>
     p + 1 + length r = length pre + length q \<and> pl = int (length r) + 1"
  using assms(1,3)
proof (induction q arbitrary: pre m its r rule: parse_cls.induct)
  case 1
  then show ?case using rd_here [of pre 0 "[]"] by (subst cls_loop.simps) auto
next
  case (2 c)
  show ?case
  proof (cases "c = 93")
    case True
    then show ?thesis using "2.prems" rd_here [of pre c "[0]"] by (subst cls_loop.simps) auto
  next
    case False
    then have c: "c \<noteq> 92" "its = [CChr c]" "r = []" using "2.prems" by (auto split: if_splits)
    have e: "cls_loop (pre @ [c, 0]) str s nocase (length pre + 1) 0 m' = Some (length pre, 1, m')" for m'
      using rd_next [of pre c 0 "[]"] by (subst cls_loop.simps) simp
    show ?thesis using c False rd_here [of pre c "[0]"] rd_next [of pre c 0 "[]"] assms(2) e
      by (subst cls_loop.simps) simp
  qed
next
  case (3 c d)
  consider "c = 92" | "c = 93" | "c \<noteq> 92" "c \<noteq> 93" by blast
  then show ?case
  proof cases
    case 1
    then have c: "its = [CEsc d]" "r = []" using "3.prems" by auto
    have e: "cls_loop (pre @ [c, d, 0]) str s nocase (length pre + 2) 0 m' = Some (length pre + 1, 1, m')" for m'
      using rd_next2 [of pre c d 0 "[]"] by (subst cls_loop.simps) simp
    show ?thesis using 1 c e rd_here [of pre c "[d, 0]"] rd_next [of pre c d "[0]"] assms(2)
      by (subst cls_loop.simps) (auto simp del: One_nat_def)
  next
    case 2
    then show ?thesis using "3.prems" rd_here [of pre c "[d, 0]"] by (subst cls_loop.simps) auto
  next
    case n: 3
    then obtain its' where i: "parse_cls [d] = Some (its', r)" "its = CChr c # its'" using "3.prems" by auto
    have IH: "\<exists>p pl. cls_loop ((pre @ [c]) @ [d] @ [0]) str s nocase (length (pre @ [c])) (int (length [d])) m' =
       Some (p, pl, m' \<or> (\<exists>it\<in>set its'. citem_ok nocase it s0)) \<and>
     p + 1 + length r = length (pre @ [c]) + length [d] \<and> pl = int (length r) + 1" for m'
      using "3.IH" [OF n i(1), of "pre @ [c]" m'] by simp
    show ?thesis using n i(2) IH [of "m \<or> chr_eq nocase c s0"] rd_here [of pre c "[d, 0]"] rd_next [of pre c d "[0]"] assms(2)
      by (subst cls_loop.simps) (auto simp: disj_assoc)
  qed
next
  case (4 c d e q)
  consider "c = 92" | "c = 93" | "c \<noteq> 92" "c \<noteq> 93" "d = 45" | "c \<noteq> 92" "c \<noteq> 93" "d \<noteq> 45" by blast
  then show ?case
  proof cases
    case 1
    then obtain its' where i: "parse_cls (e # q) = Some (its', r)" "its = CEsc d # its'" using "4.prems" by auto
    show ?thesis using 1 i(2) "4.IH"(1) [OF 1 i(1), of "pre @ [c, d]" "m \<or> d = s0"]
        rd_here [of pre c "d # e # q @ [0]"] rd_next [of pre c d "e # q @ [0]"] assms(2)
      by (subst cls_loop.simps) (auto simp: disj_assoc)
  next
    case 2
    then show ?thesis using "4.prems" rd_here [of pre c "d # e # q @ [0]"] by (subst cls_loop.simps) auto
  next
    case n: 3
    then obtain its' where i: "parse_cls q = Some (its', r)" "its = CRange c e # its'" using "4.prems" by auto
    show ?thesis using n i(2) "4.IH"(2) [OF n i(1), of "pre @ [c, d, e]" "m \<or> in_range nocase c e s0"]
        rd_here [of pre c "d # e # q @ [0]"] rd_next [of pre c d "e # q @ [0]"] rd_next2 [of pre c d e "q @ [0]"] assms(2)
      by (subst cls_loop.simps) (auto simp: disj_assoc numeral_3_eq_3 in_range_iff)
  next
    case n: 4
    then obtain its' where i: "parse_cls (d # e # q) = Some (its', r)" "its = CChr c # its'" using "4.prems" by auto
    show ?thesis using n i(2) "4.IH"(3) [OF n i(1), of "pre @ [c]" "m \<or> chr_eq nocase c s0"]
        rd_here [of pre c "d # e # q @ [0]"] rd_next [of pre c d "e # q @ [0]"] assms(2)
      by (subst cls_loop.simps) (auto simp: disj_assoc)
  qed
qed

lemma skip_stars_ok:
  "\<exists>n. skip_stars (pre @ q @ [0]) (length pre) k = Some (length pre + n, k + n) \<and> n \<le> length q \<and>
     take n q = replicate n 42 \<and> (n < length q \<longrightarrow> q ! n \<noteq> 42)"
proof (induction q arbitrary: pre k)
  case Nil
  then show ?case using rd_here [of pre 0 "[]"] by (subst skip_stars.simps) simp
next
  case (Cons c q)
  show ?case
  proof (cases "c = 42")
    case True
    obtain n where "skip_stars ((pre @ [c]) @ q @ [0]) (length (pre @ [c])) (k + 1) = Some (length (pre @ [c]) + n, k + 1 + n)"
      "n \<le> length q" "take n q = replicate n 42" "n < length q \<longrightarrow> q ! n \<noteq> 42" using Cons.IH [of "pre @ [c]" "k + 1"] by blast
    then show ?thesis using True rd_here [of pre c "q @ [0]"]
      by (subst skip_stars.simps) (auto intro!: exI [of _ "Suc n"])
  next
    case False
    then show ?thesis using rd_here [of pre c "q @ [0]"] by (subst skip_stars.simps) auto
  qed
qed

lemma parse_stars: "parse_glob (replicate n 42 @ q) = map_option ((@) (replicate n GStar)) (parse_glob q)"
  by (induction n) (auto simp: parse_glob.simps(2) option.map_comp comp_def option.map_ident)

lemma gmatch_star: "gmatch nocase (GStar # ts) s \<longleftrightarrow> (\<exists>k\<le>length s. gmatch nocase ts (drop k s))"
proof (induction s)
  case (Cons x s)
  have "(\<exists>k\<le>length (x # s). gmatch nocase ts (drop k (x # s))) \<longleftrightarrow> gmatch nocase ts (x # s) \<or> (\<exists>k\<le>length s. gmatch nocase ts (drop k s))"
    by (metis Suc_le_mono drop0 drop_Suc_Cons length_Cons not0_implies_Suc zero_le)
  then show ?case using Cons by simp
qed simp

lemma gmatch_stars: "gmatch nocase (replicate n GStar @ GStar # ts) s \<longleftrightarrow> gmatch nocase (GStar # ts) s"
proof (induction n arbitrary: s)
  case (Suc n)
  have "gmatch nocase (GStar # replicate n GStar @ GStar # ts) s \<longleftrightarrow> (\<exists>k\<le>length s. \<exists>j\<le>length s - k. gmatch nocase ts (drop j (drop k s)))"
    unfolding gmatch_star Suc.IH by simp
  also have "\<dots> \<longleftrightarrow> (\<exists>k\<le>length s. gmatch nocase ts (drop k s))"
  proof
    assume "\<exists>k\<le>length s. \<exists>j\<le>length s - k. gmatch nocase ts (drop j (drop k s))"
    then obtain k j where "k \<le> length s" "j \<le> length s - k" "gmatch nocase ts (drop (j + k) s)" by auto
    moreover from this have "j + k \<le> length s" by simp
    ultimately show "\<exists>k\<le>length s. gmatch nocase ts (drop k s)" by blast
  qed (metis diff_zero drop0 drop_0 le0)
  finally show ?case using gmatch_star by simp
qed simp

text \<open>A token list that does not start with a star matches no empty string.\<close>

lemma gmatch_stars_Nil: "gmatch nocase (replicate n GStar @ ts) [] \<longleftrightarrow> gmatch nocase ts []"
  by (induction n) auto

lemma parse_nonstar: "parse_glob (c # q) = Some ts \<Longrightarrow> c \<noteq> 42 \<Longrightarrow> \<exists>t ts'. ts = t # ts' \<and> t \<noteq> GStar"
  by (auto simp: parse_glob.simps(2) Let_def split: if_splits option.splits)

text \<open>One round on a token that is no star.\<close>

lemma match_token_gen:
  assumes "parse_glob (c # q) = Some (t # ts)" "c \<noteq> 42" "rd str s = Some x" "sl \<noteq> 0 \<or> t \<noteq> GAny"
  shows "\<exists>u r p pl. parse_glob r = Some ts \<and> c # q = u @ r \<and> u \<noteq> [] \<and> p + 1 + length r = length pre + Suc (length q) \<and> pl = int (length r) + 1 \<and>
     match_token (pre @ (c # q) @ [0]) str nocase (length pre) (int (Suc (length q))) s sl =
     Some (if tok_ok nocase t x then Some (p, pl, s + 1, sl - 1) else None)"
    (is "\<exists>u r p pl. ?Q u r p pl")
proof -
  let ?P = "pre @ (c # q) @ [0]"
  have r0: "rd ?P (length pre) = Some c" "rd str s = Some x" using assms(3) by (simp_all add: rd_def)
  consider "c = 63" | "c = 91" | "c = 92" "q \<noteq> []" | "c \<noteq> 63" "c \<noteq> 91" "\<not> (c = 92 \<and> q \<noteq> [])" by blast
  then show ?thesis
  proof cases
    case 1
    then have "t = GAny" "parse_glob q = Some ts" using assms by (auto simp: parse_glob.simps(2))
    then have "?Q ([c]) q (length pre) (int (length q) + 1)" using 1 r0 assms(4) by (simp add: match_token_def)
    then show ?thesis by blast
  next
    case 2
    let ?neg = "q \<noteq> [] \<and> hd q = 94"
    let ?r = "if ?neg then tl q else q"
    obtain its r where pc: "parse_cls ?r = Some (its, r)" "t = GCls ?neg its" "parse_glob r = Some ts"
      using assms 2 by (auto simp: parse_glob.simps(2) Let_def split: option.splits if_splits)
    let ?pre = "pre @ c # (if ?neg then [94] else [])"
    have P: "?P = ?pre @ ?r @ [0]" by (cases q) auto
    have rc: "rd ?P (length pre + 1) = Some (hd (q @ [0]))" by (cases q) (simp_all add: rd_def nth_append)
    then have neg: "(hd (q @ [0]) = 94) = ?neg" by (cases q) auto
    obtain p pl where cl: "cls_loop ?P str s nocase (length ?pre) (int (length ?r)) False =
        Some (p, pl, False \<or> (\<exists>it\<in>set its. citem_ok nocase it x))" "p + 1 + length r = length ?pre + length ?r" "pl = int (length r) + 1"
      using cls_loop_parse [OF pc(1) r0(2), of ?pre nocase False] unfolding P by auto
    have off: "(if ?neg then (length pre + 1 + 1, int (Suc (length q)) - 1 - 1) else (length pre + 1, int (Suc (length q)) - 1)) = (length ?pre, int (length ?r))"
      by (cases q) auto
    have c91: "(c = 63) = False" "(c = 91) = True" using 2 by simp_all
    have tok: "tok_ok nocase t x = (if ?neg then \<not> (False \<or> (\<exists>it\<in>set its. citem_ok nocase it x)) else False \<or> (\<exists>it\<in>set its. citem_ok nocase it x))"
      using pc(2) by simp
    have lr: "length ?pre + length ?r = length pre + Suc (length q)" by (cases q) auto
    obtain u where u: "?r = u @ r" using parse_cls_suffix [OF pc(1)] by blast
    have le: "c # q = (c # (if ?neg then [94] else []) @ u) @ r" using u by (cases q) auto
    have "match_token ?P str nocase (length pre) (int (Suc (length q))) s sl =
      Some (if tok_ok nocase t x then Some (p, pl, s + 1, sl - 1) else None)"
      unfolding match_token_def tok
      by (simp only: r0(1) rc neg c91 off cl(1) Option.bind.simps Let_def prod.case if_True if_False) (simp del: disj_not1 disj_not2)
    moreover have "p + 1 + length r = length pre + Suc (length q)" using cl(2) lr by simp
    moreover have "c # (if ?neg then [94] else []) @ u \<noteq> []" by simp
    ultimately have "?Q (c # (if ?neg then [94] else []) @ u) r p pl" using pc(3) le cl(3) by blast
    then show ?thesis by blast
  next
    case 3
    then obtain d q' where q: "q = d # q'" by (cases q) auto
    have t: "t = GLit d" "parse_glob q' = Some ts" using assms 3 q by (auto simp: parse_glob.simps(2))
    have "rd ?P (length pre + 1) = Some d" using q by (simp add: rd_def nth_append)
    then have "?Q ([c, d]) q' (length pre + 1) (int (length q') + 1)" using 3 r0 t q by (simp add: match_token_def)
    then show ?thesis by blast
  next
    case 4
    then have t: "t = GLit c" "parse_glob q = Some ts" using assms by (auto simp: parse_glob.simps(2))
    have "\<not> (c = 92 \<and> int (Suc (length q)) \<ge> 2)" using 4(3) by (cases q) auto
    then have "?Q ([c]) q (length pre) (int (length q) + 1)" using 4(1,2) r0 t by (auto simp: match_token_def)
    then show ?thesis by blast
  qed
qed

lemma match_token_ok:
  assumes "parse_glob (c # q) = Some (t # ts)" "c \<noteq> 42"
  shows "\<exists>u r p pl. parse_glob r = Some ts \<and> c # q = u @ r \<and> u \<noteq> [] \<and> p + 1 + length r = length pre + Suc (length q) \<and> pl = int (length r) + 1 \<and>
     match_token (pre @ (c # q) @ [0]) (spre @ (x # s) @ [0]) nocase (length pre) (int (Suc (length q))) (length spre) (int (Suc (length s))) =
     Some (if tok_ok nocase t x then Some (p, pl, length spre + 1, int (length s)) else None)"
proof -
  have "rd (spre @ (x # s) @ [0]) (length spre) = Some x" using rd_here [of spre x "s @ [0]"] by simp
  moreover have "int (Suc (length s)) - 1 = int (length s)" "int (Suc (length s)) \<noteq> 0 \<or> t \<noteq> GAny" by simp_all
  ultimately show ?thesis using match_token_gen [OF assms, of "spre @ (x # s) @ [0]" "length spre" x "int (Suc (length s))" pre nocase] by metis
qed

lemma star_loop_ok:
  assumes "\<And>spre s. S = spre @ s @ [0] \<Longrightarrow> s \<noteq> [] \<Longrightarrow>
      stringmatch_loop P S nocase False (p + 1) (pl - 1) (length spre) (int (length s)) = Some (gmatch nocase ts s)"
    and "S = spre @ s @ [0]"
  shows "stringmatch_loop P S nocase True p pl (length spre) (int (length s)) = Some (\<exists>k<length s. gmatch nocase ts (drop k s))"
  using assms(2)
proof (induction s arbitrary: spre)
  case Nil
  then show ?case by (subst stringmatch_loop.simps) simp
next
  case (Cons x s)
  have 1: "stringmatch_loop P S nocase False (p + 1) (pl - 1) (length spre) (int (length (x # s))) = Some (gmatch nocase ts (x # s))"
    using assms(1) [OF Cons.prems] by simp
  have 2: "stringmatch_loop P S nocase True p pl (length (spre @ [x])) (int (length s)) = Some (\<exists>k<length s. gmatch nocase ts (drop k s))"
    by (rule Cons.IH) (use Cons.prems in simp)
  have "(\<exists>k<length (x # s). gmatch nocase ts (drop k (x # s))) \<longleftrightarrow> gmatch nocase ts (x # s) \<or> (\<exists>k<length s. gmatch nocase ts (drop k s))"
    by (auto simp: Ex_less_Suc2)
  then show ?case using 1 2 by (subst stringmatch_loop.simps) simp
qed

lemma star_step:
  assumes "rd P p = Some 42" "pl \<noteq> 0" "skip_stars P (p + 1) 0 = Some (q, n)"
  shows "stringmatch_loop P S nocase False p pl s sl =
     (if pl - int n = 1 then Some True else stringmatch_loop P S nocase True (p + n) (pl - int n) s sl)"
  using assms by (subst stringmatch_loop.simps) simp

lemma token_step:
  assumes "rd P p = Some c" "c \<noteq> 42" "pl \<noteq> 0" "match_token P S nocase p pl s sl = Some (if b then Some (p', pl', s', sl') else None)"
  shows "stringmatch_loop P S nocase False p pl s sl =
     (if \<not> b then Some False
      else if sl' = 0 then skip_stars P (p' + 1) 0 \<bind> (\<lambda>(q, n). Some (pl' - 1 - int n = 0))
      else stringmatch_loop P S nocase False (p' + 1) (pl' - 1) s' sl')"
  using assms by (subst stringmatch_loop.simps) simp

lemma stars_split:
  "take n q = replicate n 42 \<Longrightarrow> parse_glob q = Some ts \<Longrightarrow>
     \<exists>ts'. parse_glob (drop n q) = Some ts' \<and> ts = replicate n GStar @ ts'"
  using parse_stars [of n "drop n q"] by (metis (no_types, opaque_lifting) append_take_drop_id map_option_eq_Some)

lemma stringmatch_loop_ok:
  assumes "parse_glob q = Some ts" "s \<noteq> []"
  shows "stringmatch_loop (pre @ q @ [0]) (spre @ s @ [0]) nocase False (length pre) (int (length q)) (length spre) (int (length s)) =
     Some (gmatch nocase ts s)"
  using assms
proof (induction "length q" arbitrary: q ts s pre spre rule: less_induct)
  case less
  show ?case
  proof (cases q)
    case Nil
    then show ?thesis using less.prems by (subst stringmatch_loop.simps) auto
  next
    case (Cons c q1)
    have rc: "rd (pre @ q @ [0]) (length pre) = Some c" using Cons by (simp add: rd_def)
    obtain x s' where s: "s = x # s'" using less.prems(2) by (cases s) auto
    show ?thesis
    proof (cases "c = 42")
      case True
      obtain ts1 where t1: "parse_glob q1 = Some ts1" "ts = GStar # ts1" using less.prems(1) Cons True by (auto simp: parse_glob.simps(2))
      obtain n where n: "skip_stars ((pre @ [c]) @ q1 @ [0]) (length (pre @ [c])) 0 = Some (length (pre @ [c]) + n, 0 + n)"
        "n \<le> length q1" "take n q1 = replicate n 42" "n < length q1 \<longrightarrow> q1 ! n \<noteq> 42" using skip_stars_ok [of "pre @ [c]" q1 0] by blast
      obtain ts2 where t2: "parse_glob (drop n q1) = Some ts2" "ts1 = replicate n GStar @ ts2" using stars_split [OF n(3) t1(1)] by blast
      have g: "gmatch nocase ts s = gmatch nocase (GStar # ts2) s"
        using gmatch_stars [of nocase n ts2 s] t1(2) t2(2) by (simp add: replicate_app_Cons_same)
      have sk: "skip_stars (pre @ q @ [0]) (length pre + 1) 0 = Some (length pre + 1 + n, n)" using n(1) Cons by simp
      show ?thesis
      proof (cases "n = length q1")
        case all: True
        then have "ts2 = []" using t2(1) by simp
        then have "gmatch nocase ts s" unfolding g gmatch_star by (intro exI [of _ "length s"]) simp
        then show ?thesis using all Cons True rc star_step [OF _ _ sk] by simp
      next
        case False
        then have lt: "n < length q1" using n(2) by simp
        have pq: "pre @ q @ [0] = (pre @ take (Suc n) q) @ drop n q1 @ [0]" using Cons by (metis append.assoc append_take_drop_id drop_Suc_Cons)
        have lpre: "length (pre @ take (Suc n) q) = length pre + n + 1" using Cons lt by simp
        have IH: "stringmatch_loop (pre @ q @ [0]) (spre @ s @ [0]) nocase False (length pre + n + 1) (int (length (drop n q1)) + 1 - 1) (length sp) (int (length u)) =
            Some (gmatch nocase ts2 u)" if "spre @ s @ [0] = sp @ u @ [0]" "u \<noteq> []" for sp u
          unfolding that(1) pq using less.hyps [of "drop n q1" ts2 u "pre @ take (Suc n) q" sp] t2(1) that(2) Cons lpre by simp
        have a: "stringmatch_loop (pre @ q @ [0]) (spre @ s @ [0]) nocase True (length pre + n) (int (length (drop n q1)) + 1) (length spre) (int (length s)) =
            Some (\<exists>k<length s. gmatch nocase ts2 (drop k s))"
          using star_loop_ok [of "spre @ s @ [0]" "pre @ q @ [0]" nocase "length pre + n" "int (length (drop n q1)) + 1" ts2 spre s] IH by simp
        have "\<not> gmatch nocase ts2 []"
          using t2(1) n(4) lt parse_nonstar [of "q1 ! n" "drop (Suc n) q1" ts2] by (auto simp: Cons_nth_drop_Suc)
        then have b: "(\<exists>k<length s. gmatch nocase ts2 (drop k s)) = gmatch nocase ts s"
          unfolding g gmatch_star by (metis drop_all le_less order_refl)
        have l: "int (length q) - int n = int (length (drop n q1)) + 1" "(int (length (drop n q1)) + 1 = 1) = False" "int (length q) \<noteq> 0"
          "rd (pre @ q @ [0]) (length pre) = Some 42" using Cons lt True rc by auto
        show ?thesis unfolding star_step [OF l(4,3) sk] l(1) l(2) if_False a b ..
      qed
    next
      case False
      obtain t ts1 where t: "ts = t # ts1" "t \<noteq> GStar" using parse_nonstar less.prems(1) Cons False by blast
      have pg: "parse_glob (c # q1) = Some (t # ts1)" using less.prems(1) Cons t(1) by simp
      obtain u r p pl where r: "parse_glob r = Some ts1" "q = u @ r" "u \<noteq> []" "p + 1 + length r = length pre + Suc (length q1)" "pl = int (length r) + 1"
        "match_token (pre @ q @ [0]) (spre @ s @ [0]) nocase (length pre) (int (length q)) (length spre) (int (length s)) =
         Some (if tok_ok nocase t x then Some (p, pl, length spre + 1, int (length s')) else None)"
        unfolding Cons s length_Cons using match_token_ok [OF pg False, of pre spre x s' nocase] by blast
      have pq: "pre @ q @ [0] = (pre @ u) @ r @ [0]" "length (pre @ u) = p + 1" using r(2,4) arg_cong [OF Cons, of length] by simp_all
      have ss: "spre @ s @ [0] = (spre @ [x]) @ s' @ [0]" using s by simp
      have "int (length q) \<noteq> 0" using Cons by simp
      note step = token_step [OF rc False this r(6)]
      show ?thesis
      proof (cases "s' = []")
        case True
        obtain n where n: "skip_stars ((pre @ u) @ r @ [0]) (length (pre @ u)) 0 = Some (length (pre @ u) + n, 0 + n)"
          "n \<le> length r" "take n r = replicate n 42" "n < length r \<longrightarrow> r ! n \<noteq> 42" using skip_stars_ok [of "pre @ u" r 0] by blast
        obtain ts2 where t2: "parse_glob (drop n r) = Some ts2" "ts1 = replicate n GStar @ ts2" using stars_split [OF n(3) r(1)] by blast
        have "gmatch nocase ts1 [] \<longleftrightarrow> n = length r"
        proof (cases "n < length r")
          case True
          then show ?thesis using t2 n(4) parse_nonstar [of "r ! n" "drop (Suc n) r" ts2] by (auto simp: Cons_nth_drop_Suc gmatch_stars_Nil)
        next
          case False
          then show ?thesis using t2 n(2) gmatch_stars_Nil [of nocase n "[]"] by simp
        qed
        then show ?thesis using step True n(1) pq r(5) s t n(2) by auto
      next
        case ne: False
        have "stringmatch_loop ((pre @ u) @ r @ [0]) ((spre @ [x]) @ s' @ [0]) nocase False (length (pre @ u)) (int (length r)) (length (spre @ [x])) (int (length s')) =
          Some (gmatch nocase ts1 s')"
          by (rule less.hyps) (use r(1-3) ne in simp_all)
        then show ?thesis using step ne pq ss r(5) s t by simp
      qed
    qed
  qed
qed

lemma stringmatch_loop_empty:
  assumes "parse_glob pattern = Some ts" "ts = [] \<or> hd ts = GAny \<or> \<not> tok_ok nocase (hd ts) 0"
  shows "stringmatch_loop (pattern @ [0]) [0] nocase False 0 (int (length pattern)) 0 0 = Some (gmatch nocase ts [])"
proof (cases pattern)
  case Nil
  then show ?thesis using assms(1) by (subst stringmatch_loop.simps) simp
next
  case (Cons c q)
  have r0: "rd (pattern @ [0]) 0 = Some c" using Cons by (simp add: rd_def)
  show ?thesis
  proof (cases "c = 42")
    case True
    obtain n where n: "skip_stars ([c] @ q @ [0]) (length [c]) 0 = Some (length [c] + n, 0 + n)" "n \<le> length q" "take n q = replicate n 42"
      "n < length q \<longrightarrow> q ! n \<noteq> 42" using skip_stars_ok [of "[c]" q 0] by blast
    have q: "q = replicate n 42 @ drop n q" using n(3) by (metis append_take_drop_id)
    obtain ts' where ts: "ts = GStar # replicate n GStar @ ts'" "parse_glob (drop n q) = Some ts'"
      using assms(1) True Cons parse_stars [of n "drop n q"] q by (auto simp: parse_glob.simps(2))
    have g: "gmatch nocase ts [] \<longleftrightarrow> gmatch nocase ts' []" using ts(1) gmatch_stars_Nil by simp
    have loop: "stringmatch_loop (pattern @ [0]) [0] nocase False 0 (int (length pattern)) 0 0 =
        (if int (length pattern) - int n = 1 then Some True
         else stringmatch_loop (pattern @ [0]) [0] nocase True n (int (length pattern) - int n) 0 0)"
      using n(1) r0 Cons True by (subst stringmatch_loop.simps) simp
    show ?thesis
    proof (cases "n = length q")
      case True
      then show ?thesis using loop g ts(2) Cons by simp
    next
      case False
      then obtain d q' where d: "drop n q = d # q'" "d \<noteq> 42" using n(2,4) by (metis Cons_nth_drop_Suc le_neq_implies_less)
      obtain t1 ts1 where "ts' = t1 # ts1" "t1 \<noteq> GStar" using parse_nonstar [of d q' ts'] ts(2) d by auto
      moreover have "stringmatch_loop (pattern @ [0]) [0] nocase True n (int (length pattern) - int n) 0 0 = Some False"
        by (subst stringmatch_loop.simps) simp
      ultimately show ?thesis using loop g Cons False n(2) by simp
    qed
  next
    case False
    obtain t1 ts1 where ts: "ts = t1 # ts1" "t1 \<noteq> GStar" using parse_nonstar [of c q ts] assms(1) Cons False by auto
    have "match_token (pattern @ [0]) [0] nocase 0 (int (length pattern)) 0 0 = Some None"
    proof (cases "t1 = GAny")
      case True
      then have "c = 63" using assms(1) Cons ts(1) False by (auto simp: parse_glob.simps(2) Let_def split: if_splits option.splits)
      then show ?thesis using r0 by (simp add: match_token_def)
    next
      case False
      have "rd [0::byte] 0 = Some 0" by (simp add: rd_def)
      then show ?thesis using match_token_gen [of c q t1 ts1 "[0]" 0 0 0 "[]" nocase] assms Cons ts False \<open>c \<noteq> 42\<close> by auto
    qed
    then show ?thesis using r0 Cons False ts by (subst stringmatch_loop.simps) simp
  qed
qed

lemma stringmatchlen_spec:
  assumes "parse_glob pattern = Some ts" "string \<noteq> [] \<or> ts = [] \<or> hd ts = GAny \<or> \<not> tok_ok nocase (hd ts) 0" "length pattern < 2 ^ 31" "length string < 2 ^ 31"
  shows "stringmatchlen pattern string nocase = Some (gmatch nocase ts string)"
proof -
  have "sgn_of 32 (length pattern) = int (length pattern)" "sgn_of 32 (length string) = int (length string)"
    using assms(3,4) by (simp_all add: sgn_of_def)
  then show ?thesis
    using stringmatch_loop_ok [OF assms(1), of string "[]" "[]" nocase] stringmatch_loop_empty [OF assms(1), of nocase] assms(2)
    by (cases "string = []") (simp_all add: stringmatchlen_def)
qed

text \<open>A class that is not closed before a final backslash is read beyond the terminator.\<close>

lemma cls_loop_off:
  "parse_cls q = None \<Longrightarrow> cls_loop (pre @ q @ [0]) str s nocase (length pre) (int (length q)) m = None"
proof (induction q arbitrary: pre m rule: parse_cls.induct)
  case (2 c)
  then have c: "c = 92" by (auto split: if_splits)
  have "cls_loop (pre @ [c, 0]) str s nocase (length pre + 2) (- 1) m' = None" for m' by (subst cls_loop.simps) (simp add: rd_def)
  then show ?case using c rd_here [of pre c "[0]"] rd_next [of pre c 0 "[]"] by (subst cls_loop.simps) (simp split: option.split)
next
  case (3 c d)
  then have c: "c \<noteq> 92" "c \<noteq> 93" "parse_cls [d] = None" by (auto split: if_splits)
  have "cls_loop ((pre @ [c]) @ [d] @ [0]) str s nocase (length (pre @ [c])) (int (length [d])) m' = None" for m' using "3.IH" [OF c] .
  then show ?case using c rd_here [of pre c "[d, 0]"] rd_next [of pre c d "[0]"] by (subst cls_loop.simps) (simp split: option.split)
next
  case (4 c d e q)
  note r = rd_here [of pre c "d # e # q @ [0]"] rd_next [of pre c d "e # q @ [0]"] rd_next2 [of pre c d e "q @ [0]"]
  consider "c = 92" | "c \<noteq> 92" "c \<noteq> 93" "d = 45" | "c \<noteq> 92" "c \<noteq> 93" "d \<noteq> 45" using "4.prems" by fastforce
  then show ?case
  proof cases
    case 1
    then have "cls_loop ((pre @ [c, d]) @ (e # q) @ [0]) str s nocase (length (pre @ [c, d])) (int (length (e # q))) m' = None" for m'
      using "4.IH"(1) [OF 1, of "pre @ [c, d]" m'] "4.prems" by simp
    then show ?thesis using 1 r by (subst cls_loop.simps) (simp split: option.split)
  next
    case n: 2
    then have "cls_loop ((pre @ [c, d, e]) @ q @ [0]) str s nocase (length (pre @ [c, d, e])) (int (length q)) m' = None" for m'
      using "4.IH"(2) [OF n, of "pre @ [c, d, e]" m'] "4.prems" by simp
    then show ?thesis using n r by (subst cls_loop.simps) (simp add: numeral_3_eq_3 split: option.split)
  next
    case n: 3
    then have "cls_loop ((pre @ [c]) @ (d # e # q) @ [0]) str s nocase (length (pre @ [c])) (int (length (d # e # q))) m' = None" for m'
      using "4.IH"(3) [OF n, of "pre @ [c]" m'] "4.prems" by simp
    then show ?thesis using n r by (subst cls_loop.simps) (simp split: option.split)
  qed
qed simp

lemma parse_only_stars: "parse_glob r = Some (replicate n GStar) \<Longrightarrow> r = replicate n 42"
proof (induction n arbitrary: r)
  case 0
  then show ?case by (cases r) (auto simp: parse_glob.simps(2) Let_def split: if_splits option.splits)
next
  case (Suc n)
  then obtain c q where r: "r = c # q" by (cases r) auto
  have "c = 42" using parse_nonstar [of c q] Suc.prems r by fastforce
  then show ?case using Suc.IH [of q] Suc.prems r by (auto simp: parse_glob.simps(2))
qed

lemma stringmatch_stars_at_end:
  assumes "pl = int (Suc n)" "pat = pre @ replicate (Suc n) 42 @ [0]"
  shows "stringmatch_loop pat str nocase False (length pre) pl s sl = Some True"
proof -
  have "rd pat (length pre) = Some 42" using assms(2) by (simp add: rd_def nth_append)
  moreover have "skip_stars pat (length pre + 1) 0 = Some (length pre + 1 + n, n)"
  proof -
    obtain k where k: "skip_stars ((pre @ [42]) @ replicate n 42 @ [0]) (length (pre @ [42])) 0 = Some (length (pre @ [42]) + k, 0 + k)" "k \<le> n"
      "k < n \<longrightarrow> (replicate n 42 :: bytes) ! k \<noteq> 42" using skip_stars_ok [of "pre @ [42]" "replicate n 42" 0] by auto
    then have "k = n" by (metis nth_replicate le_neq_implies_less)
    then show ?thesis using k(1) assms(2) by simp
  qed
  ultimately show ?thesis using assms(1) by (subst stringmatch_loop.simps) simp
qed

lemma empty_string_match:
  assumes "parse_glob pattern = Some (t # replicate (Suc n) GStar)" "t \<noteq> GAny" "tok_ok nocase t 0" "length pattern < 2 ^ 31"
  shows "stringmatchlen pattern [] nocase = Some True"
proof -
  have ns: "t \<noteq> GStar" using assms(3) by auto
  obtain c q where c: "pattern = c # q" using assms(1) by (cases pattern) auto
  have c42: "c \<noteq> 42" using assms(1) c ns by (auto simp: parse_glob.simps(2))
  have p: "parse_glob (c # q) = Some (t # replicate (Suc n) GStar)" "rd [0::byte] 0 = Some 0" "0 \<noteq> (0::int) \<or> t \<noteq> GAny"
    using assms(1,2) c by (simp_all add: rd_def)
  obtain u r p' pl where m: "parse_glob r = Some (replicate (Suc n) GStar)" "c # q = u @ r" "p' + 1 + length r = length ([]::bytes) + Suc (length q)" "pl = int (length r) + 1"
      "match_token ([] @ (c # q) @ [0]) [0] nocase (length ([]::bytes)) (int (Suc (length q))) 0 0 = Some (if tok_ok nocase t 0 then Some (p', pl, 0 + 1, 0 - 1) else None)"
    using match_token_gen [OF p(1) c42 p(2,3), of "[]" nocase] by blast
  have r: "r = replicate (Suc n) 42" using parse_only_stars [OF m(1)] .
  have "length u + length r = Suc (length q)" using m(2) by (metis length_Cons length_append)
  then have p': "p' + 1 = length u" using m(3) by simp
  have "stringmatch_loop (pattern @ [0]) [0] nocase False (length u) (int (Suc n)) 1 (- 1) = Some True"
    by (rule stringmatch_stars_at_end [OF refl]) (use m(2) r c in simp)
  then have "stringmatch_loop (pattern @ [0]) [0] nocase False 0 (int (length pattern)) 0 0 = Some True"
    using m(5) c c42 assms(3) p' m(4) r by (subst stringmatch_loop.simps) (simp add: rd_def)
  then show ?thesis using assms(4) by (simp add: stringmatchlen_def sgn_of_def)
qed

lemma open_class_reads_behind:
  assumes "parse_cls (if q \<noteq> [] \<and> hd q = 94 then tl q else q) = None" "length q + 1 < 2 ^ 31"
  shows "stringmatchlen (91 # q) string nocase = None"
proof -
  let ?neg = "q \<noteq> [] \<and> hd q = 94" and ?P = "(91 # q) @ [0::byte]"
  let ?r = "if ?neg then tl q else q" and ?pre = "(91::byte) # (if ?neg then [94] else [])"
  have P: "?P = ?pre @ ?r @ [0]" by (cases q) auto
  have rc: "rd ?P (0 + 1) = Some (hd (q @ [0]))" by (cases q) (simp_all add: rd_def)
  have c91: "((91::byte) = 63) = False" "((91::byte) = 91) = True" by simp_all
  have neg: "(hd (q @ [0]) = 94) = ?neg" by (cases q) auto
  have off: "(if ?neg then (0 + 1 + 1, int (Suc (length q)) - 1 - 1) else (0 + 1, int (Suc (length q)) - 1)) = (length ?pre, int (length ?r))" by (cases q) auto
  have cl: "cls_loop ?P str s nocase (length ?pre) (int (length ?r)) False = None" for str s unfolding P by (rule cls_loop_off [OF assms(1)])
  have r0: "rd ?P 0 = Some 91" by (simp add: rd_def)
  have "match_token ?P str nocase 0 (int (Suc (length q))) s sl = None" for str s sl
    unfolding match_token_def by (simp only: r0 rc neg c91 off cl Option.bind.simps Let_def prod.case if_True if_False)
  then have "stringmatch_loop ?P str nocase False 0 (int (Suc (length q))) s sl = None" for str s sl
    using r0 by (subst stringmatch_loop.simps) simp
  then show ?thesis using assms(2) by (simp add: stringmatchlen_def sgn_of_def)
qed

section \<open>Properties\<close>

text \<open>
  C25. \<open>stringmatchlen\<close> ends, reads nothing outside the two buffers and returns whether the string
  matches the pattern: a star stands for any number of bytes, a question mark for one, a class
  for one byte in it (or, after a caret, outside it), a backslash takes the next byte
  literally.  This holds for every non-empty string, for the empty string unless the pattern
  begins with a class or a byte that would match a NUL byte, and for every pattern but those
  that end with a backslash inside an open class.
\<close>

theorem stringmatchlen_matches:
  assumes "parse_glob pattern = Some ts" "string \<noteq> [] \<or> ts = [] \<or> hd ts = GAny \<or> \<not> tok_ok nocase (hd ts) 0"
    and "length pattern < 2 ^ 31" "length string < 2 ^ 31"
  shows "stringmatchlen pattern string nocase = Some (gmatch nocase ts string)"
  using assms by (rule stringmatchlen_spec)

theorem stringmatchlen_matches_witness:
  "stringmatchlen [104, 91, 97, 45, 101, 93, 42, 63] [104, 98, 120, 121] False = Some True \<and> stringmatchlen [104, 42] [] False = Some False"
proof -
  have p: "parse_glob [104, 91, 97, 45, 101, 93, 42, 63] = Some [GLit 104, GCls False [CRange 97 101], GStar, GAny]" "parse_glob [104, 42] = Some [GLit 104, GStar]"
    by (simp_all add: parse_glob.simps(2))
  have g: "gmatch False [GLit 104, GCls False [CRange 97 101], GStar, GAny] [104, 98, 120, 121]"
    by (simp add: chr_eq_def in_range_def schar_def fold_case_def)
  show ?thesis
    using stringmatchlen_matches [OF p(1), of "[104, 98, 120, 121]" False] stringmatchlen_matches [OF p(2), of "[]" False] g by (simp add: chr_eq_def)
qed

text \<open>
  C26. The two exceptions, for all patterns of their kind.  On the empty string, a class or a byte
  at the beginning of the pattern that would match a NUL byte is compared with the terminator
  and consumes it: followed by stars only, the pattern matches, although its first token
  stands for one byte (so every negated class followed by a star, such as \<open>[^a]*\<close>, matches the
  empty string unless it excludes NUL).  And a pattern that begins with a class and ends with a
  backslash inside it makes the matcher read behind the pattern's buffer, on every string.
\<close>

theorem stringmatchlen_exceptions:
  assumes "length pattern < 2 ^ 31"
  shows "(parse_glob pattern = Some (t # replicate (Suc n) GStar) \<and> t \<noteq> GAny \<and> tok_ok nocase t 0 \<longrightarrow>
      stringmatchlen pattern [] nocase = Some True \<and> \<not> gmatch nocase (t # replicate (Suc n) GStar) []) \<and>
    (pattern = 91 # q \<and> parse_cls (if q \<noteq> [] \<and> hd q = 94 then tl q else q) = None \<longrightarrow> stringmatchlen pattern string nocase = None)"
  using empty_string_match [of pattern t n nocase] open_class_reads_behind [of q string nocase] assms by auto

theorem stringmatchlen_exceptions_witness:
  "stringmatchlen [91, 94, 97, 93, 42] [] False = Some True \<and> stringmatchlen [91, 97, 92] [120] False = None"
proof
  have "parse_glob [91, 94, 97, 93, 42] = Some (GCls True [CChr 97] # replicate (Suc 0) GStar)" by (simp add: parse_glob.simps(2))
  then show "stringmatchlen [91, 94, 97, 93, 42] [] False = Some True"
    using stringmatchlen_exceptions [of "[91, 94, 97, 93, 42]" "GCls True [CChr 97]" 0 False "[]" "[]"] by (simp add: chr_eq_def)
  show "stringmatchlen [91, 97, 92] [120] False = None"
    using stringmatchlen_exceptions [of "[91, 97, 92]" GStar 0 False "[97, 92]" "[120]"] by simp
qed

end
