(* ===== verification/NetOut.thy ===== *)
theory NetOut
  imports Util
begin

text \<open>
  The output side of a client connection, from \<open>networking.c\<close>: the static buffer, the list
  of reply chunks behind it, the functions that queue replies in the wire format, and the
  write handler that sends what is queued in pieces of the size the socket accepts.

  The static buffer is modelled by the bytes in use, a reply chunk by its bytes or
  \<open>None\<close> for the placeholder of a length that is not known yet.  Of the client flags the
  model keeps those this code tests.  \<open>aeCreateFileEvent\<close> may fail (\<open>ev\<close> is its success),
  and whether the client is over its output limits is decided by \<open>over\<close>, since the code
  computes it from allocator sizes.
\<close>

section \<open>State\<close>

definition REDIS_REPLY_CHUNK_BYTES :: nat where "REDIS_REPLY_CHUNK_BYTES = 16 * 1024"
definition REDIS_SHARED_BULKHDR_LEN :: nat where "REDIS_SHARED_BULKHDR_LEN = 32"
definition REDIS_MAX_WRITE_PER_EVENT :: nat where "REDIS_MAX_WRITE_PER_EVENT = 1024 * 64"

record oclient =
  o_lua :: bool
  o_master :: bool
  o_force_reply :: bool
  o_close_after :: bool
  o_close_asap :: bool
  o_fd :: int
  o_online :: bool
  o_buf :: bytes
  o_reply :: "bytes option list"
  o_sentlen :: nat
  o_handler :: bool

text \<open>A string object: raw bytes, or an integer kept as such.\<close>

datatype strobj = ORaw bytes | OInt int

definition crlf :: bytes where "crlf = [13, 10]"

section \<open>Low level: the static buffer and the list of chunks\<close>

text \<open>\<open>prepareClientToWrite\<close>: may the client be written to; installs the write handler on the first bytes.\<close>

definition prepareClientToWrite :: "bool \<Rightarrow> oclient \<Rightarrow> oclient \<times> bool" where
  "prepareClientToWrite ev c =
     (if o_lua c then (c, True)
      else if o_master c \<and> \<not> o_force_reply c then (c, False)
      else if o_fd c \<le> 0 then (c, False)
      else if o_buf c = [] \<and> o_reply c = [] \<and> o_online c then
        (if ev then (c\<lparr>o_handler := True\<rparr>, True) else (c, False))
      else (c, True))"

text \<open>The flag is the return value \<open>REDIS_OK\<close>.\<close>

definition addReplyToBuffer :: "oclient \<Rightarrow> bytes \<Rightarrow> oclient \<times> bool" where
  "addReplyToBuffer c s =
     (if o_close_after c then (c, True)
      else if length (o_reply c) > 0 then (c, False)
      else if length s > REDIS_REPLY_CHUNK_BYTES - length (o_buf c) then (c, False)
      else (c\<lparr>o_buf := o_buf c @ s\<rparr>, True))"

definition asyncCloseClientOnOutputBufferLimitReached :: "(oclient \<Rightarrow> bool) \<Rightarrow> oclient \<Rightarrow> oclient" where
  "asyncCloseClientOnOutputBufferLimitReached over c =
     (if o_close_asap c then c else if over c then c\<lparr>o_close_asap := True\<rparr> else c)"

text \<open>
  Appending to the chunk list: glued to the last chunk when that is no placeholder and
  stays within the chunk size.  The three functions of the code differ in who owns the
  bytes afterwards.
\<close>

definition addReply_glue :: "bytes option list \<Rightarrow> bytes \<Rightarrow> bytes option list" where
  "addReply_glue r s =
     (if r = [] then [Some s]
      else case last r of
        Some t \<Rightarrow> if length t + length s \<le> REDIS_REPLY_CHUNK_BYTES then butlast r @ [Some (t @ s)] else r @ [Some s]
      | None \<Rightarrow> r @ [Some s])"

definition addReplyObjectToList :: "(oclient \<Rightarrow> bool) \<Rightarrow> oclient \<Rightarrow> bytes \<Rightarrow> oclient" where
  "addReplyObjectToList over c s =
     (if o_close_after c then c
      else asyncCloseClientOnOutputBufferLimitReached over (c\<lparr>o_reply := addReply_glue (o_reply c) s\<rparr>))"

definition addReplySdsToList :: "(oclient \<Rightarrow> bool) \<Rightarrow> oclient \<Rightarrow> bytes \<Rightarrow> oclient" where
  "addReplySdsToList over c s =
     (if o_close_after c then c
      else asyncCloseClientOnOutputBufferLimitReached over (c\<lparr>o_reply := addReply_glue (o_reply c) s\<rparr>))"

definition addReplyStringToList :: "(oclient \<Rightarrow> bool) \<Rightarrow> oclient \<Rightarrow> bytes \<Rightarrow> oclient" where
  "addReplyStringToList over c s =
     (if o_close_after c then c
      else asyncCloseClientOnOutputBufferLimitReached over (c\<lparr>o_reply := addReply_glue (o_reply c) s\<rparr>))"

section \<open>Queueing replies\<close>

text \<open>\<open>jk\<close> is the content of an uninitialised stack buffer.\<close>

definition addReply :: "bool \<Rightarrow> (oclient \<Rightarrow> bool) \<Rightarrow> (nat \<Rightarrow> byte) \<Rightarrow> oclient \<Rightarrow> strobj \<Rightarrow> oclient option" where
  "addReply ev over jk c obj =
     (let (c, ok) = prepareClientToWrite ev c in
      if \<not> ok then Some c
      else case obj of
        ORaw s \<Rightarrow>
          (let (c, ok) = addReplyToBuffer c s in Some (if ok then c else addReplyObjectToList over c s))
      | OInt v \<Rightarrow>
          do {
            r \<leftarrow> (if length (o_reply c) = 0 \<and> REDIS_REPLY_CHUNK_BYTES - length (o_buf c) \<ge> 32 then
                   do { (len, buf) \<leftarrow> ll2string (map jk [0..<32]) 32 v;
                        s \<leftarrow> rd_block buf 0 len;
                        Some (addReplyToBuffer c s) }
                 else Some (c, False));
            let (c, ok) = r;
            if ok then Some c
            else
              let s = ll_decimal v; (c, ok) = addReplyToBuffer c s in
              Some (if ok then c else addReplyObjectToList over c s)
          })"

definition addReplySds :: "bool \<Rightarrow> (oclient \<Rightarrow> bool) \<Rightarrow> oclient \<Rightarrow> bytes \<Rightarrow> oclient" where
  "addReplySds ev over c s =
     (let (c, ok) = prepareClientToWrite ev c in
      if \<not> ok then c
      else let (c, ok) = addReplyToBuffer c s in if ok then c else addReplySdsToList over c s)"

definition addReplyString :: "bool \<Rightarrow> (oclient \<Rightarrow> bool) \<Rightarrow> oclient \<Rightarrow> bytes \<Rightarrow> oclient" where
  "addReplyString ev over c s =
     (let (c, ok) = prepareClientToWrite ev c in
      if \<not> ok then c
      else let (c, ok) = addReplyToBuffer c s in if ok then c else addReplyStringToList over c s)"

definition addReplyErrorLength :: "bool \<Rightarrow> (oclient \<Rightarrow> bool) \<Rightarrow> oclient \<Rightarrow> bytes \<Rightarrow> oclient" where
  "addReplyErrorLength ev over c s =
     addReplyString ev over (addReplyString ev over (addReplyString ev over c [45, 69, 82, 82, 32]) s) crlf"

text \<open>\<open>addReplyErrorFormat\<close>, on the formatted message: line breaks become spaces.\<close>

definition addReplyErrorFormat :: "bool \<Rightarrow> (oclient \<Rightarrow> bool) \<Rightarrow> oclient \<Rightarrow> bytes \<Rightarrow> oclient" where
  "addReplyErrorFormat ev over c s =
     addReplyErrorLength ev over c (map (\<lambda>b. if b = 13 \<or> b = 10 then 32 else b) s)"

definition addReplyStatusLength :: "bool \<Rightarrow> (oclient \<Rightarrow> bool) \<Rightarrow> oclient \<Rightarrow> bytes \<Rightarrow> oclient" where
  "addReplyStatusLength ev over c s =
     addReplyString ev over (addReplyString ev over (addReplyString ev over c [43]) s) crlf"

text \<open>The shared objects \<open>mbulkhdr\<close> and \<open>bulkhdr\<close>; an index outside the array is an invalid access.\<close>

definition shared_hdr :: "byte \<Rightarrow> int \<Rightarrow> bytes option" where
  "shared_hdr prefix j =
     (if 0 \<le> j \<and> j < int REDIS_SHARED_BULKHDR_LEN then Some (prefix # dec_digits (nat j) @ crlf) else None)"

definition addReplyLongLongWithPrefix ::
  "bool \<Rightarrow> (oclient \<Rightarrow> bool) \<Rightarrow> (nat \<Rightarrow> byte) \<Rightarrow> oclient \<Rightarrow> int \<Rightarrow> byte \<Rightarrow> oclient option" where
  "addReplyLongLongWithPrefix ev over jk c ll prefix =
     (if (prefix = 42 \<or> prefix = 36) \<and> ll < int REDIS_SHARED_BULKHDR_LEN then
        do { h \<leftarrow> shared_hdr prefix ll; addReply ev over jk c (ORaw h) }
      else
        do { (len, b) \<leftarrow> ll2string (map jk [1..<128]) 127 ll;
             let buf = prefix # b;
             buf \<leftarrow> wr buf (len + 1) 13;
             buf \<leftarrow> wr buf (len + 2) 10;
             s \<leftarrow> rd_block buf 0 (len + 3);
             Some (addReplyString ev over c s) })"

definition addReplyLongLong :: "bool \<Rightarrow> (oclient \<Rightarrow> bool) \<Rightarrow> (nat \<Rightarrow> byte) \<Rightarrow> oclient \<Rightarrow> int \<Rightarrow> oclient option" where
  "addReplyLongLong ev over jk c ll =
     (if ll = 0 then addReply ev over jk c (ORaw [58, 48, 13, 10])
      else if ll = 1 then addReply ev over jk c (ORaw [58, 49, 13, 10])
      else addReplyLongLongWithPrefix ev over jk c ll 58)"

definition addReplyMultiBulkLen :: "bool \<Rightarrow> (oclient \<Rightarrow> bool) \<Rightarrow> (nat \<Rightarrow> byte) \<Rightarrow> oclient \<Rightarrow> int \<Rightarrow> oclient option" where
  "addReplyMultiBulkLen ev over jk c len =
     (if len < int REDIS_SHARED_BULKHDR_LEN then do { h \<leftarrow> shared_hdr 42 len; addReply ev over jk c (ORaw h) }
      else addReplyLongLongWithPrefix ev over jk c len 42)"

text \<open>The loop that counts decimal digits, \<open>while ((n = n/10) != 0) len++\<close>.\<close>

fun count_digits :: "nat \<Rightarrow> nat \<Rightarrow> nat" where
  "count_digits n len = (if n div 10 \<noteq> 0 then count_digits (n div 10) (len + 1) else len)"

declare count_digits.simps [simp del]

text \<open>\<open>-n\<close> is undefined for the smallest integer.\<close>

definition bulk_len :: "strobj \<Rightarrow> nat option" where
  "bulk_len obj =
     (case obj of
        ORaw s \<Rightarrow> Some (length s)
      | OInt n \<Rightarrow>
          if n < 0 then if n = - (2 ^ 63) then None else Some (count_digits (nat (- n)) 2)
          else Some (count_digits (nat n) 1))"

definition addReplyBulkLen :: "bool \<Rightarrow> (oclient \<Rightarrow> bool) \<Rightarrow> (nat \<Rightarrow> byte) \<Rightarrow> oclient \<Rightarrow> strobj \<Rightarrow> oclient option" where
  "addReplyBulkLen ev over jk c obj =
     do {
       len \<leftarrow> bulk_len obj;
       if len < REDIS_SHARED_BULKHDR_LEN then do { h \<leftarrow> shared_hdr 36 (int len); addReply ev over jk c (ORaw h) }
       else addReplyLongLongWithPrefix ev over jk c (int len) 36
     }"

definition addReplyBulk :: "bool \<Rightarrow> (oclient \<Rightarrow> bool) \<Rightarrow> (nat \<Rightarrow> byte) \<Rightarrow> oclient \<Rightarrow> strobj \<Rightarrow> oclient option" where
  "addReplyBulk ev over jk c obj =
     do { c \<leftarrow> addReplyBulkLen ev over jk c obj;
          c \<leftarrow> addReply ev over jk c obj;
          addReply ev over jk c (ORaw crlf) }"

definition addReplyBulkCBuffer :: "bool \<Rightarrow> (oclient \<Rightarrow> bool) \<Rightarrow> (nat \<Rightarrow> byte) \<Rightarrow> oclient \<Rightarrow> bytes \<Rightarrow> oclient option" where
  "addReplyBulkCBuffer ev over jk c s =
     do { c \<leftarrow> addReplyLongLongWithPrefix ev over jk c (int (length s)) 36;
          addReply ev over jk (addReplyString ev over c s) (ORaw crlf) }"

definition addReplyBulkLongLong :: "bool \<Rightarrow> (oclient \<Rightarrow> bool) \<Rightarrow> (nat \<Rightarrow> byte) \<Rightarrow> oclient \<Rightarrow> int \<Rightarrow> oclient option" where
  "addReplyBulkLongLong ev over jk c ll =
     do { (len, buf) \<leftarrow> ll2string (map jk [0..<64]) 64 ll;
          s \<leftarrow> rd_block buf 0 len;
          addReplyBulkCBuffer ev over jk c s }"

text \<open>
  A multi bulk reply whose length comes later.  The node is the position of the
  placeholder in the chunk list.
\<close>

definition addDeferredMultiBulkLength :: "bool \<Rightarrow> oclient \<Rightarrow> oclient \<times> nat option" where
  "addDeferredMultiBulkLength ev c =
     (let (c, ok) = prepareClientToWrite ev c in
      if \<not> ok then (c, None)
      else (c\<lparr>o_reply := o_reply c @ [None]\<rparr>, Some (length (o_reply c))))"

definition setDeferredMultiBulkLength :: "(oclient \<Rightarrow> bool) \<Rightarrow> oclient \<Rightarrow> nat option \<Rightarrow> int \<Rightarrow> oclient option" where
  "setDeferredMultiBulkLength over c node len =
     (case node of
        None \<Rightarrow> Some c
      | Some n \<Rightarrow>
          let hdr = 42 # ll_decimal len @ crlf; r = o_reply c in
          if \<not> n < length r then None
          else if n + 1 < length r then
            (case r ! (n + 1) of
               Some nxt \<Rightarrow> Some (asyncCloseClientOnOutputBufferLimitReached over
                   (c\<lparr>o_reply := take n r @ Some (hdr @ nxt) # drop (n + 2) r\<rparr>))
             | None \<Rightarrow> Some (asyncCloseClientOnOutputBufferLimitReached over (c\<lparr>o_reply := r[n := Some hdr]\<rparr>)))
          else Some (asyncCloseClientOnOutputBufferLimitReached over (c\<lparr>o_reply := r[n := Some hdr]\<rparr>)))"

text \<open>\<open>copyClientOutputBuffer\<close>; copying a chunk list that still has a placeholder is a copy of \<open>NULL\<close>.\<close>

definition copyClientOutputBuffer :: "oclient \<Rightarrow> oclient \<Rightarrow> oclient" where
  "copyClientOutputBuffer dst src = dst\<lparr>o_reply := o_reply src, o_buf := o_buf src\<rparr>"

section \<open>The write handler\<close>

text \<open>
  What a call of \<open>write\<close> meets: a socket that takes up to a number of bytes, one that would
  block (\<open>EAGAIN\<close>), or another error.
\<close>

datatype wres = Accepts nat | WouldBlock | WError

text \<open>\<open>nwritten\<close>, and what is written, for a request to write \<open>s\<close> from an offset on.\<close>

definition write_out :: "wres \<Rightarrow> bytes \<Rightarrow> nat \<Rightarrow> bytes" where
  "write_out w s off = (case w of Accepts k \<Rightarrow> take k (drop off s) | _ \<Rightarrow> [])"

text \<open>
  The loop of \<open>sendReplyToClient\<close>; when no result is left the socket blocks.  \<open>nolimit\<close> is set
  while the server is over its memory limit.  The result is the client, the bytes handed
  to the socket and the last result.
\<close>

function send_loop :: "bool \<Rightarrow> oclient \<Rightarrow> wres list \<Rightarrow> nat \<Rightarrow> bytes \<Rightarrow> (oclient \<times> bytes \<times> wres) option" where
  "send_loop nolimit c ws tot out =
     (let w = (if ws = [] then WouldBlock else hd ws) in
      if o_buf c \<noteq> [] then
        let o1 = write_out w (o_buf c) (o_sentlen c) in
        if o1 = [] then Some (c, out, w)
        else
          let sent = o_sentlen c + length o1;
              c = (if sent = length (o_buf c) then c\<lparr>o_buf := [], o_sentlen := 0\<rparr> else c\<lparr>o_sentlen := sent\<rparr>)
          in if tot + length o1 > REDIS_MAX_WRITE_PER_EVENT \<and> \<not> nolimit then Some (c, out @ o1, w)
             else if ws = [] then None else send_loop nolimit c (tl ws) (tot + length o1) (out @ o1)
      else case o_reply c of
        [] \<Rightarrow> Some (c, out, Accepts 0)
      | None # _ \<Rightarrow> None
      | Some obj # rest \<Rightarrow>
          if length obj = 0 then send_loop nolimit (c\<lparr>o_reply := rest\<rparr>) ws tot out
          else
            let o1 = write_out w obj (o_sentlen c) in
            if o1 = [] then Some (c, out, w)
            else
              let sent = o_sentlen c + length o1;
                  c = (if sent = length obj then c\<lparr>o_reply := rest, o_sentlen := 0\<rparr> else c\<lparr>o_sentlen := sent\<rparr>)
              in if tot + length o1 > REDIS_MAX_WRITE_PER_EVENT \<and> \<not> nolimit then Some (c, out @ o1, w)
                 else if ws = [] then None else send_loop nolimit c (tl ws) (tot + length o1) (out @ o1))"
  by pat_completeness auto
termination
  by (relation "measure (\<lambda>(nolimit, c, ws, tot, out). length ws + length (o_reply c))") auto

declare send_loop.simps [simp del]

text \<open>The client after the handler ran, or \<open>None\<close> inside when it was freed.\<close>

definition sendReplyToClient :: "bool \<Rightarrow> oclient \<Rightarrow> wres list \<Rightarrow> (oclient option \<times> bytes) option" where
  "sendReplyToClient nolimit c ws =
     do {
       (c, out, w) \<leftarrow> send_loop nolimit c ws 0 [];
       if w = WError then Some (None, out)
       else if o_buf c = [] \<and> o_reply c = [] then
         (if o_close_after c then Some (None, out)
          else Some (Some (c\<lparr>o_sentlen := 0, o_handler := False\<rparr>), out))
       else Some (Some c, out)
     }"

section \<open>What is queued\<close>

definition chunk_bytes :: "bytes option \<Rightarrow> bytes" where
  "chunk_bytes x = (case x of None \<Rightarrow> [] | Some s \<Rightarrow> s)"

lemma chunk_bytes_simps [simp]: "chunk_bytes None = []" "chunk_bytes (Some s) = s"
  by (simp_all add: chunk_bytes_def)

text \<open>The bytes not sent yet.\<close>

definition pending :: "oclient \<Rightarrow> bytes" where
  "pending c = drop (o_sentlen c) (o_buf c @ concat (map chunk_bytes (o_reply c)))"

definition owf :: "oclient \<Rightarrow> bool" where
  "owf c \<longleftrightarrow>
     length (o_buf c) \<le> REDIS_REPLY_CHUNK_BYTES \<and>
     (o_sentlen c = 0 \<or>
      (if o_buf c \<noteq> [] then o_sentlen c < length (o_buf c)
       else o_reply c \<noteq> [] \<and> o_sentlen c < length (chunk_bytes (hd (o_reply c)))))"

text \<open>Data is queued only while the write handler is installed.\<close>

definition handler_ok :: "oclient \<Rightarrow> bool" where
  "handler_ok c \<longleftrightarrow> (o_buf c \<noteq> [] \<or> o_reply c \<noteq> [] \<longrightarrow> o_lua c \<or> \<not> o_online c \<or> o_handler c)"

definition writable :: "bool \<Rightarrow> oclient \<Rightarrow> bool" where
  "writable ev c \<longleftrightarrow> snd (prepareClientToWrite ev c)"

lemma concat_glue: "concat (map chunk_bytes (addReply_glue r s)) = concat (map chunk_bytes r) @ s"
proof (cases r rule: rev_cases)
  case Nil
  then show ?thesis by (simp add: addReply_glue_def)
next
  case (snoc r' x)
  then show ?thesis by (cases x) (simp_all add: addReply_glue_def)
qed

lemma hd_glue: "r \<noteq> [] \<Longrightarrow> \<exists>t. chunk_bytes (hd (addReply_glue r s)) = chunk_bytes (hd r) @ t"
  by (cases r rule: rev_cases) (auto simp: addReply_glue_def hd_append split: option.splits)

lemma glue_ne [simp]: "addReply_glue r s \<noteq> []"
  by (simp add: addReply_glue_def split: option.splits)

text \<open>One queueing step: the client \<open>c'\<close> has \<open>s\<close> queued behind what \<open>c\<close> had.\<close>

definition queued :: "bool \<Rightarrow> oclient \<Rightarrow> bytes \<Rightarrow> oclient \<Rightarrow> bool" where
  "queued ev c s c' \<longleftrightarrow>
     pending c' = pending c @ (if writable ev c \<and> \<not> o_close_after c then s else []) \<and> owf c' \<and> handler_ok c' \<and>
     writable ev c' = writable ev c \<and> o_close_after c' = o_close_after c"

lemma queued_trans: "queued ev c s c' \<Longrightarrow> queued ev c' t c'' \<Longrightarrow> queued ev c (s @ t) c''"
  by (auto simp: queued_def)

lemma queued_refl: "owf c \<Longrightarrow> handler_ok c \<Longrightarrow> \<not> (writable ev c \<and> \<not> o_close_after c) \<Longrightarrow> queued ev c s c"
  by (auto simp: queued_def)

lemma async_simps [simp]:
  "o_buf (asyncCloseClientOnOutputBufferLimitReached over c) = o_buf c"
  "o_reply (asyncCloseClientOnOutputBufferLimitReached over c) = o_reply c"
  "o_sentlen (asyncCloseClientOnOutputBufferLimitReached over c) = o_sentlen c"
  "o_close_after (asyncCloseClientOnOutputBufferLimitReached over c) = o_close_after c"
  "o_handler (asyncCloseClientOnOutputBufferLimitReached over c) = o_handler c"
  "o_lua (asyncCloseClientOnOutputBufferLimitReached over c) = o_lua c"
  "o_master (asyncCloseClientOnOutputBufferLimitReached over c) = o_master c"
  "o_force_reply (asyncCloseClientOnOutputBufferLimitReached over c) = o_force_reply c"
  "o_fd (asyncCloseClientOnOutputBufferLimitReached over c) = o_fd c"
  "o_online (asyncCloseClientOnOutputBufferLimitReached over c) = o_online c"
  by (simp_all add: asyncCloseClientOnOutputBufferLimitReached_def)

text \<open>The common step of all functions that queue bytes.\<close>

definition push_bytes :: "bool \<Rightarrow> (oclient \<Rightarrow> bool) \<Rightarrow> oclient \<Rightarrow> bytes \<Rightarrow> oclient" where
  "push_bytes ev over c s =
     (let (c, ok) = prepareClientToWrite ev c in
      if \<not> ok then c
      else let (c, ok) = addReplyToBuffer c s in if ok then c else addReplyStringToList over c s)"

definition handler_after :: "bool \<Rightarrow> oclient \<Rightarrow> bool" where
  "handler_after ev c \<longleftrightarrow> o_handler c \<or>
     (\<not> o_lua c \<and> \<not> (o_master c \<and> \<not> o_force_reply c) \<and> \<not> o_fd c \<le> 0 \<and> o_buf c = [] \<and> o_reply c = [] \<and> o_online c \<and> ev)"

lemma handler_irrelevant [simp]:
  "owf (c\<lparr>o_handler := h\<rparr>) = owf c" "pending (c\<lparr>o_handler := h\<rparr>) = pending c"
  by (simp_all add: owf_def pending_def)

lemma writable_iff:
  "writable ev c \<longleftrightarrow> o_lua c \<or> (\<not> (o_master c \<and> \<not> o_force_reply c) \<and> \<not> o_fd c \<le> 0 \<and> (o_buf c = [] \<and> o_reply c = [] \<and> o_online c \<longrightarrow> ev))"
  by (simp add: writable_def prepareClientToWrite_def)

lemma prepare_eq: "prepareClientToWrite ev c = (c\<lparr>o_handler := handler_after ev c\<rparr>, writable ev c)"
  by (cases c) (auto simp: writable_iff prepareClientToWrite_def handler_after_def)

lemma handler_after_ok:
  assumes "handler_ok c"
  shows "writable ev c \<Longrightarrow> o_lua c \<or> \<not> o_online c \<or> handler_after ev c"
    "\<not> writable ev c \<Longrightarrow> handler_after ev c = o_handler c"
  using assms unfolding handler_ok_def writable_iff handler_after_def by blast+

lemma async_irrelevant [simp]:
  "owf (asyncCloseClientOnOutputBufferLimitReached over c) = owf c"
  "pending (asyncCloseClientOnOutputBufferLimitReached over c) = pending c"
  "handler_ok (asyncCloseClientOnOutputBufferLimitReached over c) = handler_ok c"
  "writable ev (asyncCloseClientOnOutputBufferLimitReached over c) = writable ev c"
  by (simp_all add: owf_def pending_def handler_ok_def writable_iff)

lemma owf_append:
  assumes "owf c" "o_reply c = []" "length s \<le> REDIS_REPLY_CHUNK_BYTES - length (o_buf c)"
  shows "owf (c\<lparr>o_buf := o_buf c @ s, o_handler := h\<rparr>)"
proof -
  have "length (o_buf c) \<le> REDIS_REPLY_CHUNK_BYTES" using assms(1) by (simp add: owf_def)
  then have "length (o_buf c @ s) \<le> REDIS_REPLY_CHUNK_BYTES" using assms(3) by simp
  then show ?thesis using assms(1,2) by (cases "o_buf c = []") (auto simp: owf_def)
qed

lemma owf_glue:
  assumes "owf c"
  shows "owf (c\<lparr>o_handler := h, o_reply := addReply_glue (o_reply c) s\<rparr>)"
proof (cases "o_reply c = []")
  case True
  then show ?thesis using assms by (auto simp: owf_def split: if_splits)
next
  case False
  then obtain t where "chunk_bytes (hd (addReply_glue (o_reply c) s)) = chunk_bytes (hd (o_reply c)) @ t" using hd_glue by blast
  then show ?thesis using assms by (auto simp: owf_def split: if_splits)
qed

lemma sentlen_le: "owf c \<Longrightarrow> o_sentlen c \<le> length (o_buf c @ concat (map chunk_bytes (o_reply c)))"
  by (cases "o_reply c") (auto simp: owf_def split: if_splits)

lemma push_bytes_queued:
  assumes "owf c" "handler_ok c"
  shows "queued ev c s (push_bytes ev over c s)"
proof (cases "writable ev c \<and> \<not> o_close_after c")
  case False
  let ?c = "c\<lparr>o_handler := handler_after ev c\<rparr>"
  have "push_bytes ev over c s = ?c" using False by (auto simp: push_bytes_def prepare_eq addReplyToBuffer_def)
  moreover have "pending ?c = pending c" "owf ?c" "writable ev ?c = writable ev c"
    using assms(1) by (simp_all add: writable_iff)
  moreover have "handler_ok ?c" using assms(2) handler_after_ok [OF assms(2), of ev] by (auto simp: handler_ok_def)
  ultimately show ?thesis using False by (auto simp: queued_def)
next
  case True
  note h = handler_after_ok(1) [OF assms(2), of ev]
  show ?thesis
  proof (cases "o_reply c = [] \<and> length s \<le> REDIS_REPLY_CHUNK_BYTES - length (o_buf c)")
    case b: True
    let ?c = "c\<lparr>o_buf := o_buf c @ s, o_handler := handler_after ev c\<rparr>"
    have e: "push_bytes ev over c s = ?c" using True b by (simp add: push_bytes_def prepare_eq addReplyToBuffer_def)
    have "pending ?c = pending c @ s" using b sentlen_le [OF assms(1)] by (simp add: pending_def)
    moreover have "writable ev ?c" using True by (auto simp: writable_iff)
    moreover have "owf ?c" using owf_append [OF assms(1)] b by blast
    ultimately show ?thesis unfolding e using True h by (simp add: queued_def handler_ok_def)
  next
    case b: False
    let ?c = "c\<lparr>o_handler := handler_after ev c, o_reply := addReply_glue (o_reply c) s\<rparr>"
    have e: "push_bytes ev over c s = asyncCloseClientOnOutputBufferLimitReached over ?c"
      using True b by (auto simp: push_bytes_def prepare_eq addReplyToBuffer_def addReplyStringToList_def)
    have "pending ?c = pending c @ s" using sentlen_le [OF assms(1)] by (simp add: pending_def concat_glue)
    moreover have "writable ev ?c" using True by (auto simp: writable_iff)
    moreover have "owf ?c" using assms(1) by (rule owf_glue)
    ultimately show ?thesis using True h unfolding e
      by (simp add: queued_def handler_ok_def)
  qed
qed

lemma push_bytes_eqs:
  "addReplyString ev over c s = push_bytes ev over c s" "addReplySds ev over c s = push_bytes ev over c s"
  "addReply ev over jk c (ORaw s) = Some (push_bytes ev over c s)"
  by (simp_all add: addReplyString_def addReplySds_def addReply_def push_bytes_def addReplyStringToList_def
      addReplySdsToList_def addReplyObjectToList_def split_beta Let_def)

section \<open>The wire format\<close>

definition obj_bytes :: "strobj \<Rightarrow> bytes" where
  "obj_bytes obj = (case obj of ORaw s \<Rightarrow> s | OInt v \<Rightarrow> ll_decimal v)"

fun obj_ok :: "strobj \<Rightarrow> bool" where
  "obj_ok (ORaw s) \<longleftrightarrow> length s < 2 ^ 63"
| "obj_ok (OInt v) \<longleftrightarrow> in_sint 64 v"

definition num_line :: "byte \<Rightarrow> int \<Rightarrow> bytes" where
  "num_line prefix v = prefix # ll_decimal v @ crlf"

definition bulk_bytes :: "bytes \<Rightarrow> bytes" where
  "bulk_bytes s = num_line 36 (int (length s)) @ s @ crlf"

lemma rd_block_prefix: "rd_block (xs @ ys) 0 (length xs) = Some xs"
  by (simp add: rd_block_def)

lemma ll2string_text:
  assumes "in_sint 64 v" "21 \<le> n" "n \<le> length dst"
  shows "\<exists>rest. ll2string dst n v = Some (length (ll_decimal v), ll_decimal v @ 0 # rest) \<and> length (ll_decimal v @ 0 # rest) = length dst"
proof -
  have l: "length (ll_decimal v) < n" using length_ll_decimal_le [OF assms(1)] assms(2) by simp
  then show ?thesis using ll2string_spec [OF assms(1,3)] assms(3) by simp
qed

lemma addReply_eq:
  assumes "obj_ok obj"
  shows "addReply ev over jk c obj = Some (push_bytes ev over c (obj_bytes obj))"
proof (cases obj)
  case (ORaw s)
  then show ?thesis by (simp add: push_bytes_eqs obj_bytes_def)
next
  case (OInt v)
  obtain rest where r: "ll2string (map jk [0..<32]) 32 v = Some (length (ll_decimal v), ll_decimal v @ 0 # rest)"
    using ll2string_text [of v 32 "map jk [0..<32]"] assms OInt by auto
  show ?thesis
  proof (cases "writable ev c")
    case False
    then show ?thesis by (simp add: addReply_def push_bytes_def prepare_eq)
  next
    case True
    then show ?thesis using OInt r rd_block_prefix [of "ll_decimal v" "0 # rest"]
      by (simp add: addReply_def push_bytes_def prepare_eq Let_def addReplyToBuffer_def addReplyObjectToList_def
          addReplyStringToList_def obj_bytes_def)
  qed
qed

lemma shared_hdr_line: "0 \<le> j \<Longrightarrow> j < int REDIS_SHARED_BULKHDR_LEN \<Longrightarrow> shared_hdr prefix j = Some (num_line prefix j)"
  by (simp add: shared_hdr_def num_line_def ll_decimal_def)

lemma two_bytes_after:
  "length rest \<ge> 2 \<Longrightarrow> wr (p # xs @ 0 # rest) (length xs + 1) 13 \<bind> (\<lambda>b. wr b (length xs + 2) 10) \<bind> (\<lambda>b. rd_block b 0 (length xs + 3)) =
     Some (p # xs @ crlf)"
proof -
  assume "2 \<le> length rest"
  then obtain a b r where "rest = a # b # r" by (metis Suc_le_length_iff numeral_2_eq_2)
  moreover have "take (length xs + 3) (p # xs @ 13 # 10 # ys) = p # xs @ [13, 10]" for ys by (simp add: numeral_3_eq_3)
  ultimately show ?thesis by (simp add: wr_def rd_block_def crlf_def list_update_append)
qed

lemma prefix_eq:
  assumes "in_sint 64 v" "prefix = 42 \<or> prefix = 36 \<longrightarrow> 0 \<le> v"
  shows "addReplyLongLongWithPrefix ev over jk c v prefix = Some (push_bytes ev over c (num_line prefix v))"
proof (cases "(prefix = 42 \<or> prefix = 36) \<and> v < int REDIS_SHARED_BULKHDR_LEN")
  case True
  then show ?thesis using shared_hdr_line [of v prefix] assms(2) by (simp add: addReplyLongLongWithPrefix_def push_bytes_eqs)
next
  case False
  obtain rest where r: "ll2string (map jk [1..<128]) 127 v = Some (length (ll_decimal v), ll_decimal v @ 0 # rest)"
    "length (ll_decimal v @ 0 # rest) = 127"
    using ll2string_text [OF assms(1), of 127 "map jk [1..<128]"] by auto
  have "2 \<le> length rest" using r(2) length_ll_decimal_le [OF assms(1)] by simp
  from two_bytes_after [OF this, of prefix "ll_decimal v"] show ?thesis
    using False r(1) by (auto simp: addReplyLongLongWithPrefix_def num_line_def Let_def bind_eq_Some_conv push_bytes_eqs)
qed

lemma longlong_eq: "in_sint 64 v \<Longrightarrow> addReplyLongLong ev over jk c v = Some (push_bytes ev over c (num_line 58 v))"
proof -
  assume v: "in_sint 64 v"
  have "num_line 58 0 = [58, 48, 13, 10]" "num_line 58 1 = [58, 49, 13, 10]"
    by (simp_all add: num_line_def ll_decimal_def crlf_def dec_digits.simps)
  then show ?thesis using prefix_eq [OF v, of 58] by (simp add: addReplyLongLong_def push_bytes_eqs)
qed

lemma multibulk_eq: "in_sint 64 v \<Longrightarrow> 0 \<le> v \<Longrightarrow> addReplyMultiBulkLen ev over jk c v = Some (push_bytes ev over c (num_line 42 v))"
  using prefix_eq [of v 42] shared_hdr_line [of v 42] by (simp add: addReplyMultiBulkLen_def push_bytes_eqs)

lemma count_digits_eq: "count_digits n k + 1 = k + ndigits n"
proof (induction n k rule: count_digits.induct)
  case (1 n len)
  show ?case
  proof (cases "n < 10")
    case True
    then show ?thesis by (simp add: count_digits.simps [of n] ndigits.simps [of n])
  next
    case False
    then have "n div 10 \<noteq> 0" by auto
    then show ?thesis using "1.IH" False by (simp add: count_digits.simps [of n] ndigits.simps [of n])
  qed
qed

lemma bulk_len_ok: "obj_ok obj \<Longrightarrow> obj \<noteq> OInt (- (2 ^ 63)) \<Longrightarrow> bulk_len obj = Some (length (obj_bytes obj))"
  using count_digits_eq [of _ 1] count_digits_eq [of _ 2]
  by (cases obj) (auto simp: bulk_len_def obj_bytes_def ll_decimal_def)

lemma bulklen_eq:
  assumes "obj_ok obj" "obj \<noteq> OInt (- (2 ^ 63))"
  shows "addReplyBulkLen ev over jk c obj = Some (push_bytes ev over c (num_line 36 (int (length (obj_bytes obj)))))"
proof -
  have "length (obj_bytes obj) < 2 ^ 63"
  proof (cases obj)
    case (OInt v)
    then show ?thesis using assms(1) length_ll_decimal_le [of v] by (simp add: obj_bytes_def)
  qed (use assms(1) in \<open>simp add: obj_bytes_def\<close>)
  then show ?thesis
    using prefix_eq [of "int (length (obj_bytes obj))" 36] bulk_len_ok [OF assms] shared_hdr_line [of "int (length (obj_bytes obj))" 36]
    by (auto simp: addReplyBulkLen_def push_bytes_eqs)
qed

section \<open>Sequences of replies\<close>

datatype rop =
    RString bytes | RSds bytes | RObject strobj | RError bytes | RStatus bytes
  | RInt int | RMultiLen int | RBulk strobj | RBulkBuf bytes | RBulkInt int

fun run_rop :: "bool \<Rightarrow> (oclient \<Rightarrow> bool) \<Rightarrow> (nat \<Rightarrow> byte) \<Rightarrow> oclient \<Rightarrow> rop \<Rightarrow> oclient option" where
  "run_rop ev over jk c (RString s) = Some (addReplyString ev over c s)"
| "run_rop ev over jk c (RSds s) = Some (addReplySds ev over c s)"
| "run_rop ev over jk c (RObject x) = addReply ev over jk c x"
| "run_rop ev over jk c (RError s) = Some (addReplyErrorFormat ev over c s)"
| "run_rop ev over jk c (RStatus s) = Some (addReplyStatusLength ev over c s)"
| "run_rop ev over jk c (RInt v) = addReplyLongLong ev over jk c v"
| "run_rop ev over jk c (RMultiLen v) = addReplyMultiBulkLen ev over jk c v"
| "run_rop ev over jk c (RBulk x) = addReplyBulk ev over jk c x"
| "run_rop ev over jk c (RBulkBuf s) = addReplyBulkCBuffer ev over jk c s"
| "run_rop ev over jk c (RBulkInt v) = addReplyBulkLongLong ev over jk c v"

fun rop_ok :: "rop \<Rightarrow> bool" where
  "rop_ok (RObject x) \<longleftrightarrow> obj_ok x"
| "rop_ok (RInt v) \<longleftrightarrow> in_sint 64 v"
| "rop_ok (RMultiLen v) \<longleftrightarrow> in_sint 64 v \<and> 0 \<le> v"
| "rop_ok (RBulk x) \<longleftrightarrow> obj_ok x \<and> x \<noteq> OInt (- (2 ^ 63))"
| "rop_ok (RBulkBuf s) \<longleftrightarrow> length s < 2 ^ 63"
| "rop_ok (RBulkInt v) \<longleftrightarrow> in_sint 64 v"
| "rop_ok _ \<longleftrightarrow> True"

text \<open>The wire format of a reply.\<close>

definition one_line :: "bytes \<Rightarrow> bytes" where
  "one_line s = map (\<lambda>b. if b = 13 \<or> b = 10 then 32 else b) s"

fun rop_bytes :: "rop \<Rightarrow> bytes" where
  "rop_bytes (RString s) = s"
| "rop_bytes (RSds s) = s"
| "rop_bytes (RObject x) = obj_bytes x"
| "rop_bytes (RError s) = [45, 69, 82, 82, 32] @ one_line s @ crlf"
| "rop_bytes (RStatus s) = 43 # s @ crlf"
| "rop_bytes (RInt v) = num_line 58 v"
| "rop_bytes (RMultiLen v) = num_line 42 v"
| "rop_bytes (RBulk x) = bulk_bytes (obj_bytes x)"
| "rop_bytes (RBulkBuf s) = bulk_bytes s"
| "rop_bytes (RBulkInt v) = bulk_bytes (ll_decimal v)"

text \<open>Every reply is a few pushes of its pieces.\<close>

lemma run_rop_pieces:
  assumes "rop_ok op"
  shows "\<exists>ps. concat ps = rop_bytes op \<and> run_rop ev over jk c op = Some (foldl (push_bytes ev over) c ps)"
proof -
  let ?f = "\<lambda>ps. concat ps = rop_bytes op \<and> run_rop ev over jk c op = Some (foldl (push_bytes ev over) c ps)"
  have buf: "addReplyBulkCBuffer ev over jk c s = Some (foldl (push_bytes ev over) c [num_line 36 (int (length s)), s, crlf])"
    if "length s < 2 ^ 63" for s
    using prefix_eq [of "int (length s)" 36] that by (simp add: addReplyBulkCBuffer_def push_bytes_eqs)
  have "?f (case op of
      RError s \<Rightarrow> [[45, 69, 82, 82, 32], one_line s, crlf]
    | RStatus s \<Rightarrow> [[43], s, crlf]
    | RBulk x \<Rightarrow> [num_line 36 (int (length (obj_bytes x))), obj_bytes x, crlf]
    | RBulkBuf s \<Rightarrow> [num_line 36 (int (length s)), s, crlf]
    | RBulkInt v \<Rightarrow> [num_line 36 (int (length (ll_decimal v))), ll_decimal v, crlf]
    | _ \<Rightarrow> [rop_bytes op])"
  proof (cases op)
    case (RBulk x)
    then show ?thesis using assms by (simp add: addReplyBulk_def bulklen_eq addReply_eq push_bytes_eqs bulk_bytes_def)
  next
    case (RBulkBuf s)
    then show ?thesis using assms buf [of s] by (simp add: bulk_bytes_def)
  next
    case (RBulkInt v)
    then have v: "in_sint 64 v" using assms by simp
    obtain rest where r: "ll2string (map jk [0..<64]) 64 v = Some (length (ll_decimal v), ll_decimal v @ 0 # rest)"
      using ll2string_text [OF v, of 64 "map jk [0..<64]"] by auto
    have "length (ll_decimal v) < 2 ^ 63" using length_ll_decimal_le [OF v] by simp
    from buf [OF this] show ?thesis using RBulkInt r rd_block_prefix [of "ll_decimal v" "0 # rest"]
      by (simp add: addReplyBulkLongLong_def bulk_bytes_def)
  qed (use assms in \<open>simp_all add: push_bytes_eqs addReply_eq addReplyErrorFormat_def addReplyErrorLength_def addReplyStatusLength_def
      one_line_def longlong_eq multibulk_eq\<close>)
  then show ?thesis by blast
qed

text \<open>A client that takes replies, with the bytes \<open>xs\<close> queued.\<close>

definition out_rep :: "bool \<Rightarrow> oclient \<Rightarrow> bytes \<Rightarrow> bool" where
  "out_rep ev c xs \<longleftrightarrow> owf c \<and> handler_ok c \<and> writable ev c \<and> \<not> o_close_after c \<and> pending c = xs"

lemma push_rep: "out_rep ev c xs \<Longrightarrow> out_rep ev (push_bytes ev over c s) (xs @ s)"
  using push_bytes_queued [of c ev s over] by (auto simp: out_rep_def queued_def)

interpretation outq: byte_appender "\<lambda>c s. Some (addReplyString ev over c s)" "out_rep ev" cap
  for ev over cap
  by unfold_locales (simp add: push_rep push_bytes_eqs)

lemma pushes_rep: "out_rep ev c xs \<Longrightarrow> out_rep ev (foldl (push_bytes ev over) c ps) (xs @ concat ps)"
proof (induction ps arbitrary: c xs)
  case (Cons p ps)
  from Cons.IH [OF push_rep [OF Cons.prems]] show ?case by simp
qed simp

lemma run_rop_rep: "out_rep ev c xs \<Longrightarrow> rop_ok op \<Longrightarrow> \<exists>c'. run_rop ev over jk c op = Some c' \<and> out_rep ev c' (xs @ rop_bytes op)"
  using run_rop_pieces [of op ev over jk c] pushes_rep by metis

lemma run_rops_rep:
  assumes "out_rep ev c xs" "\<forall>op\<in>set ops. rop_ok op"
  shows "\<exists>c'. ofold (run_rop ev over jk) c ops = Some c' \<and> out_rep ev c' (xs @ concat (map rop_bytes ops))"
  by (rule outq.ofold_app [where cap = "length (xs @ concat (map rop_bytes ops))"]) (use assms run_rop_rep in auto)

text \<open>With a placeholder in the chunk list, replies go behind it.\<close>

definition held :: "bytes \<Rightarrow> nat \<Rightarrow> bytes option list \<Rightarrow> oclient \<Rightarrow> bytes \<Rightarrow> bool" where
  "held b sent r0 c xs \<longleftrightarrow> o_buf c = b \<and> o_sentlen c = sent \<and>
     (\<exists>r1. o_reply c = r0 @ None # r1 \<and> concat (map chunk_bytes r1) = xs)"

lemma glue_behind: "\<exists>r1'. addReply_glue (r0 @ None # r1) s = r0 @ None # r1' \<and> concat (map chunk_bytes r1') = concat (map chunk_bytes r1) @ s"
proof (cases r1 rule: rev_cases)
  case Nil
  then show ?thesis by (simp add: addReply_glue_def)
next
  case (snoc r x)
  then show ?thesis by (cases x) (auto simp: addReply_glue_def butlast_append)
qed

lemma push_held:
  assumes "held b sent r0 c xs" "out_rep ev c ys"
  shows "held b sent r0 (push_bytes ev over c s) (xs @ s)"
proof -
  obtain r1 where r1: "o_reply c = r0 @ None # r1" "concat (map chunk_bytes r1) = xs" using assms(1) by (auto simp: held_def)
  have "push_bytes ev over c s = asyncCloseClientOnOutputBufferLimitReached over
      (c\<lparr>o_handler := handler_after ev c, o_reply := addReply_glue (o_reply c) s\<rparr>)"
    using assms(2) r1(1) by (simp add: push_bytes_def prepare_eq addReplyToBuffer_def addReplyStringToList_def out_rep_def)
  then show ?thesis using assms(1) r1 glue_behind [of r0 r1 s] by (auto simp: held_def)
qed

lemma pushes_held:
  "held b sent r0 c xs \<Longrightarrow> out_rep ev c ys \<Longrightarrow> held b sent r0 (foldl (push_bytes ev over) c ps) (xs @ concat ps)"
proof (induction ps arbitrary: c xs ys)
  case (Cons p ps)
  from Cons.IH [OF push_held [OF Cons.prems] push_rep [OF Cons.prems(2)]] show ?case by simp
qed simp

lemma run_rops_held:
  assumes "held b sent r0 c xs" "out_rep ev c ys" "\<forall>op\<in>set ops. rop_ok op" "ofold (run_rop ev over jk) c ops = Some c'"
  shows "held b sent r0 c' (xs @ concat (map rop_bytes ops)) \<and> out_rep ev c' (ys @ concat (map rop_bytes ops))"
  using assms
proof (induction ops arbitrary: c xs ys)
  case (Cons op ops)
  obtain ps where ps: "concat ps = rop_bytes op" "run_rop ev over jk c op = Some (foldl (push_bytes ev over) c ps)"
    using run_rop_pieces [of op ev over jk c] Cons.prems(3) by auto
  have "ofold (run_rop ev over jk) (foldl (push_bytes ev over) c ps) ops = Some c'" using Cons.prems(4) ps(2) by simp
  from Cons.IH [OF pushes_held [OF Cons.prems(1,2)] pushes_rep [OF Cons.prems(2)] _ this] Cons.prems(3) ps(1)
  show ?case by simp
qed simp

section \<open>The write handler\<close>

text \<open>No placeholder is left in the chunk list.\<close>

definition complete :: "oclient \<Rightarrow> bool" where
  "complete c \<longleftrightarrow> None \<notin> set (o_reply c)"

lemma write_out_piece:
  assumes "off < length s"
  shows "drop off s = write_out w s off @ drop (off + length (write_out w s off)) s" "off + length (write_out w s off) \<le> length s"
proof -
  obtain k where k: "write_out w s off = take k (drop off s)" by (cases w) (auto simp: write_out_def intro: that [of 0])
  show "drop off s = write_out w s off @ drop (off + length (write_out w s off)) s"
  proof (cases "k \<le> length (drop off s)")
    case True
    then have "length (write_out w s off) = k" using k by simp
    then show ?thesis using k by (metis add.commute append_take_drop_id drop_drop)
  next
    case False
    then show ?thesis using k by simp
  qed
  show "off + length (write_out w s off) \<le> length s" using k assms by simp
qed

text \<open>One successful write from a piece that is the static buffer or the first chunk.\<close>

lemma send_buf_step:
  assumes "owf c" "complete c" "o_buf c \<noteq> []" "o1 = write_out w (o_buf c) (o_sentlen c)"
    and "c' = (if o_sentlen c + length o1 = length (o_buf c) then c\<lparr>o_buf := [], o_sentlen := 0\<rparr> else c\<lparr>o_sentlen := o_sentlen c + length o1\<rparr>)"
  shows "pending c = o1 @ pending c'" "owf c'" "complete c'"
proof -
  have sl: "o_sentlen c < length (o_buf c)" using assms(1,3) by (auto simp: owf_def)
  note p = write_out_piece [OF sl, of w, folded assms(4)]
  show "pending c = o1 @ pending c'" unfolding assms(5) using p sl by (simp add: pending_def)
  show "owf c'" "complete c'" unfolding assms(5) using assms(1-3) p(2) by (auto simp: owf_def complete_def)
qed

lemma send_chunk_step:
  assumes "owf c" "complete c" "o_buf c = []" "o_reply c = Some obj # rest" "obj \<noteq> []" "o1 = write_out w obj (o_sentlen c)"
    and "c' = (if o_sentlen c + length o1 = length obj then c\<lparr>o_reply := rest, o_sentlen := 0\<rparr> else c\<lparr>o_sentlen := o_sentlen c + length o1\<rparr>)"
  shows "pending c = o1 @ pending c'" "owf c'" "complete c'"
proof -
  have sl: "o_sentlen c < length obj" using assms(1,3-5) by (auto simp: owf_def)
  note p = write_out_piece [OF sl, of w, folded assms(6)]
  show "pending c = o1 @ pending c'" unfolding assms(7) using p sl assms(3,4) by (simp add: pending_def)
  show "owf c'" "complete c'" unfolding assms(7) using assms(1-4) p(2) by (auto simp: owf_def complete_def)
qed

text \<open>The fields sending does not touch.\<close>

definition conn :: "oclient \<Rightarrow> bool \<times> bool \<times> bool \<times> int \<times> bool" where
  "conn c = (o_lua c, o_master c, o_force_reply c, o_fd c, o_online c)"

lemma conn_simps [simp]: "conn (c\<lparr>o_buf := b\<rparr>) = conn c" "conn (c\<lparr>o_reply := r\<rparr>) = conn c" "conn (c\<lparr>o_sentlen := n\<rparr>) = conn c"
  "conn (c\<lparr>o_handler := f\<rparr>) = conn c" "conn (c\<lparr>o_close_asap := g\<rparr>) = conn c"
  by (simp_all add: conn_def)

definition sent_ok :: "oclient \<Rightarrow> bytes \<Rightarrow> (oclient \<times> bytes \<times> wres) option \<Rightarrow> bool" where
  "sent_ok c out r \<longleftrightarrow> (\<exists>c' o1 w. r = Some (c', out @ o1, w) \<and> o1 @ pending c' = pending c \<and>
     owf c' \<and> complete c' \<and> o_close_after c' = o_close_after c \<and> o_handler c' = o_handler c \<and> conn c' = conn c)"

lemma send_round:
  assumes "r = (if o1 = [] then Some (c, out, w0) else if big then Some (c1, out @ o1, w0) else if ws = [] then None else r1)"
    and "owf c" "complete c" "pending c = o1 @ pending c1" "owf c1" "complete c1"
    and "o_close_after c1 = o_close_after c" "o_handler c1 = o_handler c" "ws = [] \<Longrightarrow> o1 = []"
    and "ws \<noteq> [] \<Longrightarrow> sent_ok c1 (out @ o1) r1" "conn c1 = conn c"
  shows "sent_ok c out r"
proof -
  consider "o1 = []" | "o1 \<noteq> []" big | "o1 \<noteq> []" "\<not> big" by blast
  then show ?thesis
  proof cases
    case 1
    then show ?thesis using assms(1-3) by (simp add: sent_ok_def)
  next
    case 2
    then show ?thesis using assms by (simp add: sent_ok_def)
  next
    case 3
    then have ws: "ws \<noteq> []" using assms(9) by blast
    from assms(10) [OF this] obtain c' o2 w where "r1 = Some (c', (out @ o1) @ o2, w)" "o2 @ pending c' = pending c1"
      "owf c'" "complete c'" "o_close_after c' = o_close_after c1" "o_handler c' = o_handler c1" "conn c' = conn c1" by (auto simp: sent_ok_def)
    then show ?thesis using assms(1,4,7,8,11) 3 ws by (auto simp: sent_ok_def intro!: exI [of _ "o1 @ o2"])
  qed
qed

lemma send_loop_ok: "owf c \<Longrightarrow> complete c \<Longrightarrow> sent_ok c out (send_loop nolimit c ws tot out)"
proof (induction "length ws + length (o_reply c)" arbitrary: c ws tot out rule: less_induct)
  case less
  let ?w = "if ws = [] then WouldBlock else hd ws"
  have none: "ws = [] \<Longrightarrow> write_out ?w s off = []" for s off by (simp add: write_out_def)
  have IH: "sent_ok c1 out1 (send_loop nolimit c1 (tl ws) tot1 out1)"
    if "ws \<noteq> []" "length (o_reply c1) \<le> length (o_reply c)" "owf c1" "complete c1" for c1 tot1 out1
    using that by (intro less.hyps) (cases ws, simp_all)
  show ?case
  proof (cases "o_buf c \<noteq> []")
    case buf: True
    let ?o1 = "write_out ?w (o_buf c) (o_sentlen c)"
    let ?c = "if o_sentlen c + length ?o1 = length (o_buf c) then c\<lparr>o_buf := [], o_sentlen := 0\<rparr> else c\<lparr>o_sentlen := o_sentlen c + length ?o1\<rparr>"
    note step = send_buf_step [OF less.prems buf refl refl, of ?w]
    show ?thesis
    proof (rule send_round [OF _ less.prems step])
      show "send_loop nolimit c ws tot out = (if ?o1 = [] then Some (c, out, ?w)
        else if tot + length ?o1 > REDIS_MAX_WRITE_PER_EVENT \<and> \<not> nolimit then Some (?c, out @ ?o1, ?w)
        else if ws = [] then None else send_loop nolimit ?c (tl ws) (tot + length ?o1) (out @ ?o1))"
        using buf by (subst send_loop.simps) (simp only: Let_def if_True not_False_eq_True simp_thms)
      show "ws \<noteq> [] \<Longrightarrow> sent_ok ?c (out @ ?o1) (send_loop nolimit ?c (tl ws) (tot + length ?o1) (out @ ?o1))"
        by (rule IH [OF _ _ step(2,3)]) simp_all
    qed (use none in simp_all)
  next
    case buf: False
    then have b: "o_buf c = []" by simp
    show ?thesis
    proof (cases "o_reply c")
      case Nil
      then show ?thesis using b less.prems by (subst send_loop.simps) (simp add: Let_def sent_ok_def)
    next
      case (Cons x rest)
      then obtain obj where r: "o_reply c = Some obj # rest" using less.prems(2) by (cases x) (auto simp: complete_def)
      show ?thesis
      proof (cases "obj = []")
        case True
        let ?c = "c\<lparr>o_reply := rest\<rparr>"
        have s0: "o_sentlen c = 0" using less.prems(1) b r True by (auto simp: owf_def)
        have wf: "owf ?c" "complete ?c" "pending ?c = pending c" using less.prems s0 b r True by (auto simp: owf_def complete_def pending_def)
        have eq: "send_loop nolimit c ws tot out = send_loop nolimit ?c ws tot out" using b r True by (subst send_loop.simps) (simp add: Let_def)
        have "length ws + length (o_reply ?c) < length ws + length (o_reply c)" using r by simp
        from less.hyps [OF this wf(1,2), of out tot] show ?thesis unfolding eq sent_ok_def wf(3) by simp
      next
        case ne: False
        let ?o1 = "write_out ?w obj (o_sentlen c)"
        let ?c = "if o_sentlen c + length ?o1 = length obj then c\<lparr>o_reply := rest, o_sentlen := 0\<rparr> else c\<lparr>o_sentlen := o_sentlen c + length ?o1\<rparr>"
        note step = send_chunk_step [OF less.prems b r ne refl refl, of ?w]
        show ?thesis
        proof (rule send_round [OF _ less.prems step])
          show "send_loop nolimit c ws tot out = (if ?o1 = [] then Some (c, out, ?w)
            else if tot + length ?o1 > REDIS_MAX_WRITE_PER_EVENT \<and> \<not> nolimit then Some (?c, out @ ?o1, ?w)
            else if ws = [] then None else send_loop nolimit ?c (tl ws) (tot + length ?o1) (out @ ?o1))"
            using b r ne by (subst send_loop.simps) (simp only: Let_def list.case option.case if_False simp_thms length_0_conv)
          show "ws \<noteq> [] \<Longrightarrow> sent_ok ?c (out @ ?o1) (send_loop nolimit ?c (tl ws) (tot + length ?o1) (out @ ?o1))"
            by (rule IH [OF _ _ step(2,3)]) (use r in simp_all)
        qed (use none in simp_all)
      qed
    qed
  qed
qed

section \<open>Properties\<close>

text \<open>
  C27. Any sequence of replies to a client that may be written to queues exactly the wire
  format of these replies, in order, behind what was queued before, across the static
  buffer and the chunk list, and the write handler is installed whenever bytes are
  queued.
\<close>

theorem replies_in_order:
  assumes "owf c" "handler_ok c" "writable ev c" "\<not> o_close_after c" "\<forall>op\<in>set ops. rop_ok op"
  shows "\<exists>c'. ofold (run_rop ev over jk) c ops = Some c' \<and> pending c' = pending c @ concat (map rop_bytes ops) \<and>
     owf c' \<and> handler_ok c'"
proof -
  have r: "out_rep ev c (pending c)" using assms(1-4) by (simp add: out_rep_def)
  obtain c' where "ofold (run_rop ev over jk) c ops = Some c'" "out_rep ev c' (pending c @ concat (map rop_bytes ops))"
    using run_rops_rep [OF r assms(5)] by blast
  then show ?thesis by (auto simp: out_rep_def)
qed

text \<open>A client as \<open>createClient\<close> makes it, on file descriptor 5.\<close>

definition fresh_client :: oclient where
  "fresh_client = \<lparr>o_lua = False, o_master = False, o_force_reply = False, o_close_after = False, o_close_asap = False, o_fd = 5,
     o_online = True, o_buf = [], o_reply = [], o_sentlen = 0, o_handler = False\<rparr>"

lemma fresh_client_ok: "owf fresh_client" "handler_ok fresh_client" "writable True fresh_client" "\<not> o_close_after fresh_client" "pending fresh_client = []"
  by (simp_all add: fresh_client_def owf_def handler_ok_def writable_iff pending_def)

theorem replies_in_order_witness:
  "\<exists>c'. ofold (run_rop True (\<lambda>_. False) (\<lambda>_. 0)) fresh_client [RMultiLen 2, RBulk (ORaw [97]), RInt 5] = Some c' \<and>
     pending c' = [42, 50, 13, 10, 36, 49, 13, 10, 97, 13, 10, 58, 53, 13, 10] \<and> owf c' \<and> handler_ok c'"
  using replies_in_order [OF fresh_client_ok(1-4), of "[RMultiLen 2, RBulk (ORaw [97]), RInt 5]" "\<lambda>_. False" "\<lambda>_. 0"]
  by (simp add: fresh_client_ok num_line_def bulk_bytes_def obj_bytes_def ll_decimal_def crlf_def dec_digits.simps)

text \<open>
  A reply whose length is filled in later: the placeholder of
  \<open>addDeferredMultiBulkLength\<close>, any replies, and \<open>setDeferredMultiBulkLength\<close> queue the length
  line and then the replies, although the length was computed last.
\<close>

lemma deferred_length:
  assumes "owf c" "handler_ok c" "writable ev c" "\<not> o_close_after c" "\<forall>op\<in>set ops. rop_ok op"
    and "addDeferredMultiBulkLength ev c = (c1, node)"
  shows "\<exists>c2 c3. ofold (run_rop ev over jk) c1 ops = Some c2 \<and> setDeferredMultiBulkLength over c2 node n = Some c3 \<and>
     pending c3 = pending c @ num_line 42 n @ concat (map rop_bytes ops) \<and> owf c3"
proof -
  have c1: "c1 = c\<lparr>o_handler := handler_after ev c, o_reply := o_reply c @ [None]\<rparr>" "node = Some (length (o_reply c))"
    using assms(3,6) by (auto simp: addDeferredMultiBulkLength_def prepare_eq)
  have h: "held (o_buf c) (o_sentlen c) (o_reply c) c1 []" by (simp add: held_def c1)
  have ne: "o_reply c \<noteq> [] \<Longrightarrow> hd (o_reply c @ [None]) = hd (o_reply c)" by simp
  have wf1: "owf c1" using assms(1) ne by (cases "o_reply c = []") (auto simp: c1 owf_def split: if_splits)
  have "out_rep ev c1 (pending c1)"
    using wf1 assms(3,4) handler_after_ok(1) [OF assms(2,3)] by (auto simp: out_rep_def c1 handler_ok_def writable_iff)
  then obtain c2 where c2: "ofold (run_rop ev over jk) c1 ops = Some c2"
    using run_rops_rep [OF _ assms(5)] by blast
  obtain r1 where r1: "o_buf c2 = o_buf c" "o_sentlen c2 = o_sentlen c" "o_reply c2 = o_reply c @ None # r1"
    "concat (map chunk_bytes r1) = concat (map rop_bytes ops)" and wf2: "owf c2"
    using run_rops_held [OF h \<open>out_rep ev c1 (pending c1)\<close> assms(5) c2] by (auto simp: held_def out_rep_def)
  let ?H = "num_line 42 n"
  have "\<exists>r3. setDeferredMultiBulkLength over c2 node n = Some (asyncCloseClientOnOutputBufferLimitReached over (c2\<lparr>o_reply := o_reply c @ r3\<rparr>)) \<and>
      concat (map chunk_bytes r3) = ?H @ concat (map rop_bytes ops)"
  proof (cases r1)
    case Nil
    then show ?thesis using r1(3,4) c1(2) by (auto simp: setDeferredMultiBulkLength_def num_line_def nth_append Let_def list_update_append)
  next
    case (Cons x r2)
    then show ?thesis using r1(3,4) c1(2)
      by (cases x) (auto simp: setDeferredMultiBulkLength_def num_line_def nth_append Let_def list_update_append)
  qed
  then obtain r3 where r3: "setDeferredMultiBulkLength over c2 node n = Some (asyncCloseClientOnOutputBufferLimitReached over (c2\<lparr>o_reply := o_reply c @ r3\<rparr>))"
      "concat (map chunk_bytes r3) = ?H @ concat (map rop_bytes ops)" by blast
  have "pending (c2\<lparr>o_reply := o_reply c @ r3\<rparr>) = pending c @ num_line 42 n @ concat (map rop_bytes ops)"
    using sentlen_le [OF assms(1)] r1(1,2) r3(2) by (simp add: pending_def)
  moreover have "owf (c2\<lparr>o_reply := o_reply c @ r3\<rparr>)"
    using assms(1) r1(1,2) by (cases "o_reply c = []") (auto simp: owf_def split: if_splits)
  ultimately show ?thesis using c2 r3(1) by auto
qed

text \<open>The loop stops at an error only after successful writes, with bytes left to send.\<close>

definition fails_after :: "wres list \<Rightarrow> bool" where
  "fails_after ws \<longleftrightarrow> (\<exists>k < length ws. ws ! k = WError \<and> (\<forall>i < k. \<exists>n > 0. ws ! i = Accepts n))"

lemma fails_after_Cons: "ws \<noteq> [] \<Longrightarrow> write_out (hd ws) s off \<noteq> [] \<Longrightarrow> fails_after (tl ws) \<Longrightarrow> fails_after ws"
proof -
  assume a: "ws \<noteq> []" "write_out (hd ws) s off \<noteq> []" "fails_after (tl ws)"
  obtain n where n: "n > 0" "hd ws = Accepts n" using a(2) by (cases "hd ws") (auto simp: write_out_def intro: gr0I)
  obtain k where k: "k < length (tl ws)" "tl ws ! k = WError" "\<forall>i < k. \<exists>n > 0. tl ws ! i = Accepts n" using a(3) by (auto simp: fails_after_def)
  have "ws ! i = (case i of 0 \<Rightarrow> hd ws | Suc j \<Rightarrow> tl ws ! j)" for i using a(1) by (cases ws) (auto split: nat.split)
  then show "fails_after ws" using k n by (intro fails_after_def [THEN iffD2] exI [of _ "Suc k"]) (auto split: nat.splits)
qed

definition unsent :: "oclient \<Rightarrow> bool" where
  "unsent c \<longleftrightarrow> o_buf c \<noteq> [] \<or> (\<exists>obj rest. o_reply c = Some obj # rest \<and> obj \<noteq> [])"

lemma unsent_pending: "owf c \<Longrightarrow> unsent c \<Longrightarrow> pending c \<noteq> []"
  by (cases "o_buf c = []") (auto simp: owf_def unsent_def pending_def chunk_bytes_def)

lemma send_round_error:
  assumes "r = (if o1 = [] then Some (c, out, w) else if big then Some (c1, out @ o1, w) else if ws = [] then None else r1)"
    and "o1 = write_out w s off" "w = (if ws = [] then WouldBlock else hd ws)" "unsent c"
    and "ws \<noteq> [] \<Longrightarrow> r1 = Some (c', o', WError) \<Longrightarrow> fails_after (tl ws) \<and> unsent c'" "r = Some (c', o', WError)"
  shows "fails_after ws \<and> unsent c'"
proof (cases "w = WError")
  case True
  then have "fails_after ws" using assms(3) by (intro fails_after_def [THEN iffD2] exI [of _ 0]) (auto simp: hd_conv_nth split: if_splits)
  then show ?thesis using True assms(1,2,4,6) by (auto simp: write_out_def)
next
  case False
  then have o1: "o1 \<noteq> []" "ws \<noteq> []" "r1 = Some (c', o', WError)" using assms(1,6) by (auto split: if_splits)
  then show ?thesis using assms(2,3,5) fails_after_Cons [of ws s off] by simp
qed

lemma send_loop_error:
  "send_loop nolimit c ws tot out = Some (c', o', WError) \<Longrightarrow> fails_after ws \<and> unsent c'"
proof (induction "length ws + length (o_reply c)" arbitrary: c ws tot out rule: less_induct)
  case less
  let ?w = "if ws = [] then WouldBlock else hd ws"
  have IH: "fails_after (tl ws) \<and> unsent c'"
    if "ws \<noteq> []" "send_loop nolimit c1 (tl ws) tot1 out1 = Some (c', o', WError)" "length (o_reply c1) \<le> length (o_reply c)" for c1 tot1 out1
    by (rule less.hyps [OF _ that(2)]) (use that(1,3) in \<open>cases ws, simp_all\<close>)
  show ?case
  proof (cases "o_buf c \<noteq> []")
    case buf: True
    let ?o1 = "write_out ?w (o_buf c) (o_sentlen c)"
    let ?c = "if o_sentlen c + length ?o1 = length (o_buf c) then c\<lparr>o_buf := [], o_sentlen := 0\<rparr> else c\<lparr>o_sentlen := o_sentlen c + length ?o1\<rparr>"
    have "send_loop nolimit c ws tot out = (if ?o1 = [] then Some (c, out, ?w)
        else if tot + length ?o1 > REDIS_MAX_WRITE_PER_EVENT \<and> \<not> nolimit then Some (?c, out @ ?o1, ?w)
        else if ws = [] then None else send_loop nolimit ?c (tl ws) (tot + length ?o1) (out @ ?o1))"
      using buf by (subst send_loop.simps) (simp only: Let_def if_True not_False_eq_True simp_thms)
    then show ?thesis by (rule send_round_error [OF _ refl refl _ _ less.prems]) (use buf IH in \<open>simp_all add: unsent_def\<close>)
  next
    case buf: False
    then have b: "o_buf c = []" by simp
    show ?thesis
    proof (cases "o_reply c")
      case Nil
      then show ?thesis using b less.prems by (subst (asm) send_loop.simps) (simp add: Let_def)
    next
      case (Cons x rest)
      then obtain obj where r: "o_reply c = Some obj # rest" using less.prems b by (cases x) (auto simp: send_loop.simps [of nolimit c] Let_def)
      show ?thesis
      proof (cases "obj = []")
        case True
        have eq: "send_loop nolimit c ws tot out = send_loop nolimit (c\<lparr>o_reply := rest\<rparr>) ws tot out" using b r True by (subst send_loop.simps) (simp add: Let_def)
        show ?thesis by (rule less.hyps [OF _ less.prems [unfolded eq]]) (use r in simp)
      next
        case ne: False
        let ?o1 = "write_out ?w obj (o_sentlen c)"
        let ?c = "if o_sentlen c + length ?o1 = length obj then c\<lparr>o_reply := rest, o_sentlen := 0\<rparr> else c\<lparr>o_sentlen := o_sentlen c + length ?o1\<rparr>"
        have "send_loop nolimit c ws tot out = (if ?o1 = [] then Some (c, out, ?w)
            else if tot + length ?o1 > REDIS_MAX_WRITE_PER_EVENT \<and> \<not> nolimit then Some (?c, out @ ?o1, ?w)
            else if ws = [] then None else send_loop nolimit ?c (tl ws) (tot + length ?o1) (out @ ?o1))"
          using b r ne by (subst send_loop.simps) (simp only: Let_def list.case option.case if_False simp_thms length_0_conv)
        then show ?thesis by (rule send_round_error [OF _ refl refl _ _ less.prems]) (use r ne IH in \<open>simp_all add: unsent_def\<close>)
      qed
    qed
  qed
qed

text \<open>
  C28. The write handler loses, repeats and reorders nothing: whatever number of bytes the
  socket accepts at each call, the bytes handed to it followed by those still queued are
  the bytes that were queued, and the client stays, with its handler while bytes are queued and
  without it when all is sent.  The client is freed only when a write failed with an error
  other than \<open>EAGAIN\<close>, after writes that took some bytes each and before all was sent, or when
  everything was sent and it was to be closed after the reply.
\<close>

theorem sendReplyToClient_sends:
  assumes "owf c" "complete c"
  shows "\<exists>r out. sendReplyToClient nolimit c ws = Some (r, out) \<and>
     (case r of
        None \<Rightarrow> fails_after ws \<and> (\<exists>rest. out @ rest = pending c \<and> rest \<noteq> []) \<or> o_close_after c \<and> out = pending c
      | Some c' \<Rightarrow> out @ pending c' = pending c \<and> owf c' \<and> complete c' \<and>
          (o_buf c' = [] \<and> o_reply c' = [] \<longrightarrow> \<not> o_handler c' \<and> pending c' = [] \<and> \<not> o_close_after c') \<and>
          (o_buf c' \<noteq> [] \<or> o_reply c' \<noteq> [] \<longrightarrow> o_handler c' = o_handler c))"
proof -
  obtain c' o1 w where s: "send_loop nolimit c ws 0 [] = Some (c', o1, w)" "o1 @ pending c' = pending c" "owf c'" "complete c'"
    "o_close_after c' = o_close_after c" "o_handler c' = o_handler c"
    using send_loop_ok [OF assms, of "[]" nolimit ws 0] by (auto simp: sent_ok_def)
  consider "w = WError" | "w \<noteq> WError" "o_buf c' = [] \<and> o_reply c' = []" | "w \<noteq> WError" "\<not> (o_buf c' = [] \<and> o_reply c' = [])" by blast
  then show ?thesis
  proof cases
    case 1
    have e: "fails_after ws" "pending c' \<noteq> []" using send_loop_error s(1) 1 unsent_pending [OF s(3)] by blast+
    then show ?thesis using s(1,2) 1 e(1) by (auto simp: sendReplyToClient_def)
  next
    case 2
    then have "pending c' = []" by (simp add: pending_def)
    moreover have "pending (c'\<lparr>o_sentlen := 0, o_handler := False\<rparr>) = []" "owf (c'\<lparr>o_sentlen := 0, o_handler := False\<rparr>)"
      "complete (c'\<lparr>o_sentlen := 0, o_handler := False\<rparr>)" using 2 by (simp_all add: pending_def owf_def complete_def)
    ultimately show ?thesis using s 2 by (cases "o_close_after c'") (auto simp: sendReplyToClient_def)
  next
    case 3
    then show ?thesis using s by (auto simp: sendReplyToClient_def)
  qed
qed

theorem sendReplyToClient_sends_witness:
  "\<exists>c' out. sendReplyToClient False (fresh_client\<lparr>o_buf := [97, 98, 99], o_handler := True\<rparr>) [Accepts 2, WouldBlock] = Some (Some c', out) \<and>
     out @ pending c' = [97, 98, 99]"
proof -
  let ?c = "fresh_client\<lparr>o_buf := [97, 98, 99], o_handler := True\<rparr>" and ?ws = "[Accepts 2, WouldBlock]"
  have ok: "owf ?c" "complete ?c" and pend: "pending ?c = [97, 98, 99]" "\<not> o_close_after ?c"
    by (simp_all add: fresh_client_def owf_def complete_def pending_def REDIS_REPLY_CHUNK_BYTES_def)
  have nf: "\<not> fails_after ?ws" by (auto simp: fails_after_def nth_Cons split: nat.splits)
  show ?thesis
    using sendReplyToClient_sends [OF ok, of False ?ws] nf unfolding pend(1) using pend(2) by (auto split: option.splits)
qed

end
