(* ===== verification/NetIn.thy ===== *)
theory NetIn
  imports SdsText NetOut
begin

text \<open>
  The input side of a client connection, from \<open>networking.c\<close>: reading from the socket into
  the query buffer, recognising inline and multi bulk requests in it, however the bytes
  were cut into reads, and handing complete requests to \<open>processCommand\<close>.

  The query buffer is modelled by the content of its string; \<open>sdsrange(buf,pos,-1)\<close>, which
  keeps what starts at \<open>pos\<close>, is \<open>drop\<close> (theory \<open>Sds\<close> proves that of the string code).
  \<open>argv\<close> holds the arguments read so far.  The command itself is a parameter: a function of
  the server state, the output side of the client and the arguments.  Assertions of the code
  that fail are the value \<open>None\<close>.
\<close>

section \<open>State\<close>

definition REDIS_IOBUF_LEN :: nat where "REDIS_IOBUF_LEN = 1024 * 16"
definition REDIS_INLINE_MAX_SIZE :: nat where "REDIS_INLINE_MAX_SIZE = 1024 * 64"
definition REDIS_MBULK_BIG_ARG :: nat where "REDIS_MBULK_BIG_ARG = 1024 * 32"

datatype reqtype = ReqUnknown | ReqInline | ReqMultibulk

record iclient =
  i_querybuf :: bytes
  i_peak :: nat
  i_reqtype :: reqtype
  i_argv :: "bytes list"
  i_multibulklen :: nat
  i_bulklen :: int
  i_blocked :: bool
  i_slave :: bool
  i_ack_time :: int
  i_out :: oclient

text \<open>
  What the environment decides: whether events can be registered and output limits are
  exceeded (theory \<open>NetOut\<close>), the content of fresh memory and the clock.
\<close>

record ienv =
  e_ev :: bool
  e_over :: "oclient \<Rightarrow> bool"
  e_jk :: "nat \<Rightarrow> byte"
  e_now :: int

definition addReplyError :: "ienv \<Rightarrow> iclient \<Rightarrow> string \<Rightarrow> iclient" where
  "addReplyError E c err = c\<lparr>i_out := addReplyErrorLength (e_ev E) (e_over E) (i_out c) (map of_char err)\<rparr>"

text \<open>\<open>strchr\<close> on the bytes of a string: the first occurrence in front of the terminator.\<close>

fun strchr :: "byte \<Rightarrow> bytes \<Rightarrow> nat option" where
  "strchr ch [] = None"
| "strchr ch (b # bs) = (if b = ch then Some 0 else if b = 0 then None else map_option Suc (strchr ch bs))"

section \<open>Requests in the query buffer\<close>

definition resetClient :: "iclient \<Rightarrow> iclient" where
  "resetClient c = c\<lparr>i_argv := [], i_reqtype := ReqUnknown, i_multibulklen := 0, i_bulklen := -1\<rparr>"

definition setProtocolError :: "iclient \<Rightarrow> nat \<Rightarrow> iclient" where
  "setProtocolError c pos =
     c\<lparr>i_out := (i_out c)\<lparr>o_close_after := True\<rparr>, i_querybuf := drop pos (i_querybuf c)\<rparr>"

text \<open>The flag is the return value \<open>REDIS_OK\<close>.\<close>

definition processInlineBuffer :: "ienv \<Rightarrow> iclient \<Rightarrow> (iclient \<times> bool) option" where
  "processInlineBuffer E c =
     (let qb = i_querybuf c in
      case strchr 10 qb of
        None \<Rightarrow>
          if length qb > REDIS_INLINE_MAX_SIZE then
            Some (setProtocolError (addReplyError E c ''Protocol error: too big inline request'') 0, False)
          else Some (c, False)
      | Some nl \<Rightarrow>
          let querylen = (if nl \<noteq> 0 \<and> qb ! (nl - 1) = 13 then nl - 1 else nl) in
          do {
            r \<leftarrow> sdssplitargs (e_jk E) (take querylen qb @ [0]);
            (case r of
              None \<Rightarrow> Some (setProtocolError (addReplyError E c ''Protocol error: unbalanced quotes in request'') 0, False)
            | Some argv \<Rightarrow>
                let c = (if querylen = 0 \<and> i_slave c then c\<lparr>i_ack_time := e_now E\<rparr> else c) in
                Some (c\<lparr>i_querybuf := drop (querylen + 2) qb,
                        i_argv := filter (\<lambda>a. a \<noteq> []) (map sds_content argv)\<rparr>, True))
          })"

text \<open>
  One bulk length line of a multi bulk request at position \<open>pos\<close>: wait for more bytes, fail
  with a protocol error, or go on at a new position.
\<close>

datatype mbstep = MBreak | MError iclient | MGo iclient nat

definition mb_header :: "ienv \<Rightarrow> iclient \<Rightarrow> nat \<Rightarrow> mbstep" where
  "mb_header E c pos =
     (let qb = i_querybuf c in
      if i_bulklen c \<noteq> -1 then MGo c pos
      else case strchr 13 (drop pos qb) of
        None \<Rightarrow>
          if length qb > REDIS_INLINE_MAX_SIZE then
            MError (setProtocolError (addReplyError E c ''Protocol error: too big bulk count string'') 0)
          else MBreak
      | Some k \<Rightarrow>
          let newline = pos + k in
          if newline + 2 > length qb then MBreak
          else if qb ! pos \<noteq> 36 then
            MError (setProtocolError
              (c\<lparr>i_out := addReplyErrorFormat (e_ev E) (e_over E) (i_out c)
                 (map of_char ''Protocol error: expected '' @ [39, 36, 39] @ map of_char '', got '' @ [39, qb ! pos, 39])\<rparr>) pos)
          else case string2ll (take (newline - (pos + 1)) (drop (pos + 1) qb)) of
            None \<Rightarrow> MError (setProtocolError (addReplyError E c ''Protocol error: invalid bulk length'') pos)
          | Some ll \<Rightarrow>
              if ll < 0 \<or> ll > 512 * 1024 * 1024 then
                MError (setProtocolError (addReplyError E c ''Protocol error: invalid bulk length'') pos)
              else if ll \<ge> int REDIS_MBULK_BIG_ARG then
                MGo (c\<lparr>i_querybuf := drop (newline + 2) qb, i_bulklen := ll\<rparr>) 0
              else MGo (c\<lparr>i_bulklen := ll\<rparr>) (newline + 2))"

lemma mb_header_multibulklen: "mb_header E c pos = MGo c' pos' \<Longrightarrow> i_multibulklen c' = i_multibulklen c"
  by (auto simp: mb_header_def Let_def split: if_splits option.splits)

text \<open>
  The loop over the arguments: a protocol error, or the client and the position the loop
  stopped at.  When the buffer holds just a large argument the string itself becomes the
  argument.
\<close>

function mb_loop :: "ienv \<Rightarrow> iclient \<Rightarrow> nat \<Rightarrow> iclient + (iclient \<times> nat)" where
  "mb_loop E c pos =
     (if i_multibulklen c = 0 then Inr (c, pos)
      else case mb_header E c pos of
        MBreak \<Rightarrow> Inr (c, pos)
      | MError c \<Rightarrow> Inl c
      | MGo c pos \<Rightarrow>
          let qb = i_querybuf c; bl = nat (i_bulklen c) in
          if length qb - pos < bl + 2 then Inr (c, pos)
          else if pos = 0 \<and> bl \<ge> REDIS_MBULK_BIG_ARG \<and> length qb = bl + 2 then
            mb_loop E (c\<lparr>i_argv := i_argv c @ [take bl qb], i_querybuf := [], i_bulklen := -1,
                         i_multibulklen := i_multibulklen c - 1\<rparr>) 0
          else
            mb_loop E (c\<lparr>i_argv := i_argv c @ [take bl (drop pos qb)], i_bulklen := -1,
                         i_multibulklen := i_multibulklen c - 1\<rparr>) (pos + bl + 2))"
  by pat_completeness auto
termination
  by (relation "measure (\<lambda>(E, c, pos). i_multibulklen c)") (auto dest: mb_header_multibulklen)

declare mb_loop.simps [simp del]

text \<open>What the string at \<open>pos\<close> of the given length becomes, in the two ways of the code.\<close>

definition mb_steal :: "iclient \<Rightarrow> iclient" where
  "mb_steal c = c\<lparr>i_argv := i_argv c @ [take (nat (i_bulklen c)) (i_querybuf c)], i_querybuf := [], i_bulklen := -1,
     i_multibulklen := i_multibulklen c - 1\<rparr>"

definition mb_copy :: "iclient \<Rightarrow> nat \<Rightarrow> iclient" where
  "mb_copy c pos = c\<lparr>i_argv := i_argv c @ [take (nat (i_bulklen c)) (drop pos (i_querybuf c))], i_bulklen := -1,
     i_multibulklen := i_multibulklen c - 1\<rparr>"

definition mb_whole :: "iclient \<Rightarrow> nat \<Rightarrow> bool" where
  "mb_whole c pos \<longleftrightarrow> pos = 0 \<and> nat (i_bulklen c) \<ge> REDIS_MBULK_BIG_ARG \<and> length (i_querybuf c) = nat (i_bulklen c) + 2"

lemma mb_loop_go:
  "i_multibulklen c \<noteq> 0 \<Longrightarrow> mb_header E c pos = MGo c1 p1 \<Longrightarrow>
    mb_loop E c pos =
      (if length (i_querybuf c1) - p1 < nat (i_bulklen c1) + 2 then Inr (c1, p1)
       else if mb_whole c1 p1 then mb_loop E (mb_steal c1) 0
       else mb_loop E (mb_copy c1 p1) (p1 + nat (i_bulklen c1) + 2))"
  by (subst mb_loop.simps) (simp add: mb_whole_def mb_steal_def mb_copy_def Let_def)

lemma mb_loop_stop:
  "i_multibulklen c = 0 \<Longrightarrow> mb_loop E c pos = Inr (c, pos)"
  "i_multibulklen c \<noteq> 0 \<Longrightarrow> mb_header E c pos = MBreak \<Longrightarrow> mb_loop E c pos = Inr (c, pos)"
  "i_multibulklen c \<noteq> 0 \<Longrightarrow> mb_header E c pos = MError c1 \<Longrightarrow> mb_loop E c pos = Inl c1"
  by (simp_all add: mb_loop.simps [of E c pos])

definition mb_finish :: "iclient + (iclient \<times> nat) \<Rightarrow> iclient \<times> bool" where
  "mb_finish r =
     (case r of
        Inl c \<Rightarrow> (c, False)
      | Inr (c, pos) \<Rightarrow> (c\<lparr>i_querybuf := drop pos (i_querybuf c)\<rparr>, i_multibulklen c = 0))"

definition processMultibulkBuffer :: "ienv \<Rightarrow> iclient \<Rightarrow> (iclient \<times> bool) option" where
  "processMultibulkBuffer E c =
     (let qb = i_querybuf c in
      if i_multibulklen c = 0 then
       (if i_argv c \<noteq> [] then None
        else case strchr 13 qb of
          None \<Rightarrow>
            if length qb > REDIS_INLINE_MAX_SIZE then
              Some (setProtocolError (addReplyError E c ''Protocol error: too big mbulk count string'') 0, False)
            else Some (c, False)
        | Some newline \<Rightarrow>
            if newline + 2 > length qb then Some (c, False)
            else if qb ! 0 \<noteq> 42 then None
            else case string2ll (take (newline - 1) (drop 1 qb)) of
              None \<Rightarrow> Some (setProtocolError (addReplyError E c ''Protocol error: invalid multibulk length'') 0, False)
            | Some ll \<Rightarrow>
                if ll > 1024 * 1024 then
                  Some (setProtocolError (addReplyError E c ''Protocol error: invalid multibulk length'') 0, False)
                else if ll \<le> 0 then Some (c\<lparr>i_querybuf := drop (newline + 2) qb\<rparr>, True)
                else Some (mb_finish (mb_loop E (c\<lparr>i_multibulklen := nat ll\<rparr>) (newline + 2))))
      else Some (mb_finish (mb_loop E c 0)))"


text \<open>Every call that returns \<open>REDIS_OK\<close> consumes bytes, so the loop of \<open>processInputBuffer\<close> ends.\<close>

lemma mb_header_shrinks: "mb_header E c pos = MGo c' pos' \<Longrightarrow> length (i_querybuf c') - pos' \<le> length (i_querybuf c) - pos"
  by (auto simp: mb_header_def Let_def split: if_splits option.splits)

lemma mb_loop_shrinks:
  "mb_loop E c pos = Inr (c', pos') \<Longrightarrow>
     length (i_querybuf c') - pos' \<le> length (i_querybuf c) - pos \<and>
     (i_multibulklen c' < i_multibulklen c \<longrightarrow> length (i_querybuf c') - pos' < length (i_querybuf c) - pos)"
proof (induction "i_multibulklen c" arbitrary: c pos rule: less_induct)
  case less
  show ?case
  proof (cases "i_multibulklen c = 0")
    case True
    then show ?thesis using less.prems by (simp add: mb_loop_stop)
  next
    case False
    show ?thesis
    proof (cases "mb_header E c pos")
      case (MGo c1 p1)
      note sh = mb_header_shrinks [OF MGo] mb_header_multibulklen [OF MGo]
      let ?n = "nat (i_bulklen c1) + 2"
      have lt: "i_multibulklen (mb_steal c1) < i_multibulklen c" "i_multibulklen (mb_copy c1 p1) < i_multibulklen c"
        using False sh(2) by (simp_all add: mb_steal_def mb_copy_def)
      have qb: "i_querybuf (mb_steal c1) = []" "i_querybuf (mb_copy c1 p1) = i_querybuf c1" by (simp_all add: mb_steal_def mb_copy_def)
      consider "length (i_querybuf c1) - p1 < ?n" | "\<not> length (i_querybuf c1) - p1 < ?n" "mb_whole c1 p1"
        | "\<not> length (i_querybuf c1) - p1 < ?n" "\<not> mb_whole c1 p1" by blast
      then show ?thesis
      proof cases
        case 1
        then show ?thesis using less.prems sh mb_loop_go [OF False MGo] by simp
      next
        case 2
        then have "mb_loop E (mb_steal c1) 0 = Inr (c', pos')" using less.prems mb_loop_go [OF False MGo] by simp
        from less.hyps [OF lt(1) this] have "length (i_querybuf c') - pos' = 0" using qb(1) by simp
        then show ?thesis using 2(1) sh(1) by linarith
      next
        case 3
        then have "mb_loop E (mb_copy c1 p1) (p1 + nat (i_bulklen c1) + 2) = Inr (c', pos')"
          using less.prems mb_loop_go [OF False MGo] by simp
        from less.hyps [OF lt(2) this] have "length (i_querybuf c') - pos' \<le> length (i_querybuf c1) - (p1 + ?n)" using qb(2) by simp
        then show ?thesis using 3(1) sh(1) by linarith
      qed
    qed (use less.prems False in \<open>simp_all add: mb_loop_stop\<close>)
  qed
qed

lemma processMultibulkBuffer_shrinks:
  "processMultibulkBuffer E c = Some (c', True) \<Longrightarrow> i_querybuf c \<noteq> [] \<Longrightarrow> length (i_querybuf c') < length (i_querybuf c)"
  by (fastforce simp: processMultibulkBuffer_def mb_finish_def Let_def dest: mb_loop_shrinks split: if_splits option.splits sum.splits prod.splits)

lemma processInlineBuffer_shrinks:
  "processInlineBuffer E c = Some (c', True) \<Longrightarrow> i_querybuf c \<noteq> [] \<Longrightarrow> length (i_querybuf c') < length (i_querybuf c)"
  by (auto simp: processInlineBuffer_def Let_def bind_eq_Some_conv split: if_splits option.splits)


section \<open>The loop over requests and the read handler\<close>

text \<open>
  \<open>processCommand\<close> as the loop sees it: it may change the server and the output side of the
  client, may block the client, and returns whether the client can be reset.
\<close>

type_synonym 's command = "'s \<Rightarrow> oclient \<Rightarrow> bytes list \<Rightarrow> 's \<times> oclient \<times> bool \<times> bool"

definition set_reqtype :: "iclient \<Rightarrow> iclient" where
  "set_reqtype c =
     (if i_reqtype c = ReqUnknown then c\<lparr>i_reqtype := if i_querybuf c ! 0 = 42 then ReqMultibulk else ReqInline\<rparr> else c)"

definition parse_request :: "ienv \<Rightarrow> iclient \<Rightarrow> (iclient \<times> bool) option" where
  "parse_request E c =
     (let c = set_reqtype c in
      if i_reqtype c = ReqInline then processInlineBuffer E c else processMultibulkBuffer E c)"

definition run_request :: "'s command \<Rightarrow> 's \<Rightarrow> iclient \<Rightarrow> 's \<times> iclient" where
  "run_request pc s c =
     (if i_argv c = [] then (s, resetClient c)
      else
        let (s, out, blocked, ok) = pc s (i_out c) (i_argv c); c = c\<lparr>i_out := out, i_blocked := blocked\<rparr> in
        (s, if ok then resetClient c else c))"

lemma parse_request_shrinks:
  "parse_request E c = Some (c', True) \<Longrightarrow> i_querybuf c \<noteq> [] \<Longrightarrow> length (i_querybuf c') < length (i_querybuf c)"
  using processInlineBuffer_shrinks [of E "set_reqtype c" c'] processMultibulkBuffer_shrinks [of E "set_reqtype c" c']
  by (auto simp: parse_request_def set_reqtype_def Let_def split: if_splits)

lemma run_request_querybuf [simp]: "i_querybuf (snd (run_request pc s c)) = i_querybuf c"
  by (auto simp: run_request_def resetClient_def Let_def split: if_splits prod.splits)

function processInputBuffer :: "ienv \<Rightarrow> 's command \<Rightarrow> 's \<Rightarrow> iclient \<Rightarrow> ('s \<times> iclient) option" where
  "processInputBuffer E pc s c =
     (if i_querybuf c = [] then Some (s, c)
      else if i_blocked c then Some (s, c)
      else if o_close_after (i_out c) then Some (s, c)
      else case parse_request E c of
        None \<Rightarrow> None
      | Some (c1, ok) \<Rightarrow>
          if \<not> ok then Some (s, c1)
          else let r = run_request pc s c1 in processInputBuffer E pc (fst r) (snd r))"
  by pat_completeness auto
termination
  by (relation "measure (\<lambda>(E, pc, s, c). length (i_querybuf c))")
    (auto simp: case_prod_beta dest: parse_request_shrinks)

declare processInputBuffer.simps [simp del]

text \<open>
  A call of \<open>read\<close>: some of the bytes that have arrived, nothing yet (\<open>EAGAIN\<close>), the end of the
  stream, or another error.
\<close>

datatype rres = Gives nat | RAgain | REnd | RError

definition read_len :: "iclient \<Rightarrow> int" where
  "read_len c =
     (if i_reqtype c = ReqMultibulk \<and> i_multibulklen c \<noteq> 0 \<and> i_bulklen c \<noteq> -1 \<and> i_bulklen c \<ge> int REDIS_MBULK_BIG_ARG
      then min (int REDIS_IOBUF_LEN) (i_bulklen c + 2 - int (length (i_querybuf c)))
      else int REDIS_IOBUF_LEN)"

text \<open>
  The read handler, with the bytes on their way to the socket.  \<open>maxq\<close> is
  \<open>client_max_querybuf_len\<close>.  A freed client is \<open>None\<close> inside the result.
\<close>

definition readQueryFromClient ::
  "ienv \<Rightarrow> 's command \<Rightarrow> nat \<Rightarrow> 's \<times> iclient \<times> bytes \<Rightarrow> rres \<Rightarrow> ('s \<times> iclient option \<times> bytes) option" where
  "readQueryFromClient E pc maxq st r =
     (let (s, c, net) = st; readlen = read_len c;
          c = (if i_peak c < length (i_querybuf c) then c\<lparr>i_peak := length (i_querybuf c)\<rparr> else c) in
      if readlen < 0 then None
      else case r of
        RError \<Rightarrow> Some (s, None, net)
      | REnd \<Rightarrow> Some (s, None, net)
      | RAgain \<Rightarrow> Some (s, Some c, net)
      | Gives k \<Rightarrow>
          let got = take (min k (nat readlen)) net; net = drop (min k (nat readlen)) net in
          if readlen = 0 then Some (s, None, net)
          else if got = [] then Some (s, Some c, net)
          else
            let c = c\<lparr>i_querybuf := i_querybuf c @ got\<rparr> in
            if length (i_querybuf c) > maxq then Some (s, None, net)
            else do { (s, c) \<leftarrow> processInputBuffer E pc s c; Some (s, Some c, net) })"


section \<open>Streams of requests\<close>

text \<open>The multi bulk format of a request, and the requests the server accepts.\<close>

definition request_bytes :: "bytes list \<Rightarrow> bytes" where
  "request_bytes args = num_line 42 (int (length args)) @ concat (map bulk_bytes args)"

definition arg_ok :: "bytes \<Rightarrow> bool" where
  "arg_ok a \<longleftrightarrow> length a \<le> 512 * 1024 * 1024"

definition request_ok :: "bytes list \<Rightarrow> bool" where
  "request_ok args \<longleftrightarrow> args \<noteq> [] \<and> length args \<le> 1024 * 1024 \<and> (\<forall>a\<in>set args. arg_ok a)"

lemma strchr_prefix:
  "xs @ net = h @ 13 # r \<Longrightarrow> 13 \<notin> set h \<Longrightarrow> 0 \<notin> set h \<Longrightarrow>
    strchr 13 xs = (if length xs \<le> length h then None else Some (length h))"
proof (induction h arbitrary: xs)
  case Nil
  then show ?case by (cases xs) auto
next
  case (Cons b h)
  then show ?case by (cases xs) auto
qed

lemma decimal_plain: "13 \<notin> set (ll_decimal (int n))" "0 \<notin> set (ll_decimal (int n))"
  using digits_dec_digits [of 13 n] digits_dec_digits [of 0 n] by (auto simp: ll_decimal_def)

lemma string2ll_decimal: "int n < 2 ^ 63 \<Longrightarrow> string2ll (ll_decimal (int n)) = Some (int n)"
  by (simp add: string2ll_canonical)

lemma length_decimal_le: "int n < 2 ^ 63 \<Longrightarrow> length (ll_decimal (int n)) \<le> 20"
  by (rule length_ll_decimal_le) simp

text \<open>A line of a request in the buffer: not complete yet, or found by the scan.\<close>

lemma line_scan:
  assumes "xs @ net = num_line p (int n) @ r" "p \<noteq> 13" "p \<noteq> 0" "int n < 2 ^ 63"
  shows "(\<forall>k. strchr 13 xs = Some k \<longrightarrow> length xs < k + 2) \<and> net \<noteq> [] \<and> length xs \<le> 22 \<or>
    (\<exists>ys. xs = num_line p (int n) @ ys \<and> ys @ net = r \<and> strchr 13 xs = Some (1 + length (ll_decimal (int n))))"
proof -
  let ?h = "p # ll_decimal (int n)"
  have e: "xs @ net = ?h @ 13 # 10 # r" using assms(1) by (simp add: num_line_def crlf_def)
  have s: "strchr 13 xs = (if length xs \<le> length ?h then None else Some (length ?h))"
    using strchr_prefix [OF e] assms(2,3) decimal_plain [of n] by auto
  have l: "length ?h \<le> 21" using length_decimal_le [OF assms(4)] by simp
  show ?thesis
  proof (cases "length xs < length ?h + 2")
    case True
    then have "net \<noteq> []" using arg_cong [OF e, of length] by auto
    then show ?thesis using True s l by auto
  next
    case False
    define ys where "ys = drop (length ?h + 2) xs"
    have "take (length ?h + 2) (xs @ net) = ?h @ [13, 10]" using e by simp
    then have "take (length ?h + 2) xs = ?h @ [13, 10]" using False by simp
    then have "xs = (?h @ [13, 10]) @ ys" unfolding ys_def by (metis append_take_drop_id)
    moreover from this have "ys @ net = r" using e by simp
    ultimately show ?thesis using s by (simp add: num_line_def crlf_def)
  qed
qed


text \<open>What the parser never changes.\<close>

definition ctx :: "iclient \<Rightarrow> nat \<times> reqtype \<times> bool \<times> bool \<times> int \<times> oclient" where
  "ctx c = (i_peak c, i_reqtype c, i_blocked c, i_slave c, i_ack_time c, i_out c)"

text \<open>
  In the middle of a request at position \<open>pos\<close> of the buffer: \<open>rest\<close> are the arguments still to
  come, \<open>tl_bytes\<close> the bytes behind the request, \<open>net\<close> those that have not been read.  The buffer is
  short, unless it is filled with one large argument.
\<close>

definition reading :: "iclient \<Rightarrow> nat \<Rightarrow> bytes \<Rightarrow> bytes list \<Rightarrow> bytes \<Rightarrow> bool" where
  "reading c pos net rest tl_bytes \<longleftrightarrow>
     i_multibulklen c = length rest \<and> pos \<le> length (i_querybuf c) \<and> (\<forall>a\<in>set rest. arg_ok a) \<and>
     (if i_bulklen c = -1 then drop pos (i_querybuf c) @ net = concat (map bulk_bytes rest) @ tl_bytes
      else rest \<noteq> [] \<and> i_bulklen c = int (length (hd rest)) \<and>
        drop pos (i_querybuf c) @ net = hd rest @ crlf @ concat (map bulk_bytes (tl rest)) @ tl_bytes) \<and>
     (length (i_querybuf c) \<le> REDIS_INLINE_MAX_SIZE \<or>
      pos = 0 \<and> i_bulklen c \<ge> int REDIS_MBULK_BIG_ARG \<and> length (i_querybuf c) \<le> nat (i_bulklen c) + 2)"

lemma drop_eq_split: "length xs = n \<Longrightarrow> drop n (xs @ ys) = ys"
  by simp

lemma line_number: "take (length (ll_decimal v)) (drop 1 (num_line p v @ ys)) = ll_decimal v"
  by (simp add: num_line_def)

lemma drop_line: "drop (length (ll_decimal v) + 3) (num_line p v @ ys) = ys"
  by (rule drop_eq_split) (simp add: num_line_def crlf_def)

text \<open>A short argument's length line, wherever it stands in the buffer.\<close>

lemma header_found:
  assumes "drop pos (i_querybuf c) = num_line 36 (int n) @ ys" "n < REDIS_MBULK_BIG_ARG" "i_bulklen c = -1"
  shows "mb_header E c pos = MGo (c\<lparr>i_bulklen := int n\<rparr>) (pos + length (ll_decimal (int n)) + 3)"
proof -
  let ?qb = "i_querybuf c" and ?d = "ll_decimal (int n)"
  have n: "int n < 2 ^ 63" "int n \<le> 512 * 1024 * 1024" using assms(2) by (simp_all add: REDIS_MBULK_BIG_ARG_def)
  have e: "drop pos ?qb @ [] = num_line 36 (int n) @ ys" using assms(1) by simp
  have s: "strchr 13 (drop pos ?qb) = Some (1 + length ?d)" using line_scan [OF e _ _ n(1)] by auto
  have len: "pos + (1 + length ?d) + 2 \<le> length ?qb" using arg_cong [OF assms(1), of length] by (simp add: num_line_def crlf_def)
  have hd36: "?qb ! pos = 36" using assms(1) by (simp add: num_line_def nth_via_drop)
  have "drop (pos + 1) ?qb = drop 1 (num_line 36 (int n) @ ys)" unfolding assms(1) [symmetric] by simp
  moreover have "pos + (1 + length ?d) - (pos + 1) = length ?d" by simp
  ultimately have num: "take (pos + (1 + length ?d) - (pos + 1)) (drop (pos + 1) ?qb) = ?d" by (simp only: line_number)
  have "mb_header E c pos = MGo (c\<lparr>i_bulklen := int n\<rparr>) (pos + (1 + length ?d) + 2)"
    using assms(2,3) s len hd36 n num string2ll_decimal [OF n(1)] by (simp add: mb_header_def Let_def)
  then show ?thesis by simp
qed

lemma header_step:
  assumes "reading c pos net (a # rest) tl_bytes" "i_bulklen c = -1"
  shows "mb_header E c pos = MBreak \<and> net \<noteq> [] \<and> length (i_querybuf c) - pos < 64 \<or>
    (\<exists>c1 p1. mb_header E c pos = MGo c1 p1 \<and> reading c1 p1 net (a # rest) tl_bytes \<and> i_bulklen c1 = int (length a) \<and>
       i_argv c1 = i_argv c \<and> ctx c1 = ctx c)"
proof -
  let ?qb = "i_querybuf c" and ?d = "ll_decimal (int (length a))"
  have a: "int (length a) < 2 ^ 63" "int (length a) \<le> 512 * 1024 * 1024"
    using assms(1) by (simp_all add: reading_def arg_ok_def)
  have qb: "length ?qb \<le> REDIS_INLINE_MAX_SIZE" "pos \<le> length ?qb" using assms by (auto simp: reading_def)
  have e: "drop pos ?qb @ net = num_line 36 (int (length a)) @ (a @ crlf @ concat (map bulk_bytes rest) @ tl_bytes)"
    using assms by (simp add: reading_def bulk_bytes_def)
  from line_scan [OF e _ _ a(1)] consider
      "\<forall>k. strchr 13 (drop pos ?qb) = Some k \<longrightarrow> length (drop pos ?qb) < k + 2" "net \<noteq> []" "length (drop pos ?qb) \<le> 22"
    | ys where "drop pos ?qb = num_line 36 (int (length a)) @ ys" "ys @ net = a @ crlf @ concat (map bulk_bytes rest) @ tl_bytes"
        "strchr 13 (drop pos ?qb) = Some (1 + length ?d)" by auto
  then show ?thesis
  proof cases
    case 1
    then show ?thesis using assms(2) qb by (auto simp: mb_header_def Let_def split: option.splits)
  next
    case 2
    let ?p = "pos + (1 + length ?d) + 2"
    have len: "?p \<le> length ?qb" using arg_cong [OF 2(1), of length] qb(2) by (simp add: num_line_def crlf_def)
    have hd36: "?qb ! pos = 36" using 2(1) len by (simp add: num_line_def nth_via_drop)
    have "drop (pos + 1) ?qb = drop 1 (num_line 36 (int (length a)) @ ys)" unfolding 2(1) [symmetric] by simp
    moreover have "pos + (1 + length ?d) - (pos + 1) = length ?d" by simp
    ultimately have num: "take (pos + (1 + length ?d) - (pos + 1)) (drop (pos + 1) ?qb) = ?d" by (simp only: line_number)
    have rest: "drop ?p ?qb = ys"
    proof -
      have "?p = (length ?d + 3) + pos" by simp
      then have "drop ?p ?qb = drop (length ?d + 3) (drop pos ?qb)" by (simp only: drop_drop)
      also have "\<dots> = ys" unfolding 2(1) by (rule drop_line)
      finally show ?thesis .
    qed
    let ?c1 = "if int (length a) \<ge> int REDIS_MBULK_BIG_ARG then c\<lparr>i_querybuf := drop ?p ?qb, i_bulklen := int (length a)\<rparr>
      else c\<lparr>i_bulklen := int (length a)\<rparr>"
    let ?p1 = "if int (length a) \<ge> int REDIS_MBULK_BIG_ARG then 0 else ?p"
    have "mb_header E c pos = MGo ?c1 ?p1"
      using assms(2) 2(3) len hd36 a num string2ll_decimal [OF a(1)] by (simp add: mb_header_def Let_def)
    moreover have "reading ?c1 ?p1 net (a # rest) tl_bytes"
      using assms(1) qb len rest 2(2) by (auto simp: reading_def)
    ultimately show ?thesis by (auto simp: ctx_def)
  qed
qed


lemma take_of_append:
  assumes "xs @ ys = a @ b" "length a \<le> length xs"
  shows "take (length a) xs = a \<and> drop (length a) xs @ ys = b"
  using arg_cong [OF assms(1), of "take (length a)"] arg_cong [OF assms(1), of "drop (length a)"] assms(2) by simp

text \<open>An argument that is in the buffer is taken, whichever of the two ways applies.\<close>

lemma arg_step:
  assumes "reading c pos net (a # rest) tl_bytes" "i_bulklen c = int (length a)" "\<not> length (i_querybuf c) - pos < length a + 2"
  shows "if mb_whole c pos then reading (mb_steal c) 0 net rest tl_bytes \<and> i_argv (mb_steal c) = i_argv c @ [a]
         else reading (mb_copy c pos) (pos + length a + 2) net rest tl_bytes \<and> i_argv (mb_copy c pos) = i_argv c @ [a]"
proof -
  let ?qb = "i_querybuf c"
  have e: "drop pos ?qb @ net = (a @ crlf) @ concat (map bulk_bytes rest) @ tl_bytes" "pos \<le> length ?qb"
    "i_multibulklen c = Suc (length rest)" "\<forall>a\<in>set rest. arg_ok a"
    using assms(1,2) by (auto simp: reading_def)
  have len: "length (a @ crlf) \<le> length (drop pos ?qb)" using assms(3) by (simp add: crlf_def)
  note sp = take_of_append [OF e(1) len]
  have tk: "take (length a) (drop pos ?qb) = a"
    using arg_cong [OF conjunct1 [OF sp], of "take (length a)"] by (simp add: crlf_def)
  have dr: "drop (pos + length a + 2) ?qb @ net = concat (map bulk_bytes rest) @ tl_bytes"
    using conjunct2 [OF sp] by (simp add: crlf_def add.commute add.left_commute)
  show ?thesis
  proof (cases "mb_whole c pos")
    case True
    then have "pos = 0" "length ?qb = length a + 2" using assms(2) by (simp_all add: mb_whole_def)
    then show ?thesis using True tk dr e assms(2) by (simp add: reading_def mb_steal_def REDIS_INLINE_MAX_SIZE_def)
  next
    case False
    then have "length ?qb \<le> REDIS_INLINE_MAX_SIZE" using assms by (auto simp: reading_def mb_whole_def)
    then show ?thesis using False tk dr e assms by (simp add: reading_def mb_copy_def)
  qed
qed

lemma ctx_args [simp]: "ctx (mb_steal c) = ctx c" "ctx (mb_copy c pos) = ctx c"
  by (simp_all add: ctx_def mb_steal_def mb_copy_def)

text \<open>Where the loop may stop: the request is complete, or its next piece is not in the buffer.\<close>

definition starved :: "iclient \<Rightarrow> nat \<Rightarrow> bytes \<Rightarrow> bool" where
  "starved c pos net \<longleftrightarrow> net \<noteq> [] \<and> length (i_querybuf c) - pos < (if i_bulklen c = -1 then 64 else nat (i_bulklen c) + 2)"

lemma mb_loop_reads:
  "reading c pos net rest tl_bytes \<Longrightarrow>
    \<exists>c' pos' rest'. mb_loop E c pos = Inr (c', pos') \<and> reading c' pos' net rest' tl_bytes \<and>
      i_argv c' @ rest' = i_argv c @ rest \<and> ctx c' = ctx c \<and> (rest' \<noteq> [] \<longrightarrow> starved c' pos' net)"
proof (induction rest arbitrary: c pos)
  case Nil
  then have "i_multibulklen c = 0" by (simp add: reading_def)
  then show ?case using Nil by (auto simp: mb_loop_stop)
next
  case (Cons a rest)
  have nz: "i_multibulklen c \<noteq> 0" using Cons.prems by (simp add: reading_def)
  have "mb_header E c pos = MBreak \<and> starved c pos net \<or>
    (\<exists>c1 p1. mb_header E c pos = MGo c1 p1 \<and> reading c1 p1 net (a # rest) tl_bytes \<and> i_bulklen c1 = int (length a) \<and>
       i_argv c1 = i_argv c \<and> ctx c1 = ctx c)"
  proof (cases "i_bulklen c = -1")
    case True
    then show ?thesis using header_step [OF Cons.prems True, of E] by (auto simp: starved_def)
  next
    case False
    then show ?thesis using Cons.prems by (auto simp: mb_header_def reading_def)
  qed
  then show ?case
  proof (elim disjE exE conjE)
    assume "mb_header E c pos = MBreak" "starved c pos net"
    then show ?thesis using Cons.prems mb_loop_stop(2) [OF nz] by auto
  next
    fix c1 p1
    assume h: "mb_header E c pos = MGo c1 p1" and r: "reading c1 p1 net (a # rest) tl_bytes" and bl: "i_bulklen c1 = int (length a)"
      and same: "i_argv c1 = i_argv c" "ctx c1 = ctx c"
    note go = mb_loop_go [OF nz h]
    show ?thesis
    proof (cases "length (i_querybuf c1) - p1 < length a + 2")
      case True
      have "net \<noteq> []" using r bl True by (auto simp: reading_def crlf_def dest!: arg_cong [of _ _ length])
      then have "starved c1 p1 net" using True bl by (simp add: starved_def)
      then show ?thesis using go r bl same True by auto
    next
      case False
      note st = arg_step [OF r bl False]
      show ?thesis
      proof (cases "mb_whole c1 p1")
        case True
        then have "reading (mb_steal c1) 0 net rest tl_bytes" "i_argv (mb_steal c1) = i_argv c1 @ [a]" using st by simp_all
        from Cons.IH [OF this(1)] this(2) show ?thesis using go bl False True same by simp
      next
        case ne: False
        then have "reading (mb_copy c1 p1) (p1 + length a + 2) net rest tl_bytes" "i_argv (mb_copy c1 p1) = i_argv c1 @ [a]" using st by simp_all
        from Cons.IH [OF this(1)] this(2) show ?thesis using go bl False ne same by simp
      qed
    qed
  qed
qed


lemma mb_finish_reads:
  assumes "reading c pos net rest tl_bytes"
  shows "\<exists>c' rest'. mb_finish (mb_loop E c pos) = (c', rest' = []) \<and> reading c' 0 net rest' tl_bytes \<and>
    i_argv c' @ rest' = i_argv c @ rest \<and> ctx c' = ctx c \<and> (rest' \<noteq> [] \<longrightarrow> starved c' 0 net)"
proof -
  obtain c' pos' rest' where l: "mb_loop E c pos = Inr (c', pos')" "reading c' pos' net rest' tl_bytes"
    "i_argv c' @ rest' = i_argv c @ rest" "ctx c' = ctx c" "rest' \<noteq> [] \<longrightarrow> starved c' pos' net"
    using mb_loop_reads [OF assms, of E] by blast
  let ?c = "c'\<lparr>i_querybuf := drop pos' (i_querybuf c')\<rparr>"
  have "mb_finish (mb_loop E c pos) = (?c, rest' = [])" using l(1,2) by (simp add: mb_finish_def reading_def)
  moreover have "reading ?c 0 net rest' tl_bytes" using l(2) by (auto simp: reading_def)
  moreover have "ctx ?c = ctx c'" by (simp add: ctx_def)
  moreover have "rest' \<noteq> [] \<longrightarrow> starved ?c 0 net" using l(5) by (auto simp: starved_def split: if_splits)
  ultimately show ?thesis using l(3,4) by (metis iclient.select_convs(4) iclient.update_convs(1) iclient.surjective)
qed

text \<open>
  Between two reads: \<open>cmds\<close> are the requests not executed yet, their bytes spread over the
  arguments read, the buffer and the bytes to come.
\<close>

definition waiting :: "iclient \<Rightarrow> bytes \<Rightarrow> bytes list list \<Rightarrow> bool" where
  "waiting c net cmds \<longleftrightarrow>
     \<not> i_blocked c \<and> \<not> o_close_after (i_out c) \<and> (\<forall>cmd\<in>set cmds. request_ok cmd) \<and>
     (if i_multibulklen c = 0 then
        i_argv c = [] \<and> i_bulklen c = -1 \<and> i_reqtype c \<noteq> ReqInline \<and>
        i_querybuf c @ net = concat (map request_bytes cmds) \<and> length (i_querybuf c) \<le> REDIS_INLINE_MAX_SIZE
      else
        i_reqtype c = ReqMultibulk \<and>
        (\<exists>rest cmds'. cmds = (i_argv c @ rest) # cmds' \<and> reading c 0 net rest (concat (map request_bytes cmds'))))"

text \<open>A request that is complete, with what follows it.\<close>

definition parsed :: "iclient \<Rightarrow> bytes \<Rightarrow> bytes list list \<Rightarrow> bool" where
  "parsed c net cmds \<longleftrightarrow>
     i_argv c \<noteq> [] \<and> \<not> i_blocked c \<and> \<not> o_close_after (i_out c) \<and> i_querybuf c @ net = concat (map request_bytes cmds) \<and>
     length (i_querybuf c) \<le> REDIS_INLINE_MAX_SIZE"

lemma parsed_of_reading:
  assumes "mb_finish (mb_loop E c pos) = (c', rest' = [])" "reading c' 0 net rest' (concat (map request_bytes cmds'))"
    "i_argv c' @ rest' = cmd" "ctx c' = ctx c" "rest' \<noteq> [] \<longrightarrow> starved c' 0 net"
    and "\<not> i_blocked c" "\<not> o_close_after (i_out c)" "i_reqtype c = ReqMultibulk" "request_ok cmd" "\<forall>cmd\<in>set cmds'. request_ok cmd"
  shows "if rest' = [] then i_argv c' = cmd \<and> parsed c' net cmds' else waiting c' net (cmd # cmds') \<and> starved c' 0 net"
proof (cases "rest' = []")
  case True
  have "i_bulklen c' = -1" "i_multibulklen c' = 0" "i_querybuf c' @ net = concat (map request_bytes cmds')"
    using assms(2) True by (auto simp: reading_def split: if_splits)
  moreover have "length (i_querybuf c') \<le> REDIS_INLINE_MAX_SIZE" using assms(2) calculation(1) by (auto simp: reading_def)
  ultimately show ?thesis using True assms(3,4,6,7,9) by (simp add: parsed_def ctx_def request_ok_def)
next
  case False
  then have "i_multibulklen c' \<noteq> 0" using assms(2) by (simp add: reading_def)
  then show ?thesis using False assms by (auto simp: waiting_def ctx_def)
qed

lemma parse_step:
  assumes "waiting c net cmds" "i_querybuf c \<noteq> []"
  shows "(\<exists>c'. parse_request E c = Some (c', False) \<and> waiting c' net cmds \<and> starved c' 0 net) \<or>
    (\<exists>c' cmd cmds'. parse_request E c = Some (c', True) \<and> cmds = cmd # cmds' \<and> i_argv c' = cmd \<and> parsed c' net cmds')"
proof (cases "i_multibulklen c = 0")
  case False
  then obtain rest cmds' where r: "i_reqtype c = ReqMultibulk" "cmds = (i_argv c @ rest) # cmds'"
    "reading c 0 net rest (concat (map request_bytes cmds'))" using assms(1) by (auto simp: waiting_def)
  have pr: "parse_request E c = Some (mb_finish (mb_loop E c 0))"
    using r(1) False by (simp add: parse_request_def set_reqtype_def processMultibulkBuffer_def)
  obtain c' rest' where f: "mb_finish (mb_loop E c 0) = (c', rest' = [])" "reading c' 0 net rest' (concat (map request_bytes cmds'))"
    "i_argv c' @ rest' = i_argv c @ rest" "ctx c' = ctx c" "rest' \<noteq> [] \<longrightarrow> starved c' 0 net"
    using mb_finish_reads [OF r(3), of E] by blast
  have "\<not> i_blocked c" "\<not> o_close_after (i_out c)" "request_ok (i_argv c @ rest)" "\<forall>cmd\<in>set cmds'. request_ok cmd"
    using assms(1) r(2) by (auto simp: waiting_def)
  from parsed_of_reading [OF f this(1,2) r(1) this(3,4)]
  have "if rest' = [] then i_argv c' = i_argv c @ rest \<and> parsed c' net cmds' else waiting c' net cmds \<and> starved c' 0 net"
    unfolding r(2) .
  then show ?thesis using pr f(1) r(2) by (cases "rest' = []") auto
next
  case True
  have w: "\<not> i_blocked c" "\<not> o_close_after (i_out c)" "\<forall>cmd\<in>set cmds. request_ok cmd" "i_argv c = []" "i_bulklen c = -1"
    "i_reqtype c \<noteq> ReqInline" "i_querybuf c @ net = concat (map request_bytes cmds)" "length (i_querybuf c) \<le> REDIS_INLINE_MAX_SIZE"
    using assms(1) True by (simp_all add: waiting_def)
  obtain cmd cmds' where cm: "cmds = cmd # cmds'" using w(7) assms(2) by (cases cmds) auto
  let ?n = "int (length cmd)" and ?c = "set_reqtype c"
  have n: "?n < 2 ^ 63" "?n \<le> 1024 * 1024" "0 < ?n" using w(3) cm by (auto simp: request_ok_def)
  have e: "i_querybuf c @ net = num_line 42 ?n @ (concat (map bulk_bytes cmd) @ concat (map request_bytes cmds'))"
    using w(7) cm by (simp add: request_bytes_def)
  have q0: "i_querybuf c ! 0 = 42" using arg_cong [OF e, of "\<lambda>xs. xs ! 0"] assms(2) by (simp add: num_line_def nth_append)
  have sr: "i_reqtype ?c = ReqMultibulk" "i_querybuf ?c = i_querybuf c" "i_multibulklen ?c = 0" "i_argv ?c = []" "i_bulklen ?c = -1"
    "i_blocked ?c = i_blocked c" "i_out ?c = i_out c"
    using w q0 True by (cases "i_reqtype c"; simp add: set_reqtype_def)+
  have pr: "parse_request E c = processMultibulkBuffer E ?c" using sr(1) by (simp add: parse_request_def Let_def)
  from line_scan [OF e _ _ n(1)] consider
      "\<forall>k. strchr 13 (i_querybuf c) = Some k \<longrightarrow> length (i_querybuf c) < k + 2" "net \<noteq> []" "length (i_querybuf c) \<le> 22"
    | ys where "i_querybuf c = num_line 42 ?n @ ys" "ys @ net = concat (map bulk_bytes cmd) @ concat (map request_bytes cmds')"
        "strchr 13 (i_querybuf c) = Some (1 + length (ll_decimal ?n))" by auto
  then show ?thesis
  proof cases
    case 1
    then have "parse_request E c = Some (?c, False)"
      using pr sr w(8) by (auto simp: processMultibulkBuffer_def Let_def split: option.splits)
    moreover have "waiting ?c net cmds" "starved ?c 0 net" using w sr 1 by (simp_all add: waiting_def starved_def)
    ultimately show ?thesis by blast
  next
    case 2
    let ?p = "(1 + length (ll_decimal ?n)) + 2" and ?c1 = "?c\<lparr>i_multibulklen := length cmd\<rparr>"
    have len: "?p \<le> length (i_querybuf c)" using arg_cong [OF 2(1), of length] by (simp add: num_line_def crlf_def)
    have num: "take (1 + length (ll_decimal ?n) - 1) (drop 1 (i_querybuf c)) = ll_decimal ?n"
      unfolding 2(1) using line_number [of ?n 42 ys] by simp
    have "?p = length (ll_decimal ?n) + 3" by simp
    then have dr: "drop ?p (i_querybuf c) = ys" unfolding 2(1) by (simp only: drop_line)
    have f0: "parse_request E c = Some (mb_finish (mb_loop E ?c1 ?p))"
      using pr sr q0 len n num string2ll_decimal [OF n(1)] 2(3) by (simp add: processMultibulkBuffer_def Let_def)
    have rd: "reading ?c1 ?p net cmd (concat (map request_bytes cmds'))"
      using sr dr len 2(2) w(3,8) cm by (auto simp: reading_def request_ok_def)
    obtain c' rest' where f: "mb_finish (mb_loop E ?c1 ?p) = (c', rest' = [])" "reading c' 0 net rest' (concat (map request_bytes cmds'))"
      "i_argv c' @ rest' = cmd" "ctx c' = ctx ?c1" "rest' \<noteq> [] \<longrightarrow> starved c' 0 net"
      using mb_finish_reads [OF rd, of E] sr(4) by auto
    have "if rest' = [] then i_argv c' = cmd \<and> parsed c' net cmds' else waiting c' net cmds \<and> starved c' 0 net"
      using parsed_of_reading [OF f] sr w cm by simp
    then show ?thesis using f0 f(1) cm by (cases "rest' = []") auto
  qed
qed


text \<open>Commands that neither block the client nor ask to close it, with their effect on the server.\<close>

definition plain_command :: "'s command \<Rightarrow> ('s \<Rightarrow> bytes list \<Rightarrow> 's) \<Rightarrow> bool" where
  "plain_command pc exec \<longleftrightarrow>
     (\<forall>s out args. \<exists>out'. pc s out args = (exec s args, out', False, True) \<and> (\<not> o_close_after out \<longrightarrow> \<not> o_close_after out'))"

lemma run_parsed:
  assumes "plain_command pc exec" "parsed c net cmds" "\<forall>cmd\<in>set cmds. request_ok cmd"
  shows "\<exists>c'. run_request pc s c = (exec s (i_argv c), c') \<and> waiting c' net cmds"
proof -
  obtain out' where "pc s (i_out c) (i_argv c) = (exec s (i_argv c), out', False, True)" "\<not> o_close_after out'"
    using assms(1,2) by (auto simp: plain_command_def parsed_def) blast
  then show ?thesis using assms(2,3) by (auto simp: run_request_def parsed_def waiting_def resetClient_def)
qed

lemma reading_empty: "reading c 0 net rest tl_bytes \<Longrightarrow> i_querybuf c = [] \<Longrightarrow> 0 < i_multibulklen c \<Longrightarrow> starved c 0 net"
  by (cases rest) (auto simp: reading_def starved_def bulk_bytes_def num_line_def crlf_def split: if_splits)

lemma processInputBuffer_runs:
  assumes "plain_command pc exec"
  shows "waiting c net cmds \<Longrightarrow>
    \<exists>c' fin rest. processInputBuffer E pc s c = Some (foldl exec s fin, c') \<and> cmds = fin @ rest \<and> waiting c' net rest \<and>
      (i_querybuf c' = [] \<and> i_multibulklen c' = 0 \<or> starved c' 0 net)"
proof (induction cmds arbitrary: s c)
  case Nil
  then have "i_multibulklen c = 0" "i_querybuf c = []" by (auto simp: waiting_def split: if_splits)
  then show ?case using Nil by (auto simp: processInputBuffer.simps [of E pc s c])
next
  case (Cons cmd cmds)
  show ?case
  proof (cases "i_querybuf c = []")
    case True
    have "i_multibulklen c = 0 \<or> starved c 0 net" using Cons.prems True reading_empty by (auto simp: waiting_def split: if_splits)
    moreover have "processInputBuffer E pc s c = Some (foldl exec s [], c)" using True by (simp add: processInputBuffer.simps [of E pc s c])
    ultimately show ?thesis using True Cons.prems by blast
  next
    case False
    have w: "\<not> i_blocked c" "\<not> o_close_after (i_out c)" "\<forall>cmd\<in>set cmds. request_ok cmd" using Cons.prems by (auto simp: waiting_def)
    from parse_step [OF Cons.prems False, of E] show ?thesis
    proof (elim disjE exE conjE)
      fix c'
      assume "parse_request E c = Some (c', False)" "waiting c' net (cmd # cmds)" "starved c' 0 net"
      moreover from this have "processInputBuffer E pc s c = Some (foldl exec s [], c')"
        using False w by (simp add: processInputBuffer.simps [of E pc s c])
      ultimately show ?thesis by blast
    next
      fix c1 cmd1 cmds1
      assume p: "parse_request E c = Some (c1, True)" "cmd # cmds = cmd1 # cmds1" "i_argv c1 = cmd1" "parsed c1 net cmds1"
      then obtain c2 where c2: "run_request pc s c1 = (exec s cmd, c2)" "waiting c2 net cmds"
        using run_parsed [OF assms, of c1 net cmds s] w(3) by auto
      have "processInputBuffer E pc s c = processInputBuffer E pc (exec s cmd) c2"
        using False w p(1) c2(1) by (simp add: processInputBuffer.simps [of E pc s c])
      moreover obtain c' fin rest where "processInputBuffer E pc (exec s cmd) c2 = Some (foldl exec (exec s cmd) fin, c')" "cmds = fin @ rest"
        "waiting c' net rest" "i_querybuf c' = [] \<and> i_multibulklen c' = 0 \<or> starved c' 0 net" using Cons.IH [OF c2(2), of "exec s cmd"] by blast
      ultimately have "processInputBuffer E pc s c = Some (foldl exec s (cmd # fin), c') \<and> cmd # cmds = (cmd # fin) @ rest \<and>
        waiting c' net rest \<and> (i_querybuf c' = [] \<and> i_multibulklen c' = 0 \<or> starved c' 0 net)" by simp
      then show ?thesis by blast
    qed
  qed
qed

section \<open>Reads\<close>

text \<open>The state between two read events: everything in the buffer has been looked at.\<close>

definition idle :: "iclient \<Rightarrow> bytes \<Rightarrow> bytes list list \<Rightarrow> bool" where
  "idle c net cmds \<longleftrightarrow> waiting c net cmds \<and> (i_querybuf c = [] \<and> i_multibulklen c = 0 \<or> starved c 0 net)"

lemma idle_bulklen: "waiting c net cmds \<Longrightarrow> i_multibulklen c = 0 \<or> i_bulklen c = -1 \<or> 0 \<le> i_bulklen c \<and> i_bulklen c \<le> 512 * 1024 * 1024"
  by (auto simp: waiting_def reading_def arg_ok_def neq_Nil_conv split: if_splits)

text \<open>A read of at most \<open>read_len\<close> bytes keeps the buffer short, or fills it with the one large argument.\<close>

lemma read_waiting:
  assumes "idle c (got @ net) cmds" "int (length got) \<le> read_len c"
  shows "waiting (c\<lparr>i_querybuf := i_querybuf c @ got\<rparr>) net cmds \<and> length (i_querybuf c @ got) \<le> 512 * 1024 * 1024 + 2"
proof -
  let ?c = "c\<lparr>i_querybuf := i_querybuf c @ got\<rparr>"
  have w: "waiting c (got @ net) cmds" using assms(1) by (simp add: idle_def)
  have len: "length (i_querybuf c) < 64 \<or> i_multibulklen c \<noteq> 0 \<and> i_bulklen c \<noteq> -1 \<and> int (length (i_querybuf c)) < i_bulklen c + 2"
    using assms(1) by (auto simp: idle_def waiting_def starved_def split: if_splits)
  have io: "length got \<le> REDIS_IOBUF_LEN" using assms(2) by (auto simp: read_len_def split: if_splits)
  have big: "i_reqtype c = ReqMultibulk \<Longrightarrow> i_multibulklen c \<noteq> 0 \<Longrightarrow> i_bulklen c \<ge> int REDIS_MBULK_BIG_ARG \<Longrightarrow>
      int (length (i_querybuf c @ got)) \<le> i_bulklen c + 2" using assms(2) by (auto simp: read_len_def split: if_splits)
  show ?thesis
  proof (cases "i_multibulklen c = 0")
    case True
    then show ?thesis using w len io by (auto simp: waiting_def REDIS_IOBUF_LEN_def REDIS_INLINE_MAX_SIZE_def)
  next
    case False
    then obtain rest cmds' where r: "i_reqtype c = ReqMultibulk" "cmds = (i_argv c @ rest) # cmds'"
      "reading c 0 (got @ net) rest (concat (map request_bytes cmds'))" using w by (auto simp: waiting_def)
    have sz: "length (i_querybuf c @ got) \<le> REDIS_INLINE_MAX_SIZE \<or>
        i_bulklen c \<ge> int REDIS_MBULK_BIG_ARG \<and> length (i_querybuf c @ got) \<le> nat (i_bulklen c) + 2"
      using big [OF r(1) False] len io by (cases "i_bulklen c \<ge> int REDIS_MBULK_BIG_ARG")
        (auto simp: REDIS_INLINE_MAX_SIZE_def REDIS_MBULK_BIG_ARG_def REDIS_IOBUF_LEN_def)
    then have "reading ?c 0 net rest (concat (map request_bytes cmds'))" using r(3) by (auto simp: reading_def)
    then show ?thesis using w False r(1,2) sz idle_bulklen [OF w] by (auto simp: waiting_def REDIS_INLINE_MAX_SIZE_def)
  qed
qed

lemma read_len_pos: "idle c net cmds \<Longrightarrow> 0 < read_len c"
  by (auto simp: idle_def starved_def read_len_def REDIS_IOBUF_LEN_def)


definition on_wire :: "rres \<Rightarrow> bool" where
  "on_wire r \<longleftrightarrow> (case r of Gives k \<Rightarrow> 0 < k | _ \<Rightarrow> False)"

lemma idle_peak: "idle (c\<lparr>i_peak := n\<rparr>) net cmds = idle c net cmds" "read_len (c\<lparr>i_peak := n\<rparr>) = read_len c"
  by (simp_all add: idle_def waiting_def reading_def starved_def read_len_def)

lemma read_event:
  assumes "plain_command pc exec" "idle c net cmds" "512 * 1024 * 1024 + 2 \<le> maxq" "r = RAgain \<or> on_wire r"
  shows "\<exists>c' net' fin rest. readQueryFromClient E pc maxq (s, c, net) r = Some (foldl exec s fin, Some c', net') \<and>
    cmds = fin @ rest \<and> idle c' net' rest \<and> (if on_wire r \<and> net \<noteq> [] then length net' < length net else net' = net)"
proof -
  define c1 where "c1 = (if i_peak c < length (i_querybuf c) then c\<lparr>i_peak := length (i_querybuf c)\<rparr> else c)"
  have c1: "idle c1 net cmds" "read_len c1 = read_len c" using assms(2) by (auto simp: c1_def idle_peak)
  have len: "0 < read_len c" using read_len_pos [OF assms(2)] .
  have rq: "readQueryFromClient E pc maxq (s, c, net) r =
    (case r of RError \<Rightarrow> Some (s, None, net) | REnd \<Rightarrow> Some (s, None, net) | RAgain \<Rightarrow> Some (s, Some c1, net)
      | Gives k \<Rightarrow>
          let got = take (min k (nat (read_len c))) net; net = drop (min k (nat (read_len c))) net in
          if got = [] then Some (s, Some c1, net)
          else if length (i_querybuf c1 @ got) > maxq then Some (s, None, net)
            else do { (s, c) \<leftarrow> processInputBuffer E pc s (c1\<lparr>i_querybuf := i_querybuf c1 @ got\<rparr>); Some (s, Some c, net) })"
    by (cases r) (use len in \<open>simp_all add: readQueryFromClient_def Let_def c1_def [symmetric] del: take_eq_Nil take_eq_Nil2\<close>)
  show ?thesis
  proof (cases "on_wire r \<and> net \<noteq> []")
    case False
    then have "readQueryFromClient E pc maxq (s, c, net) r = Some (foldl exec s [], Some c1, net)"
      using rq assms(4) by (auto simp: on_wire_def split: rres.splits)
    then show ?thesis using c1(1) False by fastforce
  next
    case True
    then obtain k where k: "r = Gives k" "0 < k" "net \<noteq> []" by (auto simp: on_wire_def split: rres.splits)
    let ?m = "min k (nat (read_len c))"
    let ?got = "take ?m net" and ?net = "drop ?m net"
    have m: "0 < ?m" using k(2) len by simp
    have "idle c1 (?got @ ?net) cmds" "int (length ?got) \<le> read_len c1" using c1 len by simp_all
    from read_waiting [OF this] have w: "waiting (c1\<lparr>i_querybuf := i_querybuf c1 @ ?got\<rparr>) ?net cmds" "length (i_querybuf c1 @ ?got) \<le> maxq"
      using assms(3) by auto
    obtain c' fin rest where p: "processInputBuffer E pc s (c1\<lparr>i_querybuf := i_querybuf c1 @ ?got\<rparr>) = Some (foldl exec s fin, c')" "cmds = fin @ rest"
      "waiting c' ?net rest" "i_querybuf c' = [] \<and> i_multibulklen c' = 0 \<or> starved c' 0 ?net"
      using processInputBuffer_runs [OF assms(1) w(1), of E s] by blast
    have "readQueryFromClient E pc maxq (s, c, net) r = Some (foldl exec s fin, Some c', ?net)"
      using rq k m p(1) w(2) by (simp add: Let_def)
    moreover have "idle c' ?net rest" "length ?net < length net" using p(3,4) m k(3) by (simp_all add: idle_def)
    ultimately show ?thesis using p(2) True by auto
  qed
qed

text \<open>A sequence of read events, stopped when the client is freed.\<close>

fun read_events :: "ienv \<Rightarrow> 's command \<Rightarrow> nat \<Rightarrow> 's \<times> iclient \<times> bytes \<Rightarrow> rres list \<Rightarrow> ('s \<times> iclient option \<times> bytes) option" where
  "read_events E pc maxq (s, c, net) [] = Some (s, Some c, net)"
| "read_events E pc maxq st (r # rs) =
     (case readQueryFromClient E pc maxq st r of
        None \<Rightarrow> None
      | Some (s, None, net) \<Rightarrow> Some (s, None, net)
      | Some (s, Some c, net) \<Rightarrow> read_events E pc maxq (s, c, net) rs)"

lemma read_events_run:
  assumes "plain_command pc exec" "512 * 1024 * 1024 + 2 \<le> maxq"
  shows "idle c net cmds \<Longrightarrow> \<forall>r\<in>set rs. r = RAgain \<or> on_wire r \<Longrightarrow>
    \<exists>c' net' fin rest. read_events E pc maxq (s, c, net) rs = Some (foldl exec s fin, Some c', net') \<and>
      cmds = fin @ rest \<and> idle c' net' rest \<and> length net' \<le> length net - length (filter on_wire rs)"
proof (induction rs arbitrary: s c net cmds)
  case Nil
  then have "read_events E pc maxq (s, c, net) [] = Some (foldl exec s [], Some c, net) \<and> cmds = [] @ cmds" by simp
  then show ?case using Nil(1) by fastforce
next
  case (Cons r rs)
  have r: "r = RAgain \<or> on_wire r" "\<forall>r\<in>set rs. r = RAgain \<or> on_wire r" using Cons.prems(2) by simp_all
  obtain c1 net1 fin1 rest1 where e1: "readQueryFromClient E pc maxq (s, c, net) r = Some (foldl exec s fin1, Some c1, net1)"
    "cmds = fin1 @ rest1" "idle c1 net1 rest1" "if on_wire r \<and> net \<noteq> [] then length net1 < length net else net1 = net"
    using read_event [OF assms(1) Cons.prems(1) assms(2) r(1), of E s] by blast
  obtain c' net' fin2 rest where e2: "read_events E pc maxq (foldl exec s fin1, c1, net1) rs = Some (foldl exec (foldl exec s fin1) fin2, Some c', net')"
    "rest1 = fin2 @ rest" "idle c' net' rest" "length net' \<le> length net1 - length (filter on_wire rs)"
    using Cons.IH [OF e1(3) r(2), of "foldl exec s fin1"] by blast
  have "read_events E pc maxq (s, c, net) (r # rs) = Some (foldl exec s (fin1 @ fin2), Some c', net')" using e1(1) e2(1) by simp
  moreover have "length net' \<le> length net - length (filter on_wire (r # rs))"
    using e1(4) e2(4) by (cases "on_wire r"; cases "net = []") auto
  moreover have "cmds = (fin1 @ fin2) @ rest" using e1(2) e2(2) by simp
  ultimately show ?case using e2(3) by blast
qed

lemma idle_done: "idle c [] cmds \<Longrightarrow> cmds = [] \<and> i_querybuf c = []"
  by (cases cmds) (auto simp: idle_def waiting_def starved_def request_bytes_def num_line_def)


section \<open>Properties\<close>

text \<open>A client as \<open>createClient\<close> makes it.\<close>

definition new_client :: "oclient \<Rightarrow> iclient" where
  "new_client out = \<lparr>i_querybuf = [], i_peak = 0, i_reqtype = ReqUnknown, i_argv = [], i_multibulklen = 0, i_bulklen = -1,
     i_blocked = False, i_slave = False, i_ack_time = 0, i_out = out\<rparr>"

lemma new_client_idle:
  "\<not> o_close_after out \<Longrightarrow> \<forall>cmd\<in>set cmds. request_ok cmd \<Longrightarrow> idle (new_client out) (concat (map request_bytes cmds)) cmds"
  by (simp add: idle_def waiting_def new_client_def)

text \<open>
  C29. Requests do not depend on how the network cuts them: for every sequence of read events on
  a pipeline of requests the commands executed are the first requests of the pipeline, in
  order and with exactly their arguments, no assertion fails and the client is not closed;
  and when every byte has been read, all of them have been executed.
\<close>

theorem pipeline_is_executed:
  assumes "plain_command pc exec" "512 * 1024 * 1024 + 2 \<le> maxq" "\<not> o_close_after out"
    and "\<forall>cmd\<in>set cmds. request_ok cmd" "\<forall>r\<in>set rs. r = RAgain \<or> on_wire r"
  shows "\<exists>c' net' fin rest. read_events E pc maxq (s, new_client out, concat (map request_bytes cmds)) rs = Some (foldl exec s fin, Some c', net') \<and>
     cmds = fin @ rest \<and> (net' = [] \<longrightarrow> rest = [] \<and> i_querybuf c' = [])"
  using read_events_run [OF assms(1,2) new_client_idle [OF assms(3,4)] assms(5), of E s] idle_done by blast

definition log_command :: "bytes list list command" where
  "log_command s out args = (s @ [args], out, False, True)"

lemma log_command_plain: "plain_command log_command (\<lambda>s args. s @ [args])"
  by (simp add: plain_command_def log_command_def)

definition some_env :: ienv where
  "some_env = \<lparr>e_ev = True, e_over = (\<lambda>_. False), e_jk = (\<lambda>_. 0), e_now = 0\<rparr>"

lemma log_requests_ok: "\<forall>cmd\<in>set [[[71, 69, 84], [107]], [[13, 10, 0]]]. request_ok cmd"
  by (simp add: request_ok_def arg_ok_def)

theorem pipeline_is_executed_witness:
  "\<exists>c' net' fin rest. read_events some_env log_command (2 ^ 30) ([], new_client fresh_client,
       concat (map request_bytes [[[71, 69, 84], [107]], [[13, 10, 0]]])) [Gives 5, RAgain, Gives 9] = Some (foldl (\<lambda>s args. s @ [args]) [] fin, Some c', net') \<and>
     [[[71, 69, 84], [107]], [[13, 10, 0]]] = fin @ rest \<and> (net' = [] \<longrightarrow> rest = [] \<and> i_querybuf c' = [])"
  using pipeline_is_executed [OF log_command_plain _ fresh_client_ok(4) log_requests_ok, of "2 ^ 30" "[Gives 5, RAgain, Gives 9]" some_env "[]"]
  by (simp only: on_wire_def) simp

text \<open>
  C30. Progress: as many reads that return something as the pipeline has bytes execute every
  request of it, since each of them, however the limit of the read is chosen, asks for at
  least one byte.
\<close>

theorem pipeline_completes:
  assumes "plain_command pc exec" "512 * 1024 * 1024 + 2 \<le> maxq" "\<not> o_close_after out"
    and "\<forall>cmd\<in>set cmds. request_ok cmd" "\<forall>r\<in>set rs. r = RAgain \<or> on_wire r"
    and "length (concat (map request_bytes cmds)) \<le> length (filter on_wire rs)"
  shows "\<exists>c'. read_events E pc maxq (s, new_client out, concat (map request_bytes cmds)) rs = Some (foldl exec s cmds, Some c', []) \<and>
     i_querybuf c' = []"
proof -
  obtain c' net' fin rest where r: "read_events E pc maxq (s, new_client out, concat (map request_bytes cmds)) rs = Some (foldl exec s fin, Some c', net')"
    "cmds = fin @ rest" "idle c' net' rest" "length net' \<le> length (concat (map request_bytes cmds)) - length (filter on_wire rs)"
    using read_events_run [OF assms(1,2) new_client_idle [OF assms(3,4)] assms(5), of E s] by blast
  then have "net' = []" using assms(6) by simp
  then show ?thesis using r idle_done [of c' rest] by simp
qed

theorem pipeline_completes_witness:
  "\<exists>c'. read_events some_env log_command (2 ^ 30) ([], new_client fresh_client, concat (map request_bytes [[[71, 69, 84], [107]], [[13, 10, 0]]]))
       (replicate 34 (Gives 1)) = Some (foldl (\<lambda>s args. s @ [args]) [] [[[71, 69, 84], [107]], [[13, 10, 0]]], Some c', []) \<and>
     i_querybuf c' = []"
  by (rule pipeline_completes [OF log_command_plain _ fresh_client_ok(4) log_requests_ok])
    (simp_all add: on_wire_def request_bytes_def bulk_bytes_def num_line_def ll_decimal_def crlf_def dec_digits.simps)


lemma loop_short_args:
  assumes "\<forall>a\<in>set as. length a < REDIS_MBULK_BIG_ARG"
  shows "drop pos (i_querybuf c) = concat (map bulk_bytes as) @ ys \<Longrightarrow> i_bulklen c = -1 \<Longrightarrow> i_multibulklen c = length as + k \<Longrightarrow>
    \<exists>c'. mb_loop E c pos = mb_loop E c' (pos + length (concat (map bulk_bytes as))) \<and> i_querybuf c' = i_querybuf c \<and>
      i_bulklen c' = -1 \<and> i_multibulklen c' = k \<and> i_out c' = i_out c"
  using assms
proof (induction as arbitrary: c pos)
  case Nil
  then show ?case by auto
next
  case (Cons a as)
  let ?c1 = "c\<lparr>i_bulklen := int (length a)\<rparr>" and ?p1 = "pos + length (ll_decimal (int (length a))) + 3"
  have e: "drop pos (i_querybuf c) = num_line 36 (int (length a)) @ (a @ crlf @ concat (map bulk_bytes as) @ ys)"
    using Cons.prems(1) by (simp add: bulk_bytes_def [of a])
  have a: "length a < REDIS_MBULK_BIG_ARG" "\<forall>a\<in>set as. length a < REDIS_MBULK_BIG_ARG" using Cons.prems(4) by simp_all
  have nz: "i_multibulklen c \<noteq> 0" using Cons.prems(3) by simp
  have bl: "length (bulk_bytes a) = length (ll_decimal (int (length a))) + 3 + length a + 2" by (simp add: bulk_bytes_def num_line_def crlf_def)
  have len: "length (i_querybuf c) - pos = length (bulk_bytes a) + length (concat (map bulk_bytes as) @ ys)"
    using arg_cong [OF Cons.prems(1), of length] by simp
  have "mb_loop E c pos = mb_loop E (mb_copy ?c1 ?p1) (?p1 + length a + 2)"
    using mb_loop_go [OF nz header_found [OF e a(1) Cons.prems(2)]] a(1) len bl by (auto simp: mb_whole_def)
  also have "?p1 + length a + 2 = pos + length (bulk_bytes a)" using bl by simp
  finally have "mb_loop E c pos = mb_loop E (mb_copy ?c1 ?p1) (pos + length (bulk_bytes a))" .
  moreover have "drop (pos + length (bulk_bytes a)) (i_querybuf c) = concat (map bulk_bytes as) @ ys"
    using arg_cong [OF Cons.prems(1), of "drop (length (bulk_bytes a))"] by (simp add: add.commute)
  ultimately show ?case
    using Cons.IH [of "pos + length (bulk_bytes a)" "mb_copy ?c1 ?p1"] Cons.prems(3) a(2) by (simp add: mb_copy_def add.assoc)
qed

text \<open>
  C31. A valid request can be refused.  The limit on the length of a bulk count line is compared
  with the whole buffer, which holds the arguments read before that line too.  When more than
  64 kB of a request with short arguments are in the buffer, as they are when a blocked client
  is served again, and its last byte is the \<open>$\<close> of the next argument, the client is closed with
  a protocol error, although what it sent is the beginning of a request the server accepts.
\<close>

theorem buffered_request_rejected:
  assumes "\<forall>a\<in>set as. length a < REDIS_MBULK_BIG_ARG" "length as < 1024 * 1024"
    and "i_querybuf c = num_line 42 (int (length as + 1)) @ concat (map bulk_bytes as) @ [36]"
    and "length (i_querybuf c) > REDIS_INLINE_MAX_SIZE"
    and "i_argv c = []" "i_reqtype c = ReqUnknown" "i_multibulklen c = 0" "i_bulklen c = -1" "\<not> i_blocked c" "\<not> o_close_after (i_out c)"
  shows "(\<exists>c'. processInputBuffer E pc s c = Some (s, c') \<and> o_close_after (i_out c')) \<and>
    request_ok (as @ [[97]]) \<and> (\<exists>net. i_querybuf c @ net = request_bytes (as @ [[97]]))"
proof -
  let ?n = "int (length as + 1)" and ?c = "set_reqtype c"
  let ?p = "1 + length (ll_decimal ?n) + 2" and ?tail = "concat (map bulk_bytes as) @ [36]"
  have q0: "i_querybuf c ! 0 = 42" "i_querybuf c \<noteq> []" using assms(3) by (simp_all add: num_line_def)
  have n: "?n < 2 ^ 63" "?n \<le> 1024 * 1024" "0 < ?n" using assms(2) by simp_all
  have sr: "i_reqtype ?c = ReqMultibulk" "i_querybuf ?c = i_querybuf c" "i_multibulklen ?c = 0" "i_argv ?c = []" "i_bulklen ?c = -1"
    "i_out ?c = i_out c" using assms(5-8) q0 by (simp_all add: set_reqtype_def)
  have e: "i_querybuf c @ [] = num_line 42 ?n @ ?tail" using assms(3) by simp
  have s: "strchr 13 (i_querybuf c) = Some (1 + length (ll_decimal ?n))" using line_scan [OF e _ _ n(1)] by auto
  have len: "?p \<le> length (i_querybuf c)" by (simp add: assms(3) num_line_def crlf_def)
  have num: "take (1 + length (ll_decimal ?n) - 1) (drop 1 (i_querybuf c)) = ll_decimal ?n"
    unfolding assms(3) using line_number [of ?n 42 ?tail] by simp
  have "?p = length (ll_decimal ?n) + 3" by simp
  then have dr: "drop ?p (i_querybuf c) = ?tail" unfolding assms(3) by (simp only: drop_line)
  let ?c1 = "?c\<lparr>i_multibulklen := length as + 1\<rparr>"
  have pr: "parse_request E c = Some (mb_finish (mb_loop E ?c1 ?p))"
    using sr q0 len n num string2ll_decimal [OF n(1)] s by (simp add: parse_request_def processMultibulkBuffer_def Let_def nat_add_distrib)
  obtain c2 where c2: "mb_loop E ?c1 ?p = mb_loop E c2 (?p + length (concat (map bulk_bytes as)))" "i_querybuf c2 = i_querybuf c"
    "i_bulklen c2 = -1" "i_multibulklen c2 = 1"
    using loop_short_args [OF assms(1), of ?p ?c1 "[36]" 1 E] dr sr by auto
  have "drop (?p + length (concat (map bulk_bytes as))) (i_querybuf c) = [36]"
    using arg_cong [OF dr, of "drop (length (concat (map bulk_bytes as)))"] by (simp add: add.commute add.left_commute)
  then have "mb_header E c2 (?p + length (concat (map bulk_bytes as))) =
      MError (setProtocolError (addReplyError E c2 ''Protocol error: too big bulk count string'') 0)"
    using c2 assms(4) by (simp add: mb_header_def Let_def)
  then have "\<exists>c3. mb_loop E ?c1 ?p = Inl c3 \<and> o_close_after (i_out c3)"
    using c2 mb_loop_stop(3) [of c2 E] by (auto simp: setProtocolError_def)
  then have "\<exists>c'. processInputBuffer E pc s c = Some (s, c') \<and> o_close_after (i_out c')"
    using pr q0 assms(9,10) by (auto simp: processInputBuffer.simps [of E pc s c] mb_finish_def)
  moreover have "request_ok (as @ [[97]])" using assms(1,2) by (auto simp: request_ok_def arg_ok_def REDIS_MBULK_BIG_ARG_def)
  moreover have "i_querybuf c @ (ll_decimal 1 @ crlf @ [97] @ crlf) = request_bytes (as @ [[97]])"
    by (simp add: assms(3) request_bytes_def bulk_bytes_def num_line_def crlf_def)
  ultimately show ?thesis by blast
qed


definition long_request :: bytes where
  "long_request = num_line 42 (int (length (replicate 3 (replicate 30000 (97::byte))) + 1)) @
     concat (map bulk_bytes (replicate 3 (replicate 30000 97))) @ [36]"

lemma length_long_request: "length long_request > REDIS_INLINE_MAX_SIZE"
proof -
  have "length (bulk_bytes (replicate 30000 97)) \<ge> 30000" by (simp add: bulk_bytes_def)
  then show ?thesis by (simp add: long_request_def REDIS_INLINE_MAX_SIZE_def numeral_3_eq_3)
qed

theorem buffered_request_rejected_witness:
  "(\<exists>c'. processInputBuffer some_env log_command [] ((new_client fresh_client)\<lparr>i_querybuf := long_request\<rparr>) = Some ([], c') \<and> o_close_after (i_out c')) \<and>
    request_ok (replicate 3 (replicate 30000 97) @ [[97]]) \<and> (\<exists>net. long_request @ net = request_bytes (replicate 3 (replicate 30000 97) @ [[97]]))"
  using buffered_request_rejected [of "replicate 3 (replicate 30000 97)" "(new_client fresh_client)\<lparr>i_querybuf := long_request\<rparr>" some_env log_command "[]"]
    length_long_request fresh_client_ok(4)
  by (simp add: REDIS_MBULK_BIG_ARG_def new_client_def long_request_def)

text \<open>
  C32. An inline request is the line up to the newline, without a carriage return in front of
  it, split into arguments of which the empty ones are dropped.  With the line end \<open>CR LF\<close> the
  rest of the buffer is what follows the line.  With a bare \<open>LF\<close>, which the code accepts too,
  the first byte of what follows, the beginning of the next request, is lost.
\<close>

theorem inline_request:
  assumes "10 \<notin> set w" "0 \<notin> set w" "w = [] \<or> last w \<noteq> 13" "sdssplitargs (e_jk E) (w @ [0]) = Some (Some argv)"
    and "i_querybuf c = w @ eol @ r" "eol = [13, 10] \<or> eol = [10]"
  shows "\<exists>c'. processInlineBuffer E c = Some (c', True) \<and> i_argv c' = filter (\<lambda>a. a \<noteq> []) (map sds_content argv) \<and>
     i_querybuf c' = (if eol = [10] then drop 1 r else r)"
proof -
  have s: "strchr 10 (v @ 10 # r) = Some (length v)" if "10 \<notin> set v" "0 \<notin> set v" for v :: bytes and r
    using that by (induction v) auto
  from assms(6) show ?thesis
  proof
    assume eol: "eol = [13, 10]"
    have "strchr 10 (i_querybuf c) = Some (length w + 1)" using s [of "w @ [13]" r] assms(1,2,5) eol by simp
    then show ?thesis using assms(4,5) eol by (simp add: processInlineBuffer_def Let_def nth_append)
  next
    assume eol: "eol = [10]"
    have "strchr 10 (i_querybuf c) = Some (length w)" using s [of w r] assms(1,2,5) eol by simp
    then show ?thesis using assms(3,4,5) eol
      by (cases w rule: rev_cases) (simp_all add: processInlineBuffer_def Let_def nth_append)
  qed
qed

theorem inline_request_witness:
  "\<exists>c'. processInlineBuffer some_env ((new_client fresh_client)\<lparr>i_querybuf := [10, 42, 49, 13, 10]\<rparr>) = Some (c', True) \<and>
     i_argv c' = [] \<and> i_querybuf c' = [49, 13, 10]"
proof -
  have "sdssplitargs (e_jk some_env) ([] @ [0]) = Some (Some [])"
    by (simp add: sdssplitargs_def splitargs_loop.simps skip_blanks.simps c_isspace_def)
  from inline_request [OF _ _ _ this, of "(new_client fresh_client)\<lparr>i_querybuf := [10, 42, 49, 13, 10]\<rparr>" "[10]" "[42, 49, 13, 10]"]
  show ?thesis by simp
qed

lemma addReplyError_queues:
  assumes "out_rep (e_ev E) (i_out c) xs"
  shows "pending (i_out (addReplyError E c msg)) = xs @ [45, 69, 82, 82, 32] @ map of_char msg @ crlf"
  using pushes_rep [OF assms, of "e_over E" "[[45, 69, 82, 82, 32], map of_char msg, crlf]"]
  by (simp add: addReplyError_def addReplyErrorLength_def push_bytes_eqs out_rep_def)

text \<open>
  C33. A multi bulk header that is no number, or a number over the limit of 1024*1024 arguments,
  gets an error reply and nothing of the input is executed, now or by any later call: the
  client is only written to and then closed.
\<close>

theorem invalid_multibulk_length:
  assumes "i_querybuf c = 42 # l @ 13 # b # r" "13 \<notin> set l" "0 \<notin> set l"
    and "string2ll l = None \<or> (\<exists>ll. string2ll l = Some ll \<and> ll > 1024 * 1024)"
    and "i_argv c = []" "i_reqtype c = ReqUnknown" "i_multibulklen c = 0" "\<not> i_blocked c" "out_rep (e_ev E) (i_out c) xs"
  shows "\<exists>c'. processInputBuffer E pc s c = Some (s, c') \<and>
     pending (i_out c') = xs @ map of_char ''-ERR Protocol error: invalid multibulk length'' @ crlf \<and>
     (\<forall>s2 more_input. processInputBuffer E pc s2 (c'\<lparr>i_querybuf := i_querybuf c' @ more_input\<rparr>) = Some (s2, c'\<lparr>i_querybuf := i_querybuf c' @ more_input\<rparr>))"
proof -
  let ?c = "set_reqtype c"
  let ?c' = "setProtocolError (addReplyError E ?c ''Protocol error: invalid multibulk length'') 0"
  have sr: "i_reqtype ?c = ReqMultibulk" "i_querybuf ?c = i_querybuf c" "i_multibulklen ?c = 0" "i_argv ?c = []" "i_out ?c = i_out c"
    using assms(1,5-7) by (simp_all add: set_reqtype_def)
  have "strchr 13 (42 # l @ 13 # b # r) = Some (length (42 # l))"
    using strchr_prefix [of "42 # l @ 13 # b # r" "[]" "42 # l" "b # r"] assms(2,3) by simp
  then have "parse_request E c = Some (?c', False)"
    using sr assms(1,4) by (auto simp: parse_request_def processMultibulkBuffer_def Let_def)
  then have p: "processInputBuffer E pc s c = Some (s, ?c')"
    using assms(1,8,9) by (simp add: processInputBuffer.simps [of E pc s c] out_rep_def)
  have "pending (i_out ?c') = pending (i_out (addReplyError E ?c ''Protocol error: invalid multibulk length''))"
    by (simp add: setProtocolError_def pending_def)
  also have "\<dots> = xs @ map of_char ''-ERR Protocol error: invalid multibulk length'' @ crlf"
    using addReplyError_queues [of E ?c xs] assms(9) sr(5) by (simp add: of_char_def)
  finally have q: "pending (i_out ?c') = xs @ map of_char ''-ERR Protocol error: invalid multibulk length'' @ crlf" .
  have "processInputBuffer E pc s2 (?c'\<lparr>i_querybuf := i_querybuf ?c' @ m\<rparr>) = Some (s2, ?c'\<lparr>i_querybuf := i_querybuf ?c' @ m\<rparr>)" for s2 m
    by (subst processInputBuffer.simps) (simp add: setProtocolError_def)
  with p q show ?thesis by blast
qed

theorem invalid_multibulk_length_witness:
  "\<exists>c'. processInputBuffer some_env log_command [] ((new_client fresh_client)\<lparr>i_querybuf := [42, 120, 13, 10, 7]\<rparr>) = Some ([], c') \<and>
     pending (i_out c') = [] @ map of_char ''-ERR Protocol error: invalid multibulk length'' @ crlf \<and>
     (\<forall>s2 more_input. processInputBuffer some_env log_command s2 (c'\<lparr>i_querybuf := i_querybuf c' @ more_input\<rparr>) = Some (s2, c'\<lparr>i_querybuf := i_querybuf c' @ more_input\<rparr>))"
  by (rule invalid_multibulk_length [of _ "[120]" 10 "[7]"])
    (simp_all add: new_client_def string2ll_def out_rep_def fresh_client_ok some_env_def)

end
