(* ===== verification/Pubsub.thy ===== *)
theory Pubsub
  imports Glob NetOut
begin

text \<open>
  Publish and subscribe, from \<open>pubsub.c\<close>: the subscriptions each client keeps, the tables the
  server keeps for the other direction, the commands that change both, and the delivery of a
  message.

  A hash table with channels as keys is modelled as a partial function (theory \<open>Dict\<close> proves
  that the table code behaves so), the set of a client's channels as a list without
  duplicates.  The order in which an iterator visits a table is the parameter \<open>ord\<close>.  A client
  is named by a number.  What is sent to a client is the sequence of reply calls made on it;
  theory \<open>NetOut\<close> shows what these put on the wire.  A failed assertion or an access through a
  null pointer is \<open>None\<close>.
\<close>

section \<open>State\<close>

type_synonym cid = nat

record pclient =
  p_channels :: "bytes list"
  p_patterns :: "bytes list"
  p_pubsub :: bool
  p_force_repl :: bool
  p_out :: "rop list"

record pserver =
  ps_channels :: "bytes \<Rightarrow> cid list option"
  ps_patterns :: "(cid \<times> bytes) list"
  ps_clients :: "cid \<Rightarrow> pclient"

definition upd_client :: "pserver \<Rightarrow> cid \<Rightarrow> (pclient \<Rightarrow> pclient) \<Rightarrow> pserver" where
  "upd_client s c f = s\<lparr>ps_clients := (ps_clients s)(c := f (ps_clients s c))\<rparr>"

definition reply :: "pserver \<Rightarrow> cid \<Rightarrow> rop list \<Rightarrow> pserver" where
  "reply s c rs = upd_client s c (\<lambda>k. k\<lparr>p_out := p_out k @ rs\<rparr>)"

definition clientSubscriptionsCount :: "pclient \<Rightarrow> int" where
  "clientSubscriptionsCount k = int (length (p_channels k) + length (p_patterns k))"

lemma no_subscriptions: "clientSubscriptionsCount k = 0 \<longleftrightarrow> p_channels k = [] \<and> p_patterns k = []"
  by (simp only: clientSubscriptionsCount_def of_nat_eq_0_iff add_is_0 length_0_conv)

text \<open>The shared reply objects.\<close>

definition mbulkhdr :: "nat \<Rightarrow> rop" where
  "mbulkhdr n = RObject (ORaw (42 # dec_digits n @ crlf))"

definition bulk_object :: "string \<Rightarrow> rop" where
  "bulk_object w = RObject (ORaw (bulk_bytes (map of_char w)))"

definition nullbulk :: rop where
  "nullbulk = RObject (ORaw ([36, 45, 49] @ crlf))"

section \<open>Subscribing and unsubscribing\<close>

text \<open>The result is the flag the functions return.\<close>

definition pubsubSubscribeChannel :: "pserver \<Rightarrow> cid \<Rightarrow> bytes \<Rightarrow> pserver \<times> bool" where
  "pubsubSubscribeChannel s c ch =
     (let (s, ret) =
        (if ch \<notin> set (p_channels (ps_clients s c)) then
           let s = upd_client s c (\<lambda>k. k\<lparr>p_channels := p_channels k @ [ch]\<rparr>) in
           let clients = (case ps_channels s ch of None \<Rightarrow> [] | Some l \<Rightarrow> l) in
           (s\<lparr>ps_channels := (ps_channels s)(ch := Some (clients @ [c]))\<rparr>, True)
         else (s, False))
      in (reply s c [mbulkhdr 3, bulk_object ''subscribe'', RBulk (ORaw ch), RInt (clientSubscriptionsCount (ps_clients s c))], ret))"

definition pubsubUnsubscribeChannel :: "pserver \<Rightarrow> cid \<Rightarrow> bytes \<Rightarrow> bool \<Rightarrow> (pserver \<times> bool) option" where
  "pubsubUnsubscribeChannel s c ch notify =
     do {
       (s, ret) \<leftarrow>
         (if ch \<in> set (p_channels (ps_clients s c)) then
            let s = upd_client s c (\<lambda>k. k\<lparr>p_channels := removeAll ch (p_channels k)\<rparr>) in
            (case ps_channels s ch of
               None \<Rightarrow> None
             | Some clients \<Rightarrow>
                 if c \<notin> set clients then None
                 else
                   let clients = remove1 c clients in
                   Some (s\<lparr>ps_channels := (ps_channels s)(ch := if length clients = 0 then None else Some clients)\<rparr>, True))
          else Some (s, False));
       Some (if notify
             then reply s c [mbulkhdr 3, bulk_object ''unsubscribe'', RBulk (ORaw ch), RInt (clientSubscriptionsCount (ps_clients s c))]
             else s, ret)
     }"

definition pubsubSubscribePattern :: "pserver \<Rightarrow> cid \<Rightarrow> bytes \<Rightarrow> pserver \<times> bool" where
  "pubsubSubscribePattern s c pat =
     (let (s, ret) =
        (if pat \<notin> set (p_patterns (ps_clients s c)) then
           let s = upd_client s c (\<lambda>k. k\<lparr>p_patterns := p_patterns k @ [pat]\<rparr>) in
           (s\<lparr>ps_patterns := ps_patterns s @ [(c, pat)]\<rparr>, True)
         else (s, False))
      in (reply s c [mbulkhdr 3, bulk_object ''psubscribe'', RBulk (ORaw pat), RInt (clientSubscriptionsCount (ps_clients s c))], ret))"

definition pubsubUnsubscribePattern :: "pserver \<Rightarrow> cid \<Rightarrow> bytes \<Rightarrow> bool \<Rightarrow> (pserver \<times> bool) option" where
  "pubsubUnsubscribePattern s c pat notify =
     do {
       (s, ret) \<leftarrow>
         (if pat \<in> set (p_patterns (ps_clients s c)) then
            let s = upd_client s c (\<lambda>k. k\<lparr>p_patterns := remove1 pat (p_patterns k)\<rparr>) in
            if (c, pat) \<notin> set (ps_patterns s) then None
            else Some (s\<lparr>ps_patterns := remove1 (c, pat) (ps_patterns s)\<rparr>, True)
          else Some (s, False));
       Some (if notify
             then reply s c [mbulkhdr 3, bulk_object ''punsubscribe'', RBulk (ORaw pat), RInt (clientSubscriptionsCount (ps_clients s c))]
             else s, ret)
     }"

text \<open>The loops over what the client was subscribed to, with the count they return.\<close>

fun unsub_loop :: "(pserver \<Rightarrow> bytes \<Rightarrow> (pserver \<times> bool) option) \<Rightarrow> pserver \<Rightarrow> bytes list \<Rightarrow> nat \<Rightarrow> (pserver \<times> nat) option" where
  "unsub_loop f s [] count = Some (s, count)"
| "unsub_loop f s (x # xs) count =
     do { (s, r) \<leftarrow> f s x; unsub_loop f s xs (count + (if r then 1 else 0)) }"

definition pubsubUnsubscribeAllChannels :: "(bytes list \<Rightarrow> bytes list) \<Rightarrow> pserver \<Rightarrow> cid \<Rightarrow> bool \<Rightarrow> (pserver \<times> nat) option" where
  "pubsubUnsubscribeAllChannels ord s c notify =
     do {
       (s, count) \<leftarrow> unsub_loop (\<lambda>s ch. pubsubUnsubscribeChannel s c ch notify) s (ord (p_channels (ps_clients s c))) 0;
       Some (if notify \<and> count = 0
             then reply s c [mbulkhdr 3, bulk_object ''unsubscribe'', nullbulk, RInt (clientSubscriptionsCount (ps_clients s c))]
             else s, count)
     }"

definition pubsubUnsubscribeAllPatterns :: "pserver \<Rightarrow> cid \<Rightarrow> bool \<Rightarrow> (pserver \<times> nat) option" where
  "pubsubUnsubscribeAllPatterns s c notify =
     do {
       (s, count) \<leftarrow> unsub_loop (\<lambda>s pat. pubsubUnsubscribePattern s c pat notify) s (p_patterns (ps_clients s c)) 0;
       Some (if notify \<and> count = 0
             then reply s c [mbulkhdr 3, bulk_object ''punsubscribe'', nullbulk, RInt (clientSubscriptionsCount (ps_clients s c))]
             else s, count)
     }"

section \<open>Publishing\<close>

definition message_reply :: "bytes \<Rightarrow> bytes \<Rightarrow> rop list" where
  "message_reply ch msg = [mbulkhdr 3, bulk_object ''message'', RBulk (ORaw ch), RBulk (ORaw msg)]"

definition pmessage_reply :: "bytes \<Rightarrow> bytes \<Rightarrow> bytes \<Rightarrow> rop list" where
  "pmessage_reply pat ch msg = [mbulkhdr 4, bulk_object ''pmessage'', RBulk (ORaw pat), RBulk (ORaw ch), RBulk (ORaw msg)]"

fun send_loop_channel :: "bytes \<Rightarrow> bytes \<Rightarrow> pserver \<Rightarrow> cid list \<Rightarrow> nat \<Rightarrow> pserver \<times> nat" where
  "send_loop_channel ch msg s [] n = (s, n)"
| "send_loop_channel ch msg s (c # cs) n = send_loop_channel ch msg (reply s c (message_reply ch msg)) cs (n + 1)"

fun send_loop_pattern :: "bytes \<Rightarrow> bytes \<Rightarrow> pserver \<Rightarrow> (cid \<times> bytes) list \<Rightarrow> nat \<Rightarrow> (pserver \<times> nat) option" where
  "send_loop_pattern ch msg s [] n = Some (s, n)"
| "send_loop_pattern ch msg s ((c, pat) # ps) n =
     do {
       m \<leftarrow> stringmatchlen pat ch False;
       if m then send_loop_pattern ch msg (reply s c (pmessage_reply pat ch msg)) ps (n + 1)
       else send_loop_pattern ch msg s ps n
     }"

definition pubsubPublishMessage :: "pserver \<Rightarrow> bytes \<Rightarrow> bytes \<Rightarrow> (pserver \<times> nat) option" where
  "pubsubPublishMessage s ch msg =
     (let (s, receivers) =
        (case ps_channels s ch of
           Some l \<Rightarrow> send_loop_channel ch msg s l 0
         | None \<Rightarrow> (s, 0))
      in if length (ps_patterns s) \<noteq> 0 then send_loop_pattern ch msg s (ps_patterns s) receivers else Some (s, receivers))"

section \<open>Commands\<close>

text \<open>The arguments are those after the command name.\<close>

definition subscribeCommand :: "pserver \<Rightarrow> cid \<Rightarrow> bytes list \<Rightarrow> pserver" where
  "subscribeCommand s c args =
     upd_client (foldl (\<lambda>s ch. fst (pubsubSubscribeChannel s c ch)) s args) c (\<lambda>k. k\<lparr>p_pubsub := True\<rparr>)"

definition psubscribeCommand :: "pserver \<Rightarrow> cid \<Rightarrow> bytes list \<Rightarrow> pserver" where
  "psubscribeCommand s c args =
     upd_client (foldl (\<lambda>s pat. fst (pubsubSubscribePattern s c pat)) s args) c (\<lambda>k. k\<lparr>p_pubsub := True\<rparr>)"

definition clear_pubsub :: "pserver \<Rightarrow> cid \<Rightarrow> pserver" where
  "clear_pubsub s c =
     (if clientSubscriptionsCount (ps_clients s c) = 0 then upd_client s c (\<lambda>k. k\<lparr>p_pubsub := False\<rparr>) else s)"

definition unsubscribeCommand :: "(bytes list \<Rightarrow> bytes list) \<Rightarrow> pserver \<Rightarrow> cid \<Rightarrow> bytes list \<Rightarrow> pserver option" where
  "unsubscribeCommand ord s c args =
     do {
       (s, _) \<leftarrow> (if args = [] then pubsubUnsubscribeAllChannels ord s c True
                  else unsub_loop (\<lambda>s ch. pubsubUnsubscribeChannel s c ch True) s args 0);
       Some (clear_pubsub s c)
     }"

definition punsubscribeCommand :: "pserver \<Rightarrow> cid \<Rightarrow> bytes list \<Rightarrow> pserver option" where
  "punsubscribeCommand s c args =
     do {
       (s, _) \<leftarrow> (if args = [] then pubsubUnsubscribeAllPatterns s c True
                  else unsub_loop (\<lambda>s pat. pubsubUnsubscribePattern s c pat True) s args 0);
       Some (clear_pubsub s c)
     }"

definition publishCommand :: "pserver \<Rightarrow> cid \<Rightarrow> bytes \<Rightarrow> bytes \<Rightarrow> pserver option" where
  "publishCommand s c ch msg =
     do {
       (s, receivers) \<leftarrow> pubsubPublishMessage s ch msg;
       let s = upd_client s c (\<lambda>k. k\<lparr>p_force_repl := True\<rparr>);
       Some (reply s c [RInt (int receivers)])
     }"

text \<open>What \<open>freeClient\<close> does here: all subscriptions go, without telling the client.\<close>

definition pubsub_free :: "(bytes list \<Rightarrow> bytes list) \<Rightarrow> pserver \<Rightarrow> cid \<Rightarrow> pserver option" where
  "pubsub_free ord s c =
     do {
       (s, _) \<leftarrow> pubsubUnsubscribeAllChannels ord s c False;
       (s, _) \<leftarrow> pubsubUnsubscribeAllPatterns s c False;
       Some s
     }"


text \<open>
  \<open>PUBSUB\<close>: the channels with subscribers, in the order \<open>vis\<close> an iterator visits the table, the
  numbers of subscribers, the number of patterns.  The deferred length of the first reply is
  written in front of it (theory \<open>NetOut\<close>).
\<close>

definition strcaseeq :: "bytes \<Rightarrow> string \<Rightarrow> bool" where
  "strcaseeq a w \<longleftrightarrow> map (\<lambda>b. tolower_int (schar b)) (takeWhile (\<lambda>b. b \<noteq> 0) a) = map (\<lambda>x. tolower_int (schar (of_char x))) w"

fun omap_filter :: "('a \<Rightarrow> bool option) \<Rightarrow> 'a list \<Rightarrow> 'a list option" where
  "omap_filter f [] = Some []"
| "omap_filter f (x # xs) = do { b \<leftarrow> f x; ys \<leftarrow> omap_filter f xs; Some (if b then x # ys else ys) }"

definition pubsubCommand ::
  "((bytes \<Rightarrow> cid list option) \<Rightarrow> bytes list) \<Rightarrow> pserver \<Rightarrow> cid \<Rightarrow> bytes list \<Rightarrow> pserver option" where
  "pubsubCommand vis s c args =
     (case args of
        [] \<Rightarrow> None
      | sub # rest \<Rightarrow>
          if strcaseeq sub ''channels'' \<and> length args \<le> 2 then
            do {
              chs \<leftarrow> omap_filter (\<lambda>ch. if rest = [] then Some True else stringmatchlen (hd rest) ch False) (vis (ps_channels s));
              Some (reply s c (RMultiLen (int (length chs)) # map (\<lambda>ch. RBulk (ORaw ch)) chs))
            }
          else if strcaseeq sub ''numsub'' then
            Some (reply s c (RMultiLen (int (length rest * 2)) #
              concat (map (\<lambda>ch. [RBulk (ORaw ch), RInt (case ps_channels s ch of None \<Rightarrow> 0 | Some l \<Rightarrow> int (length l))]) rest)))
          else if strcaseeq sub ''numpat'' \<and> rest = [] then Some (reply s c [RInt (int (length (ps_patterns s)))])
          else Some (reply s c [RError (map of_char ''Unknown PUBSUB subcommand or wrong number of arguments for '' @ [39] @
                 takeWhile (\<lambda>b. b \<noteq> 0) sub @ [39])]))"

section \<open>The two directions agree\<close>

definition subs :: "pserver \<Rightarrow> bytes \<Rightarrow> cid list" where
  "subs s ch = (case ps_channels s ch of None \<Rightarrow> [] | Some l \<Rightarrow> l)"

definition pats :: "pserver \<Rightarrow> cid \<Rightarrow> bytes list" where
  "pats s c = map snd (filter (\<lambda>x. fst x = c) (ps_patterns s))"

text \<open>
  A client is in the list of a channel exactly when the channel is in its table, lists of
  channels are not empty and have no duplicates, and the patterns the server keeps for a
  client are the client's, in order.
\<close>

definition pinv :: "pserver \<Rightarrow> bool" where
  "pinv s \<longleftrightarrow>
     (\<forall>ch c. c \<in> set (subs s ch) \<longleftrightarrow> ch \<in> set (p_channels (ps_clients s c))) \<and>
     (\<forall>ch l. ps_channels s ch = Some l \<longrightarrow> l \<noteq> [] \<and> distinct l) \<and>
     (\<forall>c. distinct (p_channels (ps_clients s c)) \<and> distinct (p_patterns (ps_clients s c))) \<and>
     (\<forall>c. pats s c = p_patterns (ps_clients s c))"

text \<open>What replies do not touch.\<close>

definition view :: "pserver \<Rightarrow> cid \<Rightarrow> bytes list \<times> bytes list \<times> bool" where
  "view s c = (p_channels (ps_clients s c), p_patterns (ps_clients s c), p_pubsub (ps_clients s c))"

lemma reply_simps [simp]:
  "ps_channels (reply s c rs) = ps_channels s" "ps_patterns (reply s c rs) = ps_patterns s"
  "p_channels (ps_clients (reply s c rs) d) = p_channels (ps_clients s d)"
  "p_patterns (ps_clients (reply s c rs) d) = p_patterns (ps_clients s d)"
  "p_pubsub (ps_clients (reply s c rs) d) = p_pubsub (ps_clients s d)"
  "view (reply s c rs) d = view s d" "subs (reply s c rs) ch = subs s ch" "pats (reply s c rs) d = pats s d"
  by (simp_all add: reply_def upd_client_def subs_def pats_def view_def)

lemma pinv_reply [simp]: "pinv (reply s c rs) = pinv s"
  by (simp add: pinv_def)

lemma pinv_cong:
  assumes "ps_channels s' = ps_channels s" "ps_patterns s' = ps_patterns s"
    "\<And>d. p_channels (ps_clients s' d) = p_channels (ps_clients s d)" "\<And>d. p_patterns (ps_clients s' d) = p_patterns (ps_clients s d)"
  shows "pinv s' = pinv s"
  using assms by (simp add: pinv_def subs_def pats_def)

lemma subscribe_channel_inv:
  assumes "pinv s"
  shows "pinv (fst (pubsubSubscribeChannel s c ch)) \<and>
    view (fst (pubsubSubscribeChannel s c ch)) d =
      (if d = c then (if ch \<in> set (p_channels (ps_clients s c)) then p_channels (ps_clients s c) else p_channels (ps_clients s c) @ [ch],
         p_patterns (ps_clients s c), p_pubsub (ps_clients s c)) else view s d)"
proof (cases "ch \<in> set (p_channels (ps_clients s c))")
  case True
  then show ?thesis using assms by (simp add: pubsubSubscribeChannel_def view_def)
next
  case False
  let ?s = "(upd_client s c (\<lambda>k. k\<lparr>p_channels := p_channels k @ [ch]\<rparr>))\<lparr>ps_channels := (ps_channels s)(ch := Some (subs s ch @ [c]))\<rparr>"
  have "fst (pubsubSubscribeChannel s c ch) = reply ?s c [mbulkhdr 3, bulk_object ''subscribe'', RBulk (ORaw ch), RInt (clientSubscriptionsCount (ps_clients ?s c))]"
    using False by (simp add: pubsubSubscribeChannel_def Let_def subs_def upd_client_def)
  moreover have "c \<notin> set (subs s ch)" using assms False by (simp add: pinv_def)
  then have "pinv ?s" using assms False by (auto simp: pinv_def subs_def pats_def upd_client_def split: option.splits)
  ultimately show ?thesis using False by (simp add: view_def upd_client_def)
qed

lemma subscribe_pattern_inv:
  assumes "pinv s"
  shows "pinv (fst (pubsubSubscribePattern s c pat)) \<and>
    view (fst (pubsubSubscribePattern s c pat)) d =
      (if d = c then (p_channels (ps_clients s c),
         if pat \<in> set (p_patterns (ps_clients s c)) then p_patterns (ps_clients s c) else p_patterns (ps_clients s c) @ [pat],
         p_pubsub (ps_clients s c)) else view s d) \<and>
    set (ps_patterns (fst (pubsubSubscribePattern s c pat))) \<subseteq> insert (c, pat) (set (ps_patterns s))"
proof (cases "pat \<in> set (p_patterns (ps_clients s c))")
  case True
  then show ?thesis using assms by (auto simp: pubsubSubscribePattern_def view_def)
next
  case False
  let ?s = "(upd_client s c (\<lambda>k. k\<lparr>p_patterns := p_patterns k @ [pat]\<rparr>))\<lparr>ps_patterns := ps_patterns s @ [(c, pat)]\<rparr>"
  have "fst (pubsubSubscribePattern s c pat) = reply ?s c [mbulkhdr 3, bulk_object ''psubscribe'', RBulk (ORaw pat), RInt (clientSubscriptionsCount (ps_clients ?s c))]"
    using False by (simp add: pubsubSubscribePattern_def Let_def upd_client_def)
  moreover have "pinv ?s" using assms False by (auto simp: pinv_def subs_def pats_def upd_client_def split: option.splits)
  ultimately show ?thesis using False by (simp add: view_def upd_client_def)
qed


lemma unsubscribe_channel_inv:
  assumes "pinv s"
  shows "\<exists>s'. pubsubUnsubscribeChannel s c ch notify = Some (s', ch \<in> set (p_channels (ps_clients s c))) \<and> pinv s' \<and>
    ps_patterns s' = ps_patterns s \<and>
    (\<forall>d. view s' d = (if d = c then (removeAll ch (p_channels (ps_clients s c)), p_patterns (ps_clients s c), p_pubsub (ps_clients s c)) else view s d))"
proof (cases "ch \<in> set (p_channels (ps_clients s c))")
  case False
  then show ?thesis using assms by (cases notify) (auto simp: pubsubUnsubscribeChannel_def view_def)
next
  case True
  then have "c \<in> set (subs s ch)" using assms by (simp add: pinv_def)
  then obtain l where l: "ps_channels s ch = Some l" "c \<in> set l" by (cases "ps_channels s ch") (auto simp: subs_def)
  then have dl: "distinct l" using assms by (auto simp: pinv_def)
  let ?s = "(upd_client s c (\<lambda>k. k\<lparr>p_channels := removeAll ch (p_channels k)\<rparr>))\<lparr>ps_channels := (ps_channels s)(ch := if remove1 c l = [] then None else Some (remove1 c l))\<rparr>"
  let ?r = "[mbulkhdr 3, bulk_object ''unsubscribe'', RBulk (ORaw ch), RInt (clientSubscriptionsCount (ps_clients ?s c))]"
  have "pubsubUnsubscribeChannel s c ch notify = Some (if notify then reply ?s c ?r else ?s, True)"
    using True l by (simp add: pubsubUnsubscribeChannel_def Let_def upd_client_def)
  moreover have subs: "subs ?s x = (if x = ch then remove1 c l else subs s x)" for x by (simp add: subs_def)
  have mem: "\<forall>x d. d \<in> set (subs s x) \<longleftrightarrow> x \<in> set (p_channels (ps_clients s d))" "\<forall>d. d \<in> set l \<longleftrightarrow> ch \<in> set (p_channels (ps_clients s d))"
    using assms l(1) by (auto simp: pinv_def subs_def dest: spec [of _ ch])
  have "pinv ?s" unfolding pinv_def
  proof (intro conjI)
    show "\<forall>x d. d \<in> set (subs ?s x) \<longleftrightarrow> x \<in> set (p_channels (ps_clients ?s d))"
      unfolding subs using mem dl by (auto simp: upd_client_def)
    show "\<forall>x m. ps_channels ?s x = Some m \<longrightarrow> m \<noteq> [] \<and> distinct m" using assms dl by (auto simp: pinv_def)
    show "\<forall>d. distinct (p_channels (ps_clients ?s d)) \<and> distinct (p_patterns (ps_clients ?s d))"
      using assms by (auto simp: pinv_def upd_client_def distinct_removeAll)
    show "\<forall>d. pats ?s d = p_patterns (ps_clients ?s d)" using assms by (auto simp: pinv_def upd_client_def pats_def)
  qed
  ultimately show ?thesis using True by (auto simp: view_def upd_client_def)
qed

lemma filter_remove1: "map snd (filter (\<lambda>x. fst x = d) (remove1 (c, pat) xs)) =
    (if d = c then remove1 pat (map snd (filter (\<lambda>x. fst x = d) xs)) else map snd (filter (\<lambda>x. fst x = d) xs))"
  by (induction xs) auto

lemma unsubscribe_pattern_inv:
  assumes "pinv s"
  shows "\<exists>s'. pubsubUnsubscribePattern s c pat notify = Some (s', pat \<in> set (p_patterns (ps_clients s c))) \<and> pinv s' \<and>
    set (ps_patterns s') \<subseteq> set (ps_patterns s) \<and>
    (\<forall>d. view s' d = (if d = c then (p_channels (ps_clients s c), remove1 pat (p_patterns (ps_clients s c)), p_pubsub (ps_clients s c)) else view s d))"
proof (cases "pat \<in> set (p_patterns (ps_clients s c))")
  case False
  then show ?thesis using assms by (cases notify) (auto simp: pubsubUnsubscribePattern_def view_def remove1_idem)
next
  case True
  then have "pat \<in> set (pats s c)" using assms by (simp add: pinv_def)
  then have l: "(c, pat) \<in> set (ps_patterns s)" by (auto simp: pats_def)
  let ?s = "(upd_client s c (\<lambda>k. k\<lparr>p_patterns := remove1 pat (p_patterns k)\<rparr>))\<lparr>ps_patterns := remove1 (c, pat) (ps_patterns s)\<rparr>"
  let ?r = "[mbulkhdr 3, bulk_object ''punsubscribe'', RBulk (ORaw pat), RInt (clientSubscriptionsCount (ps_clients ?s c))]"
  have "pubsubUnsubscribePattern s c pat notify = Some (if notify then reply ?s c ?r else ?s, True)"
    using True l by (simp add: pubsubUnsubscribePattern_def Let_def upd_client_def)
  moreover have "pinv ?s" unfolding pinv_def
  proof (intro conjI)
    show "\<forall>x d. d \<in> set (subs ?s x) \<longleftrightarrow> x \<in> set (p_channels (ps_clients ?s d))"
      using assms by (auto simp: pinv_def upd_client_def subs_def)
    show "\<forall>x m. ps_channels ?s x = Some m \<longrightarrow> m \<noteq> [] \<and> distinct m" using assms by (auto simp: pinv_def upd_client_def)
    show "\<forall>d. distinct (p_channels (ps_clients ?s d)) \<and> distinct (p_patterns (ps_clients ?s d))"
      using assms by (auto simp: pinv_def upd_client_def)
    show "\<forall>d. pats ?s d = p_patterns (ps_clients ?s d)" using assms by (auto simp: pinv_def upd_client_def pats_def filter_remove1)
  qed
  ultimately show ?thesis using True set_remove1_subset [of "(c, pat)" "ps_patterns s"] by (auto simp: view_def upd_client_def)
qed

text \<open>The loops remove all they are given and touch no other client.\<close>

lemma unsub_channels_loop:
  "pinv s \<Longrightarrow>
    \<exists>s' n'. unsub_loop (\<lambda>s ch. pubsubUnsubscribeChannel s c ch notify) s xs n = Some (s', n') \<and> pinv s' \<and> ps_patterns s' = ps_patterns s \<and>
      (\<forall>d. view s' d = (if d = c then (filter (\<lambda>x. x \<notin> set xs) (p_channels (ps_clients s c)), p_patterns (ps_clients s c), p_pubsub (ps_clients s c)) else view s d))"
proof (induction xs arbitrary: s n)
  case Nil
  then show ?case by (simp add: view_def)
next
  case (Cons x xs)
  obtain s1 where s1: "pubsubUnsubscribeChannel s c x notify = Some (s1, x \<in> set (p_channels (ps_clients s c)))" "pinv s1" "ps_patterns s1 = ps_patterns s"
    "\<forall>d. view s1 d = (if d = c then (removeAll x (p_channels (ps_clients s c)), p_patterns (ps_clients s c), p_pubsub (ps_clients s c)) else view s d)"
    using unsubscribe_channel_inv [OF Cons.prems, of c x notify] by blast
  have v: "p_channels (ps_clients s1 c) = removeAll x (p_channels (ps_clients s c))" "p_patterns (ps_clients s1 c) = p_patterns (ps_clients s c)"
    "p_pubsub (ps_clients s1 c) = p_pubsub (ps_clients s c)" using s1(4) by (auto simp: view_def dest: spec [of _ c])
  have f: "filter (\<lambda>y. y \<notin> set xs) (removeAll x (p_channels (ps_clients s c))) = filter (\<lambda>y. y \<notin> set (x # xs)) (p_channels (ps_clients s c))"
    by (auto simp: removeAll_filter_not_eq intro: filter_cong)
  obtain s' n' where "unsub_loop (\<lambda>s ch. pubsubUnsubscribeChannel s c ch notify) s1 xs (n + (if x \<in> set (p_channels (ps_clients s c)) then 1 else 0)) = Some (s', n')"
    "pinv s'" "ps_patterns s' = ps_patterns s1"
    "\<forall>d. view s' d = (if d = c then (filter (\<lambda>y. y \<notin> set xs) (p_channels (ps_clients s1 c)), p_patterns (ps_clients s1 c), p_pubsub (ps_clients s1 c)) else view s1 d)"
    using Cons.IH [OF s1(2), of "n + (if x \<in> set (p_channels (ps_clients s c)) then 1 else 0)"] by blast
  then show ?case using s1 unfolding v f by simp
qed

lemma unsub_patterns_loop:
  "pinv s \<Longrightarrow>
    \<exists>s' n'. unsub_loop (\<lambda>s pat. pubsubUnsubscribePattern s c pat notify) s xs n = Some (s', n') \<and> pinv s' \<and> set (ps_patterns s') \<subseteq> set (ps_patterns s) \<and>
      (\<forall>d. view s' d = (if d = c then (p_channels (ps_clients s c), fold remove1 xs (p_patterns (ps_clients s c)), p_pubsub (ps_clients s c)) else view s d))"
proof (induction xs arbitrary: s n)
  case Nil
  then show ?case by (simp add: view_def)
next
  case (Cons x xs)
  obtain s1 where s1: "pubsubUnsubscribePattern s c x notify = Some (s1, x \<in> set (p_patterns (ps_clients s c)))" "pinv s1" "set (ps_patterns s1) \<subseteq> set (ps_patterns s)"
    "\<forall>d. view s1 d = (if d = c then (p_channels (ps_clients s c), remove1 x (p_patterns (ps_clients s c)), p_pubsub (ps_clients s c)) else view s d)"
    using unsubscribe_pattern_inv [OF Cons.prems, of c x notify] by blast
  have v: "p_channels (ps_clients s1 c) = p_channels (ps_clients s c)" "p_patterns (ps_clients s1 c) = remove1 x (p_patterns (ps_clients s c))"
    "p_pubsub (ps_clients s1 c) = p_pubsub (ps_clients s c)" using s1(4) by (auto simp: view_def dest: spec [of _ c])
  obtain s' n' where "unsub_loop (\<lambda>s pat. pubsubUnsubscribePattern s c pat notify) s1 xs (n + (if x \<in> set (p_patterns (ps_clients s c)) then 1 else 0)) = Some (s', n')"
    "pinv s'" "set (ps_patterns s') \<subseteq> set (ps_patterns s1)"
    "\<forall>d. view s' d = (if d = c then (p_channels (ps_clients s1 c), fold remove1 xs (p_patterns (ps_clients s1 c)), p_pubsub (ps_clients s1 c)) else view s1 d)"
    using Cons.IH [OF s1(2), of "n + (if x \<in> set (p_patterns (ps_clients s c)) then 1 else 0)"] by blast
  then show ?case using s1 unfolding v by auto
qed

lemma fold_remove1_all: "fold remove1 xs xs = ([] :: 'a list)"
  by (induction xs) simp_all


lemma unsub_all_channels:
  assumes "pinv s" "set (ord (p_channels (ps_clients s c))) = set (p_channels (ps_clients s c))"
  shows "\<exists>s' n. pubsubUnsubscribeAllChannels ord s c notify = Some (s', n) \<and> pinv s' \<and> ps_patterns s' = ps_patterns s \<and>
    (\<forall>d. view s' d = (if d = c then ([], p_patterns (ps_clients s c), p_pubsub (ps_clients s c)) else view s d))"
proof -
  have "filter (\<lambda>x. x \<notin> set (ord (p_channels (ps_clients s c)))) (p_channels (ps_clients s c)) = []" using assms(2) by (auto simp: filter_empty_conv)
  with unsub_channels_loop [OF assms(1), of c notify "ord (p_channels (ps_clients s c))" 0] obtain s' n where
    "unsub_loop (\<lambda>s ch. pubsubUnsubscribeChannel s c ch notify) s (ord (p_channels (ps_clients s c))) 0 = Some (s', n)" "pinv s'" "ps_patterns s' = ps_patterns s"
    "\<forall>d. view s' d = (if d = c then ([], p_patterns (ps_clients s c), p_pubsub (ps_clients s c)) else view s d)" by auto
  then show ?thesis by (cases "notify \<and> n = 0") (auto simp: pubsubUnsubscribeAllChannels_def)
qed

lemma unsub_all_patterns:
  assumes "pinv s"
  shows "\<exists>s' n. pubsubUnsubscribeAllPatterns s c notify = Some (s', n) \<and> pinv s' \<and> set (ps_patterns s') \<subseteq> set (ps_patterns s) \<and>
    (\<forall>d. view s' d = (if d = c then (p_channels (ps_clients s c), [], p_pubsub (ps_clients s c)) else view s d))"
proof -
  from unsub_patterns_loop [OF assms(1), of c notify "p_patterns (ps_clients s c)" 0] obtain s' n where
    "unsub_loop (\<lambda>s pat. pubsubUnsubscribePattern s c pat notify) s (p_patterns (ps_clients s c)) 0 = Some (s', n)" "pinv s'" "set (ps_patterns s') \<subseteq> set (ps_patterns s)"
    "\<forall>d. view s' d = (if d = c then (p_channels (ps_clients s c), [], p_pubsub (ps_clients s c)) else view s d)" by (auto simp: fold_remove1_all)
  then show ?thesis by (cases "notify \<and> n = 0") (auto simp: pubsubUnsubscribeAllPatterns_def)
qed

section \<open>Delivery\<close>

definition replies :: "pserver \<Rightarrow> cid \<Rightarrow> rop list" where
  "replies s c = p_out (ps_clients s c)"

lemma replies_reply [simp]: "replies (reply s c rs) d = replies s d @ (if d = c then rs else [])"
  by (simp add: replies_def reply_def upd_client_def)

lemma send_channel_ok:
  assumes "send_loop_channel ch msg s cs n = (s', n')" "distinct cs"
  shows "n' = n + length cs \<and> ps_channels s' = ps_channels s \<and> ps_patterns s' = ps_patterns s \<and> (\<forall>d. view s' d = view s d) \<and>
    (\<forall>d. replies s' d = replies s d @ (if d \<in> set cs then message_reply ch msg else []))"
  using assms by (induction ch msg s cs n rule: send_loop_channel.induct) auto

text \<open>Patterns on which the matcher stays inside its buffers.\<close>

definition pat_ok :: "bytes \<Rightarrow> bool" where
  "pat_ok pat \<longleftrightarrow> parse_glob pat \<noteq> None \<and> length pat < 2 ^ 31"

definition pat_matches :: "bytes \<Rightarrow> bytes \<Rightarrow> bool" where
  "pat_matches pat ch \<longleftrightarrow> (case parse_glob pat of None \<Rightarrow> False | Some ts \<Rightarrow> gmatch False ts ch)"

lemma pat_match: "pat_ok pat \<Longrightarrow> ch \<noteq> [] \<Longrightarrow> length ch < 2 ^ 31 \<Longrightarrow> stringmatchlen pat ch False = Some (pat_matches pat ch)"
  by (auto simp: pat_ok_def pat_matches_def stringmatchlen_spec)

lemma send_pattern_ok:
  assumes "\<forall>x\<in>set ps. pat_ok (snd x)" "ch \<noteq> []" "length ch < 2 ^ 31"
  shows "\<exists>s'. send_loop_pattern ch msg s ps n = Some (s', n + length (filter (\<lambda>x. pat_matches (snd x) ch) ps)) \<and>
    ps_channels s' = ps_channels s \<and> ps_patterns s' = ps_patterns s \<and> (\<forall>d. view s' d = view s d) \<and>
    (\<forall>d. replies s' d = replies s d @
      concat (map (\<lambda>x. pmessage_reply (snd x) ch msg) (filter (\<lambda>x. fst x = d \<and> pat_matches (snd x) ch) ps)))"
  using assms(1)
proof (induction ps arbitrary: s n)
  case (Cons x ps)
  obtain c pat where x: "x = (c, pat)" by fastforce
  have m: "stringmatchlen pat ch False = Some (pat_matches pat ch)" using pat_match [OF _ assms(2,3)] Cons.prems x by simp
  show ?case
  proof (cases "pat_matches pat ch")
    case True
    then show ?thesis using Cons.IH [of "reply s c (pmessage_reply pat ch msg)" "n + 1"] Cons.prems x m by auto
  next
    case False
    then show ?thesis using Cons.IH [of s n] Cons.prems x m by simp
  qed
qed simp

text \<open>The messages of one publication for a client.\<close>

definition deliveries :: "pclient \<Rightarrow> bytes \<Rightarrow> bytes \<Rightarrow> rop list" where
  "deliveries k ch msg = (if ch \<in> set (p_channels k) then message_reply ch msg else []) @
     concat (map (\<lambda>pat. pmessage_reply pat ch msg) (filter (\<lambda>pat. pat_matches pat ch) (p_patterns k)))"

lemma pats_filter:
  "map (\<lambda>x. f (snd x)) (filter (\<lambda>x. fst x = d \<and> P (snd x)) xs) = map f (filter P (map snd (filter (\<lambda>x. fst x = d) xs)))"
  by (induction xs) auto

lemma publish_ok:
  assumes "pinv s" "\<forall>x\<in>set (ps_patterns s). pat_ok (snd x)" "ch \<noteq> []" "length ch < 2 ^ 31"
  shows "\<exists>s'. pubsubPublishMessage s ch msg = Some (s', length (subs s ch) + length (filter (\<lambda>x. pat_matches (snd x) ch) (ps_patterns s))) \<and>
    ps_channels s' = ps_channels s \<and> ps_patterns s' = ps_patterns s \<and> (\<forall>d. view s' d = view s d) \<and>
    (\<forall>d. replies s' d = replies s d @ deliveries (ps_clients s d) ch msg)"
proof -
  obtain s1 n1 where s1: "(case ps_channels s ch of Some l \<Rightarrow> send_loop_channel ch msg s l 0 | None \<Rightarrow> (s, 0)) = (s1, n1)" by fastforce
  have d: "distinct (subs s ch)" using assms(1) by (auto simp: pinv_def subs_def split: option.splits)
  have a: "n1 = length (subs s ch) \<and> ps_channels s1 = ps_channels s \<and> ps_patterns s1 = ps_patterns s \<and> (\<forall>d. view s1 d = view s d) \<and>
    (\<forall>d. replies s1 d = replies s d @ (if d \<in> set (subs s ch) then message_reply ch msg else []))"
  proof (cases "ps_channels s ch")
    case None
    then show ?thesis using s1 by (auto simp: subs_def)
  next
    case (Some l)
    then show ?thesis using s1 d send_channel_ok [of ch msg s l 0 s1 n1] by (auto simp: subs_def)
  qed
  have e: "pubsubPublishMessage s ch msg = send_loop_pattern ch msg s1 (ps_patterns s) n1"
    using s1 a by (cases "ps_patterns s") (auto simp: pubsubPublishMessage_def)
  have "(if d \<in> set (subs s ch) then message_reply ch msg else []) @
      concat (map (\<lambda>x. pmessage_reply (snd x) ch msg) (filter (\<lambda>x. fst x = d \<and> pat_matches (snd x) ch) (ps_patterns s))) =
      deliveries (ps_clients s d) ch msg" for d
    using assms(1) pats_filter [of "\<lambda>p. pmessage_reply p ch msg" d "\<lambda>p. pat_matches p ch" "ps_patterns s"]
    by (simp add: deliveries_def pinv_def pats_def)
  then show ?thesis using send_pattern_ok [OF assms(2-4), of msg s1 n1] a unfolding e by auto
qed


section \<open>Sequences of commands\<close>

definition new_pclient :: pclient where
  "new_pclient = \<lparr>p_channels = [], p_patterns = [], p_pubsub = False, p_force_repl = False, p_out = []\<rparr>"

definition new_pserver :: pserver where
  "new_pserver = \<lparr>ps_channels = (\<lambda>_. None), ps_patterns = [], ps_clients = (\<lambda>_. new_pclient)\<rparr>"

text \<open>The last command is a client that goes away, its number free for a new one.\<close>

datatype pcmd =
    CSubscribe cid "bytes list" | CUnsubscribe cid "bytes list"
  | CPsubscribe cid "bytes list" | CPunsubscribe cid "bytes list"
  | CPublish cid bytes bytes | CFree cid

fun run_pcmd :: "(bytes list \<Rightarrow> bytes list) \<Rightarrow> pserver \<Rightarrow> pcmd \<Rightarrow> pserver option" where
  "run_pcmd ord s (CSubscribe c args) = Some (subscribeCommand s c args)"
| "run_pcmd ord s (CUnsubscribe c args) = unsubscribeCommand ord s c args"
| "run_pcmd ord s (CPsubscribe c args) = Some (psubscribeCommand s c args)"
| "run_pcmd ord s (CPunsubscribe c args) = punsubscribeCommand s c args"
| "run_pcmd ord s (CPublish c ch msg) = publishCommand s c ch msg"
| "run_pcmd ord s (CFree c) = map_option (\<lambda>s. upd_client s c (\<lambda>_. new_pclient)) (pubsub_free ord s c)"

text \<open>The command table asks for an argument where the code needs one.\<close>

fun pcmd_ok :: "pcmd \<Rightarrow> bool" where
  "pcmd_ok (CSubscribe c args) \<longleftrightarrow> args \<noteq> []"
| "pcmd_ok (CPsubscribe c args) \<longleftrightarrow> args \<noteq> [] \<and> (\<forall>p\<in>set args. pat_ok p)"
| "pcmd_ok (CPublish c ch msg) \<longleftrightarrow> ch \<noteq> [] \<and> length ch < 2 ^ 31"
| "pcmd_ok _ \<longleftrightarrow> True"

definition flag_ok :: "bytes list \<times> bytes list \<times> bool \<Rightarrow> bool" where
  "flag_ok v \<longleftrightarrow> (case v of (chs, ps, flag) \<Rightarrow> flag \<longleftrightarrow> chs \<noteq> [] \<or> ps \<noteq> [])"

text \<open>The server's tables and the clients' agree, and a client is in the publish and subscribe mode while it is subscribed.\<close>

definition pubsub_ok :: "pserver \<Rightarrow> bool" where
  "pubsub_ok s \<longleftrightarrow> pinv s \<and> (\<forall>c. flag_ok (view s c)) \<and> (\<forall>x\<in>set (ps_patterns s). pat_ok (snd x))"

lemma upd_flag:
  "pinv (upd_client s c (\<lambda>k. k\<lparr>p_pubsub := b\<rparr>)) = pinv s" "ps_patterns (upd_client s c f) = ps_patterns s"
  "view (upd_client s c (\<lambda>k. k\<lparr>p_pubsub := b\<rparr>)) d = (if d = c then (p_channels (ps_clients s c), p_patterns (ps_clients s c), b) else view s d)"
  by (rule pinv_cong) (simp_all add: upd_client_def view_def)

lemma view_fields: "view s c = (chs, ps, b) \<Longrightarrow> p_channels (ps_clients s c) = chs \<and> p_patterns (ps_clients s c) = ps \<and> p_pubsub (ps_clients s c) = b"
  by (simp add: view_def)

lemma subscribe_fold:
  "pinv s \<Longrightarrow> pinv (foldl (\<lambda>s ch. fst (pubsubSubscribeChannel s c ch)) s args) \<and>
    ps_patterns (foldl (\<lambda>s ch. fst (pubsubSubscribeChannel s c ch)) s args) = ps_patterns s \<and>
    (\<forall>d. d \<noteq> c \<longrightarrow> view (foldl (\<lambda>s ch. fst (pubsubSubscribeChannel s c ch)) s args) d = view s d) \<and>
    (args \<noteq> [] \<or> p_channels (ps_clients s c) \<noteq> [] \<longrightarrow> p_channels (ps_clients (foldl (\<lambda>s ch. fst (pubsubSubscribeChannel s c ch)) s args) c) \<noteq> [])"
proof (induction args arbitrary: s)
  case (Cons a args)
  let ?s = "fst (pubsubSubscribeChannel s c a)"
  note st = subscribe_channel_inv [OF Cons.prems, of c a]
  have v: "p_channels (ps_clients ?s c) \<noteq> []" using st [of c] view_fields [of ?s c] by (auto split: if_splits)
  have "ps_patterns ?s = ps_patterns s" by (simp add: pubsubSubscribeChannel_def Let_def upd_client_def)
  then show ?case using Cons.IH [of ?s] st v by simp
qed simp

lemma psubscribe_fold:
  "pinv s \<Longrightarrow> pinv (foldl (\<lambda>s p. fst (pubsubSubscribePattern s c p)) s args) \<and>
    set (ps_patterns (foldl (\<lambda>s p. fst (pubsubSubscribePattern s c p)) s args)) \<subseteq> set (ps_patterns s) \<union> Pair c ` set args \<and>
    (\<forall>d. d \<noteq> c \<longrightarrow> view (foldl (\<lambda>s p. fst (pubsubSubscribePattern s c p)) s args) d = view s d) \<and>
    (args \<noteq> [] \<or> p_patterns (ps_clients s c) \<noteq> [] \<longrightarrow> p_patterns (ps_clients (foldl (\<lambda>s p. fst (pubsubSubscribePattern s c p)) s args) c) \<noteq> [])"
proof (induction args arbitrary: s)
  case (Cons a args)
  let ?s = "fst (pubsubSubscribePattern s c a)"
  note st = subscribe_pattern_inv [OF Cons.prems, of c a]
  have v: "p_patterns (ps_clients ?s c) \<noteq> []" using st [of c] view_fields [of ?s c] by (auto split: if_splits)
  have "set (ps_patterns ?s) \<subseteq> insert (c, a) (set (ps_patterns s))" using st [of c] by simp
  then show ?case using Cons.IH [of ?s] st v by auto
qed simp

lemma clear_pubsub_ok:
  assumes "pinv s" "\<forall>d. d \<noteq> c \<longrightarrow> flag_ok (view s d)" "p_pubsub (ps_clients s c) \<or> p_channels (ps_clients s c) = [] \<and> p_patterns (ps_clients s c) = []"
    "\<forall>x\<in>set (ps_patterns s). pat_ok (snd x)"
  shows "pubsub_ok (clear_pubsub s c)"
proof (cases "clientSubscriptionsCount (ps_clients s c) = 0")
  case True
  then have "p_channels (ps_clients s c) = []" "p_patterns (ps_clients s c) = []" by (simp_all add: no_subscriptions)
  moreover from this have "flag_ok (view (upd_client s c (\<lambda>k. k\<lparr>p_pubsub := False\<rparr>)) d)" for d
    using assms(2) by (cases "d = c") (simp_all add: upd_flag flag_ok_def)
  ultimately show ?thesis using assms True by (simp add: pubsub_ok_def clear_pubsub_def upd_flag(1,2))
next
  case False
  then have "flag_ok (view s c)" using assms(3) by (auto simp: flag_ok_def view_def no_subscriptions)
  then show ?thesis using assms False by (auto simp: pubsub_ok_def clear_pubsub_def)
qed

lemma flag_cases: "flag_ok (view s c) \<Longrightarrow> p_pubsub (ps_clients s c) \<or> p_channels (ps_clients s c) = [] \<and> p_patterns (ps_clients s c) = []"
  by (auto simp: flag_ok_def view_def)

lemma unsubscribe_ok:
  assumes "pubsub_ok s" "\<And>xs. set (ord xs) = set xs"
  shows "\<exists>s'. unsubscribeCommand ord s c args = Some s' \<and> pubsub_ok s'"
proof -
  have s: "pinv s" "\<forall>d. flag_ok (view s d)" "\<forall>x\<in>set (ps_patterns s). pat_ok (snd x)" using assms(1) by (simp_all add: pubsub_ok_def)
  obtain s1 n chs where u: "(if args = [] then pubsubUnsubscribeAllChannels ord s c True
      else unsub_loop (\<lambda>s ch. pubsubUnsubscribeChannel s c ch True) s args 0) = Some (s1, n)" "pinv s1" "ps_patterns s1 = ps_patterns s"
    "\<forall>d. view s1 d = (if d = c then (chs, p_patterns (ps_clients s c), p_pubsub (ps_clients s c)) else view s d)" "set chs \<subseteq> set (p_channels (ps_clients s c))"
  proof (cases "args = []")
    case True
    then show ?thesis using that unsub_all_channels [OF s(1), of ord c True] assms(2) by fastforce
  next
    case False
    then show ?thesis using that unsub_channels_loop [OF s(1), of c True args 0] by fastforce
  qed
  have "view s1 c = (chs, p_patterns (ps_clients s c), p_pubsub (ps_clients s c))" using u(4) by simp
  from view_fields [OF this] have "p_pubsub (ps_clients s1 c) \<or> p_channels (ps_clients s1 c) = [] \<and> p_patterns (ps_clients s1 c) = []"
    using flag_cases [of s c] s(2) u(5) by auto
  with clear_pubsub_ok [OF u(2), of c] have "pubsub_ok (clear_pubsub s1 c)" using s u(3,4) by simp
  then show ?thesis using u(1) by (simp add: unsubscribeCommand_def)
qed

lemma punsubscribe_ok:
  assumes "pubsub_ok s"
  shows "\<exists>s'. punsubscribeCommand s c args = Some s' \<and> pubsub_ok s'"
proof -
  have s: "pinv s" "\<forall>d. flag_ok (view s d)" "\<forall>x\<in>set (ps_patterns s). pat_ok (snd x)" using assms(1) by (simp_all add: pubsub_ok_def)
  have sub: "set (fold remove1 xs ys) \<subseteq> set ys" for xs ys :: "bytes list"
    by (induction xs arbitrary: ys) (auto dest: set_mp [OF set_remove1_subset] simp: subset_iff)
  obtain s1 n ps where u: "(if args = [] then pubsubUnsubscribeAllPatterns s c True
      else unsub_loop (\<lambda>s pat. pubsubUnsubscribePattern s c pat True) s args 0) = Some (s1, n)" "pinv s1" "set (ps_patterns s1) \<subseteq> set (ps_patterns s)"
    "\<forall>d. view s1 d = (if d = c then (p_channels (ps_clients s c), ps, p_pubsub (ps_clients s c)) else view s d)" "set ps \<subseteq> set (p_patterns (ps_clients s c))"
  proof (cases "args = []")
    case True
    then show ?thesis using that unsub_all_patterns [OF s(1), of c True] by fastforce
  next
    case False
    then show ?thesis using that unsub_patterns_loop [OF s(1), of c True args 0] sub by fastforce
  qed
  have "view s1 c = (p_channels (ps_clients s c), ps, p_pubsub (ps_clients s c))" using u(4) by simp
  from view_fields [OF this] have "p_pubsub (ps_clients s1 c) \<or> p_channels (ps_clients s1 c) = [] \<and> p_patterns (ps_clients s1 c) = []"
    using flag_cases [of s c] s(2) u(5) by auto
  moreover have "\<forall>x\<in>set (ps_patterns s1). pat_ok (snd x)" using s(3) u(3) by auto
  ultimately have "pubsub_ok (clear_pubsub s1 c)" using clear_pubsub_ok [OF u(2), of c] s u(4) by simp
  then show ?thesis using u(1) by (simp add: punsubscribeCommand_def)
qed


lemma subscribe_ok:
  assumes "pubsub_ok s" "args \<noteq> []"
  shows "pubsub_ok (subscribeCommand s c args)"
proof -
  let ?s = "foldl (\<lambda>s ch. fst (pubsubSubscribeChannel s c ch)) s args"
  have s: "pinv s" "\<forall>d. flag_ok (view s d)" "\<forall>x\<in>set (ps_patterns s). pat_ok (snd x)" using assms(1) by (simp_all add: pubsub_ok_def)
  have f: "pinv ?s" "ps_patterns ?s = ps_patterns s" "\<forall>d. d \<noteq> c \<longrightarrow> view ?s d = view s d" "p_channels (ps_clients ?s c) \<noteq> []"
    using subscribe_fold [OF s(1), of c args] assms(2) by blast+
  then have "flag_ok (view (upd_client ?s c (\<lambda>k. k\<lparr>p_pubsub := True\<rparr>)) d)" for d
    using s(2) by (cases "d = c") (simp_all add: upd_flag, simp add: flag_ok_def)
  then show ?thesis using f s(3) by (simp add: pubsub_ok_def subscribeCommand_def upd_flag(1,2))
qed

lemma psubscribe_ok:
  assumes "pubsub_ok s" "args \<noteq> []" "\<forall>p\<in>set args. pat_ok p"
  shows "pubsub_ok (psubscribeCommand s c args)"
proof -
  let ?s = "foldl (\<lambda>s p. fst (pubsubSubscribePattern s c p)) s args"
  have s: "pinv s" "\<forall>d. flag_ok (view s d)" "\<forall>x\<in>set (ps_patterns s). pat_ok (snd x)" using assms(1) by (simp_all add: pubsub_ok_def)
  have f: "pinv ?s" "set (ps_patterns ?s) \<subseteq> set (ps_patterns s) \<union> Pair c ` set args" "\<forall>d. d \<noteq> c \<longrightarrow> view ?s d = view s d"
    "p_patterns (ps_clients ?s c) \<noteq> []" using psubscribe_fold [OF s(1), of c args] assms(2) by blast+
  then have "flag_ok (view (upd_client ?s c (\<lambda>k. k\<lparr>p_pubsub := True\<rparr>)) d)" for d
    using s(2) by (cases "d = c") (simp_all add: upd_flag, simp add: flag_ok_def)
  moreover have "\<forall>x\<in>set (ps_patterns ?s). pat_ok (snd x)" using f(2) s(3) assms(3) by auto
  ultimately show ?thesis using f by (simp add: pubsub_ok_def psubscribeCommand_def upd_flag(1,2))
qed

lemma publish_command_ok:
  assumes "pubsub_ok s" "ch \<noteq> []" "length ch < 2 ^ 31"
  shows "\<exists>s'. publishCommand s c ch msg = Some s' \<and> pubsub_ok s' \<and>
    (\<forall>d. replies s' d = replies s d @ deliveries (ps_clients s d) ch msg @
      (if d = c then [RInt (int (length (subs s ch) + length (filter (\<lambda>x. pat_matches (snd x) ch) (ps_patterns s))))] else []))"
proof -
  have s: "pinv s" "\<forall>d. flag_ok (view s d)" "\<forall>x\<in>set (ps_patterns s). pat_ok (snd x)" using assms(1) by (simp_all add: pubsub_ok_def)
  obtain s1 where p: "pubsubPublishMessage s ch msg = Some (s1, length (subs s ch) + length (filter (\<lambda>x. pat_matches (snd x) ch) (ps_patterns s)))"
    "ps_channels s1 = ps_channels s" "ps_patterns s1 = ps_patterns s" "\<forall>d. view s1 d = view s d"
    "\<forall>d. replies s1 d = replies s d @ deliveries (ps_clients s d) ch msg"
    using publish_ok [OF s(1,3) assms(2,3), of msg] by blast
  let ?s = "upd_client s1 c (\<lambda>k. k\<lparr>p_force_repl := True\<rparr>)"
  have v: "view ?s d = view s d" "replies ?s d = replies s1 d" for d using p(4) by (simp_all add: upd_client_def view_def replies_def)
  have "pinv ?s = pinv s" by (rule pinv_cong) (use p(2,3) v(1) in \<open>simp_all add: upd_client_def view_def\<close>)
  then have "pubsub_ok ?s" using s p(3) v(1) by (simp add: pubsub_ok_def upd_client_def)
  then show ?thesis using p(1,5) v(2) by (auto simp: publishCommand_def pubsub_ok_def)
qed

lemma free_ok:
  assumes "pubsub_ok s" "\<And>xs. set (ord xs) = set xs"
  shows "\<exists>s'. pubsub_free ord s c = Some s' \<and> pinv s' \<and> set (ps_patterns s') \<subseteq> set (ps_patterns s) \<and>
    p_channels (ps_clients s' c) = [] \<and> p_patterns (ps_clients s' c) = [] \<and> (\<forall>d. d \<noteq> c \<longrightarrow> view s' d = view s d)"
proof -
  have s: "pinv s" using assms(1) by (simp add: pubsub_ok_def)
  obtain s1 n1 where u1: "pubsubUnsubscribeAllChannels ord s c False = Some (s1, n1)" "pinv s1" "ps_patterns s1 = ps_patterns s"
    "\<forall>d. view s1 d = (if d = c then ([], p_patterns (ps_clients s c), p_pubsub (ps_clients s c)) else view s d)"
    using unsub_all_channels [OF s, of ord c False] assms(2) by blast
  obtain s2 n2 where u2: "pubsubUnsubscribeAllPatterns s1 c False = Some (s2, n2)" "pinv s2" "set (ps_patterns s2) \<subseteq> set (ps_patterns s1)"
    "\<forall>d. view s2 d = (if d = c then (p_channels (ps_clients s1 c), [], p_pubsub (ps_clients s1 c)) else view s1 d)"
    using unsub_all_patterns [OF u1(2), of c False] by blast
  have "view s1 c = ([], p_patterns (ps_clients s c), p_pubsub (ps_clients s c))" using u1(4) by simp
  then have "view s2 c = ([], [], p_pubsub (ps_clients s1 c))" using u2(4) view_fields [of s1 c] by simp
  then show ?thesis using u1 u2 view_fields [of s2 c] by (simp add: pubsub_free_def)
qed

lemma reset_client_ok:
  assumes "pinv s" "p_channels (ps_clients s c) = []" "p_patterns (ps_clients s c) = []"
    "\<forall>d. d \<noteq> c \<longrightarrow> flag_ok (view s d)" "\<forall>x\<in>set (ps_patterns s). pat_ok (snd x)"
  shows "pubsub_ok (upd_client s c (\<lambda>_. new_pclient))"
proof -
  have "pinv (upd_client s c (\<lambda>_. new_pclient)) = pinv s" by (rule pinv_cong) (use assms(2,3) in \<open>simp_all add: upd_client_def new_pclient_def\<close>)
  moreover have "flag_ok (view (upd_client s c (\<lambda>_. new_pclient)) d)" for d
    using assms(4) by (cases "d = c") (simp_all add: upd_client_def view_def new_pclient_def, simp add: flag_ok_def)
  ultimately show ?thesis using assms(1,5) by (simp add: pubsub_ok_def upd_client_def)
qed

lemma run_pcmd_ok:
  assumes "pubsub_ok s" "pcmd_ok cmd" "\<And>xs. set (ord xs) = set xs"
  shows "\<exists>s'. run_pcmd ord s cmd = Some s' \<and> pubsub_ok s'"
proof (cases cmd)
  case (CFree c)
  then obtain s' where f: "pubsub_free ord s c = Some s'" "pinv s'" "set (ps_patterns s') \<subseteq> set (ps_patterns s)"
    "p_channels (ps_clients s' c) = []" "p_patterns (ps_clients s' c) = []" "\<forall>d. d \<noteq> c \<longrightarrow> view s' d = view s d"
    using free_ok [OF assms(1,3), of c] by blast
  have "\<forall>d. d \<noteq> c \<longrightarrow> flag_ok (view s' d)" "\<forall>x\<in>set (ps_patterns s'). pat_ok (snd x)"
    using assms(1) f(3,6) by (auto simp: pubsub_ok_def)
  from reset_client_ok [OF f(2,4,5) this] show ?thesis using f(1) CFree by simp
next
  case (CPublish c ch msg)
  then show ?thesis using publish_command_ok [OF assms(1), of ch c msg] assms(2) by auto
qed (use assms subscribe_ok psubscribe_ok unsubscribe_ok punsubscribe_ok in simp_all)

section \<open>Properties\<close>

text \<open>
  C40. After any sequence of subscriptions, cancellations, publications and closed connections,
  in any interleaving of the clients, no assertion has failed and the tables agree in both
  directions: a client is in the list of a channel exactly when the channel is in the
  client's table, the list of a channel nobody subscribes is gone, the server has the
  patterns of each client in the client's order, and a client is in publish and subscribe
  mode exactly while it has a subscription.
\<close>

theorem pubsub_tables_agree:
  assumes "\<And>xs. set (ord xs) = set xs" "\<forall>cmd\<in>set cmds. pcmd_ok cmd"
  shows "\<exists>s. ofold (run_pcmd ord) new_pserver cmds = Some s \<and> pubsub_ok s"
proof -
  have "pubsub_ok s \<Longrightarrow> \<exists>s'. ofold (run_pcmd ord) s cmds = Some s' \<and> pubsub_ok s'" for s
    using assms(2)
  proof (induction cmds arbitrary: s)
    case (Cons cmd cmds)
    then obtain s1 where "run_pcmd ord s cmd = Some s1" "pubsub_ok s1" using run_pcmd_ok [OF _ _ assms(1), of s cmd] by auto
    then show ?case using Cons.IH [of s1] Cons.prems by simp
  qed simp
  moreover have "pubsub_ok new_pserver"
    by (simp add: pubsub_ok_def pinv_def new_pserver_def new_pclient_def subs_def pats_def flag_ok_def view_def)
  ultimately show ?thesis by blast
qed

theorem pubsub_tables_agree_witness:
  "\<exists>s. ofold (run_pcmd rev) new_pserver [CSubscribe 1 [[97], [98]], CPsubscribe 2 [[97, 42]], CPublish 3 [97] [120], CUnsubscribe 1 [], CFree 2] = Some s \<and> pubsub_ok s"
  by (rule pubsub_tables_agree) (simp_all add: pat_ok_def parse_glob.simps(2))

text \<open>
  C39. A published message reaches exactly the subscribers: every client gets the message once
  if it subscribes the channel and once more for each of its patterns that match, in the order
  of the patterns, and nothing else; the publisher is told the number of messages sent.
\<close>

theorem publish_delivers:
  assumes "pubsub_ok s" "ch \<noteq> []" "length ch < 2 ^ 31"
  shows "\<exists>s'. publishCommand s c ch msg = Some s' \<and>
    (\<forall>d. p_out (ps_clients s' d) = p_out (ps_clients s d) @
       ((if ch \<in> set (p_channels (ps_clients s d)) then message_reply ch msg else []) @
        concat (map (\<lambda>pat. pmessage_reply pat ch msg) (filter (\<lambda>pat. pat_matches pat ch) (p_patterns (ps_clients s d))))) @
       (if d = c then [RInt (int (card {e. ch \<in> set (p_channels (ps_clients s e))} +
          length (filter (\<lambda>x. pat_matches (snd x) ch) (ps_patterns s))))] else []))"
proof -
  have "{e. ch \<in> set (p_channels (ps_clients s e))} = set (subs s ch)" using assms(1) by (auto simp: pubsub_ok_def pinv_def)
  moreover have "distinct (subs s ch)" using assms(1) by (auto simp: pubsub_ok_def pinv_def subs_def split: option.splits)
  ultimately have "card {e. ch \<in> set (p_channels (ps_clients s e))} = length (subs s ch)" by (simp add: distinct_card)
  then show ?thesis using publish_command_ok [OF assms, of c msg] by (auto simp: replies_def deliveries_def)
qed

definition one_subscriber :: pserver where
  "one_subscriber = subscribeCommand new_pserver 1 [[97]]"

lemma one_subscriber_ok: "pubsub_ok one_subscriber"
proof -
  have "pubsub_ok new_pserver"
    by (simp add: pubsub_ok_def pinv_def new_pserver_def new_pclient_def subs_def pats_def flag_ok_def view_def)
  then show ?thesis unfolding one_subscriber_def by (rule subscribe_ok) simp
qed

lemma one_subscriber_clients:
  "p_channels (ps_clients one_subscriber d) = (if d = 1 then [[97]] else [])" "p_patterns (ps_clients one_subscriber d) = []"
  "ps_patterns one_subscriber = []" "d \<noteq> 1 \<Longrightarrow> p_out (ps_clients one_subscriber d) = []"
  by (simp_all add: one_subscriber_def subscribeCommand_def pubsubSubscribeChannel_def new_pserver_def new_pclient_def upd_client_def reply_def Let_def)

theorem publish_delivers_witness:
  "\<exists>s'. publishCommand one_subscriber 3 [97] [120] = Some s' \<and> p_out (ps_clients s' 3) = [RInt 1] \<and>
     p_out (ps_clients s' 1) = p_out (ps_clients one_subscriber 1) @ message_reply [97] [120]"
proof -
  have "{e. [97] \<in> set (p_channels (ps_clients one_subscriber e))} = {1}" by (auto simp: one_subscriber_clients)
  with publish_delivers [OF one_subscriber_ok, of "[97]" 3 "[120]"] show ?thesis by (auto simp: one_subscriber_clients)
qed

text \<open>
  When a client goes away no table refers to it any more, so nothing is ever sent to freed
  memory, and the subscriptions of the others are as before.
\<close>

lemma freed_client_is_forgotten:
  assumes "pubsub_ok s" "\<And>xs. set (ord xs) = set xs"
  shows "\<exists>s'. pubsub_free ord s c = Some s' \<and>
    (\<forall>ch l. ps_channels s' ch = Some l \<longrightarrow> c \<notin> set l) \<and> c \<notin> fst ` set (ps_patterns s') \<and>
    (\<forall>d. d \<noteq> c \<longrightarrow> p_channels (ps_clients s' d) = p_channels (ps_clients s d) \<and> p_patterns (ps_clients s' d) = p_patterns (ps_clients s d))"
proof -
  obtain s' where f: "pubsub_free ord s c = Some s'" "pinv s'" "p_channels (ps_clients s' c) = []" "p_patterns (ps_clients s' c) = []"
    "\<forall>d. d \<noteq> c \<longrightarrow> view s' d = view s d" using free_ok [OF assms, of c] by blast
  have "c \<notin> set (subs s' ch)" for ch using f(2,3) by (simp add: pinv_def)
  then have "\<forall>ch l. ps_channels s' ch = Some l \<longrightarrow> c \<notin> set l" by (metis option.simps(5) subs_def)
  moreover have "pats s' c = []" using f(2,4) by (simp add: pinv_def)
  then have "c \<notin> fst ` set (ps_patterns s')" by (auto simp: pats_def filter_empty_conv)
  ultimately show ?thesis using f(1,5) by (auto simp: view_def)
qed

end
