(* ===== verification/Slowlog.thy ===== *)
theory Slowlog
  imports Adlist NetOut SdsText
begin

text \<open>
  The slow log of \<open>slowlog.c\<close>: a linked list of the last slow commands, newest first, with
  trimmed copies of their arguments, and the \<open>SLOWLOG\<close> command.  The list is the one of theory
  \<open>Adlist\<close>, nodes in a heap; the proofs use it through its interface \<open>log_list\<close>.  Replies are the
  sequence of reply calls; the deferred length of \<open>SLOWLOG GET\<close> is written in front of what
  follows it (theory \<open>NetOut\<close>).
\<close>

section \<open>Entries\<close>

definition SLOWLOG_ENTRY_MAX_ARGC :: nat where "SLOWLOG_ENTRY_MAX_ARGC = 32"
definition SLOWLOG_ENTRY_MAX_STRING :: nat where "SLOWLOG_ENTRY_MAX_STRING = 128"

record slowlogEntry =
  se_argv :: "strobj list"
  se_id :: int
  se_duration :: int
  se_time :: int

record slowlog =
  sl_list :: "slowlogEntry nheap \<times> slowlogEntry adlist"
  sl_entry_id :: int
  sl_slower_than :: int
  sl_max_len :: nat

definition trim_arg :: "strobj \<Rightarrow> strobj" where
  "trim_arg a =
     (case a of
        ORaw s \<Rightarrow>
          if length s > SLOWLOG_ENTRY_MAX_STRING then
            ORaw (take SLOWLOG_ENTRY_MAX_STRING s @ map of_char ''... ('' @ dec_digits (length s - SLOWLOG_ENTRY_MAX_STRING) @
              map of_char '' more bytes)'')
          else a
      | OInt v \<Rightarrow> a)"

text \<open>The arguments kept: all, or 31 and a line that counts the others.\<close>

definition entry_argv :: "strobj list \<Rightarrow> strobj list" where
  "entry_argv argv =
     (let argc = length argv; slargc = min argc SLOWLOG_ENTRY_MAX_ARGC in
      map (\<lambda>j. if slargc \<noteq> argc \<and> j = slargc - 1
               then ORaw (map of_char ''... ('' @ dec_digits (argc - slargc + 1) @ map of_char '' more arguments)'')
               else trim_arg (argv ! j)) [0..<slargc])"

definition slowlogCreateEntry :: "slowlog \<Rightarrow> int \<Rightarrow> strobj list \<Rightarrow> int \<Rightarrow> slowlog \<times> slowlogEntry" where
  "slowlogCreateEntry s now argv duration =
     (s\<lparr>sl_entry_id := sl_entry_id s + 1\<rparr>,
      \<lparr>se_argv = entry_argv argv, se_id = sl_entry_id s, se_duration = duration, se_time = now\<rparr>)"

section \<open>The log\<close>

text \<open>\<open>slowlogInit\<close>, with the two settings of the configuration; the heap is the allocator's.\<close>

definition slowlogInit :: "slowlogEntry nheap \<Rightarrow> int \<Rightarrow> nat \<Rightarrow> slowlog" where
  "slowlogInit h slower mx = \<lparr>sl_list = (h, listCreate\<lparr>l_free := True\<rparr>), sl_entry_id = 0, sl_slower_than = slower, sl_max_len = mx\<rparr>"

definition slowlog_trim :: "nat \<Rightarrow> slowlog \<Rightarrow> slowlog option" where
  "slowlog_trim mx s =
     map_option (\<lambda>l. s\<lparr>sl_list := l\<rparr>) (trim (\<lambda>x. l_len (snd x)) adlist_dellast mx (sl_list s))"

definition slowlogPushEntryIfNeeded :: "slowlog \<Rightarrow> int \<Rightarrow> strobj list \<Rightarrow> int \<Rightarrow> slowlog option" where
  "slowlogPushEntryIfNeeded s now argv duration =
     (if sl_slower_than s < 0 then Some s
      else do {
        s \<leftarrow> (if duration \<ge> sl_slower_than s then
               let (s, se) = slowlogCreateEntry s now argv duration in
               map_option (\<lambda>l. s\<lparr>sl_list := l\<rparr>) (listAddNodeHead (fst (sl_list s)) (snd (sl_list s)) se)
             else Some s);
        slowlog_trim (sl_max_len s) s
      })"

definition slowlogReset :: "slowlog \<Rightarrow> slowlog option" where
  "slowlogReset s = slowlog_trim 0 s"

section \<open>The command\<close>

text \<open>\<open>strtoll\<close> and the tests around it: a sign and decimal digits, or nothing at all.\<close>

definition getLongLongFromObject :: "strobj \<Rightarrow> int option" where
  "getLongLongFromObject obj =
     (case obj of
        OInt v \<Rightarrow> Some v
      | ORaw s \<Rightarrow>
          let t = takeWhile (\<lambda>b. b \<noteq> 0) s in
          if t = [] then Some 0
          else if c_isspace (hd t) then None
          else
            let neg = (hd t = 45); ds = (if neg \<or> hd t = 43 then tl t else t) in
            if ds = [] \<or> (\<exists>b\<in>set ds. \<not> is_digit b) then None
            else
              let v = (if neg then - int (foldl dig_step 0 ds) else int (foldl dig_step 0 ds)) in
              if in_sint 64 v then Some v else None)"

partial_function (option) slowlog_entries ::
  "slowlogEntry nheap \<Rightarrow> listIter \<Rightarrow> int \<Rightarrow> slowlogEntry list \<Rightarrow> slowlogEntry list option" where
  "slowlog_entries h it count acc =
     (if count = 0 then Some acc
      else listNext h it \<bind> (\<lambda>(nd, it).
        case nd of
          None \<Rightarrow> Some acc
        | Some a \<Rightarrow> hp_node h a \<bind> (\<lambda>n. slowlog_entries h it (count - 1) (acc @ [n_val n]))))"

definition entry_reply :: "slowlogEntry \<Rightarrow> rop list" where
  "entry_reply se =
     [RMultiLen 4, RInt (se_id se), RInt (se_time se), RInt (se_duration se), RMultiLen (int (length (se_argv se)))] @ map RBulk (se_argv se)"

definition word_is :: "strobj \<Rightarrow> string \<Rightarrow> bool" where
  "word_is obj w \<longleftrightarrow> (case obj of OInt v \<Rightarrow> False
     | ORaw s \<Rightarrow> map (\<lambda>b. if 65 \<le> b \<and> b \<le> 90 then b + 32 else b) (takeWhile (\<lambda>b. b \<noteq> 0) s) = map of_char w)"

text \<open>The arguments after the command name, and the replies.\<close>

definition slowlogCommand :: "slowlog \<Rightarrow> strobj list \<Rightarrow> (slowlog \<times> rop list) option" where
  "slowlogCommand s args =
     (if length args = 1 \<and> word_is (args ! 0) ''reset'' then
        map_option (\<lambda>s. (s, [RObject (ORaw (map of_char ''+OK'' @ crlf))])) (slowlogReset s)
      else if length args = 1 \<and> word_is (args ! 0) ''len'' then
        Some (s, [RInt (int (l_len (snd (sl_list s))))])
      else if (length args = 1 \<or> length args = 2) \<and> word_is (args ! 0) ''get'' then
        (case (if length args = 2 then getLongLongFromObject (args ! 1) else Some 10) of
           None \<Rightarrow> Some (s, [RError (map of_char ''value is not an integer or out of range'')])
         | Some count \<Rightarrow>
             map_option (\<lambda>es. (s, RMultiLen (int (length es)) # concat (map entry_reply es)))
               (slowlog_entries (fst (sl_list s)) (listRewind (snd (sl_list s))) count []))
      else Some (s, [RError (map of_char ''Unknown SLOWLOG subcommand or wrong # of args. Try GET, RESET, LEN.'')]))"


section \<open>The log keeps the newest entries\<close>

definition log_rep :: "slowlog \<Rightarrow> slowlogEntry list \<Rightarrow> bool" where
  "log_rep s es \<longleftrightarrow> adlist_rep (sl_list s) es \<and> length es \<le> sl_max_len s \<and> sl_max_len s < 2 ^ 64 - 1"

lemma slowlog_trim_rep:
  assumes "adlist_rep (sl_list s) es" "length es \<le> 2 ^ 64 - 1"
  shows "\<exists>l. slowlog_trim mx s = Some (s\<lparr>sl_list := l\<rparr>) \<and> adlist_rep l (take mx es)"
  using adl.trim_rep [OF assms, of mx] by (auto simp: slowlog_trim_def)

text \<open>One command that ran: the time, the arguments, the duration.\<close>

type_synonym executed = "int \<times> strobj list \<times> int"

definition entry_of :: "int \<Rightarrow> executed \<Rightarrow> slowlogEntry" where
  "entry_of i x = (case x of (now, argv, duration) \<Rightarrow>
     \<lparr>se_argv = entry_argv argv, se_id = i, se_duration = duration, se_time = now\<rparr>)"

definition slow :: "int \<Rightarrow> executed \<Rightarrow> bool" where
  "slow lim x \<longleftrightarrow> snd (snd x) \<ge> lim"

lemma push_rep_log:
  assumes "log_rep s es" "0 \<le> sl_slower_than s"
  shows "\<exists>l. slowlogPushEntryIfNeeded s now argv dur =
      Some (s\<lparr>sl_list := l, sl_entry_id := sl_entry_id s + (if slow (sl_slower_than s) (now, argv, dur) then 1 else 0)\<rparr>) \<and>
    adlist_rep l (if slow (sl_slower_than s) (now, argv, dur) then take (sl_max_len s) (entry_of (sl_entry_id s) (now, argv, dur) # es) else es)"
proof (cases "slow (sl_slower_than s) (now, argv, dur)")
  case False
  obtain l where "slowlog_trim (sl_max_len s) s = Some (s\<lparr>sl_list := l\<rparr>)" "adlist_rep l (take (sl_max_len s) es)"
    using slowlog_trim_rep [of s es "sl_max_len s"] assms(1) by (auto simp: log_rep_def)
  then have "slowlogPushEntryIfNeeded s now argv dur = Some (s\<lparr>sl_list := l, sl_entry_id := sl_entry_id s + 0\<rparr>) \<and> adlist_rep l es"
    using False assms by (simp add: slowlogPushEntryIfNeeded_def slow_def log_rep_def)
  then show ?thesis using False by (intro exI [of _ l]) simp
next
  case True
  let ?e = "entry_of (sl_entry_id s) (now, argv, dur)" and ?s = "s\<lparr>sl_entry_id := sl_entry_id s + 1\<rparr>"
  have len: "length es < 2 ^ 64 - 1" using assms(1) by (simp add: log_rep_def)
  obtain l1 where l1: "listAddNodeHead (fst (sl_list s)) (snd (sl_list s)) ?e = Some l1" "adlist_rep l1 (?e # es)"
    using adl.push_rep [of "sl_list s" es ?e] assms(1) len by (auto simp: log_rep_def)
  obtain l where l: "slowlog_trim (sl_max_len s) (?s\<lparr>sl_list := l1\<rparr>) = Some (?s\<lparr>sl_list := l1\<rparr>\<lparr>sl_list := l\<rparr>)" "adlist_rep l (take (sl_max_len s) (?e # es))"
    using slowlog_trim_rep [of "?s\<lparr>sl_list := l1\<rparr>" "?e # es" "sl_max_len s"] l1(2) len by auto
  have "slowlogPushEntryIfNeeded s now argv dur = Some (s\<lparr>sl_list := l, sl_entry_id := sl_entry_id s + 1\<rparr>)"
    using True assms(2) l1(1) l(1) by (simp add: slowlogPushEntryIfNeeded_def slowlogCreateEntry_def entry_of_def slow_def)
  then show ?thesis using True l(2) by (intro exI [of _ l]) simp
qed

text \<open>The entries of a run, oldest first, with their numbers.\<close>

definition run_log :: "int \<Rightarrow> executed list \<Rightarrow> slowlogEntry list" where
  "run_log lim xs = (let ys = filter (slow lim) xs in map (\<lambda>i. entry_of (int i) (ys ! i)) [0..<length ys])"

lemma run_log_snoc:
  "run_log lim (xs @ [x]) = run_log lim xs @ (if slow lim x then [entry_of (int (length (filter (slow lim) xs))) x] else [])"
  by (auto simp: run_log_def Let_def nth_append intro: map_cong)

definition push_all :: "slowlog \<Rightarrow> executed list \<Rightarrow> slowlog option" where
  "push_all = ofold (\<lambda>s (now, argv, dur). slowlogPushEntryIfNeeded s now argv dur)"

lemma push_all_rep:
  assumes "heap_ok h" "0 \<le> lim" "mx < 2 ^ 64 - 1"
  shows "\<exists>s. push_all (slowlogInit h lim mx) xs = Some s \<and> log_rep s (take mx (rev (run_log lim xs))) \<and>
    sl_slower_than s = lim \<and> sl_max_len s = mx \<and> sl_entry_id s = int (length (filter (slow lim) xs))"
proof (induction xs rule: rev_induct)
  case Nil
  have "dlist h (listCreate\<lparr>l_free := True\<rparr>) [] []" using assms(1) by (simp add: dlist_def listCreate_def)
  then show ?case using assms(3) by (auto simp: push_all_def slowlogInit_def log_rep_def adlist_rep_def run_log_def)
next
  case (snoc x xs)
  then obtain s where s: "push_all (slowlogInit h lim mx) xs = Some s" "log_rep s (take mx (rev (run_log lim xs)))"
    "sl_slower_than s = lim" "sl_max_len s = mx" "sl_entry_id s = int (length (filter (slow lim) xs))" by blast
  obtain now argv dur where x: "x = (now, argv, dur)" by (cases x) auto
  obtain l where l: "slowlogPushEntryIfNeeded s now argv dur = Some (s\<lparr>sl_list := l, sl_entry_id := sl_entry_id s + (if slow lim x then 1 else 0)\<rparr>)"
    "adlist_rep l (if slow lim x then take mx (entry_of (sl_entry_id s) x # take mx (rev (run_log lim xs))) else take mx (rev (run_log lim xs)))"
    using push_rep_log [OF s(2), of now argv dur] s(3,4) assms(2) x by auto
  have t: "take mx (e # take mx zs) = take mx (e # zs)" for e :: slowlogEntry and zs by (cases mx) (simp_all add: take_take min_def)
  have "push_all (slowlogInit h lim mx) (xs @ [x]) = Some (s\<lparr>sl_list := l, sl_entry_id := sl_entry_id s + (if slow lim x then 1 else 0)\<rparr>)"
    using s(1) l(1) x by (simp add: push_all_def ofold_append)
  moreover have "adlist_rep l (take mx (rev (run_log lim (xs @ [x]))))" using l(2) s(5)
    by (cases "slow lim x") (simp_all only: run_log_snoc t if_True if_False rev_append rev.simps append_Nil append_Nil2 append_Cons)
  ultimately show ?case using s assms(3) by (auto simp: log_rep_def)
qed

lemma slowlog_entries_dseg:
  "dseg (hp_node h) p ps vs None \<Longrightarrow>
    slowlog_entries h (fwd ps) count acc = Some (acc @ (if count < 0 then vs else take (nat count) vs))"
proof (induction ps arbitrary: p vs count acc)
  case Nil
  then have "vs = []" by (cases vs) auto
  then show ?case by (subst slowlog_entries.simps) (auto simp: listNext_fwd(1) [simplified])
next
  case (Cons a ps)
  then obtain v vs' where n: "vs = v # vs'" "hp_node h a = Some \<lparr>n_prev = p, n_next = firstp ps None, n_val = v\<rparr>"
    "dseg (hp_node h) (Some a) ps vs' None" by (cases vs) auto
  show ?case
  proof (cases "count = 0")
    case True
    then show ?thesis by (subst slowlog_entries.simps) simp
  next
    case False
    have "take (nat count) vs = v # take (nat (count - 1)) vs'" if "0 < count" using that n(1) by (cases "nat count") (auto simp: nat_diff_distrib')
    then show ?thesis using False Cons.IH [OF n(3), of "count - 1" "acc @ [v]"] n(1)
      by (subst slowlog_entries.simps) (auto simp: listNext_fwd(2) [OF n(2), simplified] n(2))
  qed
qed


section \<open>Properties\<close>

lemma entries_of_log:
  assumes "log_rep s es"
  shows "slowlog_entries (fst (sl_list s)) (listRewind (snd (sl_list s))) count [] = Some (if count < 0 then es else take (nat count) es)"
proof -
  obtain ps where "dlist (fst (sl_list s)) (snd (sl_list s)) ps es" using assms by (auto simp: log_rep_def adlist_rep_def)
  then show ?thesis using slowlog_entries_dseg [of "fst (sl_list s)" None ps es count "[]"] by (simp add: dlist_def listRewind_def)
qed

text \<open>
  After any run of commands the slow log holds the newest of those that took at least the
  configured time, newest first, at most the configured number of them, numbered from zero in
  the order they ran; and \<open>SLOWLOG GET\<close> with any count returns the first of these, all for a
  negative count.
\<close>

lemma slowlog_keeps_newest:
  assumes "heap_ok h" "0 \<le> lim" "mx < 2 ^ 64 - 1" "word_is g ''get''" "getLongLongFromObject n = Some count"
  shows "\<exists>s. push_all (slowlogInit h lim mx) xs = Some s \<and>
    (let es = take mx (rev (run_log lim xs)); out = (if count < 0 then es else take (nat count) es) in
     slowlogCommand s [g, n] = Some (s, RMultiLen (int (length out)) # concat (map entry_reply out)))"
proof -
  obtain s where s: "push_all (slowlogInit h lim mx) xs = Some s" "log_rep s (take mx (rev (run_log lim xs)))"
    using push_all_rep [OF assms(1-3), of xs] by blast
  show ?thesis using s entries_of_log [OF s(2), of count] assms(4,5) by (auto simp: slowlogCommand_def Let_def)
qed

definition empty_heap :: "slowlogEntry nheap" where
  "empty_heap = \<lparr>hp_brk = 0, hp_node = Map.empty\<rparr>"

text \<open>The memory an argument takes in the log.\<close>

lemma ndigits_le_20: "n < 2 ^ 64 \<Longrightarrow> ndigits n \<le> 20"
  by (rule ndigits_le) simp_all

lemma trim_arg_length: "obj_ok a \<Longrightarrow> length (obj_bytes (trim_arg a)) \<le> 165"
proof (cases a)
  case (ORaw s)
  assume ok: "obj_ok a"
  have "length s - SLOWLOG_ENTRY_MAX_STRING < 2 ^ 64" using ok ORaw by simp
  then have "ndigits (length s - SLOWLOG_ENTRY_MAX_STRING) \<le> 20" by (rule ndigits_le_20)
  then show ?thesis using ORaw by (simp add: trim_arg_def obj_bytes_def SLOWLOG_ENTRY_MAX_STRING_def)
next
  case (OInt v)
  assume "obj_ok a"
  then show ?thesis using OInt length_ll_decimal_le [of v] by (simp add: trim_arg_def obj_bytes_def)
qed

text \<open>
  An entry of the slow log is small whatever the command was: at most 32 arguments of at
  most 165 bytes each; a command within the limits is kept as it was.
\<close>

lemma slowlog_entry_bounded:
  assumes "\<forall>a\<in>set argv. obj_ok a" "length argv < 2 ^ 31"
  shows "length (se_argv (snd (slowlogCreateEntry s now argv duration))) \<le> 32 \<and>
    (\<forall>a\<in>set (se_argv (snd (slowlogCreateEntry s now argv duration))). length (obj_bytes a) \<le> 165) \<and>
    (length argv \<le> 32 \<and> (\<forall>a\<in>set argv. length (obj_bytes a) \<le> 128) \<longrightarrow> se_argv (snd (slowlogCreateEntry s now argv duration)) = argv)"
proof -
  let ?n = "min (length argv) 32"
  have av: "se_argv (snd (slowlogCreateEntry s now argv duration)) = entry_argv argv" by (simp add: slowlogCreateEntry_def)
  have more: "ndigits (length argv - ?n + 1) \<le> 20" using assms(2) by (intro ndigits_le_20) simp
  have "length (obj_bytes a) \<le> 165" if "a \<in> set (entry_argv argv)" for a
  proof -
    let ?m = "ORaw (map of_char ''... ('' @ dec_digits (length argv - ?n + 1) @ map of_char '' more arguments)'')"
    have "a \<in> (\<lambda>j. if ?n \<noteq> length argv \<and> j = ?n - 1 then ?m else trim_arg (argv ! j)) ` {0..<?n}"
      using that by (simp only: entry_argv_def Let_def set_map set_upt SLOWLOG_ENTRY_MAX_ARGC_def)
    then obtain j where "j \<in> {0..<?n}" "a = (if ?n \<noteq> length argv \<and> j = ?n - 1 then ?m else trim_arg (argv ! j))" by (rule imageE)
    then have j: "j < ?n" "a = ?m \<or> a = trim_arg (argv ! j)" by (simp_all only: atLeastLessThan_iff split: if_split) blast+
    have "length (obj_bytes (trim_arg (argv ! j))) \<le> 165" using trim_arg_length assms(1) j(1) by simp
    then show ?thesis using j(2) more by (auto simp: obj_bytes_def)
  qed
  moreover have "entry_argv argv = argv" if "length argv \<le> 32" "\<forall>a\<in>set argv. length (obj_bytes a) \<le> 128"
  proof (rule nth_equalityI)
    fix j
    assume "j < length (entry_argv argv)"
    then have j: "j < length argv" using that(1) by (simp add: entry_argv_def Let_def)
    then have "length (obj_bytes (argv ! j)) \<le> 128" using that(2) by simp
    then show "entry_argv argv ! j = argv ! j"
      using j that(1) by (cases "argv ! j") (simp_all add: entry_argv_def Let_def SLOWLOG_ENTRY_MAX_ARGC_def SLOWLOG_ENTRY_MAX_STRING_def trim_arg_def obj_bytes_def)
  qed (use that(1) in \<open>simp add: entry_argv_def Let_def SLOWLOG_ENTRY_MAX_ARGC_def\<close>)
  ultimately show ?thesis unfolding av by (simp add: entry_argv_def Let_def SLOWLOG_ENTRY_MAX_ARGC_def)
qed

end
