(* ===== verification/Multi.thy ===== *)
theory Multi
  imports Glob NetOut
begin

text \<open>
  Transactions with optimistic locking, from \<open>multi.c\<close>, and the gate every command passes
  through, \<open>processCommand\<close> and \<open>call\<close> of \<open>redis.c\<close>: \<open>MULTI\<close>, \<open>EXEC\<close>, \<open>DISCARD\<close>, \<open>WATCH\<close> and
  \<open>UNWATCH\<close>, the table of watched keys of each database, the flags that make \<open>EXEC\<close> fail, and
  what is propagated to the replicas and the append-only file.

  The other commands are a parameter: \<open>eff\<close> gives, for the rest of the server's state (clock,
  random numbers, configuration, ...), the data set, \<open>server.dirty\<close>, the client, its selected
  database and the arguments, all that the command does (the record \<open>outcome\<close>): the new data
  set, the calls of \<open>signalModifiedKey\<close> and \<open>signalFlushedDb\<close>, what it writes to each client, the
  new value of \<open>server.dirty\<close>, what it feeds to the replicas while it runs (\<open>propagateExpire\<close>),
  its calls of \<open>forceCommandPropagation\<close> and \<open>alsoPropagate\<close>, and the argument vector it leaves
  behind (\<open>rewriteClientCommandVector\<close>).  Nothing is assumed about it.  The command table is
  the parameter \<open>tbl\<close>.  The state of the server that \<open>processCommand\<close> only tests (memory, disk,
  replication, a busy script) is given with each command; evicting keys, serving clients
  blocked on lists, monitors, the slow log and statistics are left out.  A failed assertion is
  \<open>None\<close>.
\<close>

section \<open>State\<close>

type_synonym cid = nat
type_synonym 'v data = "nat \<Rightarrow> bytes \<Rightarrow> 'v option"

datatype proc =
    PMulti | PExec | PDiscard | PWatch | PUnwatch | PAuth | PReplconf | PShutdown | PScript | PPing | PSubscribe | POther

record redisCommand =
  rc_name :: bytes
  rc_proc :: proc
  rc_arity :: int
  rc_write :: bool
  rc_readonly :: bool
  rc_denyoom :: bool
  rc_stale :: bool
  rc_loading :: bool

type_synonym multiCmd = "redisCommand \<times> bytes list"

record mclient =
  m_multi :: bool
  m_dirty_cas :: bool
  m_dirty_exec :: bool
  m_close :: bool
  m_force_aof :: bool
  m_force_repl :: bool
  m_db :: nat
  m_commands :: "multiCmd list"
  m_watched :: "(nat \<times> bytes) list"
  m_out :: "rop list"

text \<open>
  An entry of \<open>server.also_propagate\<close>, and a call of \<open>propagate\<close>; its target is the two flags
  \<open>REDIS_PROPAGATE_AOF\<close> and \<open>REDIS_PROPAGATE_REPL\<close>.
\<close>

record redisOp =
  op_dbid :: nat
  op_argv :: "bytes list"
  op_aof :: bool
  op_repl :: bool

record ('v, 'w) mserver =
  ms_data :: "'v data"
  ms_rest :: 'w
  ms_watched :: "nat \<Rightarrow> bytes \<Rightarrow> cid list option"
  ms_list :: "cid list"
  ms_clients :: "cid \<Rightarrow> mclient"
  ms_dirty :: int
  ms_also :: "redisOp list"
  ms_prop :: "redisOp list"

text \<open>The calls of \<open>signalModifiedKey(db,key)\<close> and \<open>signalFlushedDb(dbid)\<close>, \<open>None\<close> standing for -1.\<close>

datatype signal = Modified nat bytes | Flushed "nat option"

text \<open>All that a command procedure outside \<open>multi.c\<close> does.\<close>

record ('v, 'w) outcome =
  x_data :: "'v data"
  x_rest :: 'w
  x_dirty :: int
  x_db :: nat
  x_signals :: "signal list"
  x_out :: "cid \<Rightarrow> rop list"
  x_fed :: "redisOp list"
  x_aof :: bool
  x_repl :: bool
  x_also :: "redisOp list"
  x_argv :: "bytes list"

type_synonym ('v, 'w) effect = "'w \<Rightarrow> 'v data \<Rightarrow> int \<Rightarrow> cid \<Rightarrow> nat \<Rightarrow> bytes list \<Rightarrow> ('v, 'w) outcome"

text \<open>What \<open>processCommand\<close> tests of the server and of the other state of the client.\<close>

record conds =
  k_noauth :: bool
  k_oom :: bool
  k_diskerr :: bool
  k_diskmsg :: bytes
  k_fewslaves :: bool
  k_roslave :: bool
  k_pubsub :: bool
  k_masterdown :: bool
  k_loading :: bool
  k_luabusy :: bool

definition upd :: "('v, 'w) mserver \<Rightarrow> cid \<Rightarrow> (mclient \<Rightarrow> mclient) \<Rightarrow> ('v, 'w) mserver" where
  "upd s c f = s\<lparr>ms_clients := (ms_clients s)(c := f (ms_clients s c))\<rparr>"

definition say :: "('v, 'w) mserver \<Rightarrow> cid \<Rightarrow> rop list \<Rightarrow> ('v, 'w) mserver" where
  "say s c rs = upd s c (\<lambda>k. k\<lparr>m_out := m_out k @ rs\<rparr>)"

definition line :: "string \<Rightarrow> rop" where
  "line w = RObject (ORaw (map of_char w @ crlf))"

definition error :: "string \<Rightarrow> rop" where
  "error w = RError (map of_char w)"

definition propagate :: "('v, 'w) mserver \<Rightarrow> redisOp \<Rightarrow> ('v, 'w) mserver" where
  "propagate s op = s\<lparr>ms_prop := ms_prop s @ [op]\<rparr>"

definition alsoPropagate :: "('v, 'w) mserver \<Rightarrow> redisOp \<Rightarrow> ('v, 'w) mserver" where
  "alsoPropagate s op = s\<lparr>ms_also := ms_also s @ [op]\<rparr>"

definition forceCommandPropagation :: "('v, 'w) mserver \<Rightarrow> cid \<Rightarrow> bool \<Rightarrow> bool \<Rightarrow> ('v, 'w) mserver" where
  "forceCommandPropagation s c aof repl =
     upd s c (\<lambda>k. k\<lparr>m_force_aof := m_force_aof k \<or> aof, m_force_repl := m_force_repl k \<or> repl\<rparr>)"

definition propagateExpire :: "('v, 'w) mserver \<Rightarrow> nat \<Rightarrow> bytes \<Rightarrow> ('v, 'w) mserver" where
  "propagateExpire s db key =
     propagate s \<lparr>op_dbid = db, op_argv = [map of_char ''DEL'', key], op_aof = True, op_repl = True\<rparr>"

text \<open>The deletion of an expired key by the cron job: the key is propagated and deleted, and not signalled.\<close>

definition activeExpireCycleTryExpire :: "('v, 'w) mserver \<Rightarrow> nat \<Rightarrow> bytes \<Rightarrow> ('v, 'w) mserver" where
  "activeExpireCycleTryExpire s db key =
     (propagateExpire s db key)\<lparr>ms_data := (ms_data s)(db := (ms_data s db)(key := None))\<rparr>"

section \<open>Watched keys\<close>

definition watchForKey :: "('v, 'w) mserver \<Rightarrow> cid \<Rightarrow> bytes \<Rightarrow> ('v, 'w) mserver" where
  "watchForKey s c key =
     (let db = m_db (ms_clients s c) in
      if (db, key) \<in> set (m_watched (ms_clients s c)) then s
      else
        let clients = (case ms_watched s db key of None \<Rightarrow> [] | Some l \<Rightarrow> l);
            s = s\<lparr>ms_watched := (ms_watched s)(db := (ms_watched s db)(key := Some (clients @ [c])))\<rparr>
        in upd s c (\<lambda>k. k\<lparr>m_watched := m_watched k @ [(db, key)]\<rparr>))"

definition unwatch_one :: "cid \<Rightarrow> ('v, 'w) mserver \<Rightarrow> nat \<times> bytes \<Rightarrow> ('v, 'w) mserver option" where
  "unwatch_one c s wk =
     (case wk of (db, key) \<Rightarrow>
        (case ms_watched s db key of
           None \<Rightarrow> None
         | Some clients \<Rightarrow>
             if c \<notin> set clients then None
             else
               let clients = remove1 c clients;
                   s = s\<lparr>ms_watched := (ms_watched s)(db := (ms_watched s db)(key := if clients = [] then None else Some clients))\<rparr>
               in Some (upd s c (\<lambda>k. k\<lparr>m_watched := remove1 wk (m_watched k)\<rparr>))))"

definition unwatchAllKeys :: "('v, 'w) mserver \<Rightarrow> cid \<Rightarrow> ('v, 'w) mserver option" where
  "unwatchAllKeys s c = ofold (unwatch_one c) s (m_watched (ms_clients s c))"

definition touchWatchedKey :: "('v, 'w) mserver \<Rightarrow> nat \<Rightarrow> bytes \<Rightarrow> ('v, 'w) mserver" where
  "touchWatchedKey s db key =
     (case ms_watched s db key of
        None \<Rightarrow> s
      | Some clients \<Rightarrow> foldl (\<lambda>s c. upd s c (\<lambda>k. k\<lparr>m_dirty_cas := True\<rparr>)) s clients)"

definition touchWatchedKeysOnFlush :: "('v, 'w) mserver \<Rightarrow> nat option \<Rightarrow> ('v, 'w) mserver" where
  "touchWatchedKeysOnFlush s dbid =
     foldl (\<lambda>s c.
        if \<exists>wk\<in>set (m_watched (ms_clients s c)). (dbid = None \<or> dbid = Some (fst wk)) \<and> ms_data s (fst wk) (snd wk) \<noteq> None
        then upd s c (\<lambda>k. k\<lparr>m_dirty_cas := True\<rparr>) else s) s (ms_list s)"

definition do_signal :: "('v, 'w) mserver \<Rightarrow> signal \<Rightarrow> ('v, 'w) mserver" where
  "do_signal s g = (case g of Modified db key \<Rightarrow> touchWatchedKey s db key | Flushed d \<Rightarrow> touchWatchedKeysOnFlush s d)"

section \<open>Transactions\<close>

definition queueMultiCommand :: "('v, 'w) mserver \<Rightarrow> cid \<Rightarrow> redisCommand \<Rightarrow> bytes list \<Rightarrow> ('v, 'w) mserver" where
  "queueMultiCommand s c cmd args = upd s c (\<lambda>k. k\<lparr>m_commands := m_commands k @ [(cmd, args)]\<rparr>)"

definition discardTransaction :: "('v, 'w) mserver \<Rightarrow> cid \<Rightarrow> ('v, 'w) mserver option" where
  "discardTransaction s c =
     unwatchAllKeys (upd s c (\<lambda>k. k\<lparr>m_commands := [], m_multi := False, m_dirty_cas := False, m_dirty_exec := False\<rparr>)) c"

definition flagTransaction :: "('v, 'w) mserver \<Rightarrow> cid \<Rightarrow> ('v, 'w) mserver" where
  "flagTransaction s c = (if m_multi (ms_clients s c) then upd s c (\<lambda>k. k\<lparr>m_dirty_exec := True\<rparr>) else s)"

definition multiCommand :: "('v, 'w) mserver \<Rightarrow> cid \<Rightarrow> ('v, 'w) mserver" where
  "multiCommand s c =
     (if m_multi (ms_clients s c) then say s c [error ''MULTI calls can not be nested'']
      else say (upd s c (\<lambda>k. k\<lparr>m_multi := True\<rparr>)) c [line ''+OK''])"

definition discardCommand :: "('v, 'w) mserver \<Rightarrow> cid \<Rightarrow> ('v, 'w) mserver option" where
  "discardCommand s c =
     (if \<not> m_multi (ms_clients s c) then Some (say s c [error ''DISCARD without MULTI''])
      else map_option (\<lambda>s. say s c [line ''+OK'']) (discardTransaction s c))"

definition watchCommand :: "('v, 'w) mserver \<Rightarrow> cid \<Rightarrow> bytes list \<Rightarrow> ('v, 'w) mserver" where
  "watchCommand s c keys =
     (if m_multi (ms_clients s c) then say s c [error ''WATCH inside MULTI is not allowed'']
      else say (foldl (\<lambda>s key. watchForKey s c key) s keys) c [line ''+OK''])"

definition unwatchCommand :: "('v, 'w) mserver \<Rightarrow> cid \<Rightarrow> ('v, 'w) mserver option" where
  "unwatchCommand s c =
     map_option (\<lambda>s. say (upd s c (\<lambda>k. k\<lparr>m_dirty_cas := False\<rparr>)) c [line ''+OK'']) (unwatchAllKeys s c)"

text \<open>
  A command outside \<open>multi.c\<close>: the signals are sent, then the data set is the new one.  The second
  component is \<open>c->argv\<close> afterwards.
\<close>

definition dataCommand :: "('v, 'w) effect \<Rightarrow> ('v, 'w) mserver \<Rightarrow> cid \<Rightarrow> bytes list \<Rightarrow> ('v, 'w) mserver \<times> bytes list" where
  "dataCommand eff s c args =
     (let e = eff (ms_rest s) (ms_data s) (ms_dirty s) c (m_db (ms_clients s c)) args;
          s = foldl do_signal s (x_signals e);
          s = s\<lparr>ms_data := x_data e, ms_rest := x_rest e, ms_dirty := x_dirty e\<rparr>;
          s = foldl alsoPropagate (foldl propagate s (x_fed e)) (x_also e);
          s = s\<lparr>ms_clients := (\<lambda>x. (ms_clients s x)\<lparr>m_out := m_out (ms_clients s x) @ x_out e x\<rparr>)\<rparr>;
          s = forceCommandPropagation (upd s c (\<lambda>k. k\<lparr>m_db := x_db e\<rparr>)) c (x_aof e) (x_repl e)
      in (s, x_argv e))"

text \<open>The procedures but \<open>execCommand\<close>.\<close>

definition run_proc :: "('v, 'w) effect \<Rightarrow> ('v, 'w) mserver \<Rightarrow> cid \<Rightarrow> redisCommand \<Rightarrow> bytes list \<Rightarrow> (('v, 'w) mserver \<times> bytes list) option" where
  "run_proc eff s c cmd args =
     (case rc_proc cmd of
        PMulti \<Rightarrow> Some (multiCommand s c, args)
      | PDiscard \<Rightarrow> map_option (\<lambda>s. (s, args)) (discardCommand s c)
      | PWatch \<Rightarrow> Some (watchCommand s c (tl args), args)
      | PUnwatch \<Rightarrow> map_option (\<lambda>s. (s, args)) (unwatchCommand s c)
      | PExec \<Rightarrow> None
      | _ \<Rightarrow> Some (dataCommand eff s c args))"

text \<open>
  What \<open>call\<close> does before the procedure, and after it: the command is propagated as \<open>c->argv\<close> is
  then, when it is forced or when \<open>server.dirty\<close> has grown, and the commands of
  \<open>server.also_propagate\<close> after it.  The force flags of the client are restored.
\<close>

definition call_begin :: "('v, 'w) mserver \<Rightarrow> cid \<Rightarrow> ('v, 'w) mserver" where
  "call_begin s c = (upd s c (\<lambda>k. k\<lparr>m_force_aof := False, m_force_repl := False\<rparr>))\<lparr>ms_also := []\<rparr>"

definition call_end :: "int \<Rightarrow> mclient \<Rightarrow> ('v, 'w) mserver \<Rightarrow> cid \<Rightarrow> bytes list \<Rightarrow> ('v, 'w) mserver" where
  "call_end before old s c argv =
     (let dirty = ms_dirty s - before;
          dirty = (if dirty < 0 then 0 else dirty);
          aof = (m_force_aof (ms_clients s c) \<or> dirty \<noteq> 0);
          repl = (m_force_repl (ms_clients s c) \<or> dirty \<noteq> 0);
          s = (if aof \<or> repl
               then propagate s \<lparr>op_dbid = m_db (ms_clients s c), op_argv = argv, op_aof = aof, op_repl = repl\<rparr> else s);
          s = upd s c (\<lambda>k. k\<lparr>m_force_aof := m_force_aof old, m_force_repl := m_force_repl old\<rparr>)
      in (foldl propagate s (ms_also s))\<lparr>ms_also := []\<rparr>)"

definition call_proc ::
  "(('v, 'w) mserver \<Rightarrow> (('v, 'w) mserver \<times> bytes list) option) \<Rightarrow> ('v, 'w) mserver \<Rightarrow> cid \<Rightarrow> ('v, 'w) mserver option" where
  "call_proc f s c =
     do { (s', argv) \<leftarrow> f (call_begin s c); Some (call_end (ms_dirty s) (ms_clients s c) s' c argv) }"

text \<open>The loop of \<open>execCommand\<close>; the flag is \<open>must_propagate\<close>.\<close>

definition multi_op :: "nat \<Rightarrow> redisOp" where
  "multi_op db = \<lparr>op_dbid = db, op_argv = [map of_char ''MULTI''], op_aof = True, op_repl = True\<rparr>"

definition execCommandPropagateMulti :: "('v, 'w) mserver \<Rightarrow> cid \<Rightarrow> ('v, 'w) mserver" where
  "execCommandPropagateMulti s c = propagate s (multi_op (m_db (ms_clients s c)))"

fun exec_loop :: "('v, 'w) effect \<Rightarrow> ('v, 'w) mserver \<Rightarrow> cid \<Rightarrow> multiCmd list \<Rightarrow> bool \<Rightarrow> (('v, 'w) mserver \<times> bool) option" where
  "exec_loop eff s c [] must = Some (s, must)"
| "exec_loop eff s c ((cmd, args) # q) must =
     (let (s, must) = (if \<not> must \<and> \<not> rc_readonly cmd then (execCommandPropagateMulti s c, True) else (s, must)) in
      do { s \<leftarrow> call_proc (\<lambda>s. run_proc eff s c cmd args) s c; exec_loop eff s c q must })"

definition execCommand :: "('v, 'w) effect \<Rightarrow> ('v, 'w) mserver \<Rightarrow> cid \<Rightarrow> ('v, 'w) mserver option" where
  "execCommand eff s c =
     (let k = ms_clients s c in
      if \<not> m_multi k then Some (say s c [error ''EXEC without MULTI''])
      else if m_dirty_cas k \<or> m_dirty_exec k then
        discardTransaction (say s c [if m_dirty_exec k
          then line ''-EXECABORT Transaction discarded because of previous errors.'' else line ''*-1'']) c
      else
        do {
          s \<leftarrow> unwatchAllKeys s c;
          let s = say s c [RMultiLen (int (length (m_commands k)))];
          (s, must) \<leftarrow> exec_loop eff s c (m_commands k) False;
          s \<leftarrow> discardTransaction s c;
          Some (if must then s\<lparr>ms_dirty := ms_dirty s + 1\<rparr> else s)
        })"

definition call :: "('v, 'w) effect \<Rightarrow> ('v, 'w) mserver \<Rightarrow> cid \<Rightarrow> redisCommand \<Rightarrow> bytes list \<Rightarrow> ('v, 'w) mserver option" where
  "call eff s c cmd args =
     call_proc (\<lambda>s. if rc_proc cmd = PExec then map_option (\<lambda>s. (s, args)) (execCommand eff s c) else run_proc eff s c cmd args) s c"

section \<open>The gate\<close>

definition strcaseis :: "bytes \<Rightarrow> string \<Rightarrow> bool" where
  "strcaseis a w \<longleftrightarrow> map (\<lambda>b. tolower_int (schar b)) (takeWhile (\<lambda>b. b \<noteq> 0) a) = map (\<lambda>x. tolower_int (schar (of_char x))) w"

definition first_lower :: "bytes \<Rightarrow> byte \<Rightarrow> bool" where
  "first_lower a x \<longleftrightarrow> (case a of [] \<Rightarrow> False | b # _ \<Rightarrow> tolower_int (schar b) = schar x)"

definition lua_allowed :: "redisCommand \<Rightarrow> bytes list \<Rightarrow> bool" where
  "lua_allowed cmd args \<longleftrightarrow>
     rc_proc cmd = PAuth \<or> rc_proc cmd = PReplconf \<or>
     rc_proc cmd = PShutdown \<and> length args = 2 \<and> first_lower (args ! 1) 110 \<or>
     rc_proc cmd = PScript \<and> length args = 2 \<and> first_lower (args ! 1) 107"

text \<open>The first test of \<open>processCommand\<close> that fails: whether it flags the transaction, and its reply.\<close>

definition refuse :: "(bytes \<Rightarrow> redisCommand option) \<Rightarrow> conds \<Rightarrow> bytes list \<Rightarrow> (bool \<times> rop) option" where
  "refuse tbl k args =
     (case tbl (hd args) of
        None \<Rightarrow> Some (True, RError (map of_char ''unknown command '' @ [39] @ takeWhile (\<lambda>b. b \<noteq> 0) (hd args) @ [39]))
      | Some cmd \<Rightarrow>
          if rc_arity cmd > 0 \<and> rc_arity cmd \<noteq> int (length args) \<or> int (length args) < - rc_arity cmd then
            Some (True, RError (map of_char ''wrong number of arguments for '' @ [39] @ rc_name cmd @ [39] @ map of_char '' command''))
          else if k_noauth k \<and> rc_proc cmd \<noteq> PAuth then Some (True, line ''-NOAUTH Authentication required.'')
          else if rc_denyoom cmd \<and> k_oom k then Some (True, RObject (ORaw (map of_char ''-OOM command not allowed when used memory > '' @ [39] @
              map of_char ''maxmemory'' @ [39, 46] @ crlf)))
          else if k_diskerr k \<and> (rc_write cmd \<or> rc_proc cmd = PPing) then Some (True, RObject (ORaw (k_diskmsg k)))
          else if k_fewslaves k \<and> rc_write cmd then Some (True, line ''-NOREPLICAS Not enough good slaves to write.'')
          else if k_roslave k \<and> rc_write cmd then Some (False, RObject (ORaw (map of_char ''-READONLY You can'' @ [39] @
              map of_char ''t write against a read only slave.'' @ crlf)))
          else if k_pubsub k \<and> rc_proc cmd \<noteq> PPing \<and> rc_proc cmd \<noteq> PSubscribe then
            Some (False, error ''only (P)SUBSCRIBE / (P)UNSUBSCRIBE / QUIT allowed in this context'')
          else if k_masterdown k \<and> \<not> rc_stale cmd then
            Some (True, RObject (ORaw (map of_char ''-MASTERDOWN Link with MASTER is down and slave-serve-stale-data is set to '' @ [39] @
              map of_char ''no'' @ [39, 46] @ crlf)))
          else if k_loading k \<and> \<not> rc_loading cmd then Some (False, line ''-LOADING Redis is loading the dataset in memory'')
          else if k_luabusy k \<and> \<not> lua_allowed cmd args then
            Some (True, line ''-BUSY Redis is busy running a script. You can only call SCRIPT KILL or SHUTDOWN NOSAVE.'')
          else None)"

text \<open>The flag is the return value \<open>REDIS_OK\<close>.\<close>

definition processCommand ::
  "(bytes \<Rightarrow> redisCommand option) \<Rightarrow> ('v, 'w) effect \<Rightarrow> ('v, 'w) mserver \<Rightarrow> cid \<Rightarrow> conds \<Rightarrow> bytes list \<Rightarrow> (('v, 'w) mserver \<times> bool) option" where
  "processCommand tbl eff s c k args =
     (if strcaseis (hd args) ''quit'' then Some (upd (say s c [line ''+OK'']) c (\<lambda>k. k\<lparr>m_close := True\<rparr>), False)
      else case refuse tbl k args of
        Some (flag, r) \<Rightarrow> Some (say (if flag then flagTransaction s c else s) c [r], True)
      | None \<Rightarrow>
          (case tbl (hd args) of
             None \<Rightarrow> None
           | Some cmd \<Rightarrow>
               if m_multi (ms_clients s c) \<and> rc_proc cmd \<noteq> PExec \<and> rc_proc cmd \<noteq> PDiscard \<and> rc_proc cmd \<noteq> PMulti \<and> rc_proc cmd \<noteq> PWatch
               then Some (say (queueMultiCommand s c cmd args) c [line ''+QUEUED''], True)
               else map_option (\<lambda>s. (s, True)) (call eff s c cmd args)))"


section \<open>The tables of watched keys agree\<close>

abbreviation cl :: "('v, 'w) mserver \<Rightarrow> cid \<Rightarrow> mclient" where
  "cl s c \<equiv> ms_clients s c"

definition watchers :: "('v, 'w) mserver \<Rightarrow> nat \<Rightarrow> bytes \<Rightarrow> cid list" where
  "watchers s db key = (case ms_watched s db key of None \<Rightarrow> [] | Some l \<Rightarrow> l)"

definition winv :: "('v, 'w) mserver \<Rightarrow> bool" where
  "winv s \<longleftrightarrow>
     (\<forall>db key c. c \<in> set (watchers s db key) \<longleftrightarrow> (db, key) \<in> set (m_watched (cl s c))) \<and>
     (\<forall>db key l. ms_watched s db key = Some l \<longrightarrow> l \<noteq> [] \<and> distinct l) \<and>
     (\<forall>c. distinct (m_watched (cl s c))) \<and>
     (\<forall>c. m_watched (cl s c) \<noteq> [] \<longrightarrow> c \<in> set (ms_list s))"

lemma winv_cong:
  assumes "ms_watched s' = ms_watched s" "\<And>d. m_watched (cl s' d) = m_watched (cl s d)" "ms_list s' = ms_list s"
  shows "winv s' = winv s"
  using assms by (simp add: winv_def watchers_def)

lemma upd_simps [simp]:
  "ms_data (upd s c f) = ms_data s" "ms_watched (upd s c f) = ms_watched s" "ms_list (upd s c f) = ms_list s"
  "ms_dirty (upd s c f) = ms_dirty s" "ms_prop (upd s c f) = ms_prop s" "ms_rest (upd s c f) = ms_rest s" "ms_also (upd s c f) = ms_also s"
  "cl (upd s c f) d = (if d = c then f (cl s c) else cl s d)"
  by (simp_all add: upd_def)

lemma say_simps [simp]:
  "ms_data (say s c rs) = ms_data s" "ms_watched (say s c rs) = ms_watched s" "ms_list (say s c rs) = ms_list s"
  "ms_dirty (say s c rs) = ms_dirty s" "ms_prop (say s c rs) = ms_prop s" "ms_rest (say s c rs) = ms_rest s" "ms_also (say s c rs) = ms_also s"
  "cl (say s c rs) d = (if d = c then (cl s c)\<lparr>m_out := m_out (cl s c) @ rs\<rparr> else cl s d)"
  by (simp_all add: say_def)

text \<open>The fields a change of watched keys or transaction state leaves alone.\<close>

definition core :: "('v, 'w) mserver \<Rightarrow> 'v data \<times> 'w \<times> int \<times> redisOp list \<times> redisOp list" where
  "core s = (ms_data s, ms_rest s, ms_dirty s, ms_also s, ms_prop s)"

lemma core_simps [simp]:
  "core (upd s c f) = core s" "core (say s c rs) = core s" "core (s\<lparr>ms_watched := w\<rparr>) = core s" "core (s\<lparr>ms_clients := k\<rparr>) = core s"
  by (simp_all add: core_def)

lemma coreD:
  assumes "core s' = core s"
  shows "ms_data s' = ms_data s" "ms_rest s' = ms_rest s" "ms_dirty s' = ms_dirty s" "ms_also s' = ms_also s" "ms_prop s' = ms_prop s"
  using assms by (simp_all add: core_def)

lemma winv_say [simp]: "winv (say s c rs) = winv s"
  by (rule winv_cong) simp_all

lemma watched_id: "upd (s\<lparr>ms_watched := ms_watched s\<rparr>) c (\<lambda>k. k\<lparr>m_watched := m_watched (cl s c)\<rparr>) = s"
proof -
  have "(cl s c)\<lparr>m_watched := m_watched (cl s c)\<rparr> = cl s c" by (cases "cl s c") simp
  then show ?thesis by (cases s) (simp add: upd_def)
qed

lemma watchForKey_winv:
  assumes "winv s" "c \<in> set (ms_list s)"
  shows "winv (watchForKey s c key) \<and> (m_db (cl s c), key) \<in> set (m_watched (cl (watchForKey s c key) c)) \<and>
    set (m_watched (cl s c)) \<subseteq> set (m_watched (cl (watchForKey s c key) c)) \<and>
    (\<exists>w. watchForKey s c key = upd (s\<lparr>ms_watched := w\<rparr>) c (\<lambda>k. k\<lparr>m_watched := m_watched (cl (watchForKey s c key) c)\<rparr>))"
proof (cases "(m_db (cl s c), key) \<in> set (m_watched (cl s c))")
  case True
  then have "watchForKey s c key = s" by (simp add: watchForKey_def)
  moreover have "\<exists>w. s = upd (s\<lparr>ms_watched := w\<rparr>) c (\<lambda>k. k\<lparr>m_watched := m_watched (cl s c)\<rparr>)"
    by (intro exI [of _ "ms_watched s"]) (rule watched_id [symmetric])
  ultimately show ?thesis using True assms(1) by simp
next
  case False
  let ?db = "m_db (cl s c)"
  let ?s = "upd (s\<lparr>ms_watched := (ms_watched s)(?db := (ms_watched s ?db)(key := Some (watchers s ?db key @ [c])))\<rparr>) c (\<lambda>k. k\<lparr>m_watched := m_watched k @ [(?db, key)]\<rparr>)"
  have f: "m_watched (cl ?s c) = m_watched (cl s c) @ [(?db, key)]" by simp
  have e: "watchForKey s c key = ?s" using False by (simp add: watchForKey_def Let_def watchers_def)
  have new: "c \<notin> set (watchers s ?db key)" using assms(1) False by (simp add: winv_def)
  have mem: "\<forall>db k d. d \<in> set (watchers s db k) \<longleftrightarrow> (db, k) \<in> set (m_watched (cl s d))" using assms(1) by (simp add: winv_def)
  have w: "watchers ?s db k = (if db = ?db \<and> k = key then watchers s db k @ [c] else watchers s db k)" for db k by (auto simp: watchers_def)
  have ds: "distinct (watchers s ?db key)" using assms(1) by (auto simp: winv_def watchers_def split: option.splits)
  have "winv ?s" unfolding winv_def
  proof (intro conjI)
    show "\<forall>db k d. d \<in> set (watchers ?s db k) \<longleftrightarrow> (db, k) \<in> set (m_watched (cl ?s d))" unfolding w using mem by auto
    show "\<forall>db k l. ms_watched ?s db k = Some l \<longrightarrow> l \<noteq> [] \<and> distinct l" using assms(1) new ds by (auto simp: winv_def)
    show "\<forall>d. distinct (m_watched (cl ?s d))" using assms(1) False by (auto simp: winv_def)
    show "\<forall>d. m_watched (cl ?s d) \<noteq> [] \<longrightarrow> d \<in> set (ms_list ?s)" using assms by (auto simp: winv_def)
  qed
  then show ?thesis unfolding e f by (auto simp: upd_def)
qed

lemma unwatch_one_winv:
  assumes "winv s" "wk \<in> set (m_watched (cl s c))"
  shows "\<exists>w. unwatch_one c s wk = Some (upd (s\<lparr>ms_watched := w\<rparr>) c (\<lambda>k. k\<lparr>m_watched := remove1 wk (m_watched k)\<rparr>)) \<and>
    winv (upd (s\<lparr>ms_watched := w\<rparr>) c (\<lambda>k. k\<lparr>m_watched := remove1 wk (m_watched k)\<rparr>))"
proof -
  obtain db key where wk: "wk = (db, key)" by fastforce
  have mem: "\<forall>db k d. d \<in> set (watchers s db k) \<longleftrightarrow> (db, k) \<in> set (m_watched (cl s d))" using assms(1) by (simp add: winv_def)
  have "c \<in> set (watchers s db key)" using mem assms(2) wk by simp
  then obtain l where l: "ms_watched s db key = Some l" "c \<in> set l" by (cases "ms_watched s db key") (auto simp: watchers_def)
  have dl: "distinct l" using assms(1) l(1) by (auto simp: winv_def)
  let ?w = "(ms_watched s)(db := (ms_watched s db)(key := if remove1 c l = [] then None else Some (remove1 c l)))"
  let ?s = "upd (s\<lparr>ms_watched := ?w\<rparr>) c (\<lambda>k. k\<lparr>m_watched := remove1 wk (m_watched k)\<rparr>)"
  have "unwatch_one c s wk = Some ?s" using l wk by (simp add: unwatch_one_def Let_def)
  moreover have w: "watchers ?s x k = (if x = db \<and> k = key then remove1 c l else watchers s x k)" for x k by (auto simp: watchers_def)
  have ml: "\<forall>d. d \<in> set l \<longleftrightarrow> (db, key) \<in> set (m_watched (cl s d))" using mem l(1) by (metis option.simps(5) watchers_def)
  have dw: "\<forall>d. distinct (m_watched (cl s d))" using assms(1) by (simp add: winv_def)
  have emp: "remove1 c l = [] \<Longrightarrow> (db, key) \<in> set (m_watched (cl s d)) \<Longrightarrow> d = c" for d
    using ml in_set_remove1 [of d c l] by auto
  have "winv ?s" unfolding winv_def
  proof (intro conjI)
    show "\<forall>x k d. d \<in> set (watchers ?s x k) \<longleftrightarrow> (x, k) \<in> set (m_watched (cl ?s d))" unfolding w using mem ml dl dw wk emp by auto
    show "\<forall>x k m. ms_watched ?s x k = Some m \<longrightarrow> m \<noteq> [] \<and> distinct m" using assms(1) dl by (auto simp: winv_def)
    show "\<forall>d. distinct (m_watched (cl ?s d))" using dw by simp
    have "m_watched (cl s c) \<noteq> []" using assms(2) by auto
    then show "\<forall>d. m_watched (cl ?s d) \<noteq> [] \<longrightarrow> d \<in> set (ms_list ?s)" using assms by (auto simp: winv_def)
  qed
  ultimately show ?thesis by blast
qed

lemma unwatch_loop:
  "winv s \<Longrightarrow> xs = m_watched (cl s c) \<Longrightarrow>
    \<exists>w. ofold (unwatch_one c) s xs = Some (upd (s\<lparr>ms_watched := w\<rparr>) c (\<lambda>k. k\<lparr>m_watched := []\<rparr>)) \<and>
      winv (upd (s\<lparr>ms_watched := w\<rparr>) c (\<lambda>k. k\<lparr>m_watched := []\<rparr>))"
proof (induction xs arbitrary: s)
  case Nil
  then have "upd (s\<lparr>ms_watched := ms_watched s\<rparr>) c (\<lambda>k. k\<lparr>m_watched := []\<rparr>) = s" using watched_id [of s c] by simp
  then show ?case using Nil(1) by (metis ofold.simps(1))
next
  case (Cons x xs)
  have x: "x \<in> set (m_watched (cl s c))" unfolding Cons.prems(2) [symmetric] by simp
  obtain w1 where w1: "unwatch_one c s x = Some (upd (s\<lparr>ms_watched := w1\<rparr>) c (\<lambda>k. k\<lparr>m_watched := remove1 x (m_watched k)\<rparr>))"
    "winv (upd (s\<lparr>ms_watched := w1\<rparr>) c (\<lambda>k. k\<lparr>m_watched := remove1 x (m_watched k)\<rparr>))"
    using unwatch_one_winv [OF Cons.prems(1) x] by blast
  let ?s1 = "upd (s\<lparr>ms_watched := w1\<rparr>) c (\<lambda>k. k\<lparr>m_watched := remove1 x (m_watched k)\<rparr>)"
  have "xs = m_watched (cl ?s1 c)" by (simp add: Cons.prems(2) [symmetric])
  from Cons.IH [OF w1(2) this] obtain w where "ofold (unwatch_one c) ?s1 xs = Some (upd (?s1\<lparr>ms_watched := w\<rparr>) c (\<lambda>k. k\<lparr>m_watched := []\<rparr>))"
    "winv (upd (?s1\<lparr>ms_watched := w\<rparr>) c (\<lambda>k. k\<lparr>m_watched := []\<rparr>))" by blast
  moreover have "upd (?s1\<lparr>ms_watched := w\<rparr>) c (\<lambda>k. k\<lparr>m_watched := []\<rparr>) = upd (s\<lparr>ms_watched := w\<rparr>) c (\<lambda>k. k\<lparr>m_watched := []\<rparr>)"
    by (simp add: upd_def)
  ultimately show ?case using w1(1) by auto
qed

lemma unwatchAllKeys_winv:
  "winv s \<Longrightarrow> \<exists>w. unwatchAllKeys s c = Some (upd (s\<lparr>ms_watched := w\<rparr>) c (\<lambda>k. k\<lparr>m_watched := []\<rparr>)) \<and>
      winv (upd (s\<lparr>ms_watched := w\<rparr>) c (\<lambda>k. k\<lparr>m_watched := []\<rparr>))"
  unfolding unwatchAllKeys_def by (rule unwatch_loop) simp_all


section \<open>Touching keys\<close>

text \<open>All that happens is that some clients are marked.\<close>

definition marks :: "('v, 'w) mserver \<Rightarrow> ('v, 'w) mserver \<Rightarrow> bool" where
  "marks s s' \<longleftrightarrow>
     core s' = core s \<and> ms_watched s' = ms_watched s \<and> ms_list s' = ms_list s \<and>
     (\<forall>d. cl s' d = cl s d \<or> cl s' d = (cl s d)\<lparr>m_dirty_cas := True\<rparr>)"

lemma marks_refl: "marks s s"
  by (simp add: marks_def)

lemma marks_trans:
  assumes "marks s t" "marks t u"
  shows "marks s u"
proof -
  have "cl u d = cl s d \<or> cl u d = (cl s d)\<lparr>m_dirty_cas := True\<rparr>" for d
  proof -
    have "cl t d = cl s d \<or> cl t d = (cl s d)\<lparr>m_dirty_cas := True\<rparr>" "cl u d = cl t d \<or> cl u d = (cl t d)\<lparr>m_dirty_cas := True\<rparr>"
      using assms by (simp_all add: marks_def)
    then show ?thesis by auto
  qed
  then show ?thesis using assms by (simp add: marks_def)
qed

lemma marks_one: "marks s (upd s c (\<lambda>k. k\<lparr>m_dirty_cas := True\<rparr>))"
  by (simp add: marks_def)

lemma marks_foldl: "(\<And>s x. marks s (f s x)) \<Longrightarrow> marks s (foldl f s xs)"
  by (induction xs arbitrary: s) (auto intro: marks_refl marks_trans)

lemma marksD:
  assumes "marks s s'"
  shows "ms_data s' = ms_data s" "ms_watched s' = ms_watched s" "ms_list s' = ms_list s" "ms_also s' = ms_also s" "ms_prop s' = ms_prop s"
    "m_watched (cl s' d) = m_watched (cl s d)" "m_out (cl s' d) = m_out (cl s d)" "m_db (cl s' d) = m_db (cl s d)" "m_multi (cl s' d) = m_multi (cl s d)"
    "m_commands (cl s' d) = m_commands (cl s d)" "m_dirty_exec (cl s' d) = m_dirty_exec (cl s d)" "m_dirty_cas (cl s d) \<Longrightarrow> m_dirty_cas (cl s' d)"
    "m_force_aof (cl s' d) = m_force_aof (cl s d)" "m_force_repl (cl s' d) = m_force_repl (cl s d)"
proof -
  have "cl s' d = cl s d \<or> cl s' d = (cl s d)\<lparr>m_dirty_cas := True\<rparr>" using assms by (simp add: marks_def)
  then show "m_watched (cl s' d) = m_watched (cl s d)" "m_out (cl s' d) = m_out (cl s d)" "m_db (cl s' d) = m_db (cl s d)" "m_multi (cl s' d) = m_multi (cl s d)"
    "m_commands (cl s' d) = m_commands (cl s d)" "m_dirty_exec (cl s' d) = m_dirty_exec (cl s d)" "m_dirty_cas (cl s d) \<Longrightarrow> m_dirty_cas (cl s' d)"
    "m_force_aof (cl s' d) = m_force_aof (cl s d)" "m_force_repl (cl s' d) = m_force_repl (cl s d)" by auto
qed (use assms in \<open>simp_all add: marks_def core_def\<close>)

lemma marks_touch: "marks s (touchWatchedKey s db key)"
  by (auto simp: touchWatchedKey_def intro: marks_refl marks_foldl marks_one split: option.splits)

lemma marks_flush: "marks s (touchWatchedKeysOnFlush s d)"
  unfolding touchWatchedKeysOnFlush_def by (rule marks_foldl) (auto intro: marks_refl marks_one)

lemma marks_signal: "marks s (do_signal s g)"
  by (cases g) (simp_all add: do_signal_def marks_touch marks_flush)

lemma marks_signals: "marks s (foldl do_signal s gs)"
  by (rule marks_foldl) (rule marks_signal)








section \<open>What a command does to the clients that watch keys\<close>

definition plain_proc :: "proc \<Rightarrow> bool" where
  "plain_proc p \<longleftrightarrow> p \<noteq> PMulti \<and> p \<noteq> PExec \<and> p \<noteq> PDiscard \<and> p \<noteq> PWatch"

text \<open>The tables agree and only commands that may be queued are queued.\<close>

definition minv :: "('v, 'w) mserver \<Rightarrow> bool" where
  "minv s \<longleftrightarrow> winv s \<and> (\<forall>c. \<forall>q\<in>set (m_commands (cl s c)). plain_proc (rc_proc (fst q)))"

text \<open>A client keeps its watched keys, its marks and its open transaction.\<close>

definition pres :: "cid \<Rightarrow> ('v, 'w) mserver \<Rightarrow> ('v, 'w) mserver \<Rightarrow> bool" where
  "pres w s s' \<longleftrightarrow>
     set (m_watched (cl s w)) \<subseteq> set (m_watched (cl s' w)) \<and> (m_dirty_cas (cl s w) \<longrightarrow> m_dirty_cas (cl s' w)) \<and>
     (m_multi (cl s w) \<longrightarrow> m_multi (cl s' w)) \<and> (m_dirty_exec (cl s w) \<longrightarrow> m_dirty_exec (cl s' w))"

definition stepr :: "cid set \<Rightarrow> ('v, 'w) mserver \<Rightarrow> ('v, 'w) mserver \<Rightarrow> bool" where
  "stepr W s s' \<longleftrightarrow> minv s' \<and> ms_list s' = ms_list s \<and> (\<forall>w\<in>W. pres w s s')"

lemma pres_trans: "pres w s t \<Longrightarrow> pres w t u \<Longrightarrow> pres w s u"
  by (auto simp: pres_def)

lemma stepr_trans: "stepr W s t \<Longrightarrow> stepr W t u \<Longrightarrow> stepr W s u"
  unfolding stepr_def using pres_trans by metis

lemma stepr_mono: "stepr W s s' \<Longrightarrow> V \<subseteq> W \<Longrightarrow> stepr V s s'"
  by (auto simp: stepr_def)

lemma stepr_refl: "minv s \<Longrightarrow> stepr W s s"
  by (simp add: stepr_def pres_def)

lemma stepr_same:
  assumes "minv s" "ms_watched s' = ms_watched s" "ms_list s' = ms_list s"
    "\<And>d. m_watched (cl s' d) = m_watched (cl s d)" "\<And>d. m_dirty_cas (cl s d) \<longrightarrow> m_dirty_cas (cl s' d)"
    "\<And>d. m_multi (cl s d) \<longrightarrow> m_multi (cl s' d)" "\<And>d. m_dirty_exec (cl s d) \<longrightarrow> m_dirty_exec (cl s' d)"
    "\<And>d q. q \<in> set (m_commands (cl s' d)) \<Longrightarrow> q \<in> set (m_commands (cl s d)) \<or> plain_proc (rc_proc (fst q))"
  shows "stepr W s s'"
proof -
  have "winv s' = winv s" by (rule winv_cong) (rule assms)+
  moreover have "plain_proc (rc_proc (fst q))" if "q \<in> set (m_commands (cl s' d))" for d q
    using assms(8) [OF that] assms(1) by (auto simp: minv_def)
  ultimately show ?thesis using assms(1,3-7) by (simp add: stepr_def minv_def pres_def)
qed

lemma stepr_minv: "stepr W s s' \<Longrightarrow> minv s'"
  by (simp add: stepr_def)

lemma stepr_say: "minv s \<Longrightarrow> stepr W s (say s c rs)"
  by (rule stepr_same) (auto split: if_splits)

lemma stepr_propagate: "minv s \<Longrightarrow> stepr W s (propagate s op)"
  by (rule stepr_same) (auto simp: propagate_def)

lemma foldl_propagate: "foldl propagate s ops = s\<lparr>ms_prop := ms_prop s @ ops\<rparr>"
  by (induction ops arbitrary: s) (simp_all add: propagate_def)

lemma foldl_alsoPropagate: "foldl alsoPropagate s ops = s\<lparr>ms_also := ms_also s @ ops\<rparr>"
  by (induction ops arbitrary: s) (simp_all add: alsoPropagate_def)

lemma stepr_flag: "minv s \<Longrightarrow> stepr W s (flagTransaction s c)"
  by (rule stepr_same) (auto simp: flagTransaction_def split: if_splits)

lemma stepr_queue: "minv s \<Longrightarrow> plain_proc (rc_proc cmd) \<Longrightarrow> stepr W s (queueMultiCommand s c cmd args)"
  by (rule stepr_same) (auto simp: queueMultiCommand_def split: if_splits)

lemma stepr_multi: "minv s \<Longrightarrow> stepr W s (multiCommand s c)"
  by (rule stepr_same) (auto simp: multiCommand_def split: if_splits)

lemma stepr_watch:
  assumes "minv s" "c \<in> set (ms_list s)"
  shows "stepr W s (watchForKey s c key)"
proof -
  have w: "winv s" using assms(1) by (simp add: minv_def)
  note k = watchForKey_winv [OF w assms(2), of key]
  obtain v where e: "watchForKey s c key = upd (s\<lparr>ms_watched := v\<rparr>) c (\<lambda>k. k\<lparr>m_watched := m_watched (cl (watchForKey s c key) c)\<rparr>)" using k by blast
  have "m_commands (cl (watchForKey s c key) d) = m_commands (cl s d)" "m_dirty_cas (cl (watchForKey s c key) d) = m_dirty_cas (cl s d)"
    "m_multi (cl (watchForKey s c key) d) = m_multi (cl s d)" "m_dirty_exec (cl (watchForKey s c key) d) = m_dirty_exec (cl s d)"
    "ms_data (watchForKey s c key) = ms_data s" "ms_list (watchForKey s c key) = ms_list s" "d \<noteq> c \<Longrightarrow> cl (watchForKey s c key) d = cl s d" for d
    by (subst e, simp)+
  moreover from this have "set (m_watched (cl s d)) \<subseteq> set (m_watched (cl (watchForKey s c key) d))" for d using k by (cases "d = c") auto
  ultimately show ?thesis using assms(1) k by (simp add: stepr_def minv_def pres_def)
qed

lemma stepr_watches: "minv s \<Longrightarrow> c \<in> set (ms_list s) \<Longrightarrow> stepr W s (foldl (\<lambda>s key. watchForKey s c key) s keys)"
proof (induction keys arbitrary: s)
  case Nil
  then show ?case by (simp add: stepr_refl)
next
  case (Cons k keys)
  note st = stepr_watch [OF Cons.prems, of W k]
  then have "minv (watchForKey s c k)" "c \<in> set (ms_list (watchForKey s c k))" using Cons.prems by (simp_all add: stepr_def)
  from stepr_trans [OF st Cons.IH [OF this]] show ?case by simp
qed

lemma stepr_watchCommand:
  assumes "minv s" "c \<in> set (ms_list s)"
  shows "stepr W s (watchCommand s c keys)"
proof (cases "m_multi (cl s c)")
  case True
  then show ?thesis using stepr_say [OF assms(1)] by (simp add: watchCommand_def)
next
  case False
  note st = stepr_watches [OF assms, of W keys]
  then have "minv (foldl (\<lambda>s key. watchForKey s c key) s keys)" by (simp add: stepr_def)
  from stepr_trans [OF st stepr_say [OF this]] show ?thesis using False by (simp add: watchCommand_def)
qed

lemma stepr_unwatchAll:
  assumes "minv s"
  shows "\<exists>s'. unwatchAllKeys s c = Some s' \<and> stepr (- {c}) s s' \<and> core s' = core s \<and>
    (\<forall>d. cl s' d = (if d = c then (cl s c)\<lparr>m_watched := []\<rparr> else cl s d))"
proof -
  obtain w where "unwatchAllKeys s c = Some (upd (s\<lparr>ms_watched := w\<rparr>) c (\<lambda>k. k\<lparr>m_watched := []\<rparr>))"
    "winv (upd (s\<lparr>ms_watched := w\<rparr>) c (\<lambda>k. k\<lparr>m_watched := []\<rparr>))" using unwatchAllKeys_winv [of s c] assms by (auto simp: minv_def)
  moreover have "\<forall>d. \<forall>q\<in>set (m_commands (cl (upd (s\<lparr>ms_watched := w\<rparr>) c (\<lambda>k. k\<lparr>m_watched := []\<rparr>)) d)). plain_proc (rc_proc (fst q))"
    using assms by (simp add: minv_def)
  ultimately show ?thesis by (auto simp: stepr_def minv_def pres_def)
qed

lemma stepr_discard:
  assumes "minv s"
  shows "\<exists>s'. discardTransaction s c = Some s' \<and> stepr (- {c}) s s' \<and> core s' = core s \<and>
    (\<forall>d. cl s' d = (if d = c then (cl s c)\<lparr>m_commands := [], m_multi := False, m_dirty_cas := False, m_dirty_exec := False, m_watched := []\<rparr> else cl s d))"
proof -
  let ?s = "upd s c (\<lambda>k. k\<lparr>m_commands := [], m_multi := False, m_dirty_cas := False, m_dirty_exec := False\<rparr>)"
  have "winv ?s = winv s" by (rule winv_cong) simp_all
  then have m: "minv ?s" using assms by (simp add: minv_def)
  then have st: "stepr (- {c}) s ?s" using assms by (auto simp: stepr_def pres_def)
  obtain s' where u: "unwatchAllKeys ?s c = Some s'" "stepr (- {c}) ?s s'" "core s' = core ?s"
    "\<forall>d. cl s' d = (if d = c then (cl ?s c)\<lparr>m_watched := []\<rparr> else cl ?s d)" using stepr_unwatchAll [OF m, of c] by blast
  then show ?thesis using stepr_trans [OF st u(2)] by (simp add: discardTransaction_def)
qed

lemma dataCommand_facts:
  assumes "eff (ms_rest s) (ms_data s) (ms_dirty s) c (m_db (cl s c)) args = e" "dataCommand eff s c args = (s', argv)"
  shows "argv = x_argv e" "ms_data s' = x_data e" "ms_rest s' = x_rest e" "ms_dirty s' = x_dirty e"
    "ms_prop s' = ms_prop s @ x_fed e" "ms_also s' = ms_also s @ x_also e" "ms_watched s' = ms_watched s" "ms_list s' = ms_list s"
    "cl s' d = (let k = (cl (foldl do_signal s (x_signals e)) d)\<lparr>m_out := m_out (cl s d) @ x_out e d\<rparr> in
       if d = c then k\<lparr>m_db := x_db e, m_force_aof := m_force_aof (cl s c) \<or> x_aof e, m_force_repl := m_force_repl (cl s c) \<or> x_repl e\<rparr> else k)"
  using assms marksD [OF marks_signals [of s "x_signals e"]]
  by (auto simp: dataCommand_def Let_def foldl_propagate foldl_alsoPropagate forceCommandPropagation_def)

lemma stepr_data:
  assumes "minv s"
  shows "stepr W s (fst (dataCommand eff s c args))"
proof -
  obtain s' argv where d: "dataCommand eff s c args = (s', argv)" by fastforce
  note f = dataCommand_facts [OF refl d]
  let ?sigs = "x_signals (eff (ms_rest s) (ms_data s) (ms_dirty s) c (m_db (cl s c)) args)"
  note m = marksD [OF marks_signals [of s ?sigs]]
  have "stepr W s s'" by (rule stepr_same) (use assms in \<open>auto simp: f(7-9) m(6,9-12) Let_def split: if_splits\<close>)
  then show ?thesis using d by simp
qed

lemma stepr_call_begin: "minv s \<Longrightarrow> stepr W s (call_begin s c)"
  by (rule stepr_same) (auto simp: call_begin_def split: if_splits)

lemma stepr_call_end: "minv s \<Longrightarrow> stepr W s (call_end n old s c argv)"
  by (rule stepr_same) (auto simp: call_end_def Let_def foldl_propagate propagate_def split: if_splits)

definition unwatching :: "proc \<Rightarrow> bool" where
  "unwatching p \<longleftrightarrow> p = PExec \<or> p = PDiscard \<or> p = PUnwatch"

text \<open>Who keeps watching when a client runs a procedure.\<close>

definition keeps :: "proc \<Rightarrow> cid \<Rightarrow> cid set" where
  "keeps p c = (if unwatching p then - {c} else UNIV)"

lemma stepr_run_proc:
  assumes "minv s" "c \<in> set (ms_list s)" "rc_proc cmd \<noteq> PExec"
  shows "\<exists>s' argv. run_proc eff s c cmd args = Some (s', argv) \<and> stepr (keeps (rc_proc cmd) c) s s'"
proof -
  have disc: "\<exists>s'. discardCommand s c = Some s' \<and> stepr (- {c}) s s'"
  proof (cases "m_multi (cl s c)")
    case True
    obtain s1 where s1: "discardTransaction s c = Some s1" "stepr (- {c}) s s1" using stepr_discard [OF assms(1), of c] by blast
    from stepr_trans [OF s1(2) stepr_say [OF stepr_minv [OF s1(2)]]] show ?thesis using True s1(1) by (simp add: discardCommand_def)
  next
    case False
    then show ?thesis using stepr_say [OF assms(1)] by (simp add: discardCommand_def)
  qed
  have unw: "\<exists>s'. unwatchCommand s c = Some s' \<and> stepr (- {c}) s s'"
  proof -
    obtain s1 where s1: "unwatchAllKeys s c = Some s1" "stepr (- {c}) s s1" using stepr_unwatchAll [OF assms(1), of c] by blast
    let ?s2 = "upd s1 c (\<lambda>k. k\<lparr>m_dirty_cas := False\<rparr>)"
    have "winv ?s2 = winv s1" by (rule winv_cong) simp_all
    then have m: "minv ?s2" "stepr (- {c}) s1 ?s2" using s1(2) by (auto simp: stepr_def minv_def pres_def)
    from stepr_trans [OF stepr_trans [OF s1(2) m(2)] stepr_say [OF m(1)]] show ?thesis using s1(1) by (simp add: unwatchCommand_def)
  qed
  have data: "\<exists>s' argv. dataCommand eff s c args = (s', argv) \<and> stepr UNIV s s'"
    using stepr_data [OF assms(1), of UNIV eff c args] by (cases "dataCommand eff s c args") simp
  show ?thesis
    using assms(3) disc unw data stepr_multi [OF assms(1)] stepr_watchCommand [OF assms(1,2)]
    by (cases "rc_proc cmd") (auto simp: run_proc_def keeps_def unwatching_def)
qed

lemma stepr_call_proc:
  assumes "minv s" "\<And>t. minv t \<Longrightarrow> ms_list t = ms_list s \<Longrightarrow> \<exists>s' argv. f t = Some (s', argv) \<and> stepr W t s'"
  shows "\<exists>s'. call_proc f s c = Some s' \<and> stepr W s s'"
proof -
  note b = stepr_call_begin [OF assms(1), of W c]
  then have "ms_list (call_begin s c) = ms_list s" by (simp add: stepr_def)
  with assms(2) [OF stepr_minv [OF b]] obtain s' argv where s': "f (call_begin s c) = Some (s', argv)" "stepr W (call_begin s c) s'" by blast
  note e = stepr_call_end [OF stepr_minv [OF s'(2)], of W "ms_dirty s" "cl s c" c argv]
  from stepr_trans [OF stepr_trans [OF b s'(2)] e] show ?thesis using s'(1) by (simp add: call_proc_def)
qed

lemma keeps_others: "- {c} \<subseteq> keeps p c"
  by (simp add: keeps_def)

lemma stepr_call_run:
  assumes "minv s" "c \<in> set (ms_list s)" "rc_proc cmd \<noteq> PExec"
  shows "\<exists>s'. call_proc (\<lambda>s. run_proc eff s c cmd args) s c = Some s' \<and> stepr (keeps (rc_proc cmd) c) s s'"
  by (rule stepr_call_proc [OF assms(1)]) (use assms(2,3) stepr_run_proc in fastforce)

lemma stepr_exec_loop:
  "minv s \<Longrightarrow> c \<in> set (ms_list s) \<Longrightarrow> \<forall>q\<in>set qs. plain_proc (rc_proc (fst q)) \<Longrightarrow>
    \<exists>s' m'. exec_loop eff s c qs m = Some (s', m') \<and> stepr (- {c}) s s'"
proof (induction qs arbitrary: s m)
  case Nil
  then show ?case by (simp add: stepr_refl)
next
  case (Cons q qs)
  obtain cmd args where q: "q = (cmd, args)" by fastforce
  let ?t = "if \<not> m \<and> \<not> rc_readonly cmd then execCommandPropagateMulti s c else s"
  have t: "stepr (- {c}) s ?t" using stepr_propagate [OF Cons.prems(1)] stepr_refl [OF Cons.prems(1)] by (simp add: execCommandPropagateMulti_def)
  then have mt: "minv ?t" "c \<in> set (ms_list ?t)" using Cons.prems(2) by (simp_all add: stepr_def)
  have "rc_proc cmd \<noteq> PExec" using Cons.prems(3) q by (simp add: plain_proc_def)
  from stepr_call_run [OF mt this, of eff args] obtain s1 where
    s1: "call_proc (\<lambda>s. run_proc eff s c cmd args) ?t c = Some s1" "stepr (- {c}) ?t s1" using stepr_mono [OF _ keeps_others] by blast
  then have m1: "minv s1" "c \<in> set (ms_list s1)" using mt(2) by (simp_all add: stepr_def)
  let ?m = "m \<or> \<not> rc_readonly cmd"
  obtain s' m' where s': "exec_loop eff s1 c qs ?m = Some (s', m')" "stepr (- {c}) s1 s'" using Cons.IH [OF m1, of ?m] Cons.prems(3) by auto
  have "exec_loop eff s c (q # qs) m = Some (s', m')" using s1(1) s'(1) q by (cases "\<not> m \<and> \<not> rc_readonly cmd") auto
  then show ?case using stepr_trans [OF stepr_trans [OF t s1(2)] s'(2)] by blast
qed

lemma stepr_exec:
  assumes "minv s" "c \<in> set (ms_list s)"
  shows "\<exists>s'. execCommand eff s c = Some s' \<and> stepr (- {c}) s s'"
proof -
  let ?k = "cl s c"
  consider "\<not> m_multi ?k" | "m_multi ?k" "m_dirty_cas ?k \<or> m_dirty_exec ?k" | "m_multi ?k" "\<not> (m_dirty_cas ?k \<or> m_dirty_exec ?k)" by blast
  then show ?thesis
  proof cases
    case 1
    then show ?thesis using stepr_say [OF assms(1)] by (simp add: execCommand_def Let_def)
  next
    case 2
    let ?r = "[if m_dirty_exec ?k then line ''-EXECABORT Transaction discarded because of previous errors.'' else line ''*-1'']"
    have st: "stepr (- {c}) s (say s c ?r)" by (rule stepr_say [OF assms(1)])
    from stepr_discard [OF stepr_minv [OF st], of c] obtain s' where "discardTransaction (say s c ?r) c = Some s'" "stepr (- {c}) (say s c ?r) s'" by blast
    then show ?thesis using 2 stepr_trans [OF st] by (simp add: execCommand_def Let_def)
  next
    case 3
    obtain s1 where s1: "unwatchAllKeys s c = Some s1" "stepr (- {c}) s s1" using stepr_unwatchAll [OF assms(1), of c] by blast
    let ?s2 = "say s1 c [RMultiLen (int (length (m_commands ?k)))]"
    have s2: "stepr (- {c}) s ?s2" using stepr_trans [OF s1(2) stepr_say [OF stepr_minv [OF s1(2)]]] .
    then have m2: "minv ?s2" "c \<in> set (ms_list ?s2)" using assms(2) by (simp_all add: stepr_def)
    have "\<forall>q\<in>set (m_commands ?k). plain_proc (rc_proc (fst q))" using assms(1) by (simp add: minv_def)
    from stepr_exec_loop [OF m2 this, of eff False] obtain s3 must where
      s3: "exec_loop eff ?s2 c (m_commands ?k) False = Some (s3, must)" "stepr (- {c}) ?s2 s3" by blast
    from stepr_discard [OF stepr_minv [OF s3(2)], of c] obtain s4 where s4: "discardTransaction s3 c = Some s4" "stepr (- {c}) s3 s4" by blast
    let ?s5 = "if must then s4\<lparr>ms_dirty := ms_dirty s4 + 1\<rparr> else s4"
    have "stepr (- {c}) s4 ?s5" by (rule stepr_same) (use stepr_minv [OF s4(2)] in \<open>auto split: if_splits\<close>)
    then show ?thesis using 3 s1(1) s3(1) s4(1) stepr_trans [OF stepr_trans [OF stepr_trans [OF s2 s3(2)] s4(2)]]
      by (auto simp: execCommand_def Let_def)
  qed
qed

lemma stepr_call:
  assumes "minv s" "c \<in> set (ms_list s)"
  shows "\<exists>s'. call eff s c cmd args = Some s' \<and> stepr (keeps (rc_proc cmd) c) s s'"
  unfolding call_def
proof (rule stepr_call_proc [OF assms(1)])
  fix t :: "('a, 'b) mserver"
  assume "minv t" "ms_list t = ms_list s"
  then show "\<exists>s' argv. (if rc_proc cmd = PExec then map_option (\<lambda>s. (s, args)) (execCommand eff t c) else run_proc eff t c cmd args) = Some (s', argv) \<and>
      stepr (keeps (rc_proc cmd) c) t s'"
    using stepr_exec [of t c eff] stepr_run_proc [of t c cmd eff args] assms(2) by (cases "rc_proc cmd = PExec") (auto simp: keeps_def unwatching_def)
qed

text \<open>Who is sure to keep its watched keys and its transaction when a client sends a command.\<close>

definition kept :: "(bytes \<Rightarrow> redisCommand option) \<Rightarrow> ('v, 'w) mserver \<Rightarrow> cid \<Rightarrow> bytes list \<Rightarrow> cid set" where
  "kept tbl s c args =
     (case tbl (hd args) of None \<Rightarrow> UNIV | Some cmd \<Rightarrow> if m_multi (cl s c) \<and> plain_proc (rc_proc cmd) then UNIV else keeps (rc_proc cmd) c)"

lemma stepr_process:
  assumes "minv s" "c \<in> set (ms_list s)"
  shows "\<exists>s' ok. processCommand tbl eff s c k args = Some (s', ok) \<and> stepr (kept tbl s c args) s s'"
proof -
  let ?W = "kept tbl s c args"
  consider "strcaseis (hd args) ''quit''" | flag r where "\<not> strcaseis (hd args) ''quit''" "refuse tbl k args = Some (flag, r)"
    | "\<not> strcaseis (hd args) ''quit''" "refuse tbl k args = None" by (metis option.exhaust prod.exhaust)
  then show ?thesis
  proof cases
    case 1
    let ?s = "upd (say s c [line ''+OK'']) c (\<lambda>k. k\<lparr>m_close := True\<rparr>)"
    have "stepr ?W s ?s" by (rule stepr_same [OF assms(1)]) (auto split: if_splits)
    moreover have "processCommand tbl eff s c k args = Some (?s, False)" using 1 by (simp add: processCommand_def)
    ultimately show ?thesis by blast
  next
    case 2
    let ?t = "if flag then flagTransaction s c else s"
    have t: "stepr ?W s ?t" using stepr_flag [OF assms(1)] stepr_refl [OF assms(1)] by simp
    from stepr_trans [OF t stepr_say [OF stepr_minv [OF t]]] show ?thesis using 2 by (auto simp: processCommand_def)
  next
    case 3
    then obtain cmd where cmd: "tbl (hd args) = Some cmd" by (auto simp: refuse_def split: option.splits)
    show ?thesis
    proof (cases "m_multi (cl s c) \<and> plain_proc (rc_proc cmd)")
      case True
      have q: "stepr ?W s (queueMultiCommand s c cmd args)" using stepr_queue [OF assms(1)] True by blast
      from stepr_trans [OF q stepr_say [OF stepr_minv [OF q]]] show ?thesis using 3 cmd True by (auto simp: processCommand_def plain_proc_def)
    next
      case False
      then have "processCommand tbl eff s c k args = map_option (\<lambda>s. (s, True)) (call eff s c cmd args)"
        using 3 cmd by (auto simp: processCommand_def plain_proc_def)
      moreover have "?W = keeps (rc_proc cmd) c" using False cmd by (auto simp: kept_def)
      ultimately show ?thesis using stepr_call [OF assms, of eff cmd args] by auto
    qed
  qed
qed


section \<open>Runs\<close>

text \<open>
  A command of a client, a connection that is closed (\<open>unwatchAllKeys\<close> in \<open>freeClient\<close>), or an
  expired key that the cron job deletes.
\<close>

datatype event = Command cid conds "bytes list" | Closed cid | Expired nat bytes

definition new_mclient :: mclient where
  "new_mclient = \<lparr>m_multi = False, m_dirty_cas = False, m_dirty_exec = False, m_close = False, m_force_aof = False, m_force_repl = False,
     m_db = 0, m_commands = [], m_watched = [], m_out = []\<rparr>"

fun run_event :: "(bytes \<Rightarrow> redisCommand option) \<Rightarrow> ('v, 'w) effect \<Rightarrow> ('v, 'w) mserver \<Rightarrow> event \<Rightarrow> ('v, 'w) mserver option" where
  "run_event tbl eff s (Command c k args) = map_option fst (processCommand tbl eff s c k args)"
| "run_event tbl eff s (Closed c) = map_option (\<lambda>s. upd s c (\<lambda>_. new_mclient)) (unwatchAllKeys s c)"
| "run_event tbl eff s (Expired db key) = Some (activeExpireCycleTryExpire s db key)"

text \<open>
  Events of connected clients; those during which client \<open>w\<close> sends no command that stops
  watching, and those during which it does not end its transaction.
\<close>

definition event_ok :: "(bytes \<Rightarrow> redisCommand option) \<Rightarrow> cid list \<Rightarrow> event \<Rightarrow> bool" where
  "event_ok tbl cs e \<longleftrightarrow> (case e of Command c k args \<Rightarrow> c \<in> set cs | Closed c \<Rightarrow> c \<in> set cs | Expired _ _ \<Rightarrow> True)"

definition event_keeps :: "(bytes \<Rightarrow> redisCommand option) \<Rightarrow> cid \<Rightarrow> event \<Rightarrow> bool" where
  "event_keeps tbl w e \<longleftrightarrow>
     (case e of
        Command c k args \<Rightarrow> c \<noteq> w \<or> (case tbl (hd args) of None \<Rightarrow> True | Some cmd \<Rightarrow> \<not> unwatching (rc_proc cmd))
      | Closed c \<Rightarrow> c \<noteq> w
      | Expired _ _ \<Rightarrow> True)"

definition event_open :: "(bytes \<Rightarrow> redisCommand option) \<Rightarrow> cid \<Rightarrow> event \<Rightarrow> bool" where
  "event_open tbl w e \<longleftrightarrow>
     (case e of
        Command c k args \<Rightarrow> c \<noteq> w \<or> (case tbl (hd args) of None \<Rightarrow> True | Some cmd \<Rightarrow> rc_proc cmd \<noteq> PExec \<and> rc_proc cmd \<noteq> PDiscard)
      | Closed c \<Rightarrow> c \<noteq> w
      | Expired _ _ \<Rightarrow> True)"

lemma run_event_step:
  assumes "minv s" "event_ok tbl (ms_list s) e"
  shows "\<exists>s'. run_event tbl eff s e = Some s' \<and> stepr {w. event_keeps tbl w e \<or> m_multi (cl s w) \<and> event_open tbl w e} s s'"
proof (cases e)
  case (Command c k args)
  have "{w. event_keeps tbl w e \<or> m_multi (cl s w) \<and> event_open tbl w e} \<subseteq> kept tbl s c args"
    using Command by (auto simp: event_keeps_def event_open_def kept_def keeps_def unwatching_def plain_proc_def split: option.splits)
  moreover obtain s' ok where "processCommand tbl eff s c k args = Some (s', ok)" "stepr (kept tbl s c args) s s'"
    using stepr_process [OF assms(1), of c tbl eff k args] assms(2) Command by (auto simp: event_ok_def)
  ultimately show ?thesis using Command stepr_mono by auto
next
  case (Closed c)
  obtain s1 where s1: "unwatchAllKeys s c = Some s1" "stepr (- {c}) s s1" "\<forall>d. cl s1 d = (if d = c then (cl s c)\<lparr>m_watched := []\<rparr> else cl s d)"
    using stepr_unwatchAll [OF assms(1), of c] by blast
  let ?s = "upd s1 c (\<lambda>_. new_mclient)"
  have "winv ?s = winv s1" by (rule winv_cong) (use s1(3) in \<open>simp_all add: new_mclient_def\<close>)
  then have "stepr (- {c}) s1 ?s" using s1(2) by (auto simp: stepr_def minv_def pres_def new_mclient_def)
  moreover have "{w. event_keeps tbl w e \<or> m_multi (cl s w) \<and> event_open tbl w e} = - {c}" using Closed by (auto simp: event_keeps_def event_open_def)
  ultimately show ?thesis using Closed s1(1) stepr_trans [OF s1(2)] by simp
next
  case (Expired db key)
  have "stepr W s (activeExpireCycleTryExpire s db key)" for W
    by (rule stepr_same [OF assms(1)]) (auto simp: activeExpireCycleTryExpire_def propagateExpire_def propagate_def)
  then show ?thesis using Expired by simp
qed

lemma run_events:
  "minv s \<Longrightarrow> \<forall>e\<in>set es. event_ok tbl (ms_list s) e \<Longrightarrow>
    \<exists>s'. ofold (run_event tbl eff) s es = Some s' \<and> stepr {w. \<forall>e\<in>set es. event_keeps tbl w e} s s'"
proof (induction es arbitrary: s)
  case Nil
  then show ?case by (simp add: stepr_refl)
next
  case (Cons e es)
  obtain s1 where s1: "run_event tbl eff s e = Some s1" "stepr {w. event_keeps tbl w e \<or> m_multi (cl s w) \<and> event_open tbl w e} s s1"
    using run_event_step [OF Cons.prems(1), of tbl e eff] Cons.prems(2) by auto
  then have m: "minv s1" "ms_list s1 = ms_list s" by (simp_all add: stepr_def)
  obtain s' where s': "ofold (run_event tbl eff) s1 es = Some s'" "stepr {w. \<forall>e\<in>set es. event_keeps tbl w e} s1 s'"
    using Cons.IH [OF m(1)] Cons.prems(2) m(2) by auto
  have "stepr {w. \<forall>e\<in>set (e # es). event_keeps tbl w e} s s1" "stepr {w. \<forall>e\<in>set (e # es). event_keeps tbl w e} s1 s'"
    by (auto intro: stepr_mono [OF s1(2)] stepr_mono [OF s'(2)])
  then show ?case using s1(1) s'(1) stepr_trans by auto
qed

text \<open>A client that does not end its transaction stays in it, and flagged when it was.\<close>

lemma run_events_open:
  "minv s \<Longrightarrow> m_multi (cl s w) \<Longrightarrow> \<forall>e\<in>set es. event_ok tbl (ms_list s) e \<and> event_open tbl w e \<Longrightarrow>
    \<exists>s'. ofold (run_event tbl eff) s es = Some s' \<and> stepr {w} s s'"
proof (induction es arbitrary: s)
  case Nil
  then show ?case by (simp add: stepr_refl)
next
  case (Cons e es)
  obtain s1 where s1: "run_event tbl eff s e = Some s1" "stepr {w. event_keeps tbl w e \<or> m_multi (cl s w) \<and> event_open tbl w e} s s1"
    using run_event_step [OF Cons.prems(1), of tbl e eff] Cons.prems(3) by auto
  have "stepr {w} s s1" by (rule stepr_mono [OF s1(2)]) (use Cons.prems in auto)
  moreover from this have m: "minv s1" "ms_list s1 = ms_list s" "m_multi (cl s1 w)" using Cons.prems(2) by (simp_all add: stepr_def pres_def)
  moreover obtain s' where "ofold (run_event tbl eff) s1 es = Some s'" "stepr {w} s1 s'" using Cons.IH [OF m(1,3)] Cons.prems(3) m(2) by auto
  ultimately show ?case using s1(1) stepr_trans by auto
qed


section \<open>What \<open>EXEC\<close> does\<close>

text \<open>
  The queue run on the data set alone: the data set and the rest of the state, \<open>server.dirty\<close>,
  the selected database of the client, the output of every client and what is propagated.
\<close>

record ('v, 'w) qstate =
  q_data :: "'v data"
  q_rest :: 'w
  q_dirty :: int
  q_db :: nat
  q_out :: "cid \<Rightarrow> rop list"
  q_ops :: "redisOp list"

definition absq :: "('v, 'w) mserver \<Rightarrow> cid \<Rightarrow> ('v, 'w) qstate" where
  "absq s c = \<lparr>q_data = ms_data s, q_rest = ms_rest s, q_dirty = ms_dirty s, q_db = m_db (cl s c), q_out = (\<lambda>x. m_out (cl s x)), q_ops = ms_prop s\<rparr>"

definition outcome_of :: "('v, 'w) effect \<Rightarrow> cid \<Rightarrow> bytes list \<Rightarrow> ('v, 'w) qstate \<Rightarrow> ('v, 'w) outcome" where
  "outcome_of eff c args z = eff (q_rest z) (q_data z) (q_dirty z) c (q_db z) args"

text \<open>
  A command propagates what it feeds itself, then its argument vector, to the targets it is
  forced to, and to both when \<open>server.dirty\<close> has grown, then what it asked to propagate also.
\<close>

definition call_ops :: "int \<Rightarrow> ('v, 'w) outcome \<Rightarrow> redisOp list" where
  "call_ops n e =
     x_fed e @
     (if n < x_dirty e \<or> x_aof e \<or> x_repl e
      then [\<lparr>op_dbid = x_db e, op_argv = x_argv e, op_aof = (n < x_dirty e \<or> x_aof e), op_repl = (n < x_dirty e \<or> x_repl e)\<rparr>] else []) @
     x_also e"

definition queue_step :: "('v, 'w) effect \<Rightarrow> cid \<Rightarrow> multiCmd \<Rightarrow> ('v, 'w) qstate \<Rightarrow> ('v, 'w) qstate" where
  "queue_step eff c q z =
     (if rc_proc (fst q) = PUnwatch then z\<lparr>q_out := (q_out z)(c := q_out z c @ [line ''+OK''])\<rparr>
      else let e = outcome_of eff c (snd q) z in
        \<lparr>q_data = x_data e, q_rest = x_rest e, q_dirty = x_dirty e, q_db = x_db e, q_out = (\<lambda>x. q_out z x @ x_out e x),
         q_ops = q_ops z @ call_ops (q_dirty z) e\<rparr>)"

definition run_queue :: "('v, 'w) effect \<Rightarrow> cid \<Rightarrow> multiCmd list \<Rightarrow> ('v, 'w) qstate \<Rightarrow> ('v, 'w) qstate" where
  "run_queue eff c qs z = fold (queue_step eff c) qs z"

lemma run_queue_simps [simp]:
  "run_queue eff c [] z = z" "run_queue eff c (q # qs) z = run_queue eff c qs (queue_step eff c q z)"
  by (simp_all add: run_queue_def)




lemma call_begin_simps [simp]:
  "ms_data (call_begin s c) = ms_data s" "ms_rest (call_begin s c) = ms_rest s" "ms_dirty (call_begin s c) = ms_dirty s"
  "ms_prop (call_begin s c) = ms_prop s" "ms_also (call_begin s c) = []" "ms_list (call_begin s c) = ms_list s" "ms_watched (call_begin s c) = ms_watched s"
  "cl (call_begin s c) d = (if d = c then (cl s c)\<lparr>m_force_aof := False, m_force_repl := False\<rparr> else cl s d)"
  by (simp_all add: call_begin_def)

lemma call_end_simps [simp]:
  "ms_data (call_end n old s c argv) = ms_data s" "ms_rest (call_end n old s c argv) = ms_rest s" "ms_dirty (call_end n old s c argv) = ms_dirty s"
  "ms_list (call_end n old s c argv) = ms_list s" "ms_watched (call_end n old s c argv) = ms_watched s" "ms_also (call_end n old s c argv) = []"
  "cl (call_end n old s c argv) d = (if d = c then (cl s c)\<lparr>m_force_aof := m_force_aof old, m_force_repl := m_force_repl old\<rparr> else cl s d)"
  by (simp_all add: call_end_def Let_def foldl_propagate propagate_def)

lemma call_end_prop:
  "ms_prop (call_end n old s c argv) = ms_prop s @
     (if n < ms_dirty s \<or> m_force_aof (cl s c) \<or> m_force_repl (cl s c)
      then [\<lparr>op_dbid = m_db (cl s c), op_argv = argv, op_aof = (n < ms_dirty s \<or> m_force_aof (cl s c)), op_repl = (n < ms_dirty s \<or> m_force_repl (cl s c))\<rparr>]
      else []) @ ms_also s"
  by (auto simp: call_end_def Let_def foldl_propagate propagate_def)

lemma absq_eqI:
  assumes "q_data z = ms_data s" "q_rest z = ms_rest s" "q_dirty z = ms_dirty s" "q_db z = m_db (cl s c)"
    "\<And>x. q_out z x = m_out (cl s x)" "q_ops z = ms_prop s"
  shows "absq s c = z"
  using assms by (cases z) (auto simp: absq_def)

lemma plain_run_proc:
  assumes "plain_proc (rc_proc cmd)" "rc_proc cmd \<noteq> PUnwatch"
  shows "run_proc eff s c cmd args = Some (dataCommand eff s c args)"
  using assms by (cases "rc_proc cmd") (simp_all add: run_proc_def plain_proc_def)

text \<open>A queued command in \<open>call\<close> refines the step on the data set.\<close>

lemma call_run_queue:
  assumes "plain_proc (rc_proc cmd)" "m_watched (cl s c) = []" "call_proc (\<lambda>s. run_proc eff s c cmd args) s c = Some s'"
  shows "absq s' c = queue_step eff c (cmd, args) (absq s c) \<and> m_watched (cl s' c) = []"
proof (cases "rc_proc cmd = PUnwatch")
  case True
  let ?t = "call_begin s c"
  have "unwatchAllKeys ?t c = Some ?t" using assms(2) by (simp add: unwatchAllKeys_def)
  then have s': "s' = call_end (ms_dirty s) (cl s c) (say (upd ?t c (\<lambda>k. k\<lparr>m_dirty_cas := False\<rparr>)) c [line ''+OK'']) c args"
    using assms(3) True by (simp add: call_proc_def run_proc_def unwatchCommand_def)
  have "absq s' c = queue_step eff c (cmd, args) (absq s c)"
    by (rule absq_eqI) (auto simp: s' call_end_prop True queue_step_def absq_def)
  then show ?thesis using assms(2) by (simp add: s')
next
  case False
  let ?t = "call_begin s c"
  obtain s1 argv where d: "dataCommand eff ?t c args = (s1, argv)" by fastforce
  have s': "s' = call_end (ms_dirty s) (cl s c) s1 c argv"
    using assms(3) plain_run_proc [OF assms(1) False, of eff ?t c args] d by (simp add: call_proc_def)
  let ?e = "outcome_of eff c args (absq s c)"
  have e: "eff (ms_rest ?t) (ms_data ?t) (ms_dirty ?t) c (m_db (cl ?t c)) args = ?e" by (simp add: outcome_of_def absq_def)
  note f = dataCommand_facts [OF e d] and m = marksD [OF marks_signals [of ?t "x_signals ?e"]]
  have "absq s' c = queue_step eff c (cmd, args) (absq s c)"
    by (rule absq_eqI) (use False in \<open>auto simp: s' call_end_prop queue_step_def Let_def f call_ops_def absq_def [of s c]\<close>)
  then show ?thesis using assms(2) by (simp add: s' f(9) m(6) Let_def)
qed


lemma exec_loop_append:
  "exec_loop eff s c (qs @ rs) m = exec_loop eff s c qs m \<bind> (\<lambda>(s', m'). exec_loop eff s' c rs m')"
proof (induction qs arbitrary: s m)
  case (Cons q qs)
  obtain cmd args where q: "q = (cmd, args)" by fastforce
  show ?case unfolding q append_Cons exec_loop.simps Let_def Cons.IH
    by (cases "\<not> m \<and> \<not> rc_readonly cmd") (auto split: option.splits simp: Option.bind_eq_Some_conv intro!: Option.bind_cong)
qed simp

text \<open>Without \<open>MULTI\<close> in between, the loop is the run of the queue on the data set.\<close>

lemma exec_loop_run:
  "minv s \<Longrightarrow> c \<in> set (ms_list s) \<Longrightarrow> \<forall>q\<in>set qs. plain_proc (rc_proc (fst q)) \<Longrightarrow> m_watched (cl s c) = [] \<Longrightarrow>
    m \<or> (\<forall>q\<in>set qs. rc_readonly (fst q)) \<Longrightarrow>
    \<exists>s'. exec_loop eff s c qs m = Some (s', m) \<and> stepr (- {c}) s s' \<and> absq s' c = run_queue eff c qs (absq s c) \<and> m_watched (cl s' c) = []"
proof (induction qs arbitrary: s)
  case Nil
  then show ?case by (simp add: stepr_refl)
next
  case (Cons q qs)
  obtain cmd args where q: "q = (cmd, args)" by fastforce
  have p: "plain_proc (rc_proc cmd)" "rc_proc cmd \<noteq> PExec" "m \<or> rc_readonly cmd" using Cons.prems(3,5) q by (auto simp: plain_proc_def)
  obtain s1 where s1: "call_proc (\<lambda>s. run_proc eff s c cmd args) s c = Some s1" "stepr (- {c}) s s1"
    using stepr_call_run [OF Cons.prems(1,2) p(2), of eff args] stepr_mono [OF _ keeps_others] by blast
  note a = call_run_queue [OF p(1) Cons.prems(4) s1(1)]
  have m1: "minv s1" "c \<in> set (ms_list s1)" using s1(2) Cons.prems(2) by (simp_all add: stepr_def)
  obtain s' where s': "exec_loop eff s1 c qs m = Some (s', m)" "stepr (- {c}) s1 s'" "absq s' c = run_queue eff c qs (absq s1 c)" "m_watched (cl s' c) = []"
    using Cons.IH [OF m1] a Cons.prems(3,5) by auto
  have "exec_loop eff s c (q # qs) m = Some (s', m)" using s1(1) s'(1) p(3) q by (auto simp: Let_def)
  then show ?case using stepr_trans [OF s1(2) s'(2)] s'(3,4) a q by simp
qed


text \<open>The steps of an \<open>EXEC\<close> that is not aborted.\<close>

lemma exec_clean:
  assumes "minv s" "c \<in> set (ms_list s)" "m_multi (cl s c)" "\<not> m_dirty_cas (cl s c)" "\<not> m_dirty_exec (cl s c)"
  obtains s2 s3 must s4 where "minv s2" "c \<in> set (ms_list s2)" "core s2 = core s"
    "\<And>d. cl s2 d = (if d = c then (cl s c)\<lparr>m_watched := [], m_out := m_out (cl s c) @ [RMultiLen (int (length (m_commands (cl s c))))]\<rparr> else cl s d)"
    "exec_loop eff s2 c (m_commands (cl s c)) False = Some (s3, must)" "core s4 = core s3"
    "\<And>d. cl s4 d = (if d = c then (cl s3 c)\<lparr>m_commands := [], m_multi := False, m_dirty_cas := False, m_dirty_exec := False, m_watched := []\<rparr> else cl s3 d)"
    "execCommand eff s c = Some (if must then s4\<lparr>ms_dirty := ms_dirty s4 + 1\<rparr> else s4)"
    "\<forall>q\<in>set (m_commands (cl s c)). plain_proc (rc_proc (fst q))"
proof -
  let ?q = "m_commands (cl s c)"
  obtain s1 where s1: "unwatchAllKeys s c = Some s1" "stepr (- {c}) s s1" "core s1 = core s"
    "\<forall>d. cl s1 d = (if d = c then (cl s c)\<lparr>m_watched := []\<rparr> else cl s d)" using stepr_unwatchAll [OF assms(1), of c] by blast
  let ?s2 = "say s1 c [RMultiLen (int (length ?q))]"
  have "stepr (- {c}) s ?s2" using stepr_trans [OF s1(2) stepr_say [OF stepr_minv [OF s1(2)]]] .
  then have m2: "minv ?s2" "c \<in> set (ms_list ?s2)" using assms(2) by (simp_all add: stepr_def)
  have pq: "\<forall>q\<in>set ?q. plain_proc (rc_proc (fst q))" using assms(1) by (simp add: minv_def)
  from stepr_exec_loop [OF m2 this, of eff False] obtain s3 must where
    s3: "exec_loop eff ?s2 c ?q False = Some (s3, must)" "stepr (- {c}) ?s2 s3" by blast
  obtain s4 where s4: "discardTransaction s3 c = Some s4" "core s4 = core s3"
    "\<forall>d. cl s4 d = (if d = c then (cl s3 c)\<lparr>m_commands := [], m_multi := False, m_dirty_cas := False, m_dirty_exec := False, m_watched := []\<rparr> else cl s3 d)"
    using stepr_discard [OF stepr_minv [OF s3(2)], of c] by blast
  have "execCommand eff s c = Some (if must then s4\<lparr>ms_dirty := ms_dirty s4 + 1\<rparr> else s4)"
    using assms(3-5) s1(1) s3(1) s4(1) by (simp add: execCommand_def Let_def)
  then show ?thesis using that [of ?s2 s3 must s4] m2 s1(3,4) s3(1) s4(2,3) pq by simp
qed

text \<open>
  What a transaction is to do: the count of replies and the commands one after the other; from
  the first one on that is not flagged read-only, what is propagated stands between \<open>MULTI\<close> and
  \<open>EXEC\<close>.  The \<open>EXEC\<close> is propagated by \<open>call\<close>, which looks whether \<open>server.dirty\<close> has grown.
\<close>

definition run_transaction :: "('v, 'w) effect \<Rightarrow> cid \<Rightarrow> bytes list \<Rightarrow> multiCmd list \<Rightarrow> ('v, 'w) qstate \<Rightarrow> ('v, 'w) qstate" where
  "run_transaction eff c args qs z =
     (let pre = takeWhile (\<lambda>q. rc_readonly (fst q)) qs; post = dropWhile (\<lambda>q. rc_readonly (fst q)) qs;
          z1 = run_queue eff c pre (z\<lparr>q_out := (q_out z)(c := q_out z c @ [RMultiLen (int (length qs))])\<rparr>);
          z2 = (if post = [] then z1 else
                  let y = run_queue eff c post (z1\<lparr>q_ops := q_ops z1 @ [multi_op (q_db z1)]\<rparr>) in y\<lparr>q_dirty := q_dirty y + 1\<rparr>)
      in if q_dirty z < q_dirty z2
         then z2\<lparr>q_ops := q_ops z2 @ [\<lparr>op_dbid = q_db z2, op_argv = args, op_aof = True, op_repl = True\<rparr>]\<rparr> else z2)"

text \<open>The loop of \<open>EXEC\<close>, with the \<open>MULTI\<close> before the first command that is not read-only.\<close>

lemma exec_loop_split:
  assumes "minv s" "c \<in> set (ms_list s)" "\<forall>q\<in>set qs. plain_proc (rc_proc (fst q))" "m_watched (cl s c) = []"
    and "pre = takeWhile (\<lambda>q. rc_readonly (fst q)) qs" "post = dropWhile (\<lambda>q. rc_readonly (fst q)) qs" "z1 = run_queue eff c pre (absq s c)"
    and "exec_loop eff s c qs False = Some (s', must)"
  shows "must = (post \<noteq> []) \<and> stepr (- {c}) s s' \<and>
    absq s' c = (if post = [] then z1 else run_queue eff c post (z1\<lparr>q_ops := q_ops z1 @ [multi_op (q_db z1)]\<rparr>))"
proof -
  have qs: "qs = pre @ post" using assms(5,6) by simp
  have ro: "\<forall>q\<in>set pre. rc_readonly (fst q)" using assms(5) set_takeWhileD by fastforce
  obtain s1 where s1: "exec_loop eff s c pre False = Some (s1, False)" "stepr (- {c}) s s1" "absq s1 c = z1" "m_watched (cl s1 c) = []"
    using exec_loop_run [OF assms(1,2) _ assms(4), of pre False eff] ro assms(3) qs assms(7) by auto
  have lp: "exec_loop eff s1 c post False = Some (s', must)" using assms(8) s1(1) unfolding qs exec_loop_append by simp
  show ?thesis
  proof (cases post)
    case Nil
    then show ?thesis using lp s1 by simp
  next
    case (Cons q rest)
    have nro: "\<not> rc_readonly (fst q)" using assms(6) Cons by (metis hd_dropWhile list.distinct(1) list.sel(1))
    let ?t = "execCommandPropagateMulti s1 c"
    have t: "stepr (- {c}) s1 ?t" unfolding execCommandPropagateMulti_def by (rule stepr_propagate) (rule stepr_minv [OF s1(2)])
    then have mt: "minv ?t" "c \<in> set (ms_list ?t)" using s1(2) assms(2) by (simp_all add: stepr_def)
    have at: "absq ?t c = z1\<lparr>q_ops := q_ops z1 @ [multi_op (q_db z1)]\<rparr>" "m_watched (cl ?t c) = []"
      using s1(3,4) by (auto simp: execCommandPropagateMulti_def propagate_def absq_def)
    have "exec_loop eff s1 c post False = exec_loop eff ?t c post True" using Cons nro by (cases q) simp
    moreover obtain s2 where "exec_loop eff ?t c post True = Some (s2, True)" "stepr (- {c}) ?t s2" "absq s2 c = run_queue eff c post (absq ?t c)"
      using exec_loop_run [OF mt _ at(2), of post True eff] assms(3) qs by auto
    ultimately show ?thesis using lp at(1) stepr_trans [OF stepr_trans [OF s1(2) t]] Cons by auto
  qed
qed

lemma exec_loop_quiet:
  "exec_loop eff s c qs m = Some (s', m') \<Longrightarrow> ms_also s = [] \<Longrightarrow>
    ms_also s' = [] \<and> m_force_aof (cl s' c) = m_force_aof (cl s c) \<and> m_force_repl (cl s' c) = m_force_repl (cl s c)"
proof (induction qs arbitrary: s m)
  case (Cons q qs)
  obtain cmd args where q: "q = (cmd, args)" by fastforce
  let ?t = "if \<not> m \<and> \<not> rc_readonly cmd then execCommandPropagateMulti s c else s"
  have ct: "cl ?t c = cl s c" by (simp add: execCommandPropagateMulti_def propagate_def)
  obtain s1 where s1: "call_proc (\<lambda>s. run_proc eff s c cmd args) ?t c = Some s1" "exec_loop eff s1 c qs (m \<or> \<not> rc_readonly cmd) = Some (s', m')"
    using Cons.prems(1) q by (cases "\<not> m \<and> \<not> rc_readonly cmd") (auto simp: Option.bind_eq_Some_conv)
  have "ms_also s1 = []" "m_force_aof (cl s1 c) = m_force_aof (cl s c)" "m_force_repl (cl s1 c) = m_force_repl (cl s c)"
    using s1(1) ct by (auto simp: call_proc_def Option.bind_eq_Some_conv)
  then show ?case using Cons.IH [OF s1(2)] by simp
qed simp

lemma exec_runs:
  assumes "minv s" "c \<in> set (ms_list s)" "m_multi (cl s c)" "\<not> m_dirty_cas (cl s c)" "\<not> m_dirty_exec (cl s c)" "rc_proc cmd = PExec"
  shows "\<exists>s'. call eff s c cmd args = Some s' \<and> absq s' c = run_transaction eff c args (m_commands (cl s c)) (absq s c) \<and>
    \<not> m_multi (cl s' c) \<and> m_commands (cl s' c) = [] \<and> m_watched (cl s' c) = [] \<and> \<not> m_dirty_cas (cl s' c) \<and> \<not> m_dirty_exec (cl s' c)"
proof -
  let ?t = "call_begin s c" and ?q = "m_commands (cl s c)"
  have mt: "minv ?t" using stepr_minv [OF stepr_call_begin [OF assms(1), of UNIV c]] .
  have ct: "c \<in> set (ms_list ?t)" "m_multi (cl ?t c)" "\<not> m_dirty_cas (cl ?t c)" "\<not> m_dirty_exec (cl ?t c)" "m_commands (cl ?t c) = ?q" using assms(2-5) by simp_all
  obtain s2 s3 must s4 where x: "minv s2" "c \<in> set (ms_list s2)" "core s2 = core ?t"
    "\<And>d. cl s2 d = (if d = c then (cl ?t c)\<lparr>m_watched := [], m_out := m_out (cl ?t c) @ [RMultiLen (int (length ?q))]\<rparr> else cl ?t d)"
    "exec_loop eff s2 c ?q False = Some (s3, must)" "core s4 = core s3"
    "\<And>d. cl s4 d = (if d = c then (cl s3 c)\<lparr>m_commands := [], m_multi := False, m_dirty_cas := False, m_dirty_exec := False, m_watched := []\<rparr> else cl s3 d)"
    "execCommand eff ?t c = Some (if must then s4\<lparr>ms_dirty := ms_dirty s4 + 1\<rparr> else s4)"
    "\<forall>q\<in>set ?q. plain_proc (rc_proc (fst q))"
    by (rule exec_clean [OF mt ct(1-4), of eff]) (simp only: ct(5))
  note c2 = coreD [OF x(3)] and c4 = coreD [OF x(6)]
  have z0: "absq s2 c = (absq s c)\<lparr>q_out := (q_out (absq s c))(c := q_out (absq s c) c @ [RMultiLen (int (length ?q))])\<rparr>"
    by (rule absq_eqI) (simp_all add: absq_def c2 x(4))
  let ?z1 = "run_queue eff c (takeWhile (\<lambda>q. rc_readonly (fst q)) ?q) (absq s2 c)" and ?post = "dropWhile (\<lambda>q. rc_readonly (fst q)) ?q"
  have "m_watched (cl s2 c) = []" by (simp add: x(4))
  note sp = exec_loop_split [OF x(1,2,9) this refl refl refl x(5)]
  have q3: "ms_also s3 = []" "\<not> m_force_aof (cl s3 c)" "\<not> m_force_repl (cl s3 c)"
    using exec_loop_quiet [OF x(5)] c2(4) x(4) [of c] by simp_all
  let ?s5 = "if must then s4\<lparr>ms_dirty := ms_dirty s4 + 1\<rparr> else s4"
  let ?s' = "call_end (ms_dirty s) (cl s c) ?s5 c args"
  have "call eff s c cmd args = Some ?s'" using assms(6) x(8) by (simp add: call_def call_proc_def)
  moreover have "absq ?s' c = run_transaction eff c args ?q (absq s c)"
  proof -
    let ?z3 = "absq s3 c"
    have z5: "absq ?s5 c = (if must then ?z3\<lparr>q_dirty := q_dirty ?z3 + 1\<rparr> else ?z3)"
      by (rule absq_eqI) (simp_all add: absq_def c4 x(7))
    have "absq ?s' c = (let z = absq ?s5 c in if ms_dirty s < q_dirty z
        then z\<lparr>q_ops := q_ops z @ [\<lparr>op_dbid = q_db z, op_argv = args, op_aof = True, op_repl = True\<rparr>]\<rparr> else z)"
      by (rule absq_eqI) (use q3 in \<open>simp_all add: absq_def Let_def call_end_prop c4 x(7)\<close>)
    then show ?thesis using sp unfolding z5 run_transaction_def z0 [symmetric] Let_def by (simp add: absq_def)
  qed
  moreover have "\<not> m_multi (cl ?s' c) \<and> m_commands (cl ?s' c) = [] \<and> m_watched (cl ?s' c) = [] \<and> \<not> m_dirty_cas (cl ?s' c) \<and> \<not> m_dirty_exec (cl ?s' c)"
    by (simp add: x(7))
  ultimately show ?thesis by blast
qed

section \<open>Signals of a run, and \<open>EXEC\<close> that is aborted\<close>





text \<open>A command that \<open>processCommand\<close> lets through, by its procedure.\<close>

definition passes :: "(bytes \<Rightarrow> redisCommand option) \<Rightarrow> conds \<Rightarrow> bytes list \<Rightarrow> proc \<Rightarrow> bool" where
  "passes tbl k args p \<longleftrightarrow>
     \<not> strcaseis (hd args) ''quit'' \<and> refuse tbl k args = None \<and> (case tbl (hd args) of None \<Rightarrow> False | Some cmd \<Rightarrow> rc_proc cmd = p)"

text \<open>All that an aborted \<open>EXEC\<close> does is to answer and to end the transaction.\<close>

definition only_aborts :: "('v, 'w) mserver \<Rightarrow> ('v, 'w) mserver \<Rightarrow> cid \<Rightarrow> rop \<Rightarrow> bool" where
  "only_aborts s s' c r \<longleftrightarrow>
     ms_data s' = ms_data s \<and> ms_rest s' = ms_rest s \<and> ms_dirty s' = ms_dirty s \<and> ms_prop s' = ms_prop s \<and>
     (\<forall>x. ms_clients s' x = (if x = c then (ms_clients s c)\<lparr>m_out := m_out (ms_clients s c) @ [r], m_multi := False, m_commands := [],
        m_watched := [], m_dirty_cas := False, m_dirty_exec := False\<rparr> else ms_clients s x))"

lemma exec_aborts:
  assumes "minv s" "m_multi (cl s c)" "m_dirty_cas (cl s c) \<or> m_dirty_exec (cl s c)" "passes tbl k args PExec"
  shows "\<exists>s'. processCommand tbl eff s c k args = Some (s', True) \<and>
    only_aborts s s' c (if m_dirty_exec (cl s c) then line ''-EXECABORT Transaction discarded because of previous errors.'' else line ''*-1'')"
proof -
  let ?r = "if m_dirty_exec (cl s c) then line ''-EXECABORT Transaction discarded because of previous errors.'' else line ''*-1''"
  obtain cmd where cmd: "tbl (hd args) = Some cmd" "rc_proc cmd = PExec" "\<not> strcaseis (hd args) ''quit''" "refuse tbl k args = None"
    using assms(4) by (auto simp: passes_def split: option.splits)
  let ?t = "say (call_begin s c) c [?r]"
  have mt: "minv ?t" using stepr_minv [OF stepr_say [OF stepr_minv [OF stepr_call_begin [OF assms(1), of UNIV c]], of UNIV]] .
  obtain s1 where s1: "discardTransaction ?t c = Some s1" "core s1 = core ?t"
    "\<forall>d. cl s1 d = (if d = c then (cl ?t c)\<lparr>m_commands := [], m_multi := False, m_dirty_cas := False, m_dirty_exec := False, m_watched := []\<rparr> else cl ?t d)"
    using stepr_discard [OF mt, of c] by blast
  let ?s' = "call_end (ms_dirty s) (cl s c) s1 c args"
  have "execCommand eff (call_begin s c) c = Some s1" using assms(2,3) s1(1) by (simp add: execCommand_def Let_def)
  then have "processCommand tbl eff s c k args = Some (?s', True)" using assms(2) cmd by (simp add: processCommand_def call_def call_proc_def)
  moreover have "only_aborts s ?s' c ?r" using coreD [OF s1(2)] s1(3) by (simp add: only_aborts_def call_end_prop)
  ultimately show ?thesis by blast
qed

section \<open>Properties\<close>

definition new_mserver :: "'v data \<Rightarrow> 'w \<Rightarrow> cid list \<Rightarrow> ('v, 'w) mserver" where
  "new_mserver d r cs = \<lparr>ms_data = d, ms_rest = r, ms_watched = (\<lambda>_ _. None), ms_list = cs, ms_clients = (\<lambda>_. new_mclient), ms_dirty = 0,
     ms_also = [], ms_prop = []\<rparr>"

lemma new_mserver_minv: "minv (new_mserver d r cs)"
  by (simp add: minv_def winv_def watchers_def new_mserver_def new_mclient_def)

text \<open>
  C36. In any run of commands of any clients, with connections closed and keys expiring in
  between, no assertion fails, and the table of watched keys and the clients' lists agree in
  both directions.
\<close>

theorem watch_tables_agree:
  assumes "\<forall>e\<in>set es. event_ok tbl cs e"
  shows "\<exists>s. ofold (run_event tbl eff) (new_mserver d r cs) es = Some s \<and>
    (\<forall>db key c. (\<exists>l. ms_watched s db key = Some l \<and> c \<in> set l) \<longleftrightarrow> (db, key) \<in> set (m_watched (ms_clients s c))) \<and>
    (\<forall>db key l. ms_watched s db key = Some l \<longrightarrow> l \<noteq> [] \<and> distinct l)"
proof -
  obtain s where s: "ofold (run_event tbl eff) (new_mserver d r cs) es = Some s" "minv s"
    using run_events [OF new_mserver_minv, of es tbl d r cs eff] assms by (auto simp: new_mserver_def stepr_def)
  have mem: "c \<in> set (watchers s db key) \<longleftrightarrow> (db, key) \<in> set (m_watched (cl s c))" for db key c using s(2) by (simp add: minv_def winv_def)
  have "(\<exists>l. ms_watched s db key = Some l \<and> c \<in> set l) \<longleftrightarrow> (db, key) \<in> set (m_watched (cl s c))" for db key c
    unfolding mem [symmetric] by (cases "ms_watched s db key") (simp_all add: watchers_def)
  then show ?thesis using s by (auto simp: minv_def winv_def)
qed

text \<open>
  A small command table and data set for the examples: \<open>SET\<close>, \<open>GET\<close>, \<open>PUBLISH\<close> (read-only by its
  flags, forced to the replicas), \<open>SPOP\<close> (rewritten as \<open>SREM\<close>), \<open>SAVE\<close> (sets \<open>server.dirty\<close> to 0)
  and the transaction commands.
\<close>

definition cmd_of :: "proc \<Rightarrow> int \<Rightarrow> bool \<Rightarrow> redisCommand" where
  "cmd_of p n w = \<lparr>rc_name = [], rc_proc = p, rc_arity = n, rc_write = w, rc_readonly = \<not> w, rc_denyoom = w, rc_stale = False, rc_loading = False\<rparr>"

definition some_table :: "bytes \<Rightarrow> redisCommand option" where
  "some_table n = (if n = [109] then Some (cmd_of PMulti 1 False) else if n = [120] then Some (cmd_of PExec 1 False)
     else if n = [119] then Some (cmd_of PWatch (- 2) False) else if n = [115] then Some (cmd_of POther 3 True)
     else if n = [103] then Some (cmd_of POther 2 False) else None)"

definition some_effect :: "(bytes, unit) effect" where
  "some_effect r d n c db args =
     (let e = \<lparr>x_data = d, x_rest = r, x_dirty = n, x_db = db, x_signals = [], x_out = (\<lambda>x. if x = c then [line ''+OK''] else []),
        x_fed = [], x_aof = False, x_repl = False, x_also = [], x_argv = args\<rparr> in
      if hd args = [115] then e\<lparr>x_data := d(db := (d db)(args ! 1 := Some (args ! 2))), x_signals := [Modified db (args ! 1)], x_dirty := n + 1\<rparr>
      else if hd args = [112] then e\<lparr>x_repl := True\<rparr>
      else if hd args = [113] then e\<lparr>x_data := d(db := (d db)(args ! 1 := None)), x_signals := [Modified db (args ! 1)], x_dirty := n + 1,
        x_argv := [map of_char ''SREM'', args ! 1, [49]]\<rparr>
      else if hd args = [118] then e\<lparr>x_dirty := 0\<rparr>
      else e)"

definition no_conds :: conds where
  "no_conds = \<lparr>k_noauth = False, k_oom = False, k_diskerr = False, k_diskmsg = [], k_fewslaves = False, k_roslave = False, k_pubsub = False,
     k_masterdown = False, k_loading = False, k_luabusy = False\<rparr>"

theorem watch_tables_agree_witness:
  "\<exists>s. ofold (run_event some_table some_effect) (new_mserver (\<lambda>_ _. None) () [1, 2]) [Command 1 no_conds [[119], [107]], Expired 0 [107], Closed 1] = Some s \<and>
    (\<forall>db key c. (\<exists>l. ms_watched s db key = Some l \<and> c \<in> set l) \<longleftrightarrow> (db, key) \<in> set (m_watched (ms_clients s c)))"
  using watch_tables_agree [of "[Command 1 no_conds [[119], [107]], Expired 0 [107], Closed 1]" some_table "[1, 2]" some_effect "\<lambda>_ _. None" "()"]
  by (auto simp: event_ok_def)




lemma not_quit: "\<not> strcaseis [b] ''quit''"
  by (simp add: strcaseis_def)



text \<open>
  C35. \<open>EXEC\<close> of a transaction that is not flagged does what the queue run on the data set does,
  and ends the transaction: the queued commands run one after the other, each propagated
  with the arguments it leaves behind when it is forced or \<open>server.dirty\<close> grew, with a \<open>MULTI\<close>
  before the first one not flagged read-only; data set, rest of the state, \<open>server.dirty\<close>, selected
  database, the output of every client and all that is propagated are those of
  \<open>run_transaction\<close>.  The closing \<open>EXEC\<close> is propagated exactly when \<open>server.dirty\<close>, one more than the
  queue left it, is larger than before the transaction.
\<close>

theorem exec_runs_queue:
  assumes "minv s" "c \<in> set (ms_list s)" "m_multi (ms_clients s c)" "\<not> m_dirty_cas (ms_clients s c)" "\<not> m_dirty_exec (ms_clients s c)"
    and "rc_proc cmd = PExec"
  shows "\<exists>s'. call eff s c cmd args = Some s' \<and> absq s' c = run_transaction eff c args (m_commands (ms_clients s c)) (absq s c) \<and>
    \<not> m_multi (ms_clients s' c) \<and> m_commands (ms_clients s' c) = [] \<and> m_watched (ms_clients s' c) = [] \<and>
    \<not> m_dirty_cas (ms_clients s' c) \<and> \<not> m_dirty_exec (ms_clients s' c)"
  by (rule exec_runs [OF assms])

definition queued :: "int \<Rightarrow> multiCmd list \<Rightarrow> (bytes, unit) mserver" where
  "queued n qs = (upd (new_mserver (\<lambda>_ _. None) () [2, 3]) 2 (\<lambda>k. k\<lparr>m_multi := True, m_commands := qs\<rparr>))\<lparr>ms_dirty := n\<rparr>"

lemma queued_ok: "\<forall>q\<in>set qs. plain_proc (rc_proc (fst q)) \<Longrightarrow> minv (queued n qs)"
  "2 \<in> set (ms_list (queued n qs))" "m_multi (ms_clients (queued n qs) 2)" "\<not> m_dirty_cas (ms_clients (queued n qs) 2)"
  "\<not> m_dirty_exec (ms_clients (queued n qs) 2)" "m_commands (ms_clients (queued n qs) 2) = qs"
  "absq (queued n qs) 2 = \<lparr>q_data = (\<lambda>_ _. None), q_rest = (), q_dirty = n, q_db = 0, q_out = (\<lambda>_. []), q_ops = []\<rparr>"
  by (auto simp: queued_def new_mserver_def new_mclient_def upd_def minv_def winv_def watchers_def absq_def)

definition qSET :: multiCmd where "qSET = (cmd_of POther 3 True, [[115], [107], [50]])"
definition qPUBLISH :: multiCmd where "qPUBLISH = (cmd_of POther 3 False, [[112], [99], [109]])"
definition qSPOP :: multiCmd where "qSPOP = (cmd_of POther 2 True, [[113], [107]])"
definition qSAVE :: multiCmd where "qSAVE = (cmd_of POther 1 False, [[118]])"

lemma some_queue_plain: "\<forall>q\<in>set [qPUBLISH, qSPOP]. plain_proc (rc_proc (fst q))" "\<forall>q\<in>set [qSET, qSAVE]. plain_proc (rc_proc (fst q))"
  by (simp_all add: qSET_def qPUBLISH_def qSPOP_def qSAVE_def cmd_of_def plain_proc_def)

lemmas some_queue = run_transaction_def queue_step_def outcome_of_def call_ops_def some_effect_def Let_def qSET_def qPUBLISH_def qSPOP_def qSAVE_def cmd_of_def

theorem exec_runs_queue_witness:
  "(\<exists>s'. call some_effect (queued 0 [qPUBLISH, qSPOP]) 2 (cmd_of PExec 1 False) [[120]] = Some s' \<and>
     map op_argv (ms_prop s') = [[[112], [99], [109]], [map of_char ''MULTI''], [map of_char ''SREM'', [107], [49]], [[120]]] \<and>
     map op_aof (ms_prop s') = [False, True, True, True]) \<and>
   (\<exists>s'. call some_effect (queued 9 [qSET, qSAVE]) 2 (cmd_of PExec 1 False) [[120]] = Some s' \<and>
     map op_argv (ms_prop s') = [[map of_char ''MULTI''], [[115], [107], [50]]] \<and> ms_data s' 0 [107] = Some [50])"
proof -
  have p: "rc_proc (cmd_of PExec 1 False) = PExec" by (simp add: cmd_of_def)
  let ?z = "absq (queued 0 [qPUBLISH, qSPOP]) 2" and ?y = "absq (queued 9 [qSET, qSAVE]) 2"
  have z: "map op_argv (q_ops (run_transaction some_effect 2 [[120]] [qPUBLISH, qSPOP] ?z)) =
      [[[112], [99], [109]], [map of_char ''MULTI''], [map of_char ''SREM'', [107], [49]], [[120]]]"
    "map op_aof (q_ops (run_transaction some_effect 2 [[120]] [qPUBLISH, qSPOP] ?z)) = [False, True, True, True]"
    unfolding queued_ok(7) by (simp_all add: some_queue multi_op_def)
  have y: "map op_argv (q_ops (run_transaction some_effect 2 [[120]] [qSET, qSAVE] ?y)) = [[map of_char ''MULTI''], [[115], [107], [50]]]"
    "q_data (run_transaction some_effect 2 [[120]] [qSET, qSAVE] ?y) 0 [107] = Some [50]"
    unfolding queued_ok(7) by (simp_all add: some_queue multi_op_def)
  have f: "ms_prop s = q_ops (absq s 2)" "ms_data s = q_data (absq s 2)" for s :: "(bytes, unit) mserver" by (simp_all add: absq_def)
  show ?thesis
    using exec_runs_queue [OF queued_ok(1) [OF some_queue_plain(1)] queued_ok(2-5) p, of some_effect 0 "[[120]]"]
      exec_runs_queue [OF queued_ok(1) [OF some_queue_plain(2)] queued_ok(2-5) p, of some_effect 9 "[[120]]"]
    unfolding f queued_ok(6) using z y by metis
qed

text \<open>
  C37. A command that is refused with a flagged error inside \<open>MULTI\<close> is answered with its error and
  not queued; and whatever the clients do then, as long as the client does not end its
  transaction, its next \<open>EXEC\<close> runs and propagates nothing and answers \<open>EXECABORT\<close>.
\<close>

theorem refused_command_aborts:
  assumes "minv s" "c \<in> set (ms_list s)" "m_multi (ms_clients s c)" "\<not> strcaseis (hd args) ''quit''" "refuse tbl k args = Some (True, r)"
    and "\<forall>e\<in>set es. event_ok tbl (ms_list s) e \<and> event_open tbl c e" "passes tbl k' args' PExec"
  shows "\<exists>s1 s2 s3. processCommand tbl eff s c k args = Some (s1, True) \<and>
    m_out (ms_clients s1 c) = m_out (ms_clients s c) @ [r] \<and> m_commands (ms_clients s1 c) = m_commands (ms_clients s c) \<and>
    ofold (run_event tbl eff) s1 es = Some s2 \<and> processCommand tbl eff s2 c k' args' = Some (s3, True) \<and>
    only_aborts s2 s3 c (line ''-EXECABORT Transaction discarded because of previous errors.'')"
proof -
  let ?s1 = "say (flagTransaction s c) c [r]"
  have p: "processCommand tbl eff s c k args = Some (?s1, True)" using assms(4,5) by (simp add: processCommand_def)
  have m: "minv ?s1" using stepr_minv [OF stepr_say [OF stepr_minv [OF stepr_flag [OF assms(1), of UNIV c]], of UNIV]] .
  have f: "m_multi (cl ?s1 c)" "m_dirty_exec (cl ?s1 c)" "m_out (cl ?s1 c) = m_out (cl s c) @ [r]" "m_commands (cl ?s1 c) = m_commands (cl s c)"
    "ms_list ?s1 = ms_list s" using assms(3) by (simp_all add: flagTransaction_def)
  obtain s2 where s2: "ofold (run_event tbl eff) ?s1 es = Some s2" "stepr {c} ?s1 s2" using run_events_open [OF m f(1), of es tbl eff] assms(6) f(5) by auto
  then have o: "minv s2" "m_multi (cl s2 c)" "m_dirty_exec (cl s2 c)" using f(1,2) by (simp_all add: stepr_def pres_def)
  with exec_aborts [OF o(1,2) _ assms(7), of eff] p f(3,4) s2(1) show ?thesis by auto
qed

theorem refused_command_aborts_witness:
  "\<exists>s1 s2 s3. processCommand some_table some_effect (queued 0 [qSET]) 2 no_conds [[63]] = Some (s1, True) \<and>
     ofold (run_event some_table some_effect) s1 [Command 2 no_conds [[103], [107]], Command 3 no_conds [[115], [107], [51]]] = Some s2 \<and>
     processCommand some_table some_effect s2 2 no_conds [[120]] = Some (s3, True) \<and>
     only_aborts s2 s3 2 (line ''-EXECABORT Transaction discarded because of previous errors.'')"
proof -
  let ?es = "[Command 2 no_conds [[103], [107]], Command 3 no_conds [[115], [107], [51]]]"
  obtain r where r: "refuse some_table no_conds [[63]] = Some (True, r)" by (simp add: refuse_def some_table_def)
  have m: "minv (queued 0 [qSET])" by (rule queued_ok(1)) (simp add: qSET_def cmd_of_def plain_proc_def)
  have es: "\<forall>e\<in>set ?es. event_ok some_table (ms_list (queued 0 [qSET])) e \<and> event_open some_table 2 e"
    by (simp add: event_ok_def event_open_def some_table_def cmd_of_def queued_def new_mserver_def upd_def)
  have "passes some_table no_conds [[120]] PExec" "\<not> strcaseis (hd [[63]]) ''quit''"
    by (simp_all add: passes_def not_quit refuse_def some_table_def cmd_of_def no_conds_def)
  from refused_command_aborts [OF m queued_ok(2,3) this(2) r es this(1), of some_effect] show ?thesis by blast
qed



end
