(* ===== verification/DictScan.thy ===== *)
theory DictScan
  imports Dict "HOL-Library.Word"
begin

text \<open>
  The stateless iteration \<open>dictScan\<close> of \<open>dict.c\<close>.  The cursor is a 64-bit word that is
  incremented from its highest masked bit, by reversing its bits, so that an iteration can go
  on while the table is resized.  The calls of the callback are the list of entries it is
  called on.
\<close>

section \<open>Definitions\<close>

unbundle bit_operations_syntax

text \<open>The loop of \<open>rev\<close>: \<open>s\<close> is the width that is halved before each round.\<close>

function rev_loop :: "nat \<Rightarrow> 64 word \<Rightarrow> 64 word \<Rightarrow> 64 word" where
  "rev_loop s msk v =
     (let s = s div 2 in
      if s > 0 then
        let msk = msk XOR push_bit s msk
        in rev_loop s msk ((drop_bit s v AND msk) OR (push_bit s v AND NOT msk))
      else v)"
  by auto
termination by (relation "measure (\<lambda>(s, _, _). s)") auto

declare rev_loop.simps [simp del]

definition rev_bits :: "64 word \<Rightarrow> 64 word" where
  "rev_bits v = rev_loop 64 (- 1) v"

text \<open>The loop over the expansions of the cursor in the larger table.\<close>

partial_function (option) scan_expand ::
  "('k, 'v) chain list \<Rightarrow> 64 word \<Rightarrow> 64 word \<Rightarrow> 64 word \<Rightarrow> (('k \<times> 'v) list \<times> 64 word) option" where
  [code]: "scan_expand tb m0 m1 v =
     do {
       c \<leftarrow> rd tb (unat (v AND m1));
       let v = (((v OR m0) + 1) AND NOT m0) OR (v AND m0);
       if v AND (m0 XOR m1) \<noteq> 0 then do { (es, v) \<leftarrow> scan_expand tb m0 m1 v; Some (c @ es, v) }
       else Some (c, v)
     }"

definition dictScan :: "('k, 'v) dict \<Rightarrow> 64 word \<Rightarrow> (('k \<times> 'v) list \<times> 64 word) option" where
  "dictScan d v =
     (if dictSize d = 0 then Some ([], 0)
      else do {
        (es, v, m0) \<leftarrow>
          (if \<not> dictIsRehashing d then
             do {
               let m0 = word_of_nat (ht_sizemask (d_ht0 d));
               tb \<leftarrow> ht_table (d_ht0 d);
               c \<leftarrow> rd tb (unat (v AND m0));
               Some (c, v, m0)
             }
           else
             let (t0, t1) = (if ht_size (d_ht0 d) > ht_size (d_ht1 d) then (d_ht1 d, d_ht0 d) else (d_ht0 d, d_ht1 d)) in
             do {
               let m0 = word_of_nat (ht_sizemask t0);
               let m1 = word_of_nat (ht_sizemask t1);
               tb0 \<leftarrow> ht_table t0;
               c \<leftarrow> rd tb0 (unat (v AND m0));
               tb1 \<leftarrow> ht_table t1;
               (es, v) \<leftarrow> scan_expand tb1 m0 m1 v;
               Some (c @ es, v, m0)
             });
        let v = v OR NOT m0;
        let v = rev_bits v;
        let v = v + 1;
        Some (es, rev_bits v)
      })"

section \<open>Reversing the bits\<close>

definition flip :: "nat \<Rightarrow> nat \<Rightarrow> nat" where
  "flip s n = (if even (n div s) then n + s else n - s)"

text \<open>The mask of a round has the bits whose position has a zero at the round's width.\<close>

definition rev_mask :: "nat \<Rightarrow> 64 word \<Rightarrow> bool" where
  "rev_mask s msk \<longleftrightarrow> (\<forall>m<64. bit msk m \<longleftrightarrow> even (m div s))"

lemma rev_mask_half:
  assumes "rev_mask (2 * s) msk" "0 < s"
  shows "rev_mask s (msk XOR push_bit s msk)"
  unfolding rev_mask_def
proof (intro allI impI)
  fix m :: nat
  assume m: "m < 64"
  define q where "q = m div s"
  have d: "m div (2 * s) = q div 2" by (simp add: q_def div_mult2_eq mult.commute)
  have g: "m \<ge> s \<longleftrightarrow> 0 < q" using assms(2) by (simp add: q_def div_greater_zero_iff)
  have "(m - s) div s = q - 1" if "m \<ge> s" using that assms(2) by (simp add: q_def le_div_geq)
  then have e: "(m - s) div (2 * s) = (q - 1) div 2" if "m \<ge> s" using that by (simp add: div_mult2_eq mult.commute)
  have "even (q div 2) \<noteq> (0 < q \<and> even ((q - 1) div 2)) \<longleftrightarrow> even q" by presburger
  then show "bit (msk XOR push_bit s msk) m \<longleftrightarrow> even (m div s)"
    using assms(1) m d e g by (auto simp: rev_mask_def bit_simps q_def)
qed

lemma rev_round:
  assumes "rev_mask s msk" "n < 64" "0 < s"
  shows "bit ((drop_bit s v AND msk) OR (push_bit s v AND NOT msk)) n \<longleftrightarrow> bit (v :: 64 word) (flip s n)"
proof -
  have "s \<le> n" if "odd (n div s)" using that by (cases "n < s") auto
  then show ?thesis using assms by (auto simp: bit_simps ac_simps flip_def rev_mask_def)
qed

lemma flip_split: "flip s (2 * s * q + r) = (if r < s then 2 * s * q + (r + s) else 2 * s * q + (r - s))" if "0 < s" "r < 2 * s"
proof -
  have "(2 * s * q + r) div s = 2 * q + r div s" using that(1) by (simp add: mult.assoc mult.left_commute [of 2 s])
  moreover have "r div s = (if r < s then 0 else 1)" using that by (auto simp: div_eq_0_iff intro: div_nat_eqI)
  ultimately show ?thesis using that by (auto simp: flip_def)
qed

lemma flip_less:
  assumes "64 = 2 * s * c" "n < 64"
  shows "flip s n < 64"
proof -
  have s: "0 < s" using assms(1) by (cases s) auto
  define q r where "q = n div (2 * s)" and "r = n mod (2 * s)"
  have r: "r < 2 * s" "n = 2 * s * q + r" using s by (simp_all add: q_def r_def)
  have "2 * s * q < 2 * s * c" unfolding assms(1) [symmetric] using assms(2) r(2) by linarith
  then have "q + 1 \<le> c" by simp
  then have "2 * s * (q + 1) \<le> 2 * s * c" by (intro mult_le_mono) auto
  then have "2 * s * q + 2 * s \<le> 64" using assms(1) by (simp add: algebra_simps)
  then show ?thesis unfolding r(2) flip_split [OF s r(1)] using r(1) by auto
qed

lemma flips_induct:
  assumes "\<And>n. F n = s * (n div s) + (s - 1 - n mod s)" "0 < s"
  shows "flip s (F n) = 2 * s * (n div (2 * s)) + (2 * s - 1 - n mod (2 * s))"
proof -
  define q r where "q = n div (2 * s)" and "r = n mod (2 * s)"
  have r: "r < 2 * s" "n = 2 * s * q + r" using assms(2) by (simp_all add: q_def r_def)
  have nd: "n div s = 2 * q + r div s" "n mod s = r mod s" using assms(2) r(2) by (simp_all add: mult.assoc mult.left_commute [of 2 s])
  show ?thesis
  proof (cases "r < s")
    case True
    then have "F n = 2 * s * q + (s - 1 - r)" using nd by (simp add: assms(1) algebra_simps)
    then show ?thesis using flip_split [OF assms(2), of "s - 1 - r" q] True by (simp add: q_def [symmetric] r_def [symmetric])
  next
    case False
    then have "r div s = 1" "r mod s = r - s" using r(1) by (auto intro: div_nat_eqI simp: le_mod_geq)
    then have "F n = 2 * s * q + (s + (2 * s - 1 - r))" using nd False r(1) by (simp add: assms(1) algebra_simps)
    then show ?thesis using flip_split [OF assms(2), of "s + (2 * s - 1 - r)" q] False r(1) by (simp add: q_def [symmetric] r_def [symmetric])
  qed
qed

lemma flips: "n < 64 \<Longrightarrow> flip 32 (flip 16 (flip 8 (flip 4 (flip 2 (flip 1 n))))) = 63 - n"
proof -
  have 1: "flip 1 n = 2 * (n div 2) + (1 - n mod 2)" for n using flips_induct [of "\<lambda>n. n" 1 n] by simp
  have 2: "flip 2 (flip 1 n) = 4 * (n div 4) + (3 - n mod 4)" for n using flips_induct [of "flip 1" 2 n] 1 by simp
  have 3: "flip 4 (flip 2 (flip 1 n)) = 8 * (n div 8) + (7 - n mod 8)" for n
    using flips_induct [of "\<lambda>n. flip 2 (flip 1 n)" 4 n] 2 by simp
  have 4: "flip 8 (flip 4 (flip 2 (flip 1 n))) = 16 * (n div 16) + (15 - n mod 16)" for n
    using flips_induct [of "\<lambda>n. flip 4 (flip 2 (flip 1 n))" 8 n] 3 by simp
  have 5: "flip 16 (flip 8 (flip 4 (flip 2 (flip 1 n)))) = 32 * (n div 32) + (31 - n mod 32)" for n
    using flips_induct [of "\<lambda>n. flip 8 (flip 4 (flip 2 (flip 1 n)))" 16 n] 4 by simp
  show "n < 64 \<Longrightarrow> ?thesis"
    using flips_induct [of "\<lambda>n. flip 16 (flip 8 (flip 4 (flip 2 (flip 1 n))))" 32 n] 5 by simp
qed

lemma rev_loop_round:
  assumes "rev_mask (2 * s) msk" "0 < s"
  shows "\<exists>msk' w. rev_loop (2 * s) msk v = rev_loop s msk' w \<and> rev_mask s msk' \<and> (\<forall>n<64. bit w n \<longleftrightarrow> bit v (flip s n))"
proof -
  let ?m = "msk XOR push_bit s msk"
  have "rev_loop (2 * s) msk v = rev_loop s ?m ((drop_bit s v AND ?m) OR (push_bit s v AND NOT ?m))"
    using assms(2) by (subst rev_loop.simps) (simp add: Let_def)
  then show ?thesis using rev_mask_half [OF assms] rev_round [OF rev_mask_half [OF assms] _ assms(2)] by blast
qed

lemma rev_bits_reverse: "rev_bits v = word_reverse v"
proof (rule bit_word_eqI)
  fix n
  assume "n < LENGTH(64)"
  then have n: "n < 64" by simp
  have "rev_mask (2 * 32) (- 1)" by (simp add: rev_mask_def bit_simps)
  from rev_loop_round [OF this, of v] obtain m1 v1
    where 1: "rev_bits v = rev_loop 32 m1 v1" "rev_mask 32 m1" "\<forall>n<64. bit v1 n \<longleftrightarrow> bit v (flip 32 n)"
    by (auto simp: rev_bits_def)
  from rev_loop_round [of 16 m1 v1] 1(2) obtain m2 v2
    where 2: "rev_loop 32 m1 v1 = rev_loop 16 m2 v2" "rev_mask 16 m2" "\<forall>n<64. bit v2 n \<longleftrightarrow> bit v1 (flip 16 n)" by auto
  from rev_loop_round [of 8 m2 v2] 2(2) obtain m3 v3
    where 3: "rev_loop 16 m2 v2 = rev_loop 8 m3 v3" "rev_mask 8 m3" "\<forall>n<64. bit v3 n \<longleftrightarrow> bit v2 (flip 8 n)" by auto
  from rev_loop_round [of 4 m3 v3] 3(2) obtain m4 v4
    where 4: "rev_loop 8 m3 v3 = rev_loop 4 m4 v4" "rev_mask 4 m4" "\<forall>n<64. bit v4 n \<longleftrightarrow> bit v3 (flip 4 n)" by auto
  from rev_loop_round [of 2 m4 v4] 4(2) obtain m5 v5
    where 5: "rev_loop 4 m4 v4 = rev_loop 2 m5 v5" "rev_mask 2 m5" "\<forall>n<64. bit v5 n \<longleftrightarrow> bit v4 (flip 2 n)" by auto
  from rev_loop_round [of 1 m5 v5] 5(2) obtain m6 v6
    where 6: "rev_loop 2 m5 v5 = rev_loop 1 m6 v6" "\<forall>n<64. bit v6 n \<longleftrightarrow> bit v5 (flip 1 n)" by auto
  have "rev_bits v = v6" using 1(1) 2(1) 3(1) 4(1) 5(1) 6(1) by (simp add: rev_loop.simps [of "Suc 0"])
  moreover have "bit v6 n \<longleftrightarrow> bit v (63 - n)"
    unfolding flips [OF n, symmetric] using n 1(3) 2(3) 3(3) 4(3) 5(3) 6(2) by (simp add: flip_less [of 16 2] flip_less [of 8 4] flip_less [of 4 8] flip_less [of 2 16] flip_less [of 1 32] del: One_nat_def)
  ultimately show "bit (rev_bits v) n \<longleftrightarrow> bit (word_reverse v) n" using n by (simp add: bit_simps)
qed

section \<open>The order of the cursors\<close>

text \<open>The cursors are visited in the order of their reversed values.\<close>

definition rpos :: "64 word \<Rightarrow> nat" where
  "rpos v = unat (word_reverse v)"

lemma rpos_less: "rpos v < 2 ^ 64"
  using unsigned_less [of "word_reverse v"] by (simp add: rpos_def)

lemma rpos_0 [simp]: "rpos 0 = 0"
proof -
  have "word_reverse (0 :: 64 word) = 0" by (rule bit_word_eqI) (simp add: bit_simps)
  then show ?thesis by (simp add: rpos_def)
qed

lemma rpos_inj: "rpos v = rpos w \<longleftrightarrow> v = w"
  by (auto simp: rpos_def word_unat_eq_iff [symmetric] dest: word_rev_gal)

text \<open>Two words have the same low bits iff their positions are in the same block.\<close>

lemma rpos_block:
  assumes "b \<le> 64"
  shows "rpos v div 2 ^ (64 - b) = rpos w div 2 ^ (64 - b) \<longleftrightarrow> take_bit b v = take_bit b w"
proof -
  have "rpos v div 2 ^ (64 - b) = rpos w div 2 ^ (64 - b) \<longleftrightarrow> drop_bit (64 - b) (word_reverse v) = drop_bit (64 - b) (word_reverse w)"
    by (simp add: rpos_def drop_bit_eq_div [symmetric] word_unat_eq_iff unat_drop_bit_eq)
  also have "\<dots> \<longleftrightarrow> (\<forall>n<b. bit v n \<longleftrightarrow> bit w n)"
  proof
    assume e: "drop_bit (64 - b) (word_reverse v) = drop_bit (64 - b) (word_reverse w)"
    show "\<forall>n<b. bit v n \<longleftrightarrow> bit w n"
    proof (intro allI impI)
      fix n
      assume n: "n < b"
      from e have "bit (drop_bit (64 - b) (word_reverse v)) (b - 1 - n) \<longleftrightarrow> bit (drop_bit (64 - b) (word_reverse w)) (b - 1 - n)" by simp
      moreover have "63 - n < 64" by simp
      ultimately show "bit v n \<longleftrightarrow> bit w n" using n assms by (simp add: bit_simps)
    qed
  next
    assume e: "\<forall>n<b. bit v n \<longleftrightarrow> bit w n"
    show "drop_bit (64 - b) (word_reverse v) = drop_bit (64 - b) (word_reverse w)"
      by (rule bit_word_eqI) (use e assms in \<open>auto simp: bit_simps\<close>)
  qed
  also have "\<dots> \<longleftrightarrow> take_bit b v = take_bit b w"
    using assms by (auto simp: bit_eq_iff bit_simps) (metis order.strict_trans2)+
  finally show ?thesis .
qed

lemma or_mask_nat: "n OR mask j = n div 2 ^ j * 2 ^ j + (2 ^ j - 1)" for n :: nat
proof -
  have "n OR mask j = push_bit j (drop_bit j n) OR mask j" by (rule bit_eqI) (auto simp: bit_simps)
  also have "\<dots> = push_bit j (drop_bit j n) + mask j"
    by (rule disjunctive_add [symmetric]) (auto simp: bit_simps)
  finally show ?thesis by (simp add: push_bit_eq_mult drop_bit_eq_div mask_eq_exp_minus_1)
qed

lemma unat_mask_j: "j \<le> 64 \<Longrightarrow> unat (mask j :: 64 word) = mask j"
  by (rule bit_eqI) (auto simp: bit_simps)

lemma next_cursor:
  fixes v :: "64 word"
  assumes "b \<le> 64"
  defines "v' \<equiv> rev_bits (rev_bits (v OR NOT (mask b)) + 1)"
  shows "v' = 0 \<and> (rpos v div 2 ^ (64 - b) + 1) * 2 ^ (64 - b) = 2 ^ 64 \<or>
    rpos v' = (rpos v div 2 ^ (64 - b) + 1) * 2 ^ (64 - b) \<and> v' \<noteq> 0"
proof -
  let ?j = "64 - b" and ?x = "word_reverse v"
  have r: "word_reverse (v OR NOT (mask b)) = ?x OR mask ?j"
    by (rule bit_word_eqI) (use assms(1) in \<open>auto simp: bit_simps\<close>)
  then have v': "word_reverse v' = (?x OR mask ?j) + 1" by (simp add: v'_def rev_bits_reverse)
  have u: "unat (?x OR mask ?j) = rpos v div 2 ^ ?j * 2 ^ ?j + (2 ^ ?j - 1)"
    by (simp add: unsigned_or_eq unat_mask_j or_mask_nat rpos_def)
  then have u1: "unat (?x OR mask ?j) + 1 = (rpos v div 2 ^ ?j + 1) * 2 ^ ?j" by simp
  have "rpos v' = (unat (?x OR mask ?j) + 1) mod 2 ^ 64" by (simp add: rpos_def v' unat_word_ariths)
  moreover have "unat (?x OR mask ?j) + 1 \<le> 2 ^ 64" using unsigned_less [of "?x OR mask ?j", where 'a = nat] by simp
  ultimately consider "unat (?x OR mask ?j) + 1 = 2 ^ 64" "rpos v' = 0" | "rpos v' = unat (?x OR mask ?j) + 1"
    by (cases "unat (?x OR mask ?j) + 1 = 2 ^ 64") auto
  then show ?thesis
  proof cases
    case 1
    then show ?thesis using u1 rpos_inj [of v' 0] by simp
  next
    case 2
    then have "v' \<noteq> 0" by auto
    then show ?thesis using 2 u1 by simp
  qed
qed

section \<open>The loop over the expansions\<close>

lemma expand_step:
  fixes v :: "64 word"
  assumes "k < 64"
  shows "(((v OR mask k) + 1) AND NOT (mask k)) OR (v AND mask k) = v + 2 ^ k"
proof -
  let ?h = "v AND NOT (mask k)" and ?l = "v AND mask k"
  have vs: "v = ?h + ?l" by (subst disjunctive_add) (auto simp: bit_simps intro: bit_word_eqI)
  have "v OR mask k = ?h + mask k" by (subst disjunctive_add) (auto simp: bit_simps intro: bit_word_eqI)
  then have n: "(v OR mask k) + 1 = ?h + 2 ^ k" by (simp add: mask_eq_exp_minus_1)
  have "?h = push_bit k (drop_bit k v)" by (rule bit_word_eqI) (auto simp: bit_simps)
  then have p: "?h + 2 ^ k = push_bit k (drop_bit k v + 1)" by (simp add: push_bit_eq_mult algebra_simps)
  have "(?h + 2 ^ k) AND NOT (mask k) = ?h + 2 ^ k" unfolding p by (auto simp: bit_simps intro: bit_word_eqI)
  moreover have "(?h + 2 ^ k) OR ?l = (?h + 2 ^ k) + ?l"
    unfolding p by (subst disjunctive_add) (auto simp: bit_simps)
  moreover have "(?h + 2 ^ k) + ?l = v + 2 ^ k" by (subst (3) vs) (simp only: ac_simps)
  ultimately show ?thesis by (simp only: n)
qed

lemma unat_take_bit: "unat (take_bit k v) = unat v mod 2 ^ k" for v :: "64 word"
  by (simp only: unsigned_take_bit_eq take_bit_eq_mod [symmetric])

lemma and_mask_unat: "unat (v AND mask k) = unat v mod 2 ^ k" for v :: "64 word"
  by (simp only: take_bit_eq_mask [symmetric] unat_take_bit)

lemma unat_p2: "k < 64 \<Longrightarrow> unat (2 ^ k :: 64 word) = 2 ^ k"
  using unat_of_nat [of "2 ^ k", where 'a = 64] power_strict_increasing [of k 64 "2::nat"] by simp

lemma diff_bits:
  fixes v :: "64 word"
  assumes "k0 \<le> k1" "k1 < 64"
  shows "v AND (mask k0 XOR mask k1) = 0 \<longleftrightarrow> unat v mod 2 ^ k1 < 2 ^ k0"
proof -
  have e: "v AND (mask k0 XOR mask k1) = push_bit k0 (drop_bit k0 (take_bit k1 v))"
    by (rule bit_word_eqI) (use assms in \<open>auto simp: bit_simps\<close>)
  have "push_bit k0 (drop_bit k0 (take_bit k1 v)) = 0 \<longleftrightarrow> drop_bit k0 (take_bit k1 v) = 0"
  proof
    assume z: "push_bit k0 (drop_bit k0 (take_bit k1 v)) = 0"
    show "drop_bit k0 (take_bit k1 v) = 0"
    proof (rule bit_word_eqI)
      fix n
      have "\<not> bit (push_bit k0 (drop_bit k0 (take_bit k1 v))) (k0 + n)" using z by simp
      then show "bit (drop_bit k0 (take_bit k1 v)) n \<longleftrightarrow> bit (0 :: 64 word) n" using assms by (auto simp: bit_simps)
    qed
  qed simp
  also have "\<dots> \<longleftrightarrow> unat (drop_bit k0 (take_bit k1 v)) = 0" by (simp add: unat_eq_zero)
  also have "\<dots> \<longleftrightarrow> (unat v mod 2 ^ k1) div 2 ^ k0 = 0"
    by (simp only: unat_drop_bit_eq unat_take_bit drop_bit_eq_div [where 'a = nat])
  finally show ?thesis by (simp add: e div_eq_0_iff)
qed

text \<open>The loop visits the buckets with the low bits of the cursor from the cursor's own on.\<close>

lemma scan_expand_ok:
  fixes v :: "64 word"
  assumes "k0 \<le> k1" "k1 < 64" "length tb = 2 ^ k1"
  shows "\<exists>es v'. scan_expand tb (mask k0) (mask k1) v = Some (es, v') \<and> take_bit k0 v' = take_bit k0 v \<and>
    set es = (\<Union>i\<in>{i. unat v mod 2 ^ k1 \<le> i \<and> i < 2 ^ k1 \<and> i mod 2 ^ k0 = unat v mod 2 ^ k0}. set (tb ! i))"
proof (induction "2 ^ k1 - unat v mod 2 ^ k1" arbitrary: v rule: less_induct)
  case less
  let ?i = "unat v mod 2 ^ k1" and ?w = "v + 2 ^ k0 :: 64 word"
  let ?I = "\<lambda>v :: 64 word. {i. unat v mod 2 ^ k1 \<le> i \<and> i < 2 ^ k1 \<and> i mod 2 ^ k0 = unat v mod 2 ^ k0}"
  have k: "k0 < 64" "k1 \<le> 64" using assms by simp_all
  have dv: "(2::nat) ^ k0 dvd 2 ^ k1" "(2::nat) ^ k1 dvd 2 ^ 64" using assms by (intro le_imp_power_dvd, simp)+
  have uw: "unat ?w = (unat v + 2 ^ k0) mod 2 ^ 64" using unat_word_ariths(1) [of v "2 ^ k0"] unat_p2 [OF k(1)] by simp
  have w1: "unat ?w mod 2 ^ k1 = (?i + 2 ^ k0) mod 2 ^ k1" unfolding uw mod_mod_cancel [OF dv(2)] by (rule mod_add_left_eq [symmetric])
  have w0: "unat ?w mod 2 ^ k0 = unat v mod 2 ^ k0" unfolding uw mod_mod_cancel [OF dvd_trans [OF dv]] by simp
  have tk: "take_bit k0 ?w = take_bit k0 v" using w0 by (simp only: word_unat_eq_iff unat_take_bit)
  have i: "?i < 2 ^ k1" "?i mod 2 ^ k0 = unat v mod 2 ^ k0" using mod_mod_cancel [OF dv(1)] by simp_all
  have r: "rd tb (unat (v AND mask k1)) = Some (tb ! ?i)" using k(2) i(1) assms(3) by (simp add: and_mask_unat rd_in)
  note un = scan_expand.simps [of tb "mask k0" "mask k1" v, unfolded expand_step [OF k(1)] Let_def, unfolded r]
  show ?case
  proof (cases "?i + 2 ^ k0 < 2 ^ k1")
    case True
    then have wm: "unat ?w mod 2 ^ k1 = ?i + 2 ^ k0" using w1 by simp
    then have c: "?w AND (mask k0 XOR mask k1) \<noteq> 0" using diff_bits [OF assms(1,2), of ?w] by simp
    have "2 ^ k1 - unat ?w mod 2 ^ k1 < 2 ^ k1 - ?i" using wm True zero_less_power [of "2::nat" k0] by linarith
    from less [OF this] obtain es v' where ih: "scan_expand tb (mask k0) (mask k1) ?w = Some (es, v')" "take_bit k0 v' = take_bit k0 ?w"
      "set es = (\<Union>i\<in>?I ?w. set (tb ! i))" by blast
    have "?I v = insert ?i (?I ?w)"
    proof (intro equalityI subsetI)
      fix j
      assume j: "j \<in> ?I v"
      have "j = ?i \<or> ?i + 2 ^ k0 \<le> j"
      proof (cases "j < ?i + 2 ^ k0")
        case True
        have "2 ^ k0 dvd j - ?i" using j i(2) by (intro mod_eq_dvd_iff_nat [THEN iffD1]) auto
        moreover have "j - ?i < 2 ^ k0" using True j by auto
        ultimately have "j - ?i = 0" using dvd_imp_le by (metis gr0I leD)
        then show ?thesis using j by simp
      qed simp
      then show "j \<in> insert ?i (?I ?w)" using j wm w0 by auto
    next
      fix j
      assume "j \<in> insert ?i (?I ?w)"
      then show "j \<in> ?I v" using i wm w0 by auto
    qed
    then show ?thesis using ih c tk by (simp add: un)
  next
    case False
    have "unat ?w mod 2 ^ k1 < 2 ^ k0"
    proof -
      have "?i + 2 ^ k0 < 2 * 2 ^ k1" using i(1) assms(1) by (simp add: add_less_le_mono mult_2 power_increasing)
      then have "(?i + 2 ^ k0) mod 2 ^ k1 = ?i + 2 ^ k0 - 2 ^ k1" using False by (simp add: le_mod_geq)
      then show ?thesis using w1 i(1) zero_less_power [of "2::nat" k0] by linarith
    qed
    then have c: "?w AND (mask k0 XOR mask k1) = 0" using diff_bits [OF assms(1,2), of ?w] by simp
    have "?I v = {?i}"
    proof (intro equalityI subsetI)
      fix j
      assume j: "j \<in> ?I v"
      then have "2 ^ k0 dvd j - ?i" using i(2) by (intro mod_eq_dvd_iff_nat [THEN iffD1]) auto
      moreover have "j - ?i < 2 ^ k0" using False j by auto
      ultimately have "j - ?i = 0" using dvd_imp_le by (metis gr0I leD)
      then show "j \<in> {?i}" using j by simp
    qed (use i in auto)
    then show ?thesis using c tk by (simp add: un)
  qed
qed

section \<open>What a call returns\<close>

definition hash_word :: "('k, 'v) dictType \<Rightarrow> 'k \<Rightarrow> 64 word" where
  "hash_word T k = word_of_nat (dictHashKey T k)"

lemma unat_hash_word: "unat (hash_word T k) = dictHashKey T k"
  by (simp add: hash_word_def unat_of_nat dictHashKey_def u32_def)

lemma ht_ok_cases:
  assumes "ht_ok T ht" "ht_table ht = Some tb"
  obtains b where "b \<le> 31" "ht_size ht = 2 ^ b" "length tb = 2 ^ b" "word_of_nat (ht_sizemask ht) = (mask b :: 64 word)"
    "\<And>e. e \<in> set (tbl ht) \<Longrightarrow> e \<in> set (tb ! (dictHashKey T (fst e) mod 2 ^ b))"
    "\<And>i. i < 2 ^ b \<Longrightarrow> set (tb ! i) \<subseteq> set (tbl ht)"
proof -
  from assms obtain b where b: "b \<le> 31" "ht_size ht = 2 ^ b" "length tb = ht_size ht" "ht_sizemask ht = ht_size ht - 1"
    "\<forall>i<length tb. \<forall>e\<in>set (tb ! i). dictHashKey T (fst e) mod ht_size ht = i" by (auto simp: ht_ok_def)
  have "word_of_nat (ht_sizemask ht) = (mask b :: 64 word)"
    using b(2,4) by (simp add: mask_eq_exp_minus_1 of_nat_diff)
  moreover have "e \<in> set (tb ! (dictHashKey T (fst e) mod 2 ^ b))" if "e \<in> set (tbl ht)" for e
    using that b(2,5) assms(2) by (auto simp: tbl_def in_set_conv_nth [of _ tb])
  moreover have "set (tb ! i) \<subseteq> set (tbl ht)" if "i < 2 ^ b" for i
    using that b(2,3) assms(2) nth_mem [of i tb] by (auto simp: tbl_def simp del: nth_mem)
  ultimately show thesis using that [of b] b(1-3) by simp
qed

text \<open>
  What a call during rehashing needs, with \<open>a\<close> buckets in the smaller and \<open>b\<close> in the larger table:
  the cursor has none of the bits that only the larger table uses (\<open>v mod b < a\<close>), or the larger
  table is exactly twice the smaller one.  It holds as long as the tables grow, or shrink by half.
\<close>

definition scan_ok :: "('k, 'v) dict \<Rightarrow> 64 word \<Rightarrow> bool" where
  "scan_ok d v \<longleftrightarrow> (dictIsRehashing d \<longrightarrow>
     (let a = min (ht_size (d_ht0 d)) (ht_size (d_ht1 d)); b = max (ht_size (d_ht0 d)) (ht_size (d_ht1 d)) in
      unat v mod b < a \<or> b = 2 * a))"

definition scan_range :: "64 word \<Rightarrow> 64 word \<Rightarrow> 64 word \<Rightarrow> bool" where
  "scan_range v v' h \<longleftrightarrow> rpos v \<le> rpos h \<and> (v' = 0 \<or> rpos h < rpos v')"

lemma range_block:
  assumes "k \<le> 64" "v' = rev_bits (rev_bits (w OR NOT (mask k)) + 1)" "take_bit k w = take_bit k v" "scan_range v v' h"
  shows "take_bit k h = take_bit k v"
proof -
  let ?B = "(2::nat) ^ (64 - k)"
  have b: "rpos w div ?B = rpos v div ?B" using rpos_block [OF assms(1)] assms(3) by simp
  have "rpos h < (rpos v div ?B + 1) * ?B"
    using next_cursor [OF assms(1), of w] rpos_less [of h] assms(4) unfolding assms(2) [symmetric] b scan_range_def by auto
  then have "rpos h div ?B < rpos v div ?B + 1" by (simp only: div_less_iff_less_mult zero_less_power zero_less_numeral)
  moreover have "rpos v div ?B \<le> rpos h div ?B" using assms(4) by (intro div_le_mono) (simp add: scan_range_def)
  ultimately show ?thesis using rpos_block [OF assms(1), of h v] by simp
qed

lemma mod2_mono: "(a::nat) div 2 = b div 2 \<Longrightarrow> a \<le> b \<Longrightarrow> a mod 2 \<le> b mod 2"
  by presburger

lemma range_bit:
  assumes "k < 64" "take_bit k h = take_bit k v" "rpos v \<le> rpos h" "bit v k"
  shows "bit h k"
proof (rule ccontr)
  let ?C = "(2::nat) ^ (63 - k)"
  assume n: "\<not> bit h k"
  have b: "rpos x div ?C mod 2 = of_bool (bit x k)" for x
  proof -
    have "63 - k < 64" by simp
    then show ?thesis
      using assms(1) by (simp add: rpos_def drop_bit_eq_div [symmetric] mod_2_eq_odd even_drop_bit_iff_not_bit bit_simps)
  qed
  have "(2::nat) ^ (64 - k) = ?C * 2" using assms(1) by (simp flip: power_Suc2 Suc_diff_le)
  then have "rpos v div ?C div 2 = rpos h div ?C div 2" using rpos_block [of k v h] assms(1,2) by (simp add: div_mult2_eq)
  moreover have "rpos v div ?C \<le> rpos h div ?C" using assms(3) by (rule div_le_mono)
  ultimately have "rpos v div ?C mod 2 \<le> rpos h div ?C mod 2" by (rule mod2_mono)
  then show False using b [of v] b [of h] n assms(4) by simp
qed

lemma next_after:
  assumes "k \<le> 64" "v' = rev_bits (rev_bits (w OR NOT (mask k)) + 1)" "take_bit k w = take_bit k v"
  shows "v' = 0 \<or> rpos v < rpos v' \<and> 2 ^ (64 - k) dvd rpos v'"
proof -
  let ?B = "(2::nat) ^ (64 - k)"
  have b: "rpos w div ?B = rpos v div ?B" using rpos_block [OF assms(1)] assms(3) by simp
  have "rpos v < (rpos v div ?B + 1) * ?B" using dividend_less_div_times [of ?B "rpos v"] by simp
  then show ?thesis using next_cursor [OF assms(1), of w] unfolding assms(2) [symmetric] b by auto
qed

lemma bucket_hit:
  assumes "take_bit k (hash_word T x) = take_bit k v"
  shows "dictHashKey T x mod 2 ^ k = unat v mod 2 ^ k"
  using assms unat_take_bit [of k "hash_word T x"] unat_take_bit [of k v] by (simp only: unat_hash_word)

lemma scan_two:
  assumes "ht_ok T t0" "ht_ok T t1" "ht_table t0 = Some tb0" "ht_table t1 = Some tb1" "ht_size t0 \<le> ht_size t1"
  shows "\<exists>c es w v' k. rd tb0 (unat (v AND word_of_nat (ht_sizemask t0))) = Some c \<and>
    scan_expand tb1 (word_of_nat (ht_sizemask t0)) (word_of_nat (ht_sizemask t1)) v = Some (es, w) \<and>
    rev_bits (rev_bits (w OR NOT (word_of_nat (ht_sizemask t0))) + 1) = v' \<and>
    set c \<union> set es \<subseteq> set (tbl t0) \<union> set (tbl t1) \<and>
    (unat v mod ht_size t1 < ht_size t0 \<or> ht_size t1 = 2 * ht_size t0 \<longrightarrow>
       (\<forall>e\<in>set (tbl t0) \<union> set (tbl t1). scan_range v v' (hash_word T (fst e)) \<longrightarrow> e \<in> set c \<union> set es)) \<and>
    (v' = 0 \<or> rpos v < rpos v' \<and> 2 ^ (64 - k) dvd rpos v') \<and> ht_size t0 = 2 ^ k \<and> k \<le> 31"
proof -
  obtain k0 where t0: "k0 \<le> 31" "ht_size t0 = 2 ^ k0" "length tb0 = 2 ^ k0" "word_of_nat (ht_sizemask t0) = (mask k0 :: 64 word)"
    "\<And>e. e \<in> set (tbl t0) \<Longrightarrow> e \<in> set (tb0 ! (dictHashKey T (fst e) mod 2 ^ k0))" "\<And>i. i < 2 ^ k0 \<Longrightarrow> set (tb0 ! i) \<subseteq> set (tbl t0)"
    using ht_ok_cases [OF assms(1,3)] by metis
  obtain k1 where t1: "k1 \<le> 31" "ht_size t1 = 2 ^ k1" "length tb1 = 2 ^ k1" "word_of_nat (ht_sizemask t1) = (mask k1 :: 64 word)"
    "\<And>e. e \<in> set (tbl t1) \<Longrightarrow> e \<in> set (tb1 ! (dictHashKey T (fst e) mod 2 ^ k1))" "\<And>i. i < 2 ^ k1 \<Longrightarrow> set (tb1 ! i) \<subseteq> set (tbl t1)"
    using ht_ok_cases [OF assms(2,4)] by metis
  have k: "k0 \<le> k1" "k1 < 64" "k0 \<le> 64" "k0 < 64" using assms(5) t0(1,2) t1(1,2) by simp_all
  let ?I = "{i. unat v mod 2 ^ k1 \<le> i \<and> i < 2 ^ k1 \<and> i mod 2 ^ k0 = unat v mod 2 ^ k0}"
  obtain es w where sx: "scan_expand tb1 (mask k0) (mask k1) v = Some (es, w)" "take_bit k0 w = take_bit k0 v" "set es = (\<Union>i\<in>?I. set (tb1 ! i))"
    using scan_expand_ok [OF k(1,2) t1(3), of v] by blast
  let ?c = "tb0 ! (unat v mod 2 ^ k0)" and ?v = "rev_bits (rev_bits (w OR NOT (mask k0)) + 1)"
  have c: "rd tb0 (unat (v AND mask k0)) = Some ?c" using t0(3) by (simp add: and_mask_unat rd_in)
  have sub: "set ?c \<union> set es \<subseteq> set (tbl t0) \<union> set (tbl t1)" using t0(6) [of "unat v mod 2 ^ k0"] t1(6) sx(3) by fastforce
  have cov: "e \<in> set ?c \<union> set es"
    if ok: "unat v mod 2 ^ k1 < 2 ^ k0 \<or> (2::nat) ^ k1 = 2 * 2 ^ k0" and e: "e \<in> set (tbl t0) \<union> set (tbl t1)" "scan_range v ?v (hash_word T (fst e))" for e
  proof -
    let ?h = "hash_word T (fst e)"
    have b: "take_bit k0 ?h = take_bit k0 v" by (rule range_block [OF k(3) refl sx(2) e(2)])
    note m0 = bucket_hit [OF b]
    have "unat v mod 2 ^ k1 \<le> dictHashKey T (fst e) mod 2 ^ k1"
      using ok
    proof
      assume "unat v mod 2 ^ k1 < 2 ^ k0"
      moreover have "(2::nat) ^ k0 dvd 2 ^ k1" using k(1) by (rule le_imp_power_dvd)
      ultimately have "unat v mod 2 ^ k1 = unat v mod 2 ^ k0" by (metis mod_less mod_mod_cancel)
      also have "\<dots> = (dictHashKey T (fst e) mod 2 ^ k1) mod 2 ^ k0" using m0 \<open>2 ^ k0 dvd 2 ^ k1\<close> by (simp add: mod_mod_cancel)
      finally show ?thesis by simp
    next
      assume "(2::nat) ^ k1 = 2 * 2 ^ k0"
      then have k1: "k1 = Suc k0" by (metis power_Suc power_inject_exp one_less_numeral_iff semiring_norm(76))
      have "bit v k0 \<longrightarrow> bit ?h k0" using range_bit [OF k(4) b] e(2) by (simp add: scan_range_def)
      then have "bit (unat v) k0 \<longrightarrow> bit (dictHashKey T (fst e)) k0" using k(4) by (simp add: unat_hash_word [symmetric] bit_unsigned_iff)
      then have "unat v div 2 ^ k0 mod 2 \<le> dictHashKey T (fst e) div 2 ^ k0 mod 2" by (simp add: bit_iff_odd mod_2_eq_odd)
      then show ?thesis using m0 by (simp add: k1 mod_mult2_eq mult.commute [of 2])
    qed
    moreover have "dictHashKey T (fst e) mod 2 ^ k1 mod 2 ^ k0 = unat v mod 2 ^ k0" using m0 k(1) by (simp add: mod_mod_cancel le_imp_power_dvd)
    ultimately have "dictHashKey T (fst e) mod 2 ^ k1 \<in> ?I" by simp
    then show ?thesis using e(1) t0(5) [of e] t1(5) [of e] m0 sx(3) by auto
  qed
  have "?v = 0 \<or> rpos v < rpos ?v \<and> 2 ^ (64 - k0) dvd rpos ?v" by (rule next_after [OF k(3) refl sx(2)])
  then show ?thesis
    unfolding t0(2,4) t1(2,4) using c sx(1) sub cov t0(1)
    by (intro exI [of _ ?c] exI [of _ es] exI [of _ w] exI [of _ ?v] exI [of _ k0]) blast
qed

lemma dictScan_call:
  assumes "dict_inv T d"
  shows "\<exists>es v'. dictScan d v = Some (es, v') \<and> set es \<subseteq> set (entries d) \<and>
    (scan_ok d v \<longrightarrow> (\<forall>e\<in>set (entries d). scan_range v v' (hash_word T (fst e)) \<longrightarrow> e \<in> set es)) \<and>
    (v' = 0 \<or> rpos v < rpos v' \<and> (\<forall>K\<le>64. ht_size (d_ht0 d) \<le> 2 ^ K \<longrightarrow> 2 ^ (64 - K) dvd rpos v'))"
proof (cases "dictSize d = 0")
  case True
  have "length (entries d) \<le> DICT_CAP" using assms by (simp add: dict_inv_def)
  moreover have "length (entries d) = ht_used (d_ht0 d) + ht_used (d_ht1 d)"
    using assms by (auto simp: dict_inv_def entries_def ht_ok_def tbl_def dictReset_def split: option.splits)
  ultimately have "entries d = []" using True by (simp add: dictSize_def u64_def DICT_CAP_def)
  then show ?thesis using True by (simp add: dictScan_def)
next
  case False
  show ?thesis
  proof (cases "dictIsRehashing d")
    case True
    then obtain tb tb' where t: "ht_table (d_ht0 d) = Some tb" "ht_table (d_ht1 d) = Some tb'" "ht_ok T (d_ht0 d)" "ht_ok T (d_ht1 d)"
      using assms by (auto simp: dict_inv_def)
    let ?sw = "ht_size (d_ht0 d) > ht_size (d_ht1 d)"
    let ?t0 = "if ?sw then d_ht1 d else d_ht0 d" and ?t1 = "if ?sw then d_ht0 d else d_ht1 d"
    let ?b0 = "if ?sw then tb' else tb" and ?b1 = "if ?sw then tb else tb'"
    have "ht_ok T ?t0" "ht_ok T ?t1" "ht_table ?t0 = Some ?b0" "ht_table ?t1 = Some ?b1" "ht_size ?t0 \<le> ht_size ?t1" using t by simp_all
    from scan_two [OF this, of v] obtain c es w v' k where
      r: "rd ?b0 (unat (v AND word_of_nat (ht_sizemask ?t0))) = Some c"
        "scan_expand ?b1 (word_of_nat (ht_sizemask ?t0)) (word_of_nat (ht_sizemask ?t1)) v = Some (es, w)"
        "rev_bits (rev_bits (w OR NOT (word_of_nat (ht_sizemask ?t0))) + 1) = v'"
        "set c \<union> set es \<subseteq> set (tbl ?t0) \<union> set (tbl ?t1)"
        "unat v mod ht_size ?t1 < ht_size ?t0 \<or> ht_size ?t1 = 2 * ht_size ?t0 \<longrightarrow>
          (\<forall>e\<in>set (tbl ?t0) \<union> set (tbl ?t1). scan_range v v' (hash_word T (fst e)) \<longrightarrow> e \<in> set c \<union> set es)"
        "v' = 0 \<or> rpos v < rpos v' \<and> 2 ^ (64 - k) dvd rpos v'" "ht_size ?t0 = 2 ^ k" "k \<le> 31" by blast
    have "(if ?sw then (d_ht1 d, d_ht0 d) else (d_ht0 d, d_ht1 d)) = (?t0, ?t1)" "ht_table ?t0 = Some ?b0" "ht_table ?t1 = Some ?b1"
      using t by simp_all
    then have ds: "dictScan d v = Some (c @ es, v')"
      unfolding dictScan_def using False True r(1-3) by (simp only: Let_def prod.case if_False if_True not_True_eq_False bind.bind_lunit)
    have en: "set (entries d) = set (tbl ?t0) \<union> set (tbl ?t1)" by (auto simp: entries_def)
    have "scan_ok d v \<longrightarrow> unat v mod ht_size ?t1 < ht_size ?t0 \<or> ht_size ?t1 = 2 * ht_size ?t0" using True by (simp add: scan_ok_def Let_def min_def max_def)
    moreover have "2 ^ (64 - K) dvd (2::nat) ^ (64 - k)" if "K \<le> 64" "ht_size (d_ht0 d) \<le> 2 ^ K" for K
    proof -
      have "ht_size ?t0 \<le> ht_size (d_ht0 d)" by simp
      then have "(2::nat) ^ k \<le> 2 ^ K" unfolding r(7) [symmetric] using that(2) by (rule order_trans)
      then show ?thesis by (intro le_imp_power_dvd) simp
    qed
    ultimately show ?thesis using r(4-6) unfolding ds en by (intro exI [of _ "c @ es"] exI [of _ v']) (auto intro: dvd_trans)
  next
    case nr: False
    have i: "ht_ok T (d_ht0 d)" "d_ht1 d = dictReset" using assms nr by (simp_all add: dict_inv_def)
    obtain tb where tb: "ht_table (d_ht0 d) = Some tb"
      using False i by (cases "ht_table (d_ht0 d)") (auto simp: ht_ok_def dictSize_def dictReset_def u64_def)
    obtain k where t: "k \<le> 31" "ht_size (d_ht0 d) = 2 ^ k" "length tb = 2 ^ k" "word_of_nat (ht_sizemask (d_ht0 d)) = (mask k :: 64 word)"
      "\<And>e. e \<in> set (tbl (d_ht0 d)) \<Longrightarrow> e \<in> set (tb ! (dictHashKey T (fst e) mod 2 ^ k))" "\<And>i. i < 2 ^ k \<Longrightarrow> set (tb ! i) \<subseteq> set (tbl (d_ht0 d))"
      using ht_ok_cases [OF i(1) tb] by metis
    let ?c = "tb ! (unat v mod 2 ^ k)" and ?v = "rev_bits (rev_bits (v OR NOT (mask k)) + 1)"
    have ds: "dictScan d v = Some (?c, ?v)"
      using False nr tb t(3,4) by (simp add: dictScan_def Let_def and_mask_unat rd_in)
    have en: "set (entries d) = set (tbl (d_ht0 d))" using i(2) by (simp add: entries_def tbl_def dictReset_def)
    have "e \<in> set ?c" if "e \<in> set (entries d)" "scan_range v ?v (hash_word T (fst e))" for e
      using that t(5) [of e] bucket_hit [OF range_block [OF _ refl refl that(2)]] t(1) en by simp
    moreover have "2 ^ (64 - K) dvd (2::nat) ^ (64 - k)" if "K \<le> 64" "ht_size (d_ht0 d) \<le> 2 ^ K" for K
      using that t(2) by (intro le_imp_power_dvd) simp
    moreover have "?v = 0 \<or> rpos v < rpos ?v \<and> 2 ^ (64 - k) dvd rpos ?v" using t(1) by (intro next_after [OF _ refl refl]) simp
    ultimately show ?thesis unfolding ds using t(6) [of "unat v mod 2 ^ k"] en by (auto intro: dvd_trans)
  qed
qed











section \<open>Properties\<close>

text \<open>A whole iteration: the calls on the states the dictionary has at the time of the calls.\<close>

fun scan_calls :: "('k, 'v) dict list \<Rightarrow> 64 word \<Rightarrow> (('k \<times> 'v) list \<times> 64 word) option" where
  "scan_calls [] v = Some ([], v)"
| "scan_calls (d # ds) v = do { (es, v) \<leftarrow> dictScan d v; (es', v) \<leftarrow> scan_calls ds v; Some (es @ es', v) }"

fun scans_ok :: "('k, 'v) dict list \<Rightarrow> 64 word \<Rightarrow> bool" where
  "scans_ok [] v = True"
| "scans_ok (d # ds) v = (scan_ok d v \<and> (case dictScan d v of None \<Rightarrow> True | Some (es, v) \<Rightarrow> scans_ok ds v))"

definition keys_of :: "('k, 'v) dict \<Rightarrow> 'k set" where
  "keys_of d = fst ` set (entries d)"

lemma scan_calls_cover:
  assumes "\<forall>d\<in>set ds. dict_inv T d \<and> k \<in> keys_of d"
  shows "scans_ok ds v \<Longrightarrow> ds \<noteq> [] \<Longrightarrow> rpos v \<le> rpos (hash_word T k) \<Longrightarrow>
    \<exists>es v'. scan_calls ds v = Some (es, v') \<and> (v' = 0 \<longrightarrow> k \<in> fst ` set es)"
  using assms
proof (induction ds arbitrary: v)
  case (Cons d ds)
  obtain es1 v1 where s: "dictScan d v = Some (es1, v1)"
    "\<forall>e\<in>set (entries d). scan_range v v1 (hash_word T (fst e)) \<longrightarrow> e \<in> set es1"
    using dictScan_call [of T d v] Cons.prems(1,4) by auto
  have total: "\<exists>es v'. scan_calls ds v = Some (es, v')" for v
    using Cons.prems(4)
  proof (induction ds arbitrary: v)
    case (Cons d' ds)
    obtain es v' where "dictScan d' v = Some (es, v')" using dictScan_call [of T d' v] Cons.prems by auto
    then show ?case using Cons.IH [of v'] Cons.prems by auto
  qed simp
  obtain e where e: "e \<in> set (entries d)" "fst e = k" using Cons.prems(4) by (auto simp: keys_of_def)
  show ?case
  proof (cases "v1 = 0 \<or> rpos (hash_word T k) < rpos v1")
    case True
    then have "k \<in> fst ` set es1" using s(2) e Cons.prems(3) by (force simp: scan_range_def)
    moreover obtain es v' where "scan_calls ds v1 = Some (es, v')" using total by blast
    ultimately show ?thesis using s(1) by (simp add: image_Un)
  next
    case False
    have ok: "scans_ok ds v1" using Cons.prems(1) s(1) by simp
    show ?thesis
    proof (cases ds)
      case Nil
      then show ?thesis using False s(1) by simp
    next
      case (Cons d' ds')
      then obtain es v' where "scan_calls ds v1 = Some (es, v')" "v' = 0 \<longrightarrow> k \<in> fst ` set es"
        using Cons.IH [OF ok] False Cons.prems(4) by auto
      then show ?thesis using s(1) by (auto simp: image_Un)
    qed
  qed
qed simp

lemma scans_grow:
  assumes "\<forall>d\<in>set ds. dict_inv T d \<and> ht_size (d_ht0 d) \<le> 2 ^ K" "K \<le> 64" "length ds \<le> n"
  shows "rpos v \<ge> m * 2 ^ (64 - K) \<Longrightarrow> (\<exists>j. 0 < j \<and> j \<le> length ds \<and> (\<exists>es. scan_calls (take j ds) v = Some (es, 0))) \<or>
    (\<exists>es v'. scan_calls ds v = Some (es, v') \<and> rpos v' \<ge> (m + length ds) * 2 ^ (64 - K))"
  using assms(1,3)
proof (induction ds arbitrary: v m)
  case (Cons d ds)
  let ?B = "(2::nat) ^ (64 - K)"
  obtain es1 v1 where s: "dictScan d v = Some (es1, v1)" "v1 = 0 \<or> rpos v < rpos v1 \<and> ?B dvd rpos v1"
    using dictScan_call [of T d v] Cons.prems(2) assms(2) by auto
  show ?case
  proof (cases "v1 = 0")
    case True
    then have "scan_calls (take 1 (d # ds)) v = Some (es1, 0)" using s(1) by simp
    then show ?thesis by (intro disjI1 exI [of _ 1]) auto
  next
    case False
    then obtain q where q: "rpos v1 = q * ?B" using s(2) by (metis dvd_div_mult_self)
    have "m * ?B < q * ?B" using s(2) False Cons.prems(1) unfolding q by linarith
    then have "Suc m \<le> q" by simp
    then have "Suc m * ?B \<le> rpos v1" unfolding q(1) by (rule mult_le_mono1)
    from Cons.IH [OF this] Cons.prems(2,3) consider
      (a) j es where "0 < j" "j \<le> length ds" "scan_calls (take j ds) v1 = Some (es, 0)" |
      (b) es v' where "scan_calls ds v1 = Some (es, v')" "rpos v' \<ge> (Suc m + length ds) * ?B" by auto
    then show ?thesis
    proof cases
      case a
      then have "scan_calls (take (Suc j) (d # ds)) v = Some (es1 @ es, 0)" using s(1) by simp
      then show ?thesis using a(2) by (intro disjI1 exI [of _ "Suc j"]) auto
    next
      case b
      then show ?thesis using s(1) by (intro disjI2) (simp add: algebra_simps)
    qed
  qed
qed simp

text \<open>
  C3. A full iteration returns every key that is in the dictionary all the time, whatever happens
  to the dictionary between the calls, as long as at every call during rehashing the cursor has
  none of the bits that only the larger table uses, or the larger table is exactly twice the
  smaller one.
\<close>

theorem dictScan_returns_all:
  assumes "ds \<noteq> []" "\<forall>d\<in>set ds. dict_inv T d \<and> k \<in> keys_of d" "scans_ok ds 0"
  shows "\<exists>es v. scan_calls ds 0 = Some (es, v) \<and> (v = 0 \<longrightarrow> k \<in> fst ` set es)"
  using scan_calls_cover [OF assms(2,3,1)] by simp

text \<open>
  C4. An iteration ends: whatever the states of the dictionary are, when no table has more than
  \<open>2\<^sup>K\<close> buckets the cursor is back at zero after at most \<open>2\<^sup>K\<close> calls.
\<close>

theorem dictScan_terminates:
  assumes "\<forall>d\<in>set ds. dict_inv T d \<and> ht_size (d_ht0 d) \<le> 2 ^ K" "K \<le> 64" "length ds = 2 ^ K"
  shows "\<exists>j es. 0 < j \<and> j \<le> 2 ^ K \<and> scan_calls (take j ds) 0 = Some (es, 0)"
proof -
  have "(2::nat) ^ K * 2 ^ (64 - K) = 2 ^ 64" using assms(2) by (simp add: power_add [symmetric])
  then have "\<not> rpos v \<ge> (0 + length ds) * 2 ^ (64 - K)" for v using rpos_less [of v] unfolding assms(3) by simp
  then show ?thesis using scans_grow [OF assms(1,2) order_refl, of 0 0] unfolding assms(3) by auto
qed

text \<open>A dictionary of sixteen buckets with one key of hash 4, and the same after \<open>dictResize\<close> to four buckets.\<close>

definition nat_type :: "(nat, nat) dictType" where
  "nat_type = plainType (\<lambda>k. k)"

definition sixteen :: "(nat, nat) dict" where
  "sixteen = \<lparr>d_ht0 = \<lparr>ht_table = Some ((replicate 16 [])[4 := [(4, 0)]]), ht_size = 16, ht_sizemask = 15, ht_used = 1\<rparr>,
     d_ht1 = dictReset, d_rehashidx = - 1, d_iterators = 0\<rparr>"

definition shrinking :: "(nat, nat) dict" where
  "shrinking = sixteen\<lparr>d_ht1 := \<lparr>ht_table = Some (replicate 4 []), ht_size = 4, ht_sizemask = 3, ht_used = 0\<rparr>, d_rehashidx := 0\<rparr>"

lemma next_power_loop: "dictNextPower_loop 4 4 = Some 4" "dictNextPower_loop 4 16 = Some 16"
  by (simp_all add: dictNextPower_loop.simps u64_def)

lemma sixteen_made:
  "dictExpand dictCreate 16 \<bind> (\<lambda>(d, _). dictAdd nat_type True 0 d 4 0) = Some (sixteen, DICT_OK)"
  by (simp add: dictExpand_def dictNextPower_def LONG_MAX_nat_def next_power_loop DICT_HT_INITIAL_SIZE_def dictCreate_def dictReset_def
      dictIsRehashing_def Let_def dictAdd_def dictAddRaw_def dictKeyIndex_def dictExpandIfNeeded_def bucket_def get_ht_def put_ht_def
      nat_type_def dictHashKey_def rd_def wr_def u32_def u64_def sgn_of_def dup_key_def dup_val_def dictSetVal_def get_entry_def put_entry_def sixteen_def plainType_def)

lemma shrinking_made: "dictResize True sixteen = Some (shrinking, DICT_OK)"
  by (simp add: dictResize_def sixteen_def shrinking_def dictIsRehashing_def sgn_of_def DICT_HT_INITIAL_SIZE_def Let_def dictExpand_def
      dictNextPower_def LONG_MAX_nat_def next_power_loop u64_def)

lemma rev_not_mask: "k \<le> 64 \<Longrightarrow> rev_bits (NOT (mask k)) = mask (64 - k)"
  unfolding rev_bits_reverse by (rule bit_word_eqI) (auto simp: bit_simps)

lemma rev_pow: "k < 64 \<Longrightarrow> rev_bits (2 ^ k) = 2 ^ (63 - k)"
  unfolding rev_bits_reverse by (rule bit_word_eqI) (auto simp: bit_simps)

lemma rev_not: "rev_bits (NOT v) = NOT (rev_bits v)"
  unfolding rev_bits_reverse by (rule bit_word_eqI) (auto simp: bit_simps)

lemma rev_zero: "rev_bits 0 = 0"
  unfolding rev_bits_reverse by (rule bit_word_eqI) (auto simp: bit_simps)

lemma rev_values: "rev_bits (- 16) = 1152921504606846975" "rev_bits 1152921504606846976 = 8"
  "rev_bits (- 4) = 4611686018427387903" "rev_bits 4611686018427387904 = 2"
  "rev_bits (- 2) = 9223372036854775807" "rev_bits 9223372036854775808 = 1"
  "rev_bits (- 3) = - 4611686018427387905" "rev_bits (- 4611686018427387904) = 3" "rev_bits (- 1) = - 1"
  using rev_not_mask [of 4] rev_pow [of 60] rev_not_mask [of 2] rev_pow [of 62] rev_not_mask [of 1] rev_pow [of 63]
    rev_not [of 2] rev_pow [of 1] rev_not_mask [of 62] rev_not_mask [of 0]
  by (simp_all add: mask_numeral)

lemmas scan_eval = dictScan_def dictSize_def dictIsRehashing_def sixteen_def shrinking_def dictReset_def u64_def Let_def rd_def
  scan_expand.simps rev_values rev_zero

lemma missed_calls: "dictScan sixteen 0 = Some ([], 8)" "dictScan shrinking 8 = Some ([], 2)" "dictScan shrinking 2 = Some ([], 1)"
  "dictScan shrinking 1 = Some ([], 3)" "dictScan shrinking 3 = Some ([], 0)"
  by (simp_all add: scan_eval)

lemma sixteen_inv: "dict_inv nat_type sixteen" "dict_inv nat_type shrinking"
proof -
  have c: "dict_inv nat_type (dictCreate :: (nat, nat) dict)" "entries (dictCreate :: (nat, nat) dict) = []"
    using dictCreate_rep [of nat_type] by (simp_all add: dict_rep_def entries_def tbl_def dictCreate_def dictReset_def)
  have "\<not> dictIsRehashing (dictCreate :: (nat, nat) dict)" "ht_used (d_ht0 (dictCreate :: (nat, nat) dict)) \<le> 16"
    by (simp_all add: dictIsRehashing_def dictCreate_def dictReset_def)
  from dictExpand_ok [OF c(1) this] obtain d :: "(nat, nat) dict"
    where d: "dictExpand dictCreate 16 = Some (d, DICT_OK)" "dict_inv nat_type d" "entries d = []" using c(2) by auto
  then have "dict_rep nat_type d (lookup nat_type [])" by (simp add: dict_rep_def)
  from dictAdd_rep [OF _ this, of True 0 4 0] d(3) obtain d' m where "dictAdd nat_type True 0 d 4 0 = Some (d', m)" "dict_inv nat_type d'"
    by (auto simp: nat_type_def plainType_ok dict_rep_def DICT_CAP_def)
  then show i: "dict_inv nat_type sixteen" using sixteen_made d(1) by simp
  have "\<not> dictIsRehashing sixteen" "ht_used (d_ht0 sixteen) \<le> 4" by (simp_all add: dictIsRehashing_def sixteen_def)
  from dictExpand_ok [OF i this] obtain d2 where "dictExpand sixteen 4 = Some (d2, DICT_OK)" "dict_inv nat_type d2" by auto
  moreover have "dictResize True sixteen = dictExpand sixteen 4"
    by (simp add: dictResize_def dictIsRehashing_def sgn_of_def DICT_HT_INITIAL_SIZE_def sixteen_def Let_def)
  ultimately show "dict_inv nat_type shrinking" using shrinking_made by simp
qed

lemma four_present: "4 \<in> keys_of sixteen" "4 \<in> keys_of shrinking"
  using set_update_memI [of 4 "replicate 16 []" "[(4, 0)] :: (nat \<times> nat) list"]
  by (force simp: keys_of_def entries_def tbl_def sixteen_def shrinking_def dictReset_def)+

theorem dictScan_returns_all_witness:
  "\<exists>es. scan_calls [shrinking, shrinking, shrinking, shrinking] 0 = Some (es, 0) \<and> 4 \<in> fst ` set es"
proof -
  let ?ds = "[shrinking, shrinking, shrinking, shrinking]"
  have ok: "unat v < 4 \<Longrightarrow> scan_ok shrinking v" for v by (simp add: scan_ok_def shrinking_def sixteen_def Let_def)
  have c: "dictScan shrinking 0 = Some ([(4, 0)], 2)" by (simp add: scan_eval)
  have "scans_ok ?ds 0" using ok [of 0] ok [of 1] ok [of 2] ok [of 3] c missed_calls by simp
  from dictScan_returns_all [OF _ _ this, of nat_type 4] show ?thesis using sixteen_inv four_present c missed_calls by simp
qed

theorem dictScan_terminates_witness:
  "\<exists>j es. 0 < j \<and> j \<le> 2 ^ 4 \<and> scan_calls (take j (replicate 16 sixteen)) 0 = Some (es, 0)"
  using dictScan_terminates [of "replicate 16 sixteen" nat_type 4] sixteen_inv by (simp add: sixteen_def)







end
