(* ===== verification/DictIter.thy ===== *)
theory DictIter
  imports Dict
begin

text \<open>
  The rest of \<open>dict.c\<close>: the hash functions, iterators with the fingerprint that detects misuse,
  and random entries.  A pointer to an entry is the part of its chain that starts there, so that
  an iterator keeps the entry to go on with when the current one is deleted.  The addresses of the
  two tables, which only the fingerprint uses, are the argument \<open>adr\<close>; the results of \<open>random()\<close>
  are the argument \<open>rs\<close>.
\<close>

section \<open>Hash functions\<close>

text \<open>Thomas Wang's mix of 32 bits.\<close>

definition dictIntHashFunction :: "32 word \<Rightarrow> 32 word" where
  "dictIntHashFunction key =
     (let key = key + NOT (push_bit 15 key);
          key = key XOR drop_bit 10 key;
          key = key + push_bit 3 key;
          key = key XOR drop_bit 6 key;
          key = key + NOT (push_bit 11 key);
          key = key XOR drop_bit 16 key
      in key)"

text \<open>MurmurHash2; the four bytes of a step are read in little-endian order.\<close>

abbreviation murmur_m :: "32 word" where "murmur_m \<equiv> 0x5bd1e995"

fun murmur_loop :: "32 word \<Rightarrow> bytes \<Rightarrow> 32 word \<times> bytes" where
  "murmur_loop h (b0 # b1 # b2 # b3 # data) =
     (let k = ucast b0 OR push_bit 8 (ucast b1) OR push_bit 16 (ucast b2) OR push_bit 24 (ucast b3);
          k = k * murmur_m;
          k = k XOR drop_bit 24 k;
          k = k * murmur_m;
          h = h * murmur_m;
          h = h XOR k
      in murmur_loop h data)"
| "murmur_loop h data = (h, data)"

definition dictGenHashFunction :: "32 word \<Rightarrow> bytes \<Rightarrow> 32 word" where
  "dictGenHashFunction seed key =
     (let h = seed XOR word_of_nat (length key);
          (h, data) = murmur_loop h key;
          h = (case data of
                 [b0, b1, b2] \<Rightarrow> (h XOR push_bit 16 (ucast b2) XOR push_bit 8 (ucast b1) XOR ucast b0) * murmur_m
               | [b0, b1] \<Rightarrow> (h XOR push_bit 8 (ucast b1) XOR ucast b0) * murmur_m
               | [b0] \<Rightarrow> (h XOR ucast b0) * murmur_m
               | _ \<Rightarrow> h);
          h = h XOR drop_bit 13 h;
          h = h * murmur_m
      in h XOR drop_bit 15 h)"

definition lower_byte :: "byte \<Rightarrow> byte" where
  "lower_byte b = (if 65 \<le> b \<and> b \<le> 90 then b + 32 else b)"

fun dictGenCaseHashFunction :: "32 word \<Rightarrow> bytes \<Rightarrow> 32 word" where
  "dictGenCaseHashFunction hash [] = hash"
| "dictGenCaseHashFunction hash (b # buf) = dictGenCaseHashFunction (push_bit 5 hash + hash + ucast (lower_byte b)) buf"

section \<open>Iterators\<close>

record ('k, 'v) dictIterator =
  it_index :: int
  it_table :: nat
  it_safe :: bool
  it_entry :: "('k, 'v) chain"
  it_nextEntry :: "('k, 'v) chain"
  it_fingerprint :: "64 word"

definition mix64 :: "64 word \<Rightarrow> 64 word" where
  "mix64 hash =
     (let hash = NOT hash + push_bit 21 hash;
          hash = hash XOR signed_drop_bit 24 hash;
          hash = (hash + push_bit 3 hash) + push_bit 8 hash;
          hash = hash XOR signed_drop_bit 14 hash;
          hash = (hash + push_bit 2 hash) + push_bit 4 hash;
          hash = hash XOR signed_drop_bit 28 hash
      in hash + push_bit 31 hash)"

definition dictFingerprint :: "64 word \<times> 64 word \<Rightarrow> ('k, 'v) dict \<Rightarrow> 64 word" where
  "dictFingerprint adr d =
     foldl (\<lambda>hash i. mix64 (hash + i)) 0
       [fst adr, word_of_nat (ht_size (d_ht0 d)), word_of_nat (ht_used (d_ht0 d)),
        snd adr, word_of_nat (ht_size (d_ht1 d)), word_of_nat (ht_used (d_ht1 d))]"

definition dictGetIterator :: "('k, 'v) dictIterator" where
  "dictGetIterator = \<lparr>it_index = - 1, it_table = 0, it_safe = False, it_entry = [], it_nextEntry = [], it_fingerprint = 0\<rparr>"

definition dictGetSafeIterator :: "('k, 'v) dictIterator" where
  "dictGetSafeIterator = dictGetIterator\<lparr>it_safe := True\<rparr>"

definition iter_load :: "('k, 'v) dict \<Rightarrow> ('k, 'v) dictIterator \<Rightarrow> ('k, 'v) dictIterator option" where
  "iter_load d it =
     do { tb \<leftarrow> ht_table (get_ht d (it_table it)); c \<leftarrow> rd tb (nat (it_index it)); Some (it\<lparr>it_entry := c\<rparr>) }"

text \<open>One round of the loop of \<open>dictNext\<close> up to the test of the entry; the flag is the \<open>break\<close>.\<close>

definition iter_round ::
  "64 word \<times> 64 word \<Rightarrow> ('k, 'v) dict \<Rightarrow> ('k, 'v) dictIterator \<Rightarrow> (('k, 'v) dict \<times> ('k, 'v) dictIterator \<times> bool) option" where
  "iter_round adr d it =
     (if it_entry it = [] then
        let (d, it) =
              (if it_index it = - 1 \<and> it_table it = 0 then
                 if it_safe it then (d\<lparr>d_iterators := d_iterators d + 1\<rparr>, it) else (d, it\<lparr>it_fingerprint := dictFingerprint adr d\<rparr>)
               else (d, it));
            it = it\<lparr>it_index := it_index it + 1\<rparr> in
        if it_index it \<ge> int (ht_size (get_ht d (it_table it))) then
          if dictIsRehashing d \<and> it_table it = 0 then map_option (\<lambda>it. (d, it, False)) (iter_load d (it\<lparr>it_table := 1, it_index := 0\<rparr>))
          else Some (d, it, True)
        else map_option (\<lambda>it. (d, it, False)) (iter_load d it)
      else Some (d, it\<lparr>it_entry := it_nextEntry it\<rparr>, False))"

partial_function (option) dictNext ::
  "64 word \<times> 64 word \<Rightarrow> ('k, 'v) dict \<Rightarrow> ('k, 'v) dictIterator \<Rightarrow>
     (('k, 'v) dict \<times> ('k, 'v) dictIterator \<times> ('k \<times> 'v) option) option" where
  "dictNext adr d it =
     do {
       (d, it, stop) \<leftarrow> iter_round adr d it;
       if stop then Some (d, it, None)
       else case it_entry it of [] \<Rightarrow> dictNext adr d it | e # es \<Rightarrow> Some (d, it\<lparr>it_nextEntry := es\<rparr>, Some e)
     }"

definition dictReleaseIterator :: "64 word \<times> 64 word \<Rightarrow> ('k, 'v) dict \<Rightarrow> ('k, 'v) dictIterator \<Rightarrow> ('k, 'v) dict option" where
  "dictReleaseIterator adr d it =
     (if \<not> (it_index it = - 1 \<and> it_table it = 0) then
        if it_safe it then Some (d\<lparr>d_iterators := d_iterators d - 1\<rparr>)
        else if it_fingerprint it = dictFingerprint adr d then Some d else None
      else Some d)"

section \<open>Random entries\<close>

text \<open>\<open>do { h = ...; he = ...; } while (he == NULL)\<close>\<close>

fun pick_bucket :: "(nat \<Rightarrow> ('k, 'v) chain option) \<Rightarrow> nat list \<Rightarrow> (('k, 'v) chain \<times> nat list) option" where
  "pick_bucket f [] = None"
| "pick_bucket f (r # rs) = do { he \<leftarrow> f r; if he = [] then pick_bucket f rs else Some (he, rs) }"

definition random_bucket :: "('k, 'v) dict \<Rightarrow> nat list \<Rightarrow> (('k, 'v) chain \<times> nat list) option" where
  "random_bucket d rs =
     (if dictIsRehashing d then
        pick_bucket (\<lambda>r. let h = u32 (r mod u64 (ht_size (d_ht0 d) + ht_size (d_ht1 d))) in
          if h \<ge> ht_size (d_ht0 d) then ht_table (d_ht1 d) \<bind> (\<lambda>tb. rd tb (h - ht_size (d_ht0 d)))
          else ht_table (d_ht0 d) \<bind> (\<lambda>tb. rd tb h)) rs
      else pick_bucket (\<lambda>r. ht_table (d_ht0 d) \<bind> (\<lambda>tb. rd tb (u32 (r AND ht_sizemask (d_ht0 d))))) rs)"

definition dictGetRandomKey ::
  "('k, 'v) dictType \<Rightarrow> ('k, 'v) dict \<Rightarrow> nat list \<Rightarrow> (('k, 'v) dict \<times> ('k \<times> 'v) option \<times> nat list) option" where
  "dictGetRandomKey T d rs =
     (if dictSize d = 0 then Some (d, None, rs)
      else do {
        d \<leftarrow> (if dictIsRehashing d then dictRehashStep T d else Some d);
        (he, rs) \<leftarrow> random_bucket d rs;
        case rs of [] \<Rightarrow> None | r # rs \<Rightarrow> do { e \<leftarrow> rd he (r mod length he); Some (d, Some e, rs) }
      })"

section \<open>The hash functions\<close>

lemma xor_drop_inj: "0 < n \<Longrightarrow> x XOR drop_bit n x = y XOR drop_bit n y \<Longrightarrow> x = y" for x y :: "'a::len word"
proof (rule bit_word_eqI)
  fix k
  assume n: "0 < n" and e: "x XOR drop_bit n x = y XOR drop_bit n y"
  assume "k < LENGTH('a)"
  then show "bit x k \<longleftrightarrow> bit y k"
  proof (induction "LENGTH('a) - k" arbitrary: k rule: less_induct)
    case less
    have "bit x (n + k) \<longleftrightarrow> bit y (n + k)"
      using less n by (cases "n + k < LENGTH('a)") (auto dest: bit_imp_le_length)
    moreover have "bit (x XOR drop_bit n x) k \<longleftrightarrow> bit (y XOR drop_bit n y) k" using e by simp
    ultimately show ?case by (auto simp: bit_simps)
  qed
qed

lemma odd_mult_inj: "odd c \<Longrightarrow> c * x = c * y \<Longrightarrow> x = y" for x y c :: "'a::len word"
proof -
  assume o: "odd c" and e: "c * x = c * y"
  have "uint (c * (x - y)) = 0" using e by (simp add: right_diff_distrib)
  then have "2 ^ LENGTH('a) dvd uint c * uint (x - y)" by (simp add: uint_word_ariths take_bit_eq_mod mod_eq_0_iff_dvd)
  moreover have "coprime (2 ^ LENGTH('a)) (uint c)" using o by (simp add: coprime_left_2_iff_odd) (transfer, simp add: even_take_bit_eq)
  ultimately have "2 ^ LENGTH('a) dvd uint (x - y)" by (simp add: coprime_dvd_mult_right_iff)
  then have "uint (x - y) = 0" using unsigned_less [of "x - y", where 'a = int] zdvd_imp_le [of _ "uint (x - y)"] by (smt (verit) unsigned_greater_eq)
  then show "x = y" by (simp add: uint_0_iff)
qed

lemma shift_add: "x + NOT (push_bit n x) = (1 - 2 ^ n) * x - 1" "x + push_bit n x = (1 + 2 ^ n) * x" for x :: "'a::len word"
  by (simp_all add: push_bit_eq_mult not_eq_complement algebra_simps)

text \<open>The mix of an integer key loses nothing.\<close>

lemma dictIntHashFunction_inj: "inj dictIntHashFunction"
proof (rule injI)
  fix x y :: "32 word"
  let ?a = "\<lambda>k :: 32 word. k + NOT (push_bit 15 k)" and ?b = "\<lambda>k :: 32 word. k XOR drop_bit 10 k" and ?c = "\<lambda>k :: 32 word. k + push_bit 3 k"
    and ?d = "\<lambda>k :: 32 word. k XOR drop_bit 6 k" and ?e = "\<lambda>k :: 32 word. k + NOT (push_bit 11 k)" and ?f = "\<lambda>k :: 32 word. k XOR drop_bit 16 k"
  have j: "?b x = ?b y \<Longrightarrow> x = y" "?d x = ?d y \<Longrightarrow> x = y" "?f x = ?f y \<Longrightarrow> x = y" for x y by (rule xor_drop_inj; simp)+
  have k: "?a x = ?a y \<Longrightarrow> x = y" "?c x = ?c y \<Longrightarrow> x = y" "?e x = ?e y \<Longrightarrow> x = y" for x y
    unfolding shift_add by (rule odd_mult_inj; simp)+
  assume "dictIntHashFunction x = dictIntHashFunction y"
  then have "?f (?e (?d (?c (?b (?a x))))) = ?f (?e (?d (?c (?b (?a y)))))" by (simp only: dictIntHashFunction_def Let_def)
  from j(3) [OF this] have "?e (?d (?c (?b (?a x)))) = ?e (?d (?c (?b (?a y))))" .
  from k(3) [OF this] have "?d (?c (?b (?a x))) = ?d (?c (?b (?a y)))" .
  from j(2) [OF this] have "?c (?b (?a x)) = ?c (?b (?a y))" .
  from k(2) [OF this] have "?b (?a x) = ?b (?a y)" .
  from k(1) [OF j(1) [OF this]] show "x = y" .
qed

text \<open>Keys that differ in case only have the same case-insensitive hash.\<close>

lemma dictGenCaseHashFunction_case:
  "map lower_byte a = map lower_byte b \<Longrightarrow> dictGenCaseHashFunction seed a = dictGenCaseHashFunction seed b"
proof (induction a arbitrary: b seed)
  case (Cons x a)
  then obtain y b' where "b = y # b'" "lower_byte y = lower_byte x" "map lower_byte a = map lower_byte b'" by (cases b) auto
  then show ?case using Cons.IH by simp
qed simp

section \<open>What an iterator still returns\<close>

text \<open>The rest of the current chain, the buckets after the current one, and the second table.\<close>

definition rest :: "('k, 'v) dict \<Rightarrow> ('k, 'v) dictIterator \<Rightarrow> ('k \<times> 'v) list" where
  "rest d it = (if it_entry it = [] then [] else it_nextEntry it) @
     (case ht_table (get_ht d (it_table it)) of None \<Rightarrow> [] | Some tb \<Rightarrow> concat (drop (nat (it_index it + 1)) tb)) @
     (if it_table it = 0 then tbl (d_ht1 d) else [])"

text \<open>An entry of the current chain.\<close>

definition at_entry :: "('k, 'v) dict \<Rightarrow> ('k, 'v) dictIterator \<Rightarrow> 'k \<times> 'v \<Rightarrow> bool" where
  "at_entry d it e \<longleftrightarrow> (\<exists>tb. ht_table (get_ht d (it_table it)) = Some tb \<and> nat (it_index it) < length tb \<and> e \<in> set (tb ! nat (it_index it)))"

definition it_ok :: "('k, 'v) dict \<Rightarrow> ('k, 'v) dictIterator \<Rightarrow> bool" where
  "it_ok d it \<longleftrightarrow> - 1 \<le> it_index it \<and> it_table it \<le> 1 \<and> (it_table it = 1 \<longrightarrow> dictIsRehashing d \<and> 0 \<le> it_index it) \<and>
     (it_entry it \<noteq> [] \<longrightarrow> 0 \<le> it_index it \<and> (\<forall>e\<in>set (it_nextEntry it). at_entry d it e))"

text \<open>The first call registers a safe iterator with the dictionary.\<close>

definition started :: "('k, 'v) dict \<Rightarrow> ('k, 'v) dictIterator \<Rightarrow> ('k, 'v) dict" where
  "started d it = (if it_entry it = [] \<and> it_index it = - 1 \<and> it_table it = 0 \<and> it_safe it then d\<lparr>d_iterators := d_iterators d + 1\<rparr> else d)"

lemma started_simps [simp]:
  "d_ht0 (started d it) = d_ht0 d" "d_ht1 (started d it) = d_ht1 d" "d_rehashidx (started d it) = d_rehashidx d"
  "get_ht (started d it) t = get_ht d t" "dictIsRehashing (started d it) = dictIsRehashing d"
  by (simp_all add: started_def get_ht_def dictIsRehashing_def)

lemma started_again: "0 \<le> it_index it' \<or> it_entry it' \<noteq> [] \<Longrightarrow> started d it' = d"
  by (auto simp: started_def)

lemma ht_table_size: "ht_ok T ht \<Longrightarrow> (case ht_table ht of None \<Rightarrow> ht_size ht = 0 | Some tb \<Rightarrow> length tb = ht_size ht)"
  by (auto simp: ht_ok_def dictReset_def split: option.splits)

lemma drop_bucket: "i < length tb \<Longrightarrow> concat (drop i tb) = tb ! i @ concat (drop (Suc i) tb)"
  by (simp add: Cons_nth_drop_Suc [symmetric])

lemma started_inv [simp]: "dict_inv T (started d it) = dict_inv T d" "rest (started d it) = rest d" "at_entry (started d it) = at_entry d"
  "it_ok (started d it) = it_ok d"
  by (simp_all add: dict_inv_def entries_def rest_def fun_eq_iff at_entry_def it_ok_def)

definition it_measure :: "('k, 'v) dict \<Rightarrow> ('k, 'v) dictIterator \<Rightarrow> nat" where
  "it_measure d it = (1 - it_table it) * (2 * ht_size (d_ht1 d) + 3) + 2 * nat (int (ht_size (get_ht d (it_table it))) - it_index it) +
     (if it_entry it = [] then 0 else 1)"

text \<open>What is left after the chain of the current bucket.\<close>

definition later :: "('k, 'v) dict \<Rightarrow> ('k, 'v) dictIterator \<Rightarrow> ('k \<times> 'v) list" where
  "later d it = rest d (it\<lparr>it_entry := []\<rparr>)"

lemma load_ok:
  assumes "dict_inv T d" "it_table it \<le> 1" "0 \<le> it_index it" "it_index it < int (ht_size (get_ht d (it_table it)))"
  shows "\<exists>c. iter_load d it = Some (it\<lparr>it_entry := c\<rparr>) \<and> (\<forall>e\<in>set c. at_entry d it e) \<and>
    c @ later d it = (case ht_table (get_ht d (it_table it)) of None \<Rightarrow> [] | Some tb \<Rightarrow> concat (drop (nat (it_index it)) tb)) @
      (if it_table it = 0 then tbl (d_ht1 d) else [])"
proof -
  have "ht_ok T (get_ht d (it_table it))" using assms(1) by (simp add: dict_inv_def get_ht_def)
  from ht_table_size [OF this] obtain tb where tb: "ht_table (get_ht d (it_table it)) = Some tb" "length tb = ht_size (get_ht d (it_table it))"
    using assms(4) assms(3) by (auto split: option.splits)
  have i: "nat (it_index it) < length tb" using assms(3,4) tb(2) by simp
  have "nat (it_index it + 1) = Suc (nat (it_index it))" using assms(3) by simp
  then show ?thesis using tb i drop_bucket [OF i] by (simp add: iter_load_def rd_in at_entry_def later_def rest_def)
qed

lemma round_ok:
  assumes inv: "dict_inv T d" and ok: "it_ok d it"
  shows "\<exists>it1 stop. iter_round adr d it = Some (started d it, it1, stop) \<and> it_safe it1 = it_safe it \<and> 0 \<le> it_index it1 \<and>
    (if stop then rest d it = [] \<and> it_entry it1 = []
     else rest d it = it_entry it1 @ later d it1 \<and> it_table it1 \<le> 1 \<and> (it_table it1 = 1 \<longrightarrow> dictIsRehashing d) \<and>
       (\<forall>e\<in>set (it_entry it1). at_entry d it1 e) \<and> (it_entry it1 = [] \<longrightarrow> it_measure d it1 < it_measure d it))"
proof (cases "it_entry it = []")
  case False
  then have "rest d it = it_nextEntry it @ later d (it\<lparr>it_entry := it_nextEntry it\<rparr>)" by (simp add: rest_def later_def cong: option.case_cong)
  then show ?thesis using False ok
    by (intro exI [of _ "it\<lparr>it_entry := it_nextEntry it\<rparr>"] exI [of _ False])
      (simp add: iter_round_def started_def it_ok_def it_measure_def at_entry_def)
next
  case True
  let ?t = "it_table it" and ?i = "it_index it + 1"
  obtain fp where fp: "(if it_index it = - 1 \<and> ?t = 0 then
       if it_safe it then (d\<lparr>d_iterators := d_iterators d + 1\<rparr>, it) else (d, it\<lparr>it_fingerprint := dictFingerprint adr d\<rparr>) else (d, it)) =
      (started d it, it\<lparr>it_fingerprint := fp\<rparr>)"
    using True by (cases "it_index it = - 1 \<and> ?t = 0 \<and> \<not> it_safe it") (auto simp: started_def intro: that [of "it_fingerprint it"])
  let ?it = "it\<lparr>it_fingerprint := fp, it_index := ?i\<rparr>"
  have i: "0 \<le> ?i" "?t \<le> 1" "?t = 1 \<longrightarrow> dictIsRehashing d" using ok by (simp_all add: it_ok_def)
  have ld: "iter_load (started d it) = iter_load d" by (simp add: iter_load_def fun_eq_iff)
  have un: "iter_round adr d it =
      (if ?i \<ge> int (ht_size (get_ht d ?t)) then
         if dictIsRehashing d \<and> ?t = 0 then map_option (\<lambda>i. (started d it, i, False)) (iter_load d (?it\<lparr>it_table := 1, it_index := 0\<rparr>))
         else Some (started d it, ?it, True)
       else map_option (\<lambda>i. (started d it, i, False)) (iter_load d ?it))"
    unfolding iter_round_def fp using True by (simp add: Let_def ld)
  have okt: "ht_ok T (get_ht d ?t)" using inv by (simp add: dict_inv_def get_ht_def)
  have rest: "rest d it = (case ht_table (get_ht d ?t) of None \<Rightarrow> [] | Some tb \<Rightarrow> concat (drop (nat ?i) tb)) @ (if ?t = 0 then tbl (d_ht1 d) else [])"
    using True by (simp add: rest_def)
  show ?thesis
  proof (cases "?i \<ge> int (ht_size (get_ht d ?t))")
    case False
    have "\<exists>c. iter_load d ?it = Some (?it\<lparr>it_entry := c\<rparr>) \<and> (\<forall>e\<in>set c. at_entry d ?it e) \<and> c @ later d ?it = rest d it"
      using load_ok [OF inv, of ?it] i False unfolding rest by (simp cong: option.case_cong)
    then obtain c where c: "iter_load d ?it = Some (?it\<lparr>it_entry := c\<rparr>)" "\<forall>e\<in>set c. at_entry d ?it e" "c @ later d ?it = rest d it" by blast
    have "later d (?it\<lparr>it_entry := c\<rparr>) = later d ?it" by (simp add: later_def)
    then show ?thesis using un False c i True
      by (intro exI [of _ "?it\<lparr>it_entry := c\<rparr>"] exI [of _ False]) (simp add: at_entry_def it_measure_def)
  next
    case end0: True
    have z: "(case ht_table (get_ht d ?t) of None \<Rightarrow> [] | Some tb \<Rightarrow> concat (drop (nat ?i) tb)) = []"
      using ht_table_size [OF okt] end0 by (auto split: option.splits)
    show ?thesis
    proof (cases "dictIsRehashing d \<and> ?t = 0")
      case False
      then have "rest d it = []" using rest z inv by (auto simp: dict_inv_def tbl_def dictReset_def)
      then show ?thesis using un end0 False i True by (intro exI [of _ ?it] exI [of _ True]) simp
    next
      case rh: True
      let ?j = "?it\<lparr>it_table := 1, it_index := 0\<rparr>"
      obtain tb where tb: "ht_table (d_ht1 d) = Some tb" "ht_ok T (d_ht1 d)" using dict_inv_rehashing [OF inv] rh by metis
      then have "0 < ht_size (d_ht1 d)" by (auto simp: ht_ok_def)
      then obtain c where c: "iter_load d ?j = Some (?j\<lparr>it_entry := c\<rparr>)" "\<forall>e\<in>set c. at_entry d ?j e" "c @ later d ?j = concat tb"
        using load_ok [OF inv, of ?j] tb by (auto simp: get_ht_def)
      have "later d (?j\<lparr>it_entry := c\<rparr>) = later d ?j" by (simp add: later_def)
      then show ?thesis using un end0 rh c z tb(1) True rest
        by (intro exI [of _ "?j\<lparr>it_entry := c\<rparr>"] exI [of _ False]) (simp add: at_entry_def it_measure_def tbl_def get_ht_def)
    qed
  qed
qed

lemma dictNext_ok:
  assumes "dict_inv T d" "it_ok d it"
  shows "\<exists>it' r. dictNext adr d it = Some (started d it, it', r) \<and> it_safe it' = it_safe it \<and> 0 \<le> it_index it' \<and>
    (case rest d it of [] \<Rightarrow> r = None
     | e # es \<Rightarrow> r = Some e \<and> rest d it' = es \<and> it_ok d it' \<and> at_entry d it' e)"
  using assms
proof (induction "it_measure d it" arbitrary: d it rule: less_induct)
  case less
  obtain it1 stop where r: "iter_round adr d it = Some (started d it, it1, stop)" "it_safe it1 = it_safe it" "0 \<le> it_index it1"
    "if stop then rest d it = [] \<and> it_entry it1 = []
     else rest d it = it_entry it1 @ later d it1 \<and> it_table it1 \<le> 1 \<and> (it_table it1 = 1 \<longrightarrow> dictIsRehashing d) \<and>
       (\<forall>e\<in>set (it_entry it1). at_entry d it1 e) \<and> (it_entry it1 = [] \<longrightarrow> it_measure d it1 < it_measure d it)"
    using round_ok [OF less.prems] by blast
  show ?case
  proof (cases stop)
    case True
    then have "dictNext adr d it = Some (started d it, it1, None)" "rest d it = []" using r(1,4) by (simp_all add: dictNext.simps)
    then show ?thesis using r(2,3) by simp
  next
    case False
    note r4 = r(4) [unfolded if_not_P [OF False]]
    show ?thesis
    proof (cases "it_entry it1")
      case (Cons e es)
      let ?it = "it1\<lparr>it_nextEntry := es\<rparr>"
      have "dictNext adr d it = Some (started d it, ?it, Some e)" using r(1) False Cons by (simp add: dictNext.simps)
      moreover have "rest d ?it = es @ later d it1" using Cons by (simp add: rest_def later_def cong: option.case_cong)
      moreover have "it_ok d ?it" "at_entry d ?it e" using r(3) r4 Cons by (simp_all add: it_ok_def at_entry_def)
      ultimately show ?thesis using r(2,3) r4 Cons by simp
    next
      case Nil
      have l: "rest d it1 = rest d it" using r4 Nil by (simp add: later_def rest_def cong: option.case_cong)
      have nx: "dictNext adr d it = dictNext adr (started d it) it1" using r(1) False Nil by (subst dictNext.simps) simp
      have "it_measure (started d it) it1 < it_measure d it" using r4 Nil by (simp add: it_measure_def)
      from less.hyps [OF this] have "\<exists>it' r. dictNext adr (started d it) it1 = Some (started (started d it) it1, it', r) \<and> it_safe it' = it_safe it1 \<and> 0 \<le> it_index it' \<and>
         (case rest d it1 of [] \<Rightarrow> r = None | e # es \<Rightarrow> r = Some e \<and> rest d it' = es \<and> it_ok d it' \<and> at_entry d it' e)"
        using less.prems(1) r(3) r4 Nil by (simp add: it_ok_def cong: list.case_cong)
      then show ?thesis unfolding nx l using started_again [of it1 "started d it"] r(2,3) by simp
    qed
  qed
qed

section \<open>Deleting the current entry\<close>

lemma hits_self:
  assumes "dictType_ok T" "uniq T es" "e \<in> set es"
  shows "hits T (fst e) es = [e]"
proof -
  have "e \<in> set (hits T (fst e) es)" using assms(1,3) by (simp add: hits_def cmp_refl)
  moreover have "length (hits T (fst e) es) \<le> 1" using assms(2) by (simp add: uniq_def)
  ultimately show ?thesis by (cases "hits T (fst e) es") auto
qed

lemma delete_current:
  assumes T: "dictType_ok T" and inv: "dict_inv T d" and it: "d_iterators d \<noteq> 0"
    and tb: "ht_table (get_ht d t) = Some tb" "t \<le> 1" "i < length tb" "e \<in> set (tb ! i)"
  shows "\<exists>d' fr c. dictDelete T d (fst e) = Some (d', DICT_OK, fr) \<and> dict_inv T d' \<and> add_mset e (mset (entries d')) = mset (entries d) \<and>
     set (tb ! i) - {e} \<subseteq> set c \<and> ht_table (get_ht d' t) = Some (tb[i := c]) \<and> d_iterators d' = d_iterators d \<and> d_rehashidx d' = d_rehashidx d \<and>
     (\<forall>u\<le>1. u \<noteq> t \<longrightarrow> get_ht d' u = get_ht d u)"
proof -
  have u: "uniq T (entries d)" "length (entries d) \<le> DICT_CAP" using inv by (simp_all add: dict_inv_def)
  have sz: "ht_size (d_ht0 d) \<noteq> 0" using inv tb by (cases "t = 0") (auto simp: dict_inv_def get_ht_def ht_ok_def dictReset_def split: option.splits if_splits)
  have ein: "e \<in> set (tbl (get_ht d t))" using tb by (auto simp: tbl_def)
  have "e \<in> set (entries d)" using ein by (auto simp: entries_def get_ht_def split: if_splits)
  note h = hits_self [OF T u(1) this]
  obtain p where p: "locate T d (fst e) = Some p" "case p of None \<Rightarrow> hits T (fst e) (entries d) = []
      | Some (t, i, j) \<Rightarrow> t \<le> 1 \<and> (\<exists>tb. ht_table (get_ht d t) = Some tb \<and> i < length tb \<and> j < length (tb ! i) \<and>
           hits T (fst e) (entries d) = [tb ! i ! j] \<and> dictCompareKeys T (fst e) (fst (tb ! i ! j)))"
    using locate_ok [OF T inv sz] by blast
  then obtain t' i' j tb' where l: "p = Some (t', i', j)" "t' \<le> 1" "ht_table (get_ht d t') = Some tb'" "i' < length tb'" "j < length (tb' ! i')"
    "tb' ! i' ! j = e" using h by (auto split: option.splits)
  have "t' = t"
  proof (rule ccontr)
    assume n: "t' \<noteq> t"
    have "e \<in> set (tbl (get_ht d t'))" using l by (force simp: tbl_def in_set_conv_nth)
    then have "e \<in> set (tbl (d_ht0 d))" "e \<in> set (tbl (d_ht1 d))" using ein n l(2) tb(2) by (auto simp: get_ht_def split: if_splits)
    then have "e \<in> set (hits T (fst e) (tbl (d_ht0 d)))" "e \<in> set (hits T (fst e) (tbl (d_ht1 d)))" using cmp_refl [OF T] by (simp_all add: hits_def)
    then have "length (hits T (fst e) (entries d)) > 1" by (cases "hits T (fst e) (tbl (d_ht0 d))"; cases "hits T (fst e) (tbl (d_ht1 d))") (simp_all add: entries_def)
    then show False using h by simp
  qed
  have "tb' = tb" using l(3) tb(1) \<open>t' = t\<close> by simp
  have "i' = i" using chain_hash [OF inv tb(1,3)] chain_hash [OF inv l(3,4)] tb(4) l(5,6) \<open>t' = t\<close> by (metis nth_mem)
  note l = l [unfolded \<open>t' = t\<close> \<open>i' = i\<close> \<open>tb' = tb\<close>]
  let ?c = "take j (tb ! i) @ drop (Suc j) (tb ! i)"
  have "dictCompareKeys T (fst e) (fst (tb ! i ! j))" using l(6) cmp_refl [OF T] by simp
  from unlink_entry_ok [OF inv T tb(1,3) l(5) tb(2) this] obtain d' where d': "unlink_entry d (t, i, j) = Some (d', e)" "dict_inv T d'"
    using l(6) by auto
  have put: "d' = put_ht d t ((get_ht d t)\<lparr>ht_table := Some (tb[i := ?c]), ht_used := u64 (ht_used (get_ht d t) + (2 ^ 64 - 1))\<rparr>)"
    using d'(1) tb l by (simp add: unlink_entry_def rd_in wr_in Let_def)
  have "dictDelete T d (fst e) = Some (d', DICT_OK, [e])"
  proof -
    have "(if dictIsRehashing d then dictRehashStep T d else Some d) = Some d" using it by (simp add: dictRehashStep_def)
    then have "dictDelete T d (fst e) = locate T d (fst e) \<bind> (\<lambda>p. case p of
        Some loc \<Rightarrow> do { (d, e) \<leftarrow> unlink_entry d loc; Some (d, DICT_OK, if False then [] else [e]) }
      | None \<Rightarrow> Some (d, DICT_ERR, []))"
      unfolding dictDelete_def dictGenericDelete_def locate_def using sz by (auto simp: Let_def split: bind_splits option.splits)
    then show ?thesis using p(1) l(1) d'(1) by simp
  qed
  moreover have "add_mset e (mset (entries d')) = mset (entries d)"
  proof -
    have mc: "mset (tb ! i) = add_mset e (mset ?c)" using mset_nth_split [OF l(5)] l(6) by simp
    have "mset (concat (tb[i := ?c])) + mset (tb ! i) = mset (concat tb) + mset ?c" by (rule mset_concat_update [OF tb(3)])
    then have "add_mset e (mset (concat (tb[i := ?c]))) = mset (concat tb)" using mc by simp
    then show ?thesis using tb(1,2) unfolding put by (auto simp: entries_def tbl_def put_ht_def get_ht_def split: if_splits)
  qed
  moreover have "set (tb ! i) - {e} \<subseteq> set ?c"
    using id_take_nth_drop [OF l(5)] l(6) by (metis Diff_subset_conv insert_is_Un list.simps(15) set_append Un_insert_right order_refl)
  ultimately show ?thesis using d'(2) tb(2) unfolding put by (intro exI [of _ d'] exI [of _ "[e]"] exI [of _ ?c]) (auto simp: put put_ht_def get_ht_def)
qed

section \<open>Properties\<close>

text \<open>The loop of the users of iterators: some of the returned entries are deleted.\<close>

partial_function (option) iterate ::
  "('k, 'v) dictType \<Rightarrow> 64 word \<times> 64 word \<Rightarrow> ('k \<times> 'v \<Rightarrow> bool) \<Rightarrow> ('k, 'v) dict \<Rightarrow> ('k, 'v) dictIterator \<Rightarrow> ('k \<times> 'v) list \<Rightarrow>
     (('k, 'v) dict \<times> ('k, 'v) dictIterator \<times> ('k \<times> 'v) list) option" where
  "iterate T adr P d it acc =
     do {
       (d, it, r) \<leftarrow> dictNext adr d it;
       case r of
         None \<Rightarrow> Some (d, it, acc)
       | Some e \<Rightarrow>
           do {
             d \<leftarrow> (if P e then map_option fst (dictDelete T d (fst e)) else Some d);
             iterate T adr P d it (acc @ [e])
           }
     }"

lemma delete_keeps_rest:
  assumes T: "dictType_ok T" and inv: "dict_inv T d" and n: "d_iterators d \<noteq> 0"
    and it: "it_ok d it" "at_entry d it e" "e \<notin> set (rest d it)" "0 \<le> it_index it"
  shows "\<exists>d'. map_option fst (dictDelete T d (fst e)) = Some d' \<and> dict_inv T d' \<and> add_mset e (mset (entries d')) = mset (entries d) \<and>
    rest d' it = rest d it \<and> it_ok d' it \<and> d_iterators d' = d_iterators d"
proof -
  let ?t = "it_table it" and ?i = "nat (it_index it)"
  obtain tb where tb: "ht_table (get_ht d ?t) = Some tb" "?i < length tb" "e \<in> set (tb ! ?i)" using it(2) by (auto simp: at_entry_def)
  have t: "?t \<le> 1" using it(1) by (simp add: it_ok_def)
  obtain d' fr c where d': "dictDelete T d (fst e) = Some (d', DICT_OK, fr)" "dict_inv T d'" "add_mset e (mset (entries d')) = mset (entries d)"
    "set (tb ! ?i) - {e} \<subseteq> set c" "ht_table (get_ht d' ?t) = Some (tb[?i := c])" "d_iterators d' = d_iterators d" "d_rehashidx d' = d_rehashidx d"
    "\<forall>u\<le>1. u \<noteq> ?t \<longrightarrow> get_ht d' u = get_ht d u"
    using delete_current [OF T inv n tb(1) t tb(2,3)] by blast
  have "?t = 0 \<Longrightarrow> d_ht1 d' = d_ht1 d" using d'(8) [rule_format, of 1] by (simp add: get_ht_def)
  moreover have "drop (nat (it_index it + 1)) (tb[?i := c]) = drop (nat (it_index it + 1)) tb" using it(4) by (simp add: nat_add_distrib)
  ultimately have r: "rest d' it = rest d it" using tb(1) d'(5) by (simp add: rest_def)
  have "at_entry d' it x" if "it_entry it \<noteq> []" "x \<in> set (it_nextEntry it)" for x
  proof -
    have "x \<in> set (tb ! ?i)" "x \<noteq> e" using it(1,3) that tb(1) by (auto simp: it_ok_def at_entry_def rest_def)
    then show ?thesis using d'(4,5) tb(2) by (auto simp: at_entry_def)
  qed
  then have "it_ok d' it" using it(1) d'(7) by (simp add: it_ok_def dictIsRehashing_def)
  then show ?thesis using d' r by simp
qed

lemma iterate_ok:
  assumes T: "dictType_ok T"
  shows "dict_inv T d \<Longrightarrow> it_ok d it \<Longrightarrow> it_safe it \<Longrightarrow> 0 \<le> d_iterators d \<Longrightarrow> (0 \<le> it_index it \<longrightarrow> 0 < d_iterators d) \<Longrightarrow>
    distinct (rest d it) \<Longrightarrow> n = length (rest d it) \<Longrightarrow>
    \<exists>d' it'. iterate T adr P d it acc = Some (d', it', acc @ rest d it) \<and> dict_inv T d' \<and> d_iterators d' = d_iterators (started d it) \<and>
      mset (entries d') + mset (filter P (rest d it)) = mset (entries d) \<and> it_safe it' \<and> 0 \<le> it_index it'"
proof (induction n arbitrary: d it acc)
  case 0
  then obtain it' where nx: "dictNext adr d it = Some (started d it, it', None)" "it_safe it'" "0 \<le> it_index it'"
    using dictNext_ok [OF 0(1,2), of adr] by auto
  then have "iterate T adr P d it acc = Some (started d it, it', acc)" by (simp add: iterate.simps)
  then show ?case using 0 nx by (simp add: entries_def)
next
  case (Suc n)
  then obtain e es where r: "rest d it = e # es" by (cases "rest d it") auto
  then obtain it1 where nx: "dictNext adr d it = Some (started d it, it1, Some e)" "it_safe it1" "0 \<le> it_index it1" "rest d it1 = es" "it_ok d it1" "at_entry d it1 e"
    using dictNext_ok [OF Suc(2,3), of adr] Suc(4) by auto
  let ?d = "started d it"
  have di: "0 < d_iterators ?d"
    using Suc(3-6) by (auto simp: started_def it_ok_def) 
  obtain d2 where d2: "(if P e then map_option fst (dictDelete T ?d (fst e)) else Some ?d) = Some d2" "dict_inv T d2"
    "mset (entries d2) + (if P e then {#e#} else {#}) = mset (entries d)" "rest d2 it1 = es" "it_ok d2 it1" "d_iterators d2 = d_iterators ?d"
  proof (cases "P e")
    case True
    obtain d2 where "map_option fst (dictDelete T ?d (fst e)) = Some d2" "dict_inv T d2" "add_mset e (mset (entries d2)) = mset (entries ?d)"
       "rest d2 it1 = rest ?d it1" "it_ok d2 it1" "d_iterators d2 = d_iterators ?d"
      using delete_keeps_rest [OF T, of ?d it1 e] Suc(2,7) nx r di by auto
    then show ?thesis using that [of d2] True nx(4) by (simp add: entries_def)
  next
    case False
    then show ?thesis using that [of ?d] Suc(2) nx(4,5) by (simp add: entries_def)
  qed
  have st: "started d2 it1 = d2" using nx(3) by (intro started_again) simp
  obtain d' it' where ih: "iterate T adr P d2 it1 (acc @ [e]) = Some (d', it', (acc @ [e]) @ rest d2 it1)" "dict_inv T d'" "d_iterators d' = d_iterators d2"
    "mset (entries d') + mset (filter P (rest d2 it1)) = mset (entries d2)" "it_safe it'" "0 \<le> it_index it'"
    using Suc.IH [OF d2(2,5) nx(2), of "acc @ [e]"] d2(4,6) di Suc(7,8) r st by auto
  have "iterate T adr P d it acc = Some (d', it', acc @ rest d it)" using nx(1) d2(1) ih(1) d2(4) r by (simp add: iterate.simps [of T adr P d])
  moreover have "mset (entries d') + mset (filter P (rest d it)) = mset (entries d)" using d2(3,4) ih(4) r by (auto split: if_splits)
  ultimately show ?case using ih d2(6) by simp
qed

lemma distinct_entries: "dictType_ok T \<Longrightarrow> uniq T es \<Longrightarrow> distinct es"
proof (induction es)
  case (Cons e es)
  have "e \<notin> set es"
  proof
    assume "e \<in> set es"
    then have "e \<in> set (hits T (fst e) es)" using cmp_refl [OF Cons.prems(1)] by (simp add: hits_def)
    then have "length (hits T (fst e) (e # es)) > 1" using cmp_refl [OF Cons.prems(1)] by (cases "hits T (fst e) es") (simp_all add: hits_Cons)
    then show False using Cons.prems(2) by (simp add: uniq_def not_le [symmetric])
  qed
  moreover have "uniq T es" using Cons.prems(2) by (auto simp: uniq_def hits_def split: if_splits intro: Suc_leD)
  ultimately show ?case using Cons by simp
qed simp

text \<open>
  C5. A loop over a safe iterator that deletes any of the entries it is given terminates, is given
  every entry exactly once, at any stage of the rehashing, and leaves the other entries; when
  the iterator is released the dictionary is as if it had never been there.
\<close>

theorem safe_iteration_with_deletion:
  assumes "dictType_ok T" "dict_inv T d" "0 \<le> d_iterators d"
  shows "\<exists>d1 it d'. iterate T adr P d dictGetSafeIterator [] = Some (d1, it, entries d) \<and> distinct (entries d) \<and>
    dictReleaseIterator adr d1 it = Some d' \<and> dict_inv T d' \<and> d_iterators d' = d_iterators d \<and>
    mset (entries d') = mset (filter (\<lambda>e. \<not> P e) (entries d))"
proof -
  let ?it = "dictGetSafeIterator :: ('a, 'b) dictIterator"
  have it: "it_ok d ?it" "it_safe ?it" "\<not> 0 \<le> it_index ?it" "started d ?it = d\<lparr>d_iterators := d_iterators d + 1\<rparr>"
    by (simp_all add: it_ok_def dictGetSafeIterator_def dictGetIterator_def started_def)
  have r: "rest d ?it = entries d"
    by (auto simp: rest_def dictGetSafeIterator_def dictGetIterator_def entries_def tbl_def get_ht_def split: option.splits)
  have dis: "distinct (entries d)" using assms distinct_entries by (auto simp: dict_inv_def)
  obtain d1 it1 where i: "iterate T adr P d ?it [] = Some (d1, it1, entries d)" "dict_inv T d1" "d_iterators d1 = d_iterators d + 1"
    "mset (entries d1) + mset (filter P (entries d)) = mset (entries d)" "it_safe it1" "0 \<le> it_index it1"
    using iterate_ok [OF assms(1,2) it(1,2) assms(3), where P = P and adr = adr and acc = "[]"] it(3,4) dis unfolding r by auto
  let ?d = "d1\<lparr>d_iterators := d_iterators d1 - 1\<rparr>"
  have "dictReleaseIterator adr d1 it1 = Some ?d" using i(5,6) by (simp add: dictReleaseIterator_def)
  moreover have "dict_inv T ?d" using i(2) by (auto simp: dict_inv_def entries_def dictIsRehashing_def split: if_splits)
  moreover have "mset (entries d) = mset (filter P (entries d)) + mset (filter (\<lambda>e. \<not> P e) (entries d))"
    using multiset_partition [of "mset (entries d)" P] by simp
  then have "mset (entries ?d) = mset (filter (\<lambda>e. \<not> P e) (entries d))" using i(4) by (simp add: entries_def)
  ultimately show ?thesis using i(1,3) dis by auto
qed

definition one_entry :: "(nat, nat) dict" where
  "one_entry = \<lparr>d_ht0 = \<lparr>ht_table = Some [[], [(1, 7)], [], []], ht_size = 4, ht_sizemask = 3, ht_used = 1\<rparr>, d_ht1 = dictReset,
     d_rehashidx = - 1, d_iterators = 0\<rparr>"

lemma one_entry_inv: "dict_inv (plainType (\<lambda>k. k)) one_entry"
proof -
  have "ht_ok (plainType (\<lambda>k. k)) (d_ht0 one_entry)"
    by (auto simp: ht_ok_def one_entry_def dictHashKey_def plainType_def u32_def nth_Cons' intro!: exI [of _ 2])
  then show ?thesis
    by (simp add: dict_inv_def one_entry_def dictReset_def ht_ok_def entries_def tbl_def uniq_def hits_def DICT_CAP_def dictIsRehashing_def)
qed

theorem safe_iteration_with_deletion_witness:
  "\<exists>d1 it d'. iterate (plainType (\<lambda>k. k)) (0, 0) (\<lambda>e. fst e = 1) one_entry dictGetSafeIterator [] = Some (d1, it, [(1, 7)]) \<and>
     dictReleaseIterator (0, 0) d1 it = Some d' \<and> entries d' = []"
proof -
  have "entries one_entry = [(1, 7)]" "0 \<le> d_iterators one_entry" by (simp_all add: one_entry_def entries_def tbl_def dictReset_def)
  then show ?thesis
    using safe_iteration_with_deletion [OF plainType_ok one_entry_inv, where adr = "(0, 0)" and P = "\<lambda>e. fst e = 1"] by auto
qed

lemma pick_bucket_in:
  "pick_bucket f rs = Some (he, rs') \<Longrightarrow> he \<noteq> [] \<and> (\<exists>r. f r = Some he)"
  by (induction rs) (auto split: bind_splits if_splits)

text \<open>A random entry is an entry of the dictionary.\<close>

lemma dictGetRandomKey_in:
  assumes "dictGetRandomKey T d rs = Some (d', Some e, rs')"
  shows "e \<in> set (entries d')"
proof -
  have t: "x \<in> set (entries d)" if "ht_table (get_ht d t) = Some tb" "rd tb i = Some c" "x \<in> set c" "t \<le> 1" for d :: "('a, 'b) dict" and t tb i c x
  proof -
    have "x \<in> set (tbl (get_ht d t))" using that nth_mem [of i tb] by (auto simp: tbl_def rd_Some_iff simp del: nth_mem)
    then show ?thesis by (auto simp: entries_def get_ht_def split: if_splits)
  qed
  have b: "set c \<subseteq> set (entries d)" if "ht_table (get_ht d t) \<bind> (\<lambda>tb. rd tb i) = Some c" "t \<le> 1" for d :: "('a, 'b) dict" and t i c
    using that t by (auto split: bind_splits)
  obtain he rs1 r where p: "random_bucket d' rs = Some (he, r # rs1)" "rd he (r mod length he) = Some e"
    using assms by (auto simp: dictGetRandomKey_def split: if_split_asm bind_split_asm list.split_asm)
  have b0: "ht_table (d_ht0 d') \<bind> (\<lambda>tb. rd tb i) = Some c \<Longrightarrow> set c \<subseteq> set (entries d')"
    and b1: "ht_table (d_ht1 d') \<bind> (\<lambda>tb. rd tb i) = Some c \<Longrightarrow> set c \<subseteq> set (entries d')" for i c
    using b [of d' 0] b [of d' 1] by (simp_all add: get_ht_def)
  have "set he \<subseteq> set (entries d')"
  proof (cases "dictIsRehashing d'")
    case True
    note q = pick_bucket_in [OF p(1) [unfolded random_bucket_def Let_def if_P [OF True]]]
    then obtain x where "(if ht_size (d_ht0 d') \<le> x then ht_table (d_ht1 d') \<bind> (\<lambda>tb. rd tb (x - ht_size (d_ht0 d')))
        else ht_table (d_ht0 d') \<bind> (\<lambda>tb. rd tb x)) = Some he" by blast
    then show ?thesis using b0 [of x he] b1 [of "x - ht_size (d_ht0 d')" he] by (metis (full_types))
  next
    case False
    show ?thesis using pick_bucket_in [OF p(1) [unfolded random_bucket_def if_not_P [OF False]]] b0 by blast
  qed
  then show ?thesis using p(2) by (auto simp: rd_Some_iff)
qed

text \<open>Every entry can be drawn: two results of \<open>random()\<close> select its bucket and its place there.\<close>

lemma bucket_drawn:
  assumes inv: "dict_inv T d" and e: "e \<in> set (entries d)"
  shows "\<exists>r j he. (\<forall>rs. random_bucket d (r # rs) = Some (he, rs)) \<and> j < length he \<and> he ! j = e"
proof -
  have bk: "\<exists>tb i j. ht_table ht = Some tb \<and> i < ht_size ht \<and> length tb = ht_size ht \<and> ht_size ht \<le> 2147483648 \<and>
      ht_sizemask ht = ht_size ht - 1 \<and> (\<exists>b. ht_size ht = 2 ^ b) \<and> j < length (tb ! i) \<and> tb ! i ! j = e"
    if h: "ht_ok T ht" "e \<in> set (tbl ht)" for ht
  proof -
    obtain tb where tb: "ht_table ht = Some tb" "e \<in> set (concat tb)" using h(2) by (cases "ht_table ht") (auto simp: tbl_def)
    obtain c where "c \<in> set tb" "e \<in> set c" using tb(2) by auto
    then obtain i j where "i < length tb" "j < length (tb ! i)" "tb ! i ! j = e" by (metis in_set_conv_nth)
    then show ?thesis using h(1) tb(1) two_pow_31 by (auto simp: ht_ok_def)
  qed
  have ok: "ht_ok T (d_ht0 d)" "ht_ok T (d_ht1 d)" using inv by (auto simp: dict_inv_def)
  show ?thesis
  proof (cases "dictIsRehashing d")
    case False
    then have "d_ht1 d = dictReset" using inv by (simp add: dict_inv_def)
    then have "e \<in> set (tbl (d_ht0 d))" using e by (simp add: entries_def tbl_def dictReset_def)
    from bk [OF ok(1) this] obtain tb i j b where t: "ht_table (d_ht0 d) = Some tb" "i < ht_size (d_ht0 d)" "length tb = ht_size (d_ht0 d)"
      "ht_size (d_ht0 d) \<le> 2147483648" "ht_sizemask (d_ht0 d) = ht_size (d_ht0 d) - 1" "ht_size (d_ht0 d) = 2 ^ b" "j < length (tb ! i)" "tb ! i ! j = e" by blast
    have "u32 (i AND ht_sizemask (d_ht0 d)) = i" using t(2,4) unfolding t(5,6) and_mask_mod by simp
    then have "random_bucket d (i # rs) = Some (tb ! i, rs)" for rs using False t by (auto simp: random_bucket_def rd_def)
    then show ?thesis using t by blast
  next
    case True
    obtain s0 where s0: "ht_size (d_ht0 d) = s0" "s0 \<le> 2147483648" using ok(1) two_pow_31 by (auto simp: ht_ok_def dictReset_def split: option.splits)
    obtain s1 where s1: "ht_size (d_ht1 d) = s1" "s1 \<le> 2147483648" using ok(2) two_pow_31 by (auto simp: ht_ok_def dictReset_def split: option.splits)
    have h: "u32 (r mod u64 (s0 + s1)) = r" if "r < s0 + s1" for r
    proof -
      have "u64 (s0 + s1) = s0 + s1" using s0(2) s1(2) by (intro u64_small) simp
      then show ?thesis using that s0(2) s1(2) by simp
    qed
    consider "e \<in> set (tbl (d_ht0 d))" | "e \<in> set (tbl (d_ht1 d))" using e by (auto simp: entries_def)
    then show ?thesis
    proof cases
      case 1
      from bk [OF ok(1) 1] obtain tb i j where t: "ht_table (d_ht0 d) = Some tb" "i < s0" "length tb = s0" "j < length (tb ! i)" "tb ! i ! j = e"
        using s0(1) by blast
      have "random_bucket d (i # rs) = Some (tb ! i, rs)" for rs using True t h [of i] s0(1) s1(1) by (auto simp: random_bucket_def rd_def Let_def)
      then show ?thesis using t by blast
    next
      case 2
      from bk [OF ok(2) 2] obtain tb i j where t: "ht_table (d_ht1 d) = Some tb" "i < s1" "length tb = s1" "j < length (tb ! i)" "tb ! i ! j = e"
        using s1(1) by blast
      have "random_bucket d ((s0 + i) # rs) = Some (tb ! i, rs)" for rs using True t h [of "s0 + i"] s0(1) s1(1) by (auto simp: random_bucket_def rd_def Let_def)
      then show ?thesis using t by blast
    qed
  qed
qed

lemma dictGetRandomKey_reaches:
  assumes inv: "dict_inv T d" and e: "e \<in> set (entries d)" and n: "dictSize d \<noteq> 0"
  shows "\<exists>r j d'. \<forall>rs. dictGetRandomKey T d (r # j # rs) = Some (d', Some e, rs)"
proof -
  obtain d1 where d1: "(if dictIsRehashing d then dictRehashStep T d else Some d) = Some d1" "dict_inv T d1" "mset (entries d1) = mset (entries d)"
    using step_if_rehashing [OF inv] by blast
  have "e \<in> set (entries d1)" using e mset_eq_setD [OF d1(3)] by simp
  from bucket_drawn [OF d1(2) this] obtain r j he where
    b: "\<And>rs. random_bucket d1 (r # rs) = Some (he, rs)" "j < length he" "he ! j = e" by blast
  have "dictGetRandomKey T d (r # j # rs) = Some (d1, Some e, rs)" for rs using d1(1) n b by (simp add: dictGetRandomKey_def rd_def)
  then show ?thesis by blast
qed

end
