(* ===== verification/Lzf.thy ===== *)
theory Lzf
  imports Prelude
begin

text \<open>
  The compression of strings, from \<open>lzf_c.c\<close> and \<open>lzf_d.c\<close> (settings of \<open>lzfP.h\<close>: \<open>HLOG\<close> 16,
  \<open>VERY_FAST\<close>, \<open>INIT_HTAB\<close> 0, \<open>CHECK_INPUT\<close> 1).  The input is a list of bytes, a pointer into it
  its offset; the output is a block of memory of its own length, which may be longer than the
  \<open>out_len\<close> the functions are told.  Every access is checked.  The hash table of the compressor
  is not initialised: it is an argument that gives, for every slot, an arbitrary pointer,
  relative to the input.
\<close>

section \<open>Compression\<close>

definition MAX_LIT :: nat where "MAX_LIT = 32"
definition MAX_OFF :: nat where "MAX_OFF = 8192"
definition MAX_REF :: nat where "MAX_REF = 264"

definition FRST :: "bytes \<Rightarrow> nat \<Rightarrow> 32 word option" where
  "FRST inp p = do { a \<leftarrow> rd inp p; b \<leftarrow> rd inp (p + 1); Some (push_bit 8 (ucast a) OR ucast b) }"

definition NEXT :: "32 word \<Rightarrow> bytes \<Rightarrow> nat \<Rightarrow> 32 word option" where
  "NEXT v inp p = do { c \<leftarrow> rd inp (p + 2); Some (push_bit 8 v OR ucast c) }"

definition IDX :: "32 word \<Rightarrow> nat" where
  "IDX h = unat ((drop_bit 8 h - h * 5) AND 0xffff)"

text \<open>The test for a match at \<open>ref\<close>; the difference of the pointers is unsigned.\<close>

definition lzf_hit :: "bytes \<Rightarrow> nat \<Rightarrow> int \<Rightarrow> bool option" where
  "lzf_hit inp ip ref =
     (if ref < int ip \<and> int ip - ref - 1 < int MAX_OFF \<and> ip + 4 < length inp \<and> ref > 0 then
        do {
          r \<leftarrow> rd_block inp (nat ref) 2;
          i \<leftarrow> rd_block inp ip 2;
          if r = i then do { a \<leftarrow> rd inp (nat ref + 2); b \<leftarrow> rd inp (ip + 2); Some (a = b) } else Some False
        }
      else Some False)"

text \<open>The unrolled comparisons \<open>len++; if (ref[len] != ip[len]) break\<close>; the flag is the \<open>break\<close>.\<close>

fun match_run :: "nat \<Rightarrow> bytes \<Rightarrow> nat \<Rightarrow> nat \<Rightarrow> nat \<Rightarrow> (nat \<times> bool) option" where
  "match_run 0 inp ref ip len = Some (len, False)"
| "match_run (Suc k) inp ref ip len =
     do {
       let len = len + 1;
       a \<leftarrow> rd inp (ref + len);
       b \<leftarrow> rd inp (ip + len);
       if a \<noteq> b then Some (len, True) else match_run k inp ref ip len
     }"

text \<open>\<open>do len++; while (len < maxlen && ref[len] == ip[len])\<close>\<close>

function match_rest :: "bytes \<Rightarrow> nat \<Rightarrow> nat \<Rightarrow> nat \<Rightarrow> nat \<Rightarrow> nat option" where
  "match_rest inp ref ip maxlen len =
     (if len + 1 < maxlen then
        case rd inp (ref + (len + 1)) of
          None \<Rightarrow> None
        | Some a \<Rightarrow>
            (case rd inp (ip + (len + 1)) of
               None \<Rightarrow> None
             | Some b \<Rightarrow> if a = b then match_rest inp ref ip maxlen (len + 1) else Some (len + 1))
      else Some (len + 1))"
  by auto
termination by (relation "measure (\<lambda>(_, _, _, m, l). m - l)") auto

declare match_rest.simps [simp del]

definition match_len :: "bytes \<Rightarrow> nat \<Rightarrow> nat \<Rightarrow> nat option" where
  "match_len inp ref ip =
     (let maxlen = length inp - ip - 2;
          maxlen = (if maxlen > MAX_REF then MAX_REF else maxlen)
      in do {
        (len, stop) \<leftarrow> (if maxlen > 16 then match_run 16 inp ref ip 2 else Some (2, False));
        if stop then Some len else match_rest inp ref ip maxlen len
      })"

text \<open>\<open>op[- lit - 1] = lit - 1\<close>\<close>

definition stop_run :: "bytes \<Rightarrow> nat \<Rightarrow> nat \<Rightarrow> bytes option" where
  "stop_run out op lit = (if lit + 1 \<le> op then wr out (op - lit - 1) (word_of_int (int lit - 1)) else None)"

definition put_ref :: "bytes \<Rightarrow> nat \<Rightarrow> nat \<Rightarrow> nat \<Rightarrow> (bytes \<times> nat) option" where
  "put_ref out op off len =
     do {
       (out, op) \<leftarrow>
         (if len < 7 then do { out \<leftarrow> wr out op (word_of_nat (off div 256 + len * 32)); Some (out, op + 1) }
          else do {
            out \<leftarrow> wr out op (word_of_nat (off div 256 + 7 * 32));
            out \<leftarrow> wr out (op + 1) (word_of_nat (len - 7));
            Some (out, op + 2)
          });
       out \<leftarrow> wr out op (word_of_nat off);
       Some (out, op + 1)
     }"

text \<open>\<open>lit++; *op++ = *ip++;\<close> and the end of a run of \<open>MAX_LIT\<close> bytes.\<close>

definition put_lit :: "bytes \<Rightarrow> bytes \<Rightarrow> nat \<Rightarrow> nat \<Rightarrow> nat \<Rightarrow> (bytes \<times> nat \<times> nat) option" where
  "put_lit inp out ip op lit =
     do {
       b \<leftarrow> rd inp ip;
       out \<leftarrow> wr out op b;
       let lit = lit + 1;
       let op = op + 1;
       if lit = MAX_LIT then do { out \<leftarrow> stop_run out op lit; Some (out, op + 1, 0) }
       else Some (out, op, lit)
     }"

fun tail_loop :: "nat \<Rightarrow> bytes \<Rightarrow> bytes \<Rightarrow> nat \<Rightarrow> nat \<Rightarrow> nat \<Rightarrow> (bytes \<times> nat \<times> nat) option" where
  "tail_loop 0 inp out ip op lit = Some (out, op, lit)"
| "tail_loop (Suc k) inp out ip op lit =
     do { (out, op, lit) \<leftarrow> put_lit inp out ip op lit; tail_loop k inp out (ip + 1) op lit }"

text \<open>What follows the main loop; the results are the block and the return value.\<close>

definition lzf_finish :: "bytes \<Rightarrow> nat \<Rightarrow> bytes \<Rightarrow> nat \<Rightarrow> nat \<Rightarrow> nat \<Rightarrow> (bytes \<times> nat) option" where
  "lzf_finish inp out_len out ip op lit =
     (if op + 3 > out_len then Some (out, 0)
      else do {
        (out, op, lit) \<leftarrow> tail_loop (length inp - ip) inp out ip op lit;
        out \<leftarrow> stop_run out op lit;
        Some (out, if lit = 0 then op - 1 else op)
      })"

text \<open>The two positions the hash table learns after a match.\<close>

definition learn :: "bytes \<Rightarrow> nat \<Rightarrow> (nat \<Rightarrow> int) \<Rightarrow> (32 word \<times> (nat \<Rightarrow> int)) option" where
  "learn inp ip htab =
     do {
       hval \<leftarrow> FRST inp ip;
       hval \<leftarrow> NEXT hval inp ip;
       let htab = htab(IDX hval := int ip);
       hval \<leftarrow> NEXT hval inp (ip + 1);
       Some (hval, htab(IDX hval := int (ip + 1)))
     }"

partial_function (option) lzf_loop ::
  "bytes \<Rightarrow> nat \<Rightarrow> (nat \<Rightarrow> int) \<Rightarrow> bytes \<Rightarrow> nat \<Rightarrow> nat \<Rightarrow> nat \<Rightarrow> 32 word \<Rightarrow> (bytes \<times> nat) option" where
  "lzf_loop inp out_len htab out ip op lit hval =
     (if ip + 2 < length inp then
        do {
          hval \<leftarrow> NEXT hval inp ip;
          let ref = htab (IDX hval);
          let htab = htab(IDX hval := int ip);
          hit \<leftarrow> lzf_hit inp ip ref;
          if hit then
            do {
              out \<leftarrow> stop_run out op lit;
              let op = (if lit = 0 then op - 1 else op);
              if op + 3 + 1 \<ge> out_len then Some (out, 0)
              else do {
                len \<leftarrow> match_len inp (nat ref) ip;
                let len = len - 2;
                (out, op) \<leftarrow> put_ref out op (ip - nat ref - 1) len;
                let ip = ip + 1 + (len + 1);
                if ip + 2 \<ge> length inp then lzf_finish inp out_len out ip (op + 1) 0
                else do {
                  (hval, htab) \<leftarrow> learn inp (ip - 2) htab;
                  lzf_loop inp out_len htab out ip (op + 1) 0 hval
                }
              }
            }
          else if op \<ge> out_len then Some (out, 0)
          else do {
            (out, op, lit) \<leftarrow> put_lit inp out ip op lit;
            lzf_loop inp out_len htab out (ip + 1) op lit hval
          }
        }
      else lzf_finish inp out_len out ip op lit)"

definition lzf_compress :: "(nat \<Rightarrow> int) \<Rightarrow> bytes \<Rightarrow> bytes \<Rightarrow> nat \<Rightarrow> (bytes \<times> nat) option" where
  "lzf_compress htab inp out out_len =
     (if length inp = 0 \<or> out_len = 0 then Some (out, 0)
      else do { hval \<leftarrow> FRST inp 0; lzf_loop inp out_len htab out 0 1 0 hval })"

section \<open>Decompression\<close>

datatype lzf_result = LzErr string | LzOk nat

text \<open>\<open>do *op++ = *ref++; while (--len)\<close>, byte by byte, since the two places may overlap.\<close>

fun copy_ref :: "nat \<Rightarrow> bytes \<Rightarrow> nat \<Rightarrow> nat \<Rightarrow> bytes option" where
  "copy_ref 0 out ref op = Some out"
| "copy_ref (Suc n) out ref op = do { b \<leftarrow> rd out ref; out \<leftarrow> wr out op b; copy_ref n out (ref + 1) (op + 1) }"

text \<open>
  The end of a back reference, from the low byte of its offset on, and one round of the loop: the
  block, the offsets of input and output, and an error.
\<close>

definition lzf_back :: "bytes \<Rightarrow> bytes \<Rightarrow> nat \<Rightarrow> nat \<Rightarrow> nat \<Rightarrow> nat \<Rightarrow> int \<Rightarrow> (bytes \<times> nat \<times> nat \<times> string option) option" where
  "lzf_back inp out out_len ip op len ref =
     do {
       b \<leftarrow> rd inp ip;
       let ref = ref - int (unat b);
       let ip = ip + 1;
       if op + len + 2 > out_len then Some (out, ip, op, Some ''E2BIG'')
       else if ref < 0 then Some (out, ip, op, Some ''EINVAL'')
       else do { out \<leftarrow> copy_ref (len + 2) out (nat ref) op; Some (out, ip, op + len + 2, None) }
     }"

definition lzf_round :: "bytes \<Rightarrow> bytes \<Rightarrow> nat \<Rightarrow> nat \<Rightarrow> nat \<Rightarrow> (bytes \<times> nat \<times> nat \<times> string option) option" where
  "lzf_round inp out out_len ip op =
     do {
       c \<leftarrow> rd inp ip;
       let ctrl = unat c;
       let ip = ip + 1;
       if ctrl < 32 then
         let ctrl = ctrl + 1 in
         if op + ctrl > out_len then Some (out, ip, op, Some ''E2BIG'')
         else if ip + ctrl > length inp then Some (out, ip, op, Some ''EINVAL'')
         else do { s \<leftarrow> rd_block inp ip ctrl; out \<leftarrow> wr_block out op s; Some (out, ip + ctrl, op + ctrl, None) }
       else
         let len = ctrl div 32; ref = int op - int (ctrl mod 32 * 256) - 1 in
         if ip \<ge> length inp then Some (out, ip, op, Some ''EINVAL'')
         else if len = 7 then
           do {
             b \<leftarrow> rd inp ip;
             let len = len + unat b;
             let ip = ip + 1;
             if ip \<ge> length inp then Some (out, ip, op, Some ''EINVAL'') else lzf_back inp out out_len ip op len ref
           }
         else lzf_back inp out out_len ip op len ref
     }"

partial_function (option) lzf_dloop :: "bytes \<Rightarrow> bytes \<Rightarrow> nat \<Rightarrow> nat \<Rightarrow> nat \<Rightarrow> (bytes \<times> lzf_result) option" where
  "lzf_dloop inp out out_len ip op =
     do {
       (out, ip, op, err) \<leftarrow> lzf_round inp out out_len ip op;
       case err of
         Some e \<Rightarrow> Some (out, LzErr e)
       | None \<Rightarrow> if ip < length inp then lzf_dloop inp out out_len ip op else Some (out, LzOk op)
     }"

definition lzf_decompress :: "bytes \<Rightarrow> bytes \<Rightarrow> nat \<Rightarrow> (bytes \<times> lzf_result) option" where
  "lzf_decompress inp out out_len = lzf_dloop inp out out_len 0 0"

section \<open>The decompressor stays inside its buffers\<close>

lemma copy_ref_ok:
  "ref < op \<Longrightarrow> op + n \<le> length out \<Longrightarrow>
    \<exists>out'. copy_ref n out ref op = Some out' \<and> length out' = length out \<and> take op out' = take op out \<and>
      drop (op + n) out' = drop (op + n) out \<and> (\<forall>i<n. out' ! (op + i) = out' ! (ref + i))"
proof (induction n arbitrary: out ref op)
  case (Suc n)
  let ?o = "out[op := out ! ref]"
  have "ref + 1 < op + 1" "op + 1 + n \<le> length ?o" using Suc.prems by simp_all
  from Suc.IH [OF this] obtain out' where o: "copy_ref n ?o (ref + 1) (op + 1) = Some out'" "length out' = length out"
    "take (op + 1) out' = take (op + 1) ?o" "drop (op + 1 + n) out' = drop (op + 1 + n) ?o" "\<forall>i<n. out' ! (op + 1 + i) = out' ! (ref + 1 + i)"
    by auto
  have nth: "out' ! k = ?o ! k" if "k < op + 1" for k using o(3) that by (metis nth_take)
  have "take op out' = take op out" using o(3) by (metis take_take min.absorb1 le_add1 take_update_cancel le_refl)
  moreover have "drop (op + Suc n) out' = drop (op + Suc n) out" using o(4) by simp
  moreover have "out' ! (op + i) = out' ! (ref + i)" if "i < Suc n" for i
  proof (cases i)
    case 0
    then show ?thesis using nth [of op] nth [of ref] Suc.prems by simp
  next
    case (Suc j)
    then show ?thesis using o(5) that by simp
  qed
  moreover have "copy_ref (Suc n) out ref op = Some out'" using Suc.prems o(1) by (simp add: rd_in wr_in)
  ultimately show ?case using o(2) by blast
qed simp

lemma lzf_back_safe:
  assumes "ip < length inp" "op \<le> out_len" "out_len \<le> length out" "ref < int op"
  shows "\<exists>out' op' err. lzf_back inp out out_len ip op len ref = Some (out', ip + 1, op', err) \<and> length out' = length out \<and>
    op' \<le> out_len \<and> drop out_len out' = drop out_len out"
proof (cases "op + len + 2 > out_len \<or> ref - int (unat (inp ! ip)) < 0")
  case True
  then show ?thesis using assms by (auto simp: lzf_back_def rd_in Let_def)
next
  case False
  let ?r = "nat (ref - int (unat (inp ! ip)))"
  have "int (unat (inp ! ip)) \<ge> 0" by simp
  then have "?r < op" "op + (len + 2) \<le> length out" using False assms by linarith+
  from copy_ref_ok [OF this] obtain out' where o: "copy_ref (len + 2) out ?r op = Some out'" "length out' = length out"
    "drop (op + (len + 2)) out' = drop (op + (len + 2)) out" by blast
  have k: "out_len - (op + (len + 2)) + (op + (len + 2)) = out_len" using False by linarith
  have "drop out_len out' = drop out_len out"
    using arg_cong [OF o(3), of "drop (out_len - (op + (len + 2)))"] unfolding drop_drop k .
  then show ?thesis using o False assms(1) by (simp add: lzf_back_def rd_in Let_def)
qed

lemma lzf_round_safe:
  assumes "ip < length inp" "op \<le> out_len" "out_len \<le> length out"
  shows "\<exists>out' ip' op' err. lzf_round inp out out_len ip op = Some (out', ip', op', err) \<and> ip < ip' \<and> length out' = length out \<and>
    op' \<le> out_len \<and> drop out_len out' = drop out_len out"
proof -
  let ?c = "unat (inp ! ip)"
  have r: "int op - int (?c mod 32 * 256) - 1 < int op" by simp
  consider (lit) "?c < 32" | (bref) "32 \<le> ?c" by linarith
  then show ?thesis
  proof cases
    case lit
    then show ?thesis using assms by (auto simp: lzf_round_def rd_in Let_def rd_block_def wr_block_def)
  next
    case bref
    show ?thesis
    proof (cases "ip + 1 \<ge> length inp")
      case True
      then show ?thesis using bref assms by (simp add: lzf_round_def rd_in Let_def)
    next
      case False
      have l: "length inp > ip + 1" using False by simp
      note b1 = lzf_back_safe [OF l assms(2,3) r, of "?c div 32"]
      have "\<exists>out' op' err. lzf_back inp out out_len (ip + 2) op (7 + unat (inp ! (ip + 1))) (int op - int (?c mod 32 * 256) - 1) = Some (out', ip + 3, op', err) \<and>
         length out' = length out \<and> op' \<le> out_len \<and> drop out_len out' = drop out_len out" if "ip + 2 < length inp"
        using lzf_back_safe [OF that assms(2,3) r, of "7 + unat (inp ! (ip + 1))"] by (simp add: numeral_3_eq_3)
      then show ?thesis using bref l b1 assms by (auto simp: lzf_round_def rd_in Let_def not_le numeral_2_eq_2 add.commute)
    qed
  qed
qed

lemma lzf_dloop_safe:
  assumes "ip < length inp" "op \<le> out_len" "out_len \<le> length out"
  shows "\<exists>out' r. lzf_dloop inp out out_len ip op = Some (out', r) \<and> length out' = length out \<and> drop out_len out' = drop out_len out \<and>
    (case r of LzErr e \<Rightarrow> True | LzOk n \<Rightarrow> n \<le> out_len)"
  using assms
proof (induction "length inp - ip" arbitrary: ip op out rule: less_induct)
  case less
  obtain out1 ip1 op1 err where r: "lzf_round inp out out_len ip op = Some (out1, ip1, op1, err)" "ip < ip1" "length out1 = length out"
    "op1 \<le> out_len" "drop out_len out1 = drop out_len out"
    using lzf_round_safe [OF less.prems] by blast
  show ?case
  proof (cases "err = None \<and> ip1 < length inp")
    case True
    have "length inp - ip1 < length inp - ip" using r(2) True by (intro diff_less_mono2) auto
    from less.hyps [OF this, of op1 out1] True r less.prems(3) obtain out' res where "lzf_dloop inp out1 out_len ip1 op1 = Some (out', res)" "length out' = length out"
      "drop out_len out' = drop out_len out" "case res of LzErr e \<Rightarrow> True | LzOk n \<Rightarrow> n \<le> out_len" by auto
    then show ?thesis using r(1) True by (simp add: lzf_dloop.simps [of inp out])
  next
    case False
    then show ?thesis using r by (cases err) (simp_all add: lzf_dloop.simps [of inp out])
  qed
qed

section \<open>The compressed format\<close>

text \<open>\<open>LLLooooo oooooooo\<close> and \<open>111ooooo LLLLLLLL oooooooo\<close>: a reference of \<open>n\<close> bytes, \<open>off + 1\<close> bytes back.\<close>

definition ref_bytes :: "nat \<Rightarrow> nat \<Rightarrow> bytes" where
  "ref_bytes off n =
     (if n - 2 < 7 then [word_of_nat (off div 256 + (n - 2) * 32), word_of_nat off]
      else [word_of_nat (off div 256 + 7 * 32), word_of_nat (n - 2 - 7), word_of_nat off])"

text \<open>The streams that stand for a string.\<close>

inductive lzenc :: "bytes \<Rightarrow> bytes \<Rightarrow> bool" where
  enc_nil: "lzenc [] []"
| enc_lit: "lzenc es x \<Longrightarrow> 1 \<le> length l \<Longrightarrow> length l \<le> MAX_LIT \<Longrightarrow> lzenc (es @ word_of_nat (length l - 1) # l) (x @ l)"
| enc_ref: "lzenc es x \<Longrightarrow> off < MAX_OFF \<Longrightarrow> off < length x \<Longrightarrow> 3 \<le> n \<Longrightarrow> n \<le> MAX_REF \<Longrightarrow> length x' = length x + n \<Longrightarrow>
    take (length x) x' = x \<Longrightarrow> (\<forall>i<n. x' ! (length x + i) = x' ! (length x - off - 1 + i)) \<Longrightarrow> lzenc (es @ ref_bytes off n) x'"

inductive_cases lzenc_NilE: "lzenc [] x"

lemma byte_nat: "n < 256 \<Longrightarrow> unat (word_of_nat n :: byte) = n"
  by (simp add: unat_of_nat)

lemma byte_low: "unat (word_of_nat n :: byte) = n mod 256"
  by (simp add: unat_of_nat)

lemma rd_append: "rd (xs @ y # ys) (length xs) = Some y"
  by (simp add: rd_def)

lemma lit_round:
  assumes "1 \<le> length l" "length l \<le> MAX_LIT" "length x + length l \<le> out_len" "out_len \<le> length out" "take (length x) out = x"
    and h: "unat (h :: byte) = length l - 1"
  shows "\<exists>out'. lzf_round (es @ (h # l) @ rest) out out_len (length es) (length x) =
     Some (out', length es + length (h # l), length x + length l, None) \<and>
     length out' = length out \<and> take (length x + length l) out' = x @ l"
proof -
  have c: "length l - 1 < 32" "Suc (length l - Suc 0) = length l" using assms(1,2) by (simp_all add: MAX_LIT_def)
  have b: "rd_block (es @ h # l @ rest) (Suc (length es)) (length l) = Some l" by (simp add: rd_block_def)
  have lx: "length x \<le> length out" using assms(3,4) by simp
  then have "take (length x + length l) (take (length x) out @ l @ drop (length x + length l) out) = x @ l" using assms(5) by simp
  then show ?thesis using assms c lx by (simp add: lzf_round_def rd_append Let_def b wr_block_def h)
qed

lemma lzf_back_ok:
  assumes "rd inp ip = Some b" "ref - int (unat b) = int r" "op + len + 2 \<le> out_len" "copy_ref (len + 2) out r op = Some out'"
  shows "lzf_back inp out out_len ip op len ref = Some (out', ip + 1, op + len + 2, None)"
proof -
  have "nat (ref - int (unat b)) = r" "\<not> ref - int (unat b) < 0" "\<not> op + len + 2 > out_len" using assms(2,3) by simp_all
  then show ?thesis unfolding lzf_back_def Let_def using assms(1,4) by (simp only: if_False bind.bind_lunit)
qed

lemma ref_round:
  assumes "off < MAX_OFF" "off < length x" "3 \<le> n" "n \<le> MAX_REF" "length x' = length x + n" "take (length x) x' = x"
    and "\<forall>i<n. x' ! (length x + i) = x' ! (length x - off - 1 + i)"
    and "length x' \<le> out_len" "out_len \<le> length out" "take (length x) out = x"
  shows "\<exists>out'. lzf_round (es @ ref_bytes off n @ rest) out out_len (length es) (length x) =
     Some (out', length es + length (ref_bytes off n), length x', None) \<and> length out' = length out \<and> take (length x') out' = x'"
proof -
  have off: "off div 256 < 32" using assms(1) by (simp add: MAX_OFF_def)
  have ref: "int (length x) - int (off div 256 * 256) - 1 - int (off mod 256) = int (length x - off - 1)"
  proof -
    have "length x = (length x - off - 1) + off div 256 * 256 + off mod 256 + 1" using assms(2) by simp
    then have "int (length x) = int (length x - off - 1) + int (off div 256 * 256) + int (off mod 256) + 1"
      using arg_cong [where f = int, of "length x" "(length x - off - 1) + off div 256 * 256 + off mod 256 + 1"] by (simp only: of_nat_add of_nat_1)
    then show ?thesis by linarith
  qed
  have "length x - off - 1 < length x" "length x + n \<le> length out" using assms by simp_all
  from copy_ref_ok [OF this] obtain out' where o: "copy_ref n out (length x - off - 1) (length x) = Some out'" "length out' = length out"
    "take (length x) out' = take (length x) out" "\<forall>i<n. out' ! (length x + i) = out' ! (length x - off - 1 + i)" by blast
  have same: "out' ! k = x' ! k" if "k < length x'" for k
    using that
  proof (induction k rule: less_induct)
    case (less k)
    show ?case
    proof (cases "k < length x")
      case True
      then have "out' ! k = x ! k" using o(3) assms(10) by (metis nth_take)
      also have "\<dots> = x' ! k" using True assms(6) by (metis nth_take)
      finally show ?thesis .
    next
      case False
      define i where "i = k - length x"
      have i: "k = length x + i" "i < n" using False less.prems assms(5) by (simp_all add: i_def)
      have "length x - off - 1 + i < k" using i assms(2) by simp
      then show ?thesis using less.IH [of "length x - off - 1 + i"] o(4) assms(7) i less.prems by simp
    qed
  qed
  then have t: "take (length x') out' = x'" using assms(8,9) o(2) by (intro nth_equalityI) simp_all
  show ?thesis
  proof (cases "n - 2 < 7")
    case True
    have c: "off div 256 + (n - 2) * 32 < 256" using True off by simp
    have d: "(off div 256 + (n - 2) * 32) div 32 = n - 2" "(off div 256 + (n - 2) * 32) mod 32 = off div 256" "\<not> off div 256 + (n - 2) * 32 < 32"
      using off assms(3) by (simp_all add: div_mult_self3)
    have n2: "length x + (n - 2) + 2 = length x + n" "n - 2 + 2 = n" using assms(3) by simp_all
    have "lzf_back (es @ ref_bytes off n @ rest) out out_len (length es + 1) (length x) (n - 2) (int (length x) - int (off div 256 * 256) - 1) =
        Some (out', length es + 1 + 1, length x + (n - 2) + 2, None)"
    proof (rule lzf_back_ok)
      show "rd (es @ ref_bytes off n @ rest) (length es + 1) = Some (word_of_nat off)" using True by (simp add: ref_bytes_def rd_def nth_append)
    qed (use ref assms(5,8) o(1) n2 in \<open>simp_all only: byte_low\<close>)
    moreover have "lzf_round (es @ ref_bytes off n @ rest) out out_len (length es) (length x) =
        lzf_back (es @ ref_bytes off n @ rest) out out_len (length es + 1) (length x) (n - 2) (int (length x) - int (off div 256 * 256) - 1)"
      using True d byte_nat [OF c] by (simp add: lzf_round_def ref_bytes_def rd_append Let_def)
    ultimately show ?thesis using True o(2) t n2 assms(5) by (simp add: ref_bytes_def)
  next
    case False
    have c: "off div 256 + 7 * 32 < 256" "n - 2 - 7 < 256" using off assms(4) by (simp_all add: MAX_REF_def)
    have d: "(off div 256 + 7 * 32) div 32 = 7" "(off div 256 + 7 * 32) mod 32 = off div 256"
      using off by (simp, simp only: mod_mult_self1 mod_less)
    have n2: "length x + (n - 2) + 2 = length x + n" "n - 2 + 2 = n" "7 + (n - 2 - 7) = n - 2" using assms(3) False by simp_all
    have "lzf_back (es @ ref_bytes off n @ rest) out out_len (length es + 2) (length x) (n - 2) (int (length x) - int (off div 256 * 256) - 1) =
        Some (out', length es + 2 + 1, length x + (n - 2) + 2, None)"
    proof (rule lzf_back_ok)
      show "rd (es @ ref_bytes off n @ rest) (length es + 2) = Some (word_of_nat off)" using False by (simp add: ref_bytes_def rd_def nth_append)
    qed (use ref assms(5,8) o(1) n2 in \<open>simp_all only: byte_low\<close>)
    moreover have "lzf_round (es @ ref_bytes off n @ rest) out out_len (length es) (length x) =
        lzf_back (es @ ref_bytes off n @ rest) out out_len (length es + 2) (length x) (n - 2) (int (length x) - int (off div 256 * 256) - 1)"
      using False d byte_nat [OF c(1)] byte_nat [OF c(2)] n2(3) by (simp add: lzf_round_def ref_bytes_def rd_append rd_def nth_append Let_def)
    ultimately show ?thesis using False o(2) t n2 assms(5) by (simp add: ref_bytes_def)
  qed
qed

text \<open>Decoding a prefix of a stream, and a whole stream.\<close>

lemma decode_prefix:
  assumes "lzenc es x"
  shows "length x \<le> out_len \<Longrightarrow> out_len \<le> length out \<Longrightarrow> rest \<noteq> [] \<Longrightarrow>
    \<exists>out'. lzf_dloop (es @ rest) out out_len 0 0 = lzf_dloop (es @ rest) out' out_len (length es) (length x) \<and>
      length out' = length out \<and> take (length x) out' = x"
  using assms
proof (induction arbitrary: rest rule: lzenc.induct)
  case enc_nil
  then show ?case by auto
next
  case (enc_lit es x l)
  let ?t = "word_of_nat (length l - 1) # l"
  obtain out1 where o1: "lzf_dloop (es @ ?t @ rest) out out_len 0 0 = lzf_dloop (es @ ?t @ rest) out1 out_len (length es) (length x)"
    "length out1 = length out" "take (length x) out1 = x" using enc_lit.IH [of "?t @ rest"] enc_lit.prems by auto
  have h: "unat (word_of_nat (length l - 1) :: byte) = length l - 1" using enc_lit.hyps by (intro byte_nat) (simp add: MAX_LIT_def)
  obtain out2 where "lzf_round (es @ ?t @ rest) out1 out_len (length es) (length x) = Some (out2, length es + length ?t, length x + length l, None)"
    "length out2 = length out1" "take (length x + length l) out2 = x @ l"
    using lit_round [OF enc_lit.hyps(2,3) _ _ o1(3) h, where out_len = out_len and es = es and rest = rest] enc_lit.prems(1,2) o1(2) by auto
  moreover have "length es + length ?t < length (es @ ?t @ rest)" using enc_lit.prems(3) by simp
  ultimately show ?case using o1 by (intro exI [of _ out2]) (simp add: lzf_dloop.simps [of _ out1])
next
  case (enc_ref es x off n x')
  let ?t = "ref_bytes off n"
  have "length x \<le> out_len" using enc_ref.hyps(6) enc_ref.prems(1) by simp
  then obtain out1 where o1: "lzf_dloop (es @ ?t @ rest) out out_len 0 0 = lzf_dloop (es @ ?t @ rest) out1 out_len (length es) (length x)"
    "length out1 = length out" "take (length x) out1 = x" using enc_ref.IH [of "?t @ rest"] enc_ref.prems by auto
  obtain out2 where "lzf_round (es @ ?t @ rest) out1 out_len (length es) (length x) = Some (out2, length es + length ?t, length x', None)"
    "length out2 = length out1" "take (length x') out2 = x'"
    using ref_round [OF enc_ref.hyps(2-8) enc_ref.prems(1) _ o1(3)] enc_ref.prems(2) o1(2) by auto
  moreover have "length es + length ?t < length (es @ ?t @ rest)" using enc_ref.prems(3) by simp
  ultimately show ?case using o1 by (intro exI [of _ out2]) (simp add: lzf_dloop.simps [of _ out1])
qed

lemma decode_ok:
  assumes "lzenc es x" "es \<noteq> []" "length x \<le> out_len" "out_len \<le> length out"
  shows "\<exists>out'. lzf_decompress es out out_len = Some (out', LzOk (length x)) \<and> length out' = length out \<and> take (length x) out' = x"
  using assms
proof (cases rule: lzenc.cases)
  case (enc_lit es1 x1 l)
  let ?t = "word_of_nat (length l - 1) # l"
  obtain out1 where o1: "lzf_dloop (es1 @ ?t) out out_len 0 0 = lzf_dloop (es1 @ ?t) out1 out_len (length es1) (length x1)"
    "length out1 = length out" "take (length x1) out1 = x1" using decode_prefix [OF enc_lit(3), of out_len out ?t] enc_lit(2) assms(3,4) by auto
  have h: "unat (word_of_nat (length l - 1) :: byte) = length l - 1" using enc_lit by (intro byte_nat) (simp add: MAX_LIT_def)
  obtain out2 where "lzf_round (es1 @ ?t @ []) out1 out_len (length es1) (length x1) = Some (out2, length es1 + length ?t, length x1 + length l, None)"
    "length out2 = length out1" "take (length x1 + length l) out2 = x1 @ l"
    using lit_round [OF enc_lit(4,5) _ _ o1(3) h, where out_len = out_len and es = es1 and rest = "[]"] enc_lit(2) assms(3,4) o1(2) by auto
  then show ?thesis using o1 enc_lit(1,2) by (simp add: lzf_decompress_def lzf_dloop.simps [of _ out1])
next
  case (enc_ref es1 x1 off n)
  let ?t = "ref_bytes off n"
  have ne: "?t \<noteq> []" by (simp add: ref_bytes_def)
  obtain out1 where o1: "lzf_dloop (es1 @ ?t) out out_len 0 0 = lzf_dloop (es1 @ ?t) out1 out_len (length es1) (length x1)"
    "length out1 = length out" "take (length x1) out1 = x1" using decode_prefix [OF enc_ref(2) _ _ ne, of out_len out] enc_ref(7) assms(3,4) by auto
  obtain out2 where "lzf_round (es1 @ ?t @ []) out1 out_len (length es1) (length x1) = Some (out2, length es1 + length ?t, length x, None)"
    "length out2 = length out1" "take (length x) out2 = x"
    using ref_round [OF enc_ref(3-9) assms(3) _ o1(3), where es = es1 and rest = "[]"] assms(4) o1(2) by auto
  then show ?thesis using o1 enc_ref(1) by (simp add: lzf_decompress_def lzf_dloop.simps [of _ out1])
qed simp

section \<open>The compressor\<close>

definition same_at :: "bytes \<Rightarrow> nat \<Rightarrow> nat \<Rightarrow> nat \<Rightarrow> bool" where
  "same_at inp ref ip n \<longleftrightarrow> (\<forall>i<n. inp ! (ref + i) = inp ! (ip + i))"

lemma same_at_Suc: "same_at inp ref ip (Suc n) \<longleftrightarrow> same_at inp ref ip n \<and> inp ! (ref + n) = inp ! (ip + n)"
  by (auto simp: same_at_def less_Suc_eq)

lemma lzf_hit_ok:
  assumes "ip + 2 < length inp"
  shows "\<exists>h. lzf_hit inp ip ref = Some h \<and>
    (h \<longrightarrow> 0 < ref \<and> nat ref < ip \<and> ip - nat ref - 1 < MAX_OFF \<and> ip + 4 < length inp \<and> same_at inp (nat ref) ip 3)"
proof (cases "ref < int ip \<and> int ip - ref - 1 < int MAX_OFF \<and> ip + 4 < length inp \<and> ref > 0")
  case True
  then have r: "nat ref < ip" "ip - nat ref - 1 < MAX_OFF" "ip + 4 < length inp" by linarith+
  have t: "take 2 (drop k inp) = [inp ! k, inp ! Suc k]" if "k + 4 < length inp" for k
    using that by (simp add: numeral_2_eq_2 Cons_nth_drop_Suc [symmetric])
  have b: "rd_block inp k 2 = Some [inp ! k, inp ! Suc k]" if "k + 4 < length inp" for k using that t [OF that] by (simp add: rd_block_def)
  show ?thesis
    using True r b [of "nat ref"] b [of ip] by (auto simp: lzf_hit_def rd_in same_at_def numeral_3_eq_3 less_Suc_eq)
next
  case False
  then have "lzf_hit inp ip ref = Some False" unfolding lzf_hit_def by (rule if_not_P)
  then show ?thesis by (intro exI [of _ False]) simp
qed

lemma match_run_ok:
  "ref < ip \<Longrightarrow> ip + len + k < length inp \<Longrightarrow> same_at inp ref ip (Suc len) \<Longrightarrow>
    \<exists>l stop. match_run k inp ref ip len = Some (l, stop) \<and> len \<le> l \<and> l \<le> len + k \<and> same_at inp ref ip l \<and>
      (if stop then len < l else l = len + k \<and> same_at inp ref ip (Suc l))"
proof (induction k arbitrary: len)
  case 0
  then show ?case by (intro exI [of _ len] exI [of _ False]) (simp add: same_at_Suc)
next
  case (Suc k)
  show ?case
  proof (cases "inp ! (ref + Suc len) = inp ! (ip + Suc len)")
    case True
    then have "same_at inp ref ip (Suc (Suc len))" using Suc.prems(3) by (simp add: same_at_Suc)
    from Suc.IH [OF Suc.prems(1) _ this] Suc.prems(2) obtain l stop where "match_run k inp ref ip (Suc len) = Some (l, stop)" "Suc len \<le> l" "l \<le> Suc len + k"
      "same_at inp ref ip l" "if stop then Suc len < l else l = Suc len + k \<and> same_at inp ref ip (Suc l)" by auto
    then show ?thesis using Suc.prems True by (auto simp: rd_in split: if_splits)
  next
    case False
    then show ?thesis using Suc.prems by (intro exI [of _ "Suc len"] exI [of _ True]) (simp add: rd_in)
  qed
qed

lemma match_rest_ok:
  "ref < ip \<Longrightarrow> ip + maxlen \<le> length inp \<Longrightarrow> same_at inp ref ip (Suc len) \<Longrightarrow>
    \<exists>n. match_rest inp ref ip maxlen len = Some n \<and> len < n \<and> n \<le> max maxlen (Suc len) \<and> same_at inp ref ip n"
proof (induction inp ref ip maxlen len rule: match_rest.induct)
  case (1 inp ref ip maxlen len)
  show ?case
  proof (cases "len + 1 < maxlen \<and> inp ! (ref + (len + 1)) = inp ! (ip + (len + 1))")
    case True
    then have "same_at inp ref ip (Suc (len + 1))" using 1(4) by (simp add: same_at_Suc)
    moreover have rd: "rd inp (ref + (len + 1)) = Some (inp ! (ref + (len + 1)))" "rd inp (ip + (len + 1)) = Some (inp ! (ip + (len + 1)))"
      using True 1(2,3) by (simp_all add: rd_in)
    ultimately obtain n where "match_rest inp ref ip maxlen (len + 1) = Some n" "len + 1 < n" "n \<le> max maxlen (Suc (len + 1))" "same_at inp ref ip n"
      using 1(1) [OF _ rd _ 1(2,3)] True by blast
    then show ?thesis using True rd by (auto simp: match_rest.simps [of inp ref ip maxlen len])
  next
    case False
    then have "match_rest inp ref ip maxlen len = Some (len + 1)" using 1(2,3) by (auto simp: match_rest.simps [of inp ref ip maxlen len] rd_in)
    then show ?thesis using 1(4) by simp
  qed
qed

lemma match_len_ok:
  assumes "ref < ip" "ip + 4 < length inp" "same_at inp ref ip 3"
  shows "\<exists>n. match_len inp ref ip = Some n \<and> 3 \<le> n \<and> n \<le> MAX_REF \<and> ip + n \<le> length inp \<and> same_at inp ref ip n"
proof -
  define m where "m = (if length inp - ip - 2 > MAX_REF then MAX_REF else length inp - ip - 2)"
  have m: "3 \<le> m" "m \<le> MAX_REF" "ip + m + 2 \<le> length inp" using assms(2) by (auto simp: m_def MAX_REF_def)
  have s: "same_at inp ref ip (Suc 2)" using assms(3) by (simp add: numeral_3_eq_3 numeral_2_eq_2)
  have un: "match_len inp ref ip = do {
        (len, stop) \<leftarrow> (if m > 16 then match_run 16 inp ref ip 2 else Some (2, False));
        if stop then Some len else match_rest inp ref ip m len }"
    by (simp only: match_len_def Let_def m_def)
  have rest: "\<exists>n. match_rest inp ref ip m len = Some n \<and> 3 \<le> n \<and> n \<le> MAX_REF \<and> ip + n \<le> length inp \<and> same_at inp ref ip n"
    if l: "same_at inp ref ip (Suc len)" "2 \<le> len" "ip + Suc len \<le> length inp" "len < 19" for len
  proof -
    have "ip + m \<le> length inp" using m(3) by simp
    from match_rest_ok [OF assms(1) this l(1)] obtain n where n: "match_rest inp ref ip m len = Some n" "len < n" "n \<le> max m (Suc len)" "same_at inp ref ip n"
      by blast
    have "n \<le> MAX_REF" "ip + n \<le> length inp" using n(3) m l(3,4) by (auto simp: MAX_REF_def max_def split: if_splits)
    then show ?thesis using n l(2) by auto
  qed
  show ?thesis
  proof (cases "m > 16")
    case True
    then have "ip + 2 + 16 < length inp" using m(3) by simp
    from match_run_ok [OF assms(1) this s] obtain l stop where r: "match_run 16 inp ref ip 2 = Some (l, stop)" "2 \<le> l" "l \<le> 18" "same_at inp ref ip l"
      "if stop then 2 < l else l = 18 \<and> same_at inp ref ip (Suc l)" by (auto split: if_splits)
    have "\<exists>n. (if stop then Some l else match_rest inp ref ip m l) = Some n \<and> 3 \<le> n \<and> n \<le> MAX_REF \<and> ip + n \<le> length inp \<and> same_at inp ref ip n"
      using r rest [of l] \<open>ip + 2 + 16 < length inp\<close> by (auto simp: MAX_REF_def)
    then show ?thesis using True r(1) by (simp add: un)
  next
    case False
    then show ?thesis using rest [OF s] m(1,3) by (simp add: un)
  qed
qed

text \<open>
  Between the rounds: what is written up to the open run stands for the input up to the literals
  of the run, and the run holds the literals.
\<close>

definition lzinv :: "bytes \<Rightarrow> nat \<Rightarrow> bytes \<Rightarrow> nat \<Rightarrow> nat \<Rightarrow> nat \<Rightarrow> bool" where
  "lzinv inp out_len out ip op lit \<longleftrightarrow>
     out_len < length out \<and> lit < MAX_LIT \<and> lit + 1 \<le> op \<and> lit \<le> ip \<and> ip \<le> length inp \<and> op \<le> out_len + 1 \<and> (0 < lit \<longrightarrow> op \<le> out_len) \<and>
     lzenc (take (op - lit - 1) out) (take (ip - lit) inp) \<and> take lit (drop (op - lit) out) = take lit (drop (ip - lit) inp)"

lemma run_header: "lit \<le> MAX_LIT \<Longrightarrow> 0 < lit \<Longrightarrow> word_of_int (int lit - 1) = (word_of_nat (lit - 1) :: byte)"
  by (cases lit) simp_all

lemma stop_run_enc:
  assumes "0 < lit" "lit \<le> MAX_LIT" "lit + 1 \<le> op" "op \<le> length out" "lit \<le> ip" "ip \<le> length inp"
    and "lzenc (take (op - lit - 1) out) (take (ip - lit) inp)" "take lit (drop (op - lit) out) = take lit (drop (ip - lit) inp)"
  shows "\<exists>out'. stop_run out op lit = Some out' \<and> length out' = length out \<and> lzenc (take op out') (take ip inp)"
proof -
  let ?h = "word_of_nat (lit - 1) :: byte" and ?l = "take lit (drop (ip - lit) inp)" and ?p = "op - lit - 1"
  let ?o = "out[?p := ?h]"
  have ll: "length ?l = lit" using assms(5,6) by simp
  have p: "?p < length out" "Suc ?p = op - lit" "op = ?p + Suc lit" using assms(3,4) by simp_all
  have "take op ?o = take ?p ?o @ take (Suc lit) (drop ?p ?o)" by (subst p(3)) (rule take_add)
  also have "drop ?p ?o = ?h # drop (op - lit) out" using p(1,2) by (simp add: Cons_nth_drop_Suc [symmetric])
  finally have t: "take op ?o = take ?p out @ ?h # ?l" using assms(8) by simp
  have "take ip inp = take (ip - lit) inp @ ?l" using assms(5) by (metis le_add_diff_inverse2 take_add)
  moreover have "lzenc (take ?p out @ word_of_nat (length ?l - 1) # ?l) (take (ip - lit) inp @ ?l)"
    by (rule enc_lit [OF assms(7)]) (use ll assms(1,2) in simp_all)
  ultimately have "lzenc (take op ?o) (take ip inp)" using t ll by simp
  then show ?thesis using p(1) assms(3) run_header [OF assms(2,1)] by (simp add: stop_run_def wr_in)
qed

lemma stop_run_ok:
  assumes "lzinv inp out_len out ip op lit"
  shows "\<exists>out'. stop_run out op lit = Some out' \<and> length out' = length out \<and> lzenc (take (if lit = 0 then op - 1 else op) out') (take ip inp)"
proof (cases "lit = 0")
  case True
  then have "op - 1 < length out" "1 \<le> op" "lzenc (take (op - 1) out) (take ip inp)" using assms by (auto simp: lzinv_def)
  then show ?thesis using True by (simp add: stop_run_def wr_in)
next
  case False
  have "\<exists>out'. stop_run out op lit = Some out' \<and> length out' = length out \<and> lzenc (take op out') (take ip inp)"
    by (rule stop_run_enc) (use assms False in \<open>auto simp: lzinv_def\<close>)
  then show ?thesis using False by simp
qed

lemma put_lit_ok:
  assumes i: "lzinv inp out_len out ip op lit" and "ip < length inp" "op < out_len"
  shows "\<exists>out' op' lit'. put_lit inp out ip op lit = Some (out', op', lit') \<and> length out' = length out \<and> lzinv inp out_len out' (ip + 1) op' lit' \<and>
    (op' = op + 1 \<or> op' = op + 2 \<and> lit' = 0 \<and> lit \<noteq> 0)"
proof -
  let ?o = "out[op := inp ! ip]"
  note d = i [unfolded lzinv_def]
  have e: "lzenc (take (op - lit - 1) ?o) (take (ip - lit) inp)" using d by simp
  have s: "take (Suc lit) (drop (op - lit) ?o) = take (Suc lit) (drop (ip - lit) inp)"
  proof -
    have "take (Suc lit) (drop (op - lit) ?o) = take lit (drop (op - lit) ?o) @ [?o ! op]"
      using d assms(3) by (subst take_Suc_conv_app_nth) auto
    also have "take lit (drop (op - lit) ?o) = take lit (drop (op - lit) out)" using d by (simp add: drop_update_swap)
    also have "take lit (drop (op - lit) out) @ [?o ! op] = take lit (drop (ip - lit) inp) @ [inp ! ip]" using d assms(3) by simp
    also have "\<dots> = take (Suc lit) (drop (ip - lit) inp)" using d assms(2) by (subst take_Suc_conv_app_nth) auto
    finally show ?thesis .
  qed
  have pl: "put_lit inp out ip op lit = (if lit + 1 = MAX_LIT then do { out \<leftarrow> stop_run ?o (op + 1) (lit + 1); Some (out, op + 2, 0) } else Some (?o, op + 1, lit + 1))"
    using d assms(2,3) by (simp add: put_lit_def rd_in wr_in Let_def)
  show ?thesis
  proof (cases "lit + 1 = MAX_LIT")
    case False
    then have "lzinv inp out_len ?o (ip + 1) (op + 1) (lit + 1)" using d e s assms(2,3) by (simp add: lzinv_def)
    then show ?thesis using pl False by simp
  next
    case True
    have "\<exists>out'. stop_run ?o (op + 1) (lit + 1) = Some out' \<and> length out' = length ?o \<and> lzenc (take (op + 1) out') (take (ip + 1) inp)"
    proof (rule stop_run_enc)
      show "lzenc (take (op + 1 - (lit + 1) - 1) ?o) (take (ip + 1 - (lit + 1)) inp)" "take (lit + 1) (drop (op + 1 - (lit + 1)) ?o) = take (lit + 1) (drop (ip + 1 - (lit + 1)) inp)"
        using e s by simp_all
    qed (use True d assms(2,3) in simp_all)
    then obtain out' where o: "stop_run ?o (op + 1) (lit + 1) = Some out'" "length out' = length out" "lzenc (take (op + 1) out') (take (ip + 1) inp)" by auto
    then have "lzinv inp out_len out' (ip + 1) (op + 2) 0" using d assms(2,3) by (simp add: lzinv_def)
    then show ?thesis using pl True o by (auto simp: MAX_LIT_def)
  qed
qed

definition enc_result :: "bytes \<Rightarrow> nat \<Rightarrow> nat \<Rightarrow> (bytes \<times> nat) option \<Rightarrow> bool" where
  "enc_result inp out_len n r \<longleftrightarrow> (\<exists>out' k. r = Some (out', k) \<and> length out' = n \<and> (k \<noteq> 0 \<longrightarrow> k \<le> out_len \<and> lzenc (take k out') inp))"

lemma finish_ok:
  assumes i: "lzinv inp out_len out ip op lit" and ip: "length inp \<le> ip + 2"
  shows "enc_result inp out_len (length out) (lzf_finish inp out_len out ip op lit)"
proof (cases "op + 3 > out_len")
  case True
  then show ?thesis by (simp add: enc_result_def lzf_finish_def)
next
  case False
  have "\<exists>out' op' lit'. tail_loop (length inp - ip) inp out ip op lit = Some (out', op', lit') \<and> length out' = length out \<and>
      lzinv inp out_len out' (length inp) op' lit' \<and> op' \<le> out_len"
  proof -
    have "length inp - ip \<le> 2" "ip \<le> length inp" using ip i by (simp_all add: lzinv_def)
    then consider "length inp = ip" | "length inp = ip + 1" | "length inp = ip + 2" by linarith
    then show ?thesis
    proof cases
      case 1
      then show ?thesis using i False by simp
    next
      case 2
      then show ?thesis using put_lit_ok [OF i] False by auto
    next
      case 3
      obtain o1 op1 l1 where p1: "put_lit inp out ip op lit = Some (o1, op1, l1)" "length o1 = length out" "lzinv inp out_len o1 (ip + 1) op1 l1"
        "op1 = op + 1 \<or> op1 = op + 2 \<and> l1 = 0 \<and> lit \<noteq> 0" using put_lit_ok [OF i] 3 False by auto
      obtain o2 op2 l2 where p2: "put_lit inp o1 (ip + 1) op1 l1 = Some (o2, op2, l2)" "length o2 = length o1" "lzinv inp out_len o2 (ip + 1 + 1) op2 l2"
        "op2 = op1 + 1 \<or> op2 = op1 + 2 \<and> l2 = 0 \<and> l1 \<noteq> 0" using put_lit_ok [OF p1(3)] 3 False p1(4) by auto
      have "op2 \<le> out_len" using p1(4) p2(4) False by auto
      then show ?thesis using p1 p2 3 by (simp add: numeral_2_eq_2)
    qed
  qed
  then obtain o1 op1 l1 where t: "tail_loop (length inp - ip) inp out ip op lit = Some (o1, op1, l1)" "length o1 = length out"
    "lzinv inp out_len o1 (length inp) op1 l1" "op1 \<le> out_len" by blast
  from stop_run_ok [OF t(3)] obtain o2 where "stop_run o1 op1 l1 = Some o2" "length o2 = length o1" "lzenc (take (if l1 = 0 then op1 - 1 else op1) o2) inp" by auto
  then show ?thesis using False t by (auto simp: enc_result_def lzf_finish_def)
qed

lemma put_ref_ok:
  assumes "op + 4 < length out" "2 \<le> n"
  shows "\<exists>out'. put_ref out op off (n - 2) = Some (out', op + length (ref_bytes off n)) \<and> length out' = length out \<and>
    take (op + length (ref_bytes off n)) out' = take op out @ ref_bytes off n"
proof -
  have t1: "take (Suc k) (xs[k := y]) = take k xs @ [y]" if "k < length xs" for k and xs :: bytes and y
    using that by (simp add: take_Suc_conv_app_nth)
  show ?thesis
  proof (cases "n - 2 < 7")
    case True
    let ?o = "out[op := word_of_nat (off div 256 + (n - 2) * 32)]"
    have "take (Suc (Suc op)) (?o[Suc op := word_of_nat off]) = take op out @ [word_of_nat (off div 256 + (n - 2) * 32), word_of_nat off]"
      using assms(1) t1 [of "Suc op" ?o] t1 [of op out] by simp
    then show ?thesis using True assms(1) by (simp add: put_ref_def ref_bytes_def wr_in)
  next
    case False
    let ?o = "out[op := word_of_nat (off div 256 + 7 * 32)]" and ?b = "word_of_nat (n - 2 - 7)"
    have "take (Suc (Suc (Suc op))) (?o[Suc op := ?b, Suc (Suc op) := word_of_nat off]) = take op out @ [word_of_nat (off div 256 + 7 * 32), ?b, word_of_nat off]"
      using assms(1) t1 [of "Suc (Suc op)" "?o[Suc op := ?b]"] t1 [of "Suc op" ?o] t1 [of op out] by simp
    then show ?thesis using False assms(1) by (simp add: put_ref_def ref_bytes_def wr_in numeral_3_eq_3)
  qed
qed

lemma learn_ok: "ip + 3 < length inp \<Longrightarrow> \<exists>h ht. learn inp ip htab = Some (h, ht)"
  by (simp add: learn_def FRST_def NEXT_def rd_in Let_def)

lemma NEXT_ok: "ip + 2 < length inp \<Longrightarrow> \<exists>h. NEXT v inp ip = Some h"
  by (simp add: NEXT_def rd_in)

lemma enc_match:
  assumes "lzenc es (take ip inp)" "ref < ip" "ip - ref - 1 < MAX_OFF" "3 \<le> n" "n \<le> MAX_REF" "ip + n \<le> length inp" "same_at inp ref ip n"
  shows "lzenc (es @ ref_bytes (ip - ref - 1) n) (take (ip + n) inp)"
proof (rule enc_ref [OF assms(1,3)])
  have "length (take ip inp) - (ip - ref - 1) - 1 = ref" using assms(2,6) by simp
  then show "\<forall>i<n. take (ip + n) inp ! (length (take ip inp) + i) = take (ip + n) inp ! (length (take ip inp) - (ip - ref - 1) - 1 + i)"
    using assms(2,6,7) by (simp add: same_at_def)
qed (use assms in simp_all)

lemma lzf_loop_ok:
  assumes "lzinv inp out_len out ip op lit"
  shows "enc_result inp out_len (length out) (lzf_loop inp out_len htab out ip op lit hval)"
  using assms
proof (induction "length inp - ip" arbitrary: htab out ip op lit hval rule: less_induct)
  case less
  show ?case
  proof (cases "ip + 2 < length inp")
    case False
    then show ?thesis using finish_ok [OF less.prems] by (simp add: lzf_loop.simps)
  next
    case True
    obtain h where h: "NEXT hval inp ip = Some h" using NEXT_ok [OF True] by blast
    let ?ref = "htab (IDX h)" and ?ht = "htab(IDX h := int ip)"
    obtain hit where hit: "lzf_hit inp ip ?ref = Some hit" "hit \<longrightarrow> 0 < ?ref \<and> nat ?ref < ip \<and> ip - nat ?ref - 1 < MAX_OFF \<and> ip + 4 < length inp \<and> same_at inp (nat ?ref) ip 3"
      using lzf_hit_ok [OF True] by blast
    note un = lzf_loop.simps [of inp out_len htab out ip op lit hval, unfolded Let_def]
    show ?thesis
    proof (cases hit)
      case False
      show ?thesis
      proof (cases "op \<ge> out_len")
        case True
        then show ?thesis using un h hit(1) False \<open>ip + 2 < length inp\<close> by (simp add: enc_result_def)
      next
        case small: False
        obtain o1 op1 l1 where p: "put_lit inp out ip op lit = Some (o1, op1, l1)" "length o1 = length out" "lzinv inp out_len o1 (ip + 1) op1 l1"
          using put_lit_ok [OF less.prems] True small by auto
        have "enc_result inp out_len (length o1) (lzf_loop inp out_len ?ht o1 (ip + 1) op1 l1 h)" by (rule less.hyps [OF _ p(3)]) (use True in simp)
        then show ?thesis using un h hit(1) False True small p(1,2) by simp
      qed
    next
      case True
      let ?r = "nat ?ref" and ?op = "if lit = 0 then op - 1 else op"
      note m = hit(2) [rule_format, OF True]
      obtain o1 where o1: "stop_run out op lit = Some o1" "length o1 = length out" "lzenc (take ?op o1) (take ip inp)" using stop_run_ok [OF less.prems] by blast
      show ?thesis
      proof (cases "?op + 3 + 1 \<ge> out_len")
        case True
        then show ?thesis using un h hit(1) \<open>hit\<close> \<open>ip + 2 < length inp\<close> o1 by (simp add: enc_result_def split del: if_split)
      next
        case room: False
        obtain n where n: "match_len inp ?r ip = Some n" "3 \<le> n" "n \<le> MAX_REF" "ip + n \<le> length inp" "same_at inp ?r ip n" using match_len_ok [of ?r ip inp] m by blast
        obtain k where nk: "n = Suc (Suc k)" using n(2) by (metis add_2_eq_Suc le_add_diff_inverse numeral_2_eq_2 Suc_le_D Suc_le_mono numeral_3_eq_3)
        have ol: "out_len < length o1" using less.prems o1(2) by (simp add: lzinv_def)
        have "?op + 4 < length o1" "2 \<le> n" using room ol n(2) by (simp_all split del: if_split)
        from put_ref_ok [OF this, of "ip - ?r - 1"] obtain o2 where o2: "put_ref o1 ?op (ip - ?r - 1) (n - 2) = Some (o2, ?op + length (ref_bytes (ip - ?r - 1) n))"
          "length o2 = length o1" "take (?op + length (ref_bytes (ip - ?r - 1) n)) o2 = take ?op o1 @ ref_bytes (ip - ?r - 1) n" by blast
        let ?op2 = "?op + length (ref_bytes (ip - ?r - 1) n)"
        have "length (ref_bytes (ip - ?r - 1) n) \<le> 3" by (simp add: ref_bytes_def)
        then have i2: "lzinv inp out_len o2 (ip + n) (?op2 + 1) 0"
          using enc_match [OF o1(3) _ _ n(2-5)] m o2 n(4) room less.prems o1(2) by (simp add: lzinv_def MAX_LIT_def split del: if_split)
        show ?thesis
        proof (cases "ip + n + 2 \<ge> length inp")
          case True
          then have "lzf_loop inp out_len htab out ip op lit hval = lzf_finish inp out_len o2 (ip + n) (?op2 + 1) 0"
            using un h hit(1) \<open>hit\<close> \<open>ip + 2 < length inp\<close> o1(1) room n(1) o2(1) by (simp add: nk split del: if_split)
          then show ?thesis using finish_ok [OF i2] True o2(2) o1(2) by simp
        next
          case False
          obtain h2 ht2 where l: "learn inp (ip + n - 2) ?ht = Some (h2, ht2)" using learn_ok [of "ip + n - 2" inp ?ht] False n(2) by auto
          then have "lzf_loop inp out_len htab out ip op lit hval = lzf_loop inp out_len ht2 o2 (ip + n) (?op2 + 1) 0 h2"
            using un h hit(1) \<open>hit\<close> \<open>ip + 2 < length inp\<close> o1(1) room n(1) o2(1) False by (simp add: nk split del: if_split)
          moreover have "enc_result inp out_len (length o2) (lzf_loop inp out_len ht2 o2 (ip + n) (?op2 + 1) 0 h2)"
            by (rule less.hyps [OF _ i2]) (use n(2,4) \<open>ip + 2 < length inp\<close> in linarith)
          ultimately show ?thesis using o2(2) o1(2) by simp
        qed
      qed
    qed
  qed
qed

section \<open>Properties\<close>

text \<open>
  C16. Round trip: whatever the uninitialised hash table holds, the compressor stays inside an input
  of at least two bytes and a block of \<open>out_len + 1\<close> bytes, returns, and when it returns a length
  other than zero, that many bytes decompress to the input.
\<close>

theorem lzf_roundtrip:
  assumes "2 \<le> length inp" "out_len < length out" "length inp \<le> dst_len" "dst_len \<le> length dst"
  shows "\<exists>out' n. lzf_compress htab inp out out_len = Some (out', n) \<and> length out' = length out \<and> n \<le> out_len \<and>
    (n \<noteq> 0 \<longrightarrow> (\<exists>dst'. lzf_decompress (take n out') dst dst_len = Some (dst', LzOk (length inp)) \<and> take (length inp) dst' = inp))"
proof (cases "out_len = 0")
  case True
  then show ?thesis by (simp add: lzf_compress_def)
next
  case False
  have "lzinv inp out_len out 0 1 0" using False assms(2) enc_nil by (simp add: lzinv_def MAX_LIT_def)
  note l = lzf_loop_ok [OF this]
  have "inp \<noteq> []" using assms(1) by auto
  then obtain h where "FRST inp 0 = Some h" using assms(1) by (auto simp: FRST_def rd_def)
  then have "enc_result inp out_len (length out) (lzf_compress htab inp out out_len)" using l False assms(1) by (auto simp: lzf_compress_def)
  then obtain out' n where r: "lzf_compress htab inp out out_len = Some (out', n)" "length out' = length out" "n \<noteq> 0 \<longrightarrow> n \<le> out_len \<and> lzenc (take n out') inp"
    by (auto simp: enc_result_def)
  have "\<exists>dst'. lzf_decompress (take n out') dst dst_len = Some (dst', LzOk (length inp)) \<and> take (length inp) dst' = inp" if "n \<noteq> 0"
  proof -
    have "take n out' \<noteq> []" using that r(2,3) assms(2) by auto
    then show ?thesis using decode_ok [of "take n out'" inp dst_len dst] r(3) that assms(3,4) by blast
  qed
  then show ?thesis using r by auto
qed

theorem lzf_roundtrip_witness:
  "\<exists>out' n. lzf_compress (\<lambda>_. 0) (replicate 40 65) (replicate 37 0) 36 = Some (out', n) \<and> n \<le> 36"
  using lzf_roundtrip [of "replicate 40 65" 36 "replicate 37 0" 40 "replicate 40 0" "\<lambda>_. 0"] by auto

text \<open>
  C17. Memory safety of the decompressor on arbitrary non-empty input: it returns, never reads
  outside the compressed data or writes at or behind \<open>out_len\<close>, and never reports more than
  \<open>out_len\<close> bytes.  On empty input it is not safe: the first thing it does is to read a byte
  outside the input.
\<close>

theorem lzf_decompress_safe:
  assumes "out_len \<le> length out"
  shows "if inp = [] then lzf_decompress inp out out_len = None
    else \<exists>out' r. lzf_decompress inp out out_len = Some (out', r) \<and> length out' = length out \<and> drop out_len out' = drop out_len out \<and>
      (case r of LzErr e \<Rightarrow> True | LzOk n \<Rightarrow> n \<le> out_len)"
proof (cases "inp = []")
  case True
  then have "lzf_round inp out out_len 0 0 = None" by (simp add: lzf_round_def rd_def)
  then show ?thesis using True unfolding lzf_decompress_def by (subst lzf_dloop.simps) simp
next
  case False
  have "\<exists>out' r. lzf_dloop inp out out_len 0 0 = Some (out', r) \<and> length out' = length out \<and> drop out_len out' = drop out_len out \<and>
      (case r of LzErr e \<Rightarrow> True | LzOk n \<Rightarrow> n \<le> out_len)"
    by (rule lzf_dloop_safe) (use assms False in auto)
  then show ?thesis using False unfolding lzf_decompress_def by simp
qed

theorem lzf_decompress_safe_witness:
  "(\<exists>out' r. lzf_decompress [255, 255, 255] (replicate 10 0) 10 = Some (out', r) \<and> length out' = 10) \<and> lzf_decompress [] (replicate 10 0) 10 = None"
  using lzf_decompress_safe [of 10 "replicate 10 0" "[255, 255, 255]"] lzf_decompress_safe [of 10 "replicate 10 0" "[]"] by auto

text \<open>As long as nothing matches, the bytes are written to the open run.\<close>

lemma literal_phase:
  assumes "\<And>i r. i < n \<Longrightarrow> lzf_hit inp i r = Some False" "n < MAX_LIT" "n + 1 < length inp" "n < out_len" "out_len \<le> length out"
    and h0: "FRST inp 0 = Some h0"
  shows "\<exists>ht out' h. lzf_loop inp out_len htab out 0 1 0 h0 = lzf_loop inp out_len ht out' n (n + 1) n h \<and> length out' = length out \<and>
    take_bit 16 h = push_bit 8 (ucast (inp ! n)) OR ucast (inp ! (n + 1))"
  using assms(1-4)
proof (induction n)
  case 0
  then have "h0 = push_bit 8 (ucast (inp ! 0)) OR ucast (inp ! 1)" using h0 by (auto simp: FRST_def rd_def split: if_splits)
  then have "take_bit 16 h0 = push_bit 8 (ucast (inp ! 0)) OR ucast (inp ! 1)" by (auto simp: bit_eq_iff bit_simps dest: bit_imp_le_length)
  then show ?case by auto
next
  case (Suc n)
  obtain ht o1 h where i: "lzf_loop inp out_len htab out 0 1 0 h0 = lzf_loop inp out_len ht o1 n (n + 1) n h" "length o1 = length out"
    "take_bit 16 h = push_bit 8 (ucast (inp ! n)) OR ucast (inp ! (n + 1))" using Suc.IH Suc.prems by auto
  let ?h = "push_bit 8 h OR ucast (inp ! (n + 2))"
  have "lzf_loop inp out_len ht o1 n (n + 1) n h = lzf_loop inp out_len (ht(IDX ?h := int n)) (o1[n + 1 := inp ! n]) (Suc n) (Suc n + 1) (Suc n) ?h"
    using Suc.prems assms(5) i(2) by (subst lzf_loop.simps) (simp add: NEXT_def rd_in put_lit_def wr_in Let_def)
  moreover have "take_bit 16 ?h = push_bit 8 (ucast (inp ! Suc n)) OR ucast (inp ! (Suc n + 1))"
  proof -
    have "take_bit 16 ?h = push_bit 8 (take_bit 8 (take_bit 16 h)) OR ucast (inp ! (n + 2))"
      by (auto simp: bit_eq_iff bit_simps dest: bit_imp_le_length)
    also have "take_bit 8 (take_bit 16 h) = ucast (inp ! (n + 1))" unfolding i(3) by (auto simp: bit_eq_iff bit_simps dest: bit_imp_le_length)
    finally show ?thesis by simp
  qed
  ultimately show ?case using i(1,2) by (metis length_list_update)
qed

lemma IDX_int: "int (IDX h) = (uint h div 256 - uint h * 5) mod 65536"
proof -
  have "x AND 0xffff = take_bit 16 x" for x :: "32 word" by (simp add: take_bit_eq_mask mask_numeral)
  then have "int (IDX h) = uint (take_bit 16 (drop_bit 8 h - h * 5))" by (simp only: IDX_def uint_nat)
  also have "\<dots> = take_bit 16 (uint (drop_bit 8 h - h * 5))" by (rule unsigned_take_bit_eq)
  also have "\<dots> = uint (drop_bit 8 h - h * 5) mod 65536" by (simp add: take_bit_eq_mod)
  also have "uint (drop_bit 8 h - h * 5) = (uint h div 256 - uint h * 5 mod 4294967296) mod 4294967296"
    by (simp add: uint_word_ariths drop_bit_eq_div uint_div)
  also have "\<dots> mod 65536 = (uint h div 256 - uint h * 5 mod 4294967296) mod 65536" by (rule mod_mod_cancel) simp
  also have "\<dots> = (uint h div 256 - uint h * 5 mod 4294967296 mod 65536) mod 65536" by (rule mod_diff_right_eq [symmetric])
  also have "uint h * 5 mod 4294967296 mod 65536 = uint h * 5 mod 65536" by (rule mod_mod_cancel) simp
  also have "(uint h div 256 - uint h * 5 mod 65536) mod 65536 = (uint h div 256 - uint h * 5) mod 65536" by (rule mod_diff_right_eq)
  finally show ?thesis .
qed

lemma IDX_low: "take_bit 24 h = take_bit 24 h' \<Longrightarrow> IDX h = IDX h'"
proof -
  assume e: "take_bit 24 h = take_bit 24 h'"
  have i: "int (IDX h) = ((uint h mod 16777216) div 256 - (uint h mod 16777216) * 5) mod 65536" for h
  proof -
    define q r where "q = uint h div 16777216" and "r = uint h mod 16777216"
    have u: "uint h = 65536 * (256 * q) + r" by (simp add: q_def r_def)
    have "uint h div 256 = 65536 * q + r div 256" unfolding u by simp
    then have "uint h div 256 - uint h * 5 = (r div 256 - r * 5) + 65536 * (q - 1280 * q)" unfolding u by simp
    then show ?thesis unfolding IDX_int r_def [symmetric] by (simp only: mod_mult_self2)
  qed
  have "uint h mod 16777216 = uint h' mod 16777216" using arg_cong [OF e, of uint] unfolding unsigned_take_bit_eq by (simp add: take_bit_eq_mod)
  then have "int (IDX h) = int (IDX h')" unfolding i by simp
  then show ?thesis by simp
qed

lemma low_bits: "take_bit 24 (push_bit 8 x OR 31) = push_bit 8 (take_bit 16 x) OR 31" for x :: "32 word"
proof -
  have "(31 :: 32 word) = mask 5" by (simp add: mask_numeral)
  then show ?thesis by (auto simp: bit_eq_iff bit_simps)
qed

text \<open>31 different bytes and a repeated one.\<close>

definition overrun :: bytes where
  "overrun = map word_of_nat [0..<31] @ replicate 7 31"

lemma overrun_nth: "length overrun = 38" "i < 31 \<Longrightarrow> overrun ! i = word_of_nat i" "31 \<le> i \<Longrightarrow> i < 38 \<Longrightarrow> overrun ! i = 31"
  by (simp_all add: overrun_def nth_append)

lemma overrun_no_hit: "i < 32 \<Longrightarrow> lzf_hit overrun i r = Some False"
proof -
  assume i: "i < 32"
  have "overrun ! nat r \<noteq> overrun ! i" if "0 < r" "r < int i"
  proof -
    have k: "nat r < i" "nat r < 31" using that i by auto
    have v: "unat (overrun ! j) = j" if "j < 32" for j using that overrun_nth(2,3) [of j] by (cases "j = 31") (simp_all add: byte_nat)
    show ?thesis using v [of "nat r"] v [OF i] k by auto
  qed
  then show ?thesis by (auto simp: lzf_hit_def rd_block_def overrun_nth(1) take_eq_Nil numeral_2_eq_2 Cons_nth_drop_Suc [symmetric] split: if_splits)
qed

text \<open>
  C18. The block has to be one byte longer than the compressor is told: on this input of 38 bytes a
  run of 32 literals ends exactly at \<open>out_len\<close>, and the header of the next one is written behind it.
\<close>

theorem lzf_compress_overrun:
  "lzf_compress htab overrun (replicate 33 0) 33 = None"
proof -
  obtain h0 where h0: "FRST overrun 0 = Some h0" by (simp add: FRST_def rd_def overrun_nth(1))
  obtain ht o1 h where p: "lzf_loop overrun 33 htab (replicate 33 0) 0 1 0 h0 = lzf_loop overrun 33 ht o1 31 32 31 h" "length o1 = 33"
    "take_bit 16 h = push_bit 8 (ucast (overrun ! 31)) OR ucast (overrun ! 32)"
    using literal_phase [of 31 overrun 33 "replicate 33 0" h0 htab] overrun_no_hit h0 by (auto simp: MAX_LIT_def overrun_nth(1))
  let ?h = "push_bit 8 h OR 31" and ?ht = "ht(IDX (push_bit 8 h OR 31) := 31)"
  let ?o = "o1[32 := 31, 0 := 31]"
  have ne: "o1 \<noteq> []" using p(2) by auto
  have s: "lzf_loop overrun 33 ht o1 31 32 31 h = lzf_loop overrun 33 ?ht ?o 32 34 0 ?h" "length ?o = 33"
    using p(2) ne overrun_no_hit by (subst lzf_loop.simps, simp_all add: NEXT_def rd_def overrun_nth put_lit_def wr_def stop_run_def Let_def MAX_LIT_def)
  have t: "take_bit 16 h = 7967" using p(3) by (simp add: overrun_nth)
  have "take_bit 16 ?h = take_bit 16 (take_bit 24 ?h)" by (auto simp: bit_eq_iff bit_simps)
  then have "take_bit 24 ?h = take_bit 24 (push_bit 8 ?h OR 31)" unfolding low_bits t by simp
  then have "IDX (push_bit 8 ?h OR 31) = IDX ?h" by (metis IDX_low)
  moreover have "lzf_hit overrun 32 31 = Some True"
    by (simp add: lzf_hit_def rd_block_def rd_def overrun_nth MAX_OFF_def numeral_2_eq_2 Cons_nth_drop_Suc [symmetric])
  ultimately have "lzf_loop overrun 33 ?ht ?o 32 34 0 ?h = None"
    using s(2) by (subst lzf_loop.simps) (simp add: NEXT_def rd_def overrun_nth stop_run_def wr_def Let_def)
  then show ?thesis using p(1) s(1) h0 by (simp add: lzf_compress_def overrun_nth(1))
qed

end
