(* ===== verification/Skiplist.thy ===== *)
theory Skiplist
  imports Sds Dict "HOL-Library.List_Lexorder" "HOL-Library.Product_Lexorder"
begin

text \<open>
  The skip list of sorted sets, from the first part of \<open>t_zset.c\<close>, on an explicit heap of nodes.
  A pointer is a \<open>nat option\<close>, every dereference and every access to an array of levels is
  checked, and a released node is not in the heap any more.  Scores are the elements of a linear
  order with a zero: the numbers of the source without \<open>NaN\<close>, which the commands refuse.  A
  string object is its string of bytes; reference counts are left out.  The random numbers of
  \<open>zslRandomLevel\<close> are an argument, as is the content of fresh memory, \<open>jk\<close>.
\<close>

section \<open>Data\<close>

definition ZSKIPLIST_MAXLEVEL :: nat where "ZSKIPLIST_MAXLEVEL = 32"

record 's zskiplistNode =
  z_obj :: "bytes option"
  z_score :: 's
  z_backward :: "nat option"
  z_level :: "(nat option \<times> nat) list"

record 's zheap =
  zh_brk :: nat
  zh_node :: "nat \<Rightarrow> 's zskiplistNode option"

record zskiplist =
  zsl_header :: nat
  zsl_tail :: "nat option"
  zsl_length :: nat
  zsl_level :: nat

record 's zrangespec =
  zr_min :: 's
  zr_max :: 's
  zr_minex :: bool
  zr_maxex :: bool

type_synonym zjunk = "nat option \<times> (nat \<Rightarrow> nat option \<times> nat)"

definition get_level :: "'s zheap \<Rightarrow> nat \<Rightarrow> nat \<Rightarrow> (nat option \<times> nat) option" where
  "get_level h x i = do { n \<leftarrow> zh_node h x; rd (z_level n) i }"

definition set_level :: "'s zheap \<Rightarrow> nat \<Rightarrow> nat \<Rightarrow> nat option \<times> nat \<Rightarrow> 's zheap option" where
  "set_level h x i v =
     do { n \<leftarrow> zh_node h x; l \<leftarrow> wr (z_level n) i v; Some (h\<lparr>zh_node := (zh_node h)(x \<mapsto> n\<lparr>z_level := l\<rparr>)\<rparr>) }"

definition set_backward :: "'s zheap \<Rightarrow> nat \<Rightarrow> nat option \<Rightarrow> 's zheap option" where
  "set_backward h x p = do { n \<leftarrow> zh_node h x; Some (h\<lparr>zh_node := (zh_node h)(x \<mapsto> n\<lparr>z_backward := p\<rparr>)\<rparr>) }"

section \<open>Comparison of string objects (\<open>object.c\<close>)\<close>

text \<open>An object that is encoded as an integer is compared as its decimal string.\<close>

definition compareStringObjects :: "bytes \<Rightarrow> bytes \<Rightarrow> int" where
  "compareStringObjects a b =
     (let alen = length a; blen = length b;
          minlen = (if alen < blen then alen else blen);
          cmp = memcmp_c (take minlen a) (take minlen b)
      in if cmp = 0 then s32 (int alen - int blen) else cmp)"

definition equalStringObjects :: "bytes \<Rightarrow> bytes \<Rightarrow> bool" where
  "equalStringObjects a b \<longleftrightarrow> compareStringObjects a b = 0"

section \<open>Creation and release\<close>

definition zslCreateNode :: "zjunk \<Rightarrow> 's zheap \<Rightarrow> nat \<Rightarrow> 's \<Rightarrow> bytes option \<Rightarrow> 's zheap \<times> nat" where
  "zslCreateNode jk h level score obj =
     (h\<lparr>zh_brk := Suc (zh_brk h),
        zh_node := (zh_node h)(zh_brk h \<mapsto>
          \<lparr>z_obj = obj, z_score = score, z_backward = fst jk, z_level = map (snd jk) [0..<level]\<rparr>)\<rparr>,
      zh_brk h)"

definition zslCreate :: "zjunk \<Rightarrow> ('s::zero) zheap \<Rightarrow> ('s zheap \<times> zskiplist) option" where
  "zslCreate jk h =
     do {
       let (h, x) = zslCreateNode jk h ZSKIPLIST_MAXLEVEL 0 None;
       h \<leftarrow> ofold (\<lambda>h j. set_level h x j (None, 0)) h [0..<ZSKIPLIST_MAXLEVEL];
       h \<leftarrow> set_backward h x None;
       Some (h, \<lparr>zsl_header = x, zsl_tail = None, zsl_length = 0, zsl_level = 1\<rparr>)
     }"

text \<open>Releasing a node releases its object: a node without one is the crash of \<open>decrRefCount\<close>.\<close>

definition zfree :: "'s zheap \<Rightarrow> nat \<Rightarrow> 's zheap option" where
  "zfree h x = do { n \<leftarrow> zh_node h x; Some (h\<lparr>zh_node := (zh_node h)(x := None)\<rparr>) }"

definition zslFreeNode :: "'s zheap \<Rightarrow> nat \<Rightarrow> 's zheap option" where
  "zslFreeNode h x = do { n \<leftarrow> zh_node h x; obj \<leftarrow> z_obj n; zfree h x }"

partial_function (option) zslFree_loop :: "'s zheap \<Rightarrow> nat option \<Rightarrow> 's zheap option" where
  "zslFree_loop h node =
     (case node of
        None \<Rightarrow> Some h
      | Some x \<Rightarrow> do { l \<leftarrow> get_level h x 0; h \<leftarrow> zslFreeNode h x; zslFree_loop h (fst l) })"

definition zslFree :: "'s zheap \<Rightarrow> zskiplist \<Rightarrow> 's zheap option" where
  "zslFree h zsl =
     do { l \<leftarrow> get_level h (zsl_header zsl) 0; h \<leftarrow> zfree h (zsl_header zsl); zslFree_loop h (fst l) }"

section \<open>Insertion\<close>

text \<open>
  \<open>(random() & 0xFFFF) < ZSKIPLIST_P * 0xFFFF\<close> with \<open>ZSKIPLIST_P\<close> 0.25; the numbers \<open>random\<close>
  returns are the argument, which has to be long enough.
\<close>

fun random_level_loop :: "nat list \<Rightarrow> nat \<Rightarrow> nat option" where
  "random_level_loop [] level = None"
| "random_level_loop (r # rs) level =
     (if 4 * (r mod 65536) < 65535 then random_level_loop rs (level + 1) else Some level)"

definition zslRandomLevel :: "nat list \<Rightarrow> nat option" where
  "zslRandomLevel rs =
     do { level \<leftarrow> random_level_loop rs 1; Some (if level < ZSKIPLIST_MAXLEVEL then level else ZSKIPLIST_MAXLEVEL) }"

text \<open>
  The search that nearly all operations begin with: the inner loop on one level, with the
  condition under which it goes forward and the ranks added up at their width, and the loop
  over the levels.  Result: the last node and rank, and the arrays \<open>update\<close> and \<open>rank\<close>.
\<close>

partial_function (option) zsl_walk ::
  "(nat \<Rightarrow> nat) \<Rightarrow> ('s zskiplistNode \<Rightarrow> nat \<Rightarrow> bool option) \<Rightarrow> 's zheap \<Rightarrow> nat \<Rightarrow> nat \<Rightarrow> nat \<Rightarrow> (nat \<times> nat) option" where
  "zsl_walk w cond h i x r =
     do {
       l \<leftarrow> get_level h x i;
       case fst l of
         None \<Rightarrow> Some (x, r)
       | Some y \<Rightarrow>
           do {
             n \<leftarrow> zh_node h y;
             c \<leftarrow> cond n (w (r + snd l));
             if c then zsl_walk w cond h i y (w (r + snd l)) else Some (x, r)
           }
     }"

fun zsl_descend ::
  "(nat \<Rightarrow> nat) \<Rightarrow> ('s zskiplistNode \<Rightarrow> nat \<Rightarrow> bool option) \<Rightarrow> 's zheap \<Rightarrow> nat \<Rightarrow> nat \<Rightarrow> nat \<Rightarrow> (nat \<times> nat \<times> nat list \<times> nat list) option" where
  "zsl_descend w cond h 0 x r = Some (x, r, [], [])"
| "zsl_descend w cond h (Suc i) x r =
     (if i < ZSKIPLIST_MAXLEVEL then
        do {
          (x, r) \<leftarrow> zsl_walk w cond h i x r;
          (x', r', update, rank) \<leftarrow> zsl_descend w cond h i x r;
          Some (x', r', update @ [x], rank @ [r])
        }
      else None)"

definition before_key :: "('s::linorder) \<Rightarrow> bytes \<Rightarrow> 's zskiplistNode \<Rightarrow> nat \<Rightarrow> bool option" where
  "before_key score obj n r =
     (if z_score n < score then Some True
      else if z_score n = score then do { o' \<leftarrow> z_obj n; Some (compareStringObjects o' obj < 0) }
      else Some False)"

text \<open>The parts of \<open>zslInsert\<close>: new levels, linking on one level, and an untouched level.\<close>

definition grow_level :: "zskiplist \<Rightarrow> 's zheap \<Rightarrow> nat \<Rightarrow> 's zheap option" where
  "grow_level zsl h i =
     do { l \<leftarrow> get_level h (zsl_header zsl) i; set_level h (zsl_header zsl) i (fst l, u32 (zsl_length zsl)) }"

definition link_level :: "nat \<Rightarrow> nat list \<Rightarrow> nat list \<Rightarrow> 's zheap \<Rightarrow> nat \<Rightarrow> 's zheap option" where
  "link_level x update rank h i =
     do {
       u \<leftarrow> rd update i;
       r \<leftarrow> rd rank i;
       r0 \<leftarrow> rd rank 0;
       l \<leftarrow> get_level h u i;
       h \<leftarrow> set_level h x i (fst l, sub32 (snd l) (sub32 r0 r));
       set_level h u i (Some x, add32 (sub32 r0 r) 1)
     }"

definition span_incr :: "nat list \<Rightarrow> 's zheap \<Rightarrow> nat \<Rightarrow> 's zheap option" where
  "span_incr update h i = do { u \<leftarrow> rd update i; l \<leftarrow> get_level h u i; set_level h u i (fst l, add32 (snd l) 1) }"

definition zslInsert ::
  "zjunk \<Rightarrow> nat list \<Rightarrow> ('s::linorder) zheap \<Rightarrow> zskiplist \<Rightarrow> 's \<Rightarrow> bytes \<Rightarrow> ('s zheap \<times> zskiplist \<times> nat) option" where
  "zslInsert jk rs h zsl score obj =
     do {
       (_, _, update, rank) \<leftarrow> zsl_descend u32 (before_key score obj) h (zsl_level zsl) (zsl_header zsl) 0;
       level \<leftarrow> zslRandomLevel rs;
       (h, update, rank, zsl) \<leftarrow>
         (if level > zsl_level zsl then
            do {
              h \<leftarrow> ofold (grow_level zsl) h [zsl_level zsl..<level];
              let new = level - zsl_level zsl;
              Some (h, update @ replicate new (zsl_header zsl), rank @ replicate new 0, zsl\<lparr>zsl_level := level\<rparr>)
            }
          else Some (h, update, rank, zsl));
       let (h, x) = zslCreateNode jk h level score (Some obj);
       h \<leftarrow> ofold (link_level x update rank) h [0..<level];
       h \<leftarrow> ofold (span_incr update) h [level..<zsl_level zsl];
       u0 \<leftarrow> rd update 0;
       h \<leftarrow> set_backward h x (if u0 = zsl_header zsl then None else Some u0);
       l \<leftarrow> get_level h x 0;
       (h, zsl) \<leftarrow>
         (case fst l of
            Some y \<Rightarrow> do { h \<leftarrow> set_backward h y (Some x); Some (h, zsl) }
          | None \<Rightarrow> Some (h, zsl\<lparr>zsl_tail := Some x\<rparr>));
       Some (h, zsl\<lparr>zsl_length := u64 (zsl_length zsl + 1)\<rparr>, x)
     }"

section \<open>Deletion\<close>

definition unlink_level :: "nat \<Rightarrow> nat list \<Rightarrow> 's zheap \<Rightarrow> nat \<Rightarrow> 's zheap option" where
  "unlink_level x update h i =
     do {
       u \<leftarrow> rd update i;
       l \<leftarrow> get_level h u i;
       if fst l = Some x then
         do { m \<leftarrow> get_level h x i; set_level h u i (fst m, add32 (snd l) (sub32 (snd m) 1)) }
       else set_level h u i (fst l, sub32 (snd l) 1)
     }"

fun shrink_level :: "'s zheap \<Rightarrow> nat \<Rightarrow> nat \<Rightarrow> nat option" where
  "shrink_level h hdr 0 = Some 0"
| "shrink_level h hdr (Suc k) =
     (if Suc k > 1 then
        do { l \<leftarrow> get_level h hdr k; if fst l = None then shrink_level h hdr k else Some (Suc k) }
      else Some (Suc k))"

definition zslDeleteNode :: "'s zheap \<Rightarrow> zskiplist \<Rightarrow> nat \<Rightarrow> nat list \<Rightarrow> ('s zheap \<times> zskiplist) option" where
  "zslDeleteNode h zsl x update =
     do {
       h \<leftarrow> ofold (unlink_level x update) h [0..<zsl_level zsl];
       n \<leftarrow> zh_node h x;
       l \<leftarrow> get_level h x 0;
       (h, zsl) \<leftarrow>
         (case fst l of
            Some y \<Rightarrow> do { h \<leftarrow> set_backward h y (z_backward n); Some (h, zsl) }
          | None \<Rightarrow> Some (h, zsl\<lparr>zsl_tail := z_backward n\<rparr>));
       level \<leftarrow> shrink_level h (zsl_header zsl) (zsl_level zsl);
       Some (h, zsl\<lparr>zsl_level := level, zsl_length := u64 (zsl_length zsl + (2 ^ 64 - 1))\<rparr>)
     }"

definition zslDelete :: "('s::linorder) zheap \<Rightarrow> zskiplist \<Rightarrow> 's \<Rightarrow> bytes \<Rightarrow> ('s zheap \<times> zskiplist \<times> bool) option" where
  "zslDelete h zsl score obj =
     do {
       (x, _, update, _) \<leftarrow> zsl_descend id (before_key score obj) h (zsl_level zsl) (zsl_header zsl) 0;
       l \<leftarrow> get_level h x 0;
       case fst l of
         None \<Rightarrow> Some (h, zsl, False)
       | Some y \<Rightarrow>
           do {
             n \<leftarrow> zh_node h y;
             eq \<leftarrow> (if score = z_score n then do { o' \<leftarrow> z_obj n; Some (equalStringObjects o' obj) } else Some False);
             if eq then
               do { (h, zsl) \<leftarrow> zslDeleteNode h zsl y update; h \<leftarrow> zslFreeNode h y; Some (h, zsl, True) }
             else Some (h, zsl, False)
           }
     }"

section \<open>Ranges of scores\<close>

definition zslValueGteMin :: "('s::linorder) \<Rightarrow> 's zrangespec \<Rightarrow> bool" where
  "zslValueGteMin v spec = (if zr_minex spec then v > zr_min spec else v \<ge> zr_min spec)"

definition zslValueLteMax :: "('s::linorder) \<Rightarrow> 's zrangespec \<Rightarrow> bool" where
  "zslValueLteMax v spec = (if zr_maxex spec then v < zr_max spec else v \<le> zr_max spec)"

definition zslIsInRange :: "('s::linorder) zheap \<Rightarrow> zskiplist \<Rightarrow> 's zrangespec \<Rightarrow> bool option" where
  "zslIsInRange h zsl rng =
     (if zr_min rng > zr_max rng \<or> zr_min rng = zr_max rng \<and> (zr_minex rng \<or> zr_maxex rng) then Some False
      else case zsl_tail zsl of
          None \<Rightarrow> Some False
        | Some t \<Rightarrow>
            do {
              n \<leftarrow> zh_node h t;
              if \<not> zslValueGteMin (z_score n) rng then Some False
              else do {
                l \<leftarrow> get_level h (zsl_header zsl) 0;
                case fst l of
                  None \<Rightarrow> Some False
                | Some y \<Rightarrow> do { m \<leftarrow> zh_node h y; Some (zslValueLteMax (z_score m) rng) }
              }
            })"

definition zslFirstInRange :: "('s::linorder) zheap \<Rightarrow> zskiplist \<Rightarrow> 's zrangespec \<Rightarrow> nat option option" where
  "zslFirstInRange h zsl rng =
     do {
       c \<leftarrow> zslIsInRange h zsl rng;
       if \<not> c then Some None
       else do {
         (x, _) \<leftarrow> zsl_descend id (\<lambda>n _. Some (\<not> zslValueGteMin (z_score n) rng)) h (zsl_level zsl) (zsl_header zsl) 0;
         l \<leftarrow> get_level h x 0;
         y \<leftarrow> fst l;
         n \<leftarrow> zh_node h y;
         Some (if \<not> zslValueLteMax (z_score n) rng then None else Some y)
       }
     }"

definition zslLastInRange :: "('s::linorder) zheap \<Rightarrow> zskiplist \<Rightarrow> 's zrangespec \<Rightarrow> nat option option" where
  "zslLastInRange h zsl rng =
     do {
       c \<leftarrow> zslIsInRange h zsl rng;
       if \<not> c then Some None
       else do {
         (x, _) \<leftarrow> zsl_descend id (\<lambda>n _. Some (zslValueLteMax (z_score n) rng)) h (zsl_level zsl) (zsl_header zsl) 0;
         n \<leftarrow> zh_node h x;
         Some (if \<not> zslValueGteMin (z_score n) rng then None else Some x)
       }
     }"

text \<open>
  The loop that deletes nodes from \<open>x\<close> on while the condition holds, from the skip list and from
  the dictionary, whose values are pointers to the scores in the nodes.
\<close>

partial_function (option) zdel_loop ::
  "(bytes, nat) dictType \<Rightarrow> ('s zskiplistNode \<Rightarrow> nat \<Rightarrow> bool option) \<Rightarrow> nat list \<Rightarrow> 's zheap \<Rightarrow> zskiplist \<Rightarrow> (bytes, nat) dict \<Rightarrow>
    nat option \<Rightarrow> nat \<Rightarrow> nat \<Rightarrow> ('s zheap \<times> zskiplist \<times> (bytes, nat) dict \<times> nat) option" where
  "zdel_loop T cond update h zsl d x traversed removed =
     (case x of
        None \<Rightarrow> Some (h, zsl, d, removed)
      | Some a \<Rightarrow>
          do {
            n \<leftarrow> zh_node h a;
            c \<leftarrow> cond n traversed;
            if c then
              do {
                l \<leftarrow> get_level h a 0;
                (h, zsl) \<leftarrow> zslDeleteNode h zsl a update;
                obj \<leftarrow> z_obj n;
                (d, _) \<leftarrow> dictDelete T d obj;
                h \<leftarrow> zslFreeNode h a;
                zdel_loop T cond update h zsl d (fst l) (u64 (traversed + 1)) (u64 (removed + 1))
              }
            else Some (h, zsl, d, removed)
          })"

definition zslDeleteRangeByScore ::
  "(bytes, nat) dictType \<Rightarrow> ('s::linorder) zheap \<Rightarrow> zskiplist \<Rightarrow> 's zrangespec \<Rightarrow> (bytes, nat) dict \<Rightarrow>
    ('s zheap \<times> zskiplist \<times> (bytes, nat) dict \<times> nat) option" where
  "zslDeleteRangeByScore T h zsl rng d =
     do {
       (x, _, update, _) \<leftarrow>
         zsl_descend id (\<lambda>n _. Some (if zr_minex rng then z_score n \<le> zr_min rng else z_score n < zr_min rng))
           h (zsl_level zsl) (zsl_header zsl) 0;
       l \<leftarrow> get_level h x 0;
       zdel_loop T (\<lambda>n _. Some (if zr_maxex rng then z_score n < zr_max rng else z_score n \<le> zr_max rng))
         update h zsl d (fst l) 0 0
     }"

definition zslDeleteRangeByRank ::
  "(bytes, nat) dictType \<Rightarrow> ('s::linorder) zheap \<Rightarrow> zskiplist \<Rightarrow> nat \<Rightarrow> nat \<Rightarrow> (bytes, nat) dict \<Rightarrow>
    ('s zheap \<times> zskiplist \<times> (bytes, nat) dict \<times> nat) option" where
  "zslDeleteRangeByRank T h zsl start stop d =
     do {
       (x, traversed, update, _) \<leftarrow> zsl_descend u64 (\<lambda>_ r. Some (r < start)) h (zsl_level zsl) (zsl_header zsl) 0;
       l \<leftarrow> get_level h x 0;
       zdel_loop T (\<lambda>_ r. Some (r \<le> stop)) update h zsl d (fst l) (u64 (traversed + 1)) 0
     }"

section \<open>Ranks\<close>

fun rank_loop :: "('s zskiplistNode \<Rightarrow> nat \<Rightarrow> bool option) \<Rightarrow> bytes \<Rightarrow> 's zheap \<Rightarrow> nat \<Rightarrow> nat \<Rightarrow> nat \<Rightarrow> nat option" where
  "rank_loop cond obj h 0 x r = Some 0"
| "rank_loop cond obj h (Suc i) x r =
     do {
       (x, r) \<leftarrow> zsl_walk u64 cond h i x r;
       n \<leftarrow> zh_node h x;
       if (case z_obj n of None \<Rightarrow> False | Some o' \<Rightarrow> equalStringObjects o' obj) then Some r
       else rank_loop cond obj h i x r
     }"

definition upto_key :: "('s::linorder) \<Rightarrow> bytes \<Rightarrow> 's zskiplistNode \<Rightarrow> nat \<Rightarrow> bool option" where
  "upto_key score obj n r =
     (if z_score n < score then Some True
      else if z_score n = score then do { o' \<leftarrow> z_obj n; Some (compareStringObjects o' obj \<le> 0) }
      else Some False)"

definition zslGetRank :: "('s::linorder) zheap \<Rightarrow> zskiplist \<Rightarrow> 's \<Rightarrow> bytes \<Rightarrow> nat option" where
  "zslGetRank h zsl score obj = rank_loop (upto_key score obj) obj h (zsl_level zsl) (zsl_header zsl) 0"

fun element_loop :: "nat \<Rightarrow> 's zheap \<Rightarrow> nat \<Rightarrow> nat \<Rightarrow> nat \<Rightarrow> nat option option" where
  "element_loop rank h 0 x r = Some None"
| "element_loop rank h (Suc i) x r =
     do {
       (x, r) \<leftarrow> zsl_walk u64 (\<lambda>_ r. Some (r \<le> rank)) h i x r;
       if r = rank then Some (Some x) else element_loop rank h i x r
     }"

definition zslGetElementByRank :: "'s zheap \<Rightarrow> zskiplist \<Rightarrow> nat \<Rightarrow> nat option option" where
  "zslGetElementByRank h zsl rank = element_loop rank h (zsl_level zsl) (zsl_header zsl) 0"

section \<open>Lexicographic ranges\<close>

text \<open>
  An end of a range is an object; \<open>shared.minstring\<close> and \<open>shared.maxstring\<close>, which stand for the
  infinite ends, are recognised by their address.
\<close>

datatype lexobj = SharedMin | SharedMax | LexObj bytes

record zlexrangespec =
  zl_min :: lexobj
  zl_max :: lexobj
  zl_minex :: bool
  zl_maxex :: bool

definition ascii :: "string \<Rightarrow> bytes" where "ascii s = map of_char s"

definition lex_string :: "lexobj \<Rightarrow> bytes" where
  "lex_string x = (case x of SharedMin \<Rightarrow> ascii ''minstring'' | SharedMax \<Rightarrow> ascii ''maxstring'' | LexObj s \<Rightarrow> s)"

text \<open>The argument is the content of a string, whose terminator is read when nothing follows the first character; the results are \<open>dest\<close> and \<open>ex\<close>.\<close>

definition zslParseLexRangeItem :: "bytes \<Rightarrow> (lexobj \<times> bool) option" where
  "zslParseLexRangeItem item =
     (case item of
        [] \<Rightarrow> None
      | c # rest \<Rightarrow>
          if c = 43 then (if rest \<noteq> [] \<and> hd rest \<noteq> 0 then None else Some (SharedMax, False))
          else if c = 45 then (if rest \<noteq> [] \<and> hd rest \<noteq> 0 then None else Some (SharedMin, False))
          else if c = 40 then Some (LexObj rest, True)
          else if c = 91 then Some (LexObj rest, False)
          else None)"

definition zslParseLexRange :: "bytes \<Rightarrow> bytes \<Rightarrow> zlexrangespec option" where
  "zslParseLexRange mn mx =
     do {
       (a, aex) \<leftarrow> zslParseLexRangeItem mn;
       (b, bex) \<leftarrow> zslParseLexRangeItem mx;
       Some \<lparr>zl_min = a, zl_max = b, zl_minex = aex, zl_maxex = bex\<rparr>
     }"

definition compareStringObjectsForLexRange :: "lexobj \<Rightarrow> lexobj \<Rightarrow> int" where
  "compareStringObjectsForLexRange a b =
     (if a = b then 0
      else if a = SharedMin \<or> b = SharedMax then -1
      else if a = SharedMax \<or> b = SharedMin then 1
      else compareStringObjects (lex_string a) (lex_string b))"

definition zslLexValueGteMin :: "bytes \<Rightarrow> zlexrangespec \<Rightarrow> bool" where
  "zslLexValueGteMin v spec =
     (if zl_minex spec then compareStringObjectsForLexRange (LexObj v) (zl_min spec) > 0
      else compareStringObjectsForLexRange (LexObj v) (zl_min spec) \<ge> 0)"

definition zslLexValueLteMax :: "bytes \<Rightarrow> zlexrangespec \<Rightarrow> bool" where
  "zslLexValueLteMax v spec =
     (if zl_maxex spec then compareStringObjectsForLexRange (LexObj v) (zl_max spec) < 0
      else compareStringObjectsForLexRange (LexObj v) (zl_max spec) \<le> 0)"

definition zslIsInLexRange :: "'s zheap \<Rightarrow> zskiplist \<Rightarrow> zlexrangespec \<Rightarrow> bool option" where
  "zslIsInLexRange h zsl rng =
     (if compareStringObjectsForLexRange (zl_min rng) (zl_max rng) > 1 \<or>
         compareStringObjects (lex_string (zl_min rng)) (lex_string (zl_max rng)) = 0 \<and> (zl_minex rng \<or> zl_maxex rng)
      then Some False
      else case zsl_tail zsl of
          None \<Rightarrow> Some False
        | Some t \<Rightarrow>
            do {
              n \<leftarrow> zh_node h t;
              tobj \<leftarrow> z_obj n;
              if \<not> zslLexValueGteMin tobj rng then Some False
              else do {
                l \<leftarrow> get_level h (zsl_header zsl) 0;
                case fst l of
                  None \<Rightarrow> Some False
                | Some y \<Rightarrow> do { m \<leftarrow> zh_node h y; hobj \<leftarrow> z_obj m; Some (zslLexValueLteMax hobj rng) }
              }
            })"

definition lex_below :: "zlexrangespec \<Rightarrow> 's zskiplistNode \<Rightarrow> nat \<Rightarrow> bool option" where
  "lex_below rng n r = do { obj \<leftarrow> z_obj n; Some (\<not> zslLexValueGteMin obj rng) }"

definition lex_upto :: "zlexrangespec \<Rightarrow> 's zskiplistNode \<Rightarrow> nat \<Rightarrow> bool option" where
  "lex_upto rng n r = do { obj \<leftarrow> z_obj n; Some (zslLexValueLteMax obj rng) }"

definition zslFirstInLexRange :: "'s zheap \<Rightarrow> zskiplist \<Rightarrow> zlexrangespec \<Rightarrow> nat option option" where
  "zslFirstInLexRange h zsl rng =
     do {
       c \<leftarrow> zslIsInLexRange h zsl rng;
       if \<not> c then Some None
       else do {
         (x, _) \<leftarrow> zsl_descend id (lex_below rng) h (zsl_level zsl) (zsl_header zsl) 0;
         l \<leftarrow> get_level h x 0;
         y \<leftarrow> fst l;
         n \<leftarrow> zh_node h y;
         obj \<leftarrow> z_obj n;
         Some (if \<not> zslLexValueLteMax obj rng then None else Some y)
       }
     }"

definition zslLastInLexRange :: "'s zheap \<Rightarrow> zskiplist \<Rightarrow> zlexrangespec \<Rightarrow> nat option option" where
  "zslLastInLexRange h zsl rng =
     do {
       c \<leftarrow> zslIsInLexRange h zsl rng;
       if \<not> c then Some None
       else do {
         (x, _) \<leftarrow> zsl_descend id (lex_upto rng) h (zsl_level zsl) (zsl_header zsl) 0;
         n \<leftarrow> zh_node h x;
         obj \<leftarrow> z_obj n;
         Some (if \<not> zslLexValueGteMin obj rng then None else Some x)
       }
     }"

definition zslDeleteRangeByLex ::
  "(bytes, nat) dictType \<Rightarrow> 's zheap \<Rightarrow> zskiplist \<Rightarrow> zlexrangespec \<Rightarrow> (bytes, nat) dict \<Rightarrow>
    ('s zheap \<times> zskiplist \<times> (bytes, nat) dict \<times> nat) option" where
  "zslDeleteRangeByLex T h zsl rng d =
     do {
       (x, _, update, _) \<leftarrow> zsl_descend id (lex_below rng) h (zsl_level zsl) (zsl_header zsl) 0;
       l \<leftarrow> get_level h x 0;
       zdel_loop T (lex_upto rng) update h zsl d (fst l) 0 0
     }"

end
