(* ===== verification/SkiplistRep.thy ===== *)
theory SkiplistRep
  imports Skiplist
begin

text \<open>
  What a skip list in memory stands for: a list of entries, each with the address of its node, the
  number of its levels, its score and its object.  \<open>zrep\<close> says that the nodes are linked
  accordingly on every level, with the right spans and back pointers.  Every operation of
  \<open>Skiplist\<close> is shown to keep it, and what it does to the list of entries.
\<close>

section \<open>Entries and links\<close>

datatype 's zent = Zent (addr: nat) (hgt: nat) (ekey: "'s \<times> bytes")

text \<open>The forward pointer and the span on level \<open>i\<close> of a node the given entries follow.\<close>

fun fwd :: "nat \<Rightarrow> 's zent list \<Rightarrow> nat option \<times> nat" where
  "fwd i [] = (None, 0)"
| "fwd i (e # es) = (if i < hgt e then (Some (addr e), 1) else (fst (fwd i es), Suc (snd (fwd i es))))"

text \<open>The node reached by a prefix of the entries, its levels, and the pointer to it.\<close>

definition node_at :: "nat \<Rightarrow> 's zent list \<Rightarrow> nat" where
  "node_at hdr b = (if b = [] then hdr else addr (last b))"

definition lev_at :: "nat \<Rightarrow> 's zent list \<Rightarrow> nat" where
  "lev_at L b = (if b = [] then L else hgt (last b))"

definition back_at :: "'s zent list \<Rightarrow> nat option" where
  "back_at b = (if b = [] then None else Some (addr (last b)))"

definition node_ok :: "'s zent \<Rightarrow> 's zent list \<Rightarrow> 's zskiplistNode \<Rightarrow> bool" where
  "node_ok e b n \<longleftrightarrow> z_obj n = Some (snd (ekey e)) \<and> z_score n = fst (ekey e) \<and> z_backward n = back_at b \<and> length (z_level n) = hgt e"

definition header_ok :: "'s zskiplistNode \<Rightarrow> bool" where
  "header_ok n \<longleftrightarrow> z_obj n = None \<and> z_backward n = None \<and> length (z_level n) = ZSKIPLIST_MAXLEVEL"

definition zlinks :: "'s zheap \<Rightarrow> nat \<Rightarrow> nat \<Rightarrow> 's zent list \<Rightarrow> bool" where
  "zlinks h hdr L es \<longleftrightarrow> (\<forall>b c i. es = b @ c \<longrightarrow> i < lev_at L b \<longrightarrow> get_level h (node_at hdr b) i = Some (fwd i c))"

definition znodes :: "'s zheap \<Rightarrow> nat \<Rightarrow> 's zent list \<Rightarrow> bool" where
  "znodes h hdr es \<longleftrightarrow>
     (\<forall>b e c. es = b @ e # c \<longrightarrow> (\<exists>n. zh_node h (addr e) = Some n \<and> node_ok e b n)) \<and>
     (\<exists>n. zh_node h hdr = Some n \<and> header_ok n) \<and> (\<forall>a. zh_brk h \<le> a \<longrightarrow> zh_node h a = None)"

definition ztop :: "'s zheap \<Rightarrow> nat \<Rightarrow> nat \<Rightarrow> bool" where
  "ztop h hdr L \<longleftrightarrow> (\<forall>i. L \<le> i \<longrightarrow> i < ZSKIPLIST_MAXLEVEL \<longrightarrow> (\<exists>s. get_level h hdr i = Some (None, s)))"

definition zrep :: "'s zheap \<Rightarrow> zskiplist \<Rightarrow> 's zent list \<Rightarrow> bool" where
  "zrep h zsl es \<longleftrightarrow>
     zlinks h (zsl_header zsl) (zsl_level zsl) es \<and> ztop h (zsl_header zsl) (zsl_level zsl) \<and> znodes h (zsl_header zsl) es \<and>
     distinct (zsl_header zsl # map addr es) \<and>
     zsl_tail zsl = back_at es \<and> zsl_length zsl = length es \<and> length es < 2 ^ 32 \<and>
     1 \<le> zsl_level zsl \<and> zsl_level zsl \<le> ZSKIPLIST_MAXLEVEL \<and>
     (\<forall>e\<in>set es. 1 \<le> hgt e \<and> hgt e \<le> zsl_level zsl)"

lemma zrepD:
  assumes "zrep h zsl es"
  shows "es = b @ c \<Longrightarrow> i < lev_at (zsl_level zsl) b \<Longrightarrow> get_level h (node_at (zsl_header zsl) b) i = Some (fwd i c)"
    "zsl_level zsl \<le> i \<Longrightarrow> i < ZSKIPLIST_MAXLEVEL \<Longrightarrow> \<exists>s. get_level h (zsl_header zsl) i = Some (None, s)"
    "es = b @ e # c \<Longrightarrow> \<exists>n. zh_node h (addr e) = Some n \<and> node_ok e b n"
    "\<exists>n. zh_node h (zsl_header zsl) = Some n \<and> header_ok n"
    "distinct (zsl_header zsl # map addr es)" "zsl_tail zsl = back_at es" "zsl_length zsl = length es" "length es < 2 ^ 32"
    "1 \<le> zsl_level zsl" "zsl_level zsl \<le> ZSKIPLIST_MAXLEVEL" "e \<in> set es \<Longrightarrow> 1 \<le> hgt e" "e \<in> set es \<Longrightarrow> hgt e \<le> zsl_level zsl"
    "zh_brk h \<le> a \<Longrightarrow> zh_node h a = None"
  using assms unfolding zrep_def zlinks_def ztop_def znodes_def by blast+

lemma at_simps [simp]: "node_at hdr [] = hdr" "node_at hdr (b @ [e]) = addr e" "lev_at L [] = L" "lev_at L (b @ [e]) = hgt e"
  "back_at [] = None" "back_at (b @ [e]) = Some (addr e)"
  by (simp_all add: node_at_def lev_at_def back_at_def)

lemma at_cases:
  obtains "b = []" | b' e where "b = b' @ [e]"
  by (cases b rule: rev_cases) auto

lemma node_at_in: "node_at hdr b \<in> insert hdr (addr ` set b)"
  by (cases b rule: rev_cases) auto

lemma fwd_skip: "\<forall>z\<in>set zs. hgt z \<le> i \<Longrightarrow> fwd i (zs @ ys) = (fst (fwd i ys), length zs + snd (fwd i ys))"
  by (induction zs) auto

lemma fwd_stop: "z \<in> set zs \<Longrightarrow> i < hgt z \<Longrightarrow> fwd i (zs @ ys) = fwd i zs"
  by (induction zs) auto

lemma fwd_none: "\<forall>z\<in>set zs. hgt z \<le> i \<Longrightarrow> fwd i zs = (None, length zs)"
  using fwd_skip [of zs i "[]"] by simp

lemma fwd_span: "snd (fwd i zs) \<le> length zs" by (induction zs) auto

lemma first_tall:
  obtains (none) "\<forall>z\<in>set c. hgt z \<le> i"
  | (tall) zs e rest where "c = zs @ e # rest" "\<forall>z\<in>set zs. hgt z \<le> i" "i < hgt e" "fwd i c = (Some (addr e), Suc (length zs))"
proof (cases "\<exists>z\<in>set c. i < hgt z")
  case True
  then obtain zs e rest where "c = zs @ e # rest" "i < hgt e" "\<forall>z\<in>set zs. \<not> i < hgt z" using split_list_first_prop [of c "\<lambda>z. i < hgt z"] by blast
  then show ?thesis using tall fwd_skip [of zs i "e # rest"] by (auto simp: not_less)
next
  case False
  then show ?thesis using none by (simp add: not_less)
qed

section \<open>The search\<close>

text \<open>The part of a prefix that ends in the last node of level \<open>i\<close>.\<close>

definition bef :: "nat \<Rightarrow> 's zent list \<Rightarrow> 's zent list" where
  "bef i xs = rev (dropWhile (\<lambda>e. hgt e \<le> i) (rev xs))"

lemma bef_append: "\<forall>z\<in>set zs. hgt z \<le> i \<Longrightarrow> b = [] \<or> i < hgt (last b) \<Longrightarrow> bef i (b @ zs) = b"
  by (cases b rule: rev_cases) (auto simp: bef_def dropWhile_append)

lemma bef_ex: obtains zs where "xs = bef i xs @ zs" "\<forall>z\<in>set zs. hgt z \<le> i" "bef i xs = [] \<or> i < hgt (last (bef i xs))"
proof -
  let ?P = "\<lambda>e. hgt e \<le> i"
  have "xs = bef i xs @ rev (takeWhile ?P (rev xs))"
    unfolding bef_def rev_append [symmetric] takeWhile_dropWhile_id by simp
  moreover have "\<forall>z\<in>set (rev (takeWhile ?P (rev xs))). hgt z \<le> i" using set_takeWhileD by fastforce
  moreover have "bef i xs = [] \<or> i < hgt (last (bef i xs))"
    using hd_dropWhile [of ?P "rev xs"] by (cases "bef i xs = []") (simp_all add: bef_def last_rev not_le)
  ultimately show ?thesis using that by blast
qed

lemma bef_set: "set (bef i xs) \<subseteq> set xs"
  by (auto simp: bef_def dest: set_dropWhileD)

lemma bef_length: "length (bef i xs) \<le> length xs" "length (bef i xs) = length xs \<Longrightarrow> bef i xs = xs"
proof -
  obtain zs where z: "xs = bef i xs @ zs" by (rule bef_ex)
  then have l: "length xs = length (bef i xs) + length zs" by (metis length_append)
  then show "length (bef i xs) \<le> length xs" by simp
  show "bef i xs = xs" if "length (bef i xs) = length xs" using z l that by simp
qed

lemma bef_all: "\<forall>e\<in>set xs. i < hgt e \<Longrightarrow> bef i xs = xs"
  by (cases xs rule: rev_cases) (auto simp: bef_def)

lemma bef_none: "\<forall>e\<in>set xs. hgt e \<le> i \<Longrightarrow> bef i xs = []"
  by (simp add: bef_def)

lemma bef_bef: "j \<le> i \<Longrightarrow> \<exists>c. bef j xs = bef i xs @ c"
proof -
  assume j: "j \<le> i"
  obtain zs where z: "xs = bef i xs @ zs" "bef i xs = [] \<or> i < hgt (last (bef i xs))" by (rule bef_ex)
  obtain ws where w: "xs = bef j xs @ ws" "\<forall>z\<in>set ws. hgt z \<le> j" by (rule bef_ex)
  have "bef i xs @ zs = bef j xs @ ws" using z(1) w(1) by simp
  then consider (a) us where "bef j xs = bef i xs @ us" | (b) us where "bef i xs = bef j xs @ us" "us @ zs = ws"
    by (metis append_eq_append_conv2)
  then show ?thesis
  proof cases
    case b
    have "us = []"
    proof (rule ccontr)
      assume u: "us \<noteq> []"
      then have "last us \<in> set ws" "i < hgt (last us)" using b z(2) by auto
      then show False using w(2) j by fastforce
    qed
    then show ?thesis using b by auto
  qed auto
qed

text \<open>A condition that holds exactly for the first entries.\<close>

definition cuts :: "('s zskiplistNode \<Rightarrow> nat \<Rightarrow> bool option) \<Rightarrow> 's zheap \<Rightarrow> 's zent list \<Rightarrow> 's zent list \<Rightarrow> bool" where
  "cuts cond h xs ys \<longleftrightarrow>
     (\<forall>b e c n. xs @ ys = b @ e # c \<longrightarrow> zh_node h (addr e) = Some n \<longrightarrow> node_ok e b n \<longrightarrow>
        cond n (Suc (length b)) = Some (length b < length xs))"

lemma cutsI:
  assumes "\<And>b e n. node_ok e b n \<Longrightarrow> length b < length xs \<Longrightarrow> e \<in> set xs \<Longrightarrow> cond n (Suc (length b)) = Some True"
    "\<And>b e n. node_ok e b n \<Longrightarrow> length xs \<le> length b \<Longrightarrow> e \<in> set ys \<Longrightarrow> cond n (Suc (length b)) = Some False"
  shows "cuts cond h xs ys"
  unfolding cuts_def
proof (intro allI impI)
  fix b e c n
  assume e: "xs @ ys = b @ e # c" and n: "node_ok e b n"
  show "cond n (Suc (length b)) = Some (length b < length xs)"
  proof (cases "length b < length xs")
    case True
    then have "xs ! length b = e" using e by (metis nth_append nth_append_length)
    then have "e \<in> set xs" using True by auto
    then show ?thesis using assms(1) [OF n] True by simp
  next
    case False
    then have l: "length b - length xs < length ys" using arg_cong [OF e, of length] by simp
    have "ys ! (length b - length xs) = e" using e False by (metis nth_append nth_append_length)
    then have "e \<in> set ys" using l by auto
    then show ?thesis using assms(2) [OF n] False by simp
  qed
qed

lemma zsl_walk_finds:
  assumes "zrep h zsl (xs @ ys)" "cuts cond h xs ys" "\<And>n. n \<le> length (xs @ ys) \<Longrightarrow> w n = n" "i < zsl_level zsl"
  shows "xs = b @ c \<Longrightarrow> b = [] \<or> i < hgt (last b) \<Longrightarrow>
    zsl_walk w cond h i (node_at (zsl_header zsl) b) (length b) = Some (node_at (zsl_header zsl) (bef i xs), length (bef i xs))"
proof (induction "length c" arbitrary: b c rule: less_induct)
  case less
  have "i < lev_at (zsl_level zsl) b" using less.prems(2) assms(4) by (auto simp: lev_at_def)
  then have l: "get_level h (node_at (zsl_header zsl) b) i = Some (fwd i (c @ ys))" using zrepD(1) [OF assms(1)] less.prems(1) by simp
  show ?case
  proof (cases "c @ ys" i rule: first_tall)
    case none
    then have "bef i xs = b" using bef_append [of c i b] less.prems by auto
    then show ?thesis using l fwd_none [OF none] by (subst zsl_walk.simps) simp
  next
    case (tall zs e rest)
    have es: "xs @ ys = (b @ zs) @ e # rest" using less.prems(1) tall(1) by simp
    obtain n where n: "zh_node h (addr e) = Some n" "node_ok e (b @ zs) n" using zrepD(3) [OF assms(1) es] by blast
    have c: "cond n (Suc (length (b @ zs))) = Some (length (b @ zs) < length xs)" using assms(2) n es unfolding cuts_def by blast
    have w: "w (length b + Suc (length zs)) = Suc (length (b @ zs))" using assms(3) [of "Suc (length (b @ zs))"] arg_cong [OF es, of length] by simp
    show ?thesis
    proof (cases "length (b @ zs) < length xs")
      case True
      then have "length zs < length c" using less.prems(1) by simp
      then obtain e' c' where "c = zs @ e' # c'" using tall(1)
        by (metis append_eq_append_conv_if append_take_drop_id drop_eq_Nil leD less_imp_le neq_Nil_conv)
      then have c': "c = (zs @ [e]) @ c'" using tall(1) by simp
      have "zsl_walk w cond h i (node_at (zsl_header zsl) ((b @ zs) @ [e])) (length ((b @ zs) @ [e])) = Some (node_at (zsl_header zsl) (bef i xs), length (bef i xs))"
        by (rule less.hyps [of c']) (use c' less.prems(1) tall(3) in auto)
      note r = this [unfolded at_simps]
      show ?thesis using r l tall(4) n(1) c w True by (subst zsl_walk.simps) simp
    next
      case False
      then obtain zs' where z: "zs = c @ zs'" using tall(1) less.prems(1) by (auto simp: append_eq_append_conv2)
      then have "bef i xs = b" using bef_append [of c i b] less.prems tall(2) by auto
      then show ?thesis using l tall(4) n(1) c w False by (subst zsl_walk.simps) simp
    qed
  qed
qed

lemma zsl_walk_step:
  assumes "zrep h zsl (xs @ ys)" "cuts cond h xs ys" "\<And>n. n \<le> length (xs @ ys) \<Longrightarrow> w n = n" "i < zsl_level zsl"
  shows "zsl_walk w cond h i (node_at (zsl_header zsl) (bef (Suc i) xs)) (length (bef (Suc i) xs)) =
    Some (node_at (zsl_header zsl) (bef i xs), length (bef i xs))"
proof -
  obtain zs where z: "xs = bef (Suc i) xs @ zs" "bef (Suc i) xs = [] \<or> Suc i < hgt (last (bef (Suc i) xs))" by (rule bef_ex)
  then show ?thesis using zsl_walk_finds [OF assms z(1)] by auto
qed

lemma zsl_descend_finds:
  assumes "zrep h zsl (xs @ ys)" "cuts cond h xs ys" "\<And>n. n \<le> length (xs @ ys) \<Longrightarrow> w n = n"
  shows "k \<le> zsl_level zsl \<Longrightarrow> zsl_descend w cond h k (node_at (zsl_header zsl) (bef k xs)) (length (bef k xs)) =
    Some (node_at (zsl_header zsl) (bef 0 xs), length (bef 0 xs), map (\<lambda>i. node_at (zsl_header zsl) (bef i xs)) [0..<k],
      map (\<lambda>i. length (bef i xs)) [0..<k])"
proof (induction k)
  case (Suc k)
  then show ?case using zsl_walk_step [OF assms, of k] zrepD(10) [OF assms(1)] by simp
qed simp

lemma bef_top: "zrep h zsl (xs @ ys) \<Longrightarrow> zsl_level zsl \<le> k \<Longrightarrow> bef k xs = []"
  using zrepD(12) by (intro bef_none) fastforce

lemma bef_0: "zrep h zsl (xs @ ys) \<Longrightarrow> bef 0 xs = xs"
  using zrepD(11) by (intro bef_all) fastforce

lemma zsl_search:
  assumes "zrep h zsl (xs @ ys)" "cuts cond h xs ys" "\<And>n. n < 2 ^ 32 \<Longrightarrow> w n = n"
  shows "zsl_descend w cond h (zsl_level zsl) (zsl_header zsl) 0 =
    Some (node_at (zsl_header zsl) xs, length xs, map (\<lambda>i. node_at (zsl_header zsl) (bef i xs)) [0..<zsl_level zsl],
      map (\<lambda>i. length (bef i xs)) [0..<zsl_level zsl])"
proof -
  have "\<And>n. n \<le> length (xs @ ys) \<Longrightarrow> w n = n" using zrepD(8) [OF assms(1)] assms(3) by simp
  from zsl_descend_finds [OF assms(1,2) this order_refl] show ?thesis using bef_top [OF assms(1)] bef_0 [OF assms(1)] by simp
qed

section \<open>Changing one level of every node\<close>

definition zupd :: "(nat \<Rightarrow> nat \<Rightarrow> nat option \<times> nat \<Rightarrow> nat option \<times> nat) \<Rightarrow> 's zheap \<Rightarrow> 's zheap" where
  "zupd g h = h\<lparr>zh_node := \<lambda>a. map_option (\<lambda>n. n\<lparr>z_level := map (\<lambda>i. g a i (z_level n ! i)) [0..<length (z_level n)]\<rparr>) (zh_node h a)\<rparr>"

lemma zh_node_zupd: "zh_node (zupd g h) a = map_option (\<lambda>n. n\<lparr>z_level := map (\<lambda>i. g a i (z_level n ! i)) [0..<length (z_level n)]\<rparr>) (zh_node h a)"
  by (simp add: zupd_def)

lemma zupd_brk [simp]: "zh_brk (zupd g h) = zh_brk h" by (simp add: zupd_def)

lemma get_level_zupd: "get_level (zupd g h) a i = map_option (g a i) (get_level h a i)"
  by (cases "zh_node h a") (auto simp: get_level_def zh_node_zupd rd_def)

lemma zupd_zupd: "zupd g (zupd f h) = zupd (\<lambda>a i v. g a i (f a i v)) h"
  by (rule zheap.equality) (auto simp: zh_node_zupd zupd_def option.map_comp comp_def fun_eq_iff intro!: option.map_cong)

lemma zupd_cong:
  assumes "\<And>a i v. get_level h a i = Some v \<Longrightarrow> g a i v = f a i v"
  shows "zupd g h = zupd f h"
proof (rule zheap.equality)
  have "(map (\<lambda>i. g a i (z_level n ! i)) [0..<length (z_level n)]) = (map (\<lambda>i. f a i (z_level n ! i)) [0..<length (z_level n)])"
    if "zh_node h a = Some n" for a n using assms that by (auto simp: get_level_def rd_def)
  then show "zh_node (zupd g h) = zh_node (zupd f h)" by (auto simp: zh_node_zupd fun_eq_iff intro!: option.map_cong)
qed (simp_all add: zupd_def)

lemma zupd_id: "zupd (\<lambda>a i v. v) h = h"
  by (rule zheap.equality) (auto simp: zupd_def fun_eq_iff map_nth intro!: option.map_ident_strong)

lemma set_level_zupd:
  assumes "get_level h u i = Some w"
  shows "set_level h u i v = Some (zupd (\<lambda>a j x. if j = i then if a = u then v else x else x) h)"
proof -
  obtain n where n: "zh_node h u = Some n" "i < length (z_level n)" using assms by (auto simp: get_level_def rd_def bind_eq_Some_conv split: if_splits)
  have e: "(z_level n)[i := v] = map (\<lambda>j. if j = i then v else z_level n ! j) [0..<length (z_level n)]"
    by (rule nth_equalityI) (auto simp: nth_list_update)
  have s: "map (\<lambda>j. if j = i then l ! i else l ! j) [0..<length l] = l" for l :: "(nat option \<times> nat) list"
    by (rule nth_equalityI) auto
  have "h\<lparr>zh_node := (zh_node h)(u \<mapsto> n\<lparr>z_level := (z_level n)[i := v]\<rparr>)\<rparr> = zupd (\<lambda>a j x. if j = i then if a = u then v else x else x) h"
    by (rule zheap.equality) (auto simp: zupd_def n e fun_eq_iff s cong: if_cong intro!: option.map_ident_strong [symmetric])
  then show ?thesis using n by (simp add: set_level_def wr_def)
qed

text \<open>A loop whose body changes, for each \<open>i\<close>, only levels \<open>i\<close>.\<close>

lemma level_loop:
  assumes "distinct js"
    "\<And>h' i. i \<in> set js \<Longrightarrow> (\<And>a. get_level h' a i = get_level h a i) \<Longrightarrow> body h' i = Some (zupd (\<lambda>a j v. if j = i then G i a v else v) h')"
  shows "ofold body h js = Some (zupd (\<lambda>a j v. if j \<in> set js then G j a v else v) h)"
  using assms
proof (induction js rule: rev_induct)
  case Nil
  then show ?case by (simp add: zupd_id)
next
  case (snoc i js)
  let ?h = "zupd (\<lambda>a j v. if j \<in> set js then G j a v else v) h"
  have 1: "ofold body h js = Some ?h" using snoc by auto
  have "get_level ?h a i = get_level h a i" for a using snoc.prems(1) by (simp add: get_level_zupd option.map_ident)
  then have "body ?h i = Some (zupd (\<lambda>a j v. if j = i then G i a v else v) ?h)" using snoc.prems(2) [of i ?h] by simp
  moreover have "zupd (\<lambda>a j v. if j = i then G i a v else v) ?h = zupd (\<lambda>a j v. if j \<in> set (js @ [i]) then G j a v else v) h"
    unfolding zupd_zupd by (rule zupd_cong) (use snoc.prems(1) in auto)
  ultimately show ?case using 1 by (simp add: ofold_append)
qed

lemma znodes_zupd [simp]: "znodes (zupd g h) hdr es \<longleftrightarrow> znodes h hdr es"
proof -
  have "(\<exists>n. zh_node (zupd g h) a = Some n \<and> P n) \<longleftrightarrow> (\<exists>n. zh_node h a = Some n \<and> P n)"
    if "\<And>n l. length l = length (z_level n) \<Longrightarrow> P (n\<lparr>z_level := l\<rparr>) = P n" for P a
    using that by (auto simp: zh_node_zupd)
  then show ?thesis unfolding znodes_def by (simp add: node_ok_def header_ok_def) (simp add: zh_node_zupd)
qed

section \<open>Insertion\<close>

lemma node_at_nth: "es = b @ c \<Longrightarrow> node_at hdr b = (hdr # map addr es) ! length b"
  by (cases b rule: rev_cases) (auto simp: nth_append)

lemma node_at_inj:
  assumes "distinct (hdr # map addr es)" "es = b @ c" "es = b' @ c'" "node_at hdr b = node_at hdr b'"
  shows "b = b'"
proof -
  have "(hdr # map addr es) ! length b = (hdr # map addr es) ! length b'" using assms(4) node_at_nth [OF assms(2)] node_at_nth [OF assms(3)] by simp
  moreover have "length b < length (hdr # map addr es)" "length b' < length (hdr # map addr es)"
    using arg_cong [OF assms(2), of length] arg_cong [OF assms(3), of length] by simp_all
  ultimately have "length b = length b'" using assms(1) nth_eq_iff_index_eq by blast
  then show ?thesis using assms(2,3) by simp
qed

lemma node_at_bef:
  assumes "distinct (hdr # map addr (xs @ ys))" "xs = b @ zs" "i < lev_at L b"
  shows "node_at hdr b = node_at hdr (bef i xs) \<longleftrightarrow> (\<forall>z\<in>set zs. hgt z \<le> i)"
proof
  obtain ws where w: "xs = bef i xs @ ws" "\<forall>z\<in>set ws. hgt z \<le> i" by (rule bef_ex)
  assume "node_at hdr b = node_at hdr (bef i xs)"
  then have "b = bef i xs" using assms(1) w(1) assms(2) node_at_inj [of hdr "xs @ ys" b "zs @ ys" "bef i xs" "ws @ ys"] by (metis append.assoc)
  then show "\<forall>z\<in>set zs. hgt z \<le> i" using w assms(2) by (metis same_append_eq)
next
  assume "\<forall>z\<in>set zs. hgt z \<le> i"
  then have "bef i xs = b" using bef_append [of zs i b] assms(2,3) by (auto simp: lev_at_def split: if_splits)
  then show "node_at hdr b = node_at hdr (bef i xs)" by simp
qed

text \<open>The predecessor on each level, with the entries between it and the place of the new one.\<close>

lemma update_level:
  assumes "zrep h zsl (xs @ ys)" "i < zsl_level zsl"
  shows "get_level h (node_at (zsl_header zsl) (bef i xs)) i = Some (fst (fwd i ys), length xs - length (bef i xs) + snd (fwd i ys))"
    "length (bef i xs) \<le> length xs" "length xs + snd (fwd i ys) < 2 ^ 32"
proof -
  obtain zs where z: "xs = bef i xs @ zs" "\<forall>z\<in>set zs. hgt z \<le> i" "bef i xs = [] \<or> i < hgt (last (bef i xs))" by (rule bef_ex)
  have "i < lev_at (zsl_level zsl) (bef i xs)" using z(3) assms(2) by (auto simp: lev_at_def)
  moreover have "xs @ ys = bef i xs @ zs @ ys" using z(1) by simp
  ultimately have "get_level h (node_at (zsl_header zsl) (bef i xs)) i = Some (fwd i (zs @ ys))" using zrepD(1) [OF assms(1)] by blast
  moreover have "length zs = length xs - length (bef i xs)" using arg_cong [OF z(1), of length] by simp
  ultimately show "get_level h (node_at (zsl_header zsl) (bef i xs)) i = Some (fst (fwd i ys), length xs - length (bef i xs) + snd (fwd i ys))"
    using fwd_skip [OF z(2)] by simp
  show "length (bef i xs) \<le> length xs" using arg_cong [OF z(1), of length] by simp
  show "length xs + snd (fwd i ys) < 2 ^ 32" using zrepD(8) [OF assms(1)] fwd_span [of i ys] by simp
qed

lemma grow_levels:
  assumes "zrep h zsl es" "zsl_level zsl \<le> L" "L \<le> ZSKIPLIST_MAXLEVEL"
  shows "\<exists>h'. ofold (grow_level zsl) h [zsl_level zsl..<L] = Some h' \<and> zrep h' (zsl\<lparr>zsl_level := L\<rparr>) es \<and> zh_brk h' = zh_brk h"
proof -
  let ?hdr = "zsl_header zsl"
  let ?G = "\<lambda>(i::nat) a v. if a = ?hdr then (None, length es) else v"
  let ?h = "zupd (\<lambda>a j v. if j \<in> set [zsl_level zsl..<L] then ?G j a v else v) h"
  have "ofold (grow_level zsl) h [zsl_level zsl..<L] = Some ?h"
  proof (rule level_loop)
    fix h' i
    assume i: "i \<in> set [zsl_level zsl..<L]" and g: "\<And>a. get_level h' a i = get_level h a i"
    then obtain s where "get_level h' ?hdr i = Some (None, s)" using zrepD(2) [OF assms(1), of i] assms(3) by auto
    then show "grow_level zsl h' i = Some (zupd (\<lambda>a j v. if j = i then ?G i a v else v) h')"
      using zrepD(7,8) [OF assms(1)] by (simp add: grow_level_def set_level_zupd cong: if_cong)
  qed simp
  moreover have "zlinks ?h ?hdr L es"
    unfolding zlinks_def
  proof (intro allI impI)
    fix b c i
    assume e: "es = b @ c" and i: "i < lev_at L b"
    show "get_level ?h (node_at ?hdr b) i = Some (fwd i c)"
    proof (cases "i < lev_at (zsl_level zsl) b")
      case True
      have "\<not> (zsl_level zsl \<le> i \<and> node_at ?hdr b = ?hdr)"
      proof (cases b rule: rev_cases)
        case (snoc b' e)
        then show ?thesis using e zrepD(5) [OF assms(1)] by auto
      qed (use True in auto)
      then show ?thesis using zrepD(1) [OF assms(1) e True] by (auto simp: get_level_zupd)
    next
      case False
      then have b: "b = []" "zsl_level zsl \<le> i" "i < L" using i by (auto simp: lev_at_def split: if_splits)
      then have "\<forall>z\<in>set c. hgt z \<le> i" using zrepD(12) [OF assms(1)] e by fastforce
      then have "fwd i c = (None, length es)" using fwd_none e b(1) by auto
      moreover obtain s where "get_level h ?hdr i = Some (None, s)" using zrepD(2) [OF assms(1) b(2)] b assms(3) by force
      ultimately show ?thesis using b by (simp add: get_level_zupd)
    qed
  qed
  moreover have "ztop ?h ?hdr L"
    using zrepD(2) [OF assms(1)] assms(2) by (fastforce simp: ztop_def get_level_zupd)
  ultimately show ?thesis using assms unfolding zrep_def by fastforce
qed

lemma zslCreateNode_rep:
  assumes "zrep h zsl es" "zslCreateNode jk h lv s obj = (h', x)"
  shows "zrep h' zsl es" "x = zh_brk h" "x \<notin> set (zsl_header zsl # map addr es)"
    "zh_node h' x = Some \<lparr>z_obj = obj, z_score = s, z_backward = fst jk, z_level = map (snd jk) [0..<lv]\<rparr>"
    "\<And>i. i < lv \<Longrightarrow> \<exists>v. get_level h' x i = Some v"
proof -
  show x: "x = zh_brk h" using assms(2) by (auto simp: zslCreateNode_def)
  have h': "h' = h\<lparr>zh_brk := Suc x, zh_node := (zh_node h)(x \<mapsto> \<lparr>z_obj = obj, z_score = s, z_backward = fst jk, z_level = map (snd jk) [0..<lv]\<rparr>)\<rparr>"
    using assms(2) by (auto simp: zslCreateNode_def)
  have n: "zh_node h x = None" using zrepD(13) [OF assms(1)] x by simp
  have m: "zh_node h a = Some y \<Longrightarrow> zh_node h' a = Some y" for a y using n h' by auto
  have "x \<noteq> addr e" if "e \<in> set es" for e using split_list [OF that] zrepD(3) [OF assms(1)] n by fastforce
  then show "x \<notin> set (zsl_header zsl # map addr es)" using zrepD(4) [OF assms(1)] n by auto
  show "zh_node h' x = Some \<lparr>z_obj = obj, z_score = s, z_backward = fst jk, z_level = map (snd jk) [0..<lv]\<rparr>" by (simp add: h')
  then show "\<And>i. i < lv \<Longrightarrow> \<exists>v. get_level h' x i = Some v" by (simp add: get_level_def rd_def)
  have g: "get_level h a i = Some v \<Longrightarrow> get_level h' a i = Some v" for a i v using m by (auto simp: get_level_def bind_eq_Some_conv)
  have "zh_node h' a = None" if "zh_brk h' \<le> a" for a using that zrepD(13) [OF assms(1)] h' x by simp
  then have "znodes h' (zsl_header zsl) es" using zrepD(3,4) [OF assms(1)] m unfolding znodes_def by blast
  then show "zrep h' zsl es" using assms(1) g unfolding zrep_def zlinks_def ztop_def by blast
qed

definition linked :: "nat \<Rightarrow> nat \<Rightarrow> nat \<Rightarrow> nat \<Rightarrow> 's zent list \<Rightarrow> 's zent list \<Rightarrow> nat \<Rightarrow> nat \<Rightarrow> nat option \<times> nat \<Rightarrow> nat option \<times> nat" where
  "linked hdr L x lv xs ys a i v =
     (if i < lv then
        if a = node_at hdr (bef i xs) then (Some x, Suc (length xs - length (bef i xs)))
        else if a = x then fwd i ys else v
      else if i < L \<and> a = node_at hdr (bef i xs) then (fst v, Suc (snd v))
      else v)"

lemma link_levels:
  fixes h :: "'s zheap"
  assumes r: "zrep h zsl (xs @ ys)" and x: "x \<notin> set (zsl_header zsl # map addr (xs @ ys))" "\<And>i. i < lv \<Longrightarrow> \<exists>v. get_level h x i = Some v"
    and lv: "1 \<le> lv" "lv \<le> zsl_level zsl" and len: "Suc (length (xs @ ys)) < 2 ^ 32"
    and u: "update = map (\<lambda>i. node_at (zsl_header zsl) (bef i xs)) [0..<zsl_level zsl]" "rank = map (\<lambda>i. length (bef i xs)) [0..<zsl_level zsl]"
  shows "(do { h \<leftarrow> ofold (link_level x update rank) h [0..<lv]; ofold (span_incr update) h [lv..<zsl_level zsl] }) =
    Some (zupd (linked (zsl_header zsl) (zsl_level zsl) x lv xs ys) h)"
proof -
  let ?L = "zsl_level zsl" and ?u = "\<lambda>i. node_at (zsl_header zsl) (bef i xs)"
  let ?G = "\<lambda>i a v. if a = ?u i then (Some x, Suc (length xs - length (bef i xs))) else if a = x then fwd i ys else v"
  let ?S = "\<lambda>i a v. if a = ?u i then (fst v, Suc (snd v)) else v :: nat option \<times> nat"
  let ?h1 = "zupd (\<lambda>a j v. if j \<in> set [0..<lv] then ?G j a v else v) h"
  have ux: "?u i \<noteq> x" for i
  proof -
    have "addr ` set (bef i xs) \<subseteq> addr ` set xs" by (intro image_mono bef_set)
    then show ?thesis using node_at_in [of "zsl_header zsl" "bef i xs"] x(1) by auto
  qed
  have "ofold (link_level x update rank) h [0..<lv] = Some ?h1"
  proof (rule level_loop)
    fix h' :: "'s zheap" and i
    assume "i \<in> set [0..<lv]" and g: "\<And>a. get_level h' a i = get_level h a i"
    then have i: "i < lv" "i < ?L" using lv by auto
    obtain v where v: "get_level h' x i = Some v" using x(2) [OF i(1)] g by auto
    note ul = update_level [OF r i(2)]
    have g1: "get_level h' (?u i) i = Some (fst (fwd i ys), length xs - length (bef i xs) + snd (fwd i ys))" using ul(1) g by simp
    let ?h' = "zupd (\<lambda>a j v. if j = i then if a = x then fwd i ys else v else v) h'"
    have g2: "get_level ?h' (?u i) i = Some (fst (fwd i ys), length xs - length (bef i xs) + snd (fwd i ys))"
      using g1 ux by (simp add: get_level_zupd)
    have "zupd (\<lambda>a j v. if j = i then if a = ?u i then (Some x, Suc (length xs - length (bef i xs))) else v else v) ?h' =
        zupd (\<lambda>a j v. if j = i then ?G i a v else v) h'"
      unfolding zupd_zupd by (rule zupd_cong) auto
    moreover have "sub32 (length xs) (length (bef i xs)) = length xs - length (bef i xs)" using ul(2,3) by (intro sub32_le) simp_all
    moreover have "sub32 (length xs - length (bef i xs) + snd (fwd i ys)) (length xs - length (bef i xs)) = snd (fwd i ys)"
      using ul(3) by (subst sub32_le) simp_all
    moreover have "add32 (length xs - length (bef i xs)) 1 = Suc (length xs - length (bef i xs))" using len by (subst add32_id) simp_all
    moreover note set_level_zupd [OF v, of "fwd i ys"] set_level_zupd [OF g2, of "(Some x, Suc (length xs - length (bef i xs)))"]
    ultimately show "link_level x update rank h' i = Some (zupd (\<lambda>a j v. if j = i then ?G i a v else v) h')"
      using i lv g1 g2 by (simp add: link_level_def u rd_in bef_0 [OF r])
  qed simp
  moreover have "ofold (span_incr update) ?h1 [lv..<?L] = Some (zupd (\<lambda>a j v. if j \<in> set [lv..<?L] then ?S j a v else v) ?h1)"
  proof (rule level_loop)
    fix h' :: "'s zheap" and i
    assume "i \<in> set [lv..<?L]" and g: "\<And>a. get_level h' a i = get_level ?h1 a i"
    then have i: "lv \<le> i" "i < ?L" by auto
    note ul = update_level [OF r i(2)]
    have g1: "get_level h' (?u i) i = Some (fst (fwd i ys), length xs - length (bef i xs) + snd (fwd i ys))"
      using ul(1) g i(1) by (simp add: get_level_zupd)
    have "snd (fwd i ys) \<le> length ys" by (rule fwd_span)
    then have "add32 (length xs - length (bef i xs) + snd (fwd i ys)) 1 = Suc (length xs - length (bef i xs) + snd (fwd i ys))"
      using len by (subst add32_id) simp_all
    moreover have "zupd (\<lambda>a j v. if j = i then if a = ?u i then (fst (fwd i ys), Suc (length xs - length (bef i xs) + snd (fwd i ys))) else v else v) h' =
        zupd (\<lambda>a j v. if j = i then ?S i a v else v) h'"
      using g1 by (intro zupd_cong) auto
    moreover note set_level_zupd [OF g1, of "(fst (fwd i ys), Suc (length xs - length (bef i xs) + snd (fwd i ys)))"]
    ultimately show "span_incr update h' i = Some (zupd (\<lambda>a j v. if j = i then ?S i a v else v) h')"
      using i g1 by (simp add: span_incr_def u rd_in)
  qed simp
  moreover have "zupd (\<lambda>a j v. if j \<in> set [lv..<?L] then ?S j a v else v) ?h1 = zupd (linked (zsl_header zsl) ?L x lv xs ys) h"
    unfolding zupd_zupd by (rule zupd_cong) (auto simp: linked_def)
  ultimately show ?thesis by simp
qed

lemma linked_links:
  assumes r: "zrep h zsl (xs @ ys)" and x: "x \<notin> set (zsl_header zsl # map addr (xs @ ys))" "\<And>i. i < lv \<Longrightarrow> \<exists>v. get_level h x i = Some v"
    and lv: "lv \<le> zsl_level zsl"
  shows "zlinks (zupd (linked (zsl_header zsl) (zsl_level zsl) x lv xs ys) h) (zsl_header zsl) (zsl_level zsl) (xs @ Zent x lv key # ys)"
  unfolding zlinks_def
proof (intro allI impI)
  fix b c i
  let ?hdr = "zsl_header zsl" and ?L = "zsl_level zsl" and ?e = "Zent x lv key"
  assume e: "xs @ ?e # ys = b @ c" and i: "i < lev_at ?L b"
  note d = zrepD(5) [OF r]
  consider (pre) zs where "xs = b @ zs" "c = zs @ ?e # ys" | (new) "b = xs @ [?e]" "c = ys" | (post) b' where "b = xs @ ?e # b'" "ys = b' @ c" "b' \<noteq> []"
    using e by (auto simp: append_eq_append_conv2 Cons_eq_append_conv)
  then show "get_level (zupd (linked ?hdr ?L x lv xs ys) h) (node_at ?hdr b) i = Some (fwd i c)"
  proof cases
    case pre
    have iL: "i < ?L"
    proof (cases b rule: rev_cases)
      case (snoc b' e')
      then show ?thesis using i zrepD(12) [OF r, of e'] pre(1) by simp
    qed (use i in simp)
    have x': "node_at ?hdr b \<noteq> x" using node_at_in [of ?hdr b] x(1) pre(1) by auto
    have g: "get_level h (node_at ?hdr b) i = Some (fwd i (zs @ ys))" using zrepD(1) [OF r _ i] pre(1) by simp
    note u = node_at_bef [OF d pre(1) i]
    show ?thesis
    proof (cases "\<forall>z\<in>set zs. hgt z \<le> i")
      case True
      then have "length xs - length (bef i xs) = length zs"
        using bef_append [OF True, of b] pre(1) i by (auto simp: lev_at_def split: if_splits)
      then show ?thesis using g u True x' iL fwd_skip [OF True] pre(2) by (simp add: get_level_zupd linked_def)
    next
      case False
      then obtain z where "z \<in> set zs" "i < hgt z" by (auto simp: not_le)
      then have "fwd i (zs @ ws) = fwd i zs" for ws by (rule fwd_stop)
      then show ?thesis using g u False x' pre(2) by (simp add: get_level_zupd linked_def)
    qed
  next
    case new
    have "addr ` set (bef i xs) \<subseteq> addr ` set xs" by (intro image_mono bef_set)
    then have "x \<noteq> node_at ?hdr (bef i xs)" using node_at_in [of ?hdr "bef i xs"] x(1) by auto
    then show ?thesis using new i x(2) [of i] by (auto simp: get_level_zupd linked_def)
  next
    case post
    have b: "node_at ?hdr b = node_at ?hdr (xs @ b')" "lev_at ?L b = lev_at ?L (xs @ b')" using post by (simp_all add: node_at_def lev_at_def)
    have g: "get_level h (node_at ?hdr (xs @ b')) i = Some (fwd i c)" using zrepD(1) [OF r, of "xs @ b'" c i] i b post(2) by simp
    obtain zs where z: "xs = bef i xs @ zs" by (rule bef_ex)
    have "node_at ?hdr (xs @ b') \<noteq> node_at ?hdr (bef i xs)"
    proof
      assume "node_at ?hdr (xs @ b') = node_at ?hdr (bef i xs)"
      then have "xs @ b' = bef i xs" using node_at_inj [OF d, of "xs @ b'" c "bef i xs" "zs @ ys"] z post(2) by (metis append.assoc)
      then show False using arg_cong [OF z, of length] post(3) by (metis append_Nil2 append_is_Nil_conv append_eq_append_conv append.assoc)
    qed
    moreover have "node_at ?hdr (xs @ b') \<noteq> x" using node_at_in [of ?hdr "xs @ b'"] x(1) post(2) by auto
    ultimately show ?thesis using g b by (simp add: get_level_zupd linked_def)
  qed
qed

lemma set_backward_some:
  assumes "zh_node h x = Some n"
  shows "set_backward h x p = Some (h\<lparr>zh_node := (zh_node h)(x \<mapsto> n\<lparr>z_backward := p\<rparr>)\<rparr>)"
    "get_level (h\<lparr>zh_node := (zh_node h)(x \<mapsto> n\<lparr>z_backward := p\<rparr>)\<rparr>) a i = get_level h a i"
  using assms by (simp_all add: set_backward_def get_level_def)

lemma zslRandomLevel_range: "zslRandomLevel rs = Some lv \<Longrightarrow> 1 \<le> lv \<and> lv \<le> ZSKIPLIST_MAXLEVEL"
proof -
  have "random_level_loop rs k = Some l \<Longrightarrow> k \<le> l" for k l
    by (induction rs k rule: random_level_loop.induct) (auto split: if_splits)
  then show "zslRandomLevel rs = Some lv \<Longrightarrow> 1 \<le> lv \<and> lv \<le> ZSKIPLIST_MAXLEVEL"
    by (auto simp: zslRandomLevel_def bind_eq_Some_conv ZSKIPLIST_MAXLEVEL_def split: if_splits)
qed

lemma zslRandomLevel_returns: "\<exists>r\<in>set rs. 16384 \<le> r mod 65536 \<Longrightarrow> \<exists>lv. zslRandomLevel rs = Some lv"
proof -
  assume r: "\<exists>r\<in>set rs. 16384 \<le> r mod 65536"
  then have "\<exists>l. random_level_loop rs k = Some l" for k
    by (induction rs k rule: random_level_loop.induct) auto
  then obtain l where "random_level_loop rs 1 = Some l" by blast
  then show ?thesis by (simp add: zslRandomLevel_def)
qed

text \<open>The back pointers and the ends, after the links of a new node are in place.\<close>

lemma insert_nodes:
  assumes d: "distinct (hdr # map addr (xs @ ys))" and n: "znodes h hdr (xs @ ys)" and x: "x \<notin> set (hdr # map addr (xs @ ys))"
    and nx: "zh_node h x = Some n" "z_obj n = Some (snd key)" "z_score n = fst key" "length (z_level n) = lv"
  shows "ys = [] \<Longrightarrow> znodes (h\<lparr>zh_node := (zh_node h)(x \<mapsto> n\<lparr>z_backward := back_at xs\<rparr>)\<rparr>) hdr (xs @ [Zent x lv key])"
    "ys = y # ys' \<Longrightarrow> \<exists>m. zh_node h (addr y) = Some m \<and>
      znodes (h\<lparr>zh_node := (zh_node h)(x \<mapsto> n\<lparr>z_backward := back_at xs\<rparr>, addr y \<mapsto> m\<lparr>z_backward := Some x\<rparr>)\<rparr>) hdr (xs @ Zent x lv key # ys)"
proof -
  let ?e = "Zent x lv key"
  have hdr: "\<exists>n. zh_node h hdr = Some n \<and> header_ok n" and fr: "\<And>a. zh_brk h \<le> a \<Longrightarrow> zh_node h a = None" using n by (auto simp: znodes_def)
  have nd: "\<exists>n. zh_node h (addr e) = Some n \<and> node_ok e b n" if "xs @ ys = b @ e # c" for b e c using n that unfolding znodes_def by blast
  have brk: "x < zh_brk h" using fr [of x] nx(1) by (cases "zh_brk h \<le> x") auto
  have ne: "node_ok ?e xs (n\<lparr>z_backward := back_at xs\<rparr>)" using nx by (simp add: node_ok_def)
  show "znodes (h\<lparr>zh_node := (zh_node h)(x \<mapsto> n\<lparr>z_backward := back_at xs\<rparr>)\<rparr>) hdr (xs @ [?e])" if y: "ys = []"
    unfolding znodes_def
  proof (intro conjI allI impI)
    fix b e c
    assume "xs @ [?e] = b @ e # c"
    then consider "e = ?e" "b = xs" | c' where "xs = b @ e # c'" by (auto simp: append_eq_append_conv2 append_eq_Cons_conv Cons_eq_append_conv)
    then show "\<exists>m. zh_node (h\<lparr>zh_node := (zh_node h)(x \<mapsto> n\<lparr>z_backward := back_at xs\<rparr>)\<rparr>) (addr e) = Some m \<and> node_ok e b m"
    proof cases
      case 2
      then show ?thesis using nd [of b e c'] y x by auto
    qed (use ne in auto)
  qed (use hdr x fr brk in auto)
  show "\<exists>m. zh_node h (addr y) = Some m \<and>
      znodes (h\<lparr>zh_node := (zh_node h)(x \<mapsto> n\<lparr>z_backward := back_at xs\<rparr>, addr y \<mapsto> m\<lparr>z_backward := Some x\<rparr>)\<rparr>) hdr (xs @ ?e # ys)"
    if y: "ys = y # ys'"
  proof -
    obtain m where m: "zh_node h (addr y) = Some m" "node_ok y xs m" using nd [of xs y ys'] y by auto
    let ?h = "h\<lparr>zh_node := (zh_node h)(x \<mapsto> n\<lparr>z_backward := back_at xs\<rparr>, addr y \<mapsto> m\<lparr>z_backward := Some x\<rparr>)\<rparr>"
    have xy: "x \<noteq> addr y" using x y by simp
    have "znodes ?h hdr (xs @ ?e # ys)"
      unfolding znodes_def
    proof (intro conjI allI impI)
      fix b e c
      assume "xs @ ?e # ys = b @ e # c"
      then consider (new) "e = ?e" "b = xs" | (pre) c' where "xs = b @ e # c'" | (fst) "e = y" "b = xs @ [?e]" | (post) b' where "b = xs @ ?e # y # b'" "ys' = b' @ e # c"
        unfolding y by (auto simp: append_eq_append_conv2 append_eq_Cons_conv Cons_eq_append_conv)
      then show "\<exists>m. zh_node ?h (addr e) = Some m \<and> node_ok e b m"
      proof cases
        case pre
        then show ?thesis using nd [of b e "c' @ ys"] x d y by auto
      next
        case fst
        then show ?thesis using m(2) by (simp add: node_ok_def)
      next
        case post
        have "back_at (xs @ ?e # y # b') = back_at (xs @ y # b')" by (simp add: back_at_def)
        then show ?thesis using post nd [of "xs @ y # b'" e c] x d y by (auto simp: node_ok_def)
      qed (use ne xy in auto)
    qed (use hdr x fr brk d y m in \<open>auto simp: znodes_def\<close>)
    then show ?thesis using m(1) by blast
  qed
qed

lemma zslInsert_rep:
  fixes h :: "('s::linorder) zheap"
  assumes r: "zrep h zsl (xs @ ys)" and c: "cuts (before_key s obj) h xs ys" and lv: "zslRandomLevel rs = Some lv" and len: "Suc (length (xs @ ys)) < 2 ^ 32"
  shows "\<exists>h' zsl' x. zslInsert jk rs h zsl s obj = Some (h', zsl', x) \<and> zrep h' zsl' (xs @ Zent x lv (s, obj) # ys) \<and>
    x \<notin> addr ` set (xs @ ys) \<and> zsl_header zsl' = zsl_header zsl"
proof -
  let ?hdr = "zsl_header zsl" and ?L = "max lv (zsl_level zsl)"
  let ?zsl = "zsl\<lparr>zsl_level := ?L\<rparr>"
  let ?upd = "\<lambda>L. map (\<lambda>i. node_at ?hdr (bef i xs)) [0..<L]" and ?rank = "\<lambda>L. map (\<lambda>i. length (bef i xs)) [0..<L]"
  note lvr = zslRandomLevel_range [OF lv]
  have search: "zsl_descend u32 (before_key s obj) h (zsl_level zsl) ?hdr 0 = Some (node_at ?hdr xs, length xs, ?upd (zsl_level zsl), ?rank (zsl_level zsl))"
    by (rule zsl_search [OF r c]) (rule u32_id)
  obtain h1 where h1: "ofold (grow_level zsl) h [zsl_level zsl..<?L] = Some h1" "zrep h1 ?zsl (xs @ ys)" "zh_brk h1 = zh_brk h"
    using grow_levels [OF r, of ?L] lvr zrepD(10) [OF r] by auto
  have "bef i xs = []" if "zsl_level zsl \<le> i" for i using bef_top [OF r that] .
  then have u: "?upd (zsl_level zsl) @ replicate (lv - zsl_level zsl) ?hdr = ?upd ?L" "?rank (zsl_level zsl) @ replicate (lv - zsl_level zsl) 0 = ?rank ?L"
    by (auto intro!: nth_equalityI simp: nth_append)
  obtain h2 x where cn: "zslCreateNode jk h1 lv s (Some obj) = (h2, x)" by fastforce
  note h2 = zslCreateNode_rep [OF h1(2) cn]
  let ?h3 = "zupd (linked ?hdr ?L x lv xs ys) h2"
  have x: "x \<notin> set (?hdr # map addr (xs @ ys))" using h2(3) by simp
  have loops: "(do { h \<leftarrow> ofold (link_level x (?upd ?L) (?rank ?L)) h2 [0..<lv]; ofold (span_incr (?upd ?L)) h [lv..<?L] }) = Some ?h3"
    using link_levels [OF h2(1), of x lv "?upd ?L" "?rank ?L"] x h2(5) lvr len by simp
  have links: "zlinks ?h3 ?hdr ?L (xs @ Zent x lv (s, obj) # ys)" using linked_links [OF h2(1), of x lv "(s, obj)"] x h2(5) by simp
  have top: "ztop ?h3 ?hdr ?L" using h2(1) by (fastforce simp: zrep_def ztop_def get_level_zupd linked_def)
  have nodes: "znodes ?h3 ?hdr (xs @ ys)" using h2(1) by (simp add: zrep_def)
  obtain n where n: "zh_node ?h3 x = Some n" "z_obj n = Some obj" "z_score n = s" "length (z_level n) = lv"
    using h2(4) by (auto simp: zh_node_zupd)
  have l0: "get_level ?h3 x 0 = Some (fwd 0 ys)"
    using links [unfolded zlinks_def, rule_format, of "xs @ [Zent x lv (s, obj)]" ys 0] lvr by simp
  have d: "distinct (?hdr # map addr (xs @ ys))" using zrepD(5) [OF r] .
  have bk: "(if node_at ?hdr xs = ?hdr then None else Some (node_at ?hdr xs)) = back_at xs"
    using d by (cases xs rule: rev_cases) auto
  note ins = insert_nodes [OF d nodes x n(1), of "(s, obj)" lv, unfolded fst_conv snd_conv, OF n(2-4)]
  have upd0: "rd (?upd ?L) 0 = Some (node_at ?hdr xs)" using lvr bef_0 [OF r] by (simp add: rd_in less_max_iff_disj)
  let ?h4 = "?h3\<lparr>zh_node := (zh_node ?h3)(x \<mapsto> n\<lparr>z_backward := back_at xs\<rparr>)\<rparr>"
  have g4: "get_level ?h4 a i = get_level ?h3 a i" for a i by (rule set_backward_some(2) [OF n(1)])
  have code: "zslInsert jk rs h zsl s obj =
    (case fst (fwd 0 ys) of
       Some y \<Rightarrow> do { h \<leftarrow> set_backward ?h4 y (Some x); Some (h, ?zsl\<lparr>zsl_length := u64 (zsl_length zsl + 1)\<rparr>, x) }
     | None \<Rightarrow> Some (?h4, ?zsl\<lparr>zsl_tail := Some x, zsl_length := u64 (zsl_length zsl + 1)\<rparr>, x))"
  proof -
    obtain ha where ha: "ofold (link_level x (?upd ?L) (?rank ?L)) h2 [0..<lv] = Some ha" "ofold (span_incr (?upd ?L)) ha [lv..<?L] = Some ?h3"
      using loops by (auto simp: bind_eq_Some_conv)
    have g: "get_level ?h4 x 0 = Some (fwd 0 ys)" using g4 l0 by simp
    have grow: "(if lv > zsl_level zsl then
            do {
              h \<leftarrow> ofold (grow_level zsl) h [zsl_level zsl..<lv];
              let new = lv - zsl_level zsl;
              Some (h, ?upd (zsl_level zsl) @ replicate new ?hdr, ?rank (zsl_level zsl) @ replicate new 0, zsl\<lparr>zsl_level := lv\<rparr>)
            }
          else Some (h, ?upd (zsl_level zsl), ?rank (zsl_level zsl), zsl)) = Some (h1, ?upd ?L, ?rank ?L, ?zsl)"
    proof (cases "lv > zsl_level zsl")
      case True
      then show ?thesis using h1(1) u by (simp add: Let_def max_def)
    next
      case False
      then show ?thesis using h1(1) by (simp add: max_def)
    qed
    show ?thesis unfolding zslInsert_def search bind.bind_lunit prod.case lv grow
      by (simp add: cn ha upd0 Let_def bk set_backward_some(1) [OF n(1)] g del: upt_conv_Cons split: option.split)
  qed
  have len64: "u64 (zsl_length zsl + 1) = Suc (length (xs @ ys))" using zrepD(7) [OF r] len by simp
  have d': "distinct (?hdr # map addr (xs @ Zent x lv (s, obj) # ys))" using d x by auto
  have hg: "\<forall>e\<in>set (xs @ Zent x lv (s, obj) # ys). 1 \<le> hgt e \<and> hgt e \<le> ?L"
    using zrepD(11,12) [OF r] lvr by (fastforce simp: le_max_iff_disj)
  have L: "1 \<le> ?L" "?L \<le> ZSKIPLIST_MAXLEVEL" using lvr zrepD(10) [OF r] by auto
  show ?thesis
  proof (cases ys)
    case Nil
    have "zrep ?h4 (?zsl\<lparr>zsl_tail := Some x, zsl_length := Suc (length (xs @ ys))\<rparr>) (xs @ Zent x lv (s, obj) # ys)"
      using links top ins(1) [OF Nil] d' hg L len unfolding zrep_def zlinks_def ztop_def g4 by (simp add: Nil)
    then show ?thesis using code len64 x Nil by simp
  next
    case (Cons y ys')
    obtain m where m: "zh_node ?h3 (addr y) = Some m"
      "znodes (?h3\<lparr>zh_node := (zh_node ?h3)(x \<mapsto> n\<lparr>z_backward := back_at xs\<rparr>, addr y \<mapsto> m\<lparr>z_backward := Some x\<rparr>)\<rparr>) ?hdr (xs @ Zent x lv (s, obj) # ys)"
      using ins(2) [OF Cons] by blast
    have m4: "zh_node ?h4 (addr y) = Some m" using m(1) x Cons by auto
    note sb = set_backward_some [OF m4, of "Some x"]
    let ?h5 = "?h4\<lparr>zh_node := (zh_node ?h4)(addr y \<mapsto> m\<lparr>z_backward := Some x\<rparr>)\<rparr>"
    have n5: "znodes ?h5 ?hdr (xs @ Zent x lv (s, obj) # ys)" using m(2) by simp
    have "hgt y \<ge> 1" using zrepD(11) [OF r] Cons by simp
    then have f: "fst (fwd 0 ys) = Some (addr y)" using Cons by simp
    have t: "back_at (xs @ Zent x lv (s, obj) # ys) = zsl_tail zsl" using zrepD(6) [OF r] Cons by (simp add: back_at_def)
    have "zrep ?h5 (?zsl\<lparr>zsl_length := Suc (length (xs @ ys))\<rparr>) (xs @ Zent x lv (s, obj) # ys)"
      using links top n5 d' hg L len t unfolding zrep_def zlinks_def ztop_def sb(2) g4 by simp
    moreover have "zslInsert jk rs h zsl s obj = Some (?h5, ?zsl\<lparr>zsl_length := Suc (length (xs @ ys))\<rparr>, x)" using code len64 f sb(1) by simp
    moreover have "x \<notin> addr ` set (xs @ ys)" using x by (simp add: image_Un)
    moreover have "zsl_header (?zsl\<lparr>zsl_length := Suc (length (xs @ ys))\<rparr>) = ?hdr" by simp
    ultimately show ?thesis by blast
  qed
qed

section \<open>Deletion\<close>

definition unlinked :: "nat \<Rightarrow> nat \<Rightarrow> nat \<Rightarrow> 's zent list \<Rightarrow> 's zent list \<Rightarrow> nat \<Rightarrow> nat \<Rightarrow> nat option \<times> nat \<Rightarrow> nat option \<times> nat" where
  "unlinked hdr L lv xs ys a i v =
     (if i < L \<and> a = node_at hdr (bef i xs) then
        if i < lv then (fst (fwd i ys), length xs - length (bef i xs) + snd (fwd i ys)) else (fst v, snd v - 1)
      else v)"

lemma fwd_in: "fst (fwd i zs) = Some a \<Longrightarrow> a \<in> addr ` set zs"
  by (induction zs) (auto split: if_splits)

lemma span_sum: "1 \<le> a \<Longrightarrow> a + b \<le> 2 ^ 32 \<Longrightarrow> add32 a (sub32 b 1) = a + b - 1"
proof -
  assume a: "1 \<le> a" "a + b \<le> 2 ^ 32"
  have "add32 a (sub32 b 1) = (a + (b + 2 ^ 32 - 1)) mod 2 ^ 32" by (simp add: add32_def sub32_def u32_def mod_add_right_eq)
  also have "a + (b + 2 ^ 32 - 1) = (a + b - 1) + 2 ^ 32" using a(1) by simp
  also have "\<dots> mod 2 ^ 32 = (a + b - 1) mod 2 ^ 32" by (rule mod_add_self2)
  also have "\<dots> = a + b - 1" using a by (intro mod_less) linarith
  finally show ?thesis .
qed

lemma unlink_levels:
  fixes h :: "'s zheap"
  assumes r: "zrep h zsl (xs @ e # ys)" and u: "update = map (\<lambda>i. node_at (zsl_header zsl) (bef i xs)) [0..<K]" "zsl_level zsl \<le> K"
  shows "ofold (unlink_level (addr e) update) h [0..<zsl_level zsl] =
    Some (zupd (unlinked (zsl_header zsl) (zsl_level zsl) (hgt e) xs ys) h)"
proof -
  let ?L = "zsl_level zsl" and ?u = "\<lambda>i. node_at (zsl_header zsl) (bef i xs)"
  let ?G = "\<lambda>i a v. if a = ?u i then if i < hgt e then (fst (fwd i ys), length xs - length (bef i xs) + snd (fwd i ys)) else (fst v, snd v - 1) else v"
  have "ofold (unlink_level (addr e) update) h [0..<?L] = Some (zupd (\<lambda>a j v. if j \<in> set [0..<?L] then ?G j a v else v) h)"
  proof (rule level_loop)
    fix h' :: "'s zheap" and i
    assume "i \<in> set [0..<?L]" and g: "\<And>a. get_level h' a i = get_level h a i"
    then have i: "i < ?L" by simp
    let ?n = "length xs - length (bef i xs)"
    note ul = update_level [OF r i]
    have g1: "get_level h' (?u i) i = Some (fst (fwd i (e # ys)), ?n + snd (fwd i (e # ys)))" using ul(1) g by simp
    have rdu: "rd update i = Some (?u i)" using u i by (simp add: rd_in)
    show "unlink_level (addr e) update h' i = Some (zupd (\<lambda>a j v. if j = i then ?G i a v else v) h')"
    proof (cases "i < hgt e")
      case True
      have "get_level h (addr e) i = Some (fwd i ys)" using zrepD(1) [OF r, of "xs @ [e]" ys i] True by simp
      then have g2: "get_level h' (addr e) i = Some (fwd i ys)" using g by simp
      have b: "length xs + length ys < 2 ^ 32" using zrepD(8) [OF r] by simp
      have "add32 (?n + 1) (sub32 (snd (fwd i ys)) 1) = ?n + 1 + snd (fwd i ys) - 1"
        by (rule span_sum) (use b fwd_span [of i ys] in simp_all)
      then have "add32 (Suc ?n) (sub32 (snd (fwd i ys)) (Suc 0)) = ?n + snd (fwd i ys)" by simp
      moreover note set_level_zupd [OF g1, of "(fst (fwd i ys), ?n + snd (fwd i ys))"]
      ultimately show ?thesis using g1 g2 True by (simp add: unlink_level_def rdu cong: if_cong)
    next
      case False
      have "fst (fwd i ys) \<noteq> Some (addr e)" using fwd_in [of i ys "addr e"] zrepD(5) [OF r] by auto
      moreover have "sub32 (?n + Suc (snd (fwd i ys))) 1 = ?n + snd (fwd i ys)" using ul(2,3) False by (subst sub32_le) simp_all
      moreover note set_level_zupd [OF g1, of "(fst (fwd i ys), ?n + snd (fwd i ys))"]
      moreover have "zupd (\<lambda>a j v. if j = i then if a = ?u i then (fst (fwd i ys), ?n + snd (fwd i ys)) else v else v) h' =
          zupd (\<lambda>a j v. if j = i then ?G i a v else v) h'"
        by (rule zupd_cong) (use g1 False in auto)
      ultimately show ?thesis using g1 False by (simp add: unlink_level_def rdu)
    qed
  qed simp
  moreover have "zupd (\<lambda>a j v. if j \<in> set [0..<?L] then ?G j a v else v) h = zupd (unlinked (zsl_header zsl) ?L (hgt e) xs ys) h"
    by (rule zupd_cong) (auto simp: unlinked_def)
  ultimately show ?thesis by simp
qed

lemma unlinked_links:
  assumes r: "zrep h zsl (xs @ e # ys)"
  shows "zlinks (zupd (unlinked (zsl_header zsl) (zsl_level zsl) (hgt e) xs ys) h) (zsl_header zsl) (zsl_level zsl) (xs @ ys)"
  unfolding zlinks_def
proof (intro allI impI)
  fix b c i
  let ?hdr = "zsl_header zsl" and ?L = "zsl_level zsl"
  assume e: "xs @ ys = b @ c" and i: "i < lev_at ?L b"
  note d = zrepD(5) [OF r]
  consider (pre) zs where "xs = b @ zs" "c = zs @ ys" | (post) b' where "b = xs @ b'" "ys = b' @ c" "b' \<noteq> []"
    using e by (metis append_eq_append_conv2 append_Nil append_Nil2)
  then show "get_level (zupd (unlinked ?hdr ?L (hgt e) xs ys) h) (node_at ?hdr b) i = Some (fwd i c)"
  proof cases
    case pre
    have iL: "i < ?L"
    proof (cases b rule: rev_cases)
      case (snoc b' e')
      then show ?thesis using i zrepD(12) [OF r, of e'] pre(1) by simp
    qed (use i in simp)
    have g: "get_level h (node_at ?hdr b) i = Some (fwd i (zs @ e # ys))" using zrepD(1) [OF r _ i] pre(1) by simp
    note u = node_at_bef [OF d pre(1) i]
    show ?thesis
    proof (cases "\<forall>z\<in>set zs. hgt z \<le> i")
      case True
      then have "length xs - length (bef i xs) = length zs"
        using bef_append [OF True, of b] pre(1) i by (auto simp: lev_at_def split: if_splits)
      then show ?thesis using g u True iL fwd_skip [OF True] pre(2) by (simp add: get_level_zupd unlinked_def)
    next
      case False
      then obtain z where "z \<in> set zs" "i < hgt z" by (auto simp: not_le)
      then have "fwd i (zs @ ws) = fwd i zs" for ws by (rule fwd_stop)
      then show ?thesis using g u False pre(2) by (simp add: get_level_zupd unlinked_def)
    qed
  next
    case post
    have b: "node_at ?hdr b = node_at ?hdr (xs @ e # b')" "lev_at ?L b = lev_at ?L (xs @ e # b')" using post by (simp_all add: node_at_def lev_at_def)
    have g: "get_level h (node_at ?hdr (xs @ e # b')) i = Some (fwd i c)" using zrepD(1) [OF r, of "xs @ e # b'" c i] i b post(2) by simp
    obtain zs where z: "xs = bef i xs @ zs" by (rule bef_ex)
    have "node_at ?hdr (xs @ e # b') \<noteq> node_at ?hdr (bef i xs)"
    proof
      assume "node_at ?hdr (xs @ e # b') = node_at ?hdr (bef i xs)"
      then have "xs @ e # b' = bef i xs" using node_at_inj [OF d, of "xs @ e # b'" c "bef i xs" "zs @ e # ys"] z post(2) by (metis append.assoc append_Cons)
      then have "length (bef i xs) = length xs + Suc (length b')" by (metis length_append length_Cons)
      then show False using arg_cong [OF z, of length] by simp
    qed
    then show ?thesis using g b by (simp add: get_level_zupd unlinked_def)
  qed
qed

text \<open>The back pointer of the next node.\<close>

lemma delete_nodes:
  assumes d: "distinct (hdr # map addr (xs @ e # ys))" and n: "znodes h hdr (xs @ e # ys)"
  shows "ys = [] \<Longrightarrow> znodes h hdr (xs @ ys)"
    "ys = y # ys' \<Longrightarrow> \<exists>m. zh_node h (addr y) = Some m \<and> znodes (h\<lparr>zh_node := (zh_node h)(addr y \<mapsto> m\<lparr>z_backward := back_at xs\<rparr>)\<rparr>) hdr (xs @ ys)"
proof -
  have hdr: "\<exists>n. zh_node h hdr = Some n \<and> header_ok n" and fr: "\<And>a. zh_brk h \<le> a \<Longrightarrow> zh_node h a = None" using n by (auto simp: znodes_def)
  have nd: "\<exists>n. zh_node h (addr z) = Some n \<and> node_ok z b n" if "xs @ e # ys = b @ z # c" for b z c using n that unfolding znodes_def by blast
  show "znodes h hdr (xs @ ys)" if y: "ys = []"
    unfolding znodes_def using hdr fr nd y by (auto simp: append_eq_append_conv2)
  show "\<exists>m. zh_node h (addr y) = Some m \<and> znodes (h\<lparr>zh_node := (zh_node h)(addr y \<mapsto> m\<lparr>z_backward := back_at xs\<rparr>)\<rparr>) hdr (xs @ ys)"
    if y: "ys = y # ys'"
  proof -
    obtain m where m: "zh_node h (addr y) = Some m" "node_ok y (xs @ [e]) m" using nd [of "xs @ [e]" y ys'] y by auto
    let ?h = "h\<lparr>zh_node := (zh_node h)(addr y \<mapsto> m\<lparr>z_backward := back_at xs\<rparr>)\<rparr>"
    have "znodes ?h hdr (xs @ ys)"
      unfolding znodes_def
    proof (intro conjI allI impI)
      fix b z c
      assume "xs @ ys = b @ z # c"
      then consider (pre) c' where "xs = b @ z # c'" | (fst) "z = y" "b = xs" | (post) b' where "b = xs @ y # b'" "ys' = b' @ z # c"
        unfolding y by (auto simp: append_eq_append_conv2 append_eq_Cons_conv Cons_eq_append_conv)
      then show "\<exists>m. zh_node ?h (addr z) = Some m \<and> node_ok z b m"
      proof cases
        case pre
        then show ?thesis using nd [of b z "c' @ e # ys"] d y by auto
      next
        case fst
        then show ?thesis using m(2) by (simp add: node_ok_def)
      next
        case post
        have "back_at (xs @ e # y # b') = back_at (xs @ y # b')" by (simp add: back_at_def)
        then show ?thesis using post nd [of "xs @ e # y # b'" z c] d y by (auto simp: node_ok_def)
      qed
    qed (use hdr fr d y m in auto)
    then show ?thesis using m(1) by blast
  qed
qed

lemma shrink_level_rep:
  assumes "zlinks h hdr L es" "ztop h hdr L" "1 \<le> L" "\<forall>e\<in>set es. hgt e \<le> L"
  shows "\<exists>L'. shrink_level h hdr L = Some L' \<and> 1 \<le> L' \<and> L' \<le> L \<and> zlinks h hdr L' es \<and> ztop h hdr L' \<and> (\<forall>e\<in>set es. hgt e \<le> L')"
  using assms
proof (induction L)
  case (Suc k)
  have g: "get_level h hdr k = Some (fwd k es)" using Suc.prems(1) [unfolded zlinks_def, rule_format, of "[]" es k] by simp
  show ?case
  proof (cases "0 < k \<and> fst (fwd k es) = None")
    case True
    have s: "\<forall>e\<in>set es. hgt e \<le> k"
    proof (rule ccontr)
      assume "\<not> (\<forall>e\<in>set es. hgt e \<le> k)"
      then show False using True by (cases es k rule: first_tall) auto
    qed
    moreover have "zlinks h hdr k es" using Suc.prems(1) by (fastforce simp: zlinks_def lev_at_def)
    moreover have "ztop h hdr k" unfolding ztop_def
    proof (intro allI impI)
      fix i
      assume "k \<le> i" "i < ZSKIPLIST_MAXLEVEL"
      then show "\<exists>s. get_level h hdr i = Some (None, s)" using Suc.prems(2) g True by (cases "i = k") (auto simp: ztop_def prod_eq_iff)
    qed
    ultimately obtain L' where "shrink_level h hdr k = Some L'" "1 \<le> L'" "L' \<le> k" "zlinks h hdr L' es" "ztop h hdr L'" "\<forall>e\<in>set es. hgt e \<le> L'"
      using Suc.IH True by auto
    then show ?thesis using True g by (intro exI [of _ L']) simp
  next
    case False
    then show ?thesis using Suc.prems g by (intro exI [of _ "Suc k"]) auto
  qed
qed simp

lemma zslDeleteNode_rep:
  assumes r: "zrep h zsl (xs @ e # ys)" and u: "update = map (\<lambda>i. node_at (zsl_header zsl) (bef i xs)) [0..<K]" "zsl_level zsl \<le> K"
  shows "\<exists>h' zsl' n. zslDeleteNode h zsl (addr e) update = Some (h', zsl') \<and> zrep h' zsl' (xs @ ys) \<and>
    zsl_header zsl' = zsl_header zsl \<and> zsl_level zsl' \<le> zsl_level zsl \<and> zh_node h' (addr e) = Some n \<and> z_obj n = Some (snd (ekey e))"
proof -
  let ?hdr = "zsl_header zsl" and ?L = "zsl_level zsl"
  let ?h1 = "zupd (unlinked ?hdr ?L (hgt e) xs ys) h"
  note loop = unlink_levels [OF r u] and d = zrepD(5) [OF r]
  have links: "zlinks ?h1 ?hdr ?L (xs @ ys)" by (rule unlinked_links [OF r])
  have top: "ztop ?h1 ?hdr ?L" using r by (fastforce simp: zrep_def ztop_def get_level_zupd unlinked_def)
  have nodes: "znodes ?h1 ?hdr (xs @ e # ys)" using r by (simp add: zrep_def)
  obtain n where n: "zh_node ?h1 (addr e) = Some n" "node_ok e xs n" using nodes unfolding znodes_def by blast
  have "addr e \<noteq> node_at ?hdr (bef i xs)" for i
  proof -
    have "addr ` set (bef i xs) \<subseteq> addr ` set xs" by (intro image_mono bef_set)
    then show ?thesis using node_at_in [of ?hdr "bef i xs"] d by auto
  qed
  moreover have "1 \<le> hgt e" using zrepD(11) [OF r] by simp
  ultimately have l: "get_level ?h1 (addr e) 0 = Some (fwd 0 ys)"
    using zrepD(1) [OF r, of "xs @ [e]" ys 0] by (simp add: get_level_zupd unlinked_def)
  have hg: "\<forall>z\<in>set (xs @ ys). hgt z \<le> ?L" "\<forall>z\<in>set (xs @ ys). 1 \<le> hgt z" using zrepD(11,12) [OF r] by auto
  have bn: "z_backward n = back_at xs" "z_obj n = Some (snd (ekey e))" using n(2) by (simp_all add: node_ok_def)
  have len: "u64 (zsl_length zsl + (2 ^ 64 - 1)) = length (xs @ ys)"
  proof -
    have "zsl_length zsl + (2 ^ 64 - 1) = length (xs @ ys) + 2 ^ 64" using zrepD(7) [OF r] by simp
    then have "u64 (zsl_length zsl + (2 ^ 64 - 1)) = length (xs @ ys) mod 2 ^ 64" unfolding u64_def by (simp only: mod_add_self2)
    then show ?thesis using zrepD(8) [OF r] by simp
  qed
  have fin: "\<exists>h' zsl' m. (do { level \<leftarrow> shrink_level h2 ?hdr ?L; Some (h2, zsl\<lparr>zsl_tail := t, zsl_level := level, zsl_length := length (xs @ ys)\<rparr>) }) = Some (h', zsl') \<and>
      zrep h' zsl' (xs @ ys) \<and> zsl_header zsl' = ?hdr \<and> zsl_level zsl' \<le> ?L \<and> zh_node h' (addr e) = Some m \<and> z_obj m = Some (snd (ekey e))"
    if g: "\<And>a i. get_level h2 a i = get_level ?h1 a i" and "znodes h2 ?hdr (xs @ ys)" "t = back_at (xs @ ys)" "zh_node h2 (addr e) = Some n" for h2 t
  proof -
    have "zlinks h2 ?hdr ?L (xs @ ys)" "ztop h2 ?hdr ?L" using links top g by (simp_all add: zlinks_def ztop_def)
    then obtain L' where "shrink_level h2 ?hdr ?L = Some L'" "1 \<le> L'" "L' \<le> ?L" "zlinks h2 ?hdr L' (xs @ ys)" "ztop h2 ?hdr L'" "\<forall>z\<in>set (xs @ ys). hgt z \<le> L'"
      using shrink_level_rep [of h2 ?hdr ?L "xs @ ys"] hg zrepD(9) [OF r] by auto
    then show ?thesis using that bn(2) d hg(2) zrepD(8,10) [OF r] by (auto simp: zrep_def)
  qed
  show ?thesis
  proof (cases ys)
    case Nil
    have "znodes ?h1 ?hdr (xs @ ys)" using delete_nodes(1) [OF d nodes Nil] .
    then show ?thesis using fin [of ?h1 "back_at xs"] loop n(1) l bn len Nil by (simp add: zslDeleteNode_def)
  next
    case (Cons y ys')
    obtain m where m: "zh_node ?h1 (addr y) = Some m" "znodes (?h1\<lparr>zh_node := (zh_node ?h1)(addr y \<mapsto> m\<lparr>z_backward := back_at xs\<rparr>)\<rparr>) ?hdr (xs @ ys)"
      using delete_nodes(2) [OF d nodes Cons] by blast
    note sb = set_backward_some [OF m(1), of "back_at xs"]
    let ?h2 = "?h1\<lparr>zh_node := (zh_node ?h1)(addr y \<mapsto> m\<lparr>z_backward := back_at xs\<rparr>)\<rparr>"
    have "hgt y \<ge> 1" using hg(2) Cons by simp
    then have f: "fst (fwd 0 ys) = Some (addr y)" using Cons by simp
    have ey: "addr e \<noteq> addr y" using d Cons by auto
    have t: "zsl_tail zsl = back_at (xs @ ys)" using zrepD(6) [OF r] Cons by (simp add: back_at_def)
    have "zsl\<lparr>zsl_tail := back_at (xs @ ys), zsl_level := a, zsl_length := b\<rparr> = zsl\<lparr>zsl_level := a, zsl_length := b\<rparr>" for a b
      using t by simp
    then show ?thesis using fin [of ?h2 "back_at (xs @ ys)", OF sb(2) m(2)] loop n(1) l bn len f sb(1) ey by (simp add: zslDeleteNode_def)
  qed
qed

lemma zfree_rep:
  assumes r: "zrep h zsl es" and x: "x \<notin> set (zsl_header zsl # map addr es)" and n: "zh_node h x = Some n" "z_obj n = Some obj"
  shows "\<exists>h'. zslFreeNode h x = Some h' \<and> zrep h' zsl es"
proof -
  let ?h = "h\<lparr>zh_node := (zh_node h)(x := None)\<rparr>"
  have m: "zh_node ?h (addr e) = zh_node h (addr e)" if "e \<in> set es" for e using x that by auto
  have hd: "zh_node ?h (zsl_header zsl) = zh_node h (zsl_header zsl)" using x by auto
  have g: "get_level ?h (node_at (zsl_header zsl) b) i = get_level h (node_at (zsl_header zsl) b) i" if "es = b @ c" for b c i
    using node_at_in [of "zsl_header zsl" b] x that by (auto simp: get_level_def)
  have "zlinks ?h (zsl_header zsl) (zsl_level zsl) es" using r g unfolding zrep_def zlinks_def by metis
  moreover have "ztop ?h (zsl_header zsl) (zsl_level zsl)" using r g [of "[]" es] unfolding zrep_def ztop_def by simp
  moreover have "znodes ?h (zsl_header zsl) es"
    unfolding znodes_def
  proof (intro conjI allI impI)
    show "\<exists>n. zh_node ?h (addr e) = Some n \<and> node_ok e b n" if "es = b @ e # c" for b e c
      using zrepD(3) [OF r that] m [of e] that by simp
    show "\<exists>n. zh_node ?h (zsl_header zsl) = Some n \<and> header_ok n" using zrepD(4) [OF r] hd by simp
    show "zh_node ?h a = None" if "zh_brk ?h \<le> a" for a using zrepD(13) [OF r, of a] that by simp
  qed
  ultimately have "zrep ?h zsl es" using r by (simp add: zrep_def)
  then show ?thesis using n by (simp add: zslFreeNode_def zfree_def)
qed

end
