(* ===== verification/SkiplistSpec.thy ===== *)
theory SkiplistSpec
  imports SkiplistRep
begin

text \<open>
  What the operations of the skip list do to a sorted list of scores and objects: insertion and
  deletion, the first and the last element of a range, deletion of ranges together with the
  dictionary of the sorted set, and ranks.
\<close>

section \<open>The order of the elements\<close>

lemma bytes_less_iff: "bytes_less a b \<longleftrightarrow> a < b"
  by (induction a b rule: bytes_less.induct) auto

lemma compareStringObjects_order:
  assumes "length a < 2 ^ 31" "length b < 2 ^ 31"
  shows "compareStringObjects a b < 0 \<longleftrightarrow> a < b" "compareStringObjects a b = 0 \<longleftrightarrow> a = b"
proof -
  let ?m = "min (length a) (length b)"
  let ?c = "memcmp_c (take ?m a) (take ?m b)"
  have m: "(if length a < length b then length a else length b) = ?m" by simp
  have d: "s32 (int (length a) - int (length b)) = int (length a) - int (length b)" using assms by (intro s32_id) simp
  have r: "compareStringObjects a b = (if ?c = 0 then int (length a) - int (length b) else ?c)"
    unfolding compareStringObjects_def Let_def m d by simp
  have z: "?c = 0 \<longleftrightarrow> take ?m a = take ?m b" by (rule memcmp_c_0) simp
  have l: "?c < 0 \<longleftrightarrow> bytes_less (take ?m a) (take ?m b)" by (rule memcmp_c_neg) simp
  have t: "a = b" if "take ?m a = take ?m b" "length a = length b" using that by simp
  have "(compareStringObjects a b < 0 \<longleftrightarrow> bytes_less a b) \<and> (compareStringObjects a b = 0 \<longleftrightarrow> a = b)"
  proof (cases "?c = 0")
    case True
    then show ?thesis using r z t bytes_less_irrefl bytes_less_take [of a b] by auto
  next
    case False
    then show ?thesis using r z l bytes_less_take [of a b] by auto
  qed
  then show "compareStringObjects a b < 0 \<longleftrightarrow> a < b" "compareStringObjects a b = 0 \<longleftrightarrow> a = b" by (simp_all add: bytes_less_iff)
qed

abbreviation eobj :: "'s zent \<Rightarrow> bytes" where "eobj e \<equiv> snd (ekey e)"
abbreviation escore :: "'s zent \<Rightarrow> 's" where "escore e \<equiv> fst (ekey e)"

definition zsorted :: "('s::linorder) zent list \<Rightarrow> bool" where
  "zsorted es \<longleftrightarrow> sorted_wrt (<) (map ekey es) \<and> distinct (map eobj es) \<and> (\<forall>e\<in>set es. length (eobj e) < 2 ^ 31)"

lemma zsorted_append: "zsorted (xs @ ys) \<Longrightarrow> zsorted xs \<and> zsorted ys"
  by (auto simp: zsorted_def sorted_wrt_append)

lemma zsorted_remove: "zsorted (xs @ e # ys) \<Longrightarrow> zsorted (xs @ ys)"
  by (auto simp: zsorted_def sorted_wrt_append)

text \<open>A condition that is closed downwards cuts a sorted list in two.\<close>

lemma down_split:
  assumes "sorted_wrt (<) (map f es)" "\<And>a b. a < b \<Longrightarrow> P b \<Longrightarrow> P (a :: 'a::order)"
  shows "es = filter (\<lambda>e. P (f e)) es @ filter (\<lambda>e. \<not> P (f e)) es"
  using assms(1)
proof (induction es)
  case (Cons e es)
  show ?case
  proof (cases "P (f e)")
    case False
    then have "\<not> P (f z)" if "z \<in> set es" for z using that Cons.prems assms(2) by auto
    then have "filter (\<lambda>e. P (f e)) es = []" "filter (\<lambda>e. \<not> P (f e)) es = es" by (simp_all add: filter_empty_conv)
    then show ?thesis using False by simp
  qed (use Cons in simp)
qed simp

text \<open>The searches of \<open>zslInsert\<close>, \<open>zslDelete\<close> and \<open>zslGetRank\<close>.\<close>

lemma before_key_cuts:
  fixes xs :: "('s::linorder) zent list"
  assumes "zsorted (xs @ ys)" "length obj < 2 ^ 31" "\<And>e. e \<in> set xs \<Longrightarrow> ekey e < (s, obj)" "\<And>e. e \<in> set ys \<Longrightarrow> \<not> ekey e < (s, obj)"
  shows "cuts (before_key s obj) h xs ys"
proof (rule cutsI)
  fix b n and e :: "'s zent"
  assume n: "node_ok e b n"
  have o: "compareStringObjects (eobj e) obj < 0 \<longleftrightarrow> eobj e < obj" if "e \<in> set (xs @ ys)"
    using assms(1,2) that by (intro compareStringObjects_order) (auto simp: zsorted_def)
  show "before_key s obj n (Suc (length b)) = Some True" if "e \<in> set xs"
    using n o assms(3) [OF that] that by (cases "ekey e") (auto simp: before_key_def node_ok_def less_prod_def)
  show "before_key s obj n (Suc (length b)) = Some False" if "e \<in> set ys"
    using n o assms(4) [OF that] that by (cases "ekey e") (auto simp: before_key_def node_ok_def less_prod_def)
qed

lemma upto_key_cuts:
  fixes xs :: "('s::linorder) zent list"
  assumes "zsorted (xs @ ys)" "length obj < 2 ^ 31" "\<And>e. e \<in> set xs \<Longrightarrow> ekey e \<le> (s, obj)" "\<And>e. e \<in> set ys \<Longrightarrow> \<not> ekey e \<le> (s, obj)"
  shows "cuts (upto_key s obj) h xs ys"
proof (rule cutsI)
  fix b n and e :: "'s zent"
  assume n: "node_ok e b n"
  have o: "compareStringObjects (eobj e) obj \<le> 0 \<longleftrightarrow> eobj e \<le> obj" if "e \<in> set (xs @ ys)"
    using assms(1,2) that compareStringObjects_order [of "eobj e" obj] by (auto simp: zsorted_def le_less)
  show "upto_key s obj n (Suc (length b)) = Some True" if "e \<in> set xs"
    using n o assms(3) [OF that] that by (cases "ekey e") (auto simp: upto_key_def node_ok_def less_eq_prod_def)
  show "upto_key s obj n (Suc (length b)) = Some False" if "e \<in> set ys"
    using n o assms(4) [OF that] that by (cases "ekey e") (auto simp: upto_key_def node_ok_def less_eq_prod_def)
qed

lemma get_level_0: "zrep h zsl (xs @ ys) \<Longrightarrow> get_level h (node_at (zsl_header zsl) xs) 0 = Some (fwd 0 ys)"
proof -
  assume r: "zrep h zsl (xs @ ys)"
  have "0 < lev_at (zsl_level zsl) xs"
  proof (cases xs rule: rev_cases)
    case (snoc xs' x)
    then show ?thesis using zrepD(11) [OF r, of x] by simp
  qed (use zrepD(9) [OF r] in simp)
  then show ?thesis by (rule zrepD(1) [OF r refl])
qed

section \<open>Insertion and deletion\<close>

lemma zslInsert_sorted:
  fixes h :: "('s::linorder) zheap"
  assumes r: "zrep h zsl es" "zsorted es" and o: "length obj < 2 ^ 31" "obj \<notin> eobj ` set es"
    and lv: "zslRandomLevel rs = Some lv" and len: "Suc (length es) < 2 ^ 32"
  shows "\<exists>h' zsl' x xs ys. zslInsert jk rs h zsl s obj = Some (h', zsl', x) \<and> es = xs @ ys \<and> zrep h' zsl' (xs @ Zent x lv (s, obj) # ys) \<and>
    zsorted (xs @ Zent x lv (s, obj) # ys)"
proof -
  let ?xs = "filter (\<lambda>e. ekey e < (s, obj)) es" and ?ys = "filter (\<lambda>e. \<not> ekey e < (s, obj)) es"
  have e: "es = ?xs @ ?ys" by (rule down_split [where P = "\<lambda>k. k < (s, obj)"]) (use r(2) in \<open>auto simp: zsorted_def\<close>)
  have c: "cuts (before_key s obj) h ?xs ?ys" by (rule before_key_cuts) (use r(2) e o(1) in auto)
  have l: "Suc (length (?xs @ ?ys)) < 2 ^ 32" using len e by simp
  obtain h' zsl' x where i: "zslInsert jk rs h zsl s obj = Some (h', zsl', x)" "zrep h' zsl' (?xs @ Zent x lv (s, obj) # ?ys)"
    using zslInsert_rep [OF _ c lv l] r(1) e by metis
  have "(s, obj) < ekey z" if "z \<in> set ?ys" for z
  proof -
    have "ekey z \<noteq> (s, obj)" using that o(2) by force
    then show ?thesis using that by (auto simp: not_less le_less)
  qed
  then have "zsorted (?xs @ Zent x lv (s, obj) # ?ys)"
    using r(2) o e unfolding zsorted_def
    by (auto simp: sorted_wrt_append sorted_wrt_map sorted_wrt_filter distinct_map inj_on_def dest: order.strict_trans)
  then show ?thesis using i e by blast
qed

lemma zslDelete_sorted:
  fixes h :: "('s::linorder) zheap"
  assumes r: "zrep h zsl es" "zsorted es" and o: "length obj < 2 ^ 31"
  shows "(s, obj) \<notin> ekey ` set es \<Longrightarrow> zslDelete h zsl s obj = Some (h, zsl, False)"
    "es = xs @ e # ys \<Longrightarrow> ekey e = (s, obj) \<Longrightarrow>
      \<exists>h' zsl'. zslDelete h zsl s obj = Some (h', zsl', True) \<and> zrep h' zsl' (xs @ ys) \<and> zsorted (xs @ ys)"
proof -
  let ?xs = "filter (\<lambda>e. ekey e < (s, obj)) es" and ?ys = "filter (\<lambda>e. \<not> ekey e < (s, obj)) es"
  let ?hdr = "zsl_header zsl"
  have e: "es = ?xs @ ?ys" by (rule down_split [where P = "\<lambda>k. k < (s, obj)"]) (use r(2) in \<open>auto simp: zsorted_def\<close>)
  have r': "zrep h zsl (?xs @ ?ys)" using r(1) e by simp
  have c: "cuts (before_key s obj) h ?xs ?ys" by (rule before_key_cuts) (use r(2) e o(1) in auto)
  note search = zsl_search [OF r' c, of id, simplified]
  have g: "get_level h (node_at ?hdr ?xs) 0 = Some (fwd 0 ?ys)" by (rule get_level_0 [OF r'])
  have f: "fst (fwd 0 ?ys) = Some (addr y)" "\<exists>n. zh_node h (addr y) = Some n \<and> z_score n = escore y \<and> z_obj n = Some (eobj y)"
    "equalStringObjects (eobj y) obj \<longleftrightarrow> eobj y = obj" if "?ys = y # ys'" for y ys'
  proof -
    have y: "y \<in> set es" using that by (metis filter_is_subset list.set_intros(1) subsetD)
    then have "1 \<le> hgt y" by (rule zrepD(11) [OF r(1)])
    then show "fst (fwd 0 ?ys) = Some (addr y)" using that by simp
    show "\<exists>n. zh_node h (addr y) = Some n \<and> z_score n = escore y \<and> z_obj n = Some (eobj y)"
      using zrepD(3) [OF r', of ?xs y ys'] that by (auto simp: node_ok_def)
    show "equalStringObjects (eobj y) obj \<longleftrightarrow> eobj y = obj"
      unfolding equalStringObjects_def by (rule compareStringObjects_order) (use y r(2) o in \<open>auto simp: zsorted_def\<close>)
  qed
  show "zslDelete h zsl s obj = Some (h, zsl, False)" if no: "(s, obj) \<notin> ekey ` set es"
  proof (cases ?ys)
    case Nil
    then show ?thesis using search g by (simp add: zslDelete_def)
  next
    case (Cons y ys')
    have y: "y \<in> set es" using Cons by (metis filter_is_subset list.set_intros(1) subsetD)
    obtain n where n: "zh_node h (addr y) = Some n" "z_score n = escore y" "z_obj n = Some (eobj y)" using f(2) [OF Cons] by blast
    have "\<not> (s = escore y \<and> eobj y = obj)" using no y by (metis image_eqI prod.collapse)
    then show ?thesis using search g f(1,3) [OF Cons] n by (simp add: zslDelete_def)
  qed
  show "\<exists>h' zsl'. zslDelete h zsl s obj = Some (h', zsl', True) \<and> zrep h' zsl' (xs @ ys) \<and> zsorted (xs @ ys)"
    if es: "es = xs @ e # ys" and k: "ekey e = (s, obj)"
  proof -
    have "z \<in> set xs \<Longrightarrow> ekey z < (s, obj)" "z \<in> set ys \<Longrightarrow> \<not> ekey z < (s, obj)" for z
      using r(2) es k by (auto simp: zsorted_def sorted_wrt_append)
    then have xy: "?xs = xs" "?ys = e # ys" using es k by (simp_all add: filter_empty_conv)
    obtain n where n: "zh_node h (addr e) = Some n" "z_score n = s" "z_obj n = Some obj" using f(2) [OF xy(2)] k by auto
    have re: "zrep h zsl (xs @ e # ys)" using r(1) es by simp
    obtain h1 zsl1 m where d: "zslDeleteNode h zsl (addr e) (map (\<lambda>i. node_at ?hdr (bef i xs)) [0..<zsl_level zsl]) = Some (h1, zsl1)"
      "zrep h1 zsl1 (xs @ ys)" "zsl_header zsl1 = ?hdr" "zh_node h1 (addr e) = Some m" "z_obj m = Some (eobj e)"
      using zslDeleteNode_rep [OF re refl order_refl] by blast
    have x: "addr e \<notin> set (zsl_header zsl1 # map addr (xs @ ys))" using zrepD(5) [OF re] d(3) by auto
    obtain h2 where "zslFreeNode h1 (addr e) = Some h2" "zrep h2 zsl1 (xs @ ys)" using zfree_rep [OF d(2) x d(4,5)] by blast
    moreover have "zsorted (xs @ ys)" using r(2) es zsorted_remove by blast
    ultimately show ?thesis
      using search g f(1,3) [OF xy(2)] n k d(1) unfolding xy by (auto simp: zslDelete_def)
  qed
qed

section \<open>Ranks\<close>

lemma last_bef:
  assumes "distinct (map f xs)" "bef i xs \<noteq> []" "f (last (bef i xs)) = f (last xs)"
  shows "bef i xs = xs"
proof -
  obtain zs where z: "xs = bef i xs @ zs" by (rule bef_ex)
  show ?thesis
  proof (cases zs rule: rev_cases)
    case (snoc ws w)
    have "f (last (bef i xs)) \<in> f ` set (bef i xs)" using assms(2) by auto
    moreover have "distinct (map f (bef i xs @ ws @ [w]))" "last xs = w" using assms(1) z snoc by (metis, metis append_is_Nil_conv last_appendR last_snoc not_Cons_self2)
    ultimately show ?thesis using assms(3) by auto
  qed (use z in simp)
qed

lemma zrep_last:
  assumes "zrep h zsl (xs @ ys)" "xs \<noteq> []"
  shows "\<exists>n. zh_node h (node_at (zsl_header zsl) xs) = Some n \<and> z_obj n = Some (eobj (last xs)) \<and> z_score n = escore (last xs)"
proof (cases xs rule: rev_cases)
  case (snoc b e)
  then show ?thesis using zrepD(3) [OF assms(1), of b e ys] by (auto simp: node_ok_def)
qed (use assms(2) in simp)

lemma zslGetRank_sorted:
  fixes h :: "('s::linorder) zheap"
  assumes r: "zrep h zsl es" "zsorted es" and o: "length obj < 2 ^ 31"
  shows "es = xs @ e # ys \<Longrightarrow> ekey e = (s, obj) \<Longrightarrow> zslGetRank h zsl s obj = Some (Suc (length xs))"
    "obj \<notin> eobj ` set es \<Longrightarrow> zslGetRank h zsl s obj = Some 0"
proof -
  let ?xs = "filter (\<lambda>e. ekey e \<le> (s, obj)) es" and ?ys = "filter (\<lambda>e. \<not> ekey e \<le> (s, obj)) es"
  let ?hdr = "zsl_header zsl" and ?c = "upto_key s obj"
  have e: "es = ?xs @ ?ys" by (rule down_split [where P = "\<lambda>k. k \<le> (s, obj)"]) (use r(2) in \<open>auto simp: zsorted_def\<close>)
  have r': "zrep h zsl (?xs @ ?ys)" using r(1) e by simp
  have c: "cuts ?c h ?xs ?ys" by (rule upto_key_cuts) (use r(2) e o in auto)
  have w: "n \<le> length (?xs @ ?ys) \<Longrightarrow> u64 n = n" for n using zrepD(8) [OF r'] by (intro u64_id) simp
  note walk = zsl_walk_step [OF r' c w]
  have node: "\<exists>n. zh_node h (node_at ?hdr (bef i ?xs)) = Some n \<and>
      ((case z_obj n of None \<Rightarrow> False | Some o' \<Rightarrow> equalStringObjects o' obj) \<longleftrightarrow> bef i ?xs \<noteq> [] \<and> eobj (last (bef i ?xs)) = obj)" for i
  proof (cases "bef i ?xs = []")
    case True
    then show ?thesis using zrepD(4) [OF r'] by (auto simp: header_ok_def)
  next
    case False
    obtain zs where z: "?xs = bef i ?xs @ zs" by (rule bef_ex)
    then have "zrep h zsl (bef i ?xs @ zs @ ?ys)" using r' by (metis append.assoc)
    then obtain n where n: "zh_node h (node_at ?hdr (bef i ?xs)) = Some n" "z_obj n = Some (eobj (last (bef i ?xs)))" using zrep_last False by blast
    have "last (bef i ?xs) \<in> set ?xs" using False bef_set last_in_set by blast
    then have "last (bef i ?xs) \<in> set es" by auto
    then have "equalStringObjects (eobj (last (bef i ?xs))) obj \<longleftrightarrow> eobj (last (bef i ?xs)) = obj"
      unfolding equalStringObjects_def by (intro compareStringObjects_order) (use r(2) o in \<open>auto simp: zsorted_def\<close>)
    then show ?thesis using n False by simp
  qed
  have step: "rank_loop ?c obj h (Suc k) (node_at ?hdr (bef (Suc k) ?xs)) (length (bef (Suc k) ?xs)) =
      (if bef k ?xs \<noteq> [] \<and> eobj (last (bef k ?xs)) = obj then Some (length (bef k ?xs))
       else rank_loop ?c obj h k (node_at ?hdr (bef k ?xs)) (length (bef k ?xs)))" if "Suc k \<le> zsl_level zsl" for k
  proof -
    obtain n where "zh_node h (node_at ?hdr (bef k ?xs)) = Some n"
      "(case z_obj n of None \<Rightarrow> False | Some o' \<Rightarrow> equalStringObjects o' obj) \<longleftrightarrow> bef k ?xs \<noteq> [] \<and> eobj (last (bef k ?xs)) = obj"
      using node by blast
    then show ?thesis using walk [of k] that by simp
  qed
  have top: "bef (zsl_level zsl) ?xs = []" by (rule bef_top [OF r' order_refl])
  show "zslGetRank h zsl s obj = Some (Suc (length xs))" if es: "es = xs @ e # ys" and k: "ekey e = (s, obj)"
  proof -
    have "z \<in> set xs \<Longrightarrow> ekey z \<le> (s, obj)" "z \<in> set ys \<Longrightarrow> \<not> ekey z \<le> (s, obj)" for z
      using r(2) es k by (auto simp: zsorted_def sorted_wrt_append)
    then have xs: "?xs = xs @ [e]" using es k by (simp add: filter_empty_conv)
    have d: "distinct (map eobj (xs @ [e]))" using r(2) es by (auto simp: zsorted_def)
    have "0 < j \<Longrightarrow> j \<le> zsl_level zsl \<Longrightarrow> rank_loop ?c obj h j (node_at ?hdr (bef j ?xs)) (length (bef j ?xs)) = Some (Suc (length xs))" for j
    proof (induction j)
      case (Suc j)
      show ?case
      proof (cases "bef j ?xs \<noteq> [] \<and> eobj (last (bef j ?xs)) = obj")
        case True
        then have "bef j (xs @ [e]) = xs @ [e]" using last_bef [OF d] k unfolding xs by simp
        then show ?thesis using True step [OF Suc.prems(2)] unfolding xs by simp
      next
        case False
        then have "j \<noteq> 0" using bef_0 [OF r'] k unfolding xs by (cases j) auto
        then show ?thesis using False Suc unfolding step [OF Suc.prems(2)] by auto
      qed
    qed simp
    then show ?thesis using top zrepD(9) [OF r'] unfolding zslGetRank_def by (metis at_simps(1) less_eq_Suc_le list.size(3) One_nat_def order_refl)
  qed
  show "zslGetRank h zsl s obj = Some 0" if no: "obj \<notin> eobj ` set es"
  proof -
    have "\<not> (bef j ?xs \<noteq> [] \<and> eobj (last (bef j ?xs)) = obj)" for j
    proof
      assume a: "bef j ?xs \<noteq> [] \<and> eobj (last (bef j ?xs)) = obj"
      then have "last (bef j ?xs) \<in> set ?xs" using bef_set last_in_set by blast
      then have "eobj (last (bef j ?xs)) \<in> eobj ` set es" by (intro imageI) simp
      then show False using a no by simp
    qed
    note none = this
    have "j \<le> zsl_level zsl \<Longrightarrow> rank_loop ?c obj h j (node_at ?hdr (bef j ?xs)) (length (bef j ?xs)) = Some 0" for j
    proof (induction j)
      case (Suc j)
      then show ?case unfolding step [OF Suc.prems] using none [of j] by auto
    qed simp
    from this [OF order_refl] show ?thesis unfolding top zslGetRank_def by simp
  qed
qed

text \<open>Rank 0 is the header; the callers only ask for ranks from 1 on.\<close>

lemma zslGetElementByRank_sorted:
  assumes r: "zrep h zsl es"
  shows "0 < k \<Longrightarrow> k \<le> length es \<Longrightarrow> zslGetElementByRank h zsl k = Some (Some (addr (es ! (k - 1))))"
    "length es < k \<Longrightarrow> zslGetElementByRank h zsl k = Some None"
proof -
  let ?xs = "take k es" and ?ys = "drop k es" and ?hdr = "zsl_header zsl"
  have r': "zrep h zsl (?xs @ ?ys)" using r by simp
  have c: "cuts (\<lambda>_ r. Some (r \<le> k)) h ?xs ?ys" by (rule cutsI) auto
  have w: "n \<le> length (?xs @ ?ys) \<Longrightarrow> u64 n = n" for n using zrepD(8) [OF r'] by (intro u64_id) simp
  note walk = zsl_walk_step [OF r' c w]
  have top: "bef (zsl_level zsl) ?xs = []" by (rule bef_top [OF r' order_refl])
  show "zslGetElementByRank h zsl k = Some (Some (addr (es ! (k - 1))))" if k: "0 < k" "k \<le> length es"
  proof -
    have ne: "?xs \<noteq> []" "last ?xs = es ! (k - 1)" using k by (cases k; auto simp: take_Suc_conv_app_nth)+
    have "0 < j \<Longrightarrow> j \<le> zsl_level zsl \<Longrightarrow> element_loop k h j (node_at ?hdr (bef j ?xs)) (length (bef j ?xs)) = Some (Some (addr (es ! (k - 1))))" for j
    proof (induction j)
      case (Suc j)
      show ?case
      proof (cases "length (bef j ?xs) = k")
        case True
        then have "bef j ?xs = ?xs" using k by (intro bef_length) simp
        then have "node_at ?hdr (bef j ?xs) = addr (es ! (k - 1))" using ne by (simp add: node_at_def)
        then show ?thesis using True walk [of j] Suc.prems by simp
      next
        case False
        then have "j \<noteq> 0" using bef_0 [OF r'] k by (cases j) auto
        then show ?thesis using False walk [of j] Suc by simp
      qed
    qed simp
    from this [of "zsl_level zsl"] show ?thesis using top zrepD(9) [OF r] by (simp add: zslGetElementByRank_def)
  qed
  show "zslGetElementByRank h zsl k = Some None" if k: "length es < k"
  proof -
    have "length (bef j ?xs) \<noteq> k" for j using bef_length(1) [of j ?xs] k by simp
    then have "j \<le> zsl_level zsl \<Longrightarrow> element_loop k h j (node_at ?hdr (bef j ?xs)) (length (bef j ?xs)) = Some None" for j
    proof (induction j)
      case (Suc j)
      then show ?case using walk [of j] by simp
    qed simp
    from this [OF order_refl] show ?thesis unfolding top zslGetElementByRank_def by simp
  qed
qed

section \<open>Ranges\<close>

text \<open>
  What the search for a range relies on: the entries are sorted by some key, the lower end of the
  range is closed upwards and the upper end downwards.
\<close>

lemma find_skip: "\<forall>u\<in>set us. \<not> P u \<Longrightarrow> find P (us @ vs) = find P vs"
  by (induction us) auto

locale zrange =
  fixes f :: "'e \<Rightarrow> 'k::order" and ge le :: "'k \<Rightarrow> bool"
  assumes ge_up: "a < b \<Longrightarrow> ge a \<Longrightarrow> ge b" and le_down: "a < b \<Longrightarrow> le b \<Longrightarrow> le a"
begin

definition inside :: "'e \<Rightarrow> bool" where "inside e \<longleftrightarrow> ge (f e) \<and> le (f e)"

lemma below_split: "sorted_wrt (<) (map f es) \<Longrightarrow> es = filter (\<lambda>e. \<not> ge (f e)) es @ filter (\<lambda>e. ge (f e)) es"
  using down_split [of f es "\<lambda>k. \<not> ge k"] ge_up by auto

lemma upto_split: "sorted_wrt (<) (map f es) \<Longrightarrow> es = filter (\<lambda>e. le (f e)) es @ filter (\<lambda>e. \<not> le (f e)) es"
  using down_split [of f es le] le_down by auto

lemma outside:
  assumes "sorted_wrt (<) (map f es)" "\<not> (ge (f (last es)) \<and> le (f (hd es)))" "e \<in> set es"
  shows "\<not> inside e"
proof -
  obtain y ys where y: "es = y # ys" using assms(3) by (cases es) auto
  obtain zs z where z: "es = zs @ [z]" using assms(3) by (cases es rule: rev_cases) auto
  have "e = y \<or> f y < f e" using assms(1,3) y by auto
  moreover have "e = z \<or> f e < f z" using assms(1,3) z by (auto simp: sorted_wrt_append)
  moreover have "last es = z" "hd es = y" using z y by (metis last_snoc, metis list.sel(1))
  ultimately show ?thesis using assms(2) ge_up le_down unfolding inside_def by metis
qed

lemma find_first:
  assumes "sorted_wrt (<) (map f es)" "filter (\<lambda>e. ge (f e)) es = y # ys"
  shows "find inside es = (if le (f y) then Some y else None)"
proof -
  let ?xs = "filter (\<lambda>e. \<not> ge (f e)) es"
  have e: "es = ?xs @ y # ys" using below_split [OF assms(1)] assms(2) by simp
  have "y \<in> set (filter (\<lambda>e. ge (f e)) es)" using assms(2) by simp
  then have gy: "ge (f y)" by simp
  have "sorted_wrt (<) (map f (?xs @ y # ys))" using assms(1) e by metis
  then have s: "f y < f z" if "z \<in> set ys" for z using that by (auto simp: sorted_wrt_append)
  have "\<forall>u\<in>set ?xs. \<not> inside u" by (simp add: inside_def)
  then have "find inside es = find inside (y # ys)" using find_skip [of ?xs inside "y # ys"] e by simp
  also have "\<dots> = (if le (f y) then Some y else None)"
  proof (cases "le (f y)")
    case False
    then have "\<not> inside z" if "z \<in> set ys" for z using s [OF that] le_down by (auto simp: inside_def)
    then show ?thesis using False by (simp add: find_None_iff inside_def)
  qed (simp add: gy inside_def)
  finally show ?thesis .
qed

lemma find_last:
  assumes "sorted_wrt (<) (map f es)" "filter (\<lambda>e. le (f e)) es = xs @ [x]"
  shows "find inside (rev es) = (if ge (f x) then Some x else None)"
proof -
  let ?ys = "filter (\<lambda>e. \<not> le (f e)) es"
  have e: "es = xs @ x # ?ys" using upto_split [OF assms(1)] assms(2) by simp
  have "x \<in> set (filter (\<lambda>e. le (f e)) es)" using assms(2) by simp
  then have lx: "le (f x)" by simp
  have "sorted_wrt (<) (map f (xs @ x # ?ys))" using assms(1) e by metis
  then have s: "f z < f x" if "z \<in> set xs" for z using that by (auto simp: sorted_wrt_append)
  have "\<forall>u\<in>set (rev ?ys). \<not> inside u" by (simp add: inside_def)
  moreover have "rev es = rev ?ys @ x # rev xs" using e by (metis append.assoc append_Cons append_Nil rev.simps(2) rev_append)
  ultimately have "find inside (rev es) = find inside (x # rev xs)" using find_skip [of "rev ?ys" inside "x # rev xs"] by simp
  also have "\<dots> = (if ge (f x) then Some x else None)"
  proof (cases "ge (f x)")
    case False
    then have "\<not> inside z" if "z \<in> set xs" for z using s [OF that] ge_up by (auto simp: inside_def)
    then show ?thesis using False by (simp add: find_None_iff inside_def)
  qed (simp add: lx inside_def)
  finally show ?thesis .
qed

text \<open>What is left when the entries of the range are taken out.\<close>

lemma range_split:
  assumes "sorted_wrt (<) (map f es)"
  shows "filter (\<lambda>e. ge (f e)) es = filter inside es @ filter (\<lambda>e. ge (f e) \<and> \<not> le (f e)) es"
    "filter (\<lambda>e. \<not> inside e) es = filter (\<lambda>e. \<not> ge (f e)) es @ filter (\<lambda>e. ge (f e) \<and> \<not> le (f e)) es"
proof -
  let ?zs = "filter (\<lambda>e. ge (f e)) es"
  have s: "sorted_wrt (<) (map f ?zs)" using assms by (simp add: sorted_wrt_map sorted_wrt_filter)
  show "?zs = filter inside es @ filter (\<lambda>e. ge (f e) \<and> \<not> le (f e)) es"
    using upto_split [OF s] by (simp add: inside_def conj_commute cong: filter_cong)
  have "filter (\<lambda>e. \<not> inside e) (filter (\<lambda>e. \<not> ge (f e)) es) = filter (\<lambda>e. \<not> ge (f e)) es"
    "filter (\<lambda>e. \<not> inside e) ?zs = filter (\<lambda>e. ge (f e) \<and> \<not> le (f e)) es"
    by (auto simp: inside_def intro!: filter_cong)
  then show "filter (\<lambda>e. \<not> inside e) es = filter (\<lambda>e. \<not> ge (f e)) es @ filter (\<lambda>e. ge (f e) \<and> \<not> le (f e)) es"
    using arg_cong [OF below_split [OF assms], of "filter (\<lambda>e. \<not> inside e)"] by simp
qed

end

definition in_range :: "('s::linorder) zrangespec \<Rightarrow> 's zent \<Rightarrow> bool" where
  "in_range rng e \<longleftrightarrow> zslValueGteMin (escore e) rng \<and> zslValueLteMax (escore e) rng"

interpretation scores: zrange ekey "\<lambda>k. zslValueGteMin (fst k) rng" "\<lambda>k. zslValueLteMax (fst k) rng"
  for rng :: "('s::linorder) zrangespec"
  by unfold_locales (auto simp: zslValueGteMin_def zslValueLteMax_def less_prod_def split: if_splits)

lemma scores_inside: "scores.inside rng = in_range rng"
  by (rule ext) (simp add: scores.inside_def in_range_def)

lemma zrep_first: "zrep h zsl (xs @ y # ys) \<Longrightarrow> fst (fwd 0 (y # ys)) = Some (addr y) \<and>
  (\<exists>n. zh_node h (addr y) = Some n \<and> z_score n = escore y \<and> z_obj n = Some (eobj y))"
proof -
  assume r: "zrep h zsl (xs @ y # ys)"
  have "1 \<le> hgt y" using zrepD(11) [OF r] by simp
  then show ?thesis using zrepD(3) [OF r refl] by (auto simp: node_ok_def)
qed

text \<open>The first and the last node.\<close>

lemma zrep_ends:
  assumes "zrep h zsl es"
  shows "es = [] \<Longrightarrow> zsl_tail zsl = None"
    "es \<noteq> [] \<Longrightarrow> zsl_tail zsl = Some (addr (last es)) \<and> get_level h (zsl_header zsl) 0 = Some (fwd 0 es) \<and> fst (fwd 0 es) = Some (addr (hd es)) \<and>
      (\<exists>n. zh_node h (addr (hd es)) = Some n \<and> z_score n = escore (hd es) \<and> z_obj n = Some (eobj (hd es))) \<and>
      (\<exists>n. zh_node h (addr (last es)) = Some n \<and> z_score n = escore (last es) \<and> z_obj n = Some (eobj (last es)))"
proof -
  show "es = [] \<Longrightarrow> zsl_tail zsl = None" using zrepD(6) [OF assms] by simp
  assume ne: "es \<noteq> []"
  then obtain zs z where z: "es = zs @ [z]" by (cases es rule: rev_cases) auto
  obtain y ys where y: "es = y # ys" using ne by (cases es) auto
  have ht: "hd es = y" "last es = z" using y z by (metis list.sel(1), metis last_snoc)
  have 1: "fst (fwd 0 es) = Some (addr y)" "\<exists>n. zh_node h (addr y) = Some n \<and> z_score n = escore y \<and> z_obj n = Some (eobj y)"
    using zrep_first [of h zsl "[]" y ys] assms y by (simp_all del: fwd.simps)
  have 2: "\<exists>n. zh_node h (addr z) = Some n \<and> z_score n = escore z \<and> z_obj n = Some (eobj z)"
    using zrep_first [of h zsl zs z "[]"] assms z by simp
  show "zsl_tail zsl = Some (addr (last es)) \<and> get_level h (zsl_header zsl) 0 = Some (fwd 0 es) \<and> fst (fwd 0 es) = Some (addr (hd es)) \<and>
      (\<exists>n. zh_node h (addr (hd es)) = Some n \<and> z_score n = escore (hd es) \<and> z_obj n = Some (eobj (hd es))) \<and>
      (\<exists>n. zh_node h (addr (last es)) = Some n \<and> z_score n = escore (last es) \<and> z_obj n = Some (eobj (last es)))"
    using 1 2 get_level_0 [of h zsl "[]" es] zrepD(6) [OF assms] assms ne unfolding ht by (simp add: back_at_def ht)
qed

lemma zslIsInRange_sorted:
  assumes r: "zrep h zsl es" "zsorted es"
  shows "\<exists>c. zslIsInRange h zsl rng = Some c \<and> (\<not> c \<longrightarrow> (\<forall>e\<in>set es. \<not> in_range rng e)) \<and>
    (c \<longrightarrow> es \<noteq> [] \<and> zslValueGteMin (escore (last es)) rng \<and> zslValueLteMax (escore (hd es)) rng)"
proof (cases "zr_min rng > zr_max rng \<or> zr_min rng = zr_max rng \<and> (zr_minex rng \<or> zr_maxex rng) \<or> es = []")
  case True
  then have "\<forall>e\<in>set es. \<not> in_range rng e"
    by (auto simp: in_range_def zslValueGteMin_def zslValueLteMax_def split: if_splits)
  moreover have "zslIsInRange h zsl rng = Some False" using True zrep_ends(1) [OF r(1)] by (auto simp: zslIsInRange_def)
  ultimately show ?thesis by blast
next
  case False
  then have ne: "es \<noteq> []" by simp
  have "zslIsInRange h zsl rng = Some (zslValueGteMin (escore (last es)) rng \<and> zslValueLteMax (escore (hd es)) rng)"
    using False zrep_ends(2) [OF r(1) ne] by (auto simp: zslIsInRange_def)
  then show ?thesis using scores.outside [of es] r(2) ne by (auto simp: zsorted_def scores_inside)
qed

lemma zslFirstInRange_sorted:
  assumes r: "zrep h zsl es" "zsorted es"
  shows "zslFirstInRange h zsl rng = Some (map_option addr (find (in_range rng) es))"
proof -
  let ?xs = "filter (\<lambda>e. \<not> zslValueGteMin (escore e) rng) es" and ?ys = "filter (\<lambda>e. zslValueGteMin (escore e) rng) es"
  let ?c = "\<lambda>n (_::nat). Some (\<not> zslValueGteMin (z_score n) rng)"
  have so: "sorted_wrt (<) (map ekey es)" using r(2) by (simp add: zsorted_def)
  obtain c where c: "zslIsInRange h zsl rng = Some c" "\<not> c \<Longrightarrow> \<forall>e\<in>set es. \<not> in_range rng e"
    "c \<Longrightarrow> es \<noteq> [] \<and> zslValueGteMin (escore (last es)) rng" using zslIsInRange_sorted [OF r] by blast
  show ?thesis
  proof (cases c)
    case False
    then have "find (in_range rng) es = None" using c(2) by (simp add: find_None_iff)
    then show ?thesis using False c(1) by (simp add: zslFirstInRange_def)
  next
    case True
    have "last es \<in> set ?ys" using c(3) [OF True] by auto
    then obtain y ys where y: "?ys = y # ys" by (cases ?ys) auto
    have r': "zrep h zsl (?xs @ ?ys)" using r(1) scores.below_split [OF so] by simp
    have "cuts ?c h ?xs ?ys" by (rule cutsI) (auto simp: node_ok_def)
    note search = zsl_search [OF r' this, of id, simplified]
    obtain n where n: "fst (fwd 0 ?ys) = Some (addr y)" "zh_node h (addr y) = Some n" "z_score n = escore y"
      using zrep_first [of h zsl ?xs y ys] r' y by auto
    show ?thesis using scores.find_first [OF so y] True c(1) search n get_level_0 [OF r'] by (auto simp: zslFirstInRange_def scores_inside)
  qed
qed

lemma zslLastInRange_sorted:
  assumes r: "zrep h zsl es" "zsorted es"
  shows "zslLastInRange h zsl rng = Some (map_option addr (find (in_range rng) (rev es)))"
proof -
  let ?xs = "filter (\<lambda>e. zslValueLteMax (escore e) rng) es" and ?ys = "filter (\<lambda>e. \<not> zslValueLteMax (escore e) rng) es"
  let ?c = "\<lambda>n (_::nat). Some (zslValueLteMax (z_score n) rng)"
  have so: "sorted_wrt (<) (map ekey es)" using r(2) by (simp add: zsorted_def)
  obtain c where c: "zslIsInRange h zsl rng = Some c" "\<not> c \<Longrightarrow> \<forall>e\<in>set es. \<not> in_range rng e"
    "c \<Longrightarrow> es \<noteq> [] \<and> zslValueLteMax (escore (hd es)) rng" using zslIsInRange_sorted [OF r] by blast
  show ?thesis
  proof (cases c)
    case False
    then have "find (in_range rng) (rev es) = None" using c(2) by (simp add: find_None_iff)
    then show ?thesis using False c(1) by (simp add: zslLastInRange_def)
  next
    case True
    have "hd es \<in> set ?xs" using c(3) [OF True] by auto
    then obtain xs x where x: "?xs = xs @ [x]" by (cases ?xs rule: rev_cases) auto
    have r': "zrep h zsl (?xs @ ?ys)" using r(1) scores.upto_split [OF so] by simp
    have "cuts ?c h ?xs ?ys" by (rule cutsI) (auto simp: node_ok_def)
    note search = zsl_search [OF r' this, of id, simplified]
    have "zrep h zsl (xs @ x # ?ys)" using r' x by simp
    then obtain n where n: "zh_node h (addr x) = Some n" "z_score n = escore x" using zrep_first by blast
    show ?thesis using scores.find_last [OF so x] True c(1) search n x by (auto simp: zslLastInRange_def scores_inside)
  qed
qed

section \<open>Deletion of ranges\<close>

text \<open>The dictionary of a sorted set maps an object to its node.\<close>

definition zmap :: "'s zent list \<Rightarrow> bytes \<Rightarrow> nat option" where
  "zmap es = map_of (map (\<lambda>e. (eobj e, addr e)) es)"

lemma zmap_dom: "zmap es k = None \<longleftrightarrow> k \<notin> eobj ` set es"
  by (force simp: zmap_def map_of_eq_None_iff)

lemma zmap_at: "distinct (map eobj (xs @ e # ys)) \<Longrightarrow> zmap (xs @ e # ys) (eobj e) = Some (addr e)"
  by (auto simp: zmap_def map_add_def dom_map_of_conv_image_fst split: option.splits dest!: map_of_SomeD)

lemma zmap_remove: "distinct (map eobj (xs @ e # ys)) \<Longrightarrow> (zmap (xs @ e # ys))(eobj e := None) = zmap (xs @ ys)"
proof (rule ext)
  fix k
  assume d: "distinct (map eobj (xs @ e # ys))"
  show "((zmap (xs @ e # ys))(eobj e := None)) k = zmap (xs @ ys) k"
  proof (cases "k = eobj e")
    case True
    then have "zmap (xs @ ys) k = None" using d unfolding zmap_dom by auto
    then show ?thesis using True by simp
  next
    case False
    then show ?thesis by (auto simp: zmap_def map_add_def split: option.splits)
  qed
qed

lemma zmap_insert: "eobj e \<notin> eobj ` set (xs @ ys) \<Longrightarrow> zmap (xs @ e # ys) = (zmap (xs @ ys))(eobj e \<mapsto> addr e)"
proof (rule ext)
  fix k
  assume d: "eobj e \<notin> eobj ` set (xs @ ys)"
  show "zmap (xs @ e # ys) k = ((zmap (xs @ ys))(eobj e \<mapsto> addr e)) k"
  proof (cases "k = eobj e")
    case True
    have "zmap ys k = None" using d True unfolding zmap_dom by auto
    moreover have "zmap xs k = None" using d True unfolding zmap_dom by auto
    ultimately show ?thesis using True by (simp add: zmap_def map_add_def)
  next
    case False
    then show ?thesis by (auto simp: zmap_def map_add_def split: option.splits)
  qed
qed

text \<open>What the sorted set needs of the dictionary, from its interface.\<close>

lemma zdict_delete:
  assumes "dict_rep (plainType hf) d m"
  shows "\<exists>d' r. dictDelete (plainType hf) d k = Some (d', r) \<and> dict_rep (plainType hf) d' (m(k := None))"
proof -
  have "del (plainType hf) m k = m(k := None)" by (auto simp: del_def)
  then show ?thesis using dictGenericDelete_rep [OF plainType_ok assms, of k False] unfolding dictDelete_def by metis
qed

lemma zdel_loop_rep:
  fixes h :: "('s::linorder) zheap"
  assumes "zrep h zsl (xs @ mid @ ys)" "zsorted (xs @ mid @ ys)" "dict_rep (plainType hf) d (zmap (xs @ mid @ ys))"
    and u: "update = map (\<lambda>i. node_at hdr (bef i xs)) [0..<K]" and "zsl_level zsl \<le> K" "zsl_header zsl = hdr"
    and cond: "\<And>e b n t. e \<in> set (mid @ ys) \<Longrightarrow> node_ok e b n \<Longrightarrow> cond n t = Some (C e t)"
    and "\<And>j. j < length mid \<Longrightarrow> C (mid ! j) (t0 + j)" "ys \<noteq> [] \<Longrightarrow> \<not> C (hd ys) (t0 + length mid)"
    and "t0 + length mid < 2 ^ 64" "k + length mid < 2 ^ 64"
  shows "\<exists>h' zsl' d'. zdel_loop (plainType hf) cond update h zsl d (fst (fwd 0 (mid @ ys))) t0 k = Some (h', zsl', d', k + length mid) \<and>
    zrep h' zsl' (xs @ ys) \<and> zsorted (xs @ ys) \<and> dict_rep (plainType hf) d' (zmap (xs @ ys))"
  using assms(1-3,5-)
proof (induction mid arbitrary: h zsl d t0 k)
  case Nil
  show ?case
  proof (cases ys)
    case Nil
    then show ?thesis using Nil.prems by (subst zdel_loop.simps) simp
  next
    case (Cons y ys')
    obtain n where n: "fst (fwd 0 ys) = Some (addr y)" "zh_node h (addr y) = Some n" "node_ok y xs n"
      using zrep_first [of h zsl xs y ys'] zrepD(3) [of h zsl "xs @ ys" xs y ys'] Nil.prems(1) Cons by auto
    have "cond n t0 = Some (C y t0)" using Nil.prems(6) [of y xs n] Cons n(3) by simp
    then have "cond n t0 = Some False" using Nil.prems(8) Cons by simp
    then show ?thesis using n Nil.prems(1-3) by (subst zdel_loop.simps) simp
  qed
next
  case (Cons e mid)
  have r: "zrep h zsl (xs @ e # (mid @ ys))" using Cons.prems(1) by simp
  have d: "distinct (map eobj (xs @ e # (mid @ ys)))" using Cons.prems(2) by (simp add: zsorted_def)
  obtain n where n: "zh_node h (addr e) = Some n" "node_ok e xs n" using zrepD(3) [OF r refl] by blast
  have f: "fst (fwd 0 (e # mid @ ys)) = Some (addr e)" using zrep_first [OF r] by blast
  have c: "cond n t0 = Some True" using Cons.prems(6) [of e xs n t0] Cons.prems(7) [of 0] n(2) by simp
  have l: "get_level h (addr e) 0 = Some (fwd 0 (mid @ ys))" using get_level_0 [of h zsl "xs @ [e]" "mid @ ys"] r by simp
  have u': "update = map (\<lambda>i. node_at (zsl_header zsl) (bef i xs)) [0..<K]" using u Cons.prems(5) by simp
  obtain h1 zsl1 m where del: "zslDeleteNode h zsl (addr e) update = Some (h1, zsl1)" "zrep h1 zsl1 (xs @ mid @ ys)"
    "zsl_header zsl1 = zsl_header zsl" "zsl_level zsl1 \<le> zsl_level zsl" "zh_node h1 (addr e) = Some m" "z_obj m = Some (eobj e)"
    using zslDeleteNode_rep [OF r u' Cons.prems(4)] by blast
  have x: "addr e \<notin> set (zsl_header zsl1 # map addr (xs @ mid @ ys))" using zrepD(5) [OF r] del(3) by auto
  obtain h2 where h2: "zslFreeNode h1 (addr e) = Some h2" "zrep h2 zsl1 (xs @ mid @ ys)" using zfree_rep [OF del(2) x del(5,6)] by blast
  obtain d1 r1 where d1: "dictDelete (plainType hf) d (eobj e) = Some (d1, r1)" "dict_rep (plainType hf) d1 (zmap (xs @ mid @ ys))"
    using zdict_delete [OF Cons.prems(3), of "eobj e"] zmap_remove [OF d] by auto
  have o: "z_obj n = Some (eobj e)" using n(2) by (simp add: node_ok_def)
  have b: "u64 (t0 + 1) = Suc t0" "u64 (k + 1) = Suc k" using Cons.prems(9,10) by simp_all
  have s: "zsorted (xs @ mid @ ys)" using Cons.prems(2) zsorted_remove by auto
  have C: "C (mid ! j) (Suc t0 + j)" if "j < length mid" for j using Cons.prems(7) [of "Suc j"] that by simp
  have N: "\<not> C (hd ys) (Suc t0 + length mid)" if "ys \<noteq> []" using Cons.prems(8) that by simp
  obtain h' zsl' d' where "zdel_loop (plainType hf) cond update h2 zsl1 d1 (fst (fwd 0 (mid @ ys))) (Suc t0) (Suc k) = Some (h', zsl', d', Suc k + length mid)"
    "zrep h' zsl' (xs @ ys)" "zsorted (xs @ ys)" "dict_rep (plainType hf) d' (zmap (xs @ ys))"
    using Cons.IH [OF h2(2) s d1(2) _ _ _ C N, of "Suc k"] del(3,4) Cons.prems(4,5,6,9,10) by fastforce
  then show ?case using f n(1) c l del(1) o d1(1) h2(1) b by (subst zdel_loop.simps) simp
qed

lemma zslDeleteRangeByScore_sorted:
  fixes h :: "('s::linorder) zheap"
  assumes r: "zrep h zsl es" "zsorted es" "dict_rep (plainType hf) d (zmap es)"
  shows "\<exists>h' zsl' d'. zslDeleteRangeByScore (plainType hf) h zsl rng d = Some (h', zsl', d', length (filter (in_range rng) es)) \<and>
    zrep h' zsl' (filter (\<lambda>e. \<not> in_range rng e) es) \<and> zsorted (filter (\<lambda>e. \<not> in_range rng e) es) \<and>
    dict_rep (plainType hf) d' (zmap (filter (\<lambda>e. \<not> in_range rng e) es))"
proof -
  let ?g = "\<lambda>e. zslValueGteMin (escore e) rng" and ?l = "\<lambda>e. zslValueLteMax (escore e) rng"
  let ?xs = "filter (\<lambda>e. \<not> ?g e) es" and ?mid = "filter (in_range rng) es" and ?ys = "filter (\<lambda>e. ?g e \<and> \<not> ?l e) es"
  let ?c = "\<lambda>n (_::nat). Some (if zr_minex rng then z_score n \<le> zr_min rng else z_score n < zr_min rng)"
  let ?cm = "\<lambda>n (_::nat). Some (if zr_maxex rng then z_score n < zr_max rng else z_score n \<le> zr_max rng)"
  have so: "sorted_wrt (<) (map ekey es)" using r(2) by (simp add: zsorted_def)
  note sp = scores.range_split [OF so, of rng, unfolded scores_inside]
  have e3: "es = ?xs @ ?mid @ ?ys" using scores.below_split [OF so, of rng] sp(1) by simp
  have r': "zrep h zsl (?xs @ ?mid @ ?ys)" using r(1) by (simp only: e3 [symmetric])
  have cu: "cuts ?c h ?xs (?mid @ ?ys)" by (rule cutsI) (auto simp: node_ok_def in_range_def zslValueGteMin_def split: if_splits)
  note search = zsl_search [OF r' cu, of id, simplified]
  have len: "length ?mid < 2 ^ 64" using zrepD(8) [OF r'] by simp
  have "\<exists>h' zsl' d'. zdel_loop (plainType hf) ?cm (map (\<lambda>i. node_at (zsl_header zsl) (bef i ?xs)) [0..<zsl_level zsl]) h zsl d (fst (fwd 0 (?mid @ ?ys))) 0 0 =
      Some (h', zsl', d', 0 + length ?mid) \<and>
    zrep h' zsl' (?xs @ ?ys) \<and> zsorted (?xs @ ?ys) \<and> dict_rep (plainType hf) d' (zmap (?xs @ ?ys))"
  proof (rule zdel_loop_rep [where C = "\<lambda>e _. ?l e"])
    show "zrep h zsl (?xs @ ?mid @ ?ys)" "zsorted (?xs @ ?mid @ ?ys)" "dict_rep (plainType hf) d (zmap (?xs @ ?mid @ ?ys))"
      using r by (simp_all only: e3 [symmetric])
    show "zsl_level zsl \<le> zsl_level zsl" by (rule order_refl)
    show "?cm n t = Some (?l e)" if "node_ok e b n" for e b n t using that by (simp add: node_ok_def zslValueLteMax_def)
    show "?l (?mid ! j)" if "j < length ?mid" for j using nth_mem [OF that] by (simp add: in_range_def)
    show "\<not> ?l (hd ?ys)" if "?ys \<noteq> []" using hd_in_set [OF that] by simp
  qed (use len in simp_all)
  then show ?thesis using search get_level_0 [OF r'] sp(2) by (simp add: zslDeleteRangeByScore_def)
qed

lemma zslDeleteRangeByRank_sorted:
  fixes h :: "('s::linorder) zheap"
  assumes r: "zrep h zsl es" "zsorted es" "dict_rep (plainType hf) d (zmap es)" and st: "0 < start" "start \<le> stop"
  shows "\<exists>h' zsl' d'. zslDeleteRangeByRank (plainType hf) h zsl start stop d = Some (h', zsl', d', length es - length (take (start - 1) es @ drop stop es)) \<and>
    zrep h' zsl' (take (start - 1) es @ drop stop es) \<and> zsorted (take (start - 1) es @ drop stop es) \<and>
    dict_rep (plainType hf) d' (zmap (take (start - 1) es @ drop stop es))"
proof -
  let ?xs = "take (start - 1) es" and ?zs = "drop (start - 1) es"
  let ?mid = "take (stop - (start - 1)) ?zs" and ?ys = "drop stop es"
  have r': "zrep h zsl (?xs @ ?zs)" using r(1) by simp
  have "drop (stop - (start - 1)) ?zs = ?ys" using st by simp
  then have ez: "?zs = ?mid @ ?ys" by (metis append_take_drop_id)
  then have e3: "es = ?xs @ ?mid @ ?ys" by (metis append_take_drop_id)
  have cu: "cuts (\<lambda>_ r. Some (r < start)) h ?xs ?zs"
    by (rule cutsI) (use st in \<open>auto simp: min_def split: if_splits\<close>)
  have search: "zsl_descend u64 (\<lambda>_ r. Some (r < start)) h (zsl_level zsl) (zsl_header zsl) 0 =
    Some (node_at (zsl_header zsl) ?xs, length ?xs, map (\<lambda>i. node_at (zsl_header zsl) (bef i ?xs)) [0..<zsl_level zsl],
      map (\<lambda>i. length (bef i ?xs)) [0..<zsl_level zsl])"
    by (rule zsl_search [OF r' cu]) (rule u64_id, simp)
  have l: "length es < 2 ^ 32" "length ?xs \<le> length es" "length ?mid \<le> length es" using zrepD(8) [OF r(1)] by simp_all
  have "Suc (length ?xs) + length ?mid \<le> Suc (length es + length es)" using l(2,3) by linarith
  also have "\<dots> < 2 ^ 64" using l(1) by simp
  finally have b: "Suc (length ?xs) + length ?mid < 2 ^ 64" .
  have one: "u64 (length ?xs + 1) = Suc (length ?xs)" using l by simp
  have no: "\<not> Suc (length ?xs) + length ?mid \<le> stop" if "?ys \<noteq> []" using that st by simp
  have yes: "Suc (length ?xs) + j \<le> stop" if "j < length ?mid" for j using that st by (auto simp: min_def split: if_splits)
  have "\<exists>h' zsl' d'. zdel_loop (plainType hf) (\<lambda>_ r. Some (r \<le> stop)) (map (\<lambda>i. node_at (zsl_header zsl) (bef i ?xs)) [0..<zsl_level zsl]) h zsl d
      (fst (fwd 0 (?mid @ ?ys))) (Suc (length ?xs)) 0 = Some (h', zsl', d', 0 + length ?mid) \<and>
    zrep h' zsl' (?xs @ ?ys) \<and> zsorted (?xs @ ?ys) \<and> dict_rep (plainType hf) d' (zmap (?xs @ ?ys))"
  proof (rule zdel_loop_rep [where C = "\<lambda>_ r. r \<le> stop"])
    show "zrep h zsl (?xs @ ?mid @ ?ys)" "zsorted (?xs @ ?mid @ ?ys)" "dict_rep (plainType hf) d (zmap (?xs @ ?mid @ ?ys))"
      using r by (simp_all only: e3 [symmetric])
    show "zsl_level zsl \<le> zsl_level zsl" by (rule order_refl)
    show "0 + length ?mid < 2 ^ 64" using b by linarith
    show "Suc (length ?xs) + length ?mid < 2 ^ 64" by (rule b)
  qed (use no yes in \<open>simp_all only: not_False_eq_True True_implies_equals\<close>)
  then obtain h' zsl' d' where z: "zdel_loop (plainType hf) (\<lambda>_ r. Some (r \<le> stop)) (map (\<lambda>i. node_at (zsl_header zsl) (bef i ?xs)) [0..<zsl_level zsl]) h zsl d
      (fst (fwd 0 (?mid @ ?ys))) (Suc (length ?xs)) 0 = Some (h', zsl', d', 0 + length ?mid)"
    "zrep h' zsl' (?xs @ ?ys)" "zsorted (?xs @ ?ys)" "dict_rep (plainType hf) d' (zmap (?xs @ ?ys))" by blast
  have n: "0 + length ?mid = length es - length (?xs @ ?ys)" using arg_cong [OF e3, of length] unfolding length_append by linarith
  have g: "get_level h (node_at (zsl_header zsl) ?xs) 0 = Some (fwd 0 (?mid @ ?ys))" using get_level_0 [OF r'] by (simp only: ez [symmetric])
  have "zslDeleteRangeByRank (plainType hf) h zsl start stop d = Some (h', zsl', d', length es - length (?xs @ ?ys))"
    unfolding zslDeleteRangeByRank_def search bind.bind_lunit prod.case g one z(1) n ..
  then show ?thesis using z(2-) by blast
qed

section \<open>Lexicographic ranges\<close>

text \<open>
  With equal scores the elements are sorted by their objects.  \<open>lex_ge\<close> and \<open>lex_le\<close> say what the
  ends of a range mean.
\<close>

definition lex_ge :: "zlexrangespec \<Rightarrow> bytes \<Rightarrow> bool" where
  "lex_ge rng v = (case zl_min rng of SharedMin \<Rightarrow> True | SharedMax \<Rightarrow> False | LexObj m \<Rightarrow> if zl_minex rng then m < v else m \<le> v)"

definition lex_le :: "zlexrangespec \<Rightarrow> bytes \<Rightarrow> bool" where
  "lex_le rng v = (case zl_max rng of SharedMin \<Rightarrow> False | SharedMax \<Rightarrow> True | LexObj m \<Rightarrow> if zl_maxex rng then v < m else v \<le> m)"

definition lex_small :: "lexobj \<Rightarrow> bool" where
  "lex_small x = (case x of LexObj m \<Rightarrow> length m < 2 ^ 31 | _ \<Rightarrow> True)"

lemma compare_sym:
  assumes "length a < 2 ^ 31" "length b < 2 ^ 31"
  shows "compareStringObjects a b > 0 \<longleftrightarrow> b < a" "compareStringObjects a b \<le> 0 \<longleftrightarrow> a \<le> b" "compareStringObjects a b \<ge> 0 \<longleftrightarrow> b \<le> a"
  using compareStringObjects_order [OF assms] by (auto simp: not_less not_le order.order_iff_strict dest: less_imp_not_less)

lemma zslLexValue_meaning:
  assumes "length v < 2 ^ 31" "lex_small (zl_min rng)" "lex_small (zl_max rng)"
  shows "zslLexValueGteMin v rng \<longleftrightarrow> lex_ge rng v" "zslLexValueLteMax v rng \<longleftrightarrow> lex_le rng v"
proof -
  have e: "compareStringObjects v v = 0" using compareStringObjects_order(2) [OF assms(1,1)] by simp
  show "zslLexValueGteMin v rng \<longleftrightarrow> lex_ge rng v"
  proof (cases "zl_min rng")
    case (LexObj m)
    then show ?thesis using assms(2) compare_sym [OF assms(1), of m] e
      by (auto simp: lex_small_def zslLexValueGteMin_def lex_ge_def compareStringObjectsForLexRange_def lex_string_def)
  qed (auto simp: zslLexValueGteMin_def lex_ge_def compareStringObjectsForLexRange_def)
  show "zslLexValueLteMax v rng \<longleftrightarrow> lex_le rng v"
  proof (cases "zl_max rng")
    case (LexObj m)
    then show ?thesis using assms(3) compareStringObjects_order [OF assms(1), of m] compare_sym [OF assms(1), of m] e
      by (auto simp: lex_small_def zslLexValueLteMax_def lex_le_def compareStringObjectsForLexRange_def lex_string_def)
  qed (auto simp: zslLexValueLteMax_def lex_le_def compareStringObjectsForLexRange_def)
qed

interpretation lexes: zrange "eobj :: ('s::linorder) zent \<Rightarrow> bytes" "lex_ge rng" "lex_le rng" for rng
  by unfold_locales (auto simp: lex_ge_def lex_le_def split: lexobj.splits if_splits)

definition in_lex_range :: "zlexrangespec \<Rightarrow> ('s::linorder) zent \<Rightarrow> bool" where
  "in_lex_range rng e \<longleftrightarrow> lex_ge rng (eobj e) \<and> lex_le rng (eobj e)"

lemma lexes_inside: "lexes.inside rng = in_lex_range rng"
  by (rule ext) (simp add: lexes.inside_def in_lex_range_def)

text \<open>
  The ranges that \<open>zslIsInLexRange\<close> takes for empty because it compares the strings the infinite
  ends are represented by.
\<close>

definition lex_glitch :: "zlexrangespec \<Rightarrow> bool" where
  "lex_glitch rng \<longleftrightarrow> (zl_minex rng \<or> zl_maxex rng) \<and>
     (zl_min rng = SharedMin \<and> zl_max rng = LexObj (ascii ''minstring'') \<or>
      zl_max rng = SharedMax \<and> zl_min rng = LexObj (ascii ''maxstring''))"

lemma shared_strings: "length (ascii ''minstring'') = 9" "length (ascii ''maxstring'') = 9" "ascii ''minstring'' \<noteq> ascii ''maxstring''"
  by (simp_all add: ascii_def)

lemma lex_empty:
  assumes "lex_small (zl_min rng)" "lex_small (zl_max rng)" "\<not> lex_glitch rng"
    "compareStringObjectsForLexRange (zl_min rng) (zl_max rng) > 1 \<or>
      compareStringObjects (lex_string (zl_min rng)) (lex_string (zl_max rng)) = 0 \<and> (zl_minex rng \<or> zl_maxex rng)"
  shows "\<not> in_lex_range rng e"
proof
  assume i: "in_lex_range rng e"
  have sm: "lex_small x \<Longrightarrow> length (lex_string x) < 2 ^ 31" for x
    by (cases x) (simp_all add: lex_small_def lex_string_def shared_strings)
  note eq = compareStringObjects_order(2) [OF sm [OF assms(1)] sm [OF assms(2)]]
  have nm: "zl_min rng \<noteq> SharedMax" "zl_max rng \<noteq> SharedMin" using i by (auto simp: in_lex_range_def lex_ge_def lex_le_def)
  show False
  proof (cases "compareStringObjectsForLexRange (zl_min rng) (zl_max rng) > 1")
    case True
    then obtain a b where ab: "zl_min rng = LexObj a" "zl_max rng = LexObj b" "compareStringObjects a b > 1"
      by (cases "zl_min rng"; cases "zl_max rng") (auto simp: compareStringObjectsForLexRange_def lex_string_def split: if_splits)
    then have "b < a" using compare_sym(1) [of a b] assms(1,2) by (auto simp: lex_small_def)
    then show False using i ab(1,2) by (auto simp: in_lex_range_def lex_ge_def lex_le_def split: if_splits)
  next
    case False
    then have s: "lex_string (zl_min rng) = lex_string (zl_max rng)" "zl_minex rng \<or> zl_maxex rng" using assms(4) eq by auto
    show False
    proof (cases "zl_min rng"; cases "zl_max rng")
      fix a b
      assume "zl_min rng = LexObj a" "zl_max rng = LexObj b"
      then show False using s i by (auto simp: lex_string_def in_lex_range_def lex_ge_def lex_le_def split: if_splits)
    qed (use nm s assms(3) shared_strings(3) in \<open>auto simp: lex_string_def lex_glitch_def\<close>)
  qed
qed

lemma zslIsInLexRange_sorted:
  fixes h :: "('s::linorder) zheap"
  assumes r: "zrep h zsl es" "zsorted es" "sorted_wrt (<) (map eobj es)"
    and sm: "lex_small (zl_min rng)" "lex_small (zl_max rng)" "\<not> lex_glitch rng"
  shows "\<exists>c. zslIsInLexRange h zsl rng = Some c \<and> (\<not> c \<longrightarrow> (\<forall>e\<in>set es. \<not> in_lex_range rng e)) \<and>
    (c \<longrightarrow> es \<noteq> [] \<and> lex_ge rng (eobj (last es)) \<and> lex_le rng (eobj (hd es)))"
proof (cases "compareStringObjectsForLexRange (zl_min rng) (zl_max rng) > 1 \<or>
      compareStringObjects (lex_string (zl_min rng)) (lex_string (zl_max rng)) = 0 \<and> (zl_minex rng \<or> zl_maxex rng)")
  case True
  then have "zslIsInLexRange h zsl rng = Some False" by (simp add: zslIsInLexRange_def)
  then show ?thesis using lex_empty [OF sm True] by blast
next
  case False
  note c = this
  show ?thesis
  proof (cases "es = []")
    case True
    then show ?thesis using c zrep_ends(1) [OF r(1)] by (auto simp: zslIsInLexRange_def)
  next
    case False
    have "zslLexValueGteMin (eobj (last es)) rng \<longleftrightarrow> lex_ge rng (eobj (last es))" "zslLexValueLteMax (eobj (hd es)) rng \<longleftrightarrow> lex_le rng (eobj (hd es))"
      using r(2) False sm by (intro zslLexValue_meaning; simp add: zsorted_def)+
    then have "zslIsInLexRange h zsl rng = Some (lex_ge rng (eobj (last es)) \<and> lex_le rng (eobj (hd es)))"
      using c zrep_ends(2) [OF r(1) False] by (auto simp: zslIsInLexRange_def)
    then show ?thesis using lexes.outside [of es] r(3) False by (auto simp: lexes_inside)
  qed
qed

lemma zslFirstInLexRange_sorted:
  fixes h :: "('s::linorder) zheap"
  assumes r: "zrep h zsl es" "zsorted es" "sorted_wrt (<) (map eobj es)"
    and sm: "lex_small (zl_min rng)" "lex_small (zl_max rng)" "\<not> lex_glitch rng"
  shows "zslFirstInLexRange h zsl rng = Some (map_option addr (find (in_lex_range rng) es))"
proof -
  let ?xs = "filter (\<lambda>e. \<not> lex_ge rng (eobj e)) es" and ?ys = "filter (\<lambda>e. lex_ge rng (eobj e)) es"
  have m: "zslLexValueGteMin (eobj e) rng \<longleftrightarrow> lex_ge rng (eobj e)" "zslLexValueLteMax (eobj e) rng \<longleftrightarrow> lex_le rng (eobj e)" if "e \<in> set es" for e
    using r(2) that sm by (intro zslLexValue_meaning; simp add: zsorted_def)+
  obtain c where c: "zslIsInLexRange h zsl rng = Some c" "\<not> c \<Longrightarrow> \<forall>e\<in>set es. \<not> in_lex_range rng e"
    "c \<Longrightarrow> es \<noteq> [] \<and> lex_ge rng (eobj (last es))" using zslIsInLexRange_sorted [OF assms] by blast
  show ?thesis
  proof (cases c)
    case False
    then have "find (in_lex_range rng) es = None" using c(2) by (simp add: find_None_iff)
    then show ?thesis using False c(1) by (simp add: zslFirstInLexRange_def)
  next
    case True
    have "last es \<in> set ?ys" using c(3) [OF True] by auto
    then obtain y ys where y: "?ys = y # ys" by (cases ?ys) auto
    then have "y \<in> set ?ys" by simp
    then have ye: "y \<in> set es" by simp
    have r': "zrep h zsl (?xs @ ?ys)" using r(1) lexes.below_split [OF r(3)] by simp
    have "cuts (lex_below rng) h ?xs ?ys" by (rule cutsI) (auto simp: node_ok_def lex_below_def m)
    note search = zsl_search [OF r' this, of id, simplified]
    obtain n where n: "fst (fwd 0 ?ys) = Some (addr y)" "zh_node h (addr y) = Some n" "z_obj n = Some (eobj y)"
      using zrep_first [of h zsl ?xs y ys] r' y by auto
    show ?thesis using lexes.find_first [OF r(3) y] True c(1) search n get_level_0 [OF r'] m(2) [OF ye] by (auto simp: zslFirstInLexRange_def lexes_inside)
  qed
qed

lemma zslLastInLexRange_sorted:
  fixes h :: "('s::linorder) zheap"
  assumes r: "zrep h zsl es" "zsorted es" "sorted_wrt (<) (map eobj es)"
    and sm: "lex_small (zl_min rng)" "lex_small (zl_max rng)" "\<not> lex_glitch rng"
  shows "zslLastInLexRange h zsl rng = Some (map_option addr (find (in_lex_range rng) (rev es)))"
proof -
  let ?xs = "filter (\<lambda>e. lex_le rng (eobj e)) es" and ?ys = "filter (\<lambda>e. \<not> lex_le rng (eobj e)) es"
  have m: "zslLexValueGteMin (eobj e) rng \<longleftrightarrow> lex_ge rng (eobj e)" "zslLexValueLteMax (eobj e) rng \<longleftrightarrow> lex_le rng (eobj e)" if "e \<in> set es" for e
    using r(2) that sm by (intro zslLexValue_meaning; simp add: zsorted_def)+
  obtain c where c: "zslIsInLexRange h zsl rng = Some c" "\<not> c \<Longrightarrow> \<forall>e\<in>set es. \<not> in_lex_range rng e"
    "c \<Longrightarrow> es \<noteq> [] \<and> lex_le rng (eobj (hd es))" using zslIsInLexRange_sorted [OF assms] by blast
  show ?thesis
  proof (cases c)
    case False
    then have "find (in_lex_range rng) (rev es) = None" using c(2) by (simp add: find_None_iff)
    then show ?thesis using False c(1) by (simp add: zslLastInLexRange_def)
  next
    case True
    have "hd es \<in> set ?xs" using c(3) [OF True] by auto
    then obtain xs x where x: "?xs = xs @ [x]" by (cases ?xs rule: rev_cases) auto
    then have "x \<in> set ?xs" by simp
    then have xe: "x \<in> set es" by simp
    have r': "zrep h zsl (?xs @ ?ys)" using r(1) lexes.upto_split [OF r(3)] by simp
    have "cuts (lex_upto rng) h ?xs ?ys" by (rule cutsI) (auto simp: node_ok_def lex_upto_def m)
    note search = zsl_search [OF r' this, of id, simplified]
    have "zrep h zsl (xs @ x # ?ys)" using r' x by simp
    then obtain n where n: "zh_node h (addr x) = Some n" "z_obj n = Some (eobj x)" using zrep_first by blast
    show ?thesis using lexes.find_last [OF r(3) x] True c(1) search n x m(1) [OF xe] by (auto simp: zslLastInLexRange_def lexes_inside)
  qed
qed

lemma zslDeleteRangeByLex_sorted:
  fixes h :: "('s::linorder) zheap"
  assumes r: "zrep h zsl es" "zsorted es" "dict_rep (plainType hf) d (zmap es)" "sorted_wrt (<) (map eobj es)"
    and sm: "lex_small (zl_min rng)" "lex_small (zl_max rng)"
  shows "\<exists>h' zsl' d'. zslDeleteRangeByLex (plainType hf) h zsl rng d = Some (h', zsl', d', length (filter (in_lex_range rng) es)) \<and>
    zrep h' zsl' (filter (\<lambda>e. \<not> in_lex_range rng e) es) \<and> zsorted (filter (\<lambda>e. \<not> in_lex_range rng e) es) \<and>
    dict_rep (plainType hf) d' (zmap (filter (\<lambda>e. \<not> in_lex_range rng e) es))"
proof -
  let ?g = "\<lambda>e. lex_ge rng (eobj e)" and ?l = "\<lambda>e. lex_le rng (eobj e)"
  let ?xs = "filter (\<lambda>e. \<not> ?g e) es" and ?mid = "filter (in_lex_range rng) es" and ?ys = "filter (\<lambda>e. ?g e \<and> \<not> ?l e) es"
  have m: "zslLexValueGteMin (eobj e) rng \<longleftrightarrow> ?g e" "zslLexValueLteMax (eobj e) rng \<longleftrightarrow> ?l e" if "e \<in> set es" for e
    using r(2) that sm by (intro zslLexValue_meaning; simp add: zsorted_def)+
  note sp = lexes.range_split [OF r(4), of rng, unfolded lexes_inside]
  have e3: "es = ?xs @ ?mid @ ?ys" using lexes.below_split [OF r(4), of rng] sp(1) by simp
  have r': "zrep h zsl (?xs @ ?mid @ ?ys)" using r(1) by (simp only: e3 [symmetric])
  have cu: "cuts (lex_below rng) h ?xs (?mid @ ?ys)" by (rule cutsI) (auto simp: node_ok_def in_lex_range_def lex_below_def m)
  note search = zsl_search [OF r' cu, of id, simplified]
  have len: "length ?mid < 2 ^ 64" using zrepD(8) [OF r'] by simp
  have "\<exists>h' zsl' d'. zdel_loop (plainType hf) (lex_upto rng) (map (\<lambda>i. node_at (zsl_header zsl) (bef i ?xs)) [0..<zsl_level zsl]) h zsl d (fst (fwd 0 (?mid @ ?ys))) 0 0 =
      Some (h', zsl', d', 0 + length ?mid) \<and>
    zrep h' zsl' (?xs @ ?ys) \<and> zsorted (?xs @ ?ys) \<and> dict_rep (plainType hf) d' (zmap (?xs @ ?ys))"
  proof (rule zdel_loop_rep [where C = "\<lambda>e _. ?l e"])
    show "zrep h zsl (?xs @ ?mid @ ?ys)" "zsorted (?xs @ ?mid @ ?ys)" "dict_rep (plainType hf) d (zmap (?xs @ ?mid @ ?ys))"
      using r by (simp_all only: e3 [symmetric])
    show "zsl_level zsl \<le> zsl_level zsl" by (rule order_refl)
    show "lex_upto rng n t = Some (?l e)" if "e \<in> set (?mid @ ?ys)" "node_ok e b n" for e b n t
      using that m(2) by (auto simp: node_ok_def lex_upto_def)
    show "?l (?mid ! j)" if "j < length ?mid" for j using nth_mem [OF that] by (simp add: in_lex_range_def)
    show "\<not> ?l (hd ?ys)" if "?ys \<noteq> []" using hd_in_set [OF that] by simp
  qed (use len in simp_all)
  then show ?thesis using search get_level_0 [OF r'] sp(2) by (simp add: zslDeleteRangeByLex_def)
qed

section \<open>Creation and release\<close>

lemma zslCreate_rep:
  fixes h :: "('s::{linorder, zero}) zheap"
  assumes "\<And>a. zh_brk h \<le> a \<Longrightarrow> zh_node h a = None"
  shows "\<exists>h' zsl. zslCreate jk h = Some (h', zsl) \<and> zrep h' zsl []"
proof -
  let ?x = "zh_brk h" and ?n = "\<lparr>z_obj = None, z_score = 0, z_backward = fst jk, z_level = map (snd jk) [0..<ZSKIPLIST_MAXLEVEL]\<rparr>"
  let ?h = "h\<lparr>zh_brk := Suc ?x, zh_node := (zh_node h)(?x \<mapsto> ?n)\<rparr>"
  let ?G = "\<lambda>(j::nat) a v. if a = ?x then (None, 0) else v"
  let ?h1 = "zupd (\<lambda>a j v. if j \<in> set [0..<ZSKIPLIST_MAXLEVEL] then ?G j a v else v) ?h"
  have "ofold (\<lambda>h j. set_level h ?x j (None, 0)) ?h [0..<ZSKIPLIST_MAXLEVEL] = Some ?h1"
  proof (rule level_loop)
    fix h' :: "'s zheap" and i
    assume "i \<in> set [0..<ZSKIPLIST_MAXLEVEL]" and g: "\<And>a. get_level h' a i = get_level ?h a i"
    then have "get_level h' ?x i = Some (snd jk i)" by (simp add: get_level_def rd_in)
    then show "set_level h' ?x i (None, 0) = Some (zupd (\<lambda>a j v. if j = i then ?G i a v else v) h')" by (rule set_level_zupd)
  qed simp
  moreover obtain n where n: "zh_node ?h1 ?x = Some n" "z_obj n = None" "length (z_level n) = ZSKIPLIST_MAXLEVEL" by (auto simp: zh_node_zupd)
  note sb = set_backward_some [OF n(1), of None]
  let ?h2 = "?h1\<lparr>zh_node := (zh_node ?h1)(?x \<mapsto> n\<lparr>z_backward := None\<rparr>)\<rparr>"
  have "get_level ?h2 ?x i = Some (None, 0)" if "i < ZSKIPLIST_MAXLEVEL" for i
    unfolding sb(2) using that by (simp add: get_level_zupd) (simp add: get_level_def rd_in)
  then have "zrep ?h2 \<lparr>zsl_header = ?x, zsl_tail = None, zsl_length = 0, zsl_level = 1\<rparr> []"
    using n assms by (auto simp: zrep_def zlinks_def ztop_def znodes_def header_ok_def ZSKIPLIST_MAXLEVEL_def zh_node_zupd)
  ultimately show ?thesis using sb(1) by (auto simp: zslCreate_def zslCreateNode_def Let_def)
qed

lemma zslFree_loop_frees:
  assumes "\<And>b e c. es = b @ e # c \<Longrightarrow> \<exists>n. zh_node h (addr e) = Some n \<and> z_obj n \<noteq> None \<and> rd (z_level n) 0 = Some (fwd 0 c)"
    "distinct (map addr es)" "\<forall>e\<in>set es. 1 \<le> hgt e"
  shows "zslFree_loop h (fst (fwd 0 es)) = Some (h\<lparr>zh_node := \<lambda>a. if a \<in> addr ` set es then None else zh_node h a\<rparr>)"
  using assms
proof (induction es arbitrary: h)
  case Nil
  then show ?case by (subst zslFree_loop.simps) simp
next
  case (Cons e es)
  obtain n where n: "zh_node h (addr e) = Some n" "z_obj n \<noteq> None" "rd (z_level n) 0 = Some (fwd 0 es)" using Cons.prems(1) [of "[]" e es] by auto
  let ?h = "h\<lparr>zh_node := (zh_node h)(addr e := None)\<rparr>"
  have "\<exists>n. zh_node ?h (addr z) = Some n \<and> z_obj n \<noteq> None \<and> rd (z_level n) 0 = Some (fwd 0 c)" if "es = b @ z # c" for b z c
    using Cons.prems(1) [of "e # b" z c] Cons.prems(2) that by auto
  then have "zslFree_loop ?h (fst (fwd 0 es)) = Some (?h\<lparr>zh_node := \<lambda>a. if a \<in> addr ` set es then None else zh_node ?h a\<rparr>)"
    using Cons.IH Cons.prems(2,3) by simp
  moreover have "(\<lambda>a. if a \<in> addr ` set es then None else zh_node ?h a) = (\<lambda>a. if a \<in> addr ` set (e # es) then None else zh_node h a)" by auto
  moreover have "fst (fwd 0 (e # es)) = Some (addr e)" using Cons.prems(3) by simp
  ultimately show ?case using n by (subst zslFree_loop.simps) (auto simp: get_level_def zslFreeNode_def zfree_def)
qed

text \<open>Releasing a skip list releases all of its nodes and no other.\<close>

lemma zslFree_frees:
  assumes r: "zrep h zsl es"
  shows "\<exists>h'. zslFree h zsl = Some h' \<and> zh_brk h' = zh_brk h \<and> (\<forall>a. zh_node h' a = (if a \<in> set (zsl_header zsl # map addr es) then None else zh_node h a))"
proof -
  let ?h = "h\<lparr>zh_node := (zh_node h)(zsl_header zsl := None)\<rparr>"
  have d: "distinct (zsl_header zsl # map addr es)" by (rule zrepD(5) [OF r])
  have "\<exists>n. zh_node ?h (addr e) = Some n \<and> z_obj n \<noteq> None \<and> rd (z_level n) 0 = Some (fwd 0 c)" if e: "es = b @ e # c" for b e c
  proof -
    obtain n where n: "zh_node h (addr e) = Some n" "node_ok e b n" using zrepD(3) [OF r e] by blast
    have "get_level h (addr e) 0 = Some (fwd 0 c)" using get_level_0 [of h zsl "b @ [e]" c] r e by simp
    then show ?thesis using n d e by (auto simp: node_ok_def get_level_def)
  qed
  then have "zslFree_loop ?h (fst (fwd 0 es)) = Some (?h\<lparr>zh_node := \<lambda>a. if a \<in> addr ` set es then None else zh_node ?h a\<rparr>)"
    by (rule zslFree_loop_frees) (use d zrepD(11) [OF r] in auto)
  moreover obtain n where "zh_node h (zsl_header zsl) = Some n" using zrepD(4) [OF r] by blast
  ultimately show ?thesis using get_level_0 [of h zsl "[]" es] r by (simp add: zslFree_def zfree_def)
qed

end
