(* ===== verification/DictSize.thy ===== *)
theory DictSize
  imports Dict
begin

text \<open>
  The size of a dictionary and the decision to shrink it, which the commands on sets and sorted
  sets share: \<open>htNeedsResize\<close> of \<open>redis.c\<close> and its use after a deletion.
\<close>

definition htNeedsResize :: "('k, 'v) dict \<Rightarrow> bool" where
  "htNeedsResize d =
     (let size = dictSlots d; used = dictSize d in
      size \<noteq> 0 \<and> used \<noteq> 0 \<and> size > DICT_HT_INITIAL_SIZE \<and> used * 100 div size < 10)"

definition resize_dict :: "bool \<Rightarrow> ('k, 'v) dict \<Rightarrow> ('k, 'v) dict option" where
  "resize_dict cr d = (if htNeedsResize d then map_option fst (dictResize cr d) else Some d)"

lemma dictSize_entries:
  assumes "dict_inv T d"
  shows "dictSize d = length (entries d)"
proof -
  have u: "ht_used ht = length (tbl ht)" if "ht_ok T ht" for ht :: "('a, 'b) dictht"
    using that by (auto simp: ht_ok_def tbl_def dictReset_def split: option.splits)
  have "ht_used (d_ht0 d) + ht_used (d_ht1 d) = length (entries d)"
    using assms u [of "d_ht0 d"] u [of "d_ht1 d"] by (simp add: dict_inv_def entries_def)
  moreover have "length (entries d) \<le> 1073741824" using assms by (simp add: dict_inv_def DICT_CAP_def)
  ultimately show ?thesis by (simp add: dictSize_def)
qed

lemma dictSize_rep: "dict_rep (plainType hf) d m \<Longrightarrow> dictSize d = card (dom m)"
  using dictSize_entries [of "plainType hf" d] entries_card(1) [of hf d m] by (simp add: dict_rep_def)

lemma dictResize_rep:
  assumes "dict_rep T d m"
  shows "\<exists>d' r. dictResize cr d = Some (d', r) \<and> dict_rep T d' m"
proof (cases "\<not> cr \<or> dictIsRehashing d")
  case True
  then show ?thesis using assms by (auto simp: dictResize_def)
next
  case False
  have inv: "dict_inv T d" using assms by (simp add: dict_rep_def)
  have "ht_used (d_ht0 d) = length (tbl (d_ht0 d))" using inv by (auto simp: dict_inv_def ht_ok_def tbl_def dictReset_def split: option.splits)
  then have used: "ht_used (d_ht0 d) \<le> 1073741824" using inv by (simp add: dict_inv_def entries_def DICT_CAP_def)
  then have s: "sgn_of 32 (ht_used (d_ht0 d)) = int (ht_used (d_ht0 d))" by (simp add: sgn_of_def)
  obtain d' where "dictExpand d (max 4 (ht_used (d_ht0 d))) = Some (d', DICT_OK)" "dict_inv T d'" "entries d' = entries d"
    using dictExpand_ok [OF inv, of "max 4 (ht_used (d_ht0 d))"] False used by auto
  moreover have "nat (if int (ht_used (d_ht0 d)) < 4 then 4 else int (ht_used (d_ht0 d))) = max 4 (ht_used (d_ht0 d))" by auto
  ultimately show ?thesis using False assms by (auto simp: dictResize_def s Let_def DICT_HT_INITIAL_SIZE_def dict_rep_def max_def split: if_splits)
qed

lemma resize_dict_rep: "dict_rep T d m \<Longrightarrow> \<exists>d'. resize_dict cr d = Some d' \<and> dict_rep T d' m"
  using dictResize_rep [of T d m cr] by (auto simp: resize_dict_def)

end
