(* ===== verification/Zset.thy ===== *)
theory Zset
  imports SkiplistSpec DictSize
begin

text \<open>
  Sorted sets with the skip list encoding, from \<open>t_zset.c\<close>: a dictionary from the objects to the
  scores and a skip list, kept together by the commands.  The values of the dictionary are
  pointers to the scores in the nodes of the skip list.  The definitions are the branches of the
  commands for this encoding, after the key has been looked up; a reply is a value.  The sum of
  two scores is the argument \<open>dadd\<close>, \<open>None\<close> when it is not a number.
\<close>

section \<open>Commands\<close>

record zset =
  zs_dict :: "(bytes, nat) dict"
  zs_zsl :: zskiplist

datatype 's zreply = RInt int | RDouble 's | RNullBulk | RError string | RMulti "(bytes \<times> 's) list"

definition createZsetObject :: "zjunk \<Rightarrow> ('s::zero) zheap \<Rightarrow> ('s zheap \<times> zset) option" where
  "createZsetObject jk h = do { (h, zsl) \<leftarrow> zslCreate jk h; Some (h, \<lparr>zs_dict = dictCreate, zs_zsl = zsl\<rparr>) }"

definition freeZsetObject :: "'s zheap \<Rightarrow> zset \<Rightarrow> 's zheap option" where
  "freeZsetObject h zs = (let freed = dictRelease (zs_dict zs) in zslFree h (zs_zsl zs))"

definition zsetLength :: "zset \<Rightarrow> nat" where "zsetLength zs = u32 (zsl_length (zs_zsl zs))"

text \<open>\<open>*(double*)dictGetVal(de)\<close>\<close>

definition entry_score :: "'s zheap \<Rightarrow> (bytes, nat) dict \<Rightarrow> eloc \<Rightarrow> 's option" where
  "entry_score h d de = do { e \<leftarrow> get_entry d de; n \<leftarrow> zh_node h (snd e); Some (z_score n) }"

text \<open>One round of the loop of \<open>zaddGenericCommand\<close>.\<close>

datatype zoutcome = ZNan | ZSame | ZUpdated | ZAdded

definition zadd_one ::
  "(bytes, nat) dictType \<Rightarrow> bool \<Rightarrow> nat \<Rightarrow> zjunk \<Rightarrow> ('s \<Rightarrow> 's \<Rightarrow> 's option) \<Rightarrow> bool \<Rightarrow> nat list \<Rightarrow> ('s::linorder) zheap \<Rightarrow> zset \<Rightarrow> 's \<Rightarrow> bytes \<Rightarrow>
    ('s zheap \<times> zset \<times> 's \<times> zoutcome) option" where
  "zadd_one T cr jv jk dadd incr rs h zs score ele =
     do {
       (d, de) \<leftarrow> dictFind T (zs_dict zs) ele;
       case de of
         Some p \<Rightarrow>
           do {
             e \<leftarrow> get_entry d p;
             let curobj = fst e;
             curscore \<leftarrow> entry_score h d p;
             case (if incr then dadd score curscore else Some score) of
               None \<Rightarrow> Some (h, zs\<lparr>zs_dict := d\<rparr>, score, ZNan)
             | Some score \<Rightarrow>
                 if score \<noteq> curscore then
                   do {
                     (h, zsl, ok) \<leftarrow> zslDelete h (zs_zsl zs) curscore curobj;
                     if \<not> ok then None
                     else do {
                       (h, zsl, x) \<leftarrow> zslInsert jk rs h zsl score curobj;
                       d \<leftarrow> dictSetVal T d p x;
                       Some (h, \<lparr>zs_dict = d, zs_zsl = zsl\<rparr>, score, ZUpdated)
                     }
                   }
                 else Some (h, zs\<lparr>zs_dict := d\<rparr>, score, ZSame)
           }
       | None \<Rightarrow>
           do {
             (h, zsl, x) \<leftarrow> zslInsert jk rs h (zs_zsl zs) score ele;
             (d, r) \<leftarrow> dictAdd T cr jv d ele x;
             if r \<noteq> DICT_OK then None else Some (h, \<lparr>zs_dict = d, zs_zsl = zsl\<rparr>, score, ZAdded)
           }
     }"

fun zadd_loop ::
  "(bytes, nat) dictType \<Rightarrow> bool \<Rightarrow> nat \<Rightarrow> zjunk \<Rightarrow> ('s \<Rightarrow> 's \<Rightarrow> 's option) \<Rightarrow> bool \<Rightarrow> ('s::linorder) zheap \<Rightarrow> zset \<Rightarrow> nat \<Rightarrow> 's \<Rightarrow>
    (nat list \<times> 's \<times> bytes) list \<Rightarrow> ('s zheap \<times> zset \<times> 's zreply) option" where
  "zadd_loop T cr jv jk dadd incr h zs added score [] = Some (h, zs, if incr then RDouble score else RInt (int added))"
| "zadd_loop T cr jv jk dadd incr h zs added score ((rs, s, ele) # args) =
     do {
       (h, zs, score, r) \<leftarrow> zadd_one T cr jv jk dadd incr rs h zs s ele;
       if r = ZNan then Some (h, zs, RError ''resulting score is not a number (NaN)'')
       else zadd_loop T cr jv jk dadd incr h zs (if r = ZAdded then added + 1 else added) score args
     }"

definition zaddGenericCommand where
  "zaddGenericCommand T cr jv jk dadd incr h zs args = zadd_loop T cr jv jk dadd incr h zs 0 0 args"

text \<open>\<open>zremCommand\<close>; the flag says that the set is empty and the key is deleted.\<close>

fun zrem_loop ::
  "(bytes, nat) dictType \<Rightarrow> bool \<Rightarrow> ('s::linorder) zheap \<Rightarrow> zset \<Rightarrow> nat \<Rightarrow> bytes list \<Rightarrow> ('s zheap \<times> zset \<times> nat \<times> bool) option" where
  "zrem_loop T cr h zs deleted [] = Some (h, zs, deleted, False)"
| "zrem_loop T cr h zs deleted (ele # els) =
     do {
       (d, de) \<leftarrow> dictFind T (zs_dict zs) ele;
       case de of
         None \<Rightarrow> zrem_loop T cr h (zs\<lparr>zs_dict := d\<rparr>) deleted els
       | Some p \<Rightarrow>
           do {
             score \<leftarrow> entry_score h d p;
             (h, zsl, ok) \<leftarrow> zslDelete h (zs_zsl zs) score ele;
             if \<not> ok then None
             else do {
               (d, _) \<leftarrow> dictDelete T d ele;
               d \<leftarrow> resize_dict cr d;
               if dictSize d = 0 then Some (h, \<lparr>zs_dict = d, zs_zsl = zsl\<rparr>, deleted + 1, True)
               else zrem_loop T cr h \<lparr>zs_dict = d, zs_zsl = zsl\<rparr> (deleted + 1) els
             }
           }
     }"

definition zremCommand where
  "zremCommand T cr h zs els = do { (h, zs, deleted, keyremoved) \<leftarrow> zrem_loop T cr h zs 0 els; Some (h, zs, RInt (int deleted), keyremoved) }"

definition zcardCommand :: "zset \<Rightarrow> 's zreply" where "zcardCommand zs = RInt (int (zsetLength zs))"

definition zscoreCommand :: "(bytes, nat) dictType \<Rightarrow> 's zheap \<Rightarrow> zset \<Rightarrow> bytes \<Rightarrow> (zset \<times> 's zreply) option" where
  "zscoreCommand T h zs ele =
     do {
       (d, de) \<leftarrow> dictFind T (zs_dict zs) ele;
       case de of
         None \<Rightarrow> Some (zs\<lparr>zs_dict := d\<rparr>, RNullBulk)
       | Some p \<Rightarrow> do { score \<leftarrow> entry_score h d p; Some (zs\<lparr>zs_dict := d\<rparr>, RDouble score) }
     }"

definition zrankGenericCommand :: "(bytes, nat) dictType \<Rightarrow> bool \<Rightarrow> ('s::linorder) zheap \<Rightarrow> zset \<Rightarrow> bytes \<Rightarrow> (zset \<times> 's zreply) option" where
  "zrankGenericCommand T reverse h zs ele =
     do {
       let llen = zsetLength zs;
       (d, de) \<leftarrow> dictFind T (zs_dict zs) ele;
       case de of
         None \<Rightarrow> Some (zs\<lparr>zs_dict := d\<rparr>, RNullBulk)
       | Some p \<Rightarrow>
           do {
             score \<leftarrow> entry_score h d p;
             rank \<leftarrow> zslGetRank h (zs_zsl zs) score ele;
             if rank = 0 then None
             else Some (zs\<lparr>zs_dict := d\<rparr>, RInt (if reverse then int llen - int rank else int rank - 1))
           }
     }"

text \<open>The indexes of a range of ranks, \<open>None\<close> when it is empty.\<close>

definition sanitize :: "int \<Rightarrow> int \<Rightarrow> int \<Rightarrow> (int \<times> int) option" where
  "sanitize llen start stop =
     (let start = (if start < 0 then llen + start else start);
          stop = (if stop < 0 then llen + stop else stop);
          start = (if start < 0 then 0 else start)
      in if start > stop \<or> start \<ge> llen then None
         else Some (start, if stop \<ge> llen then llen - 1 else stop))"

fun zrange_loop :: "bool \<Rightarrow> 's zheap \<Rightarrow> nat option \<Rightarrow> nat \<Rightarrow> (bytes \<times> 's) list option" where
  "zrange_loop reverse h ln 0 = Some []"
| "zrange_loop reverse h ln (Suc n) =
     do {
       x \<leftarrow> ln;
       m \<leftarrow> zh_node h x;
       obj \<leftarrow> z_obj m;
       next' \<leftarrow> (if reverse then Some (z_backward m) else map_option fst (rd (z_level m) 0));
       rest \<leftarrow> zrange_loop reverse h next' n;
       Some ((obj, z_score m) # rest)
     }"

definition zrangeGenericCommand :: "bool \<Rightarrow> 's zheap \<Rightarrow> zset \<Rightarrow> int \<Rightarrow> int \<Rightarrow> 's zreply option" where
  "zrangeGenericCommand reverse h zs start stop =
     (let llen = sgn_of 32 (zsetLength zs); zsl = zs_zsl zs in
      case sanitize llen start stop of
        None \<Rightarrow> Some (RMulti [])
      | Some (start, stop) \<Rightarrow>
          do {
            ln \<leftarrow> (if reverse then
                     if start > 0 then zslGetElementByRank h zsl (nat (llen - start)) else Some (zsl_tail zsl)
                   else if start > 0 then zslGetElementByRank h zsl (nat (start + 1))
                   else map_option fst (get_level h (zsl_header zsl) 0));
            els \<leftarrow> zrange_loop reverse h ln (nat (stop - start + 1));
            Some (RMulti els)
          })"

text \<open>\<open>zcountCommand\<close> and \<open>zlexcountCommand\<close> differ in the functions that give the ends of the range.\<close>

definition count_range :: "('s::linorder) zheap \<Rightarrow> zskiplist \<Rightarrow> nat option option \<Rightarrow> nat option option \<Rightarrow> 's zreply option" where
  "count_range h zsl first lst =
     do {
       zn \<leftarrow> first;
       case zn of
         None \<Rightarrow> Some (RInt 0)
       | Some x \<Rightarrow>
           do {
             n \<leftarrow> zh_node h x;
             obj \<leftarrow> z_obj n;
             rank \<leftarrow> zslGetRank h zsl (z_score n) obj;
             let count = s32 (int (zsl_length zsl) - (int rank - 1));
             zn \<leftarrow> lst;
             case zn of
               None \<Rightarrow> Some (RInt count)
             | Some y \<Rightarrow>
                 do {
                   n \<leftarrow> zh_node h y;
                   obj \<leftarrow> z_obj n;
                   rank \<leftarrow> zslGetRank h zsl (z_score n) obj;
                   Some (RInt (s32 (count - (int (zsl_length zsl) - int rank))))
                 }
           }
     }"

definition zcountCommand :: "('s::linorder) zheap \<Rightarrow> zset \<Rightarrow> 's zrangespec \<Rightarrow> 's zreply option" where
  "zcountCommand h zs rng =
     (let zsl = zs_zsl zs in count_range h zsl (zslFirstInRange h zsl rng) (zslLastInRange h zsl rng))"

definition zlexcountCommand :: "('s::linorder) zheap \<Rightarrow> zset \<Rightarrow> zlexrangespec \<Rightarrow> 's zreply option" where
  "zlexcountCommand h zs rng =
     (let zsl = zs_zsl zs in count_range h zsl (zslFirstInLexRange h zsl rng) (zslLastInLexRange h zsl rng))"

text \<open>
  The loops of \<open>genericZrangebyscoreCommand\<close> and \<open>genericZrangebylexCommand\<close>: over the elements
  of the offset, and over the reply until the limit is reached or the test of the node fails.
  The reply of \<open>genericZrangebylexCommand\<close> has only the objects.  The counters are integers: they
  are decremented once per element, so they leave the range of a long only when they start at
  its lower end.
\<close>

definition zstep :: "bool \<Rightarrow> 's zskiplistNode \<Rightarrow> nat option option" where
  "zstep reverse n = (if reverse then Some (z_backward n) else map_option fst (rd (z_level n) 0))"

partial_function (option) zskip_loop :: "bool \<Rightarrow> 's zheap \<Rightarrow> nat option \<Rightarrow> int \<Rightarrow> nat option option" where
  "zskip_loop reverse h ln offset =
     (case ln of
        None \<Rightarrow> Some None
      | Some x \<Rightarrow>
          if offset = 0 then Some (Some x)
          else do { n \<leftarrow> zh_node h x; next' \<leftarrow> zstep reverse n; zskip_loop reverse h next' (offset - 1) })"

partial_function (option) zemit_loop ::
  "bool \<Rightarrow> ('s zskiplistNode \<Rightarrow> bool option) \<Rightarrow> 's zheap \<Rightarrow> nat option \<Rightarrow> int \<Rightarrow> (bytes \<times> 's) list option" where
  "zemit_loop reverse inr h ln limit =
     (case ln of
        None \<Rightarrow> Some []
      | Some x \<Rightarrow>
          if limit = 0 then Some []
          else do {
            n \<leftarrow> zh_node h x;
            c \<leftarrow> inr n;
            if \<not> c then Some []
            else do {
              obj \<leftarrow> z_obj n;
              next' \<leftarrow> zstep reverse n;
              rest \<leftarrow> zemit_loop reverse inr h next' (limit - 1);
              Some ((obj, z_score n) # rest)
            }
          })"

definition zrange_from where
  "zrange_from reverse inr h ln offset limit =
     (case ln of
        None \<Rightarrow> Some (RMulti [])
      | Some x \<Rightarrow> do { ln \<leftarrow> zskip_loop reverse h (Some x) offset; els \<leftarrow> zemit_loop reverse inr h ln limit; Some (RMulti els) })"

definition genericZrangebyscoreCommand ::
  "bool \<Rightarrow> ('s::linorder) zheap \<Rightarrow> zset \<Rightarrow> 's zrangespec \<Rightarrow> int \<Rightarrow> int \<Rightarrow> 's zreply option" where
  "genericZrangebyscoreCommand reverse h zs rng offset limit =
     do {
       let zsl = zs_zsl zs;
       ln \<leftarrow> (if reverse then zslLastInRange h zsl rng else zslFirstInRange h zsl rng);
       zrange_from reverse (\<lambda>n. Some (if reverse then zslValueGteMin (z_score n) rng else zslValueLteMax (z_score n) rng)) h ln offset limit
     }"

definition genericZrangebylexCommand ::
  "bool \<Rightarrow> ('s::linorder) zheap \<Rightarrow> zset \<Rightarrow> zlexrangespec \<Rightarrow> int \<Rightarrow> int \<Rightarrow> 's zreply option" where
  "genericZrangebylexCommand reverse h zs rng offset limit =
     do {
       let zsl = zs_zsl zs;
       ln \<leftarrow> (if reverse then zslLastInLexRange h zsl rng else zslFirstInLexRange h zsl rng);
       zrange_from reverse
         (\<lambda>n. do { obj \<leftarrow> z_obj n; Some (if reverse then zslLexValueGteMin obj rng else zslLexValueLteMax obj rng) }) h ln offset limit
     }"

text \<open>\<open>zremrangeGenericCommand\<close> for ranges of ranks and of scores.\<close>

datatype 's zrange_arg = ZRANGE_RANK int int | ZRANGE_SCORE "'s zrangespec" | ZRANGE_LEX zlexrangespec

definition zremrangeGenericCommand ::
  "(bytes, nat) dictType \<Rightarrow> bool \<Rightarrow> ('s::linorder) zheap \<Rightarrow> zset \<Rightarrow> 's zrange_arg \<Rightarrow> ('s zheap \<times> zset \<times> 's zreply \<times> bool) option" where
  "zremrangeGenericCommand T cr h zs rng =
     (let zsl = zs_zsl zs; d = zs_dict zs;
          fin = (\<lambda>(h, zsl, d, deleted). do {
                   d \<leftarrow> resize_dict cr d;
                   Some (h, \<lparr>zs_dict = d, zs_zsl = zsl\<rparr>, RInt (int deleted), dictSize d = 0)
                 })
      in case rng of
        ZRANGE_RANK start stop \<Rightarrow>
          (case sanitize (int (zsetLength zs)) start stop of
             None \<Rightarrow> Some (h, zs, RInt 0, False)
           | Some (start, stop) \<Rightarrow> zslDeleteRangeByRank T h zsl (u32 (nat (start + 1))) (u32 (nat (stop + 1))) d \<bind> fin)
      | ZRANGE_SCORE r \<Rightarrow> zslDeleteRangeByScore T h zsl r d \<bind> fin
      | ZRANGE_LEX r \<Rightarrow> zslDeleteRangeByLex T h zsl r d \<bind> fin)"

section \<open>The dictionary of a sorted set\<close>

text \<open>What a sorted set in memory holds: the entries of its skip list, in both structures.\<close>

definition zs_ok :: "(bytes \<Rightarrow> nat) \<Rightarrow> ('s::linorder) zheap \<Rightarrow> zset \<Rightarrow> 's zent list \<Rightarrow> bool" where
  "zs_ok hf h zs es \<longleftrightarrow> zrep h (zs_zsl zs) es \<and> zsorted es \<and> dict_rep (plainType hf) (zs_dict zs) (zmap es)"

lemma zmap_card: "zsorted es \<Longrightarrow> card (dom (zmap es)) = length es"
proof -
  assume "zsorted es"
  then have "distinct (map eobj es)" by (simp add: zsorted_def)
  moreover have "dom (zmap es) = set (map eobj es)" by (force simp: zmap_def dom_map_of_conv_image_fst)
  ultimately show ?thesis using distinct_card by fastforce
qed

lemma zfind_absent:
  assumes "zs_ok hf h zs es" "ele \<notin> eobj ` set es"
  shows "\<exists>d. dictFind (plainType hf) (zs_dict zs) ele = Some (d, None) \<and> zs_ok hf h (zs\<lparr>zs_dict := d\<rparr>) es"
proof -
  have z: "zmap es ele = None" using assms(2) zmap_dom by blast
  obtain d p where "dictFind (plainType hf) (zs_dict zs) ele = Some (d, p)" "dict_rep (plainType hf) d (zmap es)" "loc_ok (plainType hf) d (zmap es) ele p"
    using dictFind_rep [OF plainType_ok, of hf "zs_dict zs" "zmap es" ele] assms(1) by (auto simp: zs_ok_def)
  then show ?thesis using z assms(1) by (cases p) (auto simp: loc_ok_def zs_ok_def)
qed

lemma zfind_present:
  assumes "zs_ok hf h zs (xs @ e # ys)"
  shows "\<exists>d p. dictFind (plainType hf) (zs_dict zs) (eobj e) = Some (d, Some p) \<and> zs_ok hf h (zs\<lparr>zs_dict := d\<rparr>) (xs @ e # ys) \<and>
    get_entry d p = Some (eobj e, addr e) \<and> entry_score h d p = Some (escore e) \<and>
    (\<forall>v. \<exists>d'. dictSetVal (plainType hf) d p v = Some d' \<and> dict_rep (plainType hf) d' ((zmap (xs @ e # ys))(eobj e \<mapsto> v)))"
proof -
  let ?T = "plainType hf" and ?m = "zmap (xs @ e # ys)"
  have r: "zrep h (zs_zsl zs) (xs @ e # ys)" and s: "zsorted (xs @ e # ys)" using assms by (simp_all add: zs_ok_def)
  have z: "?m (eobj e) = Some (addr e)" by (rule zmap_at) (use s in \<open>simp add: zsorted_def\<close>)
  obtain d p where d: "dictFind ?T (zs_dict zs) (eobj e) = Some (d, p)" "dict_rep ?T d ?m" "loc_ok ?T d ?m (eobj e) p"
    using dictFind_rep [OF plainType_ok, of hf "zs_dict zs" ?m "eobj e"] assms by (auto simp: zs_ok_def)
  then obtain t i j tb where tb: "p = Some (t, i, j)" "t \<le> 1" "ht_table (get_ht d t) = Some tb" "i < length tb" "j < length (tb ! i)"
     "fst (tb ! i ! j) = eobj e" "snd (tb ! i ! j) = addr e"
    using z by (cases p) (auto simp: loc_ok_def)
  have g: "get_entry d (t, i, j) = Some (eobj e, addr e)" using tb by (simp add: get_entry_def rd_in prod_eq_iff)
  obtain n where "zh_node h (addr e) = Some n" "node_ok e xs n" using zrepD(3) [OF r refl] by blast
  then have es: "entry_score h d (t, i, j) = Some (escore e)" using g by (simp add: entry_score_def node_ok_def)
  have inv: "dict_inv ?T d" and m: "?m = lookup ?T (entries d)" using d(2) by (auto simp: dict_rep_def)
  have "\<exists>d'. dictSetVal ?T d (t, i, j) v = Some d' \<and> dict_rep ?T d' (?m(eobj e \<mapsto> v))" for v
  proof -
    have k: "dictCompareKeys ?T (eobj e) (fst (tb ! i ! j))" using tb(6) by simp
    obtain d' where "dictSetVal ?T d (t, i, j) v = Some d'" "dict_inv ?T d'"
       "\<forall>k'. lookup ?T (entries d') k' = (if dictCompareKeys ?T k' (eobj e) then Some (dup_val ?T v) else lookup ?T (entries d) k')"
      using dictSetVal_ok [OF inv plainType_ok tb(3,4,5,2) k, of v] by auto
    then show ?thesis using m by (auto simp: dict_rep_def fun_eq_iff)
  qed
  then show ?thesis using d(1,2) tb(1) g es r s by (auto simp: zs_ok_def)
qed

section \<open>The commands on the entries\<close>

text \<open>A sorted set as a map from objects to scores, and its elements in order.\<close>

definition smap :: "'s zent list \<Rightarrow> bytes \<Rightarrow> 's option" where
  "smap es = map_of (map (\<lambda>e. (eobj e, escore e)) es)"

definition elems :: "(bytes \<Rightarrow> 's option) \<Rightarrow> (('s::linorder) \<times> bytes) list" where
  "elems m = sorted_list_of_set {(s, o'). m o' = Some s}"

lemma smap_dom: "smap es k = None \<longleftrightarrow> k \<notin> eobj ` set es"
  by (force simp: smap_def map_of_eq_None_iff)

lemma smap_Some: "distinct (map eobj es) \<Longrightarrow> smap es k = Some s \<longleftrightarrow> (s, k) \<in> ekey ` set es"
proof -
  assume "distinct (map eobj es)"
  then have "distinct (map fst (map (\<lambda>e. (eobj e, escore e)) es))" by (simp add: comp_def)
  then have "smap es k = Some s \<longleftrightarrow> (k, s) \<in> set (map (\<lambda>e. (eobj e, escore e)) es)" unfolding smap_def by (rule map_of_eq_Some_iff)
  also have "\<dots> \<longleftrightarrow> (s, k) \<in> ekey ` set es" by (auto simp: image_iff prod_eq_iff)
  finally show ?thesis .
qed

lemma elems_smap: "zsorted es \<Longrightarrow> elems (smap es) = map ekey es"
proof -
  assume s: "zsorted es"
  then have "distinct (map eobj es)" by (simp add: zsorted_def)
  then have "{(s, o'). smap es o' = Some s} = set (map ekey es)" using smap_Some [of es] by auto
  then show ?thesis using s sorted_list_of_set.idem_if_sorted_distinct [of "map ekey es"] by (simp add: elems_def zsorted_def strict_sorted_iff)
qed

lemma smap_insert: "eobj e \<notin> eobj ` set (xs @ ys) \<Longrightarrow> smap (xs @ e # ys) = (smap (xs @ ys))(eobj e \<mapsto> escore e)"
proof (rule ext)
  fix k
  assume d: "eobj e \<notin> eobj ` set (xs @ ys)"
  show "smap (xs @ e # ys) k = ((smap (xs @ ys))(eobj e \<mapsto> escore e)) k"
  proof (cases "k = eobj e")
    case True
    have "smap ys k = None" "smap xs k = None" using d True unfolding smap_dom by auto
    then show ?thesis using True by (simp add: smap_def map_add_def)
  next
    case False
    then show ?thesis by (auto simp: smap_def map_add_def split: option.splits)
  qed
qed

lemma smap_remove: "distinct (map eobj (xs @ e # ys)) \<Longrightarrow> smap (xs @ ys) = (smap (xs @ e # ys))(eobj e := None)"
proof -
  assume d: "distinct (map eobj (xs @ e # ys))"
  then have n: "eobj e \<notin> eobj ` set (xs @ ys)" by auto
  then have "smap (xs @ ys) (eobj e) = None" using smap_dom by blast
  then show ?thesis unfolding smap_insert [OF n] by (simp add: fun_upd_idem)
qed

lemma zs_split:
  assumes "zsorted es" "ele \<in> eobj ` set es"
  obtains xs e ys where "es = xs @ e # ys" "eobj e = ele" "smap es ele = Some (escore e)"
proof -
  obtain e where e: "e \<in> set es" "eobj e = ele" using assms(2) by auto
  obtain xs ys where "es = xs @ e # ys" using split_list [OF e(1)] by blast
  moreover have "smap es ele = Some (escore e)" using assms(1) e smap_Some [of es ele "escore e"] by (auto simp: zsorted_def image_iff prod_eq_iff)
  ultimately show ?thesis using that e(2) by blast
qed

lemma zadd_one_ok:
  fixes h :: "('s::linorder) zheap"
  assumes ok: "zs_ok hf h zs es" and o: "length ele < 2 ^ 31" and lv: "zslRandomLevel rs = Some lv" and len: "length es < DICT_CAP"
    and ns: "(if incr then case smap es ele of None \<Rightarrow> Some score | Some s \<Rightarrow> dadd score s else Some score) = Some s'"
  shows "\<exists>h' zs' es' r. zadd_one (plainType hf) cr jv jk dadd incr rs h zs score ele = Some (h', zs', s', r) \<and> r \<noteq> ZNan \<and>
    (r = ZAdded \<longleftrightarrow> smap es ele = None) \<and> zs_ok hf h' zs' es' \<and> smap es' = (smap es)(ele \<mapsto> s')"
proof (cases "ele \<in> eobj ` set es")
  case False
  let ?T = "plainType hf"
  have len32: "Suc (length es) < 2 ^ 32" using len by (simp add: DICT_CAP_def)
  have n: "smap es ele = None" using False smap_dom by blast
  then have s': "s' = score" using ns by (auto split: if_splits)
  obtain d where d: "dictFind ?T (zs_dict zs) ele = Some (d, None)" "zs_ok hf h (zs\<lparr>zs_dict := d\<rparr>) es" using zfind_absent [OF ok False] by blast
  have r: "zrep h (zs_zsl zs) es" "zsorted es" "dict_rep ?T d (zmap es)" using d(2) by (simp_all add: zs_ok_def)
  obtain h' zsl' x xs ys where i: "zslInsert jk rs h (zs_zsl zs) score ele = Some (h', zsl', x)" "es = xs @ ys"
    "zrep h' zsl' (xs @ Zent x lv (score, ele) # ys)" "zsorted (xs @ Zent x lv (score, ele) # ys)"
    using zslInsert_sorted [OF r(1,2) o False lv len32] by blast
  have z: "zmap es ele = None" using False zmap_dom by blast
  have c: "length (entries d) < DICT_CAP" using entries_card(1) [OF r(3)] zmap_card [OF r(2)] len by simp
  obtain d' where d': "dictAdd ?T cr jv d ele x = Some (d', DICT_OK)" "dict_rep ?T d' (put ?T (zmap es) ele x)"
    using dictAdd_rep [OF plainType_ok r(3) c, of cr jv ele x] z by auto
  have p: "put ?T (zmap es) ele x = zmap (xs @ Zent x lv (score, ele) # ys)"
    using zmap_insert [of "Zent x lv (score, ele)" xs ys] False i(2) by (auto simp: put_def fun_eq_iff)
  have "smap (xs @ Zent x lv (score, ele) # ys) = (smap es)(ele \<mapsto> score)" using smap_insert [of "Zent x lv (score, ele)" xs ys] False i(2) by auto
  then show ?thesis using d(1) i d' p n s' by (auto simp: zadd_one_def zs_ok_def)
next
  case True
  let ?T = "plainType hf"
  have so: "zsorted es" using ok by (simp add: zs_ok_def)
  obtain xs e ys where e: "es = xs @ e # ys" "eobj e = ele" "smap es ele = Some (escore e)" by (rule zs_split [OF so True])
  have ok': "zs_ok hf h zs (xs @ e # ys)" using ok e(1) by simp
  obtain d p where d: "dictFind ?T (zs_dict zs) ele = Some (d, Some p)" "zs_ok hf h (zs\<lparr>zs_dict := d\<rparr>) es"
    "get_entry d p = Some (ele, addr e)" "entry_score h d p = Some (escore e)"
    "\<And>v. \<exists>d'. dictSetVal ?T d p v = Some d' \<and> dict_rep ?T d' ((zmap es)(ele \<mapsto> v))"
    using zfind_present [OF ok'] e(1,2) by auto
  have r: "zrep h (zs_zsl zs) es" using ok by (simp add: zs_ok_def)
  have sc: "(if incr then dadd score (escore e) else Some score) = Some s'" using ns e(3) by auto
  show ?thesis
  proof (cases "s' = escore e")
    case True
    have "smap es = (smap es)(ele \<mapsto> s')" using e(3) True by auto
    moreover have "zadd_one ?T cr jv jk dadd incr rs h zs score ele = Some (h, zs\<lparr>zs_dict := d\<rparr>, s', ZSame)"
      using d(1,3,4) sc True by (simp add: zadd_one_def Let_def)
    ultimately show ?thesis using d(2) e(3) by (intro exI [of _ h] exI [of _ "zs\<lparr>zs_dict := d\<rparr>"] exI [of _ es] exI [of _ ZSame]) simp
  next
    case False
    have k: "ekey e = (escore e, ele)" using e(2) by (simp add: prod_eq_iff)
    obtain h1 zsl1 where del: "zslDelete h (zs_zsl zs) (escore e) ele = Some (h1, zsl1, True)" "zrep h1 zsl1 (xs @ ys)" "zsorted (xs @ ys)"
      using zslDelete_sorted(2) [OF r so o e(1) k] by blast
    have dist: "distinct (map eobj (xs @ e # ys))" using so e(1) by (simp add: zsorted_def)
    then have no: "ele \<notin> eobj ` set (xs @ ys)" using e(2) by auto
    have len32: "Suc (length (xs @ ys)) < 2 ^ 32" using len e(1) by (simp add: DICT_CAP_def)
    obtain h' zsl' x us vs where i: "zslInsert jk rs h1 zsl1 s' ele = Some (h', zsl', x)" "xs @ ys = us @ vs"
      "zrep h' zsl' (us @ Zent x lv (s', ele) # vs)" "zsorted (us @ Zent x lv (s', ele) # vs)"
      using zslInsert_sorted [OF del(2,3) o no lv len32] by blast
    obtain d' where d': "dictSetVal ?T d p x = Some d'" "dict_rep ?T d' ((zmap es)(ele \<mapsto> x))" using d(5) by blast
    have "(zmap es)(ele \<mapsto> x) = (zmap (xs @ ys))(ele \<mapsto> x)" using zmap_remove [OF dist] e(1,2) by (metis fun_upd_upd)
    moreover have "zmap (us @ Zent x lv (s', ele) # vs) = (zmap (xs @ ys))(ele \<mapsto> x)"
      using zmap_insert [of "Zent x lv (s', ele)" us vs] no i(2) by simp
    moreover have "smap (us @ Zent x lv (s', ele) # vs) = (smap es)(ele \<mapsto> s')"
      using smap_insert [of "Zent x lv (s', ele)" us vs] no i(2) smap_remove [OF dist] e(1,2) by simp
    moreover have "zadd_one ?T cr jv jk dadd incr rs h zs score ele = Some (h', \<lparr>zs_dict = d', zs_zsl = zsl'\<rparr>, s', ZUpdated)"
      using d(1,3,4) sc False del(1) i(1) d'(1) by (simp add: zadd_one_def Let_def)
    ultimately show ?thesis using i(3,4) d'(2) e(3)
      by (intro exI [of _ h'] exI [of _ "\<lparr>zs_dict = d', zs_zsl = zsl'\<rparr>"] exI [of _ "us @ Zent x lv (s', ele) # vs"] exI [of _ ZUpdated]) (simp add: zs_ok_def)
  qed
qed

text \<open>The commands that read.\<close>

lemma zscore_ok:
  assumes ok: "zs_ok hf h zs es"
  shows "\<exists>zs'. zscoreCommand (plainType hf) h zs ele = Some (zs', case smap es ele of None \<Rightarrow> RNullBulk | Some s \<Rightarrow> RDouble s) \<and> zs_ok hf h zs' es"
proof (cases "ele \<in> eobj ` set es")
  case True
  have so: "zsorted es" using ok by (simp add: zs_ok_def)
  obtain xs e ys where e: "es = xs @ e # ys" "eobj e = ele" "smap es ele = Some (escore e)" by (rule zs_split [OF so True])
  then show ?thesis using zfind_present [of hf h zs xs e ys] ok by (auto simp: zscoreCommand_def)
next
  case False
  then have "smap es ele = None" using smap_dom by blast
  then show ?thesis using zfind_absent [OF ok False] by (auto simp: zscoreCommand_def)
qed

lemma rank_counts:
  assumes "zsorted (xs @ e # ys)"
  shows "card {k \<in> set (map ekey (xs @ e # ys)). k < ekey e} = length xs" "card {k \<in> set (map ekey (xs @ e # ys)). ekey e < k} = length ys"
proof -
  have s: "sorted_wrt (<) (map ekey xs @ ekey e # map ekey ys)" using assms by (simp add: zsorted_def)
  then have d: "distinct (map ekey xs)" "distinct (map ekey ys)" by (auto simp: sorted_wrt_append strict_sorted_iff)
  have e: "{k \<in> set (map ekey (xs @ e # ys)). k < ekey e} = set (map ekey xs)" "{k \<in> set (map ekey (xs @ e # ys)). ekey e < k} = set (map ekey ys)"
    using s by (auto simp: sorted_wrt_append dest: less_asym)
  show "card {k \<in> set (map ekey (xs @ e # ys)). k < ekey e} = length xs" unfolding e(1) distinct_card [OF d(1)] by simp
  show "card {k \<in> set (map ekey (xs @ e # ys)). ekey e < k} = length ys" unfolding e(2) distinct_card [OF d(2)] by simp
qed

lemma zrank_ok:
  assumes ok: "zs_ok hf h zs es" and o: "length ele < 2 ^ 31"
  shows "\<exists>zs'. zrankGenericCommand (plainType hf) reverse h zs ele = Some (zs', case smap es ele of None \<Rightarrow> RNullBulk
      | Some s \<Rightarrow> RInt (int (card {k \<in> set (elems (smap es)). if reverse then (s, ele) < k else k < (s, ele)}))) \<and> zs_ok hf h zs' es"
proof (cases "ele \<in> eobj ` set es")
  case True
  have so: "zsorted es" and r: "zrep h (zs_zsl zs) es" using ok by (simp_all add: zs_ok_def)
  obtain xs e ys where e: "es = xs @ e # ys" "eobj e = ele" "smap es ele = Some (escore e)" by (rule zs_split [OF so True])
  have k: "ekey e = (escore e, ele)" using e(2) by (simp add: prod_eq_iff)
  have rank: "zslGetRank h (zs_zsl zs) (escore e) ele = Some (Suc (length xs))" using zslGetRank_sorted(1) [OF r so o e(1) k] .
  have l: "zsetLength zs = length xs + Suc (length ys)" using zrepD(7,8) [OF r] e(1) by (simp add: zsetLength_def)
  have c: "card {k \<in> set (elems (smap es)). if reverse then (escore e, ele) < k else k < (escore e, ele)} = (if reverse then length ys else length xs)"
    using rank_counts [of xs e ys] so e(1) k unfolding elems_smap [OF so] by simp
  show ?thesis using zfind_present [of hf h zs xs e ys] ok e rank l c by (auto simp: zrankGenericCommand_def Let_def)
next
  case False
  then have "smap es ele = None" using smap_dom by blast
  then show ?thesis using zfind_absent [OF ok False] by (auto simp: zrankGenericCommand_def Let_def)
qed

text \<open>A range of indexes, negative ones from the end.\<close>

definition index_of :: "nat \<Rightarrow> int \<Rightarrow> int" where
  "index_of n i = (if i < 0 then int n + i else i)"

definition slice :: "int \<Rightarrow> int \<Rightarrow> 'a list \<Rightarrow> 'a list" where
  "slice a b xs = map ((!) xs) (filter (\<lambda>i. index_of (length xs) a \<le> int i \<and> int i \<le> index_of (length xs) b) [0..<length xs])"

lemma map_nth_slice: "b \<le> length xs \<Longrightarrow> map ((!) xs) [a..<b] = take (b - a) (drop a xs)"
  by (rule nth_equalityI) auto

lemma slice_map: "slice a b (map f xs) = map f (slice a b xs)"
  by (simp add: slice_def)

lemma slice_sanitize:
  "slice a b xs = (case sanitize (int (length xs)) a b of None \<Rightarrow> [] | Some (i, j) \<Rightarrow> take (nat (j - i + 1)) (drop (nat i) xs))"
    (is "_ = ?r")
proof -
  let ?n = "length xs" and ?A = "index_of (length xs) a" and ?B = "index_of (length xs) b"
  let ?a = "nat ?A" and ?b = "nat (min (?B + 1) (int ?n))"
  have f: "filter (\<lambda>i. ?A \<le> int i \<and> int i \<le> ?B) [0..<?n] = [?a..<?b]"
  proof -
    have "filter (\<lambda>i. ?A \<le> int i \<and> int i \<le> ?B) [0..<?n] = filter (\<lambda>i. ?a \<le> i \<and> i < ?b) [0..<?n]"
      by (rule filter_cong) auto
    also have "\<dots> = [?a..<?b]"
    proof (rule sorted_distinct_set_unique)
      show "set (filter (\<lambda>i. ?a \<le> i \<and> i < ?b) [0..<?n]) = set [?a..<?b]" by auto
    qed (simp_all add: sorted_wrt_filter)
    finally show ?thesis .
  qed
  have "slice a b xs = map ((!) xs) [?a..<?b]" unfolding slice_def f ..
  also have "\<dots> = take (?b - ?a) (drop ?a xs)"
    by (rule map_nth_slice) simp
  also have "\<dots> = ?r"
  proof (cases "sanitize (int ?n) a b")
    case None
    then have "?b \<le> ?a \<or> ?n \<le> ?a" by (auto simp: sanitize_def Let_def index_of_def split: if_splits)
    then show ?thesis using None by auto
  next
    case (Some p)
    obtain i j where p: "p = (i, j)" by fastforce
    have "i = int ?a" "j + 1 = int ?b" "?a < ?b" using Some p by (auto simp: sanitize_def Let_def index_of_def min_def split: if_splits)
    then have "nat i = ?a" "nat (j - i + 1) = ?b - ?a" by linarith+
    then show ?thesis using Some p by (simp only: option.case prod.case)
  qed
  finally show ?thesis .
qed

text \<open>The elements of a range of ranks.\<close>

lemma last_take_nth: "0 < n \<Longrightarrow> n \<le> length xs \<Longrightarrow> last (take n xs) = xs ! (n - 1)"
  by (cases n) (simp_all add: take_Suc_conv_app_nth)

lemma zrange_forward:
  "zrep h zsl (b @ c) \<Longrightarrow> n \<le> length c \<Longrightarrow> zrange_loop False h (fst (fwd 0 c)) n = Some (map (\<lambda>e. (eobj e, escore e)) (take n c))"
proof (induction n arbitrary: b c)
  case (Suc n)
  then obtain e c' where c: "c = e # c'" by (cases c) auto
  have r: "zrep h zsl (b @ e # c')" using Suc.prems(1) c by simp
  obtain m where m: "zh_node h (addr e) = Some m" "node_ok e b m" using zrepD(3) [OF r refl] by blast
  have "get_level h (addr e) 0 = Some (fwd 0 c')" using get_level_0 [of h zsl "b @ [e]" c'] r by simp
  then have l: "rd (z_level m) 0 = Some (fwd 0 c')" using m(1) by (simp add: get_level_def)
  have "zrange_loop False h (fst (fwd 0 c')) n = Some (map (\<lambda>e. (eobj e, escore e)) (take n c'))"
    using Suc.IH [of "b @ [e]" c'] r Suc.prems(2) c by simp
  then show ?case using zrep_first [OF r] m l c by (simp add: node_ok_def)
qed simp

lemma zrange_backward:
  "zrep h zsl (b @ c) \<Longrightarrow> n \<le> length b \<Longrightarrow> zrange_loop True h (back_at b) n = Some (map (\<lambda>e. (eobj e, escore e)) (take n (rev b)))"
proof (induction n arbitrary: b c)
  case (Suc n)
  then obtain b' e where b: "b = b' @ [e]" by (cases b rule: rev_cases) auto
  have r: "zrep h zsl (b' @ e # c)" using Suc.prems(1) b by simp
  obtain m where m: "zh_node h (addr e) = Some m" "node_ok e b' m" using zrepD(3) [OF r refl] by blast
  have "zrange_loop True h (back_at b') n = Some (map (\<lambda>e. (eobj e, escore e)) (take n (rev b')))"
    using Suc.IH [of b' "e # c"] r Suc.prems(2) b by simp
  then show ?case using m b by (simp add: node_ok_def)
qed simp

lemma sanitize_range: "sanitize n a b = Some (i, j) \<Longrightarrow> 0 \<le> i \<and> i \<le> j \<and> j < n"
  by (auto simp: sanitize_def Let_def split: if_splits)

lemma zrange_ok:
  assumes ok: "zs_ok hf h zs es" and len: "length es \<le> DICT_CAP"
  shows "zrangeGenericCommand reverse h zs a b =
    Some (RMulti (map (\<lambda>k. (snd k, fst k)) (slice a b (if reverse then rev (elems (smap es)) else elems (smap es)))))"
proof -
  have r: "zrep h (zs_zsl zs) es" and so: "zsorted es" using ok by (simp_all add: zs_ok_def)
  let ?zsl = "zs_zsl zs" and ?n = "length es" and ?p = "\<lambda>e. (eobj e, escore e)"
  let ?xs = "if reverse then rev es else es"
  have l: "sgn_of 32 (zsetLength zs) = int ?n" using zrepD(7) [OF r] len by (simp add: zsetLength_def sgn_of_def DICT_CAP_def Let_def)
  have sl: "map (\<lambda>k. (snd k, fst k)) (slice a b (if reverse then rev (elems (smap es)) else elems (smap es))) = map ?p (slice a b ?xs)"
  proof -
    have "(if reverse then rev (elems (smap es)) else elems (smap es)) = map ekey ?xs" unfolding elems_smap [OF so] by (simp add: rev_map)
    then show ?thesis by (simp add: slice_map comp_def)
  qed
  show ?thesis
  proof (cases "sanitize (int ?n) a b")
    case None
    then show ?thesis unfolding sl using slice_sanitize [of a b ?xs] l by (simp add: zrangeGenericCommand_def Let_def)
  next
    case (Some q)
    obtain i j where q: "q = (i, j)" by fastforce
    have ij: "0 \<le> i" "i \<le> j" "j < int ?n" using sanitize_range Some q by auto
    define k where "k = nat i"
    define m where "m = nat (j - i + 1)"
    have km: "i = int k" "k < ?n" "m \<le> ?n - k" using ij by (auto simp: k_def m_def)
    have s: "slice a b ?xs = take m (drop k ?xs)" using slice_sanitize [of a b ?xs] Some q by (simp add: k_def m_def)
    show ?thesis
    proof (cases reverse)
      case True
      have bk: "(if i > 0 then zslGetElementByRank h ?zsl (nat (int ?n - i)) else Some (zsl_tail ?zsl)) = Some (back_at (take (?n - k) es))"
      proof (cases "k = 0")
        case True
        then show ?thesis using zrepD(6) [OF r] km by simp
      next
        case False
        have "last (take (?n - k) es) = es ! (?n - k - 1)" "take (?n - k) es \<noteq> []" using km by (simp add: last_take_nth, cases es, simp_all)
        then show ?thesis using zslGetElementByRank_sorted(1) [OF r, of "?n - k"] False km by (simp add: back_at_def nat_diff_distrib)
      qed
      have "zrange_loop True h (back_at (take (?n - k) es)) m = Some (map ?p (take m (rev (take (?n - k) es))))"
        by (rule zrange_backward [of h ?zsl _ "drop (?n - k) es"]) (use r km in simp_all)
      moreover have "rev (take (?n - k) es) = drop k (rev es)" using rev_drop km(2) by (metis drop_rev)
      ultimately show ?thesis unfolding sl s using Some q l bk True by (simp add: zrangeGenericCommand_def Let_def m_def)
    next
      case False
      have fw: "(if i > 0 then zslGetElementByRank h ?zsl (nat (i + 1)) else map_option fst (get_level h (zsl_header ?zsl) 0)) = Some (fst (fwd 0 (drop k es)))"
      proof (cases "k = 0")
        case True
        then show ?thesis using get_level_0 [of h ?zsl "[]" es] r km by simp
      next
        case False
        have d: "drop k es = es ! k # drop (Suc k) es" using km(2) by (rule drop_nth_Cons)
        have "fst (fwd 0 (drop k es)) = Some (addr (es ! k))"
          using zrep_first [of h ?zsl "take k es" "es ! k" "drop (Suc k) es"] r d by (metis append_take_drop_id)
        then show ?thesis using zslGetElementByRank_sorted(1) [OF r, of "Suc k"] False km by (simp add: nat_add_distrib)
      qed
      have "zrange_loop False h (fst (fwd 0 (drop k es))) m = Some (map ?p (take m (drop k es)))"
        by (rule zrange_forward [of h ?zsl "take k es"]) (use r km in simp_all)
      then show ?thesis unfolding sl s using Some q l fw False by (simp add: zrangeGenericCommand_def Let_def m_def)
    qed
  qed
qed

text \<open>A sorted list of entries with a range cut out of its middle.\<close>

lemma score_split:
  assumes "zsorted es"
  shows "es = filter (\<lambda>e. \<not> zslValueGteMin (escore e) rng) es @ filter (in_range rng) es @ filter (\<lambda>e. zslValueGteMin (escore e) rng \<and> \<not> zslValueLteMax (escore e) rng) es"
proof -
  have sk: "sorted_wrt (<) (map ekey es)" using assms by (simp add: zsorted_def)
  show ?thesis using scores.below_split [OF sk, of rng] scores.range_split(1) [OF sk, of rng, unfolded scores_inside] by simp
qed

lemma lex_split:
  assumes "sorted_wrt (<) (map eobj es)"
  shows "es = filter (\<lambda>e. \<not> lex_ge rng (eobj e)) es @ filter (in_lex_range rng) es @ filter (\<lambda>e. lex_ge rng (eobj e) \<and> \<not> lex_le rng (eobj e)) es"
  using lexes.below_split [OF assms, of rng] lexes.range_split(1) [OF assms, of rng, unfolded lexes_inside] by simp

lemma find_mid:
  assumes "es = xs @ mid @ ys" "\<forall>e\<in>set xs. \<not> P e" "\<forall>e\<in>set mid. P e" "\<forall>e\<in>set ys. \<not> P e"
  shows "find P es = (if mid = [] then None else Some (hd mid))" "find P (rev es) = (if mid = [] then None else Some (last mid))"
proof -
  show "find P es = (if mid = [] then None else Some (hd mid))"
    using assms find_skip [OF assms(2), of "mid @ ys"] by (cases mid) (simp_all add: find_None_iff)
  have "find P (rev ys @ rev mid @ rev xs) = find P (rev mid @ rev xs)" by (rule find_skip) (use assms(4) in simp)
  then show "find P (rev es) = (if mid = [] then None else Some (last mid))"
    using assms by (cases mid rule: rev_cases) (simp_all add: find_None_iff)
qed

lemma count_range_ok:
  assumes ok: "zs_ok hf h zs es" and len: "length es \<le> DICT_CAP" and e3: "es = xs @ mid @ ys"
  shows "count_range h (zs_zsl zs) (Some (map_option addr (if mid = [] then None else Some (hd mid))))
      (Some (map_option addr (if mid = [] then None else Some (last mid)))) = Some (RInt (int (length mid)))"
proof (cases "mid = []")
  case False
  have r: "zrep h (zs_zsl zs) es" and so: "zsorted es" using ok by (simp_all add: zs_ok_def)
  define e e' where "e = hd mid" and "e' = last mid"
  have es: "es = xs @ e # tl mid @ ys" "es = (xs @ butlast mid) @ e' # ys"
  proof -
    have "e # tl mid = mid" using False by (simp add: e_def)
    then show "es = xs @ e # tl mid @ ys" using e3 by (metis append_Cons)
    have "butlast mid @ [e'] = mid" using False by (simp add: e'_def)
    then show "es = (xs @ butlast mid) @ e' # ys" using e3 by (metis append.assoc append_Cons append_Nil)
  qed
  then have i: "e \<in> set es" "e' \<in> set es" using False e3 by (auto simp: e_def e'_def)
  have o: "length (eobj e) < 2 ^ 31" "length (eobj e') < 2 ^ 31" using so i by (auto simp: zsorted_def)
  obtain n where n: "zh_node h (addr e) = Some n" "node_ok e xs n" using zrepD(3) [OF r es(1)] by blast
  obtain n' where n': "zh_node h (addr e') = Some n'" "node_ok e' (xs @ butlast mid) n'" using zrepD(3) [OF r es(2)] by blast
  have rk: "zslGetRank h (zs_zsl zs) (escore e) (eobj e) = Some (Suc (length xs))" by (rule zslGetRank_sorted(1) [OF r so o(1) es(1)]) simp
  have rk': "zslGetRank h (zs_zsl zs) (escore e') (eobj e') = Some (Suc (length (xs @ butlast mid)))" by (rule zslGetRank_sorted(1) [OF r so o(2) es(2)]) simp
  have ln: "zsl_length (zs_zsl zs) = length es" by (rule zrepD(7) [OF r])
  obtain k where m: "length mid = Suc k" using False by (cases mid) simp_all
  have le: "int (length es) \<le> 1073741824" "length xs + length mid \<le> length es" using len arg_cong [OF e3, of length] by (simp_all add: DICT_CAP_def)
  have c1: "s32 (int (length es) - (int (Suc (length xs)) - 1)) = int (length es) - int (length xs)" using le by (subst s32_id) simp_all
  have c2: "s32 (int (length es) - int (length xs) - (int (length es) - int (Suc (length (xs @ butlast mid))))) = int (length mid)"
    using le m by (subst s32_id) simp_all
  have nn: "z_obj n = Some (eobj e)" "z_score n = escore e" "z_obj n' = Some (eobj e')" "z_score n' = escore e'" using n(2) n'(2) by (simp_all add: node_ok_def)
  show ?thesis
    unfolding count_range_def Let_def if_not_P [OF False] e_def [symmetric] e'_def [symmetric] option.map bind.bind_lunit option.case n(1) n'(1) ln nn rk rk' c1 c2 ..
qed (simp add: count_range_def)

lemma zcount_ok:
  assumes ok: "zs_ok hf h zs es" and len: "length es \<le> DICT_CAP"
  shows "zcountCommand h zs rng = Some (RInt (int (length (filter (in_range rng) es))))"
proof -
  have r: "zrep h (zs_zsl zs) es" and so: "zsorted es" using ok by (simp_all add: zs_ok_def)
  note e3 = score_split [OF so, of rng]
  have f: "find (in_range rng) es = (if filter (in_range rng) es = [] then None else Some (hd (filter (in_range rng) es)))"
    "find (in_range rng) (rev es) = (if filter (in_range rng) es = [] then None else Some (last (filter (in_range rng) es)))"
    by (rule find_mid [OF e3]; auto simp: in_range_def)+
  show ?thesis unfolding zcountCommand_def Let_def zslFirstInRange_sorted [OF r so, of rng] zslLastInRange_sorted [OF r so, of rng] f
    by (rule count_range_ok [OF ok len e3])
qed

lemma zlexcount_ok:
  assumes ok: "zs_ok hf h zs es" and len: "length es \<le> DICT_CAP" and lx: "sorted_wrt (<) (map eobj es)"
    and sm: "lex_small (zl_min rng)" "lex_small (zl_max rng)" "\<not> lex_glitch rng"
  shows "zlexcountCommand h zs rng = Some (RInt (int (length (filter (in_lex_range rng) es))))"
proof -
  have r: "zrep h (zs_zsl zs) es" and so: "zsorted es" using ok by (simp_all add: zs_ok_def)
  note e3 = lex_split [OF lx, of rng]
  have f: "find (in_lex_range rng) es = (if filter (in_lex_range rng) es = [] then None else Some (hd (filter (in_lex_range rng) es)))"
    "find (in_lex_range rng) (rev es) = (if filter (in_lex_range rng) es = [] then None else Some (last (filter (in_lex_range rng) es)))"
    by (rule find_mid [OF e3]; auto simp: in_lex_range_def)+
  show ?thesis unfolding zlexcountCommand_def Let_def zslFirstInLexRange_sorted [OF r so lx sm] zslLastInLexRange_sorted [OF r so lx sm] f
    by (rule count_range_ok [OF ok len e3])
qed

text \<open>The commands that delete.\<close>

lemma zrem_loop_ok:
  assumes "zs_ok hf h zs es" "es \<noteq> []" "\<forall>ele\<in>set els. length ele < 2 ^ 31"
  shows "\<exists>h' zs' es'. zrem_loop (plainType hf) cr h zs k els = Some (h', zs', k + card (dom (smap es) \<inter> set els), es' = []) \<and>
    zs_ok hf h' zs' es' \<and> smap es' = smap es |` (- set els)"
  using assms
proof (induction els arbitrary: h zs es k)
  case Nil
  then show ?case by (auto intro!: exI [of _ es])
next
  case (Cons ele els)
  let ?T = "plainType hf"
  have pr: "\<forall>ele\<in>set els. length ele < 2 ^ 31" using Cons.prems(3) by simp
  show ?case
  proof (cases "ele \<in> eobj ` set es")
    case False
    have n: "ele \<notin> dom (smap es)" using False smap_dom by (metis domIff)
    obtain d where d: "dictFind ?T (zs_dict zs) ele = Some (d, None)" "zs_ok hf h (zs\<lparr>zs_dict := d\<rparr>) es"
      using zfind_absent [OF Cons.prems(1) False] by blast
    obtain h' zs' es' where i: "zrem_loop ?T cr h (zs\<lparr>zs_dict := d\<rparr>) k els = Some (h', zs', k + card (dom (smap es) \<inter> set els), es' = [])"
      "zs_ok hf h' zs' es'" "smap es' = smap es |` (- set els)"
      using Cons.IH [OF d(2) Cons.prems(2) pr, of k] by blast
    have "dom (smap es) \<inter> set (ele # els) = dom (smap es) \<inter> set els" "smap es |` (- set (ele # els)) = smap es |` (- set els)"
      using n by (auto simp: restrict_map_def fun_eq_iff)
    then show ?thesis using d(1) i by auto
  next
    case True
    have so: "zsorted es" and r: "zrep h (zs_zsl zs) es" using Cons.prems(1) by (simp_all add: zs_ok_def)
    obtain xs e ys where e: "es = xs @ e # ys" "eobj e = ele" "smap es ele = Some (escore e)" by (rule zs_split [OF so True])
    have k: "ekey e = (escore e, ele)" using e(2) by (simp add: prod_eq_iff)
    obtain d p where d: "dictFind ?T (zs_dict zs) ele = Some (d, Some p)" "zs_ok hf h (zs\<lparr>zs_dict := d\<rparr>) es" "entry_score h d p = Some (escore e)"
      using zfind_present [of hf h zs xs e ys] Cons.prems(1) e(1,2) by auto
    have o: "length ele < 2 ^ 31" using Cons.prems(3) by simp
    obtain h1 zsl1 where del: "zslDelete h (zs_zsl zs) (escore e) ele = Some (h1, zsl1, True)" "zrep h1 zsl1 (xs @ ys)" "zsorted (xs @ ys)"
      using zslDelete_sorted(2) [OF r so o e(1) k] by blast
    have dist: "distinct (map eobj (xs @ e # ys))" using so e(1) by (simp add: zsorted_def)
    have dr: "dict_rep ?T d (zmap es)" using d(2) by (simp add: zs_ok_def)
    obtain d1 r1 where d1: "dictDelete ?T d ele = Some (d1, r1)" "dict_rep ?T d1 (zmap (xs @ ys))"
      using zdict_delete [OF dr, of ele] zmap_remove [OF dist] e(1,2) by auto
    obtain d2 where d2: "resize_dict cr d1 = Some d2" "dict_rep ?T d2 (zmap (xs @ ys))" using resize_dict_rep [OF d1(2)] by blast
    let ?zs = "\<lparr>zs_dict = d2, zs_zsl = zsl1\<rparr>"
    have ok: "zs_ok hf h1 ?zs (xs @ ys)" using del(2,3) d2(2) by (simp add: zs_ok_def)
    have sz: "dictSize d2 = length (xs @ ys)" using dictSize_rep [OF d2(2)] zmap_card [OF del(3)] by simp
    have sm: "smap (xs @ ys) = (smap es)(ele := None)" using smap_remove [OF dist] e(1,2) by simp
    have fin: "finite (dom (smap es))" by (simp add: smap_def finite_dom_map_of)
    have c: "card (dom (smap es) \<inter> set (ele # els)) = Suc (card (dom (smap (xs @ ys)) \<inter> set els))"
    proof -
      have "dom (smap es) \<inter> set (ele # els) = insert ele (dom (smap (xs @ ys)) \<inter> set els)" using e(3) unfolding sm by auto
      moreover have "ele \<notin> dom (smap (xs @ ys)) \<inter> set els" unfolding sm by simp
      moreover have "finite (dom (smap (xs @ ys)) \<inter> set els)" by simp
      ultimately show ?thesis by simp
    qed
    have rm: "smap (xs @ ys) |` (- set els) = smap es |` (- set (ele # els))" unfolding sm by (auto simp: restrict_map_def fun_eq_iff)
    have step: "zrem_loop ?T cr h zs k (ele # els) =
        (if xs @ ys = [] then Some (h1, ?zs, k + 1, True) else zrem_loop ?T cr h1 ?zs (k + 1) els)"
      using d(1,3) del(1) d1(1) d2(1) sz by auto
    show ?thesis
    proof (cases "xs @ ys = []")
      case True
      then have "smap (xs @ ys) = Map.empty" by (simp add: smap_def)
      then have "smap es |` (- set (ele # els)) = Map.empty" "card (dom (smap es) \<inter> set (ele # els)) = 1" unfolding rm [symmetric] c by simp_all
      then show ?thesis using step True ok by (intro exI [of _ h1] exI [of _ ?zs] exI [of _ "[]"]) (auto simp: smap_def)
    next
      case False
      obtain h' zs' es' where i: "zrem_loop ?T cr h1 ?zs (k + 1) els = Some (h', zs', k + 1 + card (dom (smap (xs @ ys)) \<inter> set els), es' = [])"
        "zs_ok hf h' zs' es'" "smap es' = smap (xs @ ys) |` (- set els)"
        using Cons.IH [OF ok False pr, of "k + 1"] by blast
      have "zrem_loop ?T cr h zs k (ele # els) = Some (h', zs', k + card (dom (smap es) \<inter> set (ele # els)), es' = [])"
        unfolding step if_not_P [OF False] c i(1) by simp
      then show ?thesis using i(2,3) unfolding rm by blast
    qed
  qed
qed

lemma zremrange_fin:
  assumes "zrep h zsl es" "zsorted es" "dict_rep (plainType hf) d (zmap es)"
  shows "\<exists>d'. resize_dict cr d = Some d' \<and> zs_ok hf h \<lparr>zs_dict = d', zs_zsl = zsl\<rparr> es \<and> (dictSize d' = 0 \<longleftrightarrow> es = [])"
proof -
  obtain d' where d': "resize_dict cr d = Some d'" "dict_rep (plainType hf) d' (zmap es)" using resize_dict_rep [OF assms(3)] by blast
  have "dictSize d' = length es" using dictSize_rep [OF d'(2)] zmap_card [OF assms(2)] by simp
  then show ?thesis using d' assms by (simp add: zs_ok_def)
qed

lemma zremrange_score_ok:
  assumes "zs_ok hf h zs es"
  shows "\<exists>h' zs' es'. zremrangeGenericCommand (plainType hf) cr h zs (ZRANGE_SCORE rng) =
      Some (h', zs', RInt (int (length (filter (in_range rng) es))), es' = []) \<and> zs_ok hf h' zs' es' \<and> es' = filter (\<lambda>e. \<not> in_range rng e) es"
proof -
  let ?es = "filter (\<lambda>e. \<not> in_range rng e) es"
  obtain h' zsl' d' where z: "zslDeleteRangeByScore (plainType hf) h (zs_zsl zs) rng (zs_dict zs) = Some (h', zsl', d', length (filter (in_range rng) es))"
    "zrep h' zsl' ?es" "zsorted ?es" "dict_rep (plainType hf) d' (zmap ?es)"
    using zslDeleteRangeByScore_sorted [of h "zs_zsl zs" es hf "zs_dict zs" rng] assms by (auto simp: zs_ok_def)
  obtain d2 where d2: "resize_dict cr d' = Some d2" "zs_ok hf h' \<lparr>zs_dict = d2, zs_zsl = zsl'\<rparr> ?es" "dictSize d2 = 0 \<longleftrightarrow> ?es = []"
    using zremrange_fin [OF z(2-4), of cr] by (elim exE conjE)
  have "zremrangeGenericCommand (plainType hf) cr h zs (ZRANGE_SCORE rng) =
      Some (h', \<lparr>zs_dict = d2, zs_zsl = zsl'\<rparr>, RInt (int (length (filter (in_range rng) es))), ?es = [])"
    unfolding zremrangeGenericCommand_def Let_def zrange_arg.case z(1) bind.bind_lunit prod.case d2(1) d2(3) ..
  then show ?thesis using d2(2) by blast
qed

lemma zremrange_lex_ok:
  assumes "zs_ok hf h zs es" "sorted_wrt (<) (map eobj es)" "lex_small (zl_min rng)" "lex_small (zl_max rng)"
  shows "\<exists>h' zs' es'. zremrangeGenericCommand (plainType hf) cr h zs (ZRANGE_LEX rng) =
      Some (h', zs', RInt (int (length (filter (in_lex_range rng) es))), es' = []) \<and> zs_ok hf h' zs' es' \<and> es' = filter (\<lambda>e. \<not> in_lex_range rng e) es"
proof -
  let ?es = "filter (\<lambda>e. \<not> in_lex_range rng e) es"
  have r: "zrep h (zs_zsl zs) es" "zsorted es" "dict_rep (plainType hf) (zs_dict zs) (zmap es)" using assms(1) by (simp_all add: zs_ok_def)
  obtain h' zsl' d' where z: "zslDeleteRangeByLex (plainType hf) h (zs_zsl zs) rng (zs_dict zs) = Some (h', zsl', d', length (filter (in_lex_range rng) es))"
    "zrep h' zsl' ?es" "zsorted ?es" "dict_rep (plainType hf) d' (zmap ?es)"
    using zslDeleteRangeByLex_sorted [OF r assms(2-4)] by blast
  obtain d2 where d2: "resize_dict cr d' = Some d2" "zs_ok hf h' \<lparr>zs_dict = d2, zs_zsl = zsl'\<rparr> ?es" "dictSize d2 = 0 \<longleftrightarrow> ?es = []"
    using zremrange_fin [OF z(2-4), of cr] by (elim exE conjE)
  have "zremrangeGenericCommand (plainType hf) cr h zs (ZRANGE_LEX rng) =
      Some (h', \<lparr>zs_dict = d2, zs_zsl = zsl'\<rparr>, RInt (int (length (filter (in_lex_range rng) es))), ?es = [])"
    unfolding zremrangeGenericCommand_def Let_def zrange_arg.case z(1) bind.bind_lunit prod.case d2(1) d2(3) ..
  then show ?thesis using d2(2) by blast
qed

lemma zremrange_rank_ok:
  assumes ok: "zs_ok hf h zs es" and ne: "es \<noteq> []"
  shows "\<exists>h' zs' us vs. zremrangeGenericCommand (plainType hf) cr h zs (ZRANGE_RANK a b) =
      Some (h', zs', RInt (int (length (slice a b es))), us @ vs = []) \<and> zs_ok hf h' zs' (us @ vs) \<and> es = us @ slice a b es @ vs"
proof -
  let ?n = "length es"
  have r: "zrep h (zs_zsl zs) es" and so: "zsorted es" using ok by (simp_all add: zs_ok_def)
  have l: "zsetLength zs = ?n" "?n < 2 ^ 32" using zrepD(7,8) [OF r] by (simp_all add: zsetLength_def)
  show ?thesis
  proof (cases "sanitize (int ?n) a b")
    case None
    then have "slice a b es = []" using slice_sanitize [of a b es] by simp
    then show ?thesis using None ok ne l(1) by (intro exI [of _ h] exI [of _ zs] exI [of _ es] exI [of _ "[]"]) (simp add: zremrangeGenericCommand_def Let_def)
  next
    case (Some q)
    obtain i j where q: "q = (i, j)" by fastforce
    have ij: "0 \<le> i" "i \<le> j" "j < int ?n" using sanitize_range Some q by auto
    define s where "s = nat i"
    define t where "t = nat (j + 1)"
    have st: "i = int s" "j + 1 = int t" "s < t" "t \<le> ?n" using ij by (auto simp: s_def t_def)
    have sl: "slice a b es = take (t - s) (drop s es)"
    proof -
      have "nat (j - i + 1) = t - s" "nat i = s" using st by linarith+
      then show ?thesis using slice_sanitize [of a b es] Some q by (simp only: option.case prod.case)
    qed
    have e3: "es = take s es @ slice a b es @ drop t es"
    proof -
      have "drop s es = take (t - s) (drop s es) @ drop (t - s) (drop s es)" by (rule append_take_drop_id [symmetric])
      moreover have "drop (t - s) (drop s es) = drop t es" using st by simp
      ultimately show ?thesis unfolding sl by (metis append_take_drop_id)
    qed
    have u: "u32 (nat (i + 1)) = Suc s" "u32 (nat (j + 1)) = t"
    proof -
      have "nat (i + 1) = Suc s" "nat (j + 1) = t" using st by linarith+
      moreover have "Suc s < 2 ^ 32" "t < 2 ^ 32" using st(3,4) l(2) by linarith+
      ultimately show "u32 (nat (i + 1)) = Suc s" "u32 (nat (j + 1)) = t" by (simp_all only: u32_id)
    qed
    have c: "?n - length (take s es @ drop t es) = length (slice a b es)" using arg_cong [OF e3, of length] unfolding length_append by linarith
    have dr: "dict_rep (plainType hf) (zs_dict zs) (zmap es)" using ok by (simp add: zs_ok_def)
    obtain h' zsl' d' where z: "zslDeleteRangeByRank (plainType hf) h (zs_zsl zs) (Suc s) t (zs_dict zs) = Some (h', zsl', d', length (slice a b es))"
      "zrep h' zsl' (take s es @ drop t es)" "zsorted (take s es @ drop t es)" "dict_rep (plainType hf) d' (zmap (take s es @ drop t es))"
      using zslDeleteRangeByRank_sorted [OF r so dr, of "Suc s" t] st(3) c by auto
    obtain d2 where d2: "resize_dict cr d' = Some d2" "zs_ok hf h' \<lparr>zs_dict = d2, zs_zsl = zsl'\<rparr> (take s es @ drop t es)" "dictSize d2 = 0 \<longleftrightarrow> take s es @ drop t es = []"
      using zremrange_fin [OF z(2-4), of cr] by (elim exE conjE)
    have "zremrangeGenericCommand (plainType hf) cr h zs (ZRANGE_RANK a b) =
        Some (h', \<lparr>zs_dict = d2, zs_zsl = zsl'\<rparr>, RInt (int (length (slice a b es))), take s es @ drop t es = [])"
      unfolding zremrangeGenericCommand_def Let_def zrange_arg.case l(1) Some q option.case prod.case u z(1) bind.bind_lunit d2(1) d2(3) ..
    then show ?thesis using d2(2) e3 by blast
  qed
qed

end
