(* ===== verification/ZsetSpec.thy ===== *)
theory ZsetSpec
  imports Zset
begin

text \<open>
  What the commands on sorted sets reply, for any sequence of them on one key: the set is a map
  from objects to scores, created by the first addition and released with its last element, and
  the ordered commands see its elements sorted by score and object.  The ranges by string are
  treated at the end, with the case in which they go wrong.
\<close>

section \<open>Replies to ranges\<close>

text \<open>The nodes one meets from a pointer, forwards or backwards.\<close>

fun zpath :: "bool \<Rightarrow> 's zheap \<Rightarrow> nat option \<Rightarrow> 's zent list \<Rightarrow> bool" where
  "zpath reverse h p [] \<longleftrightarrow> p = None"
| "zpath reverse h p (e # es) \<longleftrightarrow> p = Some (addr e) \<and>
     (\<exists>n q. zh_node h (addr e) = Some n \<and> z_obj n = Some (eobj e) \<and> z_score n = escore e \<and> zstep reverse n = Some q \<and> zpath reverse h q es)"

lemma path_forward: "zrep h zsl (b @ c) \<Longrightarrow> zpath False h (fst (fwd 0 c)) c"
proof (induction c arbitrary: b)
  case (Cons e c)
  obtain n where n: "zh_node h (addr e) = Some n" "node_ok e b n" using zrepD(3) [OF Cons.prems refl] by blast
  have r: "zrep h zsl ((b @ [e]) @ c)" using Cons.prems by simp
  then have "get_level h (addr e) 0 = Some (fwd 0 c)" using get_level_0 [of h zsl "b @ [e]" c] by simp
  then have "zstep False n = Some (fst (fwd 0 c))" using n(1) by (simp add: get_level_def zstep_def)
  then show ?case using zrep_first [OF Cons.prems] n Cons.IH [OF r] by (simp add: node_ok_def)
qed simp

lemma path_backward: "zrep h zsl (b @ c) \<Longrightarrow> zpath True h (back_at b) (rev b)"
proof (induction b arbitrary: c rule: rev_induct)
  case (snoc e b)
  then have r: "zrep h zsl (b @ e # c)" by simp
  obtain n where n: "zh_node h (addr e) = Some n" "node_ok e b n" using zrepD(3) [OF r refl] by blast
  then have "zstep True n = Some (back_at b)" by (simp add: node_ok_def zstep_def)
  then show ?case using n snoc.IH [OF r] by (simp add: node_ok_def)
qed simp

definition limit_list :: "int \<Rightarrow> 'a list \<Rightarrow> 'a list" where
  "limit_list n xs = (if n < 0 then xs else take (nat n) xs)"

definition offset_list :: "int \<Rightarrow> 'a list \<Rightarrow> 'a list" where
  "offset_list n xs = (if n < 0 then [] else drop (nat n) xs)"

lemma limit_Cons [simp]: "limit_list n (x # xs) = (if n = 0 then [] else x # limit_list (n - 1) xs)" "limit_list n [] = []"
proof -
  have "nat n = Suc (nat (n - 1))" if "0 < n" using that by simp
  then show "limit_list n (x # xs) = (if n = 0 then [] else x # limit_list (n - 1) xs)" by (auto simp: limit_list_def)
qed (simp add: limit_list_def)

lemma offset_Cons [simp]: "offset_list n (x # xs) = (if n = 0 then x # xs else offset_list (n - 1) xs)" "offset_list n [] = []"
proof -
  have "nat n = Suc (nat (n - 1))" if "0 < n" using that by simp
  then show "offset_list n (x # xs) = (if n = 0 then x # xs else offset_list (n - 1) xs)" by (auto simp: offset_list_def)
qed (simp add: offset_list_def)

lemma zskip_path: "zpath reverse h p es \<Longrightarrow> \<exists>q. zskip_loop reverse h p n = Some q \<and> zpath reverse h q (offset_list n es)"
proof (induction es arbitrary: p n)
  case Nil
  then show ?case by (simp add: zskip_loop.simps)
next
  case (Cons e es)
  then show ?case by (cases "n = 0") (auto simp: zskip_loop.simps [of reverse h "Some (addr e)"])
qed

lemma zemit_path:
  assumes "zpath reverse h p es" "\<And>e n. e \<in> set es \<Longrightarrow> z_obj n = Some (eobj e) \<Longrightarrow> z_score n = escore e \<Longrightarrow> inr n = Some (P e)"
  shows "zemit_loop reverse inr h p lim = Some (map (\<lambda>e. (eobj e, escore e)) (limit_list lim (takeWhile P es)))"
  using assms
proof (induction es arbitrary: p lim)
  case Nil
  then show ?case by (simp add: zemit_loop.simps)
next
  case (Cons e es)
  obtain n q where n: "p = Some (addr e)" "zh_node h (addr e) = Some n" "z_obj n = Some (eobj e)" "z_score n = escore e" "zstep reverse n = Some q" "zpath reverse h q es"
    using Cons.prems(1) by auto
  have i: "inr n = Some (P e)" using Cons.prems(2) n(3,4) by simp
  have "zemit_loop reverse inr h q (lim - 1) = Some (map (\<lambda>e. (eobj e, escore e)) (limit_list (lim - 1) (takeWhile P es)))"
    by (rule Cons.IH [OF n(6)]) (use Cons.prems(2) in simp)
  then show ?case using n i by (simp add: zemit_loop.simps [of reverse inr h "Some (addr e)"])
qed

lemma offset_in_range:
  assumes "\<forall>e\<in>set mid. P e" "\<forall>e\<in>set ys. \<not> P e"
  shows "takeWhile P (offset_list n (mid @ ys)) = offset_list n mid"
proof -
  have "takeWhile P (drop k mid @ drop (k - length mid) ys) = drop k mid" for k
  proof -
    have "takeWhile P (drop (k - length mid) ys) = []" using assms(2) by (cases "drop (k - length mid) ys") (simp_all, metis in_set_dropD list.set_intros(1))
    then show ?thesis using assms(1) by (subst takeWhile_append2) (auto dest: in_set_dropD)
  qed
  then show ?thesis by (simp add: offset_list_def)
qed

text \<open>The range is a stretch of the elements, and the loop ends where the test fails first.\<close>

lemma zrange_from_ok:
  assumes r: "zrep h zsl es" and e3: "es = xs @ mid @ ys"
    and lo: "\<forall>e\<in>set xs. \<not> ge e" and md: "\<forall>e\<in>set mid. ge e \<and> le e" and hi: "\<forall>e\<in>set ys. \<not> le e"
    and inr: "\<And>e n. e \<in> set es \<Longrightarrow> z_obj n = Some (eobj e) \<Longrightarrow> z_score n = escore e \<Longrightarrow> inr n = Some (if reverse then ge e else le e)"
    and ln: "ln = map_option addr (if mid = [] then None else Some (if reverse then last mid else hd mid))"
  shows "zrange_from reverse inr h ln off lim =
    Some (RMulti (map (\<lambda>e. (eobj e, escore e)) (limit_list lim (offset_list off (if reverse then rev mid else mid)))))"
proof (cases "mid = []")
  case False
  let ?P = "\<lambda>e. if reverse then ge e else le e" and ?mid = "if reverse then rev mid else mid" and ?rest = "if reverse then rev xs else ys"
  have ms: "set (?mid @ ?rest) \<subseteq> set es" using e3 by auto
  have "zpath reverse h ln (?mid @ ?rest)"
  proof (cases reverse)
    case True
    have "back_at (xs @ mid) = ln" using ln False True by (simp add: back_at_def)
    then show ?thesis using path_backward [of h zsl "xs @ mid" ys] r e3 True by simp
  next
    case rv: False
    have "fst (fwd 0 (mid @ ys)) = ln" using ln False rv zrep_first [of h zsl xs "hd mid" "tl mid @ ys"] r e3 by (cases mid) simp_all
    then show ?thesis using path_forward [of h zsl xs "mid @ ys"] r e3 rv by simp
  qed
  then obtain q where q: "zskip_loop reverse h ln off = Some q" "zpath reverse h q (offset_list off (?mid @ ?rest))" using zskip_path by blast
  have os: "set (offset_list off (?mid @ ?rest)) \<subseteq> set es" using ms set_drop_subset [of "nat off" "?mid @ ?rest"] by (auto simp: offset_list_def simp del: drop_append)
  have tw: "takeWhile ?P (offset_list off (?mid @ ?rest)) = offset_list off ?mid"
    by (rule offset_in_range) (use lo md hi in auto)
  have "zemit_loop reverse inr h q lim = Some (map (\<lambda>e. (eobj e, escore e)) (limit_list lim (takeWhile ?P (offset_list off (?mid @ ?rest)))))"
    by (rule zemit_path [OF q(2)]) (use os inr in blast)
  then show ?thesis using q(1) ln False unfolding tw by (simp add: zrange_from_def)
qed (simp add: zrange_from_def ln)

lemma zrangebyscore_ok:
  assumes ok: "zs_ok hf h zs es"
  shows "genericZrangebyscoreCommand reverse h zs rng off lim =
    Some (RMulti (map (\<lambda>e. (eobj e, escore e)) (limit_list lim (offset_list off (filter (in_range rng) (if reverse then rev es else es))))))"
proof -
  have r: "zrep h (zs_zsl zs) es" and so: "zsorted es" using ok by (simp_all add: zs_ok_def)
  note e3 = score_split [OF so, of rng]
  let ?mid = "filter (in_range rng) es"
  have f: "find (in_range rng) es = (if ?mid = [] then None else Some (hd ?mid))"
    "find (in_range rng) (rev es) = (if ?mid = [] then None else Some (last ?mid))"
    by (rule find_mid [OF e3]; auto simp: in_range_def)+
  have ln: "(if reverse then zslLastInRange h (zs_zsl zs) rng else zslFirstInRange h (zs_zsl zs) rng) =
      Some (map_option addr (if ?mid = [] then None else Some (if reverse then last ?mid else hd ?mid)))"
    unfolding zslFirstInRange_sorted [OF r so, of rng] zslLastInRange_sorted [OF r so, of rng] f by auto
  have mid: "filter (in_range rng) (if reverse then rev es else es) = (if reverse then rev ?mid else ?mid)" by (simp add: rev_filter)
  show ?thesis unfolding genericZrangebyscoreCommand_def Let_def ln bind.bind_lunit mid
    by (rule zrange_from_ok [where ge = "\<lambda>e. zslValueGteMin (escore e) rng" and le = "\<lambda>e. zslValueLteMax (escore e) rng", OF r e3])
      (auto simp: in_range_def)
qed

lemma zrangebylex_ok:
  assumes ok: "zs_ok hf h zs es" and lx: "sorted_wrt (<) (map eobj es)"
    and sm: "lex_small (zl_min rng)" "lex_small (zl_max rng)" "\<not> lex_glitch rng"
  shows "genericZrangebylexCommand reverse h zs rng off lim =
    Some (RMulti (map (\<lambda>e. (eobj e, escore e)) (limit_list lim (offset_list off (filter (in_lex_range rng) (if reverse then rev es else es))))))"
proof -
  have r: "zrep h (zs_zsl zs) es" and so: "zsorted es" using ok by (simp_all add: zs_ok_def)
  note e3 = lex_split [OF lx, of rng]
  let ?mid = "filter (in_lex_range rng) es"
  have f: "find (in_lex_range rng) es = (if ?mid = [] then None else Some (hd ?mid))"
    "find (in_lex_range rng) (rev es) = (if ?mid = [] then None else Some (last ?mid))"
    by (rule find_mid [OF e3]; auto simp: in_lex_range_def)+
  have m: "zslLexValueGteMin (eobj e) rng \<longleftrightarrow> lex_ge rng (eobj e)" "zslLexValueLteMax (eobj e) rng \<longleftrightarrow> lex_le rng (eobj e)" if "e \<in> set es" for e
    using so that sm by (intro zslLexValue_meaning; simp add: zsorted_def)+
  have ln: "(if reverse then zslLastInLexRange h (zs_zsl zs) rng else zslFirstInLexRange h (zs_zsl zs) rng) =
      Some (map_option addr (if ?mid = [] then None else Some (if reverse then last ?mid else hd ?mid)))"
    unfolding zslFirstInLexRange_sorted [OF r so lx sm] zslLastInLexRange_sorted [OF r so lx sm] f by auto
  have mid: "filter (in_lex_range rng) (if reverse then rev es else es) = (if reverse then rev ?mid else ?mid)" by (simp add: rev_filter)
  show ?thesis unfolding genericZrangebylexCommand_def Let_def ln bind.bind_lunit mid
    by (rule zrange_from_ok [where ge = "\<lambda>e. lex_ge rng (eobj e)" and le = "\<lambda>e. lex_le rng (eobj e)", OF r e3])
      (auto simp: in_lex_range_def m)
qed

section \<open>The commands on a key\<close>

text \<open>
  The state of one key: the heap and the sorted set, if the key exists.  \<open>ZADD\<close> and \<open>ZINCRBY\<close>
  create the set (the server is configured with \<open>zset-max-ziplist-entries\<close> 0, so that it is a
  skip list from the start), \<open>ZREM\<close> and the deletions of ranges delete the key with its last
  element, and every other command has its reply for a key that does not exist.
\<close>

type_synonym 's zkey = "'s zheap \<times> zset option"

definition zadd_key ::
  "(bytes, nat) dictType \<Rightarrow> bool \<Rightarrow> nat \<Rightarrow> zjunk \<Rightarrow> ('s \<Rightarrow> 's \<Rightarrow> 's option) \<Rightarrow> bool \<Rightarrow> ('s::{linorder, zero}) zkey \<Rightarrow> (nat list \<times> 's \<times> bytes) list \<Rightarrow> ('s zkey \<times> 's zreply) option" where
  "zadd_key T cr jv jk dadd incr st args =
     do {
       (h, zs) \<leftarrow> (case snd st of None \<Rightarrow> createZsetObject jk (fst st) | Some zs \<Rightarrow> Some (fst st, zs));
       (h, zs, r) \<leftarrow> zaddGenericCommand T cr jv jk dadd incr h zs args;
       Some ((h, Some zs), r)
     }"

definition dbDelete_empty :: "'s zheap \<times> zset \<times> 's zreply \<times> bool \<Rightarrow> ('s zkey \<times> 's zreply) option" where
  "dbDelete_empty res =
     (case res of (h, zs, r, keyremoved) \<Rightarrow>
        if keyremoved then do { h \<leftarrow> freeZsetObject h zs; Some ((h, None), r) } else Some ((h, Some zs), r))"

definition lookup_key :: "'s zkey \<Rightarrow> 's zreply \<Rightarrow> ('s zheap \<Rightarrow> zset \<Rightarrow> ('s zkey \<times> 's zreply) option) \<Rightarrow> ('s zkey \<times> 's zreply) option" where
  "lookup_key st absent f = (case snd st of None \<Rightarrow> Some (st, absent) | Some zs \<Rightarrow> f (fst st) zs)"

datatype 's zop =
    ZAdd "(nat list \<times> 's \<times> bytes) list" | ZIncrBy "nat list" 's bytes | ZRem "bytes list" | ZCard | ZScore bytes | ZRank bool bytes
  | ZRange bool int int | ZRangeByScore bool "'s zrangespec" int int | ZCount "'s zrangespec"
  | ZRemRangeByScore "'s zrangespec" | ZRemRangeByRank int int

definition zperform ::
  "(bytes, nat) dictType \<Rightarrow> bool \<Rightarrow> nat \<Rightarrow> zjunk \<Rightarrow> ('s \<Rightarrow> 's \<Rightarrow> 's option) \<Rightarrow> ('s::{linorder, zero}) zkey \<Rightarrow> 's zop \<Rightarrow> ('s zkey \<times> 's zreply) option" where
  "zperform T cr jv jk dadd st oper =
     (let keep = (\<lambda>h res. do { (zs, r) \<leftarrow> res; Some ((h, Some zs), r) });
          same = (\<lambda>h zs res. do { r \<leftarrow> res; Some ((h, Some zs), r) }) in
      case oper of
        ZAdd args \<Rightarrow> zadd_key T cr jv jk dadd False st args
      | ZIncrBy rs s ele \<Rightarrow> zadd_key T cr jv jk dadd True st [(rs, s, ele)]
      | ZRem els \<Rightarrow> lookup_key st (RInt 0) (\<lambda>h zs. zremCommand T cr h zs els \<bind> dbDelete_empty)
      | ZCard \<Rightarrow> lookup_key st (RInt 0) (\<lambda>h zs. same h zs (Some (zcardCommand zs)))
      | ZScore ele \<Rightarrow> lookup_key st RNullBulk (\<lambda>h zs. keep h (zscoreCommand T h zs ele))
      | ZRank reverse ele \<Rightarrow> lookup_key st RNullBulk (\<lambda>h zs. keep h (zrankGenericCommand T reverse h zs ele))
      | ZRange reverse a b \<Rightarrow> lookup_key st (RMulti []) (\<lambda>h zs. same h zs (zrangeGenericCommand reverse h zs a b))
      | ZRangeByScore reverse rng off lim \<Rightarrow> lookup_key st (RMulti []) (\<lambda>h zs. same h zs (genericZrangebyscoreCommand reverse h zs rng off lim))
      | ZCount rng \<Rightarrow> lookup_key st (RInt 0) (\<lambda>h zs. same h zs (zcountCommand h zs rng))
      | ZRemRangeByScore rng \<Rightarrow> lookup_key st (RInt 0) (\<lambda>h zs. zremrangeGenericCommand T cr h zs (ZRANGE_SCORE rng) \<bind> dbDelete_empty)
      | ZRemRangeByRank a b \<Rightarrow> lookup_key st (RInt 0) (\<lambda>h zs. zremrangeGenericCommand T cr h zs (ZRANGE_RANK a b) \<bind> dbDelete_empty))"

fun run_zops :: "('c \<Rightarrow> 's zop \<Rightarrow> ('c \<times> 's zreply) option) \<Rightarrow> 'c \<Rightarrow> 's zop list \<Rightarrow> ('c \<times> 's zreply list) option" where
  "run_zops f st [] = Some (st, [])"
| "run_zops f st (oper # ops) = do { (st, r) \<leftarrow> f st oper; (st, rs) \<leftarrow> run_zops f st ops; Some (st, r # rs) }"

section \<open>Specification\<close>

text \<open>The commands on a map from objects to scores; \<open>elems\<close> is its graph sorted by score and object.\<close>

definition in_score :: "('s::linorder) zrangespec \<Rightarrow> 's \<Rightarrow> bool" where
  "in_score rng s \<longleftrightarrow> (zr_min rng < s \<or> zr_min rng = s \<and> \<not> zr_minex rng) \<and> (s < zr_max rng \<or> s = zr_max rng \<and> \<not> zr_maxex rng)"

definition reply_elems :: "('s \<times> bytes) list \<Rightarrow> 's zreply" where
  "reply_elems ks = RMulti (map (\<lambda>k. (snd k, fst k)) ks)"

definition zput :: "(bytes \<Rightarrow> 's option) \<Rightarrow> nat list \<times> 's \<times> bytes \<Rightarrow> bytes \<Rightarrow> 's option" where
  "zput m a = m(snd (snd a) \<mapsto> fst (snd a))"

definition spec_zop :: "('s \<Rightarrow> 's \<Rightarrow> 's option) \<Rightarrow> (bytes \<Rightarrow> ('s::linorder) option) \<Rightarrow> 's zop \<Rightarrow> (bytes \<Rightarrow> 's option) \<times> 's zreply" where
  "spec_zop dadd m oper =
     (case oper of
        ZAdd args \<Rightarrow> let m' = foldl zput m args in (m', RInt (int (card (dom m')) - int (card (dom m))))
      | ZIncrBy rs s ele \<Rightarrow>
          (case (case m ele of None \<Rightarrow> Some s | Some c \<Rightarrow> dadd s c) of
             None \<Rightarrow> (m, RError ''resulting score is not a number (NaN)'')
           | Some s' \<Rightarrow> (m(ele \<mapsto> s'), RDouble s'))
      | ZRem els \<Rightarrow> (m |` (- set els), RInt (int (card (dom m \<inter> set els))))
      | ZCard \<Rightarrow> (m, RInt (int (card (dom m))))
      | ZScore ele \<Rightarrow> (m, case m ele of None \<Rightarrow> RNullBulk | Some s \<Rightarrow> RDouble s)
      | ZRank reverse ele \<Rightarrow> (m, case m ele of None \<Rightarrow> RNullBulk
          | Some s \<Rightarrow> RInt (int (card {k \<in> set (elems m). if reverse then (s, ele) < k else k < (s, ele)})))
      | ZRange reverse a b \<Rightarrow> (m, reply_elems (slice a b (if reverse then rev (elems m) else elems m)))
      | ZRangeByScore reverse rng off lim \<Rightarrow>
          (m, reply_elems (limit_list lim (offset_list off (filter (\<lambda>k. in_score rng (fst k)) (if reverse then rev (elems m) else elems m)))))
      | ZCount rng \<Rightarrow> (m, RInt (int (length (filter (\<lambda>k. in_score rng (fst k)) (elems m)))))
      | ZRemRangeByScore rng \<Rightarrow>
          (\<lambda>k. case m k of None \<Rightarrow> None | Some s \<Rightarrow> if in_score rng s then None else Some s,
           RInt (int (length (filter (\<lambda>k. in_score rng (fst k)) (elems m)))))
      | ZRemRangeByRank a b \<Rightarrow> (m |` (- snd ` set (slice a b (elems m))), RInt (int (length (slice a b (elems m))))))"

fun spec_zops :: "('s \<Rightarrow> 's \<Rightarrow> 's option) \<Rightarrow> (bytes \<Rightarrow> ('s::linorder) option) \<Rightarrow> 's zop list \<Rightarrow> (bytes \<Rightarrow> 's option) \<times> 's zreply list" where
  "spec_zops dadd m [] = (m, [])"
| "spec_zops dadd m (oper # ops) = (let (m, r) = spec_zop dadd m oper; (m, rs) = spec_zops dadd m ops in (m, r # rs))"

text \<open>Objects are shorter than two gigabytes, and the random numbers of an insertion end.\<close>

definition pair_ok :: "nat list \<times> 's \<times> bytes \<Rightarrow> bool" where
  "pair_ok a \<longleftrightarrow> zslRandomLevel (fst a) \<noteq> None \<and> length (snd (snd a)) < 2 ^ 31"

definition zop_ok :: "'s zop \<Rightarrow> bool" where
  "zop_ok oper =
     (case oper of
        ZAdd args \<Rightarrow> args \<noteq> [] \<and> list_all pair_ok args
      | ZIncrBy rs s ele \<Rightarrow> pair_ok (rs, s, ele)
      | ZRem els \<Rightarrow> list_all (\<lambda>ele. length ele < 2 ^ 31) els
      | ZRank _ ele \<Rightarrow> length ele < 2 ^ 31
      | _ \<Rightarrow> True)"

definition zop_adds :: "'s zop \<Rightarrow> nat" where
  "zop_adds oper = (case oper of ZAdd args \<Rightarrow> length args | ZIncrBy _ _ _ \<Rightarrow> 1 | _ \<Rightarrow> 0)"

lemma card_foldl_zput: "finite (dom m) \<Longrightarrow> finite (dom (foldl zput m args)) \<and> card (dom (foldl zput m args)) \<le> card (dom m) + length args"
proof (induction args arbitrary: m)
  case (Cons a args)
  have "card (dom (zput m a)) \<le> Suc (card (dom m))" "finite (dom (zput m a))" using Cons.prems by (simp_all add: zput_def card_insert_if)
  then show ?case using Cons.IH [of "zput m a"] by auto
qed simp

lemma spec_zop_dom:
  assumes "finite (dom m)"
  shows "finite (dom (fst (spec_zop dadd m oper)))" "card (dom (fst (spec_zop dadd m oper))) \<le> card (dom m) + zop_adds oper"
proof -
  have sub: "finite (dom m') \<and> card (dom m') \<le> card (dom m)" if "dom m' \<subseteq> dom m" for m' :: "bytes \<Rightarrow> 'a option"
    using assms that by (simp add: finite_subset card_mono)
  have "finite (dom (fst (spec_zop dadd m oper))) \<and> card (dom (fst (spec_zop dadd m oper))) \<le> card (dom m) + zop_adds oper"
  proof (cases oper)
    case (ZAdd args)
    then show ?thesis using card_foldl_zput [OF assms, of args] by (simp add: spec_zop_def zop_adds_def Let_def)
  next
    case (ZIncrBy rs s ele)
    then show ?thesis using assms by (auto simp: spec_zop_def zop_adds_def card_insert_if split: option.splits)
  next
    case (ZRemRangeByScore rng)
    then have "dom (fst (spec_zop dadd m oper)) \<subseteq> dom m" by (auto simp: spec_zop_def split: option.splits if_splits)
    then show ?thesis using sub ZRemRangeByScore by (simp add: zop_adds_def)
  qed (use assms sub in \<open>auto simp: spec_zop_def zop_adds_def card_mono\<close>)
  then show "finite (dom (fst (spec_zop dadd m oper)))" "card (dom (fst (spec_zop dadd m oper))) \<le> card (dom m) + zop_adds oper" by auto
qed

lemma spec_zops_dom:
  "finite (dom m) \<Longrightarrow> finite (dom (fst (spec_zops dadd m ops)))"
  "finite (dom m) \<Longrightarrow> card (dom (fst (spec_zops dadd m ops))) \<le> card (dom m) + sum_list (map zop_adds ops)"
proof (induction ops arbitrary: m)
  case (Cons oper ops)
  {
    case (1 m)
    then show ?case using Cons.IH(1) [OF spec_zop_dom(1) [OF 1, of dadd oper]] by (simp add: case_prod_beta Let_def)
  next
    case (2 m)
    then show ?case using Cons.IH(2) [OF spec_zop_dom(1) [OF 2, of dadd oper]] spec_zop_dom(2) [OF 2, of dadd oper] by (simp add: case_prod_beta Let_def)
  }
qed simp_all

locale score_map =
  fixes perform :: "'c \<Rightarrow> ('s::linorder) zop \<Rightarrow> ('c \<times> 's zreply) option"
    and rep :: "'c \<Rightarrow> (bytes \<Rightarrow> 's option) \<Rightarrow> bool"
    and dadd :: "'s \<Rightarrow> 's \<Rightarrow> 's option"
    and cap :: nat
  assumes rep_finite: "rep st m \<Longrightarrow> finite (dom m)"
    and perform_rep: "rep st m \<Longrightarrow> zop_ok oper \<Longrightarrow> card (dom m) + zop_adds oper \<le> cap \<Longrightarrow>
      \<exists>st'. perform st oper = Some (st', snd (spec_zop dadd m oper)) \<and> rep st' (fst (spec_zop dadd m oper))"
begin

lemma run_zops_rep:
  assumes "rep st m" "list_all zop_ok ops" "card (dom m) + sum_list (map zop_adds ops) \<le> cap"
  shows "\<exists>st'. run_zops perform st ops = Some (st', snd (spec_zops dadd m ops)) \<and> rep st' (fst (spec_zops dadd m ops))"
  using assms
proof (induction ops arbitrary: st m)
  case (Cons oper ops)
  obtain st1 where st1: "perform st oper = Some (st1, snd (spec_zop dadd m oper))" "rep st1 (fst (spec_zop dadd m oper))"
    using perform_rep [OF Cons.prems(1), of oper] Cons.prems(2,3) by auto
  have "card (dom (fst (spec_zop dadd m oper))) + sum_list (map zop_adds ops) \<le> cap"
    using spec_zop_dom(2) [OF rep_finite [OF Cons.prems(1)], of dadd oper] Cons.prems(3) by simp
  then show ?case using Cons.IH [OF st1(2)] Cons.prems(2) st1(1) by (auto simp: case_prod_beta Let_def)
qed simp

end

section \<open>The commands implement the specification\<close>

lemma smap_card: "zsorted es \<Longrightarrow> card (dom (smap es)) = length es" "finite (dom (smap es))"
proof -
  assume "zsorted es"
  then have d: "distinct (map eobj es)" by (simp add: zsorted_def)
  have "dom (smap es) = set (map eobj es)" by (force simp: smap_def dom_map_of_conv_image_fst)
  then show "card (dom (smap es)) = length es" unfolding distinct_card [OF d] by (simp only: distinct_card [OF d] length_map)
qed (simp add: smap_def finite_dom_map_of)

lemma in_range_score: "in_range rng = (\<lambda>e. in_score rng (fst (ekey e)))"
  by (rule ext) (auto simp: in_range_def in_score_def zslValueGteMin_def zslValueLteMax_def)

lemma option_eqI: "(\<And>s. a = Some s \<longleftrightarrow> b = Some s) \<Longrightarrow> a = b"
  by (cases a; cases b) auto

lemma filter_range_map: "map ekey (filter (in_range rng) es) = filter (\<lambda>k. in_score rng (fst k)) (map ekey es)"
  by (simp add: filter_map comp_def in_range_score)

lemma limit_map: "limit_list n (map f xs) = map f (limit_list n xs)" "offset_list n (map f xs) = map f (offset_list n xs)"
  by (simp_all add: limit_list_def offset_list_def take_map drop_map)

lemma smap_minus_range:
  assumes "zsorted es"
  shows "smap (filter (\<lambda>e. \<not> in_range rng e) es) = (\<lambda>k. case smap es k of None \<Rightarrow> None | Some s \<Rightarrow> if in_score rng s then None else Some s)"
proof
  fix k
  have d: "distinct (map eobj es)" using assms by (simp add: zsorted_def)
  then have d': "distinct (map eobj (filter (\<lambda>e. \<not> in_range rng e) es))" by (simp add: distinct_map_filter)
  show "smap (filter (\<lambda>e. \<not> in_range rng e) es) k = (case smap es k of None \<Rightarrow> None | Some s \<Rightarrow> if in_score rng s then None else Some s)"
  proof (rule option_eqI)
    fix s
    have "(case smap es k of None \<Rightarrow> None | Some s \<Rightarrow> if in_score rng s then None else Some s) = Some s \<longleftrightarrow> smap es k = Some s \<and> \<not> in_score rng s"
      by (auto split: option.splits if_splits)
    moreover have "(s, k) \<in> ekey ` set (filter (\<lambda>e. \<not> in_range rng e) es) \<longleftrightarrow> (s, k) \<in> ekey ` set es \<and> \<not> in_score rng s"
      unfolding in_range_score image_iff set_filter mem_Collect_eq Bex_def by (metis fst_conv)
    ultimately show "smap (filter (\<lambda>e. \<not> in_range rng e) es) k = Some s \<longleftrightarrow> (case smap es k of None \<Rightarrow> None | Some s \<Rightarrow> if in_score rng s then None else Some s) = Some s"
      using smap_Some [OF d, of k s] smap_Some [OF d', of k s] by (simp only:)
  qed
qed

lemma smap_minus_mid:
  assumes "distinct (map eobj (us @ mid @ vs))"
  shows "smap (us @ vs) = smap (us @ mid @ vs) |` (- eobj ` set mid)"
proof
  fix k
  have d: "distinct (map eobj (us @ vs))" using assms by auto
  have "smap (us @ vs) k = Some s \<longleftrightarrow> smap (us @ mid @ vs) k = Some s \<and> k \<notin> eobj ` set mid" for s
    unfolding smap_Some [OF assms] smap_Some [OF d] using assms by (auto simp: image_iff prod_eq_iff)
  then show "smap (us @ vs) k = (smap (us @ mid @ vs) |` (- eobj ` set mid)) k"
    by (intro option_eqI) (simp add: restrict_map_def)
qed

lemma zadd_loop_ok:
  assumes "zs_ok hf h zs es" "list_all pair_ok args" "length es + length args \<le> DICT_CAP"
  shows "\<exists>h' zs' es'. zadd_loop (plainType hf) cr jv jk dadd False h zs k sc args = Some (h', zs', RInt (int k + int (length es') - int (length es))) \<and>
    zs_ok hf h' zs' es' \<and> smap es' = foldl zput (smap es) args"
  using assms
proof (induction args arbitrary: h zs es k sc)
  case Nil
  then show ?case by auto
next
  case (Cons a args)
  obtain rs s ele where a: "a = (rs, s, ele)" by (cases a) auto
  obtain lv where lv: "zslRandomLevel rs = Some lv" and o: "length ele < 2 ^ 31" using Cons.prems(2) a by (auto simp: pair_ok_def)
  have len: "length es < DICT_CAP" using Cons.prems(3) by simp
  obtain h1 zs1 es1 r where s1: "zadd_one (plainType hf) cr jv jk dadd False rs h zs s ele = Some (h1, zs1, s, r)" "r \<noteq> ZNan"
    "r = ZAdded \<longleftrightarrow> smap es ele = None" "zs_ok hf h1 zs1 es1" "smap es1 = (smap es)(ele \<mapsto> s)"
    using zadd_one_ok [OF Cons.prems(1) o lv len, of False s dadd s cr jv jk] by auto
  have so: "zsorted es" "zsorted es1" using Cons.prems(1) s1(4) by (simp_all add: zs_ok_def)
  have l1: "length es1 = (if r = ZAdded then Suc (length es) else length es)"
    using smap_card(1) [OF so(1)] smap_card(1) [OF so(2)] s1(3,5) smap_card(2) [of es] by (cases "smap es ele") (auto simp: card_insert_if domIff)
  let ?k = "if r = ZAdded then k + 1 else k"
  have c1: "length es1 + length args \<le> DICT_CAP" using l1 Cons.prems(3) by auto
  have pr: "list_all pair_ok args" using Cons.prems(2) by simp
  obtain h' zs' es' where i: "zadd_loop (plainType hf) cr jv jk dadd False h1 zs1 ?k s args = Some (h', zs', RInt (int ?k + int (length es') - int (length es1)))"
    "zs_ok hf h' zs' es'" "smap es' = foldl zput (smap es1) args" using Cons.IH [OF s1(4) pr c1, of ?k s] by blast
  have "int ?k + int (length es') - int (length es1) = int k + int (length es') - int (length es)" using l1 by auto
  then have "zadd_loop (plainType hf) cr jv jk dadd False h zs k sc (a # args) = Some (h', zs', RInt (int k + int (length es') - int (length es)))"
    using s1(1,2) i(1) a by simp
  moreover have "foldl zput (smap es) (a # args) = smap es'" using i(3) s1(5) a by (simp add: zput_def)
  ultimately show ?case using i(2) by metis
qed

text \<open>The key holds the map: it does not exist exactly when the map is empty.\<close>

definition zkey_rep :: "(bytes \<Rightarrow> nat) \<Rightarrow> ('s::linorder) zkey \<Rightarrow> (bytes \<Rightarrow> 's option) \<Rightarrow> bool" where
  "zkey_rep hf st m \<longleftrightarrow>
     (case snd st of
        None \<Rightarrow> m = Map.empty \<and> (\<forall>a. zh_brk (fst st) \<le> a \<longrightarrow> zh_node (fst st) a = None)
      | Some zs \<Rightarrow> \<exists>es. es \<noteq> [] \<and> zs_ok hf (fst st) zs es \<and> m = smap es)"

lemma zkey_cases:
  assumes "zkey_rep hf st m"
  obtains (Absent) h where "st = (h, None)" "m = Map.empty" "\<And>a. zh_brk h \<le> a \<Longrightarrow> zh_node h a = None"
  | (Present) h zs es where "st = (h, Some zs)" "es \<noteq> []" "zs_ok hf h zs es" "m = smap es"
  using assms by (cases st) (auto simp: zkey_rep_def split: option.splits)

lemma dictCreate_plain: "dict_rep (plainType hf) dictCreate Map.empty"
  by (rule dictCreate_rep)

lemma zadd_start:
  fixes st :: "('s::{linorder, zero}) zkey"
  assumes "zkey_rep hf st m"
  shows "\<exists>h zs es. (case snd st of None \<Rightarrow> createZsetObject jk (fst st) | Some zs \<Rightarrow> Some (fst st, zs)) = Some (h, zs) \<and> zs_ok hf h zs es \<and> m = smap es"
  using assms
proof (cases rule: zkey_cases)
  case (Absent h)
  obtain h' zsl where "zslCreate jk h = Some (h', zsl)" "zrep h' zsl []" using zslCreate_rep [OF Absent(3), of jk] by blast
  then show ?thesis using Absent dictCreate_plain [of hf] by (auto simp: createZsetObject_def zs_ok_def zsorted_def zmap_def smap_def intro!: exI [of _ "[]"])
qed auto

lemma zkey_repI: "zs_ok hf h zs es \<Longrightarrow> smap es \<noteq> Map.empty \<Longrightarrow> zkey_rep hf (h, Some zs) (smap es)"
  by (auto simp: zkey_rep_def smap_def)

lemma delete_empty_rep:
  assumes "zs_ok hf h zs es"
  shows "\<exists>st. dbDelete_empty (h, zs, r, es = []) = Some (st, r) \<and> zkey_rep hf st (smap es)"
proof (cases "es = []")
  case True
  have z: "zrep h (zs_zsl zs) es" using assms by (simp add: zs_ok_def)
  obtain h' where "zslFree h (zs_zsl zs) = Some h'" "zh_brk h' = zh_brk h" "\<forall>a. zh_node h' a = None \<or> zh_node h' a = zh_node h a"
    using zslFree_frees [OF z] by metis
  then show ?thesis using True zrepD(13) [OF z] by (auto simp: dbDelete_empty_def freeZsetObject_def zkey_rep_def smap_def)
qed (use assms in \<open>auto simp: dbDelete_empty_def zkey_rep_def\<close>)

lemma zadd_perform:
  fixes st :: "('s::{linorder, zero}) zkey"
  assumes "zkey_rep hf st m" "list_all pair_ok args" "args \<noteq> []" "card (dom m) + length args \<le> DICT_CAP"
  shows "\<exists>st'. zadd_key (plainType hf) cr jv jk dadd False st args = Some (st', RInt (int (card (dom (foldl zput m args))) - int (card (dom m)))) \<and>
    zkey_rep hf st' (foldl zput m args)"
proof -
  obtain h zs es where st: "(case snd st of None \<Rightarrow> createZsetObject jk (fst st) | Some zs \<Rightarrow> Some (fst st, zs)) = Some (h, zs)" "zs_ok hf h zs es" "m = smap es"
    using zadd_start [OF assms(1), of jk] by blast
  have so: "zsorted es" using st(2) by (simp add: zs_ok_def)
  have len: "length es + length args \<le> DICT_CAP" using assms(4) smap_card(1) [OF so] st(3) by simp
  obtain h' zs' es' where l: "zadd_loop (plainType hf) cr jv jk dadd False h zs 0 0 args = Some (h', zs', RInt (int 0 + int (length es') - int (length es)))"
    "zs_ok hf h' zs' es'" "smap es' = foldl zput (smap es) args" using zadd_loop_ok [OF st(2) assms(2) len, of cr jv jk dadd 0 0] by blast
  have so': "zsorted es'" using l(2) by (simp add: zs_ok_def)
  obtain as a where a: "args = as @ [a]" using assms(3) by (cases args rule: rev_cases) auto
  have "foldl zput (smap es) args (snd (snd a)) \<noteq> None" unfolding a by (simp add: zput_def)
  then have "smap es' \<noteq> Map.empty" using l(3) by auto
  then have "zkey_rep hf (h', Some zs') (smap es')" by (rule zkey_repI [OF l(2)])
  then show ?thesis using st(1,3) l(1,3) smap_card(1) [OF so] smap_card(1) [OF so'] by (simp add: zadd_key_def zaddGenericCommand_def)
qed

lemma zincr_perform:
  fixes st :: "('s::{linorder, zero}) zkey"
  assumes "zkey_rep hf st m" "pair_ok (rs, s, ele)" "card (dom m) < DICT_CAP"
  shows "\<exists>st'. zadd_key (plainType hf) cr jv jk dadd True st [(rs, s, ele)] = Some (st', snd (spec_zop dadd m (ZIncrBy rs s ele))) \<and>
    zkey_rep hf st' (fst (spec_zop dadd m (ZIncrBy rs s ele)))"
proof -
  obtain h zs es where st: "(case snd st of None \<Rightarrow> createZsetObject jk (fst st) | Some zs \<Rightarrow> Some (fst st, zs)) = Some (h, zs)" "zs_ok hf h zs es" "m = smap es"
    using zadd_start [OF assms(1), of jk] by blast
  have so: "zsorted es" using st(2) by (simp add: zs_ok_def)
  have len: "length es < DICT_CAP" using assms(3) smap_card(1) [OF so] st(3) by simp
  obtain lv where lv: "zslRandomLevel rs = Some lv" and o: "length ele < 2 ^ 31" using assms(2) by (auto simp: pair_ok_def)
  show ?thesis
  proof (cases "case m ele of None \<Rightarrow> Some s | Some c \<Rightarrow> dadd s c")
    case None
    then have e: "ele \<in> eobj ` set es" using st(3) smap_dom [of es ele] by (auto split: option.splits)
    obtain xs e ys where e: "es = xs @ e # ys" "eobj e = ele" "smap es ele = Some (escore e)" by (rule zs_split [OF so e])
    obtain d p where d: "dictFind (plainType hf) (zs_dict zs) ele = Some (d, Some p)" "zs_ok hf h (zs\<lparr>zs_dict := d\<rparr>) es"
      "get_entry d p = Some (ele, addr e)" "entry_score h d p = Some (escore e)"
      using zfind_present [of hf h zs xs e ys] st(2) e(1,2) by auto
    have "zadd_one (plainType hf) cr jv jk dadd True rs h zs s ele = Some (h, zs\<lparr>zs_dict := d\<rparr>, s, ZNan)"
      using d(1,3,4) None e(3) st(3) by (simp add: zadd_one_def Let_def)
    moreover have "zkey_rep hf (h, Some (zs\<lparr>zs_dict := d\<rparr>)) m" unfolding st(3) by (rule zkey_repI [OF d(2)]) (use e(3) in auto)
    ultimately show ?thesis using st(1) None by (simp add: zadd_key_def zaddGenericCommand_def spec_zop_def)
  next
    case (Some s')
    then obtain h' zs' es' r where z: "zadd_one (plainType hf) cr jv jk dadd True rs h zs s ele = Some (h', zs', s', r)" "r \<noteq> ZNan"
      "zs_ok hf h' zs' es'" "smap es' = m(ele \<mapsto> s')"
      using zadd_one_ok [OF st(2) o lv len, of True s dadd s' cr jv jk] st(3) by auto
    have "zkey_rep hf (h', Some zs') (smap es')" by (rule zkey_repI [OF z(3)]) (simp add: z(4))
    then show ?thesis using st(1) z Some by (simp add: zadd_key_def zaddGenericCommand_def spec_zop_def)
  qed
qed

lemma zreading_perform:
  assumes ok: "zs_ok hf h zs es" "es \<noteq> []" "zop_ok oper" "length es \<le> DICT_CAP"
    and "oper \<in> {ZCard, ZScore ele, ZRank rv ele, ZRange rv a b, ZRangeByScore rv rng a b, ZCount rng}"
  shows "\<exists>zs'. zperform (plainType hf) cr jv jk dadd (h, Some zs) oper = Some ((h, Some zs'), snd (spec_zop dadd (smap es) oper)) \<and>
    fst (spec_zop dadd (smap es) oper) = smap es \<and> zs_ok hf h zs' es"
proof -
  have so: "zsorted es" and r: "zrep h (zs_zsl zs) es" using ok(1) by (simp_all add: zs_ok_def)
  have el: "elems (smap es) = map ekey es" by (rule elems_smap [OF so])
  have ln: "zsetLength zs = card (dom (smap es))" using zrepD(7,8) [OF r] smap_card(1) [OF so] by (simp add: zsetLength_def)
  have fr: "filter (\<lambda>k. in_score rng (fst k)) (map ekey xs) = map ekey (filter (in_range rng) xs)" for xs rng
    by (simp add: filter_range_map)
  consider "oper = ZCard" | "oper = ZScore ele" | "oper = ZRank rv ele" | "oper = ZRange rv a b" | "oper = ZRangeByScore rv rng a b" | "oper = ZCount rng"
    using assms(5) by blast
  then show ?thesis
  proof cases
    case 1
    then show ?thesis using ok(1) ln by (simp add: zperform_def lookup_key_def spec_zop_def zcardCommand_def)
  next
    case 2
    then show ?thesis using zscore_ok [OF ok(1), of ele] by (auto simp: zperform_def lookup_key_def spec_zop_def)
  next
    case 3
    then show ?thesis using zrank_ok [OF ok(1), of ele rv] ok(3) by (auto simp: zperform_def lookup_key_def spec_zop_def zop_ok_def)
  next
    case 4
    then show ?thesis using zrange_ok [OF ok(1,4), of rv a b] ok(1) by (simp add: zperform_def lookup_key_def spec_zop_def reply_elems_def)
  next
    case 5
    then show ?thesis using zrangebyscore_ok [OF ok(1), of rv rng a b] ok(1)
      by (simp add: zperform_def lookup_key_def spec_zop_def reply_elems_def el fr limit_map comp_def rev_map)
  next
    case 6
    then show ?thesis using zcount_ok [OF ok(1,4), of rng] ok(1) by (simp add: zperform_def lookup_key_def spec_zop_def el fr)
  qed
qed

lemma zdeleting_perform:
  assumes ok: "zs_ok hf h zs es" "es \<noteq> []" "zop_ok oper"
    and "oper \<in> {ZRem els, ZRemRangeByScore rng, ZRemRangeByRank a b}"
  shows "\<exists>st. zperform (plainType hf) cr jv jk dadd (h, Some zs) oper = Some (st, snd (spec_zop dadd (smap es) oper)) \<and>
    zkey_rep hf st (fst (spec_zop dadd (smap es) oper))"
proof -
  have so: "zsorted es" using ok(1) by (simp add: zs_ok_def)
  have el: "elems (smap es) = map ekey es" by (rule elems_smap [OF so])
  consider "oper = ZRem els" | "oper = ZRemRangeByScore rng" | "oper = ZRemRangeByRank a b" using assms(4) by blast
  then show ?thesis
  proof cases
    case 1
    have els: "\<forall>ele\<in>set els. length ele < 2 ^ 31" using ok(3) 1 by (simp add: zop_ok_def list_all_iff)
    obtain h' zs' es' where z: "zrem_loop (plainType hf) cr h zs 0 els = Some (h', zs', 0 + card (dom (smap es) \<inter> set els), es' = [])"
      "zs_ok hf h' zs' es'" "smap es' = smap es |` (- set els)" using zrem_loop_ok [OF ok(1,2) els, of cr 0] by blast
    obtain st where "dbDelete_empty (h', zs', RInt (int (card (dom (smap es) \<inter> set els))), es' = []) = Some (st, RInt (int (card (dom (smap es) \<inter> set els))))" "zkey_rep hf st (smap es')"
      using delete_empty_rep [OF z(2)] by blast
    then show ?thesis using 1 z(1,3) by (simp add: zperform_def lookup_key_def spec_zop_def zremCommand_def)
  next
    case 2
    let ?es = "filter (\<lambda>e. \<not> in_range rng e) es" and ?r = "RInt (int (length (filter (in_range rng) es)))"
    obtain h' zs' where z: "zremrangeGenericCommand (plainType hf) cr h zs (ZRANGE_SCORE rng) = Some (h', zs', ?r, ?es = [])" "zs_ok hf h' zs' ?es"
      using zremrange_score_ok [OF ok(1), of cr rng] by blast
    obtain st where d: "dbDelete_empty (h', zs', ?r, ?es = []) = Some (st, ?r)" "zkey_rep hf st (smap ?es)" using delete_empty_rep [OF z(2)] by blast
    have l: "length (filter (\<lambda>k. in_score rng (fst k)) (elems (smap es))) = length (filter (in_range rng) es)"
      unfolding el filter_range_map [symmetric] by simp
    have "zperform (plainType hf) cr jv jk dadd (h, Some zs) oper = Some (st, ?r)"
      unfolding zperform_def Let_def 2 zop.case lookup_key_def fst_conv snd_conv option.case z(1) bind.bind_lunit d(1) ..
    then show ?thesis using d(2) l unfolding smap_minus_range [OF so] 2 by (simp add: spec_zop_def)
  next
    case 3
    let ?r = "RInt (int (length (slice a b es)))"
    obtain h' zs' us vs where z: "zremrangeGenericCommand (plainType hf) cr h zs (ZRANGE_RANK a b) = Some (h', zs', ?r, us @ vs = [])"
      "zs_ok hf h' zs' (us @ vs)" "es = us @ slice a b es @ vs" using zremrange_rank_ok [OF ok(1,2), of cr a b] by blast
    obtain st where d: "dbDelete_empty (h', zs', ?r, us @ vs = []) = Some (st, ?r)" "zkey_rep hf st (smap (us @ vs))" using delete_empty_rep [OF z(2)] by blast
    have "distinct (map eobj es)" using so by (simp add: zsorted_def)
    then have "smap (us @ vs) = smap (us @ slice a b es @ vs) |` (- eobj ` set (slice a b es))" using z(3) by (intro smap_minus_mid) simp
    then have m: "smap (us @ vs) = smap es |` (- snd ` set (slice a b (elems (smap es))))"
      unfolding z(3) [symmetric] el slice_map by (simp add: image_image)
    have "zperform (plainType hf) cr jv jk dadd (h, Some zs) oper = Some (st, ?r)"
      unfolding zperform_def Let_def 3 zop.case lookup_key_def fst_conv snd_conv option.case z(1) bind.bind_lunit d(1) ..
    then show ?thesis using d(2) unfolding m 3 by (simp add: spec_zop_def el slice_map)
  qed
qed

lemma zabsent_perform:
  assumes "zkey_rep hf (h, None) Map.empty" "\<nexists>args. oper = ZAdd args" "\<nexists>rs s ele. oper = ZIncrBy rs s ele"
  shows "zperform T cr jv jk dadd (h, None) oper = Some ((h, None), snd (spec_zop dadd Map.empty oper)) \<and> fst (spec_zop dadd Map.empty oper) = Map.empty"
  using assms(2,3) by (cases oper) (simp_all add: zperform_def lookup_key_def spec_zop_def elems_def reply_elems_def slice_def limit_list_def offset_list_def)

interpretation zsets: score_map "zperform (plainType hf) cr jv jk dadd" "zkey_rep hf" dadd DICT_CAP
  for hf cr jv jk and dadd :: "'s::{linorder, zero} \<Rightarrow> 's \<Rightarrow> 's option"
proof unfold_locales
  fix st :: "'s zkey" and m and oper :: "'s zop"
  assume st: "zkey_rep hf st m"
  then show "finite (dom m)" by (cases rule: zkey_cases) (simp_all add: smap_card(2))
  assume ok: "zop_ok oper" and cap: "card (dom m) + zop_adds oper \<le> DICT_CAP"
  show "\<exists>st'. zperform (plainType hf) cr jv jk dadd st oper = Some (st', snd (spec_zop dadd m oper)) \<and> zkey_rep hf st' (fst (spec_zop dadd m oper))"
  proof (cases "(\<exists>args. oper = ZAdd args) \<or> (\<exists>rs s ele. oper = ZIncrBy rs s ele)")
    case True
    then consider args where "oper = ZAdd args" | rs s ele where "oper = ZIncrBy rs s ele" by blast
    then show ?thesis
    proof cases
      case (1 args)
      then show ?thesis using zadd_perform [OF st, of args cr jv jk dadd] ok cap by (simp add: zperform_def spec_zop_def zop_ok_def zop_adds_def Let_def)
    next
      case (2 rs s ele)
      then show ?thesis using zincr_perform [OF st, of rs s ele cr jv jk dadd] ok cap by (simp add: zperform_def zop_ok_def zop_adds_def)
    qed
  next
    case na: False
    show ?thesis using st
    proof (cases rule: zkey_cases)
      case (Absent h)
      then show ?thesis using zabsent_perform [of hf h oper "plainType hf" cr jv jk dadd] na st by auto
    next
      case (Present h zs es)
      have so: "zsorted es" using Present(3) by (simp add: zs_ok_def)
      have len: "length es \<le> DICT_CAP" using cap smap_card(1) [OF so] Present(4) by simp
      show ?thesis
      proof (cases "\<exists>els rng a b. oper \<in> {ZRem els, ZRemRangeByScore rng, ZRemRangeByRank a b}")
        case True
        then obtain els rng a b where "oper \<in> {ZRem els, ZRemRangeByScore rng, ZRemRangeByRank a b}" by blast
        then show ?thesis using zdeleting_perform [OF Present(3,2) ok, of els rng a b cr jv jk dadd] Present(1,4) by blast
      next
        case False
        then obtain ele rv a b rng where "oper \<in> {ZCard, ZScore ele, ZRank rv ele, ZRange rv a b, ZRangeByScore rv rng a b, ZCount rng}"
          using na by (cases oper) auto
        then obtain zs' where "zperform (plainType hf) cr jv jk dadd (h, Some zs) oper = Some ((h, Some zs'), snd (spec_zop dadd (smap es) oper))"
          "fst (spec_zop dadd (smap es) oper) = smap es" "zs_ok hf h zs' es"
          using zreading_perform [OF Present(3,2) ok len] by blast
        then show ?thesis using Present(1,2,4) by (auto simp: zkey_rep_def)
      qed
    qed
  qed
qed

lemma zsets_run_ok:
  fixes ops :: "('s::{linorder, zero}) zop list"
  assumes "\<forall>oper\<in>set ops. zop_ok oper" "sum_list (map zop_adds ops) \<le> DICT_CAP" "\<forall>a\<ge>zh_brk h. zh_node h a = None"
  shows "\<exists>st. run_zops (zperform (plainType hf) cr jv jk dadd) (h, None) ops = Some (st, snd (spec_zops dadd Map.empty ops)) \<and>
    zkey_rep hf st (fst (spec_zops dadd Map.empty ops))"
proof -
  have "zkey_rep hf (h, None) Map.empty" using assms(3) by (simp add: zkey_rep_def)
  moreover have "list_all zop_ok ops" using assms(1) by (simp add: list_all_iff)
  ultimately show ?thesis using zsets.run_zops_rep [of hf "(h, None)" Map.empty ops cr jv jk dadd] assms(2) by simp
qed

text \<open>
  C6. Sorted sets refine maps.  For any sequence of \<open>ZADD\<close>, \<open>ZINCRBY\<close>, \<open>ZREM\<close>, \<open>ZCARD\<close>, \<open>ZSCORE\<close>,
  \<open>ZRANK\<close> and \<open>ZREVRANK\<close>, \<open>ZRANGE\<close>, \<open>ZRANGEBYSCORE\<close> and their reversed forms, \<open>ZCOUNT\<close>,
  \<open>ZREMRANGEBYSCORE\<close> and \<open>ZREMRANGEBYRANK\<close> on a key that does not exist at first, for every hash
  function, every result of the random numbers and every content of fresh memory, the commands
  reply what the same commands give on a map from objects to scores whose elements are sorted by
  score and object: no pointer is followed that is not valid, no assertion fails, the dictionary
  and the skip list stay together, and the key exists exactly when the map is not empty.
\<close>

theorem zset_refines_map:
  fixes ops :: "('s::{linorder, zero}) zop list"
  assumes "\<forall>oper\<in>set ops. zop_ok oper" "sum_list (map zop_adds ops) \<le> DICT_CAP" "\<forall>a\<ge>zh_brk h. zh_node h a = None"
  shows "\<exists>st. run_zops (zperform (plainType hf) cr jv jk dadd) (h, None) ops = Some (st, snd (spec_zops dadd Map.empty ops)) \<and>
    zkey_rep hf st (fst (spec_zops dadd Map.empty ops)) \<and> (snd st = None \<longleftrightarrow> fst (spec_zops dadd Map.empty ops) = Map.empty)"
proof -
  obtain st where st: "run_zops (zperform (plainType hf) cr jv jk dadd) (h, None) ops = Some (st, snd (spec_zops dadd Map.empty ops))"
    "zkey_rep hf st (fst (spec_zops dadd Map.empty ops))" using zsets_run_ok [OF assms, of hf cr jv jk dadd] by blast
  have n: "snd st = None \<longleftrightarrow> fst (spec_zops dadd Map.empty ops) = Map.empty" using st(2)
  proof (cases rule: zkey_cases)
    case (Present h zs es)
    then have "smap es (eobj (hd es)) \<noteq> None" using smap_dom [of es "eobj (hd es)"] by auto
    then have "smap es \<noteq> Map.empty" by metis
    then show ?thesis using Present by simp
  qed simp
  show ?thesis by (intro exI [of _ st] conjI st n)
qed

theorem zset_refines_map_witness:
  "\<exists>st. run_zops (zperform (plainType (\<lambda>_. 0)) True 0 (None, \<lambda>_. (None, 7)) (\<lambda>a b. Some (a + b))) (\<lparr>zh_brk = 0, zh_node = \<lambda>_. None\<rparr>, None)
      [ZAdd [([20000], 1 :: int, [97]), ([0, 20000], 5, [98])], ZIncrBy [20000] 3 [97], ZScore [97], ZRem [[98], [99]], ZCard, ZRem [[97]], ZCard] =
      Some (st, [RInt 2, RDouble 4, RDouble 4, RInt 1, RInt 1, RInt 1, RInt 0]) \<and> snd st = None"
proof -
  let ?ops = "[ZAdd [([20000], 1 :: int, [97]), ([0, 20000], 5, [98])], ZIncrBy [20000] 3 [97], ZScore [97], ZRem [[98], [99]], ZCard, ZRem [[97]], ZCard]"
  let ?h = "\<lparr>zh_brk = 0, zh_node = \<lambda>_. None\<rparr> :: int zheap" and ?add = "\<lambda>a b :: int. Some (a + b)"
  have ok: "\<forall>oper\<in>set ?ops. zop_ok oper" by (simp add: zop_ok_def pair_ok_def zslRandomLevel_def ZSKIPLIST_MAXLEVEL_def)
  have cap: "sum_list (map zop_adds ?ops) \<le> DICT_CAP" by (simp add: zop_adds_def DICT_CAP_def)
  have fresh: "\<forall>a\<ge>zh_brk ?h. zh_node ?h a = None" by simp
  have spec: "snd (spec_zops ?add Map.empty ?ops) = [RInt 2, RDouble 4, RDouble 4, RInt 1, RInt 1, RInt 1, RInt 0]"
    "fst (spec_zops ?add Map.empty ?ops) = Map.empty"
    by (simp_all add: spec_zop_def zput_def)
  show ?thesis using zset_refines_map [OF ok cap fresh, of "\<lambda>_. 0" True 0 "(None, \<lambda>_. (None, 7))" ?add] unfolding spec by blast
qed

section \<open>Ranges by string\<close>

text \<open>The objects of a set whose elements have one score.\<close>

definition in_lex :: "zlexrangespec \<Rightarrow> bytes \<Rightarrow> bool" where
  "in_lex rng v \<longleftrightarrow> lex_ge rng v \<and> lex_le rng v"

lemma in_lex_range_eq: "in_lex_range rng = (\<lambda>e. in_lex rng (snd (ekey e)))"
  by (rule ext) (simp add: in_lex_range_def in_lex_def)

lemma one_score:
  assumes "zsorted es" "ran (smap es) \<subseteq> {s}"
  shows "sorted_wrt (<) (map eobj es)" "map eobj es = sorted_list_of_set (dom (smap es))" "map ekey es = map (Pair s) (map eobj es)"
proof -
  have d: "distinct (map eobj es)" using assms(1) by (simp add: zsorted_def)
  have k: "ekey e = (s, eobj e)" if "e \<in> set es" for e
  proof -
    have "smap es (eobj e) = Some (escore e)" using that smap_Some [OF d, of "eobj e" "escore e"] by force
    then show ?thesis using assms(2) by (auto simp: ran_def prod_eq_iff)
  qed
  show m: "map ekey es = map (Pair s) (map eobj es)" using k by simp
  have "sorted_wrt (<) (map (Pair s) (map eobj es))" using assms(1) by (simp only: zsorted_def m [symmetric])
  then show so: "sorted_wrt (<) (map eobj es)" by (simp add: sorted_wrt_map)
  have "dom (smap es) = set (map eobj es)" by (force simp: smap_def dom_map_of_conv_image_fst)
  moreover have "sorted_list_of_set (set (map eobj es)) = map eobj es" using so by (intro sorted_list_of_set.idem_if_sorted_distinct) (simp_all only: strict_sorted_iff)
  ultimately show "map eobj es = sorted_list_of_set (dom (smap es))" by (simp only:)
qed

text \<open>
  C21. The replies to ranges by string.  After any sequence of commands that leaves a set whose
  elements have one score, \<open>ZRANGEBYLEX\<close>, \<open>ZREVRANGEBYLEX\<close> and \<open>ZLEXCOUNT\<close> reply with the elements
  of the range in order, cut by the offset and the limit, and with their number, unless the range
  is one of those that \<open>zslIsInLexRange\<close> takes for empty by mistake.
\<close>

theorem lex_range_replies:
  fixes ops :: "('s::{linorder, zero}) zop list"
  assumes "\<forall>oper\<in>set ops. zop_ok oper" "sum_list (map zop_adds ops) \<le> DICT_CAP" "\<forall>a\<ge>zh_brk h0. zh_node h0 a = None"
    and "run_zops (zperform (plainType hf) cr jv jk dadd) (h0, None) ops = Some ((h, Some zs), rs)"
    and "fst (spec_zops dadd Map.empty ops) = m" "ran m \<subseteq> {s}"
    and "lex_small (zl_min rng)" "lex_small (zl_max rng)" "\<not> lex_glitch rng"
  shows "genericZrangebylexCommand rv h zs rng off lim =
      Some (RMulti (map (\<lambda>v. (v, s)) (limit_list lim (offset_list off (filter (in_lex rng) (if rv then rev (sorted_list_of_set (dom m)) else sorted_list_of_set (dom m))))))) \<and>
    zlexcountCommand h zs rng = Some (RInt (int (card {v \<in> dom m. in_lex rng v})))"
proof -
  have "zkey_rep hf (h, Some zs) m" using zsets_run_ok [OF assms(1-3), of hf cr jv jk dadd] assms(4,5) by simp
  then obtain es where es: "zs_ok hf h zs es" "m = smap es" by (auto simp: zkey_rep_def)
  have so: "zsorted es" using es(1) by (simp add: zs_ok_def)
  note one = one_score [OF so assms(6) [unfolded es(2)]]
  have "card (dom m) \<le> DICT_CAP" using spec_zops_dom(2) [of Map.empty dadd ops] assms(2,5) by simp
  then have len: "length es \<le> DICT_CAP" using smap_card(1) [OF so] es(2) by simp
  have f: "map (\<lambda>v. (v, s)) (limit_list lim (offset_list off (filter (in_lex rng) (map eobj xs)))) =
      map (\<lambda>e. (eobj e, escore e)) (limit_list lim (offset_list off (filter (in_lex_range rng) xs)))" if "set xs \<subseteq> set es" for xs
  proof -
    have k: "escore e = s" if "e \<in> set es" for e using one(3) that by (metis (mono_tags, lifting) fst_conv map_eq_conv map_map comp_apply)
    have "set (limit_list lim (offset_list off (filter (in_lex_range rng) xs))) \<subseteq> set es"
      using that by (auto simp: limit_list_def offset_list_def dest!: in_set_takeD in_set_dropD split: if_splits)
    then show ?thesis using k by (auto simp: filter_map comp_def limit_map in_lex_range_eq)
  qed
  have "(if rv then rev (sorted_list_of_set (dom m)) else sorted_list_of_set (dom m)) = map eobj (if rv then rev es else es)"
    unfolding es(2) one(2) [symmetric] by (simp add: rev_map)
  then have "genericZrangebylexCommand rv h zs rng off lim =
      Some (RMulti (map (\<lambda>v. (v, s)) (limit_list lim (offset_list off (filter (in_lex rng) (if rv then rev (sorted_list_of_set (dom m)) else sorted_list_of_set (dom m)))))))"
    using zrangebylex_ok [OF es(1) one(1) assms(7-9), of rv off lim] f [of "if rv then rev es else es"] by simp
  moreover have "length (filter (in_lex_range rng) es) = card {v \<in> dom m. in_lex rng v}"
  proof -
    have d: "distinct (filter (in_lex rng) (map eobj es))" using so by (simp add: zsorted_def)
    have "set (filter (in_lex rng) (map eobj es)) = {v \<in> dom m. in_lex rng v}"
      using es(2) by (force simp: smap_def dom_map_of_conv_image_fst)
    then show ?thesis using distinct_card [OF d] by (simp add: filter_map comp_def in_lex_range_eq)
  qed
  ultimately show ?thesis using zlexcount_ok [OF es(1) len one(1) assms(7-9)] by simp
qed

theorem lex_range_replies_witness:
  "\<exists>h zs rs. run_zops (zperform (plainType (\<lambda>_. 0)) True 0 (None, \<lambda>_. (None, 7)) (\<lambda>a b. Some (a + b))) (\<lparr>zh_brk = 0, zh_node = \<lambda>_. None\<rparr>, None)
      [ZAdd [([20000], 0 :: int, [98]), ([20000], 0, [97]), ([0, 20000], 0, [99])]] = Some ((h, Some zs), rs) \<and>
    genericZrangebylexCommand True h zs \<lparr>zl_min = LexObj [97], zl_max = SharedMax, zl_minex = True, zl_maxex = False\<rparr> 0 (-1) = Some (RMulti [([99], 0), ([98], 0)])"
proof -
  let ?ops = "[ZAdd [([20000], 0 :: int, [98]), ([20000], 0, [97]), ([0, 20000], 0, [99])]]"
  let ?h = "\<lparr>zh_brk = 0, zh_node = \<lambda>_. None\<rparr> :: int zheap" and ?add = "\<lambda>a b :: int. Some (a + b)" and ?hf = "\<lambda>_. 0" and ?jk = "(None, \<lambda>_. (None, 7))"
  let ?rng = "\<lparr>zl_min = LexObj [97], zl_max = SharedMax, zl_minex = True, zl_maxex = False\<rparr>"
  let ?m = "[[98] \<mapsto> 0, [97] \<mapsto> 0, [99] \<mapsto> 0] :: bytes \<Rightarrow> int option"
  have ok: "\<forall>oper\<in>set ?ops. zop_ok oper" by (simp add: zop_ok_def pair_ok_def zslRandomLevel_def ZSKIPLIST_MAXLEVEL_def)
  have cap: "sum_list (map zop_adds ?ops) \<le> DICT_CAP" by (simp add: zop_adds_def DICT_CAP_def)
  have fresh: "\<forall>a\<ge>zh_brk ?h. zh_node ?h a = None" by simp
  have m: "fst (spec_zops ?add Map.empty ?ops) = ?m" by (simp add: spec_zop_def zput_def Let_def)
  obtain st rs where st: "run_zops (zperform (plainType ?hf) True 0 ?jk ?add) (?h, None) ?ops = Some (st, rs)" "zkey_rep ?hf st ?m"
    using zsets_run_ok [OF ok cap fresh, of ?hf True 0 ?jk ?add] unfolding m by blast
  obtain h zs where hz: "st = (h, Some zs)" using st(2) by (cases rule: zkey_cases) (auto dest: fun_cong [of _ _ "[97]"])
  have dm: "dom ?m = set [[97], [98], [99]]" by auto
  have sl: "sorted_list_of_set (dom ?m) = [[97], [98], [99]]" unfolding dm by (rule sorted_list_of_set.idem_if_sorted_distinct) simp_all
  have "genericZrangebylexCommand True h zs ?rng 0 (-1) = Some (RMulti (map (\<lambda>v. (v, 0)) (limit_list (-1) (offset_list 0 (filter (in_lex ?rng) (if True then rev (sorted_list_of_set (dom ?m)) else sorted_list_of_set (dom ?m)))))))"
    by (rule lex_range_replies [OF ok cap fresh st(1) [unfolded hz] m, THEN conjunct1]) (auto simp: ran_def lex_small_def lex_glitch_def ascii_def split: if_splits)
  also have "\<dots> = Some (RMulti [([99], 0), ([98], 0)])" unfolding sl by (simp add: in_lex_def lex_ge_def lex_le_def limit_list_def offset_list_def)
  finally show ?thesis using st(1) hz by blast
qed

text \<open>
  C22. A range by string that is taken for empty.  The set has the element \<open>a\<close>, which lies between
  the ends \<open>-\<close> and \<open>(minstring\<close>; \<open>ZRANGEBYLEX\<close> and \<open>ZLEXCOUNT\<close> do not find it, because
  \<open>zslIsInLexRange\<close> compares the string by which the server represents the lower end with the
  upper end, while \<open>ZREMRANGEBYLEX\<close> deletes it.
\<close>

theorem lex_range_misses:
  "\<exists>h zs rs rng. run_zops (zperform (plainType hf) cr jv jk dadd) (\<lparr>zh_brk = 0, zh_node = \<lambda>_. None\<rparr>, None)
      [ZAdd [([20000], 0 :: 's::{linorder, zero}, ascii ''a'')]] = Some ((h, Some zs), rs) \<and>
    zslParseLexRange (ascii ''-'') (ascii ''(minstring'') = Some rng \<and> in_lex rng (ascii ''a'') \<and>
    genericZrangebylexCommand False h zs rng 0 (-1) = Some (RMulti []) \<and> zlexcountCommand h zs rng = Some (RInt 0) \<and>
    (\<exists>h' zs'. zremrangeGenericCommand (plainType hf) cr h zs (ZRANGE_LEX rng) = Some (h', zs', RInt 1, True))"
proof -
  let ?ops = "[ZAdd [([20000], 0 :: 's, ascii ''a'')]]" and ?h = "\<lparr>zh_brk = 0, zh_node = \<lambda>_. None\<rparr> :: 's zheap"
  let ?rng = "\<lparr>zl_min = SharedMin, zl_max = LexObj (ascii ''minstring''), zl_minex = False, zl_maxex = True\<rparr>"
  let ?m = "[ascii ''a'' \<mapsto> 0] :: bytes \<Rightarrow> 's option"
  have ok: "\<forall>oper\<in>set ?ops. zop_ok oper" by (simp add: zop_ok_def pair_ok_def zslRandomLevel_def ZSKIPLIST_MAXLEVEL_def ascii_def)
  have cap: "sum_list (map zop_adds ?ops) \<le> DICT_CAP" by (simp add: zop_adds_def DICT_CAP_def)
  have fresh: "\<forall>a\<ge>zh_brk ?h. zh_node ?h a = None" by simp
  have m: "fst (spec_zops dadd Map.empty ?ops) = ?m" by (simp add: spec_zop_def zput_def Let_def)
  obtain st rs where st: "run_zops (zperform (plainType hf) cr jv jk dadd) (?h, None) ?ops = Some (st, rs)" "zkey_rep hf st ?m"
    using zsets_run_ok [OF ok cap fresh, of hf cr jv jk dadd] unfolding m by blast
  obtain h zs es where hz: "st = (h, Some zs)" "zs_ok hf h zs es" "?m = smap es" using st(2) by (cases rule: zkey_cases) (auto dest: fun_cong [of _ _ "ascii ''a''"])
  have so: "zsorted es" using hz(2) by (simp add: zs_ok_def)
  have "ran (smap es) \<subseteq> {0}" unfolding hz(3) [symmetric] by (simp add: ran_def)
  note one = one_score [OF so this, unfolded hz(3) [symmetric]]
  have es: "map eobj es = [ascii ''a'']" using one(2) by simp
  have rng: "zslParseLexRange (ascii ''-'') (ascii ''(minstring'') = Some ?rng" by (simp add: zslParseLexRange_def zslParseLexRangeItem_def ascii_def)
  have il: "in_lex ?rng (ascii ''a'')" by (simp add: in_lex_def lex_ge_def lex_le_def ascii_def)
  have "compareStringObjects x x = 0" if "x = ascii ''minstring''" for x
    using compareStringObjects_order(2) [of x x] that by (simp add: shared_strings)
  then have empty: "zslIsInLexRange h (zs_zsl zs) ?rng = Some False" by (simp add: zslIsInLexRange_def lex_string_def)
  have "genericZrangebylexCommand False h zs ?rng 0 (-1) = Some (RMulti [])" "zlexcountCommand h zs ?rng = Some (RInt 0)"
    using empty by (simp_all add: genericZrangebylexCommand_def zlexcountCommand_def zslFirstInLexRange_def zrange_from_def count_range_def Let_def)
  moreover have "\<exists>h' zs'. zremrangeGenericCommand (plainType hf) cr h zs (ZRANGE_LEX ?rng) = Some (h', zs', RInt 1, True)"
  proof -
    obtain e where e: "es = [e]" "eobj e = ascii ''a''" using es by (cases es) auto
    have "in_lex_range ?rng e" using il e(2) by (simp add: in_lex_range_eq)
    moreover have "lex_small (zl_min ?rng)" "lex_small (zl_max ?rng)" by (simp_all add: lex_small_def shared_strings)
    ultimately show ?thesis using zremrange_lex_ok [OF hz(2) one(1), of ?rng cr] e(1) by auto
  qed
  ultimately show ?thesis using st(1) hz(1) rng il by blast
qed

end
