(* ===== verification/Repl.thy ===== *)
theory Repl
  imports NetOut
begin

text \<open>
  The master side of replication, from \<open>replication.c\<close>: the backlog, a circular buffer of the
  last bytes of the replication stream, the feeding of the stream into the backlog and into the
  output buffers of the slaves, and the commands \<open>SYNC\<close> and \<open>PSYNC\<close>.  A slave is a client with
  its output buffers, its state, and what was written to its socket so far.  Offsets are
  integers without bound.  What is behind the code is a parameter: whether an event could be
  installed (\<open>ev\<close>), output limits (\<open>over\<close>), fresh memory (\<open>jk\<close>), the state of the child process
  that saves and whether one can be started, and how many bytes of a direct write were taken.
\<close>

section \<open>State\<close>

definition REDIS_REPL_BACKLOG_MIN_SIZE :: nat where "REDIS_REPL_BACKLOG_MIN_SIZE = 1024 * 16"
definition REDIS_LONGSTR_SIZE :: nat where "REDIS_LONGSTR_SIZE = 21"

datatype replstate = REPL_WAIT_BGSAVE_START | REPL_WAIT_BGSAVE_END | REPL_ONLINE

record slave =
  sl_id :: nat
  sl_client :: oclient
  sl_state :: replstate
  sl_wire :: bytes

record rserver =
  repl_backlog :: "bytes option"
  repl_backlog_size :: nat
  repl_backlog_histlen :: nat
  repl_backlog_idx :: nat
  repl_backlog_off :: int
  master_repl_offset :: int
  slaveseldb :: int
  rslaves :: "slave list"

section \<open>The backlog\<close>

definition createReplicationBacklog :: "(nat \<Rightarrow> byte) \<Rightarrow> rserver \<Rightarrow> rserver option" where
  "createReplicationBacklog jk s =
     (if repl_backlog s \<noteq> None then None
      else Some (s\<lparr>repl_backlog := Some (map jk [0..<repl_backlog_size s]), repl_backlog_histlen := 0, repl_backlog_idx := 0,
        master_repl_offset := master_repl_offset s + 1, repl_backlog_off := master_repl_offset s + 1 + 1\<rparr>))"

definition resizeReplicationBacklog :: "(nat \<Rightarrow> byte) \<Rightarrow> rserver \<Rightarrow> int \<Rightarrow> rserver" where
  "resizeReplicationBacklog jk s newsize =
     (let newsize = nat (if newsize < int REDIS_REPL_BACKLOG_MIN_SIZE then int REDIS_REPL_BACKLOG_MIN_SIZE else newsize) in
      if repl_backlog_size s = newsize then s
      else let s = s\<lparr>repl_backlog_size := newsize\<rparr> in
        if repl_backlog s \<noteq> None then
          s\<lparr>repl_backlog := Some (map jk [0..<newsize]), repl_backlog_histlen := 0, repl_backlog_idx := 0,
            repl_backlog_off := master_repl_offset s + 1\<rparr>
        else s)"

definition freeReplicationBacklog :: "rserver \<Rightarrow> rserver option" where
  "freeReplicationBacklog s = (if rslaves s \<noteq> [] then None else Some (s\<lparr>repl_backlog := None\<rparr>))"

partial_function (option) feed_loop :: "nat \<Rightarrow> bytes \<Rightarrow> nat \<Rightarrow> nat \<Rightarrow> bytes \<Rightarrow> (bytes \<times> nat \<times> nat) option" where
  "feed_loop size' buf idx histlen p =
     (if p = [] then Some (buf, idx, histlen)
      else do {
        let thislen = (if size' - idx > length p then length p else size' - idx);
        buf \<leftarrow> wr_block buf idx (take thislen p);
        let idx = idx + thislen;
        feed_loop size' buf (if idx = size' then 0 else idx) (histlen + thislen) (drop thislen p)
      })"

definition feedReplicationBacklog :: "rserver \<Rightarrow> bytes \<Rightarrow> rserver option" where
  "feedReplicationBacklog s p =
     do {
       let s = s\<lparr>master_repl_offset := master_repl_offset s + int (length p)\<rparr>;
       buf \<leftarrow> repl_backlog s;
       (buf, idx, histlen) \<leftarrow> feed_loop (repl_backlog_size s) buf (repl_backlog_idx s) (repl_backlog_histlen s) p;
       let histlen = (if histlen > repl_backlog_size s then repl_backlog_size s else histlen);
       Some (s\<lparr>repl_backlog := Some buf, repl_backlog_idx := idx, repl_backlog_histlen := histlen,
         repl_backlog_off := master_repl_offset s - int histlen + 1\<rparr>)
     }"

definition feedReplicationBacklogWithObject :: "(nat \<Rightarrow> byte) \<Rightarrow> rserver \<Rightarrow> strobj \<Rightarrow> rserver option" where
  "feedReplicationBacklogWithObject jk s obj =
     (case obj of
        OInt v \<Rightarrow> do { (len, buf) \<leftarrow> ll2string (map jk [0..<REDIS_LONGSTR_SIZE]) REDIS_LONGSTR_SIZE v;
                     p \<leftarrow> rd_block buf 0 len; feedReplicationBacklog s p }
      | ORaw p \<Rightarrow> feedReplicationBacklog s p)"

section \<open>Feeding the slaves\<close>

text \<open>The commands \<open>shared.select\<close> have the same text as those built for the other databases.\<close>

definition select_cmd :: "(nat \<Rightarrow> byte) \<Rightarrow> int \<Rightarrow> bytes option" where
  "select_cmd jk dictid =
     do {
       (len, buf) \<leftarrow> ll2string (map jk [0..<REDIS_LONGSTR_SIZE]) REDIS_LONGSTR_SIZE dictid;
       llstr \<leftarrow> rd_block buf 0 len;
       Some (num_line 42 2 @ num_line 36 6 @ map of_char ''SELECT'' @ crlf @ num_line 36 (int len) @ llstr @ crlf)
     }"

text \<open>A header line built in \<open>aux\<close>, and the two bytes at its end.\<close>

definition aux_line :: "(nat \<Rightarrow> byte) \<Rightarrow> byte \<Rightarrow> int \<Rightarrow> (bytes \<times> bytes) option" where
  "aux_line jk prefix n =
     do {
       (len, b) \<leftarrow> ll2string (map jk [1..<REDIS_LONGSTR_SIZE + 3]) (REDIS_LONGSTR_SIZE + 2) n;
       let aux = prefix # b;
       aux \<leftarrow> wr aux (len + 1) 13;
       aux \<leftarrow> wr aux (len + 2) 10;
       line \<leftarrow> rd_block aux 0 (len + 3);
       nl \<leftarrow> rd_block aux (len + 1) 2;
       Some (line, nl)
     }"

definition stringObjectLen :: "(nat \<Rightarrow> byte) \<Rightarrow> strobj \<Rightarrow> int option" where
  "stringObjectLen jk obj =
     (case obj of ORaw s \<Rightarrow> Some (int (length s)) | OInt v \<Rightarrow> do { (len, _) \<leftarrow> ll2string (map jk [0..<32]) 32 v; Some (int len) })"

definition feed_argument :: "(nat \<Rightarrow> byte) \<Rightarrow> rserver \<Rightarrow> strobj \<Rightarrow> rserver option" where
  "feed_argument jk s obj =
     do {
       objlen \<leftarrow> stringObjectLen jk obj;
       (line, nl) \<leftarrow> aux_line jk 36 objlen;
       s \<leftarrow> feedReplicationBacklog s line;
       s \<leftarrow> feedReplicationBacklogWithObject jk s obj;
       feedReplicationBacklog s nl
     }"

text \<open>A loop over all slaves.\<close>

definition each_slave :: "(slave \<Rightarrow> oclient option) \<Rightarrow> rserver \<Rightarrow> rserver option" where
  "each_slave f s =
     do { sls \<leftarrow> ofold (\<lambda>acc sl. do { c \<leftarrow> f sl; Some (acc @ [sl\<lparr>sl_client := c\<rparr>]) }) [] (rslaves s); Some (s\<lparr>rslaves := sls\<rparr>) }"

definition replicationFeedSlaves ::
  "bool \<Rightarrow> (oclient \<Rightarrow> bool) \<Rightarrow> (nat \<Rightarrow> byte) \<Rightarrow> rserver \<Rightarrow> int \<Rightarrow> strobj list \<Rightarrow> rserver option" where
  "replicationFeedSlaves ev over jk s dictid argv =
     (if repl_backlog s = None \<and> rslaves s = [] then Some s
      else if rslaves s \<noteq> [] \<and> repl_backlog s = None then None
      else do {
        s \<leftarrow> (if slaveseldb s \<noteq> dictid then
                do {
                  selectcmd \<leftarrow> select_cmd jk dictid;
                  s \<leftarrow> (if repl_backlog s \<noteq> None then feedReplicationBacklogWithObject jk s (ORaw selectcmd) else Some s);
                  each_slave (\<lambda>sl. addReply ev over jk (sl_client sl) (ORaw selectcmd)) s
                }
              else Some s);
        let s = s\<lparr>slaveseldb := dictid\<rparr>;
        s \<leftarrow> (if repl_backlog s \<noteq> None then
                do {
                  (line, _) \<leftarrow> aux_line jk 42 (int (length argv));
                  s \<leftarrow> feedReplicationBacklog s line;
                  ofold (feed_argument jk) s argv
                }
              else Some s);
        each_slave (\<lambda>sl.
          if sl_state sl = REPL_WAIT_BGSAVE_START then Some (sl_client sl)
          else do {
            c \<leftarrow> addReplyMultiBulkLen ev over jk (sl_client sl) (int (length argv));
            ofold (addReplyBulk ev over jk) c argv
          }) s
      })"

section \<open>Partial resynchronization\<close>

partial_function (option) backlog_loop ::
  "bool \<Rightarrow> (oclient \<Rightarrow> bool) \<Rightarrow> rserver \<Rightarrow> oclient \<Rightarrow> nat \<Rightarrow> int \<Rightarrow> oclient option" where
  "backlog_loop ev over s c j len =
     (if len = 0 then Some c
      else do {
        let thislen = (if int (repl_backlog_size s) - int j < len then int (repl_backlog_size s) - int j else len);
        buf \<leftarrow> repl_backlog s;
        chunk \<leftarrow> (if thislen < 0 then None else rd_block buf j (nat thislen));
        backlog_loop ev over s (addReplySds ev over c chunk) 0 (len - thislen)
      })"

definition addReplyReplicationBacklog :: "bool \<Rightarrow> (oclient \<Rightarrow> bool) \<Rightarrow> rserver \<Rightarrow> oclient \<Rightarrow> int \<Rightarrow> (oclient \<times> int) option" where
  "addReplyReplicationBacklog ev over s c offset =
     (if repl_backlog_histlen s = 0 then Some (c, 0)
      else do {
        let skip = offset - repl_backlog_off s;
        let sz = int (repl_backlog_size s);
        let j = (int (repl_backlog_idx s) + (sz - int (repl_backlog_histlen s))) mod sz;
        let j = (j + skip) mod sz;
        c \<leftarrow> backlog_loop ev over s c (nat j) (int (repl_backlog_histlen s) - skip);
        Some (c, int (repl_backlog_histlen s) - skip)
      })"

definition cont_msg :: bytes where "cont_msg = map of_char ''+CONTINUE'' @ crlf"

definition fullresync_msg :: "bytes \<Rightarrow> int \<Rightarrow> bytes" where
  "fullresync_msg runid off = map of_char ''+FULLRESYNC '' @ runid @ [32] @ ll_decimal off @ crlf"

text \<open>
  \<open>same\<close> is the result of comparing the run ids, \<open>off\<close> the offset of the request if it is a
  number, \<open>w\<close> the number of bytes of the message the socket takes.  The flag of the result is the
  return value \<open>REDIS_OK\<close>; the other component is the client after a refusal, with its socket.
\<close>

definition masterTryPartialResynchronization ::
  "bool \<Rightarrow> (oclient \<Rightarrow> bool) \<Rightarrow> bytes \<Rightarrow> rserver \<Rightarrow> nat \<Rightarrow> oclient \<Rightarrow> bool \<Rightarrow> int option \<Rightarrow> nat \<Rightarrow> (rserver \<times> oclient \<times> bytes \<times> bool) option" where
  "masterTryPartialResynchronization ev over runid s i c same off w =
     (let full = (\<lambda>c.
        let off = master_repl_offset s + (if repl_backlog s = None then 1 else 0); msg = fullresync_msg runid off in
        if w < length msg then Some (s, c\<lparr>o_close_asap := True\<rparr>, take w msg, True)
        else Some (s, c, msg, False))
      in
      if \<not> same then full c
      else case off of
        None \<Rightarrow> full (addReplyErrorLength ev over c (map of_char ''value is not an integer or out of range''))
      | Some off \<Rightarrow>
          if repl_backlog s = None \<or> off < repl_backlog_off s \<or> off > repl_backlog_off s + int (repl_backlog_histlen s) then full c
          else
            let c = c\<lparr>o_online := True\<rparr> in
            if w < length cont_msg then
              Some (s\<lparr>rslaves := rslaves s @ [\<lparr>sl_id = i, sl_client = c\<lparr>o_close_asap := True\<rparr>, sl_state = REPL_ONLINE, sl_wire = take w cont_msg\<rparr>]\<rparr>, c, take w cont_msg, True)
            else do {
              (c, _) \<leftarrow> addReplyReplicationBacklog ev over s c off;
              Some (s\<lparr>rslaves := rslaves s @ [\<lparr>sl_id = i, sl_client = c, sl_state = REPL_ONLINE, sl_wire = cont_msg\<rparr>]\<rparr>, c, cont_msg, True)
            })"

section \<open>Synchronization\<close>

datatype rdb_child = NoChild | DiskChild | SocketChild

text \<open>
  \<open>link_down\<close>: the server is itself a slave whose link is not established; \<open>psync\<close>: the command is
  \<open>PSYNC\<close>; \<open>child\<close>, \<open>diskless\<close>, \<open>bgsave\<close>: the child that saves, the mode of replication, and whether
  \<open>startBgsaveForReplication\<close> succeeds.  The second component is the client when it did not become
  a slave.
\<close>

definition add_full_slave :: "(nat \<Rightarrow> byte) \<Rightarrow> rserver \<Rightarrow> nat \<Rightarrow> oclient \<Rightarrow> bytes \<Rightarrow> replstate \<Rightarrow> (rserver \<times> oclient option) option" where
  "add_full_slave jk s i c wire st =
     (let s = s\<lparr>slaveseldb := - 1,
        rslaves := rslaves s @ [\<lparr>sl_id = i, sl_client = c\<lparr>o_online := False\<rparr>, sl_state = st, sl_wire = wire\<rparr>]\<rparr> in
      if length (rslaves s) = 1 \<and> repl_backlog s = None then do { s \<leftarrow> createReplicationBacklog jk s; Some (s, None) }
      else Some (s, None))"

definition syncCommand ::
  "bool \<Rightarrow> (oclient \<Rightarrow> bool) \<Rightarrow> (nat \<Rightarrow> byte) \<Rightarrow> bytes \<Rightarrow> rserver \<Rightarrow> nat \<Rightarrow> oclient \<Rightarrow> bool \<Rightarrow> bool \<Rightarrow> bool \<Rightarrow> int option \<Rightarrow> nat \<Rightarrow>
    rdb_child \<Rightarrow> bool \<Rightarrow> bool \<Rightarrow> (rserver \<times> oclient option) option" where
  "syncCommand ev over jk runid s i c link_down psync same off w child diskless bgsave =
     (if i \<in> set (map sl_id (rslaves s)) then Some (s, None)
      else if link_down then Some (s, Some (addReplyErrorLength ev over c (map of_char ''Can't SYNC while not connected with my master'')))
      else if o_reply c \<noteq> [] \<or> o_buf c \<noteq> [] then
        Some (s, Some (addReplyErrorLength ev over c (map of_char ''SYNC and PSYNC are invalid with pending output'')))
      else do {
        (s, c, wire, ok) \<leftarrow> (if psync then masterTryPartialResynchronization ev over runid s i c same off w else Some (s, c, [], False));
        if ok then Some (s, None)
        else case child of
          DiskChild \<Rightarrow>
            (case find (\<lambda>sl. sl_state sl = REPL_WAIT_BGSAVE_END) (rslaves s) of
               Some sl \<Rightarrow> add_full_slave jk s i (copyClientOutputBuffer c (sl_client sl)) wire REPL_WAIT_BGSAVE_END
             | None \<Rightarrow> add_full_slave jk s i c wire REPL_WAIT_BGSAVE_START)
        | SocketChild \<Rightarrow> add_full_slave jk s i c wire REPL_WAIT_BGSAVE_START
        | NoChild \<Rightarrow>
            if diskless then add_full_slave jk s i c wire REPL_WAIT_BGSAVE_START
            else if \<not> bgsave then Some (s, Some (addReplyErrorLength ev over c (map of_char ''Unable to perform background save'')))
            else add_full_slave jk s i c wire REPL_WAIT_BGSAVE_END
      })"

section \<open>The circular buffer\<close>

text \<open>The last \<open>n\<close> bytes of \<open>T\<close> lie before the index.\<close>

definition circ :: "nat \<Rightarrow> bytes \<Rightarrow> nat \<Rightarrow> nat \<Rightarrow> bytes \<Rightarrow> bool" where
  "circ sz buf idx n T \<longleftrightarrow> length buf = sz \<and> idx < sz \<and> n \<le> sz \<and> n \<le> length T \<and>
     (\<forall>j. 0 < j \<longrightarrow> j \<le> n \<longrightarrow> buf ! ((idx + sz - j) mod sz) = T ! (length T - j))"

lemma circ_chunk:
  assumes c: "circ sz buf idx n T" and l: "length ys \<le> sz - idx"
  shows "\<exists>buf'. wr_block buf idx ys = Some buf' \<and> circ sz buf' (if idx + length ys = sz then 0 else idx + length ys) (min sz (n + length ys)) (T @ ys)"
proof -
  let ?L = "length ys" and ?idx = "if idx + length ys = sz then 0 else idx + length ys"
  have b: "length buf = sz" "idx < sz" "n \<le> sz" "n \<le> length T" using c by (auto simp: circ_def)
  have l': "idx + ?L \<le> sz" using l b(2) by simp
  have w: "wr_block buf idx ys = Some (take idx buf @ ys @ drop (idx + ?L) buf)" using b l by (simp add: wr_block_def)
  let ?buf = "take idx buf @ ys @ drop (idx + ?L) buf"
  have len: "length ?buf = sz" using b l by simp
  have at: "?buf ! k = (if k < idx then buf ! k else if k < idx + ?L then ys ! (k - idx) else buf ! k)" if "k < sz" for k
    using that b l by (auto simp: nth_append)
  have "?buf ! ((?idx + sz - j) mod sz) = (T @ ys) ! (length (T @ ys) - j)" if j: "0 < j" "j \<le> min sz (n + ?L)" for j
  proof -
    have jsz: "j \<le> sz" "j \<le> n + ?L" using j by auto
    have p: "(?idx + sz - j) mod sz = (idx + ?L + sz - j) mod sz"
    proof (cases "idx + ?L = sz")
      case True
      then have "idx + ?L + sz - j = (sz - j) + sz" using jsz by simp
      then show ?thesis using True by simp
    qed simp
    show ?thesis
    proof (cases "j \<le> ?L")
      case True
      have lt: "idx + ?L - j < sz" using l' j(1) b(2) by linarith
      have "idx + ?L + sz - j = (idx + ?L - j) + sz" using True by simp
      then have q: "(idx + ?L + sz - j) mod sz = idx + ?L - j" by (simp only: mod_add_self2 mod_less [OF lt])
      have "\<not> idx + ?L - j < idx" "idx + ?L - j < idx + ?L" "idx + ?L - j - idx = ?L - j" using True j(1) by linarith+
      then have "?buf ! (idx + ?L - j) = ys ! (?L - j)" using at [OF lt] by simp
      moreover have "length (T @ ys) - j = length T + (?L - j)" using True by simp
      ultimately show ?thesis unfolding p q by (simp only: nth_append_length_plus)
    next
      case False
      let ?k = "(idx + sz - (j - ?L)) mod sz"
      have e: "idx + ?L + sz - j = idx + sz - (j - ?L)" using False by simp
      have k: "?k < sz" using b by simp
      have "\<not> (idx \<le> ?k \<and> ?k < idx + ?L)"
      proof (cases "j - ?L \<le> idx")
        case True
        have "idx + sz - (j - ?L) = (idx - (j - ?L)) + sz" using True by simp
        moreover have "idx - (j - ?L) < sz" using b(2) by simp
        ultimately have "?k = idx - (j - ?L)" by (simp only: mod_add_self2 mod_less)
        then show ?thesis using False True by linarith
      next
        case 2: False
        then have "idx + sz - (j - ?L) < sz" using False jsz by linarith
        then have "?k = idx + sz - (j - ?L)" by simp
        then show ?thesis using False jsz by linarith
      qed
      then have "?buf ! ?k = buf ! ?k" using at [OF k] by auto
      also have "\<dots> = T ! (length T - (j - ?L))"
      proof -
        have "0 < j - ?L" "j - ?L \<le> n" using False jsz(2) by linarith+
        then show ?thesis using c unfolding circ_def by blast
      qed
      also have "\<dots> = (T @ ys) ! (length (T @ ys) - j)" using False jsz(2) b by (auto simp: nth_append)
      finally show ?thesis unfolding p e .
    qed
  qed
  moreover have "?idx < sz" using b l by auto
  ultimately have "circ sz ?buf ?idx (min sz (n + ?L)) (T @ ys)" using len b by (auto simp: circ_def)
  then show ?thesis using w by blast
qed

lemma feed_loop_ok:
  "circ sz buf idx (min sz n) T \<Longrightarrow>
    \<exists>buf' idx'. feed_loop sz buf idx n p = Some (buf', idx', n + length p) \<and> circ sz buf' idx' (min sz (n + length p)) (T @ p)"
proof (induction "length p" arbitrary: buf idx n T p rule: less_induct)
  case less
  show ?case
  proof (cases "p = []")
    case True
    then show ?thesis using less.prems by (simp add: feed_loop.simps)
  next
    case False
    define t where "t = (if sz - idx > length p then length p else sz - idx)"
    have idx: "idx < sz" using less.prems by (simp add: circ_def)
    then have t: "0 < t" "t \<le> length p" "t \<le> sz - idx" using False by (auto simp: t_def)
    then have lt: "length (take t p) = t" by simp
    obtain buf1 where b1: "wr_block buf idx (take t p) = Some buf1"
      "circ sz buf1 (if idx + t = sz then 0 else idx + t) (min sz (min sz n + t)) (T @ take t p)"
      using circ_chunk [OF less.prems, of "take t p"] unfolding lt using t(3) by blast
    have m: "min sz (min sz n + t) = min sz (n + t)" by auto
    have "length (drop t p) < length p" using t by simp
    from less.hyps [OF this b1(2) [unfolded m]] obtain buf' idx' where
      l: "feed_loop sz buf1 (if idx + t = sz then 0 else idx + t) (n + t) (drop t p) = Some (buf', idx', n + t + length (drop t p))"
      "circ sz buf' idx' (min sz (n + t + length (drop t p))) ((T @ take t p) @ drop t p)" by blast
    have e: "n + t + length (drop t p) = n + length p" "(T @ take t p) @ drop t p = T @ p" using t(2) by simp_all
    have "feed_loop sz buf idx n p = Some (buf', idx', n + length p)"
      using l(1) unfolding e by (subst feed_loop.simps) (simp only: Let_def t_def [symmetric] False if_False b1(1) bind.bind_lunit)
    then show ?thesis using l(2) unfolding e by blast
  qed
qed

text \<open>The bytes from a position on, with wrap-around.\<close>

definition window :: "nat \<Rightarrow> bytes \<Rightarrow> nat \<Rightarrow> nat \<Rightarrow> bytes" where
  "window sz buf j k = map (\<lambda>i. buf ! ((j + i) mod sz)) [0..<k]"

lemma window_circ:
  assumes "circ sz buf idx n T" "k \<le> n"
  shows "window sz buf ((idx + sz - k) mod sz) k = drop (length T - k) T"
proof (rule nth_equalityI)
  have b: "n \<le> sz" "n \<le> length T" "idx < sz" using assms(1) by (auto simp: circ_def)
  then show "length (window sz buf ((idx + sz - k) mod sz) k) = length (drop (length T - k) T)" using assms(2) by (simp add: window_def)
  fix i assume "i < length (window sz buf ((idx + sz - k) mod sz) k)"
  then have i: "i < k" by (simp add: window_def)
  have "((idx + sz - k) mod sz + i) mod sz = (idx + sz - (k - i)) mod sz"
    using i assms(2) b by (simp add: mod_add_left_eq)
  moreover have "buf ! ((idx + sz - (k - i)) mod sz) = T ! (length T - (k - i))"
  proof -
    have "0 < k - i" "k - i \<le> n" using i assms(2) by linarith+
    then show ?thesis using assms(1) unfolding circ_def by blast
  qed
  moreover have "length T - (k - i) = length T - k + i" using i assms(2) b by linarith
  ultimately show "window sz buf ((idx + sz - k) mod sz) k ! i = drop (length T - k) T ! i" using i b assms(2) by (simp add: window_def)
qed

lemma window_split:
  assumes "length buf = sz" "j < sz" "k \<le> sz"
  shows "window sz buf j k = (if k \<le> sz - j then take k (drop j buf) else drop j buf @ take (k - (sz - j)) buf)"
proof (rule nth_equalityI)
  show "length (window sz buf j k) = length (if k \<le> sz - j then take k (drop j buf) else drop j buf @ take (k - (sz - j)) buf)"
    using assms by (simp add: window_def)
  fix i assume "i < length (window sz buf j k)"
  then have i: "i < k" by (simp add: window_def)
  show "window sz buf j k ! i = (if k \<le> sz - j then take k (drop j buf) else drop j buf @ take (k - (sz - j)) buf) ! i"
  proof (cases "i < sz - j")
    case True
    then have "(j + i) mod sz = j + i" by simp
    then show ?thesis using True i assms by (auto simp: window_def nth_append)
  next
    case False
    then have w: "j + i = (i - (sz - j)) + sz" "i - (sz - j) < sz" using i assms by linarith+
    then have "(j + i) mod sz = i - (sz - j)" by (metis mod_add_self2 mod_less)
    then show ?thesis using False i assms by (auto simp: window_def nth_append)
  qed
qed

lemma backlog_loop_ok:
  assumes "repl_backlog s = Some buf" "length buf = repl_backlog_size s" "j < repl_backlog_size s" "k \<le> repl_backlog_size s" "out_rep ev c xs"
  shows "\<exists>c'. backlog_loop ev over s c j (int k) = Some c' \<and> out_rep ev c' (xs @ window (repl_backlog_size s) buf j k) \<and>
    (\<exists>ps. c' = foldl (push_bytes ev over) c ps)"
proof -
  let ?sz = "repl_backlog_size s"
  have zero: "backlog_loop ev over s c' 0 0 = Some c'" for c' by (simp add: backlog_loop.simps)
  have one: "backlog_loop ev over s c' i (int m) = Some (push_bytes ev over c' (take m (drop i buf)))" if "0 < m" "i + m \<le> ?sz" for c' i m
  proof -
    have "rd_block buf i m = Some (take m (drop i buf))" using that assms(2) by (simp add: rd_block_def)
    moreover have "\<not> int ?sz - int i < int m" using that by linarith
    ultimately show ?thesis using that(1) assms(1) zero by (subst backlog_loop.simps) (simp add: push_bytes_eqs Let_def)
  qed
  show ?thesis
  proof (cases "k \<le> ?sz - j")
    case True
    then have w: "window ?sz buf j k = take k (drop j buf)" using window_split [OF assms(2-4)] by simp
    show ?thesis
    proof (cases "k = 0")
      case True
      then show ?thesis using assms(5) by (auto simp: backlog_loop.simps window_def intro!: exI [of _ "[]"])
    next
      case False
      then show ?thesis using one [of k j c] True assms(3) push_rep [OF assms(5)] w by (auto intro!: exI [of _ "[take k (drop j buf)]"])
    qed
  next
    case False
    then have w: "window ?sz buf j k = drop j buf @ take (k - (?sz - j)) buf" using window_split [OF assms(2-4)] by simp
    have lt: "int ?sz - int j < int k" "0 < k" using False assms(3) by linarith+
    have rd: "rd_block buf j (nat (int ?sz - int j)) = Some (drop j buf)" using assms(2,3) by (simp add: rd_block_def nat_diff_distrib)
    have m: "int k - (int ?sz - int j) = int (k - (?sz - j))" using False assms(3) by linarith
    have "backlog_loop ev over s c j (int k) = backlog_loop ev over s (push_bytes ev over c (drop j buf)) 0 (int (k - (?sz - j)))"
      using lt rd assms(1,3) unfolding m [symmetric] by (subst backlog_loop.simps) (simp add: push_bytes_eqs Let_def)
    also have "\<dots> = Some (push_bytes ev over (push_bytes ev over c (drop j buf)) (take (k - (?sz - j)) buf))"
      using one [of "k - (?sz - j)" 0] False assms(4) by simp
    finally show ?thesis using push_rep [OF push_rep [OF assms(5)]] w by (auto intro!: exI [of _ "[drop j buf, take (k - (?sz - j)) buf]"])
  qed
qed

section \<open>The stream\<close>

text \<open>
  \<open>H\<close> is what was fed since the backlog was created, when the offset of the master was \<open>b\<close>; the
  first byte of \<open>H\<close> has the offset \<open>b + 1\<close>.
\<close>

definition bl_ok :: "int \<Rightarrow> bytes \<Rightarrow> rserver \<Rightarrow> bool" where
  "bl_ok b H s \<longleftrightarrow> (\<exists>buf. repl_backlog s = Some buf \<and> circ (repl_backlog_size s) buf (repl_backlog_idx s) (repl_backlog_histlen s) H) \<and>
     master_repl_offset s = b + int (length H) \<and> repl_backlog_off s = master_repl_offset s - int (repl_backlog_histlen s) + 1"

definition suffix_from :: "int \<Rightarrow> bytes \<Rightarrow> int \<Rightarrow> bytes" where
  "suffix_from b H off = drop (nat (off - b - 1)) H"

lemma feed_ok:
  assumes "bl_ok b H s"
  shows "\<exists>s'. feedReplicationBacklog s p = Some s' \<and> bl_ok b (H @ p) s' \<and> rslaves s' = rslaves s \<and> slaveseldb s' = slaveseldb s"
proof -
  obtain buf where c: "repl_backlog s = Some buf" "circ (repl_backlog_size s) buf (repl_backlog_idx s) (repl_backlog_histlen s) H"
    "master_repl_offset s = b + int (length H)" using assms by (auto simp: bl_ok_def)
  let ?sz = "repl_backlog_size s" and ?n = "repl_backlog_histlen s"
  have "min ?sz ?n = ?n" using c(2) by (auto simp: circ_def)
  then obtain buf' idx' where l: "feed_loop ?sz buf (repl_backlog_idx s) ?n p = Some (buf', idx', ?n + length p)"
    "circ ?sz buf' idx' (min ?sz (?n + length p)) (H @ p)" using feed_loop_ok [of ?sz buf "repl_backlog_idx s" ?n H p] c(2) by auto
  then show ?thesis using c(1,3) by (auto simp: feedReplicationBacklog_def Let_def bl_ok_def min_def split: if_splits)
qed

lemma backlog_reply:
  assumes bl: "bl_ok b H s" and o: "repl_backlog_off s \<le> off" "off \<le> repl_backlog_off s + int (repl_backlog_histlen s)" and c: "out_rep ev c xs"
  shows "\<exists>c' n. addReplyReplicationBacklog ev over s c off = Some (c', n) \<and> out_rep ev c' (xs @ suffix_from b H off) \<and> (\<exists>ps. c' = foldl (push_bytes ev over) c ps) \<and>
    b < off \<and> off \<le> b + int (length H) + 1"
proof -
  let ?sz = "repl_backlog_size s" and ?n = "repl_backlog_histlen s" and ?i = "repl_backlog_idx s"
  obtain buf where buf: "repl_backlog s = Some buf" "circ ?sz buf ?i ?n H" "master_repl_offset s = b + int (length H)"
    "repl_backlog_off s = b + int (length H) - int ?n + 1" using bl by (auto simp: bl_ok_def)
  have bd: "?n \<le> ?sz" "?n \<le> length H" "?i < ?sz" "length buf = ?sz" using buf(2) by (auto simp: circ_def)
  define k where "k = nat (int ?n - (off - repl_backlog_off s))"
  have k: "int ?n - (off - repl_backlog_off s) = int k" "k \<le> ?n" using o by (auto simp: k_def)
  have suf: "suffix_from b H off = drop (length H - k) H" unfolding suffix_from_def using k buf(4) bd(2) by (intro arg_cong [where f = "\<lambda>x. drop x H"]) linarith
  have bnd: "b < off" "off \<le> b + int (length H) + 1" using o buf(4) bd(2) by linarith+
  show ?thesis
  proof (cases "?n = 0")
    case True
    then show ?thesis using c k(2) suf bnd by (auto simp: addReplyReplicationBacklog_def intro!: exI [of _ "[]"])
  next
    case False
    have j: "((int ?i + (int ?sz - int ?n)) mod int ?sz + (off - repl_backlog_off s)) mod int ?sz = int ((?i + ?sz - k) mod ?sz)"
    proof -
      have "int ?i + (int ?sz - int ?n) + (off - repl_backlog_off s) = int (?i + ?sz - k)" using k bd by linarith
      then show ?thesis by (simp add: mod_add_left_eq zmod_int)
    qed
    have "(?i + ?sz - k) mod ?sz < ?sz" using bd by simp
    then obtain c' where c': "backlog_loop ev over s c ((?i + ?sz - k) mod ?sz) (int k) = Some c'"
      "out_rep ev c' (xs @ window ?sz buf ((?i + ?sz - k) mod ?sz) k)" "\<exists>ps. c' = foldl (push_bytes ev over) c ps"
      using backlog_loop_ok [OF buf(1) bd(4) _ _ c, of "(?i + ?sz - k) mod ?sz" k over] k(2) bd(1) by auto
    have "addReplyReplicationBacklog ev over s c off = Some (c', int k)"
      unfolding addReplyReplicationBacklog_def Let_def j k(1) if_not_P [OF False] nat_int c'(1) bind.bind_lunit ..
    then show ?thesis using c'(2,3) window_circ [OF buf(2) k(2)] suf bnd by auto
  qed
qed

text \<open>The text of a command in the stream.\<close>

definition arg_ok :: "strobj \<Rightarrow> bool" where
  "arg_ok obj \<longleftrightarrow> obj_ok obj \<and> obj \<noteq> OInt (- (2 ^ 63))"

definition cmd_pieces :: "strobj list \<Rightarrow> bytes list" where
  "cmd_pieces argv = num_line 42 (int (length argv)) # concat (map (\<lambda>a. [num_line 36 (int (length (obj_bytes a))), obj_bytes a, crlf]) argv)"

definition select_bytes :: "int \<Rightarrow> bytes" where
  "select_bytes dictid = num_line 42 2 @ num_line 36 6 @ map of_char ''SELECT'' @ crlf @ bulk_bytes (ll_decimal dictid)"

definition fed_pieces :: "rserver \<Rightarrow> int \<Rightarrow> strobj list \<Rightarrow> bytes list" where
  "fed_pieces s dictid argv = (if slaveseldb s \<noteq> dictid then [select_bytes dictid] else []) @ cmd_pieces argv"

lemma aux_line_ok:
  assumes "in_sint 64 n"
  shows "aux_line jk prefix n = Some (num_line prefix n, crlf)"
proof -
  obtain rest where r: "ll2string (map jk [1..<REDIS_LONGSTR_SIZE + 3]) (REDIS_LONGSTR_SIZE + 2) n = Some (length (ll_decimal n), ll_decimal n @ 0 # rest)"
    "length (ll_decimal n @ 0 # rest) = 23"
    using ll2string_text [OF assms, of "REDIS_LONGSTR_SIZE + 2" "map jk [1..<REDIS_LONGSTR_SIZE + 3]"] by (auto simp: REDIS_LONGSTR_SIZE_def)
  have l: "2 \<le> length rest" using r(2) length_ll_decimal_le [OF assms] by simp
  then obtain x y r' where rest: "rest = x # y # r'" by (metis Suc_le_length_iff numeral_2_eq_2)
  have t: "take (length xs + 3) (p # xs @ 13 # 10 # ys) = p # xs @ [13, 10]" for p xs and ys :: bytes by (simp add: numeral_3_eq_3)
  show ?thesis unfolding aux_line_def r(1) rest
    by (simp add: Let_def wr_def rd_block_def list_update_append num_line_def crlf_def t numeral_2_eq_2)
qed

lemma select_cmd_ok: "in_sint 64 d \<Longrightarrow> select_cmd jk d = Some (select_bytes d)"
  using ll2string_text [of d REDIS_LONGSTR_SIZE "map jk [0..<REDIS_LONGSTR_SIZE]"] rd_block_prefix [of "ll_decimal d"]
  by (auto simp: select_cmd_def select_bytes_def bulk_bytes_def REDIS_LONGSTR_SIZE_def)

lemma stringObjectLen_ok: "obj_ok obj \<Longrightarrow> stringObjectLen jk obj = Some (int (length (obj_bytes obj)))"
proof (cases obj)
  case (OInt v)
  assume "obj_ok obj"
  then show ?thesis using OInt ll2string_text [of v 32 "map jk [0..<32]"] by (auto simp: stringObjectLen_def obj_bytes_def)
qed (simp add: stringObjectLen_def obj_bytes_def)

lemma feed_object_ok:
  assumes "bl_ok b H s" "obj_ok obj"
  shows "\<exists>s'. feedReplicationBacklogWithObject jk s obj = Some s' \<and> bl_ok b (H @ obj_bytes obj) s' \<and> rslaves s' = rslaves s \<and> slaveseldb s' = slaveseldb s"
proof (cases obj)
  case (ORaw p)
  then show ?thesis using feed_ok [OF assms(1), of p] by (simp add: feedReplicationBacklogWithObject_def obj_bytes_def)
next
  case (OInt v)
  then have v: "in_sint 64 v" using assms(2) by simp
  obtain rest where "ll2string (map jk [0..<REDIS_LONGSTR_SIZE]) REDIS_LONGSTR_SIZE v = Some (length (ll_decimal v), ll_decimal v @ 0 # rest)"
    using ll2string_text [OF v, of REDIS_LONGSTR_SIZE "map jk [0..<REDIS_LONGSTR_SIZE]"] by (auto simp: REDIS_LONGSTR_SIZE_def)
  then show ?thesis using OInt feed_ok [OF assms(1), of "ll_decimal v"] rd_block_prefix [of "ll_decimal v" "0 # rest"]
    by (simp add: feedReplicationBacklogWithObject_def obj_bytes_def)
qed

lemma arg_bytes_len: "obj_ok obj \<Longrightarrow> in_sint 64 (int (length (obj_bytes obj)))"
proof (cases obj)
  case (OInt v)
  assume "obj_ok obj"
  then have "length (ll_decimal v) \<le> 20" using OInt length_ll_decimal_le [of v] by simp
  then show ?thesis using OInt by (simp add: obj_bytes_def)
qed (simp add: obj_bytes_def)

lemma feed_argument_ok:
  assumes "bl_ok b H s" "obj_ok obj"
  shows "\<exists>s'. feed_argument jk s obj = Some s' \<and> bl_ok b (H @ num_line 36 (int (length (obj_bytes obj))) @ obj_bytes obj @ crlf) s' \<and>
    rslaves s' = rslaves s \<and> slaveseldb s' = slaveseldb s"
proof -
  let ?line = "num_line 36 (int (length (obj_bytes obj)))"
  obtain s1 where s1: "feedReplicationBacklog s ?line = Some s1" "bl_ok b (H @ ?line) s1" "rslaves s1 = rslaves s" "slaveseldb s1 = slaveseldb s"
    using feed_ok [OF assms(1)] by blast
  obtain s2 where s2: "feedReplicationBacklogWithObject jk s1 obj = Some s2" "bl_ok b ((H @ ?line) @ obj_bytes obj) s2" "rslaves s2 = rslaves s1" "slaveseldb s2 = slaveseldb s1"
    using feed_object_ok [OF s1(2) assms(2)] by blast
  obtain s3 where s3: "feedReplicationBacklog s2 crlf = Some s3" "bl_ok b (((H @ ?line) @ obj_bytes obj) @ crlf) s3" "rslaves s3 = rslaves s2" "slaveseldb s3 = slaveseldb s2"
    using feed_ok [OF s2(2)] by blast
  show ?thesis using s1 s2 s3 stringObjectLen_ok [OF assms(2)] aux_line_ok [OF arg_bytes_len [OF assms(2)]] by (simp add: feed_argument_def)
qed

lemma feed_arguments_ok:
  assumes "bl_ok b H s" "list_all arg_ok argv"
  shows "\<exists>s'. ofold (feed_argument jk) s argv = Some s' \<and>
    bl_ok b (H @ concat (concat (map (\<lambda>a. [num_line 36 (int (length (obj_bytes a))), obj_bytes a, crlf]) argv))) s' \<and> rslaves s' = rslaves s \<and> slaveseldb s' = slaveseldb s"
  using assms
proof (induction argv arbitrary: s H)
  case (Cons a argv)
  obtain s1 where s1: "feed_argument jk s a = Some s1" "bl_ok b (H @ num_line 36 (int (length (obj_bytes a))) @ obj_bytes a @ crlf) s1"
    "rslaves s1 = rslaves s" "slaveseldb s1 = slaveseldb s"
    using feed_argument_ok [OF Cons.prems(1), of a jk] Cons.prems(2) by (auto simp: arg_ok_def)
  then show ?case using Cons.IH [OF s1(2)] Cons.prems(2) by auto
qed simp

text \<open>What a slave is sent.\<close>

lemma bulk_pieces: "arg_ok a \<Longrightarrow> addReplyBulk ev over jk c a = Some (foldl (push_bytes ev over) c [num_line 36 (int (length (obj_bytes a))), obj_bytes a, crlf])"
  by (simp add: addReplyBulk_def arg_ok_def bulklen_eq addReply_eq push_bytes_eqs)

lemma bulks_pieces:
  "list_all arg_ok argv \<Longrightarrow> ofold (addReplyBulk ev over jk) c argv =
    Some (foldl (push_bytes ev over) c (concat (map (\<lambda>a. [num_line 36 (int (length (obj_bytes a))), obj_bytes a, crlf]) argv)))"
proof (induction argv arbitrary: c)
  case (Cons a argv)
  then show ?case by (simp add: bulk_pieces)
qed simp

lemma cmd_to_slave:
  assumes "list_all arg_ok argv" "length argv < 2 ^ 63"
  shows "addReplyMultiBulkLen ev over jk c (int (length argv)) \<bind> (\<lambda>c. ofold (addReplyBulk ev over jk) c argv) = Some (foldl (push_bytes ev over) c (cmd_pieces argv))"
  using multibulk_eq [of "int (length argv)" ev over jk c] assms(2) bulks_pieces [OF assms(1)] by (simp add: cmd_pieces_def)

lemma each_slave_ok:
  assumes "\<And>sl. sl \<in> set (rslaves s) \<Longrightarrow> f sl = Some (g sl)"
  shows "each_slave f s = Some (s\<lparr>rslaves := map (\<lambda>sl. sl\<lparr>sl_client := g sl\<rparr>) (rslaves s)\<rparr>)"
proof -
  have "ofold (\<lambda>acc sl. do { c \<leftarrow> f sl; Some (acc @ [sl\<lparr>sl_client := c\<rparr>]) }) acc sls = Some (acc @ map (\<lambda>sl. sl\<lparr>sl_client := g sl\<rparr>) sls)"
    if "set sls \<subseteq> set (rslaves s)" for acc sls
    using that by (induction sls arbitrary: acc) (simp_all add: assms)
  then show ?thesis by (simp add: each_slave_def)
qed

section \<open>Slaves\<close>

lemma push_keeps:
  "conn (push_bytes ev over c p) = conn c" "o_sentlen (push_bytes ev over c p) = o_sentlen c"
  "complete c \<Longrightarrow> complete (push_bytes ev over c p)"
proof -
  have glue: "None \<in> set (addReply_glue r p) \<Longrightarrow> None \<in> set r" for r
    by (auto simp: addReply_glue_def Let_def split: if_splits option.splits dest: in_set_butlastD)
  show "conn (push_bytes ev over c p) = conn c" "o_sentlen (push_bytes ev over c p) = o_sentlen c"
    "complete c \<Longrightarrow> complete (push_bytes ev over c p)"
    using glue [of "o_reply c"]
    by (auto simp: push_bytes_def prepare_eq addReplyToBuffer_def addReplyStringToList_def asyncCloseClientOnOutputBufferLimitReached_def
        complete_def conn_def Let_def split_beta split: if_splits)
qed

lemma pushes_keep:
  "conn (foldl (push_bytes ev over) c ps) = conn c" "o_sentlen (foldl (push_bytes ev over) c ps) = o_sentlen c"
  "complete c \<Longrightarrow> complete (foldl (push_bytes ev over) c ps)"
  by (induction ps arbitrary: c) (simp_all add: push_keeps)

text \<open>A client that takes replies and has no placeholder queued; whether it does depends on its connection only.\<close>

definition sink :: "oclient \<Rightarrow> bool" where
  "sink c \<longleftrightarrow> out_rep True c (pending c) \<and> complete c"

lemma writable_conn: "conn c' = conn c \<Longrightarrow> writable True c' = writable True c"
  by (simp add: writable_def prepareClientToWrite_def conn_def)

lemma sink_pushes: "sink c \<Longrightarrow> sink (foldl (push_bytes True over) c ps) \<and> pending (foldl (push_bytes True over) c ps) = pending c @ concat ps"
  using pushes_rep [of True c "pending c" over ps] pushes_keep(3) [of c True over ps] by (auto simp: sink_def out_rep_def)

lemma sink_sends:
  assumes "sink c" "sendReplyToClient nolimit c ws = Some (Some c', out)"
  shows "sink c' \<and> out @ pending c' = pending c"
proof -
  have c: "owf c" "complete c" "handler_ok c" "writable True c" "\<not> o_close_after c" using assms(1) by (auto simp: sink_def out_rep_def)
  obtain c1 o1 w where s: "send_loop nolimit c ws 0 [] = Some (c1, o1, w)" "o1 @ pending c1 = pending c" "owf c1" "complete c1"
    "o_close_after c1 = o_close_after c" "o_handler c1 = o_handler c" "conn c1 = conn c"
    using send_loop_ok [OF c(1,2), of "[]" nolimit ws 0] by (auto simp: sent_ok_def)
  have w: "w \<noteq> WError" using assms(2) s(1) by (auto simp: sendReplyToClient_def)
  have wr: "writable True c1" using writable_conn [OF s(7)] c(4) by simp
  show ?thesis
  proof (cases "o_buf c1 = [] \<and> o_reply c1 = []")
    case True
    then have "c' = c1\<lparr>o_sentlen := 0, o_handler := False\<rparr>" "out = o1" using assms(2) s(1,5) c(5) w by (auto simp: sendReplyToClient_def)
    moreover have "pending c1 = []" "writable True (c1\<lparr>o_sentlen := 0, o_handler := False\<rparr>)" using True writable_conn [of "c1\<lparr>o_sentlen := 0, o_handler := False\<rparr>" c1] wr by (simp_all add: pending_def)
    ultimately show ?thesis using s c(5) True by (simp add: sink_def out_rep_def owf_def handler_ok_def pending_def complete_def)
  next
    case False
    then have e: "c' = c1" "out = o1" using assms(2) s(1) w by (auto simp: sendReplyToClient_def)
    have "handler_ok c1"
    proof (cases "o_buf c = [] \<and> o_reply c = []")
      case True
      then have "send_loop nolimit c ws 0 [] = Some (c, [], Accepts 0)" by (subst send_loop.simps) (simp add: Let_def)
      then show ?thesis using s(1) c(3) by simp
    next
      case False
      then show ?thesis using c(3) s(6,7) by (auto simp: handler_ok_def conn_def)
    qed
    then show ?thesis using s c(5) wr e by (simp add: sink_def out_rep_def)
  qed
qed

text \<open>
  The invariant.  \<open>f\<close> gives for a slave the offset from which on it has to get the stream, if it
  is known: the offset of its partial resynchronization, or the start of the snapshot it waits for.
\<close>

definition slave_ok :: "int \<Rightarrow> bytes \<Rightarrow> (nat \<Rightarrow> int option) \<Rightarrow> slave \<Rightarrow> bool" where
  "slave_ok b H f sl \<longleftrightarrow> sink (sl_client sl) \<and>
     (\<forall>from. f (sl_id sl) = Some from \<longrightarrow> b < from \<and> from \<le> b + int (length H) + 1 \<and>
        (case sl_state sl of
           REPL_ONLINE \<Rightarrow> sl_wire sl @ pending (sl_client sl) = cont_msg @ suffix_from b H from
         | REPL_WAIT_BGSAVE_END \<Rightarrow> pending (sl_client sl) = suffix_from b H from \<and> o_sentlen (sl_client sl) = 0
         | REPL_WAIT_BGSAVE_START \<Rightarrow> False))"

definition repl_inv :: "int \<Rightarrow> rserver \<Rightarrow> bytes \<Rightarrow> (nat \<Rightarrow> int option) \<Rightarrow> bool" where
  "repl_inv b s H f \<longleftrightarrow> distinct (map sl_id (rslaves s)) \<and> (\<forall>sl\<in>set (rslaves s). slave_ok b H f sl) \<and>
     master_repl_offset s = b + int (length H) \<and> 0 < repl_backlog_size s \<and>
     (if repl_backlog s = None then rslaves s = [] else bl_ok b H s)"

lemma suffix_from_append: "b < from \<Longrightarrow> from \<le> b + int (length H) + 1 \<Longrightarrow> suffix_from b (H @ p) from = suffix_from b H from @ p"
  by (simp add: suffix_from_def)

lemma slave_ok_fed:
  assumes "slave_ok b H f sl"
  shows "sl_state sl \<noteq> REPL_WAIT_BGSAVE_START \<Longrightarrow> slave_ok b (H @ concat ps) f (sl\<lparr>sl_client := foldl (push_bytes True over) (sl_client sl) ps\<rparr>)"
    and "sl_state sl = REPL_WAIT_BGSAVE_START \<Longrightarrow> slave_ok b H' f (sl\<lparr>sl_client := foldl (push_bytes True over) (sl_client sl) ps\<rparr>)"
proof -
  have k: "sink (foldl (push_bytes True over) (sl_client sl) ps)" "pending (foldl (push_bytes True over) (sl_client sl) ps) = pending (sl_client sl) @ concat ps"
    "o_sentlen (foldl (push_bytes True over) (sl_client sl) ps) = o_sentlen (sl_client sl)"
    using sink_pushes [of "sl_client sl" over ps] pushes_keep(2) [of True over "sl_client sl" ps] assms by (auto simp: slave_ok_def)
  show "sl_state sl \<noteq> REPL_WAIT_BGSAVE_START \<Longrightarrow> slave_ok b (H @ concat ps) f (sl\<lparr>sl_client := foldl (push_bytes True over) (sl_client sl) ps\<rparr>)"
    using assms k by (cases "sl_state sl") (auto simp: slave_ok_def suffix_from_append simp flip: append_assoc)
  show "sl_state sl = REPL_WAIT_BGSAVE_START \<Longrightarrow> slave_ok b H' f (sl\<lparr>sl_client := foldl (push_bytes True over) (sl_client sl) ps\<rparr>)"
    using assms k by (auto simp: slave_ok_def)
qed

lemma map_slave_ids: "map sl_id (map (\<lambda>sl. sl\<lparr>sl_client := g sl\<rparr>) sls) = map sl_id sls"
  by (induction sls) simp_all

lemma feed_slaves_ok:
  assumes inv: "repl_inv b s H f" and bl: "repl_backlog s \<noteq> None" and a: "list_all arg_ok argv" "length argv < 2 ^ 63" "in_sint 64 dictid"
  shows "\<exists>s'. replicationFeedSlaves True over jk s dictid argv = Some s' \<and> repl_inv b s' (H @ concat (fed_pieces s dictid argv)) f \<and>
    slaveseldb s' = dictid \<and>
    rslaves s' = map (\<lambda>sl. sl\<lparr>sl_client := foldl (push_bytes True over) (sl_client sl)
      (if sl_state sl = REPL_WAIT_BGSAVE_START then (if slaveseldb s \<noteq> dictid then [select_bytes dictid] else []) else fed_pieces s dictid argv)\<rparr>) (rslaves s)"
proof -
  let ?sel = "if slaveseldb s \<noteq> dictid then [select_bytes dictid] else []"
  let ?push = "foldl (push_bytes True over)"
  have b0: "bl_ok b H s" using inv bl by (auto simp: repl_inv_def)
  have sel: "\<exists>s1. (if slaveseldb s \<noteq> dictid then do { selectcmd \<leftarrow> select_cmd jk dictid;
                  s \<leftarrow> (if repl_backlog s \<noteq> None then feedReplicationBacklogWithObject jk s (ORaw selectcmd) else Some s);
                  each_slave (\<lambda>sl. addReply True over jk (sl_client sl) (ORaw selectcmd)) s } else Some s) = Some s1 \<and>
      bl_ok b (H @ concat ?sel) s1 \<and> rslaves s1 = map (\<lambda>sl. sl\<lparr>sl_client := ?push (sl_client sl) ?sel\<rparr>) (rslaves s)"
  proof (cases "slaveseldb s = dictid")
    case True
    then show ?thesis using b0 by (simp add: map_idI)
  next
    case False
    obtain s1 where s1: "feedReplicationBacklogWithObject jk s (ORaw (select_bytes dictid)) = Some s1" "bl_ok b (H @ select_bytes dictid) s1" "rslaves s1 = rslaves s"
      using feed_ok [OF b0, of "select_bytes dictid"] by (auto simp: feedReplicationBacklogWithObject_def)
    have "each_slave (\<lambda>sl. addReply True over jk (sl_client sl) (ORaw (select_bytes dictid))) s1 =
        Some (s1\<lparr>rslaves := map (\<lambda>sl. sl\<lparr>sl_client := push_bytes True over (sl_client sl) (select_bytes dictid)\<rparr>) (rslaves s1)\<rparr>)"
      by (rule each_slave_ok) (simp add: push_bytes_eqs)
    then show ?thesis using False s1 bl select_cmd_ok [OF a(3), of jk] by (simp add: bl_ok_def)
  qed
  then obtain s1 where s1: "(if slaveseldb s \<noteq> dictid then do { selectcmd \<leftarrow> select_cmd jk dictid;
                  s \<leftarrow> (if repl_backlog s \<noteq> None then feedReplicationBacklogWithObject jk s (ORaw selectcmd) else Some s);
                  each_slave (\<lambda>sl. addReply True over jk (sl_client sl) (ORaw selectcmd)) s } else Some s) = Some s1"
    "bl_ok b (H @ concat ?sel) s1" "rslaves s1 = map (\<lambda>sl. sl\<lparr>sl_client := ?push (sl_client sl) ?sel\<rparr>) (rslaves s)" by blast
  let ?s1 = "s1\<lparr>slaveseldb := dictid\<rparr>"
  have b1: "bl_ok b (H @ concat ?sel) ?s1" using s1(2) by (simp add: bl_ok_def)
  have line: "aux_line jk 42 (int (length argv)) = Some (num_line 42 (int (length argv)), crlf)" using a(2) by (intro aux_line_ok) simp
  obtain s2 where s2: "feedReplicationBacklog ?s1 (num_line 42 (int (length argv))) = Some s2" "bl_ok b ((H @ concat ?sel) @ num_line 42 (int (length argv))) s2"
    "rslaves s2 = rslaves s1" "slaveseldb s2 = dictid" using feed_ok [OF b1, of "num_line 42 (int (length argv))"] by auto
  obtain s3 where s3: "ofold (feed_argument jk) s2 argv = Some s3" "bl_ok b (H @ concat (fed_pieces s dictid argv)) s3" "rslaves s3 = rslaves s1" "slaveseldb s3 = dictid"
    using feed_arguments_ok [OF s2(2) a(1), of jk] s2(3,4) by (auto simp: fed_pieces_def cmd_pieces_def)
  let ?g = "\<lambda>sl. if sl_state sl = REPL_WAIT_BGSAVE_START then sl_client sl else ?push (sl_client sl) (cmd_pieces argv)"
  have each: "each_slave (\<lambda>sl. if sl_state sl = REPL_WAIT_BGSAVE_START then Some (sl_client sl)
          else do { c \<leftarrow> addReplyMultiBulkLen True over jk (sl_client sl) (int (length argv)); ofold (addReplyBulk True over jk) c argv }) s3 =
      Some (s3\<lparr>rslaves := map (\<lambda>sl. sl\<lparr>sl_client := ?g sl\<rparr>) (rslaves s3)\<rparr>)"
    by (rule each_slave_ok) (simp add: cmd_to_slave [OF a(1,2)])
  let ?h = "\<lambda>sl. sl\<lparr>sl_client := ?push (sl_client sl) (if sl_state sl = REPL_WAIT_BGSAVE_START then ?sel else fed_pieces s dictid argv)\<rparr>"
  let ?s' = "s3\<lparr>rslaves := map ?h (rslaves s)\<rparr>"
  have sls: "map (\<lambda>sl. sl\<lparr>sl_client := ?g sl\<rparr>) (rslaves s3) = map ?h (rslaves s)"
    unfolding s3(3) s1(3) by (auto simp: fed_pieces_def)
  have "replicationFeedSlaves True over jk s dictid argv = Some ?s'"
    using bl s1(1) b1 line s2(1) s3(1) each unfolding replicationFeedSlaves_def sls by (auto simp: bl_ok_def Let_def)
  moreover have "repl_inv b ?s' (H @ concat (fed_pieces s dictid argv)) f"
  proof -
    have "slave_ok b (H @ concat (fed_pieces s dictid argv)) f (?h sl)" if "sl \<in> set (rslaves s)" for sl
      using slave_ok_fed [of b H f sl] inv that by (auto simp: repl_inv_def)
    moreover have "map sl_id (map ?h (rslaves s)) = map sl_id (rslaves s)" by (rule map_slave_ids)
    moreover have "bl_ok b (H @ concat (fed_pieces s dictid argv)) ?s'" using s3(2) by (simp add: bl_ok_def)
    ultimately show ?thesis using inv s3(2) unfolding repl_inv_def by (auto simp: bl_ok_def circ_def simp del: map_map)
  qed
  ultimately show ?thesis using s3(4) by (intro exI [of _ ?s']) simp
qed

section \<open>Runs of a master\<close>

text \<open>
  The events of a master: commands to propagate, synchronization requests, the write handler of
  an online slave, slaves that disconnect, and the change, the release and the creation of the
  backlog.  The history \<open>H\<close> of the stream starts again with a new backlog, and \<open>joined\<close> says from
  where a new slave has to get it: a slave that shares the snapshot of another one starts where
  that one did.  Nothing is said of a slave whose request had no proper offset or whose socket
  did not take the answer.
\<close>

definition joined :: "rserver \<Rightarrow> rserver \<Rightarrow> rdb_child \<Rightarrow> int option \<Rightarrow> nat \<Rightarrow> (nat \<Rightarrow> int option) \<Rightarrow> int option" where
  "joined s s' child off w f =
     (if off = None then None
      else case sl_state (last (rslaves s')) of
        REPL_ONLINE \<Rightarrow> if w < length cont_msg then None else off
      | REPL_WAIT_BGSAVE_START \<Rightarrow> None
      | REPL_WAIT_BGSAVE_END \<Rightarrow>
          (case find (\<lambda>sl. sl_state sl = REPL_WAIT_BGSAVE_END) (rslaves s) of
             Some sl \<Rightarrow> if child = DiskChild then f (sl_id sl) else Some (master_repl_offset s' + 1)
           | None \<Rightarrow> Some (master_repl_offset s' + 1)))"

inductive replicated ::
  "(oclient \<Rightarrow> bool) \<Rightarrow> (nat \<Rightarrow> byte) \<Rightarrow> bytes \<Rightarrow> int \<Rightarrow> rserver \<Rightarrow> bytes \<Rightarrow> (nat \<Rightarrow> int option) \<Rightarrow> bool"
  for over jk runid
where
  start: "repl_backlog s = None \<Longrightarrow> rslaves s = [] \<Longrightarrow> 0 < repl_backlog_size s \<Longrightarrow> replicated over jk runid (master_repl_offset s) s [] (\<lambda>_. None)"
| feed: "replicated over jk runid b s H f \<Longrightarrow> list_all arg_ok argv \<Longrightarrow> length argv < 2 ^ 63 \<Longrightarrow> in_sint 64 dictid \<Longrightarrow>
    replicationFeedSlaves True over jk s dictid argv = Some s' \<Longrightarrow>
    replicated over jk runid b s' (if repl_backlog s = None then H else H @ concat (fed_pieces s dictid argv)) f"
| sync: "replicated over jk runid b s H f \<Longrightarrow> sink c \<Longrightarrow>
    syncCommand True over jk runid s i c link psync same off w child diskless bgsave = Some (s', r) \<Longrightarrow>
    replicated over jk runid (if repl_backlog s = repl_backlog s' then b else master_repl_offset s') s' (if repl_backlog s = repl_backlog s' then H else [])
      (if rslaves s' = rslaves s then f else f(i := joined s s' child off w f))"
| sends: "replicated over jk runid b s H f \<Longrightarrow> rslaves s = us @ sl # vs \<Longrightarrow> sl_state sl = REPL_ONLINE \<Longrightarrow>
    sendReplyToClient nolimit (sl_client sl) ws = Some (Some c', out) \<Longrightarrow>
    replicated over jk runid b (s\<lparr>rslaves := us @ sl\<lparr>sl_client := c', sl_wire := sl_wire sl @ out\<rparr> # vs\<rparr>) H f"
| disconnect: "replicated over jk runid b s H f \<Longrightarrow> rslaves s = us @ sl # vs \<Longrightarrow> replicated over jk runid b (s\<lparr>rslaves := us @ vs\<rparr>) H f"
| resize: "replicated over jk runid b s H f \<Longrightarrow> replicated over jk runid b (resizeReplicationBacklog jk s n) H f"
| release: "replicated over jk runid b s H f \<Longrightarrow> freeReplicationBacklog s = Some s' \<Longrightarrow> replicated over jk runid b s' H f"

lemma resize_inv: "repl_inv b s H f \<Longrightarrow> repl_inv b (resizeReplicationBacklog jk s n) H f"
proof -
  assume inv: "repl_inv b s H f"
  define m where "m = nat (if n < int REDIS_REPL_BACKLOG_MIN_SIZE then int REDIS_REPL_BACKLOG_MIN_SIZE else n)"
  have m: "0 < m" by (simp add: m_def REDIS_REPL_BACKLOG_MIN_SIZE_def)
  then have "circ m (map jk [0..<m]) 0 0 H" by (simp add: circ_def)
  then show ?thesis using inv m unfolding resizeReplicationBacklog_def m_def [symmetric]
    by (auto simp: Let_def repl_inv_def bl_ok_def)
qed

lemma write_inv:
  assumes inv: "repl_inv b s H f" and s: "rslaves s = us @ sl # vs" "sl_state sl = REPL_ONLINE" "sendReplyToClient nolimit (sl_client sl) ws = Some (Some c', out)"
  shows "repl_inv b (s\<lparr>rslaves := us @ sl\<lparr>sl_client := c', sl_wire := sl_wire sl @ out\<rparr> # vs\<rparr>) H f"
proof -
  have ok: "slave_ok b H f sl" using inv s(1) by (auto simp: repl_inv_def)
  then have "sink c' \<and> out @ pending c' = pending (sl_client sl)" using sink_sends s(3) by (auto simp: slave_ok_def)
  then have "slave_ok b H f (sl\<lparr>sl_client := c', sl_wire := sl_wire sl @ out\<rparr>)" using ok s(2) by (auto simp: slave_ok_def)
  then show ?thesis using inv s(1) by (auto simp: repl_inv_def bl_ok_def split: if_splits)
qed

lemma disconnect_inv: "repl_inv b s H f \<Longrightarrow> rslaves s = us @ sl # vs \<Longrightarrow> repl_inv b (s\<lparr>rslaves := us @ vs\<rparr>) H f"
  by (auto simp: repl_inv_def bl_ok_def split: if_splits)

text \<open>A slave that is added at the end of the list.\<close>

lemma add_slave_inv:
  assumes "repl_inv b s H f" "sl_id sl = i" "i \<notin> set (map sl_id (rslaves s))" "slave_ok b H (f(i := x)) sl" "repl_backlog s \<noteq> None"
    and "s' = s\<lparr>slaveseldb := d, rslaves := rslaves s @ [sl]\<rparr>"
  shows "repl_inv b s' H (f(i := x))"
proof -
  have "slave_ok b H (f(i := x)) sl'" if "sl' \<in> set (rslaves s)" for sl'
    using assms(1,3) that by (auto simp: repl_inv_def slave_ok_def)
  then show ?thesis using assms by (auto simp: repl_inv_def bl_ok_def)
qed

lemma sink_online: "sink c \<Longrightarrow> pending c = [] \<Longrightarrow> o_buf c = [] \<Longrightarrow> o_reply c = [] \<Longrightarrow> sink (c\<lparr>o_online := v\<rparr>) \<and> pending (c\<lparr>o_online := v\<rparr>) = []"
  by (auto simp: sink_def out_rep_def owf_def handler_ok_def writable_def prepareClientToWrite_def pending_def complete_def split: if_splits)

lemma joined_cong: "last (rslaves s1) = last (rslaves s2) \<Longrightarrow> master_repl_offset s1 = master_repl_offset s2 \<Longrightarrow> joined s s1 child off w f = joined s s2 child off w f"
  by (cases "sl_state (last (rslaves s2))") (auto simp: joined_def split: option.splits)

lemma sink_copy:
  assumes c: "sink c" "o_sentlen c = 0" and d: "sink d"
  shows "sink ((copyClientOutputBuffer c d)\<lparr>o_online := False\<rparr>)" "o_sentlen ((copyClientOutputBuffer c d)\<lparr>o_online := False\<rparr>) = 0"
    "o_sentlen d = 0 \<Longrightarrow> pending ((copyClientOutputBuffer c d)\<lparr>o_online := False\<rparr>) = pending d"
proof -
  note s0 = c(2)
  show "sink ((copyClientOutputBuffer c d)\<lparr>o_online := False\<rparr>)" using c d s0
    by (auto simp: sink_def out_rep_def copyClientOutputBuffer_def owf_def handler_ok_def writable_def prepareClientToWrite_def pending_def complete_def split: if_splits)
  show "o_sentlen ((copyClientOutputBuffer c d)\<lparr>o_online := False\<rparr>) = 0" using s0 by (simp add: copyClientOutputBuffer_def)
  show "o_sentlen d = 0 \<Longrightarrow> pending ((copyClientOutputBuffer c d)\<lparr>o_online := False\<rparr>) = pending d" using s0 by (simp add: copyClientOutputBuffer_def pending_def)
qed

text \<open>The end of \<open>syncCommand\<close>, where the slave is added.\<close>

lemma add_full_ok:
  assumes inv: "repl_inv b s H f" and i: "i \<notin> set (map sl_id (rslaves s))" and c: "sink (c\<lparr>o_online := False\<rparr>)"
    and ok: "\<And>b' H' from. (b', H') = (if repl_backlog s = None then (b + int (length H) + 1, []) else (b, H)) \<Longrightarrow> x = Some from \<Longrightarrow>
      slave_ok b' H' (f(i := Some from)) \<lparr>sl_id = i, sl_client = c\<lparr>o_online := False\<rparr>, sl_state = st, sl_wire = wire\<rparr>"
  shows "\<exists>s'. add_full_slave jk s i c wire st = Some (s', None) \<and> (repl_backlog s = repl_backlog s' \<longleftrightarrow> repl_backlog s \<noteq> None) \<and>
    master_repl_offset s' = master_repl_offset s + (if repl_backlog s = None then 1 else 0) \<and>
    rslaves s' = rslaves s @ [\<lparr>sl_id = i, sl_client = c\<lparr>o_online := False\<rparr>, sl_state = st, sl_wire = wire\<rparr>] \<and>
    repl_inv (if repl_backlog s = None then master_repl_offset s' else b) s' (if repl_backlog s = None then [] else H) (f(i := x))"
proof -
  let ?sl = "\<lparr>sl_id = i, sl_client = c\<lparr>o_online := False\<rparr>, sl_state = st, sl_wire = wire\<rparr>"
  have slok: "slave_ok b' H' (f(i := x)) ?sl" if "(b', H') = (if repl_backlog s = None then (b + int (length H) + 1, []) else (b, H))" for b' H'
    using ok [OF that] c by (cases x) (auto simp: slave_ok_def)
  show ?thesis
  proof (cases "repl_backlog s")
    case None
    then have e: "rslaves s = []" "master_repl_offset s = b + int (length H)" "0 < repl_backlog_size s" using inv by (auto simp: repl_inv_def)
    have "circ (repl_backlog_size s) (map jk [0..<repl_backlog_size s]) 0 0 []" using e(3) by (simp add: circ_def)
    then show ?thesis using None e slok [of "b + int (length H) + 1" "[]"]
      by (simp add: add_full_slave_def createReplicationBacklog_def Let_def repl_inv_def bl_ok_def add.assoc)
  next
    case (Some buf)
    let ?s = "s\<lparr>slaveseldb := - 1, rslaves := rslaves s @ [?sl]\<rparr>"
    have so: "slave_ok b H (f(i := x)) ?sl" using slok [of b H] Some by simp
    have "repl_inv b ?s H (f(i := x))" by (rule add_slave_inv [OF inv _ i so, where d = "- 1"]) (simp_all add: Some)
    then show ?thesis using Some by (simp add: add_full_slave_def Let_def)
  qed
qed

lemma error_sink: "sink c \<Longrightarrow> sink (addReplyErrorLength True over c e) \<and> o_sentlen (addReplyErrorLength True over c e) = o_sentlen c"
  using sink_pushes [of c over "[[45, 69, 82, 82, 32], e, crlf]"] by (simp add: addReplyErrorLength_def push_bytes_eqs push_keeps)

lemma sentlen0: "sink c \<Longrightarrow> o_buf c = [] \<Longrightarrow> o_reply c = [] \<Longrightarrow> o_sentlen c = 0 \<and> pending c = []"
  by (auto simp: sink_def out_rep_def owf_def pending_def)

lemma partial_ok:
  assumes inv: "repl_inv b s H f" and i: "i \<notin> set (map sl_id (rslaves s))" and c: "sink c" "o_buf c = []" "o_reply c = []"
  shows "\<exists>s' c' wire ok. masterTryPartialResynchronization True over runid s i c same off w = Some (s', c', wire, ok) \<and>
    (\<not> ok \<longrightarrow> s' = s \<and> sink c' \<and> o_sentlen c' = 0 \<and> (off \<noteq> None \<longrightarrow> c' = c) \<and> wire = fullresync_msg runid (master_repl_offset s + (if repl_backlog s = None then 1 else 0))) \<and>
    (ok \<longrightarrow> s' = s \<or> (\<exists>sl. rslaves s' = rslaves s @ [sl] \<and> sl_state sl = REPL_ONLINE \<and> repl_backlog s' = repl_backlog s \<and>
       repl_inv b s' H (f(i := if w < length cont_msg then None else off))))"
proof -
  let ?good = "repl_backlog s \<noteq> None \<and> repl_backlog_off s \<le> the off \<and> the off \<le> repl_backlog_off s + int (repl_backlog_histlen s)"
  show ?thesis
  proof (cases "same \<and> off \<noteq> None \<and> ?good")
    case False
    let ?msg = "fullresync_msg runid (master_repl_offset s + (if repl_backlog s = None then 1 else 0))"
    define c1 where "c1 = (if same \<and> off = None then addReplyErrorLength True over c (map of_char ''value is not an integer or out of range'') else c)"
    have c1: "sink c1" "off \<noteq> None \<longrightarrow> c1 = c" "o_sentlen c1 = 0" using c(1) error_sink [OF c(1)] sentlen0 [OF c] by (simp_all add: c1_def)
    have "masterTryPartialResynchronization True over runid s i c same off w =
        (if w < length ?msg then Some (s, c1\<lparr>o_close_asap := True\<rparr>, take w ?msg, True) else Some (s, c1, ?msg, False))"
    proof (cases "same \<and> off \<noteq> None")
      case True
      then obtain o' where o': "off = Some o'" by blast
      have bad: "repl_backlog s = None \<or> o' < repl_backlog_off s \<or> o' > repl_backlog_off s + int (repl_backlog_histlen s)" using False True o' by auto
      show ?thesis using True unfolding masterTryPartialResynchronization_def Let_def o' option.case if_P [OF bad] c1_def by simp
    next
      case False
      then show ?thesis by (cases same) (simp_all add: masterTryPartialResynchronization_def c1_def Let_def)
    qed
    then show ?thesis using c1 by (cases "w < length ?msg") (simp, blast)+
  next
    case True
    then obtain o' where o': "off = Some o'" by blast
    let ?c = "c\<lparr>o_online := True\<rparr>"
    have sc: "sink ?c" "pending ?c = []" using sink_online [OF c(1) _ c(2,3)] sentlen0 [OF c] by auto
    have bl: "bl_ok b H s" "repl_backlog s \<noteq> None" using inv True by (auto simp: repl_inv_def)
    have good: "\<not> (repl_backlog s = None \<or> o' < repl_backlog_off s \<or> o' > repl_backlog_off s + int (repl_backlog_histlen s))" using True o' by auto
    have sm: "\<not> \<not> same" using True by simp
    note partial = masterTryPartialResynchronization_def [of True over runid s i c same off w, unfolded Let_def o' option.case if_not_P [OF sm] if_not_P [OF good]]
    show ?thesis
    proof (cases "w < length cont_msg")
      case w: True
      let ?sl = "\<lparr>sl_id = i, sl_client = ?c\<lparr>o_close_asap := True\<rparr>, sl_state = REPL_ONLINE, sl_wire = take w cont_msg\<rparr>"
      have "sink (?c\<lparr>o_close_asap := True\<rparr>)" using sc(1)
        by (auto simp: sink_def out_rep_def owf_def handler_ok_def writable_def prepareClientToWrite_def pending_def complete_def split: if_splits)
      then have so: "slave_ok b H (f(i := None)) ?sl" by (simp add: slave_ok_def)
      have "repl_inv b (s\<lparr>rslaves := rslaves s @ [?sl]\<rparr>) H (f(i := None))"
        by (rule add_slave_inv [OF inv _ i so bl(2), where d = "slaveseldb s"]) simp_all
      then show ?thesis unfolding o' partial if_P [OF w]
        by (intro exI [of _ "s\<lparr>rslaves := rslaves s @ [?sl]\<rparr>"] exI [of _ ?c] exI [of _ "take w cont_msg"] exI [of _ True]) simp
    next
      case w: False
      have "out_rep True ?c []" using sc by (simp add: sink_def)
      then obtain c' n ps where r: "addReplyReplicationBacklog True over s ?c o' = Some (c', n)" "out_rep True c' ([] @ suffix_from b H o')"
        "c' = foldl (push_bytes True over) ?c ps" "b < o'" "o' \<le> b + int (length H) + 1"
        using backlog_reply [OF bl(1), of o' True ?c "[]" over] True o' by auto
      let ?sl = "\<lparr>sl_id = i, sl_client = c', sl_state = REPL_ONLINE, sl_wire = cont_msg\<rparr>"
      have "sink c'" using sink_pushes [OF sc(1), of over ps] r(3) by simp
      then have so: "slave_ok b H (f(i := Some o')) ?sl" using r(2,4,5) by (simp add: slave_ok_def out_rep_def)
      have "repl_inv b (s\<lparr>rslaves := rslaves s @ [?sl]\<rparr>) H (f(i := Some o'))"
        by (rule add_slave_inv [OF inv _ i so bl(2), where d = "slaveseldb s"]) simp_all
      then show ?thesis unfolding o' partial if_not_P [OF w] r(1) bind.bind_lunit prod.case
        by (intro exI [of _ "s\<lparr>rslaves := rslaves s @ [?sl]\<rparr>"] exI [of _ c'] exI [of _ cont_msg] exI [of _ True]) simp
    qed
  qed
qed

lemma sync_ok:
  assumes inv: "repl_inv b s H f" and c: "sink c"
  shows "\<exists>s' r. syncCommand True over jk runid s i c link psync same off w child diskless bgsave = Some (s', r) \<and>
    repl_inv (if repl_backlog s = repl_backlog s' then b else master_repl_offset s') s' (if repl_backlog s = repl_backlog s' then H else [])
      (if rslaves s' = rslaves s then f else f(i := joined s s' child off w f))"
proof (cases "i \<in> set (map sl_id (rslaves s)) \<or> link \<or> o_reply c \<noteq> [] \<or> o_buf c \<noteq> []")
  case True
  then show ?thesis using inv by (auto simp: syncCommand_def)
next
  case False
  then have i: "i \<notin> set (map sl_id (rslaves s))" and e: "o_buf c = []" "o_reply c = []" by auto
  let ?ask = "if psync then masterTryPartialResynchronization True over runid s i c same off w else Some (s, c, [], False)"
  obtain s1 c1 wire ok where t: "?ask = Some (s1, c1, wire, ok)" "\<not> ok \<Longrightarrow> s1 = s \<and> sink c1 \<and> o_sentlen c1 = 0 \<and> (off \<noteq> None \<longrightarrow> c1 = c)"
    "ok \<Longrightarrow> s1 = s \<or> (\<exists>sl. rslaves s1 = rslaves s @ [sl] \<and> sl_state sl = REPL_ONLINE \<and> repl_backlog s1 = repl_backlog s \<and>
       repl_inv b s1 H (f(i := if w < length cont_msg then None else off)))"
    using partial_ok [OF inv i c e, of over runid same off w] c sentlen0 [OF c e] by (cases psync) (simp_all, blast)
  have sy: "syncCommand True over jk runid s i c link psync same off w child diskless bgsave =
      (if ok then Some (s1, None) else case child of
          DiskChild \<Rightarrow> (case find (\<lambda>sl. sl_state sl = REPL_WAIT_BGSAVE_END) (rslaves s1) of
               Some sl \<Rightarrow> add_full_slave jk s1 i (copyClientOutputBuffer c1 (sl_client sl)) wire REPL_WAIT_BGSAVE_END
             | None \<Rightarrow> add_full_slave jk s1 i c1 wire REPL_WAIT_BGSAVE_START)
        | SocketChild \<Rightarrow> add_full_slave jk s1 i c1 wire REPL_WAIT_BGSAVE_START
        | NoChild \<Rightarrow>
            if diskless then add_full_slave jk s1 i c1 wire REPL_WAIT_BGSAVE_START
            else if \<not> bgsave then Some (s1, Some (addReplyErrorLength True over c1 (map of_char ''Unable to perform background save'')))
            else add_full_slave jk s1 i c1 wire REPL_WAIT_BGSAVE_END)"
    using False t(1) by (simp add: syncCommand_def)
  show ?thesis
  proof (cases ok)
    case True
    then show ?thesis using t(3) inv sy by (auto simp: joined_def)
  next
    case nok: False
    then have s1: "s1 = s" and c1: "sink c1" "off \<noteq> None \<Longrightarrow> c1 = c" "o_sentlen c1 = 0" using t(2) by auto
    have off_c1: "sink (c1\<lparr>o_online := False\<rparr>)"
      using c1(1) by (auto simp: sink_def out_rep_def owf_def handler_ok_def writable_def prepareClientToWrite_def pending_def complete_def split: if_splits)
    have fin: "\<exists>s' r. add_full_slave jk s i c2 wire st = Some (s', r) \<and>
        repl_inv (if repl_backlog s = repl_backlog s' then b else master_repl_offset s') s' (if repl_backlog s = repl_backlog s' then H else [])
          (if rslaves s' = rslaves s then f else f(i := joined s s' child off w f))"
      if k: "sink (c2\<lparr>o_online := False\<rparr>)"
        "\<And>b' H' from s'. (b', H') = (if repl_backlog s = None then (b + int (length H) + 1, []) else (b, H)) \<Longrightarrow>
          master_repl_offset s' = b' + int (length H') \<Longrightarrow> sl_state (last (rslaves s')) = st \<Longrightarrow> joined s s' child off w f = Some from \<Longrightarrow>
          slave_ok b' H' (f(i := Some from)) \<lparr>sl_id = i, sl_client = c2\<lparr>o_online := False\<rparr>, sl_state = st, sl_wire = wire\<rparr>"
      for c2 st
    proof -
      let ?m = "master_repl_offset s + (if repl_backlog s = None then 1 else 0)"
      let ?sl = "\<lparr>sl_id = i, sl_client = c2\<lparr>o_online := False\<rparr>, sl_state = st, sl_wire = wire\<rparr>"
      define x where "x = joined s (s\<lparr>master_repl_offset := ?m, rslaves := rslaves s @ [?sl]\<rparr>) child off w f"
      have m: "master_repl_offset s = b + int (length H)" using inv by (simp add: repl_inv_def)
      have ok: "slave_ok b' H' (f(i := Some from)) ?sl"
        if "(b', H') = (if repl_backlog s = None then (b + int (length H) + 1, []) else (b, H))" "x = Some from" for b' H' "from"
        using that m by (intro k(2) [of b' H' "s\<lparr>master_repl_offset := ?m, rslaves := rslaves s @ [?sl]\<rparr>"]) (auto simp: x_def split: if_splits)
      obtain s' where s': "add_full_slave jk s i c2 wire st = Some (s', None)" "repl_backlog s = repl_backlog s' \<longleftrightarrow> repl_backlog s \<noteq> None"
        "master_repl_offset s' = ?m" "rslaves s' = rslaves s @ [?sl]"
        "repl_inv (if repl_backlog s = None then master_repl_offset s' else b) s' (if repl_backlog s = None then [] else H) (f(i := x))"
        using add_full_ok [OF inv i k(1) ok, where jk = jk] by blast
      have "x = joined s s' child off w f" unfolding x_def by (rule joined_cong) (simp_all add: s'(3,4))
      then show ?thesis using s' by (cases "repl_backlog s = None") auto
    qed
    have start: "\<exists>s' r. add_full_slave jk s i c1 wire REPL_WAIT_BGSAVE_START = Some (s', r) \<and>
        repl_inv (if repl_backlog s = repl_backlog s' then b else master_repl_offset s') s' (if repl_backlog s = repl_backlog s' then H else [])
          (if rslaves s' = rslaves s then f else f(i := joined s s' child off w f))"
      by (rule fin [OF off_c1]) (auto simp: joined_def split: if_splits)
    show ?thesis
    proof (cases "child = DiskChild \<and> find (\<lambda>sl. sl_state sl = REPL_WAIT_BGSAVE_END) (rslaves s) \<noteq> None")
      case True
      then obtain sl where sl: "find (\<lambda>sl. sl_state sl = REPL_WAIT_BGSAVE_END) (rslaves s) = Some sl" by blast
      then have in': "sl \<in> set (rslaves s)" "sl_state sl = REPL_WAIT_BGSAVE_END" by (auto simp: find_Some_iff)
      then have slk: "slave_ok b H f sl" "repl_backlog s \<noteq> None" using inv by (auto simp: repl_inv_def split: if_splits)
      have d: "sink (sl_client sl)" using slk(1) by (simp add: slave_ok_def)
      note copy = sink_copy [OF c1(1,3) d]
      have "\<exists>s' r. add_full_slave jk s i (copyClientOutputBuffer c1 (sl_client sl)) wire REPL_WAIT_BGSAVE_END = Some (s', r) \<and>
        repl_inv (if repl_backlog s = repl_backlog s' then b else master_repl_offset s') s' (if repl_backlog s = repl_backlog s' then H else [])
          (if rslaves s' = rslaves s then f else f(i := joined s s' child off w f))"
      proof (rule fin [OF copy(1)])
        fix b' and H' :: bytes and "from" s'
        assume bh: "(b', H') = (if repl_backlog s = None then (b + int (length H) + 1, []) else (b, H))"
          and st: "sl_state (last (rslaves s')) = REPL_WAIT_BGSAVE_END" and jo: "joined s s' child off w f = Some from"
        have "f (sl_id sl) = Some from" using jo st sl True by (auto simp: joined_def split: if_splits)
        then show "slave_ok b' H' (f(i := Some from))
            \<lparr>sl_id = i, sl_client = (copyClientOutputBuffer c1 (sl_client sl))\<lparr>o_online := False\<rparr>, sl_state = REPL_WAIT_BGSAVE_END, sl_wire = wire\<rparr>"
          using slk bh in'(2) copy by (auto simp: slave_ok_def)
      qed
      then show ?thesis using sy nok s1 True sl by simp
    next
      case no: False
      show ?thesis
      proof (cases "child = NoChild \<and> \<not> diskless")
        case True
        have "\<exists>s' r. add_full_slave jk s i c1 wire REPL_WAIT_BGSAVE_END = Some (s', r) \<and>
          repl_inv (if repl_backlog s = repl_backlog s' then b else master_repl_offset s') s' (if repl_backlog s = repl_backlog s' then H else [])
            (if rslaves s' = rslaves s then f else f(i := joined s s' child off w f))"
        proof (rule fin [OF off_c1])
          fix b' and H' :: bytes and "from" s'
          assume m: "master_repl_offset s' = b' + int (length H')"
            and st: "sl_state (last (rslaves s')) = REPL_WAIT_BGSAVE_END" and jo: "joined s s' child off w f = Some from"
          have fr: "from = b' + int (length H') + 1" "off \<noteq> None" using jo st m True by (auto simp: joined_def split: if_splits option.splits)
          have "pending (c1\<lparr>o_online := False\<rparr>) = []" using c1(2) [OF fr(2)] e by (simp add: pending_def)
          then show "slave_ok b' H' (f(i := Some from)) \<lparr>sl_id = i, sl_client = c1\<lparr>o_online := False\<rparr>, sl_state = REPL_WAIT_BGSAVE_END, sl_wire = wire\<rparr>"
            using off_c1 c1(3) fr(1) by (simp add: slave_ok_def suffix_from_def)
        qed
        then show ?thesis using True sy nok s1 inv by (cases bgsave) auto
      next
        case False
        then show ?thesis using start sy nok s1 no by (cases child) (auto split: option.splits)
      qed
    qed
  qed
qed

lemma replicated_inv: "replicated over jk runid b s H f \<Longrightarrow> repl_inv b s H f"
proof (induction rule: replicated.induct)
  case (start s)
  then show ?case by (simp add: repl_inv_def)
next
  case (feed b s H f argv dictid s')
  show ?case
  proof (cases "repl_backlog s")
    case None
    then have "rslaves s = []" using feed.IH by (simp add: repl_inv_def)
    then have "s' = s" using feed.hyps None by (simp add: replicationFeedSlaves_def)
    then show ?thesis using feed.IH None by simp
  next
    case (Some buf)
    then show ?thesis using feed_slaves_ok [OF feed.IH, of argv dictid over jk] feed.hyps by auto
  qed
next
  case (sync b s H f c i link psync same off w child diskless bgsave s' r)
  then show ?case using sync_ok [OF sync.IH, of c over jk runid i link psync same off w child diskless bgsave] by simp
next
  case (sends b s H f us sl vs nolimit ws c' out)
  then show ?case using write_inv by blast
next
  case (disconnect b s H f us sl vs)
  then show ?case using disconnect_inv by blast
next
  case (resize b s H f n)
  then show ?case using resize_inv by blast
next
  case (release b s H f s')
  then show ?case by (auto simp: freeReplicationBacklog_def repl_inv_def split: if_splits)
qed

section \<open>Properties\<close>

text \<open>
  C19. The replication stream reaches the slaves.  In every run of a master, a slave that was
  accepted for a partial resynchronization at some offset has got, on its socket and in its
  output buffers together, exactly the bytes of the replication stream from that offset on, to
  the last one, whatever was in the circular backlog and however often it wrapped around; a
  slave that waits for the end of a snapshot has queued the stream from the start of the snapshot;
  and the propagation of the next command neither fails an assertion nor leaves a buffer.
\<close>

theorem replication_stream:
  assumes "replicated over jk runid b s H f"
  shows "master_repl_offset s = b + int (length H) \<and>
    (\<forall>sl\<in>set (rslaves s). \<forall>from. f (sl_id sl) = Some from \<longrightarrow> b < from \<and> from \<le> master_repl_offset s + 1 \<and>
      (sl_state sl = REPL_ONLINE \<longrightarrow> sl_wire sl @ pending (sl_client sl) = cont_msg @ suffix_from b H from) \<and>
      (sl_state sl = REPL_WAIT_BGSAVE_END \<longrightarrow> pending (sl_client sl) = suffix_from b H from)) \<and>
    (\<forall>argv dictid. list_all arg_ok argv \<longrightarrow> length argv < 2 ^ 63 \<longrightarrow> in_sint 64 dictid \<longrightarrow> (\<exists>s'. replicationFeedSlaves True over jk s dictid argv = Some s'))"
proof (intro conjI allI impI ballI)
  have inv: "repl_inv b s H f" by (rule replicated_inv [OF assms])
  show m: "master_repl_offset s = b + int (length H)" using inv by (simp add: repl_inv_def)
  fix sl "from" assume sl: "sl \<in> set (rslaves s)" "f (sl_id sl) = Some from"
  then have ok: "slave_ok b H f sl" using inv by (simp add: repl_inv_def)
  show "b < from" "from \<le> master_repl_offset s + 1" using ok sl(2) m by (auto simp: slave_ok_def)
  show "sl_wire sl @ pending (sl_client sl) = cont_msg @ suffix_from b H from" if "sl_state sl = REPL_ONLINE" using ok sl(2) that by (auto simp: slave_ok_def)
  show "pending (sl_client sl) = suffix_from b H from" if "sl_state sl = REPL_WAIT_BGSAVE_END" using ok sl(2) that by (auto simp: slave_ok_def)
next
  have inv: "repl_inv b s H f" by (rule replicated_inv [OF assms])
  fix argv dictid assume a: "list_all arg_ok argv" "length argv < 2 ^ 63" "in_sint 64 dictid"
  show "\<exists>s'. replicationFeedSlaves True over jk s dictid argv = Some s'"
  proof (cases "repl_backlog s = None")
    case True
    then have "rslaves s = []" using inv by (simp add: repl_inv_def)
    then show ?thesis using True by (simp add: replicationFeedSlaves_def)
  next
    case False
    then show ?thesis using feed_slaves_ok [OF inv False a] by blast
  qed
qed

text \<open>A master that has just started, and a first slave that waits for a snapshot.\<close>

definition rserver0 :: rserver where
  "rserver0 = \<lparr>repl_backlog = None, repl_backlog_size = 16384, repl_backlog_histlen = 0, repl_backlog_idx = 0, repl_backlog_off = 0,
    master_repl_offset = 0, slaveseldb = - 1, rslaves = []\<rparr>"

definition rserver1 :: "(nat \<Rightarrow> byte) \<Rightarrow> rserver" where
  "rserver1 jk = rserver0\<lparr>repl_backlog := Some (map jk [0..<16384]), master_repl_offset := 1, repl_backlog_off := 2,
    rslaves := [\<lparr>sl_id = 1, sl_client = fresh_client\<lparr>o_online := False\<rparr>, sl_state = REPL_WAIT_BGSAVE_END, sl_wire = []\<rparr>]\<rparr>"

lemma fresh_sink: "sink fresh_client"
  using fresh_client_ok by (simp add: sink_def out_rep_def) (simp add: complete_def fresh_client_def)

lemma rserver1_reached: "replicated over jk runid 1 (rserver1 jk) [] ((\<lambda>_. None)(1 := Some 2))"
proof -
  have "replicated over jk runid (master_repl_offset rserver0) rserver0 [] (\<lambda>_. None)" by (rule replicated.start) (simp_all add: rserver0_def)
  moreover have "syncCommand True over jk runid rserver0 1 fresh_client False False True (Some 0) 0 NoChild False True = Some (rserver1 jk, None)"
    by (simp add: syncCommand_def add_full_slave_def createReplicationBacklog_def rserver0_def rserver1_def fresh_client_def Let_def del: upt_rec_numeral upt_conv_Cons)
  ultimately have "replicated over jk runid (if repl_backlog rserver0 = repl_backlog (rserver1 jk) then master_repl_offset rserver0 else master_repl_offset (rserver1 jk)) (rserver1 jk)
      (if repl_backlog rserver0 = repl_backlog (rserver1 jk) then [] else [])
      (if rslaves (rserver1 jk) = rslaves rserver0 then (\<lambda>_. None) else (\<lambda>_. None)(1 := joined rserver0 (rserver1 jk) NoChild (Some 0) 0 (\<lambda>_. None)))"
    by (rule replicated.sync [OF _ fresh_sink])
  then show ?thesis by (simp add: rserver0_def rserver1_def joined_def del: upt_rec_numeral)
qed

definition rserver2 :: "(nat \<Rightarrow> byte) \<Rightarrow> rserver" where
  "rserver2 jk = (rserver1 jk)\<lparr>rslaves := rslaves (rserver1 jk) @ [\<lparr>sl_id = 2, sl_client = fresh_client, sl_state = REPL_ONLINE, sl_wire = cont_msg\<rparr>]\<rparr>"

lemma rserver2_reached: "replicated over jk runid 1 (rserver2 jk) [] ((\<lambda>_. None)(1 := Some 2, 2 := Some 2))"
proof -
  let ?f = "(\<lambda>_. None)(1 := Some 2) :: nat \<Rightarrow> int option"
  have "fresh_client\<lparr>o_online := True\<rparr> = fresh_client" by (simp add: fresh_client_def)
  then have "syncCommand True over jk runid (rserver1 jk) 2 fresh_client False True True (Some 2) (length cont_msg) NoChild False True = Some (rserver2 jk, None)"
    by (simp add: syncCommand_def masterTryPartialResynchronization_def addReplyReplicationBacklog_def rserver2_def rserver1_def rserver0_def fresh_client_def Let_def del: upt_rec_numeral)
  from replicated.sync [OF rserver1_reached fresh_sink this]
  have "replicated over jk runid (if repl_backlog (rserver1 jk) = repl_backlog (rserver2 jk) then 1 else master_repl_offset (rserver2 jk)) (rserver2 jk)
      (if repl_backlog (rserver1 jk) = repl_backlog (rserver2 jk) then [] else [])
      (if rslaves (rserver2 jk) = rslaves (rserver1 jk) then ?f else ?f(2 := joined (rserver1 jk) (rserver2 jk) NoChild (Some 2) (length cont_msg) ?f))" .
  then show ?thesis by (simp add: rserver2_def joined_def del: upt_rec_numeral)
qed

theorem replication_stream_witness:
  "\<exists>s H f sl. replicated (\<lambda>_. False) (\<lambda>_. 0) [120] 1 s H f \<and> sl \<in> set (rslaves s) \<and> sl_state sl = REPL_ONLINE \<and> f (sl_id sl) = Some 2 \<and>
     sl_wire sl @ pending (sl_client sl) = cont_msg @ select_bytes 0 @ concat (cmd_pieces [ORaw [80]])"
proof -
  let ?over = "\<lambda>_. False" and ?jk = "\<lambda>_. 0" and ?f = "(\<lambda>_. None)(1 := Some 2, 2 := Some 2) :: nat \<Rightarrow> int option"
  note r2 = rserver2_reached [of ?over ?jk "[120]"]
  have ok: "list_all arg_ok [ORaw [80]]" "length [ORaw [80]] < 2 ^ 63" "in_sint 64 0" by (simp_all add: arg_ok_def)
  have sel: "slaveseldb (rserver2 ?jk) = - 1" "repl_backlog (rserver2 ?jk) \<noteq> None" by (simp_all add: rserver2_def rserver1_def rserver0_def del: upt_rec_numeral)
  obtain s where s: "replicationFeedSlaves True ?over ?jk (rserver2 ?jk) 0 [ORaw [80]] = Some s"
    "rslaves s = map (\<lambda>sl. sl\<lparr>sl_client := foldl (push_bytes True ?over) (sl_client sl)
      (if sl_state sl = REPL_WAIT_BGSAVE_START then (if slaveseldb (rserver2 ?jk) \<noteq> 0 then [select_bytes 0] else []) else fed_pieces (rserver2 ?jk) 0 [ORaw [80]])\<rparr>) (rslaves (rserver2 ?jk))"
    using feed_slaves_ok [OF replicated_inv [OF r2] sel(2) ok] by blast
  let ?H = "select_bytes 0 @ concat (cmd_pieces [ORaw [80]])"
  have "replicated ?over ?jk [120] 1 s (if repl_backlog (rserver2 ?jk) = None then [] else [] @ concat (fed_pieces (rserver2 ?jk) 0 [ORaw [80]])) ?f"
    by (rule replicated.feed [OF r2 ok s(1)])
  moreover have "concat (fed_pieces (rserver2 ?jk) 0 [ORaw [80]]) = ?H" using sel(1) by (simp add: fed_pieces_def)
  ultimately have r: "replicated ?over ?jk [120] 1 s ?H ?f" using sel(2) by simp
  let ?sl = "\<lparr>sl_id = 2, sl_client = fresh_client, sl_state = REPL_ONLINE, sl_wire = cont_msg\<rparr>"
  have "?sl \<in> set (rslaves (rserver2 ?jk))" by (simp add: rserver2_def)
  then obtain sl where sl: "sl \<in> set (rslaves s)" "sl_state sl = REPL_ONLINE" "sl_id sl = 2" unfolding s(2) set_map by force
  have "sl_wire sl @ pending (sl_client sl) = cont_msg @ suffix_from 1 ?H 2"
    using replication_stream [OF r] sl by auto
  then show ?thesis using r sl by (intro exI [of _ s] exI [of _ ?H] exI [of _ ?f] exI [of _ sl]) (simp add: suffix_from_def)
qed

text \<open>
  C20. A slave that joins a snapshot under way is told a wrong offset.  When a command was propagated
  after the snapshot of another slave had started, the answer to a slave that shares it names the
  current offset of the master, but its output buffer is a copy that holds the stream from the
  start of the snapshot on: counting what it receives from the offset it was told, the slave ends
  up ahead of the master by all of it.
\<close>

theorem fullresync_offset_wrong:
  "\<exists>s H f sl. replicated over jk runid 1 s H f \<and> sl \<in> set (rslaves s) \<and> sl_state sl = REPL_WAIT_BGSAVE_END \<and>
     sl_wire sl = fullresync_msg runid (master_repl_offset s) \<and> pending (sl_client sl) = H \<and>
     H = select_bytes 0 @ concat (cmd_pieces [ORaw [80]]) \<and> master_repl_offset s = 1 + int (length H)"
proof -
  let ?f = "(\<lambda>_. None)(1 := Some 2) :: nat \<Rightarrow> int option" and ?H = "select_bytes 0 @ concat (cmd_pieces [ORaw [80]])"
  note r1 = rserver1_reached [of over jk runid]
  have ok: "list_all arg_ok [ORaw [80]]" "length [ORaw [80]] < 2 ^ 63" "in_sint 64 0" by (simp_all add: arg_ok_def)
  have sel: "slaveseldb (rserver1 jk) = - 1" "repl_backlog (rserver1 jk) \<noteq> None" by (simp_all add: rserver1_def rserver0_def del: upt_rec_numeral)
  have ne: "fed_pieces (rserver1 jk) 0 [ORaw [80]] = select_bytes 0 # cmd_pieces [ORaw [80]]" using sel(1) by (simp add: fed_pieces_def)
  let ?d = "foldl (push_bytes True over) (fresh_client\<lparr>o_online := False\<rparr>) (select_bytes 0 # cmd_pieces [ORaw [80]])"
  obtain s where s: "replicationFeedSlaves True over jk (rserver1 jk) 0 [ORaw [80]] = Some s" "repl_inv 1 s ?H ?f"
    "rslaves s = [\<lparr>sl_id = 1, sl_client = ?d, sl_state = REPL_WAIT_BGSAVE_END, sl_wire = []\<rparr>]"
    using feed_slaves_ok [OF replicated_inv [OF r1] sel(2) ok, of over jk] unfolding ne by (auto simp: rserver1_def)
  have "replicated over jk runid 1 s (if repl_backlog (rserver1 jk) = None then [] else [] @ concat (fed_pieces (rserver1 jk) 0 [ORaw [80]])) ?f"
    by (rule replicated.feed [OF r1 ok s(1)])
  then have r: "replicated over jk runid 1 s ?H ?f" using sel(2) ne by simp
  obtain buf where bl: "repl_backlog s = Some buf" "master_repl_offset s = 1 + int (length ?H)" using s(2,3) by (auto simp: repl_inv_def split: if_splits)
  let ?msg = "fullresync_msg runid (master_repl_offset s)"
  let ?sl = "\<lparr>sl_id = 2, sl_client = (copyClientOutputBuffer fresh_client ?d)\<lparr>o_online := False\<rparr>, sl_state = REPL_WAIT_BGSAVE_END, sl_wire = ?msg\<rparr>"
  let ?s = "s\<lparr>slaveseldb := - 1, rslaves := rslaves s @ [?sl]\<rparr>"
  have "masterTryPartialResynchronization True over runid s 2 fresh_client False (Some 0) (length ?msg) = Some (s, fresh_client, ?msg, False)"
    using bl(1) by (simp add: masterTryPartialResynchronization_def Let_def)
  then have "syncCommand True over jk runid s 2 fresh_client False True False (Some 0) (length ?msg) DiskChild False True = Some (?s, None)"
    using bl(1) s(3) by (simp add: syncCommand_def add_full_slave_def fresh_client_def Let_def)
  from replicated.sync [OF r fresh_sink this] have "replicated over jk runid 1 ?s ?H (?f(2 := Some 2))"
    using s(3) by (simp add: joined_def)
  moreover have "pending (sl_client ?sl) = ?H"
  proof -
    have d: "sink ?d" "o_sentlen ?d = 0" "pending ?d = ?H"
      using s(2,3) by (auto simp: repl_inv_def slave_ok_def suffix_from_def)
    then show ?thesis using sink_copy(3) [OF fresh_sink _ d(1,2)] by (simp add: fresh_client_def)
  qed
  ultimately show ?thesis using bl(2) by (intro exI [of _ ?s] exI [of _ ?H] exI [of _ "?f(2 := Some 2)"] exI [of _ ?sl]) simp
qed

text \<open>
  A slave that waits for a snapshot to start is sent the \<open>SELECT\<close> command all the same, although
  it gets no command after it.
\<close>

lemma waiting_slave_gets_select:
  assumes "repl_inv b s H f" "sl \<in> set (rslaves s)" "sl_state sl = REPL_WAIT_BGSAVE_START" "slaveseldb s \<noteq> dictid"
    and "list_all arg_ok argv" "length argv < 2 ^ 63" "in_sint 64 dictid"
  shows "\<exists>s' sl'. replicationFeedSlaves True over jk s dictid argv = Some s' \<and> sl' \<in> set (rslaves s') \<and> sl_id sl' = sl_id sl \<and>
    pending (sl_client sl') = pending (sl_client sl) @ select_bytes dictid"
proof -
  have bl: "repl_backlog s \<noteq> None" using assms(1,2) by (auto simp: repl_inv_def split: if_splits)
  have sk: "sink (sl_client sl)" using assms(1,2) by (auto simp: repl_inv_def slave_ok_def)
  let ?sl = "sl\<lparr>sl_client := foldl (push_bytes True over) (sl_client sl) [select_bytes dictid]\<rparr>"
  let ?h = "\<lambda>sl. sl\<lparr>sl_client := foldl (push_bytes True over) (sl_client sl)
      (if sl_state sl = REPL_WAIT_BGSAVE_START then (if slaveseldb s \<noteq> dictid then [select_bytes dictid] else []) else fed_pieces s dictid argv)\<rparr>"
  obtain s' where s': "replicationFeedSlaves True over jk s dictid argv = Some s'" "rslaves s' = map ?h (rslaves s)"
    using feed_slaves_ok [OF assms(1) bl assms(5-7), of over jk] by blast
  have "?sl = ?h sl" using assms(3,4) by simp
  then have "?sl \<in> set (rslaves s')" unfolding s'(2) set_map using assms(2) by blast
  then show ?thesis using s'(1) sink_pushes [OF sk, of over "[select_bytes dictid]"] by (intro exI [of _ s'] exI [of _ ?sl]) simp
qed

end
