(* ===== verification/Object.thy ===== *)
theory Object
  imports SdsText DictIter
begin

text \<open>
  String objects, from \<open>object.c\<close>, and the dictionary type that has them as keys, from
  \<open>redis.c\<close>.  An object is its encoding with what \<open>ptr\<close> holds: the contents of an sds string
  (\<open>REDIS_ENCODING_RAW\<close>) or a \<open>long\<close> (\<open>REDIS_ENCODING_INT\<close>).  Reference counts, the access time
  and the spare room of the sds string are not part of the value; where the code tests them
  (\<open>tryObjectEncoding\<close> and its \<open>refcount\<close>, pointer equality in the comparison) they are arguments.
\<close>

section \<open>Objects\<close>

datatype robj = ORaw bytes | OInt "64 word"

definition createStringObject :: "bytes \<Rightarrow> robj" where "createStringObject s = ORaw s"

text \<open>
  The shared objects for small integers have the integer encoding, and every \<open>long long\<close> is a
  \<open>long\<close>; the last branch of the code is kept for values outside.
\<close>

definition createStringObjectFromLongLong :: "int \<Rightarrow> robj" where
  "createStringObjectFromLongLong v = (if - (2 ^ 63) \<le> v \<and> v \<le> 2 ^ 63 - 1 then OInt (word_of_int v) else ORaw (ll_decimal v))"

definition dupStringObject :: "robj \<Rightarrow> robj option" where
  "dupStringObject ob = (case ob of ORaw s \<Rightarrow> Some (createStringObject s) | OInt w \<Rightarrow> None)"

definition isObjectRepresentableAsLongLong :: "robj \<Rightarrow> int option" where
  "isObjectRepresentableAsLongLong ob = (case ob of OInt w \<Rightarrow> Some (sint w) | ORaw s \<Rightarrow> string2ll s)"

text \<open>\<open>sdsRemoveFreeSpace\<close> on a string that cannot be encoded does not change its contents.\<close>

definition tryObjectEncoding :: "nat \<Rightarrow> robj \<Rightarrow> robj" where
  "tryObjectEncoding refcount ob =
     (case ob of
        OInt w \<Rightarrow> ob
      | ORaw s \<Rightarrow>
          if refcount > 1 then ob
          else if length s > 21 then ob
          else case string2l s of None \<Rightarrow> ob | Some v \<Rightarrow> OInt (word_of_int v))"

text \<open>\<open>ll2string\<close> on a local buffer \<open>buf\<close>, then \<open>strlen\<close>.\<close>

definition getDecodedObject :: "bytes \<Rightarrow> robj \<Rightarrow> robj option" where
  "getDecodedObject buf ob =
     (case ob of
        ORaw s \<Rightarrow> Some ob
      | OInt w \<Rightarrow> do { (n, buf) \<leftarrow> ll2string buf 32 (sint w); Some (createStringObject (takeWhile (\<lambda>b. b \<noteq> 0) buf)) })"

text \<open>The characters and the length of an object for a comparison, with a local buffer of \<open>n\<close> bytes.\<close>

definition object_chars :: "bytes \<Rightarrow> nat \<Rightarrow> robj \<Rightarrow> bytes option" where
  "object_chars buf n ob =
     (case ob of
        ORaw s \<Rightarrow> Some s
      | OInt w \<Rightarrow> do { (alen, buf) \<leftarrow> ll2string buf n (sint w); rd_block buf 0 alen })"

text \<open>
  \<open>compareStringObjectsWithFlags\<close>: \<open>same\<close> is the equality of the pointers, \<open>coll\<close> the function
  \<open>strcoll\<close> of the C library when the flag \<open>REDIS_COMPARE_COLL\<close> is set.
\<close>

definition compareStringObjectsWithFlags :: "bytes \<Rightarrow> bytes \<Rightarrow> bool \<Rightarrow> (bytes \<Rightarrow> bytes \<Rightarrow> int) option \<Rightarrow> robj \<Rightarrow> robj \<Rightarrow> int option" where
  "compareStringObjectsWithFlags bufa bufb same coll a b =
     (if same then Some 0
      else do {
        astr \<leftarrow> object_chars bufa 128 a;
        bstr \<leftarrow> object_chars bufb 128 b;
        case coll of
          Some f \<Rightarrow> Some (f astr bstr)
        | None \<Rightarrow>
            Some (let minlen = (if length astr < length bstr then length astr else length bstr);
                      cmp = memcmp_c (take minlen astr) (take minlen bstr) in
                  if cmp = 0 then s32 (int (length astr) - int (length bstr)) else cmp)
      })"

definition compareStringObjects :: "bytes \<Rightarrow> bytes \<Rightarrow> bool \<Rightarrow> robj \<Rightarrow> robj \<Rightarrow> int option" where
  "compareStringObjects bufa bufb same a b = compareStringObjectsWithFlags bufa bufb same None a b"

definition collateStringObjects :: "bytes \<Rightarrow> bytes \<Rightarrow> bool \<Rightarrow> (bytes \<Rightarrow> bytes \<Rightarrow> int) \<Rightarrow> robj \<Rightarrow> robj \<Rightarrow> int option" where
  "collateStringObjects bufa bufb same strcoll a b = compareStringObjectsWithFlags bufa bufb same (Some strcoll) a b"

definition equalStringObjects :: "bytes \<Rightarrow> bytes \<Rightarrow> bool \<Rightarrow> robj \<Rightarrow> robj \<Rightarrow> bool option" where
  "equalStringObjects bufa bufb same a b =
     (case (a, b) of
        (OInt v, OInt w) \<Rightarrow> Some (v = w)
      | _ \<Rightarrow> do { c \<leftarrow> compareStringObjects bufa bufb same a b; Some (c = 0) })"

definition stringObjectLen :: "bytes \<Rightarrow> robj \<Rightarrow> nat option" where
  "stringObjectLen buf ob =
     (case ob of ORaw s \<Rightarrow> Some (length s) | OInt w \<Rightarrow> do { (n, buf) \<leftarrow> ll2string buf 32 (sint w); Some n })"

section \<open>Objects as keys of a dictionary\<close>

text \<open>
  The code keeps the two lengths in variables of type \<open>int\<close>, which hold the length of every
  string up to the limit of 512 MB.
\<close>

definition dictSdsKeyCompare :: "bytes \<Rightarrow> bytes \<Rightarrow> bool" where
  "dictSdsKeyCompare key1 key2 = (if length key1 \<noteq> length key2 then False else memcmp_c key1 key2 = 0)"

text \<open>
  The functions of a \<open>dictType\<close> are total: the local buffer is fixed here, and its initial
  contents do not matter (lemma \<open>getDecodedObject_eq\<close>).
\<close>

definition dictEncObjKeyCompare :: "robj \<Rightarrow> robj \<Rightarrow> bool" where
  "dictEncObjKeyCompare o1 o2 =
     (case (o1, o2) of
        (OInt v, OInt w) \<Rightarrow> v = w
      | _ \<Rightarrow> (case (getDecodedObject (replicate 32 0) o1, getDecodedObject (replicate 32 0) o2) of
                (Some (ORaw s1), Some (ORaw s2)) \<Rightarrow> dictSdsKeyCompare s1 s2
              | _ \<Rightarrow> False))"

definition dictEncObjHash :: "32 word \<Rightarrow> robj \<Rightarrow> 32 word" where
  "dictEncObjHash seed ob =
     (case ob of
        ORaw s \<Rightarrow> dictGenHashFunction seed s
      | OInt w \<Rightarrow> (case ll2string (replicate 32 0) 32 (sint w) of
                    Some (len, buf) \<Rightarrow> dictGenHashFunction seed (take len buf)
                  | None \<Rightarrow> 0))"

definition setDictType :: "32 word \<Rightarrow> (robj, unit) dictType" where
  "setDictType seed = \<lparr>hashFunction = unat \<circ> dictEncObjHash seed, keyDup = None, valDup = None, keyCompare = Some dictEncObjKeyCompare\<rparr>"

section \<open>The string an object stands for\<close>

definition str_of :: "robj \<Rightarrow> bytes" where
  "str_of ob = (case ob of ORaw s \<Rightarrow> s | OInt w \<Rightarrow> ll_decimal (sint w))"

lemma str_of_simps [simp]: "str_of (ORaw s) = s" "str_of (OInt w) = ll_decimal (sint w)"
  by (simp_all add: str_of_def)

lemma sint_range: "in_sint 64 (sint (w :: 64 word))"
  using sint_ge [of w] sint_lt [of w] by simp

lemma sint_of_int: "in_sint 64 v \<Longrightarrow> sint (word_of_int v :: 64 word) = v"
  by (simp add: sint_sbintrunc' signed_take_bit_int_eq_self)

lemma ll_decimal_inj: "in_sint 64 v \<Longrightarrow> in_sint 64 w \<Longrightarrow> ll_decimal v = ll_decimal w \<longleftrightarrow> v = w"
  using string2ll_canonical [of "ll_decimal v" v] string2ll_canonical [of "ll_decimal v" w] by auto

lemma dec_digits_not_0: "0 \<notin> set (dec_digits n)"
  using digits_dec_digits [of 0 n] by auto

lemma ll_decimal_not_0: "0 \<notin> set (ll_decimal v)"
  by (simp add: ll_decimal_def dec_digits_not_0)

lemma ll2string_word:
  assumes "length buf = n" "20 < n"
  shows "ll2string buf n (sint (w :: 64 word)) =
    Some (length (ll_decimal (sint w)), ll_decimal (sint w) @ 0 # drop (length (ll_decimal (sint w)) + 1) buf)"
  using ll2string_spec [OF sint_range, of n buf w] length_ll_decimal_le [OF sint_range, of w] assms by simp

lemma getDecodedObject_eq: "length buf = 32 \<Longrightarrow> getDecodedObject buf ob = Some (ORaw (str_of ob))"
  using ll_decimal_not_0
  by (cases ob) (auto simp: getDecodedObject_def createStringObject_def ll2string_word takeWhile_append intro!: takeWhile_eq_all_conv [THEN iffD2])

lemma object_chars_eq: "length buf = n \<Longrightarrow> 20 < n \<Longrightarrow> object_chars buf n ob = Some (str_of ob)"
  by (cases ob) (auto simp: object_chars_def ll2string_word rd_block_def)

lemma stringObjectLen_eq: "length buf = 32 \<Longrightarrow> stringObjectLen buf ob = Some (length (str_of ob))"
  by (cases ob) (auto simp: stringObjectLen_def ll2string_word)

lemma representable: "isObjectRepresentableAsLongLong ob = Some v \<longleftrightarrow> in_sint 64 v \<and> str_of ob = ll_decimal v"
proof (cases ob)
  case (ORaw s)
  then show ?thesis by (simp only: isObjectRepresentableAsLongLong_def robj.case str_of_simps string2ll_canonical)
next
  case (OInt w)
  then show ?thesis using ll_decimal_inj [OF sint_range, of v w] sint_range [of w] by (auto simp: isObjectRepresentableAsLongLong_def)
qed

lemma str_of_from_ll: "in_sint 64 v \<Longrightarrow> str_of (createStringObjectFromLongLong v) = ll_decimal v"
  by (simp add: createStringObjectFromLongLong_def sint_of_int)

text \<open>The integer encoding keeps the string, so a decoded object is what the client sent.\<close>

lemma tryObjectEncoding_str: "str_of (tryObjectEncoding rc ob) = str_of ob"
proof -
  have "str_of (OInt (word_of_int v)) = s" if "string2l s = Some v" for s v
    using that string2ll_canonical [of s v] by (auto simp: string2l_def sint_of_int split: option.splits if_splits)
  then show ?thesis by (auto simp: tryObjectEncoding_def split: robj.splits option.splits)
qed

lemma dictEncObjKeyCompare_iff: "dictEncObjKeyCompare o1 o2 \<longleftrightarrow> str_of o1 = str_of o2"
proof (cases "\<exists>v w. o1 = OInt v \<and> o2 = OInt w")
  case True
  then show ?thesis using ll_decimal_inj [OF sint_range sint_range] by (auto simp: dictEncObjKeyCompare_def intro: signed_word_eqI)
next
  case False
  then have "dictEncObjKeyCompare o1 o2 \<longleftrightarrow> dictSdsKeyCompare (str_of o1) (str_of o2)"
    by (auto simp: dictEncObjKeyCompare_def getDecodedObject_eq split: robj.splits)
  then show ?thesis using memcmp_c_0 by (auto simp: dictSdsKeyCompare_def)
qed

lemma dictEncObjHash_eq: "dictEncObjHash seed ob = dictGenHashFunction seed (str_of ob)"
  by (cases ob) (simp_all add: dictEncObjHash_def ll2string_word)

text \<open>The two encodings of a string are one key of a dictionary.\<close>

lemma set_cmp [simp]: "dictCompareKeys (setDictType seed) o1 o2 \<longleftrightarrow> str_of o1 = str_of o2"
  by (simp add: dictCompareKeys_def setDictType_def dictEncObjKeyCompare_iff)

lemma set_dup [simp]: "dup_key (setDictType seed) k = k" "dup_val (setDictType seed) v = v"
  by (simp_all add: dup_key_def dup_val_def setDictType_def)

lemma setDictType_ok: "dictType_ok (setDictType seed)"
proof -
  have h: "dictHashKey (setDictType seed) a = dictHashKey (setDictType seed) b" if "str_of a = str_of b" for a b
    using that by (simp add: dictHashKey_def setDictType_def dictEncObjHash_eq)
  show ?thesis unfolding dictType_ok_def set_cmp set_dup by (intro conjI allI impI) (rule h | simp)+
qed

text \<open>
  The comparisons of two objects order them as strings whatever their encodings; the length
  difference is an \<open>int\<close>.
\<close>

lemma compareStringObjects_spec:
  assumes "length bufa = 128" "length bufb = 128"
  shows "compareStringObjects bufa bufb False a b = Some (prefix_cmp (str_of a) (str_of b))"
proof -
  have "object_chars bufa 128 a = Some (str_of a)" "object_chars bufb 128 b = Some (str_of b)"
    by (rule object_chars_eq; use assms in simp)+
  then show ?thesis
    unfolding compareStringObjects_def compareStringObjectsWithFlags_def prefix_cmp_def by (simp only: if_False Option.bind.simps option.case)
qed

lemma equalStringObjects_spec:
  assumes "length bufa = 128" "length bufb = 128" "length (str_of a) < 2 ^ 31" "length (str_of b) < 2 ^ 31" "same \<Longrightarrow> a = b"
  shows "equalStringObjects bufa bufb same a b = Some (str_of a = str_of b)"
proof (cases "\<exists>v w. a = OInt v \<and> b = OInt w")
  case True
  then show ?thesis using ll_decimal_inj [OF sint_range sint_range] by (auto simp: equalStringObjects_def intro: signed_word_eqI)
next
  case False
  then have "equalStringObjects bufa bufb same a b = (do { c \<leftarrow> compareStringObjects bufa bufb same a b; Some (c = 0) })"
    by (auto simp: equalStringObjects_def split: robj.splits)
  moreover have "compareStringObjects bufa bufb True a b = Some 0" by (simp add: compareStringObjects_def compareStringObjectsWithFlags_def)
  ultimately show ?thesis
    using compareStringObjects_spec [OF assms(1,2), of a b] prefix_cmp_order(2) [OF assms(3,4)] assms(5) by (cases same) auto
qed

end
