(* ===== verification/Tset.thy ===== *)
theory Tset
  imports Object DictSize Intset
begin

text \<open>
  The set type, from \<open>t_set.c\<close>: a set of strings is an intset while all its members are decimal
  integers and there are at most \<open>set-max-intset-entries\<close> of them, and a dictionary after that.
  This theory holds the operations on one set object and their iterator; the commands are in
  \<open>TsetCmd\<close>.  \<open>None\<close> is a failed assertion or an invalid access.

  \<open>senv\<close> holds what the operations take from the server: the hash seed, the flag of
  \<open>dictEnableResize\<close>, the contents of fresh memory, the limit on intsets, and the addresses of
  hash tables (for the fingerprint of an iterator).
\<close>

record senv =
  se_seed :: "32 word"
  se_cr :: bool
  se_jk :: "nat \<Rightarrow> byte"
  se_max :: nat
  se_adr :: "64 word \<times> 64 word"

section \<open>Set objects\<close>

datatype setobj = IntSet intset | HtSet "(robj, unit) dict"

definition createSetObject :: setobj where "createSetObject = HtSet dictCreate"
definition createIntsetObject :: setobj where "createIntsetObject = IntSet intsetNew"

definition setTypeCreate :: "robj \<Rightarrow> setobj" where
  "setTypeCreate v = (case isObjectRepresentableAsLongLong v of Some ll \<Rightarrow> createIntsetObject | None \<Rightarrow> createSetObject)"

text \<open>The iterator; \<open>setTypeNext\<close> returns an object or an integer, by the encoding.\<close>

datatype setTypeIterator = SiHt "(robj, unit) dictIterator" | SiInt nat

datatype selem = EObj robj | EInt int

definition setTypeInitIterator :: "setobj \<Rightarrow> setTypeIterator" where
  "setTypeInitIterator so = (case so of HtSet d \<Rightarrow> SiHt dictGetIterator | IntSet is \<Rightarrow> SiInt 0)"

definition setTypeReleaseIterator :: "senv \<Rightarrow> setobj \<Rightarrow> setTypeIterator \<Rightarrow> setobj option" where
  "setTypeReleaseIterator ev so si =
     (case (so, si) of
        (HtSet d, SiHt di) \<Rightarrow> map_option HtSet (dictReleaseIterator (se_adr ev) d di)
      | (IntSet is, SiInt ii) \<Rightarrow> Some so
      | _ \<Rightarrow> None)"

definition setTypeNext :: "senv \<Rightarrow> setobj \<Rightarrow> setTypeIterator \<Rightarrow> (setobj \<times> setTypeIterator \<times> selem option) option" where
  "setTypeNext ev so si =
     (case (so, si) of
        (HtSet d, SiHt di) \<Rightarrow>
          do { (d, di, de) \<leftarrow> dictNext (se_adr ev) d di; Some (HtSet d, SiHt di, map_option (\<lambda>de. EObj (fst de)) de) }
      | (IntSet is, SiInt ii) \<Rightarrow>
          do { v \<leftarrow> intsetGet is ii; Some (so, SiInt (ii + 1), map_option EInt v) }
      | _ \<Rightarrow> None)"

definition elem_object :: "selem \<Rightarrow> robj" where
  "elem_object e = (case e of EObj ob \<Rightarrow> ob | EInt v \<Rightarrow> createStringObjectFromLongLong v)"

definition setTypeNextObject :: "senv \<Rightarrow> setobj \<Rightarrow> setTypeIterator \<Rightarrow> (setobj \<times> setTypeIterator \<times> robj option) option" where
  "setTypeNextObject ev so si =
     do { (so, si, e) \<leftarrow> setTypeNext ev so si; Some (so, si, map_option elem_object e) }"

text \<open>
  \<open>while (next(si) != ...) body\<close> for either of the two functions above, and the whole use of an
  iterator: create, loop, release.
\<close>

partial_function (option) set_loop ::
  "(setobj \<Rightarrow> setTypeIterator \<Rightarrow> (setobj \<times> setTypeIterator \<times> 'e option) option) \<Rightarrow>
   ('s \<Rightarrow> 'e \<Rightarrow> 's option) \<Rightarrow> setobj \<Rightarrow> setTypeIterator \<Rightarrow> 's \<Rightarrow> (setobj \<times> setTypeIterator \<times> 's) option" where
  "set_loop next_of body so si s =
     do {
       (so, si, e) \<leftarrow> next_of so si;
       case e of
         None \<Rightarrow> Some (so, si, s)
       | Some x \<Rightarrow> do { s \<leftarrow> body s x; set_loop next_of body so si s }
     }"

definition set_for ::
  "senv \<Rightarrow> (setobj \<Rightarrow> setTypeIterator \<Rightarrow> (setobj \<times> setTypeIterator \<times> 'e option) option) \<Rightarrow>
   ('s \<Rightarrow> 'e \<Rightarrow> 's option) \<Rightarrow> setobj \<Rightarrow> 's \<Rightarrow> (setobj \<times> 's) option" where
  "set_for ev next_of body so s =
     do {
       (so, si, s) \<leftarrow> set_loop next_of body so (setTypeInitIterator so) s;
       so \<leftarrow> setTypeReleaseIterator ev so si;
       Some (so, s)
     }"

definition convert_add :: "senv \<Rightarrow> (robj, unit) dict \<Rightarrow> selem \<Rightarrow> (robj, unit) dict option" where
  "convert_add ev d e =
     (case e of
        EInt intele \<Rightarrow>
          do {
            (d, r) \<leftarrow> dictAdd (setDictType (se_seed ev)) (se_cr ev) () d (createStringObjectFromLongLong intele) ();
            if r = DICT_OK then Some d else None
          }
      | EObj ob \<Rightarrow> None)"

definition setTypeConvert :: "senv \<Rightarrow> setobj \<Rightarrow> setobj option" where
  "setTypeConvert ev so =
     (case so of
        HtSet d \<Rightarrow> None
      | IntSet is \<Rightarrow>
          do {
            (d, r) \<leftarrow> dictExpand dictCreate (intsetLen is);
            (so, d) \<leftarrow> set_for ev (setTypeNext ev) (convert_add ev) so d;
            Some (HtSet d)
          })"

definition setTypeAdd :: "senv \<Rightarrow> setobj \<Rightarrow> robj \<Rightarrow> (setobj \<times> bool) option" where
  "setTypeAdd ev so v =
     (case so of
        HtSet d \<Rightarrow>
          do { (d, r) \<leftarrow> dictAdd (setDictType (se_seed ev)) (se_cr ev) () d v (); Some (HtSet d, r = DICT_OK) }
      | IntSet is \<Rightarrow>
          (case isObjectRepresentableAsLongLong v of
             Some llval \<Rightarrow>
               do {
                 (is, success) \<leftarrow> intsetAdd (se_jk ev) is llval;
                 if success then
                   do {
                     so \<leftarrow> (if intsetLen is > se_max ev then setTypeConvert ev (IntSet is) else Some (IntSet is));
                     Some (so, True)
                   }
                 else Some (IntSet is, False)
               }
           | None \<Rightarrow>
               do {
                 so \<leftarrow> setTypeConvert ev so;
                 case so of
                   HtSet d \<Rightarrow>
                     do {
                       (d, r) \<leftarrow> dictAdd (setDictType (se_seed ev)) (se_cr ev) () d v ();
                       if r = DICT_OK then Some (HtSet d, True) else None
                     }
                 | IntSet _ \<Rightarrow> None
               }))"

definition setTypeRemove :: "senv \<Rightarrow> setobj \<Rightarrow> robj \<Rightarrow> (setobj \<times> bool) option" where
  "setTypeRemove ev so v =
     (case so of
        HtSet d \<Rightarrow>
          do {
            (d, r, fr) \<leftarrow> dictDelete (setDictType (se_seed ev)) d v;
            if r = DICT_OK then do { d \<leftarrow> resize_dict (se_cr ev) d; Some (HtSet d, True) } else Some (HtSet d, False)
          }
      | IntSet is \<Rightarrow>
          (case isObjectRepresentableAsLongLong v of
             Some llval \<Rightarrow> do { (is, success) \<leftarrow> intsetRemove (se_jk ev) is llval; Some (IntSet is, success) }
           | None \<Rightarrow> Some (so, False)))"

definition setTypeIsMember :: "senv \<Rightarrow> setobj \<Rightarrow> robj \<Rightarrow> (setobj \<times> bool) option" where
  "setTypeIsMember ev so v =
     (case so of
        HtSet d \<Rightarrow> do { (d, p) \<leftarrow> dictFind (setDictType (se_seed ev)) d v; Some (HtSet d, p \<noteq> None) }
      | IntSet is \<Rightarrow>
          (case isObjectRepresentableAsLongLong v of
             Some llval \<Rightarrow> do { f \<leftarrow> intsetFind is llval; Some (so, f) }
           | None \<Rightarrow> Some (so, False)))"

definition setTypeRandomElement :: "senv \<Rightarrow> nat list \<Rightarrow> setobj \<Rightarrow> (setobj \<times> selem \<times> nat list) option" where
  "setTypeRandomElement ev rs so =
     (case so of
        HtSet d \<Rightarrow>
          do {
            (d, de, rs) \<leftarrow> dictGetRandomKey (setDictType (se_seed ev)) d rs;
            de \<leftarrow> de;
            Some (HtSet d, EObj (fst de), rs)
          }
      | IntSet is \<Rightarrow>
          (case rs of [] \<Rightarrow> None | r # rs \<Rightarrow> do { v \<leftarrow> intsetRandom r is; Some (so, EInt v, rs) }))"

definition setTypeSize :: "setobj \<Rightarrow> nat" where
  "setTypeSize so = (case so of HtSet d \<Rightarrow> dictSize d | IntSet is \<Rightarrow> intsetLen is)"

section \<open>The set of strings of an object\<close>

definition elem_str :: "selem \<Rightarrow> bytes" where
  "elem_str e = (case e of EObj ob \<Rightarrow> str_of ob | EInt v \<Rightarrow> ll_decimal v)"

text \<open>The members in the order of an iteration; \<open>xs\<close> are the integers of an intset.\<close>

definition set_elems :: "setobj \<Rightarrow> int list \<Rightarrow> selem list" where
  "set_elems so xs = (case so of HtSet d \<Rightarrow> map (\<lambda>e. EObj (fst e)) (entries d) | IntSet is \<Rightarrow> map EInt xs)"

definition set_ok :: "senv \<Rightarrow> setobj \<Rightarrow> int list \<Rightarrow> bool" where
  "set_ok ev so xs =
     (case so of
        HtSet d \<Rightarrow> dict_inv (setDictType (se_seed ev)) d
      | IntSet is \<Rightarrow> intset_rep is xs)"

text \<open>An intset in the key space has not passed the limit.\<close>

definition set_rep :: "senv \<Rightarrow> setobj \<Rightarrow> bytes set \<Rightarrow> bool" where
  "set_rep ev so S \<longleftrightarrow>
     (\<exists>xs. set_ok ev so xs \<and> (\<forall>is. so = IntSet is \<longrightarrow> length xs \<le> se_max ev) \<and> S = elem_str ` set (set_elems so xs))"

lemma ht_rep: "set_rep ev (HtSet d) S \<longleftrightarrow> dict_inv (setDictType (se_seed ev)) d \<and> S = (\<lambda>e. str_of (fst e)) ` set (entries d)"
  by (simp add: set_rep_def set_ok_def set_elems_def elem_str_def image_image)

lemma int_rep: "set_rep ev (IntSet is) S \<longleftrightarrow> (\<exists>xs. intset_rep is xs \<and> length xs \<le> se_max ev \<and> S = ll_decimal ` set xs)"
  by (simp add: set_rep_def set_ok_def set_elems_def elem_str_def image_image)

lemma set_lookup: "lookup (setDictType sd) es = (\<lambda>k. if str_of k \<in> (\<lambda>e. str_of (fst e)) ` set es then Some () else None)"
proof
  fix k
  show "lookup (setDictType sd) es k = (if str_of k \<in> (\<lambda>e. str_of (fst e)) ` set es then Some () else None)"
    by (induction es) (auto simp: lookup_def hits_Cons)
qed

abbreviation member_map :: "bytes set \<Rightarrow> robj \<Rightarrow> unit option" where
  "member_map S \<equiv> \<lambda>k. if str_of k \<in> S then Some () else None"

lemma member_map_inj: "member_map S = member_map S' \<longleftrightarrow> S = S'"
proof
  assume e: "member_map S = member_map S'"
  have "x \<in> S \<longleftrightarrow> x \<in> S'" for x using fun_cong [OF e, of "ORaw x"] by (auto split: if_splits)
  then show "S = S'" by blast
qed simp

lemma ht_rep_map: "set_rep ev (HtSet d) S \<longleftrightarrow> dict_rep (setDictType (se_seed ev)) d (member_map S)"
  unfolding ht_rep dict_rep_def set_lookup member_map_inj by blast

lemma uniq_strings: "uniq (setDictType sd) es \<Longrightarrow> distinct (map (\<lambda>e. str_of (fst e)) es)"
proof (induction es)
  case (Cons e es)
  have u: "hits (setDictType sd) (fst e) es = []" "uniq (setDictType sd) es"
    using Cons.prems by (auto simp: uniq_Cons [OF setDictType_ok])
  have "str_of (fst e) \<notin> (\<lambda>e. str_of (fst e)) ` set es" using u(1) by (auto simp: hits_def filter_empty_conv)
  then show ?case using Cons.IH [OF u(2)] by simp
qed simp

lemma intset_in_sint:
  assumes "intset_rep is xs" "v \<in> set xs"
  shows "in_sint 64 v"
proof -
  have "enc_ok (is_encoding is)" "in_sint (8 * is_encoding is) v" using intset_rep_sizes(1,5) [OF assms(1)] assms(2) by blast+
  then show ?thesis by auto
qed

lemma intset_distinct: "intset_rep is xs \<Longrightarrow> distinct xs"
  by (auto simp: intset_rep_def strict_sorted_iff)

lemma set_elems_distinct: "set_ok ev so xs \<Longrightarrow> distinct (map elem_str (set_elems so xs))"
proof (cases so)
  case (HtSet d)
  assume "set_ok ev so xs"
  then have "uniq (setDictType (se_seed ev)) (entries d)" using HtSet by (simp add: set_ok_def dict_inv_def)
  then show ?thesis using uniq_strings HtSet by (simp add: set_elems_def elem_str_def comp_def)
next
  case (IntSet "is")
  assume "set_ok ev so xs"
  then have r: "intset_rep is xs" using IntSet by (simp add: set_ok_def)
  have "inj_on ll_decimal (set xs)" using ll_decimal_inj intset_in_sint [OF r] by (auto intro!: inj_onI)
  then show ?thesis using intset_distinct [OF r] IntSet by (simp add: set_elems_def elem_str_def comp_def distinct_map)
qed

lemma set_size:
  assumes "set_rep ev so S"
  shows "setTypeSize so = card S" "finite S"
proof -
  obtain xs where xs: "set_ok ev so xs" "S = set (map elem_str (set_elems so xs))" using assms by (auto simp: set_rep_def)
  have "setTypeSize so = length (set_elems so xs)"
    using xs(1) dictSize_entries by (auto simp: setTypeSize_def set_ok_def set_elems_def intsetLen_def intset_rep_def split: setobj.splits)
  then show "setTypeSize so = card S" using distinct_card [OF set_elems_distinct [OF xs(1)]] xs(2) by simp
  show "finite S" by (simp add: xs(2))
qed

section \<open>Iteration\<close>

text \<open>An iterator that is not safe records the fingerprint of the dictionary at its first step.\<close>

definition fp_ok :: "64 word \<times> 64 word \<Rightarrow> ('k, 'v) dict \<Rightarrow> ('k, 'v) dictIterator \<Rightarrow> bool" where
  "fp_ok adr d it \<longleftrightarrow> \<not> it_safe it \<and>
     (it_index it = - 1 \<and> it_table it = 0 \<and> it_entry it = [] \<or> it_fingerprint it = dictFingerprint adr d)"

lemma round_fp:
  "iter_round adr d it = Some (d', it', stop) \<Longrightarrow> fp_ok adr d it \<Longrightarrow> \<not> it_safe it' \<and> it_fingerprint it' = dictFingerprint adr d \<and> d' = d"
  by (auto simp: iter_round_def fp_ok_def iter_load_def Let_def split: if_splits bind_splits)

lemma next_fp:
  assumes "dictNext adr d it = Some r" "fp_ok adr d it"
  shows "case r of (d', it', e) \<Rightarrow> \<not> it_safe it' \<and> it_fingerprint it' = dictFingerprint adr d \<and> d' = d"
proof -
  have "fp_ok adr d it \<longrightarrow> (case r of (d', it', e) \<Rightarrow> \<not> it_safe it' \<and> it_fingerprint it' = dictFingerprint adr d \<and> d' = d)"
  proof (rule dictNext.raw_induct [OF _ assms(1)])
    fix self and adr :: "64 word \<times> 64 word" and d :: "('a, 'b) dict" and it r
    assume ih: "\<And>adr d it r. self adr d it = Some r \<Longrightarrow>
        fp_ok adr d it \<longrightarrow> (case r of (d', it', e) \<Rightarrow> \<not> it_safe it' \<and> it_fingerprint it' = dictFingerprint adr d \<and> d' = d)"
      and r: "iter_round adr d it \<bind> (\<lambda>(d, it, stop). if stop then Some (d, it, None)
        else case it_entry it of [] \<Rightarrow> self adr d it | e # es \<Rightarrow> Some (d, it\<lparr>it_nextEntry := es\<rparr>, Some e)) = Some r"
    then obtain d1 it1 stop where r1: "iter_round adr d it = Some (d1, it1, stop)"
        "(if stop then Some (d1, it1, None) else case it_entry it1 of [] \<Rightarrow> self adr d1 it1 | e # es \<Rightarrow> Some (d1, it1\<lparr>it_nextEntry := es\<rparr>, Some e)) = Some r"
      by (auto split: bind_splits)
    show "fp_ok adr d it \<longrightarrow> (case r of (d', it', e) \<Rightarrow> \<not> it_safe it' \<and> it_fingerprint it' = dictFingerprint adr d \<and> d' = d)"
    proof
      assume "fp_ok adr d it"
      note f = round_fp [OF r1(1) this]
      then have "fp_ok adr d it1" by (simp add: fp_ok_def)
      then show "case r of (d', it', e) \<Rightarrow> \<not> it_safe it' \<and> it_fingerprint it' = dictFingerprint adr d \<and> d' = d"
        using ih [of adr d it1 r] r1(2) f by (auto split: if_splits list.splits)
    qed
  qed
  then show ?thesis using assms(2) by blast
qed

text \<open>The functions \<open>setTypeNext\<close> and \<open>setTypeNextObject\<close> differ in what they make of an element.\<close>

definition next_with :: "(selem \<Rightarrow> 'e) \<Rightarrow> senv \<Rightarrow> setobj \<Rightarrow> setTypeIterator \<Rightarrow> (setobj \<times> setTypeIterator \<times> 'e option) option" where
  "next_with g ev so si = do { (so, si, e) \<leftarrow> setTypeNext ev so si; Some (so, si, map_option g e) }"

lemma next_with_eqs: "setTypeNext ev = next_with (\<lambda>e. e) ev" "setTypeNextObject ev = next_with elem_object ev"
proof -
  show "setTypeNext ev = next_with (\<lambda>e. e) ev"
  proof (intro ext)
    fix so si
    show "setTypeNext ev so si = next_with (\<lambda>e. e) ev so si"
      by (cases "setTypeNext ev so si") (auto simp: next_with_def option.map_ident split: prod.splits)
  qed
  show "setTypeNextObject ev = next_with elem_object ev" by (intro ext) (simp add: setTypeNextObject_def next_with_def)
qed

lemma ht_loop:
  assumes inv: "dict_inv T d"
  shows "it_ok d di \<Longrightarrow> fp_ok (se_adr ev) d di \<Longrightarrow>
    \<exists>di'. set_loop (next_with g ev) body (HtSet d) (SiHt di) s =
        map_option (\<lambda>s. (HtSet d, SiHt di', s)) (ofold body s (map (\<lambda>e. g (EObj (fst e))) (rest d di))) \<and>
      fp_ok (se_adr ev) d di' \<and> 0 \<le> it_index di'"
proof (induction "rest d di" arbitrary: di s)
  case Nil
  obtain di' where nx: "dictNext (se_adr ev) d di = Some (started d di, di', None)" "0 \<le> it_index di'"
    using dictNext_ok [OF inv Nil(2), of "se_adr ev"] Nil(1) by (auto split: list.splits)
  have f: "started d di = d" "fp_ok (se_adr ev) d di'" using next_fp [OF nx(1) Nil(3)] by (auto simp: fp_ok_def)
  have "set_loop (next_with g ev) body (HtSet d) (SiHt di) s = Some (HtSet d, SiHt di', s)"
    by (subst set_loop.simps) (simp add: next_with_def setTypeNext_def nx(1) f(1))
  then show ?case using f(2) nx(2) Nil(1) [symmetric] by auto
next
  case (Cons e es)
  obtain di1 where nx: "dictNext (se_adr ev) d di = Some (started d di, di1, Some e)" "rest d di1 = es" "it_ok d di1"
      "0 \<le> it_index di1"
    using dictNext_ok [OF inv Cons(3), of "se_adr ev"] unfolding Cons(2) [symmetric] list.case by (elim exE conjE) (rule that, simp_all)
  have f: "started d di = d" "fp_ok (se_adr ev) d di1" using next_fp [OF nx(1) Cons(4)] by (auto simp: fp_ok_def)
  have l: "set_loop (next_with g ev) body (HtSet d) (SiHt di) s =
      (do { s \<leftarrow> body s (g (EObj (fst e))); set_loop (next_with g ev) body (HtSet d) (SiHt di1) s })"
    by (subst set_loop.simps) (simp add: next_with_def setTypeNext_def nx(1) f(1))
  show ?case
  proof (cases "body s (g (EObj (fst e)))")
    case None
    then show ?thesis using l f nx(4) Cons(2) [symmetric] by auto
  next
    case (Some s')
    then show ?thesis using l Cons(1) [OF nx(2) [symmetric] nx(3) f(2), of s'] Cons(2) [symmetric] by (auto simp: nx(2))
  qed
qed

lemma int_loop:
  assumes r: "intset_rep is xs"
  shows "ii \<le> length xs \<Longrightarrow>
    set_loop (next_with g ev) body (IntSet is) (SiInt ii) s =
      map_option (\<lambda>s. (IntSet is, SiInt (length xs + 1), s)) (ofold body s (map (\<lambda>v. g (EInt v)) (drop ii xs)))"
proof (induction "length xs - ii" arbitrary: ii s)
  case 0
  then have "ii = length xs" by simp
  then show ?case using intset_rep_sizes(2) [OF r]
    by (subst set_loop.simps) (simp add: next_with_def setTypeNext_def intsetGet_def)
next
  case (Suc n)
  then have ii: "ii < length xs" by simp
  have l: "set_loop (next_with g ev) body (IntSet is) (SiInt ii) s =
      (do { s \<leftarrow> body s (g (EInt (xs ! ii))); set_loop (next_with g ev) body (IntSet is) (SiInt (ii + 1)) s })"
    using intset_rep_sizes(2) [OF r] ii intsetGet_pos_rep [OF r ii]
    by (subst set_loop.simps) (simp add: next_with_def setTypeNext_def intsetGet_def)
  have "drop ii xs = xs ! ii # drop (Suc ii) xs" using ii by (simp add: Cons_nth_drop_Suc)
  then show ?case using l Suc(1) [of "Suc ii"] Suc(2) ii by (cases "body s (g (EInt (xs ! ii)))") auto
qed

lemma rest_start: "rest d dictGetIterator = entries d"
  by (auto simp: rest_def dictGetIterator_def entries_def tbl_def get_ht_def split: option.splits)

text \<open>
  A loop over a set performs its body on every member in turn, returns when the body does, and
  leaves the set alone; the check of the fingerprint at its end succeeds.
\<close>

lemma set_for_with:
  assumes "set_ok ev so xs"
  shows "set_for ev (next_with g ev) body so s = map_option (\<lambda>s. (so, s)) (ofold body s (map g (set_elems so xs)))"
proof (cases so)
  case (HtSet d)
  then have inv: "dict_inv (setDictType (se_seed ev)) d" using assms by (simp add: set_ok_def)
  have "it_ok d dictGetIterator" "fp_ok (se_adr ev) d dictGetIterator" by (simp_all add: it_ok_def fp_ok_def dictGetIterator_def)
  from ht_loop [OF inv this, of g body s, unfolded rest_start] obtain di' where
    l: "set_loop (next_with g ev) body (HtSet d) (SiHt dictGetIterator) s =
        map_option (\<lambda>s. (HtSet d, SiHt di', s)) (ofold body s (map (\<lambda>e. g (EObj (fst e))) (entries d)))"
      "fp_ok (se_adr ev) d di'" "0 \<le> it_index di'" by blast
  have "dictReleaseIterator (se_adr ev) d di' = Some d" using l(2,3) by (auto simp: dictReleaseIterator_def fp_ok_def)
  then show ?thesis using l(1) HtSet
    by (cases "ofold body s (map (\<lambda>e. g (EObj (fst e))) (entries d))")
       (simp_all add: set_for_def setTypeInitIterator_def setTypeReleaseIterator_def set_elems_def comp_def)
next
  case (IntSet "is")
  then have "intset_rep is xs" using assms by (simp add: set_ok_def)
  then show ?thesis using IntSet int_loop [of "is" xs 0 g ev body s]
    by (cases "ofold body s (map (\<lambda>v. g (EInt v)) xs)")
       (simp_all add: set_for_def setTypeInitIterator_def setTypeReleaseIterator_def set_elems_def comp_def)
qed

lemma set_for_next: "set_ok ev so xs \<Longrightarrow> set_for ev (setTypeNext ev) body so s = map_option (\<lambda>s. (so, s)) (ofold body s (set_elems so xs))"
  unfolding next_with_eqs by (simp add: set_for_with)

lemma set_for_next_object:
  "set_ok ev so xs \<Longrightarrow> set_for ev (setTypeNextObject ev) body so s = map_option (\<lambda>s. (so, s)) (ofold body s (map elem_object (set_elems so xs)))"
  unfolding next_with_eqs by (simp add: set_for_with)

section \<open>Operations on a set\<close>

lemma ht_entries: "set_rep ev (HtSet d) S \<Longrightarrow> length (entries d) = card S"
  using set_size(1) [of ev "HtSet d" S] dictSize_entries [of "setDictType (se_seed ev)" d] by (simp add: ht_rep setTypeSize_def)

lemma ht_add:
  assumes "set_rep ev (HtSet d) S" "card S < DICT_CAP"
  shows "\<exists>d'. dictAdd (setDictType (se_seed ev)) cr () d v () = Some (d', if str_of v \<in> S then DICT_ERR else DICT_OK) \<and>
    set_rep ev (HtSet d') (insert (str_of v) S)"
proof -
  let ?T = "setDictType (se_seed ev)"
  have r: "dict_rep ?T d (member_map S)" using assms(1) by (simp only: ht_rep_map)
  have c: "length (entries d) < DICT_CAP" using assms ht_entries by simp
  obtain d' where d': "dictAdd ?T cr () d v () = Some (d', if member_map S v = None then DICT_OK else DICT_ERR)"
      "dict_rep ?T d' (if member_map S v = None then put ?T (member_map S) v () else member_map S)"
    using dictAdd_rep [OF setDictType_ok r c, of cr "()" v "()"] by blast
  have "put ?T (member_map S) v () = member_map (insert (str_of v) S)" by (auto simp: put_def)
  then have "(if member_map S v = None then put ?T (member_map S) v () else member_map S) = member_map (insert (str_of v) S)"
    by (simp add: insert_absorb del: insert_iff)
  then have "set_rep ev (HtSet d') (insert (str_of v) S)" using d'(2) by (simp only: ht_rep_map)
  then show ?thesis using d'(1) by (simp split: if_splits)
qed

lemma ht_delete:
  assumes "set_rep ev (HtSet d) S"
  shows "\<exists>d' fr. dictDelete (setDictType (se_seed ev)) d v = Some (d', if str_of v \<in> S then DICT_OK else DICT_ERR, fr) \<and>
    set_rep ev (HtSet d') (S - {str_of v})"
proof -
  let ?T = "setDictType (se_seed ev)"
  have r: "dict_rep ?T d (member_map S)" using assms(1) by (simp only: ht_rep_map)
  obtain d' fr where d': "dictDelete ?T d v = Some (d', if member_map S v = None then DICT_ERR else DICT_OK, fr)"
      "dict_rep ?T d' (del ?T (member_map S) v)"
    using dictGenericDelete_rep [OF setDictType_ok r, of v False] unfolding dictDelete_def by blast
  have "del ?T (member_map S) v = member_map (S - {str_of v})" by (auto simp: del_def)
  then have "set_rep ev (HtSet d') (S - {str_of v})" using d'(2) by (simp add: ht_rep_map)
  then show ?thesis using d'(1) by (simp split: if_splits)
qed

lemma ht_find:
  assumes "set_rep ev (HtSet d) S"
  shows "\<exists>d' p. dictFind (setDictType (se_seed ev)) d v = Some (d', p) \<and> (p \<noteq> None \<longleftrightarrow> str_of v \<in> S) \<and> set_rep ev (HtSet d') S"
proof -
  let ?T = "setDictType (se_seed ev)"
  have r: "dict_rep ?T d (member_map S)" using assms(1) by (simp only: ht_rep_map)
  obtain d' p where f: "dictFind ?T d v = Some (d', p)" "dict_rep ?T d' (member_map S)" "loc_ok ?T d' (member_map S) v p"
    using dictFind_rep [OF setDictType_ok r, of v] by blast
  have "p \<noteq> None \<longleftrightarrow> str_of v \<in> S" using f(3) by (cases p) (auto simp: loc_ok_def split: if_splits prod.splits)
  then show ?thesis using f(1,2) by (simp only: ht_rep_map) blast
qed

lemma convert_adds:
  assumes "\<forall>v\<in>set vs. in_sint 64 v" "distinct vs" "set_rep ev (HtSet d) S" "S \<inter> ll_decimal ` set vs = {}" "card S + length vs \<le> DICT_CAP"
  shows "\<exists>d'. ofold (convert_add ev) d (map EInt vs) = Some d' \<and> set_rep ev (HtSet d') (S \<union> ll_decimal ` set vs)"
  using assms
proof (induction vs arbitrary: d S)
  case (Cons v vs)
  have v: "str_of (createStringObjectFromLongLong v) = ll_decimal v" "ll_decimal v \<notin> S" using Cons.prems str_of_from_ll by auto
  obtain d1 where d1: "dictAdd (setDictType (se_seed ev)) (se_cr ev) () d (createStringObjectFromLongLong v) () = Some (d1, DICT_OK)"
      "set_rep ev (HtSet d1) (insert (ll_decimal v) S)"
    using ht_add [OF Cons.prems(3), of "se_cr ev" "createStringObjectFromLongLong v"] Cons.prems(5) v by auto
  have "ll_decimal v \<notin> ll_decimal ` set vs" using Cons.prems(1,2) ll_decimal_inj by auto
  then have "insert (ll_decimal v) S \<inter> ll_decimal ` set vs = {}" using Cons.prems(4) by auto
  moreover have "card (insert (ll_decimal v) S) + length vs \<le> DICT_CAP" using Cons.prems(5) card_insert_le_m1 [of "Suc (card S)"] set_size(2) [OF Cons.prems(3)] v(2) by simp
  ultimately obtain d' where "ofold (convert_add ev) d1 (map EInt vs) = Some d'" "set_rep ev (HtSet d') (insert (ll_decimal v) S \<union> ll_decimal ` set vs)"
    using Cons.IH [OF _ _ d1(2)] Cons.prems(1,2) by auto
  moreover have "convert_add ev d (EInt v) = Some d1" using d1(1) by (simp add: convert_add_def)
  ultimately show ?case by auto
qed simp

lemma setTypeConvert_rep:
  assumes "intset_rep is xs"
  shows "\<exists>d. setTypeConvert ev (IntSet is) = Some (HtSet d) \<and> set_rep ev (HtSet d) (ll_decimal ` set xs)"
proof -
  let ?T = "setDictType (se_seed ev)"
  have n: "intsetLen is = length xs" "length xs \<le> 268435456" using intset_rep_sizes [OF assms] by (simp_all add: intsetLen_def)
  have "dict_inv ?T dictCreate" using dictCreate_rep by (auto simp: dict_rep_def)
  then obtain d where d: "dictExpand dictCreate (length xs) = Some (d, DICT_OK)" "dict_inv ?T d" "entries d = entries (dictCreate :: (robj, unit) dict)"
    using dictExpand_ok [of ?T dictCreate "length xs"] n(2) by (auto simp: dictCreate_def dictIsRehashing_def dictReset_def)
  then have "set_rep ev (HtSet d) {}" by (simp add: ht_rep dictCreate_def entries_def tbl_def dictReset_def)
  then obtain d' where d': "ofold (convert_add ev) d (map EInt xs) = Some d'" "set_rep ev (HtSet d') (ll_decimal ` set xs)"
    using convert_adds [of xs ev d "{}"] intset_in_sint [OF assms] intset_distinct [OF assms] n(2) by (auto simp: DICT_CAP_def)
  have "set_ok ev (IntSet is) xs" using assms by (simp add: set_ok_def)
  from set_for_next [OF this, of "convert_add ev" d]
  have "set_for ev (setTypeNext ev) (convert_add ev) (IntSet is) d = Some (IntSet is, d')" using d'(1) by (simp add: set_elems_def)
  then show ?thesis using d(1) d'(2) n(1) by (simp add: setTypeConvert_def)
qed

definition senv_ok :: "senv \<Rightarrow> bool" where "senv_ok ev \<longleftrightarrow> se_max ev < INTSET_CAP"

lemma int_member: "intset_rep is xs \<Longrightarrow> in_sint 64 v \<Longrightarrow> ll_decimal v \<in> ll_decimal ` set xs \<longleftrightarrow> v \<in> set xs"
  using intset_in_sint [of "is" xs] ll_decimal_inj by auto

lemma not_representable: "isObjectRepresentableAsLongLong v = None \<Longrightarrow> intset_rep is xs \<Longrightarrow> str_of v \<notin> ll_decimal ` set xs"
  using representable [of v] intset_in_sint [of "is" xs] by (metis imageE option.distinct(1))

text \<open>Adding converts the representation where it must, and nothing else of the set changes.\<close>

lemma setTypeAdd_rep:
  assumes ev: "senv_ok ev" and r: "set_rep ev so S" and c: "card S < DICT_CAP"
  shows "\<exists>so'. setTypeAdd ev so v = Some (so', str_of v \<notin> S) \<and> set_rep ev so' (insert (str_of v) S)"
proof (cases so)
  case (HtSet d)
  then show ?thesis using ht_add [of ev d S "se_cr ev" v] r c by (auto simp: setTypeAdd_def)
next
  case (IntSet "is")
  then obtain xs where xs: "intset_rep is xs" "length xs \<le> se_max ev" "S = ll_decimal ` set xs" using r by (auto simp: int_rep)
  have cap: "length xs < INTSET_CAP" using xs(2) ev by (simp add: senv_ok_def)
  show ?thesis
  proof (cases "isObjectRepresentableAsLongLong v")
    case None
    obtain d where d: "setTypeConvert ev (IntSet is) = Some (HtSet d)" "set_rep ev (HtSet d) S"
      using setTypeConvert_rep [OF xs(1)] xs(3) by blast
    have "str_of v \<notin> S" using not_representable [OF None xs(1)] xs(3) by simp
    then show ?thesis using ht_add [OF d(2) c, of "se_cr ev" v] d(1) None IntSet by (auto simp: setTypeAdd_def)
  next
    case (Some ll)
    then have ll: "in_sint 64 ll" "str_of v = ll_decimal ll" using representable by auto
    obtain is' where is': "intsetAdd (se_jk ev) is ll = Some (is', ll \<notin> set xs)" "intset_rep is' (if ll \<in> set xs then xs else insort ll xs)"
      using intsetAdd_rep [OF xs(1) ll(1) cap] by blast
    show ?thesis
    proof (cases "ll \<in> set xs")
      case True
      then have "set_rep ev (IntSet is') (insert (str_of v) S)" using is'(2) xs(2,3) ll(2) by (auto simp: int_rep insert_absorb)
      then show ?thesis using True is'(1) Some IntSet ll(2) xs(3) by (simp add: setTypeAdd_def)
    next
      case False
      then have ir: "intset_rep is' (insort ll xs)" using is'(2) by simp
      have S': "ll_decimal ` set (insort ll xs) = insert (str_of v) S" by (simp add: ll(2) xs(3) set_insort_key)
      have nS: "str_of v \<notin> S" using False ll(2) xs(3) int_member [OF xs(1) ll(1)] by simp
      have len: "intsetLen is' = length (insort ll xs)" using intset_rep_sizes(2) [OF ir] by (simp add: intsetLen_def)
      show ?thesis
      proof (cases "intsetLen is' > se_max ev")
        case True
        then show ?thesis using setTypeConvert_rep [OF ir, of ev] is'(1) False Some IntSet nS S' by (auto simp: setTypeAdd_def)
      next
        case le: False
        then have "set_rep ev (IntSet is') (insert (str_of v) S)" unfolding int_rep using ir S' len by (intro exI [of _ "insort ll xs"]) simp
        then show ?thesis using le is'(1) False Some IntSet nS by (simp add: setTypeAdd_def)
      qed
    qed
  qed
qed

lemma setTypeRemove_rep:
  assumes r: "set_rep ev so S"
  shows "\<exists>so'. setTypeRemove ev so v = Some (so', str_of v \<in> S) \<and> set_rep ev so' (S - {str_of v})"
proof (cases so)
  case (HtSet d)
  then obtain d' fr where d': "dictDelete (setDictType (se_seed ev)) d v = Some (d', if str_of v \<in> S then DICT_OK else DICT_ERR, fr)"
      "set_rep ev (HtSet d') (S - {str_of v})" using ht_delete [of ev d S v] r by blast
  obtain d2 where "resize_dict (se_cr ev) d' = Some d2" "set_rep ev (HtSet d2) (S - {str_of v})"
    using resize_dict_rep [OF d'(2) [unfolded ht_rep_map], of "se_cr ev"] by (auto simp: ht_rep_map)
  then show ?thesis using d' HtSet by (auto simp: setTypeRemove_def)
next
  case (IntSet "is")
  then obtain xs where xs: "intset_rep is xs" "length xs \<le> se_max ev" "S = ll_decimal ` set xs" using r by (auto simp: int_rep)
  show ?thesis
  proof (cases "isObjectRepresentableAsLongLong v")
    case None
    then have "str_of v \<notin> S" using not_representable [OF None xs(1)] xs(3) by simp
    then show ?thesis using None IntSet r by (simp add: setTypeRemove_def)
  next
    case (Some ll)
    then have ll: "in_sint 64 ll" "str_of v = ll_decimal ll" using representable by auto
    obtain is' where is': "intsetRemove (se_jk ev) is ll = Some (is', ll \<in> set xs)" "intset_rep is' (remove1 ll xs)"
      using intsetRemove_rep [OF xs(1) ll(1)] by blast
    have "ll_decimal u = ll_decimal ll \<longleftrightarrow> u = ll" if "u \<in> set xs" for u using intset_in_sint [OF xs(1) that] ll(1) by (rule ll_decimal_inj)
    then have "ll_decimal ` (set xs - {ll}) = S - {str_of v}" unfolding xs(3) ll(2) by auto
    moreover have "set (remove1 ll xs) = set xs - {ll}" using intset_distinct [OF xs(1)] by simp
    ultimately have "set_rep ev (IntSet is') (S - {str_of v})"
      unfolding int_rep using is'(2) xs(2) by (intro exI [of _ "remove1 ll xs"]) (auto simp: length_remove1)
    then show ?thesis using Some IntSet is'(1) int_member [OF xs(1) ll(1)] ll(2) xs(3) by (simp add: setTypeRemove_def)
  qed
qed

lemma setTypeIsMember_rep:
  assumes r: "set_rep ev so S"
  shows "\<exists>so'. setTypeIsMember ev so v = Some (so', str_of v \<in> S) \<and> set_rep ev so' S"
proof (cases so)
  case (HtSet d)
  then show ?thesis using ht_find [of ev d S v] r by (auto simp: setTypeIsMember_def)
next
  case (IntSet "is")
  then obtain xs where xs: "intset_rep is xs" "S = ll_decimal ` set xs" using r by (auto simp: int_rep)
  show ?thesis
  proof (cases "isObjectRepresentableAsLongLong v")
    case None
    then have "str_of v \<notin> S" using not_representable [OF None xs(1)] xs(2) by simp
    then show ?thesis using None IntSet r by (simp add: setTypeIsMember_def)
  next
    case (Some ll)
    then have ll: "in_sint 64 ll" "str_of v = ll_decimal ll" using representable by auto
    then show ?thesis using Some IntSet r intsetFind_rep [OF xs(1) ll(1)] int_member [OF xs(1) ll(1)] xs(2) by (simp add: setTypeIsMember_def)
  qed
qed

lemma setTypeCreate_rep: "set_rep ev (setTypeCreate v) {}" "set_rep ev createIntsetObject {}"
proof -
  have "set_rep ev createSetObject {}" using dictCreate_rep [of "setDictType (se_seed ev)"] by (simp add: createSetObject_def ht_rep_map)
  moreover show "set_rep ev createIntsetObject {}" unfolding createIntsetObject_def int_rep using intsetNew_rep by (intro exI [of _ "[]"]) simp
  ultimately show "set_rep ev (setTypeCreate v) {}" by (simp add: setTypeCreate_def split: option.splits)
qed

end
