(* ===== verification/TsetCmd.thy ===== *)
theory TsetCmd
  imports Tset
begin

text \<open>
  The commands on sets, from \<open>t_set.c\<close>, over the key space of a database.  The key space is a map
  from keys to values, of which only the sets are looked into; \<open>db->dict\<close> is a dictionary, which
  \<open>Dict\<close> shows to implement such a map, and expired keys have been removed before the lookup.  An
  object of the key space is named by its key, so that two pointers are equal when the keys are.
  The state also keeps what a command leaves for the rest of the server: the counter of changes
  \<open>server.dirty\<close>, by which a command is replicated and logged, the keys given to
  \<open>signalModifiedKey\<close>, by which transactions that watch them fail, and the keyspace events.  A
  command returns its reply as a value; a multi bulk reply has the announced length and the elements.
\<close>

datatype sval = SetVal setobj | OtherVal

record sdb =
  sd_keys :: "bytes \<Rightarrow> sval option"
  sd_dirty :: nat
  sd_touched :: "bytes list"
  sd_events :: "(string \<times> bytes) list"

datatype sreply = SInt int | SBulk selem | SNull | SMulti nat "selem list" | SEmpty | SWrongType

definition dbAdd :: "sdb \<Rightarrow> bytes \<Rightarrow> setobj \<Rightarrow> sdb option" where
  "dbAdd st key v = (if sd_keys st key = None then Some (st\<lparr>sd_keys := (sd_keys st)(key \<mapsto> SetVal v)\<rparr>) else None)"

definition dbDelete :: "sdb \<Rightarrow> bytes \<Rightarrow> sdb \<times> bool" where
  "dbDelete st key = (st\<lparr>sd_keys := (sd_keys st)(key := None)\<rparr>, sd_keys st key \<noteq> None)"

definition signalModifiedKey :: "sdb \<Rightarrow> bytes \<Rightarrow> sdb" where
  "signalModifiedKey st key = st\<lparr>sd_touched := sd_touched st @ [key]\<rparr>"

definition notifyKeyspaceEvent :: "string \<Rightarrow> sdb \<Rightarrow> bytes \<Rightarrow> sdb" where
  "notifyKeyspaceEvent evt st key = st\<lparr>sd_events := sd_events st @ [(evt, key)]\<rparr>"

definition add_dirty :: "nat \<Rightarrow> sdb \<Rightarrow> sdb" where
  "add_dirty n st = st\<lparr>sd_dirty := sd_dirty st + n\<rparr>"

text \<open>Reading the set object of a key, and what an operation through the pointer leaves in it.\<close>

definition get_set :: "sdb \<Rightarrow> bytes \<Rightarrow> setobj option" where
  "get_set st key = (case sd_keys st key of Some (SetVal so) \<Rightarrow> Some so | _ \<Rightarrow> None)"

definition put_set :: "sdb \<Rightarrow> bytes \<Rightarrow> setobj \<Rightarrow> sdb" where
  "put_set st key so = st\<lparr>sd_keys := (sd_keys st)(key \<mapsto> SetVal so)\<rparr>"

text \<open>\<open>lookupKey...OrReply\<close> with \<open>checkType\<close>: the reply for an absent key, the error for another type.\<close>

definition with_set :: "sdb \<Rightarrow> bytes \<Rightarrow> sreply \<Rightarrow> (setobj \<Rightarrow> (sdb \<times> sreply) option) \<Rightarrow> (sdb \<times> sreply) option" where
  "with_set st key absent f =
     (case sd_keys st key of None \<Rightarrow> Some (st, absent) | Some OtherVal \<Rightarrow> Some (st, SWrongType) | Some (SetVal so) \<Rightarrow> f so)"

section \<open>Commands on one set\<close>

text \<open>\<open>rc j\<close> is the reference count of \<open>c->argv[j]\<close>.\<close>

fun sadd_loop :: "senv \<Rightarrow> (nat \<Rightarrow> nat) \<Rightarrow> setobj \<Rightarrow> robj list \<Rightarrow> nat \<Rightarrow> nat \<Rightarrow> (setobj \<times> nat) option" where
  "sadd_loop ev rc so [] j added = Some (so, added)"
| "sadd_loop ev rc so (a # argv) j added =
     do {
       (so, r) \<leftarrow> setTypeAdd ev so (tryObjectEncoding (rc j) a);
       sadd_loop ev rc so argv (j + 1) (if r then added + 1 else added)
     }"

definition saddCommand :: "senv \<Rightarrow> (nat \<Rightarrow> nat) \<Rightarrow> sdb \<Rightarrow> bytes \<Rightarrow> robj list \<Rightarrow> (sdb \<times> sreply) option" where
  "saddCommand ev rc st key argv =
     (if sd_keys st key = Some OtherVal then Some (st, SWrongType)
      else do {
        st \<leftarrow> (if sd_keys st key = None then do { a \<leftarrow> rd argv 0; dbAdd st key (setTypeCreate a) } else Some st);
        so \<leftarrow> get_set st key;
        (so, added) \<leftarrow> sadd_loop ev rc so argv 2 0;
        let st = put_set st key so;
        let st = (if added \<noteq> 0 then notifyKeyspaceEvent ''sadd'' (signalModifiedKey st key) key else st);
        Some (add_dirty added st, SInt (int added))
      })"

fun srem_loop :: "senv \<Rightarrow> setobj \<Rightarrow> robj list \<Rightarrow> nat \<Rightarrow> (setobj \<times> nat \<times> bool) option" where
  "srem_loop ev so [] deleted = Some (so, deleted, False)"
| "srem_loop ev so (a # argv) deleted =
     do {
       (so, r) \<leftarrow> setTypeRemove ev so a;
       if r then
         if setTypeSize so = 0 then Some (so, deleted + 1, True) else srem_loop ev so argv (deleted + 1)
       else srem_loop ev so argv deleted
     }"

definition sremCommand :: "senv \<Rightarrow> sdb \<Rightarrow> bytes \<Rightarrow> robj list \<Rightarrow> (sdb \<times> sreply) option" where
  "sremCommand ev st key argv =
     with_set st key (SInt 0) (\<lambda>so. do {
       (so, deleted, keyremoved) \<leftarrow> srem_loop ev so argv 0;
       let st = put_set st key so;
       let st = (if keyremoved then fst (dbDelete st key) else st);
       let st = (if deleted \<noteq> 0 then
                   let st = notifyKeyspaceEvent ''srem'' (signalModifiedKey st key) key;
                       st = (if keyremoved then notifyKeyspaceEvent ''del'' st key else st)
                   in add_dirty deleted st
                 else st);
       Some (st, SInt (int deleted))
     })"

definition smoveCommand :: "senv \<Rightarrow> nat \<Rightarrow> sdb \<Rightarrow> bytes \<Rightarrow> bytes \<Rightarrow> robj \<Rightarrow> (sdb \<times> sreply) option" where
  "smoveCommand ev rc st src dst ele =
     (let ele = tryObjectEncoding rc ele in
      with_set st src (SInt 0) (\<lambda>srcset.
        if sd_keys st dst = Some OtherVal then Some (st, SWrongType)
        else if src = dst then Some (st, SInt 1)
        else do {
          (srcset, r) \<leftarrow> setTypeRemove ev srcset ele;
          let st = put_set st src srcset;
          if \<not> r then Some (st, SInt 0)
          else do {
            let st = notifyKeyspaceEvent ''srem'' st src;
            let st = (if setTypeSize srcset = 0 then notifyKeyspaceEvent ''del'' (fst (dbDelete st src)) src else st);
            let st = add_dirty 1 (signalModifiedKey (signalModifiedKey st src) dst);
            st \<leftarrow> (if sd_keys st dst = None then dbAdd st dst (setTypeCreate ele) else Some st);
            dstset \<leftarrow> get_set st dst;
            (dstset, r) \<leftarrow> setTypeAdd ev dstset ele;
            let st = put_set st dst dstset;
            let st = (if r then notifyKeyspaceEvent ''sadd'' (add_dirty 1 st) dst else st);
            Some (st, SInt 1)
          }
        }))"

definition sismemberCommand :: "senv \<Rightarrow> nat \<Rightarrow> sdb \<Rightarrow> bytes \<Rightarrow> robj \<Rightarrow> (sdb \<times> sreply) option" where
  "sismemberCommand ev rc st key ele =
     with_set st key (SInt 0) (\<lambda>so. do {
       (so, r) \<leftarrow> setTypeIsMember ev so (tryObjectEncoding rc ele);
       Some (put_set st key so, SInt (if r then 1 else 0))
     })"

definition scardCommand :: "sdb \<Rightarrow> bytes \<Rightarrow> (sdb \<times> sreply) option" where
  "scardCommand st key = with_set st key (SInt 0) (\<lambda>so. Some (st, SInt (int (setTypeSize so))))"

text \<open>\<open>SPOP\<close>, with the arguments of the \<open>SREM\<close> command that is replicated in its place.\<close>

definition spopCommand :: "senv \<Rightarrow> nat list \<Rightarrow> sdb \<Rightarrow> bytes \<Rightarrow> (sdb \<times> sreply \<times> (bytes \<times> robj) option) option" where
  "spopCommand ev rs st key =
     (case sd_keys st key of
        None \<Rightarrow> Some (st, SNull, None)
      | Some OtherVal \<Rightarrow> Some (st, SWrongType, None)
      | Some (SetVal so) \<Rightarrow>
          do {
            (so, e, rs) \<leftarrow> setTypeRandomElement ev rs so;
            so \<leftarrow> (case (so, e) of
                    (IntSet is, EInt llele) \<Rightarrow> map_option (\<lambda>p. IntSet (fst p)) (intsetRemove (se_jk ev) is llele)
                  | (HtSet d, EObj ele) \<Rightarrow> map_option fst (setTypeRemove ev so ele)
                  | _ \<Rightarrow> None);
            let ele = elem_object e;
            let st = notifyKeyspaceEvent ''spop'' (put_set st key so) key;
            let st = (if setTypeSize so = 0 then notifyKeyspaceEvent ''del'' (fst (dbDelete st key)) key else st);
            Some (add_dirty 1 (signalModifiedKey st key), SBulk (EObj ele), Some (key, ele))
          })"

section \<open>Intersection\<close>

text \<open>The lookup of the source keys stops at the first absent one.\<close>

datatype lookup_result = AllSets | Missing | WrongType

fun sinter_lookup :: "sdb \<Rightarrow> bytes list \<Rightarrow> lookup_result" where
  "sinter_lookup st [] = AllSets"
| "sinter_lookup st (k # ks) =
     (case sd_keys st k of None \<Rightarrow> Missing | Some OtherVal \<Rightarrow> WrongType | Some (SetVal so) \<Rightarrow> sinter_lookup st ks)"

definition set_size_of :: "sdb \<Rightarrow> bytes \<Rightarrow> nat" where
  "set_size_of st k = (case get_set st k of None \<Rightarrow> 0 | Some so \<Rightarrow> setTypeSize so)"

definition qsortCompareSetsByCardinality :: "sdb \<Rightarrow> bytes \<Rightarrow> bytes \<Rightarrow> int" where
  "qsortCompareSetsByCardinality st s1 s2 = s32 (int (set_size_of st s1) - int (set_size_of st s2))"

text \<open>The inner loop from index \<open>j\<close> on; the flag is \<open>j == setnum\<close> after it.\<close>

fun sinter_test :: "senv \<Rightarrow> bytes \<Rightarrow> selem \<Rightarrow> sdb \<Rightarrow> bytes list \<Rightarrow> (sdb \<times> bool) option" where
  "sinter_test ev set0 e st [] = Some (st, True)"
| "sinter_test ev set0 e st (k # ks) =
     (if k = set0 then sinter_test ev set0 e st ks
      else do {
        so \<leftarrow> get_set st k;
        (so, brk) \<leftarrow>
          (case e of
             EInt intobj \<Rightarrow>
               (case so of
                  IntSet is \<Rightarrow> do { f \<leftarrow> intsetFind is intobj; Some (so, \<not> f) }
                | HtSet d \<Rightarrow> do { (so, m) \<leftarrow> setTypeIsMember ev so (createStringObjectFromLongLong intobj); Some (so, \<not> m) })
           | EObj eleobj \<Rightarrow>
               do {
                 fast \<leftarrow> (case (eleobj, so) of (OInt w, IntSet is) \<Rightarrow> map_option Not (intsetFind is (sint w)) | _ \<Rightarrow> Some False);
                 if fast then Some (so, True)
                 else do { (so, m) \<leftarrow> setTypeIsMember ev so eleobj; Some (so, \<not> m) }
               });
        let st = put_set st k so;
        if brk then Some (st, False) else sinter_test ev set0 e st ks
      })"

text \<open>One round over the first set: the state is the key space, the elements sent and the result set.\<close>

definition sinter_body ::
  "senv \<Rightarrow> bool \<Rightarrow> bytes \<Rightarrow> bytes list \<Rightarrow> sdb \<times> selem list \<times> setobj \<Rightarrow> selem \<Rightarrow> (sdb \<times> selem list \<times> setobj) option" where
  "sinter_body ev store set0 others s e =
     (case s of (st, out, dstset) \<Rightarrow>
        do {
          (st, all) \<leftarrow> sinter_test ev set0 e st others;
          if all then
            if \<not> store then Some (st, out @ [e], dstset)
            else do { (dstset, r) \<leftarrow> setTypeAdd ev dstset (elem_object e); Some (st, out, dstset) }
          else Some (st, out, dstset)
        })"

text \<open>The end of a command that stores its result.\<close>

definition store_result :: "string \<Rightarrow> sdb \<Rightarrow> bytes \<Rightarrow> setobj \<Rightarrow> (sdb \<times> sreply) option" where
  "store_result evt st dstkey dstset =
     (let (st, deleted) = dbDelete st dstkey in
      do {
        (st, r) \<leftarrow>
          (if setTypeSize dstset > 0 then
             do { st \<leftarrow> dbAdd st dstkey dstset; Some (notifyKeyspaceEvent evt st dstkey, SInt (int (setTypeSize dstset))) }
           else Some (if deleted then notifyKeyspaceEvent ''del'' st dstkey else st, SInt 0));
        Some (add_dirty 1 (signalModifiedKey st dstkey), r)
      })"

text \<open>\<open>qs\<close> is \<open>qsort\<close> of the C library, given the comparison.\<close>

definition sinterGenericCommand ::
  "senv \<Rightarrow> ((bytes \<Rightarrow> bytes \<Rightarrow> int) \<Rightarrow> bytes list \<Rightarrow> bytes list) \<Rightarrow> sdb \<Rightarrow> bytes list \<Rightarrow> bytes option \<Rightarrow> (sdb \<times> sreply) option" where
  "sinterGenericCommand ev qs st setkeys dstkey =
     (case sinter_lookup st setkeys of
        WrongType \<Rightarrow> Some (st, SWrongType)
      | Missing \<Rightarrow>
          (case dstkey of
             Some dk \<Rightarrow>
               let (st, deleted) = dbDelete st dk in
               Some (if deleted then add_dirty 1 (signalModifiedKey st dk) else st, SInt 0)
           | None \<Rightarrow> Some (st, SEmpty))
      | AllSets \<Rightarrow>
          do {
            let sets = qs (qsortCompareSetsByCardinality st) setkeys;
            set0 \<leftarrow> rd sets 0;
            so \<leftarrow> get_set st set0;
            (so, st, out, dstset) \<leftarrow>
              set_for ev (setTypeNext ev) (sinter_body ev (dstkey \<noteq> None) set0 (drop 1 sets)) so (st, [], createIntsetObject);
            let st = put_set st set0 so;
            case dstkey of
              None \<Rightarrow> Some (st, SMulti (length out) out)
            | Some dk \<Rightarrow> store_result ''sinterstore'' st dk dstset
          })"

section \<open>Union and difference\<close>

datatype set_op = REDIS_OP_UNION | REDIS_OP_DIFF

text \<open>An absent key is a null pointer in the array of sets.\<close>

fun sunion_lookup :: "sdb \<Rightarrow> bytes list \<Rightarrow> bytes option list option" where
  "sunion_lookup st [] = Some []"
| "sunion_lookup st (k # ks) =
     (case sd_keys st k of
        None \<Rightarrow> map_option ((#) None) (sunion_lookup st ks)
      | Some OtherVal \<Rightarrow> None
      | Some (SetVal so) \<Rightarrow> map_option ((#) (Some k)) (sunion_lookup st ks))"

definition size_or_0 :: "sdb \<Rightarrow> bytes option \<Rightarrow> nat" where
  "size_or_0 st s = (case s of None \<Rightarrow> 0 | Some k \<Rightarrow> set_size_of st k)"

definition qsortCompareSetsByRevCardinality :: "sdb \<Rightarrow> bytes option \<Rightarrow> bytes option \<Rightarrow> int" where
  "qsortCompareSetsByRevCardinality st o1 o2 = s32 (int (size_or_0 st o2) - int (size_or_0 st o1))"

definition diff_algo :: "sdb \<Rightarrow> bytes option list \<Rightarrow> nat" where
  "diff_algo st sets =
     (let algo_one_work = sum_list (map (\<lambda>s. if s = None then 0 else size_or_0 st (hd sets)) sets);
          algo_two_work = sum_list (map (\<lambda>s. if s = None then 0 else size_or_0 st s) sets)
      in if algo_one_work div 2 \<le> algo_two_work then 1 else 2)"

text \<open>A loop over a set of the key space with \<open>setTypeNextObject\<close>, the set being put back after it.\<close>

definition for_key :: "senv \<Rightarrow> (sdb \<times> 's \<Rightarrow> robj \<Rightarrow> (sdb \<times> 's) option) \<Rightarrow> bytes \<Rightarrow> sdb \<times> 's \<Rightarrow> (sdb \<times> 's) option" where
  "for_key ev body k s =
     do {
       so \<leftarrow> get_set (fst s) k;
       (so, st, r) \<leftarrow> set_for ev (setTypeNextObject ev) body so s;
       Some (put_set st k so, r)
     }"

definition count_add :: "senv \<Rightarrow> sdb \<times> setobj \<times> int \<Rightarrow> robj \<Rightarrow> (sdb \<times> setobj \<times> int) option" where
  "count_add ev s ele =
     (case s of (st, dstset, cardinality) \<Rightarrow>
        do { (dstset, r) \<leftarrow> setTypeAdd ev dstset ele; Some (st, dstset, if r then cardinality + 1 else cardinality) })"

definition count_remove :: "senv \<Rightarrow> sdb \<times> setobj \<times> int \<Rightarrow> robj \<Rightarrow> (sdb \<times> setobj \<times> int) option" where
  "count_remove ev s ele =
     (case s of (st, dstset, cardinality) \<Rightarrow>
        do { (dstset, r) \<leftarrow> setTypeRemove ev dstset ele; Some (st, dstset, if r then cardinality - 1 else cardinality) })"

fun union_loop :: "senv \<Rightarrow> bytes option list \<Rightarrow> sdb \<times> setobj \<times> int \<Rightarrow> (sdb \<times> setobj \<times> int) option" where
  "union_loop ev [] s = Some s"
| "union_loop ev (None # sets) s = union_loop ev sets s"
| "union_loop ev (Some k # sets) s = do { s \<leftarrow> for_key ev (count_add ev) k s; union_loop ev sets s }"

text \<open>The inner loop of the first algorithm; the flag is \<open>j == setnum\<close> after it.\<close>

fun diff_test :: "senv \<Rightarrow> bytes \<Rightarrow> robj \<Rightarrow> sdb \<Rightarrow> bytes option list \<Rightarrow> (sdb \<times> bool) option" where
  "diff_test ev set0 ele st [] = Some (st, True)"
| "diff_test ev set0 ele st (None # sets) = diff_test ev set0 ele st sets"
| "diff_test ev set0 ele st (Some k # sets) =
     (if k = set0 then Some (st, False)
      else do {
        so \<leftarrow> get_set st k;
        (so, m) \<leftarrow> setTypeIsMember ev so ele;
        let st = put_set st k so;
        if m then Some (st, False) else diff_test ev set0 ele st sets
      })"

definition diff_body :: "senv \<Rightarrow> bytes \<Rightarrow> bytes option list \<Rightarrow> sdb \<times> setobj \<times> int \<Rightarrow> robj \<Rightarrow> (sdb \<times> setobj \<times> int) option" where
  "diff_body ev set0 others s ele =
     (case s of (st, dstset, cardinality) \<Rightarrow>
        do {
          (st, all) \<leftarrow> diff_test ev set0 ele st others;
          if all then do { (dstset, r) \<leftarrow> setTypeAdd ev dstset ele; Some (st, dstset, cardinality + 1) }
          else Some (st, dstset, cardinality)
        })"

text \<open>The loop of the second algorithm, \<open>first\<close> being \<open>j == 0\<close>.\<close>

fun diff_loop :: "senv \<Rightarrow> bool \<Rightarrow> bytes option list \<Rightarrow> sdb \<times> setobj \<times> int \<Rightarrow> (sdb \<times> setobj \<times> int) option" where
  "diff_loop ev first [] s = Some s"
| "diff_loop ev first (None # sets) s = diff_loop ev False sets s"
| "diff_loop ev first (Some k # sets) s =
     do {
       s \<leftarrow> for_key ev (if first then count_add ev else count_remove ev) k s;
       if snd (snd s) = 0 then Some s else diff_loop ev False sets s
     }"

text \<open>The choice of the algorithm, the order of the sets, and the loops.\<close>

definition set_op_work ::
  "senv \<Rightarrow> ((bytes option \<Rightarrow> bytes option \<Rightarrow> int) \<Rightarrow> bytes option list \<Rightarrow> bytes option list) \<Rightarrow> sdb \<Rightarrow> bytes option list \<Rightarrow> set_op \<Rightarrow>
     (sdb \<times> setobj \<times> int) option" where
  "set_op_work ev qs st sets op =
     do {
       set0 \<leftarrow> rd sets 0;
       let algo = (if op = REDIS_OP_DIFF \<and> set0 \<noteq> None then diff_algo st sets else 1);
       let sets = (if op = REDIS_OP_DIFF \<and> set0 \<noteq> None \<and> algo = 1 \<and> length sets > 1
                   then set0 # qs (qsortCompareSetsByRevCardinality st) (drop 1 sets) else sets);
       let s = (st, createIntsetObject, 0);
       case (op, set0) of
         (REDIS_OP_UNION, _) \<Rightarrow> union_loop ev sets s
       | (REDIS_OP_DIFF, Some k0) \<Rightarrow>
           if algo = 1 then for_key ev (diff_body ev k0 (drop 1 sets)) k0 s else diff_loop ev True sets s
       | (REDIS_OP_DIFF, None) \<Rightarrow> Some s
     }"

definition sunionDiffGenericCommand ::
  "senv \<Rightarrow> ((bytes option \<Rightarrow> bytes option \<Rightarrow> int) \<Rightarrow> bytes option list \<Rightarrow> bytes option list) \<Rightarrow> sdb \<Rightarrow> bytes list \<Rightarrow> bytes option \<Rightarrow> set_op \<Rightarrow>
     (sdb \<times> sreply) option" where
  "sunionDiffGenericCommand ev qs st setkeys dstkey op =
     (case sunion_lookup st setkeys of
        None \<Rightarrow> Some (st, SWrongType)
      | Some sets \<Rightarrow>
          do {
            (st, dstset, cardinality) \<leftarrow> set_op_work ev qs st sets op;
            case dstkey of
              None \<Rightarrow>
                do {
                  (dstset, out) \<leftarrow> set_for ev (setTypeNextObject ev) (\<lambda>out ele. Some (out @ [EObj ele])) dstset [];
                  Some (st, SMulti (nat cardinality) out)
                }
            | Some dk \<Rightarrow> store_result (if op = REDIS_OP_UNION then ''sunionstore'' else ''sdiffstore'') st dk dstset
          })"

definition sinterCommand where "sinterCommand ev qs st keys = sinterGenericCommand ev qs st keys None"
definition sinterstoreCommand where "sinterstoreCommand ev qs st dstkey keys = sinterGenericCommand ev qs st keys (Some dstkey)"
definition sunionCommand where "sunionCommand ev qs st keys = sunionDiffGenericCommand ev qs st keys None REDIS_OP_UNION"
definition sunionstoreCommand where "sunionstoreCommand ev qs st dstkey keys = sunionDiffGenericCommand ev qs st keys (Some dstkey) REDIS_OP_UNION"
definition sdiffCommand where "sdiffCommand ev qs st keys = sunionDiffGenericCommand ev qs st keys None REDIS_OP_DIFF"
definition sdiffstoreCommand where "sdiffstoreCommand ev qs st dstkey keys = sunionDiffGenericCommand ev qs st keys (Some dstkey) REDIS_OP_DIFF"

end
