(* ===== verification/TsetSpec.thy ===== *)
theory TsetSpec
  imports TsetCmd
begin

text \<open>
  What the set commands promise: a key space of sets of strings, in which an empty set is no key
  at all, and the reply of each command as a function of it.  The commands implement it whatever
  representation, encoding of the members or stage of a rehashing the sets are in, for every
  order in which \<open>qsort\<close> may leave the sets, and with either algorithm for the difference; a
  command that changes a key says so to the transactions that watch it and to replication.
\<close>

section \<open>Specification\<close>

datatype aval = ASet "bytes set" | AOther

datatype areply = AInt int | AMulti "bytes set" | AWrongType

definition aset :: "(bytes \<Rightarrow> aval option) \<Rightarrow> bytes \<Rightarrow> bytes set" where
  "aset m k = (case m k of Some (ASet S) \<Rightarrow> S | _ \<Rightarrow> {})"

definition aput :: "(bytes \<Rightarrow> aval option) \<Rightarrow> bytes \<Rightarrow> bytes set \<Rightarrow> bytes \<Rightarrow> aval option" where
  "aput m k S = m(k := if S = {} then None else Some (ASet S))"

datatype sop =
    SAdd bytes "robj list" | SRem bytes "robj list" | SMove bytes bytes robj | SIsMember bytes robj | SCard bytes
  | SInter "bytes list" "bytes option" | SUnion "bytes list" "bytes option" | SDiff "bytes list" "bytes option"

definition result :: "(bytes \<Rightarrow> aval option) \<Rightarrow> bytes option \<Rightarrow> bytes set \<Rightarrow> (bytes \<Rightarrow> aval option) \<times> areply" where
  "result m dst S = (case dst of None \<Rightarrow> (m, AMulti S) | Some dk \<Rightarrow> (aput m dk S, AInt (int (card S))))"

fun spec_lookup :: "(bytes \<Rightarrow> aval option) \<Rightarrow> bytes list \<Rightarrow> lookup_result" where
  "spec_lookup m [] = AllSets"
| "spec_lookup m (k # ks) = (case m k of None \<Rightarrow> Missing | Some AOther \<Rightarrow> WrongType | Some (ASet S) \<Rightarrow> spec_lookup m ks)"

fun spec_sop :: "(bytes \<Rightarrow> aval option) \<Rightarrow> sop \<Rightarrow> (bytes \<Rightarrow> aval option) \<times> areply" where
  "spec_sop m (SAdd k vs) =
     (if m k = Some AOther then (m, AWrongType)
      else (aput m k (aset m k \<union> str_of ` set vs), AInt (int (card (str_of ` set vs - aset m k)))))"
| "spec_sop m (SRem k vs) =
     (if m k = Some AOther then (m, AWrongType)
      else (aput m k (aset m k - str_of ` set vs), AInt (int (card (aset m k \<inter> str_of ` set vs)))))"
| "spec_sop m (SMove s d v) =
     (if m s = None then (m, AInt 0)
      else if m s = Some AOther \<or> m d = Some AOther then (m, AWrongType)
      else if s = d then (m, AInt 1)
      else if str_of v \<notin> aset m s then (m, AInt 0)
      else (aput (aput m s (aset m s - {str_of v})) d (insert (str_of v) (aset m d)), AInt 1))"
| "spec_sop m (SIsMember k v) =
     (if m k = Some AOther then (m, AWrongType) else (m, AInt (if str_of v \<in> aset m k then 1 else 0)))"
| "spec_sop m (SCard k) = (if m k = Some AOther then (m, AWrongType) else (m, AInt (int (card (aset m k)))))"
| "spec_sop m (SInter ks dst) =
     (case spec_lookup m ks of
        WrongType \<Rightarrow> (m, AWrongType)
      | Missing \<Rightarrow> result m dst {}
      | AllSets \<Rightarrow> result m dst (\<Inter>k\<in>set ks. aset m k))"
| "spec_sop m (SUnion ks dst) =
     (if \<exists>k\<in>set ks. m k = Some AOther then (m, AWrongType) else result m dst (\<Union>k\<in>set ks. aset m k))"
| "spec_sop m (SDiff ks dst) =
     (if \<exists>k\<in>set ks. m k = Some AOther then (m, AWrongType) else result m dst (aset m (hd ks) - (\<Union>k\<in>set (drop 1 ks). aset m k)))"

text \<open>The arity of the commands, and the sizes for which the hash tables are grown.\<close>

fun sop_ok :: "(bytes \<Rightarrow> aval option) \<Rightarrow> sop \<Rightarrow> bool" where
  "sop_ok m (SAdd k vs) \<longleftrightarrow> vs \<noteq> [] \<and> card (aset m k) + length vs \<le> DICT_CAP"
| "sop_ok m (SMove s d v) \<longleftrightarrow> card (aset m d) < DICT_CAP"
| "sop_ok m (SInter ks dst) \<longleftrightarrow> ks \<noteq> [] \<and> sum_list (map (\<lambda>k. card (aset m k)) ks) \<le> DICT_CAP"
| "sop_ok m (SUnion ks dst) \<longleftrightarrow> ks \<noteq> [] \<and> sum_list (map (\<lambda>k. card (aset m k)) ks) \<le> DICT_CAP"
| "sop_ok m (SDiff ks dst) \<longleftrightarrow> ks \<noteq> [] \<and> sum_list (map (\<lambda>k. card (aset m k)) ks) \<le> DICT_CAP"
| "sop_ok m _ \<longleftrightarrow> True"

definition reply_ok :: "sreply \<Rightarrow> areply \<Rightarrow> bool" where
  "reply_ok r a =
     (case a of
        AInt i \<Rightarrow> r = SInt i
      | AWrongType \<Rightarrow> r = SWrongType
      | AMulti S \<Rightarrow> (r = SEmpty \<and> S = {}) \<or>
          (\<exists>es. r = SMulti (length es) es \<and> distinct (map elem_str es) \<and> set (map elem_str es) = S))"

section \<open>The key space of a state\<close>

fun val_rep :: "senv \<Rightarrow> sval option \<Rightarrow> aval option \<Rightarrow> bool" where
  "val_rep ev None v \<longleftrightarrow> v = None"
| "val_rep ev (Some OtherVal) v \<longleftrightarrow> v = Some AOther"
| "val_rep ev (Some (SetVal so)) v \<longleftrightarrow> (\<exists>S. v = Some (ASet S) \<and> S \<noteq> {} \<and> set_rep ev so S)"

definition keys_rep :: "senv \<Rightarrow> (bytes \<Rightarrow> sval option) \<Rightarrow> (bytes \<Rightarrow> aval option) \<Rightarrow> bool" where
  "keys_rep ev K m \<longleftrightarrow> (\<forall>k. val_rep ev (K k) (m k))"

abbreviation st_rep :: "senv \<Rightarrow> sdb \<Rightarrow> (bytes \<Rightarrow> aval option) \<Rightarrow> bool" where
  "st_rep ev st m \<equiv> keys_rep ev (sd_keys st) m"

lemma keys_repD:
  assumes "keys_rep ev K m"
  shows "K k = None \<Longrightarrow> m k = None" "K k = Some OtherVal \<Longrightarrow> m k = Some AOther"
    "K k = Some (SetVal so) \<Longrightarrow> (\<exists>S. m k = Some (ASet S)) \<and> aset m k \<noteq> {} \<and> set_rep ev so (aset m k)"
proof -
  have v: "val_rep ev (K k) (m k)" using assms by (simp add: keys_rep_def)
  show "K k = None \<Longrightarrow> m k = None" "K k = Some OtherVal \<Longrightarrow> m k = Some AOther" using v by simp_all
  show "K k = Some (SetVal so) \<Longrightarrow> (\<exists>S. m k = Some (ASet S)) \<and> aset m k \<noteq> {} \<and> set_rep ev so (aset m k)"
    using v unfolding aset_def by (elim ssubst [where P = "\<lambda>x. val_rep ev x (m k)"] | clarsimp)+
qed

lemma keys_rep_iffs:
  assumes "keys_rep ev K m"
  shows "K k = None \<longleftrightarrow> m k = None" "K k = Some OtherVal \<longleftrightarrow> m k = Some AOther"
proof -
  have "(K k = None \<longleftrightarrow> m k = None) \<and> (K k = Some OtherVal \<longleftrightarrow> m k = Some AOther)"
  proof (cases "K k")
    case None
    then show ?thesis using keys_repD(1) [OF assms] by simp
  next
    case (Some v)
    then show ?thesis using keys_repD(2) [OF assms, of k] keys_repD(3) [OF assms, of k] by (cases v) auto
  qed
  then show "K k = None \<longleftrightarrow> m k = None" "K k = Some OtherVal \<longleftrightarrow> m k = Some AOther" by blast+
qed

lemma keys_rep_get:
  assumes "keys_rep ev K m" "m k = Some (ASet S)"
  obtains so where "K k = Some (SetVal so)" "set_rep ev so S" "S \<noteq> {}" "aset m k = S"
proof -
  have a: "aset m k = S" using assms(2) by (simp add: aset_def)
  obtain v where v: "K k = Some v" "v \<noteq> OtherVal" using keys_rep_iffs [OF assms(1), of k] assms(2) by (cases "K k") auto
  then show thesis using that keys_repD(3) [OF assms(1), of k] a by (cases v) auto
qed

lemma keys_rep_put: "keys_rep ev K m \<Longrightarrow> set_rep ev so S \<Longrightarrow> S \<noteq> {} \<Longrightarrow> keys_rep ev (K(k \<mapsto> SetVal so)) (aput m k S)"
  by (simp add: keys_rep_def aput_def)

lemma keys_rep_del: "keys_rep ev K m \<Longrightarrow> keys_rep ev (K(k := None)) (aput m k {})"
  by (simp add: keys_rep_def aput_def)

text \<open>What is left of a set is put back, or its key deleted.\<close>

lemma keys_rep_shrunk:
  assumes "keys_rep ev K m" "set_rep ev so S"
  shows "keys_rep ev (if S = {} then K(k := None) else K(k \<mapsto> SetVal so)) (aput m k S)"
  using keys_rep_put [OF assms, of k] keys_rep_del [OF assms(1), of k] by (cases "S = {}") simp_all

lemma aput_id:
  assumes "keys_rep ev K m" "m k \<noteq> Some AOther"
  shows "aput m k (aset m k) = m"
proof (cases "m k")
  case None
  then show ?thesis by (auto simp: aput_def aset_def)
next
  case (Some v)
  then obtain S where v: "m k = Some (ASet S)" using assms(2) by (cases v) auto
  from keys_rep_get [OF assms(1) this] have "S \<noteq> {}" .
  then show ?thesis using v by (auto simp: aput_def aset_def)
qed

lemma keys_rep_same: "keys_rep ev K m \<Longrightarrow> m k = Some (ASet S) \<Longrightarrow> set_rep ev so S \<Longrightarrow> keys_rep ev (K(k \<mapsto> SetVal so)) m"
  using keys_rep_get [of ev K m k S] by (auto simp: keys_rep_def)

lemmas state_defs = put_set_def signalModifiedKey_def notifyKeyspaceEvent_def add_dirty_def dbDelete_def

text \<open>What the rest of the server learns of a step.\<close>

definition signals :: "sdb \<Rightarrow> (bytes \<Rightarrow> aval option) \<Rightarrow> sdb \<Rightarrow> (bytes \<Rightarrow> aval option) \<Rightarrow> bool" where
  "signals st m st' m' \<longleftrightarrow>
     (\<exists>t. sd_touched st' = sd_touched st @ t \<and> (\<forall>k. m' k \<noteq> m k \<longrightarrow> k \<in> set t)) \<and>
     sd_dirty st \<le> sd_dirty st' \<and> (m' \<noteq> m \<longrightarrow> sd_dirty st < sd_dirty st')"

definition step_ok :: "senv \<Rightarrow> sdb \<Rightarrow> (bytes \<Rightarrow> aval option) \<Rightarrow> (sdb \<times> sreply) option \<Rightarrow> (bytes \<Rightarrow> aval option) \<times> areply \<Rightarrow> bool" where
  "step_ok ev st m res spec \<longleftrightarrow>
     (\<exists>st' r. res = Some (st', r) \<and> st_rep ev st' (fst spec) \<and> reply_ok r (snd spec) \<and> signals st m st' (fst spec))"

text \<open>A step that changes representations only, and one that changes a key and signals it.\<close>

lemma step_quiet:
  assumes "res = Some (st', r)" "st_rep ev st' m" "sd_touched st' = sd_touched st" "sd_dirty st' = sd_dirty st" "reply_ok r a"
  shows "step_ok ev st m res (m, a)"
  using assms by (auto simp: step_ok_def signals_def)

lemma step_change:
  assumes "res = Some (st', r)" "st_rep ev st' m'" "reply_ok r a" "sd_touched st' = sd_touched st @ t"
    "m' = m \<or> (\<forall>k. m' k \<noteq> m k \<longrightarrow> k \<in> set t) \<and> sd_dirty st < sd_dirty st'" "sd_dirty st \<le> sd_dirty st'"
  shows "step_ok ev st m res (m', a)"
  using assms by (auto simp: step_ok_def signals_def)

lemma aput_other: "aput m k S j \<noteq> m j \<Longrightarrow> j = k"
  by (auto simp: aput_def split: if_splits)

lemma step_error: "st_rep ev st m \<Longrightarrow> step_ok ev st m (Some (st, SWrongType)) (m, AWrongType)"
  by (rule step_quiet) (auto simp: reply_ok_def)

section \<open>Commands on one set\<close>

lemma card_new:
  assumes "finite X"
  shows "card (insert a X - S) = (if a \<notin> S then 1 else 0) + card (X - insert a S)"
proof (cases "a \<in> S")
  case True
  have "insert a X - S = X - insert a S" using True by blast
  then show ?thesis using True by (simp only: simp_thms if_False add_0)
next
  case False
  have "insert a X - S = insert a (X - insert a S)" using False by blast
  moreover have "card (insert a (X - insert a S)) = Suc (card (X - insert a S))" using assms by (intro card_insert_disjoint) auto
  ultimately show ?thesis using False by (simp only: simp_thms if_True plus_1_eq_Suc)
qed

lemma sadd_loop_rep:
  assumes "senv_ok ev" "set_rep ev so S" "card S + length argv \<le> DICT_CAP"
  shows "\<exists>so'. sadd_loop ev rc so argv j added = Some (so', added + card (str_of ` set argv - S)) \<and>
    set_rep ev so' (S \<union> str_of ` set argv)"
  using assms(2,3)
proof (induction argv arbitrary: so S j added)
  case (Cons a argv)
  let ?a = "tryObjectEncoding (rc j) a" and ?X = "str_of ` set argv"
  obtain so1 where so1: "setTypeAdd ev so ?a = Some (so1, str_of a \<notin> S)" "set_rep ev so1 (insert (str_of a) S)"
    using setTypeAdd_rep [OF assms(1) Cons.prems(1), of ?a] Cons.prems(2) by (auto simp: tryObjectEncoding_str)
  have fin: "finite S" using set_size [OF Cons.prems(1)] by simp
  have "card (insert (str_of a) S) + length argv \<le> DICT_CAP" using Cons.prems(2) fin by (simp add: card_insert_if)
  from Cons.IH [OF so1(2) this, of "j + 1" "if str_of a \<notin> S then added + 1 else added"] obtain so' where
    so': "sadd_loop ev rc so1 argv (j + 1) (if str_of a \<notin> S then added + 1 else added) =
        Some (so', (if str_of a \<notin> S then added + 1 else added) + card (?X - insert (str_of a) S))"
      "set_rep ev so' (insert (str_of a) S \<union> ?X)" by blast
  have c: "card (insert (str_of a) ?X - S) = (if str_of a \<notin> S then 1 else 0) + card (?X - insert (str_of a) S)"
    by (rule card_new) simp
  have u: "insert (str_of a) S \<union> ?X = S \<union> str_of ` set (a # argv)" "str_of ` set (a # argv) - S = insert (str_of a) ?X - S" by auto
  have n: "(if str_of a \<notin> S then added + 1 else added) + card (?X - insert (str_of a) S) = added + card (insert (str_of a) ?X - S)"
    unfolding c by simp
  have "sadd_loop ev rc so (a # argv) j added = Some (so', added + card (insert (str_of a) ?X - S))"
    unfolding sadd_loop.simps so1(1) Option.bind.simps prod.case so'(1) n ..
  then show ?case using so'(2) unfolding u by blast
qed simp

text \<open>The set a command adds to: the one of the key, or a new one put there.\<close>

lemma target_set:
  assumes r: "st_rep ev st m" and t: "m k \<noteq> Some AOther"
  shows "\<exists>st1 so. (if sd_keys st k = None then dbAdd st k (setTypeCreate a) else Some st) = Some st1 \<and>
    get_set st1 k = Some so \<and> set_rep ev so (aset m k) \<and> (\<forall>so'. put_set st1 k so' = put_set st k so')"
proof (cases "sd_keys st k")
  case None
  then have "aset m k = {}" using keys_repD(1) [OF r] by (simp add: aset_def)
  then show ?thesis using None setTypeCreate_rep(1) [of ev a] by (simp add: dbAdd_def get_set_def put_set_def)
next
  case (Some v)
  then show ?thesis using t keys_repD(2,3) [OF r, of k] by (cases v) (auto simp: get_set_def)
qed

lemma sadd_ok:
  assumes ev: "senv_ok ev" and r: "st_rep ev st m" and ok: "sop_ok m (SAdd k vs)"
  shows "step_ok ev st m (saddCommand ev rc st k vs) (spec_sop m (SAdd k vs))"
proof (cases "m k = Some AOther")
  case True
  then show ?thesis using keys_rep_iffs [OF r, of k] step_error [OF r] by (simp add: saddCommand_def)
next
  case False
  let ?X = "str_of ` set vs" and ?S = "aset m k"
  have vs: "vs \<noteq> []" "card ?S + length vs \<le> DICT_CAP" using ok by simp_all
  obtain st1 so where st1: "(if sd_keys st k = None then do { a \<leftarrow> rd vs 0; dbAdd st k (setTypeCreate a) } else Some st) = Some st1"
      "get_set st1 k = Some so" "set_rep ev so ?S" "\<And>so'. put_set st1 k so' = put_set st k so'"
    using target_set [OF r False, of "hd vs"] vs(1) by (auto simp: rd_def hd_conv_nth split: if_splits)
  obtain so' where so': "sadd_loop ev rc so vs 2 0 = Some (so', card (?X - ?S))" "set_rep ev so' (?S \<union> ?X)"
    using sadd_loop_rep [OF ev st1(3) vs(2), of rc 2 0] by auto
  have "?S \<union> ?X \<noteq> {}" using vs(1) by simp
  from keys_rep_put [OF r so'(2) this, of k]
  have rep: "keys_rep ev ((sd_keys st)(k \<mapsto> SetVal so')) (aput m k (?S \<union> ?X))" .
  have e: "aput m k (?S \<union> ?X) = m" if "card (?X - ?S) = 0"
  proof -
    have "?S \<union> ?X = ?S" using that by auto
    then show ?thesis using aput_id [OF r False] by simp
  qed
  let ?n = "card (?X - ?S)" and ?st = "put_set st k so'"
  let ?st2 = "add_dirty ?n (if ?n \<noteq> 0 then notifyKeyspaceEvent ''sadd'' (signalModifiedKey ?st k) k else ?st)"
  have res: "saddCommand ev rc st k vs = Some (?st2, SInt (int ?n))"
    using False keys_rep_iffs(2) [OF r, of k] st1 so'(1) unfolding saddCommand_def by (simp add: Let_def del: bind_eq_Some_conv card_0_eq card_eq_0_iff)
  have "spec_sop m (SAdd k vs) = (aput m k (?S \<union> ?X), AInt (int ?n))" using False by simp
  moreover have "step_ok ev st m (saddCommand ev rc st k vs) (aput m k (?S \<union> ?X), AInt (int ?n))"
  proof (rule step_change [OF res, where t = "if ?n = 0 then [] else [k]"])
    show "st_rep ev ?st2 (aput m k (?S \<union> ?X))" using rep by (simp add: state_defs)
    show "aput m k (?S \<union> ?X) = m \<or> (\<forall>j. aput m k (?S \<union> ?X) j \<noteq> m j \<longrightarrow> j \<in> set (if ?n = 0 then [] else [k])) \<and> sd_dirty st < sd_dirty ?st2"
    proof (cases "?n = 0")
      case False
      then show ?thesis using aput_other [of m k "?S \<union> ?X"] by (simp add: state_defs del: card_0_eq card_eq_0_iff)
    qed (use e in simp)
  qed (auto simp: state_defs reply_ok_def)
  ultimately show ?thesis by simp
qed

lemma card_removed:
  assumes "finite S"
  shows "card (S \<inter> insert a X) = (if a \<in> S then 1 else 0) + card ((S - {a}) \<inter> X)"
proof (cases "a \<in> S")
  case False
  have "S \<inter> insert a X = (S - {a}) \<inter> X" using False by blast
  then show ?thesis using False by (simp only: simp_thms if_False add_0)
next
  case True
  have "S \<inter> insert a X = insert a ((S - {a}) \<inter> X)" using True by blast
  moreover have "card (insert a ((S - {a}) \<inter> X)) = Suc (card ((S - {a}) \<inter> X))" using assms by (intro card_insert_disjoint) auto
  ultimately show ?thesis using True by (simp only: simp_thms if_True plus_1_eq_Suc)
qed

lemma srem_loop_rep:
  assumes "set_rep ev so S" "S \<noteq> {}"
  shows "\<exists>so'. srem_loop ev so argv n = Some (so', n + card (S \<inter> str_of ` set argv), S - str_of ` set argv = {}) \<and>
    set_rep ev so' (S - str_of ` set argv)"
  using assms
proof (induction argv arbitrary: so S n)
  case (Cons a argv)
  let ?X = "str_of ` set argv" and ?S = "S - {str_of a}"
  obtain so1 where so1: "setTypeRemove ev so a = Some (so1, str_of a \<in> S)" "set_rep ev so1 ?S"
    using setTypeRemove_rep [OF Cons.prems(1)] by blast
  have sz: "setTypeSize so1 = card ?S" "finite ?S" "finite S" using set_size [OF so1(2)] set_size [OF Cons.prems(1)] by simp_all
  have d: "S - str_of ` set (a # argv) = ?S - ?X" "S \<inter> str_of ` set (a # argv) = S \<inter> insert (str_of a) ?X" by auto
  show ?case
  proof (cases "?S = {}")
    case True
    then have S: "S = {str_of a}" using Cons.prems(2) by blast
    have "card (S \<inter> insert (str_of a) ?X) = 1" unfolding S by simp
    moreover have "srem_loop ev so (a # argv) n = Some (so1, n + 1, True)" using so1(1) sz(1) S by simp
    ultimately show ?thesis using so1(2) unfolding d True by auto
  next
    case False
    then have "setTypeSize so1 \<noteq> 0" using sz by simp
    then have l: "srem_loop ev so (a # argv) n = srem_loop ev so1 argv (n + (if str_of a \<in> S then 1 else 0))" using so1(1) by simp
    show ?thesis unfolding l d card_removed [OF sz(3)] using Cons.IH [OF so1(2) False, of "n + (if str_of a \<in> S then 1 else 0)"] by (simp only: add.assoc)
  qed
qed simp

lemma srem_ok:
  assumes r: "st_rep ev st m"
  shows "step_ok ev st m (sremCommand ev st k vs) (spec_sop m (SRem k vs))"
proof (cases "m k")
  case None
  then have "sd_keys st k = None" "aset m k = {}" "aput m k {} = m" using keys_rep_iffs(1) [OF r, of k] by (auto simp: aset_def aput_def)
  then show ?thesis using None by (auto intro!: step_quiet simp: sremCommand_def with_set_def reply_ok_def r)
next
  case (Some v)
  show ?thesis
  proof (cases v)
    case AOther
    then show ?thesis using Some keys_rep_iffs(2) [OF r, of k] step_error [OF r] by (simp add: sremCommand_def with_set_def)
  next
    case (ASet S)
    let ?X = "str_of ` set vs"
    obtain so where so: "sd_keys st k = Some (SetVal so)" "set_rep ev so S" "S \<noteq> {}" "aset m k = S" using keys_rep_get [OF r] Some ASet by blast
    obtain so' where so': "srem_loop ev so vs 0 = Some (so', card (S \<inter> ?X), S - ?X = {})" "set_rep ev so' (S - ?X)"
      using srem_loop_rep [OF so(2,3), of vs 0] by auto
    let ?st1 = "let st = put_set st k so' in if S - ?X = {} then fst (dbDelete st k) else st"
    let ?st2 = "if card (S \<inter> ?X) \<noteq> 0 then add_dirty (card (S \<inter> ?X))
        (let st = notifyKeyspaceEvent ''srem'' (signalModifiedKey ?st1 k) k in if S - ?X = {} then notifyKeyspaceEvent ''del'' st k else st) else ?st1"
    have res: "sremCommand ev st k vs = Some (?st2, SInt (int (card (S \<inter> ?X))))"
      using so(1) so'(1) unfolding sremCommand_def with_set_def by (simp add: Let_def del: Diff_eq_empty_iff card_0_eq card_eq_0_iff)
    have rep: "st_rep ev ?st2 (aput m k (S - ?X))"
    proof -
      have "sd_keys ?st2 = (if S - ?X = {} then (sd_keys st)(k := None) else (sd_keys st)(k \<mapsto> SetVal so'))" by (simp add: state_defs Let_def)
      then show ?thesis using keys_rep_shrunk [OF r so'(2), of k] by (simp only:)
    qed
    have e: "aput m k (S - ?X) = m" if "card (S \<inter> ?X) = 0"
    proof -
      have "S \<inter> ?X = {}" using that set_size(2) [OF so(2)] by simp
      then have "S - ?X = S" by blast
      then show ?thesis using aput_id [OF r, of k] so(4) Some ASet by simp
    qed
    have "step_ok ev st m (sremCommand ev st k vs) (aput m k (S - ?X), AInt (int (card (S \<inter> ?X))))"
    proof (rule step_change [OF res rep, where t = "if card (S \<inter> ?X) = 0 then [] else [k]"])
      show "aput m k (S - ?X) = m \<or> (\<forall>j. aput m k (S - ?X) j \<noteq> m j \<longrightarrow> j \<in> set (if card (S \<inter> ?X) = 0 then [] else [k])) \<and> sd_dirty st < sd_dirty ?st2"
      proof (cases "card (S \<inter> ?X) = 0")
        case False
        then show ?thesis using aput_other [of m k "S - ?X"] by (simp add: state_defs Let_def del: card_0_eq card_eq_0_iff)
      qed (use e in simp)
    qed (simp_all add: state_defs Let_def reply_ok_def)
    moreover have "spec_sop m (SRem k vs) = (aput m k (S - ?X), AInt (int (card (S \<inter> ?X))))" using Some ASet so(4) by simp
    ultimately show ?thesis by simp
  qed
qed

lemma sismember_ok:
  assumes r: "st_rep ev st m"
  shows "step_ok ev st m (sismemberCommand ev rc st k v) (spec_sop m (SIsMember k v))"
    "step_ok ev st m (scardCommand st k) (spec_sop m (SCard k))"
proof -
  have "step_ok ev st m (sismemberCommand ev rc st k v) (spec_sop m (SIsMember k v)) \<and> step_ok ev st m (scardCommand st k) (spec_sop m (SCard k))"
  proof (cases "m k")
    case None
    then have "sd_keys st k = None" "aset m k = {}" using keys_rep_iffs(1) [OF r, of k] by (auto simp: aset_def)
    then show ?thesis using None by (auto intro!: step_quiet simp: sismemberCommand_def scardCommand_def with_set_def reply_ok_def r)
  next
    case (Some x)
    show ?thesis
    proof (cases x)
      case AOther
      then show ?thesis using Some keys_rep_iffs(2) [OF r, of k] step_error [OF r] by (simp add: sismemberCommand_def scardCommand_def with_set_def)
    next
      case (ASet S)
      obtain so where so: "sd_keys st k = Some (SetVal so)" "set_rep ev so S" "S \<noteq> {}" "aset m k = S" using keys_rep_get [OF r] Some ASet by blast
      obtain so' where so': "setTypeIsMember ev so (tryObjectEncoding rc v) = Some (so', str_of v \<in> S)" "set_rep ev so' S"
        using setTypeIsMember_rep [OF so(2), of "tryObjectEncoding rc v"] by (auto simp: tryObjectEncoding_str)
      have "sismemberCommand ev rc st k v = Some (put_set st k so', SInt (if str_of v \<in> S then 1 else 0))"
        using so(1) so'(1) by (simp add: sismemberCommand_def with_set_def)
      then have "step_ok ev st m (sismemberCommand ev rc st k v) (m, AInt (if str_of v \<in> S then 1 else 0))"
        using keys_rep_same [OF r _ so'(2), of k] Some ASet by (auto intro!: step_quiet simp: reply_ok_def put_set_def)
      moreover have "step_ok ev st m (scardCommand st k) (m, AInt (int (card S)))"
        using so(1) set_size(1) [OF so(2)] by (auto intro!: step_quiet simp: scardCommand_def with_set_def reply_ok_def r)
      ultimately show ?thesis using Some ASet so(4) by simp
    qed
  qed
  then show "step_ok ev st m (sismemberCommand ev rc st k v) (spec_sop m (SIsMember k v))"
    "step_ok ev st m (scardCommand st k) (spec_sop m (SCard k))" by blast+
qed

lemma smove_ok:
  assumes ev: "senv_ok ev" and r: "st_rep ev st m" and ok: "sop_ok m (SMove s d v)"
  shows "step_ok ev st m (smoveCommand ev rc st s d v) (spec_sop m (SMove s d v))"
proof (cases "m s = None \<or> m s = Some AOther \<or> m d = Some AOther \<or> s = d")
  case True
  have K: "sd_keys st k = None \<longleftrightarrow> m k = None" "sd_keys st k = Some OtherVal \<longleftrightarrow> m k = Some AOther" for k using keys_rep_iffs [OF r] by auto
  have q: "step_ok ev st m (Some (st, SInt i)) (m, AInt i)" for i by (rule step_quiet) (simp_all add: r reply_ok_def)
  consider "m s = None" | "m s = Some AOther" | S where "m s = Some (ASet S)" by (cases "m s") (auto intro: aval.exhaust)
  then show ?thesis
  proof cases
    case 1
    then show ?thesis using K [of s] q [of 0] by (simp add: smoveCommand_def with_set_def)
  next
    case 2
    then show ?thesis using K [of s] step_error [OF r] by (simp add: smoveCommand_def with_set_def)
  next
    case (3 S)
    then obtain so where "sd_keys st s = Some (SetVal so)" using keys_rep_get [OF r 3] by blast
    then show ?thesis using True 3 K [of d] q [of 1] step_error [OF r] by (auto simp: smoveCommand_def with_set_def)
  qed
next
  case False
  then obtain S where S: "m s = Some (ASet S)" by (cases "m s") (auto intro: aval.exhaust)
  obtain so where so: "sd_keys st s = Some (SetVal so)" "set_rep ev so S" "S \<noteq> {}" "aset m s = S" using keys_rep_get [OF r S] by blast
  let ?v = "tryObjectEncoding rc v"
  obtain so1 where so1: "setTypeRemove ev so ?v = Some (so1, str_of v \<in> S)" "set_rep ev so1 (S - {str_of v})"
    using setTypeRemove_rep [OF so(2), of ?v] by (auto simp: tryObjectEncoding_str)
  have d: "sd_keys st d \<noteq> Some OtherVal" "s \<noteq> d" using False keys_rep_iffs(2) [OF r, of d] by auto
  show ?thesis
  proof (cases "str_of v \<in> S")
    case nin: False
    then have res: "smoveCommand ev rc st s d v = Some (put_set st s so1, SInt 0)"
      using so(1) so1(1) d by (simp add: smoveCommand_def with_set_def)
    have "set_rep ev so1 S" using so1(2) nin by simp
    then show ?thesis using step_quiet [OF res, of ev m st "AInt 0"] keys_rep_same [OF r S] S False nin so(4)
      by (simp add: put_set_def reply_ok_def)
  next
    case True
    let ?m1 = "aput m s (S - {str_of v})"
    let ?st1 = "notifyKeyspaceEvent ''srem'' (put_set st s so1) s"
    let ?st2 = "if setTypeSize so1 = 0 then notifyKeyspaceEvent ''del'' (fst (dbDelete ?st1 s)) s else ?st1"
    let ?st3 = "add_dirty 1 (signalModifiedKey (signalModifiedKey ?st2 s) d)"
    have k3: "sd_keys ?st3 = (if setTypeSize so1 = 0 then (sd_keys st)(s := None) else (sd_keys st)(s \<mapsto> SetVal so1))" by (simp add: state_defs)
    have r3: "st_rep ev ?st3 ?m1" unfolding k3 using keys_rep_shrunk [OF r so1(2), of s] set_size [OF so1(2)] by simp
    have m1: "?m1 d = m d" "aset ?m1 d = aset m d" using d(2) by (auto simp: aput_def aset_def)
    obtain st4 so2 where st4: "(if sd_keys ?st3 d = None then dbAdd ?st3 d (setTypeCreate ?v) else Some ?st3) = Some st4"
        "get_set st4 d = Some so2" "set_rep ev so2 (aset m d)" "\<And>so'. put_set st4 d so' = put_set ?st3 d so'"
      using target_set [OF r3, of d ?v] False m1 by auto
    obtain so3 where so3: "setTypeAdd ev so2 ?v = Some (so3, str_of v \<notin> aset m d)" "set_rep ev so3 (insert (str_of v) (aset m d))"
      using setTypeAdd_rep [OF ev st4(3), of ?v] ok by (auto simp: tryObjectEncoding_str)
    let ?st5 = "if str_of v \<notin> aset m d then notifyKeyspaceEvent ''sadd'' (add_dirty 1 (put_set ?st3 d so3)) d else put_set ?st3 d so3"
    have res: "smoveCommand ev rc st s d v = Some (?st5, SInt 1)"
      unfolding smoveCommand_def with_set_def Let_def using so(1) so1(1) d True st4 so3(1) by (simp del: bind_eq_Some_conv)
    have rep: "st_rep ev ?st5 (aput ?m1 d (insert (str_of v) (aset m d)))"
      using keys_rep_put [OF r3 so3(2), of d] by (auto simp: state_defs)
    have "step_ok ev st m (smoveCommand ev rc st s d v) (aput ?m1 d (insert (str_of v) (aset m d)), AInt 1)"
      by (rule step_change [OF res rep, where t = "[s, d]"]) (auto simp: state_defs reply_ok_def aput_def split: if_splits)
    then show ?thesis using False True so(4) S by simp
  qed
qed

end
