(* ===== verification/TsetAlg.thy ===== *)
theory TsetAlg
  imports TsetSpec
begin

text \<open>
  The commands on several sets, intersection, union and difference with the forms that store
  their result, meet the specification of \<open>TsetSpec\<close>.  They iterate over one set of the key space
  while the membership tests may move entries of the others; the set that is iterated over is
  not touched, so that the fingerprint of its iterator is the same at the end.
\<close>

section \<open>Members and steps of the loops\<close>

definition elem_ok :: "selem \<Rightarrow> bool" where
  "elem_ok e = (case e of EInt v \<Rightarrow> in_sint 64 v | EObj ob \<Rightarrow> True)"

lemma elems_ok: "set_ok ev so xs \<Longrightarrow> e \<in> set (set_elems so xs) \<Longrightarrow> elem_ok e"
proof (cases so)
  case (IntSet "is")
  assume "set_ok ev so xs" "e \<in> set (set_elems so xs)"
  then obtain v where "intset_rep is xs" "e = EInt v" "v \<in> set xs" using IntSet by (auto simp: set_ok_def set_elems_def)
  then show ?thesis using intset_in_sint by (simp add: elem_ok_def)
qed (auto simp: elem_ok_def set_elems_def)

lemma elem_object_str: "elem_ok e \<Longrightarrow> str_of (elem_object e) = elem_str e"
  by (cases e) (simp_all add: elem_object_def elem_str_def elem_ok_def str_of_from_ll)

definition same_log :: "sdb \<Rightarrow> sdb \<Rightarrow> bool" where
  "same_log st st' \<longleftrightarrow> sd_touched st' = sd_touched st \<and> sd_dirty st' = sd_dirty st"

lemma same_log_simps [simp]: "same_log st st" "same_log st (put_set st' k so) = same_log st st'"
  by (simp_all add: same_log_def put_set_def)

lemma same_log_trans: "same_log a b \<Longrightarrow> same_log b c \<Longrightarrow> same_log a c"
  by (simp add: same_log_def)

lemma get_set_rep:
  assumes "st_rep ev st m" "m k = Some (ASet S)"
  obtains so where "get_set st k = Some so" "set_rep ev so S" "S \<noteq> {}" "aset m k = S"
  by (rule keys_rep_get [OF assms]) (rule that, simp_all add: get_set_def)

lemma put_same: "st_rep ev st m \<Longrightarrow> m k = Some (ASet S) \<Longrightarrow> set_rep ev so S \<Longrightarrow> st_rep ev (put_set st k so) m"
  by (simp add: put_set_def keys_rep_same)

text \<open>The object of a key is as before, so putting it back changes nothing.\<close>

lemma put_back: "get_set st k = Some so \<Longrightarrow> sd_keys st' k = sd_keys st k \<Longrightarrow> put_set st' k so = st'"
  by (auto simp: get_set_def put_set_def fun_upd_idem split: option.splits sval.splits)

section \<open>Intersection\<close>

lemma sinter_probe:
  assumes "elem_ok e" "set_rep ev so S"
  shows "\<exists>so'. (case e of
             EInt intobj \<Rightarrow>
               (case so of
                  IntSet is \<Rightarrow> do { f \<leftarrow> intsetFind is intobj; Some (so, \<not> f) }
                | HtSet d \<Rightarrow> do { (so, m) \<leftarrow> setTypeIsMember ev so (createStringObjectFromLongLong intobj); Some (so, \<not> m) })
           | EObj eleobj \<Rightarrow>
               do {
                 fast \<leftarrow> (case (eleobj, so) of (OInt w, IntSet is) \<Rightarrow> map_option Not (intsetFind is (sint w)) | _ \<Rightarrow> Some False);
                 if fast then Some (so, True)
                 else do { (so, m) \<leftarrow> setTypeIsMember ev so eleobj; Some (so, \<not> m) }
               }) = Some (so', elem_str e \<notin> S) \<and> set_rep ev so' S"
proof (cases e)
  case (EInt v)
  then have v: "in_sint 64 v" "elem_str e = ll_decimal v" using assms(1) by (simp_all add: elem_ok_def elem_str_def)
  show ?thesis
  proof (cases so)
    case (IntSet "is")
    then obtain xs where "intset_rep is xs" "S = ll_decimal ` set xs" using assms(2) by (auto simp: int_rep)
    then show ?thesis using EInt IntSet assms(2) v intsetFind_rep [OF _ v(1)] int_member [OF _ v(1)] by simp
  next
    case (HtSet d)
    then show ?thesis using EInt setTypeIsMember_rep [OF assms(2), of "createStringObjectFromLongLong v"] str_of_from_ll [OF v(1)] v(2) by auto
  qed
next
  case (EObj ob)
  have m: "\<exists>so'. setTypeIsMember ev so ob = Some (so', elem_str e \<in> S) \<and> set_rep ev so' S"
    using setTypeIsMember_rep [OF assms(2), of ob] EObj by (simp add: elem_str_def)
  show ?thesis
  proof (cases "\<exists>w is. ob = OInt w \<and> so = IntSet is")
    case True
    then obtain w "is" where wi: "ob = OInt w" "so = IntSet is" by blast
    then obtain xs where xs: "intset_rep is xs" "S = ll_decimal ` set xs" using assms(2) by (auto simp: int_rep)
    have "intsetFind is (sint w) = Some (elem_str e \<in> S)"
      using intsetFind_rep [OF xs(1) sint_range] int_member [OF xs(1) sint_range] xs(2) EObj wi(1) by (simp add: elem_str_def)
    then show ?thesis using m EObj wi assms(2) by auto
  next
    case False
    then show ?thesis using m EObj by (cases ob; cases so) auto
  qed
qed

lemma sinter_test_rep:
  assumes e: "elem_ok e"
  shows "st_rep ev st m \<Longrightarrow> \<forall>k\<in>set ks. \<exists>S. m k = Some (ASet S) \<Longrightarrow>
    \<exists>st'. sinter_test ev set0 e st ks = Some (st', \<forall>k\<in>set ks. k = set0 \<or> elem_str e \<in> aset m k) \<and>
      st_rep ev st' m \<and> same_log st st' \<and> sd_keys st' set0 = sd_keys st set0"
proof (induction ks arbitrary: st)
  case (Cons k ks)
  show ?case
  proof (cases "k = set0")
    case True
    then show ?thesis using Cons by simp
  next
    case False
    obtain S where S: "m k = Some (ASet S)" using Cons.prems(2) by auto
    obtain so where so: "get_set st k = Some so" "set_rep ev so S" "aset m k = S" using get_set_rep [OF Cons.prems(1) S] by blast
    obtain so' where so': "set_rep ev so' S"
      "sinter_test ev set0 e st (k # ks) = (if elem_str e \<notin> S then Some (put_set st k so', False) else sinter_test ev set0 e (put_set st k so') ks)"
      using sinter_probe [OF e so(2)] False so(1) by (auto simp: Let_def)
    have r: "st_rep ev (put_set st k so') m" by (rule put_same [OF Cons.prems(1) S so'(1)])
    have k0: "sd_keys (put_set st k so') set0 = sd_keys st set0" using False by (simp add: put_set_def)
    show ?thesis
    proof (cases "elem_str e \<in> S")
      case True
      then show ?thesis using so'(2) Cons.IH [OF r] Cons.prems(2) so(3) k0 by (auto simp: same_log_def put_set_def)
    next
      case no: False
      then show ?thesis using so'(2) r so(3) k0 False by simp
    qed
  qed
qed simp

definition in_others :: "(bytes \<Rightarrow> aval option) \<Rightarrow> bytes \<Rightarrow> bytes list \<Rightarrow> selem \<Rightarrow> bool" where
  "in_others m set0 others e \<longleftrightarrow> (\<forall>k\<in>set others. k = set0 \<or> elem_str e \<in> aset m k)"

lemma sinter_fold:
  assumes ev: "senv_ok ev" and o: "\<forall>k\<in>set others. \<exists>S. m k = Some (ASet S)"
  shows "st_rep ev st m \<Longrightarrow> \<forall>e\<in>set es. elem_ok e \<Longrightarrow> set_rep ev dst D \<Longrightarrow> card D + length es \<le> DICT_CAP \<Longrightarrow>
    \<exists>st' dst'. ofold (sinter_body ev store set0 others) (st, out, dst) es =
        Some (st', if store then out else out @ filter (in_others m set0 others) es, dst') \<and>
      st_rep ev st' m \<and> same_log st st' \<and> sd_keys st' set0 = sd_keys st set0 \<and>
      (store \<longrightarrow> set_rep ev dst' (D \<union> elem_str ` set (filter (in_others m set0 others) es)))"
proof (induction es arbitrary: st out dst D)
  case (Cons e es)
  let ?P = "in_others m set0 others"
  have e: "elem_ok e" using Cons.prems(2) by simp
  obtain st1 where st1: "sinter_test ev set0 e st others = Some (st1, ?P e)" "st_rep ev st1 m" "same_log st st1" "sd_keys st1 set0 = sd_keys st set0"
    using sinter_test_rep [OF e Cons.prems(1) o] by (auto simp: in_others_def)
  define D1 where "D1 = (if store \<and> ?P e then insert (elem_str e) D else D)"
  have fin: "finite D" using set_size(2) [OF Cons.prems(3)] .
  have c1: "card D1 + length es \<le> DICT_CAP" using Cons.prems(4) fin by (auto simp: D1_def card_insert_if)
  obtain dst1 where d1: "sinter_body ev store set0 others (st, out, dst) e = Some (st1, if store \<or> \<not> ?P e then out else out @ [e], dst1)" "set_rep ev dst1 D1"
  proof (cases "store \<and> ?P e")
    case True
    obtain dst1 where "setTypeAdd ev dst (elem_object e) = Some (dst1, elem_str e \<notin> D)" "set_rep ev dst1 (insert (elem_str e) D)"
      using setTypeAdd_rep [OF ev Cons.prems(3), of "elem_object e"] Cons.prems(4) elem_object_str [OF e] by auto
    then show thesis using that True st1(1) by (simp add: sinter_body_def D1_def)
  next
    case False
    then show thesis using that [of dst] st1(1) Cons.prems(3) by (auto simp: sinter_body_def D1_def)
  qed
  obtain st' dst' where r: "ofold (sinter_body ev store set0 others) (st1, if store \<or> \<not> ?P e then out else out @ [e], dst1) es =
        Some (st', if store then (if store \<or> \<not> ?P e then out else out @ [e]) else (if store \<or> \<not> ?P e then out else out @ [e]) @ filter ?P es, dst')"
      "st_rep ev st' m" "same_log st1 st'" "sd_keys st' set0 = sd_keys st1 set0" "store \<longrightarrow> set_rep ev dst' (D1 \<union> elem_str ` set (filter ?P es))"
    using Cons.IH [OF st1(2) _ d1(2) c1] Cons.prems(2) by (metis list.set_intros(2))
  have "store \<longrightarrow> D1 \<union> elem_str ` set (filter ?P es) = D \<union> elem_str ` set (filter ?P (e # es))" by (auto simp: D1_def)
  then show ?case using d1(1) r st1(3,4) same_log_trans [OF st1(3) r(3)] by (auto split: if_splits)
qed simp

section \<open>Storing a result\<close>

lemma store_result_ok:
  assumes r: "st_rep ev st m" and l: "same_log st0 st" and d: "set_rep ev dst S"
  shows "step_ok ev st0 m (store_result evt st dk dst) (aput m dk S, AInt (int (card S)))"
proof -
  note sz = set_size [OF d]
  have K: "keys_rep ev (if S = {} then (sd_keys st)(dk := None) else (sd_keys st)(dk \<mapsto> SetVal dst)) (aput m dk S)"
    by (rule keys_rep_shrunk [OF r d])
  obtain st' where st': "store_result evt st dk dst = Some (st', SInt (int (card S)))" "sd_touched st' = sd_touched st @ [dk]"
      "sd_dirty st' = sd_dirty st + 1" "sd_keys st' = (if S = {} then (sd_keys st)(dk := None) else (sd_keys st)(dk \<mapsto> SetVal dst))"
  proof (cases "S = {}")
    case True
    then show thesis using that sz by (simp add: store_result_def dbDelete_def add_dirty_def signalModifiedKey_def notifyKeyspaceEvent_def)
  next
    case False
    then show thesis using that sz
      by (simp add: store_result_def dbDelete_def dbAdd_def add_dirty_def signalModifiedKey_def notifyKeyspaceEvent_def card_gt_0_iff)
  qed
  show ?thesis
    by (rule step_change [OF st'(1), where t = "[dk]"])
       (use K st' l aput_other [of m dk S] in \<open>auto simp: reply_ok_def same_log_def\<close>)
qed

section \<open>The whole of \<open>SINTER\<close> and \<open>SINTERSTORE\<close>\<close>

definition qsort_ok :: "(('a \<Rightarrow> 'a \<Rightarrow> int) \<Rightarrow> 'a list \<Rightarrow> 'a list) \<Rightarrow> bool" where
  "qsort_ok qs \<longleftrightarrow> (\<forall>c xs. mset (qs c xs) = mset xs)"

lemma lookup_eq: "st_rep ev st m \<Longrightarrow> sinter_lookup st ks = spec_lookup m ks"
proof (induction ks)
  case (Cons k ks)
  note iff = keys_rep_iffs [OF Cons.prems, of k]
  consider "m k = None" | "m k = Some AOther" | S where "m k = Some (ASet S)" by (cases "m k") (auto intro: aval.exhaust)
  then show ?case
  proof cases
    case (3 S)
    from keys_rep_get [OF Cons.prems 3] obtain so where "sd_keys st k = Some (SetVal so)" .
    then show ?thesis using 3 Cons by simp
  qed (use iff in simp_all)
qed simp

lemma all_sets: "spec_lookup m ks = AllSets \<longleftrightarrow> (\<forall>k\<in>set ks. \<exists>S. m k = Some (ASet S))"
  by (induction ks) (auto split: option.splits aval.splits)

lemma member_card_le: "k \<in> set ks \<Longrightarrow> card (aset m k) \<le> sum_list (map (\<lambda>k. card (aset m k)) ks)"
  by (induction ks) auto

lemma set_objE:
  assumes "set_rep ev so S"
  obtains xs where "set_ok ev so xs" "set (map elem_str (set_elems so xs)) = S" "distinct (map elem_str (set_elems so xs))"
    "length (set_elems so xs) = card S" "\<forall>e\<in>set (set_elems so xs). elem_ok e"
proof -
  obtain xs where xs: "set_ok ev so xs" "S = elem_str ` set (set_elems so xs)" using assms by (auto simp: set_rep_def)
  note d = set_elems_distinct [OF xs(1)]
  show thesis using that [OF xs(1) _ d] xs(2) distinct_card [OF d] elems_ok [OF xs(1)] by simp
qed

lemma sinter_ok:
  assumes ev: "senv_ok ev" and qs: "qsort_ok qs" and r: "st_rep ev st m" and ok: "sop_ok m (SInter ks dst)"
  shows "step_ok ev st m (sinterGenericCommand ev qs st ks dst) (spec_sop m (SInter ks dst))"
proof (cases "spec_lookup m ks")
  case WrongType
  then show ?thesis using lookup_eq [OF r, of ks] step_error [OF r] by (simp add: sinterGenericCommand_def)
next
  case Missing
  show ?thesis
  proof (cases dst)
    case None
    then show ?thesis using Missing lookup_eq [OF r, of ks] r by (auto intro!: step_quiet simp: sinterGenericCommand_def result_def reply_ok_def)
  next
    case (Some dk)
    let ?st = "fst (dbDelete st dk)"
    let ?st' = "if sd_keys st dk \<noteq> None then add_dirty 1 (signalModifiedKey ?st dk) else ?st"
    have res: "sinterGenericCommand ev qs st ks dst = Some (?st', SInt 0)"
      using Missing Some lookup_eq [OF r, of ks] by (simp add: sinterGenericCommand_def dbDelete_def Let_def)
    have rep: "st_rep ev ?st' (aput m dk {})" using keys_rep_del [OF r, of dk] by (simp add: state_defs)
    have "aput m dk {} = m" if "sd_keys st dk = None" using that keys_rep_iffs(1) [OF r, of dk] by (auto simp: aput_def)
    then have "step_ok ev st m (sinterGenericCommand ev qs st ks dst) (aput m dk {}, AInt 0)"
      by (intro step_change [OF res rep, where t = "if sd_keys st dk \<noteq> None then [dk] else []"])
         (auto simp: state_defs reply_ok_def dest: aput_other)
    then show ?thesis using Missing Some by (simp add: result_def)
  qed
next
  case AllSets
  let ?sets = "qs (qsortCompareSetsByCardinality st) ks"
  have ms: "mset ?sets = mset ks" using qs by (simp add: qsort_ok_def)
  then have ss: "set ?sets = set ks" by (rule mset_eq_setD)
  have "?sets \<noteq> []" using ms ok by auto
  then obtain k0 others where sets: "?sets = k0 # others" by (cases ?sets) auto
  have ins: "k0 \<in> set ks" "set others \<subseteq> set ks" using ss sets by auto
  have all: "\<forall>k\<in>set ks. \<exists>S. m k = Some (ASet S)" using AllSets by (simp add: all_sets)
  obtain S0 where S0: "m k0 = Some (ASet S0)" using all ins by blast
  obtain so where so: "get_set st k0 = Some so" "set_rep ev so S0" "aset m k0 = S0" using get_set_rep [OF r S0] by blast
  obtain xs where xs: "set_ok ev so xs" "set (map elem_str (set_elems so xs)) = S0" "distinct (map elem_str (set_elems so xs))"
      "length (set_elems so xs) = card S0" "\<forall>e\<in>set (set_elems so xs). elem_ok e" using set_objE [OF so(2)] by blast
  let ?es = "set_elems so xs" and ?P = "in_others m k0 others"
  have c: "card {} + length ?es \<le> DICT_CAP" using member_card_le [OF ins(1), of m] ok so(3) xs(4) by simp
  have o: "\<forall>k\<in>set others. \<exists>S. m k = Some (ASet S)" using all ins(2) by blast
  obtain st' dset where f: "ofold (sinter_body ev (dst \<noteq> None) k0 others) (st, [], createIntsetObject) ?es =
        Some (st', if dst \<noteq> None then [] else filter ?P ?es, dset)"
      "st_rep ev st' m" "same_log st st'" "sd_keys st' k0 = sd_keys st k0" "dst \<noteq> None \<longrightarrow> set_rep ev dset (elem_str ` set (filter ?P ?es))"
    using sinter_fold [OF ev o r xs(5) setTypeCreate_rep(2) c, of "dst \<noteq> None" k0 "[]"] unfolding append_Nil Un_empty_left by blast
  have inter: "elem_str ` set (filter ?P ?es) = (\<Inter>k\<in>set ks. aset m k)"
  proof -
    have "elem_str ` set (filter ?P ?es) = {x \<in> S0. \<forall>k\<in>set others. k = k0 \<or> x \<in> aset m k}" using xs(2) by (auto simp: in_others_def)
    also have "\<dots> = (\<Inter>k\<in>set (k0 # others). aset m k)" using so(3) by auto
    finally show ?thesis unfolding ss [symmetric] sets .
  qed
  have loop: "set_for ev (setTypeNext ev) (sinter_body ev (dst \<noteq> None) k0 others) so (st, [], createIntsetObject) =
      Some (so, st', if dst \<noteq> None then [] else filter ?P ?es, dset)" by (simp only: set_for_next [OF xs(1)] f(1) option.map)
  have pb: "put_set st' k0 so = st'" by (rule put_back [OF so(1) f(4)])
  have cmd: "sinterGenericCommand ev qs st ks dst = (case dst of
        None \<Rightarrow> Some (st', SMulti (length (filter ?P ?es)) (filter ?P ?es)) | Some dk \<Rightarrow> store_result ''sinterstore'' st' dk dset)"
    using AllSets lookup_eq [OF r, of ks] sets so(1) loop pb by (simp add: sinterGenericCommand_def rd_def Let_def split: option.splits)
  show ?thesis
  proof (cases dst)
    case None
    have "reply_ok (SMulti (length (filter ?P ?es)) (filter ?P ?es)) (AMulti (\<Inter>k\<in>set ks. aset m k))"
      using inter distinct_map_filter [OF xs(3), of ?P] by (auto simp: reply_ok_def)
    then have "step_ok ev st m (sinterGenericCommand ev qs st ks dst) (m, AMulti (\<Inter>k\<in>set ks. aset m k))"
      using step_quiet [OF _ f(2)] f(3) cmd None by (simp add: same_log_def)
    then show ?thesis using AllSets None by (simp add: result_def)
  next
    case (Some dk)
    then show ?thesis using store_result_ok [OF f(2,3), of dset _ "''sinterstore''" dk] f(5) inter cmd AllSets by (simp add: result_def)
  qed
qed

section \<open>Union and difference\<close>

definition oset :: "(bytes \<Rightarrow> aval option) \<Rightarrow> bytes option \<Rightarrow> bytes set" where
  "oset m s = (case s of None \<Rightarrow> {} | Some k \<Rightarrow> aset m k)"

lemma oset_simps [simp]: "oset m None = {}" "oset m (Some k) = aset m k"
  by (simp_all add: oset_def)

definition osets_ok :: "(bytes \<Rightarrow> aval option) \<Rightarrow> bytes option list \<Rightarrow> bool" where
  "osets_ok m sets \<longleftrightarrow> (\<forall>k. Some k \<in> set sets \<longrightarrow> (\<exists>S. m k = Some (ASet S)))"

lemma osets_ok_simps [simp]: "osets_ok m []" "osets_ok m (None # sets) = osets_ok m sets"
  "osets_ok m (Some k # sets) \<longleftrightarrow> (\<exists>S. m k = Some (ASet S)) \<and> osets_ok m sets"
  by (auto simp: osets_ok_def)

lemma sunion_lookup_rep:
  assumes r: "st_rep ev st m"
  shows "(\<exists>k\<in>set ks. m k = Some AOther) \<Longrightarrow> sunion_lookup st ks = None"
    "\<not> (\<exists>k\<in>set ks. m k = Some AOther) \<Longrightarrow>
      \<exists>sets. sunion_lookup st ks = Some sets \<and> osets_ok m sets \<and> map (oset m) sets = map (aset m) ks"
proof -
  have c: "m k = None \<and> sd_keys st k = None \<or> m k = Some AOther \<and> sd_keys st k = Some OtherVal \<or>
      (\<exists>S so. m k = Some (ASet S) \<and> sd_keys st k = Some (SetVal so))" for k
  proof (cases "m k")
    case None
    then show ?thesis using keys_rep_iffs(1) [OF r] by blast
  next
    case (Some v)
    then show ?thesis using keys_rep_iffs(2) [OF r] keys_rep_get [OF r, of k] by (cases v) metis+
  qed
  show "(\<exists>k\<in>set ks. m k = Some AOther) \<Longrightarrow> sunion_lookup st ks = None"
  proof (induction ks)
    case (Cons k ks)
    have "m k = Some AOther \<or> (\<exists>k\<in>set ks. m k = Some AOther)" using Cons.prems by auto
    then have "m k = Some AOther \<or> sunion_lookup st ks = None" using Cons.IH by (elim disjE) simp_all
    then show ?case using c [of k] by auto
  qed simp
  show "\<not> (\<exists>k\<in>set ks. m k = Some AOther) \<Longrightarrow>
      \<exists>sets. sunion_lookup st ks = Some sets \<and> osets_ok m sets \<and> map (oset m) sets = map (aset m) ks"
  proof (induction ks)
    case (Cons k ks)
    then obtain sets where ih: "sunion_lookup st ks = Some sets" "osets_ok m sets" "map (oset m) sets = map (aset m) ks" by auto
    have "m k \<noteq> Some AOther" using Cons.prems by auto
    then consider "m k = None" "sd_keys st k = None" | S so where "m k = Some (ASet S)" "sd_keys st k = Some (SetVal so)" using c [of k] by (elim disjE exE conjE) simp_all
    then show ?case
    proof cases
      case 1
      then show ?thesis using ih by (simp add: aset_def)
    next
      case 2
      then show ?thesis using ih by simp
    qed
  qed simp
qed

lemma for_key_ok:
  assumes "get_set st k = Some so" "set_ok ev so xs" "ofold body (st, s) (map elem_object (set_elems so xs)) = Some (st', s')"
    "sd_keys st' k = sd_keys st k"
  shows "for_key ev body k (st, s) = Some (st', s')"
  using set_for_next_object [OF assms(2), of body "(st, s)"] assms(1,3) put_back [OF assms(1,4)] by (simp add: for_key_def)

lemma count_add_fold:
  assumes ev: "senv_ok ev"
  shows "set_rep ev dst D \<Longrightarrow> card D + length obs \<le> DICT_CAP \<Longrightarrow>
    \<exists>dst'. ofold (count_add ev) (st, dst, int (card D)) obs = Some (st, dst', int (card (D \<union> str_of ` set obs))) \<and>
      set_rep ev dst' (D \<union> str_of ` set obs)"
proof (induction obs arbitrary: dst D)
  case (Cons ob obs)
  have fin: "finite D" using set_size(2) [OF Cons.prems(1)] .
  obtain dst1 where d1: "setTypeAdd ev dst ob = Some (dst1, str_of ob \<notin> D)" "set_rep ev dst1 (insert (str_of ob) D)"
    using setTypeAdd_rep [OF ev Cons.prems(1), of ob] Cons.prems(2) by auto
  have c: "(if str_of ob \<notin> D then int (card D) + 1 else int (card D)) = int (card (insert (str_of ob) D))" using fin by (simp add: card_insert_if)
  have "card (insert (str_of ob) D) + length obs \<le> DICT_CAP" using Cons.prems(2) fin by (simp add: card_insert_if)
  from Cons.IH [OF d1(2) this] obtain dst' where
    "ofold (count_add ev) (st, dst1, int (card (insert (str_of ob) D))) obs = Some (st, dst', int (card (insert (str_of ob) D \<union> str_of ` set obs)))"
    "set_rep ev dst' (insert (str_of ob) D \<union> str_of ` set obs)" by blast
  moreover have "insert (str_of ob) D \<union> str_of ` set obs = D \<union> str_of ` set (ob # obs)" by auto
  moreover have "count_add ev (st, dst, int (card D)) ob = Some (st, dst1, int (card (insert (str_of ob) D)))"
    unfolding c [symmetric] using d1(1) by (simp add: count_add_def)
  ultimately show ?case by (simp only: ofold.simps Option.bind.simps) blast
qed simp

lemma count_remove_fold:
  "set_rep ev dst D \<Longrightarrow>
    \<exists>dst'. ofold (count_remove ev) (st, dst, int (card D)) obs = Some (st, dst', int (card (D - str_of ` set obs))) \<and>
      set_rep ev dst' (D - str_of ` set obs)"
proof (induction obs arbitrary: dst D)
  case (Cons ob obs)
  have fin: "finite D" using set_size(2) [OF Cons.prems(1)] .
  obtain dst1 where d1: "setTypeRemove ev dst ob = Some (dst1, str_of ob \<in> D)" "set_rep ev dst1 (D - {str_of ob})"
    using setTypeRemove_rep [OF Cons.prems(1), of ob] by auto
  have "0 < card D" if "str_of ob \<in> D" using that fin by (auto simp: card_gt_0_iff)
  then have c: "(if str_of ob \<in> D then int (card D) - 1 else int (card D)) = int (card (D - {str_of ob}))"
    using fin by (auto simp: card_Diff_singleton of_nat_diff Suc_leI)
  from Cons.IH [OF d1(2)] obtain dst' where
    "ofold (count_remove ev) (st, dst1, int (card (D - {str_of ob}))) obs = Some (st, dst', int (card (D - {str_of ob} - str_of ` set obs)))"
    "set_rep ev dst' (D - {str_of ob} - str_of ` set obs)" by blast
  moreover have "D - {str_of ob} - str_of ` set obs = D - str_of ` set (ob # obs)" by auto
  moreover have "count_remove ev (st, dst, int (card D)) ob = Some (st, dst1, int (card (D - {str_of ob})))"
    unfolding c [symmetric] using d1(1) by (simp add: count_remove_def)
  ultimately show ?case by (simp only: ofold.simps Option.bind.simps) blast
qed simp

text \<open>The strings of the objects that an iteration hands out.\<close>

lemma objects_str: "\<forall>e\<in>set es. elem_ok e \<Longrightarrow> map str_of (map elem_object es) = map elem_str es"
  by (induction es) (simp_all add: elem_object_str)

lemma for_key_count:
  assumes ev: "senv_ok ev" and r: "st_rep ev st m" and S: "m k = Some (ASet S)" and d: "set_rep ev dst D"
  shows "card D + card S \<le> DICT_CAP \<Longrightarrow>
      \<exists>dst'. for_key ev (count_add ev) k (st, dst, int (card D)) = Some (st, dst', int (card (D \<union> S))) \<and> set_rep ev dst' (D \<union> S)"
    "\<exists>dst'. for_key ev (count_remove ev) k (st, dst, int (card D)) = Some (st, dst', int (card (D - S))) \<and> set_rep ev dst' (D - S)"
proof -
  obtain so where so: "get_set st k = Some so" "set_rep ev so S" using get_set_rep [OF r S] by blast
  obtain xs where xs: "set_ok ev so xs" "set (map elem_str (set_elems so xs)) = S"
      "length (set_elems so xs) = card S" "\<forall>e\<in>set (set_elems so xs). elem_ok e" using set_objE [OF so(2)] by blast
  let ?obs = "map elem_object (set_elems so xs)"
  have X: "str_of ` set ?obs = S" using arg_cong [OF objects_str [OF xs(4)], of set] xs(2) by (simp add: image_image)
  show "\<exists>dst'. for_key ev (count_add ev) k (st, dst, int (card D)) = Some (st, dst', int (card (D \<union> S))) \<and> set_rep ev dst' (D \<union> S)"
    if c: "card D + card S \<le> DICT_CAP"
  proof -
    have "card D + length ?obs \<le> DICT_CAP" using c xs(3) by simp
    from count_add_fold [OF ev d this, of st, unfolded X] obtain dst' where
      a: "ofold (count_add ev) (st, dst, int (card D)) ?obs = Some (st, dst', int (card (D \<union> S)))" "set_rep ev dst' (D \<union> S)" by blast
    show ?thesis using for_key_ok [OF so(1) xs(1) a(1) refl] a(2) by blast
  qed
  obtain dst' where
    a: "ofold (count_remove ev) (st, dst, int (card D)) ?obs = Some (st, dst', int (card (D - S)))" "set_rep ev dst' (D - S)"
    using count_remove_fold [OF d, of st ?obs, unfolded X] by blast
  show "\<exists>dst'. for_key ev (count_remove ev) k (st, dst, int (card D)) = Some (st, dst', int (card (D - S))) \<and> set_rep ev dst' (D - S)"
    using for_key_ok [OF so(1) xs(1) a(1) refl] a(2) by blast
qed

lemma union_loop_rep:
  assumes ev: "senv_ok ev" and r: "st_rep ev st m"
  shows "osets_ok m sets \<Longrightarrow> set_rep ev dst D \<Longrightarrow> card D + sum_list (map (\<lambda>s. card (oset m s)) sets) \<le> DICT_CAP \<Longrightarrow>
    \<exists>dst'. union_loop ev sets (st, dst, int (card D)) = Some (st, dst', int (card (D \<union> (\<Union>s\<in>set sets. oset m s)))) \<and>
      set_rep ev dst' (D \<union> (\<Union>s\<in>set sets. oset m s))"
proof (induction sets arbitrary: dst D)
  case (Cons s sets)
  show ?case
  proof (cases s)
    case None
    then show ?thesis using Cons by simp
  next
    case (Some k)
    then obtain S where S: "m k = Some (ASet S)" "aset m k = S" using Cons.prems(1) by (auto simp: aset_def)
    obtain dst1 where d1: "for_key ev (count_add ev) k (st, dst, int (card D)) = Some (st, dst1, int (card (D \<union> S)))" "set_rep ev dst1 (D \<union> S)"
      using for_key_count(1) [OF ev r S(1) Cons.prems(2)] Cons.prems(3) Some S(2) by auto
    have "card (D \<union> S) \<le> card D + card S" by (rule card_Un_le)
    then have "card (D \<union> S) + sum_list (map (\<lambda>s. card (oset m s)) sets) \<le> DICT_CAP" using Cons.prems(3) Some S(2) by simp
    then obtain dst' where "union_loop ev sets (st, dst1, int (card (D \<union> S))) = Some (st, dst', int (card (D \<union> S \<union> (\<Union>s\<in>set sets. oset m s))))"
        "set_rep ev dst' (D \<union> S \<union> (\<Union>s\<in>set sets. oset m s))" using Cons.IH [OF _ d1(2)] Cons.prems(1) Some by auto
    then show ?thesis using Some d1(1) S(2) by (simp add: Un_assoc)
  qed
qed simp

lemma diff_loop_rep:
  assumes ev: "senv_ok ev" and r: "st_rep ev st m"
  shows "osets_ok m sets \<Longrightarrow> set_rep ev dst D \<Longrightarrow>
    \<exists>dst'. diff_loop ev False sets (st, dst, int (card D)) = Some (st, dst', int (card (D - (\<Union>s\<in>set sets. oset m s)))) \<and>
      set_rep ev dst' (D - (\<Union>s\<in>set sets. oset m s))"
proof (induction sets arbitrary: dst D)
  case (Cons s sets)
  show ?case
  proof (cases s)
    case None
    then show ?thesis using Cons by simp
  next
    case (Some k)
    then obtain S where S: "m k = Some (ASet S)" "aset m k = S" using Cons.prems(1) by (auto simp: aset_def)
    obtain dst1 where d1: "for_key ev (count_remove ev) k (st, dst, int (card D)) = Some (st, dst1, int (card (D - S)))" "set_rep ev dst1 (D - S)"
      using for_key_count(2) [OF ev r S(1) Cons.prems(2)] by blast
    obtain dst' where ih: "diff_loop ev False sets (st, dst1, int (card (D - S))) = Some (st, dst', int (card (D - S - (\<Union>s\<in>set sets. oset m s))))"
        "set_rep ev dst' (D - S - (\<Union>s\<in>set sets. oset m s))" using Cons.IH [OF _ d1(2)] Cons.prems(1) Some by auto
    have D: "D - S - (\<Union>s\<in>set sets. oset m s) = D - (\<Union>s\<in>set (Some k # sets). oset m s)" using S(2) by auto
    show ?thesis
    proof (cases "card (D - S) = 0")
      case True
      then have e: "D - S = {}" using set_size(2) [OF d1(2)] by simp
      have "diff_loop ev False (Some k # sets) (st, dst, int (card D)) = Some (st, dst1, int (card (D - S)))" using d1(1) True by simp
      moreover have "D - S - (\<Union>s\<in>set sets. oset m s) = D - S" using e by blast
      ultimately show ?thesis unfolding Some D [symmetric] using d1(2) by (simp only:) blast
    next
      case False
      have "diff_loop ev False (Some k # sets) (st, dst, int (card D)) = diff_loop ev False sets (st, dst1, int (card (D - S)))" using d1(1) False by simp
      then show ?thesis unfolding Some D [symmetric] using ih by simp
    qed
  qed
qed simp

lemma diff_test_rep:
  "st_rep ev st m \<Longrightarrow> osets_ok m sets \<Longrightarrow>
    \<exists>st'. diff_test ev set0 ele st sets = Some (st', \<forall>k. Some k \<in> set sets \<longrightarrow> k \<noteq> set0 \<and> str_of ele \<notin> aset m k) \<and>
      st_rep ev st' m \<and> same_log st st' \<and> sd_keys st' set0 = sd_keys st set0"
proof (induction sets arbitrary: st)
  case (Cons s sets)
  show ?case
  proof (cases s)
    case None
    then show ?thesis using Cons by simp
  next
    case (Some k)
    show ?thesis
    proof (cases "k = set0")
      case True
      then have "diff_test ev set0 ele st (s # sets) = Some (st, False)" using Some by simp
      moreover have "\<not> (\<forall>k. Some k \<in> set (s # sets) \<longrightarrow> k \<noteq> set0 \<and> str_of ele \<notin> aset m k)" using Some True by auto
      ultimately show ?thesis using Cons.prems(1) by simp
    next
      case False
      obtain S where S: "m k = Some (ASet S)" using Cons.prems(2) Some by auto
      obtain so where so: "get_set st k = Some so" "set_rep ev so S" "aset m k = S" using get_set_rep [OF Cons.prems(1) S] by blast
      obtain so' where so': "setTypeIsMember ev so ele = Some (so', str_of ele \<in> S)" "set_rep ev so' S" using setTypeIsMember_rep [OF so(2)] by blast
      have r: "st_rep ev (put_set st k so') m" by (rule put_same [OF Cons.prems(1) S so'(2)])
      have k0: "sd_keys (put_set st k so') set0 = sd_keys st set0" using False by (simp add: put_set_def)
      have t: "diff_test ev set0 ele st (s # sets) =
          (if str_of ele \<in> S then Some (put_set st k so', False) else diff_test ev set0 ele (put_set st k so') sets)"
        using Some False so(1) so'(1) by simp
      show ?thesis
      proof (cases "str_of ele \<in> S")
        case True
        then have "\<not> (\<forall>k. Some k \<in> set (s # sets) \<longrightarrow> k \<noteq> set0 \<and> str_of ele \<notin> aset m k)" using Some so(3) by auto
        then show ?thesis using t True r k0 by simp
      next
        case no: False
        obtain st' where ih: "diff_test ev set0 ele (put_set st k so') sets = Some (st', \<forall>k. Some k \<in> set sets \<longrightarrow> k \<noteq> set0 \<and> str_of ele \<notin> aset m k)"
           "st_rep ev st' m" "same_log (put_set st k so') st'" "sd_keys st' set0 = sd_keys (put_set st k so') set0"
          using Cons.IH [OF r] Cons.prems(2) Some by auto
        have "(\<forall>k. Some k \<in> set (s # sets) \<longrightarrow> k \<noteq> set0 \<and> str_of ele \<notin> aset m k) \<longleftrightarrow> (\<forall>k. Some k \<in> set sets \<longrightarrow> k \<noteq> set0 \<and> str_of ele \<notin> aset m k)"
          using Some False no so(3) by auto
        then show ?thesis using t no ih k0 by (simp add: same_log_def put_set_def)
      qed
    qed
  qed
qed simp

definition in_no_other :: "(bytes \<Rightarrow> aval option) \<Rightarrow> bytes \<Rightarrow> bytes option list \<Rightarrow> bytes \<Rightarrow> bool" where
  "in_no_other m set0 others x \<longleftrightarrow> (\<forall>k. Some k \<in> set others \<longrightarrow> k \<noteq> set0 \<and> x \<notin> aset m k)"

lemma diff_fold:
  assumes ev: "senv_ok ev" and o: "osets_ok m others"
  shows "st_rep ev st m \<Longrightarrow> distinct (map str_of obs) \<Longrightarrow> D \<inter> str_of ` set obs = {} \<Longrightarrow> set_rep ev dst D \<Longrightarrow> card D + length obs \<le> DICT_CAP \<Longrightarrow>
    \<exists>st' dst'. ofold (diff_body ev set0 others) (st, dst, int (card D)) obs =
        Some (st', dst', int (card (D \<union> {x \<in> str_of ` set obs. in_no_other m set0 others x}))) \<and>
      set_rep ev dst' (D \<union> {x \<in> str_of ` set obs. in_no_other m set0 others x}) \<and>
      st_rep ev st' m \<and> same_log st st' \<and> sd_keys st' set0 = sd_keys st set0"
proof (induction obs arbitrary: st dst D)
  case (Cons ob obs)
  let ?P = "in_no_other m set0 others" and ?x = "str_of ob"
  have fin: "finite D" and new: "?x \<notin> D" using set_size(2) [OF Cons.prems(4)] Cons.prems(3) by auto
  obtain st1 where st1: "diff_test ev set0 ob st others = Some (st1, ?P ?x)" "st_rep ev st1 m" "same_log st st1" "sd_keys st1 set0 = sd_keys st set0"
    using diff_test_rep [OF Cons.prems(1) o, of set0 ob] by (auto simp: in_no_other_def)
  define D1 where "D1 = (if ?P ?x then insert ?x D else D)"
  obtain dst1 where d1: "diff_body ev set0 others (st, dst, int (card D)) ob = Some (st1, dst1, int (card D1))" "set_rep ev dst1 D1"
  proof (cases "?P ?x")
    case True
    obtain dst1 where "setTypeAdd ev dst ob = Some (dst1, True)" "set_rep ev dst1 (insert ?x D)"
      using setTypeAdd_rep [OF ev Cons.prems(4), of ob] Cons.prems(5) new by auto
    moreover have "int (card D) + 1 = int (card D1)" using True fin new by (simp add: D1_def)
    ultimately show thesis using that [of dst1] True st1(1) by (simp add: diff_body_def D1_def)
  next
    case False
    then show thesis using that [of dst] st1(1) Cons.prems(4) by (simp add: diff_body_def D1_def)
  qed
  have p: "distinct (map str_of obs)" "D1 \<inter> str_of ` set obs = {}" "card D1 + length obs \<le> DICT_CAP"
    using Cons.prems(2,3,5) fin by (auto simp: D1_def card_insert_if)
  have U: "D1 \<union> {x \<in> str_of ` set obs. ?P x} = D \<union> {x \<in> str_of ` set (ob # obs). ?P x}" by (auto simp: D1_def)
  from Cons.IH [OF st1(2) p(1,2) d1(2) p(3), unfolded U] obtain st' dst' where
    ih: "ofold (diff_body ev set0 others) (st1, dst1, int (card D1)) obs = Some (st', dst', int (card (D \<union> {x \<in> str_of ` set (ob # obs). ?P x})))"
      "set_rep ev dst' (D \<union> {x \<in> str_of ` set (ob # obs). ?P x})" "st_rep ev st' m" "same_log st1 st'" "sd_keys st' set0 = sd_keys st1 set0" by blast
  have "ofold (diff_body ev set0 others) (st, dst, int (card D)) (ob # obs) =
      Some (st', dst', int (card (D \<union> {x \<in> str_of ` set (ob # obs). ?P x})))" unfolding ofold.simps d1(1) Option.bind.simps by (rule ih(1))
  then show ?case using ih st1(4) same_log_trans [OF st1(3) ih(4)] by (simp only:) blast
qed simp

lemma diff_first:
  assumes ev: "senv_ok ev" and r: "st_rep ev st m" and S: "m k0 = Some (ASet S)" and o: "osets_ok m others" and c: "card S \<le> DICT_CAP"
  shows "\<exists>st' dst. for_key ev (diff_body ev k0 others) k0 (st, createIntsetObject, 0) = Some (st', dst, int (card (S - (\<Union>s\<in>set others. oset m s)))) \<and>
    set_rep ev dst (S - (\<Union>s\<in>set others. oset m s)) \<and> st_rep ev st' m \<and> same_log st st'"
proof -
  obtain so where so: "get_set st k0 = Some so" "set_rep ev so S" "aset m k0 = S" using get_set_rep [OF r S] by blast
  obtain xs where xs: "set_ok ev so xs" "set (map elem_str (set_elems so xs)) = S" "distinct (map elem_str (set_elems so xs))"
      "length (set_elems so xs) = card S" "\<forall>e\<in>set (set_elems so xs). elem_ok e" using set_objE [OF so(2)] by blast
  let ?obs = "map elem_object (set_elems so xs)"
  have ob: "map str_of ?obs = map elem_str (set_elems so xs)" by (rule objects_str [OF xs(5)])
  then have X: "str_of ` set ?obs = S" using arg_cong [OF ob, of set] xs(2) by (simp add: image_image)
  have D: "{} \<union> {x \<in> S. in_no_other m k0 others x} = S - (\<Union>s\<in>set others. oset m s)"
    using so(3) by (auto simp: in_no_other_def oset_def split: option.splits)
  have "distinct (map str_of ?obs)" "{} \<inter> str_of ` set ?obs = {}" "card {} + length ?obs \<le> DICT_CAP" unfolding ob using xs(3,4) c by simp_all
  from diff_fold [OF ev o r this(1,2) setTypeCreate_rep(2) this(3), of k0, unfolded X D] obtain st' dst where
    f: "ofold (diff_body ev k0 others) (st, createIntsetObject, 0) ?obs = Some (st', dst, int (card (S - (\<Union>s\<in>set others. oset m s))))"
      "set_rep ev dst (S - (\<Union>s\<in>set others. oset m s))" "st_rep ev st' m" "same_log st st'" "sd_keys st' k0 = sd_keys st k0"
    by auto
  show ?thesis using for_key_ok [OF so(1) xs(1) f(1) f(5)] f by blast
qed

section \<open>The whole of \<open>SUNION\<close>, \<open>SDIFF\<close> and their storing forms\<close>

text \<open>
  The work of the command between the lookup and the reply; for the difference the choice
  between the two algorithms and the order of the sets do not matter.
\<close>

lemma diff_second:
  assumes ev: "senv_ok ev" and r: "st_rep ev st m" and S0: "m k0 = Some (ASet S0)" and o: "osets_ok m others" and c: "card S0 \<le> DICT_CAP"
  shows "\<exists>dst. diff_loop ev True (Some k0 # others) (st, createIntsetObject, 0) = Some (st, dst, int (card (S0 - (\<Union>s\<in>set others. oset m s)))) \<and>
    set_rep ev dst (S0 - (\<Union>s\<in>set others. oset m s))"
proof -
  have "card {} + card S0 \<le> DICT_CAP" using c by simp
  from for_key_count(1) [OF ev r S0 setTypeCreate_rep(2) this] obtain dst1 where
    d1: "for_key ev (count_add ev) k0 (st, createIntsetObject, 0) = Some (st, dst1, int (card S0))" "set_rep ev dst1 S0" by auto
  have "S0 \<noteq> {}" using keys_rep_get [OF r S0] .
  then have "card S0 \<noteq> 0" using set_size(2) [OF d1(2)] by simp
  then have "diff_loop ev True (Some k0 # others) (st, createIntsetObject, 0) = diff_loop ev False others (st, dst1, int (card S0))" using d1(1) by simp
  then show ?thesis using diff_loop_rep [OF ev r o d1(2)] by (simp only:)
qed

definition set_op_result :: "(bytes \<Rightarrow> aval option) \<Rightarrow> bytes option list \<Rightarrow> set_op \<Rightarrow> bytes set" where
  "set_op_result m sets op =
     (case op of REDIS_OP_UNION \<Rightarrow> \<Union>s\<in>set sets. oset m s | REDIS_OP_DIFF \<Rightarrow> oset m (hd sets) - (\<Union>s\<in>set (drop 1 sets). oset m s))"

lemma set_op_work_rep:
  assumes ev: "senv_ok ev" and qs: "qsort_ok qs" and r: "st_rep ev st m" and o: "osets_ok m sets" and ne: "sets = set0 # others"
    and c: "sum_list (map (\<lambda>s. card (oset m s)) sets) \<le> DICT_CAP"
  shows "\<exists>st' dst. set_op_work ev qs st sets op = Some (st', dst, int (card (set_op_result m sets op))) \<and>
    set_rep ev dst (set_op_result m sets op) \<and> st_rep ev st' m \<and> same_log st st'"
proof (cases op)
  case REDIS_OP_UNION
  have "card {} + sum_list (map (\<lambda>s. card (oset m s)) sets) \<le> DICT_CAP" using c by simp
  from union_loop_rep [OF ev r o setTypeCreate_rep(2) this]
  have "\<exists>dst. union_loop ev sets (st, createIntsetObject, 0) = Some (st, dst, int (card (set_op_result m sets op))) \<and>
      set_rep ev dst (set_op_result m sets op)" using REDIS_OP_UNION by (simp add: set_op_result_def)
  then show ?thesis using r REDIS_OP_UNION ne by (auto simp: set_op_work_def rd_def Let_def)
next
  case REDIS_OP_DIFF
  show ?thesis
  proof (cases set0)
    case None
    then show ?thesis using REDIS_OP_DIFF r ne setTypeCreate_rep(2) by (simp add: set_op_work_def rd_def set_op_result_def)
  next
    case (Some k0)
    then obtain S0 where S0: "m k0 = Some (ASet S0)" "aset m k0 = S0" using o ne by (auto simp: aset_def)
    let ?S = "S0 - (\<Union>s\<in>set others. oset m s)"
    have S: "set_op_result m sets op = ?S" using Some REDIS_OP_DIFF S0(2) ne by (simp add: set_op_result_def)
    have oo: "osets_ok m others" and c0: "card S0 \<le> DICT_CAP" using o c ne Some S0(2) by simp_all
    show ?thesis unfolding S
    proof (cases "diff_algo st sets = 1")
      case True
      let ?os = "if length sets > 1 then qs (qsortCompareSetsByRevCardinality st) others else others"
      have "mset ?os = mset others" using qs by (simp add: qsort_ok_def)
      then have ss: "set ?os = set others" by (rule mset_eq_setD)
      then have "osets_ok m ?os" using oo by (simp add: osets_ok_def)
      note d = diff_first [OF ev r S0(1) this c0, unfolded ss]
      have "set_op_work ev qs st sets op = for_key ev (diff_body ev k0 ?os) k0 (st, createIntsetObject, 0)"
        using True Some REDIS_OP_DIFF ne by (simp add: set_op_work_def rd_def)
      then show "\<exists>st' dst. set_op_work ev qs st sets op = Some (st', dst, int (card ?S)) \<and> set_rep ev dst ?S \<and> st_rep ev st' m \<and> same_log st st'"
        using d by (simp only:)
    next
      case False
      then have "set_op_work ev qs st sets op = diff_loop ev True (Some k0 # others) (st, createIntsetObject, 0)"
        using Some REDIS_OP_DIFF ne by (simp add: set_op_work_def rd_def)
      then show "\<exists>st' dst. set_op_work ev qs st sets op = Some (st', dst, int (card ?S)) \<and> set_rep ev dst ?S \<and> st_rep ev st' m \<and> same_log st st'"
        using diff_second [OF ev r S0(1) oo c0] r same_log_simps(1) [of st] by (simp only:) blast
    qed
  qed
qed

lemma send_set:
  assumes "set_rep ev dst S"
  shows "\<exists>out. set_for ev (setTypeNextObject ev) (\<lambda>out ele. Some (out @ [EObj ele])) dst [] = Some (dst, out) \<and>
    reply_ok (SMulti (card S) out) (AMulti S)"
proof -
  obtain xs where xs: "set_ok ev dst xs" "set (map elem_str (set_elems dst xs)) = S" "distinct (map elem_str (set_elems dst xs))"
      "length (set_elems dst xs) = card S" "\<forall>e\<in>set (set_elems dst xs). elem_ok e" using set_objE [OF assms] by blast
  have f: "ofold (\<lambda>out ele. Some (out @ [EObj ele])) out obs = Some (out @ map EObj obs)" for out obs by (induction obs arbitrary: out) simp_all
  let ?obs = "map elem_object (set_elems dst xs)"
  have "map elem_str (map EObj ?obs) = map str_of ?obs" by (simp add: elem_str_def)
  then have s: "map elem_str (map EObj ?obs) = map elem_str (set_elems dst xs)" unfolding objects_str [OF xs(5)] .
  have "reply_ok (SMulti (card S) (map EObj ?obs)) (AMulti S)"
    unfolding reply_ok_def areply.case using s xs(2-4) by (intro disjI2 exI [of _ "map EObj ?obs"]) (simp del: map_map)
  then show ?thesis unfolding set_for_next_object [OF xs(1)] f by simp
qed

lemma sunionDiff_ok:
  assumes ev: "senv_ok ev" and qs: "qsort_ok qs" and r: "st_rep ev st m" and ks: "ks \<noteq> []"
    and c: "sum_list (map (\<lambda>k. card (aset m k)) ks) \<le> DICT_CAP"
  shows "step_ok ev st m (sunionDiffGenericCommand ev qs st ks dst op)
    (spec_sop m (case op of REDIS_OP_UNION \<Rightarrow> SUnion ks dst | REDIS_OP_DIFF \<Rightarrow> SDiff ks dst))"
proof (cases "\<exists>k\<in>set ks. m k = Some AOther")
  case True
  then show ?thesis using sunion_lookup_rep(1) [OF r True] step_error [OF r] by (cases op) (simp_all add: sunionDiffGenericCommand_def)
next
  case False
  obtain sets where l: "sunion_lookup st ks = Some sets" "osets_ok m sets" "map (oset m) sets = map (aset m) ks"
    using sunion_lookup_rep(2) [OF r False] by blast
  obtain k ks' where k: "ks = k # ks'" using ks by (cases ks) auto
  then obtain set0 others where sets: "sets = set0 # others" using l(3) by (cases sets) auto
  have e: "map (oset m) others = map (aset m) ks'" using l(3) k sets by simp
  have i: "oset m ` set others = aset m ` set ks'" using arg_cong [OF e, of set] unfolding set_map .
  have o: "oset m set0 = aset m k" "oset m ` set others = aset m ` set ks'" "oset m ` set sets = aset m ` set ks"
    using l(3) k sets i by simp_all
  have c': "sum_list (map (\<lambda>s. card (oset m s)) sets) \<le> DICT_CAP"
    using c arg_cong [OF l(3), of "\<lambda>xs. sum_list (map card xs)"] by (simp add: comp_def)
  let ?S = "set_op_result m sets op"
  obtain st' d where w: "set_op_work ev qs st sets op = Some (st', d, int (card ?S))" "set_rep ev d ?S" "st_rep ev st' m" "same_log st st'"
    using set_op_work_rep [OF ev qs r l(2) sets c', of op] by blast
  have spec: "spec_sop m (case op of REDIS_OP_UNION \<Rightarrow> SUnion ks dst | REDIS_OP_DIFF \<Rightarrow> SDiff ks dst) = result m dst ?S"
    using False o k sets by (cases op) (simp_all add: set_op_result_def)
  have cmd: "sunionDiffGenericCommand ev qs st ks dst op = (case dst of
      None \<Rightarrow> do { (dstset, out) \<leftarrow> set_for ev (setTypeNextObject ev) (\<lambda>out ele. Some (out @ [EObj ele])) d []; Some (st', SMulti (card ?S) out) }
    | Some dk \<Rightarrow> store_result (if op = REDIS_OP_UNION then ''sunionstore'' else ''sdiffstore'') st' dk d)"
    unfolding sunionDiffGenericCommand_def l(1) option.case w(1) Option.bind.simps prod.case nat_int ..
  show ?thesis unfolding spec
  proof (cases dst)
    case None
    obtain out where out: "set_for ev (setTypeNextObject ev) (\<lambda>out ele. Some (out @ [EObj ele])) d [] = Some (d, out)" "reply_ok (SMulti (card ?S) out) (AMulti ?S)"
      using send_set [OF w(2)] by blast
    have "sunionDiffGenericCommand ev qs st ks dst op = Some (st', SMulti (card ?S) out)" using cmd None out(1) by simp
    from step_quiet [OF this w(3) _ _ out(2)] show "step_ok ev st m (sunionDiffGenericCommand ev qs st ks dst op) (result m dst ?S)"
      using w(4) None by (simp add: result_def same_log_def)
  next
    case (Some dk)
    show "step_ok ev st m (sunionDiffGenericCommand ev qs st ks dst op) (result m dst ?S)"
      using store_result_ok [OF w(3,4,2), of _ dk] cmd Some by (simp add: result_def)
  qed
qed

section \<open>The interface of the set commands\<close>

text \<open>
  What a client of the key space of sets relies on: every command that its arity and the sizes
  admit returns, with the reply that the sets of strings determine, and leaves the sets that
  the specification says.  \<open>run_sops\<close> performs a sequence of commands.
\<close>

fun run_sops :: "('s \<Rightarrow> sop \<Rightarrow> ('s \<times> sreply) option) \<Rightarrow> 's \<Rightarrow> sop list \<Rightarrow> ('s \<times> sreply list) option" where
  "run_sops f s [] = Some (s, [])"
| "run_sops f s (c # cs) = do { (s, r) \<leftarrow> f s c; (s, rs) \<leftarrow> run_sops f s cs; Some (s, r # rs) }"

fun spec_sops :: "(bytes \<Rightarrow> aval option) \<Rightarrow> sop list \<Rightarrow> (bytes \<Rightarrow> aval option) \<times> areply list" where
  "spec_sops m [] = (m, [])"
| "spec_sops m (c # cs) = (let (m, a) = spec_sop m c; (m, as) = spec_sops m cs in (m, a # as))"

fun sops_ok :: "(bytes \<Rightarrow> aval option) \<Rightarrow> sop list \<Rightarrow> bool" where
  "sops_ok m [] \<longleftrightarrow> True"
| "sops_ok m (c # cs) \<longleftrightarrow> sop_ok m c \<and> sops_ok (fst (spec_sop m c)) cs"

locale string_sets =
  fixes perform :: "'s \<Rightarrow> sop \<Rightarrow> ('s \<times> sreply) option"
    and rep :: "'s \<Rightarrow> (bytes \<Rightarrow> aval option) \<Rightarrow> bool"
  assumes perform_rep: "rep s m \<Longrightarrow> sop_ok m c \<Longrightarrow>
    \<exists>s' r. perform s c = Some (s', r) \<and> rep s' (fst (spec_sop m c)) \<and> reply_ok r (snd (spec_sop m c))"
begin

lemma run_refines:
  "rep s m \<Longrightarrow> sops_ok m cs \<Longrightarrow>
    \<exists>s' rs. run_sops perform s cs = Some (s', rs) \<and> rep s' (fst (spec_sops m cs)) \<and> list_all2 reply_ok rs (snd (spec_sops m cs))"
proof (induction cs arbitrary: s m)
  case (Cons c cs)
  obtain s1 r where s1: "perform s c = Some (s1, r)" "rep s1 (fst (spec_sop m c))" "reply_ok r (snd (spec_sop m c))"
    using perform_rep [OF Cons.prems(1), of c] Cons.prems(2) by auto
  obtain s' rs where "run_sops perform s1 cs = Some (s', rs)" "rep s' (fst (spec_sops (fst (spec_sop m c)) cs))"
      "list_all2 reply_ok rs (snd (spec_sops (fst (spec_sop m c)) cs))" using Cons.IH [OF s1(2)] Cons.prems(2) by auto
  then show ?case using s1 by (auto split: prod.splits)
qed simp

end

definition sperform ::
  "senv \<Rightarrow> (nat \<Rightarrow> nat) \<Rightarrow> ((bytes \<Rightarrow> bytes \<Rightarrow> int) \<Rightarrow> bytes list \<Rightarrow> bytes list) \<Rightarrow>
   ((bytes option \<Rightarrow> bytes option \<Rightarrow> int) \<Rightarrow> bytes option list \<Rightarrow> bytes option list) \<Rightarrow> sdb \<Rightarrow> sop \<Rightarrow> (sdb \<times> sreply) option" where
  "sperform ev rc qs qs' st c =
     (case c of
        SAdd k vs \<Rightarrow> saddCommand ev rc st k vs
      | SRem k vs \<Rightarrow> sremCommand ev st k vs
      | SMove s d v \<Rightarrow> smoveCommand ev (rc 3) st s d v
      | SIsMember k v \<Rightarrow> sismemberCommand ev (rc 2) st k v
      | SCard k \<Rightarrow> scardCommand st k
      | SInter ks None \<Rightarrow> sinterCommand ev qs st ks
      | SInter ks (Some dk) \<Rightarrow> sinterstoreCommand ev qs st dk ks
      | SUnion ks None \<Rightarrow> sunionCommand ev qs' st ks
      | SUnion ks (Some dk) \<Rightarrow> sunionstoreCommand ev qs' st dk ks
      | SDiff ks None \<Rightarrow> sdiffCommand ev qs' st ks
      | SDiff ks (Some dk) \<Rightarrow> sdiffstoreCommand ev qs' st dk ks)"

lemma sperform_ok:
  assumes "senv_ok ev" "qsort_ok qs" "qsort_ok qs'" "st_rep ev st m" "sop_ok m c"
  shows "step_ok ev st m (sperform ev rc qs qs' st c) (spec_sop m c)"
proof (cases c)
  case (SInter ks dst)
  then have "sperform ev rc qs qs' st c = sinterGenericCommand ev qs st ks dst"
    by (cases dst) (simp_all add: sperform_def sinterCommand_def sinterstoreCommand_def)
  then show ?thesis using sinter_ok [OF assms(1,2,4), of ks dst] assms(5) SInter by simp
next
  case (SUnion ks dst)
  then have "sperform ev rc qs qs' st c = sunionDiffGenericCommand ev qs' st ks dst REDIS_OP_UNION"
    by (cases dst) (simp_all add: sperform_def sunionCommand_def sunionstoreCommand_def)
  then show ?thesis using sunionDiff_ok [OF assms(1,3,4), of ks dst REDIS_OP_UNION] assms(5) SUnion by simp
next
  case (SDiff ks dst)
  then have "sperform ev rc qs qs' st c = sunionDiffGenericCommand ev qs' st ks dst REDIS_OP_DIFF"
    by (cases dst) (simp_all add: sperform_def sdiffCommand_def sdiffstoreCommand_def)
  then show ?thesis using sunionDiff_ok [OF assms(1,3,4), of ks dst REDIS_OP_DIFF] assms(5) SDiff by simp
qed (use assms sadd_ok srem_ok smove_ok sismember_ok in \<open>simp_all add: sperform_def del: spec_sop.simps sop_ok.simps\<close>)

interpretation sets: string_sets "sperform ev rc qs qs'" "\<lambda>st m. senv_ok ev \<and> qsort_ok qs \<and> qsort_ok qs' \<and> st_rep ev st m"
  for ev rc qs qs'
proof unfold_locales
  fix st m c
  assume r: "senv_ok ev \<and> qsort_ok qs \<and> qsort_ok qs' \<and> st_rep ev st m" and ok: "sop_ok m c"
  then have "step_ok ev st m (sperform ev rc qs qs' st c) (spec_sop m c)" by (intro sperform_ok) auto
  then show "\<exists>st' a. sperform ev rc qs qs' st c = Some (st', a) \<and>
      (senv_ok ev \<and> qsort_ok qs \<and> qsort_ok qs' \<and> st_rep ev st' (fst (spec_sop m c))) \<and> reply_ok a (snd (spec_sop m c))"
    using r by (auto simp: step_ok_def)
qed

section \<open>Properties\<close>

lemma empty_keys: "sd_keys st = Map.empty \<Longrightarrow> st_rep ev st Map.empty"
  by (simp add: keys_rep_def)

text \<open>
  C1. A sequence of \<open>SADD\<close>, \<open>SREM\<close>, \<open>SMOVE\<close>, \<open>SISMEMBER\<close>, \<open>SCARD\<close>, \<open>SINTER\<close>, \<open>SUNION\<close>, \<open>SDIFF\<close> and
  the forms that store their result, from an empty key space, returns the replies and leaves
  the key space that plain sets of strings have: with any mixture of intsets and hash tables,
  conversions between them at the configured limit, integer and raw encodings of the members,
  rehashing in progress, and any order in which \<open>qsort\<close> leaves the sets.  No assertion fails,
  the iterators' fingerprints included, and the announced length of a multi bulk reply is its length.
\<close>

theorem set_commands_refine_sets:
  assumes "senv_ok ev" "qsort_ok qs" "qsort_ok qs'" "sd_keys st = Map.empty" "sops_ok Map.empty cs"
  shows "\<exists>st' rs. run_sops (sperform ev rc qs qs') st cs = Some (st', rs) \<and>
    st_rep ev st' (fst (spec_sops Map.empty cs)) \<and> list_all2 reply_ok rs (snd (spec_sops Map.empty cs))"
  using sets.run_refines [of ev qs qs' st Map.empty cs rc] assms empty_keys [of st ev] by blast

abbreviation demo_env :: senv where
  "demo_env \<equiv> \<lparr>se_seed = 5381, se_cr = True, se_jk = (\<lambda>_. 0), se_max = 2, se_adr = (0, 0)\<rparr>"

abbreviation demo_ops :: "sop list" where
  "demo_ops \<equiv> [SAdd [97] [ORaw [49], ORaw [50], ORaw [51]], SAdd [98] [ORaw [50], ORaw [120]], SDiff [[97], [98]] None, SInter [[97], [98]] (Some [99]), SCard [99]]"

theorem set_commands_refine_sets_witness:
  "\<exists>st' rs. run_sops (sperform demo_env (\<lambda>_. 1) (\<lambda>c xs. xs) (\<lambda>c xs. xs)) \<lparr>sd_keys = Map.empty, sd_dirty = 0, sd_touched = [], sd_events = []\<rparr> demo_ops = Some (st', rs) \<and>
    st_rep demo_env st' (fst (spec_sops Map.empty demo_ops)) \<and> list_all2 reply_ok rs (snd (spec_sops Map.empty demo_ops))"
proof (rule set_commands_refine_sets)
  show "senv_ok demo_env" by (simp add: senv_ok_def INTSET_CAP_def)
  show "qsort_ok (\<lambda>c xs. xs)" "qsort_ok (\<lambda>c xs. xs)" by (simp_all add: qsort_ok_def)
  show "sops_ok Map.empty demo_ops" by (simp add: DICT_CAP_def aset_def aput_def result_def)
qed simp

text \<open>
  C12. A set command that changes the value of a key has given that key to \<open>signalModifiedKey\<close>, so
  that a transaction that watches it fails, and has increased \<open>server.dirty\<close>, so that the command
  is sent to the slaves and the append only file; it never gives up earlier signals.
\<close>

theorem set_changes_signalled:
  assumes "senv_ok ev" "qsort_ok qs" "qsort_ok qs'" "st_rep ev st m" "sop_ok m c"
  shows "\<exists>st' r m' t. sperform ev rc qs qs' st c = Some (st', r) \<and> st_rep ev st' m' \<and>
    sd_touched st' = sd_touched st @ t \<and> {k. m' k \<noteq> m k} \<subseteq> set t \<and> (m' \<noteq> m \<longrightarrow> sd_dirty st < sd_dirty st')"
  using sperform_ok [OF assms, of rc] unfolding step_ok_def signals_def by blast

theorem set_changes_signalled_witness:
  "\<exists>st' r m' t. sperform demo_env (\<lambda>_. 1) (\<lambda>c xs. xs) (\<lambda>c xs. xs) \<lparr>sd_keys = Map.empty, sd_dirty = 0, sd_touched = [], sd_events = []\<rparr>
      (SAdd [97] [ORaw [49]]) = Some (st', r) \<and> st_rep demo_env st' m' \<and>
    sd_touched st' = t \<and> {k. m' k \<noteq> None} \<subseteq> set t \<and> (m' \<noteq> Map.empty \<longrightarrow> 0 < sd_dirty st')"
proof -
  let ?st = "\<lparr>sd_keys = Map.empty, sd_dirty = 0, sd_touched = [], sd_events = []\<rparr> :: sdb"
  have "senv_ok demo_env" by (simp add: senv_ok_def INTSET_CAP_def)
  moreover have "qsort_ok (\<lambda>c xs. xs)" "qsort_ok (\<lambda>c xs. xs)" by (simp_all add: qsort_ok_def)
  moreover have "sop_ok Map.empty (SAdd [97] [ORaw [49]])" by (simp add: DICT_CAP_def aset_def)
  ultimately show ?thesis using set_changes_signalled [of demo_env _ _ ?st Map.empty _ "\<lambda>_. 1"] empty_keys [of ?st demo_env] by fastforce
qed

abbreviation demo_store :: sdb where
  "demo_store \<equiv> \<lparr>sd_keys = [[97] \<mapsto> SetVal (IntSet \<lparr>is_encoding = 2, is_length = 1, is_contents = [1, 0]\<rparr>)], sd_dirty = 0, sd_touched = [], sd_events = []\<rparr>"

lemma demo_intset: "set_rep demo_env (IntSet \<lparr>is_encoding = 2, is_length = 1, is_contents = [1, 0]\<rparr>) {[49]}"
proof -
  have "intset_rep \<lparr>is_encoding = 2, is_length = 1, is_contents = [1, 0]\<rparr> [1]" by (simp add: intset_rep_def INTSET_CAP_def) code_simp
  moreover have "ll_decimal ` set [1] = {[49]}" by code_simp
  ultimately show ?thesis unfolding int_rep by (intro exI [of _ "[1]"]) simp
qed

text \<open>
  C13. The two algorithms of \<open>SDIFF\<close> compute the same: testing every member of the first set
  against the others, in any order and stopping at the first that has it, and taking the members of the
  others out of a copy of the first, stopping when it is empty, end with the same set of strings
  and the same count.
\<close>

theorem sdiff_algorithms_agree:
  assumes "senv_ok ev" "st_rep ev st m" "m k0 = Some (ASet T)" "card T \<le> DICT_CAP" "osets_ok m others" "mset others' = mset others"
  shows "\<exists>st1 d1 st2 d2 n S. for_key ev (diff_body ev k0 others') k0 (st, createIntsetObject, 0) = Some (st1, d1, n) \<and>
    diff_loop ev True (Some k0 # others) (st, createIntsetObject, 0) = Some (st2, d2, n) \<and>
    set_rep ev d1 S \<and> set_rep ev d2 S \<and> st_rep ev st1 m \<and> st_rep ev st2 m"
proof -
  have ss: "set others' = set others" by (rule mset_eq_setD [OF assms(6)])
  have "osets_ok m others'" using assms(5) ss by (simp add: osets_ok_def)
  from diff_first [OF assms(1-3) this assms(4), unfolded ss] diff_second [OF assms(1-3,5,4)] assms(2)
  show ?thesis by blast
qed

theorem sdiff_algorithms_agree_witness:
  "\<exists>st1 d1 st2 d2 n S. for_key demo_env (diff_body demo_env [97] [None]) [97] (demo_store, createIntsetObject, 0) = Some (st1, d1, n) \<and>
    diff_loop demo_env True [Some [97], None] (demo_store, createIntsetObject, 0) = Some (st2, d2, n) \<and>
    set_rep demo_env d1 S \<and> set_rep demo_env d2 S \<and> st_rep demo_env st1 [[97] \<mapsto> ASet {[49]}] \<and> st_rep demo_env st2 [[97] \<mapsto> ASet {[49]}]"
proof (rule sdiff_algorithms_agree [where T = "{[49]}"])
  show "senv_ok demo_env" by (simp add: senv_ok_def INTSET_CAP_def)
  show "st_rep demo_env demo_store [[97] \<mapsto> ASet {[49]}]" using demo_intset by (simp add: keys_rep_def)
qed (simp_all add: DICT_CAP_def)

end
