(* ===== verification/TsetRand.thy ===== *)
theory TsetRand
  imports TsetAlg
begin

text \<open>
  Random members of a set: \<open>SPOP\<close> and \<open>SRANDMEMBER\<close>, from \<open>t_set.c\<close>.  The results of \<open>random()\<close>
  are the list \<open>rs\<close>; a loop that draws until it has found enough returns \<open>None\<close> when they are used
  up, so a statement about what it returns is about the draws that let it end.
\<close>

section \<open>SRANDMEMBER\<close>

definition srandmemberCommand :: "senv \<Rightarrow> nat list \<Rightarrow> sdb \<Rightarrow> bytes \<Rightarrow> (sdb \<times> sreply) option" where
  "srandmemberCommand ev rs st key =
     with_set st key SNull (\<lambda>so. do { (so, e, rs) \<leftarrow> setTypeRandomElement ev rs so; Some (put_set st key so, SBulk e) })"

text \<open>\<open>while (count--)\<close> of a negative count.\<close>

fun rand_many :: "senv \<Rightarrow> nat \<Rightarrow> nat list \<Rightarrow> setobj \<Rightarrow> selem list \<Rightarrow> (setobj \<times> selem list) option" where
  "rand_many ev 0 rs so out = Some (so, out)"
| "rand_many ev (Suc cnt) rs so out =
     do { (so, e, rs) \<leftarrow> setTypeRandomElement ev rs so; rand_many ev cnt rs so (out @ [e]) }"

text \<open>A new object with the value of a member.\<close>

definition copy_elem :: "selem \<Rightarrow> robj option" where
  "copy_elem e =
     (case e of
        EInt v \<Rightarrow> Some (createStringObjectFromLongLong v)
      | EObj (ORaw s) \<Rightarrow> dupStringObject (ORaw s)
      | EObj (OInt w) \<Rightarrow> Some (createStringObjectFromLongLong (sint w)))"

definition copy_add :: "senv \<Rightarrow> (robj, unit) dict \<Rightarrow> selem \<Rightarrow> ((robj, unit) dict \<times> bool) option" where
  "copy_add ev d e =
     do {
       ob \<leftarrow> copy_elem e;
       (d, r) \<leftarrow> dictAdd (setDictType (se_seed ev)) (se_cr ev) () d ob ();
       Some (d, r = DICT_OK)
     }"

text \<open>The third case: all members are added, then random ones removed.\<close>

definition copy_all :: "senv \<Rightarrow> setobj \<Rightarrow> (setobj \<times> (robj, unit) dict) option" where
  "copy_all ev so =
     set_for ev (setTypeNext ev) (\<lambda>d e. do { (d, added) \<leftarrow> copy_add ev d e; if added then Some d else None }) so dictCreate"

fun remove_random :: "senv \<Rightarrow> nat \<Rightarrow> nat list \<Rightarrow> (robj, unit) dict \<Rightarrow> (robj, unit) dict option" where
  "remove_random ev 0 rs d = Some d"
| "remove_random ev (Suc n) rs d =
     do {
       (d, de, rs) \<leftarrow> dictGetRandomKey (setDictType (se_seed ev)) d rs;
       de \<leftarrow> de;
       (d, r, fr) \<leftarrow> dictDelete (setDictType (se_seed ev)) d (fst de);
       remove_random ev n rs d
     }"

text \<open>The fourth case: random members are drawn until enough different ones have been seen.\<close>

partial_function (option) draw_unique ::
  "senv \<Rightarrow> nat \<Rightarrow> nat \<Rightarrow> nat list \<Rightarrow> setobj \<Rightarrow> (robj, unit) dict \<Rightarrow> (setobj \<times> (robj, unit) dict) option" where
  "draw_unique ev cnt added rs so d =
     (if added < cnt then
        do {
          (so, e, rs) \<leftarrow> setTypeRandomElement ev rs so;
          (d, new) \<leftarrow> copy_add ev d e;
          draw_unique ev cnt (if new then added + 1 else added) rs so d
        }
      else Some (so, d))"

text \<open>The choice between the two.\<close>

definition sample :: "senv \<Rightarrow> nat list \<Rightarrow> nat \<Rightarrow> setobj \<Rightarrow> (setobj \<times> (robj, unit) dict) option" where
  "sample ev rs cnt so =
     (let size = setTypeSize so in
      if cnt * 3 > size then
        do {
          (so, d) \<leftarrow> copy_all ev so;
          if dictSize d = size then do { d \<leftarrow> remove_random ev (size - cnt) rs d; Some (so, d) } else None
        }
      else draw_unique ev cnt 0 rs so dictCreate)"

text \<open>\<open>l\<close> is the parsed count; \<open>count = (unsigned) l\<close> keeps 32 bits of it.\<close>

definition srandmemberWithCountCommand ::
  "senv \<Rightarrow> ((bytes option \<Rightarrow> bytes option \<Rightarrow> int) \<Rightarrow> bytes option list \<Rightarrow> bytes option list) \<Rightarrow> nat list \<Rightarrow> sdb \<Rightarrow> bytes \<Rightarrow> int \<Rightarrow>
     (sdb \<times> sreply) option" where
  "srandmemberWithCountCommand ev qs rs st key l =
     (let (cnt, unq) = (if l \<ge> 0 then (u32 (nat l), True) else (u64 (nat (- l)), False)) in
      with_set st key SEmpty (\<lambda>so.
        let size = setTypeSize so in
        if cnt = 0 then Some (st, SEmpty)
        else if \<not> unq then
          do { (so, out) \<leftarrow> rand_many ev cnt rs so []; Some (put_set st key so, SMulti cnt out) }
        else if cnt \<ge> size then sunionDiffGenericCommand ev qs st [key] None REDIS_OP_UNION
        else do {
          (so, d) \<leftarrow> sample ev rs cnt so;
          (dso, out) \<leftarrow> set_for ev (setTypeNext ev) (\<lambda>out e. Some (out @ [e])) (HtSet d) [];
          Some (put_set st key so, SMulti cnt out)
        }))"

section \<open>A random member is a member\<close>

lemma ht_random:
  assumes r: "set_rep ev (HtSet d) S" and g: "dictGetRandomKey (setDictType (se_seed ev)) d rs = Some (d', Some de, rs')"
  shows "set_rep ev (HtSet d') S \<and> str_of (fst de) \<in> S"
proof -
  let ?T = "setDictType (se_seed ev)"
  obtain d1 where d1: "(if dictIsRehashing d then dictRehashStep ?T d else Some d) = Some d1" "dict_rep ?T d1 (member_map S)"
    using dict_rep_step [OF r [unfolded ht_rep_map]] by blast
  have "d' = d1" using g d1(1) by (auto simp: dictGetRandomKey_def split: if_split_asm bind_split_asm list.split_asm)
  then have "set_rep ev (HtSet d') S" using d1(2) by (simp only: ht_rep_map)
  then show ?thesis using dictGetRandomKey_in [OF g] by (auto simp: ht_rep)
qed

lemma random_rep:
  assumes r: "set_rep ev so S" and g: "setTypeRandomElement ev rs so = Some (so', e, rs')"
  shows "set_rep ev so' S \<and> elem_str e \<in> S \<and> elem_ok e \<and> (\<forall>is. so' = IntSet is \<longrightarrow> (\<exists>v. e = EInt v)) \<and> (\<forall>d. so' = HtSet d \<longrightarrow> (\<exists>ob. e = EObj ob))"
proof (cases so)
  case (HtSet d)
  then show ?thesis using g r ht_random [of ev d S rs]
    by (auto simp: setTypeRandomElement_def elem_str_def elem_ok_def split: bind_split_asm)
next
  case (IntSet "is")
  obtain r0 v where v: "rs = r0 # rs'" "intsetRandom r0 is = Some v" "so' = so" "e = EInt v"
    using g IntSet by (auto simp: setTypeRandomElement_def split: list.splits bind_split_asm)
  obtain xs where xs: "intset_rep is xs" "S = ll_decimal ` set xs" using r IntSet by (auto simp: int_rep)
  have l: "is_length is = length xs" using intset_rep_sizes(2) [OF xs(1)] .
  have "xs \<noteq> []" using v(2) l by (auto simp: intsetRandom_def)
  then have i: "r0 mod length xs < length xs" by simp
  have "v = xs ! (r0 mod length xs)" using v(2) l intsetGet_pos_rep [OF xs(1) i] by (auto simp: intsetRandom_def split: if_splits)
  then have "v \<in> set xs" using i by simp
  then show ?thesis using v(3,4) r IntSet xs intset_in_sint [OF xs(1)] by (auto simp: elem_str_def elem_ok_def)
qed

text \<open>Some draws give any member one asks for.\<close>

lemma can_draw:
  assumes r: "set_rep ev so S" and x: "x \<in> S"
  shows "\<exists>rs0 so' e. (\<forall>rs. setTypeRandomElement ev (rs0 @ rs) so = Some (so', e, rs)) \<and> elem_str e = x"
proof (cases so)
  case (HtSet d)
  then obtain en where en: "dict_inv (setDictType (se_seed ev)) d" "en \<in> set (entries d)" "str_of (fst en) = x" using r x by (auto simp: ht_rep)
  have "dictSize d \<noteq> 0" using en(1,2) dictSize_entries [OF en(1)] by auto
  from dictGetRandomKey_reaches [OF en(1,2) this] obtain q j d' where
    g: "\<And>rs. dictGetRandomKey (setDictType (se_seed ev)) d (q # j # rs) = Some (d', Some en, rs)" by blast
  have "setTypeRandomElement ev ([q, j] @ rs) so = Some (HtSet d', EObj (fst en), rs)" for rs using g HtSet by (simp add: setTypeRandomElement_def)
  then show ?thesis using en(3) by (intro exI [of _ "[q, j]"] exI [of _ "HtSet d'"] exI [of _ "EObj (fst en)"]) (simp add: elem_str_def)
next
  case (IntSet "is")
  then obtain xs where xs: "intset_rep is xs" "S = ll_decimal ` set xs" using r by (auto simp: int_rep)
  then obtain i where i: "i < length xs" "ll_decimal (xs ! i) = x" using x by (auto simp: in_set_conv_nth)
  have "setTypeRandomElement ev ([i] @ rs) so = Some (so, EInt (xs ! i), rs)" for rs
    using IntSet i(1) intset_rep_sizes(2) [OF xs(1)] intsetGet_pos_rep [OF xs(1) i(1)] by (auto simp: setTypeRandomElement_def intsetRandom_def)
  then show ?thesis using i(2) by (intro exI [of _ "[i]"] exI [of _ so] exI [of _ "EInt (xs ! i)"]) (simp add: elem_str_def)
qed

text \<open>\<open>SPOP\<close> removes what it has drawn.\<close>

lemma spop_remove:
  assumes r: "set_rep ev so S" and g: "setTypeRandomElement ev rs so = Some (so1, e, rs')"
  shows "\<exists>so2. (case (so1, e) of
                    (IntSet is, EInt llele) \<Rightarrow> map_option (\<lambda>p. IntSet (fst p)) (intsetRemove (se_jk ev) is llele)
                  | (HtSet d, EObj ele) \<Rightarrow> map_option fst (setTypeRemove ev so1 ele)
                  | _ \<Rightarrow> None) = Some so2 \<and> set_rep ev so2 (S - {elem_str e})"
proof -
  note m = random_rep [OF r g]
  have r1: "set_rep ev so1 S" using m by blast
  show ?thesis
  proof (cases so1)
    case (HtSet d)
    then obtain ob where ob: "e = EObj ob" using m by blast
    then show ?thesis using HtSet setTypeRemove_rep [OF r1, of ob] by (auto simp: elem_str_def)
  next
    case (IntSet "is")
    then obtain v where v: "e = EInt v" using m by blast
    then have "isObjectRepresentableAsLongLong (createStringObjectFromLongLong v) = Some v" "str_of (createStringObjectFromLongLong v) = elem_str e"
      using m str_of_from_ll [of v] representable by (auto simp: elem_ok_def elem_str_def)
    then show ?thesis using IntSet v setTypeRemove_rep [OF r1, of "createStringObjectFromLongLong v"]
      by (auto simp: setTypeRemove_def split: bind_split_asm)
  qed
qed

text \<open>A negative count asks for members with repetition.\<close>

lemma rand_many_rep:
  "set_rep ev so S \<Longrightarrow> rand_many ev n rs so out = Some (so', out') \<Longrightarrow>
    set_rep ev so' S \<and> (\<exists>es. out' = out @ es \<and> length es = n \<and> elem_str ` set es \<subseteq> S)"
proof (induction n arbitrary: rs so out)
  case (Suc n)
  obtain so1 e rs1 where e: "setTypeRandomElement ev rs so = Some (so1, e, rs1)" "rand_many ev n rs1 so1 (out @ [e]) = Some (so', out')"
    using Suc.prems(2) by (auto split: bind_split_asm)
  have m: "set_rep ev so1 S" "elem_str e \<in> S" using random_rep [OF Suc.prems(1) e(1)] by auto
  obtain es where "set_rep ev so' S" "out' = (out @ [e]) @ es" "length es = n" "elem_str ` set es \<subseteq> S" using Suc.IH [OF m(1) e(2)] by blast
  then show ?case using m(2) by (intro conjI exI [of _ "e # es"]) simp_all
qed simp

section \<open>Copies\<close>

lemma set_card_cap: "set_rep ev so S \<Longrightarrow> card S \<le> DICT_CAP"
proof -
  assume r: "set_rep ev so S"
  have "setTypeSize so \<le> DICT_CAP"
  proof (cases so)
    case (HtSet d)
    then have inv: "dict_inv (setDictType (se_seed ev)) d" using r by (simp add: ht_rep)
    then have "length (entries d) \<le> DICT_CAP" by (simp add: dict_inv_def)
    then show ?thesis using HtSet dictSize_entries [OF inv] by (simp add: setTypeSize_def)
  next
    case (IntSet "is")
    then obtain xs where "intset_rep is xs" using r by (auto simp: int_rep)
    then show ?thesis using IntSet by (auto simp: setTypeSize_def intsetLen_def intset_rep_def INTSET_CAP_def DICT_CAP_def)
  qed
  then show ?thesis using set_size(1) [OF r] by simp
qed

lemma copy_elem_str: "elem_ok e \<Longrightarrow> \<exists>ob. copy_elem e = Some ob \<and> str_of ob = elem_str e"
  using str_of_from_ll sint_range
  by (auto simp: copy_elem_def elem_ok_def elem_str_def dupStringObject_def createStringObject_def split: selem.splits robj.splits)

lemma copy_add_rep:
  assumes "elem_ok e" "set_rep ev (HtSet d) D" "card D < DICT_CAP"
  shows "\<exists>d'. copy_add ev d e = Some (d', elem_str e \<notin> D) \<and> set_rep ev (HtSet d') (insert (elem_str e) D)"
proof -
  obtain ob where ob: "copy_elem e = Some ob" "str_of ob = elem_str e" using copy_elem_str [OF assms(1)] by blast
  then show ?thesis using ht_add [OF assms(2,3), of "se_cr ev" ob] by (auto simp: copy_add_def)
qed

lemma empty_dict_rep: "set_rep ev (HtSet dictCreate) {}"
  using dictCreate_rep [of "setDictType (se_seed ev)"] by (simp add: ht_rep_map)

lemma copy_fold:
  assumes "\<forall>e\<in>set es. elem_ok e" "distinct (map elem_str es)" "set_rep ev (HtSet d) D" "D \<inter> set (map elem_str es) = {}" "card D + length es \<le> DICT_CAP"
  shows "\<exists>d'. ofold (\<lambda>d e. do { (d, added) \<leftarrow> copy_add ev d e; if added then Some d else None }) d es = Some d' \<and>
    set_rep ev (HtSet d') (D \<union> set (map elem_str es))"
  using assms
proof (induction es arbitrary: d D)
  case (Cons e es)
  have new: "elem_str e \<notin> D" using Cons.prems(4) by auto
  obtain d1 where d1: "copy_add ev d e = Some (d1, True)" "set_rep ev (HtSet d1) (insert (elem_str e) D)"
    using copy_add_rep [of e ev d D] Cons.prems(1,3,5) new by auto
  have "insert (elem_str e) D \<inter> set (map elem_str es) = {}" using Cons.prems(2,4) by auto
  moreover have "card (insert (elem_str e) D) + length es \<le> DICT_CAP" using Cons.prems(5) set_size(2) [OF Cons.prems(3)] new by simp
  ultimately show ?case using Cons.IH [OF _ _ d1(2)] Cons.prems(1,2) d1(1) by auto
qed simp

lemma copy_all_rep:
  assumes "set_rep ev so S"
  shows "\<exists>d. copy_all ev so = Some (so, d) \<and> set_rep ev (HtSet d) S"
proof -
  obtain xs where xs: "set_ok ev so xs" "set (map elem_str (set_elems so xs)) = S" "distinct (map elem_str (set_elems so xs))"
      "length (set_elems so xs) = card S" "\<forall>e\<in>set (set_elems so xs). elem_ok e" using set_objE [OF assms] by blast
  have "card {} + length (set_elems so xs) \<le> DICT_CAP" using xs(4) set_card_cap [OF assms] by simp
  from copy_fold [OF xs(5,3) empty_dict_rep _ this] obtain d where
    "ofold (\<lambda>d e. do { (d, added) \<leftarrow> copy_add ev d e; if added then Some d else None }) dictCreate (set_elems so xs) = Some d"
    "set_rep ev (HtSet d) S" using xs(2) by auto
  then show ?thesis unfolding copy_all_def set_for_next [OF xs(1)] by auto
qed

lemma remove_random_rep:
  "set_rep ev (HtSet d) D \<Longrightarrow> n \<le> card D \<Longrightarrow> remove_random ev n rs d = Some d' \<Longrightarrow>
    \<exists>D'. D' \<subseteq> D \<and> card D' = card D - n \<and> set_rep ev (HtSet d') D'"
proof (induction n arbitrary: rs d D)
  case (Suc n)
  obtain d1 de rs1 d2 r fr where s: "dictGetRandomKey (setDictType (se_seed ev)) d rs = Some (d1, Some de, rs1)"
      "dictDelete (setDictType (se_seed ev)) d1 (fst de) = Some (d2, r, fr)" "remove_random ev n rs1 d2 = Some d'"
    using Suc.prems(3) by (auto split: bind_split_asm)
  have m: "set_rep ev (HtSet d1) D" "str_of (fst de) \<in> D" using ht_random [OF Suc.prems(1) s(1)] by auto
  have d2: "set_rep ev (HtSet d2) (D - {str_of (fst de)})" using ht_delete [OF m(1), of "fst de"] s(2) by auto
  have c: "card (D - {str_of (fst de)}) = card D - 1" using m(2) set_size(2) [OF m(1)] by simp
  have "n \<le> card (D - {str_of (fst de)})" using c Suc.prems(2) by simp
  from Suc.IH [OF d2 this s(3)] obtain D' where "D' \<subseteq> D - {str_of (fst de)}" "card D' = card (D - {str_of (fst de)}) - n" "set_rep ev (HtSet d') D'" by blast
  then show ?case using c by (intro exI [of _ D']) auto
qed auto

text \<open>Draws that let the removal end exist.\<close>

lemma remove_random_returns: "set_rep ev (HtSet d) D \<Longrightarrow> n \<le> card D \<Longrightarrow> \<exists>rs d'. remove_random ev n rs d = Some d'"
proof (induction n arbitrary: d D)
  case (Suc n)
  have inv: "dict_inv (setDictType (se_seed ev)) d" using Suc.prems(1) by (simp add: ht_rep)
  have "entries d \<noteq> []" using ht_entries [OF Suc.prems(1)] Suc.prems(2) by auto
  then obtain de where de: "de \<in> set (entries d)" by (cases "entries d") auto
  have "dictSize d \<noteq> 0" using \<open>entries d \<noteq> []\<close> dictSize_entries [OF inv] by simp
  from dictGetRandomKey_reaches [OF inv de this] obtain r j d1 where
    g: "\<And>rs. dictGetRandomKey (setDictType (se_seed ev)) d (r # j # rs) = Some (d1, Some de, rs)" by blast
  have m: "set_rep ev (HtSet d1) D" "str_of (fst de) \<in> D" using ht_random [OF Suc.prems(1) g] by auto
  obtain d2 fr where d2: "dictDelete (setDictType (se_seed ev)) d1 (fst de) = Some (d2, DICT_OK, fr)" "set_rep ev (HtSet d2) (D - {str_of (fst de)})"
    using ht_delete [OF m(1), of "fst de"] m(2) by auto
  have "n \<le> card (D - {str_of (fst de)})" using Suc.prems(2) m(2) set_size(2) [OF m(1)] by simp
  from Suc.IH [OF d2(2) this] obtain rs d' where "remove_random ev n rs d2 = Some d'" by blast
  then have "remove_random ev (Suc n) (r # j # rs) d = Some d'" using g d2(1) by simp
  then show ?case by blast
qed simp

section \<open>Drawing different members\<close>

lemma draw_unique_rep:
  assumes "draw_unique ev cnt added rs so d = Some res"
  shows "set_rep ev so S \<Longrightarrow> set_rep ev (HtSet d) D \<Longrightarrow> D \<subseteq> S \<Longrightarrow> card D = added \<Longrightarrow> added \<le> cnt \<Longrightarrow> cnt \<le> DICT_CAP \<Longrightarrow>
    \<exists>so' d' D'. res = (so', d') \<and> set_rep ev so' S \<and> set_rep ev (HtSet d') D' \<and> D' \<subseteq> S \<and> card D' = cnt"
proof -
  have "\<forall>D. set_rep ev so S \<and> set_rep ev (HtSet d) D \<and> D \<subseteq> S \<and> card D = added \<and> added \<le> cnt \<and> cnt \<le> DICT_CAP \<longrightarrow>
    (\<exists>so' d' D'. res = (so', d') \<and> set_rep ev so' S \<and> set_rep ev (HtSet d') D' \<and> D' \<subseteq> S \<and> card D' = cnt)"
  proof (rule draw_unique.raw_induct [OF _ assms], intro allI impI)
    fix self ev cnt added rs so d res D
    assume ih: "\<And>ev cnt added rs so d res. self ev cnt added rs so d = Some res \<Longrightarrow>
        \<forall>D. set_rep ev so S \<and> set_rep ev (HtSet d) D \<and> D \<subseteq> S \<and> card D = added \<and> added \<le> cnt \<and> cnt \<le> DICT_CAP \<longrightarrow>
          (\<exists>so' d' D'. res = (so', d') \<and> set_rep ev so' S \<and> set_rep ev (HtSet d') D' \<and> D' \<subseteq> S \<and> card D' = cnt)"
      and b: "(if added < cnt then setTypeRandomElement ev rs so \<bind> (\<lambda>(so, e, rs). copy_add ev d e \<bind>
          (\<lambda>(d, new). self ev cnt (if new then added + 1 else added) rs so d)) else Some (so, d)) = Some res"
      and p: "set_rep ev so S \<and> set_rep ev (HtSet d) D \<and> D \<subseteq> S \<and> card D = added \<and> added \<le> cnt \<and> cnt \<le> DICT_CAP"
    show "\<exists>so' d' D'. res = (so', d') \<and> set_rep ev so' S \<and> set_rep ev (HtSet d') D' \<and> D' \<subseteq> S \<and> card D' = cnt"
    proof (cases "added < cnt")
      case False
      then show ?thesis using b p by auto
    next
      case True
      then obtain so1 e rs1 where e: "setTypeRandomElement ev rs so = Some (so1, e, rs1)"
          "copy_add ev d e \<bind> (\<lambda>(d, new). self ev cnt (if new then added + 1 else added) rs1 so1 d) = Some res" using b by (auto split: bind_split_asm)
      have m: "set_rep ev so1 S" "elem_str e \<in> S" "elem_ok e" using random_rep [OF _ e(1)] p by auto
      obtain d1 where d1: "copy_add ev d e = Some (d1, elem_str e \<notin> D)" "set_rep ev (HtSet d1) (insert (elem_str e) D)"
        using copy_add_rep [OF m(3), of ev d D] p True by auto
      have r: "self ev cnt (if elem_str e \<notin> D then added + 1 else added) rs1 so1 d1 = Some res" using e(2) d1(1) by simp
      have "card (insert (elem_str e) D) = (if elem_str e \<notin> D then added + 1 else added)"
        using p set_size(2) [of ev "HtSet d" D] by (simp add: card_insert_if)
      then show ?thesis using ih [OF r, rule_format, of "insert (elem_str e) D"] m d1(2) p True by auto
    qed
  qed
  then show "set_rep ev so S \<Longrightarrow> set_rep ev (HtSet d) D \<Longrightarrow> D \<subseteq> S \<Longrightarrow> card D = added \<Longrightarrow> added \<le> cnt \<Longrightarrow> cnt \<le> DICT_CAP \<Longrightarrow>
    \<exists>so' d' D'. res = (so', d') \<and> set_rep ev so' S \<and> set_rep ev (HtSet d') D' \<and> D' \<subseteq> S \<and> card D' = cnt" by blast
qed

lemma draw_unique_returns:
  assumes "cnt \<le> card S" "card S \<le> DICT_CAP"
  shows "set_rep ev so S \<Longrightarrow> set_rep ev (HtSet d) D \<Longrightarrow> D \<subseteq> S \<Longrightarrow> card D = added \<Longrightarrow> added \<le> cnt \<Longrightarrow>
    \<exists>rs res. draw_unique ev cnt added rs so d = Some res"
proof (induction "cnt - added" arbitrary: added so d D)
  case 0
  then show ?case by (auto simp: draw_unique.simps)
next
  case (Suc n)
  then have lt: "card D < card S" "added < cnt" using assms(1) by auto
  have "D \<noteq> S" using lt(1) by auto
  then obtain x where x: "x \<in> S" "x \<notin> D" using Suc.prems(3) by blast
  obtain rs0 so1 e where g: "\<And>rs. setTypeRandomElement ev (rs0 @ rs) so = Some (so1, e, rs)" "elem_str e = x"
    using can_draw [OF Suc.prems(1) x(1)] by blast
  have m: "set_rep ev so1 S" "elem_ok e" using random_rep [OF Suc.prems(1) g(1)] by auto
  obtain d1 where d1: "copy_add ev d e = Some (d1, True)" "set_rep ev (HtSet d1) (insert x D)"
    using copy_add_rep [OF m(2) Suc.prems(2)] lt(1) assms(2) x(2) g(2) by auto
  have "card (insert x D) = added + 1" using Suc.prems(4) x(2) set_size(2) [OF Suc.prems(2)] by simp
  moreover have "n = cnt - (added + 1)" "insert x D \<subseteq> S" "added + 1 \<le> cnt" using Suc.hyps(2) Suc.prems(3) x(1) lt(2) by auto
  ultimately obtain rs res where "draw_unique ev cnt (added + 1) rs so1 d1 = Some res"
    using Suc.hyps(1) [of "added + 1" so1 d1 "insert x D"] m(1) d1(2) by blast
  then have "draw_unique ev cnt added (rs0 @ rs) so d = Some res" using g(1) d1(1) lt(2) by (simp add: draw_unique.simps [of ev cnt added])
  then show ?case by blast
qed

section \<open>The command with a count\<close>

lemma send_dict:
  assumes "set_rep ev (HtSet d) D"
  shows "\<exists>out. set_for ev (setTypeNext ev) (\<lambda>out e. Some (out @ [e])) (HtSet d) [] = Some (HtSet d, out) \<and> reply_ok (SMulti (card D) out) (AMulti D)"
proof -
  obtain xs where xs: "set_ok ev (HtSet d) xs" "set (map elem_str (set_elems (HtSet d) xs)) = D" "distinct (map elem_str (set_elems (HtSet d) xs))"
      "length (set_elems (HtSet d) xs) = card D" using set_objE [OF assms] by blast
  have f: "ofold (\<lambda>out e. Some (out @ [e])) out es = Some (out @ es)" for out :: "selem list" and es by (induction es arbitrary: out) simp_all
  have "reply_ok (SMulti (card D) (set_elems (HtSet d) xs)) (AMulti D)"
    unfolding reply_ok_def areply.case using xs(2-4) by (intro disjI2 exI [of _ "set_elems (HtSet d) xs"]) simp
  then show ?thesis unfolding set_for_next [OF xs(1)] f by simp
qed

text \<open>Both ways to choose give as many different members as asked for, and can return.\<close>

lemma sample_rep:
  assumes r: "set_rep ev so S" and c: "cnt \<le> card S"
  shows "\<exists>rs res. sample ev rs cnt so = Some res"
    "sample ev rs cnt so = Some (so', d) \<Longrightarrow> set_rep ev so' S \<and> (\<exists>D\<subseteq>S. card D = cnt \<and> set_rep ev (HtSet d) D)"
proof -
  note sz = set_size(1) [OF r] and cap = set_card_cap [OF r]
  obtain dc where dc: "copy_all ev so = Some (so, dc)" "set_rep ev (HtSet dc) S" using copy_all_rep [OF r] by blast
  have ds: "dictSize dc = card S" using set_size(1) [OF dc(2)] by (simp add: setTypeSize_def)
  show "\<exists>rs res. sample ev rs cnt so = Some res"
  proof (cases "cnt * 3 > card S")
    case True
    have "card S - cnt \<le> card S" by simp
    from remove_random_returns [OF dc(2) this] obtain rs d' where "remove_random ev (card S - cnt) rs dc = Some d'" by blast
    then have "sample ev rs cnt so = Some (so, d')" using True dc(1) ds sz by (simp add: sample_def)
    then show ?thesis by blast
  next
    case False
    then show ?thesis using draw_unique_returns [OF c cap r empty_dict_rep] sz by (simp add: sample_def)
  qed
  show "set_rep ev so' S \<and> (\<exists>D\<subseteq>S. card D = cnt \<and> set_rep ev (HtSet d) D)" if s: "sample ev rs cnt so = Some (so', d)"
  proof (cases "cnt * 3 > card S")
    case True
    then have x: "so' = so" "remove_random ev (card S - cnt) rs dc = Some d" using s dc(1) ds sz by (auto simp: sample_def split: bind_split_asm)
    have "card S - cnt \<le> card S" by simp
    from remove_random_rep [OF dc(2) this x(2)] show ?thesis using r c x(1) by auto
  next
    case False
    then have "draw_unique ev cnt 0 rs so dictCreate = Some (so', d)" using s sz by (simp add: sample_def)
    from draw_unique_rep [OF this r empty_dict_rep] show ?thesis using c cap by auto
  qed
qed

lemma srandmember_unfold:
  assumes so: "sd_keys st key = Some (SetVal so)" and l: "0 \<le> l" "l < 2 ^ 32"
  shows "srandmemberWithCountCommand ev qs rs st key l =
     (if nat l = 0 then Some (st, SEmpty)
      else if setTypeSize so \<le> nat l then sunionDiffGenericCommand ev qs st [key] None REDIS_OP_UNION
      else do {
        (so, d) \<leftarrow> sample ev rs (nat l) so;
        (dso, out) \<leftarrow> set_for ev (setTypeNext ev) (\<lambda>out e. Some (out @ [e])) (HtSet d) [];
        Some (put_set st key so, SMulti (nat l) out)
      })"
proof -
  have "u32 (nat l) = nat l" using l by (simp add: nat_less_iff)
  then show ?thesis using so l(1) by (simp add: srandmemberWithCountCommand_def with_set_def Let_def)
qed

section \<open>Properties\<close>

text \<open>
  C15. \<open>SRANDMEMBER\<close> with a count below \<open>2\<^sup>3\<^sup>2\<close> replies with as many different members of the set
  as the count, or with the whole set when it has fewer, announces their number, and leaves
  the set as it is; for every state there are results of \<open>random()\<close> with which it returns, so
  the loop that looks for members it has not drawn yet is never without one.
\<close>

theorem srandmember_members:
  assumes "senv_ok ev" "qsort_ok qs" "st_rep ev st m" "m key = Some (ASet S)" "0 \<le> l" "l < 2 ^ 32"
  shows "(\<exists>rs res. srandmemberWithCountCommand ev qs rs st key l = Some res) \<and>
    (\<forall>rs st' r. srandmemberWithCountCommand ev qs rs st key l = Some (st', r) \<longrightarrow>
       st_rep ev st' m \<and> (\<exists>D\<subseteq>S. card D = min (nat l) (card S) \<and> reply_ok r (AMulti D)))"
proof -
  obtain so where so: "sd_keys st key = Some (SetVal so)" "set_rep ev so S" "aset m key = S" using keys_rep_get [OF assms(3,4)] by blast
  note cmd = srandmember_unfold [OF so(1) assms(5,6), of ev qs] and sz = set_size(1) [OF so(2)]
  consider "nat l = 0" | "nat l \<noteq> 0" "card S \<le> nat l" | "nat l \<noteq> 0" "nat l < card S" by linarith
  then show ?thesis
  proof cases
    case 1
    then show ?thesis using cmd assms(3) by (auto simp: reply_ok_def)
  next
    case 2
    have "sum_list (map (\<lambda>k. card (aset m k)) [key]) \<le> DICT_CAP" using set_card_cap [OF so(2)] so(3) by simp
    from sunionDiff_ok [OF assms(1-3) _ this, of None REDIS_OP_UNION] obtain st' r where
      "sunionDiffGenericCommand ev qs st [key] None REDIS_OP_UNION = Some (st', r)" "st_rep ev st' m" "reply_ok r (AMulti S)"
      using assms(4) so(3) by (auto simp: step_ok_def result_def)
    then show ?thesis using cmd 2 sz by (auto simp: min_def)
  next
    case 3
    then have c: "nat l \<le> card S" by simp
    have e: "srandmemberWithCountCommand ev qs rs st key l = (do {
        (so, d) \<leftarrow> sample ev rs (nat l) so;
        (dso, out) \<leftarrow> set_for ev (setTypeNext ev) (\<lambda>out e. Some (out @ [e])) (HtSet d) [];
        Some (put_set st key so, SMulti (nat l) out) })" for rs using cmd 3 sz by simp
    have ok: "\<exists>st' r. srandmemberWithCountCommand ev qs rs st key l = Some (st', r) \<and> st_rep ev st' m \<and>
        (\<exists>D\<subseteq>S. card D = min (nat l) (card S) \<and> reply_ok r (AMulti D))" if s: "sample ev rs (nat l) so = Some (so', d)" for rs so' d
    proof -
      obtain D where D: "set_rep ev so' S" "D \<subseteq> S" "card D = nat l" "set_rep ev (HtSet d) D" using sample_rep(2) [OF so(2) c s] by blast
      obtain out where "set_for ev (setTypeNext ev) (\<lambda>out e. Some (out @ [e])) (HtSet d) [] = Some (HtSet d, out)" "reply_ok (SMulti (nat l) out) (AMulti D)"
        using send_dict [OF D(4)] D(3) by auto
      then show ?thesis using e [of rs] s D put_same [OF assms(3,4) D(1)] c by (auto simp: min_def)
    qed
    obtain rs so' d where "sample ev rs (nat l) so = Some (so', d)" using sample_rep(1) [OF so(2) c] by fastforce
    moreover have "\<exists>so' d. sample ev rs (nat l) so = Some (so', d)" if "srandmemberWithCountCommand ev qs rs st key l = Some res" for rs res
      using that e [of rs] by (auto split: bind_split_asm)
    ultimately show ?thesis using ok by (metis (no_types, lifting) option.inject prod.inject)
  qed
qed

theorem srandmember_members_witness:
  "\<exists>rs st' r D. srandmemberWithCountCommand demo_env (\<lambda>c xs. xs) rs demo_store [97] 1 = Some (st', r) \<and>
     st_rep demo_env st' [[97] \<mapsto> ASet {[49]}] \<and> D \<subseteq> {[49]} \<and> card D = min (nat 1) (card {[49] :: bytes}) \<and> reply_ok r (AMulti D)"
proof -
  have "senv_ok demo_env" by (simp add: senv_ok_def INTSET_CAP_def)
  moreover have "qsort_ok (\<lambda>c xs. xs)" by (simp add: qsort_ok_def)
  moreover have "st_rep demo_env demo_store [[97] \<mapsto> ASet {[49]}]" using demo_intset by (simp add: keys_rep_def)
  moreover have "[[97] \<mapsto> ASet {[49]}] [97] = Some (ASet {[49]})" by simp
  ultimately have w: "(\<exists>rs res. srandmemberWithCountCommand demo_env (\<lambda>c xs. xs) rs demo_store [97] 1 = Some res) \<and>
    (\<forall>rs st' r. srandmemberWithCountCommand demo_env (\<lambda>c xs. xs) rs demo_store [97] 1 = Some (st', r) \<longrightarrow>
       st_rep demo_env st' [[97] \<mapsto> ASet {[49]}] \<and> (\<exists>D\<subseteq>{[49]}. card D = min (nat 1) (card {[49] :: bytes}) \<and> reply_ok r (AMulti D)))"
    by (rule srandmember_members) simp_all
  then obtain rs st' r where "srandmemberWithCountCommand demo_env (\<lambda>c xs. xs) rs demo_store [97] 1 = Some (st', r)" by fastforce
  then show ?thesis using w by blast
qed

text \<open>The count is cut to 32 bits: asking for \<open>2\<^sup>3\<^sup>2\<close> members gives none.\<close>

lemma srandmember_count_truncated:
  "sd_keys st key = Some (SetVal so) \<Longrightarrow> srandmemberWithCountCommand ev qs rs st key 4294967296 = Some (st, SEmpty)"
proof -
  assume so: "sd_keys st key = Some (SetVal so)"
  have "u32 (nat 4294967296) = 0" by (simp add: u32_def)
  then show ?thesis using so by (simp add: srandmemberWithCountCommand_def with_set_def)
qed

text \<open>
  C14. \<open>SPOP\<close> removes a member of the set and replies with it, and the \<open>SREM\<close> that is replicated in
  its place has the same effect on the sets; for every set that is not empty there are results
  of \<open>random()\<close> with which it returns.  The key is signalled and the command counted as a change.
\<close>

theorem spop_replicated_as_srem:
  assumes "st_rep ev st m" "m key = Some (ASet S)"
  shows "(\<exists>rs res. spopCommand ev rs st key = Some res) \<and>
    (\<forall>rs st' r p. spopCommand ev rs st key = Some (st', r, p) \<longrightarrow>
       (\<exists>e ob. r = SBulk e \<and> p = Some (key, ob) \<and> elem_str e \<in> S \<and> str_of ob = elem_str e \<and>
          st_rep ev st' (fst (spec_sop m (SRem key [ob]))) \<and> snd (spec_sop m (SRem key [ob])) = AInt 1 \<and>
          sd_touched st' = sd_touched st @ [key] \<and> sd_dirty st' = sd_dirty st + 1))"
proof -
  obtain so where so: "sd_keys st key = Some (SetVal so)" "set_rep ev so S" "S \<noteq> {}" "aset m key = S" using keys_rep_get [OF assms] by blast
  have step: "\<exists>st' e ob. spopCommand ev rs st key = Some (st', SBulk e, Some (key, ob)) \<and> elem_str e \<in> S \<and> str_of ob = elem_str e \<and>
          st_rep ev st' (fst (spec_sop m (SRem key [ob]))) \<and> snd (spec_sop m (SRem key [ob])) = AInt 1 \<and>
          sd_touched st' = sd_touched st @ [key] \<and> sd_dirty st' = sd_dirty st + 1"
    if g: "setTypeRandomElement ev rs so = Some (so1, e, rs')" for rs so1 e rs'
  proof -
    have m: "set_rep ev so1 S" "elem_str e \<in> S" "elem_ok e" using random_rep [OF so(2) g] by auto
    obtain so2 where so2: "(case (so1, e) of
                    (IntSet is, EInt llele) \<Rightarrow> map_option (\<lambda>p. IntSet (fst p)) (intsetRemove (se_jk ev) is llele)
                  | (HtSet d, EObj ele) \<Rightarrow> map_option fst (setTypeRemove ev so1 ele)
                  | _ \<Rightarrow> None) = Some so2" "set_rep ev so2 (S - {elem_str e})"
      using spop_remove [OF so(2) g] by blast
    let ?ob = "elem_object e"
    have ob: "str_of ?ob = elem_str e" by (rule elem_object_str [OF m(3)])
    let ?st1 = "notifyKeyspaceEvent ''spop'' (put_set st key so2) key"
    let ?st2 = "add_dirty 1 (signalModifiedKey (if setTypeSize so2 = 0 then notifyKeyspaceEvent ''del'' (fst (dbDelete ?st1 key)) key else ?st1) key)"
    have cmd: "spopCommand ev rs st key = Some (?st2, SBulk (EObj ?ob), Some (key, ?ob))"
      using so(1) g so2(1) by (simp add: spopCommand_def Let_def)
    have "sd_keys ?st2 = (if setTypeSize so2 = 0 then (sd_keys st)(key := None) else (sd_keys st)(key \<mapsto> SetVal so2))" by (simp add: state_defs)
    then have "st_rep ev ?st2 (aput m key (S - {elem_str e}))" using keys_rep_shrunk [OF assms(1) so2(2), of key] set_size [OF so2(2)] by simp
    moreover have "spec_sop m (SRem key [?ob]) = (aput m key (S - {elem_str e}), AInt 1)" using assms(2) so(4) m(2) ob by simp
    moreover have "elem_str (EObj ?ob) = elem_str e" using ob by (simp add: elem_str_def)
    ultimately show ?thesis using cmd m(2) ob by (intro exI [of _ ?st2] exI [of _ "EObj ?ob"] exI [of _ ?ob]) (simp add: state_defs)
  qed
  obtain x where "x \<in> S" using so(3) by blast
  then obtain rs so1 e where "setTypeRandomElement ev (rs @ []) so = Some (so1, e, [])" using can_draw [OF so(2)] by blast
  moreover have "\<exists>so1 e rs'. setTypeRandomElement ev rs so = Some (so1, e, rs')" if "spopCommand ev rs st key = Some res" for rs res
    using that so(1) by (auto simp: spopCommand_def split: bind_split_asm)
  ultimately show ?thesis using step by (metis (no_types, lifting) option.inject prod.inject)
qed

theorem spop_replicated_as_srem_witness:
  "\<exists>rs st' e ob. spopCommand demo_env rs demo_store [97] = Some (st', SBulk e, Some ([97], ob)) \<and> elem_str e \<in> {[49]} \<and> str_of ob = elem_str e \<and>
     st_rep demo_env st' (fst (spec_sop [[97] \<mapsto> ASet {[49]}] (SRem [97] [ob]))) \<and> snd (spec_sop [[97] \<mapsto> ASet {[49]}] (SRem [97] [ob])) = AInt 1 \<and>
     sd_touched st' = sd_touched demo_store @ [[97]] \<and> sd_dirty st' = sd_dirty demo_store + 1"
proof -
  have "st_rep demo_env demo_store [[97] \<mapsto> ASet {[49]}]" using demo_intset by (simp add: keys_rep_def)
  moreover have "[[97] \<mapsto> ASet {[49]}] [97] = Some (ASet {[49]})" by simp
  ultimately have w: "(\<exists>rs res. spopCommand demo_env rs demo_store [97] = Some res) \<and>
    (\<forall>rs st' r p. spopCommand demo_env rs demo_store [97] = Some (st', r, p) \<longrightarrow>
       (\<exists>e ob. r = SBulk e \<and> p = Some ([97], ob) \<and> elem_str e \<in> {[49]} \<and> str_of ob = elem_str e \<and>
          st_rep demo_env st' (fst (spec_sop [[97] \<mapsto> ASet {[49]}] (SRem [97] [ob]))) \<and> snd (spec_sop [[97] \<mapsto> ASet {[49]}] (SRem [97] [ob])) = AInt 1 \<and>
          sd_touched st' = sd_touched demo_store @ [[97]] \<and> sd_dirty st' = sd_dirty demo_store + 1))"
    by (rule spop_replicated_as_srem)
  then obtain rs st' r p where c: "spopCommand demo_env rs demo_store [97] = Some (st', r, p)" by (metis prod_cases3)
  from conjunct2 [OF w, rule_format, OF c] c show ?thesis by blast
qed

end
