(* ===== verification/Spec2Isabelle.thy ===== *)
theory Spec2Isabelle
  imports Util SdsText Intset Adlist Dict ZiplistSpec Glob NetOut NetIn Pubsub Slowlog Multi DictScan DictIter Lzf ZsetSpec Repl TsetRand
begin

text \<open>
  A verification development for the Redis server, version 2.8.19, as it is vendored under
  \<open>src/redis-stable\<close>.  (The rest of the repository is a small web application around it.)

  \<^bold>\<open>The program.\<close>  Redis is a single-threaded server.  An event loop (\<open>ae.c\<close>) calls handlers
  in \<open>networking.c\<close>: \<open>readQueryFromClient\<close> reads bytes into the query buffer of a client and
  cuts them into requests, \<open>processCommand\<close> in \<open>redis.c\<close> checks a request and runs it or queues
  it for a transaction (\<open>multi.c\<close>), the command changes the key space and appends replies to the
  output buffers, and \<open>sendReplyToClient\<close> writes them to the socket.  Messages between clients
  go through \<open>pubsub.c\<close>; slow commands are kept by \<open>slowlog.c\<close>.  All of it stands on a few data
  structures: dynamic strings (\<open>sds.c\<close>), linked lists (\<open>adlist.c\<close>), hash tables (\<open>dict.c\<close>) and
  the compact encodings \<open>intset.c\<close> and \<open>ziplist.c\<close>.

  \<^bold>\<open>How it is modelled.\<close>  The model is a shallow embedding of the C functions, one definition
  per function and one per loop, under the names of the source.  The platform is LP64,
  little-endian, with signed 8-bit characters.  Memory is explicit where the code handles it:
  a block is a list of bytes, a pointer an offset into it, and every access outside a block, every
  failed assertion and every use of a released node is the value \<open>None\<close>; a theorem that an
  operation returns \<open>Some\<close> is therefore also a memory-safety theorem.  Fresh memory holds
  arbitrary bytes, the parameter \<open>jk\<close>.  Machine integers are words or are written over \<open>nat\<close>
  and \<open>int\<close> with the wrap-around spelled out.  Loops are recursive functions with a termination
  proof, or \<open>partial_function\<close>s whose return is proved.

  \<^bold>\<open>The theories.\<close>
  \<^item> \<open>Prelude\<close>: checked access to buffers, fixed-width integers, little-endian encodings, and
    the interface \<open>byte_appender\<close> of everything bytes are appended to.
  \<^item> \<open>Util\<close>: \<open>ll2string\<close>, \<open>string2ll\<close> and \<open>string2l\<close> of \<open>util.c\<close>; \<open>string2ll\<close> accepts exactly
    the canonical decimal numbers.  \<open>Glob\<close>: \<open>stringmatchlen\<close>, equivalent to a declarative
    meaning of patterns on every non-empty string, with the patterns on which it goes wrong.
  \<^item> \<open>Sds\<close>, \<open>SdsText\<close>: \<open>sds.c\<close>, the invariant of the string header, the effect of every
    operation, and the round trips of \<open>sdsjoin\<close> and \<open>sdssplitlen\<close> and of \<open>sdscatrepr\<close> and
    \<open>sdssplitargs\<close>.  The appenders are an interpretation of \<open>byte_appender\<close>.
  \<^item> \<open>Adlist\<close>: \<open>adlist.c\<close> on an explicit heap of nodes, refining operations on lists; it provides
    the interface \<open>log_list\<close>, on which \<open>Slowlog\<close> (\<open>slowlog.c\<close>) is built.
  \<^item> \<open>Dict\<close>: \<open>dict.c\<close> with both tables and the incremental rehashing, refining partial functions
    for every hash function (interface \<open>kv_map\<close>).  \<open>DictScan\<close>: the stateless iteration
    \<open>dictScan\<close>: what a call returns exactly, what a full iteration returns, that it ends, and when it
    loses keys (a table that shrinks to a quarter or less while the cursor has bits of the larger one).
    \<open>DictIter\<close>: hash functions, iterators and random entries; a loop over a safe iterator that deletes
    entries is given every entry exactly once.
  \<^item> \<open>Intset\<close>: \<open>intset.c\<close> refines sets of integers (interface \<open>int_set\<close>).
  \<^item> \<open>Ziplist\<close> (encodings and operations of \<open>ziplist.c\<close>), \<open>ZiplistRep\<close> (what a block stands for),
    \<open>ZiplistOps\<close> (each operation on a well-formed block) and \<open>ZiplistSpec\<close> (the refinement of
    lists of strings, and the one insertion that reads outside the block).
  \<^item> \<open>Lzf\<close>: the compressor and the decompressor \<open>lzf_c.c\<close> and \<open>lzf_d.c\<close>: round trip, safety of the
    decompressor on non-empty input, and the byte the compressor writes too much.
  \<^item> \<open>Skiplist\<close> (the skip list of \<open>t_zset.c\<close>), \<open>SkiplistRep\<close> (what its nodes stand for), \<open>SkiplistSpec\<close>
    (its operations on a sorted list), \<open>Zset\<close> (the commands on sorted sets, on a skip list and a
    dictionary that agree) and \<open>ZsetSpec\<close> (the commands on a key refine operations on a map from
    objects to scores, interface \<open>score_map\<close>; ranges by string, with the case that goes wrong).
  \<^item> \<open>Object\<close> (string objects of \<open>object.c\<close> in both encodings, as keys of a dictionary), \<open>Tset\<close> (set
    objects of \<open>t_set.c\<close>, as intsets and as dictionaries, with their iterator), \<open>TsetCmd\<close> (the commands
    on a key space of sets), \<open>TsetSpec\<close> (what they promise over sets of strings; the commands on one
    set), \<open>TsetAlg\<close> (intersection, union and difference; interface \<open>string_sets\<close>); \<open>TsetRand\<close>: random
    members, with the loops that are proved able to return for some draws.  \<open>DictSize\<close>: the
    size of a dictionary and its shrinking, which sets and sorted sets share.
  \<^item> \<open>NetOut\<close>: the reply functions and the write handler of \<open>networking.c\<close>: replies are queued
    in order and sent without loss, whatever the socket accepts, and a client is freed only after a
    write error or when all was sent; also a \<open>byte_appender\<close>.
    \<open>NetIn\<close>: the read handler and the two request parsers: for every way the network cuts a
    pipeline of requests, exactly these requests are executed.
  \<^item> \<open>Pubsub\<close>: \<open>pubsub.c\<close>, the agreement of its tables and the delivery of messages.
  \<^item> \<open>Multi\<close>: \<open>multi.c\<close> with \<open>processCommand\<close> and \<open>call\<close> of \<open>redis.c\<close>: optimistic locking
    by the signals of the commands, the execution and propagation of a transaction (with forced
    propagation and rewritten arguments), and the effect of refused commands on its \<open>EXEC\<close>.
  \<^item> \<open>Repl\<close>: the master side of \<open>replication.c\<close>: the circular backlog, the propagation of commands
    and \<open>SYNC\<close> and \<open>PSYNC\<close>; the runs of a master are a step relation with the history of the stream,
    of which every slave gets the part it has to get.

  \<^bold>\<open>Bounds.\<close>  The refinement theorems hold up to stated sizes: \<open>INTSET_CAP\<close> (\<open>2\<^sup>2\<^sup>8\<close> elements, since
  the size of an integer set in bytes is computed in 32 bits), \<open>DICT_CAP\<close> (\<open>2\<^sup>3\<^sup>0\<close> entries, since a
  bucket index is returned as an \<open>int\<close>), \<open>sds_cap\<close> and \<open>zcap\<close> (the 32-bit lengths of strings and
  blocks), patterns and strings below \<open>2\<^sup>3\<^sup>1\<close> bytes for the glob matcher, and 512 MB for an
  argument of a request.  No fuel is used: every loop has a termination proof or is a
  \<open>partial_function\<close> that is proved to return; the loops that draw random numbers return for
  some draws, and what they return is right for all.

  \<^bold>\<open>Parameters.\<close>  \<open>jk\<close> (content of fresh memory), hash functions and comparison callbacks,
  \<open>ev\<close> and \<open>over\<close> (whether a client may be written to, whether it is over its output limit), the
  order in which a hash table lists its channels, the command table \<open>tbl\<close>, and all that the other
  commands do (\<open>eff\<close>, a function to the record \<open>outcome\<close>), of which the transactions assume nothing:
  the theorems speak of the signals the commands send, and a key that is deleted because it
  expired is not signalled.  For sorted sets, the random numbers that choose the height of a
  node, and the scores: any linear order with a zero and a partial sum \<open>dadd\<close>, undefined where
  the floating point sum is not a number.  For sets, the record \<open>senv\<close> (hash seed, configured
  limit, addresses of tables), the reference counts of the arguments, and \<open>qsort\<close>, of which only
  is assumed that it permutes (\<open>qsort_ok\<close>).

  \<^bold>\<open>Not modelled.\<close>  Input and output themselves (sockets, files, child processes): \<open>ae.c\<close>,
  \<open>anet.c\<close>, \<open>aof.c\<close>, \<open>bio.c\<close>; the transfer of snapshots and the slave side of \<open>replication.c\<close>,
  and \<open>sentinel.c\<close>; the snapshot format (\<open>rdb.c\<close>, \<open>rio.c\<close>); \<open>scripting.c\<close>, which is a bridge to
  Lua; configuration, debugging and the client programs; the commands on values other than sets
  and sorted sets (\<open>t_string.c\<close>, \<open>t_list.c\<close>, \<open>t_hash.c\<close>, \<open>bitops.c\<close>, \<open>hyperloglog.c\<close> and most of
  \<open>db.c\<close>), which are a parameter of the transactions; of sorted sets the ziplist encoding, unions
  and intersections, and of sets \<open>SSCAN\<close>; reference counts and the access time of objects;
  and the vendored libraries.  
\<close>

end
